(* ===== verification/Prelude.thy ===== *)
theory Prelude
  imports Main "HOL-Library.Word" "HOL-Library.Char_ord" "HOL-Library.List_Lexorder"
    "HOL-Library.Product_Lexorder"
begin

text \<open>
  Shared vocabulary of the development: Rust strings and byte vectors as lists of 8-bit
  characters (a \<open>String\<close> is its UTF-8 bytes), the handful of \<open>str\<close> methods the sources call
  (\<open>strip_prefix\<close>, \<open>split_once\<close>, \<open>split\<close>, \<open>trim\<close>, \<open>trim_matches\<close>, \<open>to_ascii_lowercase\<close>,
  \<open>parse::<u64>\<close>), \<open>u64\<close> arithmetic on 64-bit words, and the result monad in which the
  storage-facing operations are written. Ordering on strings is Rust's: lexicographic on
  bytes (\<open>Char_ord\<close> and \<open>List_Lexorder\<close>); tuples are ordered lexicographically
  (\<open>Product_Lexorder\<close>), as the derived \<open>Ord\<close> of a Rust tuple is.
\<close>

named_theorems str_simps \<open>unfolding rules of the Rust string methods\<close>
named_theorems io_simps \<open>evaluation rules of the result monad\<close>

type_synonym bytes = string
type_synonym u64 = "64 word"

section \<open>Errors and the result monad\<close>

text \<open>
  \<open>anyhow::Error\<close> as a value. Callers tell apart \<open>NotFound\<close> (\<open>storage::is_not_found\<close>),
  \<open>Contended\<close> (a write that lost a race, \<open>replicate.rs\<close>) and \<open>StoreError\<close>, a call the store failed
  to answer, known by the signal \<open>observed_storage.rs\<close> reduces it to; every other failure is a
  \<open>Bail\<close> carrying its message.
\<close>

datatype bucket_signal =
  Success | Timeout | ConnectionFailure | HttpStatus nat | KmsError | QuotaError | ConfigurationError | OtherError

datatype err = NotFound string | Bail string | Contended string | StoreError bucket_signal

type_synonym 'a res = "err + 'a"

definition is_not_found :: "err \<Rightarrow> bool" where
  "is_not_found e = (case e of NotFound _ \<Rightarrow> True | _ \<Rightarrow> False)"

lemma is_not_found_simps [simp]:
  "is_not_found (NotFound k)" "\<not> is_not_found (Bail m)" "\<not> is_not_found (Contended m)" "\<not> is_not_found (StoreError sg)"
  by (simp_all add: is_not_found_def)

text \<open>An outcome that is a failure of the store.\<close>

definition unanswered :: "'a res \<Rightarrow> bool" where
  "unanswered r = (case r of Inl (StoreError _) \<Rightarrow> True | _ \<Rightarrow> False)"

lemma unanswered_iff: "unanswered r \<longleftrightarrow> (\<exists>sg. r = Inl (StoreError sg))"
  by (cases r) (auto simp: unanswered_def split: err.splits)

lemma unanswered_simps [simp]: "unanswered (Inl (StoreError sg))" "\<not> unanswered (Inr x)"
  by (simp_all add: unanswered_def)

lemma unansweredE [elim!]: "unanswered r \<Longrightarrow> (\<And>sg. r = Inl (StoreError sg) \<Longrightarrow> P) \<Longrightarrow> P"
  unfolding unanswered_iff by blast

text \<open>
  An operation on mutable state \<open>'s\<close>: the outcome together with the state it leaves, so an
  error keeps the effects that preceded it.
\<close>

type_synonym ('s, 'a) io = "'s \<Rightarrow> 'a res \<times> 's"

definition ret :: "'a \<Rightarrow> ('s, 'a) io" where
  "ret x = (\<lambda>s. (Inr x, s))"

definition fail :: "err \<Rightarrow> ('s, 'a) io" where
  "fail e = (\<lambda>s. (Inl e, s))"

definition andThen :: "('s, 'a) io \<Rightarrow> ('a \<Rightarrow> ('s, 'b) io) \<Rightarrow> ('s, 'b) io" where
  "andThen m f = (\<lambda>s. case m s of (Inl e, s') \<Rightarrow> (Inl e, s') | (Inr x, s') \<Rightarrow> f x s')"

text \<open>\<open>match m \{ Ok x => f x, Err e => h e \}\<close>: the outcome is inspected, never propagated.\<close>

definition onResult :: "('s, 'a) io \<Rightarrow> (err \<Rightarrow> ('s, 'b) io) \<Rightarrow> ('a \<Rightarrow> ('s, 'b) io) \<Rightarrow> ('s, 'b) io" where
  "onResult m h f = (\<lambda>s. case m s of (Inl e, s') \<Rightarrow> h e s' | (Inr x, s') \<Rightarrow> f x s')"

lemma ret_apply [io_simps]: "ret x s = (Inr x, s)"
  by (simp add: ret_def)

lemma fail_apply [io_simps]: "fail e s = (Inl e, s)"
  by (simp add: fail_def)

lemma andThen_Inr [io_simps]: "m s = (Inr x, s') \<Longrightarrow> andThen m f s = f x s'"
  by (simp add: andThen_def)

lemma andThen_Inl [io_simps]: "m s = (Inl e, s') \<Longrightarrow> andThen m f s = (Inl e, s')"
  by (simp add: andThen_def)

lemma andThen_InrE:
  assumes "andThen m f s = (Inr y, s'')"
  obtains x s' where "m s = (Inr x, s')" and "f x s' = (Inr y, s'')"
  using assms by (auto simp: andThen_def split: prod.splits sum.splits)

lemma onResult_Inr [io_simps]: "m s = (Inr x, s') \<Longrightarrow> onResult m h f s = f x s'"
  by (simp add: onResult_def)

lemma onResult_Inl [io_simps]: "m s = (Inl e, s') \<Longrightarrow> onResult m h f s = h e s'"
  by (simp add: onResult_def)

section \<open>ASCII classification\<close>

definition is_ascii_lowercase :: "char \<Rightarrow> bool" where
  "is_ascii_lowercase c = (let n = (of_char c :: nat) in 97 \<le> n \<and> n \<le> 122)"

definition is_ascii_uppercase :: "char \<Rightarrow> bool" where
  "is_ascii_uppercase c = (let n = (of_char c :: nat) in 65 \<le> n \<and> n \<le> 90)"

definition is_ascii_digit :: "char \<Rightarrow> bool" where
  "is_ascii_digit c = (let n = (of_char c :: nat) in 48 \<le> n \<and> n \<le> 57)"

definition is_ascii_alphanumeric :: "char \<Rightarrow> bool" where
  "is_ascii_alphanumeric c = (is_ascii_lowercase c \<or> is_ascii_uppercase c \<or> is_ascii_digit c)"

definition is_ascii_hexdigit :: "char \<Rightarrow> bool" where
  "is_ascii_hexdigit c = (let n = (of_char c :: nat) in
     48 \<le> n \<and> n \<le> 57 \<or> 65 \<le> n \<and> n \<le> 70 \<or> 97 \<le> n \<and> n \<le> 102)"

definition to_ascii_lower :: "char \<Rightarrow> char" where
  "to_ascii_lower c = (if is_ascii_uppercase c then char_of ((of_char c :: nat) + 32) else c)"

definition to_ascii_lowercase :: "string \<Rightarrow> string" where
  "to_ascii_lowercase s = map to_ascii_lower s"

definition eq_ignore_ascii_case :: "string \<Rightarrow> string \<Rightarrow> bool" where
  "eq_ignore_ascii_case a b = (to_ascii_lowercase a = to_ascii_lowercase b)"

lemma of_char_to_ascii_lower:
  "(of_char (to_ascii_lower c) :: nat) =
     (if is_ascii_uppercase c then of_char c + 32 else of_char c)"
proof (cases "is_ascii_uppercase c")
  case True
  then have "(of_char c :: nat) + 32 < 256"
    by (simp add: is_ascii_uppercase_def Let_def)
  then show ?thesis
    using True by (simp add: to_ascii_lower_def take_bit_eq_mod)
qed (simp add: to_ascii_lower_def)

lemma to_ascii_lower_not_upper [simp]: "\<not> is_ascii_uppercase (to_ascii_lower c)"
  using of_char_to_ascii_lower [of c]
  by (auto simp: is_ascii_uppercase_def Let_def split: if_splits)

lemma to_ascii_lower_idem [simp]: "to_ascii_lower (to_ascii_lower c) = to_ascii_lower c"
  by (subst to_ascii_lower_def) simp

lemma to_ascii_lower_digit [simp]: "is_ascii_digit (to_ascii_lower c) = is_ascii_digit c"
  using of_char_to_ascii_lower [of c]
  by (auto simp: is_ascii_digit_def is_ascii_uppercase_def Let_def)

lemma to_ascii_lower_lower:
  "is_ascii_lowercase (to_ascii_lower c) = (is_ascii_lowercase c \<or> is_ascii_uppercase c)"
  using of_char_to_ascii_lower [of c]
  by (auto simp: is_ascii_lowercase_def is_ascii_uppercase_def Let_def)

lemma to_ascii_lower_id: "\<not> is_ascii_uppercase c \<Longrightarrow> to_ascii_lower c = c"
  by (simp add: to_ascii_lower_def)

lemma lowercase_not_upper: "is_ascii_lowercase c \<Longrightarrow> \<not> is_ascii_uppercase c"
  by (auto simp: is_ascii_lowercase_def is_ascii_uppercase_def Let_def)

lemma digit_not_upper: "is_ascii_digit c \<Longrightarrow> \<not> is_ascii_uppercase c"
  by (auto simp: is_ascii_digit_def is_ascii_uppercase_def Let_def)

lemma to_ascii_lowercase_idem [simp]:
  "to_ascii_lowercase (to_ascii_lowercase s) = to_ascii_lowercase s"
  by (simp add: to_ascii_lowercase_def)

lemma length_to_ascii_lowercase [simp]: "length (to_ascii_lowercase s) = length s"
  by (simp add: to_ascii_lowercase_def)

section \<open>Rust string methods\<close>

text \<open>\<open>starts_with\<close>, \<open>ends_with\<close>, \<open>strip_prefix\<close> and \<open>strip_suffix\<close> with a string pattern.\<close>

fun starts_with :: "string \<Rightarrow> string \<Rightarrow> bool" where
  "starts_with s [] = True"
| "starts_with [] (p # ps) = False"
| "starts_with (c # s) (p # ps) = (c = p \<and> starts_with s ps)"

definition ends_with :: "string \<Rightarrow> string \<Rightarrow> bool" where
  "ends_with s p = starts_with (rev s) (rev p)"

definition strip_prefix :: "string \<Rightarrow> string \<Rightarrow> string option" where
  "strip_prefix s p = (if starts_with s p then Some (drop (length p) s) else None)"

definition strip_suffix :: "string \<Rightarrow> string \<Rightarrow> string option" where
  "strip_suffix s p = (if ends_with s p then Some (take (length s - length p) s) else None)"

lemma starts_with_iff: "starts_with s p \<longleftrightarrow> (\<exists>r. s = p @ r)"
  by (induction s p rule: starts_with.induct) auto

lemma starts_with_append [simp]: "starts_with (p @ r) p"
  by (auto simp: starts_with_iff)

lemma starts_with_refl [simp]: "starts_with p p"
  using starts_with_append [of p "[]"] by simp

lemma starts_with_appendD: "starts_with s (p @ q) \<Longrightarrow> starts_with s p"
  by (auto simp: starts_with_iff)

lemma ends_with_iff: "ends_with s p \<longleftrightarrow> (\<exists>r. s = r @ p)"
  unfolding ends_with_def starts_with_iff
  by (metis rev_append rev_rev_ident)

lemma ends_with_append [simp]: "ends_with (r @ p) p"
  by (auto simp: ends_with_iff)

lemma starts_with_single: "starts_with s [c] \<longleftrightarrow> s \<noteq> [] \<and> hd s = c"
  by (cases s) auto

lemma ends_with_single: "ends_with s [c] \<longleftrightarrow> s \<noteq> [] \<and> last s = c"
  by (simp add: ends_with_def starts_with_single hd_rev)

lemma strip_prefix_append [simp]: "strip_prefix (p @ r) p = Some r"
  by (simp add: strip_prefix_def)

lemma strip_prefix_Some_iff: "strip_prefix s p = Some r \<longleftrightarrow> s = p @ r"
  by (auto simp: strip_prefix_def starts_with_iff)

lemma strip_suffix_append [simp]: "strip_suffix (r @ p) p = Some r"
  by (simp add: strip_suffix_def)

lemma strip_suffix_Some_iff: "strip_suffix s p = Some r \<longleftrightarrow> s = r @ p"
  by (auto simp: strip_suffix_def ends_with_iff)

lemma strip_suffix_None_iff: "strip_suffix s p = None \<longleftrightarrow> \<not> ends_with s p"
  by (simp add: strip_suffix_def)

text \<open>\<open>split_once(c)\<close>: the text before the first \<open>c\<close> and the text after it.\<close>

fun split_once :: "string \<Rightarrow> char \<Rightarrow> (string \<times> string) option" where
  "split_once [] d = None"
| "split_once (c # s) d =
     (if c = d then Some ([], s)
      else (case split_once s d of None \<Rightarrow> None | Some (a, b) \<Rightarrow> Some (c # a, b)))"

lemma split_once_append:
  "d \<notin> set a \<Longrightarrow> split_once (a @ d # b) d = Some (a, b)"
  by (induction a) auto

lemma split_once_SomeD: "split_once s d = Some (a, b) \<Longrightarrow> s = a @ d # b \<and> d \<notin> set a"
  by (induction s arbitrary: a b) (auto split: if_splits option.splits)

lemma split_once_None_iff: "split_once s d = None \<longleftrightarrow> d \<notin> set s"
  by (induction s) (auto split: option.splits)

text \<open>\<open>rsplit_once(c)\<close>: the text before the last \<open>c\<close> and the text after it.\<close>

definition rsplit_once :: "string \<Rightarrow> char \<Rightarrow> (string \<times> string) option" where
  "rsplit_once s d = map_option (\<lambda>(a, b). (rev b, rev a)) (split_once (rev s) d)"

lemma rsplit_once_append: "d \<notin> set b \<Longrightarrow> rsplit_once (a @ d # b) d = Some (a, b)"
  by (simp add: rsplit_once_def split_once_append)

lemma rsplit_once_SomeD: "rsplit_once s d = Some (a, b) \<Longrightarrow> s = a @ d # b \<and> d \<notin> set b"
  by (auto simp: rsplit_once_def rev_swap dest!: split_once_SomeD)

text \<open>\<open>split(c).collect()\<close>: never empty; the pieces contain no separator.\<close>

fun split_on :: "char \<Rightarrow> string \<Rightarrow> string list" where
  "split_on d [] = [[]]"
| "split_on d (c # s) =
     (if c = d then [] # split_on d s
      else (case split_on d s of [] \<Rightarrow> [[c]] | p # ps \<Rightarrow> (c # p) # ps))"

lemma split_on_nonempty [simp]: "split_on d s \<noteq> []"
  by (induction s) (auto split: list.splits)

lemma split_on_pieces: "p \<in> set (split_on d s) \<Longrightarrow> d \<notin> set p"
  by (induction s arbitrary: p) (auto split: list.splits if_splits)

lemma split_on_no_sep: "d \<notin> set s \<Longrightarrow> split_on d s = [s]"
  by (induction s) auto

text \<open>
  \<open>trim_matches(c)\<close> strips a character from both ends. \<open>trim()\<close> strips Unicode
  \<open>White_Space\<close>, here in UTF-8.
\<close>

definition trim_start_matches :: "char \<Rightarrow> string \<Rightarrow> string" where
  "trim_start_matches d s = dropWhile (\<lambda>c. c = d) s"

definition trim_end_matches :: "char \<Rightarrow> string \<Rightarrow> string" where
  "trim_end_matches d s = rev (dropWhile (\<lambda>c. c = d) (rev s))"

definition trim_matches :: "char \<Rightarrow> string \<Rightarrow> string" where
  "trim_matches d s = trim_end_matches d (trim_start_matches d s)"

definition ws_chars :: "string list" where
  "ws_chars =
    [[CHR 0x09], [CHR 0x0A], [CHR 0x0B], [CHR 0x0C], [CHR 0x0D], [CHR 0x20],
      [CHR 0xC2, CHR 0x85], [CHR 0xC2, CHR 0xA0], [CHR 0xE1, CHR 0x9A, CHR 0x80],
      [CHR 0xE2, CHR 0x80, CHR 0x80], [CHR 0xE2, CHR 0x80, CHR 0x81],
      [CHR 0xE2, CHR 0x80, CHR 0x82], [CHR 0xE2, CHR 0x80, CHR 0x83],
      [CHR 0xE2, CHR 0x80, CHR 0x84], [CHR 0xE2, CHR 0x80, CHR 0x85],
      [CHR 0xE2, CHR 0x80, CHR 0x86], [CHR 0xE2, CHR 0x80, CHR 0x87],
      [CHR 0xE2, CHR 0x80, CHR 0x88], [CHR 0xE2, CHR 0x80, CHR 0x89],
      [CHR 0xE2, CHR 0x80, CHR 0x8A], [CHR 0xE2, CHR 0x80, CHR 0xA8],
      [CHR 0xE2, CHR 0x80, CHR 0xA9], [CHR 0xE2, CHR 0x80, CHR 0xAF],
      [CHR 0xE2, CHR 0x81, CHR 0x9F], [CHR 0xE3, CHR 0x80, CHR 0x80]]"

fun strip_all :: "nat \<Rightarrow> string list \<Rightarrow> string \<Rightarrow> string" where
  "strip_all 0 ws s = s"
| "strip_all (Suc n) ws s =
     (case find (starts_with s) ws of None \<Rightarrow> s | Some w \<Rightarrow> strip_all n ws (drop (length w) s))"

definition trim_start :: "string \<Rightarrow> string" where
  "trim_start s = strip_all (length s) ws_chars s"

definition trim_end :: "string \<Rightarrow> string" where
  "trim_end s = rev (strip_all (length s) (map rev ws_chars) (rev s))"

definition trim :: "string \<Rightarrow> string" where
  "trim s = trim_end (trim_start s)"

lemma ws_chars_nonempty: "w \<in> set ws_chars \<Longrightarrow> w \<noteq> []"
  by (auto simp: ws_chars_def)

text \<open>One unit of fuel per byte is enough: the result starts with no stripped token.\<close>

lemma strip_all_done:
  assumes "\<forall>w\<in>set ws. w \<noteq> []" and "length s \<le> n"
  shows "find (starts_with (strip_all n ws s)) ws = None"
  using assms(2)
proof (induction n arbitrary: s)
  case 0
  then show ?case
    using assms(1) by (auto simp: find_None_iff neq_Nil_conv)
next
  case (Suc n)
  show ?case
  proof (cases "find (starts_with s) ws")
    case None
    then show ?thesis by simp
  next
    case (Some w)
    then have "w \<in> set ws"
      by (auto simp: find_Some_iff)
    then have "w \<noteq> []"
      using assms(1) by auto
    then have "length (drop (length w) s) \<le> n"
      using Suc.prems by (cases w) simp_all
    then show ?thesis
      using Suc.IH Some by simp
  qed
qed

lemma strip_all_fixed: "find (starts_with s) ws = None \<Longrightarrow> strip_all n ws s = s"
  by (cases n) auto

text \<open>A string with no leading or trailing whitespace token is its own \<open>trim\<close>.\<close>

definition graphic :: "char \<Rightarrow> bool" where
  "graphic c = (33 \<le> (of_char c :: nat) \<and> (of_char c :: nat) < 128)"

lemma ws_edges: "list_all (\<lambda>w. \<not> graphic (hd w) \<and> \<not> graphic (last w)) ws_chars"
  by code_simp

lemma trim_graphic:
  assumes "s = [] \<or> graphic (hd s) \<and> graphic (last s)"
  shows "trim s = s"
proof (cases "s = []")
  case False
  then have h: "graphic (hd s)" "graphic (last s)"
    using assms by auto
  have edges: "w \<noteq> []" "\<not> graphic (hd w)" "\<not> graphic (last w)" if "w \<in> set ws_chars" for w
    using that ws_edges ws_chars_nonempty by (auto simp: list_all_iff)
  have "\<not> starts_with s w" if "w \<in> set ws_chars" for w
    using edges [OF that] h(1) by (auto simp: starts_with_iff)
  then have a: "find (starts_with s) ws_chars = None"
    by (auto simp: find_None_iff)
  have "\<not> ends_with s w" if "w \<in> set ws_chars" for w
    using edges [OF that] h(2) by (auto simp: ends_with_iff)
  then have b: "find (starts_with (rev s)) (map rev ws_chars) = None"
    by (auto simp: find_None_iff ends_with_def)
  show ?thesis
    by (simp add: trim_def trim_start_def trim_end_def strip_all_fixed a b)
qed (simp add: trim_def trim_start_def trim_end_def)

text \<open>\<open>std::str::from_utf8\<close> accepts exactly the well-formed UTF-8 sequences.\<close>

definition byte_in :: "nat \<Rightarrow> nat \<Rightarrow> char \<Rightarrow> bool" where
  "byte_in lo hi c = (let n = (of_char c :: nat) in lo \<le> n \<and> n \<le> hi)"

fun utf8_valid :: "bytes \<Rightarrow> bool" where
  "utf8_valid [] = True"
| "utf8_valid [a] = byte_in 0x00 0x7F a"
| "utf8_valid [a, b] =
     (if byte_in 0x00 0x7F a then utf8_valid [b] else byte_in 0xC2 0xDF a \<and> byte_in 0x80 0xBF b)"
| "utf8_valid [a, b, c] =
     (if byte_in 0x00 0x7F a then utf8_valid [b, c]
      else if byte_in 0xC2 0xDF a then byte_in 0x80 0xBF b \<and> utf8_valid [c]
      else byte_in 0x80 0xBF c \<and>
        (byte_in 0xE0 0xE0 a \<and> byte_in 0xA0 0xBF b \<or> byte_in 0xE1 0xEC a \<and> byte_in 0x80 0xBF b
         \<or> byte_in 0xED 0xED a \<and> byte_in 0x80 0x9F b \<or> byte_in 0xEE 0xEF a \<and> byte_in 0x80 0xBF b))"
| "utf8_valid (a # b # c # d # rest) =
     (if byte_in 0x00 0x7F a then utf8_valid (b # c # d # rest)
      else if byte_in 0xC2 0xDF a then byte_in 0x80 0xBF b \<and> utf8_valid (c # d # rest)
      else byte_in 0x80 0xBF c \<and>
        ((byte_in 0xE0 0xE0 a \<and> byte_in 0xA0 0xBF b \<or> byte_in 0xE1 0xEC a \<and> byte_in 0x80 0xBF b
          \<or> byte_in 0xED 0xED a \<and> byte_in 0x80 0x9F b \<or> byte_in 0xEE 0xEF a \<and> byte_in 0x80 0xBF b)
           \<and> utf8_valid (d # rest)
         \<or> byte_in 0x80 0xBF d \<and>
           (byte_in 0xF0 0xF0 a \<and> byte_in 0x90 0xBF b \<or> byte_in 0xF1 0xF3 a \<and> byte_in 0x80 0xBF b
            \<or> byte_in 0xF4 0xF4 a \<and> byte_in 0x80 0x8F b) \<and> utf8_valid rest))"

lemma utf8_valid_ascii: "list_all (byte_in 0x00 0x7F) s \<Longrightarrow> utf8_valid s"
  by (induction s rule: utf8_valid.induct) auto

text \<open>\<open>filter_map\<close> keeps the values of the elements it is defined on.\<close>

lemma set_map_filter: "set (List.map_filter f xs) = {y. \<exists>x\<in>set xs. f x = Some y}"
  by (induction xs) (auto simp: List.map_filter_simps split: option.splits)

lemma map_filter_append: "List.map_filter f (xs @ ys) = List.map_filter f xs @ List.map_filter f ys"
  by (simp add: List.map_filter_def)

section \<open>Decimal numbers\<close>

definition digit_val :: "char \<Rightarrow> nat" where
  "digit_val c = of_char c - 48"

definition digits_val :: "string \<Rightarrow> nat" where
  "digits_val s = foldl (\<lambda>n c. 10 * n + digit_val c) 0 s"

text \<open>
  \<open>str::parse::<u64>\<close>: an optional leading \<open>+\<close>, then one or more decimal digits whose value
  fits 64 bits.
\<close>

definition parse_u64 :: "string \<Rightarrow> u64 option" where
  "parse_u64 s = (let d = (case strip_prefix s ''+'' of Some r \<Rightarrow> r | None \<Rightarrow> s) in
     if d \<noteq> [] \<and> list_all is_ascii_digit d \<and> digits_val d < 2 ^ 64
     then Some (of_nat (digits_val d)) else None)"

text \<open>\<open>format!("{n}")\<close> for an unsigned integer.\<close>

fun show_nat :: "nat \<Rightarrow> string" where
  "show_nat n = (if n < 10 then [char_of (48 + n)] else show_nat (n div 10) @ [char_of (48 + n mod 10)])"

declare show_nat.simps [simp del]

lemma of_char_digit: "d < 10 \<Longrightarrow> (of_char (char_of (48 + d :: nat)) :: nat) = 48 + d"
  by (simp add: take_bit_eq_mod)

lemma digits_val_snoc: "digits_val (s @ [c]) = 10 * digits_val s + digit_val c"
  by (simp add: digits_val_def)

lemma digits_val_show_nat: "digits_val (show_nat n) = n"
proof (induction n rule: show_nat.induct)
  case (1 n)
  show ?case
  proof (cases "n < 10")
    case True
    then show ?thesis
      by (simp add: show_nat.simps [of n] digits_val_def digit_val_def of_char_digit)
  next
    case False
    have "digit_val (char_of (48 + n mod 10)) = n mod 10"
      by (simp add: digit_val_def of_char_digit)
    with False "1.IH" show ?thesis
      by (simp add: show_nat.simps [of n] digits_val_snoc)
  qed
qed

lemma show_nat_digits: "list_all is_ascii_digit (show_nat n)"
proof (induction n rule: show_nat.induct)
  case (1 n)
  then show ?case
    by (cases "n < 10") (auto simp: show_nat.simps [of n] is_ascii_digit_def Let_def of_char_digit)
qed

lemma show_nat_nonempty [simp]: "show_nat n \<noteq> []"
  by (simp add: show_nat.simps)

lemma show_nat_inject [simp]: "show_nat m = show_nat n \<longleftrightarrow> m = n"
  by (metis digits_val_show_nat)

lemma show_nat_no_plus: "strip_prefix (show_nat n) ''+'' = None"
proof -
  have "\<not> is_ascii_digit CHR ''+''"
    by (simp add: is_ascii_digit_def)
  then show ?thesis
    using show_nat_digits [of n]
    by (auto simp: strip_prefix_def starts_with_iff)
qed

lemma parse_u64_show_nat: "n < 2 ^ 64 \<Longrightarrow> parse_u64 (show_nat n) = Some (of_nat n)"
  by (simp add: parse_u64_def show_nat_no_plus show_nat_digits digits_val_show_nat)

section \<open>Unsigned 64-bit arithmetic\<close>

definition saturating_add :: "u64 \<Rightarrow> u64 \<Rightarrow> u64" where
  "saturating_add a b = (if unat a + unat b < 2 ^ 64 then a + b else - 1)"

definition abs_diff :: "u64 \<Rightarrow> u64 \<Rightarrow> u64" where
  "abs_diff a b = (if a < b then b - a else a - b)"

lemma saturating_add_ge: "a \<le> saturating_add a b"
proof (cases "unat a + unat b < 2 ^ 64")
  case True
  then show ?thesis
    by (simp add: saturating_add_def word_le_nat_alt unat_word_ariths)
qed (simp add: saturating_add_def word_order.extremum)

lemma saturating_add_one_gt: "a \<noteq> - 1 \<Longrightarrow> a < saturating_add a 1"
proof -
  assume "a \<noteq> - 1"
  then have "unat a \<noteq> unat (- 1 :: u64)"
    by (simp only: word_unat_eq_iff [symmetric] not_False_eq_True)
  moreover have "unat a < 2 ^ LENGTH(64)"
    by (rule unsigned_less)
  ultimately have "unat a + 1 < 2 ^ 64"
    by (simp add: unsigned_minus_1_eq_mask mask_eq_exp_minus_1)
  then show ?thesis
    by (simp add: saturating_add_def word_less_nat_alt unat_word_ariths)
qed

lemma saturating_add_one:
  "if a = - 1 then saturating_add a 1 = - 1 else a < saturating_add a 1 \<and> saturating_add a 1 = a + 1"
proof (cases "a = - 1")
  case True
  then show ?thesis
    by (simp add: saturating_add_def unsigned_minus_1_eq_mask mask_eq_exp_minus_1)
next
  case False
  then have "a < saturating_add a 1"
    by (rule saturating_add_one_gt)
  moreover have "saturating_add a 1 = a + 1"
  proof -
    have "unat a \<noteq> unat (- 1 :: u64)"
      using False by (simp only: word_unat_eq_iff [symmetric] not_False_eq_True)
    moreover have "unat a < 2 ^ LENGTH(64)"
      by (rule unsigned_less)
    ultimately show ?thesis
      by (simp add: saturating_add_def unsigned_minus_1_eq_mask mask_eq_exp_minus_1)
  qed
  ultimately show ?thesis
    using False by simp
qed

lemma unat_abs_diff: "unat (abs_diff a b) = (if unat a < unat b then unat b - unat a else unat a - unat b)"
  by (auto simp: abs_diff_def word_less_nat_alt unat_sub word_le_nat_alt)

lemma abs_diff_commute: "abs_diff a b = abs_diff b a"
  by (simp add: word_unat_eq_iff unat_abs_diff)

end
