(* ===== verification/Names.thy ===== *)
theory Names
  imports Prelude
begin

text \<open>
  \<open>src/names.rs\<close>: package-name normalization (PEP 503), the reserved-name patterns that
  stop dependency confusion, and the filename grammar of wheels and sdists. PEP 440 parsing
  is the \<open>pep440_rs\<close> crate's, so it is a parameter \<open>parse_version\<close> of the definitions that
  use it.
\<close>

section \<open>Normalization\<close>

definition is_sep :: "char \<Rightarrow> bool" where
  "is_sep ch = (ch = CHR ''-'' \<or> ch = CHR ''_'' \<or> ch = CHR ''.'')"

fun normalize_loop :: "string \<Rightarrow> string \<Rightarrow> bool \<Rightarrow> string" where
  "normalize_loop [] out last_dash = out"
| "normalize_loop (ch # cs) out last_dash =
     (if is_sep ch then
        (if \<not> last_dash then normalize_loop cs (out @ ''-'') True
         else normalize_loop cs out last_dash)
      else normalize_loop cs (out @ [ch]) False)"

definition normalize_pkg_name :: "string \<Rightarrow> string" where
  "normalize_pkg_name name = trim_matches CHR ''-'' (normalize_loop (to_ascii_lowercase name) [] False)"

definition MAX_PKG_NAME_BYTES :: nat where
  "MAX_PKG_NAME_BYTES = 256"

definition is_normalized :: "string \<Rightarrow> bool" where
  "is_normalized name =
     (name \<noteq> [] \<and> length name \<le> MAX_PKG_NAME_BYTES
      \<and> \<not> starts_with name ''-'' \<and> \<not> ends_with name ''-''
      \<and> list_all (\<lambda>b. is_ascii_lowercase b \<or> is_ascii_digit b \<or> b = CHR ''-'') name)"

definition checked_pkg_name :: "string \<Rightarrow> string option" where
  "checked_pkg_name raw = (let name = normalize_pkg_name raw in
     if is_normalized name then Some name else None)"

section \<open>Filename grammar\<close>

definition SDIST_EXTS :: "string list" where
  "SDIST_EXTS = [''.tar.gz'', ''.tar.bz2'', ''.tar.xz'', ''.zip'', ''.tgz'']"

definition strip_sdist_ext :: "string \<Rightarrow> string option" where
  "strip_sdist_ext filename = (let lower = to_ascii_lowercase filename in
     map_option (\<lambda>ext. take (length filename - length ext) filename)
       (find (\<lambda>ext. ends_with lower ext) SDIST_EXTS))"

text \<open>
  The first dash whose right-hand side parses as a version: \<open>before\<close> accumulates the text
  already passed.
\<close>

fun split_sdist_at :: "(string \<Rightarrow> 'v option) \<Rightarrow> string \<Rightarrow> string \<Rightarrow> (string \<times> string) option" where
  "split_sdist_at parse_version before [] = None"
| "split_sdist_at parse_version before (c # rest) =
     (if c = CHR ''-'' \<and> parse_version rest \<noteq> None then Some (before, rest)
      else split_sdist_at parse_version (before @ [c]) rest)"

definition split_sdist_stem :: "(string \<Rightarrow> 'v option) \<Rightarrow> string \<Rightarrow> (string \<times> string) option" where
  "split_sdist_stem parse_version stem = split_sdist_at parse_version [] stem"

definition infer_package_from_filename :: "(string \<Rightarrow> 'v option) \<Rightarrow> string \<Rightarrow> string" where
  "infer_package_from_filename parse_version filename =
     (let stem = last (split_on CHR ''/'' filename);
          dist = (case strip_sdist_ext stem of
                    Some sdist_stem \<Rightarrow>
                      (case split_sdist_stem parse_version sdist_stem of
                         Some (name, _) \<Rightarrow> name | None \<Rightarrow> sdist_stem)
                  | None \<Rightarrow>
                      (case split_once stem CHR ''-'' of Some (name, _) \<Rightarrow> name | None \<Rightarrow> stem))
      in normalize_pkg_name dist)"

definition infer_version_from_filename :: "(string \<Rightarrow> 'v option) \<Rightarrow> string \<Rightarrow> string option" where
  "infer_version_from_filename parse_version filename =
     (case strip_suffix filename ''.whl'' of
        Some stem \<Rightarrow> (let parts = split_on CHR ''-'' stem in
          if 1 < length parts then Some (parts ! 1) else None)
      | None \<Rightarrow>
          (case strip_sdist_ext filename of
             None \<Rightarrow> None
           | Some stem \<Rightarrow> map_option snd (split_sdist_stem parse_version stem)))"

fun fold_version_loop :: "string \<Rightarrow> string \<Rightarrow> string" where
  "fold_version_loop [] folded = folded"
| "fold_version_loop (ch # cs) folded =
     (if is_ascii_alphanumeric ch then fold_version_loop cs (folded @ [to_ascii_lower ch])
      else if \<not> ends_with folded ''_'' then fold_version_loop cs (folded @ ''_'')
      else fold_version_loop cs folded)"

definition fold_version :: "string \<Rightarrow> string" where
  "fold_version version = trim_matches CHR ''_'' (fold_version_loop version [])"

record wheel_tags =
  python :: "string list"
  abi :: "string list"
  platform :: "string list"

definition parse_wheel_tags :: "string \<Rightarrow> wheel_tags option" where
  "parse_wheel_tags filename =
     (case strip_suffix filename ''.whl'' of
        None \<Rightarrow> None
      | Some stem \<Rightarrow> (let parts = split_on CHR ''-'' stem; dotted = split_on CHR ''.'' in
          if length parts < 5 then None
          else Some \<lparr>python = dotted (parts ! (length parts - 3)),
                     abi = dotted (parts ! (length parts - 2)),
                     platform = dotted (parts ! (length parts - 1))\<rparr>))"

text \<open>\<open>std::cmp::Ordering\<close>, and the newest-first comparison of version strings.\<close>

datatype ordering = Less | Equal | Greater

definition cmp :: "'a::linorder \<Rightarrow> 'a \<Rightarrow> ordering" where
  "cmp a b = (if a < b then Less else if a = b then Equal else Greater)"

definition version_cmp_desc :: "(string \<Rightarrow> ('v::linorder) option) \<Rightarrow> string \<Rightarrow> string \<Rightarrow> ordering" where
  "version_cmp_desc parse_version a b =
     (case (parse_version a, parse_version b) of
        (Some va, Some vb) \<Rightarrow> cmp vb va
      | (Some _, None) \<Rightarrow> Less
      | (None, Some _) \<Rightarrow> Greater
      | (None, None) \<Rightarrow> cmp b a)"

section \<open>Reserved private names\<close>

text \<open>\<open>PrivatePattern(String)\<close>.\<close>

datatype private_pattern = PrivatePattern string

fun pattern_loop :: "string \<Rightarrow> string \<Rightarrow> bool \<Rightarrow> bool \<Rightarrow> string option" where
  "pattern_loop [] normalized last_dash last_star = Some normalized"
| "pattern_loop (ch # cs) normalized last_dash last_star =
     (if ch = CHR ''*'' then
        pattern_loop cs (if \<not> last_star then normalized @ ''*'' else normalized) False True
      else if is_sep ch then
        pattern_loop cs (if \<not> last_dash then normalized @ ''-'' else normalized) True False
      else if \<not> is_ascii_alphanumeric ch then None
      else pattern_loop cs (normalized @ [to_ascii_lower ch]) False False)"

definition private_pattern_parse :: "string \<Rightarrow> private_pattern res" where
  "private_pattern_parse raw0 =
     (let raw = trim raw0 in
      if raw = [] then Inl (Bail ''private pattern is empty'')
      else case pattern_loop raw [] False False of
        None \<Rightarrow> Inl (Bail ''invalid private pattern'')
      | Some n0 \<Rightarrow>
          let normalized = trim_matches CHR ''-'' n0 in
          if normalized = ''*'' then Inl (Bail ''would reserve every package name'')
          else if normalized = [] \<or> length normalized > 256
          then Inl (Bail ''invalid private pattern'')
          else if CHR ''*'' \<notin> set normalized \<and> checked_pkg_name normalized \<noteq> Some normalized
          then Inl (Bail ''invalid private package name'')
          else Inr (PrivatePattern normalized))"

text \<open>
  \<open>wildcard_match\<close>: the greedy matcher with one remembered star, index for index. The first
  component of the measure covers calls from states the loop never reaches
  (\<open>star_value_i > value_i\<close>).
\<close>

function wildcard_loop :: "string \<Rightarrow> string \<Rightarrow> nat \<Rightarrow> nat \<Rightarrow> nat option \<Rightarrow> nat \<Rightarrow> bool" where
  "wildcard_loop value pattern value_i pattern_i star_i star_value_i =
     (if value_i < length value then
        (if pattern_i < length pattern \<and> pattern ! pattern_i = value ! value_i then
           wildcard_loop value pattern (value_i + 1) (pattern_i + 1) star_i star_value_i
         else if pattern_i < length pattern \<and> pattern ! pattern_i = CHR ''*'' then
           wildcard_loop value pattern value_i (pattern_i + 1) (Some pattern_i) value_i
         else (case star_i of
             Some star \<Rightarrow>
               wildcard_loop value pattern (star_value_i + 1) (star + 1) star_i (star_value_i + 1)
           | None \<Rightarrow> False))
      else list_all (\<lambda>b. b = CHR ''*'') (drop pattern_i pattern))"
  by pat_completeness auto
termination
  by (relation "measures [\<lambda>(v, p, vi, pi, st, sv). if sv \<le> vi then 0 else 1,
                          \<lambda>(v, p, vi, pi, st, sv). length v - sv,
                          \<lambda>(v, p, vi, pi, st, sv). (length v - vi) + (length p - pi)]") auto

declare wildcard_loop.simps [simp del]

definition wildcard_match :: "string \<Rightarrow> string \<Rightarrow> bool" where
  "wildcard_match value pattern = wildcard_loop value pattern 0 0 None 0"

definition pattern_matches :: "private_pattern \<Rightarrow> string \<Rightarrow> bool" where
  "pattern_matches p package = (case p of PrivatePattern s \<Rightarrow> wildcard_match package s)"

definition names_push :: "private_pattern list \<Rightarrow> private_pattern \<Rightarrow> private_pattern list" where
  "names_push names pattern = (if pattern \<in> set names then names else names @ [pattern])"

definition private_names_new :: "string option \<Rightarrow> private_pattern list \<Rightarrow> private_pattern list res" where
  "private_names_new prefix patterns =
     (let extend = (\<lambda>names. Inr (foldl names_push names patterns)) in
      case prefix of
        None \<Rightarrow> extend []
      | Some raw \<Rightarrow>
          (case checked_pkg_name raw of
             None \<Rightarrow> Inl (Bail ''--private-prefix is not a valid package name'')
           | Some p \<Rightarrow>
               (case private_pattern_parse p of
                  Inl e \<Rightarrow> Inl e
                | Inr exact \<Rightarrow>
                    (case private_pattern_parse (p @ ''-*'') of
                       Inl e \<Rightarrow> Inl e
                     | Inr family \<Rightarrow> extend (names_push (names_push [] exact) family)))))"

definition private_names_matches :: "private_pattern list \<Rightarrow> string \<Rightarrow> bool" where
  "private_names_matches names pkg = list_ex (\<lambda>pattern. pattern_matches pattern pkg) names"

section \<open>Normalization against PEP 503\<close>

text \<open>
  The reference: cut the lowercased name into its maximal separator-free runs and join them
  with single dashes.
\<close>

function words_of :: "string \<Rightarrow> string list" where
  "words_of [] = []"
| "words_of (c # cs) =
     (if is_sep c then words_of cs
      else takeWhile (\<lambda>x. \<not> is_sep x) (c # cs) # words_of (dropWhile (\<lambda>x. \<not> is_sep x) cs))"
  by pat_completeness auto
termination
  by (relation "measure length") (auto simp: le_imp_less_Suc length_dropWhile_le)

fun join_with :: "char \<Rightarrow> string list \<Rightarrow> string" where
  "join_with d [] = []"
| "join_with d [w] = w"
| "join_with d (w # v # ws) = w @ d # join_with d (v # ws)"

definition pep503 :: "string \<Rightarrow> string" where
  "pep503 s = join_with CHR ''-'' (words_of (to_ascii_lowercase s))"

text \<open>The loop appends to its output; \<open>collapse\<close> is what it appends.\<close>

fun collapse :: "bool \<Rightarrow> string \<Rightarrow> string" where
  "collapse last_dash [] = []"
| "collapse last_dash (c # cs) =
     (if is_sep c then (if last_dash then collapse True cs else CHR ''-'' # collapse True cs)
      else c # collapse False cs)"

lemma normalize_loop_collapse: "normalize_loop cs out d = out @ collapse d cs"
  by (induction cs arbitrary: out d) auto

lemma collapse_run: "\<forall>c\<in>set w. \<not> is_sep c \<Longrightarrow> w \<noteq> [] \<Longrightarrow> collapse d (w @ r) = w @ collapse False r"
proof (induction w arbitrary: d)
  case (Cons c w)
  then show ?case
    by (cases "w = []") auto
qed simp

lemma words_of_props: "w \<in> set (words_of s) \<Longrightarrow> w \<noteq> [] \<and> (\<forall>c\<in>set w. \<not> is_sep c) \<and> set w \<subseteq> set s"
proof (induction s rule: words_of.induct)
  case (2 c cs)
  show ?case
  proof (cases "is_sep c")
    case True
    with "2.IH"(1) [OF True] "2.prems" show ?thesis
      by auto
  next
    case False
    from False "2.prems" consider
      "w = takeWhile (\<lambda>x. \<not> is_sep x) (c # cs)"
      | "w \<in> set (words_of (dropWhile (\<lambda>x. \<not> is_sep x) cs))"
      by auto
    then show ?thesis
    proof cases
      case 1
      then show ?thesis
        using False set_takeWhileD [of _ "\<lambda>x. \<not> is_sep x" cs] by auto
    next
      case 2
      have "set (dropWhile (\<lambda>x. \<not> is_sep x) cs) \<subseteq> set (c # cs)"
        using set_dropWhileD [of _ "\<lambda>x. \<not> is_sep x" cs] by fastforce
      with "2.IH"(2) [OF False 2] show ?thesis
        by (meson order_trans)
    qed
  qed
qed simp

lemma words_of_empty_iff: "words_of s = [] \<longleftrightarrow> (\<forall>c\<in>set s. is_sep c)"
  by (induction s rule: words_of.induct) auto

lemma words_of_run:
  assumes "\<forall>c\<in>set w. \<not> is_sep c" and "w \<noteq> []" and "r = [] \<or> is_sep (hd r)"
  shows "words_of (w @ r) = w # words_of r"
proof -
  obtain c w' where w: "w = c # w'"
    using assms(2) by (cases w) auto
  have tw: "takeWhile (\<lambda>x. \<not> is_sep x) (w @ r) = w"
    using assms by (cases r) (simp_all add: takeWhile_append)
  have dw: "dropWhile (\<lambda>x. \<not> is_sep x) (w' @ r) = r"
    using assms w by (cases r) (simp_all add: dropWhile_append)
  show ?thesis
    using tw dw assms(1) w by simp
qed

lemma run_cases:
  assumes "s \<noteq> []" and "\<not> is_sep (hd s)"
  obtains w r where "s = w @ r" and "w \<noteq> []" and "\<forall>c\<in>set w. \<not> is_sep c" and "r = [] \<or> is_sep (hd r)"
proof
  show "s = takeWhile (\<lambda>x. \<not> is_sep x) s @ dropWhile (\<lambda>x. \<not> is_sep x) s"
    by simp
  show "takeWhile (\<lambda>x. \<not> is_sep x) s \<noteq> []"
    using assms by (cases s) auto
  show "\<forall>c\<in>set (takeWhile (\<lambda>x. \<not> is_sep x) s). \<not> is_sep c"
    by (auto dest: set_takeWhileD)
  show "dropWhile (\<lambda>x. \<not> is_sep x) s = [] \<or> is_sep (hd (dropWhile (\<lambda>x. \<not> is_sep x) s))"
    using hd_dropWhile [of "\<lambda>x. \<not> is_sep x" s] by blast
qed

lemma join_with_Cons: "ws \<noteq> [] \<Longrightarrow> join_with d (w # ws) = w @ d # join_with d ws"
  by (cases ws) auto

lemma collapse_words:
  "collapse True s = join_with CHR ''-'' (words_of s) @
     (if words_of s \<noteq> [] \<and> is_sep (last s) then ''-'' else [])"
proof (induction "length s" arbitrary: s rule: less_induct)
  case less
  show ?case
  proof (cases "s = [] \<or> is_sep (hd s)")
    case True
    then show ?thesis
      using less by (cases s) (auto simp: words_of_empty_iff)
  next
    case False
    then obtain w r where s: "s = w @ r" and w: "w \<noteq> []" "\<forall>c\<in>set w. \<not> is_sep c"
      and r: "r = [] \<or> is_sep (hd r)"
      using run_cases by metis
    have c: "collapse True s = w @ collapse False r"
      using w s by (simp add: collapse_run)
    have ws: "words_of s = w # words_of r"
      using words_of_run [OF w(2,1) r] s by simp
    show ?thesis
    proof (cases r)
      case Nil
      then show ?thesis
        using c ws w s by simp
    next
      case (Cons a r')
      then have a: "is_sep a" and wr: "words_of r = words_of r'"
        using r by auto
      have "collapse True r' = join_with CHR ''-'' (words_of r') @
              (if words_of r' \<noteq> [] \<and> is_sep (last r') then ''-'' else [])"
        using less s Cons w by simp
      then show ?thesis
        using c ws a wr Cons s words_of_empty_iff [of r']
        by (cases "words_of r' = []") (auto simp: join_with_Cons)
    qed
  qed
qed

lemma join_with_ends:
  assumes "\<forall>w\<in>set ws. w \<noteq> [] \<and> d \<notin> set w" and "ws \<noteq> []"
  shows "join_with d ws \<noteq> []" "hd (join_with d ws) \<noteq> d" "last (join_with d ws) \<noteq> d"
proof -
  have "join_with d ws \<noteq> [] \<and> hd (join_with d ws) \<noteq> d \<and> last (join_with d ws) \<noteq> d"
    using assms by (induction d ws rule: join_with.induct) auto
  then show "join_with d ws \<noteq> []" "hd (join_with d ws) \<noteq> d" "last (join_with d ws) \<noteq> d"
    by auto
qed

lemma trim_matches_core:
  assumes "j = [] \<or> hd j \<noteq> d \<and> last j \<noteq> d" and "set a \<subseteq> {d}" and "set b \<subseteq> {d}"
  shows "trim_matches d (a @ j @ b) = j"
proof (cases j)
  case Nil
  have "trim_start_matches d (a @ b) = []"
    using assms(2,3) by (auto simp: trim_start_matches_def dropWhile_eq_Nil_conv)
  then show ?thesis
    using Nil by (simp add: trim_matches_def trim_end_matches_def)
next
  case (Cons x j')
  have start: "trim_start_matches d (a @ j @ b) = j @ b"
    using Cons assms by (auto simp: trim_start_matches_def dropWhile_append)
  have "rev j \<noteq> []" "hd (rev j) \<noteq> d"
    unfolding hd_rev using Cons assms(1) by simp_all
  then have "dropWhile (\<lambda>c. c = d) (rev b @ rev j) = rev j"
    using assms(3) by (cases "rev j") (auto simp: dropWhile_append)
  then show ?thesis
    using start by (simp add: trim_matches_def trim_end_matches_def)
qed

lemma normalize_pkg_name_words: "normalize_pkg_name s = pep503 s"
proof -
  define t where "t = to_ascii_lowercase s"
  define j where "j = join_with CHR ''-'' (words_of t)"
  have ends: "j = [] \<or> hd j \<noteq> CHR ''-'' \<and> last j \<noteq> CHR ''-''"
  proof (cases "words_of t = []")
    case False
    have "\<forall>w\<in>set (words_of t). w \<noteq> [] \<and> CHR ''-'' \<notin> set w"
      using words_of_props [of _ t] by (auto simp: is_sep_def)
    from join_with_ends [OF this False] show ?thesis
      by (simp add: j_def)
  qed (simp add: j_def)
  define tail :: "string \<Rightarrow> string" where
    "tail u = (if words_of u \<noteq> [] \<and> is_sep (last u) then ''-'' else [])" for u
  have tail: "set (tail u) \<subseteq> {CHR ''-''}" for u
    by (auto simp: tail_def)
  have "\<exists>a b. collapse False t = a @ j @ b \<and> set a \<subseteq> {CHR ''-''} \<and> set b \<subseteq> {CHR ''-''}"
  proof (cases "t \<noteq> [] \<and> is_sep (hd t)")
    case True
    then obtain c t' where t: "t = c # t'" "is_sep c"
      by (cases t) auto
    then have "collapse False t = ''-'' @ j @ tail t'"
      by (simp add: collapse_words j_def tail_def)
    then show ?thesis
      using tail by (intro exI [of _ "''-''"] exI [of _ "tail t'"]) simp
  next
    case False
    then have "collapse False t = collapse True t"
      by (cases t) auto
    then have "collapse False t = [] @ j @ tail t"
      by (simp add: collapse_words j_def tail_def)
    then show ?thesis
      using tail by (intro exI [of _ "[]"] exI [of _ "tail t"]) simp
  qed
  then obtain a b where "collapse False t = a @ j @ b" "set a \<subseteq> {CHR ''-''}" "set b \<subseteq> {CHR ''-''}"
    by (elim exE conjE)
  then have "trim_matches CHR ''-'' (collapse False t) = j"
    using trim_matches_core [OF ends, of a b] by simp
  then show ?thesis
    by (simp add: normalize_pkg_name_def normalize_loop_collapse pep503_def j_def t_def)
qed

lemma lower_not_sep: "is_sep (to_ascii_lower c) = is_sep c"
proof -
  have "is_sep c \<Longrightarrow> \<not> is_ascii_uppercase c"
    by (auto simp: is_sep_def is_ascii_uppercase_def)
  moreover have "is_ascii_uppercase c \<Longrightarrow> \<not> is_sep (to_ascii_lower c)"
    using to_ascii_lower_lower [of c] by (auto simp: is_sep_def is_ascii_lowercase_def)
  ultimately show ?thesis
    by (metis to_ascii_lower_id)
qed

lemma words_of_join:
  assumes "\<forall>w\<in>set ws. w \<noteq> [] \<and> (\<forall>c\<in>set w. \<not> is_sep c)"
  shows "words_of (join_with CHR ''-'' ws) = ws"
  using assms
proof (induction "CHR ''-''" ws rule: join_with.induct)
  case (2 w)
  then show ?case
    using words_of_run [of w "[]"] by simp
next
  case (3 w v ws)
  then show ?case
    using words_of_run [of w "CHR ''-'' # join_with CHR ''-'' (v # ws)"]
    by (simp add: is_sep_def)
qed simp

lemma lowercase_join:
  assumes "\<forall>w\<in>set ws. \<forall>c\<in>set w. \<not> is_ascii_uppercase c"
  shows "to_ascii_lowercase (join_with CHR ''-'' ws) = join_with CHR ''-'' ws"
  using assms
  by (induction "CHR ''-''" ws rule: join_with.induct)
     (auto simp: to_ascii_lowercase_def to_ascii_lower_id is_ascii_uppercase_def intro!: map_idI)

lemma normalize_pkg_name_idem: "normalize_pkg_name (normalize_pkg_name s) = normalize_pkg_name s"
proof -
  define ws where "ws = words_of (to_ascii_lowercase s)"
  have props: "\<forall>w\<in>set ws. w \<noteq> [] \<and> (\<forall>c\<in>set w. \<not> is_sep c)"
    using words_of_props [of _ "to_ascii_lowercase s"] by (auto simp: ws_def)
  have "\<forall>w\<in>set ws. \<forall>c\<in>set w. \<not> is_ascii_uppercase c"
    using words_of_props [of _ "to_ascii_lowercase s"]
    by (fastforce simp: ws_def to_ascii_lowercase_def)
  then show ?thesis
    using words_of_join [OF props] lowercase_join
    by (simp add: normalize_pkg_name_words pep503_def ws_def)
qed

section \<open>The wildcard matcher against its specification\<close>

fun glob :: "string \<Rightarrow> string \<Rightarrow> bool" where
  "glob [] v = (v = [])"
| "glob (p # ps) [] = (p = CHR ''*'' \<and> glob ps [])"
| "glob (p # ps) (c # v) =
     (if p = CHR ''*'' then glob ps (c # v) \<or> glob (p # ps) v else p = c \<and> glob ps v)"

lemma glob_nil: "glob p [] \<longleftrightarrow> list_all (\<lambda>b. b = CHR ''*'') p"
  by (induction p) auto

lemma glob_star: "glob (CHR ''*'' # p) v \<longleftrightarrow> (\<exists>a b. v = a @ b \<and> glob p b)"
proof (induction v)
  case (Cons c v)
  have "(\<exists>a b. c # v = a @ b \<and> glob p b) \<longleftrightarrow> glob p (c # v) \<or> (\<exists>a b. v = a @ b \<and> glob p b)"
    by (auto simp: Cons_eq_append_conv)
  then show ?case
    using Cons by simp
qed simp

lemma glob_lit: "CHR ''*'' \<notin> set l \<Longrightarrow> glob (l @ p) v \<longleftrightarrow> (\<exists>r. v = l @ r \<and> glob p r)"
proof (induction l arbitrary: v)
  case (Cons c l)
  then show ?case
    by (cases v) auto
qed simp

text \<open>A second star makes the leftmost match of the literal between them as good as any.\<close>

lemma glob_star_lit_star:
  assumes "CHR ''*'' \<notin> set l"
  shows "glob (CHR ''*'' # l @ CHR ''*'' # q) (l @ r) \<longleftrightarrow> glob (CHR ''*'' # q) r"
proof
  assume "glob (CHR ''*'' # l @ CHR ''*'' # q) (l @ r)"
  then obtain a b x y where eq: "l @ r = a @ l @ x @ y" and y: "glob q y"
    using assms by (auto simp: glob_star glob_lit)
  have "length (l @ r) = length (a @ l @ x @ y)"
    using eq by simp
  then have len: "length y \<le> length r"
    by simp
  have "y = drop (length r - length y) r"
    using arg_cong [OF eq, of "drop (length l + (length r - length y))"] len
      \<open>length (l @ r) = length (a @ l @ x @ y)\<close>
    by simp
  then show "glob (CHR ''*'' # q) r"
    using y unfolding glob_star by (metis append_take_drop_id)
next
  assume "glob (CHR ''*'' # q) r"
  then have "glob (l @ CHR ''*'' # q) (l @ r)"
    using assms by (auto simp: glob_lit)
  then show "glob (CHR ''*'' # l @ CHR ''*'' # q) (l @ r)"
    unfolding glob_star [of "l @ CHR ''*'' # q"] by (metis append_Nil)
qed

lemma glob_star_lit_end:
  assumes "CHR ''*'' \<notin> set l"
  shows "glob (CHR ''*'' # l @ q) l \<longleftrightarrow> glob q []"
proof
  assume "glob (CHR ''*'' # l @ q) l"
  then obtain a r where "l = a @ l @ r" and "glob q r"
    using assms by (auto simp: glob_star glob_lit)
  moreover from this(1) have "r = []"
    by (metis append.assoc append_self_conv append_self_conv2 length_append length_greater_0_conv
        less_add_same_cancel1 linorder_not_less le_add2)
  ultimately show "glob q []"
    by simp
next
  assume "glob q []"
  then have "glob (l @ q) l"
    using assms by (auto simp: glob_lit)
  then show "glob (CHR ''*'' # l @ q) l"
    unfolding glob_star by (metis append_Nil)
qed

text \<open>
  The loop invariant: the literal \<open>l\<close> matched since the last star (or since the start) lies
  before both cursors.
\<close>

definition wildcard_inv :: "string \<Rightarrow> string \<Rightarrow> nat \<Rightarrow> nat \<Rightarrow> nat option \<Rightarrow> nat \<Rightarrow> string \<Rightarrow> bool" where
  "wildcard_inv v p vi pi st sv l =
     (CHR ''*'' \<notin> set l \<and>
      (case st of
         None \<Rightarrow> p = l @ drop pi p \<and> v = l @ drop vi v
       | Some s \<Rightarrow> drop s p = CHR ''*'' # l @ drop pi p \<and> drop sv v = l @ drop vi v))"

definition wildcard_goal :: "string \<Rightarrow> string \<Rightarrow> nat option \<Rightarrow> nat \<Rightarrow> bool" where
  "wildcard_goal v p st sv = (case st of None \<Rightarrow> glob p v | Some s \<Rightarrow> glob (drop s p) (drop sv v))"

lemma wildcard_loop_correct:
  assumes "CHR ''*'' \<notin> set v" and "wildcard_inv v p vi pi st sv l"
  shows "wildcard_loop v p vi pi st sv = wildcard_goal v p st sv"
  using assms
proof (induction v p vi pi st sv arbitrary: l rule: wildcard_loop.induct)
  case (1 v p vi pi st sv)
  note inv = "1.prems"(2) [unfolded wildcard_inv_def]
  have nostar: "vi < length v \<Longrightarrow> v ! vi \<noteq> CHR ''*''"
    using "1.prems"(1) nth_mem by fastforce
  consider (exit) "\<not> vi < length v"
    | (lit) "vi < length v" "pi < length p" "p ! pi = v ! vi"
    | (star) "vi < length v" "pi < length p" "p ! pi = CHR ''*''" "p ! pi \<noteq> v ! vi"
    | (miss) "vi < length v" "\<not> (pi < length p \<and> p ! pi = v ! vi)" "\<not> (pi < length p \<and> p ! pi = CHR ''*'')"
    by blast
  then show ?case
  proof cases
    case exit
    then have end_v: "drop vi v = []"
      by simp
    have "wildcard_loop v p vi pi st sv = glob (drop pi p) []"
      using exit by (simp add: wildcard_loop.simps [of v p vi] glob_nil)
    also have "\<dots> = wildcard_goal v p st sv"
    proof (cases st)
      case None
      then show ?thesis
        using inv end_v glob_lit [of l "drop pi p" v] by (simp add: wildcard_goal_def)
    next
      case (Some s)
      then show ?thesis
        using inv end_v glob_star_lit_end [of l "drop pi p"] by (simp add: wildcard_goal_def)
    qed
    finally show ?thesis .
  next
    case lit
    then have "wildcard_inv v p (vi + 1) (pi + 1) st sv (l @ [v ! vi])"
      using inv nostar
      by (auto simp: wildcard_inv_def Cons_nth_drop_Suc [symmetric] split: option.splits)
    then show ?thesis
      using lit "1.IH"(1) "1.prems"(1) by (simp add: wildcard_loop.simps [of v p vi])
  next
    case star
    then have dp: "drop pi p = CHR ''*'' # drop (Suc pi) p"
      by (simp add: Cons_nth_drop_Suc [symmetric])
    then have "wildcard_inv v p vi (pi + 1) (Some pi) vi []"
      by (simp add: wildcard_inv_def)
    then have "wildcard_loop v p vi pi st sv = wildcard_goal v p (Some pi) vi"
      using star "1.IH"(2) "1.prems"(1) by (simp add: wildcard_loop.simps [of v p vi])
    also have "\<dots> = wildcard_goal v p st sv"
      using inv dp glob_star_lit_star [of l "drop (Suc pi) p" "drop vi v"]
        glob_lit [of l "drop pi p" v]
      by (auto simp: wildcard_goal_def split: option.splits)
    finally show ?thesis .
  next
    case miss
    have no: "\<not> glob (drop pi p) (drop vi v)"
    proof (cases "pi < length p")
      case True
      then show ?thesis
        using miss by (auto simp: Cons_nth_drop_Suc [symmetric])
    qed (use miss in simp)
    show ?thesis
    proof (cases st)
      case None
      have "\<not> wildcard_loop v p vi pi st sv"
        using miss by (auto simp: None wildcard_loop.simps [of v p vi pi None sv])
      moreover have "\<not> glob p v"
      proof
        assume g: "glob p v"
        from inv None have "CHR ''*'' \<notin> set l" and p: "p = l @ drop pi p" and v: "v = l @ drop vi v"
          by auto
        then obtain r where "v = l @ r" "glob (drop pi p) r"
          using g glob_lit by metis
        with v no show False
          by (metis same_append_eq)
      qed
      ultimately show ?thesis
        using None by (simp add: wildcard_goal_def)
    next
      case (Some s)
      then have ds: "drop s p = CHR ''*'' # l @ drop pi p" and dv: "drop sv v = l @ drop vi v"
        and l: "CHR ''*'' \<notin> set l"
        using inv by auto
      have "drop sv v \<noteq> []"
        using dv miss(1) by simp
      then have dsv: "drop sv v = v ! sv # drop (Suc sv) v"
        by (simp add: Cons_nth_drop_Suc)
      have "drop (Suc s) p = l @ drop pi p"
        using ds by (metis drop_Suc list.sel(3) tl_drop)
      then have "wildcard_inv v p (sv + 1) (s + 1) (Some s) (sv + 1) []"
        using ds by (simp add: wildcard_inv_def)
      then have "wildcard_loop v p vi pi st sv = wildcard_goal v p st (sv + 1)"
        using miss "1.IH"(3) "1.prems"(1) by (auto simp: Some wildcard_loop.simps [of v p vi pi "Some s" sv])
      also have "\<dots> = wildcard_goal v p st sv"
      proof -
        have "\<not> glob (l @ drop pi p) (drop sv v)"
          using no l dv by (simp add: glob_lit)
        then show ?thesis
          using Some ds dsv by (simp add: wildcard_goal_def)
      qed
      finally show ?thesis .
    qed
  qed
qed

lemma wildcard_match_glob: "CHR ''*'' \<notin> set value \<Longrightarrow> wildcard_match value pattern = glob pattern value"
  using wildcard_loop_correct [of "value" pattern 0 0 None 0 "[]"]
  by (simp add: wildcard_match_def wildcard_inv_def wildcard_goal_def)

section \<open>Consequences for the name gate and the reserved names\<close>

definition name_char :: "char \<Rightarrow> bool" where
  "name_char b = (is_ascii_lowercase b \<or> is_ascii_digit b \<or> b = CHR ''-'')"

lemma name_char_excludes:
  "\<not> name_char CHR ''*''" "\<not> name_char CHR ''/''" "\<not> name_char CHR ''.''" "\<not> name_char CHR ''!''"
  "\<not> name_char CHR ''_''"
  by (simp_all add: name_char_def is_ascii_lowercase_def is_ascii_digit_def)

lemma is_normalized_chars: "is_normalized n \<Longrightarrow> \<forall>c\<in>set n. name_char c"
  by (auto simp: is_normalized_def name_char_def list_all_iff)

lemma checked_pkg_name_SomeD:
  assumes "checked_pkg_name raw = Some n"
  shows "n = normalize_pkg_name raw" "is_normalized n" "normalize_pkg_name n = n"
proof -
  show n: "n = normalize_pkg_name raw"
    using assms by (simp add: checked_pkg_name_def Let_def split: if_splits)
  show "is_normalized n"
    using assms by (simp add: checked_pkg_name_def Let_def split: if_splits)
  show "normalize_pkg_name n = n"
    unfolding n by (rule normalize_pkg_name_idem)
qed

lemma checked_pkg_name_idem: "checked_pkg_name raw = Some n \<Longrightarrow> checked_pkg_name n = Some n"
  using checked_pkg_name_SomeD(2,3) [of raw n] by (simp add: checked_pkg_name_def)

lemma name_char_graphic: "name_char c \<Longrightarrow> graphic c"
  by (auto simp: name_char_def graphic_def is_ascii_lowercase_def is_ascii_digit_def Let_def)

text \<open>Single dashes only: the shape of every normalized name.\<close>

fun no_double_dash :: "string \<Rightarrow> bool" where
  "no_double_dash (a # b # s) = (\<not> (a = CHR ''-'' \<and> b = CHR ''-'') \<and> no_double_dash (b # s))"
| "no_double_dash _ = True"

lemma collapse_no_double: "(d \<longrightarrow> collapse d s = [] \<or> hd (collapse d s) \<noteq> CHR ''-'') \<and> no_double_dash (collapse d s)"
proof (induction s arbitrary: d)
  case (Cons c s)
  have "no_double_dash (x # t)" if "no_double_dash t" "t = [] \<or> x \<noteq> CHR ''-'' \<or> hd t \<noteq> CHR ''-''" for x t
    using that by (cases t) auto
  then show ?case
    using Cons.IH [of True] Cons.IH [of False] by (auto simp: is_sep_def)
qed simp

lemma no_double_dash_drop: "no_double_dash s \<Longrightarrow> no_double_dash (drop n s)"
proof (induction n arbitrary: s)
  case (Suc n)
  then show ?case
    by (cases s rule: no_double_dash.cases) auto
qed simp

lemma no_double_dash_append: "no_double_dash (a @ b) \<Longrightarrow> no_double_dash a"
  by (induction a rule: no_double_dash.induct) auto

lemma normalize_no_double_dash: "no_double_dash (normalize_pkg_name s)"
proof -
  define x where "x = trim_start_matches CHR ''-'' (collapse False (to_ascii_lowercase s))"
  have "no_double_dash x"
    unfolding x_def trim_start_matches_def dropWhile_eq_drop
    using collapse_no_double by (simp add: no_double_dash_drop)
  moreover have "\<exists>y. x = trim_end_matches CHR ''-'' x @ y"
    by (metis rev_append rev_rev_ident takeWhile_dropWhile_id trim_end_matches_def)
  ultimately have "no_double_dash (trim_end_matches CHR ''-'' x)"
    by (metis no_double_dash_append)
  then show ?thesis
    by (simp add: normalize_pkg_name_def trim_matches_def normalize_loop_collapse x_def)
qed

lemma pattern_loop_plain:
  assumes "\<forall>c\<in>set s. name_char c" and "no_double_dash (if d then CHR ''-'' # s else s)"
  shows "pattern_loop (s @ r) out d st =
    pattern_loop r (out @ s) (if s = [] then d else last s = CHR ''-'') (if s = [] then st else False)"
  using assms
proof (induction s arbitrary: out d st)
  case (Cons c s)
  have star: "c \<noteq> CHR ''*''"
    using Cons.prems(1) name_char_excludes(1) by auto
  have sep: "is_sep c \<longleftrightarrow> c = CHR ''-''"
    using Cons.prems(1) name_char_excludes by (auto simp: is_sep_def)
  have lower: "c \<noteq> CHR ''-'' \<Longrightarrow> is_ascii_alphanumeric c \<and> to_ascii_lower c = c"
    using Cons.prems(1)
    by (auto simp: name_char_def is_ascii_alphanumeric_def to_ascii_lower_id lowercase_not_upper
        digit_not_upper)
  have d: "d \<Longrightarrow> c \<noteq> CHR ''-''"
    using Cons.prems(2) by auto
  have nd: "no_double_dash (if c = CHR ''-'' then CHR ''-'' # s else s)"
    using Cons.prems(2) no_double_dash_drop [of "c # s" 1] by (auto split: if_splits)
  show ?case
    using Cons.IH [of "c = CHR ''-''"] Cons.prems(1) star sep lower d nd
    by (cases "c = CHR ''-''") auto
qed simp

lemma parse_normalized_name:
  assumes "is_normalized p" and "normalize_pkg_name p = p"
  shows "private_pattern_parse p = Inr (PrivatePattern p)"
proof -
  have chars: "\<forall>c\<in>set p. name_char c"
    using assms(1) by (rule is_normalized_chars)
  have ne: "p \<noteq> []" and len: "length p \<le> 256" and ends: "\<not> starts_with p ''-''" "\<not> ends_with p ''-''"
    using assms(1) by (auto simp: is_normalized_def MAX_PKG_NAME_BYTES_def)
  have "no_double_dash p"
    using normalize_no_double_dash [of p] assms(2) by simp
  then have loop: "pattern_loop p [] False False = Some p"
    using pattern_loop_plain [OF chars, of False "[]" "[]" False] by simp
  have trim: "trim p = p"
    using chars ne name_char_graphic by (intro trim_graphic) simp
  have "hd p \<noteq> CHR ''-''" "last p \<noteq> CHR ''-''"
    using ends ne by (simp_all add: starts_with_single ends_with_single)
  then have tm: "trim_matches CHR ''-'' p = p"
    using trim_matches_core [of p "CHR ''-''" "[]" "[]"] by simp
  have star: "CHR ''*'' \<notin> set p"
    using chars name_char_excludes(1) by auto
  then have "p \<noteq> ''*''"
    by auto
  moreover have "checked_pkg_name p = Some p"
    using assms by (simp add: checked_pkg_name_def)
  ultimately show ?thesis
    using ne len star by (simp add: private_pattern_parse_def trim loop tm Let_def)
qed

lemma parse_family:
  assumes "is_normalized p" and "normalize_pkg_name p = p"
    and "private_pattern_parse (p @ ''-*'') = Inr q"
  shows "q = PrivatePattern (p @ ''-*'')"
proof -
  have chars: "\<forall>c\<in>set p. name_char c"
    using assms(1) by (rule is_normalized_chars)
  have ne: "p \<noteq> []" and ends: "\<not> starts_with p ''-''" "\<not> ends_with p ''-''"
    using assms(1) by (auto simp: is_normalized_def)
  have hd: "hd p \<noteq> CHR ''-''" and last: "last p \<noteq> CHR ''-''"
    using ends ne by (simp_all add: starts_with_single ends_with_single)
  have "no_double_dash p"
    using normalize_no_double_dash [of p] assms(2) by simp
  then have loop: "pattern_loop (p @ ''-*'') [] False False = Some (p @ ''-*'')"
    using pattern_loop_plain [OF chars, of False "''-*''" "[]" False] ne last by (simp add: is_sep_def)
  have "graphic CHR ''*''"
    by (simp add: graphic_def)
  then have trim: "trim (p @ ''-*'') = p @ ''-*''"
    using chars ne name_char_graphic by (intro trim_graphic) simp
  have tm: "trim_matches CHR ''-'' (p @ ''-*'') = p @ ''-*''"
    using trim_matches_core [of "p @ ''-*''" "CHR ''-''" "[]" "[]"] hd ne by simp
  show ?thesis
    using assms(3) ne by (auto simp: private_pattern_parse_def trim loop tm Let_def split: if_splits)
qed

lemma set_foldl_names_push: "set (foldl names_push names ps) = set names \<union> set ps"
  by (induction ps arbitrary: names) (auto simp: names_push_def)

lemma glob_family:
  assumes "CHR ''*'' \<notin> set p"
  shows "glob (p @ ''-*'') v \<longleftrightarrow> starts_with v (p @ ''-'')"
proof -
  have "glob (''-*'') r \<longleftrightarrow> (\<exists>t. r = CHR ''-'' # t)" for r
    by (cases r) (auto simp: glob_star)
  then show ?thesis
    using assms by (auto simp: glob_lit starts_with_iff)
qed

section \<open>Wheel filenames\<close>

lemma split_on_Cons_sep: "d \<notin> set a \<Longrightarrow> split_on d (a @ d # b) = a # split_on d b"
  by (induction a) (auto split: list.splits)

lemma split_on_join: "ws \<noteq> [] \<Longrightarrow> \<forall>w\<in>set ws. d \<notin> set w \<Longrightarrow> split_on d (join_with d ws) = ws"
  by (induction d ws rule: join_with.induct) (auto simp: split_on_no_sep split_on_Cons_sep)

lemma whl_not_sdist: "strip_sdist_ext (s @ ''.whl'') = None"
proof -
  have "to_ascii_lowercase ''.whl'' = ''.whl''"
    by code_simp
  then have "to_ascii_lowercase (s @ ''.whl'') = to_ascii_lowercase s @ ''.whl''"
    by (simp add: to_ascii_lowercase_def)
  then show ?thesis
    by (simp add: strip_sdist_ext_def Let_def SDIST_EXTS_def ends_with_def)
qed

lemma set_join_with: "set (join_with d ws) \<subseteq> insert d (\<Union> (set ` set ws))"
  by (induction d ws rule: join_with.induct) auto

section \<open>The version comparator\<close>

lemma cmp_simps [simp]: "cmp a a = Equal"
  by (simp add: cmp_def)

lemma cmp_Greater: "cmp a b = Greater \<longleftrightarrow> b < a"
  by (auto simp: cmp_def)

section \<open>Properties\<close>

text \<open>The PEP 503 normalizer computes, for every input, the join by single dashes of the
  maximal separator-free runs of the lowercased name, and normalizing twice changes nothing.\<close>

theorem normalize_pkg_name_spec:
  "normalize_pkg_name s = join_with CHR ''-'' (words_of (to_ascii_lowercase s))
   \<and> normalize_pkg_name (normalize_pkg_name s) = normalize_pkg_name s"
proof
  show "normalize_pkg_name s = join_with CHR ''-'' (words_of (to_ascii_lowercase s))"
    by (simp add: normalize_pkg_name_words pep503_def)
qed (rule normalize_pkg_name_idem)

text \<open>A name accepted by the gate is the normalized input, is accepted again as itself, has
  at most 256 bytes, consists of lowercase letters, digits and single dashes only, and neither
  starts nor ends with a dash, so it is safe as a storage path segment.\<close>

theorem checked_pkg_name_safe:
  assumes "checked_pkg_name raw = Some n"
  shows "n = normalize_pkg_name raw \<and> checked_pkg_name n = Some n \<and> n \<noteq> [] \<and> length n \<le> 256
    \<and> (\<forall>c\<in>set n. is_ascii_lowercase c \<or> is_ascii_digit c \<or> c = CHR ''-'')
    \<and> hd n \<noteq> CHR ''-'' \<and> last n \<noteq> CHR ''-'' \<and> no_double_dash n"
proof -
  note n = checked_pkg_name_SomeD [OF assms]
  have "no_double_dash n"
    unfolding n(1) by (rule normalize_no_double_dash)
  moreover have "\<forall>c\<in>set n. is_ascii_lowercase c \<or> is_ascii_digit c \<or> c = CHR ''-''"
    using is_normalized_chars [OF n(2)] by (simp add: name_char_def)
  moreover have "n \<noteq> []" "length n \<le> 256" "hd n \<noteq> CHR ''-''" "last n \<noteq> CHR ''-''"
    using n(2) by (auto simp: is_normalized_def MAX_PKG_NAME_BYTES_def starts_with_single ends_with_single)
  ultimately show ?thesis
    using n(1) checked_pkg_name_idem [OF assms] by blast
qed

theorem checked_pkg_name_safe_witness:
  "checked_pkg_name ''Foo__Bar.baz'' = Some ''foo-bar-baz'' \<and> no_double_dash ''foo-bar-baz''"
proof -
  have h: "checked_pkg_name ''Foo__Bar.baz'' = Some ''foo-bar-baz''"
    by code_simp
  show ?thesis
    using h checked_pkg_name_safe [OF h] by blast
qed

text \<open>The greedy wildcard matcher decides exactly the whole-name glob language of its
  pattern: \<open>*\<close> matches any substring and every other byte itself, on every package name
  (which cannot contain a star).\<close>

theorem wildcard_match_spec:
  assumes "CHR ''*'' \<notin> set package"
  shows "pattern_matches (PrivatePattern p) package \<longleftrightarrow> glob p package"
  using wildcard_match_glob [OF assms] by (simp add: pattern_matches_def)

theorem wildcard_match_spec_witness:
  "pattern_matches (PrivatePattern ''a*-b*c'') ''aa-b-bc'' \<and> \<not> pattern_matches (PrivatePattern ''acme-*'') ''other-acme-x''"
proof -
  have "CHR ''*'' \<notin> set ''aa-b-bc''" and "CHR ''*'' \<notin> set ''other-acme-x''"
    by auto
  then show ?thesis
    using wildcard_match_spec [of "''aa-b-bc''" "''a*-b*c''"]
      wildcard_match_spec [of "''other-acme-x''" "''acme-*''"] by simp
qed

text \<open>When the reserved-name table builds, it reserves exactly the declared prefix, every
  name that continues the prefix with a dash, and the names the listed patterns match; nothing
  else is reserved.\<close>

theorem private_names_semantics:
  assumes "private_names_new prefix patterns = Inr names" and "CHR ''*'' \<notin> set pkg"
  shows "private_names_matches names pkg \<longleftrightarrow>
    (\<exists>raw. prefix = Some raw \<and> (pkg = normalize_pkg_name raw \<or>
       starts_with pkg (normalize_pkg_name raw @ ''-'')))
    \<or> (\<exists>p. PrivatePattern p \<in> set patterns \<and> glob p pkg)"
proof (cases prefix)
  case None
  then have "set names = set patterns"
    using assms(1) set_foldl_names_push [of "[]" patterns] by (auto simp: private_names_new_def)
  then show ?thesis
    using None assms(2) wildcard_match_glob
    by (auto simp: private_names_matches_def list_ex_iff pattern_matches_def split: private_pattern.splits)
      (metis private_pattern.exhaust)
next
  case (Some raw)
  then obtain p exact family where p: "checked_pkg_name raw = Some p"
    and exact: "private_pattern_parse p = Inr exact"
    and family: "private_pattern_parse (p @ ''-*'') = Inr family"
    and names: "names = foldl names_push (names_push (names_push [] exact) family) patterns"
    using assms(1) by (auto simp: private_names_new_def Let_def split: option.splits sum.splits)
  note n = checked_pkg_name_SomeD [OF p]
  have "exact = PrivatePattern p" "family = PrivatePattern (p @ ''-*'')"
    using parse_normalized_name [OF n(2,3)] exact parse_family [OF n(2,3) family] by auto
  then have set: "set names = {PrivatePattern p, PrivatePattern (p @ ''-*'')} \<union> set patterns"
    using names set_foldl_names_push by (auto simp: names_push_def)
  have star: "CHR ''*'' \<notin> set p"
    using is_normalized_chars [OF n(2)] name_char_excludes(1) by auto
  have "glob p pkg \<longleftrightarrow> pkg = p"
    using glob_lit [OF star, of "[]"] by auto
  then have *: "pattern_matches (PrivatePattern p) pkg \<longleftrightarrow> pkg = p"
    "pattern_matches (PrivatePattern (p @ ''-*'')) pkg \<longleftrightarrow> starts_with pkg (p @ ''-'')"
    using wildcard_match_glob [OF assms(2)] glob_family [OF star] by (simp_all add: pattern_matches_def)
  have **: "(\<exists>q\<in>set patterns. pattern_matches q pkg) \<longleftrightarrow> (\<exists>p. PrivatePattern p \<in> set patterns \<and> glob p pkg)"
    using wildcard_match_glob [OF assms(2)]
    by (metis pattern_matches_def private_pattern.case private_pattern.exhaust)
  show ?thesis
    using Some set n(1) * ** by (auto simp: private_names_matches_def list_ex_iff)
qed

theorem private_names_semantics_witness:
  "\<exists>names. private_names_new (Some ''Acme'') [] = Inr names
     \<and> private_names_matches names ''acme-auth'' \<and> \<not> private_names_matches names ''acmeauth''"
proof -
  have h: "private_names_new (Some ''Acme'') [] = Inr [PrivatePattern ''acme'', PrivatePattern ''acme-*'']"
    by code_simp
  have n: "normalize_pkg_name ''Acme'' = ''acme''"
    by code_simp
  show ?thesis
    using h private_names_semantics [OF h, of "''acme-auth''"] private_names_semantics [OF h, of "''acmeauth''"]
    by (auto simp: n)
qed

text \<open>A wheel filename assembled from its five dash-free fields parses back into them: the
  inferred version is the version field, the tags are the dotted alternatives of the last three
  fields, and the inferred package is the normalized distribution name.\<close>

theorem wheel_filename_roundtrip:
  assumes "\<forall>f\<in>set [dist, ver, py, ab, plat]. CHR ''-'' \<notin> set f \<and> CHR ''/'' \<notin> set f"
    and "filename = join_with CHR ''-'' [dist, ver, py, ab, plat] @ ''.whl''"
  shows "infer_version_from_filename parse_version filename = Some ver
    \<and> parse_wheel_tags filename = Some \<lparr>python = split_on CHR ''.'' py, abi = split_on CHR ''.'' ab,
        platform = split_on CHR ''.'' plat\<rparr>
    \<and> infer_package_from_filename parse_version filename = normalize_pkg_name dist"
proof -
  define stem where "stem = join_with CHR ''-'' [dist, ver, py, ab, plat]"
  have parts: "split_on CHR ''-'' stem = [dist, ver, py, ab, plat]"
    using assms(1) unfolding stem_def by (intro split_on_join) auto
  have "CHR ''/'' \<notin> set filename"
    using assms set_join_with [of "CHR ''-''" "[dist, ver, py, ab, plat]"] by auto
  then have slash: "split_on CHR ''/'' filename = [filename]"
    by (rule split_on_no_sep)
  have sd: "strip_sdist_ext filename = None"
    unfolding assms(2) by (rule whl_not_sdist)
  have "split_once filename CHR ''-'' = Some (dist, join_with CHR ''-'' [ver, py, ab, plat] @ ''.whl'')"
    using assms by (simp add: split_once_append)
  then have pkg: "infer_package_from_filename parse_version filename = normalize_pkg_name dist"
    by (simp add: infer_package_from_filename_def slash sd Let_def)
  have "strip_suffix filename ''.whl'' = Some stem"
    unfolding assms(2) stem_def by (rule strip_suffix_append)
  then show ?thesis
    using parts pkg
    by (simp add: infer_version_from_filename_def parse_wheel_tags_def Let_def)
qed

theorem wheel_filename_roundtrip_witness:
  "infer_version_from_filename (\<lambda>_. None :: nat option) ''My_Pkg-1.0_1-py2.py3-none-any.whl'' = Some ''1.0_1''"
  using wheel_filename_roundtrip [of "''My_Pkg''" "''1.0_1''" "''py2.py3''" "''none''" "''any''"
      "''My_Pkg-1.0_1-py2.py3-none-any.whl''" "\<lambda>_. None :: nat option"]
  by simp

text \<open>The newest-first version comparison is a total preorder for every version parser with a
  linear order: swapping the arguments swaps the answer, and not-greater is transitive, so a
  sort by it is well defined even over unparseable versions.\<close>

theorem version_cmp_desc_order:
  "(version_cmp_desc pv a b = Greater \<longleftrightarrow> version_cmp_desc pv b a = Less)
   \<and> (version_cmp_desc pv a b \<noteq> Greater \<longrightarrow> version_cmp_desc pv b c \<noteq> Greater \<longrightarrow>
        version_cmp_desc pv a c \<noteq> Greater)"
  by (auto simp: version_cmp_desc_def cmp_def split: option.splits if_splits)

theorem version_cmp_desc_order_witness:
  "version_cmp_desc (\<lambda>s. if s = ''x'' then None else Some (length s)) ''ab'' ''x'' \<noteq> Greater"
  using version_cmp_desc_order [of "\<lambda>s. if s = ''x'' then None else Some (length s)" "''ab''" "''a''" "''x''"]
  by (simp add: version_cmp_desc_def cmp_def)

end
