(* ===== verification/Hash.thy ===== *)
theory Hash
  imports Prelude
begin

text \<open>
  \<open>src/hash.rs\<close>: hex rendering, the content digest used in keys, and HMAC-SHA256 built by
  hand over SHA-256. SHA-256 is the \<open>sha2\<close> crate's: a parameter \<open>digest\<close> from bytes to the
  digest bytes.
\<close>

unbundle bit_operations_syntax

section \<open>Definitions\<close>

definition hex_digit :: "nat \<Rightarrow> char" where
  "hex_digit n = (if n < 10 then char_of (48 + n) else char_of (87 + n))"

definition hex :: "bytes \<Rightarrow> string" where
  "hex bs = concat (map (\<lambda>b. let n = (of_char b :: nat) in [hex_digit (n div 16), hex_digit (n mod 16)]) bs)"

definition sha256_hex :: "(bytes \<Rightarrow> bytes) \<Rightarrow> bytes \<Rightarrow> string" where
  "sha256_hex digest bs = hex (digest bs)"

definition xor_byte :: "nat \<Rightarrow> char \<Rightarrow> char" where
  "xor_byte k c = char_of ((of_char c :: nat) XOR k)"

text \<open>\<open>block\<close> is the key zero-padded to the 64-byte block, hashed first when it is longer.\<close>

definition hmac_block :: "(bytes \<Rightarrow> bytes) \<Rightarrow> bytes \<Rightarrow> bytes" where
  "hmac_block digest key =
     (if length key > 64 then take 32 (digest key) @ replicate 32 (CHR 0x00)
      else key @ replicate (64 - length key) (CHR 0x00))"

definition hmac_sha256 :: "(bytes \<Rightarrow> bytes) \<Rightarrow> bytes \<Rightarrow> bytes \<Rightarrow> bytes" where
  "hmac_sha256 digest key msg =
     (let block = hmac_block digest key;
          ipad = map (xor_byte 0x36) block;
          opad = map (xor_byte 0x5c) block;
          inner = digest (ipad @ msg)
      in digest (opad @ inner))"

section \<open>Hex is injective and has the expected shape\<close>

lemma hex_Nil [simp]: "hex [] = []"
  by (simp add: hex_def)

lemma hex_Cons: "hex (b # bs) = hex_digit ((of_char b :: nat) div 16) # hex_digit ((of_char b :: nat) mod 16) # hex bs"
  by (simp add: hex_def Let_def)

lemma length_hex: "length (hex bs) = 2 * length bs"
  by (induction bs) (simp_all add: hex_Cons)

lemma of_char_hex_digit: "n < 16 \<Longrightarrow> (of_char (hex_digit n) :: nat) = (if n < 10 then 48 + n else 87 + n)"
  by (simp add: hex_digit_def take_bit_eq_mod)

lemma hex_digit_inject: "m < 16 \<Longrightarrow> n < 16 \<Longrightarrow> hex_digit m = hex_digit n \<longleftrightarrow> m = n"
proof
  assume "m < 16" "n < 16" "hex_digit m = hex_digit n"
  then have "(if m < 10 then 48 + m else 87 + m) = (if n < 10 then 48 + n else 87 + n)"
    using of_char_hex_digit [of m] of_char_hex_digit [of n] by simp
  then show "m = n"
    by (simp split: if_splits)
qed simp

lemma hex_digit_is_hexdigit: "n < 16 \<Longrightarrow> is_ascii_hexdigit (hex_digit n)"
  using of_char_hex_digit [of n] by (auto simp: is_ascii_hexdigit_def Let_def)

lemma of_char_lt: "(of_char c :: nat) < 256"
  by simp

lemma of_char_div_16: "(of_char c :: nat) div 16 < 16"
  using of_char_lt [of c] by (simp add: less_mult_imp_div_less)

lemma hex_inject: "hex a = hex b \<longleftrightarrow> a = b"
proof (induction a arbitrary: b)
  case Nil
  then show ?case
    by (cases b) (simp_all add: hex_Cons)
next
  case (Cons x a)
  show ?case
  proof (cases b)
    case Nil
    then show ?thesis
      by (simp add: hex_Cons)
  next
    case (Cons y b')
    have "(of_char x :: nat) div 16 < 16" "(of_char y :: nat) div 16 < 16"
      by (simp_all add: of_char_div_16)
    then have "hex (x # a) = hex (y # b') \<longleftrightarrow>
        (of_char x :: nat) div 16 = of_char y div 16 \<and> (of_char x :: nat) mod 16 = of_char y mod 16 \<and> hex a = hex b'"
      by (simp add: hex_Cons hex_digit_inject)
    also have "\<dots> \<longleftrightarrow> (of_char x :: nat) = of_char y \<and> a = b'"
      using Cons.IH by (metis div_mult_mod_eq)
    finally show ?thesis
      using Cons by simp
  qed
qed

lemma hex_hexdigits: "list_all is_ascii_hexdigit (hex bs)"
proof (induction bs)
  case (Cons b bs)
  have "(of_char b :: nat) div 16 < 16"
    by (simp add: of_char_div_16)
  with Cons show ?case
    by (simp add: hex_Cons hex_digit_is_hexdigit)
qed simp

end
