(* ===== verification/Layout.thy ===== *)
theory Layout
  imports Prelude
begin

text \<open>
  \<open>src/layout.rs\<close>: the registry that gives every storage key prefix its replication class,
  and the longest-match classifier over it. The prefixes are the constants the other modules
  define (\<open>src/app.rs\<close>, \<open>src/advisories.rs\<close>, \<open>src/counters.rs\<close>, and so on).
\<close>

section \<open>Definitions\<close>

definition PACKAGES_PREFIX :: string where "PACKAGES_PREFIX = ''packages/''"
definition SIMPLE_PREFIX :: string where "SIMPLE_PREFIX = ''simple/''"
definition DIRTY_PREFIX :: string where "DIRTY_PREFIX = ''_dirty/''"
definition FEED_KEY :: string where "FEED_KEY = ''_advisories/osv-pypi.zip''"
definition QUARANTINED_KEY :: string where "QUARANTINED_KEY = ''_advisories/quarantined.json''"
definition REPORT_KEY :: string where "REPORT_KEY = ''_advisories/report.json''"
definition DAY_PREFIX :: string where "DAY_PREFIX = ''_counters/day/''"
definition SEG_PREFIX :: string where "SEG_PREFIX = ''_counters/seg/''"
definition LEASE_KEY :: string where "LEASE_KEY = ''_leader/lease.json''"
definition QUARANTINE_PREFIX :: string where "QUARANTINE_PREFIX = ''_quarantine/''"
definition REPL_PREFIX :: string where "REPL_PREFIX = ''_repl/''"
definition STAGING_PREFIX :: string where "STAGING_PREFIX = ''_staging/''"
definition STATE_PREFIX :: string where "STATE_PREFIX = ''_state/''"
definition CURSORS_KEY :: string where "CURSORS_KEY = ''_sync/cursors.json''"
definition TOPOLOGY_STAMP_KEY :: string where "TOPOLOGY_STAMP_KEY = ''_topology/stamp.json''"
definition CHAIN_PREFIX :: string where "CHAIN_PREFIX = ''_transparency/chain/''"
definition FORMAT_STAMP_KEY :: string where "FORMAT_STAMP_KEY = ''_format/stamp.json''"

lemmas prefix_defs = PACKAGES_PREFIX_def SIMPLE_PREFIX_def DIRTY_PREFIX_def FEED_KEY_def
  QUARANTINED_KEY_def REPORT_KEY_def DAY_PREFIX_def SEG_PREFIX_def LEASE_KEY_def
  QUARANTINE_PREFIX_def REPL_PREFIX_def STAGING_PREFIX_def STATE_PREFIX_def CURSORS_KEY_def
  TOPOLOGY_STAMP_KEY_def CHAIN_PREFIX_def FORMAT_STAMP_KEY_def

datatype layout_class =
    TruthReplicated | SingletonReplicated | DerivedPerBucket | CoordinationPerBucket
  | ReplicatedRollup | DeclaredLoss

text \<open>The registry rows; the \<open>why\<close> prose of a row carries no behaviour.\<close>

definition MANIFEST :: "(string \<times> layout_class) list" where
  "MANIFEST =
    [(PACKAGES_PREFIX, TruthReplicated),
     (SIMPLE_PREFIX, DerivedPerBucket),
     (FEED_KEY, SingletonReplicated),
     (QUARANTINED_KEY, SingletonReplicated),
     (REPORT_KEY, DerivedPerBucket),
     (DIRTY_PREFIX, CoordinationPerBucket),
     (DAY_PREFIX, ReplicatedRollup),
     (SEG_PREFIX, DeclaredLoss),
     (LEASE_KEY, CoordinationPerBucket),
     (QUARANTINE_PREFIX, DeclaredLoss),
     (REPL_PREFIX, CoordinationPerBucket),
     (STAGING_PREFIX, CoordinationPerBucket),
     (STATE_PREFIX, DerivedPerBucket),
     (CURSORS_KEY, DerivedPerBucket),
     (TOPOLOGY_STAMP_KEY, CoordinationPerBucket),
     (CHAIN_PREFIX, SingletonReplicated)]"

text \<open>\<open>Iterator::max_by_key\<close>: the last maximal element.\<close>

fun max_by_length :: "(string \<times> layout_class) list \<Rightarrow> (string \<times> layout_class) option" where
  "max_by_length [] = None"
| "max_by_length (e # es) =
     (case max_by_length es of
        None \<Rightarrow> Some e
      | Some m \<Rightarrow> if length (fst m) \<ge> length (fst e) then Some m else Some e)"

definition classify :: "string \<Rightarrow> layout_class option" where
  "classify key = map_option snd (max_by_length (filter (\<lambda>entry. starts_with key (fst entry)) MANIFEST))"

section \<open>Lemmas\<close>

lemma max_by_length_mem: "max_by_length es = Some m \<Longrightarrow> m \<in> set es"
  by (induction es) (auto split: option.splits if_splits)

lemma max_by_length_None: "max_by_length es = None \<longleftrightarrow> es = []"
  by (cases es) (auto split: option.splits)

text \<open>No registered prefix extends another, so at most one row matches a key.\<close>

lemma MANIFEST_prefix_free:
  "list_all (\<lambda>a. list_all (\<lambda>b. fst a = fst b \<longrightarrow> a = b) MANIFEST) MANIFEST"
  "list_all (\<lambda>a. list_all (\<lambda>b. a = b \<or> \<not> starts_with (fst a) (fst b)) MANIFEST) MANIFEST"
  by code_simp+

lemma starts_with_comparable:
  "starts_with k a \<Longrightarrow> starts_with k b \<Longrightarrow> starts_with a b \<or> starts_with b a"
  by (auto simp: starts_with_iff append_eq_append_conv2)

lemma MANIFEST_unique:
  assumes "a \<in> set MANIFEST" and "b \<in> set MANIFEST"
    and "starts_with key (fst a)" and "starts_with key (fst b)"
  shows "a = b"
  using starts_with_comparable [OF assms(3,4)] MANIFEST_prefix_free(2) assms(1,2)
  by (auto simp: list_all_iff)

lemma classify_iff: "classify key = Some c \<longleftrightarrow> (\<exists>p. (p, c) \<in> set MANIFEST \<and> starts_with key p)"
proof
  assume "classify key = Some c"
  then obtain m where "max_by_length (filter (\<lambda>e. starts_with key (fst e)) MANIFEST) = Some m" and "snd m = c"
    by (auto simp: classify_def)
  then show "\<exists>p. (p, c) \<in> set MANIFEST \<and> starts_with key p"
    using max_by_length_mem by (metis (no_types, lifting) mem_Collect_eq prod.collapse set_filter)
next
  assume "\<exists>p. (p, c) \<in> set MANIFEST \<and> starts_with key p"
  then obtain p where p: "(p, c) \<in> set MANIFEST" "starts_with key p"
    by blast
  let ?fs = "filter (\<lambda>e. starts_with key (fst e)) MANIFEST"
  have "?fs \<noteq> []"
    using p by (force simp: filter_empty_conv)
  then obtain m where m: "max_by_length ?fs = Some m"
    using max_by_length_None by blast
  then have "m \<in> set MANIFEST" "starts_with key (fst m)"
    using max_by_length_mem [OF m] by auto
  then have "m = (p, c)"
    using MANIFEST_unique p by simp
  then show "classify key = Some c"
    using m by (simp add: classify_def)
qed

section \<open>Properties\<close>

text \<open>The classification of a storage key is unambiguous and complete for the registry: a key
  gets class \<open>c\<close> exactly when it extends a registered prefix of class \<open>c\<close>, and no key extends
  two registered prefixes.\<close>

theorem classify_unambiguous:
  "(classify key = Some c \<longleftrightarrow> (\<exists>p. (p, c) \<in> set MANIFEST \<and> starts_with key p))
   \<and> (\<forall>a\<in>set MANIFEST. \<forall>b\<in>set MANIFEST.
        starts_with key (fst a) \<longrightarrow> starts_with key (fst b) \<longrightarrow> a = b)"
  using classify_iff MANIFEST_unique by blast

theorem classify_unambiguous_witness:
  "classify ''packages/requests/requests-2.0.0.tar.gz'' = Some TruthReplicated"
  using classify_unambiguous [of "''packages/requests/requests-2.0.0.tar.gz''" TruthReplicated]
  by (auto simp: MANIFEST_def prefix_defs)

text \<open>The storage-format stamp is the one reserved key the registry leaves unclassified.\<close>

lemma format_stamp_unclassified: "classify FORMAT_STAMP_KEY = None"
  by code_simp

end
