(* ===== verification/Sidecar.thy ===== *)
theory Sidecar
  imports Prelude
begin

text \<open>
  \<open>src/sidecar.rs\<close>: the metadata document stored beside each artifact, the PEP 592 yank
  state, and the storage keys of an artifact's companion objects and durable markers.
  Integers the merge compares (\<open>u64\<close>) are 64-bit words.
\<close>

section \<open>Definitions\<close>

definition SIDECAR_SUFFIX :: string where "SIDECAR_SUFFIX = ''.meta.json''"
definition METADATA_SUFFIX :: string where "METADATA_SUFFIX = ''.metadata''"
definition PROVENANCE_SUFFIX :: string where "PROVENANCE_SUFFIX = ''.provenance''"
definition TOMBSTONE_SUFFIX :: string where "TOMBSTONE_SUFFIX = ''.tombstone''"
definition FROZEN_SUFFIX :: string where "FROZEN_SUFFIX = ''.frozen''"
definition MIRROR_QUARANTINED_SUFFIX :: string where
  "MIRROR_QUARANTINED_SUFFIX = ''.mirror-quarantined''"
definition SUPERSEDING_SUFFIX :: string where "SUPERSEDING_SUFFIX = ''.superseding''"

lemmas suffix_defs = SIDECAR_SUFFIX_def METADATA_SUFFIX_def PROVENANCE_SUFFIX_def
  TOMBSTONE_SUFFIX_def FROZEN_SUFFIX_def MIRROR_QUARANTINED_SUFFIX_def SUPERSEDING_SUFFIX_def

datatype yanked = Flag bool | Reason string

definition yanked_normalized :: "yanked \<Rightarrow> yanked" where
  "yanked_normalized y =
     (case y of
        Reason r \<Rightarrow> (let t = trim r in
          if t = [] then Flag True
          else if length t = length r then Reason r
          else Reason t)
      | Flag b \<Rightarrow> Flag b)"

record store_checksum =
  algo :: string
  checksum_value :: string

record sidecar =
  sha256 :: string
  size :: u64
  version :: string
  upload_time :: string
  upload_epoch_ms :: "u64 option"
  requires_python :: "string option"
  yanked :: yanked
  origin :: "string option"
  yank_epoch :: u64
  upload_time_revision :: u64
  snapshot :: bool
  store_checksum :: "store_checksum option"

definition companion_key :: "string \<Rightarrow> string \<Rightarrow> string" where
  "companion_key artifact_key suffix = artifact_key @ suffix"

definition sidecar_key :: "string \<Rightarrow> string" where
  "sidecar_key artifact_key = companion_key artifact_key SIDECAR_SUFFIX"

definition metadata_key :: "string \<Rightarrow> string" where
  "metadata_key artifact_key = companion_key artifact_key METADATA_SUFFIX"

definition provenance_key :: "string \<Rightarrow> string" where
  "provenance_key artifact_key = companion_key artifact_key PROVENANCE_SUFFIX"

definition tombstone_key :: "string \<Rightarrow> string" where
  "tombstone_key artifact_key = companion_key artifact_key TOMBSTONE_SUFFIX"

definition frozen_key :: "string \<Rightarrow> string" where
  "frozen_key artifact_key = companion_key artifact_key FROZEN_SUFFIX"

definition mirror_quarantined_key :: "string \<Rightarrow> string" where
  "mirror_quarantined_key artifact_key = companion_key artifact_key MIRROR_QUARANTINED_SUFFIX"

definition superseding_key :: "string \<Rightarrow> string" where
  "superseding_key artifact_key = companion_key artifact_key SUPERSEDING_SUFFIX"

lemmas key_defs = companion_key_def sidecar_key_def metadata_key_def provenance_key_def
  tombstone_key_def frozen_key_def mirror_quarantined_key_def superseding_key_def

definition is_artifact :: "string \<Rightarrow> bool" where
  "is_artifact filename =
     (filename \<noteq> [] \<and> \<not> starts_with filename ''.''
      \<and> \<not> ends_with filename SIDECAR_SUFFIX \<and> \<not> ends_with filename METADATA_SUFFIX
      \<and> \<not> ends_with filename PROVENANCE_SUFFIX \<and> \<not> ends_with filename TOMBSTONE_SUFFIX
      \<and> \<not> ends_with filename FROZEN_SUFFIX \<and> \<not> ends_with filename MIRROR_QUARANTINED_SUFFIX
      \<and> \<not> ends_with filename SUPERSEDING_SUFFIX)"

section \<open>Trimming and yank normalization\<close>

lemma strip_all_suffix: "\<exists>a. s = a @ strip_all n ws s"
proof (induction n arbitrary: s)
  case (Suc n)
  show ?case
  proof (cases "find (starts_with s) ws")
    case (Some w)
    then obtain a where "drop (length w) s = a @ strip_all n ws (drop (length w) s)"
      using Suc by blast
    then have "s = (take (length w) s @ a) @ strip_all n ws (drop (length w) s)"
      by (metis append_assoc append_take_drop_id)
    then show ?thesis
      unfolding strip_all.simps Some option.case by (rule exI)
  qed simp
qed simp

lemma trim_end_prefix: "\<exists>b. s = trim_end s @ b"
  using strip_all_suffix [of "rev s" "length s" "map rev ws_chars"]
  unfolding trim_end_def by (metis rev_append rev_rev_ident)

lemma trim_start_done: "find (starts_with (trim_start s)) ws_chars = None"
  unfolding trim_start_def using ws_chars_nonempty by (intro strip_all_done) auto

lemma trim_idem [simp]: "trim (trim s) = trim s"
proof -
  define t where "t = trim_start s"
  define u where "u = trim_end t"
  obtain b where b: "t = u @ b"
    using trim_end_prefix u_def by blast
  have "\<not> starts_with t w" if "w \<in> set ws_chars" for w
    using trim_start_done that by (auto simp: t_def find_None_iff)
  then have "\<not> starts_with u w" if "w \<in> set ws_chars" for w
    using that b by (metis append_assoc starts_with_iff)
  then have 1: "trim_start u = u"
    by (simp add: trim_start_def strip_all_fixed find_None_iff)
  have "find (starts_with (rev u)) (map rev ws_chars) = None"
    unfolding u_def trim_end_def rev_rev_ident
    using ws_chars_nonempty by (intro strip_all_done) auto
  then have 2: "trim_end u = u"
    by (simp add: trim_end_def strip_all_fixed)
  show ?thesis
    using 1 2 by (simp add: trim_def t_def [symmetric] u_def [symmetric])
qed

lemma yanked_normalized_idem: "yanked_normalized (yanked_normalized y) = yanked_normalized y"
  by (cases y) (auto simp: yanked_normalized_def Let_def)

section \<open>Companion keys never collide\<close>

definition marker_suffixes :: "string list" where
  "marker_suffixes = [SIDECAR_SUFFIX, METADATA_SUFFIX, PROVENANCE_SUFFIX, TOMBSTONE_SUFFIX,
     FROZEN_SUFFIX, MIRROR_QUARANTINED_SUFFIX, SUPERSEDING_SUFFIX]"

lemma marker_suffix_free:
  "list_all (\<lambda>a. list_all (\<lambda>b. a = b \<or> \<not> ends_with a b) marker_suffixes) marker_suffixes"
  by code_simp

lemma ends_with_comparable:
  assumes "f @ s = g @ t"
  shows "ends_with s t \<or> ends_with t s"
  using assms by (auto simp: ends_with_iff append_eq_append_conv2)

lemma is_artifact_no_marker:
  "is_artifact f \<Longrightarrow> s \<in> set marker_suffixes \<Longrightarrow> \<not> ends_with f s"
  by (auto simp: is_artifact_def marker_suffixes_def)

lemma companion_inject:
  assumes "is_artifact f" "is_artifact g"
    and "s \<in> set ([] # marker_suffixes)" "t \<in> set ([] # marker_suffixes)"
    and "companion_key (d @ f) s = companion_key (d @ g) t"
  shows "f = g \<and> s = t"
proof -
  have eq: "f @ s = g @ t"
    using assms(5) by (simp add: companion_key_def)
  consider (both) "s \<in> set marker_suffixes" "t \<in> set marker_suffixes"
    | (left) "s = []" "t \<in> set marker_suffixes" | (right) "t = []" "s \<in> set marker_suffixes"
    | (none) "s = []" "t = []"
    using assms(3,4) by auto
  then show ?thesis
  proof cases
    case both
    then have "s = t"
      using marker_suffix_free ends_with_comparable [OF eq] by (auto simp: list_all_iff)
    then show ?thesis
      using eq by simp
  next
    case left
    then show ?thesis
      using eq is_artifact_no_marker [OF assms(1)] ends_with_append by (metis append_Nil2)
  next
    case right
    then show ?thesis
      using eq is_artifact_no_marker [OF assms(2)] ends_with_append by (metis append_Nil2)
  next
    case none
    then show ?thesis
      using eq by simp
  qed
qed

section \<open>Properties\<close>

text \<open>Two artifacts of one package never share a storage object: the key of an artifact, of
  its sidecar, of a companion or of a durable marker determines the filename and the kind of
  object.\<close>

theorem companion_keys_unambiguous:
  assumes "is_artifact f" and "is_artifact g"
    and "s \<in> set ([] # marker_suffixes)" and "t \<in> set ([] # marker_suffixes)"
    and "(f, s) \<noteq> (g, t)"
  shows "companion_key (dir @ f) s \<noteq> companion_key (dir @ g) t"
  using companion_inject [OF assms(1-4)] assms(5) by blast

theorem companion_keys_unambiguous_witness:
  "companion_key (''packages/a/'' @ ''a-1.whl'') [] \<noteq> companion_key (''packages/a/'' @ ''a-1'') TOMBSTONE_SUFFIX"
proof -
  have "is_artifact ''a-1.whl''" "is_artifact ''a-1''"
    by code_simp+
  moreover have "TOMBSTONE_SUFFIX \<in> set ([] # marker_suffixes)" "[] \<in> set ([] # marker_suffixes)"
    by (simp_all add: marker_suffixes_def)
  ultimately show ?thesis
    by (intro companion_keys_unambiguous) simp_all
qed

text \<open>Yank normalization is idempotent and loses no withdrawal: the normal form of a reason is
  never the unyanked flag.\<close>

theorem yanked_normalized_sound:
  "yanked_normalized (yanked_normalized y) = yanked_normalized y
   \<and> (yanked_normalized y = Flag False \<longleftrightarrow> y = Flag False)"
  using yanked_normalized_idem by (cases y) (auto simp: yanked_normalized_def Let_def)

end
