(* ===== verification/Ordered_Map.thy ===== *)
theory Ordered_Map
  imports Prelude
begin

text \<open>
  Rust's \<open>BTreeMap\<close> as an association list in key order, with the interface its clients use
  stated as a locale: lookup after insert and after remove, and the order of the listing.
\<close>

section \<open>Definitions\<close>

type_synonym ('k, 'v) btree = "('k \<times> 'v) list"

definition bt_get :: "('k, 'v) btree \<Rightarrow> 'k \<Rightarrow> 'v option" where
  "bt_get m k = map_of m k"

definition bt_remove :: "'k \<Rightarrow> ('k, 'v) btree \<Rightarrow> ('k, 'v) btree" where
  "bt_remove k m = filter (\<lambda>e. fst e \<noteq> k) m"

definition bt_insert :: "'k::linorder \<Rightarrow> 'v \<Rightarrow> ('k, 'v) btree \<Rightarrow> ('k, 'v) btree" where
  "bt_insert k v m = (let rest = bt_remove k m in
     takeWhile (\<lambda>e. fst e < k) rest @ (k, v) # dropWhile (\<lambda>e. fst e < k) rest)"

definition bt_keys :: "('k, 'v) btree \<Rightarrow> 'k list" where
  "bt_keys m = map fst m"

definition bt_ordered :: "('k::linorder, 'v) btree \<Rightarrow> bool" where
  "bt_ordered m = sorted_wrt (<) (bt_keys m)"

section \<open>The interface\<close>

locale ordered_map =
  fixes empty :: "'m"
    and get :: "'m \<Rightarrow> 'k::linorder \<Rightarrow> 'v option"
    and insert :: "'k \<Rightarrow> 'v \<Rightarrow> 'm \<Rightarrow> 'm"
    and remove :: "'k \<Rightarrow> 'm \<Rightarrow> 'm"
    and entries :: "'m \<Rightarrow> ('k \<times> 'v) list"
    and ordered :: "'m \<Rightarrow> bool"
  assumes get_empty: "get empty k = None"
    and get_insert: "get (insert k v m) k' = (if k' = k then Some v else get m k')"
    and get_remove: "get (remove k m) k' = (if k' = k then None else get m k')"
    and ordered_empty: "ordered empty"
    and ordered_insert: "ordered m \<Longrightarrow> ordered (insert k v m)"
    and ordered_remove: "ordered m \<Longrightarrow> ordered (remove k m)"
    and entries_get: "ordered m \<Longrightarrow> (k, v) \<in> set (entries m) \<longleftrightarrow> get m k = Some v"
    and entries_sorted: "ordered m \<Longrightarrow> sorted_wrt (<) (map fst (entries m))"
begin

text \<open>Removing a list of keys, as \<open>delete_keys\<close> does one by one.\<close>

lemma get_fold_remove: "get (fold remove ks m) k = (if k \<in> set ks then None else get m k)"
  by (induction ks arbitrary: m) (auto simp: get_remove)

lemma ordered_fold_remove: "ordered m \<Longrightarrow> ordered (fold remove ks m)"
  by (induction ks arbitrary: m) (auto simp: ordered_remove)

text \<open>A filtered listing holds exactly the matching bindings, in key order and without repeats.\<close>

lemma filtered_entries:
  assumes "ordered m"
  shows "set (filter P (entries m)) = {e. P e \<and> get m (fst e) = Some (snd e)}"
    and "sorted_wrt (<) (map fst (filter P (entries m)))"
proof -
  show "set (filter P (entries m)) = {e. P e \<and> get m (fst e) = Some (snd e)}"
    using entries_get [OF assms] by auto
  show "sorted_wrt (<) (map fst (filter P (entries m)))"
    using entries_sorted [OF assms] by (simp add: sorted_wrt_map sorted_wrt_filter)
qed

end

section \<open>The sorted association list provides it\<close>

lemma bt_get_remove: "bt_get (bt_remove k m) k' = (if k' = k then None else bt_get m k')"
  by (induction m) (auto simp: bt_get_def bt_remove_def)

lemma bt_get_insert: "bt_get (bt_insert k v m) k' = (if k' = k then Some v else bt_get m k')"
proof -
  let ?r = "bt_remove k m"
  let ?a = "takeWhile (\<lambda>e. fst e < k) ?r" and ?b = "dropWhile (\<lambda>e. fst e < k) ?r"
  have split: "bt_get ?r x = (case bt_get ?a x of None \<Rightarrow> bt_get ?b x | Some y \<Rightarrow> Some y)" for x
    by (metis bt_get_def map_add_def map_of_append takeWhile_dropWhile_id)
  have "bt_get ?a k = None"
    unfolding bt_get_def map_of_eq_None_iff by (auto dest: set_takeWhileD)
  then show ?thesis
    using split [of k'] bt_get_remove [of k m k']
    by (auto simp: bt_insert_def Let_def bt_get_def map_add_def split: option.splits)
qed

lemma bt_ordered_remove: "bt_ordered m \<Longrightarrow> bt_ordered (bt_remove k m)"
  by (simp add: bt_ordered_def bt_keys_def bt_remove_def sorted_wrt_map sorted_wrt_filter)

lemma bt_ordered_insert:
  assumes "bt_ordered m"
  shows "bt_ordered (bt_insert k v m)"
proof -
  let ?r = "bt_remove k m"
  let ?a = "takeWhile (\<lambda>e. fst e < k) ?r" and ?b = "dropWhile (\<lambda>e. fst e < k) ?r"
  have r: "sorted_wrt (\<lambda>x y. fst x < fst y) (?a @ ?b)"
    using bt_ordered_remove [OF assms] by (simp add: bt_ordered_def bt_keys_def sorted_wrt_map)
  have b: "k < fst y" if "y \<in> set ?b" for y
  proof (cases ?b)
    case (Cons z zs)
    then have "\<not> fst z < k"
      using hd_dropWhile [of "\<lambda>e. fst e < k" ?r] by simp
    moreover have "z \<in> set ?r"
    proof (rule set_dropWhileD)
      show "z \<in> set ?b"
        unfolding Cons by simp
    qed
    ultimately have "k < fst z"
      by (auto simp: bt_remove_def)
    moreover have "y = z \<or> fst z < fst y"
      using r that unfolding Cons by (auto simp: sorted_wrt_append)
    ultimately show ?thesis
      by auto
  next
    case Nil
    then show ?thesis
      using that by (metis empty_iff list.set(1))
  qed
  have a: "\<forall>x\<in>set ?a. fst x < k"
    by (auto dest: set_takeWhileD)
  have ab: "\<forall>x\<in>set ?a. \<forall>y\<in>set ?b. fst x < fst y"
    using a b by (meson order_less_trans)
  have "sorted_wrt (\<lambda>x y. fst x < fst y) ?a" "sorted_wrt (\<lambda>x y. fst x < fst y) ?b"
    using r unfolding sorted_wrt_append by auto
  then show ?thesis
    using a b ab
    by (simp add: bt_ordered_def bt_keys_def bt_insert_def Let_def sorted_wrt_append sorted_wrt_map)
qed

interpretation bt: ordered_map "[] :: ('k::linorder, 'v) btree" bt_get bt_insert bt_remove "\<lambda>m. m" bt_ordered
proof unfold_locales
  fix m :: "('k, 'v) btree" and k v
  assume "bt_ordered m"
  then have "distinct (map fst m)"
    unfolding bt_ordered_def bt_keys_def using strict_sorted_iff by blast
  then show "(k, v) \<in> set m \<longleftrightarrow> bt_get m k = Some v"
    by (simp add: bt_get_def map_of_eq_Some_iff)
next
  fix m :: "('k, 'v) btree"
  assume "bt_ordered m"
  then show "sorted_wrt (<) (map fst m)"
    by (simp add: bt_ordered_def bt_keys_def)
next
  show "bt_get ([] :: ('k, 'v) btree) k = None" and "bt_ordered ([] :: ('k, 'v) btree)" for k
    by (simp_all add: bt_get_def bt_ordered_def bt_keys_def)
qed (simp_all add: bt_get_insert bt_get_remove bt_ordered_insert bt_ordered_remove)

end
