(* ===== verification/Object_Store.thy ===== *)
theory Object_Store
  imports Ordered_Map Sidecar Hash Layout
begin

text \<open>
  \<open>src/sim.rs\<close>: the deterministic in-memory object store the repository verifies its own
  protocols against, operation by operation: versioned etags from one counter, conditional
  writes, prefix listings in key order, and the oracle fields (\<open>committed\<close>, \<open>contested\<close>,
  \<open>body_removals\<close>, \<open>untyped_disappearances\<close>) that judge every removal of an artifact body.

  Time is the virtual clock's whole seconds. A \<open>world\<close> is the fleet's buckets together with
  a script of what happens at the storage calls to come. A step of the script rewrites the buckets
  just before the call, which is where other processes interleave with an \<open>async\<close> operation, and
  settles the call's fate: answered, refused before it reached the store, or carried out with the
  answer lost on the way back; \<open>Halt\<close> is the power cut of the simulation driver, after which no
  call of this process does anything. An empty script is an undisturbed run. The world also holds the
  counter behind the simulator's nonces (\<open>src/clock.rs\<close>). SHA-256 is the parameter \<open>sha\<close>.
\<close>

section \<open>Definitions\<close>

subsection \<open>Objects and buckets\<close>

record obj =
  obj_bytes :: bytes
  obj_etag :: string
  last_modified :: nat

record inner =
  objects :: "(string, obj) btree"
  committed :: "(string, string set) btree"
  contested :: "(string, string set) btree"
  body_removals :: nat
  untyped_disappearances :: "string list"
  next_version :: nat
  now :: nat

definition inner_default :: "nat \<Rightarrow> inner" where
  "inner_default t =
     \<lparr>objects = [], committed = [], contested = [], body_removals = 0, untyped_disappearances = [],
      next_version = 0, now = t\<rparr>"

definition listed_etag :: "obj \<Rightarrow> string" where
  "listed_etag ob = ''etag:'' @ obj_etag ob"

definition contains_key :: "inner \<Rightarrow> string \<Rightarrow> bool" where
  "contains_key s key = (bt_get (objects s) key \<noteq> None)"

text \<open>\<open>_quarantine/<pkg>/<file>@<sha12>\<close>, the key of a preserved copy (\<open>src/replicate.rs\<close>).\<close>

definition quarantine_key :: "string \<Rightarrow> string \<Rightarrow> string \<Rightarrow> string" where
  "quarantine_key pkg filename h = QUARANTINE_PREFIX @ pkg @ ''/'' @ filename @ ''@'' @ take 12 h"

subsection \<open>What counts as an artifact body, and what authorizes removing one\<close>

definition split_artifact_key :: "string \<Rightarrow> (string \<times> string) option" where
  "split_artifact_key key =
     (case strip_prefix key ''packages/'' of
        None \<Rightarrow> None
      | Some rest \<Rightarrow>
          (case split_once rest (CHR ''/'') of
             None \<Rightarrow> None
           | Some (pkg, name) \<Rightarrow>
               if CHR ''/'' \<notin> set name \<and> is_artifact name then Some (pkg, name) else None))"

definition is_canonical_artifact :: "string \<Rightarrow> bool" where
  "is_canonical_artifact key = (split_artifact_key key \<noteq> None)"

definition upload_barred :: "inner \<Rightarrow> string \<Rightarrow> bool" where
  "upload_barred s key = (contains_key s (tombstone_key key) \<or> contains_key s (frozen_key key))"

definition fence_stands :: "inner \<Rightarrow> string \<Rightarrow> bool" where
  "fence_stands s key = (upload_barred s key \<or> contains_key s (mirror_quarantined_key key))"

definition removal_authorized :: "(bytes \<Rightarrow> bytes) \<Rightarrow> inner \<Rightarrow> string \<Rightarrow> bytes \<Rightarrow> bool" where
  "removal_authorized sha s key removed =
     (if upload_barred s key then True
      else (case split_artifact_key key of
              None \<Rightarrow> False
            | Some (pkg, filename) \<Rightarrow>
                contains_key s (quarantine_key pkg filename (sha256_hex sha removed))))"

subsection \<open>Writing\<close>

definition set_add :: "string \<Rightarrow> string \<Rightarrow> (string, string set) btree \<Rightarrow> (string, string set) btree" where
  "set_add key h m = bt_insert key (insert h (case bt_get m key of None \<Rightarrow> {} | Some A \<Rightarrow> A)) m"

definition version_etag :: "nat \<Rightarrow> string" where
  "version_etag n = ''v'' @ show_nat n"

definition store :: "(bytes \<Rightarrow> bytes) \<Rightarrow> string \<Rightarrow> bytes \<Rightarrow> inner \<Rightarrow> string \<times> inner" where
  "store sha key bs s =
     (let s1 = (if is_canonical_artifact key \<and> \<not> upload_barred s key
                then s\<lparr>committed := set_add key (sha256_hex sha bs) (committed s)\<rparr> else s);
          tag = version_etag (next_version s1)
      in (tag, s1\<lparr>next_version := next_version s1 + 1,
                  objects := bt_insert key \<lparr>obj_bytes = bs, obj_etag = tag, last_modified = now s1\<rparr>
                               (objects s1)\<rparr>))"

definition create_lost :: "(bytes \<Rightarrow> bytes) \<Rightarrow> string \<Rightarrow> inner \<Rightarrow> inner" where
  "create_lost sha key s =
     (if \<not> is_canonical_artifact key then s
      else (case bt_get (objects s) key of
              None \<Rightarrow> s
            | Some ob \<Rightarrow>
                (let standing = sha256_hex sha (obj_bytes ob) in
                 if (case bt_get (committed s) key of None \<Rightarrow> False | Some A \<Rightarrow> standing \<in> A) then s
                 else s\<lparr>contested := set_add key standing (contested s)\<rparr>)))"

text \<open>One pass of \<open>delete_keys\<close>' loop, then the loop.\<close>

definition delete_key :: "(bytes \<Rightarrow> bytes) \<Rightarrow> string \<Rightarrow> inner \<Rightarrow> inner" where
  "delete_key sha k s =
     (case bt_get (objects s) k of
        None \<Rightarrow> s
      | Some removed \<Rightarrow>
          (let s1 = s\<lparr>objects := bt_remove k (objects s)\<rparr> in
           if \<not> is_canonical_artifact k then s1
           else
             (let s2 = s1\<lparr>body_removals := body_removals s1 + 1\<rparr>;
                  s3 = (if \<not> removal_authorized sha s2 k (obj_bytes removed)
                        then s2\<lparr>untyped_disappearances := untyped_disappearances s2 @ [k]\<rparr> else s2)
              in if fence_stands s3 k then s3
                 else s3\<lparr>committed := bt_remove k (committed s3),
                         contested := bt_remove k (contested s3)\<rparr>)))"

subsection \<open>The fleet and its interleavings\<close>

type_synonym bucket_id = nat
type_synonym fleet = "bucket_id \<Rightarrow> inner"

datatype step =
    Answered "fleet \<Rightarrow> fleet"
  | Refused bucket_signal "fleet \<Rightarrow> fleet"
  | Unanswered bucket_signal "fleet \<Rightarrow> fleet"
  | Halt

record world =
  buckets :: fleet
  script :: "step list"
  nonce_seq :: u64

type_synonym 'a act = "(world, 'a) io"

definition quiet :: "fleet \<Rightarrow> world" where
  "quiet fl = \<lparr>buckets = fl, script = [], nonce_seq = 0\<rparr>"

text \<open>The state a storage call meets: what peers did at the next scripted step has already happened.\<close>

fun step_peers :: "step \<Rightarrow> fleet \<Rightarrow> fleet" where
  "step_peers (Answered e) fl = e fl"
| "step_peers (Refused sg e) fl = e fl"
| "step_peers (Unanswered sg e) fl = e fl"
| "step_peers Halt fl = fl"

definition met :: "world \<Rightarrow> fleet" where
  "met w = (case script w of [] \<Rightarrow> buckets w | e # _ \<Rightarrow> step_peers e (buckets w))"

text \<open>The fate of a call that would return \<open>r\<close> and leave the bucket as \<open>s'\<close>, having found it as \<open>s\<close>.\<close>

fun fate :: "step list \<Rightarrow> inner \<Rightarrow> 'a res \<times> inner \<Rightarrow> 'a res \<times> inner" where
  "fate (Refused sg _ # _) s (r, s') = (Inl (StoreError sg), s)"
| "fate (Unanswered sg _ # _) s (r, s') = (Inl (StoreError sg), s')"
| "fate (Halt # _) s (r, s') = (Inl (StoreError Timeout), s)"
| "fate _ s (r, s') = (r, s')"

lemma fate_Nil [simp]: "fate [] s x = x"
  by (cases x) simp

definition call :: "bucket_id \<Rightarrow> (inner \<Rightarrow> 'a res \<times> inner) \<Rightarrow> 'a act" where
  "call b f w =
     (let fl = met w; (r, s') = fate (script w) (fl b) (f (fl b))
      in (r, w\<lparr>buckets := fl(b := s'), script := (case script w of Halt # _ \<Rightarrow> script w | es \<Rightarrow> tl es)\<rparr>))"

subsection \<open>The \<open>Storage\<close> operations\<close>

definition head_exists :: "bucket_id \<Rightarrow> string \<Rightarrow> bool act" where
  "head_exists b key = call b (\<lambda>s. (Inr (contains_key s key), s))"

definition stored_size :: "bucket_id \<Rightarrow> string \<Rightarrow> nat option act" where
  "stored_size b key =
     call b (\<lambda>s. (Inr (map_option (\<lambda>ob. length (obj_bytes ob)) (bt_get (objects s) key)), s))"

definition put_bytes :: "(bytes \<Rightarrow> bytes) \<Rightarrow> bucket_id \<Rightarrow> string \<Rightarrow> bytes \<Rightarrow> unit act" where
  "put_bytes sha b key bs = call b (\<lambda>s. (Inr (), snd (store sha key bs s)))"

definition put_if_absent :: "(bytes \<Rightarrow> bytes) \<Rightarrow> bucket_id \<Rightarrow> string \<Rightarrow> bytes \<Rightarrow> bool act" where
  "put_if_absent sha b key bs =
     call b (\<lambda>s. if contains_key s key then (Inr False, create_lost sha key s)
                 else (Inr True, snd (store sha key bs s)))"

definition get_bytes :: "bucket_id \<Rightarrow> string \<Rightarrow> bytes act" where
  "get_bytes b key =
     call b (\<lambda>s. (case bt_get (objects s) key of
                    None \<Rightarrow> (Inl (NotFound key), s)
                  | Some ob \<Rightarrow> (Inr (obj_bytes ob), s)))"

text \<open>\<open>range(prefix..).take_while(starts_with(prefix))\<close>.\<close>

definition prefix_range :: "inner \<Rightarrow> string \<Rightarrow> (string \<times> obj) list" where
  "prefix_range s prefix =
     takeWhile (\<lambda>e. starts_with (fst e) prefix) (dropWhile (\<lambda>e. fst e < prefix) (objects s))"

record file_entry =
  fe_key :: string
  fe_size :: nat
  fe_last_modified :: "nat option"
  fe_etag :: "string option"

definition list_dir_entries :: "bucket_id \<Rightarrow> string \<Rightarrow> file_entry list act" where
  "list_dir_entries b dir =
     call b (\<lambda>s. (Inr (map (\<lambda>(k, ob). \<lparr>fe_key = k, fe_size = length (obj_bytes ob),
                                        fe_last_modified = Some (last_modified ob),
                                        fe_etag = Some (listed_etag ob)\<rparr>)
                        (filter (\<lambda>e. CHR ''/'' \<notin> set (drop (length dir) (fst e))) (prefix_range s dir))), s))"

record object_meta =
  om_key :: string
  om_size :: nat
  om_etag :: string

definition meta_of :: "string \<times> obj \<Rightarrow> object_meta" where
  "meta_of e = \<lparr>om_key = fst e, om_size = length (obj_bytes (snd e)), om_etag = listed_etag (snd e)\<rparr>"

definition list_all_objects :: "bucket_id \<Rightarrow> string \<Rightarrow> object_meta list act" where
  "list_all_objects b prefix = call b (\<lambda>s. (Inr (map meta_of (prefix_range s prefix)), s))"

definition list_page :: "bucket_id \<Rightarrow> string \<Rightarrow> string option \<Rightarrow> nat \<Rightarrow> object_meta list act" where
  "list_page b prefix after limit =
     call b (\<lambda>s. (Inr (map meta_of (take limit
                   (filter (\<lambda>e. case after of None \<Rightarrow> True | Some a \<Rightarrow> a < fst e) (prefix_range s prefix)))), s))"

definition delete_keys :: "(bytes \<Rightarrow> bytes) \<Rightarrow> bucket_id \<Rightarrow> string list \<Rightarrow> unit act" where
  "delete_keys sha b ks = call b (\<lambda>s. (Inr (), fold (delete_key sha) ks s))"

definition get_with_etag :: "bucket_id \<Rightarrow> string \<Rightarrow> (bytes \<times> string) option act" where
  "get_with_etag b key =
     call b (\<lambda>s. (Inr (map_option (\<lambda>ob. (obj_bytes ob, obj_etag ob)) (bt_get (objects s) key)), s))"

definition head_etag :: "bucket_id \<Rightarrow> string \<Rightarrow> string option act" where
  "head_etag b key = call b (\<lambda>s. (Inr (map_option obj_etag (bt_get (objects s) key)), s))"

definition try_create :: "(bytes \<Rightarrow> bytes) \<Rightarrow> string \<Rightarrow> bytes \<Rightarrow> inner \<Rightarrow> string option \<times> inner" where
  "try_create sha key bs s =
     (if contains_key s key then (None, create_lost sha key s)
      else (let (tag, s') = store sha key bs s in (Some tag, s')))"

definition put_if_none_match :: "(bytes \<Rightarrow> bytes) \<Rightarrow> bucket_id \<Rightarrow> string \<Rightarrow> bytes \<Rightarrow> string option act" where
  "put_if_none_match sha b key bs =
     call b (\<lambda>s. let (r, s') = try_create sha key bs s in (Inr r, s'))"

text \<open>
  A tag that carries no version is an invalid request, refused before the bucket is looked at:
  \<open>etag.strip_prefix('v')\<close> must parse as a \<open>u64\<close>.
\<close>

definition versioned :: "string \<Rightarrow> bool" where
  "versioned tag =
     (case strip_prefix tag ''v'' of None \<Rightarrow> False | Some v \<Rightarrow> parse_u64 v \<noteq> None)"

definition try_replace :: "(bytes \<Rightarrow> bytes) \<Rightarrow> string \<Rightarrow> string \<Rightarrow> bytes \<Rightarrow> inner \<Rightarrow> string option \<times> inner" where
  "try_replace sha key tag bs s =
     (case bt_get (objects s) key of
        None \<Rightarrow> (None, s)
      | Some current \<Rightarrow>
          if obj_etag current = tag
          then (let (t, s') = store sha key bs s in (Some t, s'))
          else (None, s))"

definition put_if_match :: "(bytes \<Rightarrow> bytes) \<Rightarrow> bucket_id \<Rightarrow> string \<Rightarrow> string \<Rightarrow> bytes \<Rightarrow> string option act" where
  "put_if_match sha b key tag bs =
     call b (\<lambda>s.
       if \<not> versioned tag then (Inl (Bail ''version required for conditional update''), s)
       else (let (r, s') = try_replace sha key tag bs s in (Inr r, s')))"

section \<open>Lookup after each write\<close>

abbreviation object_at :: "inner \<Rightarrow> string \<Rightarrow> obj option" where
  "object_at s k \<equiv> bt_get (objects s) k"

lemma version_etag_inject [simp]: "version_etag m = version_etag n \<longleftrightarrow> m = n"
  by (simp add: version_etag_def)

lemma store_tag: "fst (store sha k bs s) = version_etag (next_version s)"
  by (simp add: store_def Let_def)

lemma object_at_store:
  "object_at (snd (store sha k bs s)) k' =
     (if k' = k then Some \<lparr>obj_bytes = bs, obj_etag = version_etag (next_version s), last_modified = now s\<rparr>
      else object_at s k')"
  by (simp add: store_def Let_def bt.get_insert)

lemma next_version_store: "next_version (snd (store sha k bs s)) = next_version s + 1"
  by (simp add: store_def Let_def)

lemma objects_create_lost [simp]: "objects (create_lost sha k s) = objects s"
  by (simp add: create_lost_def Let_def split: option.splits)

lemma next_version_create_lost [simp]: "next_version (create_lost sha k s) = next_version s"
  by (simp add: create_lost_def Let_def split: option.splits)

lemma objects_delete_key: "objects (delete_key sha k s) = bt_remove k (objects s)"
proof (cases "object_at s k")
  case None
  then have "k \<notin> fst ` set (objects s)"
    by (simp add: bt_get_def map_of_eq_None_iff)
  then have "bt_remove k (objects s) = objects s"
    by (auto simp: bt_remove_def intro: filter_True)
  then show ?thesis
    using None by (simp add: delete_key_def)
qed (simp add: delete_key_def Let_def)

lemma object_at_delete_key:
  "object_at (delete_key sha k s) k' = (if k' = k then None else object_at s k')"
  by (simp add: objects_delete_key bt.get_remove)

lemma next_version_delete_key [simp]: "next_version (delete_key sha k s) = next_version s"
  by (simp add: delete_key_def Let_def split: option.splits)

lemma objects_delete_keys: "objects (fold (delete_key sha) ks s) = fold bt_remove ks (objects s)"
  by (induction ks arbitrary: s) (simp_all add: objects_delete_key)

lemma object_at_delete_keys:
  "object_at (fold (delete_key sha) ks s) k = (if k \<in> set ks then None else object_at s k)"
  by (simp add: objects_delete_keys bt.get_fold_remove)

lemma next_version_delete_keys [simp]: "next_version (fold (delete_key sha) ks s) = next_version s"
  by (induction ks arbitrary: s) simp_all

section \<open>Versions only move forward\<close>

definition store_wf :: "inner \<Rightarrow> bool" where
  "store_wf s = (bt_ordered (objects s) \<and>
     (\<forall>k ob. object_at s k = Some ob \<longrightarrow> (\<exists>n<next_version s. obj_etag ob = version_etag n)))"

text \<open>
  \<open>evolves s s'\<close>: what any sequence of storage calls does to a bucket. Versions already issued
  are never reissued, so an object that still carries one is the object it was issued to.
\<close>

definition evolves :: "inner \<Rightarrow> inner \<Rightarrow> bool" where
  "evolves s s' = (next_version s \<le> next_version s' \<and>
     (\<forall>k ob n. object_at s' k = Some ob \<longrightarrow> obj_etag ob = version_etag n \<longrightarrow> n < next_version s
        \<longrightarrow> object_at s k = Some ob))"

lemma evolves_refl [simp, intro]: "evolves s s"
  by (simp add: evolves_def)

lemma evolves_trans: "evolves s t \<Longrightarrow> evolves t u \<Longrightarrow> evolves s u"
  unfolding evolves_def by (meson order_less_le_trans order_trans)

lemma evolves_same_objects:
  "objects s' = objects s \<Longrightarrow> next_version s' = next_version s \<Longrightarrow> evolves s s'"
  by (simp add: evolves_def)

lemma store_evolves: "evolves s (snd (store sha k bs s))"
  by (auto simp: evolves_def object_at_store next_version_store split: if_splits)

lemma delete_keys_evolves: "evolves s (fold (delete_key sha) ks s)"
  by (simp add: evolves_def object_at_delete_keys)

lemma store_wf_store:
  assumes "store_wf s"
  shows "store_wf (snd (store sha k bs s))"
proof -
  have "bt_ordered (objects (snd (store sha k bs s)))"
    using assms by (simp add: store_wf_def store_def Let_def bt.ordered_insert)
  moreover have "\<exists>n<next_version (snd (store sha k bs s)). obj_etag ob = version_etag n"
    if ob: "object_at (snd (store sha k bs s)) k' = Some ob" for k' ob
  proof (cases "k' = k")
    case True
    then show ?thesis
      using ob by (auto simp: object_at_store next_version_store intro: exI [of _ "next_version s"])
  next
    case False
    then obtain n where "n < next_version s" and "obj_etag ob = version_etag n"
      using ob assms by (auto simp: object_at_store store_wf_def)
    then show ?thesis
      by (auto simp: next_version_store intro: exI [of _ n])
  qed
  ultimately show ?thesis
    unfolding store_wf_def by blast
qed

lemma store_wf_delete_keys: "store_wf s \<Longrightarrow> store_wf (fold (delete_key sha) ks s)"
  unfolding store_wf_def
  by (simp add: objects_delete_keys bt.get_fold_remove bt.ordered_fold_remove)

lemma store_wf_create_lost: "store_wf s \<Longrightarrow> store_wf (create_lost sha k s)"
  by (simp add: store_wf_def)

lemma inner_default_simps [simp]:
  "object_at (inner_default t) k = None" "next_version (inner_default t) = 0" "objects (inner_default t) = []"
  by (simp_all add: inner_default_def bt.get_empty)

lemma store_wf_default: "store_wf (inner_default t)"
  by (simp add: store_wf_def bt.get_empty bt.ordered_empty)

section \<open>Compare-and-swap as an interface\<close>

text \<open>
  What the protocols above the store rely on: a conditional write succeeds exactly when the tag
  is the one standing, it installs the new value, and no later state reuses a tag that was
  already issued. Reading a value and swapping on its tag is then one atomic step.
\<close>

locale cas_store =
  fixes lookup :: "'s \<Rightarrow> 'k \<Rightarrow> ('v \<times> 't) option"
    and cas :: "'k \<Rightarrow> 't \<Rightarrow> 'v \<Rightarrow> 's \<Rightarrow> 't option \<times> 's"
    and create :: "'k \<Rightarrow> 'v \<Rightarrow> 's \<Rightarrow> 't option \<times> 's"
    and wf :: "'s \<Rightarrow> bool"
    and step :: "'s \<Rightarrow> 's \<Rightarrow> bool"
  assumes step_trans: "step s0 s1 \<Longrightarrow> step s1 s2 \<Longrightarrow> step s0 s2"
    and no_reuse: "wf s \<Longrightarrow> step s s' \<Longrightarrow> lookup s k = Some (v, t) \<Longrightarrow> lookup s' k' = Some (v', t)
      \<Longrightarrow> lookup s k' = Some (v', t)"
    and cas_wins: "lookup s k = Some (v, t) \<Longrightarrow> cas k t v' s = (r, s')
      \<Longrightarrow> (\<exists>t'. r = Some t' \<and> lookup s' k = Some (v', t'))"
    and cas_loses: "(\<nexists>v. lookup s k = Some (v, t)) \<Longrightarrow> cas k t v' s = (None, s)"
    and cas_other: "cas k t v' s = (r, s') \<Longrightarrow> k' \<noteq> k \<Longrightarrow> lookup s' k' = lookup s k'"
    and cas_wf: "wf s \<Longrightarrow> cas k t v' s = (r, s') \<Longrightarrow> wf s' \<and> step s s'"
    and create_wins: "lookup s k = None \<Longrightarrow> create k v s = (r, s')
      \<Longrightarrow> (\<exists>t. r = Some t \<and> lookup s' k = Some (v, t))"
    and create_loses: "lookup s k \<noteq> None \<Longrightarrow> create k v s = (r, s') \<Longrightarrow> r = None \<and> lookup s' = lookup s"
    and create_other: "create k v s = (r, s') \<Longrightarrow> k' \<noteq> k \<Longrightarrow> lookup s' k' = lookup s k'"
    and create_wf: "wf s \<Longrightarrow> create k v s = (r, s') \<Longrightarrow> wf s' \<and> step s s'"
begin

text \<open>A swap that wins on an observed tag replaced the very value observed, whatever ran between.\<close>

lemma read_then_cas_atomic:
  assumes "wf s" and "lookup s k = Some (v, t)" and "step s s1" and "cas k t v' s1 = (Some t', s2)"
  shows "lookup s1 k = Some (v, t)" and "lookup s2 k = Some (v', t')"
proof -
  obtain u where u: "lookup s1 k = Some (u, t)"
    using cas_loses [of s1 k t v'] assms(4) by (cases "lookup s1 k") auto
  then have "lookup s k = Some (u, t)"
    using no_reuse [OF assms(1,3,2) u] by simp
  then have "u = v"
    using assms(2) by simp
  then show "lookup s1 k = Some (v, t)"
    using u by simp
  show "lookup s2 k = Some (v', t')"
    using cas_wins [OF u assms(4)] by auto
qed

text \<open>
  \<open>proves s k t P\<close>: holding the tag \<open>t\<close> is evidence that the value under \<open>k\<close> satisfies \<open>P\<close>, if \<open>t\<close>
  is still standing.
\<close>

definition proves :: "'s \<Rightarrow> 'k \<Rightarrow> 't \<Rightarrow> ('v \<Rightarrow> bool) \<Rightarrow> bool" where
  "proves s k t P = (\<exists>s0. wf s0 \<and> step s0 s \<and> (\<exists>v. lookup s0 k = Some (v, t) \<and> P v))"

lemma provesI: "wf s \<Longrightarrow> step s s \<Longrightarrow> lookup s k = Some (v, t) \<Longrightarrow> P v \<Longrightarrow> proves s k t P"
  unfolding proves_def by blast

lemma proves_stable: "proves s k t P \<Longrightarrow> step s s' \<Longrightarrow> proves s' k t P"
  unfolding proves_def using step_trans by blast

lemma proves_current: "proves s k t P \<Longrightarrow> lookup s k = Some (v, t) \<Longrightarrow> P v"
proof -
  assume "proves s k t P" and now: "lookup s k = Some (v, t)"
  then obtain s0 u where "wf s0" "step s0 s" and was: "lookup s0 k = Some (u, t)" and "P u"
    unfolding proves_def by blast
  moreover from this now have "lookup s0 k = Some (v, t)"
    using no_reuse by blast
  ultimately show "P v"
    by simp
qed

end

definition lookup_tagged :: "inner \<Rightarrow> string \<Rightarrow> (bytes \<times> string) option" where
  "lookup_tagged s k = map_option (\<lambda>ob. (obj_bytes ob, obj_etag ob)) (object_at s k)"

lemma lookup_tagged_store:
  "lookup_tagged (snd (store sha k bs s)) k' =
     (if k' = k then Some (bs, version_etag (next_version s)) else lookup_tagged s k')"
  by (simp add: lookup_tagged_def object_at_store)

lemma lookup_tagged_create_lost [simp]: "lookup_tagged (create_lost sha k s) = lookup_tagged s"
  by (simp add: lookup_tagged_def fun_eq_iff)

lemma lookup_tagged_None_iff: "lookup_tagged s k = None \<longleftrightarrow> \<not> contains_key s k"
  by (simp add: lookup_tagged_def contains_key_def)

lemma try_replace_cases:
  "try_replace sha k t bs s =
     (if \<exists>v. lookup_tagged s k = Some (v, t)
      then (Some (version_etag (next_version s)), snd (store sha k bs s)) else (None, s))"
proof (cases "object_at s k")
  case (Some ob)
  then show ?thesis
    using store_tag [of sha k bs s]
    by (cases "store sha k bs s") (auto simp: try_replace_def lookup_tagged_def)
qed (simp add: try_replace_def lookup_tagged_def)

lemma try_create_cases:
  "try_create sha k bs s =
     (if contains_key s k then (None, create_lost sha k s)
      else (Some (version_etag (next_version s)), snd (store sha k bs s)))"
  using store_tag [of sha k bs s] by (cases "store sha k bs s") (auto simp: try_create_def)

lemma lookup_no_reuse:
  assumes "store_wf s" and "evolves s s'" and "lookup_tagged s k = Some (v, t)"
    and "lookup_tagged s' k' = Some (v', t)"
  shows "lookup_tagged s k' = Some (v', t)"
proof -
  obtain n where "n < next_version s" and "t = version_etag n"
    using assms(1,3) by (auto simp: lookup_tagged_def store_wf_def)
  then show ?thesis
    using assms(2,4) unfolding evolves_def lookup_tagged_def by auto
qed

interpretation sim: cas_store lookup_tagged "try_replace sha" "try_create sha" store_wf evolves
proof unfold_locales
  fix s s' :: inner and k k' and v v' :: bytes and t
  show "\<lbrakk>store_wf s; evolves s s'; lookup_tagged s k = Some (v, t); lookup_tagged s' k' = Some (v', t)\<rbrakk>
    \<Longrightarrow> lookup_tagged s k' = Some (v', t)"
    by (rule lookup_no_reuse)
qed (auto simp: try_replace_cases try_create_cases lookup_tagged_store lookup_tagged_None_iff
       evolves_same_objects store_evolves store_wf_store store_wf_create_lost intro: evolves_trans
       split: if_splits)

section \<open>Listings\<close>

text \<open>The keys under a prefix are one contiguous run of the key order.\<close>

lemma prefix_le: "starts_with k p \<Longrightarrow> p \<le> k"
  by (induction k p rule: starts_with.induct) auto

lemma prefix_convex: "p \<le> a \<Longrightarrow> a \<le> c \<Longrightarrow> starts_with c p \<Longrightarrow> starts_with a p"
proof (induction c p arbitrary: a rule: starts_with.induct)
  case (3 c s p ps)
  then show ?case
    by (cases a) auto
qed auto

lemma takeWhile_eq_filter_downward:
  "sorted_wrt R xs \<Longrightarrow> (\<And>x y. x \<in> set xs \<Longrightarrow> y \<in> set xs \<Longrightarrow> R x y \<Longrightarrow> P y \<Longrightarrow> P x) \<Longrightarrow> takeWhile P xs = filter P xs"
proof (induction xs)
  case (Cons x xs)
  show ?case
  proof (cases "P x")
    case True
    have "takeWhile P xs = filter P xs"
      by (rule Cons.IH) (use Cons.prems in auto)
    then show ?thesis
      using True by simp
  next
    case False
    then have "\<forall>y\<in>set xs. \<not> P y"
      using Cons.prems by auto
    then show ?thesis
      using False by (simp add: filter_empty_conv)
  qed
qed simp

lemma dropWhile_eq_filter_upward:
  "sorted_wrt R xs \<Longrightarrow> (\<And>x y. R x y \<Longrightarrow> P y \<Longrightarrow> P x) \<Longrightarrow> dropWhile P xs = filter (\<lambda>x. \<not> P x) xs"
proof (induction xs)
  case (Cons x xs)
  show ?case
  proof (cases "P x")
    case False
    then have "\<forall>y\<in>set xs. \<not> P y"
      using Cons.prems by auto
    then show ?thesis
      using False by simp
  qed (use Cons in simp)
qed simp

lemma sorted_take_rest:
  assumes "sorted_wrt (<) xs" and "k \<in> set xs" and "k \<notin> set (take n xs)"
  shows "n < length xs \<and> (\<forall>k'\<in>set (take n xs). k' < k)"
proof -
  have split: "set xs = set (take n xs) \<union> set (drop n xs)"
    by (metis append_take_drop_id set_append)
  then have k: "k \<in> set (drop n xs)"
    using assms by blast
  then have "drop n xs \<noteq> []"
    by force
  then have "n < length xs"
    by simp
  moreover have "sorted_wrt (<) (take n xs @ drop n xs)"
    using assms(1) by simp
  ultimately show ?thesis
    using k unfolding sorted_wrt_append by blast
qed

lemma prefix_range_filter:
  assumes "bt_ordered (objects s)"
  shows "prefix_range s p = filter (\<lambda>e. starts_with (fst e) p) (objects s)"
proof -
  let ?R = "\<lambda>x y :: string \<times> obj. fst x < fst y"
  have sorted: "sorted_wrt ?R (objects s)"
    using assms by (simp add: bt_ordered_def bt_keys_def sorted_wrt_map)
  have drop: "dropWhile (\<lambda>e. fst e < p) (objects s) = filter (\<lambda>e. \<not> fst e < p) (objects s)"
    by (rule dropWhile_eq_filter_upward [OF sorted]) auto
  have "prefix_range s p = takeWhile (\<lambda>e. starts_with (fst e) p) (filter (\<lambda>e. \<not> fst e < p) (objects s))"
    by (simp add: prefix_range_def drop)
  also have "\<dots> = filter (\<lambda>e. starts_with (fst e) p) (filter (\<lambda>e. \<not> fst e < p) (objects s))"
  proof (rule takeWhile_eq_filter_downward)
    show "sorted_wrt ?R (filter (\<lambda>e. \<not> fst e < p) (objects s))"
      using sorted by (simp add: sorted_wrt_filter)
    show "starts_with (fst x) p" if "x \<in> set (filter (\<lambda>e. \<not> fst e < p) (objects s))"
      "fst x < fst y" "starts_with (fst y) p" for x y
      using that prefix_convex [of p "fst x" "fst y"] by auto
  qed
  also have "\<dots> = filter (\<lambda>e. starts_with (fst e) p) (objects s)"
    by (auto intro!: filter_cong dest: prefix_le)
  finally show ?thesis .
qed

lemma prefix_range_set:
  "store_wf s \<Longrightarrow> (k, ob) \<in> set (prefix_range s p) \<longleftrightarrow> starts_with k p \<and> object_at s k = Some ob"
  using bt.entries_get [of "objects s" k ob] by (auto simp: prefix_range_filter store_wf_def)

lemma prefix_range_sorted: "store_wf s \<Longrightarrow> sorted_wrt (<) (map fst (prefix_range s p))"
  using bt.filtered_entries(2) [of "objects s" "\<lambda>e. starts_with (fst e) p"]
  by (simp add: prefix_range_filter store_wf_def)

section \<open>Properties\<close>

text \<open>
  paging through a prefix is complete and moves forward: a page holds the first \<open>limit\<close>
  objects of the prefix after the cursor, in strictly increasing key order, so a page shorter
  than the limit is the last one, and every matching object not on the page has a larger key
  than every object on it.
\<close>

theorem list_page_exact:
  assumes "store_wf (buckets w b)" and "script w = []"
    and "list_page b pre aft limit w = (Inr page, w')"
  shows "w' = w
    \<and> sorted_wrt (<) (map om_key page)
    \<and> length page \<le> limit
    \<and> (\<forall>k. k \<in> om_key ` set page \<longrightarrow>
          starts_with k pre \<and> contains_key (buckets w b) k \<and> (case aft of None \<Rightarrow> True | Some a \<Rightarrow> a < k))
    \<and> (\<forall>k. starts_with k pre \<and> contains_key (buckets w b) k \<and> (case aft of None \<Rightarrow> True | Some a \<Rightarrow> a < k)
          \<and> k \<notin> om_key ` set page \<longrightarrow> length page = limit \<and> (\<forall>k'\<in>om_key ` set page. k' < k))"
proof -
  let ?s = "buckets w b"
  let ?ok = "\<lambda>e :: string \<times> obj. case aft of None \<Rightarrow> True | Some a \<Rightarrow> a < fst e"
  let ?all = "filter ?ok (prefix_range ?s pre)"
  have page: "page = map meta_of (take limit ?all)" and w': "w' = w"
    using assms(2,3) by (auto simp: list_page_def call_def met_def Let_def)
  have keys: "map om_key page = take limit (map fst ?all)"
    by (simp add: page take_map comp_def meta_of_def)
  have sorted: "sorted_wrt (<) (map fst ?all)"
    using prefix_range_sorted [OF assms(1), of pre] by (simp add: sorted_wrt_map sorted_wrt_filter)
  have all: "set (map fst ?all) = {k. starts_with k pre \<and> contains_key ?s k \<and> (case aft of None \<Rightarrow> True | Some a \<Rightarrow> a < k)}"
  proof (rule set_eqI)
    fix k
    have "k \<in> set (map fst ?all) \<longleftrightarrow> (\<exists>ob. (k, ob) \<in> set (prefix_range ?s pre)) \<and> (case aft of None \<Rightarrow> True | Some a \<Rightarrow> a < k)"
      by (cases aft) (auto simp: image_iff Bex_def)
    then show "k \<in> set (map fst ?all) \<longleftrightarrow> k \<in> {k. starts_with k pre \<and> contains_key ?s k \<and> (case aft of None \<Rightarrow> True | Some a \<Rightarrow> a < k)}"
      unfolding prefix_range_set [OF assms(1)] by (auto simp: contains_key_def)
  qed
  have key_set: "om_key ` set page = set (take limit (map fst ?all))"
    using keys by (metis list.set_map)
  have rest: "length page = limit \<and> (\<forall>k'\<in>om_key ` set page. k' < k)"
    if "k \<in> set (map fst ?all)" "k \<notin> om_key ` set page" for k
    using sorted_take_rest [OF sorted, of k limit] that key_set by (simp add: page)
  show ?thesis
  proof (intro conjI allI impI)
    show "sorted_wrt (<) (map om_key page)"
      unfolding keys using sorted by (metis append_take_drop_id sorted_wrt_append)
    show "starts_with k pre" "contains_key ?s k" "case aft of None \<Rightarrow> True | Some a \<Rightarrow> a < k"
      if "k \<in> om_key ` set page" for k
    proof -
      have "k \<in> set (map fst ?all)"
        using that key_set set_take_subset by fast
      then show "starts_with k pre" "contains_key ?s k" "case aft of None \<Rightarrow> True | Some a \<Rightarrow> a < k"
        unfolding all by auto
    qed
  qed (use w' rest all in \<open>auto simp: page\<close>)
qed

theorem list_page_exact_witness:
  "let s = snd (store (\<lambda>x. x) ''_repl/b/six/f'' ''1'' (inner_default 0)); w = quiet (\<lambda>_. s)
   in \<exists>page. list_page 0 ''_repl/'' None 5 w = (Inr page, w) \<and> sorted_wrt (<) (map om_key page)"
proof -
  let ?s = "snd (store (\<lambda>x. x) ''_repl/b/six/f'' ''1'' (inner_default 0))"
  obtain page w' where "list_page 0 ''_repl/'' None 5 (quiet (\<lambda>_. ?s)) = (Inr page, w')"
    by (simp add: list_page_def call_def quiet_def met_def Let_def)
  moreover have "store_wf ?s"
    by (intro store_wf_store store_wf_default)
  ultimately show ?thesis
    using list_page_exact [of "quiet (\<lambda>_. ?s)" 0 "''_repl/''" None 5 page w'] by (simp add: quiet_def Let_def)
qed

end
