(* ===== verification/Interleaving.thy ===== *)
theory Interleaving
  imports Object_Store
begin

text \<open>
  Reasoning about \<open>async\<close> operations that other processes may interleave with at every storage
  call. \<open>triple G P m Q\<close> says: started where \<open>P\<close> holds, with every step of the interference
  script within the rely \<open>G\<close>, the operation \<open>m\<close> ends with its outcome and the buckets related by
  \<open>Q\<close>, whether it succeeds or fails, whichever of its calls go unanswered, and wherever the process
  is halted. The rules are one per storage call and one per monad
  combinator, so the protocol proofs follow the shape of the code.
\<close>

named_theorems triple_intros \<open>introduction rules of the interference logic\<close>

section \<open>Definitions\<close>

definition fleet_wf :: "fleet \<Rightarrow> bool" where
  "fleet_wf fl = (\<forall>b. store_wf (fl b))"

definition fleet_evolves :: "fleet \<Rightarrow> fleet \<Rightarrow> bool" where
  "fleet_evolves fl fl' = (\<forall>b. evolves (fl b) (fl' b))"

text \<open>Every scripted step keeps the store well-formed, moves versions forward and stays in \<open>G\<close>.\<close>

definition obeys :: "(fleet \<Rightarrow> fleet \<Rightarrow> bool) \<Rightarrow> world \<Rightarrow> bool" where
  "obeys G w = (fleet_wf (buckets w) \<and>
     (\<forall>e\<in>set (script w). e \<noteq> Halt \<longrightarrow> (\<forall>fl. fleet_wf fl \<longrightarrow>
        fleet_wf (step_peers e fl) \<and> fleet_evolves fl (step_peers e fl) \<and> G fl (step_peers e fl))))"

definition stable :: "(fleet \<Rightarrow> fleet \<Rightarrow> bool) \<Rightarrow> (fleet \<Rightarrow> bool) \<Rightarrow> bool" where
  "stable G P = (\<forall>fl fl'. fleet_wf fl \<longrightarrow> fleet_evolves fl fl' \<longrightarrow> G fl fl' \<longrightarrow> P fl \<longrightarrow> P fl')"

definition triple ::
  "(fleet \<Rightarrow> fleet \<Rightarrow> bool) \<Rightarrow> (fleet \<Rightarrow> bool) \<Rightarrow> 'a act \<Rightarrow> ('a res \<Rightarrow> fleet \<Rightarrow> bool) \<Rightarrow> bool" where
  "triple G P m Q =
     (\<forall>w r w'. obeys G w \<longrightarrow> P (buckets w) \<longrightarrow> m w = (r, w') \<longrightarrow> obeys G w' \<and> Q r (buckets w'))"

text \<open>The postcondition that asks the same invariant of success and failure.\<close>

definition both :: "(fleet \<Rightarrow> bool) \<Rightarrow> ('a \<Rightarrow> fleet \<Rightarrow> bool) \<Rightarrow> 'a res \<Rightarrow> fleet \<Rightarrow> bool" where
  "both E R r fl = (case r of Inl _ \<Rightarrow> E fl | Inr x \<Rightarrow> R x fl)"

lemma both_simps [simp]: "both E R (Inl e) fl = E fl" "both E R (Inr x) fl = R x fl"
  by (simp_all add: both_def)

section \<open>Structural rules\<close>

lemma tripleD:
  "triple G P m Q \<Longrightarrow> obeys G w \<Longrightarrow> P (buckets w) \<Longrightarrow> m w = (r, w') \<Longrightarrow> obeys G w' \<and> Q r (buckets w')"
  by (simp add: triple_def)

lemma triple_conseq:
  "triple G P m Q \<Longrightarrow> (\<And>fl. P' fl \<Longrightarrow> P fl) \<Longrightarrow> (\<And>r fl. Q r fl \<Longrightarrow> Q' r fl) \<Longrightarrow> triple G P' m Q'"
  unfolding triple_def by blast

lemma triple_pre: "triple G P m Q \<Longrightarrow> (\<And>fl. P' fl \<Longrightarrow> P fl) \<Longrightarrow> triple G P' m Q"
  unfolding triple_def by blast

lemma triple_false: "triple G (\<lambda>_. False) m Q"
  by (simp add: triple_def)

lemma triple_ex: "(\<And>x. triple G (P x) m Q) \<Longrightarrow> triple G (\<lambda>fl. \<exists>x. P x fl) m Q"
  unfolding triple_def by blast

lemma triple_conj: "triple G P m Q \<Longrightarrow> triple G P' m Q' \<Longrightarrow> triple G (\<lambda>fl. P fl \<and> P' fl) m (\<lambda>r fl. Q r fl \<and> Q' r fl)"
  unfolding triple_def by blast

lemma triple_ret [triple_intros]: "(\<And>fl. P fl \<Longrightarrow> Q (Inr x) fl) \<Longrightarrow> triple G P (ret x) Q"
  by (simp add: triple_def io_simps)

lemma triple_fail [triple_intros]: "(\<And>fl. P fl \<Longrightarrow> Q (Inl e) fl) \<Longrightarrow> triple G P (fail e) Q"
  by (simp add: triple_def io_simps)

lemma triple_andThen:
  assumes "triple G P m (both E R)" and "\<And>x. triple G (R x) (f x) Q" and "\<And>e fl. E fl \<Longrightarrow> Q (Inl e) fl"
  shows "triple G P (andThen m f) Q"
  unfolding triple_def
proof (intro allI impI)
  fix w r w'
  assume w: "obeys G w" "P (buckets w)" and run: "andThen m f w = (r, w')"
  obtain x w1 where m: "m w = (x, w1)"
    by fastforce
  then have mid: "obeys G w1 \<and> both E R x (buckets w1)"
    using tripleD [OF assms(1) w m] by simp
  show "obeys G w' \<and> Q r (buckets w')"
  proof (cases x)
    case (Inl e)
    then show ?thesis
      using mid m run assms(3) by (auto simp: andThen_def)
  next
    case (Inr y)
    then show ?thesis
      using mid m run tripleD [OF assms(2) [of y]] by (auto simp: andThen_def)
  qed
qed

lemma triple_onResult:
  assumes "triple G P m Q'" and "\<And>x. triple G (Q' (Inr x)) (f x) Q" and "\<And>e. triple G (Q' (Inl e)) (h e) Q"
  shows "triple G P (onResult m h f) Q"
  unfolding triple_def
proof (intro allI impI)
  fix w r w'
  assume w: "obeys G w" "P (buckets w)" and run: "onResult m h f w = (r, w')"
  obtain x w1 where m: "m w = (x, w1)"
    by fastforce
  then have mid: "obeys G w1 \<and> Q' x (buckets w1)"
    using tripleD [OF assms(1) w m] by simp
  show "obeys G w' \<and> Q r (buckets w')"
  proof (cases x)
    case (Inl e)
    then show ?thesis
      using mid m run tripleD [OF assms(3) [of e]] by (auto simp: onResult_def)
  next
    case (Inr y)
    then show ?thesis
      using mid m run tripleD [OF assms(2) [of y]] by (auto simp: onResult_def)
  qed
qed

lemma triple_andThen_same:
  assumes "triple G P m (\<lambda>_. F)" and "\<And>x. triple G F (f x) (\<lambda>_. F)"
  shows "triple G P (andThen m f) (\<lambda>_. F)"
  by (rule triple_andThen [OF triple_conseq [OF assms(1)] assms(2)]) (auto simp: both_def split: sum.splits)

lemma triple_if [triple_intros]:
  "(c \<Longrightarrow> triple G P m Q) \<Longrightarrow> (\<not> c \<Longrightarrow> triple G P m' Q) \<Longrightarrow> triple G P (if c then m else m') Q"
  by simp

section \<open>One storage call\<close>

lemma fleet_evolves_refl [simp]: "fleet_evolves fl fl"
  by (simp add: fleet_evolves_def)

lemma obeys_met:
  assumes "obeys G w" and "stable G P" and "P (buckets w)"
  shows "fleet_wf (met w) \<and> P (met w)"
proof (cases "script w = [] \<or> hd (script w) = Halt")
  case True
  then show ?thesis
    using assms by (auto simp: met_def obeys_def split: list.splits)
next
  case False
  then obtain e es where script: "script w = e # es" and "e \<noteq> Halt"
    by (cases "script w") auto
  then have "fleet_wf (step_peers e (buckets w)) \<and> fleet_evolves (buckets w) (step_peers e (buckets w)) \<and> G (buckets w) (step_peers e (buckets w))"
    using assms(1) by (simp add: obeys_def)
  moreover have "fleet_wf (buckets w)"
    using assms(1) by (simp add: obeys_def)
  ultimately show ?thesis
    using assms(2,3) script unfolding stable_def by (simp add: met_def)
qed

lemma fate_cases:
  assumes "fate es s (f s) = (r, s')"
  obtains "(r, s') = f s" | "unanswered r" "s' = s" | "unanswered r" "s' = snd (f s)"
proof -
  obtain r0 s0 where "f s = (r0, s0)"
    by fastforce
  then show thesis
    using assms that by (cases es; cases "hd es") auto
qed

lemma triple_call:
  assumes "stable G P"
    and answered: "\<And>fl r s'. fleet_wf fl \<Longrightarrow> P fl \<Longrightarrow> f (fl b) = (r, s') \<Longrightarrow> store_wf s' \<and> Q r (fl(b := s'))"
    and refused: "\<And>fl sg. fleet_wf fl \<Longrightarrow> P fl \<Longrightarrow> Q (Inl (StoreError sg)) fl"
    and unanswered: "\<And>fl r s' sg. fleet_wf fl \<Longrightarrow> P fl \<Longrightarrow> f (fl b) = (r, s') \<Longrightarrow> Q (Inl (StoreError sg)) (fl(b := s'))"
  shows "triple G P (call b f) Q"
  unfolding triple_def
proof (intro allI impI)
  fix w r w'
  assume w: "obeys G w" "P (buckets w)" and run: "call b f w = (r, w')"
  let ?es = "case script w of Halt # _ \<Rightarrow> script w | es \<Rightarrow> tl es"
  obtain s' where f: "fate (script w) (met w b) (f (met w b)) = (r, s')"
    and w': "w' = w\<lparr>buckets := (met w)(b := s'), script := ?es\<rparr>"
    using run by (auto simp: call_def Let_def split: prod.splits)
  have pre: "fleet_wf (met w)" "P (met w)"
    using obeys_met [OF w(1) assms(1) w(2)] by auto
  obtain r0 s0 where f0: "f (met w b) = (r0, s0)"
    by fastforce
  have here: "(met w)(b := met w b) = met w"
    by simp
  have "store_wf s' \<and> Q r ((met w)(b := s'))"
    using f
  proof (cases rule: fate_cases)
    case 1
    then show ?thesis
      using answered [OF pre, of r s'] by simp
  next
    case 2
    then show ?thesis
      using refused [OF pre] pre(1) here by (auto simp: fleet_wf_def)
  next
    case 3
    then show ?thesis
      using answered [OF pre f0] unanswered [OF pre f0] f0 by auto
  qed
  moreover from this have "fleet_wf ((met w)(b := s'))"
    using pre by (simp add: fleet_wf_def)
  moreover have "set ?es \<subseteq> set (script w)"
    by (auto split: list.splits step.splits dest: list.set_sel(2))
  ultimately show "obeys G w' \<and> Q r (buckets w')"
    using w(1) unfolding w' obeys_def by auto
qed

section \<open>The storage calls\<close>

lemma triple_read_call:
  assumes "stable G P" and "\<And>s. snd (f s) = s" and "\<And>fl. fleet_wf fl \<Longrightarrow> P fl \<Longrightarrow> Q (fst (f (fl b))) fl"
    and "\<And>fl sg. fleet_wf fl \<Longrightarrow> P fl \<Longrightarrow> Q (Inl (StoreError sg)) fl"
  shows "triple G P (call b f) Q"
proof (rule triple_call [OF assms(1)])
  fix fl r s'
  assume fl: "fleet_wf fl" "P fl" and "f (fl b) = (r, s')"
  then have s': "s' = fl b" and "r = fst (f (fl b))"
    using assms(2) [of "fl b"] by simp_all
  then show "store_wf s' \<and> Q r (fl(b := s'))"
    using assms(3) [OF fl] fl(1) by (simp add: fleet_wf_def)
  show "Q (Inl (StoreError sg)) (fl(b := s'))" for sg
    using assms(4) [OF fl] s' by simp
qed (rule assms(4))

lemma triple_get_with_etag:
  "stable G P \<Longrightarrow> (\<And>fl. fleet_wf fl \<Longrightarrow> P fl \<Longrightarrow> Q (Inr (lookup_tagged (fl b) key)) fl)
    \<Longrightarrow> (\<And>fl sg. fleet_wf fl \<Longrightarrow> P fl \<Longrightarrow> Q (Inl (StoreError sg)) fl)
    \<Longrightarrow> triple G P (get_with_etag b key) Q"
  unfolding get_with_etag_def by (rule triple_read_call) (simp_all add: lookup_tagged_def)

lemma triple_get_bytes:
  "stable G P \<Longrightarrow> (\<And>fl. fleet_wf fl \<Longrightarrow> P fl \<Longrightarrow> \<not> contains_key (fl b) key \<Longrightarrow> Q (Inl (NotFound key)) fl)
    \<Longrightarrow> (\<And>fl ob. fleet_wf fl \<Longrightarrow> P fl \<Longrightarrow> object_at (fl b) key = Some ob \<Longrightarrow> Q (Inr (obj_bytes ob)) fl)
    \<Longrightarrow> (\<And>fl sg. fleet_wf fl \<Longrightarrow> P fl \<Longrightarrow> Q (Inl (StoreError sg)) fl)
    \<Longrightarrow> triple G P (get_bytes b key) Q"
  unfolding get_bytes_def by (rule triple_read_call) (auto simp: contains_key_def split: option.splits)

lemma triple_head_exists:
  "stable G P \<Longrightarrow> (\<And>fl. fleet_wf fl \<Longrightarrow> P fl \<Longrightarrow> Q (Inr (contains_key (fl b) key)) fl)
    \<Longrightarrow> (\<And>fl sg. fleet_wf fl \<Longrightarrow> P fl \<Longrightarrow> Q (Inl (StoreError sg)) fl)
    \<Longrightarrow> triple G P (head_exists b key) Q"
  unfolding head_exists_def by (rule triple_read_call) simp_all

text \<open>A listing changes nothing; its result is used only through \<open>Q\<close>.\<close>

lemma triple_list_dir_entries:
  "stable G P \<Longrightarrow> (\<And>fl es. fleet_wf fl \<Longrightarrow> P fl \<Longrightarrow> Q (Inr es) fl)
    \<Longrightarrow> (\<And>fl sg. fleet_wf fl \<Longrightarrow> P fl \<Longrightarrow> Q (Inl (StoreError sg)) fl)
    \<Longrightarrow> triple G P (list_dir_entries b dir) Q"
  unfolding list_dir_entries_def by (rule triple_read_call) simp_all

lemma triple_list_all_objects:
  "stable G P \<Longrightarrow> (\<And>fl es. fleet_wf fl \<Longrightarrow> P fl \<Longrightarrow> Q (Inr es) fl)
    \<Longrightarrow> (\<And>fl sg. fleet_wf fl \<Longrightarrow> P fl \<Longrightarrow> Q (Inl (StoreError sg)) fl)
    \<Longrightarrow> triple G P (list_all_objects b pre) Q"
  unfolding list_all_objects_def by (rule triple_read_call) simp_all

lemma triple_list_page:
  "stable G P \<Longrightarrow> (\<And>fl es. fleet_wf fl \<Longrightarrow> P fl \<Longrightarrow> Q (Inr es) fl)
    \<Longrightarrow> (\<And>fl sg. fleet_wf fl \<Longrightarrow> P fl \<Longrightarrow> Q (Inl (StoreError sg)) fl)
    \<Longrightarrow> triple G P (list_page b pre aft n) Q"
  unfolding list_page_def by (rule triple_read_call) simp_all

text \<open>
  A conditional replace: it either leaves the buckets alone, or the tag was standing and the new
  bytes replace the object.
\<close>

lemma triple_put_if_match:
  assumes "stable G P"
    and err: "\<And>fl e. fleet_wf fl \<Longrightarrow> P fl \<Longrightarrow> Q (Inl e) fl"
    and lose: "\<And>fl. fleet_wf fl \<Longrightarrow> P fl \<Longrightarrow> Q (Inr None) fl"
    and win: "\<And>fl v. fleet_wf fl \<Longrightarrow> P fl \<Longrightarrow> lookup_tagged (fl b) key = Some (v, tag) \<Longrightarrow>
        Q (Inr (Some (version_etag (next_version (fl b))))) (fl(b := snd (store sha key bs (fl b))))"
    and unanswered: "\<And>fl v sg. fleet_wf fl \<Longrightarrow> P fl \<Longrightarrow> lookup_tagged (fl b) key = Some (v, tag) \<Longrightarrow>
        Q (Inl (StoreError sg)) (fl(b := snd (store sha key bs (fl b))))"
  shows "triple G P (put_if_match sha b key tag bs) Q"
  unfolding put_if_match_def
proof (rule triple_call [OF assms(1)])
  fix fl and r :: "string option res" and s'
  assume fl: "fleet_wf fl" "P fl"
    and run: "(if \<not> versioned tag then (Inl (Bail ''version required for conditional update''), fl b)
       else (let (r, s') = try_replace sha key tag bs (fl b) in (Inr r, s'))) = (r, s')"
  then have "store_wf (fl b)"
    by (simp add: fleet_wf_def)
  then show "store_wf s' \<and> Q r (fl(b := s'))"
    using run err [OF fl] lose [OF fl] win [OF fl]
    by (auto simp: try_replace_cases store_wf_store split: if_splits)
  show "Q (Inl (StoreError sg)) (fl(b := s'))" for sg
    using run err [OF fl] unanswered [OF fl]
    by (auto simp: try_replace_cases split: if_splits)
qed (rule err)

text \<open>A conditional create: it either finds an object standing, or installs the bytes.\<close>

lemma triple_put_if_none_match:
  assumes "stable G P"
    and err: "\<And>fl sg. fleet_wf fl \<Longrightarrow> P fl \<Longrightarrow> Q (Inl (StoreError sg)) fl"
    and lose: "\<And>fl r. fleet_wf fl \<Longrightarrow> P fl \<Longrightarrow> contains_key (fl b) key \<Longrightarrow> r = Inr None \<or> unanswered r \<Longrightarrow>
        Q r (fl(b := create_lost sha key (fl b)))"
    and win: "\<And>fl r. fleet_wf fl \<Longrightarrow> P fl \<Longrightarrow> \<not> contains_key (fl b) key \<Longrightarrow>
        r = Inr (Some (version_etag (next_version (fl b)))) \<or> unanswered r \<Longrightarrow>
        Q r (fl(b := snd (store sha key bs (fl b))))"
  shows "triple G P (put_if_none_match sha b key bs) Q"
  unfolding put_if_none_match_def
proof (rule triple_call [OF assms(1)])
  fix fl and r :: "string option res" and s'
  assume fl: "fleet_wf fl" "P fl"
    and run: "(let (r, s') = try_create sha key bs (fl b) in (Inr r, s')) = (r, s')"
  then have "store_wf (fl b)"
    by (simp add: fleet_wf_def)
  then show "store_wf s' \<and> Q r (fl(b := s'))"
    using run lose [OF fl, of r] win [OF fl, of r]
    by (cases "contains_key (fl b) key") (auto simp: try_create_cases store_wf_store store_wf_create_lost)
  show "Q (Inl (StoreError sg)) (fl(b := s'))" for sg
    using run lose [OF fl, of "Inl (StoreError sg)"] win [OF fl, of "Inl (StoreError sg)"]
    by (cases "contains_key (fl b) key") (auto simp: try_create_cases)
qed (rule err)

lemma triple_put_if_absent:
  assumes "stable G P"
    and err: "\<And>fl sg. fleet_wf fl \<Longrightarrow> P fl \<Longrightarrow> Q (Inl (StoreError sg)) fl"
    and lose: "\<And>fl r. fleet_wf fl \<Longrightarrow> P fl \<Longrightarrow> contains_key (fl b) key \<Longrightarrow> r = Inr False \<or> unanswered r \<Longrightarrow>
        Q r (fl(b := create_lost sha key (fl b)))"
    and win: "\<And>fl r. fleet_wf fl \<Longrightarrow> P fl \<Longrightarrow> \<not> contains_key (fl b) key \<Longrightarrow> r = Inr True \<or> unanswered r \<Longrightarrow>
        Q r (fl(b := snd (store sha key bs (fl b))))"
  shows "triple G P (put_if_absent sha b key bs) Q"
  unfolding put_if_absent_def
proof (rule triple_call [OF assms(1)])
  fix fl and r :: "bool res" and s'
  assume fl: "fleet_wf fl" "P fl"
    and run: "(if contains_key (fl b) key then (Inr False, create_lost sha key (fl b))
       else (Inr True, snd (store sha key bs (fl b)))) = (r, s')"
  then have "store_wf (fl b)"
    by (simp add: fleet_wf_def)
  then show "store_wf s' \<and> Q r (fl(b := s'))"
    using run lose [OF fl, of r] win [OF fl, of r]
    by (cases "contains_key (fl b) key") (auto simp: store_wf_store store_wf_create_lost)
  show "Q (Inl (StoreError sg)) (fl(b := s'))" for sg
    using run lose [OF fl, of "Inl (StoreError sg)"] win [OF fl, of "Inl (StoreError sg)"]
    by (cases "contains_key (fl b) key") auto
qed (rule err)

lemma triple_put_bytes:
  assumes "stable G P"
    and "\<And>fl sg. fleet_wf fl \<Longrightarrow> P fl \<Longrightarrow> Q (Inl (StoreError sg)) fl"
    and "\<And>fl r. fleet_wf fl \<Longrightarrow> P fl \<Longrightarrow> r = Inr () \<or> unanswered r \<Longrightarrow> Q r (fl(b := snd (store sha key bs (fl b))))"
  shows "triple G P (put_bytes sha b key bs) Q"
  unfolding put_bytes_def
  by (rule triple_call [OF assms(1)]) (use assms(2,3) in \<open>auto simp: fleet_wf_def store_wf_store\<close>)

lemma triple_delete_keys:
  assumes "stable G P"
    and "\<And>fl sg. fleet_wf fl \<Longrightarrow> P fl \<Longrightarrow> Q (Inl (StoreError sg)) fl"
    and "\<And>fl r. fleet_wf fl \<Longrightarrow> P fl \<Longrightarrow> r = Inr () \<or> unanswered r \<Longrightarrow> Q r (fl(b := fold (delete_key sha) ks (fl b)))"
  shows "triple G P (delete_keys sha b ks) Q"
  unfolding delete_keys_def
  by (rule triple_call [OF assms(1)]) (use assms(2,3) in \<open>auto simp: fleet_wf_def store_wf_delete_keys\<close>)

text \<open>The same rules where the outcome does not matter.\<close>

lemma triple_put_if_match_same:
  assumes "stable G P" and "\<And>fl. P fl \<Longrightarrow> F fl"
    and "\<And>fl v. P fl \<Longrightarrow> lookup_tagged (fl b) key = Some (v, tag) \<Longrightarrow> F (fl(b := snd (store sha key bs (fl b))))"
  shows "triple G P (put_if_match sha b key tag bs) (\<lambda>_. F)"
  using assms by (intro triple_put_if_match)

lemma triple_delete_keys_same:
  assumes "stable G P" and "\<And>fl. P fl \<Longrightarrow> F fl" and "\<And>fl. P fl \<Longrightarrow> F (fl(b := fold (delete_key sha) ks (fl b)))"
  shows "triple G P (delete_keys sha b ks) (\<lambda>_. F)"
  using assms by (intro triple_delete_keys)

text \<open>Tag evidence survives interference.\<close>

lemma stable_proves: "stable G (\<lambda>fl. sim.proves (fl b) key tag P)"
  unfolding stable_def fleet_evolves_def using sim.proves_stable by blast

lemma stable_conj: "stable G P \<Longrightarrow> stable G Q \<Longrightarrow> stable G (\<lambda>fl. P fl \<and> Q fl)"
  unfolding stable_def by blast

lemma stable_const: "stable G (\<lambda>fl. c)"
  by (simp add: stable_def)

section \<open>Undisturbed runs\<close>

named_theorems quiet_simps \<open>evaluation of storage calls when nothing interferes\<close>

lemma call_quiet:
  "script w = [] \<Longrightarrow> call b f w = (fst (f (buckets w b)), w\<lparr>buckets := (buckets w)(b := snd (f (buckets w b)))\<rparr>)"
  by (auto simp: call_def met_def Let_def split: prod.splits)

lemma buckets_same [simp]: "w\<lparr>buckets := buckets w\<rparr> = w"
  by simp

lemma read_call_quiet:
  assumes "script w = []" and "\<And>s. snd (f s) = s"
  shows "call b f w = (fst (f (buckets w b)), w)"
  using call_quiet [OF assms(1), of b f] assms(2) [of "buckets w b"] by simp

lemma get_with_etag_quiet [quiet_simps]:
  "script w = [] \<Longrightarrow> get_with_etag b key w = (Inr (lookup_tagged (buckets w b) key), w)"
  unfolding get_with_etag_def by (subst read_call_quiet) (simp_all add: lookup_tagged_def)

lemma get_bytes_quiet [quiet_simps]:
  "script w = [] \<Longrightarrow> get_bytes b key w =
     ((case object_at (buckets w b) key of None \<Rightarrow> Inl (NotFound key) | Some ob \<Rightarrow> Inr (obj_bytes ob)), w)"
  unfolding get_bytes_def by (subst read_call_quiet) (simp_all split: option.splits)

lemma head_exists_quiet [quiet_simps]:
  "script w = [] \<Longrightarrow> head_exists b key w = (Inr (contains_key (buckets w b) key), w)"
  unfolding head_exists_def by (subst read_call_quiet) simp_all

lemma put_if_none_match_quiet [quiet_simps]:
  "script w = [] \<Longrightarrow> put_if_none_match sha b key bs w =
     (if contains_key (buckets w b) key
      then (Inr None, w\<lparr>buckets := (buckets w)(b := create_lost sha key (buckets w b))\<rparr>)
      else (Inr (Some (version_etag (next_version (buckets w b)))),
            w\<lparr>buckets := (buckets w)(b := snd (store sha key bs (buckets w b)))\<rparr>))"
  unfolding put_if_none_match_def by (subst call_quiet) (simp_all add: try_create_cases)

lemma put_if_match_quiet [quiet_simps]:
  "script w = [] \<Longrightarrow> put_if_match sha b key tag bs w =
     (if \<not> versioned tag then (Inl (Bail ''version required for conditional update''), w)
      else if \<exists>v. lookup_tagged (buckets w b) key = Some (v, tag)
      then (Inr (Some (version_etag (next_version (buckets w b)))),
            w\<lparr>buckets := (buckets w)(b := snd (store sha key bs (buckets w b)))\<rparr>)
      else (Inr None, w))"
  unfolding put_if_match_def by (subst call_quiet) (simp_all add: try_replace_cases)

lemma put_if_absent_quiet [quiet_simps]:
  "script w = [] \<Longrightarrow> put_if_absent sha b key bs w =
     (if contains_key (buckets w b) key
      then (Inr False, w\<lparr>buckets := (buckets w)(b := create_lost sha key (buckets w b))\<rparr>)
      else (Inr True, w\<lparr>buckets := (buckets w)(b := snd (store sha key bs (buckets w b)))\<rparr>))"
  unfolding put_if_absent_def by (subst call_quiet) simp_all

lemma put_bytes_quiet [quiet_simps]:
  "script w = [] \<Longrightarrow> put_bytes sha b key bs w =
     (Inr (), w\<lparr>buckets := (buckets w)(b := snd (store sha key bs (buckets w b)))\<rparr>)"
  unfolding put_bytes_def by (subst call_quiet) simp_all

lemma delete_keys_quiet [quiet_simps]:
  "script w = [] \<Longrightarrow> delete_keys sha b ks w =
     (Inr (), w\<lparr>buckets := (buckets w)(b := fold (delete_key sha) ks (buckets w b))\<rparr>)"
  unfolding delete_keys_def by (subst call_quiet) simp_all

lemma versioned_version_etag: "n < 2 ^ 64 \<Longrightarrow> versioned (version_etag n)"
  unfolding versioned_def version_etag_def strip_prefix_append
  by (simp add: parse_u64_show_nat)

text \<open>Every standing object carries a version the conditional writes accept.\<close>

lemma versioned_lookup:
  "store_wf s \<Longrightarrow> next_version s \<le> 2 ^ 64 \<Longrightarrow> lookup_tagged s k = Some (v, t) \<Longrightarrow> versioned t"
  unfolding store_wf_def lookup_tagged_def using versioned_version_etag by fastforce

end
