(* ===== verification/Origin.thy ===== *)
theory Origin
  imports Interleaving
begin

text \<open>
  \<open>src/origin.rs\<close>: the \<open>.origin\<close> claim that makes a package private or mirror, and every
  operation that moves it, each storage call a point where another process may interleave.
  \<open>serde_json\<close>'s encoding of the claim body is the parameter \<open>J\<close>; nonces come from the
  simulator's counter (\<open>src/clock.rs\<close>).
\<close>

section \<open>Definitions\<close>

definition PRIVATE :: string where "PRIVATE = ''private''"
definition MIRROR :: string where "MIRROR = ''mirror''"
definition UNCLAIMED :: string where "UNCLAIMED = ''unclaimed''"

lemmas origin_consts = PRIVATE_def MIRROR_def UNCLAIMED_def

datatype origin_state = Unclaimed | Mirror | Private

fun as_str :: "origin_state \<Rightarrow> string" where
  "as_str Unclaimed = UNCLAIMED"
| "as_str Mirror = MIRROR"
| "as_str Private = PRIVATE"

definition parse_state :: "string \<Rightarrow> origin_state res" where
  "parse_state value =
     (if value = UNCLAIMED then Inr Unclaimed
      else if value = MIRROR then Inr Mirror
      else if value = PRIVATE then Inr Private
      else Inl (Bail ''invalid origin claim state''))"

definition claim_target :: "string \<Rightarrow> origin_state res" where
  "claim_target value =
     (case parse_state value of
        Inl e \<Rightarrow> Inl e
      | Inr Mirror \<Rightarrow> Inr Mirror
      | Inr Private \<Rightarrow> Inr Private
      | Inr Unclaimed \<Rightarrow> Inl (Bail ''cannot claim a package as unclaimed''))"

record origin_observation =
  ob_state :: origin_state
  ob_etag :: string

record claim_body =
  cb_origin :: string
  cb_nonce :: string

text \<open>\<open>serde_json::to_vec\<close> and \<open>serde_json::from_str\<close> at the type of the claim body.\<close>

record claim_codec =
  to_json :: "claim_body \<Rightarrow> bytes"
  from_json :: "string \<Rightarrow> claim_body option"

text \<open>\<open>clock::sim_nonce\<close>: \<open>format!("{n:032x}")\<close> over the process-wide counter.\<close>

fun hex_nat :: "nat \<Rightarrow> string" where
  "hex_nat n = (if n < 16 then [hex_digit n] else hex_nat (n div 16) @ [hex_digit (n mod 16)])"

declare hex_nat.simps [simp del]

definition sim_nonce :: "u64 \<Rightarrow> string" where
  "sim_nonce n = (let h = hex_nat (unat n) in replicate (32 - length h) (CHR ''0'') @ h)"

definition fresh_nonce :: "string act" where
  "fresh_nonce w = (Inr (sim_nonce (nonce_seq w)), w\<lparr>nonce_seq := nonce_seq w + 1\<rparr>)"

definition encode_claim :: "claim_codec \<Rightarrow> origin_state \<Rightarrow> bytes act" where
  "encode_claim J st =
     andThen fresh_nonce (\<lambda>n. ret (to_json J \<lparr>cb_origin = as_str st, cb_nonce = n\<rparr>))"

definition decode_claim :: "claim_codec \<Rightarrow> bytes \<Rightarrow> origin_state res" where
  "decode_claim J bs =
     (if \<not> utf8_valid bs then Inl (Bail ''invalid utf-8'')
      else let text = trim bs in
        if starts_with text ''{'' then
          (case from_json J text of
             None \<Rightarrow> Inl (Bail ''malformed claim json'')
           | Some bdy \<Rightarrow>
               if length (cb_nonce bdy) \<noteq> 32 \<or> \<not> list_all is_ascii_hexdigit (cb_nonce bdy)
               then Inl (Bail ''origin claim nonce must be 128-bit hex'')
               else parse_state (cb_origin bdy))
        else parse_state text)"

definition CLAIM_ATTEMPTS :: nat where "CLAIM_ATTEMPTS = 8"

definition origin_key :: "string \<Rightarrow> string" where
  "origin_key pkg = PACKAGES_PREFIX @ pkg @ ''/.origin''"

definition lift_res :: "'a res \<Rightarrow> 'a act" where
  "lift_res r = (case r of Inl e \<Rightarrow> fail e | Inr x \<Rightarrow> ret x)"

definition read_origin_claim :: "claim_codec \<Rightarrow> bucket_id \<Rightarrow> string \<Rightarrow> origin_state option act" where
  "read_origin_claim J b pkg =
     onResult (get_bytes b (origin_key pkg))
       (\<lambda>e. if is_not_found e then ret None else fail e)
       (\<lambda>bs. andThen (lift_res (decode_claim J bs)) (\<lambda>st. ret (Some st)))"

definition read_origin :: "claim_codec \<Rightarrow> bucket_id \<Rightarrow> string \<Rightarrow> string option act" where
  "read_origin J b pkg =
     andThen (read_origin_claim J b pkg)
       (\<lambda>c. ret (case c of Some Unclaimed \<Rightarrow> None | None \<Rightarrow> None | Some st \<Rightarrow> Some (as_str st)))"

definition read_origin_observation ::
  "claim_codec \<Rightarrow> bucket_id \<Rightarrow> string \<Rightarrow> origin_observation option act" where
  "read_origin_observation J b pkg =
     andThen (get_with_etag b (origin_key pkg))
       (\<lambda>r. case r of
          None \<Rightarrow> ret None
        | Some (bs, tag) \<Rightarrow>
            andThen (lift_res (decode_claim J bs)) (\<lambda>st. ret (Some \<lparr>ob_state = st, ob_etag = tag\<rparr>)))"

record claim =
  owner :: string
  claim_etag :: "string option"

text \<open>The retry loop of \<open>claim_origin\<close>; \<open>n\<close> is the attempts left.\<close>

fun claim_loop :: "(bytes \<Rightarrow> bytes) \<Rightarrow> claim_codec \<Rightarrow> bucket_id \<Rightarrow> string \<Rightarrow> origin_state \<Rightarrow> nat \<Rightarrow> claim act" where
  "claim_loop sha J b pkg target 0 = fail (Bail ''could not settle the origin claim'')"
| "claim_loop sha J b pkg target (Suc n) =
     andThen (encode_claim J target) (\<lambda>body.
     andThen (put_if_none_match sha b (origin_key pkg) body) (\<lambda>created.
       case created of
         Some tag \<Rightarrow> ret \<lparr>owner = as_str target, claim_etag = Some tag\<rparr>
       | None \<Rightarrow>
           andThen (read_origin_observation J b pkg) (\<lambda>ob.
             case ob of
               None \<Rightarrow> fail (Bail ''origin claim vanished mid-claim'')
             | Some observed \<Rightarrow>
                 if ob_state observed = Unclaimed then
                   andThen (encode_claim J target) (\<lambda>body'.
                   andThen (put_if_match sha b (origin_key pkg) (ob_etag observed) body') (\<lambda>swapped.
                     case swapped of
                       Some tag \<Rightarrow> ret \<lparr>owner = as_str target, claim_etag = Some tag\<rparr>
                     | None \<Rightarrow> claim_loop sha J b pkg target n))
                 else ret \<lparr>owner = as_str (ob_state observed), claim_etag = None\<rparr>)))"

definition claim_origin ::
  "(bytes \<Rightarrow> bytes) \<Rightarrow> claim_codec \<Rightarrow> bucket_id \<Rightarrow> string \<Rightarrow> string \<Rightarrow> origin_observation option \<Rightarrow> claim act" where
  "claim_origin sha J b pkg req_origin unclaimed =
     andThen (lift_res (claim_target req_origin)) (\<lambda>target.
       case unclaimed of
         None \<Rightarrow> claim_loop sha J b pkg target CLAIM_ATTEMPTS
       | Some observed \<Rightarrow>
           if ob_state observed \<noteq> Unclaimed
           then fail (Bail ''claim hint must be an unclaimed observation'')
           else
             andThen (encode_claim J target) (\<lambda>body.
             andThen (put_if_match sha b (origin_key pkg) (ob_etag observed) body) (\<lambda>swapped.
               case swapped of
                 Some tag \<Rightarrow> ret \<lparr>owner = as_str target, claim_etag = Some tag\<rparr>
               | None \<Rightarrow> claim_loop sha J b pkg target CLAIM_ATTEMPTS)))"

definition demote_observed_mirror ::
  "(bytes \<Rightarrow> bytes) \<Rightarrow> claim_codec \<Rightarrow> bucket_id \<Rightarrow> string \<Rightarrow> origin_observation \<Rightarrow> origin_observation option act" where
  "demote_observed_mirror sha J b pkg observed =
     (if ob_state observed \<noteq> Mirror then ret None
      else
        andThen (encode_claim J Private) (\<lambda>body.
        andThen (put_if_match sha b (origin_key pkg) (ob_etag observed) body) (\<lambda>swapped.
          ret (map_option (\<lambda>tag. \<lparr>ob_state = Private, ob_etag = tag\<rparr>) swapped))))"

definition package_has_truth :: "bucket_id \<Rightarrow> string \<Rightarrow> bool act" where
  "package_has_truth b pkg =
     andThen (list_dir_entries b (PACKAGES_PREFIX @ pkg @ ''/''))
       (\<lambda>es. ret (list_ex (\<lambda>e. fe_key e \<noteq> origin_key pkg) es))"

definition release_observed_empty_mirror ::
  "(bytes \<Rightarrow> bytes) \<Rightarrow> claim_codec \<Rightarrow> bucket_id \<Rightarrow> string \<Rightarrow> origin_observation \<Rightarrow> origin_observation option act" where
  "release_observed_empty_mirror sha J b pkg observed =
     (if ob_state observed \<noteq> Mirror then ret None
      else
        andThen (package_has_truth b pkg) (\<lambda>truth.
          if truth then ret None
          else
            andThen (encode_claim J Unclaimed) (\<lambda>body.
            andThen (put_if_match sha b (origin_key pkg) (ob_etag observed) body) (\<lambda>swapped.
              ret (map_option (\<lambda>tag. \<lparr>ob_state = Unclaimed, ob_etag = tag\<rparr>) swapped)))))"

subsection \<open>Operator-directed repurposing\<close>

definition REPL_NOTE_SCAN_PAGE :: nat where "REPL_NOTE_SCAN_PAGE = 1000"

definition repl_note_is_for :: "string \<Rightarrow> string \<Rightarrow> bool" where
  "repl_note_is_for key pkg =
     (case strip_prefix key ''_repl/'' of
        None \<Rightarrow> False
      | Some rest \<Rightarrow>
          (case split_once rest (CHR ''/'') of
             None \<Rightarrow> False
           | Some (_, rest') \<Rightarrow>
               (case strip_prefix rest' pkg of None \<Rightarrow> False | Some suffix \<Rightarrow> starts_with suffix ''/'')))"

text \<open>
  The paging loop; \<open>fuel\<close> bounds the pages. Each page starts after the last key of the one
  before, so a bucket with \<open>k\<close> objects needs at most \<open>k + 1\<close> of them when nothing interferes.
\<close>

fun scan_replication_notes :: "bucket_id \<Rightarrow> string \<Rightarrow> string option \<Rightarrow> nat \<Rightarrow> bool act" where
  "scan_replication_notes b pkg after 0 = fail (Bail ''out of fuel'')"
| "scan_replication_notes b pkg after (Suc fuel) =
     andThen (list_page b ''_repl/'' after REPL_NOTE_SCAN_PAGE) (\<lambda>page.
       if page = [] then ret False
       else if list_ex (\<lambda>e. repl_note_is_for (om_key e) pkg) page then ret True
       else scan_replication_notes b pkg (Some (om_key (last page))) fuel)"

definition has_pending_replication_notes :: "nat \<Rightarrow> bucket_id \<Rightarrow> string \<Rightarrow> bool act" where
  "has_pending_replication_notes fuel b pkg = scan_replication_notes b pkg None fuel"

definition has_pending_write :: "bucket_id \<Rightarrow> string \<Rightarrow> bool act" where
  "has_pending_write b pkg =
     (let dirty_prefix = DIRTY_PREFIX @ pkg in
      andThen (list_all_objects b dirty_prefix)
        (\<lambda>es. ret (list_ex (\<lambda>e. om_key e = dirty_prefix \<or> starts_with (om_key e) (dirty_prefix @ ''!'')) es)))"

text \<open>\<open>a || b\<close> of two fallible reads: the second runs only when the first says no.\<close>

definition orElse :: "bool act \<Rightarrow> bool act \<Rightarrow> bool act" where
  "orElse m n = andThen m (\<lambda>x. if x then ret True else n)"

definition releasable_for_repurpose ::
  "nat \<Rightarrow> claim_codec \<Rightarrow> bucket_id \<Rightarrow> string \<Rightarrow> origin_observation option act" where
  "releasable_for_repurpose fuel J b pkg =
     andThen (read_origin_observation J b pkg) (\<lambda>observed.
     andThen (package_has_truth b pkg) (\<lambda>truth.
     andThen (has_pending_write b pkg) (\<lambda>pending.
     andThen (orElse (ret (truth \<or> pending)) (has_pending_replication_notes fuel b pkg)) (\<lambda>busy.
       if busy then fail (Bail ''package still has package truth, pending write markers, or replication work'')
       else ret observed))))"

definition release_observed_for_repurpose ::
  "nat \<Rightarrow> (bytes \<Rightarrow> bytes) \<Rightarrow> claim_codec \<Rightarrow> bucket_id \<Rightarrow> string \<Rightarrow> origin_observation
    \<Rightarrow> origin_observation option act" where
  "release_observed_for_repurpose fuel sha J b pkg observed =
     (if ob_state observed = Unclaimed then ret None
      else
        andThen (releasable_for_repurpose fuel J b pkg) (\<lambda>cur.
          case cur of
            None \<Rightarrow> ret None
          | Some current \<Rightarrow>
              if current \<noteq> observed then ret None
              else
                andThen (encode_claim J Unclaimed) (\<lambda>body.
                andThen (put_if_match sha b (origin_key pkg) (ob_etag current) body) (\<lambda>swapped.
                  case swapped of
                    None \<Rightarrow> ret None
                  | Some tag \<Rightarrow>
                      (let unclaimed = \<lparr>ob_state = Unclaimed, ob_etag = tag\<rparr> in
                       onResult
                         (orElse (package_has_truth b pkg)
                           (orElse (has_pending_write b pkg) (has_pending_replication_notes fuel b pkg)))
                         (\<lambda>e. andThen (claim_origin sha J b pkg (as_str (ob_state current)) (Some unclaimed))
                               (\<lambda>_. fail e))
                         (\<lambda>appeared.
                            if appeared then
                              andThen (claim_origin sha J b pkg (as_str (ob_state current)) (Some unclaimed))
                                (\<lambda>_. fail (Bail ''package changed while its origin was released''))
                            else ret (Some unclaimed)))))))"

definition restore_released_for_repurpose ::
  "(bytes \<Rightarrow> bytes) \<Rightarrow> claim_codec \<Rightarrow> bucket_id \<Rightarrow> string \<Rightarrow> origin_state \<Rightarrow> origin_observation \<Rightarrow> unit act" where
  "restore_released_for_repurpose sha J b pkg original unclaimed =
     (let give_up = fail (Bail ''could not restore package origin after partial release'') in
      andThen (claim_origin sha J b pkg (as_str original) (Some unclaimed)) (\<lambda>restored.
        if owner restored = as_str original \<or> original = Mirror \<and> owner restored = PRIVATE then ret ()
        else if original = Private \<and> owner restored = MIRROR then
          andThen (read_origin_observation J b pkg) (\<lambda>ob.
            case ob of
              None \<Rightarrow> fail (Bail ''mirror rollback claim changed'')
            | Some value \<Rightarrow>
                if ob_state value \<noteq> Mirror then fail (Bail ''mirror rollback claim changed'')
                else
                  andThen (demote_observed_mirror sha J b pkg value)
                    (\<lambda>d. if d \<noteq> None then ret () else give_up))
        else give_up))"

subsection \<open>The documented lattice\<close>

text \<open>What a claim object says: absent, unreadable, or one of the three states.\<close>

datatype claim_view = Absent | Corrupt | Claimed origin_state

definition view :: "claim_codec \<Rightarrow> fleet \<Rightarrow> bucket_id \<Rightarrow> string \<Rightarrow> claim_view" where
  "view J fl b pkg =
     (case object_at (fl b) (origin_key pkg) of
        None \<Rightarrow> Absent
      | Some ob \<Rightarrow> (case decode_claim J (obj_bytes ob) of Inl _ \<Rightarrow> Corrupt | Inr st \<Rightarrow> Claimed st))"

text \<open>The transitions listed at the head of \<open>src/origin.rs\<close>.\<close>

inductive claim_step :: "claim_view \<Rightarrow> claim_view \<Rightarrow> bool" where
  claim_private: "claim_step Absent (Claimed Private)"
| claim_mirror: "claim_step Absent (Claimed Mirror)"
| reclaim_private: "claim_step (Claimed Unclaimed) (Claimed Private)"
| reclaim_mirror: "claim_step (Claimed Unclaimed) (Claimed Mirror)"
| demote: "claim_step (Claimed Mirror) (Claimed Private)"
| release: "claim_step (Claimed Mirror) (Claimed Unclaimed)"

declare claim_step.intros [simp]

inductive_cases claim_step_privateE: "claim_step (Claimed Private) v"
inductive_cases claim_step_absentE: "claim_step v Absent"

definition claims_follow :: "claim_codec \<Rightarrow> fleet \<Rightarrow> fleet \<Rightarrow> bool" where
  "claims_follow J fl fl' = (\<forall>b pkg. claim_step\<^sup>*\<^sup>* (view J fl b pkg) (view J fl' b pkg))"

text \<open>An observation some process really made: an earlier state of the bucket showed it.\<close>

definition genuine :: "claim_codec \<Rightarrow> fleet \<Rightarrow> bucket_id \<Rightarrow> string \<Rightarrow> origin_observation \<Rightarrow> bool" where
  "genuine J fl b pkg ob =
     (\<exists>s0. store_wf s0 \<and> evolves s0 (fl b) \<and>
        (\<exists>bs. lookup_tagged s0 (origin_key pkg) = Some (bs, ob_etag ob) \<and> decode_claim J bs = Inr (ob_state ob)))"

text \<open>The claim-moving operations a running server performs.\<close>

datatype claim_op =
    Claim_Op string "origin_observation option"
  | Demote_Op origin_observation
  | Release_Op origin_observation

fun run_claim_op :: "(bytes \<Rightarrow> bytes) \<Rightarrow> claim_codec \<Rightarrow> bucket_id \<Rightarrow> string \<Rightarrow> claim_op \<Rightarrow> unit act" where
  "run_claim_op sha J b pkg (Claim_Op o_str hint) = andThen (claim_origin sha J b pkg o_str hint) (\<lambda>_. ret ())"
| "run_claim_op sha J b pkg (Demote_Op ob) = andThen (demote_observed_mirror sha J b pkg ob) (\<lambda>_. ret ())"
| "run_claim_op sha J b pkg (Release_Op ob) = andThen (release_observed_empty_mirror sha J b pkg ob) (\<lambda>_. ret ())"

fun op_genuine :: "claim_codec \<Rightarrow> fleet \<Rightarrow> bucket_id \<Rightarrow> string \<Rightarrow> claim_op \<Rightarrow> bool" where
  "op_genuine J fl b pkg (Claim_Op o_str hint) = (case hint of None \<Rightarrow> True | Some ob \<Rightarrow> genuine J fl b pkg ob)"
| "op_genuine J fl b pkg (Demote_Op ob) = genuine J fl b pkg ob"
| "op_genuine J fl b pkg (Release_Op ob) = genuine J fl b pkg ob"

text \<open>
  What \<open>serde_json\<close> promises of the bodies the code writes: the output is UTF-8, an object (it
  opens with a brace), and reads back as the value written.
\<close>

definition written_body :: "origin_state \<Rightarrow> u64 \<Rightarrow> claim_body" where
  "written_body st n = \<lparr>cb_origin = as_str st, cb_nonce = sim_nonce n\<rparr>"

definition json_ok :: "claim_codec \<Rightarrow> bool" where
  "json_ok J = (\<forall>st n. let out = to_json J (written_body st n) in
     utf8_valid out \<and> starts_with (trim out) ''{'' \<and> from_json J (trim out) = Some (written_body st n))"

section \<open>Nonces and the claim body\<close>

lemma hex_digit_hexdigit: "n < 16 \<Longrightarrow> is_ascii_hexdigit (hex_digit n)"
  using of_char_hex_digit [of n] by (auto simp: is_ascii_hexdigit_def Let_def)

lemma hex_nat_hexdigits: "list_all is_ascii_hexdigit (hex_nat n)"
proof (induction n rule: hex_nat.induct)
  case (1 n)
  then show ?case
    by (cases "n < 16") (simp_all add: hex_nat.simps [of n] hex_digit_hexdigit)
qed

lemma length_hex_nat: "n < 16 ^ Suc k \<Longrightarrow> length (hex_nat n) \<le> Suc k"
proof (induction k arbitrary: n)
  case 0
  then show ?case
    by (simp add: hex_nat.simps)
next
  case (Suc k)
  then have "n div 16 < 16 ^ Suc k"
    by (simp add: less_mult_imp_div_less)
  then show ?case
    using Suc.IH by (simp add: hex_nat.simps [of n])
qed

lemma length_sim_nonce: "length (sim_nonce n) = 32"
proof -
  have "unat n < 2 ^ LENGTH(64)"
    by (rule unsigned_less)
  then have "unat n < 16 ^ Suc 31"
    by simp
  then have "length (hex_nat (unat n)) \<le> 32"
    using length_hex_nat [of "unat n" 31] by simp
  then show ?thesis
    by (simp add: sim_nonce_def Let_def)
qed

lemma sim_nonce_hexdigits: "list_all is_ascii_hexdigit (sim_nonce n)"
proof -
  have "is_ascii_hexdigit (CHR ''0'')"
    by (simp add: is_ascii_hexdigit_def)
  then show ?thesis
    using hex_nat_hexdigits [of "unat n"] by (auto simp: sim_nonce_def Let_def list_all_iff)
qed

lemma parse_state_as_str [simp]: "parse_state (as_str st) = Inr st"
  by (cases st) (simp_all add: parse_state_def origin_consts)

lemma parse_state_iff: "parse_state v = Inr st \<longleftrightarrow> v = as_str st"
  by (cases st) (auto simp: parse_state_def origin_consts)

lemma decode_written: "json_ok J \<Longrightarrow> decode_claim J (to_json J (written_body st n)) = Inr st"
proof -
  assume "json_ok J"
  then have "utf8_valid (to_json J (written_body st n))"
    and "starts_with (trim (to_json J (written_body st n))) ''{''"
    and "from_json J (trim (to_json J (written_body st n))) = Some (written_body st n)"
    unfolding json_ok_def by (simp_all add: Let_def)
  moreover have "cb_nonce (written_body st n) = sim_nonce n" "cb_origin (written_body st n) = as_str st"
    by (simp_all add: written_body_def)
  ultimately show ?thesis
    using length_sim_nonce [of n] sim_nonce_hexdigits [of n]
    by (simp add: decode_claim_def Let_def)
qed

section \<open>Claims follow the lattice under interference\<close>

lemma origin_key_inject [simp]: "origin_key p = origin_key q \<longleftrightarrow> p = q"
  by (simp add: origin_key_def)

lemma claim_step_private_stays: "claim_step\<^sup>*\<^sup>* (Claimed Private) v \<Longrightarrow> v = Claimed Private"
  by (induction rule: rtranclp_induct) (auto elim: claim_step_privateE)

lemma claim_step_never_absent: "claim_step\<^sup>*\<^sup>* v v' \<Longrightarrow> v' = Absent \<Longrightarrow> v = Absent"
  by (induction rule: rtranclp_induct) (auto elim: claim_step_absentE)

lemma claims_follow_refl [simp]: "claims_follow J fl fl"
  by (simp add: claims_follow_def)

lemma claims_follow_trans: "claims_follow J a b \<Longrightarrow> claims_follow J b c \<Longrightarrow> claims_follow J a c"
  unfolding claims_follow_def by (meson rtranclp_trans)

lemma stable_follow: "stable (claims_follow J) (claims_follow J fl0)"
  unfolding stable_def using claims_follow_trans by blast

lemma follow_create_lost: "claims_follow J fl (fl(b := create_lost sha k (fl b)))"
proof -
  have "view J (fl(b := create_lost sha k (fl b))) = view J fl"
    by (auto simp: view_def fun_eq_iff)
  then show ?thesis
    by (simp add: claims_follow_def)
qed

text \<open>Writing a claim body moves exactly one view.\<close>

lemma view_store:
  assumes "decode_claim J body = Inr st"
  shows "view J (fl(b := snd (store sha (origin_key pkg) body (fl b)))) b' pkg' =
    (if b' = b \<and> pkg' = pkg then Claimed st else view J fl b' pkg')"
  using assms by (simp add: view_def object_at_store)

lemma follow_store:
  assumes "decode_claim J body = Inr st" and "claim_step (view J fl b pkg) (Claimed st)"
  shows "claims_follow J fl (fl(b := snd (store sha (origin_key pkg) body (fl b))))"
  unfolding claims_follow_def view_store [OF assms(1)] using assms(2) by auto

lemma view_lookup: "lookup_tagged (fl b) (origin_key pkg) = Some (bs, t) \<Longrightarrow> decode_claim J bs = Inr st
    \<Longrightarrow> view J fl b pkg = Claimed st"
  by (auto simp: view_def lookup_tagged_def)

lemma genuine_proves:
  "genuine J fl b pkg ob \<longleftrightarrow>
     sim.proves (fl b) (origin_key pkg) (ob_etag ob) (\<lambda>bs. decode_claim J bs = Inr (ob_state ob))"
  by (auto simp: genuine_def sim.proves_def)

lemma stable_genuine: "stable G (\<lambda>fl. genuine J fl b pkg ob)"
  unfolding genuine_proves by (rule stable_proves)

lemma triple_encode_claim:
  "json_ok J \<Longrightarrow> triple G P (encode_claim J st) (both (\<lambda>_. False) (\<lambda>body fl. decode_claim J body = Inr st \<and> P fl))"
  unfolding triple_def encode_claim_def andThen_def fresh_nonce_def ret_def
  using decode_written [of J st] by (auto simp: obeys_def written_body_def)

text \<open>One compare-and-swap on a genuine observation: whatever won in between, the move is legal.\<close>

lemma triple_swap_claim:
  assumes "decode_claim J body = Inr st" and "claim_step (Claimed (ob_state ob)) (Claimed st)"
  shows "triple (claims_follow J) (\<lambda>fl. claims_follow J fl0 fl \<and> genuine J fl b pkg ob)
    (put_if_match sha b (origin_key pkg) (ob_etag ob) body) (\<lambda>_. claims_follow J fl0)"
proof -
  have won: "claims_follow J fl0 (fl(b := snd (store sha (origin_key pkg) body (fl b))))"
    if fl: "claims_follow J fl0 fl \<and> genuine J fl b pkg ob"
    and at: "lookup_tagged (fl b) (origin_key pkg) = Some (v, ob_etag ob)" for fl v
  proof -
  have "decode_claim J v = Inr (ob_state ob)"
    by (rule sim.proves_current [OF _ at]) (use fl in \<open>simp add: genuine_proves\<close>)
  then have "view J fl b pkg = Claimed (ob_state ob)"
    using at by (intro view_lookup)
  then show ?thesis
    using fl assms by (auto intro!: claims_follow_trans [of _ fl0 fl] follow_store)
  qed
  then show ?thesis
    by (intro triple_put_if_match [OF stable_conj [OF stable_follow stable_genuine]]) auto
qed

text \<open>An observation read from the store is genuine.\<close>

lemma triple_read_origin_observation:
  "triple (claims_follow J) (claims_follow J fl0) (read_origin_observation J b pkg)
     (both (claims_follow J fl0) (\<lambda>r fl. claims_follow J fl0 fl \<and> (\<forall>ob. r = Some ob \<longrightarrow> genuine J fl b pkg ob)))"
  unfolding read_origin_observation_def
proof (rule triple_andThen)
  show "triple (claims_follow J) (claims_follow J fl0) (get_with_etag b (origin_key pkg))
     (both (claims_follow J fl0) (\<lambda>r fl. claims_follow J fl0 fl \<and> fleet_wf fl \<and> r = lookup_tagged (fl b) (origin_key pkg)))"
    by (rule triple_get_with_etag [OF stable_follow]) simp_all
  fix r
  show "triple (claims_follow J) (\<lambda>fl. claims_follow J fl0 fl \<and> fleet_wf fl \<and> r = lookup_tagged (fl b) (origin_key pkg))
     (case r of None \<Rightarrow> ret None
        | Some (bs, tag) \<Rightarrow>
            andThen (lift_res (decode_claim J bs)) (\<lambda>st. ret (Some \<lparr>ob_state = st, ob_etag = tag\<rparr>)))
     (both (claims_follow J fl0) (\<lambda>r fl. claims_follow J fl0 fl \<and> (\<forall>ob. r = Some ob \<longrightarrow> genuine J fl b pkg ob)))"
  proof (cases r)
    case (Some bt)
    obtain bs tag where [simp]: "bt = (bs, tag)"
      by fastforce
    show ?thesis
    proof (cases "decode_claim J bs")
      case (Inr st)
      then show ?thesis
        using Some by (auto simp: triple_def lift_res_def andThen_def ret_def fail_def ret_def genuine_def fleet_wf_def
            intro!: exI [of _ "_ b"])
    qed (use Some in \<open>auto simp: triple_def lift_res_def andThen_def ret_def fail_def\<close>)
  qed (auto simp: triple_def ret_def)
qed simp

lemma triple_claim_loop:
  assumes "json_ok J" and "target \<noteq> Unclaimed"
  shows "triple (claims_follow J) (claims_follow J fl0) (claim_loop sha J b pkg target n) (\<lambda>_. claims_follow J fl0)"
proof (induction n)
  case 0
  show ?case
    by (auto intro: triple_fail)
next
  case (Suc n)
  let ?F = "claims_follow J fl0"
  have steps: "claim_step Absent (Claimed target)" "claim_step (Claimed Unclaimed) (Claimed target)"
    using assms(2) by (cases target; simp)+
  have create: "triple (claims_follow J) (\<lambda>fl. decode_claim J body = Inr target \<and> ?F fl)
      (put_if_none_match sha b (origin_key pkg) body) (both ?F (\<lambda>_. ?F))" for body
  proof (rule triple_put_if_none_match [OF stable_conj [OF stable_const stable_follow]])
    fix fl r
    assume "decode_claim J body = Inr target \<and> ?F fl" and "r = Inr None \<or> unanswered r"
    then show "both ?F (\<lambda>_. ?F) r (fl(b := create_lost sha (origin_key pkg) (fl b)))"
      using claims_follow_trans follow_create_lost by auto
  next
    fix fl :: fleet and r
    assume r: "r = Inr (Some (version_etag (next_version (fl b)))) \<or> unanswered r"
    assume *: "decode_claim J body = Inr target \<and> ?F fl" and "\<not> contains_key (fl b) (origin_key pkg)"
    then have "view J fl b pkg = Absent"
      by (simp add: view_def contains_key_def)
    then show "both ?F (\<lambda>_. ?F) r (fl(b := snd (store sha (origin_key pkg) body (fl b))))"
      using * r steps(1) by (auto intro!: claims_follow_trans [of _ fl0 fl] follow_store)
  qed simp
  have swap: "triple (claims_follow J) (\<lambda>fl. decode_claim J body = Inr target \<and> ?F fl \<and> genuine J fl b pkg ob)
      (put_if_match sha b (origin_key pkg) (ob_etag ob) body) (both ?F (\<lambda>_. ?F))"
    if "ob_state ob = Unclaimed" for ob body
  proof (cases "decode_claim J body = Inr target")
    case True
    show ?thesis
      by (rule triple_conseq [OF triple_swap_claim [OF True]]) (auto simp: that steps both_def split: sum.splits)
  qed (simp add: triple_def)
  have inner: "triple (claims_follow J) (\<lambda>fl. ?F fl \<and> (\<forall>ob'. ob = Some ob' \<longrightarrow> genuine J fl b pkg ob'))
     (case ob of None \<Rightarrow> fail (Bail ''origin claim vanished mid-claim'')
        | Some observed \<Rightarrow>
            if ob_state observed = Unclaimed then
              andThen (encode_claim J target) (\<lambda>body'.
              andThen (put_if_match sha b (origin_key pkg) (ob_etag observed) body') (\<lambda>swapped.
                case swapped of
                  Some tag \<Rightarrow> ret \<lparr>owner = as_str target, claim_etag = Some tag\<rparr>
                | None \<Rightarrow> claim_loop sha J b pkg target n))
            else ret \<lparr>owner = as_str (ob_state observed), claim_etag = None\<rparr>) (\<lambda>_. ?F)" for ob
  proof (cases ob)
    case (Some observed)
    show ?thesis
    proof (cases "ob_state observed = Unclaimed")
      case True
      show ?thesis
        unfolding Some option.case if_P [OF True]
        by (rule triple_andThen [OF triple_encode_claim [OF assms(1)]],
            rule triple_andThen [OF triple_pre [OF swap [OF True]]])
          (auto split: option.split intro: Suc.IH triple_ret)
    qed (auto simp: Some intro: triple_ret)
  qed (auto intro: triple_fail)
  show ?case
    unfolding claim_loop.simps
    by (rule triple_andThen [OF triple_encode_claim [OF assms(1)]],
        rule triple_andThen [OF create])
      (auto split: option.split intro: triple_ret triple_andThen [OF triple_read_origin_observation inner])
qed

lemma triple_guarded_swap:
  assumes "json_ok J" and "claim_step (Claimed (ob_state ob)) (Claimed st)"
    and "\<And>r. triple (claims_follow J) (claims_follow J fl0) (k r) (\<lambda>_. claims_follow J fl0)"
  shows "triple (claims_follow J) (\<lambda>fl. claims_follow J fl0 fl \<and> genuine J fl b pkg ob)
    (andThen (encode_claim J st) (\<lambda>body.
     andThen (put_if_match sha b (origin_key pkg) (ob_etag ob) body) k)) (\<lambda>_. claims_follow J fl0)"
proof (rule triple_andThen [OF triple_encode_claim [OF assms(1)]])
  fix body
  show "triple (claims_follow J) (\<lambda>fl. decode_claim J body = Inr st \<and> claims_follow J fl0 fl \<and> genuine J fl b pkg ob)
    (andThen (put_if_match sha b (origin_key pkg) (ob_etag ob) body) k) (\<lambda>_. claims_follow J fl0)"
  proof (cases "decode_claim J body = Inr st")
    case True
    show ?thesis
      by (rule triple_andThen [OF triple_conseq [OF triple_swap_claim [OF True assms(2)]] assms(3)])
        (auto simp: both_def split: sum.splits)
  qed (simp add: triple_def)
qed simp

lemma claim_target_InrD: "claim_target v = Inr st \<Longrightarrow> st \<noteq> Unclaimed"
  by (auto simp: claim_target_def split: sum.splits origin_state.splits)

lemma triple_claim_origin:
  assumes "json_ok J"
  shows "triple (claims_follow J) (\<lambda>fl. claims_follow J fl0 fl \<and> (case hint of None \<Rightarrow> True | Some ob \<Rightarrow> genuine J fl b pkg ob))
    (claim_origin sha J b pkg o_str hint) (\<lambda>_. claims_follow J fl0)"
proof (cases "claim_target o_str")
  case (Inl e)
  then show ?thesis
    by (simp add: claim_origin_def lift_res_def triple_def andThen_def fail_def)
next
  case (Inr target)
  then have target: "target \<noteq> Unclaimed"
    by (rule claim_target_InrD)
  have run: "claim_origin sha J b pkg o_str hint =
      (case hint of
         None \<Rightarrow> claim_loop sha J b pkg target CLAIM_ATTEMPTS
       | Some observed \<Rightarrow>
           if ob_state observed \<noteq> Unclaimed then fail (Bail ''claim hint must be an unclaimed observation'')
           else
             andThen (encode_claim J target) (\<lambda>body.
             andThen (put_if_match sha b (origin_key pkg) (ob_etag observed) body) (\<lambda>swapped.
               case swapped of
                 Some tag \<Rightarrow> ret \<lparr>owner = as_str target, claim_etag = Some tag\<rparr>
               | None \<Rightarrow> claim_loop sha J b pkg target CLAIM_ATTEMPTS)))"
    unfolding claim_origin_def Inr by (simp add: lift_res_def andThen_def ret_def)
  note loop = triple_claim_loop [OF assms target]
  show ?thesis
  proof (cases hint)
    case (Some ob)
    have "claim_step (Claimed Unclaimed) (Claimed target)"
      using target by (cases target) simp_all
    then show ?thesis
      unfolding run unfolding Some
      by (auto intro!: triple_fail triple_ret triple_guarded_swap assms loop split: option.split)
  next
    case None
    show ?thesis
      unfolding run unfolding None by (simp add: loop)
  qed
qed

lemma triple_demote:
  assumes "json_ok J"
  shows "triple (claims_follow J) (\<lambda>fl. claims_follow J fl0 fl \<and> genuine J fl b pkg ob)
    (demote_observed_mirror sha J b pkg ob) (\<lambda>_. claims_follow J fl0)"
  unfolding demote_observed_mirror_def
  by (auto intro!: triple_ret triple_guarded_swap assms)

lemma triple_release:
  assumes "json_ok J"
  shows "triple (claims_follow J) (\<lambda>fl. claims_follow J fl0 fl \<and> genuine J fl b pkg ob)
    (release_observed_empty_mirror sha J b pkg ob) (\<lambda>_. claims_follow J fl0)"
proof -
  let ?P = "\<lambda>fl. claims_follow J fl0 fl \<and> genuine J fl b pkg ob"
  have "triple (claims_follow J) ?P (package_has_truth b pkg) (both ?P (\<lambda>_. ?P))"
    unfolding package_has_truth_def
    by (rule triple_andThen [OF triple_list_dir_entries [OF stable_conj [OF stable_follow stable_genuine],
        where Q = "both ?P (\<lambda>_. ?P)"]]) (auto intro: triple_ret)
  then show ?thesis
    unfolding release_observed_empty_mirror_def
    by (auto intro!: triple_ret triple_andThen [where E = ?P and R = "\<lambda>_. ?P"]
        triple_guarded_swap [OF assms])
qed

section \<open>A concrete codec\<close>

text \<open>
  The compact JSON \<open>serde_json\<close> writes for a claim body whose strings need no escaping, and its
  reader. It shows that \<open>json_ok\<close> can hold.
\<close>

definition quote :: char where "quote = CHR 0x22"

definition plain_to_json :: "claim_body \<Rightarrow> bytes" where
  "plain_to_json c =
     ''{'' @ [quote] @ ''origin'' @ [quote] @ '':'' @ [quote] @ cb_origin c @ [quote] @ '','' @ [quote]
       @ ''nonce'' @ [quote] @ '':'' @ [quote] @ cb_nonce c @ [quote] @ ''}''"

definition plain_from_json :: "string \<Rightarrow> claim_body option" where
  "plain_from_json t =
     (case strip_prefix t (''{'' @ [quote] @ ''origin'' @ [quote] @ '':'' @ [quote]) of
        None \<Rightarrow> None
      | Some r \<Rightarrow>
          (case split_once r quote of
             None \<Rightarrow> None
           | Some (org, r1) \<Rightarrow>
               (case strip_prefix r1 ('','' @ [quote] @ ''nonce'' @ [quote] @ '':'' @ [quote]) of
                  None \<Rightarrow> None
                | Some r2 \<Rightarrow>
                    (case strip_suffix r2 ([quote] @ ''}'') of
                       None \<Rightarrow> None
                     | Some nonce \<Rightarrow> Some \<lparr>cb_origin = org, cb_nonce = nonce\<rparr>))))"

definition plain_codec :: claim_codec where
  "plain_codec = \<lparr>to_json = plain_to_json, from_json = plain_from_json\<rparr>"

lemma trim_braces: "trim (''{'' @ x @ ''}'') = ''{'' @ x @ ''}''"
proof -
  have start: "trim_start (CHR ''{'' # y) = CHR ''{'' # y" for y
    unfolding trim_start_def by (rule strip_all_fixed) (simp add: ws_chars_def)
  have "strip_all n (map rev ws_chars) (CHR ''}'' # z) = CHR ''}'' # z" for n z
    by (rule strip_all_fixed) (simp add: ws_chars_def)
  then have "trim_end (y @ ''}'') = y @ ''}''" for y
    by (simp add: trim_end_def)
  then show ?thesis
    unfolding trim_def using start by (metis append_Cons append_Nil append_assoc)
qed

lemma plain_read_back:
  assumes "quote \<notin> set (cb_origin c)"
  shows "plain_from_json (plain_to_json c) = Some c"
proof -
  let ?r2 = "cb_nonce c @ [quote] @ ''}''"
  let ?r1 = "('','' @ [quote] @ ''nonce'' @ [quote] @ '':'' @ [quote]) @ ?r2"
  have "plain_to_json c = (''{'' @ [quote] @ ''origin'' @ [quote] @ '':'' @ [quote]) @ (cb_origin c @ quote # ?r1)"
    by (simp add: plain_to_json_def)
  then show ?thesis
    by (simp only: plain_from_json_def strip_prefix_append strip_suffix_append option.case
        split_once_append [OF assms] prod.case) simp
qed

lemma hexdigit_ascii: "is_ascii_hexdigit c \<Longrightarrow> byte_in 0x00 0x7F c"
  by (auto simp: is_ascii_hexdigit_def byte_in_def Let_def)

lemma plain_codec_ok: "json_ok plain_codec"
  unfolding json_ok_def Let_def
proof (intro allI conjI)
  fix st n
  let ?c = "written_body st n"
  let ?out = "to_json plain_codec ?c"
  have "\<exists>x. ?out = ''{'' @ x @ ''}''"
    by (simp add: plain_codec_def plain_to_json_def)
  then have trim: "trim ?out = ?out"
    using trim_braces by auto
  have "list_all (byte_in 0x00 0x7F) (sim_nonce n)"
    using sim_nonce_hexdigits [of n] hexdigit_ascii by (auto simp: list_all_iff)
  then show "utf8_valid ?out"
    by (intro utf8_valid_ascii, cases st)
      (auto simp: plain_codec_def plain_to_json_def written_body_def quote_def origin_consts byte_in_def)
  show "starts_with (trim ?out) ''{''"
    unfolding trim by (simp add: plain_codec_def plain_to_json_def)
  have "quote \<notin> set (cb_origin ?c)"
    by (cases st) (auto simp: written_body_def quote_def origin_consts)
  then show "from_json plain_codec (trim ?out) = Some ?c"
    unfolding trim using plain_read_back by (simp add: plain_codec_def)
qed

section \<open>Undisturbed claims\<close>

lemma encode_claim_run:
  "encode_claim J st w = (Inr (to_json J (written_body st (nonce_seq w))), w\<lparr>nonce_seq := nonce_seq w + 1\<rparr>)"
  by (simp add: encode_claim_def andThen_def fresh_nonce_def ret_def written_body_def)

lemma read_origin_observation_quiet:
  "script w = [] \<Longrightarrow> read_origin_observation J b pkg w =
     (case lookup_tagged (buckets w b) (origin_key pkg) of
        None \<Rightarrow> (Inr None, w)
      | Some (bs, tag) \<Rightarrow>
          (case decode_claim J bs of
             Inl e \<Rightarrow> (Inl e, w)
           | Inr st \<Rightarrow> (Inr (Some \<lparr>ob_state = st, ob_etag = tag\<rparr>), w)))"
  by (auto simp: read_origin_observation_def andThen_def quiet_simps io_simps lift_res_def
      split: option.splits sum.splits)

lemma origin_key_not_artifact [simp]: "\<not> is_canonical_artifact (origin_key pkg)"
proof -
  have "\<not> is_artifact f" if "starts_with f ''.''" for f
    using that by (simp add: is_artifact_def)
  moreover have "split_once (pkg @ ''/.origin'') (CHR ''/'') = Some (a, f) \<Longrightarrow>
      CHR ''/'' \<in> set f \<or> f = ''.origin''" for a f
  proof (induction pkg arbitrary: a)
    case (Cons c cs)
    then show ?case
      by (cases "c = CHR ''/''") (auto split: option.splits)
  qed simp
  ultimately show ?thesis
    unfolding is_canonical_artifact_def split_artifact_key_def origin_key_def PACKAGES_PREFIX_def strip_prefix_append
    by (fastforce split: option.splits)
qed

lemma create_lost_origin [simp]: "create_lost sha (origin_key pkg) s = s"
  by (simp add: create_lost_def)

section \<open>What keeps a package from being repurposed\<close>

text \<open>
  The specification of the three checks: an object beside the claim, a write marker, or a
  replication note for the package.
\<close>

definition has_truth :: "inner \<Rightarrow> string \<Rightarrow> bool" where
  "has_truth s pkg = (\<exists>f. CHR ''/'' \<notin> set f \<and> PACKAGES_PREFIX @ pkg @ ''/'' @ f \<noteq> origin_key pkg
     \<and> contains_key s (PACKAGES_PREFIX @ pkg @ ''/'' @ f))"

definition has_marker :: "inner \<Rightarrow> string \<Rightarrow> bool" where
  "has_marker s pkg = (\<exists>k. contains_key s k \<and> (k = DIRTY_PREFIX @ pkg \<or> starts_with k (DIRTY_PREFIX @ pkg @ ''!'')))"

definition has_note :: "inner \<Rightarrow> string \<Rightarrow> bool" where
  "has_note s pkg = (\<exists>k. contains_key s k \<and> repl_note_is_for k pkg)"

definition busy :: "inner \<Rightarrow> string \<Rightarrow> bool" where
  "busy s pkg = (has_truth s pkg \<or> has_marker s pkg \<or> has_note s pkg)"

lemma prefix_range_keys:
  "store_wf s \<Longrightarrow> fst ` set (prefix_range s p) = {k. starts_with k p \<and> contains_key s k}"
  using prefix_range_set [of s] by (force simp: contains_key_def image_iff)

lemma package_has_truth_quiet:
  assumes "script w = []" and "store_wf (buckets w b)"
  shows "package_has_truth b pkg w = (Inr (has_truth (buckets w b) pkg), w)"
proof -
  let ?dir = "PACKAGES_PREFIX @ pkg @ ''/''"
  have "list_ex (\<lambda>e. fe_key e \<noteq> origin_key pkg)
      (map (\<lambda>(k, ob). \<lparr>fe_key = k, fe_size = length (obj_bytes ob), fe_last_modified = Some (last_modified ob),
                       fe_etag = Some (listed_etag ob)\<rparr>)
        (filter (\<lambda>e. CHR ''/'' \<notin> set (drop (length ?dir) (fst e))) (prefix_range (buckets w b) ?dir)))
    \<longleftrightarrow> (\<exists>k\<in>fst ` set (prefix_range (buckets w b) ?dir). CHR ''/'' \<notin> set (drop (length ?dir) k) \<and> k \<noteq> origin_key pkg)"
    by (force simp: list_ex_iff)
  also have "\<dots> \<longleftrightarrow> has_truth (buckets w b) pkg"
    unfolding prefix_range_keys [OF assms(2)] has_truth_def starts_with_iff by auto
  finally show ?thesis
    using assms(1)
    by (simp add: package_has_truth_def list_dir_entries_def andThen_def read_call_quiet ret_def)
qed

lemma has_pending_write_quiet:
  assumes "script w = []" and "store_wf (buckets w b)"
  shows "has_pending_write b pkg w = (Inr (has_marker (buckets w b) pkg), w)"
proof -
  let ?d = "DIRTY_PREFIX @ pkg"
  have "list_ex (\<lambda>e. om_key e = ?d \<or> starts_with (om_key e) (?d @ ''!'')) (map meta_of (prefix_range (buckets w b) ?d))
    \<longleftrightarrow> (\<exists>k\<in>fst ` set (prefix_range (buckets w b) ?d). k = ?d \<or> starts_with k (?d @ ''!''))"
    by (auto simp: list_ex_iff meta_of_def)
  also have "\<dots> \<longleftrightarrow> has_marker (buckets w b) pkg"
  proof -
    have "starts_with k ?d" if "k = ?d \<or> starts_with k (?d @ ''!'')" for k
      using that starts_with_appendD [of k ?d "''!''"] by auto
    then show ?thesis
      unfolding prefix_range_keys [OF assms(2)] has_marker_def by auto
  qed
  finally show ?thesis
    using assms(1)
    by (simp add: has_pending_write_def list_all_objects_def andThen_def read_call_quiet ret_def Let_def)
qed

text \<open>The page after a page is what the page left out.\<close>

lemma filter_after_last:
  fixes xs :: "(string \<times> 'b) list"
  assumes "sorted_wrt (<) (map fst xs)" and "take n xs \<noteq> []"
  shows "filter (\<lambda>e. fst (last (take n xs)) < fst e) xs = drop n xs"
proof -
  let ?l = "fst (last (take n xs))"
  have sorted: "sorted_wrt (\<lambda>x y. fst x < fst y) (take n xs @ drop n xs)"
    using assms(1) by (simp add: sorted_wrt_map)
  have "last (take n xs) \<in> set (take n xs)"
    using assms(2) by (rule last_in_set)
  then have after: "\<forall>y\<in>set (drop n xs). ?l < fst y"
    using sorted unfolding sorted_wrt_append by blast
  have "sorted_wrt (\<lambda>x y. fst x < fst y) (butlast (take n xs) @ [last (take n xs)])"
    unfolding append_butlast_last_id [OF assms(2)] using sorted by (simp only: sorted_wrt_append)
  then have "\<forall>x\<in>set (butlast (take n xs)). fst x < ?l"
    unfolding sorted_wrt_append by simp
  moreover have "set (take n xs) = insert (last (take n xs)) (set (butlast (take n xs)))"
    using assms(2) by (metis append_butlast_last_id list.set(1) list.simps(15) set_append sup_bot_right Un_insert_right)
  ultimately have before: "\<forall>x\<in>set (take n xs). \<not> ?l < fst x"
    by auto
  have "filter (\<lambda>e. ?l < fst e) (take n xs @ drop n xs) = drop n xs"
    unfolding filter_append using before after by (simp add: filter_empty_conv)
  then show ?thesis
    by simp
qed

abbreviation notes_after :: "inner \<Rightarrow> string option \<Rightarrow> (string \<times> obj) list" where
  "notes_after s aft \<equiv>
     filter (\<lambda>e. case aft of None \<Rightarrow> True | Some a \<Rightarrow> a < fst e) (prefix_range s ''_repl/'')"

lemma notes_after_page:
  assumes "store_wf s" and "take n (notes_after s aft) \<noteq> []"
  shows "notes_after s (Some (fst (last (take n (notes_after s aft))))) = drop n (notes_after s aft)"
proof -
  let ?l = "last (take n (notes_after s aft))"
  have "?l \<in> set (take n (notes_after s aft))"
    using assms(2) by (rule last_in_set)
  then have l: "case aft of None \<Rightarrow> True | Some a \<Rightarrow> a < fst ?l"
    using set_take_subset by fastforce
  have "filter (\<lambda>e. fst ?l < fst e) (prefix_range s ''_repl/'') = filter (\<lambda>e. fst ?l < fst e) (notes_after s aft)"
    unfolding filter_filter using l by (intro filter_cong) (auto split: option.splits)
  also have "\<dots> = drop n (notes_after s aft)"
    using prefix_range_sorted [OF assms(1)] assms(2)
    by (intro filter_after_last) (auto simp: sorted_wrt_map sorted_wrt_filter)
  finally show ?thesis
    by simp
qed

lemma scan_quiet:
  assumes "script w = []" and "store_wf (buckets w b)" and "length (notes_after (buckets w b) aft) < fuel"
  shows "scan_replication_notes b pkg aft fuel w =
    (Inr (\<exists>e\<in>set (notes_after (buckets w b) aft). repl_note_is_for (fst e) pkg), w)"
  using assms(3)
proof (induction fuel arbitrary: aft)
  case (Suc fuel)
  let ?s = "buckets w b"
  let ?xs = "notes_after ?s aft" and ?n = REPL_NOTE_SCAN_PAGE
  have page: "list_page b ''_repl/'' aft ?n w = (Inr (map meta_of (take ?n ?xs)), w)"
    unfolding list_page_def by (subst read_call_quiet [OF assms(1)]) simp_all
  show ?case
  proof (cases "take ?n ?xs = []")
    case True
    then have "?xs = []"
      by (auto simp: REPL_NOTE_SCAN_PAGE_def)
    then show ?thesis
      unfolding scan_replication_notes.simps andThen_def page by (simp add: ret_def)
  next
    case False
    let ?ys = "drop ?n ?xs"
    have split: "set ?xs = set (take ?n ?xs) \<union> set ?ys"
      by (metis append_take_drop_id set_append)
    have next_page: "notes_after ?s (Some (fst (last (take ?n ?xs)))) = ?ys"
      by (rule notes_after_page [OF assms(2) False])
    have "0 < length ?xs"
      using False by auto
    then have "length ?ys < fuel"
      using Suc.prems unfolding length_drop REPL_NOTE_SCAN_PAGE_def by linarith
    then have rec: "scan_replication_notes b pkg (Some (fst (last (take ?n ?xs)))) fuel w =
        (Inr (\<exists>e\<in>set ?ys. repl_note_is_for (fst e) pkg), w)"
      using Suc.IH [of "Some (fst (last (take ?n ?xs)))"] unfolding next_page by simp
    have last: "om_key (last (map meta_of (take ?n ?xs))) = fst (last (take ?n ?xs))"
      unfolding last_map [OF False] by (simp add: meta_of_def)
    have hits: "list_ex (\<lambda>e. repl_note_is_for (om_key e) pkg) (map meta_of (take ?n ?xs)) \<longleftrightarrow>
        (\<exists>e\<in>set (take ?n ?xs). repl_note_is_for (fst e) pkg)"
      by (simp add: list_ex_iff meta_of_def)
    have "map meta_of (take ?n ?xs) \<noteq> []"
      using False by simp
    then show ?thesis
      unfolding scan_replication_notes.simps andThen_def page prod.case sum.case last hits split
      by (simp add: ret_def bex_Un rec)
  qed
qed simp

lemma has_pending_replication_notes_quiet:
  assumes "script w = []" and "store_wf (buckets w b)" and "length (objects (buckets w b)) < fuel"
  shows "has_pending_replication_notes fuel b pkg w = (Inr (has_note (buckets w b) pkg), w)"
proof -
  let ?s = "buckets w b"
  have "prefix_range ?s ''_repl/'' = filter (\<lambda>e. starts_with (fst e) ''_repl/'') (objects ?s)"
    using assms(2) by (simp add: prefix_range_filter store_wf_def)
  then have "length (notes_after ?s None) < fuel"
    using assms(3) by (auto intro: le_less_trans [OF length_filter_le])
  then have "has_pending_replication_notes fuel b pkg w =
      (Inr (\<exists>e\<in>set (notes_after ?s None). repl_note_is_for (fst e) pkg), w)"
    unfolding has_pending_replication_notes_def by (rule scan_quiet [OF assms(1,2)])
  moreover have "(\<exists>e\<in>set (notes_after ?s None). repl_note_is_for (fst e) pkg) \<longleftrightarrow>
      (\<exists>k\<in>fst ` set (prefix_range ?s ''_repl/''). repl_note_is_for k pkg)"
    by simp
  moreover have "repl_note_is_for k pkg \<Longrightarrow> starts_with k ''_repl/''" for k
    by (auto simp: repl_note_is_for_def strip_prefix_def split: if_splits)
  ultimately show ?thesis
    unfolding prefix_range_keys [OF assms(2)] has_note_def by auto
qed

lemma repl_note_key: "repl_note_is_for k pkg \<Longrightarrow> starts_with k ''_repl/''"
  by (auto simp: repl_note_is_for_def strip_prefix_def split: if_splits)

lemma busy_store_claim:
  "busy (snd (store sha (origin_key pkg) body s)) pkg = busy s pkg"
proof -
  have same: "contains_key (snd (store sha (origin_key pkg) body s)) k = contains_key s k" if "k \<noteq> origin_key pkg" for k
    using that by (simp add: contains_key_def object_at_store)
  have marker: "k \<noteq> origin_key pkg" if "k = DIRTY_PREFIX @ pkg \<or> starts_with k (DIRTY_PREFIX @ pkg @ ''!'')" for k
    using that by (auto simp: starts_with_iff origin_key_def DIRTY_PREFIX_def PACKAGES_PREFIX_def)
  have repl: "k \<noteq> origin_key pkg" if "repl_note_is_for k pkg" for k
    using repl_note_key [OF that] by (auto simp: starts_with_iff origin_key_def PACKAGES_PREFIX_def)
  have "has_truth (snd (store sha (origin_key pkg) body s)) pkg = has_truth s pkg"
    unfolding has_truth_def using same by blast
  moreover have "has_marker (snd (store sha (origin_key pkg) body s)) pkg = has_marker s pkg"
    unfolding has_marker_def using same marker by blast
  moreover have "has_note (snd (store sha (origin_key pkg) body s)) pkg = has_note s pkg"
    unfolding has_note_def using same repl by blast
  ultimately show ?thesis
    by (simp add: busy_def)
qed

lemma length_store: "length (objects (snd (store sha k bs s))) \<le> Suc (length (objects s))"
proof -
  have "length (takeWhile P xs) + length (dropWhile P xs) = length xs" for P and xs :: "(string \<times> obj) list"
    by (metis length_append takeWhile_dropWhile_id)
  then have "length (bt_insert k v m) = Suc (length (bt_remove k m))" for v and m :: "(string, obj) btree"
    by (simp add: bt_insert_def Let_def)
  then show ?thesis
    by (simp add: store_def Let_def bt_remove_def)
qed

section \<open>Properties\<close>


text \<open>A rival process that claims the same package as a mirror in the middle of the operation.\<close>

definition rival_claim :: "fleet \<Rightarrow> fleet" where
  "rival_claim fl = fl(0 := snd (try_create (\<lambda>bs. bs) (origin_key ''six'')
     (to_json plain_codec (written_body Mirror 7)) (fl 0)))"

lemma rival_claim_obeys:
  assumes "fleet_wf fl"
  shows "fleet_wf (rival_claim fl) \<and> fleet_evolves fl (rival_claim fl) \<and> claims_follow plain_codec fl (rival_claim fl)"
proof (cases "contains_key (fl 0) (origin_key ''six'')")
  case True
  then show ?thesis
    using assms follow_create_lost
    by (simp add: rival_claim_def try_create_cases fleet_wf_def fleet_evolves_def store_wf_create_lost
        evolves_same_objects)
next
  case False
  then have "view plain_codec fl 0 ''six'' = Absent"
    by (simp add: view_def contains_key_def)
  then show ?thesis
    using assms False follow_store [OF decode_written [OF plain_codec_ok, of Mirror 7], of fl 0 "''six''"]
    by (simp add: rival_claim_def try_create_cases fleet_wf_def fleet_evolves_def store_wf_store store_evolves)
qed


text \<open>
  undisturbed, \<open>claim_origin\<close> settles in one of three ways. With no claim, or an unclaimed
  sentinel, the caller's origin is installed and the returned etag is the one now standing; with
  a private or mirror claim that owner is returned, no etag, and no object changes; with an
  unreadable claim it fails and no object changes.
\<close>

theorem claim_origin_first_write_wins:
  assumes "json_ok J" and "script w = []" and "claim_target o_str = Inr target"
    and "fleet_wf (buckets w)" and "next_version (buckets w b) < 2 ^ 64"
  shows "case view J (buckets w) b pkg of
      Corrupt \<Rightarrow> \<exists>e w'. claim_origin sha J b pkg o_str None w = (Inl e, w') \<and> buckets w' = buckets w
    | Absent \<Rightarrow> \<exists>t w'. claim_origin sha J b pkg o_str None w = (Inr \<lparr>owner = as_str target, claim_etag = Some t\<rparr>, w')
        \<and> view J (buckets w') b pkg = Claimed target \<and> (\<exists>bs. lookup_tagged (buckets w' b) (origin_key pkg) = Some (bs, t))
    | Claimed Unclaimed \<Rightarrow> \<exists>t w'. claim_origin sha J b pkg o_str None w = (Inr \<lparr>owner = as_str target, claim_etag = Some t\<rparr>, w')
        \<and> view J (buckets w') b pkg = Claimed target \<and> (\<exists>bs. lookup_tagged (buckets w' b) (origin_key pkg) = Some (bs, t))
    | Claimed st \<Rightarrow> \<exists>w'. claim_origin sha J b pkg o_str None w = (Inr \<lparr>owner = as_str st, claim_etag = None\<rparr>, w')
        \<and> buckets w' = buckets w"
proof -
  let ?key = "origin_key pkg" and ?s = "buckets w b"
  have run: "claim_origin sha J b pkg o_str None w = claim_loop sha J b pkg target (Suc 7) w"
    by (simp add: claim_origin_def assms(3) lift_res_def andThen_def ret_def CLAIM_ATTEMPTS_def numeral_eq_Suc)
  have installed: "view J ((buckets w)(b := snd (store sha ?key (to_json J (written_body target n)) ?s))) b pkg = Claimed target" for n
    using view_store [OF decode_written [OF assms(1)]] by simp
  show ?thesis
  proof (cases "object_at ?s ?key")
    case None
    then have "view J (buckets w) b pkg = Absent" and "\<not> contains_key ?s ?key"
      by (simp_all add: view_def contains_key_def)
    then show ?thesis
      unfolding run claim_loop.simps
      by (simp add: andThen_def encode_claim_run quiet_simps assms(2) ret_def installed lookup_tagged_store)
  next
    case (Some ob)
    then have at: "lookup_tagged ?s ?key = Some (obj_bytes ob, obj_etag ob)" and present: "contains_key ?s ?key"
      by (simp_all add: lookup_tagged_def contains_key_def)
    have tag: "versioned (obj_etag ob)"
      using versioned_lookup [OF _ _ at] assms(4,5) by (simp add: fleet_wf_def)
    show ?thesis
    proof (cases "decode_claim J (obj_bytes ob)")
      case (Inl e)
      then have "view J (buckets w) b pkg = Corrupt"
        using Some by (simp add: view_def)
      then show ?thesis
        unfolding run claim_loop.simps
        by (simp add: andThen_def encode_claim_run quiet_simps assms(2) present at Inl read_origin_observation_quiet)
    next
      case (Inr st)
      then have v: "view J (buckets w) b pkg = Claimed st"
        using Some by (simp add: view_def)
      show ?thesis
        unfolding run claim_loop.simps v
        by (cases st) (simp_all add: andThen_def encode_claim_run quiet_simps assms(2) present at Inr ret_def
            read_origin_observation_quiet tag installed lookup_tagged_store)
    qed
  qed
qed

theorem claim_origin_first_write_wins_witness:
  "\<exists>t w'. claim_origin (\<lambda>bs. bs) plain_codec 0 ''six'' ''private'' None (quiet (\<lambda>_. inner_default 0)) =
       (Inr \<lparr>owner = ''private'', claim_etag = Some t\<rparr>, w') \<and> view plain_codec (buckets w') 0 ''six'' = Claimed Private"
proof -
  let ?w = "quiet (\<lambda>_. inner_default 0)"
  have "claim_target ''private'' = Inr Private"
    by (simp add: claim_target_def parse_state_def origin_consts)
  moreover have "view plain_codec (buckets ?w) 0 ''six'' = Absent"
    by (simp add: view_def quiet_def inner_default_def bt.get_empty)
  ultimately show ?thesis
    using claim_origin_first_write_wins [OF plain_codec_ok, where w = ?w and b = 0 and pkg = "''six''" and sha = "\<lambda>bs. bs" and o_str = "''private''" and target = Private]
    by (auto simp: quiet_def fleet_wf_def store_wf_default PRIVATE_def)
qed



end
