(* ===== verification/Decide.thy ===== *)
theory Decide
  imports Origin
begin

text \<open>
  \<open>src/replicate/decide.rs\<close>, the merge algebra, with the document types of \<open>src/status.rs\<close> it
  merges. Pure: a record is what one bucket's listing and sidecar say about a filename,
  \<open>classify_record\<close> gives it a meaning, \<open>decide\<close> compares two of them. \<open>serde_json\<close>'s encoding
  of a sidecar and of a stored status (\<open>enc\<close>) and SHA-256 (\<open>sha\<close>) are parameters; a \<open>u64\<close> is a
  64-bit word. Tuples and digests are compared lexicographically.
\<close>

section \<open>Definitions\<close>

subsection \<open>Origins\<close>

datatype record_origin = PrivateO | MirrorO

definition narrow :: "origin_state \<Rightarrow> record_origin option" where
  "narrow st = (case st of Private \<Rightarrow> Some PrivateO | Mirror \<Rightarrow> Some MirrorO | Unclaimed \<Rightarrow> None)"

definition origin_parse :: "string \<Rightarrow> record_origin option" where
  "origin_parse s = (case parse_state s of Inl _ \<Rightarrow> None | Inr st \<Rightarrow> narrow st)"

definition origin_as_str :: "record_origin \<Rightarrow> string" where
  "origin_as_str r = (case r of PrivateO \<Rightarrow> PRIVATE | MirrorO \<Rightarrow> MIRROR)"

definition rank :: "record_origin \<Rightarrow> nat" where
  "rank r = (case r of MirrorO \<Rightarrow> 1 | PrivateO \<Rightarrow> 2)"

definition claim_rank :: "record_origin option \<Rightarrow> nat" where
  "claim_rank c = (case c of None \<Rightarrow> 0 | Some r \<Rightarrow> rank r)"

definition claim_join :: "record_origin option \<Rightarrow> record_origin option \<Rightarrow> record_origin option" where
  "claim_join a b = (if claim_rank b > claim_rank a then b else a)"

subsection \<open>One bucket's record of a filename\<close>

record file_record =
  rc_sidecar :: "sidecar option"
  has_artifact :: bool
  has_metadata :: bool
  has_provenance :: bool
  tombstoned :: bool
  frozen :: bool
  mirror_quarantined :: bool
  superseding :: bool
  pkg_origin :: "record_origin option"

datatype record_state =
    Frozen bool
  | Tombstoned bool
  | QuarantinedMirror bool
  | Live string record_origin bool
  | Bare
  | Untyped
  | AbsentRecord bool

text \<open>The origin string a sidecar carries, if there is a sidecar and it carries one.\<close>

definition sidecar_origin_str :: "file_record \<Rightarrow> string option" where
  "sidecar_origin_str r = Option.bind (rc_sidecar r) origin"

definition from_listing :: "(string \<Rightarrow> bool) \<Rightarrow> sidecar option \<Rightarrow> record_origin option \<Rightarrow> file_record" where
  "from_listing has sc claim =
     (let has_art = has []; needs_fallback = has_art \<and> Option.bind sc origin = None
      in \<lparr>rc_sidecar = sc, has_artifact = has_art, has_metadata = has METADATA_SUFFIX,
          has_provenance = has PROVENANCE_SUFFIX, tombstoned = has TOMBSTONE_SUFFIX,
          frozen = has FROZEN_SUFFIX, mirror_quarantined = has MIRROR_QUARANTINED_SUFFIX,
          superseding = has SUPERSEDING_SUFFIX,
          pkg_origin = (if needs_fallback then claim else None)\<rparr>)"

definition record_origin_of :: "file_record \<Rightarrow> record_origin option" where
  "record_origin_of r =
     (case Option.bind (sidecar_origin_str r) origin_parse of None \<Rightarrow> pkg_origin r | Some p \<Rightarrow> Some p)"

definition classify_record :: "file_record \<Rightarrow> record_state" where
  "classify_record r =
     (let leftovers = has_artifact r \<or> rc_sidecar r \<noteq> None \<or> has_metadata r \<or> has_provenance r in
      if frozen r then Frozen (tombstoned r \<and> \<not> leftovers \<and> \<not> mirror_quarantined r)
      else if tombstoned r then Tombstoned (\<not> leftovers \<and> \<not> mirror_quarantined r)
      else if mirror_quarantined r \<and> sidecar_origin_str r \<noteq> Some PRIVATE
        then QuarantinedMirror (\<not> leftovers)
      else if \<not> has_artifact r then AbsentRecord leftovers
      else (case (rc_sidecar r, record_origin_of r) of
              (None, _) \<Rightarrow> Bare
            | (Some _, None) \<Rightarrow> Untyped
            | (Some sc, Some org) \<Rightarrow> Live (sha256 sc) org (superseding r)))"

definition is_late_mirror :: "file_record \<Rightarrow> record_origin option \<Rightarrow> bool" where
  "is_late_mirror r claim =
     (claim = Some PrivateO \<and> (case classify_record r of Live _ MirrorO _ \<Rightarrow> True | _ \<Rightarrow> False))"

definition fenced_by_markers :: "bool \<Rightarrow> bool \<Rightarrow> bool" where
  "fenced_by_markers tomb froz =
     (case classify_record
        \<lparr>rc_sidecar = None, has_artifact = False, has_metadata = False, has_provenance = False,
         tombstoned = tomb, frozen = froz, mirror_quarantined = False, superseding = False,
         pkg_origin = None\<rparr> of
        Frozen _ \<Rightarrow> True | Tombstoned _ \<Rightarrow> True | _ \<Rightarrow> False)"

definition listed :: "file_record \<Rightarrow> record_origin option \<Rightarrow> bool" where
  "listed r claim =
     ((case classify_record r of Live _ _ _ \<Rightarrow> True | Untyped \<Rightarrow> True | _ \<Rightarrow> False)
      \<and> \<not> is_late_mirror r claim)"

subsection \<open>Merging ranked documents\<close>

datatype merge_choice = ChooseA | ChooseB | EqualDocs

definition ranked_merge :: "(bytes \<Rightarrow> bytes) \<Rightarrow> 'k::linorder \<Rightarrow> bytes \<Rightarrow> 'k \<Rightarrow> bytes \<Rightarrow> merge_choice" where
  "ranked_merge sha ka a kb b =
     (if ka > kb then ChooseA
      else if ka < kb then ChooseB
      else if a = b then EqualDocs
      else if sha a \<le> sha b then ChooseA
      else ChooseB)"

definition is_yanked :: "sidecar \<Rightarrow> bool" where
  "is_yanked sc = (yanked_normalized (yanked sc) \<noteq> Flag False)"

definition sidecar_rank_key :: "sidecar \<Rightarrow> record_origin option \<Rightarrow> nat \<times> u64 \<times> bool \<times> u64" where
  "sidecar_rank_key sc org =
     (rank (case org of None \<Rightarrow> MirrorO | Some r \<Rightarrow> r), yank_epoch sc, is_yanked sc, upload_time_revision sc)"

definition sidecar_merge ::
  "(sidecar \<Rightarrow> bytes) \<Rightarrow> (bytes \<Rightarrow> bytes) \<Rightarrow> sidecar \<Rightarrow> record_origin option \<Rightarrow> sidecar \<Rightarrow> record_origin option
    \<Rightarrow> merge_choice" where
  "sidecar_merge enc sha a oa b ob =
     ranked_merge sha (sidecar_rank_key a oa) (enc a) (sidecar_rank_key b ob) (enc b)"

subsection \<open>Project status documents\<close>

datatype project_status = Active | Archived | Quarantined | Deprecated

definition blocks_downloads :: "project_status \<Rightarrow> bool" where
  "blocks_downloads st = (case st of Quarantined \<Rightarrow> True | _ \<Rightarrow> False)"

definition restriction :: "project_status \<Rightarrow> nat" where
  "restriction st = (case st of Active \<Rightarrow> 0 | Deprecated \<Rightarrow> 1 | Archived \<Rightarrow> 2 | Quarantined \<Rightarrow> 3)"

record project_status_doc =
  status :: project_status
  reason :: "string option"

definition default_status_doc :: project_status_doc where
  "default_status_doc = \<lparr>status = Active, reason = None\<rparr>"

record stored_project_status =
  st_doc :: project_status_doc
  st_epoch :: u64
  st_origin :: "record_origin option"

record versioned_project_status = stored_project_status +
  st_etag :: string

definition is_default_status :: "stored_project_status \<Rightarrow> bool" where
  "is_default_status s = (st_epoch s = 0 \<and> st_doc s = default_status_doc)"

definition status_rank_key :: "stored_project_status \<Rightarrow> bool \<times> u64 \<times> nat \<times> bool" where
  "status_rank_key s =
     (st_origin s \<noteq> Some MirrorO, st_epoch s, restriction (status (st_doc s)), st_origin s = Some PrivateO)"

text \<open>The merge reads the stored fields of an observation only, never its etag.\<close>

definition status_merge ::
  "(stored_project_status \<Rightarrow> bytes) \<Rightarrow> (bytes \<Rightarrow> bytes) \<Rightarrow> stored_project_status option
    \<Rightarrow> stored_project_status option \<Rightarrow> merge_choice" where
  "status_merge enc sha a b =
     (case (a, b) of
        (None, None) \<Rightarrow> EqualDocs
      | (Some s, None) \<Rightarrow> if is_default_status s then EqualDocs else ChooseA
      | (None, Some s) \<Rightarrow> if is_default_status s then EqualDocs else ChooseB
      | (Some x, Some y) \<Rightarrow> ranked_merge sha (status_rank_key x) (enc x) (status_rank_key y) (enc y))"

subsection \<open>The verdict on two records\<close>

datatype side = SideA | SideB

datatype verdict =
    Noop
  | Defer
  | CopyV side
  | AdoptSidecar side
  | Supersede side
  | QuarantineLoser side
  | Freeze
  | Tombstone
  | PropagateFreeze side
  | FinishFreeze
  | SettleMirrorQuarantine

definition CONFLICT_SKEW_MS :: u64 where "CONFLICT_SKEW_MS = 2000"

definition conflict_winner :: "file_record \<Rightarrow> file_record \<Rightarrow> side option" where
  "conflict_winner a b =
     (case (Option.bind (rc_sidecar a) upload_epoch_ms, Option.bind (rc_sidecar b) upload_epoch_ms) of
        (Some ta, Some tb) \<Rightarrow>
          if abs_diff ta tb \<le> CONFLICT_SKEW_MS then None
          else Some (if ta < tb then SideA else SideB)
      | _ \<Rightarrow> None)"

definition same_bytes ::
  "(sidecar \<Rightarrow> bytes) \<Rightarrow> (bytes \<Rightarrow> bytes) \<Rightarrow> file_record \<Rightarrow> file_record \<Rightarrow> record_origin \<Rightarrow> record_origin \<Rightarrow> verdict" where
  "same_bytes enc sha a b oa ob =
     (case (rc_sidecar a, rc_sidecar b) of
        (Some sca, Some scb) \<Rightarrow>
          (case sidecar_merge enc sha sca (Some oa) scb (Some ob) of
             ChooseA \<Rightarrow> AdoptSidecar SideA
           | ChooseB \<Rightarrow> AdoptSidecar SideB
           | EqualDocs \<Rightarrow> Noop)
      | _ \<Rightarrow> Noop)"

definition decide :: "(sidecar \<Rightarrow> bytes) \<Rightarrow> (bytes \<Rightarrow> bytes) \<Rightarrow> file_record \<Rightarrow> file_record \<Rightarrow> verdict" where
  "decide enc sha a b =
     (case (classify_record a, classify_record b) of
        (Frozen True, Frozen True) \<Rightarrow> Noop
      | (Frozen _, Frozen _) \<Rightarrow> FinishFreeze
      | (Frozen True, _) \<Rightarrow> PropagateFreeze SideA
      | (_, Frozen True) \<Rightarrow> PropagateFreeze SideB
      | (Frozen False, _) \<Rightarrow> FinishFreeze
      | (_, Frozen False) \<Rightarrow> FinishFreeze
      | (Tombstoned True, Tombstoned True) \<Rightarrow> Noop
      | (Tombstoned _, _) \<Rightarrow> Tombstone
      | (_, Tombstoned _) \<Rightarrow> Tombstone
      | (Bare, _) \<Rightarrow> Defer
      | (Untyped, _) \<Rightarrow> Defer
      | (_, Bare) \<Rightarrow> Defer
      | (_, Untyped) \<Rightarrow> Defer
      | (AbsentRecord _, AbsentRecord _) \<Rightarrow> Noop
      | (Live _ _ _, AbsentRecord _) \<Rightarrow> CopyV SideA
      | (AbsentRecord _, Live _ _ _) \<Rightarrow> CopyV SideB
      | (Live _ PrivateO _, QuarantinedMirror _) \<Rightarrow> Supersede SideA
      | (QuarantinedMirror _, Live _ PrivateO _) \<Rightarrow> Supersede SideB
      | (QuarantinedMirror True, QuarantinedMirror True) \<Rightarrow> Noop
      | (QuarantinedMirror _, _) \<Rightarrow> SettleMirrorQuarantine
      | (_, QuarantinedMirror _) \<Rightarrow> SettleMirrorQuarantine
      | (Live sa oa _, Live sb ob _) \<Rightarrow>
          if sa = sb then same_bytes enc sha a b oa ob
          else (case (oa, ob) of
                  (PrivateO, PrivateO) \<Rightarrow>
                    (case conflict_winner a b of Some sd \<Rightarrow> QuarantineLoser sd | None \<Rightarrow> Freeze)
                | (PrivateO, MirrorO) \<Rightarrow> Supersede SideA
                | (MirrorO, PrivateO) \<Rightarrow> Supersede SideB
                | (MirrorO, MirrorO) \<Rightarrow> Freeze))"

subsection \<open>Pairwise synchronization of a fleet\<close>

text \<open>
  One meeting of two buckets copies the winner over the loser; a schedule is any sequence of
  meetings. This is the convergence the module documentation promises for every ranked
  document.
\<close>

definition meet :: "('d \<Rightarrow> 'd \<Rightarrow> merge_choice) \<Rightarrow> nat \<times> nat \<Rightarrow> (nat \<Rightarrow> 'd) \<Rightarrow> nat \<Rightarrow> 'd" where
  "meet merge p st =
     (case merge (st (fst p)) (st (snd p)) of
        ChooseA \<Rightarrow> st(snd p := st (fst p))
      | ChooseB \<Rightarrow> st(fst p := st (snd p))
      | EqualDocs \<Rightarrow> st)"

definition gossip :: "('d \<Rightarrow> 'd \<Rightarrow> merge_choice) \<Rightarrow> (nat \<times> nat) list \<Rightarrow> (nat \<Rightarrow> 'd) \<Rightarrow> nat \<Rightarrow> 'd" where
  "gossip merge sched st = fold (meet merge) sched st"

text \<open>Every two of the buckets below \<open>n\<close> meet at least once, and nobody outside takes part.\<close>

definition covers :: "nat \<Rightarrow> (nat \<times> nat) list \<Rightarrow> bool" where
  "covers n sched =
     ((\<forall>p\<in>set sched. fst p < n \<and> snd p < n)
      \<and> (\<forall>i<n. \<forall>j<n. i \<noteq> j \<longrightarrow> (i, j) \<in> set sched \<or> (j, i) \<in> set sched))"

definition collision_free :: "(bytes \<Rightarrow> bytes) \<Rightarrow> bytes set \<Rightarrow> bool" where
  "collision_free sha B = (\<forall>x\<in>B. \<forall>y\<in>B. sha x = sha y \<longrightarrow> x = y)"

section \<open>Ranked documents converge\<close>

fun flip :: "merge_choice \<Rightarrow> merge_choice" where
  "flip ChooseA = ChooseB"
| "flip ChooseB = ChooseA"
| "flip EqualDocs = EqualDocs"

lemma ranked_merge_flip:
  "collision_free sha {a, b} \<Longrightarrow> ranked_merge sha kb b ka a = flip (ranked_merge sha ka a kb b)"
  by (auto simp: ranked_merge_def collision_free_def)

text \<open>
  A document type whose merge is \<open>ranked_merge\<close> on some key and encoding. What a bucket's document
  is up to this merge is its key and bytes (\<open>ident\<close>).
\<close>

locale ranked_documents =
  fixes sha :: "bytes \<Rightarrow> bytes"
    and merge :: "'d \<Rightarrow> 'd \<Rightarrow> merge_choice"
    and key :: "'d \<Rightarrow> 'k::linorder"
    and bytes_of :: "'d \<Rightarrow> bytes"
  assumes merge_ranked: "merge a b = ranked_merge sha (key a) (bytes_of a) (key b) (bytes_of b)"
begin

definition ident :: "'d \<Rightarrow> 'k \<times> bytes" where
  "ident d = (key d, bytes_of d)"

text \<open>\<open>d\<close> beats or equals \<open>e\<close>.\<close>

definition beats :: "'d \<Rightarrow> 'd \<Rightarrow> bool" where
  "beats d e = (merge d e \<noteq> ChooseB)"

lemma beats_iff:
  "beats d e \<longleftrightarrow> key e < key d \<or> key e = key d \<and> (bytes_of d = bytes_of e \<or> sha (bytes_of d) \<le> sha (bytes_of e))"
  by (auto simp: beats_def merge_ranked ranked_merge_def)

lemma beats_refl: "beats d d"
  by (simp add: beats_iff)

lemma beats_trans: "beats d e \<Longrightarrow> beats e f \<Longrightarrow> beats d f"
  by (auto simp: beats_iff)

lemma beats_total: "beats d e \<or> beats e d"
  by (auto simp: beats_iff)

lemma beats_antisym:
  "collision_free sha (bytes_of ` {d, e}) \<Longrightarrow> beats d e \<Longrightarrow> beats e d \<Longrightarrow> ident d = ident e"
proof -
  assume cf: "collision_free sha (bytes_of ` {d, e})" and b: "beats d e" "beats e d"
  have k: "key d = key e"
    using b unfolding beats_iff by (metis order_less_asym)
  then have "bytes_of d = bytes_of e \<or> sha (bytes_of d) = sha (bytes_of e)"
    using b unfolding beats_iff by auto
  then have "bytes_of d = bytes_of e"
    using cf by (auto simp: collision_free_def)
  then show "ident d = ident e"
    using k by (simp add: ident_def)
qed

lemma equal_ident: "merge d e = EqualDocs \<longleftrightarrow> ident d = ident e"
  by (auto simp: merge_ranked ranked_merge_def ident_def)

lemma beats_cong: "ident d = ident d' \<Longrightarrow> beats d e = beats d' e"
  by (simp add: beats_iff ident_def)

text \<open>A finite fleet has a best document.\<close>

lemma best_exists: "0 < n \<Longrightarrow> \<exists>i<n. \<forall>j<n. beats (st i) (st j)" for n :: nat
proof (induction n)
  case (Suc n)
  show ?case
  proof (cases "n = 0")
    case True
    then show ?thesis
      by (simp add: beats_refl)
  next
    case False
    then obtain i where i: "i < n" "\<forall>j<n. beats (st i) (st j)"
      using Suc.IH by auto
    show ?thesis
    proof (cases "beats (st i) (st n)")
      case True
      then show ?thesis
        using i by (auto simp: less_Suc_eq intro!: exI [of _ i])
    next
      case False
      then have "beats (st n) (st i)"
        using beats_total by blast
      then have "\<forall>j<n. beats (st n) (st j)"
        using i(2) beats_trans by blast
      then show ?thesis
        by (auto simp: less_Suc_eq beats_refl intro!: exI [of _ n])
    qed
  qed
qed simp

text \<open>A meeting keeps every document within the fleet's, and a best document where it is.\<close>

lemma meet_range: "fst p < n \<Longrightarrow> snd p < n \<Longrightarrow> \<forall>i<n. meet merge p st i \<in> st ` {..<n}"
  by (auto simp: meet_def split: merge_choice.splits)

lemma meet_keeps_best:
  assumes "collision_free sha (bytes_of ` (st ` {..<n}))" and "fst p < n" "snd p < n"
    and "b \<in> st ` {..<n}" and "\<forall>j<n. beats b (st j)" and "i < n" and "ident (st i) = ident b"
  shows "ident (meet merge p st i) = ident b"
proof -
  have win: "ident (st j) = ident b" if "j < n" "beats (st j) (st i)" for j
  proof (rule beats_antisym)
    show "collision_free sha (bytes_of ` {st j, b})"
      using assms(1,4) that(1) unfolding collision_free_def by auto
    show "beats (st j) b"
      using that(2) assms(7) by (simp add: beats_iff ident_def)
    show "beats b (st j)"
      using assms(5) that(1) by simp
  qed
  show ?thesis
  proof (cases "merge (st (fst p)) (st (snd p))")
    case ChooseA
    then have "i = snd p \<Longrightarrow> ident (st (fst p)) = ident b"
      using win [of "fst p"] assms(2) by (simp add: beats_def)
    then show ?thesis
      using ChooseA assms(7) by (simp add: meet_def)
  next
    case ChooseB
    then have "beats (st (snd p)) (st (fst p))"
      using beats_total [of "st (snd p)" "st (fst p)"] by (simp add: beats_def)
    then have "i = fst p \<Longrightarrow> ident (st (snd p)) = ident b"
      using win [of "snd p"] assms(3) by simp
    then show ?thesis
      using ChooseB assms(7) by (simp add: meet_def)
  qed (use assms(7) in \<open>simp add: meet_def\<close>)
qed

text \<open>Meeting a bucket that holds a best document makes the other one hold it too.\<close>

lemma meet_spreads_best:
  assumes "collision_free sha (bytes_of ` (st ` {..<n}))" and "fst p < n" "snd p < n"
    and "b \<in> st ` {..<n}" and "\<forall>j<n. beats b (st j)"
    and "ident (st (fst p)) = ident b \<or> ident (st (snd p)) = ident b"
  shows "ident (meet merge p st (fst p)) = ident b \<and> ident (meet merge p st (snd p)) = ident b"
proof -
  have same: "ident (st j) = ident b" if "j < n" "beats (st j) (st i)" "ident (st i) = ident b" for i j
  proof (rule beats_antisym)
    show "collision_free sha (bytes_of ` {st j, b})"
      using assms(1,4) that(1) unfolding collision_free_def by auto
    show "beats (st j) b"
      using that(2,3) by (simp add: beats_iff ident_def)
    show "beats b (st j)"
      using assms(5) that(1) by simp
  qed
  show ?thesis
  proof (cases "merge (st (fst p)) (st (snd p))")
    case ChooseA
    then have "ident (st (fst p)) = ident b"
      using same [of "fst p" "snd p"] assms(2,6) by (auto simp: beats_def)
    then show ?thesis
      using ChooseA by (simp add: meet_def)
  next
    case ChooseB
    then have "ident (st (snd p)) = ident b"
      using same [of "snd p" "fst p"] assms(3,6) beats_total [of "st (snd p)" "st (fst p)"] by (auto simp: beats_def)
    then show ?thesis
      using ChooseB by (simp add: meet_def)
  next
    case EqualDocs
    then have "ident (st (fst p)) = ident (st (snd p))"
      using equal_ident by simp
    then show ?thesis
      using assms(6) EqualDocs by (auto simp: meet_def)
  qed
qed

text \<open>
  Running a schedule: a best document of the fleet stays best, stays where it is, and reaches
  every bucket some holder meets.
\<close>

lemma gossip_spreads_best:
  assumes "collision_free sha (bytes_of ` (st ` {..<n}))"
    and "b \<in> st ` {..<n}" and "\<forall>j<n. beats b (st j)"
    and "\<forall>p\<in>set sched. fst p < n \<and> snd p < n"
    and "i0 < n" and "ident (st i0) = ident b" and "i < n"
    and "ident (st i) = ident b \<or> (i0, i) \<in> set sched \<or> (i, i0) \<in> set sched"
  shows "ident (gossip merge sched st i) = ident b"
  using assms
proof (induction sched arbitrary: st b)
  case Nil
  then show ?case
    by (simp add: gossip_def)
next
  case (Cons p ps)
  let ?st = "meet merge p st"
  have p: "fst p < n" "snd p < n"
    using Cons.prems(4) by auto
  have range: "\<forall>j<n. ?st j \<in> st ` {..<n}"
    using p by (rule meet_range)
  then have sub: "?st ` {..<n} \<subseteq> st ` {..<n}"
    by auto
  have cf: "collision_free sha (bytes_of ` (?st ` {..<n}))"
    using Cons.prems(1) image_mono [OF sub, of bytes_of] unfolding collision_free_def by (meson subsetD)
  have best: "\<forall>j<n. beats b (?st j)"
    using range Cons.prems(3) by auto
  note keep = meet_keeps_best [OF Cons.prems(1) p Cons.prems(2,3)]
  have i0: "ident (?st i0) = ident b"
    using keep [OF Cons.prems(5,6)] .
  have here: "ident (?st i) = ident b \<or> (i0, i) \<in> set ps \<or> (i, i0) \<in> set ps"
  proof (cases "ident (st i) = ident b")
    case True
    then show ?thesis
      using keep [OF Cons.prems(7)] by simp
  next
    case False
    moreover have "p = (i0, i) \<or> p = (i, i0) \<Longrightarrow> ident (?st i) = ident b"
      using meet_spreads_best [OF Cons.prems(1) p Cons.prems(2,3)] Cons.prems(6) by auto
    ultimately show ?thesis
      using Cons.prems(8) by auto
  qed
  have "\<forall>j<n. beats (?st i0) (?st j)"
    using best beats_cong [OF i0] by simp
  moreover have "?st i0 \<in> ?st ` {..<n}"
    using Cons.prems(5) by simp
  moreover have "\<forall>p\<in>set ps. fst p < n \<and> snd p < n"
    using Cons.prems(4) by simp
  ultimately have "ident (gossip merge ps ?st i) = ident (?st i0)"
    using Cons.IH [OF cf _ _ _ Cons.prems(5) refl Cons.prems(7)] here i0 by simp
  then show ?case
    using i0 by (simp add: gossip_def)
qed

lemma gossip_converges:
  assumes "collision_free sha (bytes_of ` (st ` {..<n}))" and "covers n sched"
    and "k < n" and "\<forall>j<n. beats (st k) (st j)" and "i < n"
  shows "ident (gossip merge sched st i) = ident (st k)"
proof (rule gossip_spreads_best [OF assms(1)])
  show "ident (st i) = ident (st k) \<or> (k, i) \<in> set sched \<or> (i, k) \<in> set sched"
    using assms(2,3,5) by (cases "i = k") (auto simp: covers_def)
qed (use assms in \<open>auto simp: covers_def\<close>)

end

section \<open>The replicated documents are ranked\<close>

definition own_origin :: "sidecar \<Rightarrow> record_origin option" where
  "own_origin sc = Option.bind (origin sc) origin_parse"

definition merge_sidecars :: "(sidecar \<Rightarrow> bytes) \<Rightarrow> (bytes \<Rightarrow> bytes) \<Rightarrow> sidecar \<Rightarrow> sidecar \<Rightarrow> merge_choice" where
  "merge_sidecars enc sha a b = sidecar_merge enc sha a (own_origin a) b (own_origin b)"

definition merge_statuses ::
  "(stored_project_status \<Rightarrow> bytes) \<Rightarrow> (bytes \<Rightarrow> bytes) \<Rightarrow> stored_project_status \<Rightarrow> stored_project_status \<Rightarrow> merge_choice" where
  "merge_statuses enc sha a b = status_merge enc sha (Some a) (Some b)"

interpretation sc: ranked_documents sha "merge_sidecars enc sha" "\<lambda>d. sidecar_rank_key d (own_origin d)" enc for sha enc
  by unfold_locales (simp add: merge_sidecars_def sidecar_merge_def)

interpretation st: ranked_documents sha "merge_statuses enc sha" status_rank_key enc for sha enc
  by unfold_locales (simp add: merge_statuses_def status_merge_def)

lemma claim_rank_inject: "claim_rank a = claim_rank b \<longleftrightarrow> a = b"
  by (auto simp: claim_rank_def rank_def split: option.splits record_origin.splits)

interpretation claims: semilattice claim_join
  by unfold_locales (auto simp: claim_join_def claim_rank_inject dest: claim_rank_inject [THEN iffD1, OF order_antisym])

section \<open>Records and verdicts\<close>

fun swap_side :: "side \<Rightarrow> side" where
  "swap_side SideA = SideB"
| "swap_side SideB = SideA"

fun mirrored_verdict :: "verdict \<Rightarrow> verdict" where
  "mirrored_verdict (CopyV s) = CopyV (swap_side s)"
| "mirrored_verdict (AdoptSidecar s) = AdoptSidecar (swap_side s)"
| "mirrored_verdict (Supersede s) = Supersede (swap_side s)"
| "mirrored_verdict (QuarantineLoser s) = QuarantineLoser (swap_side s)"
| "mirrored_verdict (PropagateFreeze s) = PropagateFreeze (swap_side s)"
| "mirrored_verdict v = v"

lemma conflict_winner_swap: "conflict_winner b a = map_option swap_side (conflict_winner a b)"
proof -
  have "unat ta \<noteq> unat tb" if "\<not> abs_diff ta tb \<le> CONFLICT_SKEW_MS" for ta tb
    using that by (auto simp: word_le_nat_alt unat_abs_diff)
  then show ?thesis
    using abs_diff_commute
    by (auto simp: conflict_winner_def word_less_nat_alt split: option.splits)
qed

lemma same_bytes_swap:
  assumes "\<forall>x y. rc_sidecar a = Some x \<longrightarrow> rc_sidecar b = Some y \<longrightarrow> collision_free sha {enc x, enc y}"
  shows "same_bytes enc sha b a ob oa = mirrored_verdict (same_bytes enc sha a b oa ob)"
proof (cases "rc_sidecar a")
  case (Some x)
  show ?thesis
  proof (cases "rc_sidecar b")
    case (Some y)
    then have "sidecar_merge enc sha y (Some ob) x (Some oa) = flip (sidecar_merge enc sha x (Some oa) y (Some ob))"
      using assms \<open>rc_sidecar a = Some x\<close> ranked_merge_flip unfolding sidecar_merge_def by blast
    then show ?thesis
      using Some \<open>rc_sidecar a = Some x\<close>
      by (cases "sidecar_merge enc sha x (Some oa) y (Some ob)") (simp_all add: same_bytes_def)
  qed (simp add: same_bytes_def \<open>rc_sidecar a = Some x\<close>)
qed (simp add: same_bytes_def split: option.splits)

text \<open>What two buckets agree on when nothing is owed to either.\<close>

definition agree :: "(sidecar \<Rightarrow> bytes) \<Rightarrow> file_record \<Rightarrow> file_record \<Rightarrow> bool" where
  "agree enc a b =
     (case (classify_record a, classify_record b) of
        (Frozen s, Frozen t) \<Rightarrow> s \<and> t
      | (Tombstoned s, Tombstoned t) \<Rightarrow> s \<and> t
      | (QuarantinedMirror s, QuarantinedMirror t) \<Rightarrow> s \<and> t
      | (AbsentRecord _, AbsentRecord _) \<Rightarrow> True
      | (Live h p _, Live h' p' _) \<Rightarrow>
          h = h' \<and> p = p' \<and> map_option enc (rc_sidecar a) = map_option enc (rc_sidecar b)
          \<and> map_option (\<lambda>sc. sidecar_rank_key sc (Some p)) (rc_sidecar a)
             = map_option (\<lambda>sc. sidecar_rank_key sc (Some p')) (rc_sidecar b)
      | _ \<Rightarrow> False)"

lemma classify_live_sidecar:
  "classify_record r = Live h p u \<Longrightarrow> \<exists>sc. rc_sidecar r = Some sc \<and> sha256 sc = h"
  by (auto simp: classify_record_def Let_def split: if_splits option.splits)

lemma rank_inject: "rank p = rank q \<longleftrightarrow> p = q"
  by (cases p; cases q) (simp_all add: rank_def)

lemma same_bytes_noop:
  assumes "rc_sidecar a = Some x" and "rc_sidecar b = Some y"
  shows "same_bytes enc sha a b oa ob = Noop \<longleftrightarrow>
    enc x = enc y \<and> sidecar_rank_key x (Some oa) = sidecar_rank_key y (Some ob)"
  using assms
  by (auto simp: same_bytes_def sidecar_merge_def ranked_merge_def split: merge_choice.splits if_splits)

lemma sidecar_rank_key_origin: "sidecar_rank_key x (Some p) = sidecar_rank_key y (Some q) \<Longrightarrow> p = q"
  by (simp add: sidecar_rank_key_def rank_inject)

section \<open>Properties\<close>

text \<open>
  C29: the merge decision is symmetric. Deciding from the other bucket's side names the same
  physical outcome with the sides exchanged, so two buckets that run the diff in both directions
  never undo each other. The only residual use of the digest is a tie between two sidecars of
  equal rank, so the two encodings must not collide under SHA-256.
\<close>

theorem decide_symmetric:
  assumes "\<forall>x y. rc_sidecar a = Some x \<longrightarrow> rc_sidecar b = Some y \<longrightarrow> collision_free sha {enc x, enc y}"
  shows "decide enc sha b a = mirrored_verdict (decide enc sha a b)"
proof -
  note swaps = same_bytes_swap [OF assms] conflict_winner_swap [of b a]
  show ?thesis
    unfolding decide_def
    by (cases "classify_record a"; cases "classify_record b")
      (auto simp: swaps split: bool.splits record_origin.splits option.splits)
qed

text \<open>A record of one live file, for concrete instances.\<close>

definition sample_sidecar :: "string \<Rightarrow> string \<Rightarrow> u64 \<Rightarrow> yanked \<Rightarrow> sidecar" where
  "sample_sidecar h org epoch y =
     \<lparr>sha256 = h, size = 10, version = ''1.0'', upload_time = [], upload_epoch_ms = Some (1000 * epoch),
      requires_python = None, yanked = y, origin = Some org, yank_epoch = epoch, upload_time_revision = 0,
      snapshot = False, store_checksum = None\<rparr>"

definition sample_record :: "sidecar \<Rightarrow> file_record" where
  "sample_record sc =
     \<lparr>rc_sidecar = Some sc, has_artifact = True, has_metadata = False, has_provenance = False,
      tombstoned = False, frozen = False, mirror_quarantined = False, superseding = False, pkg_origin = None\<rparr>"

definition sample_enc :: "sidecar \<Rightarrow> bytes" where
  "sample_enc sc = sha256 sc @ (case origin sc of None \<Rightarrow> [] | Some r \<Rightarrow> r)
     @ (case yanked sc of Flag True \<Rightarrow> ''T'' | Flag False \<Rightarrow> ''F'' | Reason r \<Rightarrow> r)"

theorem decide_symmetric_witness:
  "let a = sample_record (sample_sidecar ''aa'' ''private'' 1 (Flag True));
       b = sample_record (sample_sidecar ''aa'' ''private'' 1 (Flag False))
   in decide sample_enc (\<lambda>x. x) a b = AdoptSidecar SideA \<and> decide sample_enc (\<lambda>x. x) b a = AdoptSidecar SideB"
proof -
  let ?a = "sample_record (sample_sidecar ''aa'' ''private'' 1 (Flag True))"
    and ?b = "sample_record (sample_sidecar ''aa'' ''private'' 1 (Flag False))"
  have "decide sample_enc (\<lambda>x. x) ?a ?b = AdoptSidecar SideA"
    by code_simp
  then show ?thesis
    using decide_symmetric [of ?a ?b "\<lambda>x. x" sample_enc] by (simp add: collision_free_def Let_def)
qed

text \<open>
  the verdict \<open>Noop\<close>, which the upload path acknowledges as durable on the peer, is given
  exactly when the two buckets agree: both settled in the same terminal state, both without a
  record, or both holding the same bytes under equally ranked, byte-identical sidecars.
\<close>

theorem decide_noop_iff_agree: "decide enc sha a b = Noop \<longleftrightarrow> agree enc a b"
proof (cases "\<exists>h p u h' p' u'. classify_record a = Live h p u \<and> classify_record b = Live h' p' u'")
  case True
  then obtain h p u h' p' u' where live: "classify_record a = Live h p u" "classify_record b = Live h' p' u'"
    by blast
  then obtain x y where sc: "rc_sidecar a = Some x" "rc_sidecar b = Some y"
    using classify_live_sidecar by blast
  show ?thesis
    using same_bytes_noop [OF sc, of enc sha p p'] sidecar_rank_key_origin [of x p y p']
    by (auto simp: decide_def agree_def live sc split: record_origin.splits option.splits)
next
  case False
  then show ?thesis
    unfolding decide_def agree_def
    by (cases "classify_record a"; cases "classify_record b") (auto split: bool.splits record_origin.splits)
qed

definition chosen :: "side \<Rightarrow> 'a \<Rightarrow> 'a \<Rightarrow> 'a" where
  "chosen sd a b = (case sd of SideA \<Rightarrow> a | SideB \<Rightarrow> b)"

text \<open>
  no verdict fabricates truth. Whenever the decision copies, adopts, or installs one side's
  record over the other, that side holds a live record (a body with a typed sidecar), and the
  winner of a private byte conflict is the strictly older upload by more than the skew allowed.
\<close>

theorem decide_source_is_live:
  assumes "decide enc sha a b \<in> {CopyV sd, AdoptSidecar sd, Supersede sd, QuarantineLoser sd}"
  shows "(\<exists>h p u. classify_record (chosen sd a b) = Live h p u)
    \<and> (decide enc sha a b = Supersede sd \<longrightarrow> (\<exists>h u. classify_record (chosen sd a b) = Live h PrivateO u))
    \<and> (decide enc sha a b = QuarantineLoser sd \<longrightarrow>
         (\<exists>x y t t'. rc_sidecar (chosen sd a b) = Some x \<and> rc_sidecar (chosen sd b a) = Some y
            \<and> upload_epoch_ms x = Some t \<and> upload_epoch_ms y = Some t' \<and> unat t + 2000 < unat t'))"
proof -
  have skew: "unat (if ta < tb then ta else tb) + 2000 < unat (if ta < tb then tb else ta)"
    if "\<not> abs_diff ta tb \<le> CONFLICT_SKEW_MS" for ta tb :: u64
    using that by (auto simp: CONFLICT_SKEW_MS_def word_le_nat_alt word_less_nat_alt unat_abs_diff split: if_splits)
  have winner: "\<exists>x y t t'. rc_sidecar (chosen sd a b) = Some x \<and> rc_sidecar (chosen sd b a) = Some y
      \<and> upload_epoch_ms x = Some t \<and> upload_epoch_ms y = Some t' \<and> unat t + 2000 < unat t'"
    if win: "conflict_winner a b = Some sd"
  proof -
    obtain x y ta tb where *: "rc_sidecar a = Some x" "upload_epoch_ms x = Some ta" "rc_sidecar b = Some y"
      "upload_epoch_ms y = Some tb" "\<not> abs_diff ta tb \<le> CONFLICT_SKEW_MS" "sd = (if ta < tb then SideA else SideB)"
      using win by (auto simp: conflict_winner_def bind_eq_Some_conv split: option.splits if_splits)
    then show ?thesis
      using skew [OF *(5)] by (auto simp: chosen_def)
  qed
  show ?thesis
    using assms winner unfolding decide_def
    by (cases sd; cases "classify_record a"; cases "classify_record b")
      (auto simp: chosen_def same_bytes_def split: bool.splits record_origin.splits if_splits option.splits merge_choice.splits)
qed

theorem decide_source_is_live_witness:
  "let a = sample_record (sample_sidecar ''aa'' ''private'' 1 (Flag False));
       b = sample_record (sample_sidecar ''bb'' ''private'' 5 (Flag False))
   in decide sample_enc (\<lambda>x. x) a b = QuarantineLoser SideA \<and> (\<exists>h p u. classify_record a = Live h p u)"
proof -
  let ?a = "sample_record (sample_sidecar ''aa'' ''private'' 1 (Flag False))"
    and ?b = "sample_record (sample_sidecar ''bb'' ''private'' 5 (Flag False))"
  have v: "decide sample_enc (\<lambda>x. x) ?a ?b = QuarantineLoser SideA"
    by code_simp
  have "\<exists>h p u. classify_record (chosen SideA ?a ?b) = Live h p u"
    using decide_source_is_live [of sample_enc "\<lambda>x. x" ?a ?b SideA] v by simp
  then show ?thesis
    using v by (simp add: chosen_def Let_def)
qed



text \<open>
  C34: N buckets converge on one sidecar whatever order the pairs sync in. For any number of
  buckets holding sidecars of the same bytes, and any two schedules in which every two buckets
  meet at least once, all buckets end with the same sidecar encoding and rank under both. The
  encodings present in the fleet must not collide under SHA-256.
\<close>

theorem sidecars_converge_any_order:
  assumes "collision_free sha (enc ` (scs ` {..<n}))" and "covers n s1" and "covers n s2"
  shows "\<forall>i<n. \<forall>j<n.
      enc (gossip (merge_sidecars enc sha) s1 scs i) = enc (gossip (merge_sidecars enc sha) s2 scs j)
    \<and> sidecar_rank_key (gossip (merge_sidecars enc sha) s1 scs i) (own_origin (gossip (merge_sidecars enc sha) s1 scs i))
      = sidecar_rank_key (gossip (merge_sidecars enc sha) s2 scs j) (own_origin (gossip (merge_sidecars enc sha) s2 scs j))"
proof (intro allI impI)
  fix i j
  assume ij: "i < n" "j < n"
  then obtain k where "k < n" "\<forall>j<n. sc.beats enc sha (scs k) (scs j)"
    using sc.best_exists [of n enc sha scs] by auto
  then have "sc.ident enc (gossip (merge_sidecars enc sha) s1 scs i) = sc.ident enc (scs k)"
    and "sc.ident enc (gossip (merge_sidecars enc sha) s2 scs j) = sc.ident enc (scs k)"
    using sc.gossip_converges [OF assms(1)] assms(2,3) ij by blast+
  then show "enc (gossip (merge_sidecars enc sha) s1 scs i) = enc (gossip (merge_sidecars enc sha) s2 scs j)
    \<and> sidecar_rank_key (gossip (merge_sidecars enc sha) s1 scs i) (own_origin (gossip (merge_sidecars enc sha) s1 scs i))
      = sidecar_rank_key (gossip (merge_sidecars enc sha) s2 scs j) (own_origin (gossip (merge_sidecars enc sha) s2 scs j))"
    by (simp add: sc.ident_def)
qed

theorem sidecars_converge_any_order_witness:
  "let scs = (\<lambda>i. if i = 0 then sample_sidecar ''aa'' ''private'' 1 (Flag True)
                  else if i = 1 then sample_sidecar ''aa'' ''mirror'' 4 (Flag False)
                  else sample_sidecar ''aa'' ''private'' 1 (Flag False))
   in \<forall>i<3. \<forall>j<3.
        sample_enc (gossip (merge_sidecars sample_enc (\<lambda>x. x)) [(0, 1), (1, 2), (2, 0)] scs i)
        = sample_enc (gossip (merge_sidecars sample_enc (\<lambda>x. x)) [(2, 1), (0, 2), (0, 1)] scs j)"
proof -
  let ?scs = "\<lambda>i. if i = 0 then sample_sidecar ''aa'' ''private'' 1 (Flag True)
                  else if i = 1 then sample_sidecar ''aa'' ''mirror'' 4 (Flag False)
                  else sample_sidecar ''aa'' ''private'' 1 (Flag False)"
  have "covers 3 [(0, 1), (1, 2), (2, 0)]" "covers 3 [(2, 1), (0, 2), (0, 1)]"
    by (auto simp: covers_def numeral_eq_Suc less_Suc_eq)
  moreover have "collision_free (\<lambda>x. x) (sample_enc ` (?scs ` {..<3}))"
    by (simp add: collision_free_def)
  ultimately show ?thesis
    using sidecars_converge_any_order [of "\<lambda>x. x" sample_enc ?scs 3] unfolding Let_def by blast
qed

text \<open>
  merging two sidecars of the same bytes never un-yanks by accident. Between sidecars of
  equal origin rank and equal yank epoch the one kept is yanked whenever either is, and a
  timestamp repair never outranks a yank; an un-yank survives only by a strictly greater epoch
  or origin rank.
\<close>

theorem sidecar_merge_never_unyanks:
  fixes enc :: "sidecar \<Rightarrow> bytes"
  assumes "is_yanked x" and "\<not> is_yanked y"
  shows "(sidecar_merge enc sha x ox y oy = ChooseB \<longrightarrow>
        rank (case ox of None \<Rightarrow> MirrorO | Some r \<Rightarrow> r) < rank (case oy of None \<Rightarrow> MirrorO | Some r \<Rightarrow> r)
      \<or> rank (case ox of None \<Rightarrow> MirrorO | Some r \<Rightarrow> r) = rank (case oy of None \<Rightarrow> MirrorO | Some r \<Rightarrow> r)
        \<and> yank_epoch x < yank_epoch y)
    \<and> (sidecar_merge enc sha y oy x ox = ChooseA \<longrightarrow>
        rank (case ox of None \<Rightarrow> MirrorO | Some r \<Rightarrow> r) < rank (case oy of None \<Rightarrow> MirrorO | Some r \<Rightarrow> r)
      \<or> rank (case ox of None \<Rightarrow> MirrorO | Some r \<Rightarrow> r) = rank (case oy of None \<Rightarrow> MirrorO | Some r \<Rightarrow> r)
        \<and> yank_epoch x < yank_epoch y)
    \<and> sidecar_merge enc sha x ox y oy \<noteq> EqualDocs"
  using assms by (auto simp: sidecar_merge_def ranked_merge_def sidecar_rank_key_def split: if_splits)

theorem sidecar_merge_never_unyanks_witness:
  "sidecar_merge sample_enc (\<lambda>x. x) (sample_sidecar ''aa'' ''private'' 1 (Reason ''broken'')) (Some PrivateO)
     (sample_sidecar ''aa'' ''private'' 1 (Flag False)) (Some PrivateO) \<noteq> ChooseB"
proof -
  let ?x = "sample_sidecar ''aa'' ''private'' 1 (Reason ''broken'')"
    and ?y = "sample_sidecar ''aa'' ''private'' 1 (Flag False)"
  have "is_yanked ?x" "\<not> is_yanked ?y"
    by code_simp+
  then show ?thesis
    using sidecar_merge_never_unyanks [of ?x ?y sample_enc "\<lambda>x. x" "Some PrivateO" "Some PrivateO"]
    by (auto simp: sample_sidecar_def)
qed

definition operator_authored :: "stored_project_status \<Rightarrow> bool" where
  "operator_authored s = (st_origin s \<noteq> Some MirrorO)"

text \<open>
  N buckets that each hold a status event converge on one event whatever order the pairs
  sync in, and the event they converge on is fail-closed: no event it was merged with is
  operator-authored while it is a relayed one, or carries a greater epoch in the same class, or
  is more restrictive at the same epoch.
\<close>

theorem statuses_converge_fail_closed:
  assumes "collision_free sha (enc ` (sts ` {..<n}))" and "covers n sched" and "i < n" and "j < n"
  shows "enc (gossip (merge_statuses enc sha) sched sts i) = enc (gossip (merge_statuses enc sha) sched sts j)
    \<and> (let final = gossip (merge_statuses enc sha) sched sts i; e = sts j in
         (operator_authored e \<longrightarrow> operator_authored final)
       \<and> (operator_authored e = operator_authored final \<longrightarrow> st_epoch e \<le> st_epoch final)
       \<and> (operator_authored e = operator_authored final \<and> st_epoch e = st_epoch final
           \<longrightarrow> restriction (status (st_doc e)) \<le> restriction (status (st_doc final))))"
proof -
  obtain k where k: "k < n" "\<forall>j<n. st.beats enc sha (sts k) (sts j)"
    using st.best_exists [of n enc sha sts] assms(3) by auto
  note conv = st.gossip_converges [OF assms(1,2) k]
  have "status_rank_key (sts j) \<le> status_rank_key (sts k)"
    using k(2) assms(4) by (auto simp: st.beats_iff)
  moreover have "status_rank_key (gossip (merge_statuses enc sha) sched sts i) = status_rank_key (sts k)"
    using conv [OF assms(3)] by (simp add: st.ident_def)
  ultimately have key: "status_rank_key (sts j) \<le> status_rank_key (gossip (merge_statuses enc sha) sched sts i)"
    by simp
  moreover have "enc (gossip (merge_statuses enc sha) sched sts i) = enc (gossip (merge_statuses enc sha) sched sts j)"
    using conv [OF assms(3)] conv [OF assms(4)] by (simp add: st.ident_def)
  ultimately show ?thesis
    unfolding status_rank_key_def operator_authored_def Let_def by (auto simp: less_eq_prod_def)
qed

definition sample_status :: "project_status \<Rightarrow> u64 \<Rightarrow> record_origin option \<Rightarrow> stored_project_status" where
  "sample_status st e org = \<lparr>st_doc = \<lparr>status = st, reason = None\<rparr>, st_epoch = e, st_origin = org\<rparr>"

definition sample_status_enc :: "stored_project_status \<Rightarrow> bytes" where
  "sample_status_enc s = show_nat (restriction (status (st_doc s))) @ show_nat (unat (st_epoch s))
     @ (case st_origin s of None \<Rightarrow> [] | Some r \<Rightarrow> origin_as_str r)"

theorem statuses_converge_fail_closed_witness:
  "let sts = (\<lambda>i :: nat. if i = 0 then sample_status Active 5 (Some MirrorO) else sample_status Quarantined 1 (Some PrivateO))
   in operator_authored (gossip (merge_statuses sample_status_enc (\<lambda>x. x)) [(0, 1)] sts 0)"
proof -
  let ?sts = "\<lambda>i :: nat. if i = 0 then sample_status Active 5 (Some MirrorO) else sample_status Quarantined 1 (Some PrivateO)"
  have "covers 2 [(0, 1)]"
    by (auto simp: covers_def numeral_eq_Suc less_Suc_eq)
  moreover have "collision_free (\<lambda>x. x) (sample_status_enc ` (?sts ` {..<2}))"
    by (simp add: collision_free_def)
  moreover have "operator_authored (?sts 1)"
    by (simp add: operator_authored_def sample_status_def)
  ultimately show ?thesis
    using statuses_converge_fail_closed [of "\<lambda>x. x" sample_status_enc ?sts 2 "[(0, 1)]" 0 1] by (simp add: Let_def)
qed

text \<open>
  Absence is not the bottom of that order. An absent marker equals a stored epoch-zero
  \<open>active\<close> event and loses to a relayed event that the stored one beats, so after a schedule in
  which every two of three buckets met, one bucket can still serve the relayed quarantine that
  the other two have replaced. A further meeting repairs it.
\<close>

lemma status_absence_breaks_one_pass:
  fixes sts :: "nat \<Rightarrow> stored_project_status option"
  defines "sts \<equiv> (\<lambda>i. if i = 0 then None else if i = 1 then Some (sample_status Active 0 None)
                      else Some (sample_status Quarantined 5 (Some MirrorO)))"
  shows "covers 3 [(0, 1), (0, 2), (1, 2)]"
    and "gossip (status_merge enc sha) [(0, 1), (0, 2), (1, 2)] sts 0 = Some (sample_status Quarantined 5 (Some MirrorO))"
    and "gossip (status_merge enc sha) [(0, 1), (0, 2), (1, 2)] sts 2 = Some (sample_status Active 0 None)"
  by (auto simp: covers_def numeral_eq_Suc less_Suc_eq gossip_def meet_def status_merge_def sts_def
      is_default_status_def default_status_doc_def sample_status_def ranked_merge_def status_rank_key_def)

text \<open>
  the two markers read alone decide the fence. \<open>fenced_by_markers\<close> holds exactly when a
  tombstone or a freeze stands, and then no record under them is ever listed, whatever its body,
  sidecar or package claim; a late mirror record under a private claim is not listed either.
\<close>

theorem fence_hides_record:
  "fenced_by_markers t f = (t \<or> f)
    \<and> (fenced_by_markers (tombstoned r) (frozen r) \<longrightarrow> \<not> listed r claim)
    \<and> (listed r claim \<longrightarrow> has_artifact r \<and> rc_sidecar r \<noteq> None
         \<and> (claim = Some PrivateO \<longrightarrow> record_origin_of r \<noteq> Some MirrorO))"
proof -
  have "fenced_by_markers t f = (t \<or> f)" for t f
    by (simp add: fenced_by_markers_def classify_record_def)
  then show ?thesis
    by (auto simp: listed_def is_late_mirror_def classify_record_def Let_def
        split: if_splits option.splits record_origin.splits record_state.splits)
qed

theorem fence_hides_record_witness:
  "listed (sample_record (sample_sidecar ''aa'' ''private'' 0 (Flag False))) (Some PrivateO)
   \<and> \<not> listed (sample_record (sample_sidecar ''aa'' ''private'' 0 (Flag False))\<lparr>tombstoned := True\<rparr>) (Some PrivateO)"
proof -
  let ?r = "sample_record (sample_sidecar ''aa'' ''private'' 0 (Flag False))"
  have "fenced_by_markers (tombstoned (?r\<lparr>tombstoned := True\<rparr>)) (frozen (?r\<lparr>tombstoned := True\<rparr>))"
    using fence_hides_record [of True False] by (simp add: sample_record_def)
  moreover have "listed ?r (Some PrivateO)"
    by code_simp
  ultimately show ?thesis
    using fence_hides_record [of True False "?r\<lparr>tombstoned := True\<rparr>" "Some PrivateO"] by blast
qed

end
