(* ===== verification/Project_Status.thy ===== *)
theory Project_Status
  imports Decide
begin

text \<open>
  The storage side of \<open>src/status.rs\<close>: reading, writing and reconciling a package's PEP 792
  status marker. \<open>serde_json\<close> at the stored envelope and at the plain document is the parameter
  \<open>C\<close>; the document types and \<open>status_merge\<close> are in the theory \<open>Decide\<close>.
\<close>

section \<open>Definitions\<close>

record status_codec =
  enc_status :: "stored_project_status \<Rightarrow> bytes"
  dec_status :: "bytes \<Rightarrow> stored_project_status option"
  enc_status_doc :: "project_status_doc \<Rightarrow> bytes"

definition STATUS_CAS_ATTEMPTS :: nat where "STATUS_CAS_ATTEMPTS = 8"

definition status_key :: "string \<Rightarrow> string" where
  "status_key pkg = PACKAGES_PREFIX @ pkg @ ''/.project-status.json''"

definition read_status :: "status_codec \<Rightarrow> bucket_id \<Rightarrow> string \<Rightarrow> project_status_doc act" where
  "read_status C b pkg =
     onResult (get_bytes b (status_key pkg))
       (\<lambda>e. if is_not_found e then ret default_status_doc else fail e)
       (\<lambda>bs. case dec_status C bs of
               None \<Rightarrow> fail (Bail ''corrupt project status'')
             | Some stored \<Rightarrow> ret (st_doc stored))"

definition write_status :: "(bytes \<Rightarrow> bytes) \<Rightarrow> status_codec \<Rightarrow> bucket_id \<Rightarrow> string \<Rightarrow> project_status_doc \<Rightarrow> unit act" where
  "write_status sha C b pkg doc = put_bytes sha b (status_key pkg) (enc_status_doc C doc)"

definition clear_status :: "(bytes \<Rightarrow> bytes) \<Rightarrow> bucket_id \<Rightarrow> string \<Rightarrow> unit act" where
  "clear_status sha b pkg = delete_keys sha b [status_key pkg]"

definition read_status_versioned ::
  "status_codec \<Rightarrow> bucket_id \<Rightarrow> string \<Rightarrow> versioned_project_status option act" where
  "read_status_versioned C b pkg =
     andThen (get_with_etag b (status_key pkg)) (\<lambda>r.
       case r of
         None \<Rightarrow> ret None
       | Some (bs, tag) \<Rightarrow>
           (case dec_status C bs of
              None \<Rightarrow> fail (Bail ''corrupt project status'')
            | Some stored \<Rightarrow>
                ret (Some \<lparr>st_doc = st_doc stored, st_epoch = st_epoch stored, st_origin = st_origin stored,
                           st_etag = tag\<rparr>)))"

definition stored_part :: "versioned_project_status \<Rightarrow> stored_project_status" where
  "stored_part v = \<lparr>st_doc = st_doc v, st_epoch = st_epoch v, st_origin = st_origin v\<rparr>"

definition put_status_if_version ::
  "(bytes \<Rightarrow> bytes) \<Rightarrow> status_codec \<Rightarrow> bucket_id \<Rightarrow> string \<Rightarrow> string option \<Rightarrow> project_status_doc \<Rightarrow> u64
    \<Rightarrow> record_origin option \<Rightarrow> bool act" where
  "put_status_if_version sha C b pkg expected doc epoch org =
     (let bs = enc_status C \<lparr>st_doc = doc, st_epoch = epoch, st_origin = org\<rparr> in
      case expected of
        Some tag \<Rightarrow> andThen (put_if_match sha b (status_key pkg) tag bs) (\<lambda>r. ret (r \<noteq> None))
      | None \<Rightarrow> andThen (put_if_none_match sha b (status_key pkg) bs) (\<lambda>r. ret (r \<noteq> None)))"

text \<open>The compare-and-swap loop; \<open>n\<close> is the attempts left.\<close>

fun advance_loop ::
  "(bytes \<Rightarrow> bytes) \<Rightarrow> status_codec \<Rightarrow> bucket_id \<Rightarrow> string \<Rightarrow> project_status_doc \<Rightarrow> record_origin option
    \<Rightarrow> (stored_project_status option \<Rightarrow> bool) \<Rightarrow> nat \<Rightarrow> u64 option act" where
  "advance_loop sha C b pkg doc org keep 0 = fail (Bail ''could not update project status'')"
| "advance_loop sha C b pkg doc org keep (Suc n) =
     andThen (read_status_versioned C b pkg) (\<lambda>current.
       if \<not> keep (map_option stored_part current) then ret None
       else
         (let epoch = (case current of None \<Rightarrow> 1 | Some v \<Rightarrow> saturating_add (st_epoch v) 1) in
          andThen (put_status_if_version sha C b pkg (map_option st_etag current) doc epoch org) (\<lambda>won.
            if won then ret (Some epoch) else advance_loop sha C b pkg doc org keep n)))"

definition advance_status_if ::
  "(bytes \<Rightarrow> bytes) \<Rightarrow> status_codec \<Rightarrow> bucket_id \<Rightarrow> string \<Rightarrow> project_status_doc \<Rightarrow> record_origin option
    \<Rightarrow> (stored_project_status option \<Rightarrow> bool) \<Rightarrow> u64 option act" where
  "advance_status_if sha C b pkg doc org keep = advance_loop sha C b pkg doc org keep STATUS_CAS_ATTEMPTS"

definition advance_status ::
  "(bytes \<Rightarrow> bytes) \<Rightarrow> status_codec \<Rightarrow> bucket_id \<Rightarrow> string \<Rightarrow> project_status_doc \<Rightarrow> record_origin option \<Rightarrow> u64 act" where
  "advance_status sha C b pkg doc org =
     andThen (advance_status_if sha C b pkg doc org (\<lambda>_. True)) (\<lambda>r.
       case r of None \<Rightarrow> fail (Bail ''unconditional status write was declined'') | Some e \<Rightarrow> ret e)"

datatype status_convergence = InSync | UpdatedLeft | UpdatedRight

fun reconcile_loop ::
  "(bytes \<Rightarrow> bytes) \<Rightarrow> status_codec \<Rightarrow> bucket_id \<Rightarrow> bucket_id \<Rightarrow> string \<Rightarrow> nat \<Rightarrow> status_convergence act" where
  "reconcile_loop sha C lb rb pkg 0 = fail (Bail ''could not reconcile project status'')"
| "reconcile_loop sha C lb rb pkg (Suc n) =
     andThen (read_status_versioned C lb pkg) (\<lambda>left.
     andThen (read_status_versioned C rb pkg) (\<lambda>right.
       case status_merge (enc_status C) sha (map_option stored_part left) (map_option stored_part right) of
         EqualDocs \<Rightarrow> ret InSync
       | ChooseA \<Rightarrow>
           (case left of
              None \<Rightarrow> fail (Bail ''status merge selected an absent left winner'')
            | Some winner \<Rightarrow>
                andThen (put_status_if_version sha C rb pkg (map_option st_etag right)
                           (st_doc winner) (st_epoch winner) (st_origin winner)) (\<lambda>won.
                  if won then ret UpdatedRight else reconcile_loop sha C lb rb pkg n))
       | ChooseB \<Rightarrow>
           (case right of
              None \<Rightarrow> fail (Bail ''status merge selected an absent right winner'')
            | Some winner \<Rightarrow>
                andThen (put_status_if_version sha C lb pkg (map_option st_etag left)
                           (st_doc winner) (st_epoch winner) (st_origin winner)) (\<lambda>won.
                  if won then ret UpdatedLeft else reconcile_loop sha C lb rb pkg n))))"

definition reconcile_status_pair ::
  "(bytes \<Rightarrow> bytes) \<Rightarrow> status_codec \<Rightarrow> bucket_id \<Rightarrow> bucket_id \<Rightarrow> string \<Rightarrow> status_convergence act" where
  "reconcile_status_pair sha C lb rb pkg = reconcile_loop sha C lb rb pkg STATUS_CAS_ATTEMPTS"

subsection \<open>What a bucket says\<close>

text \<open>The abstract state: per bucket, unreadable, or the stored event if any.\<close>

definition status_at :: "status_codec \<Rightarrow> inner \<Rightarrow> string \<Rightarrow> stored_project_status option res" where
  "status_at C s pkg =
     (case object_at s (status_key pkg) of
        None \<Rightarrow> Inr None
      | Some ob \<Rightarrow>
          (case dec_status C (obj_bytes ob) of
             None \<Rightarrow> Inl (Bail ''corrupt project status'')
           | Some st \<Rightarrow> Inr (Some st)))"

definition status_json_ok :: "status_codec \<Rightarrow> bool" where
  "status_json_ok C = (\<forall>s. dec_status C (enc_status C s) = Some s)"

section \<open>Undisturbed reads and writes\<close>

lemma status_key_not_artifact [simp]: "\<not> is_canonical_artifact (status_key pkg)"
proof -
  have "split_once (pkg @ ''/.project-status.json'') (CHR ''/'') = Some (a, f) \<Longrightarrow>
      CHR ''/'' \<in> set f \<or> f = ''.project-status.json''" for a f
  proof (induction pkg arbitrary: a)
    case (Cons c cs)
    then show ?case
      by (cases "c = CHR ''/''") (auto split: option.splits)
  qed simp
  moreover have "\<not> is_artifact ''.project-status.json''"
    by (simp add: is_artifact_def)
  ultimately show ?thesis
    unfolding is_canonical_artifact_def split_artifact_key_def status_key_def PACKAGES_PREFIX_def strip_prefix_append
    by (fastforce split: option.splits)
qed

lemma stored_part_simps [simp]:
  "stored_part \<lparr>st_doc = d, st_epoch = e, st_origin = p, st_etag = t\<rparr> = \<lparr>st_doc = d, st_epoch = e, st_origin = p\<rparr>"
  by (simp add: stored_part_def)

lemma stored_eta [simp]:
  "\<lparr>st_doc = st_doc s, st_epoch = st_epoch s, st_origin = st_origin s\<rparr> = (s :: stored_project_status)"
  by simp

lemma read_status_versioned_quiet:
  assumes "script w = []"
  shows "read_status_versioned C b pkg w =
    (case status_at C (buckets w b) pkg of
       Inl e \<Rightarrow> (Inl e, w)
     | Inr None \<Rightarrow> (Inr None, w)
     | Inr (Some st) \<Rightarrow>
         (Inr (Some \<lparr>st_doc = st_doc st, st_epoch = st_epoch st, st_origin = st_origin st,
                     st_etag = obj_etag (the (object_at (buckets w b) (status_key pkg)))\<rparr>), w))"
  using assms
  by (auto simp: read_status_versioned_def status_at_def andThen_def quiet_simps lookup_tagged_def ret_def fail_def
      split: option.splits)

lemma status_at_store:
  assumes "dec_status C bs = Some st"
  shows "status_at C (snd (store sha (status_key pkg) bs s)) pkg = Inr (Some st)"
  using assms by (simp add: status_at_def object_at_store)

text \<open>A write conditioned on what was just read wins, and moves one bucket's status only.\<close>

lemma put_status_quiet:
  assumes "script w = []" and "store_wf (buckets w b)" and "next_version (buckets w b) < 2 ^ 64"
    and "status_at C (buckets w b) pkg = Inr cur" and "status_json_ok C"
    and "expected = map_option (\<lambda>_. obj_etag (the (object_at (buckets w b) (status_key pkg)))) cur"
  obtains w' where "put_status_if_version sha C b pkg expected doc e org w = (Inr True, w')"
    and "script w' = []" and "\<And>b'. b' \<noteq> b \<Longrightarrow> buckets w' b' = buckets w b'"
    and "status_at C (buckets w' b) pkg = Inr (Some \<lparr>st_doc = doc, st_epoch = e, st_origin = org\<rparr>)"
    and "store_wf (buckets w' b)" and "next_version (buckets w' b) = next_version (buckets w b) + 1"
proof -
  let ?s = "buckets w b" and ?key = "status_key pkg"
  let ?bs = "enc_status C \<lparr>st_doc = doc, st_epoch = e, st_origin = org\<rparr>"
  define w' where "w' = w\<lparr>buckets := (buckets w)(b := snd (store sha ?key ?bs ?s))\<rparr>"
  have "put_status_if_version sha C b pkg expected doc e org w = (Inr True, w')"
  proof (cases "object_at ?s ?key")
    case None
    then have "cur = None"
      using assms(4) by (simp add: status_at_def)
    then show ?thesis
      using assms(1,6) None
      by (simp add: put_status_if_version_def andThen_def quiet_simps ret_def contains_key_def w'_def)
  next
    case (Some ob)
    then obtain st where "cur = Some st"
      using assms(4) by (cases "dec_status C (obj_bytes ob)") (auto simp: status_at_def)
    then have exp: "expected = Some (obj_etag ob)"
      using assms(6) Some by simp
    have at: "lookup_tagged ?s ?key = Some (obj_bytes ob, obj_etag ob)"
      using Some by (simp add: lookup_tagged_def)
    then have "versioned (obj_etag ob)"
      using versioned_lookup [OF assms(2) _ at] assms(3) by simp
    then show ?thesis
      using assms(1) at exp
      by (simp add: put_status_if_version_def andThen_def quiet_simps ret_def w'_def)
  qed
  moreover have "status_at C (buckets w' b) pkg = Inr (Some \<lparr>st_doc = doc, st_epoch = e, st_origin = org\<rparr>)"
    using assms(5) by (simp add: w'_def status_at_store status_json_ok_def)
  ultimately show ?thesis
    using that assms(1,2) by (simp add: w'_def store_wf_store next_version_store)
qed

section \<open>Reconciliation refines the pairwise merge\<close>

lemma status_merge_winner:
  "status_merge enc sha a b = ChooseA \<Longrightarrow> a \<noteq> None" "status_merge enc sha a b = ChooseB \<Longrightarrow> b \<noteq> None"
  by (auto simp: status_merge_def split: option.splits if_splits)

lemma reconcile_refines_meet:
  assumes "script w = []" and "\<forall>b\<in>{lb, rb}. store_wf (buckets w b)"
    and "\<forall>b\<in>{lb, rb}. next_version (buckets w b) < 2 ^ 64"
    and "status_json_ok C" and "\<forall>b\<in>{lb, rb}. status_at C (buckets w b) pkg = Inr (sts b)"
  shows "\<exists>c w'. reconcile_status_pair sha C lb rb pkg w = (Inr c, w') \<and> script w' = []
    \<and> (\<forall>b. status_at C (buckets w' b) pkg =
        (if b \<in> {lb, rb} then Inr (meet (status_merge (enc_status C) sha) (lb, rb) sts b)
         else status_at C (buckets w b) pkg))
    \<and> (\<forall>b. store_wf (buckets w b) \<longrightarrow> store_wf (buckets w' b))
    \<and> (\<forall>b. next_version (buckets w' b) \<le> next_version (buckets w b) + 1)
    \<and> (c = InSync \<longleftrightarrow> status_merge (enc_status C) sha (sts lb) (sts rb) = EqualDocs)"
    (is "\<exists>c w'. ?ok c w'")
proof -
  let ?m = "status_merge (enc_status C) sha"
  let ?tag = "\<lambda>b. obj_etag (the (object_at (buckets w b) (status_key pkg)))"
  define v where "v = (\<lambda>b. map_option (\<lambda>st. \<lparr>st_doc = st_doc st, st_epoch = st_epoch st, st_origin = st_origin st, st_etag = ?tag b\<rparr>) (sts b))"
  have read: "read_status_versioned C b pkg w = (Inr (v b), w)" if "b \<in> {lb, rb}" for b
    using bspec [OF assms(5) that] by (simp add: read_status_versioned_quiet [OF assms(1)] v_def split: option.splits)
  have part: "map_option stored_part (v b) = sts b" for b
    by (cases "sts b") (simp_all add: v_def)
  have tags: "map_option st_etag (v b) = map_option (\<lambda>_. ?tag b) (sts b)" for b
    by (cases "sts b") (simp_all add: v_def)
  have v: "v b = Some \<lparr>st_doc = st_doc st, st_epoch = st_epoch st, st_origin = st_origin st, st_etag = ?tag b\<rparr>"
    if "sts b = Some st" for b st
    using that by (simp add: v_def)
  have unfold: "reconcile_status_pair sha C lb rb pkg w = reconcile_loop sha C lb rb pkg (Suc 7) w"
    by (simp add: reconcile_status_pair_def STATUS_CAS_ATTEMPTS_def numeral_eq_Suc)
  have put: "\<exists>c w'. ?ok c w'"
    if win: "sts win = Some st" and sides: "win \<in> {lb, rb}" "lose \<in> {lb, rb}"
      and run: "\<And>w'. put_status_if_version sha C lose pkg (map_option st_etag (v lose)) (st_doc st) (st_epoch st) (st_origin st) w
            = (Inr True, w') \<Longrightarrow> reconcile_status_pair sha C lb rb pkg w = (Inr c, w')"
      and m: "meet ?m (lb, rb) sts = sts(lose := sts win)" "?m (sts lb) (sts rb) \<noteq> EqualDocs" "c \<noteq> InSync" for win lose st c
  proof -
    obtain w' where w': "put_status_if_version sha C lose pkg (map_option st_etag (v lose)) (st_doc st) (st_epoch st) (st_origin st) w = (Inr True, w')"
      and rest: "script w' = []" "\<And>b'. b' \<noteq> lose \<Longrightarrow> buckets w' b' = buckets w b'"
        "status_at C (buckets w' lose) pkg = Inr (Some \<lparr>st_doc = st_doc st, st_epoch = st_epoch st, st_origin = st_origin st\<rparr>)"
        "store_wf (buckets w' lose)" "next_version (buckets w' lose) = next_version (buckets w lose) + 1"
      using put_status_quiet [OF assms(1) assms(2,3,5) [THEN bspec, OF sides(2)] assms(4) tags] by blast
    have "status_at C (buckets w' b) pkg = (if b \<in> {lb, rb} then Inr (meet ?m (lb, rb) sts b) else status_at C (buckets w b) pkg)" for b
      using rest(2,3) win sides assms(5) unfolding m(1) by (cases "b = lose") auto
    moreover have "store_wf (buckets w b) \<Longrightarrow> store_wf (buckets w' b)"
      and "next_version (buckets w' b) \<le> next_version (buckets w b) + 1" for b
      using rest by (cases "b = lose"; simp)+
    ultimately show ?thesis
      using run [OF w'] rest(1) m(2,3) by blast
  qed
  show ?thesis
  proof (cases "?m (sts lb) (sts rb)")
    case ChooseA
    then obtain st where st: "sts lb = Some st"
      using status_merge_winner(1) by blast
    show ?thesis
    proof (rule put [of lb st rb UpdatedRight])
      show "reconcile_status_pair sha C lb rb pkg w = (Inr UpdatedRight, w')"
        if "put_status_if_version sha C rb pkg (map_option st_etag (v rb)) (st_doc st) (st_epoch st) (st_origin st) w = (Inr True, w')" for w'
        unfolding unfold reconcile_loop.simps using that ChooseA st
        by (simp add: andThen_def read ret_def part v [OF st])
    qed (use ChooseA st in \<open>auto simp: meet_def\<close>)
  next
    case ChooseB
    then obtain st where st: "sts rb = Some st"
      using status_merge_winner(2) by blast
    show ?thesis
    proof (rule put [of rb st lb UpdatedLeft])
      show "reconcile_status_pair sha C lb rb pkg w = (Inr UpdatedLeft, w')"
        if "put_status_if_version sha C lb pkg (map_option st_etag (v lb)) (st_doc st) (st_epoch st) (st_origin st) w = (Inr True, w')" for w'
        unfolding unfold reconcile_loop.simps using that ChooseB st
        by (simp add: andThen_def read ret_def part v [OF st])
    qed (use ChooseB st in \<open>auto simp: meet_def\<close>)
  next
    case EqualDocs
    have "reconcile_status_pair sha C lb rb pkg w = (Inr InSync, w)"
      unfolding unfold reconcile_loop.simps using EqualDocs
      by (simp add: andThen_def read ret_def part)
    then show ?thesis
      using assms(1,5) EqualDocs by (auto simp: meet_def)
  qed
qed

fun run_reconciles :: "(bytes \<Rightarrow> bytes) \<Rightarrow> status_codec \<Rightarrow> string \<Rightarrow> (nat \<times> nat) list \<Rightarrow> unit act" where
  "run_reconciles sha C pkg [] = ret ()"
| "run_reconciles sha C pkg (p # ps) =
     andThen (reconcile_status_pair sha C (fst p) (snd p) pkg) (\<lambda>_. run_reconciles sha C pkg ps)"

lemma run_refines_gossip:
  assumes "script w = []" and "\<And>b. b < n \<Longrightarrow> store_wf (buckets w b)"
    and "\<And>b. b < n \<Longrightarrow> next_version (buckets w b) + length sched < 2 ^ 64"
    and "status_json_ok C" and "\<And>b. b < n \<Longrightarrow> status_at C (buckets w b) pkg = Inr (sts b)"
    and "\<forall>p\<in>set sched. fst p < n \<and> snd p < n"
  shows "\<exists>w'. run_reconciles sha C pkg sched w = (Inr (), w')
    \<and> (\<forall>b<n. status_at C (buckets w' b) pkg = Inr (gossip (status_merge (enc_status C) sha) sched sts b))"
  using assms
proof (induction sched arbitrary: w sts)
  case Nil
  then show ?case
    by (simp add: ret_def gossip_def)
next
  case (Cons p ps)
  let ?m = "status_merge (enc_status C) sha"
  have p: "fst p < n" "snd p < n"
    using Cons.prems(6) by auto
  have ver0: "next_version (buckets w b) < 2 ^ 64" if "b < n" for b
    using Cons.prems(3) [OF that] by simp
  have side: "\<forall>b\<in>{fst p, snd p}. store_wf (buckets w b)" "\<forall>b\<in>{fst p, snd p}. next_version (buckets w b) < 2 ^ 64"
    "\<forall>b\<in>{fst p, snd p}. status_at C (buckets w b) pkg = Inr (sts b)"
    using p Cons.prems(2,5) ver0 by simp_all
  obtain c w1 where run: "reconcile_status_pair sha C (fst p) (snd p) pkg w = (Inr c, w1)" and quiet: "script w1 = []"
    and at: "\<forall>b. status_at C (buckets w1 b) pkg =
        (if b \<in> {fst p, snd p} then Inr (meet ?m (fst p, snd p) sts b) else status_at C (buckets w b) pkg)"
    and wf: "\<forall>b. store_wf (buckets w b) \<longrightarrow> store_wf (buckets w1 b)"
    and ver: "\<forall>b. next_version (buckets w1 b) \<le> next_version (buckets w b) + 1"
    using reconcile_refines_meet [where w = w and lb = "fst p" and rb = "snd p" and sts = sts and sha = sha,
        OF Cons.prems(1) side(1,2) Cons.prems(4) side(3)] by (elim exE conjE)
  have other: "meet ?m p sts b = sts b" if "b \<notin> {fst p, snd p}" for b
    using that by (auto simp: meet_def split: merge_choice.splits)
  have "\<exists>w'. run_reconciles sha C pkg ps w1 = (Inr (), w')
    \<and> (\<forall>b<n. status_at C (buckets w' b) pkg = Inr (gossip ?m ps (meet ?m p sts) b))"
  proof (rule Cons.IH [OF quiet])
    fix b
    assume "b < n"
    then show "store_wf (buckets w1 b)" and "next_version (buckets w1 b) + length ps < 2 ^ 64"
      using wf Cons.prems(2) Cons.prems(3) [of b] spec [OF ver, of b] by auto
    show "status_at C (buckets w1 b) pkg = Inr (meet ?m p sts b)"
      using spec [OF at, of b] other [of b] Cons.prems(5) [OF \<open>b < n\<close>] by auto
  qed (use Cons.prems(4,6) in auto)
  then show ?case
    using run by (auto simp: andThen_def gossip_def)
qed

lemma gossip_Some:
  "gossip (status_merge enc sha) sched (\<lambda>i. Some (f i)) = (\<lambda>i. Some (gossip (merge_statuses enc sha) sched f i))"
proof (induction sched arbitrary: f)
  case (Cons p ps)
  have "meet (status_merge enc sha) p (\<lambda>i. Some (f i)) = (\<lambda>i. Some (meet (merge_statuses enc sha) p f i))"
    by (auto simp: meet_def merge_statuses_def fun_eq_iff split: merge_choice.splits)
  then show ?case
    using Cons.IH by (simp add: gossip_def)
qed (simp add: gossip_def)

section \<open>A concrete codec\<close>

text \<open>An injective encoding of the stored envelope: it shows that \<open>status_json_ok\<close> can hold.\<close>

definition origin_tag :: "record_origin option \<Rightarrow> char" where
  "origin_tag r = (case r of None \<Rightarrow> CHR ''n'' | Some PrivateO \<Rightarrow> CHR ''p'' | Some MirrorO \<Rightarrow> CHR ''m'')"

definition status_tag :: "project_status \<Rightarrow> char" where
  "status_tag st = (case st of Active \<Rightarrow> CHR ''a'' | Archived \<Rightarrow> CHR ''r'' | Quarantined \<Rightarrow> CHR ''q'' | Deprecated \<Rightarrow> CHR ''d'')"

definition plain_enc :: "stored_project_status \<Rightarrow> bytes" where
  "plain_enc s = [status_tag (status (st_doc s)), origin_tag (st_origin s)] @ show_nat (unat (st_epoch s)) @ ''/''
     @ (case reason (st_doc s) of None \<Rightarrow> [] | Some r \<Rightarrow> CHR ''='' # r)"

fun plain_dec :: "bytes \<Rightarrow> stored_project_status option" where
  "plain_dec (a # b # rest) =
     (case split_once rest (CHR ''/'') of
        None \<Rightarrow> None
      | Some (d, r) \<Rightarrow>
          Some \<lparr>st_doc = \<lparr>status = (if a = CHR ''a'' then Active else if a = CHR ''r'' then Archived
                                   else if a = CHR ''q'' then Quarantined else Deprecated),
                        reason = (if r = [] then None else Some (tl r))\<rparr>,
                st_epoch = of_nat (digits_val d),
                st_origin = (if b = CHR ''n'' then None else if b = CHR ''p'' then Some PrivateO else Some MirrorO)\<rparr>)"
| "plain_dec _ = None"

definition plain_status_codec :: status_codec where
  "plain_status_codec =
     \<lparr>enc_status = plain_enc, dec_status = plain_dec,
      enc_status_doc = (\<lambda>d. plain_enc \<lparr>st_doc = d, st_epoch = 0, st_origin = None\<rparr>)\<rparr>"

lemma plain_status_codec_ok: "status_json_ok plain_status_codec"
  unfolding status_json_ok_def
proof
  fix s
  have slash: "CHR ''/'' \<notin> set (show_nat n)" for n
    using show_nat_digits [of n] by (auto simp: list_all_iff is_ascii_digit_def)
  have "split_once (show_nat n @ CHR ''/'' # r) (CHR ''/'') = Some (show_nat n, r)" for n r
    using slash by (rule split_once_append)
  then show "dec_status plain_status_codec (enc_status plain_status_codec s) = Some s"
    by (cases "status (st_doc s)"; cases "reason (st_doc s)")
      (auto simp: plain_status_codec_def plain_enc_def status_tag_def origin_tag_def digits_val_show_nat
        split: option.splits record_origin.splits)
qed

section \<open>Properties\<close>


text \<open>Three buckets with three different events.\<close>

definition sample_fleet :: "nat \<Rightarrow> inner" where
  "sample_fleet b = snd (store (\<lambda>x. x) (status_key ''six'')
     (plain_enc (if b = 0 then sample_status Active 3 (Some MirrorO)
                 else if b = 1 then sample_status Quarantined 1 (Some PrivateO)
                 else sample_status Archived 1 None)) (inner_default 0))"


text \<open>
  an undisturbed status change is one epoch ahead of what it replaced. \<open>advance_status_if\<close>
  fails without a write on an unreadable marker, declines without a write when the caller's
  predicate rejects the current event, and otherwise stores exactly the new document under epoch
  1 or one more than the current epoch, saturating at the largest \<open>u64\<close>.
\<close>

theorem advance_status_next_epoch:
  assumes "status_json_ok C" and "script w = []" and "store_wf (buckets w b)" and "next_version (buckets w b) < 2 ^ 64"
  shows "case status_at C (buckets w b) pkg of
      Inl e \<Rightarrow> advance_status_if sha C b pkg doc org keep w = (Inl e, w)
    | Inr cur \<Rightarrow>
        if \<not> keep cur then advance_status_if sha C b pkg doc org keep w = (Inr None, w)
        else \<exists>e w'. advance_status_if sha C b pkg doc org keep w = (Inr (Some e), w')
          \<and> status_at C (buckets w' b) pkg = Inr (Some \<lparr>st_doc = doc, st_epoch = e, st_origin = org\<rparr>)
          \<and> (case cur of None \<Rightarrow> e = 1 | Some st \<Rightarrow> if st_epoch st = - 1 then e = - 1 else st_epoch st < e \<and> e = st_epoch st + 1)"
proof -
  have unfold: "advance_status_if sha C b pkg doc org keep w = advance_loop sha C b pkg doc org keep (Suc 7) w"
    by (simp add: advance_status_if_def STATUS_CAS_ATTEMPTS_def numeral_eq_Suc)
  note read = read_status_versioned_quiet [OF assms(2), of C b pkg]
  show ?thesis
  proof (cases "status_at C (buckets w b) pkg")
    case (Inl e)
    then show ?thesis
      unfolding unfold advance_loop.simps using read by (simp add: andThen_def)
  next
    case (Inr cur)
    let ?tag = "obj_etag (the (object_at (buckets w b) (status_key pkg)))"
    let ?e = "case cur of None \<Rightarrow> 1 | Some v \<Rightarrow> saturating_add (st_epoch v) 1"
    obtain w' where put: "put_status_if_version sha C b pkg (map_option (\<lambda>_. ?tag) cur) doc ?e org w = (Inr True, w')"
      and at: "status_at C (buckets w' b) pkg = Inr (Some \<lparr>st_doc = doc, st_epoch = ?e, st_origin = org\<rparr>)"
      using put_status_quiet [OF assms(2-4) Inr assms(1) refl, of sha doc ?e org] by blast
    have run: "keep cur \<Longrightarrow> advance_status_if sha C b pkg doc org keep w = (Inr (Some ?e), w')"
      "\<not> keep cur \<Longrightarrow> advance_status_if sha C b pkg doc org keep w = (Inr None, w)"
      unfolding unfold advance_loop.simps using read Inr put
      by (cases cur; simp add: andThen_def Let_def ret_def)+
    have "case cur of None \<Rightarrow> ?e = 1 | Some st \<Rightarrow> if st_epoch st = - 1 then ?e = - 1 else st_epoch st < ?e \<and> ?e = st_epoch st + 1"
    proof (cases cur)
      case (Some st)
      then show ?thesis
        using saturating_add_one [of "st_epoch st"] unfolding Some option.case by (simp only: split: if_splits)
    qed simp
    then show ?thesis
      using Inr run at by auto
  qed
qed

theorem advance_status_next_epoch_witness:
  "\<exists>e w'. advance_status_if (\<lambda>x. x) plain_status_codec 1 ''six'' default_status_doc (Some PrivateO) (\<lambda>_. True)
      (quiet sample_fleet) = (Inr (Some e), w') \<and> (1 :: u64) < e"
proof -
  have "dec_status plain_status_codec (plain_enc (sample_status Quarantined 1 (Some PrivateO))) = Some (sample_status Quarantined 1 (Some PrivateO))"
    using plain_status_codec_ok by (simp add: status_json_ok_def plain_status_codec_def)
  from status_at_store [OF this] have at: "status_at plain_status_codec (buckets (quiet sample_fleet) 1) ''six'' = Inr (Some (sample_status Quarantined 1 (Some PrivateO)))"
    by (simp add: quiet_def sample_fleet_def)
  have "store_wf (sample_fleet 1)" "next_version (sample_fleet 1) < 2 ^ 64"
    by (simp_all add: sample_fleet_def store_wf_store store_wf_default next_version_store)
  then show ?thesis
    using advance_status_next_epoch [OF plain_status_codec_ok, where w = "quiet sample_fleet" and b = 1 and pkg = "''six''"
        and sha = "\<lambda>x. x" and doc = default_status_doc and org = "Some PrivateO" and keep = "\<lambda>_. True"] at
    by (auto simp: quiet_def sample_status_def)
qed

end
