(* ===== verification/Http_Range.thy ===== *)
theory Http_Range
  imports Prelude
begin

text \<open>
  \<open>src/range.rs\<close>: the HTTP \<open>Range\<close> header resolved against an object's size, and the size of the
  read buffer. Sizes and offsets are \<open>u64\<close> words; \<open>usize\<close> is 64 bits wide.
\<close>

section \<open>Definitions\<close>

datatype range_spec = Full | Partial u64 u64 | Unsatisfiable

definition parse_range :: "string option \<Rightarrow> u64 \<Rightarrow> range_spec" where
  "parse_range header sz =
     (case Option.bind header (\<lambda>h. strip_prefix h ''bytes='') of
        None \<Rightarrow> Full
      | Some raw \<Rightarrow>
          (let spec = trim raw in
           if CHR '','' \<in> set spec then Full
           else (case strip_prefix spec ''-'' of
              Some suffix \<Rightarrow>
                (case parse_u64 suffix of
                   None \<Rightarrow> Full
                 | Some n \<Rightarrow>
                     if n = 0 \<or> sz = 0 then Unsatisfiable
                     else (let m = min n sz in Partial (sz - m) (sz - 1)))
            | None \<Rightarrow>
                (case split_once spec (CHR ''-'') of
                   None \<Rightarrow> Full
                 | Some (start_s, end_s) \<Rightarrow>
                     (case parse_u64 start_s of
                        None \<Rightarrow> Full
                      | Some start \<Rightarrow>
                          if start \<ge> sz then Unsatisfiable
                          else if end_s = [] then Partial start (sz - 1)
                          else (case parse_u64 end_s of
                                  None \<Rightarrow> Full
                                | Some e \<Rightarrow> if e \<ge> start then Partial start (min e (sz - 1)) else Full))))))"

definition read_capacity :: "u64 \<Rightarrow> u64" where
  "read_capacity len = max 1 (min len (64 * 1024))"

section \<open>Headers the theorem spells out\<close>

lemma unat_of_nat_u64: "n < 2 ^ 64 \<Longrightarrow> unat (of_nat n :: u64) = n"
  by (simp add: unat_of_nat take_bit_nat_eq_self)

lemma digit_graphic: "is_ascii_digit c \<Longrightarrow> graphic c"
  by (auto simp: is_ascii_digit_def graphic_def Let_def)

lemma show_nat_chars: "c \<in> set (show_nat n) \<Longrightarrow> is_ascii_digit c"
  using show_nat_digits [of n] by (simp add: list_all_iff)

lemma show_nat_dash: "CHR ''-'' \<notin> set (show_nat n)" and show_nat_comma: "CHR '','' \<notin> set (show_nat n)"
  using show_nat_chars [of "CHR ''-''" n] show_nat_chars [of "CHR '',''" n] by (auto simp: is_ascii_digit_def)

lemma show_nat_edges: "graphic (hd (show_nat n))" "graphic (last (show_nat n))"
  using show_nat_chars [THEN digit_graphic, OF hd_in_set] show_nat_chars [THEN digit_graphic, OF last_in_set]
  by simp_all

lemma trim_digits: "trim (show_nat a @ m @ show_nat b) = show_nat a @ m @ show_nat b"
proof (rule trim_graphic)
  show "show_nat a @ m @ show_nat b = [] \<or> graphic (hd (show_nat a @ m @ show_nat b)) \<and> graphic (last (show_nat a @ m @ show_nat b))"
    using show_nat_edges by simp
qed

lemma comma_free: "CHR '','' \<notin> set m \<Longrightarrow> CHR '','' \<notin> set (show_nat a @ m @ show_nat b)"
  using show_nat_comma by simp

lemma trim_suffix: "trim (''-'' @ show_nat n) = ''-'' @ show_nat n"
proof (rule trim_graphic)
  show "''-'' @ show_nat n = [] \<or> graphic (hd (''-'' @ show_nat n)) \<and> graphic (last (''-'' @ show_nat n))"
    using show_nat_edges(2) [of n] by (simp add: graphic_def)
qed

lemma comma_suffix: "CHR '','' \<notin> set (''-'' @ show_nat n)"
  using show_nat_comma by simp

lemma show_nat_starts: "strip_prefix (show_nat n @ r) ''-'' = None"
  using show_nat_dash [of n] by (cases "show_nat n") (auto simp: strip_prefix_def)

section \<open>Properties\<close>

lemma word_pred_bounds:
  fixes sz :: u64
  assumes "start < sz"
  shows "start \<le> sz - 1" and "sz - 1 < sz"
proof -
  have pos: "0 < unat sz"
    using assms by (simp add: word_less_nat_alt)
  then have pred: "unat (sz - 1) = unat sz - 1"
    by (simp add: unat_sub word_le_nat_alt)
  show "start \<le> sz - 1" and "sz - 1 < sz"
    using assms pos by (simp_all add: word_le_nat_alt word_less_nat_alt pred)
qed

text \<open>
  every partial range handed to the serving backends is a satisfiable slice, \<open>start <= end <
  size\<close>, with no wrap-around for any header and any object size; a missing or non-byte header
  serves the whole object; and a well-formed \<open>first-last\<close>, \<open>first-\<close> or \<open>-suffix\<close> range resolves to
  exactly the bytes it names, clipped to the object.
\<close>

theorem parse_range_in_bounds:
  "(\<forall>s e. parse_range header sz = Partial s e \<longrightarrow> s \<le> e \<and> e < sz \<and> unat e - unat s + 1 \<le> unat sz)
   \<and> parse_range None sz = Full
   \<and> (\<forall>a b. a < 2 ^ 64 \<and> b < 2 ^ 64 \<and> a \<le> b \<and> a < unat sz \<longrightarrow>
        parse_range (Some (''bytes='' @ show_nat a @ ''-'' @ show_nat b)) sz
          = Partial (of_nat a) (min (of_nat b) (sz - 1)))
   \<and> (\<forall>n. 0 < n \<and> n < 2 ^ 64 \<and> sz \<noteq> 0 \<longrightarrow>
        parse_range (Some (''bytes=-'' @ show_nat n)) sz = Partial (sz - min (of_nat n) sz) (sz - 1))"
proof -
  have bounds: "s \<le> e \<and> e < sz" if "parse_range header sz = Partial s e" for s e
  proof -
    have suffix: "sz - min n sz \<le> sz - 1 \<and> sz - 1 < sz" if "n \<noteq> 0" "sz \<noteq> 0" for n :: u64
    proof -
      have "0 < unat n" "0 < unat sz"
        using that by (simp_all add: unat_gt_0)
      then have "unat (sz - min n sz) < unat sz"
        by (simp add: unat_sub word_le_nat_alt min_def)
      then have "sz - min n sz < sz"
        by (simp add: word_less_nat_alt)
      then show ?thesis
        using word_pred_bounds by blast
    qed
    have pre: "start \<le> min e' (sz - 1) \<and> min e' (sz - 1) < sz" if "\<not> sz \<le> start" "start \<le> e'" for start e'
      using that word_pred_bounds [of start sz] by (auto simp: min_def not_le)
    show ?thesis
      using that suffix pre word_pred_bounds [of _ sz]
      by (auto simp: parse_range_def Let_def not_le split: option.splits if_splits prod.splits)
  qed
  moreover have "unat e - unat s + 1 \<le> unat sz" if "s \<le> e" "e < sz" for s e
    using that by (simp add: word_le_nat_alt word_less_nat_alt)
  moreover have "parse_range (Some (''bytes='' @ show_nat a @ ''-'' @ show_nat b)) sz = Partial (of_nat a) (min (of_nat b) (sz - 1))"
    if "a < 2 ^ 64" "b < 2 ^ 64" "a \<le> b" "a < unat sz" for a b
  proof -
    let ?spec = "show_nat a @ ''-'' @ show_nat b"
    have "\<not> sz \<le> of_nat a" "(of_nat a :: u64) \<le> of_nat b"
      using that by (simp_all add: not_le word_less_nat_alt word_le_nat_alt unat_of_nat_u64)
    then show ?thesis
      using that show_nat_dash [of a] show_nat_starts [of a "''-'' @ show_nat b"] trim_digits [of a "''-''" b] comma_free [of "''-''" a b]
      unfolding parse_range_def bind.simps strip_prefix_append option.case
      by (simp add: parse_u64_show_nat split_once_append)
  qed
  moreover have "parse_range (Some (''bytes=-'' @ show_nat n)) sz = Partial (sz - min (of_nat n) sz) (sz - 1)"
    if "0 < n" "n < 2 ^ 64" "sz \<noteq> 0" for n
  proof -
    have header: "''bytes=-'' @ show_nat n = ''bytes='' @ (''-'' @ show_nat n)"
      by simp
    have "(of_nat n :: u64) \<noteq> 0"
      using that unat_of_nat_u64 [of n] by (metis unat_0 less_numeral_extra(3))
    then show ?thesis
      using that trim_suffix [of n] comma_suffix [of n]
      unfolding parse_range_def header bind.simps strip_prefix_append option.case
      by (simp add: parse_u64_show_nat strip_prefix_def)
  qed
  ultimately show ?thesis
    by (simp add: parse_range_def)
qed

theorem parse_range_in_bounds_witness:
  "parse_range (Some ''bytes=10-99'') 50 = Partial 10 49 \<and> parse_range (Some ''bytes=-7'') 50 = Partial 43 49"
proof -
  have digits: "show_nat 10 = ''10''" "show_nat 99 = ''99''" "show_nat 7 = ''7''"
    by code_simp+
  have "parse_range (Some (''bytes='' @ show_nat 10 @ ''-'' @ show_nat 99)) 50 = Partial (of_nat 10) (min (of_nat 99) (50 - 1))"
    and "parse_range (Some (''bytes=-'' @ show_nat 7)) 50 = Partial (50 - min (of_nat 7) 50) (50 - 1)"
    using parse_range_in_bounds [of None 50] by auto
  then show ?thesis
    unfolding digits by (simp add: min_def)
qed

end
