(* ===== verification/Install_Token.thy ===== *)
theory Install_Token
  imports Hash
begin

text \<open>
  \<open>src/token.rs\<close>: stateless signed install tokens. The \<open>base64\<close> crate, \<open>serde_json\<close> at the claims
  type and SHA-256 are the parameters \<open>C\<close> and \<open>digest\<close>; HMAC is the repository's own, from the
  theory \<open>Hash\<close>. Times are \<open>i64\<close> seconds, kept as integers with the saturating addition written
  out.
\<close>

section \<open>Definitions\<close>

definition TOKEN_USERNAME :: string where "TOKEN_USERNAME = ''__token__''"
definition PREFIX :: string where "PREFIX = ''pypiron-''"
definition MAX_CLOCK_SKEW_SECS :: int where "MAX_CLOCK_SKEW_SECS = 60"

definition is_token_username :: "string \<Rightarrow> bool" where
  "is_token_username user =
     ((case split_once user (CHR ''+'') of None \<Rightarrow> user | Some (base, _) \<Rightarrow> base) = TOKEN_USERNAME)"

datatype role = Reader | Uploader | Admin

definition role_parse :: "string \<Rightarrow> role option" where
  "role_parse s =
     (if s = ''reader'' then Some Reader else if s = ''uploader'' then Some Uploader
      else if s = ''admin'' then Some Admin else None)"

definition role_as_str :: "role \<Rightarrow> string" where
  "role_as_str r = (case r of Reader \<Rightarrow> ''reader'' | Uploader \<Rightarrow> ''uploader'' | Admin \<Rightarrow> ''admin'')"

text \<open>The derived \<open>Ord\<close>: declaration order.\<close>

definition role_index :: "role \<Rightarrow> nat" where
  "role_index r = (case r of Reader \<Rightarrow> 0 | Uploader \<Rightarrow> 1 | Admin \<Rightarrow> 2)"

instantiation role :: linorder
begin

definition less_eq_role :: "role \<Rightarrow> role \<Rightarrow> bool" where
  "less_eq_role a b = (role_index a \<le> role_index b)"

definition less_role :: "role \<Rightarrow> role \<Rightarrow> bool" where
  "less_role a b = (role_index a < role_index b)"

instance
proof
  fix x y z :: role
  show "(x < y) = (x \<le> y \<and> \<not> y \<le> x)" "x \<le> x" "x \<le> y \<Longrightarrow> y \<le> z \<Longrightarrow> x \<le> z" "x \<le> y \<or> y \<le> x"
    by (auto simp: less_eq_role_def less_role_def)
  show "x \<le> y \<Longrightarrow> y \<le> x \<Longrightarrow> x = y"
    by (cases x; cases y) (simp_all add: less_eq_role_def role_index_def)
qed

end

record claims =
  cl_role :: role
  repo :: "string option"
  commit :: "string option"
  user :: "string option"
  iat :: int
  exp :: int

record token_codec =
  json_enc :: "claims \<Rightarrow> bytes"
  json_dec :: "bytes \<Rightarrow> claims option"
  b64_enc :: "bytes \<Rightarrow> string"
  b64_dec :: "string \<Rightarrow> bytes option"

definition byte_word :: "char \<Rightarrow> 8 word" where
  "byte_word c = of_nat (of_char c)"

definition ct_eq :: "string \<Rightarrow> string \<Rightarrow> bool" where
  "ct_eq a b =
     (if length a \<noteq> length b then False
      else fold (\<lambda>(x, y) diff. diff OR (byte_word x XOR byte_word y)) (zip a b) 0 = 0)"

definition signature :: "(bytes \<Rightarrow> bytes) \<Rightarrow> token_codec \<Rightarrow> string \<Rightarrow> string \<Rightarrow> string" where
  "signature digest C key payload = b64_enc C (hmac_sha256 digest key payload)"

definition mint :: "(bytes \<Rightarrow> bytes) \<Rightarrow> token_codec \<Rightarrow> string \<Rightarrow> claims \<Rightarrow> string" where
  "mint digest C key c =
     (let payload = b64_enc C (json_enc C c) in PREFIX @ payload @ ''.'' @ signature digest C key payload)"

definition i64_saturating_add :: "int \<Rightarrow> int \<Rightarrow> int" where
  "i64_saturating_add a b = max (- (2 ^ 63)) (min (2 ^ 63 - 1) (a + b))"

definition verify :: "(bytes \<Rightarrow> bytes) \<Rightarrow> token_codec \<Rightarrow> string \<Rightarrow> string \<Rightarrow> int \<Rightarrow> claims option" where
  "verify digest C key token now_unix =
     (case strip_prefix token PREFIX of
        None \<Rightarrow> None
      | Some body \<Rightarrow>
          (case split_once body (CHR ''.'') of
             None \<Rightarrow> None
           | Some (payload, mac) \<Rightarrow>
               if \<not> ct_eq mac (signature digest C key payload) then None
               else
                 (case Option.bind (b64_dec C payload) (json_dec C) of
                    None \<Rightarrow> None
                  | Some c \<Rightarrow>
                      if now_unix \<ge> exp c \<or> iat c > i64_saturating_add now_unix MAX_CLOCK_SKEW_SECS
                      then None else Some c)))"

section \<open>The constant-time comparison\<close>

lemma xor_zero_iff: "a XOR b = 0 \<longleftrightarrow> a = (b :: 8 word)"
proof
  assume "a XOR b = 0"
  then have "(a XOR b) XOR b = 0 XOR b"
    by simp
  then show "a = b"
    by (simp add: xor.assoc)
qed simp

lemma fold_or_zero:
  "fold (\<lambda>(x, y) diff. diff OR (byte_word x XOR byte_word y)) ps d = 0
    \<longleftrightarrow> d = 0 \<and> (\<forall>(x, y)\<in>set ps. byte_word x = byte_word y)"
  by (induction ps arbitrary: d) (auto simp: or_eq_0_iff xor_zero_iff)

lemma byte_word_inject: "byte_word x = byte_word y \<longleftrightarrow> x = y"
proof
  assume "byte_word x = byte_word y"
  then have "unat (byte_word x) = unat (byte_word y)"
    by simp
  then have "(of_char x :: nat) = of_char y"
    by (simp add: byte_word_def unat_of_nat take_bit_nat_eq_self nat_of_char_less_256)
  then show "x = y"
    by simp
qed simp

lemma ct_eq_iff: "ct_eq a b \<longleftrightarrow> a = b"
proof -
  have "(\<forall>(x, y)\<in>set (zip a b). x = y) \<longleftrightarrow> a = b" if "length a = length b"
    using that by (induction a b rule: list_induct2) auto
  then show ?thesis
    by (auto simp: ct_eq_def fold_or_zero byte_word_inject)
qed

section \<open>Verifying what was minted\<close>

lemma verify_mint:
  assumes "\<forall>x. b64_dec C (b64_enc C x) = Some x" and "\<forall>x. CHR ''.'' \<notin> set (b64_enc C x)"
    and "json_dec C (json_enc C c) = Some c"
  shows "verify digest C key (mint digest C key c) now_unix =
    (if iat c \<le> i64_saturating_add now_unix MAX_CLOCK_SKEW_SECS \<and> now_unix < exp c then Some c else None)"
proof -
  let ?payload = "b64_enc C (json_enc C c)"
  have "split_once (?payload @ CHR ''.'' # signature digest C key ?payload) (CHR ''.'')
      = Some (?payload, signature digest C key ?payload)"
    using assms(2) by (simp add: split_once_append)
  then show ?thesis
    using assms(1,3) by (auto simp: verify_def mint_def Let_def ct_eq_iff)
qed

section \<open>Properties\<close>

text \<open>
  a minted token verifies under the same key, to exactly the claims it was minted with, from
  60 seconds before its issue time until just before its expiry, and at no other time. The base64
  alphabet has no dot and decodes what it encoded; the claims survive their JSON encoding.
\<close>

theorem token_roundtrip:
  assumes "\<forall>x. b64_dec C (b64_enc C x) = Some x" and "\<forall>x. CHR ''.'' \<notin> set (b64_enc C x)"
    and "json_dec C (json_enc C c) = Some c" and "- (2 ^ 63) \<le> now_unix" and "now_unix < 2 ^ 63 - 60"
  shows "verify digest C key (mint digest C key c) now_unix = (if iat c - 60 \<le> now_unix \<and> now_unix < exp c then Some c else None)"
  using assms(4,5) verify_mint [OF assms(1-3), of digest key now_unix]
  by (auto simp: i64_saturating_add_def MAX_CLOCK_SKEW_SECS_def)

text \<open>
  C40: verification fails closed. An accepted token is, byte for byte, the prefix, a payload and
  the signature of that payload under the verifier's key; its claims are the payload's, it is
  unexpired, and it was not issued more than 60 seconds in the future. So a token altered in any
  byte of its signature, or whose payload was not signed under this key, is refused.
\<close>

theorem token_verify_sound:
  assumes "verify digest C key token now_unix = Some c"
  shows "\<exists>payload. token = PREFIX @ payload @ ''.'' @ signature digest C key payload
    \<and> CHR ''.'' \<notin> set payload
    \<and> Option.bind (b64_dec C payload) (json_dec C) = Some c
    \<and> now_unix < exp c \<and> iat c \<le> i64_saturating_add now_unix MAX_CLOCK_SKEW_SECS"
proof -
  obtain body payload mac where body: "strip_prefix token PREFIX = Some body"
    and split: "split_once body (CHR ''.'') = Some (payload, mac)"
    and mac: "mac = signature digest C key payload"
    and rest: "Option.bind (b64_dec C payload) (json_dec C) = Some c" "now_unix < exp c"
      "iat c \<le> i64_saturating_add now_unix MAX_CLOCK_SKEW_SECS"
    using assms by (auto simp: verify_def ct_eq_iff split: option.splits if_splits prod.splits)
  have "token = PREFIX @ payload @ ''.'' @ mac" "CHR ''.'' \<notin> set payload"
    using body split_once_SomeD [OF split] by (simp_all add: strip_prefix_Some_iff)
  then show ?thesis
    using mac rest by blast
qed

text \<open>A codec with the two laws: hex in place of base64, and one known claims value.\<close>

definition hex_val :: "char \<Rightarrow> nat" where
  "hex_val c = (let n = (of_char c :: nat) in if n < 58 then n - 48 else n - 87)"

fun unhex :: "string \<Rightarrow> bytes option" where
  "unhex [] = Some []"
| "unhex [_] = None"
| "unhex (a # b # r) = map_option (\<lambda>t. char_of (16 * hex_val a + hex_val b) # t) (unhex r)"

lemma hex_val_hex_digit: "n < 16 \<Longrightarrow> hex_val (hex_digit n) = n"
  using of_char_hex_digit [of n] by (auto simp: hex_val_def Let_def)

lemma unhex_hex: "unhex (hex bs) = Some bs"
proof (induction bs)
  case (Cons b bs)
  have "(of_char b :: nat) < 16 * 16"
    using nat_of_char_less_256 [of b] by simp
  then have "(of_char b :: nat) div 16 < 16"
    by (rule less_mult_imp_div_less)
  then show ?case
    using Cons by (simp add: hex_Cons hex_val_hex_digit)
qed simp

definition sample_claims :: claims where
  "sample_claims = \<lparr>cl_role = Uploader, repo = Some ''org/app'', commit = None, user = None, iat = 1000, exp = 4600\<rparr>"

definition sample_token_codec :: token_codec where
  "sample_token_codec =
     \<lparr>json_enc = (\<lambda>c. ''uploader''), json_dec = (\<lambda>b. if b = ''uploader'' then Some sample_claims else None),
      b64_enc = hex, b64_dec = unhex\<rparr>"

lemma sample_token_codec_ok:
  "b64_dec sample_token_codec (b64_enc sample_token_codec x) = Some x"
  "CHR ''.'' \<notin> set (b64_enc sample_token_codec x)"
  "json_dec sample_token_codec (json_enc sample_token_codec sample_claims) = Some sample_claims"
  using hex_hexdigits [of x] by (auto simp: sample_token_codec_def unhex_hex list_all_iff is_ascii_hexdigit_def)

theorem token_roundtrip_witness:
  "verify (\<lambda>x. x) sample_token_codec ''k'' (mint (\<lambda>x. x) sample_token_codec ''k'' sample_claims) 4599 = Some sample_claims
   \<and> verify (\<lambda>x. x) sample_token_codec ''k'' (mint (\<lambda>x. x) sample_token_codec ''k'' sample_claims) 4600 = None"
  using token_roundtrip [of sample_token_codec sample_claims 4599 "\<lambda>x. x" "''k''"]
    token_roundtrip [of sample_token_codec sample_claims 4600 "\<lambda>x. x" "''k''"] sample_token_codec_ok
  by (simp add: sample_claims_def)

theorem token_verify_sound_witness:
  "\<exists>payload. mint (\<lambda>x. x) sample_token_codec ''k'' sample_claims
      = PREFIX @ payload @ ''.'' @ signature (\<lambda>x. x) sample_token_codec ''k'' payload"
proof -
  have "verify (\<lambda>x. x) sample_token_codec ''k'' (mint (\<lambda>x. x) sample_token_codec ''k'' sample_claims) 2000 = Some sample_claims"
    using verify_mint [of sample_token_codec sample_claims "\<lambda>x. x" "''k''" 2000] sample_token_codec_ok
    by (simp add: sample_claims_def i64_saturating_add_def MAX_CLOCK_SKEW_SECS_def)
  then show ?thesis
    using token_verify_sound [of "\<lambda>x. x" sample_token_codec "''k''" "mint (\<lambda>x. x) sample_token_codec ''k'' sample_claims" 2000 sample_claims]
    by blast
qed

end
