(* ===== verification/Markers.thy ===== *)
theory Markers
  imports Origin Names
begin

text \<open>
  \<open>src/markers.rs\<close>, the crash-consistency markers \<open>_dirty/<pkg>!<nonce>.intent|.commit\<close>, and the
  part of \<open>src/worker.rs\<close> that reads them back to tell a live writer from a dead one. A nonce is
  the simulator's; clock readings are arguments in whole seconds. The same-process wake-up of the
  worker (\<open>worker_nudge\<close>) and the drop guards that pair an intent in the background have no
  storage effect of their own beyond \<open>mark_commit\<close> and are left out.
\<close>

section \<open>Definitions\<close>

definition INTENT_SUFFIX :: string where "INTENT_SUFFIX = ''.intent''"
definition COMMIT_SUFFIX :: string where "COMMIT_SUFFIX = ''.commit''"

definition marker_nonce :: "string act" where
  "marker_nonce w = (Inr (sim_nonce (nonce_seq w)), w\<lparr>nonce_seq := nonce_seq w + 1\<rparr>)"

definition marker_key :: "string \<Rightarrow> string \<Rightarrow> string \<Rightarrow> string" where
  "marker_key pkg nonce suffix = DIRTY_PREFIX @ pkg @ ''!'' @ nonce @ suffix"

definition put_marker :: "(bytes \<Rightarrow> bytes) \<Rightarrow> bucket_id \<Rightarrow> string \<Rightarrow> string \<Rightarrow> string \<Rightarrow> unit act" where
  "put_marker sha b pkg nonce suffix = put_bytes sha b (marker_key pkg nonce suffix) []"

definition mark_intent_with_nonce :: "(bytes \<Rightarrow> bytes) \<Rightarrow> bucket_id \<Rightarrow> string \<Rightarrow> string \<Rightarrow> unit act" where
  "mark_intent_with_nonce sha b pkg nonce = put_marker sha b pkg nonce INTENT_SUFFIX"

definition mark_intent :: "(bytes \<Rightarrow> bytes) \<Rightarrow> bucket_id \<Rightarrow> string \<Rightarrow> string act" where
  "mark_intent sha b pkg =
     andThen marker_nonce (\<lambda>nonce. andThen (mark_intent_with_nonce sha b pkg nonce) (\<lambda>_. ret nonce))"

definition mark_commit :: "(bytes \<Rightarrow> bytes) \<Rightarrow> bucket_id \<Rightarrow> string \<Rightarrow> string \<Rightarrow> unit act" where
  "mark_commit sha b pkg nonce = put_marker sha b pkg nonce COMMIT_SUFFIX"

definition clear_intent :: "(bytes \<Rightarrow> bytes) \<Rightarrow> bucket_id \<Rightarrow> string \<Rightarrow> string \<Rightarrow> unit act" where
  "clear_intent sha b pkg nonce = delete_keys sha b [marker_key pkg nonce INTENT_SUFFIX]"

definition mark_dirty :: "(bytes \<Rightarrow> bytes) \<Rightarrow> bucket_id \<Rightarrow> string \<Rightarrow> unit act" where
  "mark_dirty sha b pkg = andThen marker_nonce (mark_commit sha b pkg)"

definition commit_marker :: "(bytes \<Rightarrow> bytes) \<Rightarrow> bucket_id \<Rightarrow> string \<Rightarrow> string option \<Rightarrow> unit act" where
  "commit_marker sha b pkg intent_nonce =
     (case intent_nonce of Some nonce \<Rightarrow> mark_commit sha b pkg nonce | None \<Rightarrow> mark_dirty sha b pkg)"

record marker =
  mk_key :: string
  mk_nonce :: "string option"
  is_commit :: bool
  written_at :: "nat option"

definition parse_marker :: "file_entry \<Rightarrow> (string \<times> marker) option" where
  "parse_marker entry =
     (case strip_prefix (fe_key entry) DIRTY_PREFIX of
        None \<Rightarrow> None
      | Some rest \<Rightarrow>
          (case split_once rest (CHR ''!'') of
             None \<Rightarrow>
               Some (rest, \<lparr>mk_key = fe_key entry, mk_nonce = None, is_commit = True,
                            written_at = fe_last_modified entry\<rparr>)
           | Some (pkg, event) \<Rightarrow>
               (let (nonce, commit) =
                      (case strip_suffix event COMMIT_SUFFIX of
                         Some n \<Rightarrow> (n, True)
                       | None \<Rightarrow>
                           (case strip_suffix event INTENT_SUFFIX of
                              Some n \<Rightarrow> (n, False)
                            | None \<Rightarrow> (event, True)))
                in Some (pkg, \<lparr>mk_key = fe_key entry, mk_nonce = Some nonce, is_commit = commit,
                               written_at = fe_last_modified entry\<rparr>))))"

subsection \<open>Which intents are still live\<close>

definition intent_is_ignored :: "string \<Rightarrow> string option \<Rightarrow> bool" where
  "intent_is_ignored nonce ignored = (ignored = Some nonce)"

definition event_nonce :: "string \<Rightarrow> string \<Rightarrow> string \<Rightarrow> string option" where
  "event_nonce pkg suffix key =
     Option.bind (strip_prefix key (DIRTY_PREFIX @ pkg @ ''!'')) (\<lambda>event. strip_suffix event suffix)"

text \<open>The loop over the listing; it stops at the first intent inside the grace window.\<close>

fun stale_scan ::
  "string \<Rightarrow> string option \<Rightarrow> string list \<Rightarrow> int \<Rightarrow> int \<Rightarrow> file_entry list \<Rightarrow> string list \<Rightarrow> string list option" where
  "stale_scan pkg ignored commits now_s grace [] stale = Some stale"
| "stale_scan pkg ignored commits now_s grace (entry # es) stale =
     (case event_nonce pkg INTENT_SUFFIX (fe_key entry) of
        None \<Rightarrow> stale_scan pkg ignored commits now_s grace es stale
      | Some nonce \<Rightarrow>
          if intent_is_ignored nonce ignored then stale_scan pkg ignored commits now_s grace es stale
          else if nonce \<in> set commits then stale_scan pkg ignored commits now_s grace es stale
          else (case fe_last_modified entry of
                  None \<Rightarrow> None
                | Some written \<Rightarrow>
                    if now_s - int written < grace then None
                    else stale_scan pkg ignored commits now_s grace es (stale @ [fe_key entry])))"

definition stale_unpaired_intents_ignoring ::
  "int \<Rightarrow> int \<Rightarrow> bucket_id \<Rightarrow> string \<Rightarrow> string option \<Rightarrow> string list option act" where
  "stale_unpaired_intents_ignoring now_s grace b pkg ignored =
     andThen (list_dir_entries b DIRTY_PREFIX) (\<lambda>entries.
       ret (stale_scan pkg ignored (List.map_filter (\<lambda>e. event_nonce pkg COMMIT_SUFFIX (fe_key e)) entries)
              now_s grace entries []))"

definition stale_unpaired_intents :: "int \<Rightarrow> int \<Rightarrow> bucket_id \<Rightarrow> string \<Rightarrow> string list option act" where
  "stale_unpaired_intents now_s grace b pkg = stale_unpaired_intents_ignoring now_s grace b pkg None"

definition has_live_intent :: "int \<Rightarrow> int \<Rightarrow> bucket_id \<Rightarrow> string \<Rightarrow> bool act" where
  "has_live_intent now_s grace b pkg =
     andThen (stale_unpaired_intents now_s grace b pkg) (\<lambda>r. ret (r = None))"

section \<open>Reading markers back\<close>

lemma suffixes_distinct: "\<not> ends_with (n @ INTENT_SUFFIX) COMMIT_SUFFIX" "\<not> ends_with (n @ COMMIT_SUFFIX) INTENT_SUFFIX"
  by (simp_all add: ends_with_def INTENT_SUFFIX_def COMMIT_SUFFIX_def)

lemma strip_suffix_commit_intent: "strip_suffix (n @ INTENT_SUFFIX) COMMIT_SUFFIX = None"
  using suffixes_distinct(1) by (simp add: strip_suffix_None_iff)

lemma parse_marker_key:
  assumes "CHR ''!'' \<notin> set pkg"
  shows "parse_marker \<lparr>fe_key = marker_key pkg n COMMIT_SUFFIX, fe_size = z, fe_last_modified = t, fe_etag = g\<rparr> =
      Some (pkg, \<lparr>mk_key = marker_key pkg n COMMIT_SUFFIX, mk_nonce = Some n, is_commit = True, written_at = t\<rparr>)"
    and "parse_marker \<lparr>fe_key = marker_key pkg n INTENT_SUFFIX, fe_size = z, fe_last_modified = t, fe_etag = g\<rparr> =
      Some (pkg, \<lparr>mk_key = marker_key pkg n INTENT_SUFFIX, mk_nonce = Some n, is_commit = False, written_at = t\<rparr>)"
proof -
  have split: "split_once (pkg @ ''!'' @ n @ x) (CHR ''!'') = Some (pkg, n @ x)" for x
    using split_once_append [OF assms, of "n @ x"] by simp
  show "parse_marker \<lparr>fe_key = marker_key pkg n COMMIT_SUFFIX, fe_size = z, fe_last_modified = t, fe_etag = g\<rparr> =
      Some (pkg, \<lparr>mk_key = marker_key pkg n COMMIT_SUFFIX, mk_nonce = Some n, is_commit = True, written_at = t\<rparr>)"
    and "parse_marker \<lparr>fe_key = marker_key pkg n INTENT_SUFFIX, fe_size = z, fe_last_modified = t, fe_etag = g\<rparr> =
      Some (pkg, \<lparr>mk_key = marker_key pkg n INTENT_SUFFIX, mk_nonce = Some n, is_commit = False, written_at = t\<rparr>)"
    unfolding parse_marker_def file_entry.simps marker_key_def strip_prefix_append option.case split
    by (simp_all add: strip_suffix_commit_intent)
qed

text \<open>The scan answers \<open>None\<close> exactly when some unpaired, unignored intent is inside the window.\<close>

definition live_entry :: "string \<Rightarrow> string option \<Rightarrow> string list \<Rightarrow> int \<Rightarrow> int \<Rightarrow> file_entry \<Rightarrow> bool" where
  "live_entry pkg ignored commits now_s grace e =
     (case event_nonce pkg INTENT_SUFFIX (fe_key e) of
        None \<Rightarrow> False
      | Some n \<Rightarrow> ignored \<noteq> Some n \<and> n \<notin> set commits
          \<and> (case fe_last_modified e of None \<Rightarrow> True | Some t \<Rightarrow> now_s - int t < grace))"

lemma stale_scan_step:
  "\<exists>stale'. stale_scan pkg ignored commits now_s grace (e # es) stale =
     (if live_entry pkg ignored commits now_s grace e then None
      else stale_scan pkg ignored commits now_s grace es stale')"
  by (auto simp: live_entry_def intent_is_ignored_def split: option.splits)

lemma stale_scan_None_iff:
  "stale_scan pkg ignored commits now_s grace es stale = None \<longleftrightarrow>
     (\<exists>e\<in>set es. live_entry pkg ignored commits now_s grace e)"
proof (induction es arbitrary: stale)
  case (Cons e es)
  obtain stale' where "stale_scan pkg ignored commits now_s grace (e # es) stale =
     (if live_entry pkg ignored commits now_s grace e then None
      else stale_scan pkg ignored commits now_s grace es stale')"
    using stale_scan_step by blast
  then show ?case
    using Cons.IH [of stale'] by simp
qed simp

lemma event_nonce_iff: "event_nonce pkg suffix key = Some n \<longleftrightarrow> key = marker_key pkg n suffix"
  by (auto simp: event_nonce_def marker_key_def bind_eq_Some_conv strip_prefix_Some_iff strip_suffix_Some_iff)

lemma marker_key_inject: "marker_key pkg n s = marker_key pkg n' s \<longleftrightarrow> n = n'"
  by (simp add: marker_key_def)

lemma has_live_intent_quiet:
  assumes "script w = []" and "store_wf (buckets w b)"
  shows "has_live_intent now_s grace b pkg w =
    (Inr (\<exists>n ob. CHR ''/'' \<notin> set (pkg @ n) \<and> object_at (buckets w b) (marker_key pkg n INTENT_SUFFIX) = Some ob
            \<and> \<not> contains_key (buckets w b) (marker_key pkg n COMMIT_SUFFIX)
            \<and> now_s - int (last_modified ob) < grace), w)"
proof -
  let ?s = "buckets w b"
  let ?f = "\<lambda>(k, ob). \<lparr>fe_key = k, fe_size = length (obj_bytes ob), fe_last_modified = Some (last_modified ob),
                       fe_etag = Some (listed_etag ob)\<rparr>"
  define entries where "entries = map ?f (filter (\<lambda>e. CHR ''/'' \<notin> set (drop (length DIRTY_PREFIX) (fst e))) (prefix_range ?s DIRTY_PREFIX))"
  define commits where "commits = List.map_filter (\<lambda>e. event_nonce pkg COMMIT_SUFFIX (fe_key e)) entries"
  have slash: "CHR ''/'' \<notin> set INTENT_SUFFIX" "CHR ''/'' \<notin> set COMMIT_SUFFIX"
    by (simp_all add: INTENT_SUFFIX_def COMMIT_SUFFIX_def)
  have entry: "e \<in> set entries \<longleftrightarrow> (\<exists>k ob. e = ?f (k, ob) \<and> starts_with k DIRTY_PREFIX \<and> object_at ?s k = Some ob
      \<and> CHR ''/'' \<notin> set (drop (length DIRTY_PREFIX) k))" for e
    unfolding entries_def using prefix_range_set [OF assms(2), of _ _ DIRTY_PREFIX] by (auto simp: image_iff)
  have member: "?f (marker_key pkg n suffix, ob) \<in> set entries"
    if "CHR ''/'' \<notin> set (pkg @ n)" "object_at ?s (marker_key pkg n suffix) = Some ob" "CHR ''/'' \<notin> set suffix" for n suffix ob
    unfolding entry using that by (intro exI [of _ "marker_key pkg n suffix"] exI [of _ ob]) (simp add: marker_key_def)
  have commit: "n \<in> set commits \<longleftrightarrow> CHR ''/'' \<notin> set (pkg @ n) \<and> contains_key ?s (marker_key pkg n COMMIT_SUFFIX)" for n
  proof -
    have "n \<in> set commits \<longleftrightarrow> (\<exists>e\<in>set entries. fe_key e = marker_key pkg n COMMIT_SUFFIX)"
      unfolding commits_def set_map_filter by (auto simp: event_nonce_iff)
    also have "\<dots> \<longleftrightarrow> CHR ''/'' \<notin> set (pkg @ n) \<and> contains_key ?s (marker_key pkg n COMMIT_SUFFIX)"
    proof
      assume "\<exists>e\<in>set entries. fe_key e = marker_key pkg n COMMIT_SUFFIX"
      then show "CHR ''/'' \<notin> set (pkg @ n) \<and> contains_key ?s (marker_key pkg n COMMIT_SUFFIX)"
        unfolding Bex_def entry by (auto simp: contains_key_def marker_key_def)
    next
      assume *: "CHR ''/'' \<notin> set (pkg @ n) \<and> contains_key ?s (marker_key pkg n COMMIT_SUFFIX)"
      then obtain ob where "object_at ?s (marker_key pkg n COMMIT_SUFFIX) = Some ob"
        by (auto simp: contains_key_def)
      from member [OF _ this slash(2)] * show "\<exists>e\<in>set entries. fe_key e = marker_key pkg n COMMIT_SUFFIX"
        by (intro bexI [where x = "?f (marker_key pkg n COMMIT_SUFFIX, ob)"]) auto
    qed
    finally show ?thesis .
  qed
  have live: "live_entry pkg None commits now_s grace (?f (k, ob)) \<longleftrightarrow>
      (\<exists>n. k = marker_key pkg n INTENT_SUFFIX \<and> n \<notin> set commits \<and> now_s - int (last_modified ob) < grace)" for k ob
    unfolding live_entry_def by (auto simp: event_nonce_iff [symmetric] split: option.splits)
  have "(\<exists>e\<in>set entries. live_entry pkg None commits now_s grace e) \<longleftrightarrow>
      (\<exists>n ob. CHR ''/'' \<notin> set (pkg @ n) \<and> object_at ?s (marker_key pkg n INTENT_SUFFIX) = Some ob
         \<and> n \<notin> set commits \<and> now_s - int (last_modified ob) < grace)"
  proof
    assume "\<exists>e\<in>set entries. live_entry pkg None commits now_s grace e"
    then obtain k ob where *: "object_at ?s k = Some ob" "CHR ''/'' \<notin> set (drop (length DIRTY_PREFIX) k)"
      "live_entry pkg None commits now_s grace (?f (k, ob))"
      unfolding Bex_def entry by blast
    then obtain n where "k = marker_key pkg n INTENT_SUFFIX" "n \<notin> set commits" "now_s - int (last_modified ob) < grace"
      unfolding live by blast
    then show "\<exists>n ob. CHR ''/'' \<notin> set (pkg @ n) \<and> object_at ?s (marker_key pkg n INTENT_SUFFIX) = Some ob
         \<and> n \<notin> set commits \<and> now_s - int (last_modified ob) < grace"
      using * by (auto simp: marker_key_def)
  next
    assume "\<exists>n ob. CHR ''/'' \<notin> set (pkg @ n) \<and> object_at ?s (marker_key pkg n INTENT_SUFFIX) = Some ob
         \<and> n \<notin> set commits \<and> now_s - int (last_modified ob) < grace"
    then obtain n ob where n: "CHR ''/'' \<notin> set (pkg @ n)" "object_at ?s (marker_key pkg n INTENT_SUFFIX) = Some ob"
      "n \<notin> set commits" "now_s - int (last_modified ob) < grace"
      by blast
    let ?k = "marker_key pkg n INTENT_SUFFIX"
    have "?f (?k, ob) \<in> set entries"
      using member [OF n(1,2) slash(1)] .
    moreover have "live_entry pkg None commits now_s grace (?f (?k, ob))"
      unfolding live using n(3,4) by blast
    ultimately show "\<exists>e\<in>set entries. live_entry pkg None commits now_s grace e"
      by blast
  qed
  moreover have "has_live_intent now_s grace b pkg w = (Inr (stale_scan pkg None commits now_s grace entries [] = None), w)"
    using assms(1) unfolding has_live_intent_def stale_unpaired_intents_def stale_unpaired_intents_ignoring_def
    by (simp add: andThen_def list_dir_entries_def read_call_quiet ret_def entries_def commits_def)
  ultimately show ?thesis
    unfolding stale_scan_None_iff commit by auto
qed

section \<open>Properties\<close>

text \<open>
  every marker a writer creates is read back as what it is. For any package name the server
  accepts and any nonce, the intent and the commit key parse to that package, that nonce and
  their own kind; a legacy key without an event parses as a commit of the whole name.
\<close>

theorem markers_roundtrip:
  assumes "checked_pkg_name raw = Some pkg"
  shows "parse_marker \<lparr>fe_key = marker_key pkg n INTENT_SUFFIX, fe_size = z, fe_last_modified = t, fe_etag = g\<rparr> =
      Some (pkg, \<lparr>mk_key = marker_key pkg n INTENT_SUFFIX, mk_nonce = Some n, is_commit = False, written_at = t\<rparr>)
    \<and> parse_marker \<lparr>fe_key = marker_key pkg n COMMIT_SUFFIX, fe_size = z, fe_last_modified = t, fe_etag = g\<rparr> =
      Some (pkg, \<lparr>mk_key = marker_key pkg n COMMIT_SUFFIX, mk_nonce = Some n, is_commit = True, written_at = t\<rparr>)
    \<and> parse_marker \<lparr>fe_key = DIRTY_PREFIX @ pkg, fe_size = z, fe_last_modified = t, fe_etag = g\<rparr> =
      Some (pkg, \<lparr>mk_key = DIRTY_PREFIX @ pkg, mk_nonce = None, is_commit = True, written_at = t\<rparr>)"
proof -
  have bang: "CHR ''!'' \<notin> set pkg"
    using is_normalized_chars [OF checked_pkg_name_SomeD(2) [OF assms]] name_char_excludes(4) by blast
  then have "split_once pkg (CHR ''!'') = None"
    by (simp add: split_once_None_iff)
  then show ?thesis
    using parse_marker_key [OF bang] by (simp add: parse_marker_def)
qed

theorem markers_roundtrip_witness:
  "parse_marker \<lparr>fe_key = ''_dirty/my-pkg!07.intent'', fe_size = 0, fe_last_modified = Some 5, fe_etag = None\<rparr> =
     Some (''my-pkg'', \<lparr>mk_key = ''_dirty/my-pkg!07.intent'', mk_nonce = Some ''07'', is_commit = False, written_at = Some 5\<rparr>)"
proof -
  have "checked_pkg_name ''My_Pkg'' = Some ''my-pkg''"
    by code_simp
  from markers_roundtrip [OF this, of "''07''" 0 "Some 5" None] show ?thesis
    by (simp add: marker_key_def DIRTY_PREFIX_def INTENT_SUFFIX_def)
qed

text \<open>
  a package counts as being written exactly while some writer's intent stands uncommitted
  inside the grace window. Undisturbed, \<open>has_live_intent\<close> is true iff there is a nonce whose intent
  marker exists, whose commit marker does not, and whose intent was written less than \<open>grace\<close>
  seconds ago by the storage clock; it changes nothing.
\<close>

theorem live_intent_exact:
  assumes "script w = []" and "store_wf (buckets w b)"
  shows "has_live_intent now_s grace b pkg w =
    (Inr (\<exists>n ob. CHR ''/'' \<notin> set (pkg @ n) \<and> object_at (buckets w b) (marker_key pkg n INTENT_SUFFIX) = Some ob
            \<and> \<not> contains_key (buckets w b) (marker_key pkg n COMMIT_SUFFIX)
            \<and> now_s - int (last_modified ob) < grace), w)"
  using assms by (rule has_live_intent_quiet)

theorem live_intent_exact_witness:
  "let s = snd (store (\<lambda>x. x) (marker_key ''six'' ''07'' INTENT_SUFFIX) [] (inner_default 100))
   in has_live_intent 150 60 0 ''six'' (quiet (\<lambda>_. s)) = (Inr True, quiet (\<lambda>_. s))
    \<and> has_live_intent 160 60 0 ''six'' (quiet (\<lambda>_. s)) = (Inr False, quiet (\<lambda>_. s))"
proof -
  let ?k = "marker_key ''six'' ''07'' INTENT_SUFFIX"
  let ?s = "snd (store (\<lambda>x. x) ?k [] (inner_default 100))"
  have at: "object_at ?s k = (if k = ?k then Some \<lparr>obj_bytes = [], obj_etag = version_etag 0, last_modified = 100\<rparr> else None)" for k
    by (simp add: object_at_store inner_default_def bt.get_empty)
  have wf: "store_wf ?s"
    by (intro store_wf_store store_wf_default)
  have differ: "marker_key ''six'' n COMMIT_SUFFIX \<noteq> ?k" for n
    by (simp add: marker_key_def INTENT_SUFFIX_def COMMIT_SUFFIX_def)
  show ?thesis
    using live_intent_exact [of "quiet (\<lambda>_. ?s)" 0 150 60 "''six''"] live_intent_exact [of "quiet (\<lambda>_. ?s)" 0 160 60 "''six''"] wf differ
    by (auto simp: quiet_def contains_key_def at marker_key_inject Let_def)
qed

end
