(* ===== verification/Lease.thy ===== *)
theory Lease
  imports Interleaving
begin

text \<open>
  \<open>src/lease.rs\<close>: the sloppy leader lease, one object \<open>_leader/lease.json\<close> moved only by
  conditional writes. \<open>serde_json\<close> at the type \<open>Lease\<close> is the parameter \<open>C\<close>; the clock reading is an
  argument in seconds; \<open>i64\<close> sums wrap as they do in a release build. The task of
  \<open>is_leader_within\<close> is represented by what awaiting it yields: \<open>None\<close> past the deadline, otherwise
  the answer of the check (or \<open>None\<close> when the task died).
\<close>

section \<open>Definitions\<close>

definition LEASE_KEY :: string where "LEASE_KEY = ''_leader/lease.json''"

record lease =
  holder :: string
  lease_term :: u64
  expires_at :: int

record lease_codec =
  enc_lease :: "lease \<Rightarrow> bytes"
  dec_lease :: "bytes \<Rightarrow> lease option"

record lease_manager =
  lm_holder :: string
  lm_ttl_secs :: int
  lm_pending :: "nat option"

definition wrap_i64 :: "int \<Rightarrow> int" where
  "wrap_i64 x = signed_take_bit 63 x"

definition lease_manager_new :: "string \<Rightarrow> u64 \<Rightarrow> lease_manager" where
  "lease_manager_new me ttl = \<lparr>lm_holder = me, lm_ttl_secs = sint (max ttl 1), lm_pending = None\<rparr>"

definition lease_json :: "lease_codec \<Rightarrow> lease_manager \<Rightarrow> u64 \<Rightarrow> int \<Rightarrow> bytes" where
  "lease_json C m t now_s =
     enc_lease C \<lparr>holder = lm_holder m, lease_term = t, expires_at = wrap_i64 (now_s + lm_ttl_secs m)\<rparr>"

definition try_hold :: "(bytes \<Rightarrow> bytes) \<Rightarrow> lease_codec \<Rightarrow> lease_manager \<Rightarrow> bucket_id \<Rightarrow> int \<Rightarrow> bool act" where
  "try_hold sha C m b now_s =
     andThen (get_with_etag b LEASE_KEY) (\<lambda>found.
       case found of
         None \<Rightarrow>
           andThen (put_if_none_match sha b LEASE_KEY (lease_json C m 1 now_s)) (\<lambda>r. ret (r \<noteq> None))
       | Some (bs, etag) \<Rightarrow>
           (let current = (case dec_lease C bs of
                             Some l \<Rightarrow> l
                           | None \<Rightarrow> \<lparr>holder = [], lease_term = 0, expires_at = 0\<rparr>)
            in if holder current = lm_holder m then
                 andThen (put_if_match sha b LEASE_KEY etag (lease_json C m (lease_term current) now_s))
                   (\<lambda>r. ret (r \<noteq> None))
               else if now_s > expires_at current
                  \<or> expires_at current > wrap_i64 (now_s + wrap_i64 (3 * lm_ttl_secs m)) then
                 andThen (put_if_match sha b LEASE_KEY etag (lease_json C m (lease_term current + 1) now_s))
                   (\<lambda>r. ret (r \<noteq> None))
               else ret False))"

definition is_leader :: "(bytes \<Rightarrow> bytes) \<Rightarrow> lease_codec \<Rightarrow> lease_manager \<Rightarrow> bucket_id \<Rightarrow> int \<Rightarrow> bool act" where
  "is_leader sha C m b now_s = onResult (try_hold sha C m b now_s) (\<lambda>_. ret False) ret"

definition is_leader_within :: "nat \<Rightarrow> bool option option \<Rightarrow> lease_manager \<Rightarrow> bool option \<times> lease_manager" where
  "is_leader_within now_ms awaited m =
     (let started = (case lm_pending m of Some t \<Rightarrow> t | None \<Rightarrow> now_ms);
          m' = m\<lparr>lm_pending := None\<rparr>
      in case awaited of
           Some held \<Rightarrow>
             (let fresh = int (now_ms - started) < lm_ttl_secs m * 500
              in (Some ((case held of Some h \<Rightarrow> h | None \<Rightarrow> False) \<and> fresh), m'))
         | None \<Rightarrow> (None, m'\<lparr>lm_pending := Some started\<rparr>))"

definition lease_release :: "(bytes \<Rightarrow> bytes) \<Rightarrow> lease_codec \<Rightarrow> lease_manager \<Rightarrow> bucket_id \<Rightarrow> unit act" where
  "lease_release sha C m b =
     onResult (get_with_etag b LEASE_KEY) (\<lambda>_. ret ()) (\<lambda>found.
       case found of
         None \<Rightarrow> ret ()
       | Some (bs, etag) \<Rightarrow>
           (case dec_lease C bs of
              None \<Rightarrow> ret ()
            | Some l \<Rightarrow>
                if holder l = lm_holder m then
                  onResult (put_if_match sha b LEASE_KEY etag
                      (enc_lease C \<lparr>holder = [], lease_term = lease_term l, expires_at = 0\<rparr>))
                    (\<lambda>_. ret ()) (\<lambda>_. ret ())
                else ret ()))"

section \<open>What the lease object says\<close>

definition lease_json_ok :: "lease_codec \<Rightarrow> bool" where
  "lease_json_ok C = (\<forall>l. dec_lease C (enc_lease C l) = Some l)"

definition lease_at :: "lease_codec \<Rightarrow> inner \<Rightarrow> lease option option" where
  "lease_at C s = map_option (\<lambda>ob. dec_lease C (obj_bytes ob)) (object_at s LEASE_KEY)"

text \<open>Terms only rise, and within one term the lease stays with its holder or is given up.\<close>

definition lease_le :: "lease \<Rightarrow> lease \<Rightarrow> bool" where
  "lease_le l l' =
     (lease_term l < lease_term l' \<or> lease_term l = lease_term l' \<and> (holder l' = holder l \<or> holder l' = []))"

definition lease_kept :: "lease_codec \<Rightarrow> bucket_id \<Rightarrow> fleet \<Rightarrow> fleet \<Rightarrow> bool" where
  "lease_kept C b fl fl' =
     (\<forall>l. lease_at C (fl b) = Some (Some l) \<longrightarrow> (\<exists>l'. lease_at C (fl' b) = Some (Some l') \<and> lease_le l l'))"

definition term_left :: "lease_codec \<Rightarrow> bucket_id \<Rightarrow> fleet \<Rightarrow> bool" where
  "term_left C b fl = (\<forall>l. lease_at C (fl b) = Some (Some l) \<longrightarrow> lease_term l \<noteq> - 1)"

text \<open>What every peer does: it keeps the order and does not use up the last term.\<close>

definition lease_rely :: "lease_codec \<Rightarrow> bucket_id \<Rightarrow> fleet \<Rightarrow> fleet \<Rightarrow> bool" where
  "lease_rely C b fl fl' = (lease_kept C b fl fl' \<and> (term_left C b fl \<longrightarrow> term_left C b fl'))"

lemma lease_le_refl: "lease_le l l"
  by (simp add: lease_le_def)

lemma lease_le_trans: "lease_le l l' \<Longrightarrow> lease_le l' l'' \<Longrightarrow> lease_le l l''"
  unfolding lease_le_def by auto

lemma lease_kept_refl: "lease_kept C b fl fl"
  unfolding lease_kept_def using lease_le_refl by blast

lemma lease_kept_trans: "lease_kept C b f0 f1 \<Longrightarrow> lease_kept C b f1 f2 \<Longrightarrow> lease_kept C b f0 f2"
  unfolding lease_kept_def using lease_le_trans by meson

lemma lease_at_store:
  "lease_at C (snd (store sha LEASE_KEY bs s)) = Some (dec_lease C bs)"
  by (simp add: lease_at_def object_at_store)

lemma lease_at_create_lost [simp]: "lease_at C (create_lost sha k s) = lease_at C s"
  by (simp add: lease_at_def)

lemma lease_at_lookup: "lookup_tagged s LEASE_KEY = Some (bs, t) \<Longrightarrow> lease_at C s = Some (dec_lease C bs)"
  by (auto simp: lookup_tagged_def lease_at_def)

lemma lease_at_absent: "\<not> contains_key s LEASE_KEY \<Longrightarrow> lease_at C s = None"
  by (simp add: lease_at_def contains_key_def)

abbreviation since :: "lease_codec \<Rightarrow> bucket_id \<Rightarrow> fleet \<Rightarrow> fleet \<Rightarrow> bool" where
  "since C b fl0 fl \<equiv> lease_kept C b fl0 fl \<and> term_left C b fl"

lemma stable_since: "stable (lease_rely C b) (since C b fl0)"
  unfolding stable_def lease_rely_def using lease_kept_trans by blast

text \<open>A conditional write on an observed lease, with the next lease above the observed one.\<close>

lemma triple_move_lease:
  assumes "lease_json_ok C" and "\<And>l. dec_lease C bs = Some l \<Longrightarrow> lease_term l \<noteq> - 1 \<Longrightarrow> lease_le l next_l"
    and "\<And>r fl. lease_kept C b fl0 fl \<Longrightarrow> (r \<noteq> Inr None \<Longrightarrow> isl r \<or> lease_at C (fl b) = Some (Some next_l)) \<Longrightarrow> Q r fl"
  shows "triple (lease_rely C b) (\<lambda>fl. since C b fl0 fl \<and> sim.proves (fl b) LEASE_KEY tag (\<lambda>v. v = bs))
    (put_if_match sha b LEASE_KEY tag (enc_lease C next_l)) Q"
proof (rule triple_put_if_match)
  show "stable (lease_rely C b) (\<lambda>fl. since C b fl0 fl \<and> sim.proves (fl b) LEASE_KEY tag (\<lambda>v. v = bs))"
    by (rule stable_conj [OF stable_since stable_proves])
  fix fl v
  assume P: "since C b fl0 fl \<and> sim.proves (fl b) LEASE_KEY tag (\<lambda>v. v = bs)"
  show "Q (Inl e) fl" for e
    using P assms(3) by auto
  show "Q (Inr None) fl"
    using P assms(3) by auto
  assume now: "lookup_tagged (fl b) LEASE_KEY = Some (v, tag)"
  then have v: "v = bs"
    using P sim.proves_current by blast
  let ?fl = "fl(b := snd (store sha LEASE_KEY (enc_lease C next_l) (fl b)))"
  have at: "lease_at C (?fl b) = Some (Some next_l)"
    using assms(1) by (simp add: lease_at_store lease_json_ok_def)
  have "lease_kept C b fl ?fl"
    using P assms(2) lease_at_lookup [OF now, of C] v at by (auto simp: lease_kept_def term_left_def)
  then have kept: "lease_kept C b fl0 ?fl"
    using P lease_kept_trans by blast
  show "Q (Inr (Some (version_etag (next_version (fl b))))) ?fl" "Q (Inl (StoreError sg)) ?fl" for sg
    using at assms(3) [OF kept] by auto
qed

lemma provesI_now:
  "fleet_wf fl \<Longrightarrow> lookup_tagged (fl b) k = Some (bs, t) \<Longrightarrow> sim.proves (fl b) k t (\<lambda>v. v = bs)"
  by (rule sim.provesI) (auto simp: fleet_wf_def evolves_same_objects)

text \<open>The result of the storage read that starts both operations, carried to the write.\<close>

definition seen :: "lease_codec \<Rightarrow> bucket_id \<Rightarrow> fleet \<Rightarrow> (bytes \<times> string) option \<Rightarrow> fleet \<Rightarrow> bool" where
  "seen C b fl0 found fl =
     (since C b fl0 fl \<and> (case found of None \<Rightarrow> True | Some (bs, t) \<Rightarrow> sim.proves (fl b) LEASE_KEY t (\<lambda>v. v = bs)))"

lemma triple_read_lease:
  "triple (lease_rely C b) (since C b fl0) (get_with_etag b LEASE_KEY) (both (lease_kept C b fl0) (seen C b fl0))"
  by (rule triple_get_with_etag [OF stable_since])
    (auto simp: seen_def provesI_now split: option.splits)

definition held_by :: "lease_codec \<Rightarrow> lease_manager \<Rightarrow> bucket_id \<Rightarrow> int \<Rightarrow> fleet \<Rightarrow> bool" where
  "held_by C m b now_s fl =
     (\<exists>t. lease_at C (fl b) = Some (Some \<lparr>holder = lm_holder m, lease_term = t,
                                         expires_at = wrap_i64 (now_s + lm_ttl_secs m)\<rparr>))"

text \<open>The outcome of \<open>try_hold\<close>: the order is kept, and \<open>true\<close> means the lease is ours.\<close>

abbreviation hold_post :: "lease_codec \<Rightarrow> lease_manager \<Rightarrow> bucket_id \<Rightarrow> int \<Rightarrow> fleet \<Rightarrow> bool res \<Rightarrow> fleet \<Rightarrow> bool" where
  "hold_post C m b now_s fl0 r fl \<equiv> lease_kept C b fl0 fl \<and> (r = Inr True \<longrightarrow> held_by C m b now_s fl)"

lemma triple_hold_write:
  assumes "lease_json_ok C"
    and "\<And>l. dec_lease C bs = Some l \<Longrightarrow> lease_term l \<noteq> - 1 \<Longrightarrow>
      lease_le l \<lparr>holder = lm_holder m, lease_term = t, expires_at = wrap_i64 (now_s + lm_ttl_secs m)\<rparr>"
  shows "triple (lease_rely C b) (seen C b fl0 (Some (bs, tag)))
    (andThen (put_if_match sha b LEASE_KEY tag (lease_json C m t now_s)) (\<lambda>r. ret (r \<noteq> None))) (hold_post C m b now_s fl0)"
proof (rule triple_andThen)
  show "triple (lease_rely C b) (seen C b fl0 (Some (bs, tag)))
    (put_if_match sha b LEASE_KEY tag (lease_json C m t now_s))
    (both (lease_kept C b fl0) (\<lambda>r fl. lease_kept C b fl0 fl \<and> (r \<noteq> None \<longrightarrow> held_by C m b now_s fl)))"
    unfolding lease_json_def seen_def option.case prod.case
    by (rule triple_move_lease [OF assms]) (auto simp: both_def held_by_def split: sum.splits)
qed (auto intro!: triple_ret)

lemma triple_hold_create:
  assumes "lease_json_ok C"
  shows "triple (lease_rely C b) (since C b fl0)
    (andThen (put_if_none_match sha b LEASE_KEY (lease_json C m 1 now_s)) (\<lambda>r. ret (r \<noteq> None))) (hold_post C m b now_s fl0)"
proof (rule triple_andThen)
  show "triple (lease_rely C b) (since C b fl0) (put_if_none_match sha b LEASE_KEY (lease_json C m 1 now_s))
    (both (lease_kept C b fl0) (\<lambda>r fl. lease_kept C b fl0 fl \<and> (r \<noteq> None \<longrightarrow> held_by C m b now_s fl)))"
  proof (rule triple_put_if_none_match [OF stable_since])
    fix fl and r :: "string option res"
    assume fl: "since C b fl0 fl"
    show "both (lease_kept C b fl0) (\<lambda>r fl. lease_kept C b fl0 fl \<and> (r \<noteq> None \<longrightarrow> held_by C m b now_s fl))
      r (fl(b := create_lost sha LEASE_KEY (fl b)))" if "r = Inr None \<or> unanswered r"
      using fl that by (auto simp: lease_kept_def)
    assume r: "r = Inr (Some (version_etag (next_version (fl b)))) \<or> unanswered r"
    assume "\<not> contains_key (fl b) LEASE_KEY"
    then have "lease_kept C b fl fl'" for fl'
      using lease_at_absent by (simp add: lease_kept_def)
    then have "lease_kept C b fl0 (fl(b := snd (store sha LEASE_KEY (lease_json C m 1 now_s) (fl b))))"
      using fl lease_kept_trans by blast
    then show "both (lease_kept C b fl0) (\<lambda>r fl. lease_kept C b fl0 fl \<and> (r \<noteq> None \<longrightarrow> held_by C m b now_s fl))
      r (fl(b := snd (store sha LEASE_KEY (lease_json C m 1 now_s) (fl b))))"
      using r assms by (auto simp: held_by_def lease_at_store lease_json_def lease_json_ok_def)
  qed simp
qed (auto intro!: triple_ret)

lemma renew_le: "holder l = h \<Longrightarrow> lease_le l \<lparr>holder = h, lease_term = lease_term l, expires_at = e\<rparr>"
  by (simp add: lease_le_def)

lemma steal_le: "lease_term l \<noteq> - 1 \<Longrightarrow> lease_le l \<lparr>holder = h, lease_term = lease_term l + 1, expires_at = e\<rparr>"
  using saturating_add_one [of "lease_term l"] by (auto simp: lease_le_def)

lemma triple_try_hold:
  assumes "lease_json_ok C"
  shows "triple (lease_rely C b) (since C b fl0) (try_hold sha C m b now_s) (hold_post C m b now_s fl0)"
  unfolding try_hold_def
proof (rule triple_andThen [OF triple_read_lease])
  fix found
  show "triple (lease_rely C b) (seen C b fl0 found)
    (case found of None \<Rightarrow> andThen (put_if_none_match sha b LEASE_KEY (lease_json C m 1 now_s)) (\<lambda>r. ret (r \<noteq> None))
     | Some (bs, etag) \<Rightarrow>
           (let current = (case dec_lease C bs of Some l \<Rightarrow> l | None \<Rightarrow> \<lparr>holder = [], lease_term = 0, expires_at = 0\<rparr>)
            in if holder current = lm_holder m then
                 andThen (put_if_match sha b LEASE_KEY etag (lease_json C m (lease_term current) now_s)) (\<lambda>r. ret (r \<noteq> None))
               else if now_s > expires_at current
                  \<or> expires_at current > wrap_i64 (now_s + wrap_i64 (3 * lm_ttl_secs m)) then
                 andThen (put_if_match sha b LEASE_KEY etag (lease_json C m (lease_term current + 1) now_s)) (\<lambda>r. ret (r \<noteq> None))
               else ret False)) (hold_post C m b now_s fl0)"
  proof (cases found)
    case None
    have "seen C b fl0 None = since C b fl0"
      by (simp add: seen_def fun_eq_iff)
    then show ?thesis
      unfolding None option.case by (simp only: triple_hold_create [OF assms])
  next
    case (Some p)
    obtain bs etag where p: "p = (bs, etag)"
      by fastforce
    show ?thesis
      unfolding Some p option.case prod.case Let_def
      by (intro triple_if triple_hold_write [OF assms] triple_ret) (auto simp: renew_le steal_le seen_def)
  qed
qed auto

lemma triple_lease_release:
  assumes "lease_json_ok C"
  shows "triple (lease_rely C b) (since C b fl0) (lease_release sha C m b) (\<lambda>_. lease_kept C b fl0)"
  unfolding lease_release_def
proof (rule triple_onResult [OF triple_read_lease])
  fix found
  show "triple (lease_rely C b) (both (lease_kept C b fl0) (seen C b fl0) (Inr found))
    (case found of None \<Rightarrow> ret () | Some (bs, etag) \<Rightarrow>
       (case dec_lease C bs of None \<Rightarrow> ret ()
        | Some l \<Rightarrow> if holder l = lm_holder m then
             onResult (put_if_match sha b LEASE_KEY etag (enc_lease C \<lparr>holder = [], lease_term = lease_term l, expires_at = 0\<rparr>))
               (\<lambda>_. ret ()) (\<lambda>_. ret ())
           else ret ())) (\<lambda>_. lease_kept C b fl0)"
  proof (cases found)
    case (Some p)
    obtain bs etag where p: "p = (bs, etag)"
      by fastforce
    have give_up: "triple (lease_rely C b) (seen C b fl0 (Some (bs, etag)))
        (put_if_match sha b LEASE_KEY etag (enc_lease C \<lparr>holder = [], lease_term = lease_term l, expires_at = 0\<rparr>))
        (\<lambda>_. lease_kept C b fl0)" if "dec_lease C bs = Some l" for l
      unfolding seen_def option.case prod.case
      by (rule triple_move_lease [OF assms]) (use that in \<open>auto simp: lease_le_def\<close>)
    have kept: "seen C b fl0 x fl \<Longrightarrow> lease_kept C b fl0 fl" for x fl
      by (simp add: seen_def)
    show ?thesis
    proof (cases "dec_lease C bs")
      case None
      then show ?thesis
        unfolding Some p option.case prod.case both_simps None by (intro triple_ret kept)
    next
      case l: (Some l)
      show ?thesis
        unfolding Some p option.case prod.case both_simps l
        by (intro triple_if triple_onResult [OF give_up [OF l]] triple_ret) (auto dest: kept)
    qed
  qed (auto intro!: triple_ret simp: seen_def)
qed (auto intro!: triple_ret)

section \<open>Properties\<close>

text \<open>The two operations that move the lease.\<close>

datatype lease_op = Hold int | Release

fun run_lease_op :: "(bytes \<Rightarrow> bytes) \<Rightarrow> lease_codec \<Rightarrow> lease_manager \<Rightarrow> bucket_id \<Rightarrow> lease_op \<Rightarrow> bool act" where
  "run_lease_op sha C m b (Hold now_s) = is_leader sha C m b now_s"
| "run_lease_op sha C m b Release = andThen (lease_release sha C m b) (\<lambda>_. ret False)"

text \<open>
  C33: one holder per lease term, whatever interleaves. With peers that keep to the same order,
  a heartbeat or a release never lowers the term of a readable lease, and never hands a term to
  a second holder: within a term the lease stays where it is or is given up. A heartbeat that
  answers \<open>true\<close> left its own lease standing, good until \<open>now + ttl\<close>.
\<close>

theorem lease_one_holder_per_term:
  assumes "lease_json_ok C" and "obeys (lease_rely C b) w" and "term_left C b (buckets w)"
    and "run_lease_op sha C m b opn w = (r, w')"
  shows "(\<forall>l. lease_at C (buckets w b) = Some (Some l) \<longrightarrow>
       (\<exists>l'. lease_at C (buckets w' b) = Some (Some l') \<and>
          (lease_term l < lease_term l' \<or> lease_term l = lease_term l' \<and> (holder l' = holder l \<or> holder l' = []))))
    \<and> (\<forall>now_s. opn = Hold now_s \<and> r = Inr True \<longrightarrow> held_by C m b now_s (buckets w'))"
proof -
  let ?Q = "\<lambda>r fl. lease_kept C b (buckets w) fl \<and> (\<forall>now_s. opn = Hold now_s \<and> r = Inr True \<longrightarrow> held_by C m b now_s fl)"
  have "triple (lease_rely C b) (since C b (buckets w)) (run_lease_op sha C m b opn) ?Q"
  proof (cases opn)
    case (Hold now_s)
    then show ?thesis
      unfolding Hold run_lease_op.simps is_leader_def
      by (intro triple_onResult [OF triple_try_hold [OF assms(1)]] triple_ret) auto
  next
    case Release
    then show ?thesis
      unfolding Release run_lease_op.simps
      by (intro triple_andThen [where E = "lease_kept C b (buckets w)" and R = "\<lambda>_. lease_kept C b (buckets w)"]
          triple_conseq [OF triple_lease_release [OF assms(1)]] triple_ret)
        (auto simp: both_def split: sum.splits)
  qed
  from tripleD [OF this assms(2) _ assms(4)] show ?thesis
    using assms(3) lease_kept_refl [of C b] unfolding lease_kept_def lease_le_def by blast
qed

text \<open>A codec for the witnesses: the three fields, separated.\<close>

definition plain_lease_codec :: lease_codec where
  "plain_lease_codec =
     \<lparr>enc_lease = (\<lambda>l. show_nat (unat (lease_term l)) @ ''/''
         @ (if expires_at l < 0 then ''-'' else ''+'') @ show_nat (nat \<bar>expires_at l\<bar>) @ ''/'' @ holder l),
      dec_lease = (\<lambda>bs. case split_once bs (CHR ''/'') of None \<Rightarrow> None
        | Some (t, rest) \<Rightarrow> (case split_once rest (CHR ''/'') of None \<Rightarrow> None
        | Some (e, h) \<Rightarrow> Some \<lparr>holder = h, lease_term = of_nat (digits_val t),
            expires_at = (if hd e = CHR ''-'' then - int (digits_val (tl e)) else int (digits_val (tl e)))\<rparr>))\<rparr>"

lemma show_nat_no_slash: "CHR ''/'' \<notin> set (show_nat n)"
  using show_nat_digits [of n] by (auto simp: list_all_iff is_ascii_digit_def)

lemma plain_lease_codec_ok: "lease_json_ok plain_lease_codec"
  unfolding lease_json_ok_def
proof
  fix l :: lease
  have "split_once (show_nat (unat (lease_term l)) @ CHR ''/'' # r) (CHR ''/'') = Some (show_nat (unat (lease_term l)), r)" for r
    by (rule split_once_append [OF show_nat_no_slash])
  moreover have "split_once ((c # show_nat n) @ CHR ''/'' # r) (CHR ''/'') = Some (c # show_nat n, r)" if "c \<noteq> CHR ''/''" for c n r
    using that show_nat_no_slash by (intro split_once_append) simp
  ultimately show "dec_lease plain_lease_codec (enc_lease plain_lease_codec l) = Some l"
    by (cases "expires_at l < 0") (simp_all add: plain_lease_codec_def digits_val_show_nat)
qed

text \<open>A node whose lease a peer steals, at the next term, before the heartbeat's first call.\<close>

definition node :: "string \<Rightarrow> lease_manager" where
  "node h = lease_manager_new h 30"

definition peer_steals :: "fleet \<Rightarrow> fleet" where
  "peer_steals fl =
     (case lease_at plain_lease_codec (fl 0) of
        Some (Some l) \<Rightarrow>
          if lease_term l < 5
          then fl(0 := snd (store (\<lambda>x. x) LEASE_KEY
                 (lease_json plain_lease_codec (node ''peer'') (lease_term l + 1) 100) (fl 0)))
          else fl
      | _ \<Rightarrow> fl)"

lemma peer_steals_obeys:
  assumes "fleet_wf fl"
  shows "fleet_wf (peer_steals fl) \<and> fleet_evolves fl (peer_steals fl) \<and> lease_rely plain_lease_codec 0 fl (peer_steals fl)"
proof (cases "\<exists>l. lease_at plain_lease_codec (fl 0) = Some (Some l) \<and> lease_term l < 5")
  case True
  then obtain l where l: "lease_at plain_lease_codec (fl 0) = Some (Some l)" "lease_term l < 5"
    by blast
  let ?new = "\<lparr>holder = ''peer'', lease_term = lease_term l + 1, expires_at = wrap_i64 (100 + lm_ttl_secs (node ''peer''))\<rparr>"
  have at: "lease_at plain_lease_codec (peer_steals fl 0) = Some (Some ?new)"
    using l plain_lease_codec_ok
    by (simp add: peer_steals_def lease_at_store lease_json_def lease_json_ok_def node_def lease_manager_new_def)
  have "lease_term l \<noteq> - 1"
    using l(2) by auto
  moreover from l(2) have "unat (lease_term l) < 5"
    by (simp add: word_less_nat_alt)
  then have "lease_term l + 1 \<noteq> - 1"
    using saturating_add_one [of "lease_term l + 1"] saturating_add_one [of "lease_term l"]
    by (simp add: word_unat_eq_iff unat_word_ariths unsigned_minus_1_eq_mask mask_eq_exp_minus_1)
  ultimately have "lease_rely plain_lease_codec 0 fl (peer_steals fl)"
    using l at steal_le [of l] by (auto simp: lease_rely_def lease_kept_def term_left_def)
  then show ?thesis
    using l assms by (simp add: peer_steals_def fleet_wf_def fleet_evolves_def store_wf_store store_evolves)
next
  case False
  then have "peer_steals fl = fl"
    by (auto simp: peer_steals_def split: option.splits)
  then show ?thesis
    using assms lease_kept_refl by (simp add: lease_rely_def)
qed

theorem lease_one_holder_per_term_witness:
  "let s = snd (store (\<lambda>x. x) LEASE_KEY (lease_json plain_lease_codec (node ''me'') 1 90) (inner_default 0));
       w = (quiet (\<lambda>_. s))\<lparr>script := [Answered peer_steals, Halt]\<rparr>;
       w' = snd (run_lease_op (\<lambda>x. x) plain_lease_codec (node ''me'') 0 (Hold 110) w)
   in \<exists>l'. lease_at plain_lease_codec (buckets w' 0) = Some (Some l') \<and> (lease_term l' = 1 \<longrightarrow> holder l' = ''me'' \<or> holder l' = [])"
proof -
  let ?s = "snd (store (\<lambda>x. x) LEASE_KEY (lease_json plain_lease_codec (node ''me'') 1 90) (inner_default 0))"
  let ?w = "(quiet (\<lambda>_. ?s))\<lparr>script := [Answered peer_steals, Halt]\<rparr>"
  obtain r w' where run: "run_lease_op (\<lambda>x. x) plain_lease_codec (node ''me'') 0 (Hold 110) ?w = (r, w')"
    by fastforce
  have at: "lease_at plain_lease_codec ?s = Some (Some \<lparr>holder = ''me'', lease_term = 1, expires_at = wrap_i64 (90 + lm_ttl_secs (node ''me''))\<rparr>)"
    using plain_lease_codec_ok by (simp add: lease_at_store lease_json_def lease_json_ok_def node_def lease_manager_new_def)
  have "obeys (lease_rely plain_lease_codec 0) ?w"
    using peer_steals_obeys by (simp add: obeys_def quiet_def fleet_wf_def store_wf_store store_wf_default)
  moreover have "term_left plain_lease_codec 0 (buckets ?w)"
    using at by (simp add: term_left_def quiet_def)
  ultimately show ?thesis
    using lease_one_holder_per_term [OF plain_lease_codec_ok _ _ run] at run by (auto simp: Let_def quiet_def)
qed

text \<open>
  an undisturbed heartbeat takes the lease exactly when it may. With no lease it creates
  term 1; its own lease it renews in the same term; a foreign lease that is live (not past its
  expiry and not dated beyond three TTLs) it leaves alone, changing nothing; an expired, bogus or
  unreadable one it takes over in the next term.
\<close>

theorem try_hold_outcome:
  assumes "lease_json_ok C" and "script w = []" and "store_wf (buckets w b)" and "next_version (buckets w b) \<le> 2 ^ 64"
  shows "case lease_at C (buckets w b) of
      None \<Rightarrow> \<exists>w'. try_hold sha C m b now_s w = (Inr True, w')
        \<and> lease_at C (buckets w' b) = Some (Some \<lparr>holder = lm_holder m, lease_term = 1, expires_at = wrap_i64 (now_s + lm_ttl_secs m)\<rparr>)
    | Some v \<Rightarrow>
        (let l = (case v of Some l \<Rightarrow> l | None \<Rightarrow> \<lparr>holder = [], lease_term = 0, expires_at = 0\<rparr>);
             live = (now_s \<le> expires_at l \<and> expires_at l \<le> wrap_i64 (now_s + wrap_i64 (3 * lm_ttl_secs m)));
             own = (holder l = lm_holder m)
         in if live \<and> \<not> own then try_hold sha C m b now_s w = (Inr False, w)
            else \<exists>w'. try_hold sha C m b now_s w = (Inr True, w')
              \<and> lease_at C (buckets w' b) = Some (Some \<lparr>holder = lm_holder m,
                   lease_term = (if own then lease_term l else lease_term l + 1), expires_at = wrap_i64 (now_s + lm_ttl_secs m)\<rparr>))"
proof (cases "lookup_tagged (buckets w b) LEASE_KEY")
  case None
  then have "lease_at C (buckets w b) = None" and "\<not> contains_key (buckets w b) LEASE_KEY"
    by (simp_all add: lease_at_absent lookup_tagged_None_iff)
  then show ?thesis
    using assms(1,2) None unfolding try_hold_def
    by (simp add: andThen_def quiet_simps ret_def lease_at_store lease_json_def lease_json_ok_def)
next
  case (Some p)
  obtain bs tag where p: "p = (bs, tag)"
    by fastforce
  have at: "lease_at C (buckets w b) = Some (dec_lease C bs)"
    using Some p lease_at_lookup by simp
  have v: "versioned tag"
    using versioned_lookup [OF assms(3,4)] Some p by simp
  let ?l = "case dec_lease C bs of Some l \<Rightarrow> l | None \<Rightarrow> \<lparr>holder = [], lease_term = 0, expires_at = 0\<rparr>"
  have put: "andThen (put_if_match sha b LEASE_KEY tag (lease_json C m t now_s)) (\<lambda>r. ret (r \<noteq> None)) w =
      (Inr True, w\<lparr>buckets := (buckets w)(b := snd (store sha LEASE_KEY (lease_json C m t now_s) (buckets w b)))\<rparr>)" for t
    using assms(2) v Some p by (simp add: andThen_def quiet_simps ret_def)
  have stored: "lease_at C (snd (store sha LEASE_KEY (lease_json C m t now_s) (buckets w b))) =
      Some (Some \<lparr>holder = lm_holder m, lease_term = t, expires_at = wrap_i64 (now_s + lm_ttl_secs m)\<rparr>)" for t
    using assms(1) by (simp add: lease_at_store lease_json_def lease_json_ok_def)
  have run: "try_hold sha C m b now_s w =
     (if holder ?l = lm_holder m then andThen (put_if_match sha b LEASE_KEY tag (lease_json C m (lease_term ?l) now_s)) (\<lambda>r. ret (r \<noteq> None))
      else if now_s > expires_at ?l \<or> expires_at ?l > wrap_i64 (now_s + wrap_i64 (3 * lm_ttl_secs m))
      then andThen (put_if_match sha b LEASE_KEY tag (lease_json C m (lease_term ?l + 1) now_s)) (\<lambda>r. ret (r \<noteq> None))
      else ret False) w"
    using assms(2) Some p unfolding try_hold_def andThen_def [of "get_with_etag b LEASE_KEY"]
    by (simp only: get_with_etag_quiet option.case prod.case sum.case Let_def)
  show ?thesis
    unfolding at option.case Let_def run using put stored by (auto simp: ret_def)
qed

theorem try_hold_outcome_witness:
  "let s = snd (store (\<lambda>x. x) LEASE_KEY (lease_json plain_lease_codec (node ''peer'') 4 100) (inner_default 0));
       w = quiet (\<lambda>_. s)
   in try_hold (\<lambda>x. x) plain_lease_codec (node ''me'') 0 110 w = (Inr False, w)
    \<and> fst (try_hold (\<lambda>x. x) plain_lease_codec (node ''me'') 0 131 w) = Inr True"
proof -
  let ?s = "snd (store (\<lambda>x. x) LEASE_KEY (lease_json plain_lease_codec (node ''peer'') 4 100) (inner_default 0))"
  let ?w = "quiet (\<lambda>_. ?s)"
  have ttl: "lm_ttl_secs (node h) = 30" for h
    by (simp add: node_def lease_manager_new_def)
  have at: "lease_at plain_lease_codec ?s = Some (Some \<lparr>holder = ''peer'', lease_term = 4, expires_at = 130\<rparr>)"
    using plain_lease_codec_ok
    by (simp add: lease_at_store lease_json_def lease_json_ok_def ttl wrap_i64_def) (simp add: node_def lease_manager_new_def)
  have "script ?w = []" "store_wf (buckets ?w 0)" "next_version (buckets ?w 0) \<le> 2 ^ 64"
    by (simp_all add: quiet_def store_wf_store store_wf_default next_version_store)
  then show ?thesis
    using try_hold_outcome [OF plain_lease_codec_ok, of ?w 0 "\<lambda>x. x" "node ''me''" 110]
      try_hold_outcome [OF plain_lease_codec_ok, of ?w 0 "\<lambda>x. x" "node ''me''" 131] at
    unfolding quiet_def by (auto simp: Let_def ttl wrap_i64_def) (simp_all add: node_def lease_manager_new_def)
qed

end
