(* ===== verification/Removal.thy ===== *)
theory Removal
  imports Markers
begin

text \<open>
  What the store's removal oracle (\<open>src/sim.rs\<close>) says of the deletes the protocols issue: which keys
  are artifact bodies, what each delete adds to \<open>untyped_disappearances\<close>, and the rely under which
  fences observed by one process still stand when its delete arrives.
\<close>

section \<open>Companions are never artifact bodies\<close>

lemma marker_suffixes_no_slash: "s \<in> set marker_suffixes \<Longrightarrow> CHR ''/'' \<notin> set s"
  by (auto simp: marker_suffixes_def suffix_defs)

lemma suffix_of_tail:
  assumes "k @ s = p @ CHR ''/'' # n" and "CHR ''/'' \<notin> set s"
  shows "ends_with n s"
  using assms by (auto simp: append_eq_append_conv2 ends_with_iff append_eq_Cons_conv)

lemma companion_not_canonical:
  assumes "s \<in> set marker_suffixes"
  shows "\<not> is_canonical_artifact (k @ s)"
proof
  assume "is_canonical_artifact (k @ s)"
  then obtain pkg n where split: "k @ s = ''packages/'' @ pkg @ CHR ''/'' # n" and "is_artifact n"
    by (auto simp: is_canonical_artifact_def split_artifact_key_def strip_prefix_Some_iff
        split: option.splits if_splits dest!: split_once_SomeD)
  have "ends_with n s"
    using suffix_of_tail [of k s "''packages/'' @ pkg" n] split marker_suffixes_no_slash [OF assms] by simp
  then show False
    using is_artifact_no_marker [OF \<open>is_artifact n\<close> assms] by simp
qed

lemma markers_in [simp]:
  "SIDECAR_SUFFIX \<in> set marker_suffixes" "METADATA_SUFFIX \<in> set marker_suffixes"
  "PROVENANCE_SUFFIX \<in> set marker_suffixes" "TOMBSTONE_SUFFIX \<in> set marker_suffixes"
  "FROZEN_SUFFIX \<in> set marker_suffixes" "MIRROR_QUARANTINED_SUFFIX \<in> set marker_suffixes"
  "SUPERSEDING_SUFFIX \<in> set marker_suffixes"
  by (simp_all add: marker_suffixes_def)

lemma companions_not_canonical [simp]:
  "\<not> is_canonical_artifact (sidecar_key k)" "\<not> is_canonical_artifact (metadata_key k)"
  "\<not> is_canonical_artifact (provenance_key k)" "\<not> is_canonical_artifact (tombstone_key k)"
  "\<not> is_canonical_artifact (frozen_key k)" "\<not> is_canonical_artifact (mirror_quarantined_key k)"
  "\<not> is_canonical_artifact (superseding_key k)"
  by (simp_all add: key_defs companion_not_canonical)

lemma same_artifact_keys [simp]:
  "k \<noteq> sidecar_key k" "k \<noteq> metadata_key k" "k \<noteq> provenance_key k" "k \<noteq> tombstone_key k"
  "k \<noteq> frozen_key k" "k \<noteq> mirror_quarantined_key k" "k \<noteq> superseding_key k" "sidecar_key k \<noteq> k"
  "sidecar_key k \<noteq> metadata_key k" "sidecar_key k \<noteq> provenance_key k" "sidecar_key k \<noteq> tombstone_key k"
  "sidecar_key k \<noteq> frozen_key k" "sidecar_key k \<noteq> mirror_quarantined_key k"
  "sidecar_key k \<noteq> superseding_key k" "metadata_key k \<noteq> k" "metadata_key k \<noteq> sidecar_key k"
  "metadata_key k \<noteq> provenance_key k" "metadata_key k \<noteq> tombstone_key k" "metadata_key k \<noteq> frozen_key k"
  "metadata_key k \<noteq> mirror_quarantined_key k" "metadata_key k \<noteq> superseding_key k"
  "provenance_key k \<noteq> k" "provenance_key k \<noteq> sidecar_key k" "provenance_key k \<noteq> metadata_key k"
  "provenance_key k \<noteq> tombstone_key k" "provenance_key k \<noteq> frozen_key k"
  "provenance_key k \<noteq> mirror_quarantined_key k" "provenance_key k \<noteq> superseding_key k"
  "tombstone_key k \<noteq> k" "tombstone_key k \<noteq> sidecar_key k" "tombstone_key k \<noteq> metadata_key k"
  "tombstone_key k \<noteq> provenance_key k" "tombstone_key k \<noteq> frozen_key k"
  "tombstone_key k \<noteq> mirror_quarantined_key k" "tombstone_key k \<noteq> superseding_key k" "frozen_key k \<noteq> k"
  "frozen_key k \<noteq> sidecar_key k" "frozen_key k \<noteq> metadata_key k" "frozen_key k \<noteq> provenance_key k"
  "frozen_key k \<noteq> tombstone_key k" "frozen_key k \<noteq> mirror_quarantined_key k"
  "frozen_key k \<noteq> superseding_key k" "mirror_quarantined_key k \<noteq> k"
  "mirror_quarantined_key k \<noteq> sidecar_key k" "mirror_quarantined_key k \<noteq> metadata_key k"
  "mirror_quarantined_key k \<noteq> provenance_key k" "mirror_quarantined_key k \<noteq> tombstone_key k"
  "mirror_quarantined_key k \<noteq> frozen_key k" "mirror_quarantined_key k \<noteq> superseding_key k"
  "superseding_key k \<noteq> k" "superseding_key k \<noteq> sidecar_key k" "superseding_key k \<noteq> metadata_key k"
  "superseding_key k \<noteq> provenance_key k" "superseding_key k \<noteq> tombstone_key k"
  "superseding_key k \<noteq> frozen_key k" "superseding_key k \<noteq> mirror_quarantined_key k"
  by (simp_all add: key_defs suffix_defs)

lemma canonical_in_packages: "is_canonical_artifact k \<Longrightarrow> starts_with k ''packages/''"
  by (auto simp: is_canonical_artifact_def split_artifact_key_def strip_prefix_def split: option.splits if_splits)

lemma outside_packages_not_canonical: "\<not> starts_with k ''packages/'' \<Longrightarrow> \<not> is_canonical_artifact k"
  using canonical_in_packages by blast

lemma split_artifact_key_package:
  "CHR ''/'' \<notin> set pkg \<Longrightarrow> CHR ''/'' \<notin> set f \<Longrightarrow> is_artifact f \<Longrightarrow>
    split_artifact_key (PACKAGES_PREFIX @ pkg @ ''/'' @ f) = Some (pkg, f)"
  using split_once_append [of "CHR ''/''" pkg f]
  by (simp add: split_artifact_key_def PACKAGES_PREFIX_def strip_prefix_def)

section \<open>What one delete does to the oracle\<close>

lemma untyped_delete_other: "\<not> is_canonical_artifact k \<Longrightarrow> untyped_disappearances (delete_key sha k s) = untyped_disappearances s"
  by (simp add: delete_key_def Let_def split: option.splits)

lemma barred_after_removal: "upload_barred (s\<lparr>objects := bt_remove k (objects s)\<rparr>) k = upload_barred s k"
  by (simp add: upload_barred_def contains_key_def bt.get_remove key_defs suffix_defs)

lemma removal_authorized_cong:
  "objects s' = objects s \<Longrightarrow> removal_authorized sha s' k bs = removal_authorized sha s k bs"
  by (auto simp: removal_authorized_def upload_barred_def contains_key_def split: option.splits)

lemma removal_authorized_after:
  "is_canonical_artifact k \<Longrightarrow> removal_authorized sha (s\<lparr>objects := bt_remove k (objects s)\<rparr>) k bs = removal_authorized sha s k bs"
proof -
  assume "is_canonical_artifact k"
  then have "quarantine_key p f h \<noteq> k" for p f h
    using canonical_in_packages [of k] by (auto simp: quarantine_key_def QUARANTINE_PREFIX_def)
  then show ?thesis
    by (simp add: removal_authorized_def barred_after_removal contains_key_def bt.get_remove split: option.splits)
qed

text \<open>A body leaves an untyped trace exactly when nothing authorized its removal.\<close>

lemma untyped_delete_body:
  assumes "object_at s k = Some ob" and "is_canonical_artifact k"
  shows "untyped_disappearances (delete_key sha k s) =
    untyped_disappearances s @ (if removal_authorized sha s k (obj_bytes ob) then [] else [k])"
  using assms removal_authorized_after [OF assms(2), of sha s "obj_bytes ob"]
    removal_authorized_cong [of "s\<lparr>objects := bt_remove k (objects s), body_removals := Suc (body_removals s)\<rparr>"
      "s\<lparr>objects := bt_remove k (objects s)\<rparr>" sha k "obj_bytes ob"]
  by (simp add: delete_key_def Let_def)

lemma untyped_delete_companions:
  "list_all (\<lambda>k. \<not> is_canonical_artifact k) ks \<Longrightarrow>
    untyped_disappearances (fold (delete_key sha) ks s) = untyped_disappearances s"
  by (induction ks arbitrary: s) (simp_all add: untyped_delete_other)

lemma body_removals_delete_companions:
  "list_all (\<lambda>k. \<not> is_canonical_artifact k) ks \<Longrightarrow> body_removals (fold (delete_key sha) ks s) = body_removals s"
  by (induction ks arbitrary: s) (simp_all add: delete_key_def Let_def split: option.splits)

text \<open>A body and its companions, deleted together under a standing fence.\<close>

lemma untyped_delete_fenced:
  assumes "upload_barred s k" and "list_all (\<lambda>k. \<not> is_canonical_artifact k) ks"
  shows "untyped_disappearances (fold (delete_key sha) (k # ks) s) = untyped_disappearances s"
proof -
  have "untyped_disappearances (delete_key sha k s) = untyped_disappearances s"
  proof (cases "is_canonical_artifact k")
    case True
    show ?thesis
    proof (cases "object_at s k")
      case None
      then show ?thesis
        by (simp add: delete_key_def)
    next
      case (Some ob)
      then show ?thesis
        using untyped_delete_body [OF Some True] assms(1) by (simp add: removal_authorized_def)
    qed
  qed (rule untyped_delete_other)
  then show ?thesis
    using untyped_delete_companions [OF assms(2)] by simp
qed

lemma untyped_store [simp]: "untyped_disappearances (snd (store sha k bs s)) = untyped_disappearances s"
  by (simp add: store_def Let_def)

lemma untyped_create_lost [simp]: "untyped_disappearances (create_lost sha k s) = untyped_disappearances s"
  by (simp add: create_lost_def Let_def split: option.splits)

lemma contains_key_store: "contains_key (snd (store sha k bs s)) k' \<longleftrightarrow> k' = k \<or> contains_key s k'"
  by (simp add: contains_key_def object_at_store)

lemma contains_key_create_lost [simp]: "contains_key (create_lost sha k s) k' = contains_key s k'"
  by (simp add: contains_key_def)

lemma contains_key_delete_keys: "contains_key (fold (delete_key sha) ks s) k \<longleftrightarrow> k \<notin> set ks \<and> contains_key s k"
  by (simp add: contains_key_def object_at_delete_keys)

section \<open>Fences that persist\<close>

text \<open>
  The rely of the removal protocols on bucket \<open>b\<close>: peers never take down a tombstone, a freeze marker
  or a preserved quarantine copy (none of them is ever expired), and account for every body they
  remove.
\<close>

definition durable_marker :: "string \<Rightarrow> bool" where
  "durable_marker k = (ends_with k TOMBSTONE_SUFFIX \<or> ends_with k FROZEN_SUFFIX \<or> starts_with k QUARANTINE_PREFIX)"

definition fences_persist :: "bucket_id \<Rightarrow> fleet \<Rightarrow> fleet \<Rightarrow> bool" where
  "fences_persist b fl fl' =
     ((\<forall>k. durable_marker k \<longrightarrow> contains_key (fl b) k \<longrightarrow> contains_key (fl' b) k) \<and>
      untyped_disappearances (fl' b) = untyped_disappearances (fl b))"

lemma durable_fences [simp]: "durable_marker (tombstone_key k)" "durable_marker (frozen_key k)" "durable_marker (quarantine_key p f h)"
  by (simp_all add: durable_marker_def key_defs quarantine_key_def)

lemma stable_accounted: "stable (fences_persist b) (\<lambda>fl. untyped_disappearances (fl b) = u)"
  by (simp add: stable_def fences_persist_def)

lemma stable_fence: "durable_marker k \<Longrightarrow> stable (fences_persist b) (\<lambda>fl. contains_key (fl b) k)"
  by (simp add: stable_def fences_persist_def)

end
