(* ===== verification/Tombstone.thy ===== *)
theory Tombstone
  imports Removal
begin

text \<open>
  \<open>src/tombstone.rs\<close>: writing delete tombstones, finishing deletes a crash interrupted, and sweeping
  the companions of an artifact that never landed. \<open>serde_json\<close> at the tombstone body is the
  parameter \<open>T\<close>; clock readings and the grace window are arguments in whole seconds.
\<close>

section \<open>Definitions\<close>

definition AGE_FLOOR :: int where "AGE_FLOOR = 300"

definition tombstone_write ::
  "(bytes \<Rightarrow> bytes) \<Rightarrow> (string \<Rightarrow> bytes) \<Rightarrow> bucket_id \<Rightarrow> string \<Rightarrow> string \<Rightarrow> unit act" where
  "tombstone_write sha T b artifact_key filename =
     andThen (put_if_absent sha b (tombstone_key artifact_key) (T filename)) (\<lambda>_. ret ())"

definition package_key :: "string \<Rightarrow> string \<Rightarrow> string" where
  "package_key pkg filename = PACKAGES_PREFIX @ pkg @ ''/'' @ filename"

fun complete_interrupted_deletes ::
  "(bytes \<Rightarrow> bytes) \<Rightarrow> bucket_id \<Rightarrow> string \<Rightarrow> string list \<Rightarrow> nat \<Rightarrow> nat act" where
  "complete_interrupted_deletes sha b pkg [] completed = ret completed"
| "complete_interrupted_deletes sha b pkg (filename # rest) completed =
     (let akey = package_key pkg filename in
      andThen (head_exists b (tombstone_key akey)) (\<lambda>fenced.
        if \<not> fenced then complete_interrupted_deletes sha b pkg rest completed
        else andThen (head_exists b (frozen_key akey)) (\<lambda>frozen.
          if frozen then complete_interrupted_deletes sha b pkg rest completed
          else andThen (delete_keys sha b [akey, sidecar_key akey, metadata_key akey, provenance_key akey])
            (\<lambda>_. complete_interrupted_deletes sha b pkg rest (completed + 1)))))"

text \<open>
  The gates of the orphan sweep on one filename: no anchor in the listing, some companion, and
  every companion timed and at least \<open>gate\<close> seconds old.
\<close>

definition orphan_candidate ::
  "(string \<rightharpoonup> nat option) \<Rightarrow> int \<Rightarrow> int \<Rightarrow> string \<Rightarrow> string \<Rightarrow> (string \<times> string list) option" where
  "orphan_candidate listed now_s gate pkg filename =
     (let akey = package_key pkg filename in
      if listed akey \<noteq> None \<or> listed (tombstone_key akey) \<noteq> None \<or> listed (frozen_key akey) \<noteq> None
         \<or> listed (mirror_quarantined_key akey) \<noteq> None
      then None
      else
        (let companions = filter (\<lambda>k. listed k \<noteq> None) [sidecar_key akey, metadata_key akey, provenance_key akey] in
         if companions = [] then None
         else
           (let written = map (\<lambda>k. Option.bind (listed k) (\<lambda>t. t)) companions in
            if list_ex (\<lambda>t. t = None) written then None
            else if \<not> list_all (\<lambda>w. now_s - int w \<ge> gate) (List.map_filter (\<lambda>t. t) written) then None
            else Some (akey, companions))))"

fun drop_candidates ::
  "(bytes \<Rightarrow> bytes) \<Rightarrow> bucket_id \<Rightarrow> string \<Rightarrow> (string \<times> string list) list \<Rightarrow> nat \<Rightarrow> nat act" where
  "drop_candidates sha b pkg [] dropped = ret dropped"
| "drop_candidates sha b pkg ((akey, companions) # rest) dropped =
     andThen (delete_keys sha b companions) (\<lambda>_.
     andThen (head_exists b akey) (\<lambda>appeared.
       andThen (if appeared then mark_dirty sha b pkg else ret ()) (\<lambda>_.
         drop_candidates sha b pkg rest (dropped + 1))))"

definition drop_orphan_companions ::
  "(bytes \<Rightarrow> bytes) \<Rightarrow> int \<Rightarrow> int \<Rightarrow> bucket_id \<Rightarrow> string \<Rightarrow> string list \<Rightarrow> nat act" where
  "drop_orphan_companions sha now_s intent_grace b pkg filenames =
     andThen (list_dir_entries b (PACKAGES_PREFIX @ pkg @ ''/'')) (\<lambda>entries.
       (let listed = map_of (rev (map (\<lambda>e. (fe_key e, fe_last_modified e)) entries));
            age_gate = max intent_grace AGE_FLOOR;
            candidates = List.map_filter (orphan_candidate listed now_s age_gate pkg) filenames
        in if candidates = [] then ret 0
           else andThen (has_live_intent now_s intent_grace b pkg) (\<lambda>live.
             if live then ret 0 else drop_candidates sha b pkg candidates 0)))"

section \<open>Interrupted deletes\<close>

lemma triple_complete_interrupted_deletes:
  "triple (fences_persist b) (\<lambda>fl. untyped_disappearances (fl b) = u)
    (complete_interrupted_deletes sha b pkg fs n) (\<lambda>_ fl. untyped_disappearances (fl b) = u)"
proof (induction fs arbitrary: n)
  case Nil
  then show ?case
    by (simp add: triple_ret)
next
  case (Cons f fs)
  let ?akey = "package_key pkg f" and ?u = "\<lambda>fl. untyped_disappearances (fl b) = u"
  let ?fenced = "\<lambda>fl. ?u fl \<and> contains_key (fl b) (tombstone_key ?akey)"
  have fenced: "stable (fences_persist b) ?fenced"
    by (intro stable_conj stable_accounted stable_fence durable_fences)
  have del: "triple (fences_persist b) ?fenced
      (delete_keys sha b [?akey, sidecar_key ?akey, metadata_key ?akey, provenance_key ?akey]) (both ?u (\<lambda>_. ?u))"
    by (rule triple_delete_keys [OF fenced])
      (use untyped_delete_fenced [of _ ?akey "[sidecar_key ?akey, metadata_key ?akey, provenance_key ?akey]" sha]
        in \<open>auto simp: upload_barred_def\<close>)
  have frozen: "triple (fences_persist b) ?fenced (head_exists b (frozen_key ?akey)) (both ?u (\<lambda>_. ?fenced))"
    by (rule triple_head_exists [OF fenced]) simp_all
  have tomb: "triple (fences_persist b) ?u (head_exists b (tombstone_key ?akey))
      (both ?u (\<lambda>x fl. ?u fl \<and> (x \<longrightarrow> contains_key (fl b) (tombstone_key ?akey))))"
    by (rule triple_head_exists [OF stable_accounted]) simp_all
  have skip: "triple (fences_persist b) ?fenced (complete_interrupted_deletes sha b pkg fs n) (\<lambda>_. ?u)"
    by (rule triple_pre [OF Cons.IH]) simp
  show ?case
    unfolding complete_interrupted_deletes.simps Let_def
  proof (rule triple_andThen [OF tomb])
    fix x
    show "triple (fences_persist b) (\<lambda>fl. ?u fl \<and> (x \<longrightarrow> contains_key (fl b) (tombstone_key ?akey)))
      (if \<not> x then complete_interrupted_deletes sha b pkg fs n
       else andThen (head_exists b (frozen_key ?akey)) (\<lambda>frozen.
          if frozen then complete_interrupted_deletes sha b pkg fs n
          else andThen (delete_keys sha b [?akey, sidecar_key ?akey, metadata_key ?akey, provenance_key ?akey])
            (\<lambda>_. complete_interrupted_deletes sha b pkg fs (n + 1)))) (\<lambda>_. ?u)"
      by (cases x) (auto intro!: triple_andThen [OF frozen] triple_andThen [OF del] skip Cons.IH)
  qed simp
qed

text \<open>Undisturbed, the loop removes exactly the records it found fenced and not frozen.\<close>

definition unfinished :: "inner \<Rightarrow> string \<Rightarrow> string \<Rightarrow> bool" where
  "unfinished s pkg f =
     (contains_key s (tombstone_key (package_key pkg f)) \<and> \<not> contains_key s (frozen_key (package_key pkg f)))"

definition record_keys :: "string \<Rightarrow> string list" where
  "record_keys akey = [akey, sidecar_key akey, metadata_key akey, provenance_key akey]"

lemma package_key_companion_inject:
  assumes "is_artifact f" "is_artifact g" "s \<in> set ([] # marker_suffixes)" "t \<in> set ([] # marker_suffixes)"
  shows "package_key pkg f @ s = package_key pkg g @ t \<longleftrightarrow> f = g \<and> s = t"
  using companion_inject [OF assms, of "PACKAGES_PREFIX @ pkg @ ''/''"] by (auto simp: companion_key_def package_key_def)

lemma marker_not_record:
  assumes "is_artifact f" "is_artifact g" "s \<in> {TOMBSTONE_SUFFIX, FROZEN_SUFFIX, MIRROR_QUARANTINED_SUFFIX, SUPERSEDING_SUFFIX}"
  shows "package_key pkg g @ s \<notin> set (record_keys (package_key pkg f))"
proof -
  have s: "s \<in> set ([] # marker_suffixes)"
    using assms(3) by (auto simp: marker_suffixes_def)
  have "package_key pkg g @ s \<noteq> package_key pkg f @ t" if "t \<in> {[], SIDECAR_SUFFIX, METADATA_SUFFIX, PROVENANCE_SUFFIX}" for t
  proof -
    have "t \<in> set ([] # marker_suffixes)"
      using that by (auto simp: marker_suffixes_def)
    then show ?thesis
      using package_key_companion_inject [OF assms(2,1) s, of t pkg] assms(3) that by (auto simp: suffix_defs)
  qed
  from this [of "[]"] this [of SIDECAR_SUFFIX] this [of METADATA_SUFFIX] this [of PROVENANCE_SUFFIX]
  show ?thesis
    by (auto simp: record_keys_def key_defs)
qed

lemma unfinished_delete:
  assumes "is_artifact f" "is_artifact g"
  shows "unfinished (fold (delete_key sha) (record_keys (package_key pkg f)) s) pkg g = unfinished s pkg g"
  using marker_not_record [OF assms, of TOMBSTONE_SUFFIX] marker_not_record [OF assms, of FROZEN_SUFFIX]
  by (simp add: unfinished_def contains_key_delete_keys key_defs)

lemma bucket_upd_twice:
  "w\<lparr>buckets := (buckets w)(b := x)\<rparr>\<lparr>buckets := (buckets (w\<lparr>buckets := (buckets w)(b := x)\<rparr>))(b := y)\<rparr> =
    w\<lparr>buckets := (buckets w)(b := y)\<rparr>"
  by simp

lemma complete_interrupted_deletes_quiet:
  assumes "script w = []" and "list_all is_artifact fs"
  shows "complete_interrupted_deletes sha b pkg fs n w =
    (Inr (n + length (filter (unfinished (buckets w b) pkg) fs)),
     w\<lparr>buckets := (buckets w)(b := fold (delete_key sha)
        (concat (map (\<lambda>f. record_keys (package_key pkg f)) (filter (unfinished (buckets w b) pkg) fs))) (buckets w b))\<rparr>)"
  using assms
proof (induction fs arbitrary: n w)
  case (Cons f fs)
  let ?akey = "package_key pkg f"
  show ?case
  proof (cases "unfinished (buckets w b) pkg f")
    case True
    let ?w = "w\<lparr>buckets := (buckets w)(b := fold (delete_key sha) (record_keys ?akey) (buckets w b))\<rparr>"
    have same: "filter (unfinished (buckets ?w b) pkg) fs = filter (unfinished (buckets w b) pkg) fs"
      using Cons.prems(2) unfinished_delete by (intro filter_cong) (auto simp: list_all_iff)
    have "complete_interrupted_deletes sha b pkg (f # fs) n w = complete_interrupted_deletes sha b pkg fs (n + 1) ?w"
      using True Cons.prems(1)
      by (simp add: Let_def andThen_def quiet_simps unfinished_def record_keys_def)
    also have "\<dots> = (Inr (n + 1 + length (filter (unfinished (buckets ?w b) pkg) fs)),
        ?w\<lparr>buckets := (buckets ?w)(b := fold (delete_key sha)
          (concat (map (\<lambda>f. record_keys (package_key pkg f)) (filter (unfinished (buckets ?w b) pkg) fs))) (buckets ?w b))\<rparr>)"
      using Cons.prems by (intro Cons.IH) simp_all
    finally show ?thesis
      unfolding same bucket_upd_twice using True by (simp del: complete_interrupted_deletes.simps add: fun_upd_def)
  next
    case False
    then have "complete_interrupted_deletes sha b pkg (f # fs) n w = complete_interrupted_deletes sha b pkg fs n w"
      using Cons.prems(1) by (auto simp: Let_def andThen_def quiet_simps unfinished_def)
    then show ?thesis
      using Cons.IH [of w n] Cons.prems False by simp
  qed
qed (simp add: ret_def)

section \<open>Orphaned companions\<close>

text \<open>The listing of a package directory, as the map the sweep reads.\<close>

definition listing_map :: "inner \<Rightarrow> string \<Rightarrow> string \<rightharpoonup> nat option" where
  "listing_map s dir k =
     (if starts_with k dir \<and> CHR ''/'' \<notin> set (drop (length dir) k)
      then map_option (\<lambda>ob. Some (last_modified ob)) (object_at s k) else None)"

lemma option_eqI: "(\<And>v. x = Some v \<longleftrightarrow> y = Some v) \<Longrightarrow> x = y"
  by (cases x; cases y) auto

lemma listing_map_of:
  assumes "store_wf s"
  shows "map_of (rev (map (\<lambda>(k, ob). (k, Some (last_modified ob)))
      (filter (\<lambda>e. CHR ''/'' \<notin> set (drop (length dir) (fst e))) (prefix_range s dir)))) = listing_map s dir"
proof
  fix k
  let ?es = "filter (\<lambda>e. CHR ''/'' \<notin> set (drop (length dir) (fst e))) (prefix_range s dir)"
  let ?xs = "map (\<lambda>(k, ob). (k, Some (last_modified ob))) ?es"
  have keys: "map fst ?xs = map fst ?es"
    by (auto simp: comp_def split_beta)
  have "sorted_wrt (<) (map fst ?es)"
    using prefix_range_sorted [OF assms, of dir] by (simp add: sorted_wrt_map sorted_wrt_filter)
  then have "distinct (map fst ?xs)"
    unfolding keys by (simp add: strict_sorted_iff)
  then have d: "distinct (map fst ?xs)" .
  have d': "distinct (map fst (rev ?xs))"
    using d by (simp only: rev_map [symmetric] distinct_rev)
  have eq: "map_of (rev ?xs) = map_of ?xs"
    using map_of_inject_set [OF d' d] by (simp only: set_rev)
  have get: "map_of ?xs k = Some v \<longleftrightarrow> (k, v) \<in> set ?xs" for v
    by (rule map_of_eq_Some_iff [OF d])
  have member: "(k, v) \<in> set ?xs \<longleftrightarrow>
      (\<exists>ob. (k, ob) \<in> set (prefix_range s dir) \<and> CHR ''/'' \<notin> set (drop (length dir) k) \<and> v = Some (last_modified ob))" for v
    by (auto simp: image_iff)
  have "map_of ?xs k = Some v \<longleftrightarrow> listing_map s dir k = Some v" for v
    unfolding get member prefix_range_set [OF assms] by (auto simp: listing_map_def)
  then show "map_of (rev ?xs) k = listing_map s dir k"
    unfolding eq by (rule option_eqI)
qed

definition companions_of :: "string \<Rightarrow> string list" where
  "companions_of akey = [sidecar_key akey, metadata_key akey, provenance_key akey]"

text \<open>What the sweep takes for debris in a bucket: companions with no anchor, all old enough.\<close>

definition orphaned :: "inner \<Rightarrow> int \<Rightarrow> int \<Rightarrow> string \<Rightarrow> bool" where
  "orphaned s now_s gate akey =
     (\<not> contains_key s akey \<and> \<not> contains_key s (tombstone_key akey) \<and> \<not> contains_key s (frozen_key akey)
      \<and> \<not> contains_key s (mirror_quarantined_key akey)
      \<and> list_ex (contains_key s) (companions_of akey)
      \<and> list_all (\<lambda>k. \<forall>ob. object_at s k = Some ob \<longrightarrow> gate \<le> now_s - int (last_modified ob)) (companions_of akey))"

lemma listing_map_package:
  assumes "CHR ''/'' \<notin> set (f @ x)"
  shows "listing_map s (PACKAGES_PREFIX @ pkg @ ''/'') (package_key pkg f @ x) =
    map_option (\<lambda>ob. Some (last_modified ob)) (object_at s (package_key pkg f @ x))"
proof -
  have "package_key pkg f @ x = (PACKAGES_PREFIX @ pkg @ ''/'') @ f @ x"
    by (simp add: package_key_def)
  then show ?thesis
    unfolding listing_map_def by (metis append_eq_conv_conj assms starts_with_append)
qed

lemma orphan_candidate_listing:
  assumes "CHR ''/'' \<notin> set f"
  shows "orphan_candidate (listing_map s (PACKAGES_PREFIX @ pkg @ ''/'')) now_s gate pkg f =
    (if orphaned s now_s gate (package_key pkg f)
     then Some (package_key pkg f, filter (contains_key s) (companions_of (package_key pkg f))) else None)"
proof -
  let ?l = "listing_map s (PACKAGES_PREFIX @ pkg @ ''/'')" and ?a = "package_key pkg f"
  have at: "?l (?a @ x) = map_option (\<lambda>ob. Some (last_modified ob)) (object_at s (?a @ x))" if "CHR ''/'' \<notin> set x" for x
    using listing_map_package assms that by simp
  have l: "?l ?a = map_option (\<lambda>ob. Some (last_modified ob)) (object_at s ?a)"
    using at [of "[]"] by simp
  have listed: "?l (?a @ x) = map_option (\<lambda>ob. Some (last_modified ob)) (object_at s (?a @ x))" if "x \<in> set marker_suffixes" for x
    using at marker_suffixes_no_slash that by blast
  note at_keys = l listed [OF markers_in(1)] listed [OF markers_in(2)] listed [OF markers_in(3)]
    listed [OF markers_in(4)] listed [OF markers_in(5)] listed [OF markers_in(6)]
  have comps: "filter (\<lambda>k. ?l k \<noteq> None) (companions_of ?a) = filter (contains_key s) (companions_of ?a)"
    by (intro filter_cong) (auto simp: companions_of_def key_defs at_keys contains_key_def)
  have times: "map (\<lambda>k. Option.bind (?l k) (\<lambda>t. t)) (filter (contains_key s) (companions_of ?a)) =
      map (\<lambda>k. map_option last_modified (object_at s k)) (filter (contains_key s) (companions_of ?a))"
  proof (rule map_cong [OF refl])
    fix k
    assume "k \<in> set (filter (contains_key s) (companions_of ?a))"
    then have "k \<in> set (companions_of ?a)"
      by (simp only: set_filter mem_Collect_eq)
    then have "k \<in> {sidecar_key ?a, metadata_key ?a, provenance_key ?a}"
      by (simp add: companions_of_def)
    then show "Option.bind (?l k) (\<lambda>t. t) = map_option last_modified (object_at s k)"
      by (cases "object_at s k") (auto simp: key_defs at_keys)
  qed
  have ages: "list_all (\<lambda>w. now_s - int w \<ge> gate) (List.map_filter (\<lambda>t. t) (map (\<lambda>k. map_option last_modified (object_at s k)) (filter (contains_key s) ks)))
      \<longleftrightarrow> list_all (\<lambda>k. \<forall>ob. object_at s k = Some ob \<longrightarrow> gate \<le> now_s - int (last_modified ob)) ks" for ks
    by (induction ks) (auto simp: List.map_filter_simps contains_key_def)
  have timed: "\<not> list_ex (\<lambda>t. t = None) (map (\<lambda>k. map_option last_modified (object_at s k)) (filter (contains_key s) ks))" for ks
    by (induction ks) (auto simp: contains_key_def)
  have some: "filter (contains_key s) ks = [] \<longleftrightarrow> \<not> list_ex (contains_key s) ks" for ks
    by (induction ks) auto
  have anchors: "(?l ?a \<noteq> None \<or> ?l (tombstone_key ?a) \<noteq> None \<or> ?l (frozen_key ?a) \<noteq> None \<or> ?l (mirror_quarantined_key ?a) \<noteq> None)
      = (contains_key s ?a \<or> contains_key s (tombstone_key ?a) \<or> contains_key s (frozen_key ?a) \<or> contains_key s (mirror_quarantined_key ?a))"
    by (simp add: key_defs at_keys contains_key_def)
  show ?thesis
    unfolding orphan_candidate_def Let_def anchors companions_of_def [symmetric] comps times ages some orphaned_def
    using timed by simp
qed

lemma drop_candidates_quiet:
  assumes "script w = []" and "list_all (\<lambda>c. \<not> contains_key (buckets w b) (fst c)) cs"
  shows "drop_candidates sha b pkg cs n w = (Inr (n + length cs),
    w\<lparr>buckets := (buckets w)(b := fold (delete_key sha) (concat (map snd cs)) (buckets w b))\<rparr>)"
  using assms
proof (induction cs arbitrary: n w)
  case (Cons c cs)
  obtain akey comps where c: "c = (akey, comps)"
    by fastforce
  let ?w = "w\<lparr>buckets := (buckets w)(b := fold (delete_key sha) comps (buckets w b))\<rparr>"
  have "drop_candidates sha b pkg (c # cs) n w = drop_candidates sha b pkg cs (n + 1) ?w"
    using Cons.prems by (simp add: c andThen_def quiet_simps ret_def contains_key_delete_keys)
  also have "\<dots> = (Inr (n + 1 + length cs),
      ?w\<lparr>buckets := (buckets ?w)(b := fold (delete_key sha) (concat (map snd cs)) (buckets ?w b))\<rparr>)"
    using Cons.prems by (intro Cons.IH) (auto simp: list_all_iff contains_key_delete_keys)
  finally show ?case
    unfolding bucket_upd_twice by (simp del: drop_candidates.simps add: c fun_upd_def)
qed (simp add: ret_def)

lemma entry_times:
  "map (\<lambda>e. (fe_key e, fe_last_modified e))
     (map (\<lambda>(k, ob). \<lparr>fe_key = k, fe_size = length (obj_bytes ob), fe_last_modified = Some (last_modified ob),
                      fe_etag = Some (listed_etag ob)\<rparr>) es) =
   map (\<lambda>(k, ob). (k, Some (last_modified ob))) es"
  by auto

lemma drop_orphan_companions_quiet:
  assumes "script w = []" and "store_wf (buckets w b)" and "list_all (\<lambda>f. CHR ''/'' \<notin> set f) fs"
    and "has_live_intent now_s grace b pkg w = (Inr live, w)"
  defines "os \<equiv> filter (\<lambda>f. orphaned (buckets w b) now_s (max grace AGE_FLOOR) (package_key pkg f)) fs"
  shows "drop_orphan_companions sha now_s grace b pkg fs w =
    (if os = [] \<or> live then (Inr 0, w)
     else (Inr (length os), w\<lparr>buckets := (buckets w)(b := fold (delete_key sha)
       (concat (map (\<lambda>f. filter (contains_key (buckets w b)) (companions_of (package_key pkg f))) os)) (buckets w b))\<rparr>))"
proof -
  let ?s = "buckets w b" and ?dir = "PACKAGES_PREFIX @ pkg @ ''/''"
  define cands where "cands = List.map_filter (orphan_candidate (listing_map ?s ?dir) now_s (max grace AGE_FLOOR) pkg) fs"
  have cands: "cands = map (\<lambda>f. (package_key pkg f, filter (contains_key ?s) (companions_of (package_key pkg f)))) os"
    using assms(3) unfolding cands_def os_def
    by (induction fs) (simp_all add: List.map_filter_simps orphan_candidate_listing)
  have run: "drop_orphan_companions sha now_s grace b pkg fs w =
      (if cands = [] then (Inr 0, w) else if live then (Inr 0, w) else drop_candidates sha b pkg cands 0 w)"
    unfolding drop_orphan_companions_def list_dir_entries_def andThen_def [of "call b f" for f]
      read_call_quiet [OF assms(1), of "\<lambda>s. (Inr (h s), s)" for h, simplified]
      prod.case sum.case fst_conv entry_times listing_map_of [OF assms(2)] Let_def cands_def [symmetric]
    using assms(4) by (simp add: andThen_def ret_def)
  have "list_all (\<lambda>c. \<not> contains_key ?s (fst c)) cands"
    by (auto simp: cands os_def list_all_iff orphaned_def)
  from drop_candidates_quiet [OF assms(1) this] show ?thesis
    unfolding run by (auto simp: cands comp_def)
qed

section \<open>Properties\<close>


text \<open>A bucket holding a crashed delete of one file and a healthy second file.\<close>

definition crashed_bucket :: inner where
  "crashed_bucket =
     (let put = (\<lambda>k bs s. snd (store (\<lambda>x. x) k bs s)) in
      put (package_key ''six'' ''six-2.whl'') ''live''
        (put (tombstone_key (package_key ''six'' ''six-1.whl'')) ''gone''
          (put (sidecar_key (package_key ''six'' ''six-1.whl'')) ''meta''
            (put (package_key ''six'' ''six-1.whl'') ''body'' (inner_default 0)))))"

lemma store_wf_crashed: "store_wf crashed_bucket"
  by (simp add: crashed_bucket_def Let_def store_wf_store store_wf_default)

text \<open>A peer that rewrites the healthy file between the loop's calls.\<close>

definition rewrite_peer :: "fleet \<Rightarrow> fleet" where
  "rewrite_peer fl = fl(0 := snd (store (\<lambda>x. x) (package_key ''six'' ''six-2.whl'') ''again'' (fl 0)))"


text \<open>
  undisturbed, it finishes exactly the crashed deletes. Among the artifact names it is given,
  those with a tombstone and no freeze marker lose body, sidecar and companions; every other
  object of the bucket, every fence included, stays as it is; and the count is of those names.
\<close>

theorem interrupted_deletes_exact:
  assumes "script w = []" and "list_all is_artifact fs"
  shows "\<exists>w'. complete_interrupted_deletes sha b pkg fs 0 w = (Inr (length (filter (unfinished (buckets w b) pkg) fs)), w')
    \<and> (\<forall>b' k. object_at (buckets w' b') k =
        (if b' = b \<and> (\<exists>f\<in>set fs. unfinished (buckets w b) pkg f \<and>
              k \<in> {package_key pkg f, sidecar_key (package_key pkg f), metadata_key (package_key pkg f), provenance_key (package_key pkg f)})
         then None else object_at (buckets w b') k))
    \<and> (\<forall>f. is_artifact f \<longrightarrow> contains_key (buckets w' b) (tombstone_key (package_key pkg f))
          = contains_key (buckets w b) (tombstone_key (package_key pkg f)))"
proof -
  define ks where "ks = concat (map (\<lambda>f. record_keys (package_key pkg f)) (filter (unfinished (buckets w b) pkg) fs))"
  have keys: "k \<in> set ks \<longleftrightarrow> (\<exists>f\<in>set fs. unfinished (buckets w b) pkg f \<and>
      k \<in> {package_key pkg f, sidecar_key (package_key pkg f), metadata_key (package_key pkg f), provenance_key (package_key pkg f)})" for k
    by (auto simp: ks_def record_keys_def)
  have tombs: "tombstone_key (package_key pkg f) \<notin> set ks" if "is_artifact f" for f
    using marker_not_record [OF _ that, of _ TOMBSTONE_SUFFIX pkg] assms(2) by (auto simp: ks_def key_defs list_all_iff)
  have run: "complete_interrupted_deletes sha b pkg fs 0 w = (Inr (length (filter (unfinished (buckets w b) pkg) fs)),
      w\<lparr>buckets := (buckets w)(b := fold (delete_key sha) ks (buckets w b))\<rparr>)"
    using complete_interrupted_deletes_quiet [OF assms, of sha b pkg 0] by (simp add: ks_def)
  show ?thesis
    unfolding run using tombs by (auto simp: object_at_delete_keys contains_key_delete_keys keys)
qed

theorem interrupted_deletes_exact_witness:
  "\<exists>w'. complete_interrupted_deletes (\<lambda>x. x) 0 ''six'' [''six-1.whl'', ''six-2.whl''] 0 (quiet (\<lambda>_. crashed_bucket)) = (Inr 1, w')
    \<and> object_at (buckets w' 0) (package_key ''six'' ''six-1.whl'') = None
    \<and> object_at (buckets w' 0) (package_key ''six'' ''six-2.whl'') = object_at crashed_bucket (package_key ''six'' ''six-2.whl'')"
proof -
  let ?w = "quiet (\<lambda>_. crashed_bucket)"
  have art: "list_all is_artifact [''six-1.whl'', ''six-2.whl'']"
    by code_simp
  have un: "unfinished crashed_bucket ''six'' ''six-1.whl''" "\<not> unfinished crashed_bucket ''six'' ''six-2.whl''"
    by (simp_all add: unfinished_def crashed_bucket_def Let_def contains_key_store)
      (simp_all add: contains_key_def key_defs suffix_defs package_key_def PACKAGES_PREFIX_def bt.get_empty)
  show ?thesis
    using interrupted_deletes_exact [OF _ art, of ?w "\<lambda>x. x" 0 "''six''"] un
    by (auto simp: quiet_def key_defs suffix_defs package_key_def PACKAGES_PREFIX_def simp del: complete_interrupted_deletes.simps)
qed

text \<open>
  the orphan sweep removes exactly aged debris and never a body. Undisturbed, and unless a live
  intent stops it, it deletes the companions of those given names that have no body and no
  tombstone, freeze or quarantine marker and whose every companion is at least
  \<open>max(intent_grace, 300)\<close> seconds old; every other object stays, no body is removed, and nothing is
  marked dirty.
\<close>

theorem orphan_sweep_exact:
  assumes "script w = []" and "store_wf (buckets w b)" and "list_all (\<lambda>f. is_artifact f \<and> CHR ''/'' \<notin> set f) fs"
    and "has_live_intent now_s grace b pkg w = (Inr live, w)"
  shows "\<exists>n w'. drop_orphan_companions sha now_s grace b pkg fs w = (Inr n, w')
    \<and> (\<forall>b' k. object_at (buckets w' b') k =
        (if b' = b \<and> \<not> live \<and> (\<exists>f\<in>set fs. orphaned (buckets w b) now_s (max grace 300) (package_key pkg f)
              \<and> k \<in> {sidecar_key (package_key pkg f), metadata_key (package_key pkg f), provenance_key (package_key pkg f)})
         then None else object_at (buckets w b') k))
    \<and> body_removals (buckets w' b) = body_removals (buckets w b)
    \<and> untyped_disappearances (buckets w' b) = untyped_disappearances (buckets w b)"
proof -
  let ?s = "buckets w b"
  let ?os = "filter (\<lambda>f. orphaned ?s now_s (max grace AGE_FLOOR) (package_key pkg f)) fs"
  define ks where "ks = concat (map (\<lambda>f. filter (contains_key ?s) (companions_of (package_key pkg f))) ?os)"
  have fs: "list_all (\<lambda>f. CHR ''/'' \<notin> set f) fs"
    using assms(3) by (auto simp: list_all_iff)
  note run = drop_orphan_companions_quiet [OF assms(1,2) fs assms(4), of sha, folded ks_def]
  have keys: "k \<in> set ks \<longleftrightarrow> contains_key ?s k \<and> (\<exists>f\<in>set fs. orphaned ?s now_s (max grace 300) (package_key pkg f)
      \<and> k \<in> {sidecar_key (package_key pkg f), metadata_key (package_key pkg f), provenance_key (package_key pkg f)})" for k
    unfolding ks_def set_concat set_map set_filter companions_of_def by (auto simp: AGE_FLOOR_def simp del: filter.simps)
  have "\<not> is_canonical_artifact k" if "k \<in> set ks" for k
    using that keys [of k] by auto
  then have bodies: "list_all (\<lambda>k. \<not> is_canonical_artifact k) ks"
    by (simp add: list_all_iff)
  show ?thesis
  proof (cases "?os = [] \<or> live")
    case True
    then have "object_at ?s k = None" if "\<not> live" "f \<in> set fs" "orphaned ?s now_s (max grace 300) (package_key pkg f)" for k f
      using that by (auto simp: filter_empty_conv AGE_FLOOR_def)
    then show ?thesis
      using run True by auto
  next
    case False
    have gone: "\<not> contains_key ?s k \<Longrightarrow> object_at ?s k = None" for k
      by (simp add: contains_key_def)
    show ?thesis
      using False gone unfolding run
      by (auto simp: object_at_delete_keys keys body_removals_delete_companions [OF bodies] untyped_delete_companions [OF bodies])
  qed
qed

text \<open>A sidecar whose upload never landed, and the sidecar of a live file.\<close>

definition debris_bucket :: inner where
  "debris_bucket =
     (let put = (\<lambda>k bs s. snd (store (\<lambda>x. x) k bs s)) in
      put (sidecar_key (package_key ''six'' ''six-1.whl'')) ''meta''
        (put (sidecar_key (package_key ''six'' ''six-2.whl'')) ''meta''
          (put (package_key ''six'' ''six-2.whl'') ''live'' (inner_default 100))))"

theorem orphan_sweep_exact_witness:
  "\<exists>n w'. drop_orphan_companions (\<lambda>x. x) 500 60 0 ''six'' [''six-1.whl'', ''six-2.whl''] (quiet (\<lambda>_. debris_bucket)) = (Inr n, w')
    \<and> object_at (buckets w' 0) (sidecar_key (package_key ''six'' ''six-1.whl'')) = None
    \<and> object_at (buckets w' 0) (sidecar_key (package_key ''six'' ''six-2.whl'')) \<noteq> None"
proof -
  let ?w = "quiet (\<lambda>_. debris_bucket)"
  have wf: "store_wf (buckets ?w 0)"
    by (simp add: quiet_def debris_bucket_def Let_def store_wf_store store_wf_default)
  have fs: "list_all (\<lambda>f. is_artifact f \<and> CHR ''/'' \<notin> set f) [''six-1.whl'', ''six-2.whl'']"
    by code_simp
  have at: "object_at debris_bucket k =
      (if k = sidecar_key (package_key ''six'' ''six-1.whl'') then Some \<lparr>obj_bytes = ''meta'', obj_etag = version_etag 2, last_modified = 100\<rparr>
       else if k = sidecar_key (package_key ''six'' ''six-2.whl'') then Some \<lparr>obj_bytes = ''meta'', obj_etag = version_etag 1, last_modified = 100\<rparr>
       else if k = package_key ''six'' ''six-2.whl'' then Some \<lparr>obj_bytes = ''live'', obj_etag = version_etag 0, last_modified = 100\<rparr>
       else None)" for k
    by (simp add: debris_bucket_def Let_def object_at_store next_version_store store_def inner_default_def bt.get_insert bt.get_empty)
  have no_marker: "object_at debris_bucket (marker_key ''six'' m x) = None" for m x
    unfolding at by (simp add: marker_key_def DIRTY_PREFIX_def key_defs package_key_def PACKAGES_PREFIX_def)
  have live: "has_live_intent 500 60 0 ''six'' ?w = (Inr False, ?w)"
    using has_live_intent_quiet [OF _ wf, of 500 60 "''six''"] no_marker by (simp add: quiet_def)
  have "orphaned debris_bucket 500 (max 60 300) (package_key ''six'' ''six-1.whl'')"
    "\<not> orphaned debris_bucket 500 (max 60 300) (package_key ''six'' ''six-2.whl'')"
    by (simp_all add: orphaned_def contains_key_def at companions_of_def key_defs suffix_defs package_key_def
        PACKAGES_PREFIX_def split del: if_split)
  then show ?thesis
    using orphan_sweep_exact [OF _ wf fs live, of "\<lambda>x. x"] at
    by (auto simp: quiet_def key_defs suffix_defs package_key_def PACKAGES_PREFIX_def)
qed

end
