(* ===== verification/Fences.thy ===== *)
theory Fences
  imports Tombstone Decide
begin

text \<open>
  The executor's primitives of \<open>src/replicate.rs\<close> that read one bucket's record of a filename and
  that fence, preserve and remove it: reading a record, the verified write of \<open>src/storage.rs\<close>
  (a body already in memory), quarantining a body, freezing, tombstoning, settling a mirror
  demotion, and adopting the better sidecar. \<open>serde_json\<close> is the parameters \<open>J\<close> (claims), \<open>S\<close>
  (sidecars) and \<open>M\<close> (markers), SHA-256 is \<open>sha\<close>. The write timeouts wrap calls that the
  simulated store answers at once; \<open>try_join\<close> runs its reads left to right; metrics are left out.
\<close>

section \<open>Definitions\<close>

record sidecar_codec =
  enc_sidecar :: "sidecar \<Rightarrow> bytes"
  dec_sidecar :: "bytes \<Rightarrow> sidecar option"

record marker_codec =
  enc_tombstone :: "string \<Rightarrow> bytes"
  enc_frozen :: "string \<Rightarrow> bytes"
  enc_mirror_quarantine :: "string \<Rightarrow> bytes"

definition ORIGIN_ATTEMPTS :: nat where "ORIGIN_ATTEMPTS = 8"

definition artifact_key :: "string \<Rightarrow> string \<Rightarrow> string" where
  "artifact_key pkg filename = PACKAGES_PREFIX @ pkg @ ''/'' @ filename"

subsection \<open>Reading a record\<close>

definition read_pkg_origin :: "claim_codec \<Rightarrow> bucket_id \<Rightarrow> string \<Rightarrow> record_origin option act" where
  "read_pkg_origin J b pkg =
     andThen (read_origin_observation J b pkg)
       (\<lambda>r. ret (case r of None \<Rightarrow> None | Some observed \<Rightarrow> narrow (ob_state observed)))"

definition unexpected_origin :: "string \<Rightarrow> string \<Rightarrow> string \<Rightarrow> string" where
  "unexpected_origin pkg filename raw = ''sidecar for '' @ pkg @ ''/'' @ filename @ '' holds an unexpected origin '' @ [CHR 0x27] @ raw @ [CHR 0x27]"

definition read_sidecar_checked ::
  "sidecar_codec \<Rightarrow> bucket_id \<Rightarrow> string \<Rightarrow> string \<Rightarrow> sidecar act" where
  "read_sidecar_checked S b pkg filename =
     andThen (get_bytes b (sidecar_key (artifact_key pkg filename))) (\<lambda>bs.
       case dec_sidecar S bs of
         None \<Rightarrow> fail (Bail ''parse sidecar'')
       | Some sc \<Rightarrow>
           (case origin sc of
              None \<Rightarrow> ret sc
            | Some raw \<Rightarrow>
                if origin_parse raw = None then fail (Bail (unexpected_origin pkg filename raw)) else ret sc))"

definition record_from_names ::
  "sidecar_codec \<Rightarrow> bucket_id \<Rightarrow> string \<Rightarrow> string \<Rightarrow> string list \<Rightarrow> record_origin option \<Rightarrow> file_record act" where
  "record_from_names S b pkg filename names claim =
     andThen (if filename @ SIDECAR_SUFFIX \<in> set names
              then andThen (read_sidecar_checked S b pkg filename) (\<lambda>sc. ret (Some sc)) else ret None)
       (\<lambda>sc. ret (from_listing (\<lambda>suffix. filename @ suffix \<in> set names) sc claim))"

definition read_record :: "claim_codec \<Rightarrow> sidecar_codec \<Rightarrow> bucket_id \<Rightarrow> string \<Rightarrow> string \<Rightarrow> file_record act" where
  "read_record J S b pkg filename =
     (let prefix = PACKAGES_PREFIX @ pkg @ ''/'' in
      andThen (list_dir_entries b prefix) (\<lambda>entries.
      andThen (read_pkg_origin J b pkg) (\<lambda>claim.
        record_from_names S b pkg filename (List.map_filter (\<lambda>e. strip_prefix (fe_key e) prefix) entries) claim)))"

subsection \<open>Verified writes\<close>

datatype size_check = SizeOk | SizeWrong err | SizeUnknown err

definition check_stored_size :: "bucket_id \<Rightarrow> string \<Rightarrow> nat \<Rightarrow> size_check act" where
  "check_stored_size b key expected_size =
     onResult (stored_size b key)
       (\<lambda>e. ret (SizeUnknown e))
       (\<lambda>r. case r of
          None \<Rightarrow> ret (SizeUnknown (Bail ''artifact vanished immediately after a create success''))
        | Some stored \<Rightarrow>
            ret (if stored = expected_size then SizeOk else SizeWrong (Bail ''write landed corrupt'')))"

datatype existing = Reject | Repair string

definition stream_sha256 :: "(bytes \<Rightarrow> bytes) \<Rightarrow> bucket_id \<Rightarrow> string \<Rightarrow> (string \<times> nat) act" where
  "stream_sha256 sha b key = andThen (get_bytes b key) (\<lambda>bs. ret (sha256_hex sha bs, length bs))"

definition store_artifact_verified ::
  "(bytes \<Rightarrow> bytes) \<Rightarrow> bucket_id \<Rightarrow> string \<Rightarrow> bytes \<Rightarrow> nat \<Rightarrow> existing \<Rightarrow> bool act" where
  "store_artifact_verified sha b key body expected_size ex =
     andThen (put_if_absent sha b key body) (\<lambda>created.
       if created then
         andThen (check_stored_size b key expected_size) (\<lambda>c.
           case c of
             SizeOk \<Rightarrow> ret True
           | SizeWrong e \<Rightarrow>
               (case ex of
                  Reject \<Rightarrow> onResult (delete_keys sha b [key]) (\<lambda>_. fail e) (\<lambda>_. fail e)
                | Repair _ \<Rightarrow> fail e)
           | SizeUnknown e \<Rightarrow> fail e)
       else
         (case ex of
            Reject \<Rightarrow> ret False
          | Repair expected_sha \<Rightarrow>
              andThen (stream_sha256 sha b key) (\<lambda>(current_sha, _).
                if current_sha = expected_sha then ret False
                else
                  andThen (put_bytes sha b key body) (\<lambda>_.
                  andThen (stream_sha256 sha b key) (\<lambda>(after_sha, _).
                    if after_sha \<noteq> expected_sha then fail (Bail ''artifact still wrong after repair'')
                    else ret True)))))"

definition put_if_absent_or_verify :: "(bytes \<Rightarrow> bytes) \<Rightarrow> bucket_id \<Rightarrow> string \<Rightarrow> bytes \<Rightarrow> bool act" where
  "put_if_absent_or_verify sha b key bs =
     store_artifact_verified sha b key bs (length bs) (Repair (sha256_hex sha bs))"

definition copy_missing_object ::
  "(bytes \<Rightarrow> bytes) \<Rightarrow> bucket_id \<Rightarrow> bucket_id \<Rightarrow> string \<Rightarrow> bool \<Rightarrow> bool \<Rightarrow> bool act" where
  "copy_missing_object sha src dst key source_has destination_has =
     (if \<not> source_has \<or> destination_has then ret False
      else andThen (get_bytes src key) (put_if_absent_or_verify sha dst key))"

definition copy_missing_companions ::
  "(bytes \<Rightarrow> bytes) \<Rightarrow> bucket_id \<Rightarrow> bucket_id \<Rightarrow> string \<Rightarrow> string \<Rightarrow> file_record \<Rightarrow> file_record \<Rightarrow> bool act" where
  "copy_missing_companions sha src dst pkg filename src_record dst_record =
     (let akey = artifact_key pkg filename in
      andThen (copy_missing_object sha src dst (metadata_key akey) (has_metadata src_record) (has_metadata dst_record)) (\<lambda>m.
      andThen (copy_missing_object sha src dst (provenance_key akey) (has_provenance src_record) (has_provenance dst_record)) (\<lambda>p.
        ret (m \<or> p))))"

definition repair_same_sha_companions ::
  "(bytes \<Rightarrow> bytes) \<Rightarrow> bucket_id \<Rightarrow> bucket_id \<Rightarrow> string \<Rightarrow> string \<Rightarrow> file_record \<Rightarrow> file_record \<Rightarrow> (bool \<times> bool) act" where
  "repair_same_sha_companions sha a b pkg filename ra rb =
     (let both_ways =
            andThen (copy_missing_companions sha a b pkg filename ra rb) (\<lambda>dirty_b.
            andThen (copy_missing_companions sha b a pkg filename rb ra) (\<lambda>dirty_a. ret (dirty_a, dirty_b)))
      in case (classify_record ra, classify_record rb) of
           (Live sha_a oa _, Live sha_b ob _) \<Rightarrow>
             if sha_a \<noteq> sha_b then ret (False, False)
             else (case (oa, ob) of
                     (PrivateO, PrivateO) \<Rightarrow> both_ways
                   | (PrivateO, MirrorO) \<Rightarrow>
                       andThen (copy_missing_companions sha a b pkg filename ra rb) (\<lambda>d. ret (False, d))
                   | (MirrorO, PrivateO) \<Rightarrow>
                       andThen (copy_missing_companions sha b a pkg filename rb ra) (\<lambda>d. ret (d, False))
                   | (MirrorO, MirrorO) \<Rightarrow> both_ways)
         | _ \<Rightarrow> ret (False, False))"

subsection \<open>Converging a sidecar\<close>

definition typed_origin :: "sidecar \<Rightarrow> record_origin option \<Rightarrow> record_origin res" where
  "typed_origin sc fallback =
     (case origin sc of
        Some raw \<Rightarrow> (case origin_parse raw of
                       None \<Rightarrow> Inl (Bail ''sidecar holds an unexpected origin'') | Some r \<Rightarrow> Inr r)
      | None \<Rightarrow> (case fallback of None \<Rightarrow> Inl (Bail ''sidecar has no typed origin'') | Some r \<Rightarrow> Inr r))"

text \<open>What one attempt does with the two sidecars it read; \<open>again\<close> is the next attempt.\<close>

definition adopt_merge ::
  "(bytes \<Rightarrow> bytes) \<Rightarrow> sidecar_codec \<Rightarrow> bucket_id \<Rightarrow> bucket_id \<Rightarrow> string \<Rightarrow> (bytes \<times> string) option \<Rightarrow> (bytes \<times> string) option
    \<Rightarrow> record_origin option \<Rightarrow> record_origin option \<Rightarrow> (bool \<times> bool) act \<Rightarrow> (bool \<times> bool) act" where
  "adopt_merge sha S a b key left right left_claim right_claim again =
     (case (left, right) of
        (Some (left_bytes, left_etag), Some (right_bytes, right_etag)) \<Rightarrow>
          (case (dec_sidecar S left_bytes, dec_sidecar S right_bytes) of
             (None, _) \<Rightarrow> fail (Bail ''parse sidecar on left bucket'')
           | (Some _, None) \<Rightarrow> fail (Bail ''parse sidecar on right bucket'')
           | (Some l, Some r) \<Rightarrow>
               if sha256 l \<noteq> sha256 r then fail (Bail ''artifact conflict appeared while reconciling'')
               else
                 andThen (lift_res (typed_origin l left_claim)) (\<lambda>left_origin.
                 andThen (lift_res (typed_origin r right_claim)) (\<lambda>right_origin.
                   case sidecar_merge (enc_sidecar S) sha l (Some left_origin) r (Some right_origin) of
                     EqualDocs \<Rightarrow> ret (False, False)
                   | ChooseA \<Rightarrow>
                       andThen (put_if_match sha b key right_etag left_bytes)
                         (\<lambda>t. if t \<noteq> None then ret (False, True) else again)
                   | ChooseB \<Rightarrow>
                       andThen (put_if_match sha a key left_etag right_bytes)
                         (\<lambda>t. if t \<noteq> None then ret (True, False) else again))))
      | _ \<Rightarrow> fail (Bail ''sidecar changed while reconciling''))"

fun adopt_loop ::
  "(bytes \<Rightarrow> bytes) \<Rightarrow> claim_codec \<Rightarrow> sidecar_codec \<Rightarrow> bucket_id \<Rightarrow> bucket_id \<Rightarrow> string \<Rightarrow> string \<Rightarrow> nat
    \<Rightarrow> (bool \<times> bool) act" where
  "adopt_loop sha J S a b pkg filename 0 = fail (Bail ''sidecar changed repeatedly while reconciling'')"
| "adopt_loop sha J S a b pkg filename (Suc n) =
     (let key = sidecar_key (artifact_key pkg filename) in
      andThen (get_with_etag a key) (\<lambda>left.
      andThen (get_with_etag b key) (\<lambda>right.
      andThen (read_pkg_origin J a pkg) (\<lambda>left_claim.
      andThen (read_pkg_origin J b pkg) (\<lambda>right_claim.
        adopt_merge sha S a b key left right left_claim right_claim (adopt_loop sha J S a b pkg filename n))))))"

definition adopt_sidecar_cas ::
  "(bytes \<Rightarrow> bytes) \<Rightarrow> claim_codec \<Rightarrow> sidecar_codec \<Rightarrow> bucket_id \<Rightarrow> bucket_id \<Rightarrow> string \<Rightarrow> string \<Rightarrow> (bool \<times> bool) act" where
  "adopt_sidecar_cas sha J S a b pkg filename = adopt_loop sha J S a b pkg filename ORIGIN_ATTEMPTS"

subsection \<open>Claims on the destination\<close>

fun ensure_private_loop :: "(bytes \<Rightarrow> bytes) \<Rightarrow> claim_codec \<Rightarrow> bucket_id \<Rightarrow> string \<Rightarrow> nat \<Rightarrow> unit act" where
  "ensure_private_loop sha J dst pkg 0 = fail (Bail ''could not make the package private on the destination'')"
| "ensure_private_loop sha J dst pkg (Suc n) =
     andThen (read_origin_observation J dst pkg) (\<lambda>r.
       case r of
         None \<Rightarrow>
           andThen (claim_origin sha J dst pkg PRIVATE None)
             (\<lambda>c. if owner c = PRIVATE then ret () else ensure_private_loop sha J dst pkg n)
       | Some observed \<Rightarrow>
           (case ob_state observed of
              Private \<Rightarrow> ret ()
            | Mirror \<Rightarrow>
                andThen (demote_observed_mirror sha J dst pkg observed)
                  (\<lambda>d. if d \<noteq> None then ret () else ensure_private_loop sha J dst pkg n)
            | Unclaimed \<Rightarrow>
                andThen (claim_origin sha J dst pkg PRIVATE (Some observed))
                  (\<lambda>c. if owner c = PRIVATE then ret () else ensure_private_loop sha J dst pkg n)))"

definition ensure_private_origin :: "(bytes \<Rightarrow> bytes) \<Rightarrow> claim_codec \<Rightarrow> bucket_id \<Rightarrow> string \<Rightarrow> unit act" where
  "ensure_private_origin sha J dst pkg = ensure_private_loop sha J dst pkg ORIGIN_ATTEMPTS"

fun ensure_mirror_loop :: "(bytes \<Rightarrow> bytes) \<Rightarrow> claim_codec \<Rightarrow> bucket_id \<Rightarrow> string \<Rightarrow> nat \<Rightarrow> record_origin act" where
  "ensure_mirror_loop sha J dst pkg 0 = fail (Bail ''could not make the package mirror on the destination'')"
| "ensure_mirror_loop sha J dst pkg (Suc n) =
     andThen (read_origin_observation J dst pkg) (\<lambda>observed.
       case map_option ob_state observed of
         Some Mirror \<Rightarrow> ret MirrorO
       | Some Private \<Rightarrow> ret PrivateO
       | _ \<Rightarrow>
           andThen (claim_origin sha J dst pkg MIRROR
                     (case observed of
                        Some ob \<Rightarrow> if ob_state ob = Unclaimed then Some ob else None | None \<Rightarrow> None))
             (\<lambda>c. if owner c = MIRROR then ret MirrorO
                  else if owner c = PRIVATE then ret PrivateO
                  else ensure_mirror_loop sha J dst pkg n))"

definition ensure_mirror_origin :: "(bytes \<Rightarrow> bytes) \<Rightarrow> claim_codec \<Rightarrow> bucket_id \<Rightarrow> string \<Rightarrow> record_origin act" where
  "ensure_mirror_origin sha J dst pkg = ensure_mirror_loop sha J dst pkg ORIGIN_ATTEMPTS"

fun install_mirror_loop ::
  "(bytes \<Rightarrow> bytes) \<Rightarrow> sidecar_codec \<Rightarrow> bucket_id \<Rightarrow> string \<Rightarrow> string \<Rightarrow> sidecar \<Rightarrow> nat \<Rightarrow> bool act" where
  "install_mirror_loop sha S dst key artifact sc 0 =
     fail (Bail ''conditional mirror sidecar replacement retries exhausted'')"
| "install_mirror_loop sha S dst key artifact sc (Suc n) =
     (let bs = enc_sidecar S sc in
      andThen (get_with_etag dst key) (\<lambda>found.
        case found of
          None \<Rightarrow>
            andThen (put_if_absent sha dst key bs)
              (\<lambda>created. if created then ret True else install_mirror_loop sha S dst key artifact sc n)
        | Some (current_bytes, etag) \<Rightarrow>
            if current_bytes = bs then ret False
            else
              (case dec_sidecar S current_bytes of
                 None \<Rightarrow> fail (Bail ''parse destination sidecar'')
               | Some current \<Rightarrow>
                   if (case origin current of Some raw \<Rightarrow> origin_parse raw = None | None \<Rightarrow> False)
                   then fail (Bail ''sidecar holds an unexpected origin'')
                   else if origin current = Some PRIVATE then ret False
                   else
                     andThen
                       (if sha256 current \<noteq> sha256 sc then
                          onResult (get_bytes dst artifact)
                            (\<lambda>e. if is_not_found e then ret True else fail e)
                            (\<lambda>body. ret (sha256_hex sha body = sha256 sc))
                        else
                          ret (sidecar_merge (enc_sidecar S) sha sc (Some MirrorO) current
                                 (Option.bind (origin current) origin_parse) = ChooseA))
                       (\<lambda>replace.
                          if \<not> replace then
                            (if sha256 current \<noteq> sha256 sc
                             then fail (Bail ''destination mirror sidecar is backed by different bytes'')
                             else ret False)
                          else
                            andThen (put_if_match sha dst key etag bs)
                              (\<lambda>t. if t \<noteq> None then ret True else install_mirror_loop sha S dst key artifact sc n)))))"

definition install_or_verify_mirror_sidecar ::
  "(bytes \<Rightarrow> bytes) \<Rightarrow> sidecar_codec \<Rightarrow> bucket_id \<Rightarrow> string \<Rightarrow> sidecar \<Rightarrow> bool act" where
  "install_or_verify_mirror_sidecar sha S dst key sc =
     (if origin sc \<noteq> Some MIRROR then fail (Bail ''source sidecar is not mirror truth'')
      else (case strip_suffix key SIDECAR_SUFFIX of
              None \<Rightarrow> fail (Bail ''sidecar key has no sidecar suffix'')
            | Some artifact \<Rightarrow> install_mirror_loop sha S dst key artifact sc ORIGIN_ATTEMPTS))"

subsection \<open>Preserving, fencing, removing\<close>

definition quarantine_bytes :: "(bytes \<Rightarrow> bytes) \<Rightarrow> bucket_id \<Rightarrow> string \<Rightarrow> string \<Rightarrow> bytes \<Rightarrow> string act" where
  "quarantine_bytes sha b pkg filename bs =
     (let h = sha256_hex sha bs; qkey = quarantine_key pkg filename h in
      andThen (put_if_absent sha b qkey bs) (\<lambda>created.
        if created then ret h
        else andThen (get_bytes b qkey) (\<lambda>ex.
          if ex \<noteq> bs then fail (Bail ''quarantine key collision'') else ret h)))"

definition quarantine :: "(bytes \<Rightarrow> bytes) \<Rightarrow> bucket_id \<Rightarrow> string \<Rightarrow> string \<Rightarrow> string option act" where
  "quarantine sha b pkg filename =
     onResult (get_bytes b (artifact_key pkg filename))
       (\<lambda>e. if is_not_found e then ret None else fail e)
       (\<lambda>bs. andThen (quarantine_bytes sha b pkg filename bs) (\<lambda>h. ret (Some h)))"

definition demotion_resolved_by_private_truth ::
  "sidecar_codec \<Rightarrow> bucket_id \<Rightarrow> string \<Rightarrow> string \<Rightarrow> bool act" where
  "demotion_resolved_by_private_truth S b pkg filename =
     (let akey = artifact_key pkg filename in
      onResult (get_bytes b (sidecar_key akey))
        (\<lambda>e. if is_not_found e then ret False else fail e)
        (\<lambda>bs. case dec_sidecar S bs of
           None \<Rightarrow> fail (Bail ''parse sidecar'')
         | Some sc \<Rightarrow> if origin sc \<noteq> Some PRIVATE then ret False else head_exists b akey))"

definition clear_spent_demotion_fence ::
  "(bytes \<Rightarrow> bytes) \<Rightarrow> sidecar_codec \<Rightarrow> bucket_id \<Rightarrow> string \<Rightarrow> string \<Rightarrow> file_record \<Rightarrow> unit act" where
  "clear_spent_demotion_fence sha S b pkg filename r =
     (if \<not> mirror_quarantined r \<or> \<not> (case classify_record r of Live _ PrivateO _ \<Rightarrow> True | _ \<Rightarrow> False) then ret ()
      else andThen (demotion_resolved_by_private_truth S b pkg filename) (\<lambda>resolved.
        if \<not> resolved then ret ()
        else delete_keys sha b [mirror_quarantined_key (artifact_key pkg filename)]))"

definition write_mirror_quarantine_marker ::
  "(bytes \<Rightarrow> bytes) \<Rightarrow> marker_codec \<Rightarrow> bucket_id \<Rightarrow> string \<Rightarrow> string \<Rightarrow> bool act" where
  "write_mirror_quarantine_marker sha M b pkg filename =
     put_if_absent_or_verify sha b (mirror_quarantined_key (artifact_key pkg filename)) (enc_mirror_quarantine M filename)"

definition record_object_keys :: "string \<Rightarrow> string list" where
  "record_object_keys akey = [akey, sidecar_key akey, metadata_key akey, provenance_key akey]"

text \<open>The last step of a settle: the body goes only when it is the one preserved.\<close>

definition settle_drop ::
  "(bytes \<Rightarrow> bytes) \<Rightarrow> bucket_id \<Rightarrow> string \<Rightarrow> bool \<Rightarrow> string option \<Rightarrow> bool \<Rightarrow> bool act" where
  "settle_drop sha b akey marker_created preserved sidecar_left =
     (let finish = (\<lambda>body_is_ours.
            andThen (delete_keys sha b (if body_is_ours then record_object_keys akey else tl (record_object_keys akey)))
              (\<lambda>_. ret (marker_created \<or> preserved \<noteq> None \<or> sidecar_left)))
      in onResult (get_bytes b akey)
           (\<lambda>e. if is_not_found e then finish False else fail e)
           (\<lambda>standing.
              if preserved \<noteq> Some (sha256_hex sha standing) then ret (marker_created \<or> preserved \<noteq> None)
              else andThen (head_exists b (superseding_key akey)) (\<lambda>superseding_intent.
                if superseding_intent then ret (marker_created \<or> preserved \<noteq> None) else finish True)))"

definition settle_mirror_quarantine ::
  "(bytes \<Rightarrow> bytes) \<Rightarrow> claim_codec \<Rightarrow> sidecar_codec \<Rightarrow> marker_codec \<Rightarrow> bucket_id \<Rightarrow> string \<Rightarrow> string \<Rightarrow> bool act" where
  "settle_mirror_quarantine sha J S M b pkg filename =
     (let akey = artifact_key pkg filename in
      andThen (ensure_private_origin sha J b pkg) (\<lambda>_.
      andThen (demotion_resolved_by_private_truth S b pkg filename) (\<lambda>resolved.
        if resolved then ret False
        else
          andThen (write_mirror_quarantine_marker sha M b pkg filename) (\<lambda>marker_created.
          andThen (quarantine sha b pkg filename) (\<lambda>preserved.
          andThen (head_exists b (sidecar_key akey)) (\<lambda>sidecar_left.
            settle_drop sha b akey marker_created preserved sidecar_left))))))"

definition write_frozen_marker :: "(bytes \<Rightarrow> bytes) \<Rightarrow> marker_codec \<Rightarrow> bucket_id \<Rightarrow> string \<Rightarrow> string \<Rightarrow> bool act" where
  "write_frozen_marker sha M b pkg filename =
     put_if_absent sha b (frozen_key (artifact_key pkg filename)) (enc_frozen M filename)"

definition drop_record_objects :: "(bytes \<Rightarrow> bytes) \<Rightarrow> bucket_id \<Rightarrow> string \<Rightarrow> string \<Rightarrow> unit act" where
  "drop_record_objects sha b pkg filename =
     (let akey = artifact_key pkg filename in
      delete_keys sha b (record_object_keys akey @ [mirror_quarantined_key akey, superseding_key akey]))"

definition freeze_side :: "(bytes \<Rightarrow> bytes) \<Rightarrow> marker_codec \<Rightarrow> bucket_id \<Rightarrow> string \<Rightarrow> string \<Rightarrow> bool act" where
  "freeze_side sha M b pkg filename =
     andThen (write_frozen_marker sha M b pkg filename) (\<lambda>marker_created.
     andThen (quarantine sha b pkg filename) (\<lambda>_.
     andThen (tombstone_write sha (enc_tombstone M) b (artifact_key pkg filename) filename) (\<lambda>_.
     andThen (drop_record_objects sha b pkg filename) (\<lambda>_. ret marker_created))))"

definition freeze_copy_race ::
  "(bytes \<Rightarrow> bytes) \<Rightarrow> marker_codec \<Rightarrow> bucket_id \<Rightarrow> bucket_id \<Rightarrow> string \<Rightarrow> string \<Rightarrow> unit act" where
  "freeze_copy_race sha M src dst pkg filename =
     andThen (mark_intent sha src pkg) (\<lambda>src_intent.
       (let commit = (\<lambda>k. onResult (mark_commit sha src pkg src_intent) (\<lambda>_. k) (\<lambda>_. k)) in
        onResult
          (andThen (freeze_side sha M src pkg filename) (\<lambda>_.
           andThen (freeze_side sha M dst pkg filename) (\<lambda>_. mark_dirty sha dst pkg)))
          (\<lambda>e. commit (fail e)) (\<lambda>_. commit (ret ()))))"

definition tombstone_side :: "(bytes \<Rightarrow> bytes) \<Rightarrow> marker_codec \<Rightarrow> bucket_id \<Rightarrow> string \<Rightarrow> string \<Rightarrow> bool act" where
  "tombstone_side sha M b pkg filename =
     (let akey = artifact_key pkg filename;
          debris = [sidecar_key akey, metadata_key akey, provenance_key akey, mirror_quarantined_key akey] in
      andThen (head_exists b (tombstone_key akey)) (\<lambda>already.
      andThen (head_exists b akey) (\<lambda>had_body.
        if already \<and> \<not> had_body then
          andThen (head_exists b (sidecar_key akey)) (\<lambda>s.
          andThen (head_exists b (metadata_key akey)) (\<lambda>m.
          andThen (head_exists b (provenance_key akey)) (\<lambda>p.
          andThen (head_exists b (mirror_quarantined_key akey)) (\<lambda>q.
            if \<not> s \<and> \<not> m \<and> \<not> p \<and> \<not> q then ret False
            else andThen (delete_keys sha b debris) (\<lambda>_. ret True)))))
        else
          andThen (tombstone_write sha (enc_tombstone M) b akey filename) (\<lambda>_.
          andThen (drop_record_objects sha b pkg filename) (\<lambda>_. ret True)))))"

text \<open>The loop of \<open>quarantine_mirror_artifacts\<close> over the package listing.\<close>

fun quarantine_mirror_loop ::
  "(bytes \<Rightarrow> bytes) \<Rightarrow> claim_codec \<Rightarrow> sidecar_codec \<Rightarrow> marker_codec \<Rightarrow> bucket_id \<Rightarrow> string \<Rightarrow> file_entry list \<Rightarrow> nat \<Rightarrow> nat act" where
  "quarantine_mirror_loop sha J S M b pkg [] n = ret n"
| "quarantine_mirror_loop sha J S M b pkg (entry # es) n =
     (case strip_prefix (fe_key entry) (PACKAGES_PREFIX @ pkg @ ''/'') of
        None \<Rightarrow> quarantine_mirror_loop sha J S M b pkg es n
      | Some filename \<Rightarrow>
          if \<not> is_artifact filename then quarantine_mirror_loop sha J S M b pkg es n
          else
            onResult (get_bytes b (sidecar_key (fe_key entry)))
              (\<lambda>e. if is_not_found e then quarantine_mirror_loop sha J S M b pkg es n else fail e)
              (\<lambda>bs. case dec_sidecar S bs of
                 None \<Rightarrow> fail (Bail ''parse sidecar'')
               | Some sc \<Rightarrow>
                   if origin sc = Some MIRROR then
                     andThen (settle_mirror_quarantine sha J S M b pkg filename)
                       (\<lambda>changed. quarantine_mirror_loop sha J S M b pkg es (if changed then n + 1 else n))
                   else if origin sc = Some PRIVATE \<or> origin sc = None
                   then quarantine_mirror_loop sha J S M b pkg es n
                   else fail (Bail (unexpected_origin pkg filename (the (origin sc))))))"

definition quarantine_mirror_artifacts ::
  "(bytes \<Rightarrow> bytes) \<Rightarrow> claim_codec \<Rightarrow> sidecar_codec \<Rightarrow> marker_codec \<Rightarrow> bucket_id \<Rightarrow> string \<Rightarrow> nat act" where
  "quarantine_mirror_artifacts sha J S M b pkg =
     andThen (read_origin_observation J b pkg) (\<lambda>claim.
       case claim of
         None \<Rightarrow> ret 0
       | Some c \<Rightarrow>
           if ob_state c \<noteq> Private then ret 0
           else andThen (list_dir_entries b (PACKAGES_PREFIX @ pkg @ ''/''))
             (\<lambda>es. quarantine_mirror_loop sha J S M b pkg es 0))"

subsection \<open>Retiring a supersede marker\<close>

record marked_record =
  mr_install :: bool
  mr_retire :: bool

definition classify_marked_record :: "string option \<Rightarrow> string \<Rightarrow> int option \<Rightarrow> int \<Rightarrow> marked_record" where
  "classify_marked_record body_sha intended_sha marker_age retire_after =
     (let install = (body_sha = Some intended_sha);
          settled = (case marker_age of None \<Rightarrow> False | Some age \<Rightarrow> age \<ge> retire_after)
      in \<lparr>mr_install = install, mr_retire = install \<or> settled\<rparr>)"

definition artifact_write_timeout :: "u64 \<Rightarrow> int" where
  "artifact_write_timeout payload_size =
     (let mib = min (unat payload_size div (1024 * 1024)) (2 ^ 32 - 1) in 60 + int mib)"

definition marker_retire_gate :: "int \<Rightarrow> u64 \<Rightarrow> int" where
  "marker_retire_gate intent_grace sz =
     (let writes = 2 * artifact_write_timeout sz in max (max intent_grace AGE_FLOOR) writes)"

end
