(* ===== verification/Fence_Safety.thy ===== *)
theory Fence_Safety
  imports Fences
begin

text \<open>
  What the fencing primitives of \<open>Fences\<close> guarantee: under interference, that no body disappears
  without a fence; undisturbed, exactly which objects each of them leaves, that a preserved body is
  the body removed, and that the record read back afterwards is the settled one the merge algebra
  expects.
\<close>

section \<open>Fences under interference\<close>

definition standing :: "string list \<Rightarrow> string list \<Rightarrow> bucket_id \<Rightarrow> fleet \<Rightarrow> bool" where
  "standing u ks b fl = (untyped_disappearances (fl b) = u \<and> (\<forall>k\<in>set ks. durable_marker k \<and> contains_key (fl b) k))"

lemma stable_standing: "stable (fences_persist b) (standing u ks b)"
  by (auto simp: stable_def fences_persist_def standing_def)

lemma standing_weaken: "standing u (k # ks) b fl \<Longrightarrow> standing u ks b fl"
  by (simp add: standing_def)

lemma triple_put_if_absent_standing:
  assumes "durable_marker k"
  shows "triple (fences_persist b) (standing u ks b) (put_if_absent sha b k bs) (both (standing u ks b) (\<lambda>_. standing u (k # ks) b))"
  by (rule triple_put_if_absent [OF stable_standing]) (use assms in \<open>auto simp: standing_def contains_key_store\<close>)

lemma triple_get_bytes_standing:
  "triple (fences_persist b) (standing u ks b) (get_bytes b k) (\<lambda>_. standing u ks b)"
  by (rule triple_get_bytes [OF stable_standing])

lemma triple_head_exists_standing:
  "triple (fences_persist b) (standing u ks b) (head_exists b k) (\<lambda>_. standing u ks b)"
  by (rule triple_head_exists [OF stable_standing])

text \<open>Sequencing when both outcomes keep the invariant.\<close>

lemma triple_seq:
  assumes "triple G P m (\<lambda>_. P)" and "\<And>x. triple G P (f x) Q" and "\<And>e fl. P fl \<Longrightarrow> Q (Inl e) fl"
  shows "triple G P (andThen m f) Q"
  by (rule triple_andThen [OF triple_conseq [OF assms(1)] assms(2,3)]) (auto simp: both_def split: sum.splits)

lemma triple_quarantine_standing:
  "triple (fences_persist b) (standing u ks b) (quarantine sha b pkg f) (\<lambda>_. standing u ks b)"
  unfolding quarantine_def quarantine_bytes_def Let_def
  by (intro triple_onResult [OF triple_get_bytes_standing] triple_if triple_ret triple_fail
        triple_seq [OF triple_conseq [OF triple_put_if_absent_standing]]
        triple_seq [OF triple_get_bytes_standing] triple_seq [where P = "standing u ks b"])
    (auto simp: both_def dest: standing_weaken split: sum.splits)

lemma record_keys_not_canonical:
  "list_all (\<lambda>k. \<not> is_canonical_artifact k) (tl (record_object_keys akey) @ [mirror_quarantined_key akey, superseding_key akey])"
  by (simp add: record_object_keys_def)

lemma fences_not_dropped:
  "tombstone_key akey \<notin> set (record_object_keys akey @ [mirror_quarantined_key akey, superseding_key akey])"
  "frozen_key akey \<notin> set (record_object_keys akey @ [mirror_quarantined_key akey, superseding_key akey])"
  by (simp_all add: record_object_keys_def key_defs suffix_defs)

lemma triple_drop_fenced:
  assumes "set ks \<subseteq> {tombstone_key (artifact_key pkg f), frozen_key (artifact_key pkg f)}" and "ks \<noteq> []"
  shows "triple (fences_persist b) (standing u ks b) (drop_record_objects sha b pkg f) (\<lambda>_. standing u ks b)"
  unfolding drop_record_objects_def Let_def
proof (rule triple_delete_keys [OF stable_standing])
  fix fl
  assume st: "standing u ks b fl"
  let ?a = "artifact_key pkg f"
  let ?ds = "tl (record_object_keys ?a) @ [mirror_quarantined_key ?a, superseding_key ?a]"
  have split: "record_object_keys ?a @ [mirror_quarantined_key ?a, superseding_key ?a] = ?a # ?ds"
    by (simp add: record_object_keys_def)
  have "upload_barred (fl b) ?a"
    using st assms by (cases ks) (auto simp: standing_def upload_barred_def)
  from untyped_delete_fenced [OF this record_keys_not_canonical, of sha]
  have "untyped_disappearances (fold (delete_key sha) (?a # ?ds) (fl b)) = untyped_disappearances (fl b)" .
  moreover have "k \<notin> set (?a # ?ds)" if "k \<in> set ks" for k
    using that assms(1) fences_not_dropped [of ?a] unfolding split by auto
  ultimately show "standing u ks b (fl(b := fold (delete_key sha) (record_object_keys ?a @ [mirror_quarantined_key ?a, superseding_key ?a]) (fl b)))"
    using st unfolding split standing_def by (simp add: contains_key_delete_keys del: fold.simps)
qed

abbreviation fence_keys :: "string \<Rightarrow> string \<Rightarrow> string list" where
  "fence_keys pkg f \<equiv> [tombstone_key (artifact_key pkg f), frozen_key (artifact_key pkg f)]"

lemma triple_tombstone_write:
  "triple (fences_persist b) (standing u ks b) (tombstone_write sha T b akey f)
    (both (standing u ks b) (\<lambda>_. standing u (tombstone_key akey # ks) b))"
  unfolding tombstone_write_def
  by (rule triple_andThen [OF triple_put_if_absent_standing]) (auto intro!: triple_ret simp: standing_def)

lemma triple_freeze_side:
  "triple (fences_persist b) (standing u [] b) (freeze_side sha M b pkg f)
    (both (standing u [] b) (\<lambda>_. standing u (fence_keys pkg f) b))"
  unfolding freeze_side_def write_frozen_marker_def
proof (rule triple_andThen [OF triple_put_if_absent_standing])
  let ?z = "frozen_key (artifact_key pkg f)" and ?Q = "both (standing u [] b) (\<lambda>_. standing u (fence_keys pkg f) b)"
  have weak: "standing u ks b fl \<Longrightarrow> standing u [] b fl" for ks fl
    by (simp add: standing_def)
  fix created :: bool
  have drop: "triple (fences_persist b) (standing u (fence_keys pkg f) b)
      (andThen (drop_record_objects sha b pkg f) (\<lambda>_. ret created)) ?Q"
    by (rule triple_seq [OF triple_drop_fenced]) (auto intro!: triple_ret dest: weak)
  have tomb: "triple (fences_persist b) (standing u [?z] b)
      (andThen (tombstone_write sha (enc_tombstone M) b (artifact_key pkg f) f)
        (\<lambda>_. andThen (drop_record_objects sha b pkg f) (\<lambda>_. ret created))) ?Q"
    by (rule triple_andThen [OF triple_tombstone_write drop]) (auto dest: weak)
  show "triple (fences_persist b) (standing u [?z] b)
      (andThen (quarantine sha b pkg f) (\<lambda>_. andThen (tombstone_write sha (enc_tombstone M) b (artifact_key pkg f) f)
        (\<lambda>_. andThen (drop_record_objects sha b pkg f) (\<lambda>_. ret created)))) ?Q"
    by (rule triple_seq [OF triple_quarantine_standing tomb]) (auto dest: weak)
qed auto

lemma triple_delete_debris:
  assumes "list_all (\<lambda>k. \<not> is_canonical_artifact k) ds" and "set ks \<inter> set ds = {}"
  shows "triple (fences_persist b) (standing u ks b) (delete_keys sha b ds) (\<lambda>_. standing u ks b)"
  by (rule triple_delete_keys [OF stable_standing])
    (use assms in \<open>auto simp: standing_def contains_key_delete_keys untyped_delete_companions\<close>)

lemma triple_tombstone_side:
  "triple (fences_persist b) (standing u [] b) (tombstone_side sha M b pkg f)
    (both (standing u [] b) (\<lambda>_. standing u [tombstone_key (artifact_key pkg f)] b))"
  (is "triple _ _ _ ?Q")
proof -
  let ?a = "artifact_key pkg f"
  let ?t = "tombstone_key ?a"
  let ?debris = "[sidecar_key ?a, metadata_key ?a, provenance_key ?a, mirror_quarantined_key ?a]"
  have weak: "standing u ks b fl \<Longrightarrow> standing u [] b fl" for ks fl
    by (simp add: standing_def)
  have clean: "triple (fences_persist b) (standing u [?t] b) (andThen (delete_keys sha b ?debris) (\<lambda>_. ret True)) ?Q"
  proof (rule triple_seq [OF triple_delete_debris])
    show "set [?t] \<inter> set ?debris = {}"
      by (simp add: key_defs suffix_defs)
  qed (auto intro!: triple_ret dest: weak)
  have settled: "triple (fences_persist b) (standing u [?t] b)
      (andThen (head_exists b (sidecar_key ?a)) (\<lambda>s. andThen (head_exists b (metadata_key ?a)) (\<lambda>m.
       andThen (head_exists b (provenance_key ?a)) (\<lambda>p. andThen (head_exists b (mirror_quarantined_key ?a)) (\<lambda>q.
         if \<not> s \<and> \<not> m \<and> \<not> p \<and> \<not> q then ret False else andThen (delete_keys sha b ?debris) (\<lambda>_. ret True)))))) ?Q"
    by (intro triple_seq [OF triple_head_exists_standing] triple_if clean triple_ret) (auto dest: weak)
  have fresh: "triple (fences_persist b) (standing u ks b)
      (andThen (tombstone_write sha (enc_tombstone M) b ?a f) (\<lambda>_. andThen (drop_record_objects sha b pkg f) (\<lambda>_. ret True))) ?Q" for ks
  proof (rule triple_andThen [OF triple_tombstone_write])
    show "triple (fences_persist b) (standing u (?t # ks) b) (andThen (drop_record_objects sha b pkg f) (\<lambda>_. ret True)) ?Q"
      by (rule triple_pre [where P = "standing u [?t] b"], rule triple_seq [OF triple_drop_fenced])
        (auto intro!: triple_ret dest: weak simp: standing_def)
  qed (auto dest: weak)
  have first: "triple (fences_persist b) (standing u [] b) (head_exists b ?t)
      (both (standing u [] b) (\<lambda>x. standing u (if x then [?t] else []) b))"
    by (rule triple_head_exists [OF stable_standing]) (simp_all add: standing_def)
  show ?thesis
    unfolding tombstone_side_def Let_def
  proof (rule triple_andThen [OF first])
    fix already
    show "triple (fences_persist b) (standing u (if already then [?t] else []) b)
      (andThen (head_exists b ?a) (\<lambda>had_body.
        if already \<and> \<not> had_body then
          andThen (head_exists b (sidecar_key ?a)) (\<lambda>s. andThen (head_exists b (metadata_key ?a)) (\<lambda>m.
          andThen (head_exists b (provenance_key ?a)) (\<lambda>p. andThen (head_exists b (mirror_quarantined_key ?a)) (\<lambda>q.
            if \<not> s \<and> \<not> m \<and> \<not> p \<and> \<not> q then ret False else andThen (delete_keys sha b ?debris) (\<lambda>_. ret True)))))
        else andThen (tombstone_write sha (enc_tombstone M) b ?a f) (\<lambda>_. andThen (drop_record_objects sha b pkg f) (\<lambda>_. ret True)))) ?Q"
      by (rule triple_seq [OF triple_head_exists_standing])
        (auto intro!: settled fresh fresh [where ks = "[]"] dest: weak)
  qed auto
qed

section \<open>Undisturbed runs of the primitives\<close>

lemma artifact_key_package: "artifact_key = package_key"
  by (intro ext) (simp add: artifact_key_def package_key_def)

lemma quarantine_not_package [simp]: "quarantine_key p f h \<noteq> artifact_key pkg g @ x" "artifact_key pkg g @ x \<noteq> quarantine_key p f h"
  by (simp_all add: quarantine_key_def QUARANTINE_PREFIX_def artifact_key_def PACKAGES_PREFIX_def)

lemma quarantine_not_body [simp]: "quarantine_key p f h \<noteq> artifact_key pkg g" "artifact_key pkg g \<noteq> quarantine_key p f h"
  using quarantine_not_package [of p f h pkg g "[]"] by simp_all

lemma quarantine_not_canonical [simp]: "\<not> is_canonical_artifact (quarantine_key p f h)"
  by (rule outside_packages_not_canonical) (simp add: quarantine_key_def QUARANTINE_PREFIX_def)

text \<open>Running a chain of calls on one bucket.\<close>

definition upd :: "bucket_id \<Rightarrow> inner \<Rightarrow> world \<Rightarrow> world" where
  "upd b s w = w\<lparr>buckets := (buckets w)(b := s)\<rparr>"

lemma upd_simps [simp]:
  "script (upd b s w) = script w" "nonce_seq (upd b s w) = nonce_seq w" "buckets (upd b s w) b' = (if b' = b then s else buckets w b')"
  "upd b s (upd b s' w) = upd b s w" "upd b (buckets w b) w = w"
  by (simp_all add: upd_def)

text \<open>Create-if-absent of a key that is no artifact body.\<close>

definition put_absent :: "(bytes \<Rightarrow> bytes) \<Rightarrow> string \<Rightarrow> bytes \<Rightarrow> inner \<Rightarrow> inner" where
  "put_absent sha k bs s = (if contains_key s k then s else snd (store sha k bs s))"

lemma create_lost_marker: "\<not> is_canonical_artifact k \<Longrightarrow> create_lost sha k s = s"
  by (simp add: create_lost_def)

lemma object_at_put_absent:
  "object_at (put_absent sha k bs s) k' =
     (if k' = k \<and> \<not> contains_key s k
      then Some \<lparr>obj_bytes = bs, obj_etag = version_etag (next_version s), last_modified = now s\<rparr> else object_at s k')"
  by (auto simp: put_absent_def object_at_store)

lemma contains_put_absent: "contains_key (put_absent sha k bs s) k' \<longleftrightarrow> k' = k \<or> contains_key s k'"
  by (auto simp: put_absent_def contains_key_store)

lemma untyped_put_absent [simp]: "untyped_disappearances (put_absent sha k bs s) = untyped_disappearances s"
  by (simp add: put_absent_def)

lemma put_if_absent_marker:
  "script w = [] \<Longrightarrow> \<not> is_canonical_artifact k \<Longrightarrow>
    put_if_absent sha b k bs w = (Inr (\<not> contains_key (buckets w b) k), upd b (put_absent sha k bs (buckets w b)) w)"
  by (simp add: put_if_absent_quiet put_absent_def create_lost_marker upd_def)

lemma delete_keys_upd:
  "script w = [] \<Longrightarrow> delete_keys sha b ks w = (Inr (), upd b (fold (delete_key sha) ks (buckets w b)) w)"
  by (simp add: delete_keys_quiet upd_def)

text \<open>What preserving a body does: a copy under the key of its digest, or a refusal on a collision.\<close>

definition preserved_ok :: "(bytes \<Rightarrow> bytes) \<Rightarrow> inner \<Rightarrow> string \<Rightarrow> string \<Rightarrow> bytes \<Rightarrow> bool" where
  "preserved_ok sha s pkg f bs =
     (\<forall>ob. object_at s (quarantine_key pkg f (sha256_hex sha bs)) = Some ob \<longrightarrow> obj_bytes ob = bs)"

abbreviation preserve :: "(bytes \<Rightarrow> bytes) \<Rightarrow> string \<Rightarrow> string \<Rightarrow> bytes \<Rightarrow> inner \<Rightarrow> inner" where
  "preserve sha pkg f bs \<equiv> put_absent sha (quarantine_key pkg f (sha256_hex sha bs)) bs"

lemma quarantine_bytes_quiet:
  assumes "script w = []"
  shows "quarantine_bytes sha b pkg f bs w =
    ((if preserved_ok sha (buckets w b) pkg f bs then Inr (sha256_hex sha bs) else Inl (Bail ''quarantine key collision'')),
     upd b (preserve sha pkg f bs (buckets w b)) w)"
proof (cases "object_at (buckets w b) (quarantine_key pkg f (sha256_hex sha bs))")
  case None
  then show ?thesis
    using assms by (simp add: quarantine_bytes_def Let_def andThen_def put_if_absent_marker ret_def preserved_ok_def contains_key_def)
next
  case (Some ob)
  then show ?thesis
    using assms
    by (auto simp: quarantine_bytes_def Let_def andThen_def put_if_absent_marker get_bytes_quiet ret_def fail_def
        preserved_ok_def put_absent_def contains_key_def)
qed

lemma quarantine_quiet:
  assumes "script w = []"
  shows "quarantine sha b pkg f w =
    (case object_at (buckets w b) (artifact_key pkg f) of
       None \<Rightarrow> (Inr None, w)
     | Some ob \<Rightarrow>
         ((if preserved_ok sha (buckets w b) pkg f (obj_bytes ob) then Inr (Some (sha256_hex sha (obj_bytes ob)))
           else Inl (Bail ''quarantine key collision'')),
          upd b (preserve sha pkg f (obj_bytes ob) (buckets w b)) w))"
  using assms
  by (auto simp: quarantine_def onResult_def get_bytes_quiet quarantine_bytes_quiet andThen_def ret_def split: option.splits)

section \<open>Freezing, undisturbed\<close>

definition dropped_keys :: "string \<Rightarrow> string list" where
  "dropped_keys akey = record_object_keys akey @ [mirror_quarantined_key akey, superseding_key akey]"

lemma drop_record_objects_quiet:
  "script w = [] \<Longrightarrow> drop_record_objects sha b pkg f w =
     (Inr (), upd b (fold (delete_key sha) (dropped_keys (artifact_key pkg f)) (buckets w b)) w)"
  by (simp add: drop_record_objects_def Let_def delete_keys_upd dropped_keys_def)

lemma tombstone_write_quiet:
  "script w = [] \<Longrightarrow> tombstone_write sha T b akey f w = (Inr (), upd b (put_absent sha (tombstone_key akey) (T f) (buckets w b)) w)"
  by (simp add: tombstone_write_def andThen_def put_if_absent_marker ret_def)

text \<open>The bucket after a freeze, in the order of the writes.\<close>

definition frozen_state :: "(bytes \<Rightarrow> bytes) \<Rightarrow> marker_codec \<Rightarrow> string \<Rightarrow> string \<Rightarrow> inner \<Rightarrow> inner" where
  "frozen_state sha M pkg f s =
     (let a = artifact_key pkg f;
          s1 = put_absent sha (frozen_key a) (enc_frozen M f) s;
          s2 = (case object_at s a of None \<Rightarrow> s1 | Some ob \<Rightarrow> preserve sha pkg f (obj_bytes ob) s1);
          s3 = put_absent sha (tombstone_key a) (enc_tombstone M f) s2
      in fold (delete_key sha) (dropped_keys a) s3)"

lemma frozen_not_body [simp]: "artifact_key pkg f \<noteq> frozen_key (artifact_key pkg f)" "artifact_key pkg f \<noteq> tombstone_key (artifact_key pkg f)"
  "artifact_key pkg f \<noteq> mirror_quarantined_key (artifact_key pkg f)"
  by (simp_all add: key_defs suffix_defs)

lemma freeze_side_quiet:
  assumes "script w = []"
  shows "freeze_side sha M b pkg f w =
    (case object_at (buckets w b) (artifact_key pkg f) of
       Some ob \<Rightarrow>
         if preserved_ok sha (buckets w b) pkg f (obj_bytes ob)
         then (Inr (\<not> contains_key (buckets w b) (frozen_key (artifact_key pkg f))), upd b (frozen_state sha M pkg f (buckets w b)) w)
         else (Inl (Bail ''quarantine key collision''),
               upd b (put_absent sha (frozen_key (artifact_key pkg f)) (enc_frozen M f) (buckets w b)) w)
     | None \<Rightarrow> (Inr (\<not> contains_key (buckets w b) (frozen_key (artifact_key pkg f))), upd b (frozen_state sha M pkg f (buckets w b)) w))"
proof -
  let ?s = "buckets w b" and ?a = "artifact_key pkg f"
  let ?s1 = "put_absent sha (frozen_key ?a) (enc_frozen M f) ?s"
  have mark: "write_frozen_marker sha M b pkg f w = (Inr (\<not> contains_key ?s (frozen_key ?a)), upd b ?s1 w)"
    using assms by (simp add: write_frozen_marker_def put_if_absent_marker)
  have body: "object_at ?s1 ?a = object_at ?s ?a"
    by (simp add: object_at_put_absent)
  have q: "quarantine_key pkg f h \<noteq> frozen_key ?a" for h
    by (simp add: frozen_key_def companion_key_def)
  have ok: "preserved_ok sha ?s1 pkg f bs = preserved_ok sha ?s pkg f bs" for bs
    using q by (simp add: preserved_ok_def object_at_put_absent)
  show ?thesis
  proof (cases "object_at ?s ?a")
    case None
    then show ?thesis
      using assms body
      by (simp add: freeze_side_def andThen_def mark quarantine_quiet tombstone_write_quiet drop_record_objects_quiet ret_def
          frozen_state_def Let_def)
  next
    case (Some ob)
    show ?thesis
    proof (cases "preserved_ok sha ?s pkg f (obj_bytes ob)")
      case True
      then show ?thesis
        using assms body ok Some
        by (simp add: freeze_side_def andThen_def mark quarantine_quiet tombstone_write_quiet drop_record_objects_quiet ret_def
            frozen_state_def Let_def)
    next
      case False
      then have "contains_key ?s (quarantine_key pkg f (sha256_hex sha (obj_bytes ob)))"
        by (auto simp: preserved_ok_def contains_key_def)
      then have "preserve sha pkg f (obj_bytes ob) ?s1 = ?s1"
        by (simp add: put_absent_def [of _ "quarantine_key _ _ _"] contains_put_absent)
      then show ?thesis
        using assms body ok Some False by (simp add: freeze_side_def andThen_def mark quarantine_quiet)
    qed
  qed
qed

section \<open>Reading the record back\<close>

definition claim_of :: "claim_view \<Rightarrow> record_origin option" where
  "claim_of v = (case v of Claimed st \<Rightarrow> narrow st | _ \<Rightarrow> None)"

text \<open>The record of a filename as the bucket holds it.\<close>

definition record_of :: "sidecar_codec \<Rightarrow> inner \<Rightarrow> string \<Rightarrow> string \<Rightarrow> record_origin option \<Rightarrow> file_record" where
  "record_of S s pkg f claim =
     from_listing (\<lambda>x. contains_key s (artifact_key pkg f @ x))
       (Option.bind (object_at s (sidecar_key (artifact_key pkg f))) (\<lambda>ob. dec_sidecar S (obj_bytes ob))) claim"

text \<open>A sidecar the code can read: it parses, and its origin, if it has one, is a known one.\<close>

definition readable_sidecar :: "sidecar_codec \<Rightarrow> inner \<Rightarrow> string \<Rightarrow> bool" where
  "readable_sidecar S s akey =
     (\<forall>ob. object_at s (sidecar_key akey) = Some ob \<longrightarrow>
        (\<exists>sc. dec_sidecar S (obj_bytes ob) = Some sc \<and> (\<forall>raw. origin sc = Some raw \<longrightarrow> origin_parse raw \<noteq> None)))"

lemma read_pkg_origin_quiet:
  assumes "script w = []" and "view J (buckets w) b pkg \<noteq> Corrupt"
  shows "read_pkg_origin J b pkg w = (Inr (claim_of (view J (buckets w) b pkg)), w)"
  using assms
  by (auto simp: read_pkg_origin_def andThen_def read_origin_observation_quiet lookup_tagged_def view_def claim_of_def ret_def
      split: option.splits sum.splits)

definition listed_names :: "inner \<Rightarrow> string \<Rightarrow> string list" where
  "listed_names s dir = List.map_filter (\<lambda>e. strip_prefix (fe_key e) dir)
     (map (\<lambda>(k, ob). \<lparr>fe_key = k, fe_size = length (obj_bytes ob), fe_last_modified = Some (last_modified ob),
                      fe_etag = Some (listed_etag ob)\<rparr>)
        (filter (\<lambda>e. CHR ''/'' \<notin> set (drop (length dir) (fst e))) (prefix_range s dir)))"

lemma listed_names_iff:
  assumes "store_wf s"
  shows "x \<in> set (listed_names s dir) \<longleftrightarrow> CHR ''/'' \<notin> set x \<and> contains_key s (dir @ x)"
proof -
  have "x \<in> set (listed_names s dir) \<longleftrightarrow>
      (\<exists>k\<in>fst ` set (prefix_range s dir). CHR ''/'' \<notin> set (drop (length dir) k) \<and> k = dir @ x)"
    unfolding listed_names_def set_map_filter by (force simp: strip_prefix_Some_iff)
  then show ?thesis
    unfolding prefix_range_keys [OF assms] by auto
qed

lemma from_listing_cong:
  "(\<And>x. x = [] \<or> x \<in> set marker_suffixes \<Longrightarrow> h x = h' x) \<Longrightarrow> from_listing h sc claim = from_listing h' sc claim"
  by (simp add: from_listing_def marker_suffixes_def)

lemma read_record_quiet:
  assumes "script w = []" and "store_wf (buckets w b)" and "CHR ''/'' \<notin> set f"
    and "view J (buckets w) b pkg \<noteq> Corrupt" and "readable_sidecar S (buckets w b) (artifact_key pkg f)"
  shows "read_record J S b pkg f w = (Inr (record_of S (buckets w b) pkg f (claim_of (view J (buckets w) b pkg))), w)"
proof -
  let ?s = "buckets w b" and ?dir = "PACKAGES_PREFIX @ pkg @ ''/''" and ?a = "artifact_key pkg f"
  have names: "f @ x \<in> set (listed_names ?s ?dir) \<longleftrightarrow> contains_key ?s (?a @ x)" if "x = [] \<or> x \<in> set marker_suffixes" for x
    using that marker_suffixes_no_slash [of x] assms(3) listed_names_iff [OF assms(2), of "f @ x" ?dir]
    by (auto simp: artifact_key_def)
  have run: "read_record J S b pkg f w =
      record_from_names S b pkg f (listed_names ?s ?dir) (claim_of (view J (buckets w) b pkg)) w"
    using read_pkg_origin_quiet [OF assms(1,4)] unfolding read_record_def Let_def list_dir_entries_def
    by (simp add: andThen_def read_call_quiet [OF assms(1)] listed_names_def)
  have listing: "from_listing (\<lambda>x. f @ x \<in> set (listed_names ?s ?dir)) sc claim = from_listing (\<lambda>x. contains_key ?s (?a @ x)) sc claim" for sc claim
    by (rule from_listing_cong) (rule names)
  show ?thesis
  proof (cases "object_at ?s (sidecar_key ?a)")
    case None
    then have "f @ SIDECAR_SUFFIX \<notin> set (listed_names ?s ?dir)"
      using names [of SIDECAR_SUFFIX] by (simp add: contains_key_def key_defs)
    then show ?thesis
      unfolding run record_from_names_def listing record_of_def using None by (simp add: andThen_def ret_def)
  next
    case (Some ob)
    then have "f @ SIDECAR_SUFFIX \<in> set (listed_names ?s ?dir)"
      using names [of SIDECAR_SUFFIX] by (simp add: contains_key_def key_defs)
    moreover obtain sc where "dec_sidecar S (obj_bytes ob) = Some sc" "\<forall>raw. origin sc = Some raw \<longrightarrow> origin_parse raw \<noteq> None"
      using assms(5) Some by (auto simp: readable_sidecar_def)
    ultimately show ?thesis
      unfolding run record_from_names_def listing record_of_def using Some assms(1)
      by (auto simp: andThen_def ret_def read_sidecar_checked_def get_bytes_quiet split: option.splits)
  qed
qed

section \<open>The bucket after a freeze\<close>

lemma marker_keys_differ [simp]:
  "tombstone_key k \<noteq> frozen_key k" "frozen_key k \<noteq> tombstone_key k"
  by (simp_all add: key_defs suffix_defs)

lemma quarantine_not_marker [simp]:
  "quarantine_key p g h \<noteq> tombstone_key (artifact_key pkg f)" "quarantine_key p g h \<noteq> frozen_key (artifact_key pkg f)"
  "quarantine_key p g h \<noteq> mirror_quarantined_key (artifact_key pkg f)"
  "quarantine_key p g h \<notin> set (dropped_keys (artifact_key pkg f))"
  by (simp_all add: dropped_keys_def record_object_keys_def key_defs)

lemma fences_not_dropped_keys [simp]:
  "tombstone_key a \<notin> set (dropped_keys a)" "frozen_key a \<notin> set (dropped_keys a)"
  using fences_not_dropped [of a] by (simp_all add: dropped_keys_def)

lemma frozen_state_at:
  fixes s pkg f
  defines "a \<equiv> artifact_key pkg f"
  shows "k \<in> set (dropped_keys a) \<Longrightarrow> object_at (frozen_state sha M pkg f s) k = None"
    and "k \<notin> set (dropped_keys a) \<Longrightarrow> contains_key s k \<Longrightarrow> object_at (frozen_state sha M pkg f s) k = object_at s k"
    and "contains_key (frozen_state sha M pkg f s) (tombstone_key a)" and "contains_key (frozen_state sha M pkg f s) (frozen_key a)"
    and "object_at s a = Some ob \<Longrightarrow> preserved_ok sha s pkg f (obj_bytes ob) \<Longrightarrow>
      \<exists>q. object_at (frozen_state sha M pkg f s) (quarantine_key pkg f (sha256_hex sha (obj_bytes ob))) = Some q \<and> obj_bytes q = obj_bytes ob"
  unfolding frozen_state_def Let_def a_def [symmetric]
  by (auto simp: object_at_delete_keys contains_key_delete_keys contains_put_absent object_at_put_absent a_def preserved_ok_def
      split: option.splits) (auto simp: contains_key_def)

lemma store_wf_put_absent: "store_wf s \<Longrightarrow> store_wf (put_absent sha k bs s)"
  by (simp add: put_absent_def store_wf_store)

lemma store_wf_frozen_state: "store_wf s \<Longrightarrow> store_wf (frozen_state sha M pkg f s)"
  by (auto simp: frozen_state_def Let_def store_wf_put_absent store_wf_delete_keys split: option.splits)

text \<open>Nothing that a freeze touches is a package claim.\<close>

lemma origin_key_artifact: "is_artifact f \<Longrightarrow> CHR ''/'' \<notin> set f \<Longrightarrow> x \<in> set ([] # marker_suffixes) \<Longrightarrow> artifact_key pkg f @ x \<noteq> origin_key pkg"
  by (auto simp: artifact_key_def origin_key_def is_artifact_def append_eq_Cons_conv)

lemma settled_record:
  assumes "contains_key s (tombstone_key (artifact_key pkg f))" and "contains_key s (frozen_key (artifact_key pkg f)) = z"
    and "\<And>k. k \<in> set (record_object_keys (artifact_key pkg f)) \<Longrightarrow> object_at s k = None"
    and "object_at s (mirror_quarantined_key (artifact_key pkg f)) = None"
  shows "classify_record (record_of S s pkg f claim) = (if z then Frozen True else Tombstoned True)"
  using assms
  by (auto simp: record_of_def from_listing_def classify_record_def Let_def contains_key_def record_object_keys_def key_defs)

section \<open>Both fencing operations\<close>

datatype fence_op = Freeze_Op | Tombstone_Op

fun run_fence_op :: "(bytes \<Rightarrow> bytes) \<Rightarrow> marker_codec \<Rightarrow> bucket_id \<Rightarrow> string \<Rightarrow> string \<Rightarrow> fence_op \<Rightarrow> bool act" where
  "run_fence_op sha M b pkg f Freeze_Op = freeze_side sha M b pkg f"
| "run_fence_op sha M b pkg f Tombstone_Op = tombstone_side sha M b pkg f"

definition tombstoned_state :: "(bytes \<Rightarrow> bytes) \<Rightarrow> marker_codec \<Rightarrow> string \<Rightarrow> string \<Rightarrow> inner \<Rightarrow> inner" where
  "tombstoned_state sha M pkg f s =
     (let a = artifact_key pkg f; debris = [sidecar_key a, metadata_key a, provenance_key a, mirror_quarantined_key a] in
      if contains_key s (tombstone_key a) \<and> \<not> contains_key s a then fold (delete_key sha) debris s
      else fold (delete_key sha) (dropped_keys a) (put_absent sha (tombstone_key a) (enc_tombstone M f) s))"

lemma delete_keys_absent: "\<forall>k\<in>set ks. \<not> contains_key s k \<Longrightarrow> fold (delete_key sha) ks s = s"
  by (induction ks) (auto simp: delete_key_def contains_key_def)

lemma tombstone_side_quiet:
  assumes "script w = []"
  shows "\<exists>r. tombstone_side sha M b pkg f w = (Inr r, upd b (tombstoned_state sha M pkg f (buckets w b)) w)"
proof -
  let ?a = "artifact_key pkg f" and ?s = "buckets w b"
  let ?ds = "[sidecar_key ?a, metadata_key ?a, provenance_key ?a, mirror_quarantined_key ?a]"
  note run = assms tombstone_side_def Let_def andThen_def head_exists_quiet ret_def delete_keys_upd tombstone_write_quiet
    drop_record_objects_quiet tombstoned_state_def
  consider (fresh) "\<not> (contains_key ?s (tombstone_key ?a) \<and> \<not> contains_key ?s ?a)"
    | (clean) "contains_key ?s (tombstone_key ?a)" "\<not> contains_key ?s ?a" "\<forall>k\<in>set ?ds. \<not> contains_key ?s k"
    | (debris) "contains_key ?s (tombstone_key ?a)" "\<not> contains_key ?s ?a" "\<not> (\<forall>k\<in>set ?ds. \<not> contains_key ?s k)"
    by blast
  then show ?thesis
  proof cases
    case fresh
    then show ?thesis
      by (auto simp: run)
  next
    case clean
    then have "fold (delete_key sha) ?ds ?s = ?s"
      by (intro delete_keys_absent)
    then show ?thesis
      using clean by (auto simp: run simp del: fold.simps)
  next
    case debris
    then show ?thesis
      by (auto simp: run)
  qed
qed

text \<open>
  What one fencing operation leaves in its bucket: both kinds of durable fence where they belong,
  no record object, every other object as it was.
\<close>

definition fenced_from :: "fence_op \<Rightarrow> string \<Rightarrow> string \<Rightarrow> inner \<Rightarrow> inner \<Rightarrow> bool" where
  "fenced_from opn pkg f s s' =
     (let a = artifact_key pkg f in
      contains_key s' (tombstone_key a)
      \<and> contains_key s' (frozen_key a) = (opn = Freeze_Op \<or> contains_key s (frozen_key a))
      \<and> (\<forall>k\<in>set (mirror_quarantined_key a # record_object_keys a). object_at s' k = None)
      \<and> (\<forall>k. k \<notin> set (dropped_keys a) \<and> contains_key s k \<longrightarrow> object_at s' k = object_at s k)
      \<and> (\<forall>k. contains_key s' k \<longrightarrow> contains_key s k \<or> k \<in> {tombstone_key a, frozen_key a} \<or> starts_with k QUARANTINE_PREFIX))"

lemma fenced_frozen_state: "fenced_from Freeze_Op pkg f s (frozen_state sha M pkg f s)"
proof -
  have "contains_key s k \<or> k \<in> {tombstone_key (artifact_key pkg f), frozen_key (artifact_key pkg f)} \<or> starts_with k QUARANTINE_PREFIX"
    if "contains_key (frozen_state sha M pkg f s) k" for k
    using that unfolding frozen_state_def Let_def
    by (auto simp: contains_key_delete_keys contains_put_absent quarantine_key_def split: option.splits)
  then show ?thesis
    using frozen_state_at [where s = s and pkg = pkg and f = f and sha = sha and M = M]
    by (simp add: fenced_from_def Let_def dropped_keys_def)
qed

lemma fenced_tombstoned_state: "fenced_from Tombstone_Op pkg f s (tombstoned_state sha M pkg f s)"
proof -
  let ?a = "artifact_key pkg f"
  have "\<forall>k\<in>set [sidecar_key ?a, metadata_key ?a, provenance_key ?a, mirror_quarantined_key ?a]. k \<in> set (dropped_keys ?a)"
    by (simp add: dropped_keys_def record_object_keys_def)
  moreover have "tombstone_key ?a \<notin> set (dropped_keys ?a)" "frozen_key ?a \<notin> set (dropped_keys ?a)"
    by simp_all
  ultimately have "tombstone_key ?a \<notin> set [sidecar_key ?a, metadata_key ?a, provenance_key ?a, mirror_quarantined_key ?a]"
    "frozen_key ?a \<notin> set [sidecar_key ?a, metadata_key ?a, provenance_key ?a, mirror_quarantined_key ?a]"
    by blast+
  then show ?thesis
    unfolding fenced_from_def tombstoned_state_def Let_def
    by (cases "contains_key s (tombstone_key ?a) \<and> \<not> contains_key s ?a")
      (auto simp: contains_key_delete_keys object_at_delete_keys contains_put_absent object_at_put_absent dropped_keys_def
        record_object_keys_def contains_key_def [of s] simp del: fold.simps)
qed

lemma store_wf_tombstoned_state: "store_wf s \<Longrightarrow> store_wf (tombstoned_state sha M pkg f s)"
  by (simp add: tombstoned_state_def Let_def store_wf_delete_keys store_wf_put_absent del: fold.simps)

lemma fenced_view:
  assumes "fenced_from opn pkg f s s'" and "is_artifact f" and "CHR ''/'' \<notin> set f"
  shows "object_at s' (origin_key pkg) = object_at s (origin_key pkg)"
proof -
  let ?a = "artifact_key pkg f"
  have other: "origin_key pkg \<noteq> ?a @ x" if "x \<in> set ([] # marker_suffixes)" for x
    using origin_key_artifact [OF assms(2,3) that] by metis
  have "origin_key pkg \<notin> set (dropped_keys ?a)"
    using other [of "[]"] other [of SIDECAR_SUFFIX] other [of METADATA_SUFFIX] other [of PROVENANCE_SUFFIX]
      other [of MIRROR_QUARANTINED_SUFFIX] other [of SUPERSEDING_SUFFIX]
    by (simp add: dropped_keys_def record_object_keys_def key_defs)
  moreover have "origin_key pkg \<notin> {tombstone_key ?a, frozen_key ?a}" "\<not> starts_with (origin_key pkg) QUARANTINE_PREFIX"
    using other [of TOMBSTONE_SUFFIX] other [of FROZEN_SUFFIX]
    by (simp_all add: key_defs origin_key_def PACKAGES_PREFIX_def QUARANTINE_PREFIX_def)
  ultimately show ?thesis
    using assms(1) unfolding fenced_from_def Let_def contains_key_def by (metis option.distinct(1) option.exhaust)
qed

lemma fenced_settled:
  assumes "fenced_from opn pkg f s s'"
  shows "classify_record (record_of S s' pkg f claim) = (if opn = Freeze_Op \<or> contains_key s (frozen_key (artifact_key pkg f)) then Frozen True else Tombstoned True)"
    and "readable_sidecar S s' (artifact_key pkg f)"
proof -
  have gone: "object_at s' k = None" if "k \<in> set (record_object_keys (artifact_key pkg f))" for k
    using assms that by (simp add: fenced_from_def Let_def)
  show "classify_record (record_of S s' pkg f claim) =
      (if opn = Freeze_Op \<or> contains_key s (frozen_key (artifact_key pkg f)) then Frozen True else Tombstoned True)"
    by (rule settled_record [OF _ _ gone]) (use assms in \<open>auto simp: fenced_from_def Let_def\<close>)
  show "readable_sidecar S s' (artifact_key pkg f)"
    using gone [of "sidecar_key (artifact_key pkg f)"] by (simp add: readable_sidecar_def record_object_keys_def)
qed

text \<open>Each operation, undisturbed, succeeds unless a freeze meets a quarantine collision.\<close>

lemma fence_op_quiet:
  assumes "script w = []" and "store_wf (buckets w b)"
    and "\<And>ob. object_at (buckets w b) (artifact_key pkg f) = Some ob \<Longrightarrow> preserved_ok sha (buckets w b) pkg f (obj_bytes ob)"
  shows "\<exists>r s'. run_fence_op sha M b pkg f opn w = (Inr r, upd b s' w) \<and> fenced_from opn pkg f (buckets w b) s' \<and> store_wf s'"
proof (cases opn)
  case Freeze_Op
  then show ?thesis
    using freeze_side_quiet [OF assms(1), of sha M b pkg f] assms(3) fenced_frozen_state store_wf_frozen_state [OF assms(2)]
    by (auto split: option.splits)
next
  case Tombstone_Op
  obtain r where "tombstone_side sha M b pkg f w = (Inr r, upd b (tombstoned_state sha M pkg f (buckets w b)) w)"
    using tombstone_side_quiet [OF assms(1)] by blast
  then show ?thesis
    unfolding Tombstone_Op run_fence_op.simps
    using fenced_tombstoned_state store_wf_tombstoned_state [OF assms(2)] by blast
qed

section \<open>Properties of the fencing operations\<close>

text \<open>
  C31: a freeze or a delete never loses a body by accident. With peers that take down no fence and
  account for their own removals, whatever they interleave, \<open>freeze_side\<close> and \<open>tombstone_side\<close> add
  nothing to the unaccounted disappearances; and when they succeed the permanent filename fence
  stands (for a freeze, the freeze marker too).
\<close>

theorem fencing_is_accounted:
  assumes "obeys (fences_persist b) w" and "run_fence_op sha M b pkg f opn w = (r, w')"
  shows "untyped_disappearances (buckets w' b) = untyped_disappearances (buckets w b)
    \<and> (\<forall>x. r = Inr x \<longrightarrow> contains_key (buckets w' b) (tombstone_key (artifact_key pkg f))
         \<and> (opn = Freeze_Op \<longrightarrow> contains_key (buckets w' b) (frozen_key (artifact_key pkg f))))"
proof -
  let ?u = "untyped_disappearances (buckets w b)"
  have pre: "standing ?u [] b (buckets w)"
    by (simp add: standing_def)
  show ?thesis
  proof (cases opn)
    case Freeze_Op
    then show ?thesis
      using tripleD [OF triple_freeze_side assms(1) pre, of sha M pkg f r w'] assms(2)
      by (cases r) (auto simp: standing_def)
  next
    case Tombstone_Op
    then show ?thesis
      using tripleD [OF triple_tombstone_side assms(1) pre, of sha M pkg f r w'] assms(2)
      by (cases r) (auto simp: standing_def)
  qed
qed

definition plain_markers :: marker_codec where
  "plain_markers = \<lparr>enc_tombstone = (\<lambda>f. f), enc_frozen = (\<lambda>f. f), enc_mirror_quarantine = (\<lambda>f. f)\<rparr>"

theorem fencing_is_accounted_witness:
  "let w = (quiet (\<lambda>_. crashed_bucket))\<lparr>script := [Answered rewrite_peer, Refused (HttpStatus 503) id, Unanswered Timeout rewrite_peer]\<rparr>;
       w' = snd (run_fence_op (\<lambda>x. x) plain_markers 0 ''six'' ''six-2.whl'' Freeze_Op w)
   in untyped_disappearances (buckets w' 0) = untyped_disappearances (buckets w 0)"
proof -
  let ?w = "(quiet (\<lambda>_. crashed_bucket))\<lparr>script := [Answered rewrite_peer, Refused (HttpStatus 503) id, Unanswered Timeout rewrite_peer]\<rparr>"
  have "obeys (fences_persist 0) ?w"
    by (simp add: obeys_def quiet_def fleet_wf_def store_wf_crashed rewrite_peer_def store_wf_store fleet_evolves_def
        store_evolves fences_persist_def contains_key_store)
  then show ?thesis
    using fencing_is_accounted [of 0 ?w "\<lambda>x. x" plain_markers "''six''" "''six-2.whl''" Freeze_Op]
    by (simp add: Let_def prod_eq_iff del: run_fence_op.simps)
qed

text \<open>
  an undisturbed freeze moves the body, it never drops it. The body that stood is afterwards
  under its quarantine key, byte for byte; body, sidecar, companions, demotion fence and supersede
  intent are gone; both fences stand; every other object is as it was. If a different body already
  occupies that quarantine key the freeze fails and every object that stood still stands.
\<close>

theorem freeze_preserves_body:
  assumes "script w = []" and "object_at (buckets w b) (artifact_key pkg f) = Some ob"
  shows "if \<exists>q. object_at (buckets w b) (quarantine_key pkg f (sha256_hex sha (obj_bytes ob))) = Some q \<and> obj_bytes q \<noteq> obj_bytes ob
    then \<exists>e w'. freeze_side sha M b pkg f w = (Inl e, w')
      \<and> (\<forall>k. contains_key (buckets w b) k \<longrightarrow> object_at (buckets w' b) k = object_at (buckets w b) k)
    else \<exists>r w'. freeze_side sha M b pkg f w = (Inr r, w')
      \<and> (\<exists>q. object_at (buckets w' b) (quarantine_key pkg f (sha256_hex sha (obj_bytes ob))) = Some q \<and> obj_bytes q = obj_bytes ob)
      \<and> contains_key (buckets w' b) (tombstone_key (artifact_key pkg f)) \<and> contains_key (buckets w' b) (frozen_key (artifact_key pkg f))
      \<and> (\<forall>k. contains_key (buckets w b) k \<longrightarrow> object_at (buckets w' b) k =
          (if k \<in> set (record_object_keys (artifact_key pkg f)) \<union> {mirror_quarantined_key (artifact_key pkg f), superseding_key (artifact_key pkg f)}
           then None else object_at (buckets w b) k))"
proof (cases "preserved_ok sha (buckets w b) pkg f (obj_bytes ob)")
  case True
  then have no_collision: "\<nexists>q. object_at (buckets w b) (quarantine_key pkg f (sha256_hex sha (obj_bytes ob))) = Some q \<and> obj_bytes q \<noteq> obj_bytes ob"
    unfolding preserved_ok_def by blast
  have keys: "set (record_object_keys (artifact_key pkg f)) \<union> {mirror_quarantined_key (artifact_key pkg f), superseding_key (artifact_key pkg f)} =
      set (dropped_keys (artifact_key pkg f))"
    by (auto simp: dropped_keys_def)
  note at = frozen_state_at [where s = "buckets w b" and pkg = pkg and f = f and sha = sha and M = M]
  let ?w = "upd b (frozen_state sha M pkg f (buckets w b)) w"
  have run: "freeze_side sha M b pkg f w = (Inr (\<not> contains_key (buckets w b) (frozen_key (artifact_key pkg f))), ?w)"
    using freeze_side_quiet [OF assms(1), of sha M b pkg f] assms(2) True by simp
  have moved: "object_at (buckets ?w b) k = (if k \<in> set (dropped_keys (artifact_key pkg f)) then None else object_at (buckets w b) k)"
    if "contains_key (buckets w b) k" for k
    using at(1) [of k] at(2) [of k] that by simp
  show ?thesis
    unfolding keys
    by (subst if_not_P [OF no_collision], rule exI, rule exI, intro conjI allI impI, rule run)
      (use at(3,4) at(5) [OF assms(2) True] moved in simp_all)
next
  case False
  then have "\<exists>q. object_at (buckets w b) (quarantine_key pkg f (sha256_hex sha (obj_bytes ob))) = Some q \<and> obj_bytes q \<noteq> obj_bytes ob"
    unfolding preserved_ok_def by blast
  then show ?thesis
    using freeze_side_quiet [OF assms(1), of sha M b pkg f] assms(2) False by (simp add: object_at_put_absent)
qed

theorem freeze_preserves_body_witness:
  "\<exists>r w' q. freeze_side (\<lambda>x. x) plain_markers 0 ''six'' ''six-2.whl'' (quiet (\<lambda>_. crashed_bucket)) = (Inr r, w')
    \<and> object_at (buckets w' 0) (quarantine_key ''six'' ''six-2.whl'' (sha256_hex (\<lambda>x. x) ''live'')) = Some q \<and> obj_bytes q = ''live''"
proof -
  obtain ob where ob: "object_at crashed_bucket (artifact_key ''six'' ''six-2.whl'') = Some ob" "obj_bytes ob = ''live''"
    by (simp add: crashed_bucket_def Let_def artifact_key_package object_at_store)
  have "object_at crashed_bucket (quarantine_key ''six'' ''six-2.whl'' h) = None" for h
    by (simp add: crashed_bucket_def Let_def object_at_store key_defs package_key_def PACKAGES_PREFIX_def quarantine_key_def QUARANTINE_PREFIX_def
        bt.get_empty)
  then show ?thesis
    using freeze_preserves_body [of "quiet (\<lambda>_. crashed_bucket)" 0 "''six''" "''six-2.whl''" ob "\<lambda>x. x" plain_markers] ob
    by (auto simp: quiet_def)
qed

text \<open>
  fencing both sides converges. When two buckets freeze, or both tombstone a filename neither
  has frozen, and no quarantine key collides, then both records read back as settled and the merge
  algebra decides that nothing is left to do.
\<close>

theorem fencing_both_sides_converges:
  assumes "script w = []" and "a \<noteq> b" and "is_artifact f" and "CHR ''/'' \<notin> set f"
    and "\<forall>i\<in>{a, b}. store_wf (buckets w i) \<and> view J (buckets w) i pkg \<noteq> Corrupt
          \<and> (\<forall>ob q. object_at (buckets w i) (artifact_key pkg f) = Some ob \<and>
                object_at (buckets w i) (quarantine_key pkg f (sha256_hex sha (obj_bytes ob))) = Some q \<longrightarrow> obj_bytes q = obj_bytes ob)
          \<and> (opn = Tombstone_Op \<longrightarrow> \<not> contains_key (buckets w i) (frozen_key (artifact_key pkg f)))"
  shows "\<exists>w'. andThen (run_fence_op sha M a pkg f opn) (\<lambda>_.
      andThen (run_fence_op sha M b pkg f opn) (\<lambda>_.
      andThen (read_record J S a pkg f) (\<lambda>ra.
      andThen (read_record J S b pkg f) (\<lambda>rb. ret (decide enc sha ra rb))))) w = (Inr Noop, w')"
proof -
  have ok: "\<And>ob. object_at (buckets w i) (artifact_key pkg f) = Some ob \<Longrightarrow> preserved_ok sha (buckets w i) pkg f (obj_bytes ob)"
    and wf: "store_wf (buckets w i)" and claim: "view J (buckets w) i pkg \<noteq> Corrupt"
    and unfrozen: "opn = Tombstone_Op \<Longrightarrow> \<not> contains_key (buckets w i) (frozen_key (artifact_key pkg f))" if "i \<in> {a, b}" for i
    using bspec [OF assms(5) that] unfolding preserved_ok_def by blast+
  obtain r1 s1 where 1: "run_fence_op sha M a pkg f opn w = (Inr r1, upd a s1 w)" "fenced_from opn pkg f (buckets w a) s1" "store_wf s1"
    using fence_op_quiet [of w a pkg f sha M opn] assms(1) wf [of a] ok [of a] by blast
  let ?w1 = "upd a s1 w"
  have same: "buckets ?w1 b = buckets w b"
    using assms(2) by simp
  obtain r2 s2 where 2: "run_fence_op sha M b pkg f opn ?w1 = (Inr r2, upd b s2 ?w1)" "fenced_from opn pkg f (buckets w b) s2" "store_wf s2"
    using fence_op_quiet [of ?w1 b pkg f sha M opn] assms(1) wf [of b] ok [of b] unfolding same upd_simps(1) by blast
  let ?w2 = "upd b s2 ?w1"
  have at: "buckets ?w2 a = s1" "buckets ?w2 b = s2"
    using assms(2) by simp_all
  have read: "\<exists>r. read_record J S i pkg f ?w2 = (Inr r, ?w2) \<and> classify_record r = (if opn = Freeze_Op then Frozen True else Tombstoned True)"
    if i: "i \<in> {a, b}" "buckets ?w2 i = s'" "fenced_from opn pkg f (buckets w i) s'" "store_wf s'" for i s'
  proof -
    have "object_at (buckets ?w2 i) (origin_key pkg) = object_at (buckets w i) (origin_key pkg)"
      using fenced_view [OF i(3) assms(3,4)] i(2) by simp
    then have "view J (buckets ?w2) i pkg \<noteq> Corrupt"
      using claim [OF i(1)] by (simp add: view_def)
    then show ?thesis
      using read_record_quiet [of ?w2 i f J pkg S] assms(1,4) i(2,4) fenced_settled [OF i(3)] unfrozen [OF i(1)]
      by (cases opn) auto
  qed
  obtain ra where ra: "read_record J S a pkg f ?w2 = (Inr ra, ?w2)" "classify_record ra = (if opn = Freeze_Op then Frozen True else Tombstoned True)"
    using read [OF _ at(1) 1(2,3)] by auto
  obtain rb where rb: "read_record J S b pkg f ?w2 = (Inr rb, ?w2)" "classify_record rb = (if opn = Freeze_Op then Frozen True else Tombstoned True)"
    using read [OF _ at(2) 2(2,3)] by auto
  have "decide enc sha ra rb = Noop"
    using ra(2) rb(2) by (simp add: decide_def)
  then show ?thesis
    using 1(1) 2(1) ra(1) rb(1) by (simp add: andThen_def ret_def)
qed

theorem fencing_both_sides_converges_witness:
  "\<exists>w'. andThen (run_fence_op (\<lambda>x. x) plain_markers 0 ''six'' ''six-2.whl'' Freeze_Op) (\<lambda>_.
      andThen (run_fence_op (\<lambda>x. x) plain_markers 1 ''six'' ''six-2.whl'' Freeze_Op) (\<lambda>_.
      andThen (read_record plain_codec \<lparr>enc_sidecar = (\<lambda>_. []), dec_sidecar = (\<lambda>_. None)\<rparr> 0 ''six'' ''six-2.whl'') (\<lambda>ra.
      andThen (read_record plain_codec \<lparr>enc_sidecar = (\<lambda>_. []), dec_sidecar = (\<lambda>_. None)\<rparr> 1 ''six'' ''six-2.whl'') (\<lambda>rb.
        ret (decide (\<lambda>_. []) (\<lambda>x. x) ra rb))))) (quiet (\<lambda>_. crashed_bucket)) = (Inr Noop, w')"
proof -
  have art: "is_artifact ''six-2.whl''" "CHR ''/'' \<notin> set ''six-2.whl''"
    by code_simp+
  have absent: "object_at crashed_bucket (quarantine_key ''six'' ''six-2.whl'' h) = None" "object_at crashed_bucket (origin_key ''six'') = None" for h
    by (simp_all add: crashed_bucket_def Let_def object_at_store key_defs suffix_defs package_key_def PACKAGES_PREFIX_def
        quarantine_key_def QUARANTINE_PREFIX_def origin_key_def bt.get_empty)
  show ?thesis
    by (rule fencing_both_sides_converges)
      (use art absent store_wf_crashed in \<open>simp_all add: quiet_def view_def\<close>)
qed

end
