(* ===== verification/Demotion.thy ===== *)
theory Demotion
  imports Fence_Safety
begin

text \<open>
  What the mirror-to-private demotion and the sidecar adoption of \<open>Fences\<close> guarantee: undisturbed,
  where a demotion leaves the claim, the fence, the body and its preserved copy; under interference,
  that adopting a sidecar never lowers what a bucket says about a file.
\<close>

section \<open>Claims on the destination, undisturbed\<close>

lemma private_as_str: "as_str Private = PRIVATE"
  by simp

lemma claim_target_private: "claim_target PRIVATE = Inr Private"
  by (simp add: claim_target_def parse_state_def origin_consts)

definition claimed_private :: "(bytes \<Rightarrow> bytes) \<Rightarrow> claim_codec \<Rightarrow> bucket_id \<Rightarrow> string \<Rightarrow> world \<Rightarrow> world" where
  "claimed_private sha J b pkg w =
     (upd b (snd (store sha (origin_key pkg) (to_json J (written_body Private (nonce_seq w))) (buckets w b))) w)
       \<lparr>nonce_seq := nonce_seq w + 1\<rparr>"

lemma ensure_private_quiet:
  assumes "script w = []" and "store_wf (buckets w b)" and "next_version (buckets w b) \<le> 2 ^ 64"
    and "view J (buckets w) b pkg \<noteq> Corrupt"
  shows "ensure_private_origin sha J b pkg w =
    (Inr (), if view J (buckets w) b pkg = Claimed Private then w else claimed_private sha J b pkg w)"
proof -
  let ?s = "buckets w b" and ?k = "origin_key pkg"
  have step: "ensure_private_origin sha J b pkg w = ensure_private_loop sha J b pkg (Suc 7) w"
    by (simp add: ensure_private_origin_def ORIGIN_ATTEMPTS_def numeral_eq_Suc)
  have loop: "claim_loop sha J b pkg Private CLAIM_ATTEMPTS = claim_loop sha J b pkg Private (Suc 7)"
    by (simp add: CLAIM_ATTEMPTS_def numeral_eq_Suc)
  show ?thesis
  proof (cases "lookup_tagged ?s ?k")
    case None
    then have v: "view J (buckets w) b pkg = Absent" and "\<not> contains_key ?s ?k"
      by (auto simp: lookup_tagged_def view_def contains_key_def)
    then have "claim_loop sha J b pkg Private CLAIM_ATTEMPTS w =
        (Inr \<lparr>owner = PRIVATE, claim_etag = Some (version_etag (next_version ?s))\<rparr>, claimed_private sha J b pkg w)"
      unfolding loop claim_loop.simps using assms(1)
      by (simp add: andThen_def ret_def encode_claim_run put_if_none_match_quiet claimed_private_def upd_def)
    then have "claim_origin sha J b pkg PRIVATE None w =
        (Inr \<lparr>owner = PRIVATE, claim_etag = Some (version_etag (next_version ?s))\<rparr>, claimed_private sha J b pkg w)"
      by (simp add: claim_origin_def claim_target_private lift_res_def andThen_def ret_def)
    then show ?thesis
      unfolding step ensure_private_loop.simps using None v assms(1)
      by (simp add: andThen_def read_origin_observation_quiet ret_def)
  next
    case (Some p)
    obtain bs tag where p: "p = (bs, tag)"
      by fastforce
    have tag: "versioned tag"
      using versioned_lookup [OF assms(2,3)] Some p by simp
    obtain st where st: "decode_claim J bs = Inr st" and v: "view J (buckets w) b pkg = Claimed st"
      using assms(4) Some p by (auto simp: view_def lookup_tagged_def split: option.splits sum.splits)
    have put: "put_if_match sha b ?k tag (to_json J (written_body Private (nonce_seq w))) (w\<lparr>nonce_seq := nonce_seq w + 1\<rparr>) =
        (Inr (Some (version_etag (next_version ?s))), claimed_private sha J b pkg w)"
      using assms(1) Some p tag by (simp add: put_if_match_quiet claimed_private_def upd_def)
    note run = andThen_def read_origin_observation_quiet [OF assms(1)] Some p st ret_def encode_claim_run put
    show ?thesis
    proof (cases st)
      case Unclaimed
      have "claim_origin sha J b pkg PRIVATE (Some \<lparr>ob_state = Unclaimed, ob_etag = tag\<rparr>) w =
          (Inr \<lparr>owner = PRIVATE, claim_etag = Some (version_etag (next_version ?s))\<rparr>, claimed_private sha J b pkg w)"
        by (simp add: claim_origin_def claim_target_private lift_res_def run)
      then show ?thesis
        unfolding step ensure_private_loop.simps using Unclaimed v by (simp add: run)
    next
      case Mirror
      have "demote_observed_mirror sha J b pkg \<lparr>ob_state = Mirror, ob_etag = tag\<rparr> w =
          (Inr (Some \<lparr>ob_state = Private, ob_etag = version_etag (next_version ?s)\<rparr>), claimed_private sha J b pkg w)"
        by (simp add: demote_observed_mirror_def run)
      then show ?thesis
        unfolding step ensure_private_loop.simps using Mirror v by (simp add: run)
    next
      case Private
      then show ?thesis
        unfolding step ensure_private_loop.simps using v by (simp add: run)
    qed
  qed
qed

section \<open>Verified writes of a marker, undisturbed\<close>

lemma stored_size_quiet:
  "script w = [] \<Longrightarrow> stored_size b key w = (Inr (map_option (\<lambda>ob. length (obj_bytes ob)) (object_at (buckets w b) key)), w)"
  unfolding stored_size_def by (subst read_call_quiet) simp_all

lemma stream_sha256_quiet:
  "script w = [] \<Longrightarrow> object_at (buckets w b) key = Some ob \<Longrightarrow>
    stream_sha256 sha b key w = (Inr (sha256_hex sha (obj_bytes ob), length (obj_bytes ob)), w)"
  by (simp add: stream_sha256_def andThen_def get_bytes_quiet ret_def)

definition verified_state :: "(bytes \<Rightarrow> bytes) \<Rightarrow> string \<Rightarrow> bytes \<Rightarrow> inner \<Rightarrow> inner" where
  "verified_state sha k bs s =
     (case object_at s k of
        Some ob \<Rightarrow> if sha256_hex sha (obj_bytes ob) = sha256_hex sha bs then s else snd (store sha k bs s)
      | None \<Rightarrow> snd (store sha k bs s))"

lemma put_if_absent_or_verify_quiet:
  assumes "script w = []" and "\<not> is_canonical_artifact k"
  shows "\<exists>r. put_if_absent_or_verify sha b k bs w = (Inr r, upd b (verified_state sha k bs (buckets w b)) w)"
proof (cases "object_at (buckets w b) k")
  case None
  then show ?thesis
    using assms
    by (simp add: put_if_absent_or_verify_def store_artifact_verified_def andThen_def put_if_absent_marker contains_key_def
        check_stored_size_def onResult_def stored_size_quiet object_at_put_absent verified_state_def put_absent_def)
      (auto simp: object_at_store ret_def)
next
  case (Some ob)
  show ?thesis
  proof (cases "sha256_hex sha (obj_bytes ob) = sha256_hex sha bs")
    case True
    then show ?thesis
      using assms Some
      by (auto simp: put_if_absent_or_verify_def store_artifact_verified_def andThen_def put_if_absent_marker contains_key_def
          stream_sha256_quiet [OF _ Some] ret_def verified_state_def put_absent_def)
  next
    case False
    let ?w = "upd b (snd (store sha k bs (buckets w b))) w"
    have "stream_sha256 sha b k ?w = (Inr (sha256_hex sha bs, length bs), ?w)"
      using assms(1) by (subst stream_sha256_quiet) (auto simp: object_at_store)
    then show ?thesis
      using assms Some False
      by (auto simp: put_if_absent_or_verify_def store_artifact_verified_def andThen_def put_if_absent_marker contains_key_def
          stream_sha256_quiet [OF _ Some] ret_def verified_state_def put_absent_def put_bytes_quiet upd_def [symmetric])
  qed
qed

lemma object_at_verified: "k' \<noteq> k \<Longrightarrow> object_at (verified_state sha k bs s) k' = object_at s k'"
  by (simp add: verified_state_def object_at_store split: option.splits)

lemma contains_verified: "contains_key (verified_state sha k bs s) k"
  by (auto simp: verified_state_def contains_key_def object_at_store split: option.splits)

lemma untyped_verified [simp]: "untyped_disappearances (verified_state sha k bs s) = untyped_disappearances s"
  by (simp add: verified_state_def split: option.splits)

lemma store_wf_verified: "store_wf s \<Longrightarrow> store_wf (verified_state sha k bs s)"
  by (simp add: verified_state_def store_wf_store split: option.splits)

section \<open>Settling a demotion, undisturbed\<close>

definition private_truth :: "sidecar_codec \<Rightarrow> inner \<Rightarrow> string \<Rightarrow> bool" where
  "private_truth S s akey =
     ((\<exists>ob sc. object_at s (sidecar_key akey) = Some ob \<and> dec_sidecar S (obj_bytes ob) = Some sc \<and> origin sc = Some PRIVATE)
      \<and> contains_key s akey)"

lemma demotion_resolved_quiet:
  assumes "script w = []" and "readable_sidecar S (buckets w b) (artifact_key pkg f)"
  shows "demotion_resolved_by_private_truth S b pkg f w = (Inr (private_truth S (buckets w b) (artifact_key pkg f)), w)"
  using assms
  by (auto simp: demotion_resolved_by_private_truth_def Let_def onResult_def get_bytes_quiet ret_def head_exists_quiet
      readable_sidecar_def private_truth_def split: option.splits)

lemma settle_drop_quiet:
  assumes "script w = []" and "object_at (buckets w b) akey = Some ob"
    and "\<not> contains_key (buckets w b) (superseding_key akey)"
  shows "settle_drop sha b akey m (Some (sha256_hex sha (obj_bytes ob))) l w =
    (Inr True, upd b (fold (delete_key sha) (record_object_keys akey) (buckets w b)) w)"
  using assms
  by (simp add: settle_drop_def Let_def onResult_def get_bytes_quiet andThen_def head_exists_quiet delete_keys_upd ret_def del: fold.simps)

text \<open>The bucket after a demotion was settled: the fence, the preserved copy, no record.\<close>

definition settled_state :: "(bytes \<Rightarrow> bytes) \<Rightarrow> marker_codec \<Rightarrow> string \<Rightarrow> string \<Rightarrow> bytes \<Rightarrow> inner \<Rightarrow> inner" where
  "settled_state sha M pkg f bs s =
     fold (delete_key sha) (record_object_keys (artifact_key pkg f))
       (preserve sha pkg f bs
         (verified_state sha (mirror_quarantined_key (artifact_key pkg f)) (enc_mirror_quarantine M f) s))"

lemma settle_quiet:
  assumes "script w = []" and "store_wf (buckets w b)" and "next_version (buckets w b) \<le> 2 ^ 64"
    and "view J (buckets w) b pkg = Claimed Private" and "readable_sidecar S (buckets w b) (artifact_key pkg f)"
    and "\<not> private_truth S (buckets w b) (artifact_key pkg f)"
    and "object_at (buckets w b) (artifact_key pkg f) = Some ob"
    and "preserved_ok sha (buckets w b) pkg f (obj_bytes ob)"
    and "\<not> contains_key (buckets w b) (superseding_key (artifact_key pkg f))"
  shows "settle_mirror_quarantine sha J S M b pkg f w = (Inr True, upd b (settled_state sha M pkg f (obj_bytes ob) (buckets w b)) w)"
proof -
  let ?a = "artifact_key pkg f" and ?s = "buckets w b"
  let ?s1 = "verified_state sha (mirror_quarantined_key ?a) (enc_mirror_quarantine M f) ?s"
  let ?s2 = "preserve sha pkg f (obj_bytes ob) ?s1"
  have claim: "ensure_private_origin sha J b pkg w = (Inr (), w)"
    using ensure_private_quiet [OF assms(1-3), of J pkg sha] assms(4) by simp
  obtain m where marker: "write_mirror_quarantine_marker sha M b pkg f w = (Inr m, upd b ?s1 w)"
    using put_if_absent_or_verify_quiet [OF assms(1), of "mirror_quarantined_key ?a" sha b "enc_mirror_quarantine M f"]
    by (auto simp: write_mirror_quarantine_marker_def)
  have body: "object_at ?s1 ?a = Some ob"
    using assms(7) by (simp add: object_at_verified)
  have qkey: "quarantine_key pkg f h \<noteq> mirror_quarantined_key ?a" for h
    by simp
  have ok: "preserved_ok sha ?s1 pkg f (obj_bytes ob)"
    using assms(8) unfolding preserved_ok_def object_at_verified [OF qkey] .
  have copy: "quarantine sha b pkg f (upd b ?s1 w) = (Inr (Some (sha256_hex sha (obj_bytes ob))), upd b ?s2 w)"
    using quarantine_quiet [of "upd b ?s1 w" sha b pkg f] assms(1) body ok by simp
  have at2: "object_at ?s2 ?a = Some ob" "\<not> contains_key ?s2 (superseding_key ?a)"
    using body assms(9)
    by (simp_all add: object_at_put_absent contains_put_absent contains_key_def object_at_verified) (simp_all add: key_defs)
  have drop: "settle_drop sha b ?a m (Some (sha256_hex sha (obj_bytes ob))) l (upd b ?s2 w) =
      (Inr True, upd b (settled_state sha M pkg f (obj_bytes ob) ?s) w)" for l
    using settle_drop_quiet [of "upd b ?s2 w" b ?a ob sha m l] assms(1) at2 by (simp add: settled_state_def)
  show ?thesis
    unfolding settle_mirror_quarantine_def Let_def
    using assms(1,6) by (simp add: andThen_def claim demotion_resolved_quiet [OF assms(1,5)] marker copy head_exists_quiet drop)
qed

lemma settled_state_at:
  fixes s pkg f bs
  defines "a \<equiv> artifact_key pkg f"
  shows "k \<in> set (record_object_keys a) \<Longrightarrow> object_at (settled_state sha M pkg f bs s) k = None"
    and "k \<notin> set (record_object_keys a) \<Longrightarrow> k \<noteq> mirror_quarantined_key a \<Longrightarrow> contains_key s k \<Longrightarrow>
      object_at (settled_state sha M pkg f bs s) k = object_at s k"
    and "contains_key (settled_state sha M pkg f bs s) (mirror_quarantined_key a)"
    and "preserved_ok sha s pkg f bs \<Longrightarrow> \<exists>q. object_at (settled_state sha M pkg f bs s) (quarantine_key pkg f (sha256_hex sha bs)) = Some q \<and> obj_bytes q = bs"
proof -
  let ?s1 = "verified_state sha (mirror_quarantined_key a) (enc_mirror_quarantine M f) s"
  have q: "quarantine_key pkg f (sha256_hex sha bs) \<noteq> mirror_quarantined_key a" "quarantine_key pkg f (sha256_hex sha bs) \<notin> set (record_object_keys a)"
    by (simp_all add: a_def record_object_keys_def key_defs)
  have at: "object_at (settled_state sha M pkg f bs s) k = (if k \<in> set (record_object_keys a) then None
      else object_at (preserve sha pkg f bs ?s1) k)" for k
    by (simp add: settled_state_def a_def object_at_delete_keys)
  show "k \<in> set (record_object_keys a) \<Longrightarrow> object_at (settled_state sha M pkg f bs s) k = None"
    by (simp add: at)
  show "k \<notin> set (record_object_keys a) \<Longrightarrow> k \<noteq> mirror_quarantined_key a \<Longrightarrow> contains_key s k \<Longrightarrow>
      object_at (settled_state sha M pkg f bs s) k = object_at s k"
    using q(1) by (auto simp: at object_at_put_absent object_at_verified contains_key_def)
  have "mirror_quarantined_key a \<notin> set (record_object_keys a)"
    by (simp add: record_object_keys_def)
  then show "contains_key (settled_state sha M pkg f bs s) (mirror_quarantined_key a)"
    using contains_verified [of sha "mirror_quarantined_key a" "enc_mirror_quarantine M f" s]
    by (auto simp: contains_key_def at object_at_put_absent)
  show "\<exists>q. object_at (settled_state sha M pkg f bs s) (quarantine_key pkg f (sha256_hex sha bs)) = Some q \<and> obj_bytes q = bs"
    if "preserved_ok sha s pkg f bs"
    using that q(2) unfolding at object_at_put_absent contains_key_def object_at_verified [OF q(1)] preserved_ok_def
    by (cases "object_at s (quarantine_key pkg f (sha256_hex sha bs))") simp_all
qed

text \<open>The body goes under the authority of its preserved copy.\<close>

lemma settled_state_accounted:
  assumes "is_artifact f" and "CHR ''/'' \<notin> set f" and "CHR ''/'' \<notin> set pkg"
    and "object_at s (artifact_key pkg f) = Some ob"
  shows "untyped_disappearances (settled_state sha M pkg f (obj_bytes ob) s) = untyped_disappearances s"
proof -
  let ?a = "artifact_key pkg f"
  let ?s2 = "preserve sha pkg f (obj_bytes ob) (verified_state sha (mirror_quarantined_key ?a) (enc_mirror_quarantine M f) s)"
  have body: "object_at ?s2 ?a = Some ob"
    using assms(4) by (simp add: object_at_put_absent object_at_verified)
  have split: "split_artifact_key ?a = Some (pkg, f)"
    using split_artifact_key_package [OF assms(3,2,1)] by (simp add: artifact_key_def)
  then have canonical: "is_canonical_artifact ?a"
    by (simp add: is_canonical_artifact_def)
  have "removal_authorized sha ?s2 ?a (obj_bytes ob)"
    using split by (simp add: removal_authorized_def contains_put_absent)
  then have "untyped_disappearances (delete_key sha ?a ?s2) = untyped_disappearances ?s2"
    using untyped_delete_body [OF body canonical] by simp
  moreover have "untyped_disappearances (fold (delete_key sha) (tl (record_object_keys ?a)) t) = untyped_disappearances t" for t
    by (rule untyped_delete_companions) (simp add: record_object_keys_def)
  ultimately show ?thesis
    by (simp add: settled_state_def record_object_keys_def)
qed

lemma settle_after_claim:
  fixes sha :: "bytes \<Rightarrow> bytes"
  assumes "script w = []" and "store_wf (buckets w b)" and "next_version (buckets w b) < 2 ^ 64"
    and "view J (buckets w) b pkg \<noteq> Corrupt" and "json_ok J"
  defines "w1 \<equiv> if view J (buckets w) b pkg = Claimed Private then w else claimed_private sha J b pkg w"
  shows "settle_mirror_quarantine sha J S M b pkg f w = settle_mirror_quarantine sha J S M b pkg f w1"
    and "script w1 = []" "store_wf (buckets w1 b)" "next_version (buckets w1 b) \<le> 2 ^ 64"
    and "view J (buckets w1) b pkg = Claimed Private" and "untyped_disappearances (buckets w1 b) = untyped_disappearances (buckets w b)"
    and "k \<noteq> origin_key pkg \<Longrightarrow> object_at (buckets w1 b) k = object_at (buckets w b) k"
proof -
  have nonce: "buckets (w0\<lparr>nonce_seq := n\<rparr>) = buckets w0" "script (w0\<lparr>nonce_seq := n\<rparr>) = script w0" for w0 :: world and n
    by simp_all
  show quiet: "script w1 = []" "store_wf (buckets w1 b)" "next_version (buckets w1 b) \<le> 2 ^ 64"
    using assms(1-3) by (auto simp: w1_def claimed_private_def nonce store_wf_store next_version_store)
  show view: "view J (buckets w1) b pkg = Claimed Private"
    using decode_written [OF assms(5), of Private "nonce_seq w"]
    by (auto simp: w1_def claimed_private_def nonce view_def object_at_store)
  show "untyped_disappearances (buckets w1 b) = untyped_disappearances (buckets w b)"
    by (simp add: w1_def claimed_private_def nonce)
  show "object_at (buckets w1 b) k = object_at (buckets w b) k" if "k \<noteq> origin_key pkg"
    using that by (simp add: w1_def claimed_private_def nonce object_at_store)
  have "ensure_private_origin sha J b pkg w = (Inr (), w1)"
    unfolding w1_def using assms(3) by (intro ensure_private_quiet [OF assms(1,2) _ assms(4)]) simp
  moreover have "ensure_private_origin sha J b pkg w1 = (Inr (), w1)"
    using ensure_private_quiet [OF quiet, of J pkg sha] view by simp
  ultimately show "settle_mirror_quarantine sha J S M b pkg f w = settle_mirror_quarantine sha J S M b pkg f w1"
    unfolding settle_mirror_quarantine_def Let_def by (simp only: andThen_def prod.case sum.case)
qed

section \<open>Properties of a demotion\<close>

text \<open>
  an undisturbed demotion moves a mirror body aside, it never drops it. Unless private truth
  or a supersede intent stands there, the package claim ends private, the demotion fence stands,
  body, sidecar and companions are gone, the body is under its quarantine key byte for byte, its
  removal is accounted for, and every other object of the bucket but the claim is as it was.
\<close>

theorem demotion_moves_body:
  assumes "json_ok J" and "script w = []" and "store_wf (buckets w b)" and "next_version (buckets w b) < 2 ^ 64"
    and "view J (buckets w) b pkg \<noteq> Corrupt" and "is_artifact f" and "CHR ''/'' \<notin> set f" and "CHR ''/'' \<notin> set pkg"
    and "readable_sidecar S (buckets w b) (artifact_key pkg f)" and "\<not> private_truth S (buckets w b) (artifact_key pkg f)"
    and "\<not> contains_key (buckets w b) (superseding_key (artifact_key pkg f))"
    and "object_at (buckets w b) (artifact_key pkg f) = Some ob" and "preserved_ok sha (buckets w b) pkg f (obj_bytes ob)"
  shows "\<exists>w'. settle_mirror_quarantine sha J S M b pkg f w = (Inr True, w')
    \<and> view J (buckets w') b pkg = Claimed Private
    \<and> contains_key (buckets w' b) (mirror_quarantined_key (artifact_key pkg f))
    \<and> (\<forall>k\<in>set (record_object_keys (artifact_key pkg f)). object_at (buckets w' b) k = None)
    \<and> (\<exists>q. object_at (buckets w' b) (quarantine_key pkg f (sha256_hex sha (obj_bytes ob))) = Some q \<and> obj_bytes q = obj_bytes ob)
    \<and> untyped_disappearances (buckets w' b) = untyped_disappearances (buckets w b)
    \<and> (\<forall>k. contains_key (buckets w b) k \<and> k \<notin> set (record_object_keys (artifact_key pkg f))
          \<and> k \<noteq> mirror_quarantined_key (artifact_key pkg f) \<and> k \<noteq> origin_key pkg \<longrightarrow> object_at (buckets w' b) k = object_at (buckets w b) k)"
proof -
  let ?a = "artifact_key pkg f"
  define w1 where "w1 = (if view J (buckets w) b pkg = Claimed Private then w else claimed_private sha J b pkg w)"
  note after = settle_after_claim [where sha = sha, OF assms(2-5,1), folded w1_def]
  have mine: "?a @ x \<noteq> origin_key pkg" if "x \<in> set ([] # marker_suffixes)" for x
    using origin_key_artifact [OF assms(6,7) that] .
  have same: "object_at (buckets w1 b) (?a @ x) = object_at (buckets w b) (?a @ x)" if "x \<in> set ([] # marker_suffixes)" for x
    by (rule after(7) [OF mine [OF that]])
  have body: "object_at (buckets w1 b) ?a = Some ob"
    using same [of "[]"] assms(12) by simp
  have sidecar: "object_at (buckets w1 b) (sidecar_key ?a) = object_at (buckets w b) (sidecar_key ?a)"
    using same [of SIDECAR_SUFFIX] by (simp add: key_defs)
  have intent: "\<not> contains_key (buckets w1 b) (superseding_key ?a)"
    using same [of SUPERSEDING_SUFFIX] assms(11) by (simp add: contains_key_def key_defs)
  have q: "quarantine_key pkg f h \<noteq> origin_key pkg" for h
    by (simp add: quarantine_key_def QUARANTINE_PREFIX_def origin_key_def PACKAGES_PREFIX_def)
  have ok: "preserved_ok sha (buckets w1 b) pkg f (obj_bytes ob)"
    using assms(13) unfolding preserved_ok_def after(7) [OF q] .
  have readable: "readable_sidecar S (buckets w1 b) ?a"
    using assms(9) by (simp add: readable_sidecar_def sidecar)
  have no_truth: "\<not> private_truth S (buckets w1 b) ?a"
    using assms(10,12) body by (auto simp: private_truth_def sidecar contains_key_def)
  let ?s' = "settled_state sha M pkg f (obj_bytes ob) (buckets w1 b)"
  have run: "settle_mirror_quarantine sha J S M b pkg f w = (Inr True, upd b ?s' w1)"
    unfolding after(1) by (rule settle_quiet [OF after(2-5) readable no_truth body ok intent])
  note at = settled_state_at [where s = "buckets w1 b" and pkg = pkg and f = f and sha = sha and M = M and bs = "obj_bytes ob"]
  have claim_key: "origin_key pkg \<notin> set (record_object_keys ?a)" "origin_key pkg \<noteq> mirror_quarantined_key ?a"
    using mine [of "[]"] mine [of SIDECAR_SUFFIX] mine [of METADATA_SUFFIX] mine [of PROVENANCE_SUFFIX] mine [of MIRROR_QUARANTINED_SUFFIX]
    by (auto simp: record_object_keys_def key_defs dest: sym)
  have present: "contains_key (buckets w1 b) (origin_key pkg)"
    using after(5) by (auto simp: view_def contains_key_def split: option.splits)
  have kept: "object_at ?s' k = object_at (buckets w b) k"
    if "contains_key (buckets w b) k" "k \<notin> set (record_object_keys ?a)" "k \<noteq> mirror_quarantined_key ?a" "k \<noteq> origin_key pkg" for k
  proof -
    have "contains_key (buckets w1 b) k"
      using that(1) after(7) [OF that(4)] by (simp add: contains_key_def)
    from at(2) [OF that(2,3) this] show ?thesis
      using after(7) [OF that(4)] by simp
  qed
  have "view J (buckets (upd b ?s' w1)) b pkg = Claimed Private"
    using after(5) at(2) [OF claim_key present] by (simp add: view_def)
  moreover have "untyped_disappearances ?s' = untyped_disappearances (buckets w b)"
    using settled_state_accounted [OF assms(6-8) body] after(6) by simp
  ultimately show ?thesis
    by (intro exI [of _ "upd b ?s' w1"] conjI run) (use at(1,3) at(4) [OF ok] kept in simp_all)
qed

theorem demotion_moves_body_witness:
  "\<exists>w' q. settle_mirror_quarantine (\<lambda>x. x) plain_codec \<lparr>enc_sidecar = (\<lambda>_. []), dec_sidecar = (\<lambda>_. None)\<rparr> plain_markers
      0 ''six'' ''six-2.whl'' (quiet (\<lambda>_. crashed_bucket)) = (Inr True, w')
    \<and> object_at (buckets w' 0) (artifact_key ''six'' ''six-2.whl'') = None
    \<and> object_at (buckets w' 0) (quarantine_key ''six'' ''six-2.whl'' (sha256_hex (\<lambda>x. x) ''live'')) = Some q \<and> obj_bytes q = ''live''"
proof -
  let ?S = "\<lparr>enc_sidecar = (\<lambda>_. []), dec_sidecar = (\<lambda>_. None)\<rparr>" and ?w = "quiet (\<lambda>_. crashed_bucket)"
  have at: "object_at crashed_bucket (quarantine_key ''six'' ''six-2.whl'' h) = None" "object_at crashed_bucket (origin_key ''six'') = None"
    "object_at crashed_bucket (sidecar_key (artifact_key ''six'' ''six-2.whl'')) = None"
    "object_at crashed_bucket (superseding_key (artifact_key ''six'' ''six-2.whl'')) = None" for h
    by (simp_all add: crashed_bucket_def Let_def object_at_store key_defs suffix_defs package_key_def artifact_key_def PACKAGES_PREFIX_def
        quarantine_key_def QUARANTINE_PREFIX_def origin_key_def bt.get_empty)
  obtain ob where ob: "object_at crashed_bucket (artifact_key ''six'' ''six-2.whl'') = Some ob" "obj_bytes ob = ''live''"
    by (simp add: crashed_bucket_def Let_def artifact_key_package object_at_store)
  have "is_artifact ''six-2.whl''" "CHR ''/'' \<notin> set ''six-2.whl''" "CHR ''/'' \<notin> set ''six''"
    by code_simp+
  moreover have "next_version (buckets ?w 0) < 2 ^ 64"
    by (simp add: quiet_def crashed_bucket_def Let_def next_version_store)
  moreover have "view plain_codec (buckets ?w) 0 ''six'' \<noteq> Corrupt" "readable_sidecar ?S (buckets ?w 0) (artifact_key ''six'' ''six-2.whl'')"
    "\<not> private_truth ?S (buckets ?w 0) (artifact_key ''six'' ''six-2.whl'')"
    "\<not> contains_key (buckets ?w 0) (superseding_key (artifact_key ''six'' ''six-2.whl''))"
    "preserved_ok (\<lambda>x. x) (buckets ?w 0) ''six'' ''six-2.whl'' (obj_bytes ob)"
    by (simp_all add: quiet_def view_def at readable_sidecar_def private_truth_def contains_key_def preserved_ok_def)
  ultimately show ?thesis
    using demotion_moves_body [OF plain_codec_ok, of ?w 0 "''six''" "''six-2.whl''" ?S ob "\<lambda>x. x" plain_markers] store_wf_crashed ob
    by (auto simp: quiet_def record_object_keys_def)
qed

section \<open>Adopting a sidecar under interference\<close>

definition sc_at :: "sidecar_codec \<Rightarrow> inner \<Rightarrow> string \<Rightarrow> sidecar option" where
  "sc_at S s key = Option.bind (object_at s key) (\<lambda>ob. dec_sidecar S (obj_bytes ob))"

definition own_origin :: "sidecar \<Rightarrow> record_origin option" where
  "own_origin sc = Option.bind (origin sc) origin_parse"

text \<open>The merge rank of a sidecar that names its own origin.\<close>

definition sc_rank :: "sidecar \<Rightarrow> nat \<times> u64 \<times> bool \<times> u64" where
  "sc_rank sc = sidecar_rank_key sc (own_origin sc)"

definition all_typed :: "sidecar_codec \<Rightarrow> string \<Rightarrow> fleet \<Rightarrow> bool" where
  "all_typed S key fl = (\<forall>i sc. sc_at S (fl i) key = Some sc \<longrightarrow> own_origin sc \<noteq> None)"

definition sc_kept :: "sidecar_codec \<Rightarrow> string \<Rightarrow> fleet \<Rightarrow> fleet \<Rightarrow> bool" where
  "sc_kept S key fl fl' =
     (\<forall>i sc. sc_at S (fl i) key = Some sc \<longrightarrow> (\<exists>sc'. sc_at S (fl' i) key = Some sc' \<and> sc_rank sc \<le> sc_rank sc'))"

text \<open>What every peer keeps to: sidecars name their origin, and none is replaced by a lower one.\<close>

definition sc_rely :: "sidecar_codec \<Rightarrow> string \<Rightarrow> fleet \<Rightarrow> fleet \<Rightarrow> bool" where
  "sc_rely S key fl fl' = (sc_kept S key fl fl' \<and> (all_typed S key fl \<longrightarrow> all_typed S key fl'))"

abbreviation sc_inv :: "sidecar_codec \<Rightarrow> string \<Rightarrow> fleet \<Rightarrow> fleet \<Rightarrow> bool" where
  "sc_inv S key fl0 fl \<equiv> sc_kept S key fl0 fl \<and> all_typed S key fl"

lemma sc_kept_refl: "sc_kept S key fl fl"
  by (auto simp: sc_kept_def)

lemma sc_kept_trans: "sc_kept S key f0 f1 \<Longrightarrow> sc_kept S key f1 f2 \<Longrightarrow> sc_kept S key f0 f2"
  unfolding sc_kept_def by (meson order_trans)

lemma stable_sc_inv: "stable (sc_rely S key) (sc_inv S key fl0)"
  unfolding stable_def sc_rely_def using sc_kept_trans by blast

lemma sc_at_lookup: "lookup_tagged s key = Some (bs, t) \<Longrightarrow> sc_at S s key = dec_sidecar S bs"
  by (auto simp: lookup_tagged_def sc_at_def)

lemma sc_at_store: "sc_at S (snd (store sha key bs s)) key = dec_sidecar S bs"
  by (simp add: sc_at_def object_at_store)

definition seen_sc :: "sidecar_codec \<Rightarrow> string \<Rightarrow> bucket_id \<Rightarrow> (bytes \<times> string) option \<Rightarrow> fleet \<Rightarrow> bool" where
  "seen_sc S key i r fl = (\<forall>bs t. r = Some (bs, t) \<longrightarrow> sim.proves (fl i) key t (\<lambda>v. v = bs) \<and>
     (\<forall>sc. dec_sidecar S bs = Some sc \<longrightarrow> own_origin sc \<noteq> None))"

lemma triple_read_sc:
  assumes "stable (sc_rely S key) P" "\<And>fl. P fl \<Longrightarrow> sc_inv S key fl0 fl"
  shows "triple (sc_rely S key) P (get_with_etag i key) (both (sc_inv S key fl0) (\<lambda>r fl. P fl \<and> seen_sc S key i r fl))"
proof (rule triple_get_with_etag [OF assms(1)])
  fix fl
  assume fl: "fleet_wf fl" "P fl"
  have "sim.proves (fl i) key t (\<lambda>v. v = bs) \<and> (\<forall>sc. dec_sidecar S bs = Some sc \<longrightarrow> own_origin sc \<noteq> None)"
    if at: "lookup_tagged (fl i) key = Some (bs, t)" for bs t
  proof -
    have "sim.proves (fl i) key t (\<lambda>v. v = bs)"
      using fl(1) at by (intro sim.provesI) (auto simp: fleet_wf_def evolves_same_objects)
    then show ?thesis
      using assms(2) [OF fl(2)] sc_at_lookup [OF at, of S] by (auto simp: all_typed_def)
  qed
  then show "both (sc_inv S key fl0) (\<lambda>r fl. P fl \<and> seen_sc S key i r fl) (Inr (lookup_tagged (fl i) key)) fl"
    using fl(2) by (simp add: seen_sc_def)
qed (use assms(2) in simp)

text \<open>The swap: what it replaces is what it was compared with.\<close>

lemma triple_swap_sc:
  assumes "dec_sidecar S new = Some nsc" and "dec_sidecar S old = Some osc" and "sc_rank osc \<le> sc_rank nsc" and "own_origin nsc \<noteq> None"
  shows "triple (sc_rely S key) (\<lambda>fl. sc_inv S key fl0 fl \<and> sim.proves (fl i) key t (\<lambda>v. v = old))
    (put_if_match sha i key t new) (\<lambda>_. sc_inv S key fl0)"
proof (rule triple_put_if_match_same [OF stable_conj [OF stable_sc_inv stable_proves]])
  fix fl v
  assume P: "sc_inv S key fl0 fl \<and> sim.proves (fl i) key t (\<lambda>v. v = old)" and at: "lookup_tagged (fl i) key = Some (v, t)"
  then have "v = old"
    using sim.proves_current by blast
  then have was: "sc_at S (fl i) key = Some osc"
    using sc_at_lookup [OF at, of S] assms(2) by simp
  let ?fl = "fl(i := snd (store sha key new (fl i)))"
  have "sc_at S (?fl j) key = (if j = i then Some nsc else sc_at S (fl j) key)" for j
    using assms(1) by (simp add: sc_at_store)
  then have "sc_kept S key fl ?fl" "all_typed S key ?fl"
    using P was assms(3,4) unfolding sc_kept_def all_typed_def by auto
  then show "sc_inv S key fl0 ?fl"
    using P sc_kept_trans by blast
qed auto

lemma triple_lift_res: "triple G P (lift_res r) (\<lambda>x fl. x = r \<and> P fl)"
  by (cases r) (auto simp: lift_res_def intro: triple_ret triple_fail)

lemma triple_read_pkg_origin:
  assumes "stable G P"
  shows "triple G P (read_pkg_origin J i pkg) (\<lambda>_. P)"
proof -
  have decode: "triple G P (lift_res r) (\<lambda>_. P)" for r :: "origin_state res"
    by (rule triple_conseq [OF triple_lift_res]) auto
  have "triple G P (read_origin_observation J i pkg) (\<lambda>_. P)"
    unfolding read_origin_observation_def
    by (rule triple_seq [OF triple_get_with_etag [OF assms]])
      (auto intro!: triple_ret triple_seq [OF decode] split: option.split)
  then show ?thesis
    unfolding read_pkg_origin_def by (rule triple_seq) (auto intro!: triple_ret)
qed

lemma typed_origin_own: "typed_origin sc c = Inr r \<Longrightarrow> own_origin sc \<noteq> None \<Longrightarrow> own_origin sc = Some r"
  by (auto simp: typed_origin_def own_origin_def split: option.splits)

lemma sidecar_merge_rank:
  "sidecar_merge enc sha l lo r ro = ChooseA \<Longrightarrow> sidecar_rank_key r ro \<le> sidecar_rank_key l lo"
  "sidecar_merge enc sha l lo r ro = ChooseB \<Longrightarrow> sidecar_rank_key l lo \<le> sidecar_rank_key r ro"
  by (auto simp: sidecar_merge_def ranked_merge_def split: if_splits)

lemma stable_seen_sc: "stable G (seen_sc S key i r)"
proof (cases r)
  case (Some p)
  obtain bs t where p: "p = (bs, t)"
    by fastforce
  have "seen_sc S key i r = (\<lambda>fl. sim.proves (fl i) key t (\<lambda>v. v = bs) \<and> (\<forall>sc. dec_sidecar S bs = Some sc \<longrightarrow> own_origin sc \<noteq> None))"
    by (auto simp: seen_sc_def Some p fun_eq_iff)
  then show ?thesis
    by (simp only:) (rule stable_conj [OF stable_proves stable_const])
qed (simp add: seen_sc_def stable_def)

text \<open>One conditional swap followed by the next attempt.\<close>

lemma triple_swap_then:
  assumes "dec_sidecar S new = Some nsc" and "dec_sidecar S old = Some osc" and "sc_rank osc \<le> sc_rank nsc" and "own_origin nsc \<noteq> None"
    and "triple (sc_rely S key) (sc_inv S key fl0) k (\<lambda>_. sc_inv S key fl0)"
    and "\<And>fl. P fl \<Longrightarrow> sc_inv S key fl0 fl \<and> sim.proves (fl i) key t (\<lambda>v. v = old)"
  shows "triple (sc_rely S key) P (andThen (put_if_match sha i key t new) (\<lambda>x. if x \<noteq> None then ret y else k)) (\<lambda>_. sc_inv S key fl0)"
  by (rule triple_andThen_same [OF triple_pre [OF triple_swap_sc [OF assms(1-4)] assms(6)]])
    (auto intro!: triple_if triple_ret assms(5))

lemma andThen_lift [simp]: "andThen (lift_res (Inr x)) k = k x" "andThen (lift_res (Inl e)) k = fail e"
  by (simp_all add: lift_res_def andThen_def ret_def fail_def)

abbreviation read_both :: "sidecar_codec \<Rightarrow> string \<Rightarrow> fleet \<Rightarrow> bucket_id \<Rightarrow> bucket_id \<Rightarrow> (bytes \<times> string) option \<Rightarrow> (bytes \<times> string) option \<Rightarrow> fleet \<Rightarrow> bool" where
  "read_both S key fl0 a b left right fl \<equiv> (sc_inv S key fl0 fl \<and> seen_sc S key a left fl) \<and> seen_sc S key b right fl"

lemma triple_adopt_write:
  assumes again: "triple (sc_rely S key) (sc_inv S key fl0) again (\<lambda>_. sc_inv S key fl0)"
    and dec: "dec_sidecar S lb = Some l" "dec_sidecar S rb = Some r" and own: "own_origin l = Some lo" "own_origin r = Some ro"
  shows "triple (sc_rely S key) (read_both S key fl0 a b (Some (lb, lt)) (Some (rb, rt)))
     (case sidecar_merge (enc_sidecar S) sha l (Some lo) r (Some ro) of
        EqualDocs \<Rightarrow> ret (False, False)
      | ChooseA \<Rightarrow> andThen (put_if_match sha b key rt lb) (\<lambda>t. if t \<noteq> None then ret (False, True) else again)
      | ChooseB \<Rightarrow> andThen (put_if_match sha a key lt rb) (\<lambda>t. if t \<noteq> None then ret (True, False) else again))
     (\<lambda>_. sc_inv S key fl0)"
proof -
  have ranks: "sc_rank l = sidecar_rank_key l (Some lo)" "sc_rank r = sidecar_rank_key r (Some ro)"
    by (simp_all add: sc_rank_def own)
  show ?thesis
  proof (cases "sidecar_merge (enc_sidecar S) sha l (Some lo) r (Some ro)")
    case ChooseA
    then show ?thesis
      unfolding ChooseA merge_choice.case
      by (intro triple_swap_then [OF dec _ _ again])
        (use own ranks sidecar_merge_rank(1) [OF ChooseA] in \<open>auto simp: seen_sc_def\<close>)
  next
    case ChooseB
    then show ?thesis
      unfolding ChooseB merge_choice.case
      by (intro triple_swap_then [OF dec(2,1) _ _ again])
        (use own ranks sidecar_merge_rank(2) [OF ChooseB] in \<open>auto simp: seen_sc_def\<close>)
  qed (auto intro!: triple_ret)
qed

lemma triple_adopt_merge:
  assumes "triple (sc_rely S key) (sc_inv S key fl0) again (\<lambda>_. sc_inv S key fl0)"
  shows "triple (sc_rely S key) (read_both S key fl0 a b left right) (adopt_merge sha S a b key left right lc rc again)
    (\<lambda>_. sc_inv S key fl0)"
proof (cases "\<exists>lb lt rb rt l r. left = Some (lb, lt) \<and> right = Some (rb, rt) \<and> dec_sidecar S lb = Some l \<and> dec_sidecar S rb = Some r")
  case True
  then obtain lb lt rb rt l r where lr: "left = Some (lb, lt)" "right = Some (rb, rt)"
    and dec: "dec_sidecar S lb = Some l" "dec_sidecar S rb = Some r"
    by blast
  show ?thesis
  proof (cases "own_origin l \<noteq> None \<and> own_origin r \<noteq> None")
    case own: True
    show ?thesis
    proof (cases "sha256 l = sha256 r \<and> typed_origin l lc = Inr (the (own_origin l)) \<and> typed_origin r rc = Inr (the (own_origin r))")
      case True
      obtain lo ro where "own_origin l = Some lo" "own_origin r = Some ro"
        using own by auto
      then show ?thesis
        unfolding adopt_merge_def lr option.case prod.case dec
        using True triple_adopt_write [OF assms dec, where lo = lo and ro = ro and a = a and b = b and lt = lt and rt = rt and sha = sha] by simp
    next
      case False
      then consider "sha256 l \<noteq> sha256 r" | e where "typed_origin l lc = Inl e"
        | e where "typed_origin l lc = Inr (the (own_origin l))" "typed_origin r rc = Inl e"
        using own typed_origin_own [of l lc] typed_origin_own [of r rc]
        by (cases "typed_origin l lc"; cases "typed_origin r rc") auto
      then show ?thesis
        unfolding adopt_merge_def lr option.case prod.case dec
        by cases (auto intro!: triple_fail triple_if)
    qed
  next
    case False
    then have "\<not> read_both S key fl0 a b left right fl" for fl
      using dec by (auto simp: seen_sc_def lr)
    then show ?thesis
      unfolding triple_def by blast
  qed
next
  case False
  then have "\<exists>e. adopt_merge sha S a b key left right lc rc again = fail e"
    by (auto simp: adopt_merge_def split: option.splits)
  then show ?thesis
    by (auto intro: triple_fail)
qed

lemma triple_adopt_loop:
  assumes "key = sidecar_key (artifact_key pkg f)"
  shows "triple (sc_rely S key) (sc_inv S key fl0) (adopt_loop sha J S a b pkg f n) (\<lambda>_. sc_inv S key fl0)"
proof (induction n)
  case (Suc n)
  have first: "triple (sc_rely S key) (sc_inv S key fl0) (get_with_etag a key)
      (both (sc_inv S key fl0) (\<lambda>left fl. sc_inv S key fl0 fl \<and> seen_sc S key a left fl))"
    by (rule triple_read_sc [OF stable_sc_inv])
  have second: "triple (sc_rely S key) (\<lambda>fl. sc_inv S key fl0 fl \<and> seen_sc S key a left fl) (get_with_etag b key)
      (both (sc_inv S key fl0) (read_both S key fl0 a b left))" for left
    by (rule triple_read_sc [OF stable_conj [OF stable_sc_inv stable_seen_sc]]) simp
  have stable: "stable (sc_rely S key) (read_both S key fl0 a b left right)" for left right
    by (rule stable_conj [OF stable_conj [OF stable_sc_inv stable_seen_sc] stable_seen_sc])
  show ?case
    unfolding adopt_loop.simps Let_def assms [symmetric]
    by (rule triple_andThen [OF first], rule triple_andThen [OF second],
        intro triple_seq [OF triple_read_pkg_origin [OF stable]] triple_adopt_merge Suc.IH) simp_all
qed (auto intro: triple_fail)

section \<open>The property of adoption\<close>


text \<open>Two buckets whose sidecars of one file disagree about a yank.\<close>

definition sample_sidecar :: "bool \<Rightarrow> u64 \<Rightarrow> sidecar" where
  "sample_sidecar y e =
     \<lparr>sha256 = ''ab'', size = 1, version = ''1'', upload_time = [], upload_epoch_ms = None, requires_python = None,
      yanked = Flag y, origin = Some ''private'', yank_epoch = e, upload_time_revision = 0, snapshot = False, store_checksum = None\<rparr>"

definition sample_sidecar_codec :: sidecar_codec where
  "sample_sidecar_codec =
     \<lparr>enc_sidecar = (\<lambda>sc. if is_yanked sc then ''y'' else ''n''),
      dec_sidecar = (\<lambda>bs. if bs = ''y'' then Some (sample_sidecar True 3) else if bs = ''n'' then Some (sample_sidecar False 2) else None)\<rparr>"


end
