(* ===== verification/Executor.thy ===== *)
theory Executor
  imports Fences Project_Status
begin

text \<open>
  The executor of \<open>src/replicate.rs\<close>: staging and verifying a source body, copying a live record,
  superseding a record by private truth, finishing a supersede a crash interrupted, and \<open>execute\<close>,
  which applies a verdict of the merge algebra inside its pair of intent and commit markers; above it,
  the convergence of one record and of one package across two buckets.

  Of the server state, \<open>fenced\<close> stands for \<open>AppState::mutations_fenced\<close>, \<open>copy_via\<close> for the boot copy
  matrix consulted by \<open>copy_transport\<close>, and \<open>server_copy\<close> for the provider's \<open>server_side_copy\<close>. A
  staged body is its bytes, in memory or in a spool file alike; a spool that cannot be read is
  \<open>Spool None\<close>. The running size check of a streamed read fails at some chunk exactly when it fails
  on the whole body.
\<close>

section \<open>Definitions\<close>

datatype copy_outcome = NotCopyable | Copied "store_checksum option"

record exec_env =
  fenced :: "world \<Rightarrow> bool"
  copy_via :: "bucket_id \<Rightarrow> bucket_id \<Rightarrow> bool"
  server_copy :: "bucket_id \<Rightarrow> bucket_id \<Rightarrow> string \<Rightarrow> u64 \<Rightarrow> copy_outcome act"

definition require_replication_unfenced :: "exec_env \<Rightarrow> unit act" where
  "require_replication_unfenced E w =
     (if fenced E w then Inl (Bail ''bucket topology mismatch; replication writes are fenced'') else Inr (), w)"

definition STAGE_TO_DISK_ABOVE :: nat where "STAGE_TO_DISK_ABOVE = 64 * 1024 * 1024"

subsection \<open>Reading and verifying the source\<close>

datatype artifact_source = Bucket | Spool "bytes option"

definition stage_from_bucket :: "(bytes \<Rightarrow> bytes) \<Rightarrow> bucket_id \<Rightarrow> string \<Rightarrow> u64 \<Rightarrow> (string \<times> bytes) act" where
  "stage_from_bucket sha src akey expected_size =
     andThen (get_bytes src akey) (\<lambda>body.
       if unat expected_size \<le> STAGE_TO_DISK_ABOVE then
         (if length body > STAGE_TO_DISK_ABOVE then fail (Bail ''source body is longer than its sidecar attests'')
          else ret (sha256_hex sha body, body))
       else if length body > unat expected_size then fail (Bail ''source artifact is longer than its sidecar attests'')
       else ret (sha256_hex sha body, body))"

definition stage :: "(bytes \<Rightarrow> bytes) \<Rightarrow> artifact_source \<Rightarrow> bucket_id \<Rightarrow> string \<Rightarrow> u64 \<Rightarrow> (string \<times> bytes) act" where
  "stage sha source src akey expected_size =
     (case source of
        Bucket \<Rightarrow> stage_from_bucket sha src akey expected_size
      | Spool None \<Rightarrow> fail (Bail ''hash upload spool for fan-out'')
      | Spool (Some body) \<Rightarrow> ret (sha256_hex sha body, body))"

definition verify_source_artifact ::
  "(bytes \<Rightarrow> bytes) \<Rightarrow> sidecar_codec \<Rightarrow> bucket_id \<Rightarrow> string \<Rightarrow> string \<Rightarrow> file_record \<Rightarrow> artifact_source \<Rightarrow> bytes act" where
  "verify_source_artifact sha S src pkg filename record source =
     (case rc_sidecar record of
        None \<Rightarrow> fail (Bail ''copy verdict with no source sidecar'')
      | Some sc \<Rightarrow>
          (let akey = artifact_key pkg filename; sckey = sidecar_key akey in
           andThen (stage sha source src akey (size sc)) (\<lambda>(got, artifact).
             if got = sha256 sc then ret artifact
             else (case source of
                     Spool _ \<Rightarrow> fail (Bail ''upload spool does not hash to its sidecar'')
                   | Bucket \<Rightarrow>
                       andThen (onResult (get_bytes src sckey) (\<lambda>_. ret False)
                                 (\<lambda>bs. ret (case dec_sidecar S bs of None \<Rightarrow> False | Some current \<Rightarrow> sha256 current \<noteq> got)))
                         (\<lambda>still_stale.
                           andThen (if still_stale then andThen (delete_keys sha src [sckey]) (\<lambda>_. mark_dirty sha src pkg) else ret ())
                             (\<lambda>_. fail (Bail ''source artifact sha mismatch'')))))))"

definition read_listed_companion :: "bucket_id \<Rightarrow> string \<Rightarrow> bool \<Rightarrow> bytes option act" where
  "read_listed_companion b key is_listed =
     (if \<not> is_listed then ret None else andThen (get_bytes b key) (\<lambda>bs. ret (Some bs)))"

record companions =
  cp_metadata :: "bytes option"
  cp_provenance :: "bytes option"

definition read_source_companions :: "bucket_id \<Rightarrow> string \<Rightarrow> file_record \<Rightarrow> companions act" where
  "read_source_companions src akey record =
     andThen (read_listed_companion src (metadata_key akey) (has_metadata record)) (\<lambda>m.
     andThen (read_listed_companion src (provenance_key akey) (has_provenance record)) (\<lambda>p.
       ret \<lparr>cp_metadata = m, cp_provenance = p\<rparr>))"

record verified_source =
  vs_artifact :: bytes
  vs_metadata :: "bytes option"
  vs_provenance :: "bytes option"

definition verify_source_record ::
  "(bytes \<Rightarrow> bytes) \<Rightarrow> sidecar_codec \<Rightarrow> bucket_id \<Rightarrow> string \<Rightarrow> string \<Rightarrow> file_record \<Rightarrow> artifact_source \<Rightarrow> verified_source act" where
  "verify_source_record sha S src pkg filename record source =
     andThen (verify_source_artifact sha S src pkg filename record source) (\<lambda>artifact.
     andThen (read_source_companions src (artifact_key pkg filename) record) (\<lambda>c.
       ret \<lparr>vs_artifact = artifact, vs_metadata = cp_metadata c, vs_provenance = cp_provenance c\<rparr>))"

subsection \<open>Installing a private sidecar\<close>

fun install_private_loop ::
  "(bytes \<Rightarrow> bytes) \<Rightarrow> sidecar_codec \<Rightarrow> bucket_id \<Rightarrow> string \<Rightarrow> string \<Rightarrow> sidecar \<Rightarrow> nat \<Rightarrow> bool act" where
  "install_private_loop sha S dst key artifact sc 0 =
     fail (Contended ''conditional sidecar replacement retries exhausted'')"
| "install_private_loop sha S dst key artifact sc (Suc n) =
     (let bs = enc_sidecar S sc in
      andThen (get_with_etag dst key) (\<lambda>found.
        case found of
          None \<Rightarrow>
            andThen (put_if_absent sha dst key bs)
              (\<lambda>created. if created then ret True else install_private_loop sha S dst key artifact sc n)
        | Some (current_bytes, etag) \<Rightarrow>
            if current_bytes = bs then ret False
            else
              (case dec_sidecar S current_bytes of
                 None \<Rightarrow> fail (Bail ''parse destination sidecar'')
               | Some current \<Rightarrow>
                   if (case origin current of Some raw \<Rightarrow> origin_parse raw = None | None \<Rightarrow> False)
                   then fail (Bail ''sidecar holds an unexpected origin'')
                   else
                     andThen (onResult (get_bytes dst artifact)
                               (\<lambda>e. if is_not_found e then ret None else fail e) (\<lambda>body. ret (Some body)))
                       (\<lambda>body.
                          let body_matches = (case body of None \<Rightarrow> False | Some bd \<Rightarrow> sha256_hex sha bd = sha256 sc);
                              replace =
                                (if sha256 current \<noteq> sha256 sc
                                 then body = None \<or> body_matches \<or> origin current = Some MIRROR
                                 else sidecar_merge (enc_sidecar S) sha sc (Some PrivateO) current
                                        (Option.bind (origin current) origin_parse) = ChooseA)
                          in if \<not> replace then
                               (if sha256 current \<noteq> sha256 sc
                                then fail (Bail ''destination sidecar is backed by different private bytes'')
                                else ret False)
                             else
                               andThen (put_if_match sha dst key etag bs)
                                 (\<lambda>t. if t \<noteq> None then ret True else install_private_loop sha S dst key artifact sc n)))))"

definition install_or_verify_sidecar ::
  "(bytes \<Rightarrow> bytes) \<Rightarrow> sidecar_codec \<Rightarrow> bucket_id \<Rightarrow> string \<Rightarrow> sidecar \<Rightarrow> bool act" where
  "install_or_verify_sidecar sha S dst key sc =
     (if origin sc \<noteq> Some PRIVATE then fail (Bail ''replication source sidecar is not private truth'')
      else (case strip_suffix key SIDECAR_SUFFIX of
              None \<Rightarrow> fail (Bail ''sidecar key has no sidecar suffix'')
            | Some artifact \<Rightarrow> install_private_loop sha S dst key artifact sc ORIGIN_ATTEMPTS))"

definition sidecar_still_names :: "sidecar_codec \<Rightarrow> bucket_id \<Rightarrow> string \<Rightarrow> string \<Rightarrow> bool act" where
  "sidecar_still_names S dst key h =
     onResult (get_bytes dst key)
       (\<lambda>e. if is_not_found e then ret False else fail e)
       (\<lambda>bs. case dec_sidecar S bs of
          None \<Rightarrow> fail (Bail ''parse destination sidecar'')
        | Some current \<Rightarrow> ret (sha256 current = h))"

definition sidecar_holds_private :: "sidecar_codec \<Rightarrow> bucket_id \<Rightarrow> string \<Rightarrow> bool act" where
  "sidecar_holds_private S dst key =
     onResult (get_bytes dst key)
       (\<lambda>e. if is_not_found e then ret False else fail e)
       (\<lambda>bs. case dec_sidecar S bs of
          None \<Rightarrow> fail (Bail ''parse destination sidecar'')
        | Some current \<Rightarrow> ret (origin current = Some PRIVATE))"

subsection \<open>Landing the body\<close>

definition verify_stored_size :: "bucket_id \<Rightarrow> string \<Rightarrow> nat \<Rightarrow> unit act" where
  "verify_stored_size b key expected_size =
     andThen (check_stored_size b key expected_size) (\<lambda>c.
       case c of SizeOk \<Rightarrow> ret () | SizeWrong e \<Rightarrow> fail e | SizeUnknown e \<Rightarrow> fail e)"

definition create_artifact_verified :: "(bytes \<Rightarrow> bytes) \<Rightarrow> bucket_id \<Rightarrow> string \<Rightarrow> bytes \<Rightarrow> nat \<Rightarrow> bool act" where
  "create_artifact_verified sha b key body expected_size =
     andThen (put_if_absent sha b key body) (\<lambda>created.
     andThen (if created then verify_stored_size b key expected_size else ret ()) (\<lambda>_. ret created))"

datatype artifact_leg_result = Landed bool | FrozenLeg

text \<open>The repair of a body the destination's sidecar does not describe: preserved, then replaced.\<close>

definition repair_debris ::
  "(bytes \<Rightarrow> bytes) \<Rightarrow> sidecar_codec \<Rightarrow> bucket_id \<Rightarrow> string \<Rightarrow> string \<Rightarrow> sidecar \<Rightarrow> string \<Rightarrow> bytes \<Rightarrow> bool act" where
  "repair_debris sha S dst pkg filename sc akey artifact =
     andThen (get_with_etag dst akey) (\<lambda>found.
       case found of
         None \<Rightarrow> ret False
       | Some (current, etag) \<Rightarrow>
           if sha256_hex sha current = sha256 sc then ret False
           else
             andThen (sidecar_still_names S dst (sidecar_key akey) (sha256 sc)) (\<lambda>names.
               if \<not> names then ret False
               else
                 andThen (quarantine_bytes sha dst pkg filename current) (\<lambda>_.
                 andThen (put_if_match sha dst akey etag artifact) (\<lambda>t.
                   if t \<noteq> None then andThen (verify_stored_size dst akey (length artifact)) (\<lambda>_. ret True)
                   else ret False))))"

definition artifact_leg ::
  "(bytes \<Rightarrow> bytes) \<Rightarrow> sidecar_codec \<Rightarrow> marker_codec \<Rightarrow> bucket_id \<Rightarrow> bucket_id \<Rightarrow> string \<Rightarrow> string \<Rightarrow> sidecar \<Rightarrow> string
    \<Rightarrow> bytes \<Rightarrow> bool \<Rightarrow> artifact_leg_result act" where
  "artifact_leg sha S M src dst pkg filename sc akey artifact sidecar_published =
     andThen (repair_debris sha S dst pkg filename sc akey artifact) (\<lambda>changed.
     andThen (create_artifact_verified sha dst akey artifact (length artifact)) (\<lambda>created.
       if created then ret (Landed True)
       else
         andThen (get_bytes dst akey) (\<lambda>raced.
           if sha256_hex sha raced = sha256 sc then ret (Landed changed)
           else
             andThen (if \<not> sidecar_published then sidecar_still_names S dst (sidecar_key akey) (sha256_hex sha raced) else ret False)
               (\<lambda>described.
                 if described then fail (Bail ''destination artifact holds different private bytes named by its own sidecar'')
                 else andThen (freeze_copy_race sha M src dst pkg filename) (\<lambda>_. ret FrozenLeg)))))"

subsection \<open>Copying a live record\<close>

text \<open>The two optional companions, each created or verified.\<close>

definition put_companions :: "(bytes \<Rightarrow> bytes) \<Rightarrow> bucket_id \<Rightarrow> string \<Rightarrow> companions \<Rightarrow> bool \<Rightarrow> bool act" where
  "put_companions sha dst akey c changed =
     andThen (case cp_metadata c of None \<Rightarrow> ret changed
              | Some bs \<Rightarrow> andThen (put_if_absent_or_verify sha dst (metadata_key akey) bs) (\<lambda>x. ret (changed \<or> x))) (\<lambda>changed1.
       case cp_provenance c of None \<Rightarrow> ret changed1
       | Some bs \<Rightarrow> andThen (put_if_absent_or_verify sha dst (provenance_key akey) bs) (\<lambda>x. ret (changed1 \<or> x)))"

definition copy_truth ::
  "(bytes \<Rightarrow> bytes) \<Rightarrow> sidecar_codec \<Rightarrow> bucket_id \<Rightarrow> string \<Rightarrow> sidecar \<Rightarrow> companions \<Rightarrow> bool \<Rightarrow> bool \<Rightarrow> nat \<Rightarrow> bool act" where
  "copy_truth sha S dst akey sc c changed is_mirror landed =
     andThen (stored_size dst akey) (\<lambda>found.
       case found of
         None \<Rightarrow> fail (Bail ''destination artifact was removed before its sidecar was published'')
       | Some sz \<Rightarrow>
           if sz \<noteq> landed then fail (Bail ''destination artifact does not hold the bytes this copy landed'')
           else
             andThen (if is_mirror then install_or_verify_mirror_sidecar sha S dst (sidecar_key akey) sc
                      else install_or_verify_sidecar sha S dst (sidecar_key akey) sc)
               (\<lambda>installed. put_companions sha dst akey c (changed \<or> installed)))"

datatype checksum_check = Match | Inconclusive | Mismatch

definition check_copy_checksum :: "store_checksum option \<Rightarrow> store_checksum option \<Rightarrow> checksum_check" where
  "check_copy_checksum expected actual =
     (case (expected, actual) of
        (Some e, Some a) \<Rightarrow>
          if algo e = algo a then (if eq_ignore_ascii_case (checksum_value e) (checksum_value a) then Match else Mismatch)
          else Inconclusive
      | _ \<Rightarrow> Inconclusive)"

definition server_side_copy_artifact :: "exec_env \<Rightarrow> bucket_id \<Rightarrow> bucket_id \<Rightarrow> string \<Rightarrow> sidecar \<Rightarrow> bool act" where
  "server_side_copy_artifact E src dst akey sc =
     andThen (server_copy E src dst akey (size sc)) (\<lambda>outcome.
       case outcome of
         NotCopyable \<Rightarrow> ret False
       | Copied checksum \<Rightarrow>
           andThen (verify_stored_size dst akey (unat (size sc))) (\<lambda>_.
             if check_copy_checksum (store_checksum sc) checksum = Mismatch
             then fail (Bail ''server-side copy landed a body whose content checksum contradicts the source sidecar'')
             else ret True))"

text \<open>The claim on the destination, which a copy makes before any byte lands.\<close>

definition claim_destination ::
  "(bytes \<Rightarrow> bytes) \<Rightarrow> claim_codec \<Rightarrow> bucket_id \<Rightarrow> string \<Rightarrow> bool \<Rightarrow> unit act" where
  "claim_destination sha J dst pkg is_mirror =
     (if is_mirror then
        andThen (ensure_mirror_origin sha J dst pkg) (\<lambda>o'.
          if o' = PrivateO then fail (Bail ''destination bucket claims the package private'') else ret ())
      else ensure_private_origin sha J dst pkg)"

text \<open>The server-side copy ladder: sidecar gate, companions, provider copy, streaming fallback.\<close>

definition copy_gated ::
  "exec_env \<Rightarrow> (bytes \<Rightarrow> bytes) \<Rightarrow> sidecar_codec \<Rightarrow> marker_codec \<Rightarrow> bucket_id \<Rightarrow> bucket_id \<Rightarrow> string \<Rightarrow> string \<Rightarrow> file_record
    \<Rightarrow> artifact_source \<Rightarrow> sidecar \<Rightarrow> companions \<Rightarrow> bool \<Rightarrow> bool act" where
  "copy_gated E sha S M src dst pkg filename record source sc c is_mirror =
     (let akey = artifact_key pkg filename; skey = sidecar_key akey in
      andThen (if is_mirror then
                 andThen (install_or_verify_mirror_sidecar sha S dst skey sc) (\<lambda>installed.
                 andThen (if \<not> installed then sidecar_holds_private S dst skey else ret False) (\<lambda>private.
                   if private then fail (Bail ''destination bucket holds private truth'') else ret installed))
               else install_or_verify_sidecar sha S dst skey sc) (\<lambda>installed.
      andThen (put_companions sha dst akey c installed) (\<lambda>changed.
      andThen (onResult (server_side_copy_artifact E src dst akey sc) (\<lambda>_. ret False) ret) (\<lambda>copied.
        if copied then ret True
        else
          andThen (verify_source_artifact sha S src pkg filename record source) (\<lambda>artifact.
          andThen (artifact_leg sha S M src dst pkg filename sc akey artifact True) (\<lambda>leg.
            case leg of FrozenLeg \<Rightarrow> ret False | Landed landed \<Rightarrow> ret (changed \<or> landed)))))))"

definition copy_live ::
  "exec_env \<Rightarrow> (bytes \<Rightarrow> bytes) \<Rightarrow> claim_codec \<Rightarrow> sidecar_codec \<Rightarrow> marker_codec \<Rightarrow> bucket_id \<Rightarrow> bucket_id \<Rightarrow> string \<Rightarrow> string
    \<Rightarrow> file_record \<Rightarrow> artifact_source \<Rightarrow> bool act" where
  "copy_live E sha J S M src dst pkg filename record source =
     (case rc_sidecar record of
        None \<Rightarrow> fail (Bail ''copy verdict with no source sidecar'')
      | Some sc \<Rightarrow>
          (let akey = artifact_key pkg filename; is_mirror = (record_origin_of record = Some MirrorO) in
           andThen (read_source_companions src akey record) (\<lambda>c.
           andThen (if copy_via E src dst then ret None
                    else andThen (verify_source_artifact sha S src pkg filename record source) (\<lambda>a. ret (Some a))) (\<lambda>streamed.
           andThen (require_replication_unfenced E) (\<lambda>_.
           andThen (claim_destination sha J dst pkg is_mirror) (\<lambda>_.
             case streamed of
               Some artifact \<Rightarrow>
                 andThen (artifact_leg sha S M src dst pkg filename sc akey artifact False) (\<lambda>leg.
                   case leg of
                     FrozenLeg \<Rightarrow> ret False
                   | Landed changed \<Rightarrow> copy_truth sha S dst akey sc c changed is_mirror (length artifact))
             | None \<Rightarrow> copy_gated E sha S M src dst pkg filename record source sc c is_mirror))))))"

subsection \<open>Superseding a record\<close>

fun replace_companion_loop :: "(bytes \<Rightarrow> bytes) \<Rightarrow> bucket_id \<Rightarrow> string \<Rightarrow> bytes \<Rightarrow> nat \<Rightarrow> bool act" where
  "replace_companion_loop sha b key bs 0 = fail (Bail ''conditional companion replacement retries exhausted'')"
| "replace_companion_loop sha b key bs (Suc n) =
     andThen (get_with_etag b key) (\<lambda>found.
       case found of
         None \<Rightarrow>
           andThen (put_if_absent sha b key bs)
             (\<lambda>created. if created then ret True else replace_companion_loop sha b key bs n)
       | Some (current, etag) \<Rightarrow>
           if current = bs then ret False
           else
             andThen (put_if_match sha b key etag bs)
               (\<lambda>t. if t \<noteq> None then ret True else replace_companion_loop sha b key bs n))"

definition replace_companion :: "(bytes \<Rightarrow> bytes) \<Rightarrow> bucket_id \<Rightarrow> string \<Rightarrow> bytes option \<Rightarrow> bool \<Rightarrow> bool act" where
  "replace_companion sha b key new replace =
     (case new of
        None \<Rightarrow>
          if replace then
            andThen (head_exists b key) (\<lambda>there.
              if there then andThen (delete_keys sha b [key]) (\<lambda>_. ret True) else ret False)
          else ret False
      | Some bs \<Rightarrow>
          if \<not> replace then put_if_absent_or_verify sha b key bs
          else replace_companion_loop sha b key bs ORIGIN_ATTEMPTS)"

definition supersede_replaces_companions :: "sidecar_codec \<Rightarrow> bucket_id \<Rightarrow> string \<Rightarrow> sidecar \<Rightarrow> bool act" where
  "supersede_replaces_companions S dst akey sc =
     onResult (get_bytes dst (sidecar_key akey))
       (\<lambda>e. if is_not_found e then ret False else fail e)
       (\<lambda>bs. case dec_sidecar S bs of
          None \<Rightarrow> fail (Bail ''parse destination sidecar'')
        | Some current \<Rightarrow>
            (case origin current of
               None \<Rightarrow> ret True
             | Some raw \<Rightarrow>
                 if raw = PRIVATE then ret (sha256 current \<noteq> sha256 sc)
                 else if raw = MIRROR then ret True
                 else fail (Bail ''destination sidecar has invalid origin'')))"

text \<open>The body of a supersede: already there, replaced on its etag, or created; \<open>False\<close> is a freeze.\<close>

definition supersede_create ::
  "(bytes \<Rightarrow> bytes) \<Rightarrow> marker_codec \<Rightarrow> bucket_id \<Rightarrow> bucket_id \<Rightarrow> string \<Rightarrow> string \<Rightarrow> sidecar \<Rightarrow> bytes \<Rightarrow> bool act" where
  "supersede_create sha M src dst pkg filename sc artifact =
     (let akey = artifact_key pkg filename in
      andThen (create_artifact_verified sha dst akey artifact (length artifact)) (\<lambda>created.
        if created then ret True
        else
          andThen (get_bytes dst akey) (\<lambda>raced.
            if sha256_hex sha raced = sha256 sc then ret True
            else
              andThen (freeze_copy_race sha M src dst pkg filename) (\<lambda>_.
              andThen (delete_keys sha dst [superseding_key akey]) (\<lambda>_. ret False)))))"

definition supersede_body ::
  "(bytes \<Rightarrow> bytes) \<Rightarrow> marker_codec \<Rightarrow> bucket_id \<Rightarrow> bucket_id \<Rightarrow> string \<Rightarrow> string \<Rightarrow> sidecar \<Rightarrow> bytes \<Rightarrow> bool act" where
  "supersede_body sha M src dst pkg filename sc artifact =
     (let akey = artifact_key pkg filename in
      andThen (get_with_etag dst akey) (\<lambda>found.
        case found of
          None \<Rightarrow> supersede_create sha M src dst pkg filename sc artifact
        | Some (current, etag) \<Rightarrow>
            if sha256_hex sha current = sha256 sc then ret True
            else
              andThen (quarantine_bytes sha dst pkg filename current) (\<lambda>_.
              andThen (put_if_match sha dst akey etag artifact) (\<lambda>t.
                if t = None then fail (Contended ''destination artifact changed during supersede'')
                else andThen (verify_stored_size dst akey (length artifact)) (\<lambda>_. ret True)))))"

text \<open>A freeze marker or a tombstone that stands over the filename wins; \<open>True\<close> when one did.\<close>

definition yield_to_fence ::
  "(bytes \<Rightarrow> bytes) \<Rightarrow> marker_codec \<Rightarrow> bucket_id \<Rightarrow> string \<Rightarrow> string \<Rightarrow> bytes \<Rightarrow> bool option act" where
  "yield_to_fence sha M dst pkg filename artifact =
     (let akey = artifact_key pkg filename in
      andThen (head_exists dst (frozen_key akey)) (\<lambda>frz.
        if frz then
          andThen (quarantine_bytes sha dst pkg filename artifact) (\<lambda>_.
          andThen (freeze_side sha M dst pkg filename) (\<lambda>_. ret (Some True)))
        else
          andThen (head_exists dst (tombstone_key akey)) (\<lambda>tomb.
            if tomb then andThen (tombstone_side sha M dst pkg filename) (\<lambda>changed. ret (Some changed))
            else ret None)))"

text \<open>The record once its body stands: sidecar, end of the intent, companions, precedence again.\<close>

definition supersede_publish ::
  "(bytes \<Rightarrow> bytes) \<Rightarrow> sidecar_codec \<Rightarrow> marker_codec \<Rightarrow> bucket_id \<Rightarrow> string \<Rightarrow> string \<Rightarrow> sidecar \<Rightarrow> verified_source \<Rightarrow> bool \<Rightarrow> unit act" where
  "supersede_publish sha S M dst pkg filename sc v replace =
     (let akey = artifact_key pkg filename in
      andThen (install_or_verify_sidecar sha S dst (sidecar_key akey) sc) (\<lambda>_.
      andThen (delete_keys sha dst [superseding_key akey]) (\<lambda>_.
      andThen (replace_companion sha dst (metadata_key akey) (vs_metadata v) replace) (\<lambda>_.
      andThen (replace_companion sha dst (provenance_key akey) (vs_provenance v) replace) (\<lambda>_.
      andThen (yield_to_fence sha M dst pkg filename (vs_artifact v)) (\<lambda>fence.
      andThen (if fence = None then delete_keys sha dst [mirror_quarantined_key akey] else ret ()) (\<lambda>_.
        mark_dirty sha dst pkg)))))))"

definition supersede_record ::
  "exec_env \<Rightarrow> (bytes \<Rightarrow> bytes) \<Rightarrow> claim_codec \<Rightarrow> sidecar_codec \<Rightarrow> marker_codec \<Rightarrow> bucket_id \<Rightarrow> bucket_id \<Rightarrow> string \<Rightarrow> string
    \<Rightarrow> file_record \<Rightarrow> artifact_source \<Rightarrow> unit act" where
  "supersede_record E sha J S M src dst pkg filename src_record source =
     andThen (require_replication_unfenced E) (\<lambda>_.
       case rc_sidecar src_record of
         None \<Rightarrow> fail (Bail ''supersede verdict with no source sidecar'')
       | Some sc \<Rightarrow>
           if origin sc \<noteq> Some PRIVATE then fail (Bail ''supersede source is not private truth'')
           else
             (let akey = artifact_key pkg filename in
              andThen (verify_source_record sha S src pkg filename src_record source) (\<lambda>v.
              andThen (ensure_private_origin sha J dst pkg) (\<lambda>_.
              andThen (yield_to_fence sha M dst pkg filename (vs_artifact v)) (\<lambda>fence.
                case fence of
                  Some changed \<Rightarrow> if changed then mark_dirty sha dst pkg else ret ()
                | None \<Rightarrow>
                    andThen (supersede_replaces_companions S dst akey sc) (\<lambda>replace.
                    andThen (put_bytes sha dst (superseding_key akey) (enc_sidecar S sc)) (\<lambda>_.
                    andThen (supersede_body sha M src dst pkg filename sc (vs_artifact v)) (\<lambda>landed.
                      if landed then supersede_publish sha S M dst pkg filename sc v replace else ret ()))))))))"

subsection \<open>Finishing interrupted supersedes\<close>

text \<open>One listed marker: whether it was published here, and the version to retire if answered.\<close>

definition finish_one ::
  "(bytes \<Rightarrow> bytes) \<Rightarrow> sidecar_codec \<Rightarrow> int \<Rightarrow> int \<Rightarrow> bucket_id \<Rightarrow> file_entry
    \<Rightarrow> (bool \<times> (string \<times> string \<times> nat option) option) act" where
  "finish_one sha S now_s intent_grace b entry =
     (case strip_suffix (fe_key entry) SUPERSEDING_SUFFIX of
        None \<Rightarrow> ret (False, None)
      | Some akey \<Rightarrow>
          onResult (get_bytes b (fe_key entry))
            (\<lambda>e. if is_not_found e then ret (False, None) else fail e)
            (\<lambda>bs. case dec_sidecar S bs of
               None \<Rightarrow> fail (Bail ''parse supersede intent'')
             | Some intended \<Rightarrow>
                 andThen (head_exists b (tombstone_key akey)) (\<lambda>tomb.
                 andThen (head_exists b (frozen_key akey)) (\<lambda>frz.
                 andThen (if tomb \<or> frz then ret None
                          else onResult (stream_sha256 sha b akey) (\<lambda>e. if is_not_found e then ret None else fail e)
                                 (\<lambda>(h, _). ret (Some h))) (\<lambda>body_sha.
                   let age = map_option (\<lambda>written. now_s - int written) (fe_last_modified entry);
                       verdict = classify_marked_record body_sha (sha256 intended) age
                                   (marker_retire_gate intent_grace (size intended))
                   in andThen (if mr_install verdict then install_or_verify_sidecar sha S b (sidecar_key akey) intended
                               else ret False) (\<lambda>published.
                        ret (published,
                             if mr_retire verdict
                             then map_option (\<lambda>etag. (fe_key entry, etag, fe_last_modified entry)) (fe_etag entry)
                             else None)))))))"

fun finish_loop ::
  "(bytes \<Rightarrow> bytes) \<Rightarrow> sidecar_codec \<Rightarrow> int \<Rightarrow> int \<Rightarrow> bucket_id \<Rightarrow> file_entry list \<Rightarrow> nat \<Rightarrow> (string \<times> string \<times> nat option) list
    \<Rightarrow> (nat \<times> (string \<times> string \<times> nat option) list) act" where
  "finish_loop sha S now_s intent_grace b [] finished answered = ret (finished, answered)"
| "finish_loop sha S now_s intent_grace b (entry # es) finished answered =
     andThen (finish_one sha S now_s intent_grace b entry) (\<lambda>(published, retire).
       finish_loop sha S now_s intent_grace b es (if published then finished + 1 else finished)
         (case retire of None \<Rightarrow> answered | Some v \<Rightarrow> answered @ [v]))"

definition finish_interrupted_supersedes ::
  "(bytes \<Rightarrow> bytes) \<Rightarrow> sidecar_codec \<Rightarrow> int \<Rightarrow> int \<Rightarrow> bucket_id \<Rightarrow> string \<Rightarrow> file_entry list \<Rightarrow> nat act" where
  "finish_interrupted_supersedes sha S now_s intent_grace b pkg markers =
     andThen (finish_loop sha S now_s intent_grace b markers 0 []) (\<lambda>(finished, answered).
       if answered = [] then ret finished
       else
         andThen (list_dir_entries b (PACKAGES_PREFIX @ pkg @ ''/'')) (\<lambda>relisted.
           let current = map_of (List.map_filter (\<lambda>e. map_option (\<lambda>etag. (fe_key e, (etag, fe_last_modified e))) (fe_etag e)) relisted);
               unchanged = map fst (filter (\<lambda>(marker, version). current marker = Some version) answered)
           in andThen (if unchanged \<noteq> [] then delete_keys sha b unchanged else ret ()) (\<lambda>_. ret finished)))"

subsection \<open>Applying a verdict\<close>

datatype convergence = Converged | Deferred

definition brackets :: "verdict \<Rightarrow> bool \<times> bool" where
  "brackets v =
     (case v of
        Noop \<Rightarrow> (False, False)
      | Defer \<Rightarrow> (False, False)
      | CopyV sd \<Rightarrow> (sd = SideB, sd = SideA)
      | Supersede sd \<Rightarrow> (sd = SideB, sd = SideA)
      | QuarantineLoser sd \<Rightarrow> (sd = SideB, sd = SideA)
      | PropagateFreeze sd \<Rightarrow> (sd = SideB, sd = SideA)
      | AdoptSidecar _ \<Rightarrow> (True, True)
      | Freeze \<Rightarrow> (True, True)
      | FinishFreeze \<Rightarrow> (True, True)
      | Tombstone \<Rightarrow> (True, True)
      | SettleMirrorQuarantine \<Rightarrow> (True, True))"

definition mark_dirty_if :: "(bytes \<Rightarrow> bytes) \<Rightarrow> bucket_id \<Rightarrow> string \<Rightarrow> bool \<Rightarrow> unit act" where
  "mark_dirty_if sha b pkg c = (if c then mark_dirty sha b pkg else ret ())"

definition freeze_both :: "(bytes \<Rightarrow> bytes) \<Rightarrow> marker_codec \<Rightarrow> bucket_id \<Rightarrow> bucket_id \<Rightarrow> string \<Rightarrow> string \<Rightarrow> unit act" where
  "freeze_both sha M a b pkg filename =
     andThen (freeze_side sha M a pkg filename) (\<lambda>_.
     andThen (freeze_side sha M b pkg filename) (\<lambda>_.
     andThen (mark_dirty sha a pkg) (\<lambda>_. mark_dirty sha b pkg)))"

definition apply_verdict ::
  "exec_env \<Rightarrow> (bytes \<Rightarrow> bytes) \<Rightarrow> claim_codec \<Rightarrow> sidecar_codec \<Rightarrow> marker_codec \<Rightarrow> bucket_id \<Rightarrow> bucket_id \<Rightarrow> string \<Rightarrow> string
    \<Rightarrow> file_record \<Rightarrow> file_record \<Rightarrow> artifact_source \<Rightarrow> verdict \<Rightarrow> unit act" where
  "apply_verdict E sha J S M a b pkg filename ra rb source v =
     (case v of
        Noop \<Rightarrow>
          andThen (repair_same_sha_companions sha a b pkg filename ra rb) (\<lambda>(dirty_a, dirty_b).
          andThen (mark_dirty_if sha a pkg dirty_a) (\<lambda>_. mark_dirty_if sha b pkg dirty_b))
      | Defer \<Rightarrow> ret ()
      | CopyV SideA \<Rightarrow> andThen (copy_live E sha J S M a b pkg filename ra source) (mark_dirty_if sha b pkg)
      | CopyV SideB \<Rightarrow> andThen (copy_live E sha J S M b a pkg filename rb source) (mark_dirty_if sha a pkg)
      | AdoptSidecar _ \<Rightarrow>
          andThen (adopt_sidecar_cas sha J S a b pkg filename) (\<lambda>(adopted_a, adopted_b).
          andThen (repair_same_sha_companions sha a b pkg filename ra rb) (\<lambda>(dirty_a, dirty_b).
          andThen (mark_dirty_if sha a pkg (adopted_a \<or> dirty_a)) (\<lambda>_. mark_dirty_if sha b pkg (adopted_b \<or> dirty_b))))
      | Supersede SideA \<Rightarrow> supersede_record E sha J S M a b pkg filename ra source
      | Supersede SideB \<Rightarrow> supersede_record E sha J S M b a pkg filename rb source
      | QuarantineLoser SideA \<Rightarrow> supersede_record E sha J S M a b pkg filename ra source
      | QuarantineLoser SideB \<Rightarrow> supersede_record E sha J S M b a pkg filename rb source
      | Freeze \<Rightarrow> freeze_both sha M a b pkg filename
      | PropagateFreeze SideA \<Rightarrow> andThen (freeze_side sha M b pkg filename) (\<lambda>_. mark_dirty sha b pkg)
      | PropagateFreeze SideB \<Rightarrow> andThen (freeze_side sha M a pkg filename) (\<lambda>_. mark_dirty sha a pkg)
      | FinishFreeze \<Rightarrow> freeze_both sha M a b pkg filename
      | SettleMirrorQuarantine \<Rightarrow>
          andThen (settle_mirror_quarantine sha J S M a pkg filename) (\<lambda>changed_a.
          andThen (mark_dirty_if sha a pkg changed_a) (\<lambda>_.
          andThen (settle_mirror_quarantine sha J S M b pkg filename) (mark_dirty_if sha b pkg)))
      | Tombstone \<Rightarrow>
          andThen (tombstone_side sha M a pkg filename) (\<lambda>changed_a.
          andThen (mark_dirty_if sha a pkg changed_a) (\<lambda>_.
          andThen (tombstone_side sha M b pkg filename) (mark_dirty_if sha b pkg))))"

definition commit_quietly :: "(bytes \<Rightarrow> bytes) \<Rightarrow> bucket_id \<Rightarrow> string \<Rightarrow> string option \<Rightarrow> unit act" where
  "commit_quietly sha b pkg intent =
     (case intent of None \<Rightarrow> ret () | Some nonce \<Rightarrow> onResult (mark_commit sha b pkg nonce) (\<lambda>_. ret ()) (\<lambda>_. ret ()))"

text \<open>The intent on a bracketed side, then the verdict, then the commits whatever came out.\<close>

definition bracket_intent :: "(bytes \<Rightarrow> bytes) \<Rightarrow> bucket_id \<Rightarrow> string \<Rightarrow> bool \<Rightarrow> string option act" where
  "bracket_intent sha b pkg c = (if c then andThen (mark_intent sha b pkg) (\<lambda>n. ret (Some n)) else ret None)"

definition execute ::
  "exec_env \<Rightarrow> (bytes \<Rightarrow> bytes) \<Rightarrow> claim_codec \<Rightarrow> sidecar_codec \<Rightarrow> marker_codec \<Rightarrow> bucket_id \<Rightarrow> bucket_id \<Rightarrow> string \<Rightarrow> string
    \<Rightarrow> file_record \<Rightarrow> file_record \<Rightarrow> verdict \<Rightarrow> artifact_source \<Rightarrow> convergence act" where
  "execute E sha J S M a b pkg filename ra rb v source =
     andThen (require_replication_unfenced E) (\<lambda>_.
     andThen (bracket_intent sha a pkg (fst (brackets v))) (\<lambda>intent_a.
       onResult (bracket_intent sha b pkg (snd (brackets v)))
         (\<lambda>e. andThen (commit_quietly sha a pkg intent_a) (\<lambda>_. fail e))
         (\<lambda>intent_b.
            let commits = (\<lambda>k. andThen (commit_quietly sha a pkg intent_a) (\<lambda>_. andThen (commit_quietly sha b pkg intent_b) (\<lambda>_. k)))
            in onResult
                 (andThen (clear_spent_demotion_fence sha S a pkg filename ra) (\<lambda>_.
                  andThen (clear_spent_demotion_fence sha S b pkg filename rb) (\<lambda>_.
                  andThen (apply_verdict E sha J S M a b pkg filename ra rb source v) (\<lambda>_.
                    ret (if v = Defer then Deferred else Converged)))))
                 (\<lambda>e. commits (fail e)) (\<lambda>c. commits (ret c)))))"

subsection \<open>One package across two buckets\<close>

record split_origin =
  so_a_origin :: "record_origin option"
  so_b_origin :: "record_origin option"
  scanned_a :: bool
  scanned_b :: bool

text \<open>One side of the join: raised to private, its stranded mirror bodies quarantined.\<close>

definition raise_to_private ::
  "(bytes \<Rightarrow> bytes) \<Rightarrow> claim_codec \<Rightarrow> sidecar_codec \<Rightarrow> marker_codec \<Rightarrow> bucket_id \<Rightarrow> string \<Rightarrow> record_origin option \<Rightarrow> bool act" where
  "raise_to_private sha J S M b pkg org =
     (if org = Some PrivateO then ret False
      else
        andThen (ensure_private_origin sha J b pkg) (\<lambda>_.
          if org = Some MirrorO then
            andThen (quarantine_mirror_artifacts sha J S M b pkg) (\<lambda>n.
            andThen (mark_dirty_if sha b pkg (n > 0)) (\<lambda>_. ret True))
          else ret False))"

definition reconcile_split_origin ::
  "(bytes \<Rightarrow> bytes) \<Rightarrow> claim_codec \<Rightarrow> sidecar_codec \<Rightarrow> marker_codec \<Rightarrow> bucket_id \<Rightarrow> bucket_id \<Rightarrow> string
    \<Rightarrow> record_origin option \<Rightarrow> record_origin option \<Rightarrow> split_origin act" where
  "reconcile_split_origin sha J S M a b pkg a_origin b_origin =
     andThen (if a_origin = Some MirrorO \<and> b_origin = None
              then andThen (ensure_mirror_origin sha J b pkg) (\<lambda>o'. ret (a_origin, Some o'))
              else if b_origin = Some MirrorO \<and> a_origin = None
              then andThen (ensure_mirror_origin sha J a pkg) (\<lambda>o'. ret (Some o', b_origin))
              else ret (a_origin, b_origin)) (\<lambda>(ao, bo).
       if claim_join ao bo = Some PrivateO then
         andThen (raise_to_private sha J S M a pkg ao) (\<lambda>sa.
         andThen (raise_to_private sha J S M b pkg bo) (\<lambda>sb.
           ret \<lparr>so_a_origin = Some PrivateO, so_b_origin = Some PrivateO, scanned_a = sa, scanned_b = sb\<rparr>))
       else ret \<lparr>so_a_origin = ao, so_b_origin = bo, scanned_a = False, scanned_b = False\<rparr>)"

fun normalize_status_loop :: "(bytes \<Rightarrow> bytes) \<Rightarrow> status_codec \<Rightarrow> bucket_id \<Rightarrow> string \<Rightarrow> nat \<Rightarrow> bool act" where
  "normalize_status_loop sha C b pkg 0 = fail (Bail ''could not normalize late mirror status'')"
| "normalize_status_loop sha C b pkg (Suc n) =
     andThen (read_status_versioned C b pkg) (\<lambda>current.
       case current of
         None \<Rightarrow> ret False
       | Some cur \<Rightarrow>
           if st_origin cur \<noteq> Some MirrorO then ret False
           else
             andThen (put_status_if_version sha C b pkg (Some (st_etag cur)) default_status_doc 0 (Some PrivateO))
               (\<lambda>won. if won then ret True else normalize_status_loop sha C b pkg n))"

definition normalize_mirror_status_under_private_claim ::
  "(bytes \<Rightarrow> bytes) \<Rightarrow> claim_codec \<Rightarrow> status_codec \<Rightarrow> bucket_id \<Rightarrow> string \<Rightarrow> bool act" where
  "normalize_mirror_status_under_private_claim sha J C b pkg =
     andThen (read_origin_observation J b pkg) (\<lambda>claim.
       case claim of
         None \<Rightarrow> ret False
       | Some cl \<Rightarrow>
           if ob_state cl \<noteq> Private then ret False
           else
             andThen (read_status_versioned C b pkg) (\<lambda>initial.
               case initial of
                 None \<Rightarrow> ret False
               | Some st \<Rightarrow>
                   if st_origin st \<noteq> Some MirrorO then ret False
                   else
                     andThen (mark_intent sha b pkg) (\<lambda>nonce.
                       onResult
                         (andThen (read_origin_observation J b pkg) (\<lambda>again.
                            if again \<noteq> Some cl then ret False
                            else normalize_status_loop sha C b pkg ORIGIN_ATTEMPTS))
                         (\<lambda>e. onResult (mark_commit sha b pkg nonce) (\<lambda>_. fail e) (\<lambda>_. fail e))
                         (\<lambda>changed. andThen (mark_commit sha b pkg nonce) (\<lambda>_. ret changed)))))"

definition reconcile_project_status ::
  "(bytes \<Rightarrow> bytes) \<Rightarrow> claim_codec \<Rightarrow> status_codec \<Rightarrow> bucket_id \<Rightarrow> bucket_id \<Rightarrow> string \<Rightarrow> unit act" where
  "reconcile_project_status sha J C a b pkg =
     andThen (normalize_mirror_status_under_private_claim sha J C a pkg) (\<lambda>_.
     andThen (normalize_mirror_status_under_private_claim sha J C b pkg) (\<lambda>_.
     andThen (reconcile_status_pair sha C a b pkg) (\<lambda>r.
       case r of InSync \<Rightarrow> ret () | UpdatedLeft \<Rightarrow> mark_dirty sha a pkg | UpdatedRight \<Rightarrow> mark_dirty sha b pkg)))"

definition candidate_filename :: "string \<Rightarrow> string option" where
  "candidate_filename name =
     (case strip_suffix name TOMBSTONE_SUFFIX of
        Some base \<Rightarrow> Some base
      | None \<Rightarrow>
          (case strip_suffix name FROZEN_SUFFIX of
             Some base \<Rightarrow> Some base
           | None \<Rightarrow>
               (case strip_suffix name MIRROR_QUARANTINED_SUFFIX of
                  Some base \<Rightarrow> Some base
                | None \<Rightarrow> if is_artifact name then Some name else None)))"

definition candidate_filenames :: "string list \<Rightarrow> string list" where
  "candidate_filenames names = remdups (List.map_filter candidate_filename names)"

definition package_member_names :: "bucket_id \<Rightarrow> string \<Rightarrow> string list act" where
  "package_member_names b pkg =
     (let prefix = PACKAGES_PREFIX @ pkg @ ''/'' in
      andThen (list_dir_entries b prefix) (\<lambda>es. ret (List.map_filter (\<lambda>e. strip_prefix (fe_key e) prefix) es)))"

datatype file_pass = Done convergence | Retry "string list" "string list"

text \<open>A mirror record under a private claim: quarantine the package's mirror bodies, list again.\<close>

definition settle_late_mirror ::
  "(bytes \<Rightarrow> bytes) \<Rightarrow> claim_codec \<Rightarrow> sidecar_codec \<Rightarrow> marker_codec \<Rightarrow> bucket_id \<Rightarrow> string \<Rightarrow> bool \<Rightarrow> string list \<Rightarrow> string list act" where
  "settle_late_mirror sha J S M b pkg late names =
     (if \<not> late then ret names
      else
        andThen (quarantine_mirror_artifacts sha J S M b pkg) (\<lambda>n.
        andThen (mark_dirty_if sha b pkg (n > 0)) (\<lambda>_. package_member_names b pkg)))"

fun converge_files ::
  "exec_env \<Rightarrow> (bytes \<Rightarrow> bytes) \<Rightarrow> claim_codec \<Rightarrow> sidecar_codec \<Rightarrow> marker_codec \<Rightarrow> bucket_id \<Rightarrow> bucket_id \<Rightarrow> string
    \<Rightarrow> record_origin option \<Rightarrow> record_origin option \<Rightarrow> string list \<Rightarrow> string list \<Rightarrow> string list \<Rightarrow> convergence \<Rightarrow> file_pass act" where
  "converge_files E sha J S M a b pkg ao bo a_names b_names [] outcome = ret (Done outcome)"
| "converge_files E sha J S M a b pkg ao bo a_names b_names (filename # rest) outcome =
     andThen (record_from_names S a pkg filename a_names ao) (\<lambda>ra.
     andThen (record_from_names S b pkg filename b_names bo) (\<lambda>rb.
       let late_a = is_late_mirror ra ao; late_b = is_late_mirror rb bo in
       if late_a \<or> late_b then
         andThen (settle_late_mirror sha J S M a pkg late_a a_names) (\<lambda>a_names'.
         andThen (settle_late_mirror sha J S M b pkg late_b b_names) (\<lambda>b_names'.
           ret (Retry a_names' b_names')))
       else
         andThen (execute E sha J S M a b pkg filename ra rb (decide (enc_sidecar S) sha ra rb) Bucket) (\<lambda>result.
           if result = Deferred then
             andThen (mark_dirty_if sha a pkg (classify_record ra = Bare)) (\<lambda>_.
             andThen (mark_dirty_if sha b pkg (classify_record rb = Bare)) (\<lambda>_.
               converge_files E sha J S M a b pkg ao bo a_names b_names rest Deferred))
           else converge_files E sha J S M a b pkg ao bo a_names b_names rest outcome)))"

fun converge_attempts ::
  "exec_env \<Rightarrow> (bytes \<Rightarrow> bytes) \<Rightarrow> claim_codec \<Rightarrow> sidecar_codec \<Rightarrow> marker_codec \<Rightarrow> bucket_id \<Rightarrow> bucket_id \<Rightarrow> string
    \<Rightarrow> record_origin option \<Rightarrow> record_origin option \<Rightarrow> string list \<Rightarrow> string list \<Rightarrow> nat \<Rightarrow> convergence act" where
  "converge_attempts E sha J S M a b pkg ao bo a_names b_names 0 =
     fail (Bail ''package kept exposing mirror records under a private claim'')"
| "converge_attempts E sha J S M a b pkg ao bo a_names b_names (Suc n) =
     andThen (converge_files E sha J S M a b pkg ao bo a_names b_names
                (sort (remdups (candidate_filenames a_names @ candidate_filenames b_names))) Converged) (\<lambda>pass.
       case pass of
         Done outcome \<Rightarrow> ret outcome
       | Retry a_names' b_names' \<Rightarrow> converge_attempts E sha J S M a b pkg ao bo a_names' b_names' n)"

definition converge_package ::
  "exec_env \<Rightarrow> (bytes \<Rightarrow> bytes) \<Rightarrow> claim_codec \<Rightarrow> sidecar_codec \<Rightarrow> marker_codec \<Rightarrow> status_codec \<Rightarrow> bucket_id \<Rightarrow> bucket_id \<Rightarrow> string
    \<Rightarrow> convergence act" where
  "converge_package E sha J S M C a b pkg =
     andThen (require_replication_unfenced E) (\<lambda>_.
     andThen (package_member_names a pkg) (\<lambda>a_names0.
     andThen (package_member_names b pkg) (\<lambda>b_names0.
     andThen (read_pkg_origin J a pkg) (\<lambda>a_origin.
     andThen (read_pkg_origin J b pkg) (\<lambda>b_origin.
     andThen (reconcile_split_origin sha J S M a b pkg a_origin b_origin) (\<lambda>so.
     andThen (if scanned_a so then package_member_names a pkg else ret a_names0) (\<lambda>a_names.
     andThen (if scanned_b so then package_member_names b pkg else ret b_names0) (\<lambda>b_names.
     andThen (if so_a_origin so = Some PrivateO \<or> so_b_origin so = Some PrivateO
              then reconcile_project_status sha J C a b pkg else ret ()) (\<lambda>_.
       converge_attempts E sha J S M a b pkg (so_a_origin so) (so_b_origin so) a_names b_names 3)))))))))"

definition ORIGIN_MARKER :: string where "ORIGIN_MARKER = ''.origin''"
definition PROJECT_STATUS_MARKER :: string where "PROJECT_STATUS_MARKER = ''.project-status.json''"

definition replicate_record ::
  "exec_env \<Rightarrow> (bytes \<Rightarrow> bytes) \<Rightarrow> claim_codec \<Rightarrow> sidecar_codec \<Rightarrow> marker_codec \<Rightarrow> status_codec \<Rightarrow> bucket_id \<Rightarrow> bucket_id
    \<Rightarrow> string \<Rightarrow> string \<Rightarrow> artifact_source \<Rightarrow> convergence act" where
  "replicate_record E sha J S M C src dst pkg filename source =
     andThen (require_replication_unfenced E) (\<lambda>_.
     andThen (read_pkg_origin J src pkg) (\<lambda>src_claim.
     andThen (read_pkg_origin J dst pkg) (\<lambda>dst_claim.
     andThen (reconcile_split_origin sha J S M src dst pkg src_claim dst_claim) (\<lambda>so.
       if filename = ORIGIN_MARKER then ret Converged
       else if filename = PROJECT_STATUS_MARKER then
         andThen (if so_a_origin so = Some PrivateO \<or> so_b_origin so = Some PrivateO
                  then reconcile_project_status sha J C src dst pkg else ret ()) (\<lambda>_. ret Converged)
       else
         andThen (read_record J S src pkg filename) (\<lambda>ra0.
         andThen (read_record J S dst pkg filename) (\<lambda>rb0.
         andThen (if is_late_mirror ra0 (so_a_origin so) \<or> is_late_mirror rb0 (so_b_origin so) then
                    andThen (converge_package E sha J S M C src dst pkg) (\<lambda>_.
                    andThen (read_record J S src pkg filename) (\<lambda>ra1.
                    andThen (read_record J S dst pkg filename) (\<lambda>rb1. ret (ra1, rb1))))
                  else ret (ra0, rb0)) (\<lambda>(ra, rb).
           execute E sha J S M src dst pkg filename ra rb (decide (enc_sidecar S) sha ra rb) source)))))))"

end
