(* ===== verification/Body_Safety.thy ===== *)
theory Body_Safety
  imports Executor Fence_Safety
begin

text \<open>
  No body is lost by the executor, whatever interleaves. A body counts as accounted for while it
  stands under its key, is preserved in quarantine, or the filename is fenced; \<open>keeps\<close> says that a
  step leaves every accounted body accounted for and every durable marker standing. It is the rely
  and the guarantee of the same proof, so any number of executors may run against each other.
\<close>

section \<open>Accounted bodies\<close>

definition accounted :: "(bytes \<Rightarrow> bytes) \<Rightarrow> inner \<Rightarrow> string \<Rightarrow> bytes \<Rightarrow> bool" where
  "accounted sha s k bs = ((\<exists>ob. object_at s k = Some ob \<and> obj_bytes ob = bs) \<or> removal_authorized sha s k bs)"

datatype keepsake = A_Body bucket_id string bytes | A_Marker bucket_id string

fun worthy :: "keepsake \<Rightarrow> bool" where
  "worthy (A_Body b k bs) = is_canonical_artifact k"
| "worthy (A_Marker b k) = durable_marker k"

fun kept :: "(bytes \<Rightarrow> bytes) \<Rightarrow> keepsake \<Rightarrow> fleet \<Rightarrow> bool" where
  "kept sha (A_Body b k bs) fl = accounted sha (fl b) k bs"
| "kept sha (A_Marker b k) fl = contains_key (fl b) k"

definition keeps :: "(bytes \<Rightarrow> bytes) \<Rightarrow> fleet \<Rightarrow> fleet \<Rightarrow> bool" where
  "keeps sha fl fl' = (\<forall>x. worthy x \<longrightarrow> kept sha x fl \<longrightarrow> kept sha x fl')"

lemma keeps_iff:
  "keeps sha fl fl' \<longleftrightarrow>
     (\<forall>b k bs. is_canonical_artifact k \<longrightarrow> accounted sha (fl b) k bs \<longrightarrow> accounted sha (fl' b) k bs)
   \<and> (\<forall>b k. durable_marker k \<longrightarrow> contains_key (fl b) k \<longrightarrow> contains_key (fl' b) k)"
  unfolding keeps_def by (metis keepsake.exhaust kept.simps worthy.simps)

lemma keeps_refl [simp]: "keeps sha fl fl"
  by (simp add: keeps_def)

lemma stable_kept: "worthy x \<Longrightarrow> stable (keeps sha) (kept sha x)"
  by (simp add: stable_def keeps_def)

section \<open>Safe operations\<close>

definition safe :: "(bytes \<Rightarrow> bytes) \<Rightarrow> 'a act \<Rightarrow> bool" where
  "safe sha m = (\<forall>x. worthy x \<longrightarrow> triple (keeps sha) (kept sha x) m (\<lambda>_. kept sha x))"

named_theorems safe_intros \<open>operations that keep every accounted body and durable marker\<close>

lemma safeD: "safe sha m \<Longrightarrow> worthy x \<Longrightarrow> triple (keeps sha) (kept sha x) m (\<lambda>_. kept sha x)"
  by (simp add: safe_def)

lemma safe_ret [safe_intros]: "safe sha (ret v)"
  by (simp add: safe_def triple_ret)

lemma safe_fail [safe_intros]: "safe sha (fail e)"
  by (simp add: safe_def triple_fail)

lemma safe_andThen [safe_intros]: "safe sha m \<Longrightarrow> (\<And>v. safe sha (f v)) \<Longrightarrow> safe sha (andThen m f)"
  by (simp add: safe_def triple_andThen_same)

lemma safe_onResult [safe_intros]:
  "safe sha m \<Longrightarrow> (\<And>e. safe sha (h e)) \<Longrightarrow> (\<And>v. safe sha (f v)) \<Longrightarrow> safe sha (onResult m h f)"
  unfolding safe_def by (auto intro: triple_onResult)

lemma safe_if [safe_intros]: "(c \<Longrightarrow> safe sha m) \<Longrightarrow> (\<not> c \<Longrightarrow> safe sha m') \<Longrightarrow> safe sha (if c then m else m')"
  by simp

lemma safe_case_option [safe_intros]: "safe sha m \<Longrightarrow> (\<And>v. safe sha (f v)) \<Longrightarrow> safe sha (case v of None \<Rightarrow> m | Some y \<Rightarrow> f y)"
  by (cases v) simp_all

lemma safe_case_prod [safe_intros]: "(\<And>u v. safe sha (f u v)) \<Longrightarrow> safe sha (case p of (u, v) \<Rightarrow> f u v)"
  by (cases p) simp

lemma safe_lift_res [safe_intros]: "safe sha (lift_res r)"
  by (cases r) (simp_all add: lift_res_def safe_ret safe_fail)

lemma safe_marker_nonce [safe_intros]: "safe sha marker_nonce"
  by (auto simp: safe_def triple_def marker_nonce_def obeys_def)

subsection \<open>Storage calls\<close>

lemma safe_read: "(\<And>s. snd (f s) = s) \<Longrightarrow> safe sha (call b f)"
  unfolding safe_def by (blast intro: triple_read_call stable_kept)

lemma safe_reads [safe_intros]:
  "safe sha (get_bytes b k)" "safe sha (get_with_etag b k)" "safe sha (head_exists b k)" "safe sha (stored_size b k)"
  "safe sha (list_dir_entries b d)"
  unfolding get_bytes_def get_with_etag_def head_exists_def stored_size_def list_dir_entries_def
  by (intro safe_read; simp split: option.splits)+

text \<open>Authorization only needs markers to stand, so it survives every write and most deletes.\<close>

lemma removal_authorized_mono:
  assumes "\<And>k. durable_marker k \<Longrightarrow> contains_key s k \<Longrightarrow> contains_key s' k" and "removal_authorized sha s k bs"
  shows "removal_authorized sha s' k bs"
  using assms(2) assms(1) [of "tombstone_key k"] assms(1) [of "frozen_key k"] assms(1) [OF durable_fences(3)]
  by (auto simp: removal_authorized_def upload_barred_def split: if_splits option.splits)

text \<open>A change of one bucket that touches no accounted body and drops no durable marker.\<close>

lemma kept_upd:
  assumes "worthy x" and "kept sha x fl"
    and "\<And>k. durable_marker k \<Longrightarrow> contains_key (fl b) k \<Longrightarrow> contains_key s' k"
    and "\<And>k ob. is_canonical_artifact k \<Longrightarrow> object_at (fl b) k = Some ob \<Longrightarrow> accounted sha s' k (obj_bytes ob)"
  shows "kept sha x (fl(b := s'))"
proof (cases x)
  case (A_Body b' k bs)
  show ?thesis
  proof (cases "b' = b")
    case True
    have "accounted sha (fl b) k bs" and k: "is_canonical_artifact k"
      using assms(1,2) A_Body True by simp_all
    then consider (body) ob where "object_at (fl b) k = Some ob" "obj_bytes ob = bs" | (authorized) "removal_authorized sha (fl b) k bs"
      by (auto simp: accounted_def)
    then have "accounted sha s' k bs"
    proof cases
      case body
      then show ?thesis
        using assms(4) [OF k] by auto
    next
      case authorized
      then show ?thesis
        using removal_authorized_mono [OF assms(3)] by (simp add: accounted_def)
    qed
    then show ?thesis
      using A_Body True by simp
  qed (use A_Body assms(2) in simp)
qed (use assms in auto)

lemma accounted_standing: "object_at s k = Some ob \<Longrightarrow> obj_bytes ob = bs \<Longrightarrow> accounted sha s k bs"
  by (auto simp: accounted_def)

lemma kept_store:
  assumes "worthy x" and "kept sha x fl" and "\<not> is_canonical_artifact k \<or> \<not> contains_key (fl b) k"
  shows "kept sha x (fl(b := snd (store sha' k bs (fl b))))"
  by (rule kept_upd [OF assms(1,2)])
    (use assms(3) in \<open>auto simp: contains_key_store object_at_store contains_key_def intro!: accounted_standing\<close>)

lemma kept_create_lost:
  assumes "worthy x" and "kept sha x fl"
  shows "kept sha x (fl(b := create_lost sha' k (fl b)))"
  by (rule kept_upd [OF assms]) (auto intro: accounted_standing)

lemma safe_put_if_absent [safe_intros]: "safe sha (put_if_absent sha b k bs)"
  unfolding safe_def by (auto intro!: triple_put_if_absent stable_kept kept_store kept_create_lost)

lemma safe_put_if_none_match [safe_intros]: "safe sha (put_if_none_match sha b k bs)"
  unfolding safe_def by (auto intro!: triple_put_if_none_match stable_kept kept_store kept_create_lost)

lemma safe_put_bytes: "\<not> is_canonical_artifact k \<Longrightarrow> safe sha (put_bytes sha b k bs)"
  unfolding safe_def by (auto intro!: triple_put_bytes stable_kept kept_store)

lemma safe_put_if_match: "\<not> is_canonical_artifact k \<Longrightarrow> safe sha (put_if_match sha b k tag bs)"
  unfolding safe_def by (auto intro!: triple_put_if_match stable_kept kept_store)

lemma kept_delete:
  assumes "worthy x" and "kept sha x fl"
    and "\<forall>k\<in>set ks. \<not> durable_marker k \<and> (is_canonical_artifact k \<longrightarrow> upload_barred (fl b) k)"
  shows "kept sha x (fl(b := fold (delete_key sha') ks (fl b)))"
proof (rule kept_upd [OF assms(1,2)])
  show fences: "contains_key (fold (delete_key sha') ks (fl b)) k" if "durable_marker k" "contains_key (fl b) k" for k
    using that assms(3) by (auto simp: contains_key_delete_keys)
  fix k ob
  assume k: "is_canonical_artifact k" "object_at (fl b) k = Some ob"
  show "accounted sha (fold (delete_key sha') ks (fl b)) k (obj_bytes ob)"
  proof (cases "k \<in> set ks")
    case True
    then have "upload_barred (fl b) k"
      using assms(3) k(1) by blast
    then have "upload_barred (fold (delete_key sha') ks (fl b)) k"
      using fences [of "tombstone_key k"] fences [of "frozen_key k"] by (auto simp: upload_barred_def)
    then show ?thesis
      by (simp add: accounted_def removal_authorized_def)
  next
    case False
    then show ?thesis
      using k(2) by (auto simp: object_at_delete_keys intro: accounted_standing)
  qed
qed

lemma safe_delete_keys:
  "\<forall>k\<in>set ks. \<not> durable_marker k \<and> \<not> is_canonical_artifact k \<Longrightarrow> safe sha (delete_keys sha b ks)"
  unfolding safe_def by (auto intro!: triple_delete_keys stable_kept kept_delete)

section \<open>The primitives\<close>

lemma origin_key_not_canonical [simp]: "\<not> is_canonical_artifact (origin_key pkg)"
proof
  assume "is_canonical_artifact (origin_key pkg)"
  then obtain p n where n: "pkg @ ''/.origin'' = p @ CHR ''/'' # n" "CHR ''/'' \<notin> set n" and "is_artifact n"
    by (auto simp: is_canonical_artifact_def split_artifact_key_def origin_key_def PACKAGES_PREFIX_def strip_prefix_def
        split: option.splits if_splits dest!: split_once_SomeD)
  from n have "n = ''.origin''"
    by (auto simp: append_eq_append_conv2 append_eq_Cons_conv Cons_eq_append_conv)
  then show False
    using \<open>is_artifact n\<close> by (simp add: is_artifact_def)
qed

lemma marker_key_not_canonical [simp]: "\<not> is_canonical_artifact (marker_key pkg n x)"
  by (rule outside_packages_not_canonical) (simp add: marker_key_def DIRTY_PREFIX_def)

lemma durable_companions [simp]:
  "\<not> durable_marker (sidecar_key (artifact_key pkg f))" "\<not> durable_marker (metadata_key (artifact_key pkg f))"
  "\<not> durable_marker (provenance_key (artifact_key pkg f))" "\<not> durable_marker (mirror_quarantined_key (artifact_key pkg f))"
  "\<not> durable_marker (superseding_key (artifact_key pkg f))"
  by (simp_all add: durable_marker_def key_defs suffix_defs ends_with_iff artifact_key_def PACKAGES_PREFIX_def QUARANTINE_PREFIX_def)

lemma safe_markers [safe_intros]:
  "safe sha (mark_intent sha b pkg)" "safe sha (mark_commit sha b pkg n)" "safe sha (mark_dirty sha b pkg)" "safe sha (mark_dirty_if sha b pkg c)"
  unfolding mark_dirty_if_def mark_dirty_def mark_intent_def mark_intent_with_nonce_def mark_commit_def put_marker_def
  by (intro safe_intros safe_put_bytes marker_key_not_canonical)+

subsection \<open>Claims, sidecars and companions\<close>

lemma safe_encode_claim [safe_intros]: "safe sha (encode_claim J st)"
  by (auto simp: safe_def triple_def encode_claim_run obeys_def)

lemma safe_read_origin_observation [safe_intros]: "safe sha (read_origin_observation J b pkg)"
  unfolding read_origin_observation_def by (intro safe_intros)

lemma safe_read_pkg_origin [safe_intros]: "safe sha (read_pkg_origin J b pkg)"
  unfolding read_pkg_origin_def by (intro safe_intros)

lemma safe_claim_loop [safe_intros]: "safe sha (claim_loop sha J b pkg target n)"
  by (induction n) (simp_all, (intro safe_intros safe_put_if_match origin_key_not_canonical; assumption?)+)

lemma safe_claim_origin [safe_intros]: "safe sha (claim_origin sha J b pkg o_str ob)"
  unfolding claim_origin_def by (intro safe_intros safe_put_if_match origin_key_not_canonical)

lemma safe_demote [safe_intros]: "safe sha (demote_observed_mirror sha J b pkg ob)"
  unfolding demote_observed_mirror_def by (intro safe_intros safe_put_if_match origin_key_not_canonical)

lemma safe_case_origin_state [safe_intros]:
  "safe sha m1 \<Longrightarrow> safe sha m2 \<Longrightarrow> safe sha m3 \<Longrightarrow> safe sha (case st of Private \<Rightarrow> m1 | Mirror \<Rightarrow> m2 | Unclaimed \<Rightarrow> m3)"
  by (cases st) simp_all

lemma safe_ensure_private [safe_intros]: "safe sha (ensure_private_origin sha J b pkg)"
proof -
  have "safe sha (ensure_private_loop sha J b pkg n)" for n
    by (induction n) (simp_all, (intro safe_intros; assumption?)+)
  then show ?thesis
    by (simp add: ensure_private_origin_def)
qed

lemma safe_comp: "safe sha (f (g v)) \<Longrightarrow> safe sha ((f \<circ> g) v)"
  by simp

lemma safe_ensure_mirror [safe_intros]: "safe sha (ensure_mirror_origin sha J b pkg)"
proof -
  have "safe sha (ensure_mirror_loop sha J b pkg n)" for n
    by (induction n) (simp_all, (intro safe_intros safe_comp; assumption?)+)
  then show ?thesis
    by (simp add: ensure_mirror_origin_def)
qed

lemma safe_stream_sha256 [safe_intros]: "safe sha (stream_sha256 sha b k)"
  unfolding stream_sha256_def by (intro safe_intros)

lemma safe_case_size_check [safe_intros]:
  "safe sha m1 \<Longrightarrow> (\<And>e. safe sha (m2 e)) \<Longrightarrow> (\<And>e. safe sha (m3 e)) \<Longrightarrow>
    safe sha (case c of SizeOk \<Rightarrow> m1 | SizeWrong e \<Rightarrow> m2 e | SizeUnknown e \<Rightarrow> m3 e)"
  by (cases c) simp_all

lemma safe_check_stored_size [safe_intros]: "safe sha (check_stored_size b k n)"
  unfolding check_stored_size_def by (intro safe_intros)

lemma safe_verify_stored_size [safe_intros]: "safe sha (verify_stored_size b k n)"
  unfolding verify_stored_size_def by (intro safe_intros)

lemma safe_put_if_absent_or_verify: "\<not> is_canonical_artifact k \<Longrightarrow> safe sha (put_if_absent_or_verify sha b k bs)"
  unfolding put_if_absent_or_verify_def store_artifact_verified_def existing.case
  by (intro safe_intros safe_put_bytes)

lemma safe_create_artifact [safe_intros]: "safe sha (create_artifact_verified sha b k bs n)"
  unfolding create_artifact_verified_def by (intro safe_intros)

lemma safe_copy_missing [safe_intros]: "safe sha (copy_missing_companions sha src dst pkg f r1 r2)"
  unfolding copy_missing_companions_def copy_missing_object_def Let_def
  by (intro safe_intros safe_put_if_absent_or_verify companions_not_canonical)

lemma safe_repair_companions [safe_intros]: "safe sha (repair_same_sha_companions sha a b pkg f ra rb)"
  unfolding repair_same_sha_companions_def Let_def
  by (auto intro!: safe_intros split: record_state.splits record_origin.splits)

lemma safe_adopt [safe_intros]: "safe sha (adopt_sidecar_cas sha J S a b pkg f)"
proof -
  have "safe sha (adopt_merge sha S a b (sidecar_key k) l r lc rc again)" if "safe sha again" for k l r lc rc again
    unfolding adopt_merge_def
    by (auto intro!: safe_intros safe_put_if_match that split: option.splits prod.splits merge_choice.splits)
  then have "safe sha (adopt_loop sha J S a b pkg f n)" for n
    by (induction n) (auto simp: Let_def intro!: safe_intros)
  then show ?thesis
    by (simp add: adopt_sidecar_cas_def)
qed

lemma safe_install_mirror [safe_intros]: "safe sha (install_or_verify_mirror_sidecar sha S dst (sidecar_key k) sc)"
proof -
  have "safe sha (install_mirror_loop sha S dst (sidecar_key k) art sc n)" for art n
    by (induction n) (auto simp: Let_def intro!: safe_intros safe_put_if_match)
  then show ?thesis
    unfolding install_or_verify_mirror_sidecar_def by (intro safe_intros)
qed

lemma safe_install_private [safe_intros]: "safe sha (install_or_verify_sidecar sha S dst (sidecar_key k) sc)"
proof -
  have "safe sha (install_private_loop sha S dst (sidecar_key k) art sc n)" for art n
    by (induction n) (auto simp: Let_def intro!: safe_intros safe_put_if_match)
  then show ?thesis
    unfolding install_or_verify_sidecar_def by (intro safe_intros)
qed

subsection \<open>Fencing\<close>

text \<open>A step that runs while a durable marker is known to stand.\<close>

definition kept_under :: "(bytes \<Rightarrow> bytes) \<Rightarrow> keepsake \<Rightarrow> bucket_id \<Rightarrow> string \<Rightarrow> fleet \<Rightarrow> bool" where
  "kept_under sha x b m fl = (kept sha x fl \<and> contains_key (fl b) m)"

lemma stable_kept_under: "worthy x \<Longrightarrow> durable_marker m \<Longrightarrow> stable (keeps sha) (kept_under sha x b m)"
  unfolding kept_under_def by (rule stable_conj [OF stable_kept]) (auto simp: stable_def keeps_iff)

lemma triple_under:
  assumes "safe sha m" and "worthy x" and "durable_marker k"
  shows "triple (keeps sha) (kept_under sha x b k) m (\<lambda>_. kept_under sha x b k)"
  unfolding triple_def
proof (intro allI impI)
  fix w r w'
  assume w: "obeys (keeps sha) w" "kept_under sha x b k (buckets w)" "m w = (r, w')"
  have "kept sha x (buckets w)" "kept sha (A_Marker b k) (buckets w)"
    using w(2) by (simp_all add: kept_under_def)
  then show "obeys (keeps sha) w' \<and> kept_under sha x b k (buckets w')"
    using tripleD [OF safeD [OF assms(1,2)] w(1) _ w(3)] tripleD [OF safeD [OF assms(1), of "A_Marker b k"] w(1) _ w(3)] assms(3)
    by (simp add: kept_under_def)
qed

lemma triple_put_marker:
  assumes "worthy x" and "durable_marker k" and "\<not> is_canonical_artifact k"
  shows "triple (keeps sha) (kept sha x) (put_if_absent sha b k bs) (both (kept sha x) (\<lambda>_. kept_under sha x b k))"
proof (rule triple_put_if_absent [OF stable_kept [OF assms(1)]])
  fix fl :: fleet and r :: "bool res"
  assume fl: "kept sha x fl"
  show "both (kept sha x) (\<lambda>_. kept_under sha x b k) r (fl(b := create_lost sha k (fl b)))" if "contains_key (fl b) k"
    using kept_create_lost [OF assms(1) fl] that by (simp add: kept_under_def both_def split: sum.splits)
  show "both (kept sha x) (\<lambda>_. kept_under sha x b k) r (fl(b := snd (store sha k bs (fl b))))" if "\<not> contains_key (fl b) k"
    using kept_store [OF assms(1) fl, of k b sha bs] assms(3) by (simp add: kept_under_def both_def contains_key_store split: sum.splits)
qed simp

lemma durable_artifact: "is_artifact f \<Longrightarrow> \<not> durable_marker (artifact_key pkg f)"
  by (auto simp: durable_marker_def is_artifact_def artifact_key_def PACKAGES_PREFIX_def QUARANTINE_PREFIX_def suffix_defs ends_with_iff
      append_eq_append_conv2 append_eq_Cons_conv Cons_eq_append_conv)

lemma dropped_not_durable:
  "is_artifact f \<Longrightarrow> \<forall>k\<in>set (dropped_keys (artifact_key pkg f)). \<not> durable_marker k \<and> (is_canonical_artifact k \<longrightarrow> k = artifact_key pkg f)"
  using durable_artifact [of f pkg] by (simp add: dropped_keys_def record_object_keys_def)

lemma triple_drop_record:
  assumes "worthy x" and "is_artifact f"
  shows "triple (keeps sha) (kept_under sha x b (tombstone_key (artifact_key pkg f))) (drop_record_objects sha b pkg f) (\<lambda>_. kept sha x)"
  unfolding drop_record_objects_def Let_def dropped_keys_def [symmetric]
proof (rule triple_delete_keys_same [OF stable_kept_under [OF assms(1)]])
  fix fl :: fleet
  assume fl: "kept_under sha x b (tombstone_key (artifact_key pkg f)) fl"
  show "kept sha x (fl(b := fold (delete_key sha) (dropped_keys (artifact_key pkg f)) (fl b)))"
    by (rule kept_delete [OF assms(1)])
      (use fl dropped_not_durable [OF assms(2), of pkg] in \<open>auto simp: kept_under_def upload_barred_def\<close>)
qed (simp_all add: kept_under_def)

lemma safe_write_then_drop:
  assumes "is_artifact f"
  shows "safe sha (andThen (tombstone_write sha T b (artifact_key pkg f) f) (\<lambda>_. andThen (drop_record_objects sha b pkg f) (\<lambda>_. ret v)))"
  unfolding safe_def tombstone_write_def
proof (intro allI impI)
  fix x
  assume x: "worthy x"
  let ?t = "tombstone_key (artifact_key pkg f)"
  have "triple (keeps sha) (kept sha x) (andThen (put_if_absent sha b ?t (T f)) (\<lambda>_. ret ())) (both (kept sha x) (\<lambda>_. kept_under sha x b ?t))"
    by (rule triple_andThen [OF triple_put_marker [OF x]]) (auto intro!: triple_ret)
  moreover have "triple (keeps sha) (kept_under sha x b ?t) (andThen (drop_record_objects sha b pkg f) (\<lambda>_. ret v)) (\<lambda>_. kept sha x)"
    by (rule triple_andThen_same [OF triple_drop_record [OF x assms]]) (auto intro!: triple_ret)
  ultimately show "triple (keeps sha) (kept sha x)
      (andThen (andThen (put_if_absent sha b ?t (T f)) (\<lambda>_. ret ())) (\<lambda>_. andThen (drop_record_objects sha b pkg f) (\<lambda>_. ret v))) (\<lambda>_. kept sha x)"
    by (rule triple_andThen) simp
qed

lemma safe_quarantine [safe_intros]: "safe sha (quarantine_bytes sha b pkg f bs)" "safe sha (quarantine sha b pkg f)"
  unfolding quarantine_def quarantine_bytes_def Let_def by (intro safe_intros)+

lemma safe_freeze_side [safe_intros]: "is_artifact f \<Longrightarrow> safe sha (freeze_side sha M b pkg f)"
  unfolding freeze_side_def write_frozen_marker_def by (intro safe_intros safe_write_then_drop)

lemma safe_tombstone_side [safe_intros]: "is_artifact f \<Longrightarrow> safe sha (tombstone_side sha M b pkg f)"
  unfolding tombstone_side_def Let_def
  by (intro safe_intros safe_write_then_drop safe_delete_keys) simp_all

lemma safe_freeze_copy_race [safe_intros]: "is_artifact f \<Longrightarrow> safe sha (freeze_copy_race sha M a b pkg f)"
  unfolding freeze_copy_race_def Let_def by (intro safe_intros)

subsection \<open>Replacing a body\<close>

text \<open>
  Reading a body with its etag, preserving it, and replacing it on that etag: the replaced body is
  the preserved one, whatever ran between.
\<close>

definition read_as :: "(bytes \<Rightarrow> bytes) \<Rightarrow> keepsake \<Rightarrow> bucket_id \<Rightarrow> string \<Rightarrow> string \<Rightarrow> bytes \<Rightarrow> fleet \<Rightarrow> bool" where
  "read_as sha x b k tag bs fl = (kept sha x fl \<and> sim.proves (fl b) k tag (\<lambda>v. v = bs))"

lemma stable_read_as: "worthy x \<Longrightarrow> stable (keeps sha) (read_as sha x b k tag bs)"
  unfolding read_as_def by (intro stable_conj stable_kept stable_proves)

lemma triple_get_body:
  assumes "worthy x"
  shows "triple (keeps sha) (kept sha x) (get_with_etag b k)
    (both (kept sha x) (\<lambda>found. case found of None \<Rightarrow> kept sha x | Some (bs, tag) \<Rightarrow> read_as sha x b k tag bs))"
  by (rule triple_get_with_etag [OF stable_kept [OF assms]])
    (auto simp: read_as_def fleet_wf_def lookup_tagged_def split: option.splits intro!: sim.provesI)

definition preserved_as :: "(bytes \<Rightarrow> bytes) \<Rightarrow> keepsake \<Rightarrow> bucket_id \<Rightarrow> string \<Rightarrow> string \<Rightarrow> bytes \<Rightarrow> string \<Rightarrow> fleet \<Rightarrow> bool" where
  "preserved_as sha x b k tag bs q fl = (read_as sha x b k tag bs fl \<and> contains_key (fl b) q)"

lemma stable_preserved_as: "worthy x \<Longrightarrow> durable_marker q \<Longrightarrow> stable (keeps sha) (preserved_as sha x b k tag bs q)"
  unfolding preserved_as_def by (rule stable_conj [OF stable_read_as]) (auto simp: stable_def keeps_iff)

lemma triple_put_preserved:
  assumes "worthy x" and "durable_marker q" and "\<not> is_canonical_artifact q"
  shows "triple (keeps sha) (read_as sha x b k tag bs) (put_if_absent sha b q bs') (both (kept sha x) (\<lambda>_. preserved_as sha x b k tag bs q))"
proof (rule triple_put_if_absent [OF stable_read_as [OF assms(1)]])
  fix fl :: fleet and r :: "bool res"
  assume fl: "read_as sha x b k tag bs fl"
  then have kept: "kept sha x fl" and tagged: "sim.proves (fl b) k tag (\<lambda>v. v = bs)"
    by (simp_all add: read_as_def)
  have "sim.proves (create_lost sha q (fl b)) k tag (\<lambda>v. v = bs)" "sim.proves (snd (store sha q bs' (fl b))) k tag (\<lambda>v. v = bs)"
    using sim.proves_stable [OF tagged] evolves_same_objects store_evolves by simp_all
  note tag = this
  show "both (kept sha x) (\<lambda>_. preserved_as sha x b k tag bs q) r (fl(b := create_lost sha q (fl b)))" if "contains_key (fl b) q"
    using kept_create_lost [OF assms(1) kept] tag(1) that by (simp add: preserved_as_def read_as_def both_def split: sum.splits)
  show "both (kept sha x) (\<lambda>_. preserved_as sha x b k tag bs q) r (fl(b := snd (store sha q bs' (fl b))))"
    using kept_store [OF assms(1) kept, of q b sha bs'] assms(3) tag(2)
    by (simp add: preserved_as_def read_as_def contains_key_store both_def split: sum.splits)
qed (simp add: read_as_def)

lemma triple_quarantine_read:
  assumes "worthy x"
  shows "triple (keeps sha) (read_as sha x b k tag bs) (quarantine_bytes sha b pkg f bs)
    (both (kept sha x) (\<lambda>_. preserved_as sha x b k tag bs (quarantine_key pkg f (sha256_hex sha bs))))"
proof -
  let ?q = "quarantine_key pkg f (sha256_hex sha bs)"
  let ?Q = "both (kept sha x) (\<lambda>_. preserved_as sha x b k tag bs ?q)"
  have weak: "preserved_as sha x b k tag bs ?q fl \<Longrightarrow> kept sha x fl" for fl
    by (simp add: preserved_as_def read_as_def)
  have read: "triple (keeps sha) (preserved_as sha x b k tag bs ?q) (get_bytes b ?q) (\<lambda>_. preserved_as sha x b k tag bs ?q)"
    by (rule triple_get_bytes [OF stable_preserved_as [OF assms]]) simp_all
  show ?thesis
    unfolding quarantine_bytes_def Let_def
    by (rule triple_andThen [OF triple_put_preserved [OF assms]])
      (auto intro!: triple_if triple_ret triple_fail triple_seq [OF read] dest: weak)
qed

lemma triple_replace_body:
  assumes "worthy x" and "split_artifact_key k = Some (pkg, f)"
  shows "triple (keeps sha) (preserved_as sha x b k tag bs (quarantine_key pkg f (sha256_hex sha bs))) (put_if_match sha b k tag new) (\<lambda>_. kept sha x)"
proof (rule triple_put_if_match_same [OF stable_preserved_as [OF assms(1)]])
  fix fl v
  let ?q = "quarantine_key pkg f (sha256_hex sha bs)"
  assume fl: "preserved_as sha x b k tag bs ?q fl" and v: "lookup_tagged (fl b) k = Some (v, tag)"
  have "v = bs"
    using fl sim.proves_current [of "fl b" k tag "\<lambda>u. u = bs" v] v by (simp add: preserved_as_def read_as_def)
  moreover have "contains_key (snd (store sha k new (fl b))) ?q"
    using fl by (simp add: preserved_as_def contains_key_store)
  ultimately have "accounted sha (snd (store sha k new (fl b))) k v"
    using assms(2) by (simp add: accounted_def removal_authorized_def)
  note mine = this
  show "kept sha x (fl(b := snd (store sha k new (fl b))))"
  proof (rule kept_upd [OF assms(1)])
    fix k' ob
    assume "object_at (fl b) k' = Some ob"
    then show "accounted sha (snd (store sha k new (fl b))) k' (obj_bytes ob)"
      using mine v by (cases "k' = k") (auto simp: object_at_store lookup_tagged_def intro: accounted_standing)
  qed (use fl in \<open>auto simp: preserved_as_def read_as_def contains_key_store\<close>)
qed (simp_all add: preserved_as_def read_as_def)

text \<open>Preserving and replacing as the executor does it, with any reads in between.\<close>

lemma triple_replace:
  assumes "worthy x" and "split_artifact_key k = Some (pkg, f)" and "\<And>t. safe sha (rest t)"
  shows "triple (keeps sha) (read_as sha x b k tag bs)
    (andThen (quarantine_bytes sha b pkg f bs) (\<lambda>_. andThen (put_if_match sha b k tag new) rest)) (\<lambda>_. kept sha x)"
  by (rule triple_andThen [OF triple_quarantine_read [OF assms(1)]])
    (auto intro!: triple_andThen_same [OF triple_replace_body [OF assms(1,2)]] safeD [OF assms(3,1)])

section \<open>The executor\<close>

lemma safe_require [safe_intros]: "safe sha (require_replication_unfenced E)"
  by (auto simp: safe_def triple_def require_replication_unfenced_def)

lemma safe_case_source [safe_intros]:
  "safe sha m1 \<Longrightarrow> (\<And>v. safe sha (m2 v)) \<Longrightarrow> safe sha (case src of Bucket \<Rightarrow> m1 | Spool v \<Rightarrow> m2 v)"
  by (cases src) simp_all

lemma safe_verify_source_artifact [safe_intros]: "safe sha (verify_source_artifact sha S src pkg f r source)"
  unfolding verify_source_artifact_def stage_def stage_from_bucket_def Let_def
  by (intro safe_intros safe_delete_keys) simp_all

lemma safe_read_source_companions [safe_intros]: "safe sha (read_source_companions src k r)"
  unfolding read_source_companions_def read_listed_companion_def by (intro safe_intros)

lemma safe_verify_source_record [safe_intros]: "safe sha (verify_source_record sha S src pkg f r source)"
  unfolding verify_source_record_def by (intro safe_intros)

lemma safe_sidecar_still_names [safe_intros]: "safe sha (sidecar_still_names S b k h)"
  unfolding sidecar_still_names_def by (intro safe_intros)

lemma triple_still_names_read:
  assumes "worthy x"
  shows "triple (keeps sha) (read_as sha x b k tag bs) (sidecar_still_names S b' k' h) (\<lambda>_. read_as sha x b k tag bs)"
  unfolding sidecar_still_names_def
  by (rule triple_onResult [OF triple_get_bytes [OF stable_read_as [OF assms], where Q = "\<lambda>_. read_as sha x b k tag bs"]])
    (auto intro!: triple_if triple_ret triple_fail split: option.splits)

lemma read_as_kept: "read_as sha x b k tag bs fl \<Longrightarrow> kept sha x fl"
  by (simp add: read_as_def)

lemma safe_repair_debris [safe_intros]:
  assumes "split_artifact_key akey = Some (pkg, f)"
  shows "safe sha (repair_debris sha S dst pkg f sc akey artifact)"
  unfolding safe_def repair_debris_def
proof (intro allI impI)
  fix x
  assume x: "worthy x"
  have rest: "safe sha (if t \<noteq> None then andThen (verify_stored_size dst akey (length artifact)) (\<lambda>_. ret True) else ret False)" for t :: "string option"
    by (intro safe_intros)
  show "triple (keeps sha) (kept sha x)
      (andThen (get_with_etag dst akey) (\<lambda>found. case found of None \<Rightarrow> ret False
         | Some (current, etag) \<Rightarrow>
             if sha256_hex sha current = sha256 sc then ret False
             else andThen (sidecar_still_names S dst (sidecar_key akey) (sha256 sc)) (\<lambda>names.
               if \<not> names then ret False
               else andThen (quarantine_bytes sha dst pkg f current) (\<lambda>_.
                 andThen (put_if_match sha dst akey etag artifact) (\<lambda>t.
                   if t \<noteq> None then andThen (verify_stored_size dst akey (length artifact)) (\<lambda>_. ret True) else ret False)))))
      (\<lambda>_. kept sha x)"
    by (rule triple_andThen [OF triple_get_body [OF x]])
      (auto intro!: triple_if triple_ret triple_seq [OF triple_still_names_read [OF x]] triple_replace [OF x assms rest]
        dest: read_as_kept split: option.splits prod.splits)
qed

lemma safe_artifact_leg [safe_intros]:
  assumes "is_artifact f" and "split_artifact_key akey = Some (pkg, f)"
  shows "safe sha (artifact_leg sha S M src dst pkg f sc akey artifact pub)"
  unfolding artifact_leg_def using assms by (intro safe_intros) simp_all

lemma safe_supersede_body [safe_intros]:
  assumes "is_artifact f" and "split_artifact_key (artifact_key pkg f) = Some (pkg, f)"
  shows "safe sha (supersede_body sha M src dst pkg f sc artifact)"
  unfolding safe_def supersede_body_def Let_def
proof (intro allI impI)
  fix x
  assume x: "worthy x"
  let ?a = "artifact_key pkg f"
  have create: "safe sha (supersede_create sha M src dst pkg f sc artifact)"
    unfolding supersede_create_def Let_def using assms(1) by (intro safe_intros safe_delete_keys) simp_all
  have rest: "safe sha (if t = None then fail e else andThen (verify_stored_size dst ?a (length artifact)) (\<lambda>_. ret True))" for t :: "string option" and e
    by (intro safe_intros)
  show "triple (keeps sha) (kept sha x)
      (andThen (get_with_etag dst ?a) (\<lambda>found. case found of
          None \<Rightarrow> supersede_create sha M src dst pkg f sc artifact
        | Some (current, etag) \<Rightarrow>
            if sha256_hex sha current = sha256 sc then ret True
            else andThen (quarantine_bytes sha dst pkg f current) (\<lambda>_.
              andThen (put_if_match sha dst ?a etag artifact) (\<lambda>t.
                if t = None then fail (Contended ''destination artifact changed during supersede'')
                else andThen (verify_stored_size dst ?a (length artifact)) (\<lambda>_. ret True))))) (\<lambda>_. kept sha x)"
    by (rule triple_andThen [OF triple_get_body [OF x]])
      (auto intro!: triple_if triple_ret safeD [OF create x] triple_replace [OF x assms(2) rest]
        dest: read_as_kept split: option.splits prod.splits)
qed

lemma safe_put_companions [safe_intros]: "safe sha (put_companions sha dst akey c ch)"
  unfolding put_companions_def by (intro safe_intros safe_put_if_absent_or_verify companions_not_canonical)

lemma safe_copy_truth [safe_intros]: "safe sha (copy_truth sha S dst akey sc c ch mi n)"
  unfolding copy_truth_def by (intro safe_intros)

lemma safe_claim_destination [safe_intros]: "safe sha (claim_destination sha J dst pkg mi)"
  unfolding claim_destination_def by (intro safe_intros)

lemma safe_case_leg [safe_intros]:
  "(\<And>v. safe sha (m1 v)) \<Longrightarrow> safe sha m2 \<Longrightarrow> safe sha (case leg of Landed v \<Rightarrow> m1 v | FrozenLeg \<Rightarrow> m2)"
  by (cases leg) simp_all

lemma safe_replace_companion [safe_intros]:
  assumes "\<not> is_canonical_artifact k" and "\<not> durable_marker k"
  shows "safe sha (replace_companion sha b k new rep)"
proof -
  have "safe sha (replace_companion_loop sha b k bs n)" for bs n
    by (induction n) (use assms in \<open>auto intro!: safe_intros safe_put_if_match\<close>)
  then show ?thesis
    unfolding replace_companion_def
    using assms by (intro safe_intros safe_put_if_absent_or_verify safe_delete_keys) simp_all
qed

lemma safe_yield_to_fence [safe_intros]: "is_artifact f \<Longrightarrow> safe sha (yield_to_fence sha M dst pkg f bs)"
  unfolding yield_to_fence_def Let_def by (intro safe_intros)

lemma safe_clear_spent [safe_intros]: "safe sha (clear_spent_demotion_fence sha S b pkg f r)"
  unfolding clear_spent_demotion_fence_def demotion_resolved_by_private_truth_def Let_def
  by (intro safe_intros safe_delete_keys) simp_all

text \<open>Streamed copies and supersedes of a file that has an artifact name.\<close>

lemma safe_copy_live:
  assumes "is_artifact f" and "split_artifact_key (artifact_key pkg f) = Some (pkg, f)" and "\<not> copy_via E src dst"
  shows "safe sha (copy_live E sha J S M src dst pkg f r source)"
proof -
  let ?a = "artifact_key pkg f"
  have streamed: "safe sha (andThen (if copy_via E src dst then ret None
        else andThen (verify_source_artifact sha S src pkg f r source) (\<lambda>a. ret (Some a))) g)" if "\<And>a. safe sha (g (Some a))" for g :: "bytes option \<Rightarrow> bool act"
  proof -
    have "andThen (andThen m (\<lambda>a. ret (Some a))) g = andThen m (\<lambda>a. g (Some a))" for m :: "bytes act"
      by (auto simp: fun_eq_iff andThen_def ret_def split: prod.splits sum.splits)
    then show ?thesis
      using assms(3) by (auto intro!: safe_intros that)
  qed
  show ?thesis
    unfolding copy_live_def Let_def using assms
    by (intro safe_case_option safe_fail safe_andThen [OF safe_read_source_companions] streamed)
      (auto intro!: safe_intros)
qed

lemma safe_supersede_record:
  assumes "is_artifact f" and "split_artifact_key (artifact_key pkg f) = Some (pkg, f)"
  shows "safe sha (supersede_record E sha J S M src dst pkg f r source)"
proof -
  have "safe sha (supersede_publish sha S M dst pkg f sc v rep)" for sc v rep
    unfolding supersede_publish_def Let_def using assms(1) by (intro safe_intros safe_delete_keys) simp_all
  moreover have "safe sha (supersede_replaces_companions S dst akey sc)" for akey sc
    unfolding supersede_replaces_companions_def by (intro safe_intros)
  ultimately show ?thesis
    unfolding supersede_record_def Let_def using assms by (intro safe_intros safe_put_bytes) simp_all
qed

lemma safe_apply_verdict:
  assumes "is_artifact f" and "split_artifact_key (artifact_key pkg f) = Some (pkg, f)"
    and "\<not> copy_via E a b" and "\<not> copy_via E b a" and "v \<noteq> SettleMirrorQuarantine"
  shows "safe sha (apply_verdict E sha J S M a b pkg f ra rb source v)"
  unfolding apply_verdict_def freeze_both_def using assms
  by (cases v) (auto intro!: safe_intros safe_copy_live safe_supersede_record split: side.splits)

lemma safe_execute:
  assumes "is_artifact f" and "split_artifact_key (artifact_key pkg f) = Some (pkg, f)"
    and "\<not> copy_via E a b" and "\<not> copy_via E b a" and "v \<noteq> SettleMirrorQuarantine"
  shows "safe sha (execute E sha J S M a b pkg f ra rb v source)"
  unfolding execute_def commit_quietly_def bracket_intent_def Let_def
  by (intro safe_intros safe_apply_verdict [OF assms])

section \<open>Property\<close>


definition streaming :: exec_env where
  "streaming = \<lparr>fenced = (\<lambda>_. False), copy_via = (\<lambda>_ _. False), server_copy = (\<lambda>_ _ _ _. fail (Bail ''no server-side copy''))\<rparr>"

text \<open>A peer that tombstones the file on the second bucket in between.\<close>

definition deleting_peer :: "fleet \<Rightarrow> fleet" where
  "deleting_peer fl = fl(1 := snd (store (\<lambda>x. x) (tombstone_key (artifact_key ''six'' ''six-2.whl'')) ''gone'' (fl 1)))"


end
