(* ===== verification/Convergence.thy ===== *)
theory Convergence
  imports Demotion Body_Safety
begin

text \<open>
  The executor makes progress: undisturbed, replicating a live private record to a bucket that has
  none ends with both buckets holding it and the merge algebra deciding that nothing is left to do.
\<close>

section \<open>Framed runs\<close>

text \<open>A run that succeeded, left the script empty and changed only keys of \<open>K\<close> on bucket \<open>b\<close>.\<close>

definition touches :: "bucket_id \<Rightarrow> string set \<Rightarrow> world \<Rightarrow> world \<Rightarrow> bool" where
  "touches b K w w' =
     (script w' = [] \<and> (\<forall>i. i \<noteq> b \<longrightarrow> buckets w' i = buckets w i) \<and> store_wf (buckets w' b)
      \<and> (\<forall>k. k \<notin> K \<longrightarrow> object_at (buckets w' b) k = object_at (buckets w b) k))"

lemma touches_refl: "script w = [] \<Longrightarrow> store_wf (buckets w b) \<Longrightarrow> touches b K w w"
  by (simp add: touches_def)

lemma touches_trans: "touches b K w w1 \<Longrightarrow> touches b L w1 w2 \<Longrightarrow> touches b (K \<union> L) w w2"
  by (simp add: touches_def)

lemma touches_mono: "touches b K w w' \<Longrightarrow> K \<subseteq> L \<Longrightarrow> touches b L w w'"
  unfolding touches_def by blast

lemma touches_at: "touches b K w w' \<Longrightarrow> k \<notin> K \<Longrightarrow> object_at (buckets w' b) k = object_at (buckets w b) k"
  by (simp add: touches_def)

lemma touches_store:
  "script w = [] \<Longrightarrow> store_wf (buckets w b) \<Longrightarrow> touches b {k} w (upd b (snd (store sha k bs (buckets w b))) w)"
  by (simp add: touches_def object_at_store store_wf_store)

section \<open>Markers\<close>

definition dirty_keys :: "string set" where
  "dirty_keys = {k. starts_with k DIRTY_PREFIX}"

lemma marker_key_dirty [simp]: "marker_key pkg n x \<in> dirty_keys"
  by (simp add: dirty_keys_def marker_key_def)

lemma artifact_not_dirty [simp]: "artifact_key pkg f @ x \<notin> dirty_keys" "artifact_key pkg f \<notin> dirty_keys" "origin_key pkg \<notin> dirty_keys"
  by (simp_all add: dirty_keys_def artifact_key_def origin_key_def PACKAGES_PREFIX_def DIRTY_PREFIX_def)

lemma put_marker_quiet:
  assumes "script w = []" and "store_wf (buckets w b)"
  shows "\<exists>w'. put_marker sha b pkg n x w = (Inr (), w') \<and> touches b dirty_keys w w' \<and> next_version (buckets w' b) = next_version (buckets w b) + 1"
proof -
  let ?w = "upd b (snd (store sha (marker_key pkg n x) [] (buckets w b))) w"
  have "put_marker sha b pkg n x w = (Inr (), ?w)"
    using assms(1) by (simp add: put_marker_def put_bytes_quiet upd_def)
  then show ?thesis
    using touches_mono [OF touches_store [OF assms], of "marker_key pkg n x" dirty_keys sha "[]"] by (auto simp: next_version_store)
qed

lemma nonce_quiet:
  "marker_nonce w = (Inr (sim_nonce (nonce_seq w)), w\<lparr>nonce_seq := nonce_seq w + 1\<rparr>)"
  by (simp add: marker_nonce_def)

lemma touches_nonce [simp]: "touches b K (w\<lparr>nonce_seq := n\<rparr>) w' = touches b K w w'"
  by (simp add: touches_def)

lemma mark_intent_quiet:
  assumes "script w = []" and "store_wf (buckets w b)"
  shows "\<exists>n w'. mark_intent sha b pkg w = (Inr n, w') \<and> touches b dirty_keys w w' \<and> next_version (buckets w' b) = next_version (buckets w b) + 1"
  using put_marker_quiet [of "w\<lparr>nonce_seq := nonce_seq w + 1\<rparr>" b sha pkg "sim_nonce (nonce_seq w)" INTENT_SUFFIX] assms
  by (auto simp: mark_intent_def mark_intent_with_nonce_def andThen_def nonce_quiet ret_def)

lemma mark_dirty_quiet:
  assumes "script w = []" and "store_wf (buckets w b)"
  shows "\<exists>w'. mark_dirty sha b pkg w = (Inr (), w') \<and> touches b dirty_keys w w'"
  using put_marker_quiet [of "w\<lparr>nonce_seq := nonce_seq w + 1\<rparr>" b sha pkg "sim_nonce (nonce_seq w)" COMMIT_SUFFIX] assms
  by (auto simp: mark_dirty_def mark_commit_def andThen_def nonce_quiet)

lemma commit_quietly_quiet:
  assumes "script w = []" and "store_wf (buckets w b)"
  shows "\<exists>w'. commit_quietly sha b pkg i w = (Inr (), w') \<and> touches b dirty_keys w w'"
proof (cases i)
  case (Some n)
  then show ?thesis
    using put_marker_quiet [OF assms, of sha pkg n COMMIT_SUFFIX]
    by (auto simp: commit_quietly_def mark_commit_def onResult_def ret_def)
qed (use assms in \<open>auto simp: commit_quietly_def ret_def touches_refl\<close>)

section \<open>Claim, body, sidecar, companions\<close>

lemma ensure_private_touches:
  assumes "json_ok J" and "script w = []" and "store_wf (buckets w b)" and "next_version (buckets w b) \<le> 2 ^ 64"
    and "view J (buckets w) b pkg \<noteq> Corrupt"
  shows "\<exists>w'. ensure_private_origin sha J b pkg w = (Inr (), w') \<and> touches b {origin_key pkg} w w' \<and> view J (buckets w') b pkg = Claimed Private"
proof (cases "view J (buckets w) b pkg = Claimed Private")
  case True
  then show ?thesis
    using ensure_private_quiet [OF assms(2-5)] assms(2,3) by (auto intro: touches_refl)
next
  case False
  let ?w = "claimed_private sha J b pkg w"
  have w: "?w = (upd b (snd (store sha (origin_key pkg) (to_json J (written_body Private (nonce_seq w))) (buckets w b))) w)\<lparr>nonce_seq := nonce_seq w + 1\<rparr>"
    by (simp add: claimed_private_def)
  have "view J (buckets ?w) b pkg = Claimed Private"
    using decode_written [OF assms(1), of Private "nonce_seq w"] by (simp add: w view_def object_at_store)
  moreover have "touches b {origin_key pkg} w ?w"
    using touches_store [OF assms(2,3), of "origin_key pkg"] unfolding w by (simp add: touches_def)
  ultimately show ?thesis
    using ensure_private_quiet [OF assms(2-5)] False by auto
qed

lemma verify_stored_size_quiet:
  "script w = [] \<Longrightarrow> object_at (buckets w b) k = Some ob \<Longrightarrow> verify_stored_size b k (length (obj_bytes ob)) w = (Inr (), w)"
  by (simp add: verify_stored_size_def check_stored_size_def onResult_def andThen_def stored_size_quiet ret_def)

lemma create_artifact_quiet:
  assumes "script w = []" and "store_wf (buckets w b)" and "object_at (buckets w b) k = None"
  shows "\<exists>w' ob. create_artifact_verified sha b k bs (length bs) w = (Inr True, w') \<and> touches b {k} w w'
    \<and> object_at (buckets w' b) k = Some ob \<and> obj_bytes ob = bs"
proof -
  let ?w = "upd b (snd (store sha k bs (buckets w b))) w"
  let ?ob = "\<lparr>obj_bytes = bs, obj_etag = version_etag (next_version (buckets w b)), last_modified = now (buckets w b)\<rparr>"
  have ob: "object_at (buckets ?w b) k = Some ?ob"
    by (simp add: object_at_store)
  have "verify_stored_size b k (length bs) ?w = (Inr (), ?w)"
    using verify_stored_size_quiet [of ?w b k ?ob] ob assms(1) by simp
  then have "create_artifact_verified sha b k bs (length bs) w = (Inr True, ?w)"
    using assms by (simp add: create_artifact_verified_def andThen_def put_if_absent_quiet contains_key_def ret_def upd_def)
  then show ?thesis
    using touches_store [OF assms(1,2)] ob by auto
qed

lemma install_sidecar_quiet:
  assumes "script w = []" and "store_wf (buckets w b)" and "object_at (buckets w b) (sidecar_key a) = None" and "origin sc = Some PRIVATE"
  shows "\<exists>w' ob. install_or_verify_sidecar sha S b (sidecar_key a) sc w = (Inr True, w') \<and> touches b {sidecar_key a} w w'
    \<and> object_at (buckets w' b) (sidecar_key a) = Some ob \<and> obj_bytes ob = enc_sidecar S sc"
proof -
  let ?w = "upd b (snd (store sha (sidecar_key a) (enc_sidecar S sc) (buckets w b))) w"
  have "install_private_loop sha S b (sidecar_key a) a sc (Suc 7) w = (Inr True, ?w)"
    unfolding install_private_loop.simps using assms by (simp add: Let_def andThen_def get_with_etag_quiet lookup_tagged_def put_if_absent_quiet contains_key_def ret_def upd_def)
  moreover have "ORIGIN_ATTEMPTS = Suc 7"
    by (simp add: ORIGIN_ATTEMPTS_def)
  moreover have "strip_suffix (sidecar_key a) SIDECAR_SUFFIX = Some a"
    by (simp add: sidecar_key_def companion_key_def)
  ultimately have "install_or_verify_sidecar sha S b (sidecar_key a) sc w = (Inr True, ?w)"
    using assms(4) by (simp add: install_or_verify_sidecar_def del: install_private_loop.simps)
  then show ?thesis
    using touches_store [OF assms(1,2), of "sidecar_key a"] by (auto simp: object_at_store)
qed

lemma put_companion_quiet:
  assumes "script w = []" and "store_wf (buckets w b)" and "\<not> is_canonical_artifact k"
  shows "\<exists>r w'. put_if_absent_or_verify sha b k bs w = (Inr r, w') \<and> touches b {k} w w'"
  using put_if_absent_or_verify_quiet [OF assms(1,3), of sha b bs] assms(1,2)
  by (auto simp: touches_def object_at_verified store_wf_verified)

lemma put_companions_quiet:
  assumes "script w = []" and "store_wf (buckets w b)"
  shows "\<exists>r w'. put_companions sha b a c ch w = (Inr r, w') \<and> touches b {metadata_key a, provenance_key a} w w'"
proof -
  have one: "\<exists>r w'. (case v of None \<Rightarrow> ret x | Some bs \<Rightarrow> andThen (put_if_absent_or_verify sha b k bs) (\<lambda>y. ret (x \<or> y))) w = (Inr r, w')
      \<and> touches b {k} w w'"
    if "script w = []" "store_wf (buckets w b)" "\<not> is_canonical_artifact k" for v x k and w :: world
  proof (cases v)
    case (Some bs)
    then show ?thesis
      using put_companion_quiet [OF that, of sha bs] by (auto simp: andThen_def ret_def)
  qed (use that in \<open>auto simp: ret_def touches_refl\<close>)
  obtain r1 w1 where 1: "(case cp_metadata c of None \<Rightarrow> ret ch | Some bs \<Rightarrow> andThen (put_if_absent_or_verify sha b (metadata_key a) bs) (\<lambda>x. ret (ch \<or> x))) w = (Inr r1, w1)"
      "touches b {metadata_key a} w w1"
    using one [OF assms, of "metadata_key a"] by fastforce
  then have "script w1 = []" "store_wf (buckets w1 b)"
    by (simp_all add: touches_def)
  then obtain r2 w2 where 2: "(case cp_provenance c of None \<Rightarrow> ret r1 | Some bs \<Rightarrow> andThen (put_if_absent_or_verify sha b (provenance_key a) bs) (\<lambda>x. ret (r1 \<or> x))) w1 = (Inr r2, w2)"
      "touches b {provenance_key a} w1 w2"
    using one [of w1 "provenance_key a"] by fastforce
  then show ?thesis
    using 1 touches_trans [OF 1(2) 2(2)] by (auto simp: put_companions_def andThen_def insert_commute)
qed

section \<open>Reading the source\<close>

lemma record_of_fields:
  "rc_sidecar (record_of S s pkg f c) = Option.bind (object_at s (sidecar_key (artifact_key pkg f))) (\<lambda>ob. dec_sidecar S (obj_bytes ob))"
  "has_artifact (record_of S s pkg f c) = contains_key s (artifact_key pkg f)"
  "has_metadata (record_of S s pkg f c) = contains_key s (metadata_key (artifact_key pkg f))"
  "has_provenance (record_of S s pkg f c) = contains_key s (provenance_key (artifact_key pkg f))"
  "tombstoned (record_of S s pkg f c) = contains_key s (tombstone_key (artifact_key pkg f))"
  "frozen (record_of S s pkg f c) = contains_key s (frozen_key (artifact_key pkg f))"
  "mirror_quarantined (record_of S s pkg f c) = contains_key s (mirror_quarantined_key (artifact_key pkg f))"
  by (simp_all add: record_of_def from_listing_def Let_def key_defs)

text \<open>A source that holds the record: the body its sidecar names, and no fence.\<close>

definition holds_record :: "(bytes \<Rightarrow> bytes) \<Rightarrow> sidecar_codec \<Rightarrow> inner \<Rightarrow> string \<Rightarrow> sidecar \<Rightarrow> bytes \<Rightarrow> bool" where
  "holds_record sha S s a sc body =
     ((\<exists>ob. object_at s a = Some ob \<and> obj_bytes ob = body) \<and> sha256_hex sha body = sha256 sc
      \<and> (\<exists>ob. object_at s (sidecar_key a) = Some ob \<and> dec_sidecar S (obj_bytes ob) = Some sc)
      \<and> \<not> contains_key s (tombstone_key a) \<and> \<not> contains_key s (frozen_key a) \<and> \<not> contains_key s (mirror_quarantined_key a))"

lemma origin_parse_private [simp]: "origin_parse PRIVATE = Some PrivateO"
  by (simp add: origin_parse_def parse_state_def origin_consts narrow_def)

lemma holds_record_live:
  assumes "holds_record sha S s (artifact_key pkg f) sc body" and "origin sc = Some PRIVATE"
  shows "\<exists>u. classify_record (record_of S s pkg f claim) = Live (sha256 sc) PrivateO u"
    and "rc_sidecar (record_of S s pkg f claim) = Some sc" and "record_origin_of (record_of S s pkg f claim) = Some PrivateO"
    and "mirror_quarantined (record_of S s pkg f claim) = False" and "readable_sidecar S s (artifact_key pkg f)"
proof -
  let ?r = "record_of S s pkg f claim"
  show sc: "rc_sidecar ?r = Some sc"
    using assms(1) by (auto simp: holds_record_def record_of_fields)
  have marks: "tombstoned ?r = False" "frozen ?r = False" "has_artifact ?r"
    using assms(1) by (auto simp: holds_record_def record_of_fields contains_key_def)
  show mq: "mirror_quarantined ?r = False"
    using assms(1) by (auto simp: holds_record_def record_of_fields contains_key_def)
  show org: "record_origin_of ?r = Some PrivateO"
    using sc assms(2) by (simp add: record_origin_of_def sidecar_origin_str_def origin_parse_private)
  show "\<exists>u. classify_record ?r = Live (sha256 sc) PrivateO u"
    using sc marks mq org by (auto simp: classify_record_def Let_def)
  show "readable_sidecar S s (artifact_key pkg f)"
    using assms by (auto simp: holds_record_def readable_sidecar_def)
qed

lemma read_companions_quiet:
  assumes "script w = []" and "a = artifact_key pkg f"
  shows "\<exists>c. read_source_companions b a (record_of S (buckets w b) pkg f claim) w = (Inr c, w)"
  using assms
  by (auto simp: read_source_companions_def read_listed_companion_def andThen_def get_bytes_quiet ret_def contains_key_def record_of_fields)

text \<open>The body comes from the bucket, or from an upload's spool that holds the same bytes.\<close>

definition source_ok :: "artifact_source \<Rightarrow> bytes \<Rightarrow> bool" where
  "source_ok source body = (source = Bucket \<or> source = Spool (Some body))"

lemma source_ok_simps [simp]: "source_ok Bucket body" "source_ok (Spool (Some body)) body"
  by (simp_all add: source_ok_def)

lemma verify_source_quiet:
  assumes "script w = []" and "holds_record sha S (buckets w b) (artifact_key pkg f) sc body" and "rc_sidecar r = Some sc"
    and "unat (size sc) \<le> STAGE_TO_DISK_ABOVE" and "length body \<le> STAGE_TO_DISK_ABOVE" and "source_ok source body"
  shows "verify_source_artifact sha S b pkg f r source w = (Inr body, w)"
  using assms
  by (auto simp: source_ok_def verify_source_artifact_def Let_def stage_def stage_from_bucket_def andThen_def get_bytes_quiet ret_def holds_record_def)

section \<open>Copying the record\<close>

text \<open>A bucket with no trace of the filename.\<close>

definition no_record :: "inner \<Rightarrow> string \<Rightarrow> bool" where
  "no_record s a = (\<forall>x\<in>set ([] # marker_suffixes). object_at s (a @ x) = None)"

lemma no_record_at:
  assumes "no_record s a"
  shows "object_at s a = None" "object_at s (sidecar_key a) = None" "object_at s (metadata_key a) = None" "object_at s (provenance_key a) = None"
    "object_at s (tombstone_key a) = None" "object_at s (frozen_key a) = None" "object_at s (mirror_quarantined_key a) = None"
    "object_at s (superseding_key a) = None"
  using assms by (simp_all add: no_record_def marker_suffixes_def key_defs)

lemma touches_no_record:
  assumes "touches b K w w'" and "\<And>x. x \<in> set ([] # marker_suffixes) \<Longrightarrow> a @ x \<notin> K" and "no_record (buckets w b) a"
  shows "no_record (buckets w' b) a"
  using assms touches_at [OF assms(1)] by (simp add: no_record_def)

lemma artifact_leg_quiet:
  assumes "script w = []" and "store_wf (buckets w b)" and "no_record (buckets w b) a"
  shows "\<exists>w' ob. artifact_leg sha S M src b pkg f sc a body pub w = (Inr (Landed True), w') \<and> touches b {a} w w'
    \<and> object_at (buckets w' b) a = Some ob \<and> obj_bytes ob = body"
proof -
  have "repair_debris sha S b pkg f sc a body w = (Inr False, w)"
    using assms no_record_at(1) [OF assms(3)] by (simp add: repair_debris_def andThen_def get_with_etag_quiet lookup_tagged_def ret_def)
  then show ?thesis
    using create_artifact_quiet [OF assms(1,2) no_record_at(1) [OF assms(3)], of sha body]
    by (auto simp: artifact_leg_def andThen_def ret_def)
qed

text \<open>What a finished copy leaves on the destination.\<close>

definition copied :: "sidecar_codec \<Rightarrow> inner \<Rightarrow> string \<Rightarrow> sidecar \<Rightarrow> bytes \<Rightarrow> bool" where
  "copied S s a sc body =
     ((\<exists>ob. object_at s a = Some ob \<and> obj_bytes ob = body)
      \<and> (\<exists>ob. object_at s (sidecar_key a) = Some ob \<and> obj_bytes ob = enc_sidecar S sc)
      \<and> (\<forall>m\<in>{tombstone_key a, frozen_key a, mirror_quarantined_key a}. object_at s m = None))"

lemma copy_truth_quiet:
  assumes "script w = []" and "store_wf (buckets w b)" and "origin sc = Some PRIVATE"
    and "object_at (buckets w b) a = Some ob" and "obj_bytes ob = body"
    and "\<forall>m\<in>{sidecar_key a, tombstone_key a, frozen_key a, mirror_quarantined_key a}. object_at (buckets w b) m = None"
  shows "\<exists>r w'. copy_truth sha S b a sc c ch False (length body) w = (Inr r, w')
    \<and> touches b {sidecar_key a, metadata_key a, provenance_key a} w w' \<and> copied S (buckets w' b) a sc body"
proof -
  obtain w1 sob where 1: "install_or_verify_sidecar sha S b (sidecar_key a) sc w = (Inr True, w1)" "touches b {sidecar_key a} w w1"
      "object_at (buckets w1 b) (sidecar_key a) = Some sob" "obj_bytes sob = enc_sidecar S sc"
    using install_sidecar_quiet [OF assms(1,2) _ assms(3), of a sha S] assms(6) by auto
  have "script w1 = []" "store_wf (buckets w1 b)"
    using 1(2) by (simp_all add: touches_def)
  from put_companions_quiet [OF this, of sha a c True]
  obtain r w2 where 2: "put_companions sha b a c True w1 = (Inr r, w2)" "touches b {metadata_key a, provenance_key a} w1 w2"
    by blast
  have run: "copy_truth sha S b a sc c ch False (length body) w = (Inr r, w2)"
    using assms(1,4,5) 1(1) 2(1) by (simp add: copy_truth_def andThen_def stored_size_quiet)
  have all: "touches b {sidecar_key a, metadata_key a, provenance_key a} w w2"
    using touches_trans [OF 1(2) 2(2)] by (rule touches_mono) auto
  have "object_at (buckets w2 b) (sidecar_key a) = Some sob"
    using touches_at [OF 2(2), of "sidecar_key a"] 1(3) by simp
  moreover have "object_at (buckets w2 b) k = object_at (buckets w b) k" if "k \<in> {a, tombstone_key a, frozen_key a, mirror_quarantined_key a}" for k
    using touches_at [OF all, of k] that by auto
  ultimately show ?thesis
    using run all assms(4-6) 1(4) by (auto simp: copied_def)
qed

definition copy_keys :: "string \<Rightarrow> string \<Rightarrow> string set" where
  "copy_keys pkg a = {origin_key pkg, a, sidecar_key a, metadata_key a, provenance_key a}"

lemma copy_live_quiet:
  assumes "json_ok J" and "script w = []" and "store_wf (buckets w b)" and "next_version (buckets w b) \<le> 2 ^ 64"
    and "view J (buckets w) b pkg \<noteq> Corrupt" and "src \<noteq> b" and "\<not> copy_via E src b" and "\<forall>u. \<not> fenced E u"
    and "is_artifact f" and "CHR ''/'' \<notin> set f" and "holds_record sha S (buckets w src) (artifact_key pkg f) sc body"
    and "origin sc = Some PRIVATE" and "unat (size sc) \<le> STAGE_TO_DISK_ABOVE" and "length body \<le> STAGE_TO_DISK_ABOVE"
    and "no_record (buckets w b) (artifact_key pkg f)" and "source_ok source body"
  shows "\<exists>ch w'. copy_live E sha J S M src b pkg f (record_of S (buckets w src) pkg f claim) source w = (Inr ch, w')
    \<and> touches b (copy_keys pkg (artifact_key pkg f)) w w' \<and> copied S (buckets w' b) (artifact_key pkg f) sc body
    \<and> view J (buckets w') b pkg = Claimed Private"
proof -
  let ?a = "artifact_key pkg f" and ?r = "record_of S (buckets w src) pkg f claim"
  note live = holds_record_live [OF assms(11,12)]
  obtain c where companions: "read_source_companions src ?a ?r w = (Inr c, w)"
    using read_companions_quiet [OF assms(2) refl] by blast
  have source: "verify_source_artifact sha S src pkg f ?r source w = (Inr body, w)"
    by (rule verify_source_quiet [OF assms(2,11) live(2) assms(13,14,16)])
  obtain w1 where 1: "ensure_private_origin sha J b pkg w = (Inr (), w1)" "touches b {origin_key pkg} w w1"
      "view J (buckets w1) b pkg = Claimed Private"
    using ensure_private_touches [OF assms(1-5)] by blast
  have mine: "?a @ x \<noteq> origin_key pkg" if "x \<in> set ([] # marker_suffixes)" for x
    using origin_key_artifact [OF assms(9,10) that] .
  have free: "no_record (buckets w1 b) ?a"
    by (rule touches_no_record [OF 1(2) _ assms(15)]) (use mine in auto)
  have ok1: "script w1 = []" "store_wf (buckets w1 b)"
    using 1(2) by (simp_all add: touches_def)
  obtain w2 ob where 2: "artifact_leg sha S M src b pkg f sc ?a body False w1 = (Inr (Landed True), w2)" "touches b {?a} w1 w2"
      "object_at (buckets w2 b) ?a = Some ob" "obj_bytes ob = body"
    using artifact_leg_quiet [OF ok1 free] by blast
  have ok2: "script w2 = []" "store_wf (buckets w2 b)"
    using 2(2) by (simp_all add: touches_def)
  have gone: "\<forall>m\<in>{sidecar_key ?a, tombstone_key ?a, frozen_key ?a, mirror_quarantined_key ?a}. object_at (buckets w2 b) m = None"
    using touches_at [OF 2(2)] no_record_at [OF free] by simp
  obtain ch w3 where 3: "copy_truth sha S b ?a sc c True False (length body) w2 = (Inr ch, w3)"
      "touches b {sidecar_key ?a, metadata_key ?a, provenance_key ?a} w2 w3" "copied S (buckets w3 b) ?a sc body"
    using copy_truth_quiet [OF ok2 assms(12) 2(3,4) gone] by blast
  have run: "copy_live E sha J S M src b pkg f ?r source w = (Inr ch, w3)"
    using assms(7,8) live(2,3) companions source 1(1) 2(1) 3(1)
    by (simp add: copy_live_def Let_def andThen_def ret_def require_replication_unfenced_def claim_destination_def)
  have all: "touches b (copy_keys pkg ?a) w w3"
    using touches_trans [OF touches_trans [OF 1(2) 2(2)] 3(2)] by (rule touches_mono) (auto simp: copy_keys_def)
  have "origin_key pkg \<notin> {?a} \<union> {sidecar_key ?a, metadata_key ?a, provenance_key ?a}"
    using mine [of "[]"] mine [of SIDECAR_SUFFIX] mine [of METADATA_SUFFIX] mine [of PROVENANCE_SUFFIX] by (auto simp: key_defs)
  then have "view J (buckets w3) b pkg = view J (buckets w1) b pkg"
    using touches_at [OF touches_trans [OF 2(2) 3(2)], of "origin_key pkg"] by (simp add: view_def)
  then show ?thesis
    using run all 3(3) 1(3) by auto
qed

section \<open>Executing a copy\<close>

lemma copied_holds:
  assumes "copied S s a sc body" and "dec_sidecar S (enc_sidecar S sc) = Some sc" and "sha256_hex sha body = sha256 sc"
  shows "holds_record sha S s a sc body"
  using assms by (auto simp: copied_def holds_record_def contains_key_def)

lemma same_record_noop:
  assumes "classify_record ra = Live h PrivateO u" and "classify_record rb = Live h PrivateO u'"
    and "rc_sidecar ra = Some sc" and "rc_sidecar rb = Some sc"
  shows "decide enc sha ra rb = Noop"
  using assms by (simp add: decide_def same_bytes_def sidecar_merge_def ranked_merge_def)

lemma absent_destination_copies:
  assumes "classify_record ra = Live h PrivateO u" and "no_record s (artifact_key pkg f)"
  shows "decide enc sha ra (record_of S s pkg f claim) = CopyV SideA"
proof -
  have "classify_record (record_of S s pkg f claim) = AbsentRecord False"
    using no_record_at [OF assms(2)] by (simp add: classify_record_def Let_def record_of_fields contains_key_def)
  then show ?thesis
    using assms(1) by (simp add: decide_def)
qed

lemma clear_spent_none: "\<not> mirror_quarantined r \<Longrightarrow> clear_spent_demotion_fence sha S b pkg f r w = (Inr (), w)"
  by (simp add: clear_spent_demotion_fence_def ret_def)

lemma mark_dirty_if_quiet:
  assumes "script w = []" and "store_wf (buckets w b)"
  shows "\<exists>w'. mark_dirty_if sha b pkg c w = (Inr (), w') \<and> touches b dirty_keys w w'"
  using mark_dirty_quiet [OF assms] assms by (auto simp: mark_dirty_if_def ret_def touches_refl)

lemma copied_touches: "touches b dirty_keys w w' \<Longrightarrow> copied S (buckets w b) (artifact_key pkg f) sc body \<Longrightarrow> copied S (buckets w' b) (artifact_key pkg f) sc body"
  by (simp add: copied_def touches_def key_defs)

text \<open>The bracket of a copy: intent, verdict, dirty mark and commit, on the destination only.\<close>

lemma execute_copy_quiet:
  assumes "json_ok J" and "script w = []" and "store_wf (buckets w b)" and "next_version (buckets w b) < 2 ^ 64"
    and "view J (buckets w) b pkg \<noteq> Corrupt" and "src \<noteq> b" and "\<not> copy_via E src b" and "\<forall>u. \<not> fenced E u"
    and "is_artifact f" and "CHR ''/'' \<notin> set f" and "holds_record sha S (buckets w src) (artifact_key pkg f) sc body"
    and "origin sc = Some PRIVATE" and "unat (size sc) \<le> STAGE_TO_DISK_ABOVE" and "length body \<le> STAGE_TO_DISK_ABOVE"
    and "no_record (buckets w b) (artifact_key pkg f)" and "source_ok source body"
  shows "\<exists>w'. execute E sha J S M src b pkg f (record_of S (buckets w src) pkg f c1) (record_of S (buckets w b) pkg f c2) (CopyV SideA) source w
      = (Inr Converged, w')
    \<and> touches b (copy_keys pkg (artifact_key pkg f) \<union> dirty_keys) w w' \<and> copied S (buckets w' b) (artifact_key pkg f) sc body
    \<and> view J (buckets w') b pkg = Claimed Private"
proof -
  let ?a = "artifact_key pkg f" and ?ra = "record_of S (buckets w src) pkg f c1" and ?rb = "record_of S (buckets w b) pkg f c2"
  obtain n w1 where 1: "mark_intent sha b pkg w = (Inr n, w1)" "touches b dirty_keys w w1" "next_version (buckets w1 b) = next_version (buckets w b) + 1"
    using mark_intent_quiet [OF assms(2,3)] by blast
  have ok1: "script w1 = []" "store_wf (buckets w1 b)" "buckets w1 src = buckets w src" "next_version (buckets w1 b) \<le> 2 ^ 64"
    using 1(2,3) assms(4,6) by (simp_all add: touches_def)
  have view1: "view J (buckets w1) b pkg \<noteq> Corrupt"
    using assms(5) touches_at [OF 1(2), of "origin_key pkg"] by (simp add: view_def)
  have free1: "no_record (buckets w1 b) ?a"
    by (rule touches_no_record [OF 1(2) _ assms(15)]) simp
  obtain ch w2 where 2: "copy_live E sha J S M src b pkg f ?ra source w1 = (Inr ch, w2)"
      "touches b (copy_keys pkg ?a) w1 w2" "copied S (buckets w2 b) ?a sc body" "view J (buckets w2) b pkg = Claimed Private"
    using copy_live_quiet [OF assms(1) ok1(1,2,4) view1 assms(6-10), of sha S sc body source M c1] assms(11-14,16) free1 unfolding ok1(3) by blast
  have ok2: "script w2 = []" "store_wf (buckets w2 b)"
    using 2(2) by (simp_all add: touches_def)
  obtain w3 where 3: "mark_dirty_if sha b pkg ch w2 = (Inr (), w3)" "touches b dirty_keys w2 w3"
    using mark_dirty_if_quiet [OF ok2] by blast
  have ok3: "script w3 = []" "store_wf (buckets w3 b)"
    using 3(2) by (simp_all add: touches_def)
  obtain w4 where 4: "commit_quietly sha b pkg (Some n) w3 = (Inr (), w4)" "touches b dirty_keys w3 w4"
    using commit_quietly_quiet [OF ok3] by blast
  have unfenced: "\<not> mirror_quarantined ?ra" "\<not> mirror_quarantined ?rb"
    using holds_record_live(4) [OF assms(11,12)] no_record_at(7) [OF assms(15)] by (simp_all add: record_of_fields contains_key_def)
  have "execute E sha J S M src b pkg f ?ra ?rb (CopyV SideA) source w = (Inr Converged, w4)"
    using assms(8) 1(1) 2(1) 3(1) 4(1) clear_spent_none [OF unfenced(1)] clear_spent_none [OF unfenced(2)]
    by (simp add: execute_def require_replication_unfenced_def andThen_def onResult_def bracket_intent_def brackets_def ret_def
        apply_verdict_def Let_def commit_quietly_def)
  moreover have "touches b (copy_keys pkg ?a \<union> dirty_keys) w w4"
    using touches_trans [OF touches_trans [OF 1(2) 2(2)] touches_trans [OF 3(2) 4(2)]] by (rule touches_mono) auto
  moreover have "copied S (buckets w4 b) ?a sc body"
    using copied_touches [OF 4(2)] copied_touches [OF 3(2)] 2(3) by blast
  moreover have "view J (buckets w4) b pkg = Claimed Private"
    using 2(4) touches_at [OF touches_trans [OF 3(2) 4(2)], of "origin_key pkg"] by (simp add: view_def)
  ultimately show ?thesis
    by blast
qed

section \<open>Property\<close>

text \<open>One pass over a filename: read both records, decide, apply.\<close>

definition converge_once ::
  "exec_env \<Rightarrow> (bytes \<Rightarrow> bytes) \<Rightarrow> claim_codec \<Rightarrow> sidecar_codec \<Rightarrow> marker_codec \<Rightarrow> bucket_id \<Rightarrow> bucket_id \<Rightarrow> string \<Rightarrow> string \<Rightarrow> convergence act" where
  "converge_once E sha J S M a b pkg f =
     andThen (read_record J S a pkg f) (\<lambda>ra.
     andThen (read_record J S b pkg f) (\<lambda>rb.
       execute E sha J S M a b pkg f ra rb (decide (enc_sidecar S) sha ra rb) Bucket))"

text \<open>
  undisturbed, a live private record reaches a bucket that has none in one pass. When the source
  holds the body its sidecar names and the destination has no trace of the filename, reading both
  records, deciding and executing reports convergence; afterwards the destination holds the same
  bytes and a claim private, the source is untouched, nothing but that record, its claim and dirty
  markers changed, and a second pass would decide that nothing is left to do.
\<close>

theorem copy_converges:
  assumes "json_ok J" and "dec_sidecar S (enc_sidecar S sc) = Some sc" and "script w = []" and "a \<noteq> b"
    and "store_wf (buckets w a)" and "store_wf (buckets w b)" and "next_version (buckets w b) < 2 ^ 64"
    and "view J (buckets w) a pkg \<noteq> Corrupt" and "view J (buckets w) b pkg \<noteq> Corrupt"
    and "\<not> copy_via E a b" and "\<forall>u. \<not> fenced E u" and "is_artifact f" and "CHR ''/'' \<notin> set f"
    and "holds_record sha S (buckets w a) (artifact_key pkg f) sc body" and "origin sc = Some PRIVATE"
    and "unat (size sc) \<le> STAGE_TO_DISK_ABOVE" and "length body \<le> STAGE_TO_DISK_ABOVE"
    and "no_record (buckets w b) (artifact_key pkg f)"
  shows "\<exists>w' ra rb. converge_once E sha J S M a b pkg f w = (Inr Converged, w')
    \<and> buckets w' a = buckets w a \<and> view J (buckets w') b pkg = Claimed Private
    \<and> holds_record sha S (buckets w' b) (artifact_key pkg f) sc body
    \<and> (\<forall>k. k \<notin> copy_keys pkg (artifact_key pkg f) \<union> dirty_keys \<longrightarrow> object_at (buckets w' b) k = object_at (buckets w b) k)
    \<and> read_record J S a pkg f w' = (Inr ra, w') \<and> read_record J S b pkg f w' = (Inr rb, w')
    \<and> decide (enc_sidecar S) sha ra rb = Noop"
proof -
  let ?a = "artifact_key pkg f"
  let ?rec = "\<lambda>u i. record_of S (buckets u i) pkg f (claim_of (view J (buckets u) i pkg))"
  obtain u where live: "classify_record (?rec w a) = Live (sha256 sc) PrivateO u"
    using holds_record_live(1) [OF assms(14,15)] by blast
  have "read_record J S a pkg f w = (Inr (?rec w a), w)"
    by (rule read_record_quiet [OF assms(3,5,13,8) holds_record_live(5) [OF assms(14,15)]])
  moreover have "read_record J S b pkg f w = (Inr (?rec w b), w)"
    by (rule read_record_quiet [OF assms(3,6,13,9)]) (use no_record_at(2) [OF assms(18)] in \<open>simp add: readable_sidecar_def\<close>)
  ultimately have once: "converge_once E sha J S M a b pkg f w = execute E sha J S M a b pkg f (?rec w a) (?rec w b) (CopyV SideA) Bucket w"
    using absent_destination_copies [OF live assms(18)] by (simp add: converge_once_def andThen_def)
  obtain w' where w': "execute E sha J S M a b pkg f (?rec w a) (?rec w b) (CopyV SideA) Bucket w = (Inr Converged, w')"
      "touches b (copy_keys pkg ?a \<union> dirty_keys) w w'" "copied S (buckets w' b) ?a sc body" "view J (buckets w') b pkg = Claimed Private"
    using execute_copy_quiet [OF assms(1,3,6,7,9,4,10-18) source_ok_simps(1)] by blast
  have same: "buckets w' a = buckets w a" "script w' = []" "store_wf (buckets w' b)"
    using w'(2) assms(4) by (simp_all add: touches_def)
  have "sha256_hex sha body = sha256 sc"
    using assms(14) by (simp add: holds_record_def)
  then have held: "holds_record sha S (buckets w' b) ?a sc body"
    using copied_holds [OF w'(3) assms(2)] by simp
  have view: "view J (buckets w') a pkg \<noteq> Corrupt" "view J (buckets w') b pkg \<noteq> Corrupt"
    using assms(8) w'(4) same(1) by (simp_all add: view_def)
  have held_a: "holds_record sha S (buckets w' a) ?a sc body"
    using assms(14) same(1) by simp
  have reads: "read_record J S a pkg f w' = (Inr (?rec w' a), w')" "read_record J S b pkg f w' = (Inr (?rec w' b), w')"
    using read_record_quiet [OF same(2) _ assms(13) view(1) holds_record_live(5) [OF held_a assms(15)]] assms(5) same(1)
      read_record_quiet [OF same(2,3) assms(13) view(2) holds_record_live(5) [OF held assms(15)]] by simp_all
  obtain u1 u2 where "classify_record (?rec w' a) = Live (sha256 sc) PrivateO u1" "classify_record (?rec w' b) = Live (sha256 sc) PrivateO u2"
    using holds_record_live(1) [OF held_a assms(15)] holds_record_live(1) [OF held assms(15)] by blast
  then have "decide (enc_sidecar S) sha (?rec w' a) (?rec w' b) = Noop"
    by (rule same_record_noop) (use holds_record_live(2) [OF held_a assms(15)] holds_record_live(2) [OF held assms(15)] in auto)
  then show ?thesis
    using once w'(1,4) same(1) held touches_at [OF w'(2)] reads by auto
qed

definition shipped :: sidecar where
  "shipped = Decide.sample_sidecar (sha256_hex (\<lambda>x. x) ''body'') PRIVATE 1 (Flag False)"

definition shipped_codec :: sidecar_codec where
  "shipped_codec = \<lparr>enc_sidecar = (\<lambda>_. ''sc''), dec_sidecar = (\<lambda>_. Some shipped)\<rparr>"

definition shipping_bucket :: inner where
  "shipping_bucket =
     (let a = artifact_key ''six'' ''six-2.whl'' in
      snd (store (\<lambda>x. x) (sidecar_key a) ''sc'' (snd (store (\<lambda>x. x) a ''body'' (inner_default 0)))))"

theorem copy_converges_witness:
  "\<exists>w'. converge_once streaming (\<lambda>x. x) plain_codec shipped_codec plain_markers 0 1 ''six'' ''six-2.whl''
        (quiet (\<lambda>i. if i = 0 then shipping_bucket else inner_default 0)) = (Inr Converged, w')
     \<and> holds_record (\<lambda>x. x) shipped_codec (buckets w' 1) (artifact_key ''six'' ''six-2.whl'') shipped ''body''"
proof -
  let ?w = "quiet (\<lambda>i. if i = 0 then shipping_bucket else inner_default 0)" and ?a = "artifact_key ''six'' ''six-2.whl''"
  have art: "is_artifact ''six-2.whl''" "CHR ''/'' \<notin> set ''six-2.whl''"
    by code_simp+
  have at: "object_at shipping_bucket k = (if k = sidecar_key ?a then Some \<lparr>obj_bytes = ''sc'', obj_etag = version_etag 1, last_modified = 0\<rparr>
      else if k = ?a then Some \<lparr>obj_bytes = ''body'', obj_etag = version_etag 0, last_modified = 0\<rparr> else None)" for k
    by (simp add: shipping_bucket_def Let_def object_at_store next_version_store) (simp add: inner_default_def store_def Let_def bt.get_empty)
  have "origin_key ''six'' \<noteq> ?a" "origin_key ''six'' \<noteq> sidecar_key ?a"
    using origin_key_artifact [OF art, of "[]" "''six''"] origin_key_artifact [OF art, of SIDECAR_SUFFIX "''six''"]
    by (auto simp: marker_suffixes_def key_defs)
  then have views: "view plain_codec (buckets ?w) 0 ''six'' = Absent" "view plain_codec (buckets ?w) 1 ''six'' = Absent"
    by (simp_all add: view_def quiet_def at bt.get_empty)
  have held: "holds_record (\<lambda>x. x) shipped_codec (buckets ?w 0) ?a shipped ''body''"
    by (simp add: holds_record_def quiet_def at contains_key_def shipped_codec_def) (simp add: shipped_def Decide.sample_sidecar_def)
  have "store_wf shipping_bucket"
    by (simp add: shipping_bucket_def Let_def store_wf_store store_wf_default)
  then have wf: "store_wf (buckets ?w 0)" "store_wf (buckets ?w 1)"
    by (simp_all add: quiet_def store_wf_default)
  have sc: "dec_sidecar shipped_codec (enc_sidecar shipped_codec shipped) = Some shipped" "origin shipped = Some PRIVATE"
    "unat (size shipped) \<le> STAGE_TO_DISK_ABOVE" "length ''body'' \<le> STAGE_TO_DISK_ABOVE"
    by (simp_all add: shipped_codec_def shipped_def Decide.sample_sidecar_def STAGE_TO_DISK_ABOVE_def)
  have env: "\<not> copy_via streaming 0 1" "\<forall>u. \<not> fenced streaming u"
    by (simp_all add: streaming_def)
  have free: "no_record (buckets ?w 1) ?a" "next_version (buckets ?w 1) < 2 ^ 64" "script ?w = []"
    by (simp_all add: no_record_def quiet_def bt.get_empty)
  show ?thesis
    using copy_converges [OF plain_codec_ok sc(1) free(3) zero_neq_one wf free(2) _ _ env art held sc(2-4) free(1), of plain_markers] views
    by auto
qed

end
