(* ===== verification/Removal_Gate.thy ===== *)
theory Removal_Gate
  imports Fences Interleaving
begin

text \<open>
  The gate of \<open>buckets migrate\<close> (\<open>artifacts_unique_to_removed\<close> of \<open>src/replicate.rs\<close>): before a bucket
  is dropped from the fleet, a linear merge of paged listings looks for artifacts and fences that no
  surviving bucket holds. The scan of a surviving bucket is a cursor that only moves forward. Loops
  take fuel; one more than the number of objects of each bucket is enough.
\<close>

section \<open>Definitions\<close>

definition REMOVAL_DIFF_PAGE :: nat where "REMOVAL_DIFF_PAGE = 1000"

record paged_keys =
  pk_after :: "string option"
  pk_buf :: "string list"
  pk_done :: bool

definition paged_keys_new :: paged_keys where
  "paged_keys_new = \<lparr>pk_after = None, pk_buf = [], pk_done = False\<rparr>"

definition pk_fill :: "bucket_id \<Rightarrow> paged_keys \<Rightarrow> paged_keys act" where
  "pk_fill b st =
     (if pk_buf st = [] \<and> \<not> pk_done st then
        andThen (list_page b PACKAGES_PREFIX (pk_after st) REMOVAL_DIFF_PAGE) (\<lambda>page.
          ret \<lparr>pk_after = (if page = [] then None else Some (om_key (last page))),
               pk_buf = map om_key page,
               pk_done = (pk_done st \<or> length page < REMOVAL_DIFF_PAGE)\<rparr>)
      else ret st)"

fun pk_contains :: "nat \<Rightarrow> bucket_id \<Rightarrow> paged_keys \<Rightarrow> string \<Rightarrow> (bool \<times> paged_keys) act" where
  "pk_contains 0 b st target = fail (Bail ''out of fuel'')"
| "pk_contains (Suc fuel) b st target =
     andThen (pk_fill b st) (\<lambda>st'.
       case pk_buf st' of
         [] \<Rightarrow> ret (False, st')
       | front # rest \<Rightarrow>
           if front < target then pk_contains fuel b (st'\<lparr>pk_buf := rest\<rparr>) target
           else ret (front = target, st'))"

text \<open>Survivors are asked in order, until one holds the key.\<close>

fun on_a_survivor :: "nat \<Rightarrow> string \<Rightarrow> (bucket_id \<times> paged_keys) list \<Rightarrow> (bool \<times> (bucket_id \<times> paged_keys) list) act" where
  "on_a_survivor fuel target [] = ret (False, [])"
| "on_a_survivor fuel target ((b, st) # svs) =
     andThen (pk_contains fuel b st target) (\<lambda>(found, st').
       if found then ret (True, (b, st') # svs)
       else andThen (on_a_survivor fuel target svs) (\<lambda>(present, svs'). ret (present, (b, st') # svs')))"

definition last_segment :: "string \<Rightarrow> string" where
  "last_segment key = last (split_on CHR ''/'' key)"

definition counts_for_removal :: "string \<Rightarrow> bool" where
  "counts_for_removal key =
     (let filename = last_segment key;
          fence = list_ex (ends_with filename) [TOMBSTONE_SUFFIX, FROZEN_SUFFIX, MIRROR_QUARANTINED_SUFFIX]
      in fence \<or> is_artifact filename)"

text \<open>One page of the removed bucket; the flag says the sample is full.\<close>

fun check_page ::
  "nat \<Rightarrow> nat \<Rightarrow> string list \<Rightarrow> (bucket_id \<times> paged_keys) list \<Rightarrow> string list
    \<Rightarrow> (bool \<times> (bucket_id \<times> paged_keys) list \<times> string list) act" where
  "check_page fuel cap [] svs samples = ret (False, svs, samples)"
| "check_page fuel cap (key # keys) svs samples =
     (if \<not> counts_for_removal key then check_page fuel cap keys svs samples
      else
        andThen (on_a_survivor fuel key svs) (\<lambda>(present, svs').
          if present then check_page fuel cap keys svs' samples
          else if length (samples @ [key]) \<ge> cap then ret (True, svs', samples @ [key])
          else check_page fuel cap keys svs' (samples @ [key])))"

fun unique_loop ::
  "nat \<Rightarrow> nat \<Rightarrow> nat \<Rightarrow> bucket_id \<Rightarrow> string option \<Rightarrow> (bucket_id \<times> paged_keys) list \<Rightarrow> string list \<Rightarrow> string list act" where
  "unique_loop 0 inner cap removed aft svs samples = fail (Bail ''out of fuel'')"
| "unique_loop (Suc fuel) inner cap removed aft svs samples =
     andThen (list_page removed PACKAGES_PREFIX aft REMOVAL_DIFF_PAGE) (\<lambda>page.
       if page = [] then ret samples
       else
         andThen (check_page inner cap (map om_key page) svs samples) (\<lambda>(filled, svs', samples').
           if filled then ret samples'
           else if length page \<ge> REMOVAL_DIFF_PAGE
           then unique_loop fuel inner cap removed (Some (om_key (last page))) svs' samples'
           else ret samples'))"

definition artifacts_unique_to_removed :: "nat \<Rightarrow> bucket_id \<Rightarrow> bucket_id list \<Rightarrow> nat \<Rightarrow> string list act" where
  "artifacts_unique_to_removed fuel removed survivors sample_cap =
     unique_loop fuel fuel sample_cap removed None (map (\<lambda>b. (b, paged_keys_new)) survivors) []"

section \<open>Pages of a quiet bucket\<close>

definition pkg_keys :: "inner \<Rightarrow> string list" where
  "pkg_keys s = map fst (prefix_range s PACKAGES_PREFIX)"

definition past :: "string option \<Rightarrow> string \<Rightarrow> bool" where
  "past aft k = (case aft of None \<Rightarrow> True | Some a \<Rightarrow> a < k)"

lemma past_Some: "past (Some a) k \<longleftrightarrow> a < k"
  by (simp add: past_def)

lemma pkg_keys_sorted: "store_wf s \<Longrightarrow> sorted_wrt (<) (pkg_keys s)"
  by (simp add: pkg_keys_def prefix_range_sorted)

lemma pkg_keys_iff: "store_wf s \<Longrightarrow> k \<in> set (pkg_keys s) \<longleftrightarrow> starts_with k PACKAGES_PREFIX \<and> contains_key s k"
  using prefix_range_set [of s k _ PACKAGES_PREFIX] by (auto simp: pkg_keys_def image_iff contains_key_def Bex_def)

lemma length_pkg_keys: "length (pkg_keys s) \<le> length (objects s)"
  by (simp add: pkg_keys_def prefix_range_def) (meson length_dropWhile_le length_takeWhile_le order_trans)

lemma list_page_keys:
  assumes "script w = []"
  shows "\<exists>page. list_page b PACKAGES_PREFIX aft n w = (Inr page, w) \<and> map om_key page = take n (filter (past aft) (pkg_keys (buckets w b)))"
  unfolding list_page_def
  by (subst read_call_quiet [OF assms])
    (simp_all add: pkg_keys_def take_map filter_map comp_def meta_of_def past_def)

lemma le_last:
  fixes xs :: "'a :: linorder list"
  assumes "sorted_wrt (<) xs" and "k \<in> set xs"
  shows "k \<le> last xs"
  using assms by (induction xs) (auto intro: order_less_imp_le)

text \<open>The next page starts where the last one ended.\<close>

lemma filter_past_last:
  assumes "sorted_wrt (<) xs" and "take n (filter (past aft) xs) \<noteq> []"
  shows "filter (past (Some (last (take n (filter (past aft) xs))))) xs = drop n (filter (past aft) xs)"
proof -
  let ?ys = "filter (past aft) xs"
  let ?l = "last (take n ?ys)"
  have sorted: "sorted_wrt (<) (take n ?ys @ drop n ?ys)"
    using assms(1) by (simp add: sorted_wrt_filter)
  have l: "?l \<in> set (take n ?ys)"
    using assms(2) by simp
  then have "past aft ?l"
    using in_set_takeD [OF l] by simp
  then have more: "past aft k" if "?l < k" for k
    using that by (auto simp: past_def split: option.splits)
  have "filter (past (Some ?l)) xs = filter (past (Some ?l)) ?ys"
    unfolding filter_filter past_Some using more by (blast intro: filter_cong)
  also have "\<dots> = filter (past (Some ?l)) (take n ?ys) @ filter (past (Some ?l)) (drop n ?ys)"
    by (metis append_take_drop_id filter_append)
  also have "filter (past (Some ?l)) (drop n ?ys) = drop n ?ys"
    unfolding past_Some filter_id_conv using sorted l unfolding sorted_wrt_append by blast
  also have "filter (past (Some ?l)) (take n ?ys) = []"
  proof -
    have "k \<le> ?l" if "k \<in> set (take n ?ys)" for k
      using le_last [OF _ that] sorted by (simp add: sorted_wrt_append)
    then show ?thesis
      unfolding filter_empty_conv past_Some by (meson not_le)
  qed
  finally show ?thesis
    by simp
qed

section \<open>A forward cursor\<close>

definition remaining :: "inner \<Rightarrow> paged_keys \<Rightarrow> string list" where
  "remaining s st = pk_buf st @ (if pk_done st then [] else filter (past (pk_after st)) (pkg_keys s))"

lemma pk_fill_quiet:
  assumes "script w = []" and "store_wf (buckets w b)"
  shows "\<exists>st'. pk_fill b st w = (Inr st', w) \<and> remaining (buckets w b) st' = remaining (buckets w b) st
    \<and> (pk_buf st' = [] \<longrightarrow> remaining (buckets w b) st' = [])"
proof (cases "pk_buf st = [] \<and> \<not> pk_done st")
  case True
  let ?ys = "filter (past (pk_after st)) (pkg_keys (buckets w b))" and ?n = REMOVAL_DIFF_PAGE
  obtain page where page: "list_page b PACKAGES_PREFIX (pk_after st) ?n w = (Inr page, w)" "map om_key page = take ?n ?ys"
    using list_page_keys [OF assms(1)] by blast
  let ?st = "\<lparr>pk_after = (if page = [] then None else Some (om_key (last page))), pk_buf = map om_key page, pk_done = length page < ?n\<rparr>"
  have run: "pk_fill b st w = (Inr ?st, w)"
    using True page(1) by (simp add: pk_fill_def andThen_def ret_def)
  have len: "length page = min ?n (length ?ys)"
    using arg_cong [OF page(2), of length] by (simp add: min.commute)
  have "remaining (buckets w b) ?st = ?ys"
  proof (cases "length page < ?n")
    case True
    then have "take ?n ?ys = ?ys"
      using len by (simp add: min_def split: if_splits)
    then show ?thesis
      using True page(2) by (simp add: remaining_def)
  next
    case False
    then have "page \<noteq> []" and full: "\<not> length page < ?n"
      by (auto simp: REMOVAL_DIFF_PAGE_def)
    then have "take ?n ?ys \<noteq> []" and l: "om_key (last page) = last (take ?n ?ys)"
      using page(2) by (metis map_is_Nil_conv, metis last_map)
    then show ?thesis
      using filter_past_last [OF pkg_keys_sorted [OF assms(2)], of ?n "pk_after st"] full \<open>page \<noteq> []\<close> page(2)
      by (simp add: remaining_def)
  qed
  moreover have "remaining (buckets w b) st = ?ys"
    using True by (simp add: remaining_def)
  moreover have "?ys = []" if "page = []"
    using that page(2) by (auto simp: REMOVAL_DIFF_PAGE_def)
  ultimately show ?thesis
    using run by auto
qed (auto simp: pk_fill_def ret_def remaining_def)

lemma pk_contains_quiet:
  assumes "script w = []" and "store_wf (buckets w b)" and "length (remaining (buckets w b) st) < fuel"
  shows "\<exists>st'. pk_contains fuel b st target w =
      (Inr ((case dropWhile (\<lambda>k. k < target) (remaining (buckets w b) st) of [] \<Rightarrow> False | k # _ \<Rightarrow> k = target), st'), w)
    \<and> remaining (buckets w b) st' = dropWhile (\<lambda>k. k < target) (remaining (buckets w b) st)"
  using assms(3)
proof (induction fuel arbitrary: st)
  case (Suc fuel)
  obtain st' where fill: "pk_fill b st w = (Inr st', w)" "remaining (buckets w b) st' = remaining (buckets w b) st"
      "pk_buf st' = [] \<longrightarrow> remaining (buckets w b) st' = []"
    using pk_fill_quiet [OF assms(1,2)] by blast
  show ?case
  proof (cases "pk_buf st'")
    case Nil
    then show ?thesis
      using fill by (auto simp: andThen_def ret_def)
  next
    case (Cons k ks)
    let ?st = "st'\<lparr>pk_buf := ks\<rparr>"
    have rem: "remaining (buckets w b) st = k # remaining (buckets w b) ?st"
      using Cons by (subst fill(2) [symmetric]) (simp add: remaining_def)
    show ?thesis
    proof (cases "k < target")
      case True
      then show ?thesis
        using Suc.IH [of ?st] Suc.prems Cons fill(1) by (auto simp: andThen_def rem)
    next
      case False
      then show ?thesis
        using Cons fill(1,2) by (auto simp: andThen_def ret_def rem)
    qed
  qed
qed simp

text \<open>\<open>tracks s t st\<close>: the cursor has not passed any key from \<open>t\<close> on.\<close>

definition tracks :: "inner \<Rightarrow> string \<Rightarrow> paged_keys \<Rightarrow> bool" where
  "tracks s t st = (sorted_wrt (<) (remaining s st) \<and> length (remaining s st) \<le> length (pkg_keys s)
     \<and> (\<forall>k. t \<le> k \<longrightarrow> (k \<in> set (remaining s st) \<longleftrightarrow> k \<in> set (pkg_keys s))))"

lemma tracks_new: "store_wf s \<Longrightarrow> tracks s t paged_keys_new"
  by (simp add: tracks_def remaining_def paged_keys_new_def pkg_keys_sorted past_def)

lemma tracks_later: "tracks s t st \<Longrightarrow> t \<le> t' \<Longrightarrow> tracks s t' st"
  by (auto simp: tracks_def)

lemma dropWhile_below:
  fixes t :: "'a :: linorder"
  assumes "sorted_wrt (<) xs"
  shows "set (dropWhile (\<lambda>k. k < t) xs) = {k \<in> set xs. t \<le> k}"
proof -
  have "dropWhile (\<lambda>k. k < t) xs = filter (\<lambda>k. \<not> k < t) xs"
    by (rule dropWhile_eq_filter_upward [OF assms]) auto
  then show ?thesis
    by auto
qed

lemma head_of_dropWhile:
  fixes t :: "'a :: linorder"
  assumes "sorted_wrt (<) xs"
  shows "(case dropWhile (\<lambda>k. k < t) xs of [] \<Rightarrow> False | k # _ \<Rightarrow> k = t) \<longleftrightarrow> t \<in> set xs"
proof (cases "dropWhile (\<lambda>k. k < t) xs")
  case Nil
  then show ?thesis
    using dropWhile_below [OF assms, of t] unfolding Nil by auto
next
  case (Cons k ks)
  then have k: "t \<le> k" "k \<in> set xs"
    using dropWhile_below [OF assms, of t] by auto
  have "sorted_wrt (<) (k # ks)"
    using assms by (metis Cons sorted_wrt_append takeWhile_dropWhile_id)
  then have "k \<le> t" if "t \<in> set xs"
    using that dropWhile_below [OF assms, of t] Cons by force
  then show ?thesis
    using Cons k by auto
qed

lemma tracks_contains:
  assumes "script w = []" and "store_wf (buckets w b)" and "tracks (buckets w b) t st" and "t \<le> target"
    and "length (pkg_keys (buckets w b)) < fuel"
  shows "\<exists>st'. pk_contains fuel b st target w = (Inr (target \<in> set (pkg_keys (buckets w b)), st'), w) \<and> tracks (buckets w b) target st'"
proof -
  let ?rem = "remaining (buckets w b) st"
  have sorted: "sorted_wrt (<) ?rem" and len: "length ?rem < fuel"
    using assms(3,5) by (simp_all add: tracks_def)
  obtain st' where st': "pk_contains fuel b st target w =
      (Inr ((case dropWhile (\<lambda>k. k < target) ?rem of [] \<Rightarrow> False | k # _ \<Rightarrow> k = target), st'), w)"
      "remaining (buckets w b) st' = dropWhile (\<lambda>k. k < target) ?rem"
    using pk_contains_quiet [OF assms(1,2) len] by blast
  have "sorted_wrt (<) (dropWhile (\<lambda>k. k < target) ?rem)"
    using sorted by (metis sorted_wrt_append takeWhile_dropWhile_id)
  moreover have "length (dropWhile (\<lambda>k. k < target) ?rem) \<le> length (pkg_keys (buckets w b))"
    using assms(3) length_dropWhile_le [of "\<lambda>k. k < target" ?rem] by (simp add: tracks_def)
  ultimately have "tracks (buckets w b) target st'"
    using assms(3,4) st'(2) dropWhile_below [OF sorted, of target] by (auto simp: tracks_def)
  then show ?thesis
    using st'(1) head_of_dropWhile [OF sorted, of target] assms(3,4) by (auto simp: tracks_def)
qed

section \<open>Asking every survivor\<close>

definition tracked :: "nat \<Rightarrow> world \<Rightarrow> string \<Rightarrow> (bucket_id \<times> paged_keys) list \<Rightarrow> bool" where
  "tracked fuel w t svs = (\<forall>(b, st) \<in> set svs. store_wf (buckets w b) \<and> tracks (buckets w b) t st \<and> length (pkg_keys (buckets w b)) < fuel)"

definition on_some :: "world \<Rightarrow> bucket_id list \<Rightarrow> string \<Rightarrow> bool" where
  "on_some w bs k = (\<exists>b \<in> set bs. k \<in> set (pkg_keys (buckets w b)))"

lemma tracked_later: "tracked fuel w t svs \<Longrightarrow> t \<le> t' \<Longrightarrow> tracked fuel w t' svs"
  unfolding tracked_def using tracks_later by fastforce

lemma tracked_Cons:
  "tracked fuel w t ((b, st) # svs) \<longleftrightarrow>
     store_wf (buckets w b) \<and> tracks (buckets w b) t st \<and> length (pkg_keys (buckets w b)) < fuel \<and> tracked fuel w t svs"
  by (auto simp: tracked_def)

lemma on_a_survivor_quiet:
  assumes "script w = []" and "tracked fuel w t svs" and "t \<le> target"
  shows "\<exists>svs'. on_a_survivor fuel target svs w = (Inr (on_some w (map fst svs) target, svs'), w)
    \<and> map fst svs' = map fst svs \<and> tracked fuel w target svs'"
  using assms(2)
proof (induction svs)
  case Nil
  then show ?case
    by (simp add: ret_def on_some_def tracked_def)
next
  case (Cons sv svs)
  obtain b st where sv: "sv = (b, st)"
    by (cases sv)
  have here: "store_wf (buckets w b)" "tracks (buckets w b) t st" "length (pkg_keys (buckets w b)) < fuel"
    and rest: "tracked fuel w t svs"
    using Cons.prems by (simp_all add: sv tracked_Cons)
  obtain st' where st': "pk_contains fuel b st target w = (Inr (target \<in> set (pkg_keys (buckets w b)), st'), w)"
      "tracks (buckets w b) target st'"
    using tracks_contains [OF assms(1) here(1,2) assms(3) here(3)] by blast
  show ?case
  proof (cases "target \<in> set (pkg_keys (buckets w b))")
    case True
    then show ?thesis
      using st' here tracked_later [OF rest assms(3)]
      by (simp add: sv andThen_def ret_def on_some_def tracked_Cons)
  next
    case False
    obtain svs' where "on_a_survivor fuel target svs w = (Inr (on_some w (map fst svs) target, svs'), w)"
        "map fst svs' = map fst svs" "tracked fuel w target svs'"
      using Cons.IH [OF rest] by blast
    then show ?thesis
      using False st' here by (simp add: sv andThen_def ret_def on_some_def tracked_Cons)
  qed
qed

definition only_on_removed :: "world \<Rightarrow> bucket_id list \<Rightarrow> string list \<Rightarrow> string list" where
  "only_on_removed w bs keys = filter (\<lambda>k. counts_for_removal k \<and> \<not> on_some w bs k) keys"

text \<open>The sample is cut at the first length that reaches the cap, which is one where the cap is zero.\<close>

lemma check_page_quiet:
  assumes "script w = []" and "tracked fuel w t svs" and "sorted_wrt (<) (keys @ later)" and "\<forall>k \<in> set (keys @ later). t \<le> k"
    and "length samples < max 1 cap"
  shows "\<exists>svs' t'. check_page fuel cap keys svs samples w =
      (Inr (max 1 cap \<le> length (samples @ only_on_removed w (map fst svs) keys), svs',
            take (max 1 cap) (samples @ only_on_removed w (map fst svs) keys)), w)
    \<and> map fst svs' = map fst svs \<and> tracked fuel w t' svs' \<and> (\<forall>k \<in> set later. t' \<le> k)"
  using assms(2-5)
proof (induction keys arbitrary: t svs samples)
  case Nil
  then show ?case
    by (auto simp: ret_def only_on_removed_def)
next
  case (Cons key keys)
  have sorted: "sorted_wrt (<) (keys @ later)" and above: "\<forall>k \<in> set (keys @ later). key \<le> k" and key: "t \<le> key"
    using Cons.prems(2,3) by (auto intro: order_less_imp_le)
  show ?case
  proof (cases "counts_for_removal key")
    case False
    have "\<forall>k \<in> set (keys @ later). t \<le> k"
      using Cons.prems(3) by simp
    from Cons.IH [OF Cons.prems(1) sorted this Cons.prems(4)] False show ?thesis
      by (simp add: only_on_removed_def)
  next
    case True
    obtain svs1 where svs1: "on_a_survivor fuel key svs w = (Inr (on_some w (map fst svs) key, svs1), w)"
        "map fst svs1 = map fst svs" "tracked fuel w key svs1"
      using on_a_survivor_quiet [OF assms(1) Cons.prems(1) key] by blast
    show ?thesis
    proof (cases "on_some w (map fst svs) key")
      case here: True
      from Cons.IH [OF svs1(3) sorted above Cons.prems(4)] True here svs1(1,2) show ?thesis
        by (simp add: only_on_removed_def andThen_def)
    next
      case missing: False
      show ?thesis
      proof (cases "cap \<le> length (samples @ [key])")
        case full: True
        have "max 1 cap = Suc (length samples)"
          using full Cons.prems(4) by (cases "cap = 0") auto
        moreover have "\<forall>k \<in> set later. key \<le> k"
          using above by simp
        ultimately show ?thesis
          using True missing full svs1 by (auto simp: only_on_removed_def andThen_def ret_def)
      next
        case room: False
        then have "length (samples @ [key]) < max 1 cap"
          by simp
        from Cons.IH [OF svs1(3) sorted above this] True missing room svs1(1,2) show ?thesis
          by (simp add: only_on_removed_def andThen_def)
      qed
    qed
  qed
qed

section \<open>The whole scan\<close>

lemma only_on_removed_append: "only_on_removed w bs (xs @ ys) = only_on_removed w bs xs @ only_on_removed w bs ys"
  by (simp add: only_on_removed_def)

lemma unique_loop_quiet:
  assumes "script w = []" and "store_wf (buckets w removed)" and "tracked inner w t svs"
    and "\<forall>k \<in> set (filter (past aft) (pkg_keys (buckets w removed))). t \<le> k"
    and "length samples < max 1 cap"
    and "length (filter (past aft) (pkg_keys (buckets w removed))) < fuel"
  shows "unique_loop fuel inner cap removed aft svs samples w =
    (Inr (take (max 1 cap) (samples @ only_on_removed w (map fst svs) (filter (past aft) (pkg_keys (buckets w removed))))), w)"
  using assms(3-6)
proof (induction fuel arbitrary: t svs aft samples)
  case (Suc fuel)
  let ?n = REMOVAL_DIFF_PAGE and ?keys = "pkg_keys (buckets w removed)"
  let ?ys = "filter (past aft) ?keys"
  have sorted: "sorted_wrt (<) (take ?n ?ys @ drop ?n ?ys)"
    using pkg_keys_sorted [OF assms(2)] by (simp add: sorted_wrt_filter)
  obtain page where page: "list_page removed PACKAGES_PREFIX aft ?n w = (Inr page, w)" "map om_key page = take ?n ?ys"
    using list_page_keys [OF assms(1)] by blast
  have len: "length page = min ?n (length ?ys)"
    using arg_cong [OF page(2), of length] by (simp add: min.commute)
  show ?case
  proof (cases "page = []")
    case True
    then have "?ys = []"
      using page(2) by (auto simp: REMOVAL_DIFF_PAGE_def)
    then show ?thesis
      using True page(1) Suc.prems(3) by (simp add: andThen_def ret_def only_on_removed_def)
  next
    case False
    let ?here = "samples @ only_on_removed w (map fst svs) (take ?n ?ys)"
    have above: "\<forall>k \<in> set (take ?n ?ys @ drop ?n ?ys). t \<le> k"
      using Suc.prems(2) by simp
    obtain svs' t' where checked: "check_page inner cap (map om_key page) svs samples w =
          (Inr (max 1 cap \<le> length ?here, svs', take (max 1 cap) ?here), w)"
        "map fst svs' = map fst svs" "tracked inner w t' svs'" "\<forall>k \<in> set (drop ?n ?ys). t' \<le> k"
      using check_page_quiet [OF assms(1) Suc.prems(1) sorted above Suc.prems(3)] page(2) by auto
    have all: "samples @ only_on_removed w (map fst svs) ?ys = ?here @ only_on_removed w (map fst svs) (drop ?n ?ys)"
      by (simp add: only_on_removed_append [symmetric])
    show ?thesis
    proof (cases "max 1 cap \<le> length ?here")
      case True
      then have "take (max 1 cap) (samples @ only_on_removed w (map fst svs) ?ys) = take (max 1 cap) ?here"
        unfolding all by (simp add: take_append)
      then show ?thesis
        using True False page(1) checked(1) by (simp add: andThen_def ret_def)
    next
      case room: False
      show ?thesis
      proof (cases "length page \<ge> ?n")
        case True
        have nonempty: "take ?n ?ys \<noteq> []" and l: "om_key (last page) = last (take ?n ?ys)"
          using False page(2) by (metis map_is_Nil_conv, metis last_map)
        have next_page: "filter (past (Some (om_key (last page)))) ?keys = drop ?n ?ys"
          unfolding l by (rule filter_past_last [OF pkg_keys_sorted [OF assms(2)] nonempty])
        have fuel: "length (drop ?n ?ys) < fuel"
          using Suc.prems(4) True len by (simp add: REMOVAL_DIFF_PAGE_def)
        have short: "length ?here < max 1 cap"
          using room by linarith
        have "unique_loop fuel inner cap removed (Some (om_key (last page))) svs' ?here w =
            (Inr (take (max 1 cap) (samples @ only_on_removed w (map fst svs) ?ys)), w)"
          using Suc.IH [OF checked(3) _ short, of "Some (om_key (last page))"] checked(2,4) fuel
          unfolding next_page all by simp
        moreover have "check_page inner cap (map om_key page) svs samples w = (Inr (False, svs', ?here), w)"
          using checked(1) room take_all [of ?here "max 1 cap"] short by (simp only: less_imp_le)
        ultimately show ?thesis
          using True False page(1) by (simp add: andThen_def del: take_append)
      next
        case short: False
        then have "drop ?n ?ys = []"
          using len by simp
        then show ?thesis
          using all room short False page(1) checked(1) by (simp add: andThen_def ret_def only_on_removed_def)
      qed
    qed
  qed
qed simp

lemma scan_fuel_enough:
  assumes "\<forall>b \<in> set (removed # survivors). store_wf (buckets w b) \<and> length (objects (buckets w b)) < fuel"
  shows "tracked fuel w [] (map (\<lambda>b. (b, paged_keys_new)) survivors)"
    and "length (pkg_keys (buckets w removed)) < fuel"
  using assms length_pkg_keys order_le_less_trans by (auto simp: tracked_def tracks_new) blast+

text \<open>
  C13: The removal gate of \<open>buckets migrate\<close> is exact. Over quiet buckets, with one more unit of fuel
  than any bucket has objects, the paged merge returns the artifacts and fences of the removed bucket
  that no surviving bucket holds, in listing order and cut at the sample cap (a cap of zero acts as
  one); and it returns the empty list exactly when every such key is on some survivor.
\<close>

theorem removal_gate_exact:
  assumes "script w = []"
    and "\<forall>b \<in> set (removed # survivors). store_wf (buckets w b) \<and> length (objects (buckets w b)) < fuel"
  shows "artifacts_unique_to_removed fuel removed survivors cap w =
      (Inr (take (max 1 cap)
         (filter (\<lambda>k. counts_for_removal k \<and> (\<forall>b \<in> set survivors. \<not> contains_key (buckets w b) k))
           (map fst (prefix_range (buckets w removed) PACKAGES_PREFIX)))), w)
    \<and> (artifacts_unique_to_removed fuel removed survivors cap w = (Inr [], w) \<longleftrightarrow>
      (\<forall>k. starts_with k PACKAGES_PREFIX \<and> contains_key (buckets w removed) k \<and> counts_for_removal k
        \<longrightarrow> (\<exists>b \<in> set survivors. contains_key (buckets w b) k)))"
proof -
  let ?keys = "pkg_keys (buckets w removed)"
  have wf: "store_wf (buckets w removed)" "\<forall>b \<in> set survivors. store_wf (buckets w b)"
    using assms(2) by simp_all
  have all: "filter (past None) ?keys = ?keys"
    by (simp add: past_def)
  have missing: "only_on_removed w survivors ?keys =
      filter (\<lambda>k. counts_for_removal k \<and> (\<forall>b \<in> set survivors. \<not> contains_key (buckets w b) k)) ?keys"
    unfolding only_on_removed_def
  proof (rule filter_cong [OF refl])
    fix k
    assume "k \<in> set ?keys"
    then have "starts_with k PACKAGES_PREFIX"
      using pkg_keys_iff [OF wf(1)] by simp
    then show "(counts_for_removal k \<and> \<not> on_some w survivors k) =
        (counts_for_removal k \<and> (\<forall>b \<in> set survivors. \<not> contains_key (buckets w b) k))"
      using wf(2) pkg_keys_iff by (auto simp: on_some_def)
  qed
  have run: "artifacts_unique_to_removed fuel removed survivors cap w = (Inr (take (max 1 cap) (only_on_removed w survivors ?keys)), w)"
    using unique_loop_quiet [where t = "[]" and aft = None and samples = "[]", OF assms(1) wf(1) scan_fuel_enough(1) [OF assms(2)]]
      scan_fuel_enough(2) [OF assms(2)]
    by (simp add: artifacts_unique_to_removed_def comp_def past_def)
  have "take (max 1 cap) xs = [] \<longleftrightarrow> xs = []" for xs :: "string list"
    by auto
  then have "artifacts_unique_to_removed fuel removed survivors cap w = (Inr [], w) \<longleftrightarrow>
      (\<forall>k. starts_with k PACKAGES_PREFIX \<and> contains_key (buckets w removed) k \<and> counts_for_removal k
        \<longrightarrow> (\<exists>b \<in> set survivors. contains_key (buckets w b) k))"
    unfolding run missing using pkg_keys_iff [OF wf(1)] by (auto simp: filter_empty_conv)
  with run show ?thesis
    by (simp add: missing pkg_keys_def [symmetric])
qed

definition old_bucket :: inner where
  "old_bucket =
     (let sha = \<lambda>x. x
      in snd (store sha (artifact_key ''six'' ''six-2.whl'') ''b''
           (snd (store sha (tombstone_key (artifact_key ''six'' ''six-1.whl'')) ''t'' (inner_default 0)))))"

definition new_bucket :: inner where
  "new_bucket = snd (store (\<lambda>x. x) (artifact_key ''six'' ''six-2.whl'') ''b'' (inner_default 0))"

theorem removal_gate_exact_witness:
  "artifacts_unique_to_removed 3 0 [1] 20 (quiet (\<lambda>i. if i = 0 then old_bucket else new_bucket)) =
     (Inr [tombstone_key (artifact_key ''six'' ''six-1.whl'')], quiet (\<lambda>i. if i = 0 then old_bucket else new_bucket))"
proof -
  let ?w = "quiet (\<lambda>i. if i = 0 then old_bucket else new_bucket)"
  have wf: "store_wf old_bucket" "store_wf new_bucket"
    by (simp_all add: old_bucket_def new_bucket_def Let_def store_wf_store store_wf_default)
  have "length (objects old_bucket) < 3" "length (objects new_bucket) < 3"
    by code_simp+
  moreover have "filter (\<lambda>k. counts_for_removal k \<and> (\<forall>b \<in> set [1]. \<not> contains_key (buckets ?w b) k))
      (map fst (prefix_range (buckets ?w 0) PACKAGES_PREFIX)) = [tombstone_key (artifact_key ''six'' ''six-1.whl'')]"
    by code_simp
  ultimately show ?thesis
    using removal_gate_exact [of ?w 0 "[1]" 3 20] wf by (simp add: quiet_def)
qed

end
