(* ===== verification/Ip_Addr.thy ===== *)
theory Ip_Addr
  imports Prelude Hash
begin

unbundle bit_operations_syntax

text \<open>
  What the sources use of \<open>std::net\<close>: addresses as octets and segments, their predicates, the IPv4
  addresses IPv6 addresses carry, and printing. No file of the repository defines these.
\<close>

section \<open>Definitions\<close>

subsection \<open>Addresses\<close>

type_synonym u8 = "8 word"
type_synonym u16 = "16 word"

datatype ipv4 = Ipv4 u8 u8 u8 u8
datatype ipv6 = Ipv6 u16 u16 u16 u16 u16 u16 u16 u16
datatype ip_addr = V4 ipv4 | V6 ipv6

fun v4_is_private :: "ipv4 \<Rightarrow> bool" where
  "v4_is_private (Ipv4 a b c d) = (a = 10 \<or> (a = 172 \<and> 16 \<le> b \<and> b \<le> 31) \<or> (a = 192 \<and> b = 168))"

fun v4_is_loopback :: "ipv4 \<Rightarrow> bool" where
  "v4_is_loopback (Ipv4 a b c d) = (a = 127)"

fun v4_is_link_local :: "ipv4 \<Rightarrow> bool" where
  "v4_is_link_local (Ipv4 a b c d) = (a = 169 \<and> b = 254)"

definition v4_is_unspecified :: "ipv4 \<Rightarrow> bool" where
  "v4_is_unspecified ip = (ip = Ipv4 0 0 0 0)"

definition v4_is_broadcast :: "ipv4 \<Rightarrow> bool" where
  "v4_is_broadcast ip = (ip = Ipv4 255 255 255 255)"

fun v4_is_multicast :: "ipv4 \<Rightarrow> bool" where
  "v4_is_multicast (Ipv4 a b c d) = (224 \<le> a \<and> a \<le> 239)"

definition high_byte :: "u16 \<Rightarrow> u8" where "high_byte s = ucast (drop_bit 8 s)"
definition low_byte :: "u16 \<Rightarrow> u8" where "low_byte s = ucast (s AND 0xff)"

fun v6_to_ipv4 :: "ipv6 \<Rightarrow> ipv4 option" where
  "v6_to_ipv4 (Ipv6 s0 s1 s2 s3 s4 s5 s6 s7) =
     (if s0 = 0 \<and> s1 = 0 \<and> s2 = 0 \<and> s3 = 0 \<and> s4 = 0 \<and> (s5 = 0 \<or> s5 = 0xffff)
      then Some (Ipv4 (high_byte s6) (low_byte s6) (high_byte s7) (low_byte s7)) else None)"

fun v6_to_ipv4_mapped :: "ipv6 \<Rightarrow> ipv4 option" where
  "v6_to_ipv4_mapped (Ipv6 s0 s1 s2 s3 s4 s5 s6 s7) =
     (if s0 = 0 \<and> s1 = 0 \<and> s2 = 0 \<and> s3 = 0 \<and> s4 = 0 \<and> s5 = 0xffff
      then Some (Ipv4 (high_byte s6) (low_byte s6) (high_byte s7) (low_byte s7)) else None)"

definition v6_is_loopback :: "ipv6 \<Rightarrow> bool" where
  "v6_is_loopback ip = (ip = Ipv6 0 0 0 0 0 0 0 1)"

definition v6_is_unspecified :: "ipv6 \<Rightarrow> bool" where
  "v6_is_unspecified ip = (ip = Ipv6 0 0 0 0 0 0 0 0)"

fun v6_is_multicast :: "ipv6 \<Rightarrow> bool" where
  "v6_is_multicast (Ipv6 s0 s1 s2 s3 s4 s5 s6 s7) = (s0 AND 0xff00 = 0xff00)"

subsection \<open>Printing an address\<close>

fun show_v4 :: "ipv4 \<Rightarrow> string" where
  "show_v4 (Ipv4 a b c d) = show_nat (unat a) @ ''.'' @ show_nat (unat b) @ ''.'' @ show_nat (unat c) @ ''.'' @ show_nat (unat d)"

fun show_hex :: "nat \<Rightarrow> string" where
  "show_hex n = (if n < 16 then [hex_digit n] else show_hex (n div 16) @ [hex_digit (n mod 16)])"

declare show_hex.simps [simp del]

fun fmt_subslice :: "u16 list \<Rightarrow> string" where
  "fmt_subslice [] = []"
| "fmt_subslice [s] = show_hex (unat s)"
| "fmt_subslice (s # ss) = show_hex (unat s) @ '':'' @ fmt_subslice ss"

text \<open>The first longest run of zero segments, as its start and its length.\<close>

fun longest_zeroes :: "nat \<Rightarrow> u16 list \<Rightarrow> nat \<times> nat \<Rightarrow> nat \<times> nat \<Rightarrow> nat \<times> nat" where
  "longest_zeroes i [] cur best = best"
| "longest_zeroes i (s # ss) (start, len) best =
     (if s = 0 then
        (let cur = (if len = 0 then i else start, len + 1)
         in longest_zeroes (i + 1) ss cur (if snd best < snd cur then cur else best))
      else longest_zeroes (i + 1) ss (0, 0) best)"

fun segments :: "ipv6 \<Rightarrow> u16 list" where
  "segments (Ipv6 s0 s1 s2 s3 s4 s5 s6 s7) = [s0, s1, s2, s3, s4, s5, s6, s7]"

definition show_v6 :: "ipv6 \<Rightarrow> string" where
  "show_v6 ip =
     (case v6_to_ipv4_mapped ip of
        Some v4 \<Rightarrow> ''::ffff:'' @ show_v4 v4
      | None \<Rightarrow>
          (let (start, len) = longest_zeroes 0 (segments ip) (0, 0) (0, 0)
           in if 1 < len then fmt_subslice (take start (segments ip)) @ ''::'' @ fmt_subslice (drop (start + len) (segments ip))
              else fmt_subslice (segments ip)))"

definition show_ip :: "ip_addr \<Rightarrow> string" where
  "show_ip ip = (case ip of V4 v4 \<Rightarrow> show_v4 v4 | V6 v6 \<Rightarrow> show_v6 v6)"

end
