(* ===== verification/Ssrf_Guard.thy ===== *)
theory Ssrf_Guard
  imports Ip_Addr
begin

unbundle bit_operations_syntax

text \<open>
  The guard on outbound requests (\<open>src/ssrf.rs\<close>): which addresses are forbidden, the check of a target
  before a request, the filtering resolver and the loop that follows redirects. Addresses are the
  octets and segments of the standard library, whose predicates and printing are modelled. The URL
  type, CIDR blocks, the HTTP client, the name service and the clock are parameters.
\<close>

section \<open>Definitions\<close>

subsection \<open>Forbidden addresses\<close>

fun nat64_embedded_v4 :: "ipv6 \<Rightarrow> ipv4 option" where
  "nat64_embedded_v4 (Ipv6 s0 s1 s2 s3 s4 s5 s6 s7) =
     (if s0 = 0x0064 \<and> s1 = 0xff9b \<and> (((s2 OR s3) OR s4) OR s5) = 0
      then Some (Ipv4 (high_byte s6) (low_byte s6) (high_byte s7) (low_byte s7)) else None)"

fun forbidden_v4 :: "ipv4 \<Rightarrow> bool" where
  "forbidden_v4 (Ipv4 a b c d) =
     (let v4 = Ipv4 a b c d
      in v4_is_private v4 \<or> v4_is_loopback v4 \<or> v4_is_link_local v4 \<or> v4_is_unspecified v4 \<or> v4_is_broadcast v4
        \<or> v4_is_multicast v4 \<or> a = 0 \<or> 240 \<le> a \<or> (a = 100 \<and> b AND 0xc0 = 64))"

fun forbidden_v6 :: "ipv6 \<Rightarrow> bool" where
  "forbidden_v6 (Ipv6 s0 s1 s2 s3 s4 s5 s6 s7) =
     (let v6 = Ipv6 s0 s1 s2 s3 s4 s5 s6 s7
      in case v6_to_ipv4 v6 of
           Some v4 \<Rightarrow> forbidden_v4 v4
         | None \<Rightarrow>
             (case nat64_embedded_v4 v6 of
                Some v4 \<Rightarrow> forbidden_v4 v4
              | None \<Rightarrow>
                  v6_is_loopback v6 \<or> v6_is_unspecified v6 \<or> v6_is_multicast v6
                  \<or> s0 AND 0xfe00 = 0xfc00 \<or> s0 AND 0xffc0 = 0xfe80))"

definition is_forbidden_ip :: "ip_addr \<Rightarrow> bool" where
  "is_forbidden_ip ip = (case ip of V4 v4 \<Rightarrow> forbidden_v4 v4 | V6 v6 \<Rightarrow> forbidden_v6 v6)"

subsection \<open>The guard\<close>

datatype host = Domain string | HostV4 ipv4 | HostV6 ipv6

text \<open>What the code uses of the crates \<open>url\<close> and \<open>ipnet\<close>.\<close>

record ('u, 'n) url_api =
  url_parse :: "string \<Rightarrow> 'u option"
  url_scheme :: "'u \<Rightarrow> string"
  url_host :: "'u \<Rightarrow> host option"
  url_host_str :: "'u \<Rightarrow> string option"
  url_join :: "'u \<Rightarrow> string \<Rightarrow> 'u option"
  net_parse :: "string \<Rightarrow> 'n option"
  net_contains :: "'n \<Rightarrow> ip_addr \<Rightarrow> bool"

datatype fetch_error = Blocked string | Failed string

record 'n guard =
  upstream_host :: "string option"
  allow_hosts :: "string set"
  allow_cidrs :: "'n list"

fun parse_cidrs :: "('u, 'n) url_api \<Rightarrow> string list \<Rightarrow> fetch_error + 'n list" where
  "parse_cidrs U [] = Inr []"
| "parse_cidrs U (raw # raws) =
     (case net_parse U raw of
        None \<Rightarrow> Inl (Failed ''not a valid CIDR'')
      | Some n \<Rightarrow> (case parse_cidrs U raws of Inl e \<Rightarrow> Inl e | Inr ns \<Rightarrow> Inr (n # ns)))"

definition guard_new :: "('u, 'n) url_api \<Rightarrow> string \<Rightarrow> string list \<Rightarrow> string list \<Rightarrow> fetch_error + 'n guard" where
  "guard_new U upstream hosts cidrs =
     (let up = (case url_parse U upstream of None \<Rightarrow> None | Some u \<Rightarrow> url_host_str U u)
      in case parse_cidrs U cidrs of
           Inl e \<Rightarrow> Inl e
         | Inr ns \<Rightarrow> Inr \<lparr>upstream_host = up, allow_hosts = set hosts, allow_cidrs = ns\<rparr>)"

definition host_exempt :: "'n guard \<Rightarrow> string \<Rightarrow> bool" where
  "host_exempt G h = (upstream_host G = Some h \<or> h \<in> allow_hosts G)"

definition ip_allowed :: "('u, 'n) url_api \<Rightarrow> 'n guard \<Rightarrow> ip_addr \<Rightarrow> bool" where
  "ip_allowed U G ip = (\<not> is_forbidden_ip ip \<or> list_ex (\<lambda>net. net_contains U net ip) (allow_cidrs G))"

definition check_ip :: "('u, 'n) url_api \<Rightarrow> 'n guard \<Rightarrow> ip_addr \<Rightarrow> fetch_error + unit" where
  "check_ip U G ip =
     (let exempt = host_exempt G (show_ip ip) \<or> host_exempt G (''['' @ show_ip ip @ '']'')
      in if exempt \<or> ip_allowed U G ip then Inr () else Inl (Blocked ''private/loopback/link-local address''))"

definition check_target :: "('u, 'n) url_api \<Rightarrow> 'n guard \<Rightarrow> 'u \<Rightarrow> fetch_error + unit" where
  "check_target U G url =
     (if url_scheme U url \<noteq> ''http'' \<and> url_scheme U url \<noteq> ''https'' then Inl (Blocked ''only http/https targets are allowed'')
      else case url_host U url of
        None \<Rightarrow> Inl (Blocked ''URL has no host'')
      | Some (Domain _) \<Rightarrow> Inr ()
      | Some (HostV4 v4) \<Rightarrow> check_ip U G (V4 v4)
      | Some (HostV6 v6) \<Rightarrow> check_ip U G (V6 v6))"

text \<open>The resolver, over what the name service answers.\<close>

definition guard_resolve :: "('u, 'n) url_api \<Rightarrow> 'n guard \<Rightarrow> (string \<Rightarrow> string + ip_addr list) \<Rightarrow> string \<Rightarrow> fetch_error + ip_addr list" where
  "guard_resolve U G lookup_host h =
     (let exempt = host_exempt G h
      in case lookup_host h of
           Inl e \<Rightarrow> Inl (Failed e)
         | Inr addrs \<Rightarrow>
             (let kept = filter (\<lambda>ip. exempt \<or> ip_allowed U G ip) addrs
              in if kept = [] then Inl (Failed ''resolves only to private/loopback addresses'') else Inr kept))"

subsection \<open>Following redirects\<close>

definition MAX_REDIRECTS :: nat where "MAX_REDIRECTS = 10"

record ('u, 'h) request =
  rq_url :: 'u
  rq_headers :: "'h list"
  rq_timeout :: "nat option"

record response =
  is_redirection :: bool
  location :: "bytes option"

text \<open>The network: a clock, the client's \<open>send\<close>, and the text check of a header value.\<close>

record ('u, 'h, 's) net_io =
  instant_now :: "'s \<Rightarrow> nat \<times> 's"
  send :: "('u, 'h) request \<Rightarrow> 's \<Rightarrow> (string + response) \<times> 's"
  header_to_str :: "bytes \<Rightarrow> string option"

text \<open>
  The loop returns its result, the network state, and the requests it issued, each with the instant
  the deadline was read.
\<close>

fun guarded_loop ::
  "('u, 'n) url_api \<Rightarrow> ('u, 'h, 's) net_io \<Rightarrow> 'n guard \<Rightarrow> nat option \<Rightarrow> (('u, 'h) request \<Rightarrow> 'u \<Rightarrow> ('u, 'h) request)
    \<Rightarrow> nat \<Rightarrow> 'u \<Rightarrow> 's \<Rightarrow> (fetch_error + response) \<times> 's \<times> (('u, 'h) request \<times> nat) list" where
  "guarded_loop U N G deadline decorate 0 current s = (Inl (Blocked ''too many redirects''), s, [])"
| "guarded_loop U N G deadline decorate (Suc n) current s =
     (case check_target U G current of
        Inl e \<Rightarrow> (Inl e, s, [])
      | Inr _ \<Rightarrow>
          (let req = decorate \<lparr>rq_url = current, rq_headers = [], rq_timeout = None\<rparr> current;
               (t, s1) = (case deadline of None \<Rightarrow> (0, s) | Some _ \<Rightarrow> instant_now N s)
           in if deadline \<noteq> None \<and> the deadline - t = 0 then (Inl (Failed ''timed out following redirects''), s1, [])
              else
                (let req' = (case deadline of None \<Rightarrow> req | Some d \<Rightarrow> req\<lparr>rq_timeout := Some (d - t)\<rparr>);
                     (answer, s2) = send N req' s1
                 in case answer of
                      Inl e \<Rightarrow> (Inl (Failed e), s2, [(req', t)])
                    | Inr resp \<Rightarrow>
                        if \<not> is_redirection resp then (Inr resp, s2, [(req', t)])
                        else (case location resp of
                          None \<Rightarrow> (Inr resp, s2, [(req', t)])
                        | Some raw \<Rightarrow>
                            (case header_to_str N raw of
                               None \<Rightarrow> (Inl (Failed ''redirect Location is not valid text''), s2, [(req', t)])
                             | Some loc \<Rightarrow>
                                 (case url_join U current loc of
                                    None \<Rightarrow> (Inl (Failed ''resolving redirect Location''), s2, [(req', t)])
                                  | Some u \<Rightarrow>
                                      (let (r, s3, later) = guarded_loop U N G deadline decorate n u s2
                                       in (r, s3, (req', t) # later))))))))"

definition guarded_get_with ::
  "('u, 'n) url_api \<Rightarrow> ('u, 'h, 's) net_io \<Rightarrow> 'n guard \<Rightarrow> 'u \<Rightarrow> nat option \<Rightarrow> (('u, 'h) request \<Rightarrow> 'u \<Rightarrow> ('u, 'h) request)
    \<Rightarrow> 's \<Rightarrow> (fetch_error + response) \<times> 's \<times> (('u, 'h) request \<times> nat) list" where
  "guarded_get_with U N G url budget decorate s =
     (case budget of
        None \<Rightarrow> guarded_loop U N G None decorate (MAX_REDIRECTS + 1) url s
      | Some b \<Rightarrow> (let (t0, s1) = instant_now N s in guarded_loop U N G (Some (t0 + b)) decorate (MAX_REDIRECTS + 1) url s1))"

definition guarded_get ::
  "('u, 'n) url_api \<Rightarrow> ('u, 'h, 's) net_io \<Rightarrow> 'n guard \<Rightarrow> 'u \<Rightarrow> nat option \<Rightarrow> 's
    \<Rightarrow> (fetch_error + response) \<times> 's \<times> (('u, 'h) request \<times> nat) list" where
  "guarded_get U N G url budget = guarded_get_with U N G url budget (\<lambda>req _. req)"

section \<open>Address blocks\<close>

text \<open>Addresses as numbers; a block is a network and a prefix length.\<close>

fun v4_nat :: "ipv4 \<Rightarrow> nat" where
  "v4_nat (Ipv4 a b c d) = ((unat a * 256 + unat b) * 256 + unat c) * 256 + unat d"

definition segs_nat :: "u16 list \<Rightarrow> nat" where
  "segs_nat ss = foldl (\<lambda>n s. n * 65536 + unat s) 0 ss"

definition v6_nat :: "ipv6 \<Rightarrow> nat" where
  "v6_nat ip = segs_nat (segments ip)"

definition in_block :: "nat \<Rightarrow> nat \<Rightarrow> nat \<times> nat \<Rightarrow> bool" where
  "in_block width n blk = (case blk of (net, len) \<Rightarrow> n div 2 ^ (width - len) = net div 2 ^ (width - len))"

definition special_v4 :: "(nat \<times> nat) list" where
  "special_v4 =
     [(v4_nat (Ipv4 0 0 0 0), 8), (v4_nat (Ipv4 10 0 0 0), 8), (v4_nat (Ipv4 100 64 0 0), 10), (v4_nat (Ipv4 127 0 0 0), 8),
      (v4_nat (Ipv4 169 254 0 0), 16), (v4_nat (Ipv4 172 16 0 0), 12), (v4_nat (Ipv4 192 168 0 0), 16),
      (v4_nat (Ipv4 224 0 0 0), 4), (v4_nat (Ipv4 240 0 0 0), 4)]"

definition special_v6 :: "(nat \<times> nat) list" where
  "special_v6 = [(v6_nat (Ipv6 0xfc00 0 0 0 0 0 0 0), 7), (v6_nat (Ipv6 0xfe80 0 0 0 0 0 0 0), 10), (v6_nat (Ipv6 0xff00 0 0 0 0 0 0 0), 8)]"

definition embeds_v4 :: "(nat \<times> nat) list" where
  "embeds_v4 =
     [(v6_nat (Ipv6 0 0 0 0 0 0 0 0), 96), (v6_nat (Ipv6 0 0 0 0 0 0xffff 0 0), 96), (v6_nat (Ipv6 0x64 0xff9b 0 0 0 0 0 0), 96)]"

definition special4 :: "nat \<Rightarrow> bool" where
  "special4 n = list_ex (in_block 32 n) special_v4"

definition special6 :: "nat \<Rightarrow> bool" where
  "special6 n = (list_ex (in_block 128 n) special_v6 \<or> (list_ex (in_block 128 n) embeds_v4 \<and> special4 (n mod 2 ^ 32)))"

subsection \<open>Masks are prefixes\<close>

lemma and_high_mask:
  fixes w :: "'a :: len word"
  assumes "LENGTH('a) = n + m"
  shows "w AND push_bit n (mask m) = push_bit n (drop_bit n w)"
proof (rule bit_word_eqI)
  fix i
  assume "i < LENGTH('a)"
  then show "bit (w AND push_bit n (mask m)) i = bit (push_bit n (drop_bit n w)) i"
    using assms by (auto simp: bit_and_iff bit_push_bit_iff bit_drop_bit_eq bit_mask_iff)
qed

lemma push_bit_drop_bit_eq_iff:
  fixes w v :: "'a :: len word"
  assumes "n \<le> LENGTH('a)"
  shows "push_bit n (drop_bit n w) = push_bit n (drop_bit n v) \<longleftrightarrow> unat w div 2 ^ n = unat v div 2 ^ n"
proof -
  have "drop_bit n (push_bit n (drop_bit n x)) = drop_bit n x" for x :: "'a word"
    using assms by (auto simp: bit_eq_iff bit_push_bit_iff bit_drop_bit_eq dest: bit_imp_le_length)
  then have "push_bit n (drop_bit n w) = push_bit n (drop_bit n v) \<longleftrightarrow> drop_bit n w = drop_bit n v"
    by metis
  also have "\<dots> \<longleftrightarrow> unat w div 2 ^ n = unat v div 2 ^ n"
    by (simp only: word_unat_eq_iff unat_drop_bit_eq) (simp add: drop_bit_eq_div)
  finally show ?thesis .
qed

lemma cgnat_mask: "b AND 0xc0 = 64 \<longleftrightarrow> unat b div 64 = 1" for b :: u8
proof -
  have "(0xc0 :: u8) = push_bit 6 (mask 2)" "(64 :: u8) = push_bit 6 (drop_bit 6 64)"
    by code_simp+
  then show ?thesis
    using and_high_mask [where n = 6 and m = 2 and w = b] push_bit_drop_bit_eq_iff [where n = 6 and w = b and v = 64] by simp
qed

lemma seg_masks:
  fixes s :: u16
  shows "s AND 0xff00 = 0xff00 \<longleftrightarrow> unat s div 2 ^ 8 = 0xff"
    and "s AND 0xfe00 = 0xfc00 \<longleftrightarrow> unat s div 2 ^ 9 = 0x7e"
    and "s AND 0xffc0 = 0xfe80 \<longleftrightarrow> unat s div 2 ^ 6 = 0x3fa"
proof -
  have "(0xff00 :: u16) = push_bit 8 (mask 8)" "(0xff00 :: u16) = push_bit 8 (drop_bit 8 0xff00)"
    by code_simp+
  then show "s AND 0xff00 = 0xff00 \<longleftrightarrow> unat s div 2 ^ 8 = 0xff"
    using and_high_mask [where n = 8 and m = 8 and w = s] push_bit_drop_bit_eq_iff [where n = 8 and w = s and v = "0xff00"] by simp
next
  have "(0xfe00 :: u16) = push_bit 9 (mask 7)" "(0xfc00 :: u16) = push_bit 9 (drop_bit 9 0xfc00)"
    by code_simp+
  then show "s AND 0xfe00 = 0xfc00 \<longleftrightarrow> unat s div 2 ^ 9 = 0x7e"
    using and_high_mask [where n = 9 and m = 7 and w = s] push_bit_drop_bit_eq_iff [where n = 9 and w = s and v = "0xfc00"] by simp
next
  have "(0xffc0 :: u16) = push_bit 6 (mask 10)" "(0xfe80 :: u16) = push_bit 6 (drop_bit 6 0xfe80)"
    by code_simp+
  then show "s AND 0xffc0 = 0xfe80 \<longleftrightarrow> unat s div 2 ^ 6 = 0x3fa"
    using and_high_mask [where n = 6 and m = 10 and w = s] push_bit_drop_bit_eq_iff [where n = 6 and w = s and v = "0xfe80"] by simp
qed

lemma word8_lt: "unat (a :: u8) < 256"
  using unsigned_less [of a, where ?'a = nat] by simp

lemma word16_lt: "unat (s :: u16) < 65536"
  using unsigned_less [of s, where ?'a = nat] by simp

lemma digit_pair_eq:
  fixes x y p q k :: nat
  assumes "y < k" and "q < k"
  shows "x * k + y = p * k + q \<longleftrightarrow> x = p \<and> y = q"
  using assms by (metis div_mult_self3 mod_mult_self3 div_less mod_less add.right_neutral not_less_zero)

lemma div16_ranges:
  fixes m :: nat
  shows "m div 16 = 1 \<longleftrightarrow> 16 \<le> m \<and> m \<le> 31"
    and "m < 256 \<Longrightarrow> (m div 16 = 14 \<or> m div 16 = 15) \<longleftrightarrow> (224 \<le> m \<and> m \<le> 239) \<or> 240 \<le> m"
proof -
  have "m div 16 = q \<longleftrightarrow> q * 16 \<le> m \<and> m < Suc q * 16" for q
    using less_eq_div_iff_mult_less_eq [of 16 q m] div_less_iff_less_mult [of 16 m "Suc q"] by auto
  then show "m div 16 = 1 \<longleftrightarrow> 16 \<le> m \<and> m \<le> 31"
    and "m < 256 \<Longrightarrow> (m div 16 = 14 \<or> m div 16 = 15) \<longleftrightarrow> (224 \<le> m \<and> m \<le> 239) \<or> 240 \<le> m"
    by auto
qed

lemma forbidden_v4_iff: "forbidden_v4 ip \<longleftrightarrow> special4 (v4_nat ip)"
proof (cases ip)
  case (Ipv4 a b c d)
  have bounds: "unat a < 256" "unat b < 256" "unat c < 256" "unat d < 256"
    by (rule word8_lt)+
  define n where "n = v4_nat ip"
  have div24: "n div 16777216 = unat a" and div16: "n div 65536 = unat a * 256 + unat b"
    using bounds by (simp_all add: n_def Ipv4)
  have div28: "n div 268435456 = unat a div 16" and div22: "n div 4194304 = unat a * 4 + unat b div 64"
    and div20: "n div 1048576 = unat a * 16 + unat b div 16"
    using bounds by (simp_all add: n_def Ipv4)
  have pairs: "unat a * 256 + unat b = 43518 \<longleftrightarrow> unat a = 169 \<and> unat b = 254"
      "unat a * 256 + unat b = 49320 \<longleftrightarrow> unat a = 192 \<and> unat b = 168"
      "unat a * 4 + unat b div 64 = 401 \<longleftrightarrow> unat a = 100 \<and> unat b div 64 = 1"
      "unat a * 16 + unat b div 16 = 2753 \<longleftrightarrow> unat a = 172 \<and> unat b div 16 = 1"
    using digit_pair_eq [of "unat b" 256 254 "unat a" 169] digit_pair_eq [of "unat b" 256 168 "unat a" 192]
      digit_pair_eq [of "unat b div 64" 4 1 "unat a" 100] digit_pair_eq [of "unat b div 16" 16 1 "unat a" 172] bounds(2)
    by simp_all
  have "special4 n \<longleftrightarrow>
      unat a = 0 \<or> unat a = 10 \<or> (unat a = 100 \<and> unat b div 64 = 1) \<or> unat a = 127 \<or> (unat a = 169 \<and> unat b = 254)
      \<or> (unat a = 172 \<and> unat b div 16 = 1) \<or> (unat a = 192 \<and> unat b = 168) \<or> unat a div 16 = 14 \<or> unat a div 16 = 15"
    unfolding special4_def special_v4_def
    by (simp add: in_block_def div24 div16 div28 div22 div20 pairs [simplified])
  moreover have "v4_is_unspecified ip \<Longrightarrow> unat a = 0" "v4_is_broadcast ip \<Longrightarrow> 240 \<le> unat a"
    by (simp_all add: Ipv4 v4_is_unspecified_def v4_is_broadcast_def)
  moreover have "forbidden_v4 ip \<longleftrightarrow> v4_is_unspecified ip \<or> v4_is_broadcast ip \<or>
      unat a = 0 \<or> unat a = 10 \<or> (unat a = 100 \<and> unat b div 64 = 1) \<or> unat a = 127 \<or> (unat a = 169 \<and> unat b = 254)
      \<or> (unat a = 172 \<and> 16 \<le> unat b \<and> unat b \<le> 31) \<or> (unat a = 192 \<and> unat b = 168) \<or> (224 \<le> unat a \<and> unat a \<le> 239) \<or> 240 \<le> unat a"
    using cgnat_mask [of b] by (simp add: Ipv4 Let_def word_unat_eq_iff word_le_nat_alt) blast
  moreover have "unat b div 16 = 1 \<longleftrightarrow> 16 \<le> unat b \<and> unat b \<le> 31"
    by (rule div16_ranges(1))
  moreover have "(unat a div 16 = 14 \<or> unat a div 16 = 15) \<longleftrightarrow> (224 \<le> unat a \<and> unat a \<le> 239) \<or> 240 \<le> unat a"
    by (rule div16_ranges(2) [OF bounds(1)])
  ultimately show ?thesis
    unfolding n_def by blast
qed

lemma segs_nat_snoc: "segs_nat (ss @ [s]) = segs_nat ss * 65536 + unat s"
  by (simp add: segs_nat_def)

lemma segs_nat_append: "segs_nat (xs @ ys) = segs_nat xs * 65536 ^ length ys + segs_nat ys"
proof (induction ys rule: rev_induct)
  case (snoc y ys)
  then show ?case
    using segs_nat_snoc [of "xs @ ys" y] segs_nat_snoc [of ys y] by (simp add: algebra_simps)
qed (simp add: segs_nat_def)

lemma segs_nat_less: "segs_nat ss < 65536 ^ length ss"
proof (induction ss rule: rev_induct)
  case (snoc s ss)
  then show ?case
    using word16_lt [of s] by (simp add: segs_nat_snoc)
qed (simp add: segs_nat_def)

lemma segs_nat_div: "segs_nat (xs @ ys) div 65536 ^ length ys = segs_nat xs"
  and segs_nat_mod: "segs_nat (xs @ ys) mod 65536 ^ length ys = segs_nat ys"
  using segs_nat_less [of ys] by (simp_all add: segs_nat_append)

lemma segs_nat_inj: "length xs = length ys \<Longrightarrow> segs_nat xs = segs_nat ys \<longleftrightarrow> xs = ys"
proof (induction xs ys rule: rev_induct2)
  case (4 x xs y ys)
  then show ?case
    using digit_pair_eq [of "unat x" 65536 "unat y" "segs_nat xs" "segs_nat ys"] word16_lt [of x] word16_lt [of y]
    by (simp add: segs_nat_snoc word_unat_eq_iff)
qed simp_all

lemma bytes_of_segment: "unat (high_byte s) = unat s div 256" "unat (low_byte s) = unat s mod 256"
proof -
  show "unat (high_byte s) = unat s div 256"
    using word16_lt [of s] by (simp add: high_byte_def unsigned_ucast_eq unat_drop_bit_eq unat_div_distrib drop_bit_eq_div take_bit_eq_mod)
  have "(0xff :: u16) = mask 8"
    by code_simp
  then have "s AND 0xff = take_bit 8 s"
    by (simp only: take_bit_eq_mask)
  then show "unat (low_byte s) = unat s mod 256"
    by (simp add: low_byte_def unsigned_ucast_eq unsigned_take_bit_eq take_bit_eq_mod unat_mod_distrib)
qed

lemma v6_prefixes:
  assumes "ip = Ipv6 s0 s1 s2 s3 s4 s5 s6 s7"
  shows "v6_nat ip div 2 ^ 112 = unat s0"
    and "v6_nat ip div 2 ^ 32 = segs_nat [s0, s1, s2, s3, s4, s5]"
    and "v6_nat ip mod 2 ^ 32 = v4_nat (Ipv4 (high_byte s6) (low_byte s6) (high_byte s7) (low_byte s7))"
proof -
  have n: "v6_nat ip = segs_nat ([s0] @ [s1, s2, s3, s4, s5, s6, s7])" "v6_nat ip = segs_nat ([s0, s1, s2, s3, s4, s5] @ [s6, s7])"
    by (simp_all add: assms v6_nat_def)
  show "v6_nat ip div 2 ^ 112 = unat s0"
    using segs_nat_div [of "[s0]" "[s1, s2, s3, s4, s5, s6, s7]"] unfolding n(1) by (simp add: segs_nat_def)
  show "v6_nat ip div 2 ^ 32 = segs_nat [s0, s1, s2, s3, s4, s5]"
    using segs_nat_div [of "[s0, s1, s2, s3, s4, s5]" "[s6, s7]"] unfolding n(2) by simp
  have "v6_nat ip mod 2 ^ 32 = unat s6 * 65536 + unat s7"
    using segs_nat_mod [of "[s0, s1, s2, s3, s4, s5]" "[s6, s7]"] unfolding n(2) by (simp add: segs_nat_def)
  also have "\<dots> = v4_nat (Ipv4 (high_byte s6) (low_byte s6) (high_byte s7) (low_byte s7))"
    using div_mult_mod_eq [of "unat s6" 256] div_mult_mod_eq [of "unat s7" 256]
    by (simp add: bytes_of_segment)
  finally show "v6_nat ip mod 2 ^ 32 = v4_nat (Ipv4 (high_byte s6) (low_byte s6) (high_byte s7) (low_byte s7))" .
qed

lemma embeds_iff:
  assumes "ip = Ipv6 s0 s1 s2 s3 s4 s5 s6 s7"
  shows "list_ex (in_block 128 (v6_nat ip)) embeds_v4 \<longleftrightarrow> v6_to_ipv4 ip \<noteq> None \<or> nat64_embedded_v4 ip \<noteq> None"
proof -
  have block: "in_block 128 (v6_nat ip) (v6_nat (Ipv6 x0 x1 x2 x3 x4 x5 0 0), 96) \<longleftrightarrow>
      s0 = x0 \<and> s1 = x1 \<and> s2 = x2 \<and> s3 = x3 \<and> s4 = x4 \<and> s5 = x5" for x0 x1 x2 x3 x4 x5
    using segs_nat_inj [of "[s0, s1, s2, s3, s4, s5]" "[x0, x1, x2, x3, x4, x5]"]
    unfolding in_block_def v6_prefixes(2) [OF assms, symmetric] v6_prefixes(2) [OF refl, of x0 x1 x2 x3 x4 x5 0 0, symmetric] by simp
  have zero: "((s2 OR s3) OR s4) OR s5 = 0 \<longleftrightarrow> s2 = 0 \<and> s3 = 0 \<and> s4 = 0 \<and> s5 = 0"
    by (simp add: or_eq_0_iff)
  show ?thesis
    by (simp add: embeds_v4_def block) (auto simp: assms zero)
qed

lemma special_v6_iff:
  assumes "ip = Ipv6 s0 s1 s2 s3 s4 s5 s6 s7"
  shows "list_ex (in_block 128 (v6_nat ip)) special_v6 \<longleftrightarrow>
    s0 AND 0xfe00 = 0xfc00 \<or> s0 AND 0xffc0 = 0xfe80 \<or> v6_is_multicast ip"
proof -
  have top: "v6_nat (Ipv6 x s1 s2 s3 s4 s5 s6 s7) div 2 ^ (112 + k) = unat x div 2 ^ k" for x s1 s2 s3 s4 s5 s6 s7 k
    unfolding power_add div_mult2_eq v6_prefixes(1) [OF refl] ..
  show ?thesis
    using top [of _ _ _ _ _ _ _ _ 9] top [of _ _ _ _ _ _ _ _ 6] top [of _ _ _ _ _ _ _ _ 8]
    unfolding special_v6_def assms by (simp add: in_block_def seg_masks)
qed

lemma forbidden_v6_iff: "forbidden_v6 ip \<longleftrightarrow> special6 (v6_nat ip)"
proof (cases ip)
  case (Ipv6 s0 s1 s2 s3 s4 s5 s6 s7)
  let ?v4 = "Ipv4 (high_byte s6) (low_byte s6) (high_byte s7) (low_byte s7)"
  have v4: "special4 (v6_nat ip mod 2 ^ 32) \<longleftrightarrow> forbidden_v4 ?v4"
    by (simp only: v6_prefixes(3) [OF Ipv6] forbidden_v4_iff)
  have "\<not> v6_is_loopback ip" "\<not> v6_is_unspecified ip" if "v6_to_ipv4 ip = None"
    using that by (auto simp: Ipv6 v6_is_loopback_def v6_is_unspecified_def)
  moreover have "\<not> list_ex (in_block 128 (v6_nat ip)) special_v6" if "v6_to_ipv4 ip \<noteq> None \<or> nat64_embedded_v4 ip \<noteq> None"
    using that unfolding special_v6_iff [OF Ipv6] by (auto simp: Ipv6 seg_masks split: if_splits)
  ultimately show ?thesis
    using embeds_iff [OF Ipv6] special_v6_iff [OF Ipv6] v4
    unfolding special6_def by (auto simp: Ipv6 split: if_splits)
qed

text \<open>
  The address filter is the one the documentation describes. An IPv4 address is forbidden exactly
  when its number lies in one of the blocks 0/8, 10/8, 100.64/10, 127/8, 169.254/16, 172.16/12,
  192.168/16, 224/4 and 240/4; an IPv6 address exactly when it lies in fc00::/7, fe80::/10 or ff00::/8,
  or in one of the blocks ::/96, ::ffff:0:0/96 and 64:ff9b::/96 with low 32 bits that are a forbidden
  IPv4 address.
\<close>

theorem forbidden_iff_special_block:
  "is_forbidden_ip ip \<longleftrightarrow> (case ip of V4 v4 \<Rightarrow> special4 (v4_nat v4) | V6 v6 \<Rightarrow> special6 (v6_nat v6))"
  by (simp add: is_forbidden_ip_def forbidden_v4_iff forbidden_v6_iff split: ip_addr.split)

section \<open>Every hop is checked\<close>

fun literal :: "host \<Rightarrow> ip_addr option" where
  "literal (Domain _) = None"
| "literal (HostV4 v4) = Some (V4 v4)"
| "literal (HostV6 v6) = Some (V6 v6)"

text \<open>What the operator allowed: by name, in either spelling of a literal, or by network.\<close>

definition operator_allows :: "('u, 'n) url_api \<Rightarrow> 'n guard \<Rightarrow> ip_addr \<Rightarrow> bool" where
  "operator_allows U G ip =
     (host_exempt G (show_ip ip) \<or> host_exempt G (''['' @ show_ip ip @ '']'') \<or> list_ex (\<lambda>net. net_contains U net ip) (allow_cidrs G))"

definition special :: "ip_addr \<Rightarrow> bool" where
  "special ip = (case ip of V4 v4 \<Rightarrow> special4 (v4_nat v4) | V6 v6 \<Rightarrow> special6 (v6_nat v6))"

definition target_ok :: "('u, 'n) url_api \<Rightarrow> 'n guard \<Rightarrow> 'u \<Rightarrow> bool" where
  "target_ok U G url =
     (url_scheme U url \<in> {''http'', ''https''}
      \<and> (\<exists>h. url_host U url = Some h \<and> (\<forall>ip. literal h = Some ip \<longrightarrow> \<not> special ip \<or> operator_allows U G ip)))"

lemma forbidden_iff_special: "is_forbidden_ip ip \<longleftrightarrow> special ip"
  by (simp add: special_def is_forbidden_ip_def forbidden_v4_iff forbidden_v6_iff split: ip_addr.split)

lemma check_ip_iff: "check_ip U G ip = Inr () \<longleftrightarrow> \<not> special ip \<or> operator_allows U G ip"
  by (auto simp: check_ip_def Let_def ip_allowed_def operator_allows_def forbidden_iff_special)

lemma check_target_iff: "check_target U G url = Inr () \<longleftrightarrow> target_ok U G url"
proof (cases "url_host U url")
  case (Some h)
  then show ?thesis
    by (cases h) (auto simp: check_target_def target_ok_def check_ip_iff)
qed (simp add: check_target_def target_ok_def)

lemma check_target_error: "check_target U G url = Inl e \<Longrightarrow> \<exists>why. e = Blocked why"
  by (auto simp: check_target_def check_ip_def Let_def split: if_splits option.splits host.splits)

definition hop_ok :: "('u, 'n) url_api \<Rightarrow> 'n guard \<Rightarrow> nat option \<Rightarrow> ('u, 'h) request \<times> nat \<Rightarrow> bool" where
  "hop_ok U G deadline hop =
     (case hop of (r, t) \<Rightarrow> target_ok U G (rq_url r) \<and> (\<forall>d. deadline = Some d \<longrightarrow> t < d \<and> rq_timeout r = Some (d - t)))"

lemma guarded_loop_hops:
  assumes "\<And>r u. rq_url (decorate r u) = rq_url r"
  shows "guarded_loop U N G deadline decorate n current s = (res, s', sent) \<Longrightarrow>
    length sent \<le> n \<and> (\<forall>hop \<in> set sent. hop_ok U G deadline hop)
    \<and> (\<forall>resp. res = Inr resp \<longrightarrow> \<not> is_redirection resp \<or> location resp = None)"
proof (induction n arbitrary: current s res s' sent)
  case (Suc n)
  show ?case
  proof (cases "check_target U G current")
    case (Inl e)
    then show ?thesis
      using Suc.prems by auto
  next
    case (Inr u)
    then have ok: "target_ok U G current"
      by (simp add: check_target_iff [symmetric])
    let ?req = "decorate \<lparr>rq_url = current, rq_headers = [], rq_timeout = None\<rparr> current"
    obtain t s1 where now: "(case deadline of None \<Rightarrow> (0, s) | Some _ \<Rightarrow> instant_now N s) = (t, s1)"
      by fastforce
    let ?req' = "case deadline of None \<Rightarrow> ?req | Some d \<Rightarrow> ?req\<lparr>rq_timeout := Some (d - t)\<rparr>"
    obtain answer s2 where sent: "send N ?req' s1 = (answer, s2)"
      by fastforce
    show ?thesis
    proof (cases "deadline \<noteq> None \<and> the deadline - t = 0")
      case True
      then show ?thesis
        using Suc.prems Inr now by auto
    next
      case False
      have hop: "hop_ok U G deadline (?req', t)"
        using ok False assms by (auto simp: hop_ok_def split: option.splits)
      consider (final) "sent = [(?req', t)]" "\<forall>resp. res = Inr resp \<longrightarrow> \<not> is_redirection resp \<or> location resp = None"
        | (next_hop) u later where "guarded_loop U N G deadline decorate n u s2 = (res, s', later)" "sent = (?req', t) # later"
        using Suc.prems Inr now sent False
        by (cases deadline) (auto simp: Let_def split: sum.splits if_splits option.splits prod.splits)
      then show ?thesis
      proof cases
        case final
        then show ?thesis
          using hop by simp
      next
        case next_hop
        then show ?thesis
          using Suc.IH [OF next_hop(1)] hop by simp
      qed
    qed
  qed
qed auto


text \<open>URL 0 names a host, which redirects to URL 1, the metadata address as a literal.\<close>

definition two_urls :: "(nat, unit) url_api" where
  "two_urls =
     \<lparr>url_parse = (\<lambda>_. Some 0), url_scheme = (\<lambda>_. ''https''),
      url_host = (\<lambda>u. Some (if u = 0 then Domain ''cdn.example'' else HostV4 (Ipv4 169 254 169 254))),
      url_host_str = (\<lambda>_. Some ''cdn.example''), url_join = (\<lambda>_ _. Some 1), net_parse = (\<lambda>_. None), net_contains = (\<lambda>_ _. False)\<rparr>"

definition redirecting :: "(nat, string, nat) net_io" where
  "redirecting =
     \<lparr>instant_now = (\<lambda>s. (s, s + 1)), send = (\<lambda>_ s. (Inr \<lparr>is_redirection = True, location = Some ''/next''\<rparr>, s + 3)),
      header_to_str = (\<lambda>b. Some b)\<rparr>"


text \<open>The resolver hands over only allowed addresses, in the order of the name service.\<close>

lemma guard_resolve_iff:
  "guard_resolve U G lookup_host h = Inr ips \<longleftrightarrow>
     (\<exists>addrs. lookup_host h = Inr addrs \<and> ips \<noteq> [] \<and>
        ips = filter (\<lambda>ip. host_exempt G h \<or> \<not> special ip \<or> list_ex (\<lambda>net. net_contains U net ip) (allow_cidrs G)) addrs)"
  by (auto simp: guard_resolve_def ip_allowed_def forbidden_iff_special Let_def split: sum.splits if_splits)

end
