(* ===== verification/Denylist.thy ===== *)
theory Denylist
  imports Names Ordered_Map "HOL-Library.AList"
begin

text \<open>
  The \<open>--exclude-package\<close> denylist (\<open>src/denylist.rs\<close>): what an entry hides, and the stamp a denylist
  is stored as. Versions and specifier sets of the crate \<open>pep440_rs\<close> are parameters. The hash map of
  the code is an association list in some order, the stamp an ordered map.
\<close>

section \<open>Definitions\<close>

text \<open>What the code uses of \<open>pep440_rs\<close>.\<close>

record ('v, 's) pep440 =
  version_from_str :: "string \<Rightarrow> 'v option"
  specifiers_from_str :: "string \<Rightarrow> 's option"
  specifiers_to_string :: "'s \<Rightarrow> string"
  specifiers_contain :: "'s \<Rightarrow> 'v \<Rightarrow> bool"

record 's package_spec =
  spec_name :: string
  spec_specifiers :: "'s option"

type_synonym 's denylist = "(string \<times> 's option list) list"
type_synonym stamp = "(string, string list) btree"

definition version_allowed :: "('v, 's) pep440 \<Rightarrow> 's option list \<Rightarrow> string \<Rightarrow> bool" where
  "version_allowed P constraints filename =
     (if list_ex (\<lambda>c. c = None) constraints then True
      else case Option.bind (infer_version_from_filename (version_from_str P) filename) (version_from_str P) of
        None \<Rightarrow> False
      | Some version \<Rightarrow> list_ex (\<lambda>s. specifiers_contain P s version) (List.map_filter (\<lambda>c. c) constraints))"

definition push_spec :: "'s package_spec \<Rightarrow> 's denylist \<Rightarrow> 's denylist" where
  "push_spec spec deny = AList.map_default (spec_name spec) [spec_specifiers spec] (\<lambda>cs. cs @ [spec_specifiers spec]) deny"

definition from_specs :: "'s package_spec list \<Rightarrow> 's denylist" where
  "from_specs specs = fold push_spec specs []"

fun parse_constraints :: "('v, 's) pep440 \<Rightarrow> string list \<Rightarrow> 's option list res" where
  "parse_constraints P [] = Inr []"
| "parse_constraints P (spec # specs) =
     (if spec = ''*'' then (case parse_constraints P specs of Inl e \<Rightarrow> Inl e | Inr cs \<Rightarrow> Inr (None # cs))
      else case specifiers_from_str P spec of
        None \<Rightarrow> Inl (Bail ''enforced-denylist stamp: unparsable specifier'')
      | Some s \<Rightarrow> (case parse_constraints P specs of Inl e \<Rightarrow> Inl e | Inr cs \<Rightarrow> Inr (Some s # cs)))"

fun from_canonical_loop :: "('v, 's) pep440 \<Rightarrow> stamp \<Rightarrow> 's denylist \<Rightarrow> 's denylist res" where
  "from_canonical_loop P [] deny = Inr deny"
| "from_canonical_loop P ((name, specs) # rest) deny =
     (case parse_constraints P specs of
        Inl e \<Rightarrow> Inl e
      | Inr cs \<Rightarrow> from_canonical_loop P rest (AList.update name cs deny))"

definition from_canonical :: "('v, 's) pep440 \<Rightarrow> stamp \<Rightarrow> 's denylist res" where
  "from_canonical P canon = from_canonical_loop P canon []"

definition name_fully_denied :: "'s denylist \<Rightarrow> string \<Rightarrow> bool" where
  "name_fully_denied deny pkg = (case map_of deny pkg of None \<Rightarrow> False | Some cs \<Rightarrow> list_ex (\<lambda>c. c = None) cs)"

definition file_denied :: "('v, 's) pep440 \<Rightarrow> 's denylist \<Rightarrow> string \<Rightarrow> string \<Rightarrow> bool" where
  "file_denied P deny pkg filename = (case map_of deny pkg of None \<Rightarrow> False | Some cs \<Rightarrow> version_allowed P cs filename)"

definition spec_token :: "('v, 's) pep440 \<Rightarrow> 's option \<Rightarrow> string" where
  "spec_token P c = (case c of Some s \<Rightarrow> specifiers_to_string P s | None \<Rightarrow> ''*'')"

text \<open>\<open>Vec::sort\<close> followed by \<open>Vec::dedup\<close>.\<close>

definition sorted_tokens :: "string list \<Rightarrow> string list" where
  "sorted_tokens ts = remdups_adj (sort ts)"

definition canonical :: "('v, 's) pep440 \<Rightarrow> 's denylist \<Rightarrow> stamp" where
  "canonical P deny = fold (\<lambda>(name, cs). bt_insert name (sorted_tokens (map (spec_token P) cs))) deny []"

section \<open>Decisions\<close>

text \<open>A list of constraints matters only as a set.\<close>

definition hides :: "('v, 's) pep440 \<Rightarrow> string \<Rightarrow> 's option \<Rightarrow> bool" where
  "hides P filename c =
     (case c of None \<Rightarrow> True
      | Some s \<Rightarrow> (\<exists>v text. infer_version_from_filename (version_from_str P) filename = Some text
                      \<and> version_from_str P text = Some v \<and> specifiers_contain P s v))"

lemma version_allowed_iff: "version_allowed P cs filename \<longleftrightarrow> (\<exists>c \<in> set cs. hides P filename c)"
proof (cases "None \<in> set cs")
  case True
  moreover have "hides P filename None"
    by (simp add: hides_def)
  ultimately have "\<exists>c \<in> set cs. hides P filename c"
    by blast
  with True show ?thesis
    by (auto simp: version_allowed_def list_ex_iff)
next
  case False
  let ?v = "Option.bind (infer_version_from_filename (version_from_str P) filename) (version_from_str P)"
  have "c \<in> set cs \<Longrightarrow> \<exists>s. c = Some s" for c
    using False by (cases c) auto
  then show ?thesis
    using False
    by (cases ?v) (auto simp: version_allowed_def list_ex_iff hides_def map_filter_def bind_eq_Some_conv bind_eq_None_conv Bex_def
        split: option.splits, fastforce+)
qed

lemma name_fully_denied_iff: "name_fully_denied deny pkg \<longleftrightarrow> (\<exists>cs. map_of deny pkg = Some cs \<and> None \<in> set cs)"
  by (auto simp: name_fully_denied_def list_ex_iff split: option.splits)

lemma file_denied_iff: "file_denied P deny pkg f \<longleftrightarrow> (\<exists>cs. map_of deny pkg = Some cs \<and> (\<exists>c \<in> set cs. hides P f c))"
  by (auto simp: file_denied_def version_allowed_iff split: option.splits)

lemma map_of_push_spec:
  "map_of (push_spec spec deny) pkg =
     (if pkg = spec_name spec then Some (case map_of deny pkg of None \<Rightarrow> [spec_specifiers spec] | Some cs \<Rightarrow> cs @ [spec_specifiers spec])
      else map_of deny pkg)"
  by (induction deny) (auto simp: push_spec_def)

lemma from_specs_entry:
  "map_of (from_specs specs) pkg =
     (let cs = map spec_specifiers (filter (\<lambda>s. spec_name s = pkg) specs) in if cs = [] then None else Some cs)"
proof (induction specs rule: rev_induct)
  case (snoc spec specs)
  then show ?case
    by (auto simp: from_specs_def map_of_push_spec Let_def)
qed (simp add: from_specs_def)

lemma from_specs_distinct: "distinct (map fst (from_specs specs))"
proof (induction specs rule: rev_induct)
  case (snoc spec specs)
  then show ?case
    by (simp add: from_specs_def push_spec_def distinct_map_default)
qed (simp add: from_specs_def)

section \<open>The stamp\<close>

lemma set_sorted_tokens: "set (sorted_tokens ts) = set ts"
  by (simp add: sorted_tokens_def)

lemma distinct_dedup: "sorted xs \<Longrightarrow> distinct (remdups_adj xs)"
  by (induction xs rule: remdups_adj.induct) (auto simp del: remdups_adj_set simp: remdups_adj_set)

lemma sorted_tokens_cong:
  assumes "set ts = set us"
  shows "sorted_tokens ts = sorted_tokens us"
proof -
  have "sorted_wrt (<) (sorted_tokens xs)" for xs
    unfolding sorted_tokens_def by (simp add: strict_sorted_iff distinct_dedup)
  then show ?thesis
    using assms by (metis set_sorted_tokens strict_sorted_equal)
qed

lemma canonical_fold:
  assumes "distinct (map fst deny)"
  shows "bt_get (fold (\<lambda>(name, cs). bt_insert name (g cs)) deny m) k =
      (case map_of deny k of Some cs \<Rightarrow> Some (g cs) | None \<Rightarrow> bt_get m k)"
  using assms
proof (induction deny arbitrary: m)
  case (Cons e deny)
  then have "fst e \<notin> fst ` set deny"
    by simp
  then have "map_of deny (fst e) = None"
    by (simp add: map_of_eq_None_iff)
  with Cons show ?case
    by (cases e) (auto simp: bt.get_insert split: option.splits)
qed simp

lemma canonical_get:
  assumes "distinct (map fst deny)"
  shows "bt_get (canonical P deny) k = map_option (\<lambda>cs. sorted_tokens (map (spec_token P) cs)) (map_of deny k)"
  unfolding canonical_def canonical_fold [OF assms, where g = "\<lambda>cs. sorted_tokens (map (spec_token P) cs)"]
  by (simp add: bt.get_empty split: option.splits)

lemma canonical_ordered: "bt_ordered (canonical P deny)"
proof -
  have "bt_ordered m \<Longrightarrow> bt_ordered (fold (\<lambda>(name, cs). bt_insert name (g cs)) deny m)" for m and g :: "'b option list \<Rightarrow> string list"
    by (induction deny arbitrary: m) (auto simp: bt.ordered_insert)
  then show ?thesis
    by (simp add: canonical_def bt.ordered_empty)
qed

definition printable :: "('v, 's) pep440 \<Rightarrow> 's option \<Rightarrow> bool" where
  "printable P c = (\<forall>s. c = Some s \<longrightarrow> specifiers_from_str P (specifiers_to_string P s) = Some s \<and> specifiers_to_string P s \<noteq> ''*'')"

lemma parse_constraints_tokens:
  assumes "set ts \<subseteq> spec_token P ` X" and "\<forall>c \<in> X. printable P c"
  shows "\<exists>cs. parse_constraints P ts = Inr cs \<and> map (spec_token P) cs = ts \<and> set cs \<subseteq> X"
  using assms(1)
proof (induction ts)
  case (Cons t ts)
  then obtain c cs where c: "c \<in> X" "t = spec_token P c" and cs: "parse_constraints P ts = Inr cs" "map (spec_token P) cs = ts" "set cs \<subseteq> X"
    by auto
  show ?case
  proof (cases c)
    case None
    then show ?thesis
      using c cs by (auto simp: spec_token_def)
  next
    case (Some s)
    then have "specifiers_from_str P t = Some s" "t \<noteq> ''*''"
      using c assms(2) by (auto simp: printable_def spec_token_def)
    then show ?thesis
      using Some c cs by auto
  qed
qed simp

lemma token_back: "printable P c \<Longrightarrow> c = (if spec_token P c = ''*'' then None else specifiers_from_str P (spec_token P c))"
  by (cases c) (simp_all add: printable_def spec_token_def)

lemma token_inj:
  assumes "printable P c" and "printable P c'" and "spec_token P c = spec_token P c'"
  shows "c = c'"
  using token_back [OF assms(1)] token_back [OF assms(2)] unfolding assms(3) by (rule trans [OF _ sym])

lemma parse_sorted_tokens:
  assumes "\<forall>c \<in> set cs. printable P c"
  shows "\<exists>cs'. parse_constraints P (sorted_tokens (map (spec_token P) cs)) = Inr cs' \<and> set cs' = set cs"
proof -
  obtain cs' where cs': "parse_constraints P (sorted_tokens (map (spec_token P) cs)) = Inr cs'"
      "map (spec_token P) cs' = sorted_tokens (map (spec_token P) cs)" "set cs' \<subseteq> set cs"
    using parse_constraints_tokens [of "sorted_tokens (map (spec_token P) cs)" P "set cs"] assms by (auto simp: set_sorted_tokens)
  have tokens: "spec_token P ` set cs' = spec_token P ` set cs"
    using arg_cong [OF cs'(2), of set] by (simp add: set_sorted_tokens)
  have "c \<in> set cs'" if "c \<in> set cs" for c
  proof -
    have "spec_token P c \<in> spec_token P ` set cs'"
      unfolding tokens using that by (rule imageI)
    then obtain c' where c': "c' \<in> set cs'" "spec_token P c' = spec_token P c"
      by (elim imageE) simp
    then have "c' = c"
      using token_inj [of P c' c] assms cs'(3) that by blast
    with c' show ?thesis
      by simp
  qed
  with cs' show ?thesis
    by blast
qed

lemma from_canonical_loop_ok:
  assumes "distinct (map fst canon)" and "\<forall>(name, ts) \<in> set canon. parse_constraints P ts = Inr (parsed ts)"
  shows "\<exists>d. from_canonical_loop P canon deny = Inr d
    \<and> (\<forall>k. map_of d k = (case map_of canon k of Some ts \<Rightarrow> Some (parsed ts) | None \<Rightarrow> map_of deny k))
    \<and> (distinct (map fst deny) \<longrightarrow> distinct (map fst d))"
  using assms
proof (induction canon arbitrary: deny)
  case (Cons e canon)
  obtain name ts where e: "e = (name, ts)"
    by (cases e)
  then have none: "map_of canon name = None"
    using Cons.prems(1) by (simp add: map_of_eq_None_iff)
  obtain d where d: "from_canonical_loop P canon (AList.update name (parsed ts) deny) = Inr d"
      "\<And>k. map_of d k = (case map_of canon k of Some ts \<Rightarrow> Some (parsed ts) | None \<Rightarrow> map_of (AList.update name (parsed ts) deny) k)"
      "distinct (map fst (AList.update name (parsed ts) deny)) \<longrightarrow> distinct (map fst d)"
    using Cons.IH [of "AList.update name (parsed ts) deny"] Cons.prems by auto
  have "map_of d k = (case map_of (e # canon) k of Some ts \<Rightarrow> Some (parsed ts) | None \<Rightarrow> map_of deny k)" for k
  proof (cases "k = name")
    case True
    then show ?thesis
      using d(2) [of name] unfolding True none by (simp add: e update_conv')
  next
    case False
    then have "map_of (e # canon) k = map_of canon k" "map_of (AList.update name (parsed ts) deny) k = map_of deny k"
      by (simp_all add: e update_conv')
    then show ?thesis
      unfolding d(2) [of k] by (simp only:)
  qed
  moreover have "from_canonical_loop P (e # canon) deny = Inr d"
    using d(1) Cons.prems(2) by (simp add: e)
  moreover have "distinct (map fst deny) \<longrightarrow> distinct (map fst d)"
    using d(3) by (metis distinct_update)
  ultimately show ?case
    by blast
qed simp

lemma ordered_ext:
  assumes "bt_ordered m" and "bt_ordered m'" and "\<And>k. bt_get m k = bt_get m' k"
  shows "m = m'"
proof -
  have keys: "sorted (map fst x)" "distinct (map fst x)" if "bt_ordered x" for x :: "('a :: linorder, 'b) btree"
    using that by (simp_all add: bt_ordered_def bt_keys_def strict_sorted_iff)
  have "set m = set m'"
    using assms bt.entries_get by (metis (no_types, lifting) subrelI subset_antisym)
  moreover have "inj_on fst (set m \<union> set m')"
    using keys(2) [OF assms(1)] \<open>set m = set m'\<close> by (simp add: distinct_map)
  ultimately show ?thesis
    using map_sorted_distinct_set_unique [of fst m m'] keys [OF assms(1)] keys [OF assms(2)] by blast
qed

lemma stamp_restores:
  assumes "distinct (map fst deny)" and "\<forall>(name, cs) \<in> set deny. \<forall>c \<in> set cs. printable P c"
  shows "\<exists>d. from_canonical P (canonical P deny) = Inr d \<and> canonical P d = canonical P deny
    \<and> (\<forall>k. rel_option (\<lambda>cs cs'. set cs = set cs') (map_of d k) (map_of deny k))"
proof -
  let ?canon = "canonical P deny" and ?tok = "\<lambda>cs. sorted_tokens (map (spec_token P) cs)"
  define parsed where "parsed ts = projr (parse_constraints P ts)" for ts
  have canon: "distinct (map fst ?canon)" "\<And>k. map_of ?canon k = map_option ?tok (map_of deny k)"
    using canonical_ordered [of P deny] canonical_get [OF assms(1)]
    by (simp_all add: bt_ordered_def bt_keys_def strict_sorted_iff bt_get_def)
  have ok: "parse_constraints P (?tok cs) = Inr (parsed (?tok cs)) \<and> set (parsed (?tok cs)) = set cs" if "map_of deny k = Some cs" for k cs
  proof -
    have "\<forall>c \<in> set cs. printable P c"
      using assms(2) map_of_SomeD [OF that] by auto
    then show ?thesis
      using parse_sorted_tokens by (fastforce simp: parsed_def)
  qed
  have "\<forall>(name, ts) \<in> set ?canon. parse_constraints P ts = Inr (parsed ts)"
  proof clarify
    fix name ts
    assume "(name, ts) \<in> set ?canon"
    then have "map_option ?tok (map_of deny name) = Some ts"
      using map_of_is_SomeI [OF canon(1)] canon(2) by metis
    then show "parse_constraints P ts = Inr (parsed ts)"
      using ok by auto
  qed
  then obtain d where d: "from_canonical P ?canon = Inr d" "distinct (map fst d)"
      "\<And>k. map_of d k = (case map_of ?canon k of Some ts \<Rightarrow> Some (parsed ts) | None \<Rightarrow> map_of [] k)"
    using from_canonical_loop_ok [OF canon(1), of P parsed "[]"] by (auto simp: from_canonical_def)
  have same: "rel_option (\<lambda>cs cs'. set cs = set cs') (map_of d k) (map_of deny k)" for k
    using ok by (cases "map_of deny k") (auto simp: d(3) canon(2))
  have "bt_get (canonical P d) k = bt_get ?canon k" for k
  proof (cases "map_of deny k")
    case None
    then show ?thesis
      using same [of k] by (simp add: canonical_get [OF d(2)] canonical_get [OF assms(1)])
  next
    case (Some cs)
    then obtain cs' where "map_of d k = Some cs'" "set cs' = set cs"
      using same [of k] by (auto simp: option_rel_Some2)
    then show ?thesis
      using Some sorted_tokens_cong [of "map (spec_token P) cs'" "map (spec_token P) cs"]
      by (simp add: canonical_get [OF d(2)] canonical_get [OF assms(1)])
  qed
  then have "canonical P d = ?canon"
    by (rule ordered_ext [OF canonical_ordered canonical_ordered])
  with d(1) same show ?thesis
    by blast
qed

text \<open>
  The stamp a denylist is stored as decides what the configuration decides. For any list of
  configured excludes whose specifier sets print and parse back, restoring the canonical stamp succeeds
  and stamps equal again; the restored denylist denies a whole name exactly when some entry for it is
  bare, and hides a file exactly when some entry for its name is bare or has specifiers that contain the
  version inferred from the filename, a file without a parsable version matching bare entries only.
\<close>

theorem denylist_stamp_roundtrip:
  assumes "\<forall>spec \<in> set specs. \<forall>s. spec_specifiers spec = Some s \<longrightarrow>
      specifiers_from_str P (specifiers_to_string P s) = Some s \<and> specifiers_to_string P s \<noteq> ''*''"
  shows "\<exists>d. from_canonical P (canonical P (from_specs specs)) = Inr d
    \<and> canonical P d = canonical P (from_specs specs)
    \<and> (\<forall>pkg. name_fully_denied d pkg \<longleftrightarrow> (\<exists>spec \<in> set specs. spec_name spec = pkg \<and> spec_specifiers spec = None))
    \<and> (\<forall>pkg f. file_denied P d pkg f \<longleftrightarrow> (\<exists>spec \<in> set specs. spec_name spec = pkg \<and> hides P f (spec_specifiers spec)))"
proof -
  have printable: "\<forall>(name, cs) \<in> set (from_specs specs). \<forall>c \<in> set cs. printable P c"
    using assms map_of_eq_Some_iff [OF from_specs_distinct, symmetric]
    by (fastforce simp: from_specs_entry printable_def Let_def split: if_splits)
  obtain d where d: "from_canonical P (canonical P (from_specs specs)) = Inr d" "canonical P d = canonical P (from_specs specs)"
      "\<And>k. rel_option (\<lambda>cs cs'. set cs = set cs') (map_of d k) (map_of (from_specs specs) k)"
    using stamp_restores [OF from_specs_distinct printable] by blast
  have entries: "(\<exists>cs. map_of d pkg = Some cs \<and> Q (set cs)) \<longleftrightarrow> (\<exists>cs. map_of (from_specs specs) pkg = Some cs \<and> Q (set cs))" for pkg Q
    using d(3) [of pkg] by (cases "map_of d pkg"; cases "map_of (from_specs specs) pkg") auto
  have "name_fully_denied d pkg \<longleftrightarrow> (\<exists>spec \<in> set specs. spec_name spec = pkg \<and> spec_specifiers spec = None)" for pkg
    unfolding name_fully_denied_iff entries [of pkg "\<lambda>X. None \<in> X"] by (auto simp: from_specs_entry Let_def image_iff filter_empty_conv)
  moreover have "file_denied P d pkg f \<longleftrightarrow> (\<exists>spec \<in> set specs. spec_name spec = pkg \<and> hides P f (spec_specifiers spec))" for pkg f
    unfolding file_denied_iff entries [of pkg "\<lambda>X. \<exists>c \<in> X. hides P f c"] by (auto simp: from_specs_entry Let_def filter_empty_conv)
  ultimately show ?thesis
    using d(1,2) by blast
qed

text \<open>A crate whose versions are their text and whose specifier sets pin one version.\<close>

definition pin_api :: "(string, string) pep440" where
  "pin_api =
     \<lparr>version_from_str = (\<lambda>t. if t \<noteq> [] \<and> is_ascii_digit (hd t) then Some t else None),
      specifiers_from_str = (\<lambda>t. strip_prefix t ''==''), specifiers_to_string = (\<lambda>s. ''=='' @ s), specifiers_contain = (\<lambda>s v. s = v)\<rparr>"

definition pin_specs :: "string package_spec list" where
  "pin_specs = [\<lparr>spec_name = ''six'', spec_specifiers = Some ''2''\<rparr>, \<lparr>spec_name = ''evil'', spec_specifiers = None\<rparr>, \<lparr>spec_name = ''six'', spec_specifiers = Some ''1''\<rparr>]"

theorem denylist_stamp_roundtrip_witness:
  "canonical pin_api (from_specs pin_specs) = [(''evil'', [''*'']), (''six'', [''==1'', ''==2''])]
   \<and> (\<exists>d. from_canonical pin_api (canonical pin_api (from_specs pin_specs)) = Inr d
        \<and> name_fully_denied d ''evil'' \<and> \<not> name_fully_denied d ''six''
        \<and> file_denied pin_api d ''six'' ''six-1-py3-none-any.whl'' \<and> \<not> file_denied pin_api d ''six'' ''six-3-py3-none-any.whl'')"
proof -
  have stamp: "canonical pin_api (from_specs pin_specs) = [(''evil'', [''*'']), (''six'', [''==1'', ''==2''])]"
    by code_simp
  have "\<forall>spec \<in> set pin_specs. \<forall>s. spec_specifiers spec = Some s \<longrightarrow>
      specifiers_from_str pin_api (specifiers_to_string pin_api s) = Some s \<and> specifiers_to_string pin_api s \<noteq> ''*''"
    by (simp add: pin_api_def strip_prefix_def)
  then obtain d where d: "from_canonical pin_api (canonical pin_api (from_specs pin_specs)) = Inr d"
      "name_fully_denied d pkg \<longleftrightarrow> (\<exists>spec \<in> set pin_specs. spec_name spec = pkg \<and> spec_specifiers spec = None)"
      "file_denied pin_api d pkg f \<longleftrightarrow> (\<exists>spec \<in> set pin_specs. spec_name spec = pkg \<and> hides pin_api f (spec_specifiers spec))" for pkg f
    using denylist_stamp_roundtrip [of pin_specs pin_api] by blast
  have "infer_version_from_filename (version_from_str pin_api) ''six-1-py3-none-any.whl'' = Some ''1''"
      "infer_version_from_filename (version_from_str pin_api) ''six-3-py3-none-any.whl'' = Some ''3''"
    by code_simp+
  then have "hides pin_api ''six-1-py3-none-any.whl'' (Some ''1'')" "\<not> hides pin_api ''six-3-py3-none-any.whl'' (Some ''1'')"
      "\<not> hides pin_api ''six-3-py3-none-any.whl'' (Some ''2'')"
    by (simp_all add: hides_def pin_api_def is_ascii_digit_def)
  then show ?thesis
    using d stamp by (auto simp: pin_specs_def)
qed

end
