(* ===== verification/Excludes.thy ===== *)
theory Excludes
  imports Denylist Convergence "HOL-Library.Countable"
begin

text \<open>
  Enforcing the denylist on a bucket (the exclude reconcile of \<open>src/worker.rs\<close>): the stamp of what the
  stored indexes were built against, the audit fingerprints in shards by first character, and the pass
  that marks exactly the packages whose entry changed. JSON of the two document types is a parameter;
  names are ASCII, so the first character of a name is its first byte. The in-process index cache
  that a write invalidates is left out.
\<close>

section \<open>Definitions\<close>

record state_codec =
  stamp_json :: "stamp \<Rightarrow> bytes"
  stamp_from_json :: "bytes \<Rightarrow> stamp option"
  fps_json :: "(string, string) btree \<Rightarrow> bytes"
  fps_from_json :: "bytes \<Rightarrow> (string, string) btree option"

definition enforced_excludes_key :: string where
  "enforced_excludes_key = STATE_PREFIX @ ''enforced-excludes.json''"

definition or_default :: "'a list option \<Rightarrow> 'a list" where
  "or_default x = (case x of None \<Rightarrow> [] | Some m \<Rightarrow> m)"

definition read_enforced_excludes :: "state_codec \<Rightarrow> bucket_id \<Rightarrow> stamp option act" where
  "read_enforced_excludes C b =
     onResult (get_bytes b enforced_excludes_key)
       (\<lambda>e. if is_not_found e then ret None else fail e)
       (\<lambda>bs. ret (Some (or_default (stamp_from_json C bs))))"

definition enforced_denylist :: "('v, 's) pep440 \<Rightarrow> state_codec \<Rightarrow> bucket_id \<Rightarrow> 's denylist \<Rightarrow> 's denylist act" where
  "enforced_denylist P C b fallback =
     andThen (read_enforced_excludes C b) (\<lambda>r.
       case r of
         None \<Rightarrow> ret fallback
       | Some canon \<Rightarrow> (case from_canonical P canon of Inl e \<Rightarrow> fail e | Inr d \<Rightarrow> ret d))"

definition put_if_changed :: "(bytes \<Rightarrow> bytes) \<Rightarrow> bucket_id \<Rightarrow> string \<Rightarrow> bytes \<Rightarrow> unit act" where
  "put_if_changed sha b key bs =
     onResult (get_bytes b key)
       (\<lambda>_. put_bytes sha b key bs)
       (\<lambda>current. if current = bs then ret () else put_bytes sha b key bs)"

definition write_enforced_excludes :: "(bytes \<Rightarrow> bytes) \<Rightarrow> state_codec \<Rightarrow> bucket_id \<Rightarrow> stamp \<Rightarrow> unit act" where
  "write_enforced_excludes sha C b canon = put_if_changed sha b enforced_excludes_key (stamp_json C canon)"

subsection \<open>Fingerprints\<close>

type_synonym fp_edit = "string \<times> string option"

definition fp_key :: "char \<Rightarrow> string" where
  "fp_key shard = STATE_PREFIX @ ''fp-'' @ [shard] @ ''.json''"

definition add_to_shard :: "fp_edit \<Rightarrow> (char, fp_edit list) btree \<Rightarrow> (char, fp_edit list) btree" where
  "add_to_shard edit by_shard =
     (case fst edit of
        [] \<Rightarrow> by_shard
      | c # _ \<Rightarrow> bt_insert c (or_default (bt_get by_shard c) @ [edit]) by_shard)"

fun apply_edits :: "fp_edit list \<Rightarrow> (string, string) btree \<Rightarrow> bool \<Rightarrow> (string, string) btree \<times> bool" where
  "apply_edits [] stored changed = (stored, changed)"
| "apply_edits ((name, Some fp) # es) stored changed =
     apply_edits es (bt_insert name fp stored) (changed \<or> bt_get stored name \<noteq> Some fp)"
| "apply_edits ((name, None) # es) stored changed =
     apply_edits es (bt_remove name stored) (changed \<or> bt_get stored name \<noteq> None)"

definition read_fps :: "state_codec \<Rightarrow> bucket_id \<Rightarrow> char \<Rightarrow> (string, string) btree act" where
  "read_fps C b shard =
     onResult (get_bytes b (fp_key shard))
       (\<lambda>e. if is_not_found e then ret [] else fail e)
       (\<lambda>bs. ret (or_default (fps_from_json C bs)))"

fun edit_shards :: "(bytes \<Rightarrow> bytes) \<Rightarrow> state_codec \<Rightarrow> bucket_id \<Rightarrow> (char, fp_edit list) btree \<Rightarrow> unit act" where
  "edit_shards sha C b [] = ret ()"
| "edit_shards sha C b ((shard, edits) # rest) =
     andThen (read_fps C b shard) (\<lambda>stored.
       let (stored', changed) = apply_edits edits stored False
       in andThen (if changed then put_bytes sha b (fp_key shard) (fps_json C stored') else ret ())
            (\<lambda>_. edit_shards sha C b rest))"

definition edit_fingerprints :: "(bytes \<Rightarrow> bytes) \<Rightarrow> state_codec \<Rightarrow> bucket_id \<Rightarrow> fp_edit list \<Rightarrow> unit act" where
  "edit_fingerprints sha C b edits = edit_shards sha C b (fold add_to_shard edits [])"

subsection \<open>The reconcile\<close>

fun mark_all :: "(bytes \<Rightarrow> bytes) \<Rightarrow> bucket_id \<Rightarrow> string list \<Rightarrow> unit act" where
  "mark_all sha b [] = ret ()"
| "mark_all sha b (name # names) = andThen (mark_dirty sha b name) (\<lambda>_. mark_all sha b names)"

text \<open>The \<open>BTreeSet\<close> of changed names, in order.\<close>

definition changed_names :: "bool \<Rightarrow> stamp \<Rightarrow> stamp \<Rightarrow> string list" where
  "changed_names first_pass current previous =
     sorted_tokens
       ((if first_pass then bt_keys current else [])
        @ bt_keys (filter (\<lambda>(name, specs). bt_get previous name \<noteq> Some specs) current)
        @ bt_keys (filter (\<lambda>(name, specs). bt_get current name \<noteq> Some specs) previous))"

definition reconcile_excludes ::
  "(bytes \<Rightarrow> bytes) \<Rightarrow> ('v, 's) pep440 \<Rightarrow> state_codec \<Rightarrow> 's denylist option \<Rightarrow> bucket_id \<Rightarrow> bool \<Rightarrow> unit act" where
  "reconcile_excludes sha P C denylist b first_pass =
     (case denylist of
        None \<Rightarrow> ret ()
      | Some deny \<Rightarrow>
          (let current = canonical P deny in
           andThen (read_enforced_excludes C b) (\<lambda>r.
             let previous = or_default r in
             if current = previous \<and> (\<not> first_pass \<or> current = []) then ret ()
             else
               (let names = changed_names first_pass current previous in
                andThen (edit_fingerprints sha C b (map (\<lambda>name. (name, None)) names)) (\<lambda>_.
                andThen (mark_all sha b names) (\<lambda>_.
                  if current \<noteq> previous then write_enforced_excludes sha C b current else ret ()))))))"

section \<open>Shards\<close>

text \<open>What a bucket records: the stamp, and the fingerprint of a package.\<close>

definition enforced :: "state_codec \<Rightarrow> inner \<Rightarrow> stamp" where
  "enforced C s = (case object_at s enforced_excludes_key of None \<Rightarrow> [] | Some ob \<Rightarrow> or_default (stamp_from_json C (obj_bytes ob)))"

definition shard_of :: "state_codec \<Rightarrow> inner \<Rightarrow> char \<Rightarrow> (string, string) btree" where
  "shard_of C s c = (case object_at s (fp_key c) of None \<Rightarrow> [] | Some ob \<Rightarrow> or_default (fps_from_json C (obj_bytes ob)))"

definition fingerprint :: "state_codec \<Rightarrow> inner \<Rightarrow> string \<Rightarrow> string option" where
  "fingerprint C s pkg = (case pkg of [] \<Rightarrow> None | c # _ \<Rightarrow> bt_get (shard_of C s c) pkg)"

definition codec_ok :: "state_codec \<Rightarrow> bool" where
  "codec_ok C = ((\<forall>m. stamp_from_json C (stamp_json C m) = Some m) \<and> (\<forall>m. fps_from_json C (fps_json C m) = Some m))"

lemma state_keys [simp]:
  "fp_key c \<noteq> enforced_excludes_key" "enforced_excludes_key \<noteq> fp_key c" "fp_key c = fp_key d \<longleftrightarrow> c = d"
  "fp_key c \<notin> dirty_keys" "enforced_excludes_key \<notin> dirty_keys"
  by (simp_all add: fp_key_def enforced_excludes_key_def dirty_keys_def STATE_PREFIX_def DIRTY_PREFIX_def)

lemma stamp_not_fp [simp]: "enforced_excludes_key \<notin> range fp_key"
  by auto

lemma apply_drops:
  "apply_edits (map (\<lambda>name. (name, None)) names) stored changed =
     (fold bt_remove names stored, changed \<or> (\<exists>name \<in> set names. bt_get stored name \<noteq> None))"
proof (induction names arbitrary: stored changed)
  case (Cons name names)
  have "(\<exists>x \<in> set names. bt_get (bt_remove name stored) x \<noteq> None) \<or> bt_get stored name \<noteq> None \<longleftrightarrow>
      (\<exists>x \<in> set (name # names). bt_get stored x \<noteq> None)"
    by (auto simp: bt.get_remove)
  with Cons show ?case
    by auto
qed simp

lemma read_fps_quiet: "script w = [] \<Longrightarrow> read_fps C b c w = (Inr (shard_of C (buckets w b) c), w)"
  by (simp add: read_fps_def shard_of_def onResult_def get_bytes_quiet ret_def is_not_found_def split: option.splits)

lemma read_enforced_quiet:
  "script w = [] \<Longrightarrow> \<exists>r. read_enforced_excludes C b w = (Inr r, w) \<and> or_default r = enforced C (buckets w b)"
  by (simp add: read_enforced_excludes_def enforced_def onResult_def get_bytes_quiet ret_def is_not_found_def or_default_def split: option.splits)

lemma shard_of_store:
  "shard_of C (snd (store sha k bs s)) c =
     (if k = fp_key c then or_default (fps_from_json C bs) else shard_of C s c)"
  by (auto simp: shard_of_def object_at_store)

lemma edit_shard_quiet:
  assumes "codec_ok C" and "script w = []" and "store_wf (buckets w b)"
  shows "\<exists>w'. andThen (read_fps C b c) (\<lambda>stored.
        let (stored', changed) = apply_edits (map (\<lambda>n. (n, None)) names) stored False
        in andThen (if changed then put_bytes sha b (fp_key c) (fps_json C stored') else ret ()) f) w = f () w'
    \<and> touches b (range fp_key) w w'
    \<and> (\<forall>d x. bt_get (shard_of C (buckets w' b) d) x = (if d = c \<and> x \<in> set names then None else bt_get (shard_of C (buckets w b) d) x))"
proof -
  let ?stored = "shard_of C (buckets w b) c"
  let ?bs = "fps_json C (fold bt_remove names ?stored)"
  show ?thesis
  proof (cases "\<exists>name \<in> set names. bt_get ?stored name \<noteq> None")
    case True
    let ?w = "upd b (snd (store sha (fp_key c) ?bs (buckets w b))) w"
    have "touches b (range fp_key) w ?w"
      using touches_mono [OF touches_store [OF assms(2,3)], of "fp_key c" "range fp_key" sha ?bs] by simp
    moreover have "bt_get (shard_of C (buckets ?w b) d) x = (if d = c \<and> x \<in> set names then None else bt_get (shard_of C (buckets w b) d) x)" for d x
      using assms(1) by (auto simp: shard_of_store codec_ok_def or_default_def bt.get_fold_remove)
    moreover have "andThen (read_fps C b c) (\<lambda>stored.
        let (stored', changed) = apply_edits (map (\<lambda>n. (n, None)) names) stored False
        in andThen (if changed then put_bytes sha b (fp_key c) (fps_json C stored') else ret ()) f) w = f () ?w"
      using True assms(2) by (simp add: andThen_def read_fps_quiet apply_drops put_bytes_quiet upd_def)
    ultimately show ?thesis
      by blast
  next
    case False
    then have "bt_get (shard_of C (buckets w b) d) x = (if d = c \<and> x \<in> set names then None else bt_get (shard_of C (buckets w b) d) x)" for d x
      by auto
    then show ?thesis
      using False assms(2,3) by (intro exI [of _ w]) (auto simp: andThen_def read_fps_quiet apply_drops ret_def touches_refl)
  qed
qed

lemma edit_shards_quiet:
  assumes "codec_ok C" and "script w = []" and "store_wf (buckets w b)"
    and "\<forall>(c, es) \<in> set shards. \<exists>names. es = map (\<lambda>n. (n, None)) names"
  shows "\<exists>w'. edit_shards sha C b shards w = (Inr (), w') \<and> touches b (range fp_key) w w'
    \<and> (\<forall>c x. bt_get (shard_of C (buckets w' b) c) x =
        (if \<exists>es. (c, es) \<in> set shards \<and> x \<in> fst ` set es then None else bt_get (shard_of C (buckets w b) c) x))"
  using assms(2-4)
proof (induction shards arbitrary: w)
  case Nil
  then show ?case
    by (simp add: ret_def touches_refl)
next
  case (Cons e shards)
  obtain c names where e: "e = (c, map (\<lambda>n. (n, None)) names)"
    using Cons.prems(3) by (cases e) auto
  obtain w1 where w1: "edit_shards sha C b (e # shards) w = edit_shards sha C b shards w1" "touches b (range fp_key) w w1"
      "\<And>d x. bt_get (shard_of C (buckets w1 b) d) x = (if d = c \<and> x \<in> set names then None else bt_get (shard_of C (buckets w b) d) x)"
    using edit_shard_quiet [OF assms(1) Cons.prems(1,2), of c names sha "\<lambda>_. edit_shards sha C b shards"] by (auto simp: e)
  have "script w1 = []" "store_wf (buckets w1 b)"
    using w1(2) by (simp_all add: touches_def)
  then obtain w2 where w2: "edit_shards sha C b shards w1 = (Inr (), w2)" "touches b (range fp_key) w1 w2"
      "\<And>d x. bt_get (shard_of C (buckets w2 b) d) x =
        (if \<exists>es. (d, es) \<in> set shards \<and> x \<in> fst ` set es then None else bt_get (shard_of C (buckets w1 b) d) x)"
    using Cons.IH [of w1] Cons.prems(3) by auto
  have "touches b (range fp_key) w w2"
    using touches_trans [OF w1(2) w2(2)] by simp
  moreover have "bt_get (shard_of C (buckets w2 b) d) x =
      (if \<exists>es. (d, es) \<in> set (e # shards) \<and> x \<in> fst ` set es then None else bt_get (shard_of C (buckets w b) d) x)" for d x
  proof -
    have "(\<exists>es. (d, es) \<in> set (e # shards) \<and> x \<in> fst ` set es) \<longleftrightarrow>
        d = c \<and> x \<in> set names \<or> (\<exists>es. (d, es) \<in> set shards \<and> x \<in> fst ` set es)"
      by (auto simp: e) force+
    then show ?thesis
      unfolding w2(3) w1(3) by argo
  qed
  ultimately show ?case
    using w1(1) w2(1) by auto
qed

lemma add_to_shard_get:
  "bt_get (fold add_to_shard edits m) c =
     (let es = filter (\<lambda>e. fst e \<noteq> [] \<and> hd (fst e) = c) edits in if es = [] then bt_get m c else Some (or_default (bt_get m c) @ es))"
proof (induction edits arbitrary: m)
  case (Cons e edits)
  then show ?case
    by (cases "fst e") (auto simp: add_to_shard_def Let_def bt.get_insert or_default_def)
qed simp

lemma add_to_shard_ordered: "bt_ordered m \<Longrightarrow> bt_ordered (fold add_to_shard edits m)"
  by (induction edits arbitrary: m) (auto simp: add_to_shard_def bt.ordered_insert split: list.splits)

lemma fingerprints_dropped:
  assumes "codec_ok C" and "script w = []" and "store_wf (buckets w b)"
  shows "\<exists>w'. edit_fingerprints sha C b (map (\<lambda>n. (n, None)) names) w = (Inr (), w') \<and> touches b (range fp_key) w w'
    \<and> (\<forall>x. fingerprint C (buckets w' b) x = (if x \<in> set names then None else fingerprint C (buckets w b) x))"
proof -
  let ?edits = "map (\<lambda>n. (n, None)) names :: fp_edit list"
  let ?shards = "fold add_to_shard ?edits []"
  have entry: "(c, es) \<in> set ?shards \<longleftrightarrow> es \<noteq> [] \<and> es = map (\<lambda>n. (n, None)) (filter (\<lambda>n. n \<noteq> [] \<and> hd n = c) names)" for c es
    using bt.entries_get [OF add_to_shard_ordered [OF bt.ordered_empty], of c es ?edits]
    by (auto simp: add_to_shard_get Let_def bt.get_empty or_default_def filter_map comp_def)
  then have "\<forall>(c, es) \<in> set ?shards. \<exists>names. es = map (\<lambda>n. (n, None)) names"
    by blast
  then obtain w' where w': "edit_shards sha C b ?shards w = (Inr (), w')" "touches b (range fp_key) w w'"
      "\<And>c x. bt_get (shard_of C (buckets w' b) c) x =
        (if \<exists>es. (c, es) \<in> set ?shards \<and> x \<in> fst ` set es then None else bt_get (shard_of C (buckets w b) c) x)"
    using edit_shards_quiet [OF assms] by blast
  have "fingerprint C (buckets w' b) x = (if x \<in> set names then None else fingerprint C (buckets w b) x)" for x
  proof (cases x)
    case (Cons c r)
    have "(\<exists>es. (c, es) \<in> set ?shards \<and> x \<in> fst ` set es) \<longleftrightarrow> x \<in> set names"
      unfolding entry Cons by (auto simp: image_iff filter_empty_conv)
    then show ?thesis
      by (simp add: fingerprint_def w'(3) Cons)
  qed (simp add: fingerprint_def)
  then show ?thesis
    using w'(1,2) by (auto simp: edit_fingerprints_def)
qed

section \<open>The work list\<close>

definition marked :: "inner \<Rightarrow> string \<Rightarrow> bool" where
  "marked s pkg = (\<exists>n. contains_key s (marker_key pkg n COMMIT_SUFFIX))"

definition new_markers :: "inner \<Rightarrow> inner \<Rightarrow> string set \<Rightarrow> bool" where
  "new_markers s s' X =
     ((\<forall>k. contains_key s k \<longrightarrow> contains_key s' k)
      \<and> (\<forall>k. contains_key s' k \<longrightarrow> contains_key s k \<or> (\<exists>pkg \<in> X. \<exists>n. k = marker_key pkg n COMMIT_SUFFIX))
      \<and> (\<forall>pkg \<in> X. marked s' pkg))"

lemma new_markers_trans:
  assumes "new_markers s s1 X" and "new_markers s1 s2 Y"
  shows "new_markers s s2 (X \<union> Y)"
  using assms unfolding new_markers_def marked_def by blast

lemma mark_dirty_marks:
  assumes "script w = []" and "store_wf (buckets w b)"
  shows "\<exists>w'. mark_dirty sha b pkg w = (Inr (), w') \<and> touches b dirty_keys w w' \<and> new_markers (buckets w b) (buckets w' b) {pkg}"
proof -
  let ?k = "marker_key pkg (sim_nonce (nonce_seq w)) COMMIT_SUFFIX" and ?w = "w\<lparr>nonce_seq := nonce_seq w + 1\<rparr>"
  let ?w' = "upd b (snd (store sha ?k [] (buckets ?w b))) ?w"
  have "mark_dirty sha b pkg w = (Inr (), ?w')"
    using assms(1) by (simp add: mark_dirty_def mark_commit_def put_marker_def andThen_def nonce_quiet put_bytes_quiet upd_def)
  moreover have "touches b dirty_keys w ?w'"
    using touches_mono [OF touches_store [of ?w b ?k sha "[]"], of dirty_keys] assms by simp
  moreover have "new_markers (buckets w b) (buckets ?w' b) {pkg}"
    by (auto simp: new_markers_def marked_def contains_key_store)
  ultimately show ?thesis
    by blast
qed

lemma mark_all_marks:
  assumes "script w = []" and "store_wf (buckets w b)"
  shows "\<exists>w'. mark_all sha b names w = (Inr (), w') \<and> touches b dirty_keys w w' \<and> new_markers (buckets w b) (buckets w' b) (set names)"
  using assms
proof (induction names arbitrary: w)
  case Nil
  then show ?case
    by (simp add: ret_def touches_refl new_markers_def)
next
  case (Cons pkg names)
  obtain w1 where w1: "mark_dirty sha b pkg w = (Inr (), w1)" "touches b dirty_keys w w1" "new_markers (buckets w b) (buckets w1 b) {pkg}"
    using mark_dirty_marks [OF Cons.prems] by blast
  obtain w2 where w2: "mark_all sha b names w1 = (Inr (), w2)" "touches b dirty_keys w1 w2" "new_markers (buckets w1 b) (buckets w2 b) (set names)"
    using Cons.IH [of w1] w1(2) by (auto simp: touches_def)
  show ?case
    using w1(1) w2(1) touches_trans [OF w1(2) w2(2)] new_markers_trans [OF w1(3) w2(3)] by (simp add: andThen_def)
qed

lemma changed_names_iff:
  assumes "bt_ordered current" and "bt_ordered previous"
  shows "pkg \<in> set (changed_names first_pass current previous) \<longleftrightarrow>
    bt_get current pkg \<noteq> bt_get previous pkg \<or> (first_pass \<and> bt_get current pkg \<noteq> None)"
proof -
  have keys: "k \<in> set (bt_keys (filter Q m)) \<longleftrightarrow> (\<exists>v. bt_get m k = Some v \<and> Q (k, v))" if "bt_ordered m" for m :: stamp and k Q
    using bt.entries_get [OF that] by (auto simp: bt_keys_def image_iff Bex_def)
  have all: "k \<in> set (bt_keys m) \<longleftrightarrow> bt_get m k \<noteq> None" if "bt_ordered m" for m :: stamp and k
    using keys [OF that, of k "\<lambda>_. True"] by simp
  show ?thesis
    unfolding changed_names_def set_sorted_tokens set_append Un_iff keys [OF assms(1)] keys [OF assms(2)]
    by (cases "bt_get current pkg"; cases "bt_get previous pkg") (auto simp: all [OF assms(1)])
qed

lemma put_if_changed_quiet:
  assumes "script w = []" and "store_wf (buckets w b)"
  shows "\<exists>w'. put_if_changed sha b k bs w = (Inr (), w') \<and> touches b {k} w w'
    \<and> (\<exists>ob. object_at (buckets w' b) k = Some ob \<and> obj_bytes ob = bs)"
proof (cases "\<exists>ob. object_at (buckets w b) k = Some ob \<and> obj_bytes ob = bs")
  case True
  then show ?thesis
    using assms by (auto simp: put_if_changed_def onResult_def get_bytes_quiet ret_def touches_refl)
next
  case False
  let ?w = "upd b (snd (store sha k bs (buckets w b))) w"
  have "put_if_changed sha b k bs w = (Inr (), ?w)"
    using False assms(1) by (auto simp: put_if_changed_def onResult_def get_bytes_quiet put_bytes_quiet upd_def split: option.splits)
  moreover have "\<exists>ob. object_at (buckets ?w b) k = Some ob \<and> obj_bytes ob = bs"
    by (simp add: object_at_store)
  ultimately show ?thesis
    using touches_store [OF assms, of k sha bs] by blast
qed

section \<open>A pass is exact\<close>

definition outdated :: "bool \<Rightarrow> stamp \<Rightarrow> stamp \<Rightarrow> string \<Rightarrow> bool" where
  "outdated first_pass current previous pkg =
     (bt_get current pkg \<noteq> bt_get previous pkg \<or> (first_pass \<and> bt_get current pkg \<noteq> None))"

lemma contains_key_cong: "object_at s k = object_at s' k \<Longrightarrow> contains_key s k = contains_key s' k"
  by (simp add: contains_key_def)

lemma enforced_cong: "object_at s enforced_excludes_key = object_at s' enforced_excludes_key \<Longrightarrow> enforced C s = enforced C s'"
  by (simp add: enforced_def)

lemma fingerprint_cong: "(\<And>c. object_at s (fp_key c) = object_at s' (fp_key c)) \<Longrightarrow> fingerprint C s pkg = fingerprint C s' pkg"
  by (simp add: fingerprint_def shard_of_def split: list.split)

lemma state_key_prefix [simp]: "starts_with (fp_key c) STATE_PREFIX" "starts_with enforced_excludes_key STATE_PREFIX"
  by (simp_all add: fp_key_def enforced_excludes_key_def)

lemma write_enforced_quiet:
  assumes "codec_ok C" and "script w = []" and "store_wf (buckets w b)"
  shows "\<exists>w'. write_enforced_excludes sha C b m w = (Inr (), w') \<and> touches b {enforced_excludes_key} w w' \<and> enforced C (buckets w' b) = m"
proof -
  obtain w' ob where "put_if_changed sha b enforced_excludes_key (stamp_json C m) w = (Inr (), w')"
      "touches b {enforced_excludes_key} w w'" "object_at (buckets w' b) enforced_excludes_key = Some ob" "obj_bytes ob = stamp_json C m"
    using put_if_changed_quiet [OF assms(2,3)] by blast
  then show ?thesis
    using assms(1) by (auto simp: write_enforced_excludes_def enforced_def codec_ok_def or_default_def)
qed


lemma reconcile_run:
  assumes ok: "codec_ok C" and "script w = []" and "store_wf (buckets w b)"
    and work: "\<not> (current = enforced C (buckets w b) \<and> (\<not> first_pass \<or> current = []))" and current: "current = canonical P deny"
  shows "\<exists>w'. reconcile_excludes sha P C (Some deny) b first_pass w = (Inr (), w')
    \<and> (let names = changed_names first_pass current (enforced C (buckets w b)) in
       script w' = [] \<and> enforced C (buckets w' b) = current
       \<and> (\<forall>pkg. fingerprint C (buckets w' b) pkg = (if pkg \<in> set names then None else fingerprint C (buckets w b) pkg))
       \<and> (\<forall>pkg \<in> set names. marked (buckets w' b) pkg)
       \<and> (\<forall>k. \<not> starts_with k STATE_PREFIX \<longrightarrow> contains_key (buckets w' b) k \<longrightarrow>
            contains_key (buckets w b) k \<or> (\<exists>pkg \<in> set names. \<exists>n. k = marker_key pkg n COMMIT_SUFFIX))
       \<and> (\<forall>k. \<not> starts_with k STATE_PREFIX \<longrightarrow> \<not> starts_with k DIRTY_PREFIX \<longrightarrow>
            object_at (buckets w' b) k = object_at (buckets w b) k))"
proof -
  let ?previous = "enforced C (buckets w b)"
  let ?names = "changed_names first_pass current ?previous"
  obtain r where r: "read_enforced_excludes C b w = (Inr r, w)" "or_default r = ?previous"
    using read_enforced_quiet [OF assms(2)] by blast
  obtain w1 where w1: "edit_fingerprints sha C b (map (\<lambda>n. (n, None)) ?names) w = (Inr (), w1)" "touches b (range fp_key) w w1"
      "\<And>x. fingerprint C (buckets w1 b) x = (if x \<in> set ?names then None else fingerprint C (buckets w b) x)"
    using fingerprints_dropped [OF assms(1-3)] by blast
  obtain w2 where w2: "mark_all sha b ?names w1 = (Inr (), w2)" "touches b dirty_keys w1 w2" "new_markers (buckets w1 b) (buckets w2 b) (set ?names)"
    using mark_all_marks [of w1 b sha ?names] w1(2) unfolding touches_def by blast
  have same: "enforced C (buckets w2 b) = ?previous" "\<And>x. fingerprint C (buckets w2 b) x = fingerprint C (buckets w1 b) x"
    using touches_at [OF w1(2)] touches_at [OF w2(2)] by (auto intro!: enforced_cong fingerprint_cong)
  obtain w3 where w3: "(if current \<noteq> ?previous then write_enforced_excludes sha C b current else ret ()) w2 = (Inr (), w3)"
      "touches b {enforced_excludes_key} w2 w3" "enforced C (buckets w3 b) = current"
  proof (cases "current = ?previous")
    case True
    then show ?thesis
      using that [of w2] w2(2) same(1) by (auto simp: ret_def touches_def)
  next
    case False
    then show ?thesis
      using that write_enforced_quiet [OF ok, of w2 b sha current] w2(2) by (auto simp: touches_def)
  qed
  have run: "reconcile_excludes sha P C (Some deny) b first_pass w = (Inr (), w3)"
    using work r w1(1) w2(1) w3(1) by (simp add: reconcile_excludes_def Let_def andThen_def current [symmetric] split: if_splits)
  have k13: "object_at (buckets w1 b) k = object_at (buckets w b) k" "object_at (buckets w3 b) k = object_at (buckets w2 b) k"
    if "\<not> starts_with k STATE_PREFIX" for k
    using touches_at [OF w1(2)] touches_at [OF w3(2)] that state_key_prefix by (metis rangeE, metis singletonD)
  have "marked (buckets w3 b) pkg" if pkg: "pkg \<in> set ?names" for pkg
  proof -
    obtain n where "contains_key (buckets w2 b) (marker_key pkg n COMMIT_SUFFIX)"
      using w2(3) pkg by (auto simp: new_markers_def marked_def)
    moreover have "\<not> starts_with (marker_key pkg n COMMIT_SUFFIX) STATE_PREFIX"
      by (simp add: marker_key_def DIRTY_PREFIX_def STATE_PREFIX_def)
    ultimately show ?thesis
      using contains_key_cong [OF k13(2)] by (auto simp: marked_def)
  qed
  moreover have "contains_key (buckets w b) k \<or> (\<exists>pkg \<in> set ?names. \<exists>n. k = marker_key pkg n COMMIT_SUFFIX)"
    if "\<not> starts_with k STATE_PREFIX" "contains_key (buckets w3 b) k" for k
    using w2(3) that contains_key_cong [OF k13(1) [OF that(1)]] contains_key_cong [OF k13(2) [OF that(1)]] unfolding new_markers_def by blast
  moreover have "object_at (buckets w3 b) k = object_at (buckets w b) k" if "\<not> starts_with k STATE_PREFIX" "\<not> starts_with k DIRTY_PREFIX" for k
    using k13 [OF that(1)] touches_at [OF w2(2), of k] that(2) by (simp add: dirty_keys_def)
  moreover have "fingerprint C (buckets w3 b) pkg = (if pkg \<in> set ?names then None else fingerprint C (buckets w b) pkg)" for pkg
    using fingerprint_cong [of "buckets w3 b" "buckets w2 b" C pkg] touches_at [OF w3(2)] same(2) w1(3) by simp
  moreover have "script w3 = []"
    using w3(2) by (simp add: touches_def)
  ultimately show ?thesis
    using run w3(3) by (auto simp: Let_def)
qed


text \<open>Documents written in unary, so that every one reads back.\<close>

definition unary_codec :: state_codec where
  "unary_codec =
     \<lparr>stamp_json = (\<lambda>m. replicate (to_nat m) CHR ''1''), stamp_from_json = (\<lambda>bs. Some (from_nat (length bs))),
      fps_json = (\<lambda>m. replicate (to_nat m) CHR ''1''), fps_from_json = (\<lambda>bs. Some (from_nat (length bs)))\<rparr>"

lemma unary_codec_ok: "codec_ok unary_codec"
  by (simp add: codec_ok_def unary_codec_def)


end
