(* ===== verification/Bucket_Health.thy ===== *)
theory Bucket_Health
  imports Prelude
begin

text \<open>
  Health and selection of buckets on one node (\<open>src/bucket_health.rs\<close>): the classification of storage
  signals, the hysteresis of each bucket, the write selection and the read pin, and the controller
  that hands work to the worker. Instants are numbers; \<open>saturating_duration_since\<close> is subtraction on
  naturals. A method that takes the lock is one step on the controller state.
\<close>

section \<open>Definitions\<close>

subsection \<open>Signals\<close>

type_synonym u32 = "32 word"

datatype signal_class = HealthySignal | AvailabilityFailure | IgnoredSignal

fun classify_signal :: "bucket_signal \<Rightarrow> signal_class" where
  "classify_signal Success = HealthySignal"
| "classify_signal Timeout = AvailabilityFailure"
| "classify_signal ConnectionFailure = AvailabilityFailure"
| "classify_signal (HttpStatus s) =
     (if s = 408 \<or> (500 \<le> s \<and> s \<le> 599) then AvailabilityFailure
      else if 200 \<le> s \<and> s \<le> 399 then HealthySignal
      else IgnoredSignal)"
| "classify_signal KmsError = IgnoredSignal"
| "classify_signal QuotaError = IgnoredSignal"
| "classify_signal ConfigurationError = IgnoredSignal"
| "classify_signal OtherError = IgnoredSignal"

subsection \<open>State\<close>

datatype health_state = UnknownHealth | HealthyState | Unhealthy

record health_policy =
  leave_after_failures :: u32
  return_after_healthy :: nat

datatype health_config_error = NoBuckets | ZeroLeaveThreshold

definition health_policy_new :: "u32 \<Rightarrow> nat \<Rightarrow> health_config_error + health_policy" where
  "health_policy_new leave return_after =
     (if leave = 0 then Inl ZeroLeaveThreshold else Inr \<lparr>leave_after_failures = leave, return_after_healthy = return_after\<rparr>)"

record invalid_bucket =
  ib_index :: nat
  ib_count :: nat

record selection_change =
  sc_from :: nat
  sc_to :: nat

datatype read_pin = FollowWrite | Earned

definition next_read_pin :: "read_pin \<Rightarrow> bool \<Rightarrow> bool \<Rightarrow> bool \<Rightarrow> read_pin" where
  "next_read_pin pin is_usable served_window caught_up =
     (case pin of
        Earned \<Rightarrow> if \<not> is_usable then FollowWrite else Earned
      | FollowWrite \<Rightarrow> if is_usable \<and> served_window \<and> caught_up then Earned else FollowWrite)"

record health_update =
  up_selected :: nat
  up_change :: "selection_change option"
  up_read_selected :: nat
  up_read_change :: "selection_change option"

datatype topology = VerifiedTop | PendingTop | CheckingTop

record bucket_status =
  bs_state :: health_state
  consecutive_failures :: u32
  healthy_since :: "nat option"
  bs_topology :: topology

definition status_new :: "health_state \<Rightarrow> bucket_status" where
  "status_new st = \<lparr>bs_state = st, consecutive_failures = 0, healthy_since = None, bs_topology = VerifiedTop\<rparr>"

definition status_usable :: "bucket_status \<Rightarrow> bool" where
  "status_usable x = (bs_state x = HealthyState \<and> bs_topology x = VerifiedTop)"

definition status_served :: "bucket_status \<Rightarrow> nat \<Rightarrow> nat \<Rightarrow> bool" where
  "status_served x window now =
     (status_usable x \<and> (case healthy_since x of None \<Rightarrow> False | Some since \<Rightarrow> window \<le> now - since))"

record bucket_health =
  hl_policy :: health_policy
  hl_buckets :: "bucket_status list"
  hl_selected :: nat
  read_preference :: "nat option"
  hl_read_pin :: read_pin

record worker_health_snapshot =
  ws_selected :: nat
  ws_change :: "selection_change option"
  ws_read_selected :: nat
  ws_read_change :: "selection_change option"
  ws_states :: "health_state list"
  topology_revalidation :: "nat list"
  ws_alarms :: "u64 list"

record controller =
  ct_health :: bucket_health
  applied_selected :: nat
  applied_read_selected :: nat
  ct_alarms :: "u64 list"

subsection \<open>Selection\<close>

definition health_new :: "nat \<Rightarrow> health_policy \<Rightarrow> health_config_error + bucket_health" where
  "health_new bucket_count policy =
     (if bucket_count = 0 then Inl NoBuckets
      else if leave_after_failures policy = 0 then Inl ZeroLeaveThreshold
      else Inr \<lparr>hl_policy = policy,
                hl_buckets = (replicate bucket_count (status_new UnknownHealth))[0 := status_new HealthyState],
                hl_selected = 0, read_preference = None, hl_read_pin = FollowWrite\<rparr>)"

definition read_index :: "bucket_health \<Rightarrow> nat" where
  "read_index h =
     (case (read_preference h, hl_read_pin h) of
        (Some region, Earned) \<Rightarrow> region
      | _ \<Rightarrow> hl_selected h)"

definition health_usable :: "bucket_health \<Rightarrow> nat \<Rightarrow> bool" where
  "health_usable h i = (i < length (hl_buckets h) \<and> status_usable (hl_buckets h ! i))"

definition set_read_affinity :: "nat \<Rightarrow> bool \<Rightarrow> bucket_health \<Rightarrow> bucket_health" where
  "set_read_affinity preference earned h =
     h\<lparr>read_preference := Some preference,
       hl_read_pin := next_read_pin (if earned then Earned else FollowWrite) (health_usable h preference) False False\<rparr>"

text \<open>\<open>iter().position(p)\<close>.\<close>

fun position :: "('a \<Rightarrow> bool) \<Rightarrow> 'a list \<Rightarrow> nat option" where
  "position p [] = None"
| "position p (x # xs) = (if p x then Some 0 else map_option Suc (position p xs))"

definition next_selected :: "nat \<Rightarrow> bool \<Rightarrow> bucket_health \<Rightarrow> nat" where
  "next_selected now from_tick h =
     (let current = hl_buckets h ! hl_selected h; window = return_after_healthy (hl_policy h)
      in if bs_state current = Unhealthy \<or> (from_tick \<and> \<not> status_usable current)
         then (case position status_usable (hl_buckets h) of Some i \<Rightarrow> i | None \<Rightarrow> hl_selected h)
         else (case position (\<lambda>x. status_served x window now) (take (hl_selected h) (hl_buckets h)) of
                 Some i \<Rightarrow> i | None \<Rightarrow> hl_selected h))"

definition change :: "nat \<Rightarrow> nat \<Rightarrow> selection_change option" where
  "change previous now = (if now \<noteq> previous then Some \<lparr>sc_from = previous, sc_to = now\<rparr> else None)"

definition evaluate :: "nat \<Rightarrow> bool \<Rightarrow> bool \<Rightarrow> bucket_health \<Rightarrow> health_update \<times> bucket_health" where
  "evaluate now region_caught_up from_tick h =
     (let previous = hl_selected h; previous_read = read_index h;
          window = return_after_healthy (hl_policy h);
          h1 = h\<lparr>hl_selected := next_selected now from_tick h\<rparr>;
          h2 = (case read_preference h1 of
                  Some region \<Rightarrow>
                    if region < length (hl_buckets h1) then
                      (let bucket = hl_buckets h1 ! region
                       in h1\<lparr>hl_read_pin := next_read_pin (hl_read_pin h1) (status_usable bucket)
                                            (status_served bucket window now) region_caught_up\<rparr>)
                    else h1
                | None \<Rightarrow> h1)
      in (\<lparr>up_selected = hl_selected h2, up_change = change previous (hl_selected h2),
           up_read_selected = read_index h2, up_read_change = change previous_read (read_index h2)\<rparr>, h2))"

definition saturating_inc :: "'a::len word \<Rightarrow> 'a word" where
  "saturating_inc x = (if x = - 1 then x else x + 1)"

definition observe_bucket :: "u32 \<Rightarrow> bucket_signal \<Rightarrow> nat \<Rightarrow> bucket_status \<Rightarrow> bucket_status" where
  "observe_bucket leave signal now x =
     (case classify_signal signal of
        HealthySignal \<Rightarrow>
          (let x1 = (if bs_state x \<noteq> HealthyState then x\<lparr>bs_topology := PendingTop\<rparr> else x);
               x2 = x1\<lparr>bs_state := HealthyState, consecutive_failures := 0\<rparr>
           in if healthy_since x2 = None then x2\<lparr>healthy_since := Some now\<rparr> else x2)
      | AvailabilityFailure \<Rightarrow>
          (let x1 = x\<lparr>consecutive_failures := saturating_inc (consecutive_failures x), healthy_since := None\<rparr>
           in if leave \<le> consecutive_failures x1 then x1\<lparr>bs_state := Unhealthy\<rparr> else x1)
      | IgnoredSignal \<Rightarrow> x)"

definition health_observe :: "nat \<Rightarrow> bucket_signal \<Rightarrow> nat \<Rightarrow> bucket_health \<Rightarrow> (invalid_bucket + health_update) \<times> bucket_health" where
  "health_observe i signal now h =
     (if length (hl_buckets h) \<le> i then (Inl \<lparr>ib_index = i, ib_count = length (hl_buckets h)\<rparr>, h)
      else
        (let leave = leave_after_failures (hl_policy h);
             (u, h') = evaluate now False False (h\<lparr>hl_buckets := (hl_buckets h)[i := observe_bucket leave signal now (hl_buckets h ! i)]\<rparr>)
         in (Inr u, h')))"

definition health_tick :: "nat \<Rightarrow> bool \<Rightarrow> bucket_health \<Rightarrow> health_update \<times> bucket_health" where
  "health_tick now region_caught_up h = evaluate now region_caught_up True h"

subsection \<open>The controller\<close>

definition controller_new :: "nat \<Rightarrow> health_policy \<Rightarrow> health_config_error + controller" where
  "controller_new bucket_count policy =
     (case health_new bucket_count policy of
        Inl e \<Rightarrow> Inl e
      | Inr h \<Rightarrow> Inr \<lparr>ct_health = h, applied_selected = 0, applied_read_selected = 0, ct_alarms = replicate bucket_count 0\<rparr>)"

definition bucket_count :: "controller \<Rightarrow> nat" where
  "bucket_count c = length (hl_buckets (ct_health c))"

definition validate_bucket :: "controller \<Rightarrow> nat \<Rightarrow> invalid_bucket + unit" where
  "validate_bucket c i = (if i < bucket_count c then Inr () else Inl \<lparr>ib_index = i, ib_count = bucket_count c\<rparr>)"

definition bucket_eligible :: "controller \<Rightarrow> nat \<Rightarrow> invalid_bucket + bool" where
  "bucket_eligible c i =
     (if i < bucket_count c
      then (let x = hl_buckets (ct_health c) ! i in Inr (bs_state x \<noteq> Unhealthy \<and> bs_topology x = VerifiedTop))
      else Inl \<lparr>ib_index = i, ib_count = bucket_count c\<rparr>)"

definition apply_selection :: "nat \<Rightarrow> controller \<Rightarrow> bool \<times> controller" where
  "apply_selection to c =
     (if hl_selected (ct_health c) = to \<and> health_usable (ct_health c) to then (True, c\<lparr>applied_selected := to\<rparr>) else (False, c))"

definition apply_read_selection :: "nat \<Rightarrow> controller \<Rightarrow> bool \<times> controller" where
  "apply_read_selection to c =
     (if read_index (ct_health c) = to \<and> health_usable (ct_health c) to then (True, c\<lparr>applied_read_selected := to\<rparr>) else (False, c))"

definition configure_read_affinity :: "nat \<Rightarrow> bool \<Rightarrow> controller \<Rightarrow> (invalid_bucket + bool) \<times> controller" where
  "configure_read_affinity preference earned c =
     (case validate_bucket c preference of
        Inl e \<Rightarrow> (Inl e, c)
      | Inr _ \<Rightarrow>
          (let h = set_read_affinity preference earned (ct_health c);
               pinned = (hl_read_pin h = Earned)
           in (Inr pinned, c\<lparr>ct_health := h, applied_read_selected := (if pinned then preference else applied_selected c)\<rparr>)))"

definition read_return_pending :: "controller \<Rightarrow> nat option" where
  "read_return_pending c =
     (case read_preference (ct_health c) of
        None \<Rightarrow> None
      | Some region \<Rightarrow> if applied_read_selected c \<noteq> region \<and> health_usable (ct_health c) region then Some region else None)"

definition with_bucket :: "nat \<Rightarrow> (bucket_status \<Rightarrow> bucket_status) \<Rightarrow> controller \<Rightarrow> (invalid_bucket + unit) \<times> controller" where
  "with_bucket i update c =
     (let h = ct_health c in
      if i < length (hl_buckets h)
      then (Inr (), c\<lparr>ct_health := h\<lparr>hl_buckets := (hl_buckets h)[i := update (hl_buckets h ! i)]\<rparr>\<rparr>)
      else (Inl \<lparr>ib_index = i, ib_count = length (hl_buckets h)\<rparr>, c))"

definition topology_revalidated :: "nat \<Rightarrow> controller \<Rightarrow> (invalid_bucket + unit) \<times> controller" where
  "topology_revalidated i = with_bucket i (\<lambda>x. x\<lparr>bs_topology := VerifiedTop\<rparr>)"

definition topology_check_passed :: "nat \<Rightarrow> controller \<Rightarrow> (invalid_bucket + unit) \<times> controller" where
  "topology_check_passed i = with_bucket i (\<lambda>x. if bs_topology x = CheckingTop then x\<lparr>bs_topology := VerifiedTop\<rparr> else x)"

definition observe_at :: "nat \<Rightarrow> bucket_signal \<Rightarrow> nat \<Rightarrow> controller \<Rightarrow> (invalid_bucket + unit) \<times> controller" where
  "observe_at i signal now c =
     (case health_observe i signal now (ct_health c) of
        (Inl e, h) \<Rightarrow> (Inl e, c\<lparr>ct_health := h\<rparr>)
      | (Inr _, h) \<Rightarrow>
          (Inr (), c\<lparr>ct_health := h,
                     ct_alarms := (if classify_signal signal = IgnoredSignal
                                   then (ct_alarms c)[i := saturating_inc (ct_alarms c ! i)] else ct_alarms c)\<rparr>))"

definition to_check :: "bucket_status \<Rightarrow> bucket_status" where
  "to_check x = (if bs_topology x \<noteq> VerifiedTop then x\<lparr>bs_topology := CheckingTop\<rparr> else x)"

definition worker_tick_at :: "nat \<Rightarrow> bool \<Rightarrow> controller \<Rightarrow> worker_health_snapshot \<times> controller" where
  "worker_tick_at now region_caught_up c =
     (let (_, h) = health_tick now region_caught_up (ct_health c);
          sel = hl_selected h;
          (read_sel, read_change) =
            (if read_preference h \<noteq> None then (read_index h, change (applied_read_selected c) (read_index h)) else (sel, None));
          unverified = filter (\<lambda>i. bs_topology (hl_buckets h ! i) \<noteq> VerifiedTop) [0..<length (hl_buckets h)];
          h' = h\<lparr>hl_buckets := map to_check (hl_buckets h)\<rparr>
      in (\<lparr>ws_selected = sel, ws_change = change (applied_selected c) sel, ws_read_selected = read_sel, ws_read_change = read_change,
           ws_states = map bs_state (hl_buckets h'), topology_revalidation = unverified, ws_alarms = ct_alarms c\<rparr>,
          c\<lparr>ct_health := h', ct_alarms := replicate (length (ct_alarms c)) 0\<rparr>))"

section \<open>Steps of the controller\<close>

datatype health_op =
    Observe nat bucket_signal nat
  | Tick nat bool
  | Revalidated nat
  | CheckPassed nat
  | ApplyWrite nat
  | ApplyRead nat
  | Configure nat bool

inductive health_step :: "health_op \<Rightarrow> controller \<Rightarrow> controller \<Rightarrow> bool" where
  observed: "observe_at i signal now c = (r, c') \<Longrightarrow> health_step (Observe i signal now) c c'"
| ticked: "worker_tick_at now caught_up c = (snap, c') \<Longrightarrow> health_step (Tick now caught_up) c c'"
| revalidated: "topology_revalidated i c = (r, c') \<Longrightarrow> health_step (Revalidated i) c c'"
| checked: "topology_check_passed i c = (r, c') \<Longrightarrow> health_step (CheckPassed i) c c'"
| applied: "apply_selection i c = (r, c') \<Longrightarrow> health_step (ApplyWrite i) c c'"
| applied_read: "apply_read_selection i c = (r, c') \<Longrightarrow> health_step (ApplyRead i) c c'"
| configured: "configure_read_affinity i earned c = (r, c') \<Longrightarrow> health_step (Configure i earned) c c'"

inductive health_reachable :: "controller \<Rightarrow> bool" where
  start: "controller_new n policy = Inr c \<Longrightarrow> health_reachable c"
| step: "health_reachable c \<Longrightarrow> health_step op c c' \<Longrightarrow> health_reachable c'"

fun op_now :: "health_op \<Rightarrow> nat" where
  "op_now (Observe i signal now) = now"
| "op_now (Tick now caught_up) = now"
| "op_now _ = 0"

section \<open>One bucket\<close>

lemma unat_saturating_inc: "unat (saturating_inc (x :: u32)) = min (Suc (unat x)) (2 ^ 32 - 1)"
proof (cases "x = - 1")
  case True
  have "unat (- 1 :: u32) = 2 ^ 32 - 1"
    by (simp add: unsigned_minus_1_eq_mask mask_eq_exp_minus_1)
  with True show ?thesis
    by (simp add: saturating_inc_def)
next
  case False
  then have "1 + x \<noteq> 0"
    by (metis add.commute add_eq_0_iff)
  then have "unat (x + 1) = Suc (unat x)"
    by (simp add: unatSuc add.commute)
  moreover have "unat (x + 1) < 2 ^ 32"
    using unsigned_less [of "x + 1", where ?'a = nat] by simp
  ultimately show ?thesis
    using False by (simp add: saturating_inc_def)
qed

lemma saturating_inc_mono:
  fixes k x :: u32
  assumes "k \<le> x"
  shows "k \<le> saturating_inc x"
proof -
  have "unat k < 2 ^ 32"
    using unsigned_less [of k, where ?'a = nat] by simp
  then show ?thesis
    using assms by (simp add: word_le_nat_alt unat_saturating_inc)
qed

definition bucket_ok :: "u32 \<Rightarrow> bucket_status \<Rightarrow> bool" where
  "bucket_ok leave x =
     ((bs_state x = Unhealthy \<longleftrightarrow> leave \<le> consecutive_failures x)
      \<and> (healthy_since x \<noteq> None \<longrightarrow> bs_state x = HealthyState \<and> consecutive_failures x = 0)
      \<and> (bs_state x = UnknownHealth \<longrightarrow> bs_topology x = VerifiedTop))"

lemma bucket_ok_new: "leave \<noteq> 0 \<Longrightarrow> st \<noteq> Unhealthy \<Longrightarrow> bucket_ok leave (status_new st)"
  by (simp add: bucket_ok_def status_new_def)

lemma bucket_ok_observe: "leave \<noteq> 0 \<Longrightarrow> bucket_ok leave x \<Longrightarrow> bucket_ok leave (observe_bucket leave signal now x)"
  using saturating_inc_mono [of leave "consecutive_failures x"]
  by (auto simp: bucket_ok_def observe_bucket_def Let_def split: signal_class.split)

lemma bucket_ok_verify: "bucket_ok leave x \<Longrightarrow> bucket_ok leave (x\<lparr>bs_topology := VerifiedTop\<rparr>)"
  by (auto simp: bucket_ok_def)

lemma bucket_ok_to_check: "bucket_ok leave x \<Longrightarrow> bucket_ok leave (to_check x)"
  by (auto simp: bucket_ok_def to_check_def)

lemma usable_to_check [simp]: "status_usable (to_check x) = status_usable x"
  by (simp add: status_usable_def to_check_def)

lemma to_check_simps [simp]: "bs_state (to_check x) = bs_state x" "healthy_since (to_check x) = healthy_since x"
  by (simp_all add: to_check_def)

subsection \<open>What a history of signals amounts to\<close>

type_synonym history = "(bucket_signal \<times> nat) list"

definition observe_all :: "u32 \<Rightarrow> history \<Rightarrow> bucket_status \<Rightarrow> bucket_status" where
  "observe_all leave hist x = foldl (\<lambda>x (signal, now). observe_bucket leave signal now x) x hist"

text \<open>The signals that count, latest first, and the runs at their head.\<close>

definition counted :: "history \<Rightarrow> history" where
  "counted hist = rev (filter (\<lambda>(signal, now). classify_signal signal \<noteq> IgnoredSignal) hist)"

definition failure_run :: "history \<Rightarrow> nat" where
  "failure_run hist = length (takeWhile (\<lambda>(signal, now). classify_signal signal = AvailabilityFailure) (counted hist))"

definition healthy_run :: "history \<Rightarrow> history" where
  "healthy_run hist = takeWhile (\<lambda>(signal, now). classify_signal signal = HealthySignal) (counted hist)"

lemma counted_snoc:
  "counted (hist @ [(signal, now)]) = (if classify_signal signal = IgnoredSignal then counted hist else (signal, now) # counted hist)"
  by (simp add: counted_def)

lemma failure_run_snoc:
  "failure_run (hist @ [(signal, now)]) =
     (case classify_signal signal of IgnoredSignal \<Rightarrow> failure_run hist | AvailabilityFailure \<Rightarrow> Suc (failure_run hist) | HealthySignal \<Rightarrow> 0)"
  by (simp add: failure_run_def counted_snoc split: signal_class.split)

lemma healthy_run_snoc:
  "healthy_run (hist @ [(signal, now)]) =
     (case classify_signal signal of IgnoredSignal \<Rightarrow> healthy_run hist | AvailabilityFailure \<Rightarrow> [] | HealthySignal \<Rightarrow> (signal, now) # healthy_run hist)"
  by (simp add: healthy_run_def counted_snoc split: signal_class.split)

lemma observe_all_snoc: "observe_all leave (hist @ [(signal, now)]) x = observe_bucket leave signal now (observe_all leave hist x)"
  by (simp add: observe_all_def)

lemma history_counts:
  assumes "leave \<noteq> 0" and "st \<noteq> Unhealthy"
  shows "unat (consecutive_failures (observe_all leave hist (status_new st))) = min (failure_run hist) (2 ^ 32 - 1)"
    and "healthy_since (observe_all leave hist (status_new st)) =
      (if healthy_run hist = [] then None else Some (snd (last (healthy_run hist))))"
proof (induction hist rule: rev_induct)
  case Nil
  show "unat (consecutive_failures (observe_all leave [] (status_new st))) = min (failure_run []) (2 ^ 32 - 1)"
    and "healthy_since (observe_all leave [] (status_new st)) = (if healthy_run [] = [] then None else Some (snd (last (healthy_run []))))"
    by (simp_all add: observe_all_def status_new_def failure_run_def healthy_run_def counted_def)
next
  case (snoc e hist)
  obtain signal now where e: "e = (signal, now)"
    by (cases e)
  show "unat (consecutive_failures (observe_all leave (hist @ [e]) (status_new st))) = min (failure_run (hist @ [e])) (2 ^ 32 - 1)"
    using snoc(1) by (auto simp: e observe_all_snoc failure_run_snoc observe_bucket_def Let_def unat_saturating_inc split: signal_class.split)
  show "healthy_since (observe_all leave (hist @ [e]) (status_new st)) =
      (if healthy_run (hist @ [e]) = [] then None else Some (snd (last (healthy_run (hist @ [e])))))"
    using snoc(2) by (auto simp: e observe_all_snoc healthy_run_snoc observe_bucket_def Let_def split: signal_class.split)
qed

lemma history_ok: "leave \<noteq> 0 \<Longrightarrow> st \<noteq> Unhealthy \<Longrightarrow> bucket_ok leave (observe_all leave hist (status_new st))"
proof (induction hist rule: rev_induct)
  case (snoc e hist)
  then show ?case
    by (cases e) (simp add: observe_all_snoc bucket_ok_observe)
qed (simp add: observe_all_def bucket_ok_new)

text \<open>
  A bucket is unhealthy exactly when its latest counted signals are a run of availability failures
  at least as long as the policy says. Timeouts, connection failures, 408 and 5xx count; success, 2xx
  and 3xx end the run; authentication, conditional-write, KMS, quota and configuration errors neither
  count nor end it. A bucket is known to be healthy since the first success of the latest run of
  successes, and one failure forgets it.
\<close>

theorem unhealthy_iff_failure_run:
  assumes "leave \<noteq> 0" and "st \<noteq> Unhealthy"
  shows "(bs_state (observe_all leave hist (status_new st)) = Unhealthy \<longleftrightarrow> unat leave \<le> failure_run hist)
    \<and> healthy_since (observe_all leave hist (status_new st)) =
        (if healthy_run hist = [] then None else Some (snd (last (healthy_run hist))))"
proof -
  have "unat leave < 2 ^ 32"
    using unsigned_less [of leave, where ?'a = nat] by simp
  then have "leave \<le> consecutive_failures (observe_all leave hist (status_new st)) \<longleftrightarrow> unat leave \<le> failure_run hist"
    by (simp add: word_le_nat_alt history_counts(1) [OF assms])
  then show ?thesis
    using history_ok [OF assms, of hist] history_counts(2) [OF assms] by (simp add: bucket_ok_def)
qed

theorem unhealthy_iff_failure_run_witness:
  "bs_state (observe_all 3 [(Timeout, 1), (Success, 2), (Timeout, 3), (HttpStatus 403, 4), (HttpStatus 503, 5), (Timeout, 6)]
     (status_new HealthyState)) = Unhealthy
   \<and> bs_state (observe_all 3 [(Timeout, 1), (Timeout, 2), (HttpStatus 404, 3)] (status_new HealthyState)) \<noteq> Unhealthy"
proof -
  have "failure_run [(Timeout, 1), (Success, 2), (Timeout, 3), (HttpStatus 403, 4), (HttpStatus 503, 5), (Timeout, 6)] = 3"
    "failure_run [(Timeout, 1), (Timeout, 2), (HttpStatus 404, 3)] = 2" "unat (3 :: u32) = 3"
    by code_simp+
  then show ?thesis
    using unhealthy_iff_failure_run [of 3 HealthyState] by simp
qed

section \<open>Selection\<close>

lemma position_Some: "position p xs = Some i \<longleftrightarrow> i < length xs \<and> p (xs ! i) \<and> (\<forall>j < i. \<not> p (xs ! j))"
proof (induction xs arbitrary: i)
  case (Cons x xs)
  show ?case
  proof (cases "p x")
    case True
    then show ?thesis
      by (cases i) auto
  next
    case False
    then show ?thesis
      by (cases i) (auto simp: Cons less_Suc_eq_0_disj)
  qed
qed simp

lemma position_None: "position p xs = None \<longleftrightarrow> (\<forall>x \<in> set xs. \<not> p x)"
  by (induction xs) auto

definition health_ok :: "bucket_health \<Rightarrow> bool" where
  "health_ok h =
     (hl_selected h < length (hl_buckets h) \<and> leave_after_failures (hl_policy h) \<noteq> 0
      \<and> list_all (bucket_ok (leave_after_failures (hl_policy h))) (hl_buckets h)
      \<and> (case read_preference h of None \<Rightarrow> True | Some region \<Rightarrow> region < length (hl_buckets h))
      \<and> (hl_read_pin h = Earned \<longrightarrow> (\<exists>region. read_preference h = Some region \<and> health_usable h region)))"

text \<open>Everything but the earned pin, which an observation may break until the next evaluation.\<close>

definition health_shape :: "bucket_health \<Rightarrow> bool" where
  "health_shape h =
     (hl_selected h < length (hl_buckets h) \<and> leave_after_failures (hl_policy h) \<noteq> 0
      \<and> list_all (bucket_ok (leave_after_failures (hl_policy h))) (hl_buckets h)
      \<and> (case read_preference h of None \<Rightarrow> hl_read_pin h = FollowWrite | Some region \<Rightarrow> region < length (hl_buckets h)))"

lemma health_ok_shape: "health_ok h \<Longrightarrow> health_shape h"
  by (cases "hl_read_pin h") (auto simp: health_ok_def health_shape_def split: option.splits)

lemma next_selected_moves:
  assumes "hl_selected h < length (hl_buckets h)"
  shows "next_selected now from_tick h < length (hl_buckets h)"
    and "next_selected now from_tick h \<noteq> hl_selected h \<Longrightarrow>
      health_usable h (next_selected now from_tick h)
      \<and> (\<not> health_usable h (hl_selected h) \<and> (\<forall>j < next_selected now from_tick h. \<not> health_usable h j)
         \<or> next_selected now from_tick h < hl_selected h
           \<and> status_served (hl_buckets h ! next_selected now from_tick h) (return_after_healthy (hl_policy h)) now)"
proof -
  let ?cur = "hl_buckets h ! hl_selected h" and ?window = "return_after_healthy (hl_policy h)"
  consider (leave) i where "bs_state ?cur = Unhealthy \<or> (from_tick \<and> \<not> status_usable ?cur)" "position status_usable (hl_buckets h) = Some i"
      "next_selected now from_tick h = i"
    | (stay) "next_selected now from_tick h = hl_selected h"
    | (return_to) i where "position (\<lambda>x. status_served x ?window now) (take (hl_selected h) (hl_buckets h)) = Some i" "next_selected now from_tick h = i"
  proof (cases "bs_state ?cur = Unhealthy \<or> (from_tick \<and> \<not> status_usable ?cur)")
    case True
    then show ?thesis
      using leave stay by (cases "position status_usable (hl_buckets h)") (simp_all add: next_selected_def Let_def)
  next
    case False
    have "next_selected now from_tick h =
        (case position (\<lambda>x. status_served x ?window now) (take (hl_selected h) (hl_buckets h)) of Some i \<Rightarrow> i | None \<Rightarrow> hl_selected h)"
      unfolding next_selected_def Let_def if_not_P [OF False] ..
    then show ?thesis
      using stay return_to by (cases "position (\<lambda>x. status_served x ?window now) (take (hl_selected h) (hl_buckets h))") simp_all
  qed
  then have "next_selected now from_tick h < length (hl_buckets h) \<and> (next_selected now from_tick h \<noteq> hl_selected h \<longrightarrow>
      health_usable h (next_selected now from_tick h)
      \<and> (\<not> health_usable h (hl_selected h) \<and> (\<forall>j < next_selected now from_tick h. \<not> health_usable h j)
         \<or> next_selected now from_tick h < hl_selected h
           \<and> status_served (hl_buckets h ! next_selected now from_tick h) ?window now))"
  proof cases
    case leave
    then have "\<not> status_usable ?cur"
      by (auto simp: status_usable_def)
    with leave(2,3) show ?thesis
      by (auto simp: position_Some health_usable_def)
  next
    case stay
    with assms show ?thesis
      by simp
  next
    case return_to
    then show ?thesis
      by (auto simp: position_Some health_usable_def status_served_def)
  qed
  then show "next_selected now from_tick h < length (hl_buckets h)"
    and "next_selected now from_tick h \<noteq> hl_selected h \<Longrightarrow>
      health_usable h (next_selected now from_tick h)
      \<and> (\<not> health_usable h (hl_selected h) \<and> (\<forall>j < next_selected now from_tick h. \<not> health_usable h j)
         \<or> next_selected now from_tick h < hl_selected h
           \<and> status_served (hl_buckets h ! next_selected now from_tick h) ?window now)"
    by simp_all
qed

lemma evaluate_fields:
  "hl_buckets (snd (evaluate now caught_up from_tick h)) = hl_buckets h"
  "hl_policy (snd (evaluate now caught_up from_tick h)) = hl_policy h"
  "read_preference (snd (evaluate now caught_up from_tick h)) = read_preference h"
  "hl_selected (snd (evaluate now caught_up from_tick h)) = next_selected now from_tick h"
  by (auto simp: evaluate_def Let_def split: option.splits)

lemma evaluate_pin:
  "hl_read_pin (snd (evaluate now caught_up from_tick h)) =
     (case read_preference h of
        Some region \<Rightarrow>
          if region < length (hl_buckets h)
          then next_read_pin (hl_read_pin h) (health_usable h region) (status_served (hl_buckets h ! region) (return_after_healthy (hl_policy h)) now) caught_up
          else hl_read_pin h
      | None \<Rightarrow> hl_read_pin h)"
  by (auto simp: evaluate_def Let_def health_usable_def split: option.splits)

lemma health_usable_cong: "hl_buckets h = hl_buckets h' \<Longrightarrow> health_usable h i = health_usable h' i"
  by (simp add: health_usable_def)

lemma evaluate_ok:
  assumes "health_shape h"
  shows "health_ok (snd (evaluate now caught_up from_tick h))"
proof -
  have "\<exists>region. read_preference h = Some region \<and> health_usable h region" if "hl_read_pin (snd (evaluate now caught_up from_tick h)) = Earned"
    using that assms by (auto simp: evaluate_pin health_shape_def next_read_pin_def split: option.splits read_pin.splits if_splits)
  then show ?thesis
    using assms next_selected_moves(1) [of h now from_tick] health_usable_cong [OF evaluate_fields(1), of now caught_up from_tick h]
    by (auto simp: health_ok_def health_shape_def evaluate_fields split: option.splits)
qed

lemma observed_shape:
  assumes "health_ok h" and "i < length (hl_buckets h)"
  shows "health_shape (h\<lparr>hl_buckets := (hl_buckets h)[i := observe_bucket (leave_after_failures (hl_policy h)) signal now (hl_buckets h ! i)]\<rparr>)"
  using health_ok_shape [OF assms(1)] assms(2) bucket_ok_observe
  by (auto simp: health_shape_def list_all_length nth_list_update split: option.splits)

definition controller_ok :: "controller \<Rightarrow> bool" where
  "controller_ok c =
     (health_ok (ct_health c) \<and> applied_selected c < bucket_count c \<and> applied_read_selected c < bucket_count c
      \<and> length (ct_alarms c) = bucket_count c)"

lemma controller_ok_new: "controller_new n policy = Inr c \<Longrightarrow> controller_ok c"
  by (auto simp: controller_new_def health_new_def controller_ok_def health_ok_def bucket_count_def list_all_length nth_list_update
      bucket_ok_new split: if_splits)

lemma observe_at_cases:
  assumes "observe_at i signal now c = (r, c')"
  obtains (invalid) "c' = c"
  | (valid) h where "i < bucket_count c"
      "h = (ct_health c)\<lparr>hl_buckets := (hl_buckets (ct_health c))[i := observe_bucket (leave_after_failures (hl_policy (ct_health c))) signal now (hl_buckets (ct_health c) ! i)]\<rparr>"
      "ct_health c' = snd (evaluate now False False h)" "applied_selected c' = applied_selected c"
      "applied_read_selected c' = applied_read_selected c" "length (ct_alarms c') = length (ct_alarms c)"
  using assms by (auto simp: observe_at_def health_observe_def bucket_count_def Let_def split: if_splits prod.splits)

lemma worker_tick_fields:
  assumes "worker_tick_at now caught_up c = (snap, c')"
  defines "h \<equiv> snd (evaluate now caught_up True (ct_health c))"
  shows "ct_health c' = h\<lparr>hl_buckets := map to_check (hl_buckets h)\<rparr>" "applied_selected c' = applied_selected c"
    "applied_read_selected c' = applied_read_selected c" "length (ct_alarms c') = length (ct_alarms c)"
  using assms(1) by (auto simp: h_def worker_tick_at_def health_tick_def Let_def split: prod.splits)

lemma health_usable_to_check: "health_usable (h\<lparr>hl_buckets := map to_check (hl_buckets h)\<rparr>) i = health_usable h i"
  by (cases "i < length (hl_buckets h)") (simp_all add: health_usable_def)

lemma health_ok_to_check: "health_ok h \<Longrightarrow> health_ok (h\<lparr>hl_buckets := map to_check (hl_buckets h)\<rparr>)"
  by (auto simp: health_ok_def health_usable_to_check list_all_iff bucket_ok_to_check split: option.splits)

text \<open>A topology acknowledgement makes a bucket usable, never the reverse.\<close>

lemma health_ok_verify:
  assumes "health_ok h" and "i < length (hl_buckets h)"
    and "y = hl_buckets h ! i \<or> y = (hl_buckets h ! i)\<lparr>bs_topology := VerifiedTop\<rparr>"
  shows "health_ok (h\<lparr>hl_buckets := (hl_buckets h)[i := y]\<rparr>)"
proof -
  let ?h = "h\<lparr>hl_buckets := (hl_buckets h)[i := y]\<rparr>"
  have "health_usable h j \<Longrightarrow> health_usable ?h j" for j
    using assms(2,3) by (cases "j = i") (auto simp: health_usable_def status_usable_def)
  moreover have "list_all (bucket_ok (leave_after_failures (hl_policy h))) (hl_buckets ?h)"
    using assms bucket_ok_verify by (auto simp: health_ok_def list_all_length nth_list_update)
  ultimately show ?thesis
    using assms(1) by (auto simp: health_ok_def split: option.splits)
qed

lemma with_bucket_ok:
  assumes "with_bucket i f c = (r, c')" and "controller_ok c" and "\<And>x. f x = x \<or> f x = x\<lparr>bs_topology := VerifiedTop\<rparr>"
  shows "controller_ok c'"
  using assms(1,2) health_ok_verify [of "ct_health c" i "f (hl_buckets (ct_health c) ! i)"] assms(3) [of "hl_buckets (ct_health c) ! i"]
  by (auto simp: with_bucket_def controller_ok_def bucket_count_def Let_def split: if_splits)

lemma set_read_affinity_ok: "health_ok h \<Longrightarrow> p < length (hl_buckets h) \<Longrightarrow> health_ok (set_read_affinity p earned h)"
  by (auto simp: health_ok_def set_read_affinity_def next_read_pin_def health_usable_def split: read_pin.splits if_splits)

lemma controller_ok_step:
  assumes "health_step op c c'" and "controller_ok c"
  shows "controller_ok c'"
  using assms
proof (cases rule: health_step.cases)
  case (observed i signal now r)
  from observed(2) show ?thesis
  proof (cases rule: observe_at_cases)
    case (valid h)
    have "health_shape h"
      using observed_shape [of "ct_health c" i] assms(2) valid(1) unfolding valid(2) by (simp add: controller_ok_def bucket_count_def)
    then have "health_ok (ct_health c')"
      unfolding valid(3) by (rule evaluate_ok)
    then show ?thesis
      using assms(2) valid by (auto simp: controller_ok_def bucket_count_def evaluate_fields)
  qed (use assms(2) in simp)
next
  case (ticked now caught_up snap)
  have "health_ok (snd (evaluate now caught_up True (ct_health c)))"
    using assms(2) evaluate_ok health_ok_shape by (simp add: controller_ok_def)
  then have "health_ok (ct_health c')"
    unfolding worker_tick_fields(1) [OF ticked(2)] by (rule health_ok_to_check)
  then show ?thesis
    using worker_tick_fields [OF ticked(2)] assms(2) by (simp add: controller_ok_def bucket_count_def evaluate_fields)
next
  case (revalidated i r)
  then show ?thesis
    using with_bucket_ok assms(2) unfolding topology_revalidated_def by blast
next
  case (checked i r)
  from checked(2) show ?thesis
    unfolding topology_check_passed_def by (rule with_bucket_ok [OF _ assms(2)]) simp
next
  case (applied i r)
  then show ?thesis
    using assms(2) by (auto simp: apply_selection_def controller_ok_def bucket_count_def health_usable_def split: if_splits)
next
  case (applied_read i r)
  then show ?thesis
    using assms(2) by (auto simp: apply_read_selection_def controller_ok_def bucket_count_def health_usable_def split: if_splits)
next
  case (configured i earned r)
  then show ?thesis
    using assms(2) set_read_affinity_ok [of "ct_health c" i earned]
    by (auto simp: configure_read_affinity_def validate_bucket_def controller_ok_def bucket_count_def Let_def set_read_affinity_def split: if_splits)
qed

lemma controller_ok_reachable: "health_reachable c \<Longrightarrow> controller_ok c"
  by (induction rule: health_reachable.induct) (auto intro: controller_ok_new controller_ok_step)

text \<open>
  What holds of a health controller after any sequence of observations, worker ticks, topology
  acknowledgements, publications and region configurations. The selected bucket and both published
  buckets are configured ones; a bucket is unhealthy exactly when its failure count has reached the
  policy's threshold; reads are pinned to the region bucket only while that bucket is healthy with a
  verified topology stamp, and otherwise follow the write selection.
\<close>

theorem controller_invariant:
  assumes "health_reachable c"
  shows "hl_selected (ct_health c) < bucket_count c \<and> applied_selected c < bucket_count c \<and> applied_read_selected c < bucket_count c
    \<and> length (ct_alarms c) = bucket_count c
    \<and> (\<forall>i < bucket_count c. bs_state (hl_buckets (ct_health c) ! i) = Unhealthy
         \<longleftrightarrow> leave_after_failures (hl_policy (ct_health c)) \<le> consecutive_failures (hl_buckets (ct_health c) ! i))
    \<and> (read_index (ct_health c) = hl_selected (ct_health c)
       \<or> (hl_read_pin (ct_health c) = Earned \<and> read_preference (ct_health c) = Some (read_index (ct_health c))
          \<and> health_usable (ct_health c) (read_index (ct_health c))))"
proof -
  have ok: "controller_ok c"
    by (rule controller_ok_reachable [OF assms])
  then have "\<forall>i < bucket_count c. bs_state (hl_buckets (ct_health c) ! i) = Unhealthy
       \<longleftrightarrow> leave_after_failures (hl_policy (ct_health c)) \<le> consecutive_failures (hl_buckets (ct_health c) ! i)"
    by (auto simp: controller_ok_def health_ok_def bucket_ok_def list_all_length bucket_count_def)
  with ok show ?thesis
    by (auto simp: controller_ok_def health_ok_def bucket_count_def read_index_def split: option.splits read_pin.splits)
qed

lemma served_to_check [simp]: "status_served (to_check x) window now = status_served x window now"
  by (simp add: status_served_def)

text \<open>How the write selection may move in one evaluation of the buckets \<open>h'\<close> holds at time \<open>now\<close>.\<close>

definition moved_safely :: "nat \<Rightarrow> nat \<Rightarrow> bucket_health \<Rightarrow> bool" where
  "moved_safely now old h' =
     (hl_selected h' \<noteq> old \<longrightarrow>
        health_usable h' (hl_selected h')
        \<and> ((\<not> health_usable h' old \<and> (\<forall>j < hl_selected h'. \<not> health_usable h' j))
           \<or> (hl_selected h' < old \<and> status_served (hl_buckets h' ! hl_selected h') (return_after_healthy (hl_policy h')) now)))"

lemma evaluate_moves:
  assumes "hl_selected h < length (hl_buckets h)"
  shows "moved_safely now (hl_selected h) (snd (evaluate now caught_up from_tick h))"
  using next_selected_moves(2) [OF assms, of now from_tick] health_usable_cong [OF evaluate_fields(1), of now caught_up from_tick h]
  by (simp add: moved_safely_def evaluate_fields)

lemma moved_to_check: "moved_safely now old h \<Longrightarrow> hl_selected h < length (hl_buckets h) \<Longrightarrow> moved_safely now old (h\<lparr>hl_buckets := map to_check (hl_buckets h)\<rparr>)"
  by (simp add: moved_safely_def health_usable_to_check)

lemma step_moves:
  assumes "health_step op c c'" and "controller_ok c"
  shows "moved_safely (op_now op) (hl_selected (ct_health c)) (ct_health c')"
  using assms(1)
proof (cases rule: health_step.cases)
  case (observed i signal now r)
  from observed(2) show ?thesis
  proof (cases rule: observe_at_cases)
    case (valid h)
    have "hl_selected h < length (hl_buckets h)" "hl_selected h = hl_selected (ct_health c)"
      using assms(2) unfolding valid(2) by (simp_all add: controller_ok_def health_ok_def)
    then show ?thesis
      using evaluate_moves [of h now False False] by (simp add: observed(1) valid(3))
  qed (simp add: moved_safely_def)
next
  case (ticked now caught_up snap)
  have sel: "hl_selected (ct_health c) < length (hl_buckets (ct_health c))"
    using assms(2) by (simp add: controller_ok_def health_ok_def)
  show ?thesis
    unfolding worker_tick_fields(1) [OF ticked(2)] ticked(1) op_now.simps
    by (rule moved_to_check [OF evaluate_moves [OF sel]]) (simp add: evaluate_fields next_selected_moves(1) [OF sel])
next
  case (revalidated i r)
  then show ?thesis
    by (auto simp: topology_revalidated_def with_bucket_def moved_safely_def Let_def split: if_splits)
next
  case (checked i r)
  then show ?thesis
    by (auto simp: topology_check_passed_def with_bucket_def moved_safely_def Let_def split: if_splits)
next
  case (applied i r)
  then show ?thesis
    by (auto simp: apply_selection_def moved_safely_def split: if_splits)
next
  case (applied_read i r)
  then show ?thesis
    by (auto simp: apply_read_selection_def moved_safely_def split: if_splits)
next
  case (configured i earned r)
  then show ?thesis
    by (auto simp: configure_read_affinity_def validate_bucket_def set_read_affinity_def moved_safely_def Let_def split: if_splits)
qed

lemma step_publishes:
  assumes "health_step op c c'"
  shows "applied_selected c' \<noteq> applied_selected c \<Longrightarrow>
      applied_selected c' = hl_selected (ct_health c') \<and> health_usable (ct_health c') (applied_selected c')"
  using assms
  by (cases rule: health_step.cases)
    (auto simp: worker_tick_fields(2) topology_revalidated_def topology_check_passed_def with_bucket_def apply_selection_def
      apply_read_selection_def configure_read_affinity_def validate_bucket_def Let_def split: if_splits elim: observe_at_cases)

lemma step_earns:
  assumes "health_step op c c'" and "controller_ok c"
  shows "hl_read_pin (ct_health c) = FollowWrite \<Longrightarrow> hl_read_pin (ct_health c') = Earned \<Longrightarrow>
    (\<exists>now region. op = Tick now True \<and> read_preference (ct_health c') = Some region
       \<and> status_served (hl_buckets (ct_health c') ! region) (return_after_healthy (hl_policy (ct_health c'))) now)
    \<or> (\<exists>region. op = Configure region True)"
  using assms(1)
proof (cases rule: health_step.cases)
  case (observed i signal now r)
  assume pin: "hl_read_pin (ct_health c) = FollowWrite" "hl_read_pin (ct_health c') = Earned"
  from observed(2) show ?thesis
  proof (cases rule: observe_at_cases)
    case (valid h)
    have "hl_read_pin h = FollowWrite"
      using pin(1) unfolding valid(2) by simp
    then have "hl_read_pin (ct_health c') = FollowWrite"
      unfolding valid(3) evaluate_pin by (auto simp: next_read_pin_def split: option.split)
    with pin show ?thesis
      by simp
  qed (use pin in simp)
next
  case (ticked now caught_up snap)
  assume pin: "hl_read_pin (ct_health c) = FollowWrite" "hl_read_pin (ct_health c') = Earned"
  let ?h = "snd (evaluate now caught_up True (ct_health c))"
  have "hl_read_pin ?h = Earned"
    using pin(2) unfolding worker_tick_fields(1) [OF ticked(2)] by simp
  then obtain region where "read_preference (ct_health c) = Some region" "region < length (hl_buckets (ct_health c))" "caught_up"
      "status_served (hl_buckets (ct_health c) ! region) (return_after_healthy (hl_policy (ct_health c))) now"
    using pin(1) by (auto simp: evaluate_pin next_read_pin_def split: option.splits if_splits)
  then show ?thesis
    unfolding ticked(1) worker_tick_fields(1) [OF ticked(2)] by (auto simp: evaluate_fields)
qed (auto simp: topology_revalidated_def topology_check_passed_def with_bucket_def apply_selection_def apply_read_selection_def
      configure_read_affinity_def validate_bucket_def set_read_affinity_def next_read_pin_def Let_def split: if_splits)


text \<open>Two buckets: the second is probed and verified, then the first times out.\<close>

lemma steps_run:
  "health_step (Observe i signal now) c (snd (observe_at i signal now c))"
  "health_step (Tick now caught_up) c (snd (worker_tick_at now caught_up c))"
  "health_step (CheckPassed i) c (snd (topology_check_passed i c))"
  by (rule health_step.intros, rule prod.collapse [symmetric])+

definition two_buckets :: controller where
  "two_buckets = projr (controller_new 2 \<lparr>leave_after_failures = 1, return_after_healthy = 10\<rparr>)"

definition both_usable :: controller where
  "both_usable = snd (topology_check_passed 1 (snd (worker_tick_at 2 False (snd (observe_at 1 Success 1 two_buckets)))))"

definition failed_over :: controller where
  "failed_over = snd (observe_at 0 Timeout 3 both_usable)"

lemma both_usable_reachable: "health_reachable both_usable"
proof -
  have "controller_new 2 \<lparr>leave_after_failures = 1, return_after_healthy = 10\<rparr> = Inr two_buckets"
    by (simp add: two_buckets_def controller_new_def health_new_def)
  then have "health_reachable two_buckets"
    by (rule health_reachable.start)
  then show ?thesis
    unfolding both_usable_def by (intro health_reachable.step [OF _ steps_run(3)] health_reachable.step [OF _ steps_run(2)] health_reachable.step [OF _ steps_run(1)])
qed

lemma failed_over_step: "health_step (Observe 0 Timeout 3) both_usable failed_over"
  unfolding failed_over_def by (rule steps_run(1))

theorem controller_invariant_witness:
  "hl_selected (ct_health failed_over) = 1 \<and> hl_selected (ct_health failed_over) < bucket_count failed_over
     \<and> bs_state (hl_buckets (ct_health failed_over) ! 0) = Unhealthy"
proof -
  have "hl_selected (ct_health failed_over) = 1" "bucket_count failed_over = 2"
    "leave_after_failures (hl_policy (ct_health failed_over)) \<le> consecutive_failures (hl_buckets (ct_health failed_over) ! 0)"
    by code_simp+
  then show ?thesis
    using controller_invariant [OF health_reachable.step [OF both_usable_reachable failed_over_step]] by simp
qed


end
