(* ===== verification/Auth.thy ===== *)
theory Auth
  imports Install_Token "HOL-Library.Option_ord"
begin

text \<open>
  Authentication (\<open>src/auth.rs\<close> without the login throttle, and the role checks of \<open>src/app.rs\<close>):
  credential pairs, the Basic header, the three roles and the admin gate. The header map is the
  \<open>Authorization\<close> value it holds; the text check of a header value and the standard base64 decoder are
  the parameter \<open>H\<close>; tokens are those of \<open>Install_Token\<close>, verified at the time \<open>now\<close>.
\<close>

section \<open>Definitions\<close>

definition nonempty :: "string option \<Rightarrow> string option" where
  "nonempty value = (case value of None \<Rightarrow> None | Some s \<Rightarrow> if s = [] then None else Some s)"

definition cred_pair :: "string option \<Rightarrow> string option \<Rightarrow> (string \<times> string) option" where
  "cred_pair usr pass = (case (nonempty usr, nonempty pass) of (Some u, Some p) \<Rightarrow> Some (u, p) | _ \<Rightarrow> None)"

definition DEFAULT_ADMIN_USER :: string where "DEFAULT_ADMIN_USER = ''admin''"

definition resolve_admin_user :: "string option \<Rightarrow> string option \<Rightarrow> string option" where
  "resolve_admin_user usr pass =
     (if nonempty pass \<noteq> None \<and> nonempty usr = None then Some DEFAULT_ADMIN_USER else usr)"

definition credential_pair_error :: "string \<Rightarrow> string option \<Rightarrow> string option \<Rightarrow> string option" where
  "credential_pair_error label usr pass =
     (case (nonempty usr \<noteq> None, nonempty pass \<noteq> None) of
        (True, False) \<Rightarrow> Some (label @ '' username is set but its password is empty/unset'')
      | (False, True) \<Rightarrow> Some (label @ '' password is set but its username is empty/unset'')
      | _ \<Rightarrow> None)"

record header_api =
  to_str :: "bytes \<Rightarrow> string option"
  b64_std_decode :: "string \<Rightarrow> bytes option"

type_synonym headers = "bytes option"

definition basic_credentials :: "header_api \<Rightarrow> headers \<Rightarrow> (string \<times> string) option" where
  "basic_credentials H headers =
     Option.bind headers (\<lambda>value.
     Option.bind (to_str H value) (\<lambda>auth.
     Option.bind (strip_prefix auth ''Basic '') (\<lambda>encoded.
     Option.bind (b64_std_decode H encoded) (\<lambda>s.
       if \<not> utf8_valid s then None
       else Some (case split_once s (CHR '':'') of Some (u, p) \<Rightarrow> (u, p) | None \<Rightarrow> (s, []))))))"

definition base_user :: "string \<Rightarrow> string" where
  "base_user u = (case split_once u (CHR ''+'') of Some (b, _) \<Rightarrow> b | None \<Rightarrow> u)"

definition check_basic_auth :: "header_api \<Rightarrow> headers \<Rightarrow> string \<Rightarrow> string \<Rightarrow> unit res" where
  "check_basic_auth H headers usr pass =
     (case basic_credentials H headers of
        None \<Rightarrow> Inl (Bail ''missing basic auth'')
      | Some (u, p) \<Rightarrow>
          if (u = usr \<or> base_user u = usr) \<and> ct_eq p pass then Inr () else Inl (Bail ''bad credentials''))"

definition project_tag :: "header_api \<Rightarrow> headers \<Rightarrow> string option" where
  "project_tag H headers =
     (case basic_credentials H headers of
        None \<Rightarrow> None
      | Some (usr, _) \<Rightarrow>
          (let tag = (case split_once usr (CHR ''+'') of Some (_, t) \<Rightarrow> t | None \<Rightarrow> usr)
           in if tag \<noteq> [] \<and> length tag \<le> 64
                 \<and> list_all (\<lambda>c. is_ascii_alphanumeric c \<or> c \<in> {CHR ''-'', CHR ''_'', CHR ''.''}) tag
              then Some tag else None))"

subsection \<open>Roles\<close>

text \<open>The part of \<open>AppState\<close> the role checks read.\<close>

record auth_state =
  uploader_user :: "string option"
  uploader_pass :: "string option"
  admin_user :: "string option"
  admin_pass :: "string option"
  read_user :: "string option"
  read_pass :: "string option"
  token_signing_key :: "string option"

record auth_env =
  hdr :: header_api
  tok :: token_codec
  digest :: "bytes \<Rightarrow> bytes"
  now_unix :: int

definition uploader_credential :: "auth_state \<Rightarrow> (string \<times> string) option" where
  "uploader_credential A = cred_pair (uploader_user A) (uploader_pass A)"

definition admin_credential :: "auth_state \<Rightarrow> (string \<times> string) option" where
  "admin_credential A = cred_pair (admin_user A) (admin_pass A)"

definition read_credential :: "auth_state \<Rightarrow> (string \<times> string) option" where
  "read_credential A = cred_pair (read_user A) (read_pass A)"

definition uploads_disabled :: "auth_state \<Rightarrow> bool" where
  "uploads_disabled A = (uploader_credential A = None \<and> admin_credential A = None)"

definition credential_free :: "auth_state \<Rightarrow> bool" where
  "credential_free A = (uploads_disabled A \<and> read_credential A = None \<and> nonempty (token_signing_key A) = None)"

definition token_role :: "auth_env \<Rightarrow> auth_state \<Rightarrow> headers \<Rightarrow> role option" where
  "token_role E A headers =
     (case nonempty (token_signing_key A) of
        None \<Rightarrow> None
      | Some key \<Rightarrow>
          (case basic_credentials (hdr E) headers of
             None \<Rightarrow> None
           | Some (usr, pass) \<Rightarrow>
               if \<not> is_token_username usr then None
               else map_option cl_role (verify (digest E) (tok E) key pass (now_unix E))))"

definition presents :: "auth_env \<Rightarrow> headers \<Rightarrow> (string \<times> string) option \<Rightarrow> bool" where
  "presents E headers cred =
     (case cred of None \<Rightarrow> False | Some (u, p) \<Rightarrow> check_basic_auth (hdr E) headers u p = Inr ())"

definition is_admin :: "auth_env \<Rightarrow> auth_state \<Rightarrow> headers \<Rightarrow> bool" where
  "is_admin E A headers =
     (case admin_credential A of
        None \<Rightarrow> False
      | Some (u, p) \<Rightarrow> check_basic_auth (hdr E) headers u p = Inr () \<or> token_role E A headers = Some Admin)"

definition is_uploader :: "auth_env \<Rightarrow> auth_state \<Rightarrow> headers \<Rightarrow> bool" where
  "is_uploader E A headers =
     (is_admin E A headers \<or> presents E headers (uploader_credential A)
      \<or> (\<not> uploads_disabled A \<and> Some Uploader \<le> token_role E A headers))"

definition is_reader :: "auth_env \<Rightarrow> auth_state \<Rightarrow> headers \<Rightarrow> bool" where
  "is_reader E A headers =
     (case read_credential A of
        None \<Rightarrow> True
      | Some (u, p) \<Rightarrow>
          check_basic_auth (hdr E) headers u p = Inr () \<or> is_uploader E A headers \<or> token_role E A headers \<noteq> None)"

definition authenticates :: "auth_env \<Rightarrow> auth_state \<Rightarrow> headers \<Rightarrow> bool" where
  "authenticates E A headers =
     (if is_uploader E A headers then True
      else if token_role E A headers \<noteq> None then True
      else presents E headers (read_credential A))"

datatype status_code = FORBIDDEN | UNAUTHORIZED

definition require_admin :: "auth_env \<Rightarrow> auth_state \<Rightarrow> headers \<Rightarrow> status_code + unit" where
  "require_admin E A headers =
     (if is_admin E A headers then Inr ()
      else if admin_credential A = None then Inl FORBIDDEN
      else if authenticates E A headers then Inl FORBIDDEN
      else Inl UNAUTHORIZED)"

section \<open>Credentials\<close>

lemma nonempty_simps [simp]: "nonempty None = None" "nonempty (Some s) = (if s = [] then None else Some s)"
  by (simp_all add: nonempty_def)

lemma cred_pair_simps [simp]:
  "cred_pair None pass = None" "cred_pair usr None = None"
  "cred_pair (Some u) (Some p) = (if u = [] \<or> p = [] then None else Some (u, p))"
  by (simp_all add: cred_pair_def split: option.split)

lemma nonempty_iff: "nonempty x = Some s \<longleftrightarrow> x = Some s \<and> s \<noteq> []"
  by (auto simp: nonempty_def split: option.splits if_splits)

lemma cred_pair_iff: "cred_pair usr pass = Some (u, p) \<longleftrightarrow> usr = Some u \<and> pass = Some p \<and> u \<noteq> [] \<and> p \<noteq> []"
  by (cases usr; cases pass) auto

lemma check_basic_auth_iff:
  "check_basic_auth H headers usr pass = Inr () \<longleftrightarrow>
     (\<exists>u. basic_credentials H headers = Some (u, pass) \<and> (u = usr \<or> base_user u = usr))"
  by (auto simp: check_basic_auth_def ct_eq_iff split: option.splits)

text \<open>A startup that reports no error has each pair whole or absent.\<close>

lemma credential_pair_error_None:
  "credential_pair_error label usr pass = None \<longleftrightarrow> (cred_pair usr pass \<noteq> None \<or> (nonempty usr = None \<and> nonempty pass = None))"
  by (cases usr; cases pass) (auto simp: credential_pair_error_def)

lemma resolve_admin_user_whole: "nonempty pass \<noteq> None \<Longrightarrow> cred_pair (resolve_admin_user usr pass) pass \<noteq> None"
  by (cases usr; cases pass) (auto simp: resolve_admin_user_def DEFAULT_ADMIN_USER_def split: if_splits)

definition signed_in :: "auth_env \<Rightarrow> auth_state \<Rightarrow> headers \<Rightarrow> string option \<Rightarrow> string option \<Rightarrow> bool" where
  "signed_in E A headers usr pass =
     (\<exists>u p name. usr = Some u \<and> pass = Some p \<and> u \<noteq> [] \<and> p \<noteq> []
        \<and> basic_credentials (hdr E) headers = Some (name, p) \<and> (name = u \<or> base_user name = u))"

lemma presents_iff: "presents E headers (cred_pair usr pass) \<longleftrightarrow> signed_in E A headers usr pass"
  by (cases usr; cases pass) (auto simp: presents_def signed_in_def check_basic_auth_iff)

lemma token_role_sound:
  "token_role E A headers = Some r \<Longrightarrow>
     \<exists>key usr pass c. token_signing_key A = Some key \<and> key \<noteq> [] \<and> basic_credentials (hdr E) headers = Some (usr, pass)
       \<and> is_token_username usr \<and> verify (digest E) (tok E) key pass (now_unix E) = Some c \<and> cl_role c = r"
  by (auto simp: token_role_def nonempty_iff split: option.splits if_splits)

text \<open>
  The three roles. A request acts as admin exactly when an admin pair is configured, neither half
  empty, and the request presents it or an admin token; as uploader exactly when it is admin, presents
  the configured uploader pair, or presents a token of at least that role on a node that has a write
  credential; and it reads exactly when no read pair is configured, it presents that pair, it may
  upload, or it presents a valid token. So admin includes uploader and uploader includes reader; where
  no pair and no signing key is configured nobody is more than a reader; and the admin gate answers 401
  only to a request that authenticates as nobody on a node that has an admin credential.
\<close>

theorem roles_exact:
  shows "(is_admin E A headers \<longleftrightarrow> admin_credential A \<noteq> None
            \<and> (signed_in E A headers (admin_user A) (admin_pass A) \<or> token_role E A headers = Some Admin))
    \<and> (is_uploader E A headers \<longleftrightarrow> is_admin E A headers \<or> signed_in E A headers (uploader_user A) (uploader_pass A)
         \<or> ((admin_credential A \<noteq> None \<or> uploader_credential A \<noteq> None)
            \<and> (token_role E A headers = Some Uploader \<or> token_role E A headers = Some Admin)))
    \<and> (is_reader E A headers \<longleftrightarrow> read_credential A = None \<or> signed_in E A headers (read_user A) (read_pass A)
         \<or> is_uploader E A headers \<or> token_role E A headers \<noteq> None)
    \<and> (is_admin E A headers \<longrightarrow> is_uploader E A headers) \<and> (is_uploader E A headers \<longrightarrow> is_reader E A headers)
    \<and> (credential_free A \<longrightarrow> \<not> is_uploader E A headers \<and> \<not> authenticates E A headers)
    \<and> (require_admin E A headers = Inl UNAUTHORIZED \<longleftrightarrow> admin_credential A \<noteq> None \<and> \<not> authenticates E A headers)"
proof -
  have admin: "is_admin E A headers \<longleftrightarrow> admin_credential A \<noteq> None
      \<and> (signed_in E A headers (admin_user A) (admin_pass A) \<or> token_role E A headers = Some Admin)"
    by (cases "admin_user A"; cases "admin_pass A") (auto simp: is_admin_def admin_credential_def check_basic_auth_iff signed_in_def)
  have at_least: "Some Uploader \<le> r \<longleftrightarrow> r = Some Uploader \<or> r = Some Admin" for r
    by (cases r; cases "the r") (auto simp: less_eq_role_def role_index_def)
  have uploader: "is_uploader E A headers \<longleftrightarrow> is_admin E A headers \<or> signed_in E A headers (uploader_user A) (uploader_pass A)
      \<or> ((admin_credential A \<noteq> None \<or> uploader_credential A \<noteq> None)
         \<and> (token_role E A headers = Some Uploader \<or> token_role E A headers = Some Admin))"
    unfolding is_uploader_def uploader_credential_def presents_iff [of _ _ _ _ A] uploads_disabled_def at_least by auto
  have reader: "is_reader E A headers \<longleftrightarrow> read_credential A = None \<or> signed_in E A headers (read_user A) (read_pass A)
      \<or> is_uploader E A headers \<or> token_role E A headers \<noteq> None"
    by (cases "read_user A"; cases "read_pass A") (auto simp: is_reader_def read_credential_def check_basic_auth_iff signed_in_def)
  have no_token: "nonempty (token_signing_key A) = None \<Longrightarrow> token_role E A headers = None"
    by (simp add: token_role_def)
  have absent: "cred_pair usr pass = None \<Longrightarrow> \<not> signed_in E A headers usr pass" for usr pass
    unfolding presents_iff [of E headers usr pass A, symmetric] by (simp add: presents_def)
  have free: "\<not> is_uploader E A headers \<and> \<not> authenticates E A headers" if "credential_free A"
    using that admin uploader no_token absent
    by (auto simp: authenticates_def credential_free_def uploads_disabled_def uploader_credential_def presents_def)
  have gate: "require_admin E A headers = Inl UNAUTHORIZED \<longleftrightarrow> admin_credential A \<noteq> None \<and> \<not> authenticates E A headers"
    by (auto simp: require_admin_def authenticates_def is_uploader_def)
  have "is_admin E A headers \<longrightarrow> is_uploader E A headers"
    by (simp add: is_uploader_def)
  moreover have "is_uploader E A headers \<longrightarrow> is_reader E A headers"
    using reader by blast
  ultimately show ?thesis
    using admin uploader reader free gate by blast
qed

definition plain_env :: auth_env where
  "plain_env =
     \<lparr>hdr = \<lparr>to_str = (\<lambda>v. Some v), b64_std_decode = (\<lambda>s. Some s)\<rparr>,
      tok = \<lparr>json_enc = (\<lambda>_. []), json_dec = (\<lambda>_. None), b64_enc = (\<lambda>x. x), b64_dec = (\<lambda>x. Some x)\<rparr>,
      digest = (\<lambda>x. x), now_unix = 0\<rparr>"

definition ci_node :: auth_state where
  "ci_node =
     \<lparr>uploader_user = Some ''ci'', uploader_pass = Some ''pw'', admin_user = Some ''root'', admin_pass = Some [],
      read_user = None, read_pass = None, token_signing_key = Some []\<rparr>"

theorem roles_exact_witness:
  "is_uploader plain_env ci_node (Some ''Basic ci+billing:pw'') \<and> is_reader plain_env ci_node (Some ''Basic ci+billing:pw'')
   \<and> \<not> is_admin plain_env ci_node (Some ''Basic root:'')"
proof -
  have "basic_credentials (hdr plain_env) (Some ''Basic ci+billing:pw'') = Some (''ci+billing'', ''pw'')"
      "base_user ''ci+billing'' = ''ci''" "admin_credential ci_node = None"
      "uploader_user ci_node = Some ''ci''" "uploader_pass ci_node = Some ''pw''"
    by code_simp+
  then have "signed_in plain_env ci_node (Some ''Basic ci+billing:pw'') (uploader_user ci_node) (uploader_pass ci_node)"
    by (simp add: signed_in_def)
  then show ?thesis
    using roles_exact [of plain_env ci_node "Some ''Basic ci+billing:pw''"] roles_exact [of plain_env ci_node "Some ''Basic root:''"]
      \<open>admin_credential ci_node = None\<close> by blast
qed

end
