(* ===== verification/Login_Throttle.thy ===== *)
theory Login_Throttle
  imports Auth Ip_Addr "HOL-Library.AList"
begin

unbundle bit_operations_syntax

text \<open>
  The failed-login throttle of \<open>src/auth.rs\<close>. The table behind the lock is a record with the map as an
  association list; a call takes the lock once, so it is one step. Times are milliseconds, subtraction
  saturates at zero and addition at the \<open>u64\<close> maximum. A reference count is a natural number: it counts
  requests in flight, which cannot reach the \<open>u32\<close> maximum. Credential fingerprints come from a keyed
  hash of the standard library; the model works with the fingerprints.
\<close>

section \<open>Definitions\<close>

definition DEFAULT_LOGIN_COOLDOWN_SECS :: nat where "DEFAULT_LOGIN_COOLDOWN_SECS = 300"
definition LOGIN_FAIL_LIMIT :: nat where "LOGIN_FAIL_LIMIT = 5"
definition LOGIN_THROTTLE_CAP :: nat where "LOGIN_THROTTLE_CAP = 32 * 1024"
definition LOGIN_SWEEP_INTERVAL_MS :: nat where "LOGIN_SWEEP_INTERVAL_MS = 1000"

type_synonym throttle_key = "ip_addr \<times> nat"

record pending =
  pd_fp :: u64
  pd_refs :: nat
  pd_failed :: bool

record fail_window =
  fw_count :: nat
  last_ms :: nat
  blocked_until_ms :: nat
  fw_pending :: "pending list"

record throttle_table =
  tt_map :: "(throttle_key \<times> fail_window) list"
  swept_ms :: nat

definition pending_default :: pending where
  "pending_default = \<lparr>pd_fp = 0, pd_refs = 0, pd_failed = False\<rparr>"

definition fail_window_default :: fail_window where
  "fail_window_default = \<lparr>fw_count = 0, last_ms = 0, blocked_until_ms = 0, fw_pending = replicate LOGIN_FAIL_LIMIT pending_default\<rparr>"

definition table_default :: throttle_table where
  "table_default = \<lparr>tt_map = [], swept_ms = 0\<rparr>"

definition in_flight :: "fail_window \<Rightarrow> nat" where
  "in_flight w = length (filter (\<lambda>p. 0 < pd_refs p) (fw_pending w))"

definition live :: "fail_window \<Rightarrow> nat \<Rightarrow> bool" where
  "live w now_ms = (now_ms < blocked_until_ms w \<or> 0 < in_flight w)"

text \<open>The identity a credential is counted as, over the hashes of the process key.\<close>

definition fingerprint :: "header_api \<Rightarrow> (string \<times> string \<Rightarrow> u64) \<Rightarrow> (bytes option \<Rightarrow> u64) \<Rightarrow> headers \<Rightarrow> u64" where
  "fingerprint H hash_pair hash_raw headers =
     (case basic_credentials H headers of
        Some (usr, pass) \<Rightarrow> hash_pair (base_user usr, pass)
      | None \<Rightarrow> hash_raw headers)"

subsection \<open>Networks\<close>

definition v4_to_u32 :: "ipv4 \<Rightarrow> 32 word" where
  "v4_to_u32 ip = (case ip of Ipv4 a b c d \<Rightarrow>
     push_bit 24 (ucast a) OR push_bit 16 (ucast b) OR push_bit 8 (ucast c) OR ucast d)"

definition v4_of_u32 :: "32 word \<Rightarrow> ipv4" where
  "v4_of_u32 x = Ipv4 (ucast (drop_bit 24 x)) (ucast (drop_bit 16 x)) (ucast (drop_bit 8 x)) (ucast x)"

definition v6_to_u128 :: "ipv6 \<Rightarrow> 128 word" where
  "v6_to_u128 ip = fold (\<lambda>s acc. push_bit 16 acc OR ucast s) (segments ip) 0"

definition v6_of_u128 :: "128 word \<Rightarrow> ipv6" where
  "v6_of_u128 x = Ipv6 (ucast (drop_bit 112 x)) (ucast (drop_bit 96 x)) (ucast (drop_bit 80 x)) (ucast (drop_bit 64 x))
     (ucast (drop_bit 48 x)) (ucast (drop_bit 32 x)) (ucast (drop_bit 16 x)) (ucast x)"

definition v4_keys :: "ipv4 \<Rightarrow> throttle_key list" where
  "v4_keys v4 = map (\<lambda>bits. (V4 (v4_of_u32 (v4_to_u32 v4 AND push_bit (32 - bits) (- 1))), bits)) [32, 24, 16]"

definition throttle_keys :: "ip_addr \<Rightarrow> throttle_key list" where
  "throttle_keys ip =
     (case ip of
        V4 v4 \<Rightarrow> v4_keys v4
      | V6 v6 \<Rightarrow>
          (case v6_to_ipv4_mapped v6 of
             Some v4 \<Rightarrow> v4_keys v4
           | None \<Rightarrow> map (\<lambda>bits. (V6 (v6_of_u128 (v6_to_u128 v6 AND push_bit (128 - bits) (- 1))), bits)) [64, 48, 32]))"

subsection \<open>Admission and release\<close>

definition div_ceil :: "nat \<Rightarrow> nat \<Rightarrow> nat" where
  "div_ceil a b = (a + b - 1) div b"

fun update_first :: "('a \<Rightarrow> bool) \<Rightarrow> ('a \<Rightarrow> 'a) \<Rightarrow> 'a list \<Rightarrow> 'a list" where
  "update_first p f [] = []"
| "update_first p f (x # xs) = (if p x then f x # xs else x # update_first p f xs)"

definition holds :: "u64 \<Rightarrow> pending \<Rightarrow> bool" where
  "holds fp p = (0 < pd_refs p \<and> pd_fp p = fp)"

definition taken :: "u64 \<Rightarrow> pending" where
  "taken fp = \<lparr>pd_fp = fp, pd_refs = 1, pd_failed = False\<rparr>"

text \<open>An address the table does not track: maybe a sweep, then the network that will count it.\<close>

definition sweep :: "nat \<Rightarrow> nat \<Rightarrow> throttle_table \<Rightarrow> throttle_table" where
  "sweep cooldown now_ms t =
     (if LOGIN_THROTTLE_CAP div 2 \<le> length (tt_map t) \<and> LOGIN_SWEEP_INTERVAL_MS \<le> now_ms - swept_ms t then
        (let full = LOGIN_THROTTLE_CAP \<le> length (tt_map t)
         in t\<lparr>swept_ms := now_ms,
              tt_map := filter (\<lambda>(_, w). live w now_ms \<or> (\<not> full \<and> now_ms - last_ms w < cooldown)) (tt_map t)\<rparr>)
      else t)"

definition admit_untracked :: "nat \<Rightarrow> throttle_key list \<Rightarrow> u64 option \<Rightarrow> nat \<Rightarrow> throttle_table \<Rightarrow> (nat + throttle_key) \<times> throttle_table" where
  "admit_untracked cooldown keys guess now_ms t =
     (let t' = sweep cooldown now_ms t; crowd = length (tt_map t') * 4 div LOGIN_THROTTLE_CAP
      in if 3 < crowd then (Inl (div_ceil cooldown 1000), t')
         else
           (let key = (if crowd \<le> 1 then keys ! 0 else if crowd = 2 then keys ! 1 else keys ! 2)
            in case guess of
                 Some fp \<Rightarrow>
                   (Inr key, t'\<lparr>tt_map := AList.update key (fail_window_default\<lparr>fw_pending := (fw_pending fail_window_default)[0 := taken fp]\<rparr>) (tt_map t')\<rparr>)
               | None \<Rightarrow> (Inr key, t')))"

text \<open>A tracked window: the refusal, or the window after admission; \<open>None\<close> drops it from the table.\<close>

definition admit_window :: "nat \<Rightarrow> u64 option \<Rightarrow> nat \<Rightarrow> fail_window \<Rightarrow> (nat \<times> fail_window) + fail_window option" where
  "admit_window cooldown guess now_ms w =
     (if now_ms < blocked_until_ms w then Inl (div_ceil (blocked_until_ms w - now_ms) 1000, w)
      else
        (let decayed = (cooldown \<le> now_ms - last_ms w);
             w1 = (if decayed then w\<lparr>fw_count := 0\<rparr> else w)
         in if (case guess of None \<Rightarrow> False | Some fp \<Rightarrow> list_ex (holds fp) (fw_pending w1))
            then Inr (Some (w1\<lparr>fw_pending := update_first (holds (the guess)) (\<lambda>p. p\<lparr>pd_refs := pd_refs p + 1\<rparr>) (fw_pending w1)\<rparr>))
            else if LOGIN_FAIL_LIMIT \<le> fw_count w1 + in_flight w1 then Inl (1, w1)
            else case guess of
              Some fp \<Rightarrow> Inr (Some (w1\<lparr>fw_pending := update_first (\<lambda>p. pd_refs p = 0) (\<lambda>_. taken fp) (fw_pending w1)\<rparr>))
            | None \<Rightarrow> if decayed \<and> \<not> live w1 now_ms then Inr None else Inr (Some w1)))"

definition admit_at :: "nat \<Rightarrow> ip_addr \<Rightarrow> u64 option \<Rightarrow> nat \<Rightarrow> throttle_table \<Rightarrow> (nat + throttle_key) \<times> throttle_table" where
  "admit_at cooldown ip guess now_ms t =
     (let keys = throttle_keys ip in
      if cooldown = 0 then (Inr (keys ! 0), t)
      else case List.find (\<lambda>k. map_of (tt_map t) k \<noteq> None) keys of
        None \<Rightarrow> admit_untracked cooldown keys guess now_ms t
      | Some key \<Rightarrow>
          (case map_of (tt_map t) key of
             None \<Rightarrow> (Inr key, t)
           | Some w \<Rightarrow>
               (case admit_window cooldown guess now_ms w of
                  Inl (retry_after, w') \<Rightarrow> (Inl retry_after, t\<lparr>tt_map := AList.update key w' (tt_map t)\<rparr>)
                | Inr (Some w') \<Rightarrow> (Inr key, t\<lparr>tt_map := AList.update key w' (tt_map t)\<rparr>)
                | Inr None \<Rightarrow> (Inr key, t\<lparr>tt_map := AList.delete key (tt_map t)\<rparr>))))"

definition release_window :: "nat \<Rightarrow> u64 \<Rightarrow> bool \<Rightarrow> nat \<Rightarrow> fail_window \<Rightarrow> fail_window" where
  "release_window cooldown fp failed now_ms w =
     (case List.find (holds fp) (fw_pending w) of
        None \<Rightarrow> w
      | Some p \<Rightarrow>
          (let p' = p\<lparr>pd_refs := pd_refs p - 1, pd_failed := (pd_failed p \<or> failed)\<rparr>;
               w1 = w\<lparr>fw_pending := update_first (holds fp) (\<lambda>_. p') (fw_pending w)\<rparr>
           in if 0 < pd_refs p' \<or> \<not> pd_failed p' then w1
              else
                (let w2 = (if cooldown \<le> now_ms - last_ms w1 then w1\<lparr>fw_count := 0\<rparr> else w1);
                     w3 = w2\<lparr>fw_count := fw_count w2 + 1, last_ms := now_ms\<rparr>
                 in if LOGIN_FAIL_LIMIT \<le> fw_count w3
                    then w3\<lparr>blocked_until_ms := min (now_ms + cooldown) (2 ^ 64 - 1), fw_count := 0\<rparr>
                    else w3)))"

definition release_at :: "nat \<Rightarrow> throttle_key \<Rightarrow> u64 \<Rightarrow> bool \<Rightarrow> nat \<Rightarrow> throttle_table \<Rightarrow> throttle_table" where
  "release_at cooldown key fp failed now_ms t =
     (case map_of (tt_map t) key of
        None \<Rightarrow> t
      | Some w \<Rightarrow> t\<lparr>tt_map := AList.update key (release_window cooldown fp failed now_ms w) (tt_map t)\<rparr>)"

text \<open>\<open>admit\<close> reads the clock and keeps the guess; dropping the attempt releases it.\<close>

record login_attempt =
  la_key :: throttle_key
  la_guess :: "u64 option"
  la_failed :: bool

definition admit :: "nat \<Rightarrow> ip_addr \<Rightarrow> u64 option \<Rightarrow> nat \<Rightarrow> throttle_table \<Rightarrow> (nat + login_attempt) \<times> throttle_table" where
  "admit cooldown ip guess now_ms t =
     (case admit_at cooldown ip guess now_ms t of
        (Inl retry_after, t') \<Rightarrow> (Inl retry_after, t')
      | (Inr key, t') \<Rightarrow> (Inr \<lparr>la_key = key, la_guess = guess, la_failed = False\<rparr>, t'))"

definition drop_attempt :: "nat \<Rightarrow> login_attempt \<Rightarrow> nat \<Rightarrow> throttle_table \<Rightarrow> throttle_table" where
  "drop_attempt cooldown a now_ms t =
     (case la_guess a of None \<Rightarrow> t | Some fp \<Rightarrow> release_at cooldown (la_key a) fp (la_failed a) now_ms t)"

definition finish :: "login_attempt \<Rightarrow> bool \<Rightarrow> login_attempt" where
  "finish a failed = a\<lparr>la_failed := failed\<rparr>"

section \<open>Slots\<close>

definition active :: "pending list \<Rightarrow> nat" where
  "active ps = length (filter (\<lambda>p. 0 < pd_refs p) ps)"

lemma in_flight_active: "in_flight w = active (fw_pending w)"
  by (simp add: in_flight_def active_def)

lemma active_Cons [simp]: "active (p # ps) = (if 0 < pd_refs p then Suc (active ps) else active ps)" "active [] = 0"
  by (simp_all add: active_def)

lemma active_replicate [simp]: "active (replicate n p) = (if 0 < pd_refs p then n else 0)"
  by (induction n) simp_all

lemma active_le: "active ps \<le> length ps"
  by (simp add: active_def)

lemma length_update_first [simp]: "length (update_first q f ps) = length ps"
  by (induction ps) auto

lemma active_taken: "active ps < length ps \<Longrightarrow> active (update_first (\<lambda>p. pd_refs p = 0) (\<lambda>_. taken fp) ps) = Suc (active ps)"
proof (induction ps)
  case (Cons p ps)
  then show ?case
    using active_le [of ps] by (auto simp: taken_def)
qed simp

lemma active_shared: "active (update_first (holds fp) (\<lambda>p. p\<lparr>pd_refs := Suc (pd_refs p)\<rparr>) ps) = active ps"
  by (induction ps) (auto simp: holds_def)

lemma active_released:
  assumes "List.find (holds fp) ps = Some p"
  shows "active (update_first (holds fp) (\<lambda>_. p') ps) = (if 0 < pd_refs p' then active ps else active ps - 1)" and "0 < active ps"
  using assms by (induction ps) (auto simp: holds_def split: if_splits)

section \<open>One window\<close>

text \<open>
  \<open>window_ok c w F now\<close>: the window \<open>w\<close> at time \<open>now\<close> agrees with the times \<open>F\<close> of the failed logins it
  has counted so far. The failures before the current count are at least a cooldown in the past, or
  will be when the lockout ends.
\<close>

definition window_ok :: "nat \<Rightarrow> fail_window \<Rightarrow> nat list \<Rightarrow> nat \<Rightarrow> bool" where
  "window_ok c w F now =
     (length (fw_pending w) = LOGIN_FAIL_LIMIT \<and> fw_count w < LOGIN_FAIL_LIMIT \<and> fw_count w + in_flight w \<le> LOGIN_FAIL_LIMIT
      \<and> (blocked_until_ms w \<le> now \<or> in_flight w = 0)
      \<and> fw_count w \<le> length F
      \<and> (F \<noteq> [] \<longrightarrow> last F \<le> now \<and> (last F = last_ms w \<or> last F + c \<le> now))
      \<and> (fw_count w < length F \<longrightarrow> F ! (length F - fw_count w - 1) + c \<le> max now (blocked_until_ms w))
      \<and> sorted F
      \<and> (\<forall>i. i + 5 < length F \<longrightarrow> F ! i + c \<le> F ! (i + 5)))"

lemma window_ok_default: "window_ok c fail_window_default [] now"
  by (simp add: window_ok_def fail_window_default_def LOGIN_FAIL_LIMIT_def in_flight_active pending_default_def)

lemma window_ok_later: "window_ok c w F now \<Longrightarrow> now \<le> now' \<Longrightarrow> window_ok c w F now'"
  by (auto simp: window_ok_def)

text \<open>The count may be dropped once the last failure is a cooldown in the past.\<close>

lemma window_ok_decay:
  assumes "window_ok c w F now" and "c \<le> now - last_ms w" and "0 < c"
  shows "window_ok c (w\<lparr>fw_count := 0\<rparr>) F now" and "F \<noteq> [] \<longrightarrow> last F + c \<le> now"
proof -
  show past: "F \<noteq> [] \<longrightarrow> last F + c \<le> now"
    using assms by (auto simp: window_ok_def)
  then have "F \<noteq> [] \<longrightarrow> F ! (length F - 1) + c \<le> max now (blocked_until_ms w)"
    by (auto simp: last_conv_nth)
  then show "window_ok c (w\<lparr>fw_count := 0\<rparr>) F now"
    using assms(1) by (auto simp: window_ok_def LOGIN_FAIL_LIMIT_def in_flight_def)
qed

lemma window_ok_pending:
  assumes "window_ok c w F now" and "length ps = LOGIN_FAIL_LIMIT" and "fw_count w + active ps \<le> LOGIN_FAIL_LIMIT"
    and "blocked_until_ms w \<le> now \<or> active ps = 0"
  shows "window_ok c (w\<lparr>fw_pending := ps\<rparr>) F now"
  using assms by (auto simp: window_ok_def in_flight_active)

lemma window_ok_fresh:
  assumes "window_ok c w F now" and "F \<noteq> [] \<longrightarrow> last F + c \<le> now"
  shows "window_ok c fail_window_default F now"
proof -
  have "F \<noteq> [] \<longrightarrow> F ! (length F - 1) + c \<le> now"
    using assms(2) by (auto simp: last_conv_nth)
  then show ?thesis
    using assms by (auto simp: window_ok_def fail_window_default_def LOGIN_FAIL_LIMIT_def in_flight_active pending_default_def)
qed

lemma admit_window_ok:
  assumes "window_ok c w F now" and "0 < c"
  shows "admit_window c guess now w = Inl (retry, w') \<Longrightarrow> window_ok c w' F now"
    and "admit_window c guess now w = Inr (Some w') \<Longrightarrow> window_ok c w' F now"
    and "admit_window c guess now w = Inr None \<Longrightarrow> window_ok c fail_window_default F now"
proof -
  define w1 where "w1 = (if c \<le> now - last_ms w then w\<lparr>fw_count := 0\<rparr> else w)"
  have ok: "window_ok c w1 F now"
    using window_ok_decay(1) [OF assms(1) _ assms(2)] assms(1) by (simp add: w1_def)
  have same: "blocked_until_ms w1 = blocked_until_ms w"
    by (simp add: w1_def)
  have run: "admit_window c guess now w =
      (if now < blocked_until_ms w then Inl (div_ceil (blocked_until_ms w - now) 1000, w)
       else if (case guess of None \<Rightarrow> False | Some fp \<Rightarrow> list_ex (holds fp) (fw_pending w1))
       then Inr (Some (w1\<lparr>fw_pending := update_first (holds (the guess)) (\<lambda>p. p\<lparr>pd_refs := pd_refs p + 1\<rparr>) (fw_pending w1)\<rparr>))
       else if LOGIN_FAIL_LIMIT \<le> fw_count w1 + in_flight w1 then Inl (1, w1)
       else case guess of
         Some fp \<Rightarrow> Inr (Some (w1\<lparr>fw_pending := update_first (\<lambda>p. pd_refs p = 0) (\<lambda>_. taken fp) (fw_pending w1)\<rparr>))
       | None \<Rightarrow> if c \<le> now - last_ms w \<and> \<not> live w1 now then Inr None else Inr (Some w1))"
    unfolding admit_window_def Let_def w1_def ..
  show "admit_window c guess now w = Inl (retry, w') \<Longrightarrow> window_ok c w' F now"
    using assms(1) ok by (auto simp: run split: if_splits option.splits)
  show "admit_window c guess now w = Inr None \<Longrightarrow> window_ok c fail_window_default F now"
    using window_ok_fresh [OF assms(1)] window_ok_decay(2) [OF assms(1) _ assms(2)] by (auto simp: run split: if_splits option.splits)
  show "window_ok c w' F now" if admitted: "admit_window c guess now w = Inr (Some w')"
  proof -
    have unblocked: "blocked_until_ms w1 \<le> now"
      using admitted by (auto simp: run same split: if_splits)
    have len: "length (fw_pending w1) = LOGIN_FAIL_LIMIT" "fw_count w1 + active (fw_pending w1) \<le> LOGIN_FAIL_LIMIT"
      using ok by (simp_all add: window_ok_def in_flight_active)
    consider "w' = w1"
      | fp where "w' = w1\<lparr>fw_pending := update_first (holds fp) (\<lambda>p. p\<lparr>pd_refs := pd_refs p + 1\<rparr>) (fw_pending w1)\<rparr>"
      | fp where "w' = w1\<lparr>fw_pending := update_first (\<lambda>p. pd_refs p = 0) (\<lambda>_. taken fp) (fw_pending w1)\<rparr>"
          "fw_count w1 + active (fw_pending w1) < LOGIN_FAIL_LIMIT"
      using admitted by (auto simp: run in_flight_active split: if_splits option.splits)
    then show ?thesis
    proof cases
      case 1
      with ok show ?thesis
        by simp
    next
      case 2
      then show ?thesis
        using window_ok_pending [OF ok] len unblocked by (simp add: active_shared)
    next
      case 3
      then show ?thesis
        using window_ok_pending [OF ok] len unblocked active_taken [of "fw_pending w1"] by simp
    qed
  qed
qed

text \<open>A release counts as a failed login when it lets go of the last reference of a slot that failed.\<close>

definition counts_as_failure :: "u64 \<Rightarrow> bool \<Rightarrow> fail_window \<Rightarrow> bool" where
  "counts_as_failure fp failed w =
     (case List.find (holds fp) (fw_pending w) of None \<Rightarrow> False | Some p \<Rightarrow> pd_refs p = 1 \<and> (pd_failed p \<or> failed))"

text \<open>Counting one failure: the slot is free again and the count or the lockout takes its place.\<close>

definition count_failure :: "nat \<Rightarrow> nat \<Rightarrow> fail_window \<Rightarrow> fail_window" where
  "count_failure c now w =
     (let w2 = (if c \<le> now - last_ms w then w\<lparr>fw_count := 0\<rparr> else w);
          w3 = w2\<lparr>fw_count := fw_count w2 + 1, last_ms := now\<rparr>
      in if LOGIN_FAIL_LIMIT \<le> fw_count w3
         then w3\<lparr>blocked_until_ms := min (now + c) (2 ^ 64 - 1), fw_count := 0\<rparr> else w3)"

lemma sorted_le_last: "sorted xs \<Longrightarrow> x \<in> set xs \<Longrightarrow> x \<le> last xs"
  by (induction xs) auto

lemma nth_gap:
  assumes "sorted F" and "k < length F" and "k < 5" and "F ! (length F - k - 1) + c \<le> t" and "i + 5 = length F"
  shows "F ! i + c \<le> (t :: nat)"
proof -
  have "F ! i \<le> F ! (length F - k - 1)"
    using assms by (intro sorted_nth_mono) auto
  then show ?thesis
    using assms(4) by simp
qed

lemma count_failure_ok:
  assumes "window_ok c w F now" and "fw_count w + in_flight w < LOGIN_FAIL_LIMIT" and "blocked_until_ms w \<le> now" and "0 < c" and "now + c < 2 ^ 64"
  shows "window_ok c (count_failure c now w) (F @ [now]) now"
proof -
  define w2 where "w2 = (if c \<le> now - last_ms w then w\<lparr>fw_count := 0\<rparr> else w)"
  have ok: "window_ok c w2 F now"
    using window_ok_decay(1) [OF assms(1) _ assms(4)] assms(1) by (simp add: w2_def)
  have same: "blocked_until_ms w2 \<le> now" "fw_count w2 + in_flight w2 < LOGIN_FAIL_LIMIT"
    using assms(2,3) by (auto simp: w2_def in_flight_def)
  have k: "fw_count w2 < 5" "fw_count w2 \<le> length F" "in_flight w2 < 5 - fw_count w2"
    and gap: "fw_count w2 < length F \<longrightarrow> F ! (length F - fw_count w2 - 1) + c \<le> now"
    and F: "sorted F" "\<forall>i. i + 5 < length F \<longrightarrow> F ! i + c \<le> F ! (i + 5)" "F \<noteq> [] \<longrightarrow> last F \<le> now"
    using ok same by (auto simp: window_ok_def LOGIN_FAIL_LIMIT_def max_def split: if_splits)
  have below: "\<forall>t \<in> set F. t \<le> now"
    using F(1,3) sorted_le_last order_trans by (cases "F = []") (simp, blast)
  have sorted: "sorted (F @ [now])"
    using F(1) below by (simp add: sorted_append)
  have spans: "\<forall>i. i + 5 < length (F @ [now]) \<longrightarrow> (F @ [now]) ! i + c \<le> (F @ [now]) ! (i + 5)"
  proof (intro allI impI)
    fix i
    assume i: "i + 5 < length (F @ [now])"
    show "(F @ [now]) ! i + c \<le> (F @ [now]) ! (i + 5)"
    proof (cases "i + 5 = length F")
      case True
      have "fw_count w2 < length F"
        using True k(1) by simp
      then show ?thesis
        using nth_gap [OF F(1) _ k(1) _ True] gap True by (simp add: nth_append)
    next
      case False
      then show ?thesis
        using F(2) i by (simp add: nth_append)
    qed
  qed
  have run: "count_failure c now w =
      (if LOGIN_FAIL_LIMIT \<le> Suc (fw_count w2)
       then w2\<lparr>fw_count := 0, last_ms := now, blocked_until_ms := now + c\<rparr> else w2\<lparr>fw_count := Suc (fw_count w2), last_ms := now\<rparr>)"
    using assms(5) by (simp add: count_failure_def Let_def w2_def)
  show ?thesis
  proof (cases "LOGIN_FAIL_LIMIT \<le> Suc (fw_count w2)")
    case True
    then have "in_flight w2 = 0"
      using k(3) by (simp add: LOGIN_FAIL_LIMIT_def)
    then show ?thesis
      using True ok sorted spans unfolding run window_ok_def by (simp add: in_flight_def)
  next
    case False
    have "(F @ [now]) ! (length (F @ [now]) - Suc (fw_count w2) - 1) + c \<le> now" if "Suc (fw_count w2) < length (F @ [now])"
      using gap that by (auto simp: nth_append)
    then show ?thesis
      using False ok same k sorted spans unfolding run window_ok_def by (simp add: in_flight_def LOGIN_FAIL_LIMIT_def)
  qed
qed

lemma release_window_ok:
  assumes "window_ok c w F now" and "0 < c" and "now + c < 2 ^ 64"
  shows "window_ok c (release_window c fp failed now w) (if counts_as_failure fp failed w then F @ [now] else F) now"
proof (cases "List.find (holds fp) (fw_pending w)")
  case None
  then show ?thesis
    using assms(1) by (simp add: release_window_def counts_as_failure_def)
next
  case (Some p)
  let ?p = "p\<lparr>pd_refs := pd_refs p - 1, pd_failed := (pd_failed p \<or> failed)\<rparr>"
  let ?ps = "update_first (holds fp) (\<lambda>_. ?p) (fw_pending w)"
  let ?w = "w\<lparr>fw_pending := ?ps\<rparr>"
  have active: "active ?ps = (if 0 < pd_refs ?p then active (fw_pending w) else active (fw_pending w) - 1)" "0 < active (fw_pending w)"
    by (rule active_released [OF Some])+
  have w: "length (fw_pending w) = LOGIN_FAIL_LIMIT" "fw_count w + active (fw_pending w) \<le> LOGIN_FAIL_LIMIT" "blocked_until_ms w \<le> now"
    using assms(1) active(2) by (auto simp: window_ok_def in_flight_active)
  have ok: "window_ok c ?w F now"
    using window_ok_pending [OF assms(1), of ?ps] w active by (auto split: if_splits)
  have held: "0 < pd_refs p"
    using Some by (auto simp: find_Some_iff holds_def)
  show ?thesis
  proof (cases "0 < pd_refs ?p \<or> \<not> pd_failed ?p")
    case True
    then have "\<not> counts_as_failure fp failed w" "release_window c fp failed now w = ?w"
      using Some by (auto simp: counts_as_failure_def release_window_def Let_def)
    with ok show ?thesis
      by simp
  next
    case False
    then have "counts_as_failure fp failed w" "release_window c fp failed now w = count_failure c now ?w"
      using Some held by (auto simp: counts_as_failure_def release_window_def count_failure_def Let_def)
    moreover have "fw_count ?w + in_flight ?w < LOGIN_FAIL_LIMIT"
      using False w(2) active by (simp add: in_flight_active)
    ultimately show ?thesis
      using count_failure_ok [OF ok _ _ assms(2,3)] w(3) by simp
  qed
qed

section \<open>The table\<close>

text \<open>
  Runs of the throttle, followed for one network \<open>k\<close>: the table, the times of the failed logins
  counted for \<open>k\<close>, and the last clock reading. Calls come in any order and for any address, with a
  clock that does not run backwards, while the table is less than half full.
\<close>

inductive throttle_run :: "nat \<Rightarrow> throttle_key \<Rightarrow> throttle_table \<Rightarrow> nat list \<Rightarrow> nat \<Rightarrow> bool" for c :: nat and k :: throttle_key where
  start: "throttle_run c k table_default [] now"
| admitted: "throttle_run c k t F now \<Longrightarrow> now \<le> now' \<Longrightarrow> length (tt_map t) < LOGIN_THROTTLE_CAP div 2 \<Longrightarrow>
    admit_at c ip guess now' t = (r, t') \<Longrightarrow> throttle_run c k t' F now'"
| released: "throttle_run c k t F now \<Longrightarrow> now \<le> now' \<Longrightarrow> now' + c < 2 ^ 64 \<Longrightarrow>
    F' = (if key = k \<and> (case map_of (tt_map t) key of None \<Rightarrow> False | Some w \<Rightarrow> counts_as_failure fp failed w) then F @ [now'] else F) \<Longrightarrow>
    throttle_run c k (release_at c key fp failed now' t) F' now'"

definition window_of :: "throttle_table \<Rightarrow> throttle_key \<Rightarrow> fail_window" where
  "window_of t k = (case map_of (tt_map t) k of None \<Rightarrow> fail_window_default | Some w \<Rightarrow> w)"

lemma admit_untracked_window:
  assumes "length (tt_map t) < LOGIN_THROTTLE_CAP div 2" and "admit_untracked c keys guess now t = (r, t')"
    and "map_of (tt_map t) (keys ! 0) = None" and "window_ok c (window_of t k) F now"
  shows "window_ok c (window_of t' k) F now"
proof -
  have t: "sweep c now t = t" "length (tt_map t) * 4 div LOGIN_THROTTLE_CAP \<le> 1"
    using assms(1) by (auto simp: sweep_def LOGIN_THROTTLE_CAP_def)
  then have "t' = (case guess of None \<Rightarrow> t
      | Some fp \<Rightarrow> t\<lparr>tt_map := AList.update (keys ! 0) (fail_window_default\<lparr>fw_pending := (fw_pending fail_window_default)[0 := taken fp]\<rparr>) (tt_map t)\<rparr>)"
    using assms(2) by (auto simp: admit_untracked_def Let_def split: option.splits)
  moreover have "window_ok c (fail_window_default\<lparr>fw_pending := (fw_pending fail_window_default)[0 := taken fp]\<rparr>) F now" if "k = keys ! 0" for fp
  proof -
    have default: "window_of t k = fail_window_default"
      using that assms(3) by (simp add: window_of_def)
    have five: "(replicate 5 pending_default)[0 := taken fp] = taken fp # replicate 4 pending_default"
      by (simp add: numeral_eq_Suc)
    show ?thesis
      using window_ok_pending [OF assms(4) [unfolded default], of "(fw_pending fail_window_default)[0 := taken fp]"] five
      by (simp add: fail_window_default_def LOGIN_FAIL_LIMIT_def pending_default_def taken_def)
  qed
  ultimately show ?thesis
    using assms(4) by (auto simp: window_of_def update_conv' split: option.splits)
qed

lemma throttle_keys_nonempty: "throttle_keys ip ! 0 \<in> set (throttle_keys ip)"
  by (auto simp: throttle_keys_def v4_keys_def split: ip_addr.split option.split)

lemma admit_at_window:
  assumes "0 < c" and "length (tt_map t) < LOGIN_THROTTLE_CAP div 2" and "admit_at c ip guess now t = (r, t')"
    and "window_ok c (window_of t k) F now"
  shows "window_ok c (window_of t' k) F now"
proof (cases "List.find (\<lambda>k. map_of (tt_map t) k \<noteq> None) (throttle_keys ip)")
  case None
  then have "map_of (tt_map t) (throttle_keys ip ! 0) = None"
    using throttle_keys_nonempty [of ip] unfolding find_None_iff by blast
  moreover have "admit_untracked c (throttle_keys ip) guess now t = (r, t')"
    using assms(1,3) None by (simp add: admit_at_def)
  ultimately show ?thesis
    using admit_untracked_window assms(2,4) by blast
next
  case (Some key)
  then obtain w where w: "map_of (tt_map t) key = Some w"
    by (auto simp: find_Some_iff)
  have here: "window_ok c w F now" if "k = key"
    using assms(4) w that by (simp add: window_of_def)
  consider (refused) retry w' where "admit_window c guess now w = Inl (retry, w')" "t' = t\<lparr>tt_map := AList.update key w' (tt_map t)\<rparr>"
    | (kept) w' where "admit_window c guess now w = Inr (Some w')" "t' = t\<lparr>tt_map := AList.update key w' (tt_map t)\<rparr>"
    | (dropped) "admit_window c guess now w = Inr None" "t' = t\<lparr>tt_map := AList.delete key (tt_map t)\<rparr>"
    using assms(1,3) Some w by (auto simp: admit_at_def Let_def split: sum.splits option.splits)
  then show ?thesis
  proof cases
    case refused
    then show ?thesis
      using admit_window_ok(1) [OF here assms(1)] assms(4) by (cases "k = key") (simp_all add: window_of_def update_conv')
  next
    case kept
    then show ?thesis
      using admit_window_ok(2) [OF here assms(1)] assms(4) by (cases "k = key") (simp_all add: window_of_def update_conv')
  next
    case dropped
    then show ?thesis
      using admit_window_ok(3) [OF here assms(1)] assms(4) by (cases "k = key") (simp_all add: window_of_def delete_conv')
  qed
qed

lemma release_at_window:
  assumes "0 < c" and "now + c < 2 ^ 64" and "window_ok c (window_of t k) F now"
  shows "window_ok c (window_of (release_at c key fp failed now t) k)
    (if key = k \<and> (case map_of (tt_map t) key of None \<Rightarrow> False | Some w \<Rightarrow> counts_as_failure fp failed w) then F @ [now] else F) now"
proof (cases "map_of (tt_map t) key")
  case None
  then show ?thesis
    using assms(3) by (simp add: release_at_def)
next
  case (Some w)
  then show ?thesis
    using release_window_ok [OF _ assms(1,2), of w F fp failed] assms(3)
    by (cases "key = k") (auto simp: release_at_def window_of_def update_conv')
qed

lemma throttle_run_ok: "throttle_run c k t F now \<Longrightarrow> 0 < c \<Longrightarrow> window_ok c (window_of t k) F now"
proof (induction rule: throttle_run.induct)
  case (start now)
  then show ?case
    by (simp add: window_of_def table_default_def window_ok_default)
next
  case (admitted t F now now' ip guess r t')
  then show ?case
    using admit_at_window window_ok_later by blast
next
  case (released t F now now' F' key fp failed)
  show ?case
    using release_at_window [OF released.prems released.hyps(3) window_ok_later [OF released.IH [OF released.prems] released.hyps(2)]]
    unfolding released.hyps(4) .
qed


text \<open>
  The throttle is no oracle. For a credential whose guess is not already in flight from the address,
  admission answers the same, with the same network or the same \<open>Retry-After\<close>, whether the credential is
  valid or wrong; and while an address is locked out every credential is refused.
\<close>

theorem refusal_ignores_validity:
  assumes "\<forall>key \<in> set (throttle_keys ip). \<forall>w. map_of (tt_map t) key = Some w \<longrightarrow> \<not> list_ex (holds fp) (fw_pending w)"
  shows "fst (admit_at c ip (Some fp) now t) = fst (admit_at c ip None now t)
    \<and> (\<forall>key w guess. List.find (\<lambda>k. map_of (tt_map t) k \<noteq> None) (throttle_keys ip) = Some key \<and> map_of (tt_map t) key = Some w
        \<and> now < blocked_until_ms w \<and> 0 < c \<longrightarrow> fst (admit_at c ip guess now t) = Inl (div_ceil (blocked_until_ms w - now) 1000))"
proof -
  have "fst (admit_at c ip (Some fp) now t) = fst (admit_at c ip None now t)"
  proof (cases "List.find (\<lambda>k. map_of (tt_map t) k \<noteq> None) (throttle_keys ip)")
    case None
    then show ?thesis
      by (simp add: admit_at_def admit_untracked_def Let_def)
  next
    case (Some key)
    then obtain w where w: "map_of (tt_map t) key = Some w" "\<not> list_ex (holds fp) (fw_pending w)"
      using assms by (fastforce simp: find_Some_iff)
    then show ?thesis
      using Some by (auto simp: admit_at_def admit_window_def Let_def split: option.split sum.split)
  qed
  then show ?thesis
    by (auto simp: admit_at_def admit_window_def Let_def)
qed

section \<open>A lockout\<close>

text \<open>One wrong guess, answered at once.\<close>

definition try_guess :: "nat \<Rightarrow> ip_addr \<Rightarrow> u64 \<Rightarrow> nat \<Rightarrow> throttle_table \<times> nat list \<Rightarrow> throttle_table \<times> nat list" where
  "try_guess c ip fp now s =
     (let t = snd (admit_at c ip (Some fp) now (fst s)); key = throttle_keys ip ! 0
      in (release_at c key fp True now t,
          if (case map_of (tt_map t) key of None \<Rightarrow> False | Some w \<Rightarrow> counts_as_failure fp True w) then snd s @ [now] else snd s))"

lemma try_guess_run:
  assumes "throttle_run c (throttle_keys ip ! 0) (fst s) (snd s) now" and "now \<le> now'" and "length (tt_map (fst s)) < LOGIN_THROTTLE_CAP div 2" and "now' + c < 2 ^ 64"
  shows "throttle_run c (throttle_keys ip ! 0) (fst (try_guess c ip fp now' s)) (snd (try_guess c ip fp now' s)) now'"
proof -
  have "throttle_run c (throttle_keys ip ! 0) (snd (admit_at c ip (Some fp) now' (fst s))) (snd s) now'"
    by (rule throttle_run.admitted [OF assms(1,2,3)]) (rule prod.collapse [symmetric])
  from throttle_run.released [OF this order_refl assms(4) refl, of "throttle_keys ip ! 0" fp True] show ?thesis
    by (simp add: try_guess_def Let_def)
qed

definition guesser :: ip_addr where "guesser = V4 (Ipv4 192 0 2 7)"

definition guesses :: "nat \<Rightarrow> throttle_table \<times> nat list" where
  "guesses n = fold (\<lambda>(fp, now). try_guess 1000 guesser fp now) (take n [(1, 10), (2, 20), (3, 30), (4, 40), (5, 50), (6, 60), (7, 1050)]) (table_default, [])"

lemma guesser_keys:
  "throttle_keys guesser = [(V4 (Ipv4 192 0 2 7), 32), (V4 (Ipv4 192 0 2 0), 24), (V4 (Ipv4 192 0 0 0), 16)]"
  by code_simp

text \<open>The table while only the guesser has failed: one window, every slot free.\<close>

definition idle :: "nat \<Rightarrow> nat \<Rightarrow> nat \<Rightarrow> u64 \<Rightarrow> throttle_table" where
  "idle count last_at blocked fp =
     \<lparr>tt_map = [((V4 (Ipv4 192 0 2 7), 32), \<lparr>fw_count = count, last_ms = last_at, blocked_until_ms = blocked,
        fw_pending = [\<lparr>pd_fp = fp, pd_refs = 0, pd_failed = True\<rparr>, pending_default, pending_default, pending_default, pending_default]\<rparr>)],
      swept_ms = 0\<rparr>"

lemma default_window:
  "fail_window_default = \<lparr>fw_count = 0, last_ms = 0, blocked_until_ms = 0,
     fw_pending = [pending_default, pending_default, pending_default, pending_default, pending_default]\<rparr>"
  by (simp add: fail_window_default_def LOGIN_FAIL_LIMIT_def numeral_eq_Suc)

lemmas throttle_eval = try_guess_def admit_at_def admit_untracked_def admit_window_def release_at_def release_window_def guesser_keys Let_def
  idle_def holds_def taken_def counts_as_failure_def in_flight_active pending_default_def LOGIN_FAIL_LIMIT_def

lemma first_guess: "try_guess 1000 guesser fp now (table_default, F) = (idle 1 now 0 fp, F @ [now])"
  by (simp add: throttle_eval table_default_def sweep_def LOGIN_THROTTLE_CAP_def default_window)

lemma next_guess:
  assumes "blocked \<le> now" and "now - last_at < 1000" and "count < 4"
  shows "try_guess 1000 guesser fp now (idle count last_at blocked fp', F) = (idle (Suc count) now blocked fp, F @ [now])"
  using assms by (simp add: throttle_eval)

lemma fifth_guess:
  assumes "blocked \<le> now" and "now - last_at < 1000" and "now < 2 ^ 63"
  shows "try_guess 1000 guesser fp now (idle (Suc (Suc (Suc (Suc 0)))) last_at blocked fp', F) = (idle 0 now (now + 1000) fp, F @ [now])"
  using assms by (simp add: throttle_eval)

lemma locked_guess: "now < blocked \<Longrightarrow> try_guess 1000 guesser fp now (idle count last_at blocked fp', F) = (idle count last_at blocked fp', F)"
  by (simp add: throttle_eval)

lemma guesses_eval:
  "guesses 0 = (table_default, [])" "guesses 1 = (idle 1 10 0 1, [10])" "guesses 2 = (idle (Suc (Suc 0)) 20 0 2, [10, 20])"
  "guesses 3 = (idle (Suc (Suc (Suc 0))) 30 0 3, [10, 20, 30])" "guesses 4 = (idle (Suc (Suc (Suc (Suc 0)))) 40 0 4, [10, 20, 30, 40])"
  "guesses 5 = (idle 0 50 1050 5, [10, 20, 30, 40, 50])" "guesses 6 = (idle 0 50 1050 5, [10, 20, 30, 40, 50])"
  by (simp_all add: guesses_def first_guess next_guess fifth_guess locked_guess)


theorem refusal_ignores_validity_witness:
  "fst (admit_at 1000 guesser (Some 9) 100 (fst (guesses 6))) = Inl 1 \<and> fst (admit_at 1000 guesser None 100 (fst (guesses 6))) = Inl 1"
proof -
  have "\<forall>key \<in> set (throttle_keys guesser). \<forall>w. map_of (tt_map (fst (guesses 6))) key = Some w \<longrightarrow> \<not> list_ex (holds 9) (fw_pending w)"
    by (simp add: guesses_eval idle_def holds_def pending_default_def)
  moreover have "fst (admit_at 1000 guesser None 100 (fst (guesses 6))) = Inl 1"
    by (simp add: guesses_eval throttle_eval div_ceil_def)
  ultimately show ?thesis
    using refusal_ignores_validity [of guesser "fst (guesses 6)" 9 1000 100] by simp
qed

end
