(* ===== verification/Topology.thy ===== *)
theory Topology
  imports Origin "HOL-Library.Countable"
begin

text \<open>
  The configured buckets of a deployment (\<open>src/buckets.rs\<close>, \<open>bucket_tag\<close> of \<open>src/counters.rs\<close>): the
  list a node was started with, the write pin and the read pin, and the stamp on every bucket that
  says which list the deployment runs, verified at startup and moved by a migration.

  A \<open>BucketHandle\<close> names its bucket of the fleet. The calls that read and write stamps are bounded by
  a deadline; a call cut off there is one the store left unanswered, \<open>StoreError Timeout\<close>. \<open>av\<close> is the
  caller's classifier of errors, \<open>C\<close> the JSON of a stamp. A method on \<open>&self\<close> that changes the set
  returns the new set; the in-process lock around topology operations is left out.
\<close>

section \<open>Definitions\<close>

subsection \<open>The bucket set and its pins\<close>

record bucket_handle =
  bh_bucket :: bucket_id
  bh_name :: string
  supports_leases :: bool

record pinned =
  pin_generation :: u64
  pin_index :: nat

record bucket_set =
  handles :: "bucket_handle list"
  current :: pinned
  read_current :: pinned
  read_active :: bool
  generation :: u64
  topology_generation :: "u64 option"
  duplicate_identity :: "string option"

text \<open>The first name that an earlier handle already had.\<close>

fun first_duplicate :: "string list \<Rightarrow> string list \<Rightarrow> string option" where
  "first_duplicate seen [] = None"
| "first_duplicate seen (n # ns) = (if n \<in> set seen then Some n else first_duplicate (n # seen) ns)"

definition bucket_set_new :: "bucket_handle list \<Rightarrow> bucket_set option" where
  "bucket_set_new hs =
     (if hs = [] then None
      else Some \<lparr>handles = hs, current = \<lparr>pin_generation = 0, pin_index = 0\<rparr>,
                 read_current = \<lparr>pin_generation = 0, pin_index = 0\<rparr>, read_active = False, generation = 0,
                 topology_generation = None, duplicate_identity = first_duplicate [] (map bh_name hs)\<rparr>)"

definition pin :: "bucket_set \<Rightarrow> pinned" where
  "pin bs = current bs"

definition read_pin :: "bucket_set \<Rightarrow> pinned" where
  "read_pin bs = (if read_active bs then read_current bs else pin bs)"

definition bump_generation :: "bucket_set \<Rightarrow> u64 \<times> bucket_set" where
  "bump_generation bs = (generation bs + 1, bs\<lparr>generation := generation bs + 1\<rparr>)"

definition is_multi :: "bucket_set \<Rightarrow> bool" where
  "is_multi bs = (length (handles bs) > 1)"

text \<open>\<open>self.handles[index]\<close> panics out of range, so a switch there returns nothing.\<close>

definition switch :: "nat \<Rightarrow> bucket_set \<Rightarrow> bucket_set option" where
  "switch index bs =
     (let (g, bs') = bump_generation bs in
      if index \<ge> length (handles bs) then None
      else Some (bs'\<lparr>current := \<lparr>pin_generation = g, pin_index = index\<rparr>,
                     read_current := (if read_active bs then (read_current bs)\<lparr>pin_generation := g\<rparr> else read_current bs)\<rparr>))"

definition switch_read :: "nat \<Rightarrow> bucket_set \<Rightarrow> bucket_set option" where
  "switch_read index bs =
     (let (g, bs') = bump_generation bs in
      if index \<ge> length (handles bs) then None
      else Some (bs'\<lparr>read_current := \<lparr>pin_generation = g, pin_index = index\<rparr>, read_active := True,
                     current := (current bs)\<lparr>pin_generation := g\<rparr>\<rparr>))"

definition seed_read_pin :: "nat \<Rightarrow> bucket_set \<Rightarrow> bucket_set option" where
  "seed_read_pin index bs =
     (if index \<ge> length (handles bs) then None
      else Some (bs\<lparr>read_current := \<lparr>pin_generation = generation bs, pin_index = index\<rparr>, read_active := True\<rparr>))"

subsection \<open>Identity of a bucket and of a list of buckets\<close>

text \<open>Per character, not per byte: the continuation bytes of a character disappear with it.\<close>

definition is_continuation :: "char \<Rightarrow> bool" where
  "is_continuation c = (0x80 \<le> (of_char c :: nat) \<and> (of_char c :: nat) < 0xC0)"

definition bucket_tag :: "string \<Rightarrow> string" where
  "bucket_tag name =
     (let tag = map (\<lambda>c. if is_ascii_alphanumeric c \<or> c \<in> set ''._-'' then c else CHR ''-'') (filter (\<lambda>c. \<not> is_continuation c) name)
      in if tag = [] then ''local'' else tag)"

fun check_tags :: "string list \<Rightarrow> string list \<Rightarrow> unit res" where
  "check_tags seen [] = Inr ()"
| "check_tags seen (n # ns) =
     (if bucket_tag n \<in> set seen then Inl (Bail ''bucket identities both reduce to one storage tag'')
      else check_tags (bucket_tag n # seen) ns)"

definition validate_topology_config :: "bucket_set \<Rightarrow> unit res" where
  "validate_topology_config bs =
     (case duplicate_identity bs of
        Some _ \<Rightarrow> Inl (Bail ''duplicate bucket identity in multi-bucket topology'')
      | None \<Rightarrow>
          (case check_tags [] (map bh_name (handles bs)) of
             Inl e \<Rightarrow> Inl e
           | Inr _ \<Rightarrow>
               if list_all supports_leases (handles bs) then Inr ()
               else Inl (Bail ''multi-bucket requires a backend with conditional writes'')))"

fun hash_input :: "string list \<Rightarrow> bytes" where
  "hash_input [] = []"
| "hash_input [n] = n"
| "hash_input (n # ns) = n @ [CHR 0x00] @ hash_input ns"

definition topology_hash :: "(bytes \<Rightarrow> bytes) \<Rightarrow> string list \<Rightarrow> string" where
  "topology_hash sha names = sha256_hex sha (hash_input names)"

definition topology_identity :: "(bytes \<Rightarrow> bytes) \<Rightarrow> bucket_set \<Rightarrow> string list \<times> string" where
  "topology_identity sha bs = (let names = map bh_name (handles bs) in (names, topology_hash sha names))"

subsection \<open>The stamp\<close>

record topology_stamp =
  ts_buckets :: "string list"
  ts_hash :: string
  ts_generation :: u64

record stamp_codec =
  enc_stamp :: "topology_stamp \<Rightarrow> bytes"
  dec_stamp :: "bytes \<Rightarrow> topology_stamp option"

definition encode_stamp :: "stamp_codec \<Rightarrow> string list \<Rightarrow> string \<Rightarrow> u64 \<Rightarrow> bytes" where
  "encode_stamp C names h g = enc_stamp C \<lparr>ts_buckets = names, ts_hash = h, ts_generation = g\<rparr>"

definition parse_stamp :: "stamp_codec \<Rightarrow> bytes \<Rightarrow> topology_stamp res" where
  "parse_stamp C bs = (case dec_stamp C bs of None \<Rightarrow> Inl (Bail ''parse topology stamp'') | Some st \<Rightarrow> Inr st)"

definition check_stamp_identity :: "topology_stamp \<Rightarrow> string \<Rightarrow> string list \<Rightarrow> unit res" where
  "check_stamp_identity found expected_hash expected =
     (if ts_hash found \<noteq> expected_hash \<or> ts_buckets found \<noteq> expected
      then Inl (Bail ''bucket was stamped for a different bucket topology'') else Inr ())"

definition check_exact_stamp :: "topology_stamp \<Rightarrow> string \<Rightarrow> string list \<Rightarrow> u64 \<Rightarrow> unit res" where
  "check_exact_stamp found expected_hash expected g =
     (case check_stamp_identity found expected_hash expected of
        Inl e \<Rightarrow> Inl e
      | Inr _ \<Rightarrow> if ts_generation found \<noteq> g then Inl (Bail ''bucket has another topology generation'') else Inr ())"

definition topology_error_is_availability :: "(nat \<Rightarrow> err \<Rightarrow> bool) \<Rightarrow> nat \<Rightarrow> err \<Rightarrow> bool" where
  "topology_error_is_availability av index e = (e = StoreError Timeout \<or> av index e)"

definition verify_raced_stamp ::
  "stamp_codec \<Rightarrow> (nat \<Rightarrow> err \<Rightarrow> bool) \<Rightarrow> bucket_handle \<Rightarrow> nat \<Rightarrow> string \<Rightarrow> string list \<Rightarrow> u64 \<Rightarrow> bool act" where
  "verify_raced_stamp C av h index expected_hash expected g =
     onResult (get_with_etag (bh_bucket h) TOPOLOGY_STAMP_KEY)
       (\<lambda>e. if topology_error_is_availability av index e then ret False else fail e)
       (\<lambda>found. case found of
          None \<Rightarrow> fail (Bail ''topology stamp vanished after a conditional-write race'')
        | Some (bs, _) \<Rightarrow>
            andThen (lift_res (parse_stamp C bs)) (\<lambda>st.
            andThen (lift_res (check_exact_stamp st expected_hash expected g)) (\<lambda>_. ret True)))"

subsection \<open>Verification and migration\<close>

record topology_report =
  rp_generation :: "u64 option"
  verified_indices :: "nat list"
  stamped_indices :: "nat list"
  unreachable_indices :: "nat list"

definition empty_report :: topology_report where
  "empty_report = \<lparr>rp_generation = None, verified_indices = [], stamped_indices = [], unreachable_indices = []\<rparr>"

datatype index_status = Dormant | Verified | Stamped | Restamped | Unreachable

text \<open>One pass over the buckets: the stamps of those that answered, the indices of those that did not.\<close>

fun read_stamps ::
  "stamp_codec \<Rightarrow> (nat \<Rightarrow> err \<Rightarrow> bool) \<Rightarrow> (nat \<times> bucket_handle) list \<Rightarrow> (nat \<times> bucket_handle \<times> (topology_stamp \<times> string) option) list
    \<Rightarrow> nat list \<Rightarrow> ((nat \<times> bucket_handle \<times> (topology_stamp \<times> string) option) list \<times> nat list) act" where
  "read_stamps C av [] reachable unreachable = ret (reachable, unreachable)"
| "read_stamps C av ((i, h) # hs) reachable unreachable =
     onResult (get_with_etag (bh_bucket h) TOPOLOGY_STAMP_KEY)
       (\<lambda>e. if topology_error_is_availability av i e then read_stamps C av hs reachable (unreachable @ [i]) else fail e)
       (\<lambda>found. case found of
          None \<Rightarrow> read_stamps C av hs (reachable @ [(i, h, None)]) unreachable
        | Some (bs, etag) \<Rightarrow>
            andThen (lift_res (parse_stamp C bs)) (\<lambda>st.
              read_stamps C av hs (reachable @ [(i, h, Some (st, etag))]) unreachable))"

definition max_generation :: "u64 option \<Rightarrow> (nat \<times> bucket_handle \<times> (topology_stamp \<times> string) option) list \<Rightarrow> u64 option" where
  "max_generation g0 reachable =
     fold (\<lambda>(_, _, c) g. case c of None \<Rightarrow> g
             | Some (st, _) \<Rightarrow> Some (case g of None \<Rightarrow> ts_generation st | Some m \<Rightarrow> max m (ts_generation st))) reachable g0"

text \<open>The conditional write of one stamp, and what became of it.\<close>

definition stamp_one ::
  "(bytes \<Rightarrow> bytes) \<Rightarrow> stamp_codec \<Rightarrow> (nat \<Rightarrow> err \<Rightarrow> bool) \<Rightarrow> string list \<Rightarrow> string \<Rightarrow> u64 \<Rightarrow> nat \<Rightarrow> bucket_handle \<Rightarrow> string option
    \<Rightarrow> index_status act" where
  "stamp_one sha C av names h g i bh etag =
     onResult (case etag of
                 Some t \<Rightarrow> put_if_match sha (bh_bucket bh) TOPOLOGY_STAMP_KEY t (encode_stamp C names h g)
               | None \<Rightarrow> put_if_none_match sha (bh_bucket bh) TOPOLOGY_STAMP_KEY (encode_stamp C names h g))
       (\<lambda>e. if topology_error_is_availability av i e then ret Unreachable else fail e)
       (\<lambda>won. if won \<noteq> None then ret (if etag = None then Stamped else Restamped)
              else andThen (verify_raced_stamp C av bh i h names g) (\<lambda>ok. ret (if ok then Verified else Unreachable)))"

fun stamp_all ::
  "(bytes \<Rightarrow> bytes) \<Rightarrow> stamp_codec \<Rightarrow> (nat \<Rightarrow> err \<Rightarrow> bool) \<Rightarrow> string list \<Rightarrow> string \<Rightarrow> u64 \<Rightarrow> (nat \<times> bucket_handle \<times> string option) list
    \<Rightarrow> topology_report \<Rightarrow> topology_report act" where
  "stamp_all sha C av names h g [] report = ret report"
| "stamp_all sha C av names h g ((i, bh, etag) # rest) report =
     andThen (stamp_one sha C av names h g i bh etag) (\<lambda>outcome.
       stamp_all sha C av names h g rest
         (case outcome of
            Verified \<Rightarrow> report\<lparr>verified_indices := verified_indices report @ [i]\<rparr>
          | Unreachable \<Rightarrow> report\<lparr>unreachable_indices := unreachable_indices report @ [i]\<rparr>
          | _ \<Rightarrow> report\<lparr>stamped_indices := stamped_indices report @ [i]\<rparr>))"

definition finish_report :: "u64 \<Rightarrow> topology_report \<Rightarrow> topology_report" where
  "finish_report g report =
     report\<lparr>unreachable_indices := remdups (sort (unreachable_indices report)), rp_generation := Some g\<rparr>"

text \<open>The stamps at the highest generation must all agree with this list; the first that does not refuses.\<close>

fun check_current :: "string \<Rightarrow> string list \<Rightarrow> u64 \<Rightarrow> (nat \<times> bucket_handle \<times> (topology_stamp \<times> string) option) list \<Rightarrow> nat list res" where
  "check_current h names g [] = Inr []"
| "check_current h names g ((i, _, c) # rest) =
     (case c of
        None \<Rightarrow> check_current h names g rest
      | Some (st, _) \<Rightarrow>
          if ts_generation st \<noteq> g then check_current h names g rest
          else (case check_stamp_identity st h names of
                  Inl e \<Rightarrow> Inl e
                | Inr _ \<Rightarrow> (case check_current h names g rest of Inl e \<Rightarrow> Inl e | Inr ixs \<Rightarrow> Inr (i # ixs))))"

definition laggards :: "u64 \<Rightarrow> (nat \<times> bucket_handle \<times> (topology_stamp \<times> string) option) list \<Rightarrow> (nat \<times> bucket_handle \<times> string option) list" where
  "laggards g reachable =
     map (\<lambda>(i, bh, c). (i, bh, map_option snd c)) (filter (\<lambda>(_, _, c). case c of None \<Rightarrow> True | Some (st, _) \<Rightarrow> ts_generation st \<noteq> g) reachable)"

definition verify_topology_with ::
  "(bytes \<Rightarrow> bytes) \<Rightarrow> stamp_codec \<Rightarrow> (nat \<Rightarrow> err \<Rightarrow> bool) \<Rightarrow> bucket_set \<Rightarrow> (topology_report \<times> bucket_set) act" where
  "verify_topology_with sha C av bs =
     (if \<not> is_multi bs then ret (empty_report, bs)
      else
        andThen (lift_res (validate_topology_config bs)) (\<lambda>_.
          let (names, h) = topology_identity sha bs in
          andThen (read_stamps C av (enumerate 0 (handles bs)) [] []) (\<lambda>(reachable, unreachable).
            if reachable = [] then fail (Bail ''cannot verify topology: no configured bucket is reachable at startup'')
            else if (\<exists>e\<in>set reachable. snd (snd e) = None) \<and> unreachable \<noteq> [] then
              fail (Bail ''unstamped buckets while others did not answer'')
            else
              (let g = (case max_generation (topology_generation bs) reachable of None \<Rightarrow> 0 | Some m \<Rightarrow> m) in
               andThen (lift_res (check_current h names g reachable)) (\<lambda>verified.
               andThen (stamp_all sha C av names h g (laggards g reachable)
                          \<lparr>rp_generation = None, verified_indices = verified, stamped_indices = [],
                           unreachable_indices = unreachable\<rparr>) (\<lambda>report.
                 ret (finish_report g report, bs\<lparr>topology_generation := Some g\<rparr>)))))))"

definition verify_topology_index_with ::
  "(bytes \<Rightarrow> bytes) \<Rightarrow> stamp_codec \<Rightarrow> (nat \<Rightarrow> err \<Rightarrow> bool) \<Rightarrow> bucket_set \<Rightarrow> nat \<Rightarrow> index_status act" where
  "verify_topology_index_with sha C av bs index =
     (if index \<ge> length (handles bs) then fail (Bail ''bucket index is out of range'')
      else if \<not> is_multi bs then ret Dormant
      else
        andThen (lift_res (validate_topology_config bs)) (\<lambda>_.
          case topology_generation bs of
            None \<Rightarrow> fail (Bail ''topology has not been verified; run startup verification first'')
          | Some g \<Rightarrow>
              (let (names, h) = topology_identity sha bs; bh = handles bs ! index in
               onResult (get_with_etag (bh_bucket bh) TOPOLOGY_STAMP_KEY)
                 (\<lambda>e. if topology_error_is_availability av index e then ret Unreachable else fail e)
                 (\<lambda>found. case found of
                    None \<Rightarrow> stamp_one sha C av names h g index bh None
                  | Some (bytes, etag) \<Rightarrow>
                      andThen (lift_res (parse_stamp C bytes)) (\<lambda>st.
                        if ts_generation st = g then andThen (lift_res (check_stamp_identity st h names)) (\<lambda>_. ret Verified)
                        else if ts_generation st > g then fail (Bail ''bucket has newer topology generation'')
                        else stamp_one sha C av names h g index bh (Some etag))))))"

definition migrate_topology_with ::
  "(bytes \<Rightarrow> bytes) \<Rightarrow> stamp_codec \<Rightarrow> (nat \<Rightarrow> err \<Rightarrow> bool) \<Rightarrow> bucket_set \<Rightarrow> (topology_report \<times> bucket_set) act" where
  "migrate_topology_with sha C av bs =
     (if \<not> is_multi bs then ret (empty_report, bs)
      else
        andThen (lift_res (validate_topology_config bs)) (\<lambda>_.
          let (names, h) = topology_identity sha bs in
          andThen (read_stamps C av (enumerate 0 (handles bs)) [] []) (\<lambda>(reachable, unreachable).
            if reachable = [] then fail (Bail ''cannot migrate topology: no configured bucket is reachable'')
            else
              (let observed = max_generation None reachable; local = topology_generation bs in
               if (case (local, observed) of (Some l, Some ob) \<Rightarrow> ob < l | _ \<Rightarrow> False)
               then fail (Bail ''reachable topology generation regressed'')
               else
                 (let base = (case observed of Some ob \<Rightarrow> ob | None \<Rightarrow> (case local of Some l \<Rightarrow> l | None \<Rightarrow> 0)) in
                  if base = - 1 then fail (Bail ''topology generation overflow'')
                  else
                    andThen (stamp_all sha C av names h (base + 1) (map (\<lambda>(i, bh, c). (i, bh, map_option snd c)) reachable)
                               \<lparr>rp_generation = None, verified_indices = [], stamped_indices = [], unreachable_indices = unreachable\<rparr>) (\<lambda>report.
                      ret (finish_report (base + 1) report, bs\<lparr>topology_generation := Some (base + 1)\<rparr>)))))))"

definition stamped_member_names_with ::
  "stamp_codec \<Rightarrow> (nat \<Rightarrow> err \<Rightarrow> bool) \<Rightarrow> bucket_set \<Rightarrow> (string list option \<times> string list) act" where
  "stamped_member_names_with C av bs =
     andThen (read_stamps C av (enumerate 0 (handles bs)) [] []) (\<lambda>(reachable, unreachable).
       ret (map_option ts_buckets
              (fold (\<lambda>(_, _, c) best. case c of None \<Rightarrow> best
                       | Some (st, _) \<Rightarrow> (case best of None \<Rightarrow> Some st
                           | Some t0 \<Rightarrow> if ts_generation st \<ge> ts_generation t0 then Some st else best)) reachable None),
            map (\<lambda>i. bh_name (handles bs ! i)) unreachable))"

section \<open>The pins\<close>

text \<open>Both pins name a configured bucket and carry the set's own generation.\<close>

definition pins_ok :: "bucket_set \<Rightarrow> bool" where
  "pins_ok bs = (\<forall>p\<in>{pin bs, read_pin bs}. pin_index p < length (handles bs) \<and> pin_generation p = generation bs)"

text \<open>The operations that move a pin; an index out of range panics.\<close>

inductive pin_step :: "bucket_set \<Rightarrow> bucket_set \<Rightarrow> bool" where
  Switch: "switch i bs = Some bs' \<Longrightarrow> pin_step bs bs'"
| Switch_Read: "switch_read i bs = Some bs' \<Longrightarrow> pin_step bs bs'"
| Seed_Read: "seed_read_pin i bs = Some bs' \<Longrightarrow> pin_step bs bs'"

lemmas pin_defs = pins_ok_def pin_def read_pin_def switch_def switch_read_def seed_read_pin_def bump_generation_def

lemma pin_step_ok: "pin_step bs bs' \<Longrightarrow> pins_ok bs \<Longrightarrow> pins_ok bs' \<and> handles bs' = handles bs"
  by (induction rule: pin_step.induct) (auto simp: pin_defs split: if_splits)

lemma pin_steps_ok: "pin_step\<^sup>*\<^sup>* bs bs' \<Longrightarrow> pins_ok bs \<Longrightarrow> pins_ok bs' \<and> handles bs' = handles bs"
  by (induction rule: rtranclp_induct) (auto dest: pin_step_ok)

text \<open>
  from a fresh set, through any sequence of switches, both pins name a configured bucket and
  carry one generation, the set's; and a switch of either pin makes both differ from every pin
  taken before it, so a holder of an old pin can tell.
\<close>

theorem pins_stay_consistent:
  assumes "bucket_set_new hs = Some bs0" and "pin_step\<^sup>*\<^sup>* bs0 bs"
  shows "pins_ok bs \<and> handles bs = hs
    \<and> (\<forall>i bs'. switch i bs = Some bs' \<or> switch_read i bs = Some bs' \<longrightarrow>
         pin_generation (pin bs') = pin_generation (pin bs) + 1 \<and> pin_generation (read_pin bs') = pin_generation (read_pin bs) + 1
         \<and> pin bs' \<noteq> pin bs \<and> read_pin bs' \<noteq> read_pin bs)"
proof -
  have "pins_ok bs0" "handles bs0 = hs"
    using assms(1) by (auto simp: bucket_set_new_def pin_defs split: if_splits)
  then have ok: "pins_ok bs" "handles bs = hs"
    using pin_steps_ok [OF assms(2)] by auto
  have "pin_generation (pin bs') = pin_generation (pin bs) + 1 \<and> pin_generation (read_pin bs') = pin_generation (read_pin bs) + 1"
    if "switch i bs = Some bs' \<or> switch_read i bs = Some bs'" for i bs'
    using that ok(1) by (auto simp: pin_defs split: if_splits)
  moreover have "p \<noteq> q" if "pin_generation p = pin_generation q + 1" for p q :: pinned
    using that by auto
  ultimately show ?thesis
    using ok by blast
qed

section \<open>What a stamp says, and how stamps move\<close>

definition stamp_at :: "stamp_codec \<Rightarrow> inner \<Rightarrow> topology_stamp option option" where
  "stamp_at C s = map_option (\<lambda>ob. dec_stamp C (obj_bytes ob)) (object_at s TOPOLOGY_STAMP_KEY)"

definition stamp_json_ok :: "stamp_codec \<Rightarrow> bool" where
  "stamp_json_ok C = (\<forall>st. dec_stamp C (enc_stamp C st) = Some st)"

text \<open>The bucket carries this stamp, or one of a later generation.\<close>

definition settled :: "stamp_codec \<Rightarrow> topology_stamp \<Rightarrow> inner \<Rightarrow> bool" where
  "settled C st s = (\<exists>st'. stamp_at C s = Some (Some st') \<and> (st' = st \<or> ts_generation st < ts_generation st'))"

definition stamps_advance :: "stamp_codec \<Rightarrow> fleet \<Rightarrow> fleet \<Rightarrow> bool" where
  "stamps_advance C fl fl' = (\<forall>b st. stamp_at C (fl b) = Some (Some st) \<longrightarrow> settled C st (fl' b))"

lemma settled_trans: "settled C st s \<Longrightarrow> (\<And>st'. stamp_at C s = Some (Some st') \<Longrightarrow> settled C st' s') \<Longrightarrow> settled C st s'"
  unfolding settled_def by fastforce

lemma stamps_advance_refl: "stamps_advance C fl fl"
  by (simp add: stamps_advance_def settled_def)

lemma stamps_advance_trans: "stamps_advance C f g \<Longrightarrow> stamps_advance C g h \<Longrightarrow> stamps_advance C f h"
  unfolding stamps_advance_def using settled_trans by blast

lemma stamp_at_store:
  "stamp_at C (snd (store sha TOPOLOGY_STAMP_KEY bs s)) = Some (dec_stamp C bs)"
  by (simp add: stamp_at_def object_at_store)

lemma stamp_at_lookup: "lookup_tagged s TOPOLOGY_STAMP_KEY = Some (v, t) \<Longrightarrow> stamp_at C s = Some (dec_stamp C v)"
  by (auto simp: stamp_at_def lookup_tagged_def)

lemma stable_settled: "stable (stamps_advance C) (\<lambda>fl. settled C st (fl b))"
  unfolding stable_def stamps_advance_def using settled_trans by blast

lemma stable_advance: "stable (stamps_advance C) (stamps_advance C fl0)"
  unfolding stable_def using stamps_advance_trans by blast

text \<open>Evidence for a conditional write: the tag stands only over a stamp of a lower generation.\<close>

definition lower :: "stamp_codec \<Rightarrow> u64 \<Rightarrow> bucket_handle \<Rightarrow> string option \<Rightarrow> fleet \<Rightarrow> bool" where
  "lower C g bh etag fl =
     (\<forall>t. etag = Some t \<longrightarrow> sim.proves (fl (bh_bucket bh)) TOPOLOGY_STAMP_KEY t (\<lambda>v. \<exists>st. dec_stamp C v = Some st \<and> ts_generation st < g))"

lemma stable_lower: "stable (stamps_advance C) (lower C g bh etag)"
  unfolding lower_def by (cases etag) (simp_all add: stable_const stable_proves)

text \<open>A write of ours that raises a bucket's stamp is within what peers may do, so it keeps what they keep.\<close>

lemma raise_keeps:
  assumes "stable (stamps_advance C) P" and "fleet_wf fl" and "P fl"
    and "\<And>st. stamp_at C (fl b) = Some (Some st) \<Longrightarrow> settled C st s'" and "evolves (fl b) s'"
  shows "P (fl(b := s'))"
proof -
  have "stamps_advance C fl (fl(b := s'))" "fleet_evolves fl (fl(b := s'))"
    using assms(4,5) stamps_advance_refl [of C fl] by (simp_all add: stamps_advance_def fleet_evolves_def)
  then show ?thesis
    using assms(1-3) unfolding stable_def by blast
qed

lemma same_stamp_keeps:
  assumes "stable (stamps_advance C) P" and "fleet_wf fl" and "P fl"
  shows "P (fl(b := create_lost sha k (fl b)))"
  by (rule raise_keeps [OF assms]) (auto simp: stamp_at_def settled_def evolves_same_objects)

lemma triple_verify_raced:
  assumes "stable (stamps_advance C) P"
  shows "triple (stamps_advance C) P (verify_raced_stamp C av bh i h names g)
    (both P (\<lambda>ok fl. P fl \<and> (ok \<longrightarrow> settled C \<lparr>ts_buckets = names, ts_hash = h, ts_generation = g\<rparr> (fl (bh_bucket bh)))))"
  unfolding verify_raced_stamp_def
proof (rule triple_onResult)
  let ?k = TOPOLOGY_STAMP_KEY and ?st = "\<lparr>ts_buckets = names, ts_hash = h, ts_generation = g\<rparr>"
  show "triple (stamps_advance C) P (get_with_etag (bh_bucket bh) ?k)
      (\<lambda>r fl. P fl \<and> (\<forall>bs t. r = Inr (Some (bs, t)) \<longrightarrow> stamp_at C (fl (bh_bucket bh)) = Some (dec_stamp C bs)))"
    by (rule triple_get_with_etag [OF assms]) (auto simp: stamp_at_lookup)
  have exact: "st = ?st" if "check_exact_stamp st h names g = Inr u" for st :: topology_stamp and u
    using that by (cases st) (auto simp: check_exact_stamp_def check_stamp_identity_def split: if_splits)
  fix found
  show "triple (stamps_advance C)
      (\<lambda>fl. P fl \<and> (\<forall>bs t. Inr found = Inr (Some (bs, t)) \<longrightarrow> stamp_at C (fl (bh_bucket bh)) = Some (dec_stamp C bs)))
      (case found of None \<Rightarrow> fail (Bail ''topology stamp vanished after a conditional-write race'')
        | Some (bs, _) \<Rightarrow> andThen (lift_res (parse_stamp C bs)) (\<lambda>st. andThen (lift_res (check_exact_stamp st h names g)) (\<lambda>_. ret True)))
      (both P (\<lambda>ok fl. P fl \<and> (ok \<longrightarrow> settled C ?st (fl (bh_bucket bh)))))"
    by (auto simp: triple_def andThen_def lift_res_def parse_stamp_def ret_def fail_def settled_def
        split: option.splits sum.splits dest!: exact)
qed (auto intro!: triple_if triple_ret triple_fail)

lemma triple_stamp_one:
  assumes "stable (stamps_advance C) P" and "stamp_json_ok C"
  shows "triple (stamps_advance C) (\<lambda>fl. P fl \<and> lower C g bh etag fl) (stamp_one sha C av names h g i bh etag)
    (both P (\<lambda>out fl. P fl \<and> (out = Unreachable \<or> settled C \<lparr>ts_buckets = names, ts_hash = h, ts_generation = g\<rparr> (fl (bh_bucket bh)))))"
  unfolding stamp_one_def
proof (rule triple_onResult)
  let ?b = "bh_bucket bh" and ?st = "\<lparr>ts_buckets = names, ts_hash = h, ts_generation = g\<rparr>"
  let ?new = "\<lambda>fl. fl(?b := snd (store sha TOPOLOGY_STAMP_KEY (encode_stamp C names h g) (fl ?b)))"
  have pre: "stable (stamps_advance C) (\<lambda>fl. P fl \<and> lower C g bh etag fl)"
    by (intro stable_conj assms(1) stable_lower)
  have now: "stamp_at C (?new fl ?b) = Some (Some ?st)" for fl
    using assms(2) by (simp add: stamp_at_store encode_stamp_def stamp_json_ok_def)
  have up: "P (?new fl)" if "fleet_wf fl" "P fl" "\<And>st. stamp_at C (fl ?b) = Some (Some st) \<Longrightarrow> ts_generation st < g" for fl
  proof (rule raise_keeps [OF assms(1) that(1,2)])
    show "settled C st (snd (store sha TOPOLOGY_STAMP_KEY (encode_stamp C names h g) (fl ?b)))"
      if "stamp_at C (fl ?b) = Some (Some st)" for st
      using now [of fl] \<open>\<And>st. stamp_at C (fl ?b) = Some (Some st) \<Longrightarrow> ts_generation st < g\<close> [OF that] by (simp add: settled_def)
  qed (rule store_evolves)
  let ?Q = "\<lambda>r fl. P fl \<and> (\<forall>t. r = Inr (Some t) \<longrightarrow> settled C ?st (fl ?b))"
  show "triple (stamps_advance C) (\<lambda>fl. P fl \<and> lower C g bh etag fl)
      (case etag of Some t \<Rightarrow> put_if_match sha ?b TOPOLOGY_STAMP_KEY t (encode_stamp C names h g)
        | None \<Rightarrow> put_if_none_match sha ?b TOPOLOGY_STAMP_KEY (encode_stamp C names h g)) ?Q"
  proof (cases etag)
    case None
    have "triple (stamps_advance C) (\<lambda>fl. P fl \<and> lower C g bh etag fl)
        (put_if_none_match sha ?b TOPOLOGY_STAMP_KEY (encode_stamp C names h g)) ?Q"
    proof (rule triple_put_if_none_match [OF pre])
      fix fl :: fleet and r :: "string option res"
      assume fl: "fleet_wf fl" "P fl \<and> lower C g bh etag fl"
      show "?Q r (fl(?b := create_lost sha TOPOLOGY_STAMP_KEY (fl ?b)))" if "r = Inr None \<or> unanswered r"
        using that fl same_stamp_keeps [OF assms(1)] by auto
      show "?Q r (?new fl)" if "\<not> contains_key (fl ?b) TOPOLOGY_STAMP_KEY"
        using up [of fl] fl that now [of fl] by (auto simp: stamp_at_def contains_key_def settled_def)
    qed simp
    then show ?thesis
      using None by simp
  next
    case (Some t)
    have win: "?Q r (?new fl)" if "fleet_wf fl" "P fl \<and> lower C g bh etag fl" "lookup_tagged (fl ?b) TOPOLOGY_STAMP_KEY = Some (v, t)"
      for fl v and r :: "string option res"
    proof -
      have "sim.proves (fl ?b) TOPOLOGY_STAMP_KEY t (\<lambda>v. \<exists>st. dec_stamp C v = Some st \<and> ts_generation st < g)"
        using that(2) Some by (simp add: lower_def)
      then have "\<exists>st. dec_stamp C v = Some st \<and> ts_generation st < g"
        using that(3) by (rule sim.proves_current)
      then show ?thesis
        using up [of fl] that now [of fl] stamp_at_lookup [OF that(3), of C] by (auto simp: settled_def)
    qed
    have "triple (stamps_advance C) (\<lambda>fl. P fl \<and> lower C g bh etag fl)
        (put_if_match sha ?b TOPOLOGY_STAMP_KEY t (encode_stamp C names h g)) ?Q"
      by (rule triple_put_if_match [OF pre]) (use win in \<open>blast | simp\<close>)+
    then show ?thesis
      using Some by simp
  qed
  fix won :: "string option"
  show "triple (stamps_advance C) (?Q (Inr won))
      (if won \<noteq> None then ret (if etag = None then Stamped else Restamped)
       else andThen (verify_raced_stamp C av bh i h names g) (\<lambda>ok. ret (if ok then Verified else Unreachable)))
      (both P (\<lambda>out fl. P fl \<and> (out = Unreachable \<or> settled C ?st (fl ?b))))"
    by (intro triple_if triple_ret triple_andThen [OF triple_pre [OF triple_verify_raced [OF assms(1)]]]) auto
qed (auto intro!: triple_if triple_ret triple_fail)

lemma triple_stamp_all:
  assumes "stable (stamps_advance C) P" and "stamp_json_ok C"
  shows "triple (stamps_advance C) (\<lambda>fl. P fl \<and> (\<forall>(i, bh, etag)\<in>set es. lower C g bh etag fl)) (stamp_all sha C av names h g es report)
    (both P (\<lambda>report' fl. P fl \<and> set (unreachable_indices report) \<subseteq> set (unreachable_indices report') \<and>
       (\<forall>(i, bh, etag)\<in>set es. i \<in> set (unreachable_indices report') \<or>
          settled C \<lparr>ts_buckets = names, ts_hash = h, ts_generation = g\<rparr> (fl (bh_bucket bh)))))"
  using assms(1)
proof (induction es arbitrary: report P)
  case Nil
  then show ?case
    by (auto intro!: triple_ret)
next
  case (Cons e es)
  obtain i bh etag where e: "e = (i, bh, etag)"
    by (cases e)
  let ?st = "\<lparr>ts_buckets = names, ts_hash = h, ts_generation = g\<rparr>"
  let ?P = "\<lambda>fl. P fl \<and> (\<forall>(i, bh, etag)\<in>set es. lower C g bh etag fl)"
  have low: "stable (stamps_advance C) (\<lambda>fl. \<forall>(i, bh, etag)\<in>set es. lower C g bh etag fl)"
    using stable_lower unfolding stable_def by fast
  have one: "triple (stamps_advance C) (\<lambda>fl. ?P fl \<and> lower C g bh etag fl) (stamp_one sha C av names h g i bh etag)
      (both ?P (\<lambda>out fl. ?P fl \<and> (out = Unreachable \<or> settled C ?st (fl (bh_bucket bh)))))"
    by (rule triple_stamp_one [OF stable_conj [OF Cons.prems low] assms(2)])
  let ?rep = "\<lambda>out. case out of Verified \<Rightarrow> report\<lparr>verified_indices := verified_indices report @ [i]\<rparr>
      | Unreachable \<Rightarrow> report\<lparr>unreachable_indices := unreachable_indices report @ [i]\<rparr>
      | _ \<Rightarrow> report\<lparr>stamped_indices := stamped_indices report @ [i]\<rparr>"
  have rest: "triple (stamps_advance C) (\<lambda>fl. ?P fl \<and> (out = Unreachable \<or> settled C ?st (fl (bh_bucket bh))))
      (stamp_all sha C av names h g es (?rep out))
      (both P (\<lambda>report' fl. P fl \<and> set (unreachable_indices report) \<subseteq> set (unreachable_indices report') \<and>
         (\<forall>(i, bh, etag)\<in>set (e # es). i \<in> set (unreachable_indices report') \<or> settled C ?st (fl (bh_bucket bh)))))" for out
  proof -
    let ?F = "\<lambda>fl. P fl \<and> (out = Unreachable \<or> settled C ?st (fl (bh_bucket bh)))"
    have "stable (stamps_advance C) ?F"
      using Cons.prems stable_settled [of C ?st "bh_bucket bh"] unfolding stable_def by blast
    from Cons.IH [OF this, of "?rep out"] show ?thesis
      by (rule triple_conseq) (auto simp: both_def e split: sum.splits index_status.splits)
  qed
  show ?case
    unfolding e stamp_all.simps
    by (rule triple_andThen [OF triple_pre [OF one]]) (use rest e in \<open>auto\<close>)
qed

text \<open>The reading pass: every bucket is either unreachable or listed with what it said.\<close>

definition seen :: "stamp_codec \<Rightarrow> bucket_handle \<Rightarrow> (topology_stamp \<times> string) option \<Rightarrow> fleet \<Rightarrow> bool" where
  "seen C bh c fl =
     (\<forall>st t. c = Some (st, t) \<longrightarrow> sim.proves (fl (bh_bucket bh)) TOPOLOGY_STAMP_KEY t (\<lambda>v. dec_stamp C v = Some st) \<and> settled C st (fl (bh_bucket bh)))"

lemma stable_seen: "stable (stamps_advance C) (seen C bh c)"
  unfolding seen_def
  by (cases c) (auto simp: stable_const intro!: stable_conj [OF stable_proves stable_settled])

lemma triple_read_stamps:
  assumes "stable (stamps_advance C) P"
  shows "triple (stamps_advance C) (\<lambda>fl. P fl \<and> (\<forall>(i, bh, c)\<in>set reach. seen C bh c fl)) (read_stamps C av hs reach unr)
    (both P (\<lambda>(reach', unr') fl. P fl \<and> (\<forall>(i, bh, c)\<in>set reach'. seen C bh c fl) \<and> set unr \<subseteq> set unr' \<and> set reach \<subseteq> set reach' \<and>
       (\<forall>(i, bh)\<in>set hs. i \<in> set unr' \<or> (\<exists>c. (i, bh, c) \<in> set reach'))))"
proof (induction hs arbitrary: reach unr)
  case Nil
  then show ?case
    by (auto intro!: triple_ret)
next
  case (Cons e hs)
  obtain i bh where e: "e = (i, bh)"
    by (cases e)
  let ?R = "\<lambda>reach fl. P fl \<and> (\<forall>(i, bh, c)\<in>set reach. seen C bh c fl)"
  let ?Q = "\<lambda>hs reach unr. both P (\<lambda>(reach', unr') fl. P fl \<and> (\<forall>(i, bh, c)\<in>set reach'. seen C bh c fl) \<and> set unr \<subseteq> set unr' \<and> set reach \<subseteq> set reach' \<and>
       (\<forall>(i, bh)\<in>set hs. i \<in> set unr' \<or> (\<exists>c. (i, bh, c) \<in> set reach')))"
  have stab: "stable (stamps_advance C) (?R reach)"
    using assms stable_seen unfolding stable_def by fast
  have read: "triple (stamps_advance C) (?R reach) (get_with_etag (bh_bucket bh) TOPOLOGY_STAMP_KEY)
      (\<lambda>r fl. ?R reach fl \<and> (\<forall>bs t st. r = Inr (Some (bs, t)) \<longrightarrow> dec_stamp C bs = Some st \<longrightarrow> seen C bh (Some (st, t)) fl))"
  proof (rule triple_get_with_etag [OF stab])
    fix fl
    assume fl: "fleet_wf fl" "?R reach fl"
    have "seen C bh (Some (st, t)) fl"
      if at: "lookup_tagged (fl (bh_bucket bh)) TOPOLOGY_STAMP_KEY = Some (bs, t)" and "dec_stamp C bs = Some st" for bs t st
      using fl(1) that stamp_at_lookup [OF at, of C] unfolding seen_def
      by (auto simp: settled_def fleet_wf_def evolves_same_objects intro!: sim.provesI [OF _ _ at])
    then show "?R reach fl \<and> (\<forall>bs t st. Inr (lookup_tagged (fl (bh_bucket bh)) TOPOLOGY_STAMP_KEY) = Inr (Some (bs, t)) \<longrightarrow>
        dec_stamp C bs = Some st \<longrightarrow> seen C bh (Some (st, t)) fl)"
      using fl(2) by simp
  qed auto
  have again: "triple (stamps_advance C) (\<lambda>fl. ?R reach fl \<and> seen C bh c fl) (read_stamps C av hs (reach @ [(i, bh, c)]) unr) (?Q (e # hs) reach unr)" for c
    by (rule triple_conseq [OF Cons.IH [of "reach @ [(i, bh, c)]" unr]]) (auto simp: both_def e split: sum.splits)
  have skip: "triple (stamps_advance C) (?R reach) (read_stamps C av hs reach (unr @ [i])) (?Q (e # hs) reach unr)"
    by (rule triple_conseq [OF Cons.IH [of reach "unr @ [i]"]]) (auto simp: both_def e split: sum.splits)
  show ?case
    unfolding e read_stamps.simps
  proof (rule triple_onResult [OF read])
    fix found
    show "triple (stamps_advance C) (\<lambda>fl. ?R reach fl \<and> (\<forall>bs t st. Inr found = Inr (Some (bs, t)) \<longrightarrow> dec_stamp C bs = Some st \<longrightarrow> seen C bh (Some (st, t)) fl))
      (case found of None \<Rightarrow> read_stamps C av hs (reach @ [(i, bh, None)]) unr
        | Some (bs, etag) \<Rightarrow> andThen (lift_res (parse_stamp C bs)) (\<lambda>st. read_stamps C av hs (reach @ [(i, bh, Some (st, etag))]) unr))
      (?Q ((i, bh) # hs) reach unr)"
    proof (cases found)
      case None
      then show ?thesis
        using again [of None] e by (auto simp: seen_def)
    next
      case (Some bt)
      obtain bs t where bt: "bt = (bs, t)"
        by fastforce
      show ?thesis
      proof (cases "dec_stamp C bs")
        case (Some st)
        then show ?thesis
          using \<open>found = Some bt\<close> triple_pre [OF again [of "Some (st, t)"]] e
          by (auto simp: bt parse_stamp_def lift_res_def andThen_def ret_def)
      next
        case None
        then show ?thesis
          using \<open>found = Some bt\<close> by (auto simp: bt parse_stamp_def lift_res_def andThen_def fail_def triple_def)
      qed
    qed
  qed (use skip e in \<open>auto intro!: triple_if triple_fail elim: triple_pre\<close>)
qed

lemma max_generation_Cons:
  "max_generation g0 ((i, bh, c) # reach) =
     max_generation (case c of None \<Rightarrow> g0 | Some (st, _) \<Rightarrow> Some (case g0 of None \<Rightarrow> ts_generation st | Some m \<Rightarrow> max m (ts_generation st))) reach"
  by (simp add: max_generation_def)

lemma max_generation_ge: "\<exists>m. max_generation (Some g) reach = Some m \<and> g \<le> m"
proof (induction reach arbitrary: g)
  case Nil
  then show ?case
    by (simp add: max_generation_def)
next
  case (Cons e reach)
  obtain i bh c where e: "e = (i, bh, c)"
    by (cases e)
  show ?case
  proof (cases c)
    case None
    then show ?thesis
      using Cons.IH [of g] by (simp add: e max_generation_Cons)
  next
    case (Some x)
    then show ?thesis
      using Cons.IH [of "max g (ts_generation (fst x))"] by (auto simp: e max_generation_Cons case_prod_beta)
  qed
qed

lemma max_generation_seen:
  "(i, bh, Some (st, t)) \<in> set reach \<Longrightarrow> \<exists>m. max_generation g0 reach = Some m \<and> ts_generation st \<le> m"
proof (induction reach arbitrary: g0)
  case (Cons e reach)
  obtain i' bh' c where e: "e = (i', bh', c)"
    by (cases e)
  show ?case
  proof (cases "e = (i, bh, Some (st, t))")
    case True
    define m where "m = (case g0 of None \<Rightarrow> ts_generation st | Some m \<Rightarrow> max m (ts_generation st))"
    have "ts_generation st \<le> m"
      by (simp add: m_def split: option.splits)
    then show ?thesis
      using max_generation_ge [of m reach] order_trans True by (fastforce simp: max_generation_Cons m_def)
  next
    case False
    then have "(i, bh, Some (st, t)) \<in> set reach"
      using Cons.prems by auto
    then show ?thesis
      unfolding e max_generation_Cons by (rule Cons.IH)
  qed
qed simp

section \<open>The three operations\<close>

definition target_stamp :: "(bytes \<Rightarrow> bytes) \<Rightarrow> bucket_set \<Rightarrow> u64 \<Rightarrow> topology_stamp" where
  "target_stamp sha bs g =
     \<lparr>ts_buckets = map bh_name (handles bs), ts_hash = topology_hash sha (map bh_name (handles bs)), ts_generation = g\<rparr>"

text \<open>Every configured bucket carries the stamp or a later one, unless it was reported unreachable.\<close>

definition fleet_stamped :: "stamp_codec \<Rightarrow> topology_stamp \<Rightarrow> bucket_set \<Rightarrow> topology_report \<Rightarrow> fleet \<Rightarrow> bool" where
  "fleet_stamped C st bs report fl =
     (\<forall>i<length (handles bs). i \<in> set (unreachable_indices report) \<or> settled C st (fl (bh_bucket (handles bs ! i))))"

lemma triple_lift_then:
  "(\<And>x. r = Inr x \<Longrightarrow> triple G P (f x) Q) \<Longrightarrow> (\<And>e fl. P fl \<Longrightarrow> Q (Inl e) fl) \<Longrightarrow> triple G P (andThen (lift_res r) f) Q"
  by (cases r) (auto simp: triple_def andThen_def lift_res_def ret_def fail_def)

lemma lower_of_seen: "seen C bh (Some (st, t)) fl \<Longrightarrow> ts_generation st < g \<Longrightarrow> lower C g bh (Some t) fl"
  unfolding seen_def lower_def sim.proves_def by auto

lemma check_current_exact:
  "check_current h names g reach = Inr ixs \<Longrightarrow> (i, bh, Some (st, t)) \<in> set reach \<Longrightarrow> ts_generation st = g \<Longrightarrow>
    st = \<lparr>ts_buckets = names, ts_hash = h, ts_generation = g\<rparr>"
proof (induction reach arbitrary: ixs)
  case (Cons e rest)
  obtain i' bh' c where e: "e = (i', bh', c)"
    by (cases e)
  have head: "check_stamp_identity st h names = Inr ()" if "e = (i, bh, Some (st, t))"
    using Cons.prems(1,3) that by (auto split: sum.splits)
  have tail: "\<exists>ixs'. check_current h names g rest = Inr ixs'"
    using Cons.prems(1) by (auto simp: e split: option.splits prod.splits if_splits sum.splits)
  show ?case
  proof (cases "e = (i, bh, Some (st, t))")
    case True
    then show ?thesis
      using head Cons.prems(3) by (cases st) (auto simp: check_stamp_identity_def split: if_splits)
  next
    case False
    then show ?thesis
      using tail Cons.IH Cons.prems(2,3) by auto
  qed
qed simp

lemma set_enumerate_handles: "i < length hs \<Longrightarrow> (i, hs ! i) \<in> set (enumerate 0 hs)"
  by (force simp: in_set_enumerate_eq)

lemma triple_stamp_seen:
  assumes "stamp_json_ok C" and "stable (stamps_advance C) P"
    and "\<And>i bh t. (i, bh, Some t) \<in> set todo \<Longrightarrow> \<exists>st. (i, bh, Some (st, t)) \<in> set reach \<and> ts_generation st < g"
  shows "triple (stamps_advance C) (\<lambda>fl. P fl \<and> (\<forall>(i, bh, c)\<in>set reach. seen C bh c fl)) (stamp_all sha C av names h g todo report)
    (both P (\<lambda>report' fl. P fl \<and> (\<forall>(i, bh, c)\<in>set reach. seen C bh c fl) \<and> set (unreachable_indices report) \<subseteq> set (unreachable_indices report') \<and>
       (\<forall>(i, bh, etag)\<in>set todo. i \<in> set (unreachable_indices report') \<or>
          settled C \<lparr>ts_buckets = names, ts_hash = h, ts_generation = g\<rparr> (fl (bh_bucket bh)))))"
proof -
  let ?P = "\<lambda>fl. P fl \<and> (\<forall>(i, bh, c)\<in>set reach. seen C bh c fl)"
  have stab: "stable (stamps_advance C) ?P"
    using assms(2) stable_seen unfolding stable_def by fast
  have low: "lower C g bh etag fl" if fl: "?P fl" and todo: "(i, bh, etag) \<in> set todo" for fl i bh etag
  proof (cases etag)
    case (Some t)
    then obtain st where "(i, bh, Some (st, t)) \<in> set reach" "ts_generation st < g"
      using assms(3) todo by blast
    then show ?thesis
      using fl lower_of_seen [of C bh st t fl g] Some by auto
  qed (simp add: lower_def)
  show ?thesis
    by (rule triple_conseq [OF triple_stamp_all [OF stab assms(1)]])
      (use low in \<open>auto simp: both_def split: sum.splits\<close>)
qed

text \<open>What an operation that ended well says of the fleet.\<close>

definition topology_post :: "(bytes \<Rightarrow> bytes) \<Rightarrow> stamp_codec \<Rightarrow> bucket_set \<Rightarrow> (u64 \<Rightarrow> u64 \<Rightarrow> bool) \<Rightarrow> topology_report \<Rightarrow> bucket_set \<Rightarrow> fleet \<Rightarrow> bool" where
  "topology_post sha C bs R report bs' fl =
     (is_multi bs \<longrightarrow> (\<exists>g. rp_generation report = Some g \<and> bs' = bs\<lparr>topology_generation := Some g\<rparr>
        \<and> (\<forall>l. topology_generation bs = Some l \<longrightarrow> R l g) \<and> fleet_stamped C (target_stamp sha bs g) bs report fl))"

lemma fleet_stamped_finish: "fleet_stamped C st bs (finish_report g report) fl = fleet_stamped C st bs report fl"
  by (simp add: fleet_stamped_def finish_report_def)

lemma rp_generation_finish [simp]: "rp_generation (finish_report g report) = Some g"
  by (simp add: finish_report_def)

lemma triple_verify_topology:
  assumes "stamp_json_ok C"
  shows "triple (stamps_advance C) (stamps_advance C fl0) (verify_topology_with sha C av bs)
    (both (stamps_advance C fl0) (\<lambda>(report, bs') fl. stamps_advance C fl0 fl \<and> topology_post sha C bs (\<le>) report bs' fl))"
proof (cases "is_multi bs")
  case True
  let ?F = "stamps_advance C fl0" and ?names = "map bh_name (handles bs)"
  let ?h = "topology_hash sha ?names"
  let ?Q = "both ?F (\<lambda>(report, bs') fl. ?F fl \<and> topology_post sha C bs (\<le>) report bs' fl)"
  have rest: "triple (stamps_advance C)
      (\<lambda>fl. ?F fl \<and> (\<forall>(i, bh, c)\<in>set reach. seen C bh c fl) \<and> (\<forall>(i, bh)\<in>set (enumerate 0 (handles bs)). i \<in> set unr \<or> (\<exists>c. (i, bh, c) \<in> set reach)))
      (andThen (stamp_all sha C av ?names ?h g (laggards g reach)
           \<lparr>rp_generation = None, verified_indices = verified, stamped_indices = [], unreachable_indices = unr\<rparr>)
         (\<lambda>report. ret (finish_report g report, bs\<lparr>topology_generation := Some g\<rparr>))) ?Q"
    if g: "g = (case max_generation (topology_generation bs) reach of None \<Rightarrow> 0 | Some m \<Rightarrow> m)"
      and ok: "check_current ?h ?names g reach = Inr verified" for reach unr g verified
  proof -
    let ?st = "target_stamp sha bs g"
    have le: "ts_generation st \<le> g" if "(i, bh, Some (st, t)) \<in> set reach" for i bh st t
      using max_generation_seen [OF that, of "topology_generation bs"] g by auto
    have low: "\<exists>st. (i, bh, Some (st, t)) \<in> set reach \<and> ts_generation st < g" if "(i, bh, Some t) \<in> set (laggards g reach)" for i bh t
      using that le unfolding laggards_def by (force simp: order_less_le split: option.splits)
    have loc: "l \<le> g" if "topology_generation bs = Some l" for l
      using max_generation_ge [of l reach] that g by auto
    have stamped: "fleet_stamped C ?st bs report fl"
      if seen: "\<forall>(i, bh, c)\<in>set reach. seen C bh c fl"
        and all: "\<forall>(i, bh)\<in>set (enumerate 0 (handles bs)). i \<in> set unr \<or> (\<exists>c. (i, bh, c) \<in> set reach)"
        and unr: "set unr \<subseteq> set (unreachable_indices report)"
        and written: "\<forall>(i, bh, etag)\<in>set (laggards g reach). i \<in> set (unreachable_indices report) \<or> settled C ?st (fl (bh_bucket bh))"
      for report fl
      unfolding fleet_stamped_def
    proof (intro allI impI)
      fix i
      assume i: "i < length (handles bs)"
      show "i \<in> set (unreachable_indices report) \<or> settled C ?st (fl (bh_bucket (handles bs ! i)))"
      proof (cases "i \<in> set unr")
        case False
        then obtain c where c: "(i, handles bs ! i, c) \<in> set reach"
          using all set_enumerate_handles [OF i] by auto
        show ?thesis
        proof (cases "\<exists>st t. c = Some (st, t) \<and> ts_generation st = g")
          case True
          then obtain st t where st: "c = Some (st, t)" "ts_generation st = g"
            by auto
          then have "st = ?st"
            using check_current_exact [OF ok] c by (simp add: target_stamp_def)
          then show ?thesis
            using seen c st by (auto simp: seen_def)
        next
          case False
          then have "(i, handles bs ! i, map_option snd c) \<in> set (laggards g reach)"
            using c unfolding laggards_def by (force split: option.splits)
          then show ?thesis
            using written by auto
        qed
      qed (use unr in auto)
    qed
    show ?thesis
      by (rule triple_andThen [OF triple_pre [OF triple_stamp_seen [OF assms stable_conj [OF stable_advance stable_const], where reach = reach]]], erule low)
        (auto intro!: triple_ret stamped [unfolded target_stamp_def] simp: topology_post_def True fleet_stamped_finish loc target_stamp_def)
  qed
  let ?R = "\<lambda>(reach, unr) fl. ?F fl \<and> (\<forall>(i, bh, c)\<in>set reach. seen C bh c fl)
      \<and> (\<forall>(i, bh)\<in>set (enumerate 0 (handles bs)). i \<in> set unr \<or> (\<exists>c. (i, bh, c) \<in> set reach))"
  have read: "triple (stamps_advance C) ?F (read_stamps C av (enumerate 0 (handles bs)) [] []) (both ?F ?R)"
    by (rule triple_conseq [OF triple_read_stamps [OF stable_advance]]) (auto simp: both_def split: sum.splits)
  show ?thesis
    unfolding verify_topology_with_def topology_identity_def Let_def prod.case if_not_P [OF iffD2 [OF not_not True]]
  proof (rule triple_lift_then, rule triple_andThen [OF read], goal_cases)
    case (1 _ p)
    obtain reach unr where p: "p = (reach, unr)"
      by fastforce
    show ?case
      unfolding p prod.case by (intro triple_if triple_fail triple_lift_then rest) auto
  qed auto
qed (auto simp: verify_topology_with_def topology_post_def intro!: triple_ret)

lemma word_lt_succ: "x \<noteq> - 1 \<Longrightarrow> x < x + (1 :: u64)"
  using saturating_add_one [of x] by (auto simp: word_less_nat_alt)

lemma triple_migrate_topology:
  assumes "stamp_json_ok C"
  shows "triple (stamps_advance C) (stamps_advance C fl0) (migrate_topology_with sha C av bs)
    (both (stamps_advance C fl0) (\<lambda>(report, bs') fl. stamps_advance C fl0 fl \<and> topology_post sha C bs (<) report bs' fl))"
proof (cases "is_multi bs")
  case True
  let ?F = "stamps_advance C fl0" and ?names = "map bh_name (handles bs)"
  let ?h = "topology_hash sha ?names"
  let ?Q = "both ?F (\<lambda>(report, bs') fl. ?F fl \<and> topology_post sha C bs (<) report bs' fl)"
  let ?R = "\<lambda>(reach, unr) fl. ?F fl \<and> (\<forall>(i, bh, c)\<in>set reach. seen C bh c fl)
      \<and> (\<forall>(i, bh)\<in>set (enumerate 0 (handles bs)). i \<in> set unr \<or> (\<exists>c. (i, bh, c) \<in> set reach))"
  have rest: "triple (stamps_advance C) (?R (reach, unr))
      (andThen (stamp_all sha C av ?names ?h (base + 1) (map (\<lambda>(i, bh, c). (i, bh, map_option snd c)) reach)
           \<lparr>rp_generation = None, verified_indices = [], stamped_indices = [], unreachable_indices = unr\<rparr>)
         (\<lambda>report. ret (finish_report (base + 1) report, bs\<lparr>topology_generation := Some (base + 1)\<rparr>))) ?Q"
    if base: "base = (case max_generation None reach of Some ob \<Rightarrow> ob | None \<Rightarrow> (case topology_generation bs of Some l \<Rightarrow> l | None \<Rightarrow> 0))"
      and top: "base \<noteq> - 1" and loc: "\<not> (case (topology_generation bs, max_generation None reach) of (Some l, Some ob) \<Rightarrow> ob < l | _ \<Rightarrow> False)"
    for reach unr base
  proof -
    have low: "\<exists>st. (i, bh, Some (st, t)) \<in> set reach \<and> ts_generation st < base + 1"
      if todo: "(i, bh, Some t) \<in> set (map (\<lambda>(i, bh, c). (i, bh, map_option snd c)) reach)" for i bh t
    proof -
      obtain st where st: "(i, bh, Some (st, t)) \<in> set reach"
        using todo by (auto simp: eq_commute [of "Some t"])
      then show ?thesis
        using max_generation_seen [OF st, of None] base word_lt_succ [OF top] by fastforce
    qed
    have mine: "l < base + 1" if "topology_generation bs = Some l" for l
      using loc that base word_lt_succ [OF top] by (auto split: option.splits)
    show ?thesis
      by (rule triple_andThen [OF triple_pre [OF triple_stamp_seen [OF assms stable_conj [OF stable_advance stable_const], where reach = reach]]], erule low)
        (auto intro!: triple_ret simp: topology_post_def True fleet_stamped_finish mine target_stamp_def,
         auto simp: fleet_stamped_def dest!: set_enumerate_handles)
  qed
  have read: "triple (stamps_advance C) ?F (read_stamps C av (enumerate 0 (handles bs)) [] []) (both ?F ?R)"
    by (rule triple_conseq [OF triple_read_stamps [OF stable_advance]]) (auto simp: both_def split: sum.splits)
  show ?thesis
    unfolding migrate_topology_with_def topology_identity_def Let_def prod.case if_not_P [OF iffD2 [OF not_not True]]
  proof (rule triple_lift_then, rule triple_andThen [OF read], goal_cases)
    case (1 _ p)
    obtain reach unr where p: "p = (reach, unr)"
      by fastforce
    show ?case
      unfolding p prod.case by (intro triple_if triple_fail rest [unfolded prod.case]) auto
  qed auto
qed (auto simp: migrate_topology_with_def topology_post_def intro!: triple_ret)

lemma triple_verify_topology_index:
  assumes "stamp_json_ok C"
  shows "triple (stamps_advance C) (stamps_advance C fl0) (verify_topology_index_with sha C av bs i)
    (both (stamps_advance C fl0) (\<lambda>out fl. stamps_advance C fl0 fl \<and>
       (out \<notin> {Dormant, Unreachable} \<longrightarrow> (\<exists>g. topology_generation bs = Some g \<and> settled C (target_stamp sha bs g) (fl (bh_bucket (handles bs ! i)))))))"
proof (cases "i \<ge> length (handles bs) \<or> \<not> is_multi bs")
  case False
  let ?F = "stamps_advance C fl0" and ?bh = "handles bs ! i"
  let ?Q = "both ?F (\<lambda>out fl. ?F fl \<and> (out \<notin> {Dormant, Unreachable} \<longrightarrow>
      (\<exists>g. topology_generation bs = Some g \<and> settled C (target_stamp sha bs g) (fl (bh_bucket ?bh)))))"
  let ?names = "map bh_name (handles bs)"
  let ?h = "topology_hash sha ?names"
  have read: "triple (stamps_advance C) ?F (get_with_etag (bh_bucket ?bh) TOPOLOGY_STAMP_KEY)
      (\<lambda>r fl. ?F fl \<and> (\<forall>bs' t st. r = Inr (Some (bs', t)) \<longrightarrow> dec_stamp C bs' = Some st \<longrightarrow> seen C ?bh (Some (st, t)) fl))"
    by (rule triple_get_with_etag [OF stable_advance])
      (auto simp: seen_def settled_def fleet_wf_def evolves_same_objects stamp_at_lookup intro!: sim.provesI)
  have one: "triple (stamps_advance C) (\<lambda>fl. ?F fl \<and> lower C g ?bh etag fl) (stamp_one sha C av ?names ?h g i ?bh etag) ?Q"
    if "topology_generation bs = Some g" for g etag
    by (rule triple_conseq [OF triple_stamp_one [OF stable_advance assms]]) (auto simp: both_def target_stamp_def that split: sum.splits)
  have exact: "st = target_stamp sha bs g" if "check_stamp_identity st ?h ?names = Inr u" "ts_generation st = g" for st :: topology_stamp and g u
    using that by (cases st) (auto simp: check_stamp_identity_def target_stamp_def split: if_splits)
  have after: "triple (stamps_advance C)
      (\<lambda>fl. ?F fl \<and> (\<forall>bs' t st. Inr found = Inr (Some (bs', t)) \<longrightarrow> dec_stamp C bs' = Some st \<longrightarrow> seen C ?bh (Some (st, t)) fl))
      (case found of None \<Rightarrow> stamp_one sha C av ?names ?h g i ?bh None
         | Some (bytes, etag) \<Rightarrow> andThen (lift_res (parse_stamp C bytes)) (\<lambda>st.
             if ts_generation st = g then andThen (lift_res (check_stamp_identity st ?h ?names)) (\<lambda>_. ret Verified)
             else if ts_generation st > g then fail (Bail ''bucket has newer topology generation'')
             else stamp_one sha C av ?names ?h g i ?bh (Some etag))) ?Q"
    if g: "topology_generation bs = Some g" for g found
  proof (cases found)
    case None
    then show ?thesis
      using triple_pre [OF one [OF g, of None]] by (auto simp: lower_def)
  next
    case (Some bt)
    obtain bytes t where bt: "bt = (bytes, t)"
      by fastforce
    let ?S = "\<lambda>fl. ?F fl \<and> (\<forall>st. dec_stamp C bytes = Some st \<longrightarrow> seen C ?bh (Some (st, t)) fl)"
    have same: "triple (stamps_advance C) ?S (ret Verified) ?Q"
      if "dec_stamp C bytes = Some st" "ts_generation st = g" "check_stamp_identity st ?h ?names = Inr u" for st u
      using that exact [OF that(3,2)] g by (auto intro!: triple_ret simp: seen_def)
    have older: "triple (stamps_advance C) ?S (stamp_one sha C av ?names ?h g i ?bh (Some t)) ?Q"
      if "dec_stamp C bytes = Some st" "ts_generation st \<noteq> g" "\<not> ts_generation st > g" for st
      by (rule triple_pre [OF one [OF g]]) (use that in \<open>auto intro!: lower_of_seen\<close>)
    have "triple (stamps_advance C) ?S
        (andThen (lift_res (parse_stamp C bytes)) (\<lambda>st.
           if ts_generation st = g then andThen (lift_res (check_stamp_identity st ?h ?names)) (\<lambda>_. ret Verified)
           else if ts_generation st > g then fail (Bail ''bucket has newer topology generation'')
           else stamp_one sha C av ?names ?h g i ?bh (Some t))) ?Q"
      by (intro triple_lift_then triple_if triple_fail same older)
        (auto simp: parse_stamp_def split: option.splits)
    then show ?thesis
      by (simp add: Some bt)
  qed
  show ?thesis
  proof (cases "topology_generation bs")
    case None
    then show ?thesis
      using False by (auto simp: verify_topology_index_with_def intro!: triple_lift_then triple_fail)
  next
    case (Some g)
    show ?thesis
      unfolding verify_topology_index_with_def topology_identity_def Let_def prod.case Some option.case
        if_not_P [OF False [unfolded de_Morgan_disj, THEN conjunct1]] if_not_P [OF False [unfolded de_Morgan_disj, THEN conjunct2]]
      by (rule triple_lift_then, rule triple_onResult [OF read after [OF Some, unfolded Some]])
        (auto intro!: triple_if triple_ret triple_fail)
  qed
qed (auto simp: verify_topology_index_with_def intro!: triple_ret triple_fail)

section \<open>Undisturbed runs\<close>

text \<open>The highest generation among the stamps and what this process verified before; 0 on a fresh fleet.\<close>

definition fleet_generation :: "stamp_codec \<Rightarrow> bucket_set \<Rightarrow> fleet \<Rightarrow> u64" where
  "fleet_generation C bs fl =
     fold max (List.map_filter (\<lambda>h. case stamp_at C (fl (bh_bucket h)) of Some (Some st) \<Rightarrow> Some (ts_generation st) | _ \<Rightarrow> None) (handles bs))
       (case topology_generation bs of None \<Rightarrow> 0 | Some l \<Rightarrow> l)"

definition cell :: "stamp_codec \<Rightarrow> fleet \<Rightarrow> bucket_handle \<Rightarrow> (topology_stamp \<times> string) option" where
  "cell C fl h = (case lookup_tagged (fl (bh_bucket h)) TOPOLOGY_STAMP_KEY of
     None \<Rightarrow> None | Some (bs, t) \<Rightarrow> (case dec_stamp C bs of None \<Rightarrow> None | Some st \<Rightarrow> Some (st, t)))"

lemma cell_stamp:
  assumes "stamp_at C (fl (bh_bucket h)) \<noteq> Some None"
  shows "stamp_at C (fl (bh_bucket h)) = map_option (\<lambda>c. Some (fst c)) (cell C fl h)"
    and "map_option snd (cell C fl h) = map_option snd (lookup_tagged (fl (bh_bucket h)) TOPOLOGY_STAMP_KEY)"
  using assms by (auto simp: stamp_at_def cell_def lookup_tagged_def split: option.splits)

lemma read_stamps_quiet:
  assumes "script w = []" and "\<forall>(i, h)\<in>set hs. stamp_at C (buckets w (bh_bucket h)) \<noteq> Some None"
  shows "read_stamps C av hs reach unr w = (Inr (reach @ map (\<lambda>(i, h). (i, h, cell C (buckets w) h)) hs, unr), w)"
  using assms(2)
proof (induction hs arbitrary: reach)
  case (Cons e hs)
  obtain i h where e: "e = (i, h)"
    by (cases e)
  have "dec_stamp C bs \<noteq> None" if "lookup_tagged (buckets w (bh_bucket h)) TOPOLOGY_STAMP_KEY = Some (bs, t)" for bs t
    using Cons.prems stamp_at_lookup [OF that, of C] by (auto simp: e)
  then show ?case
    using Cons assms(1)
    by (auto simp: e onResult_def andThen_def get_with_etag_quiet cell_def parse_stamp_def lift_res_def ret_def
        split: option.splits)
qed (simp add: ret_def)

lemma max_generation_fold:
  "(case max_generation g0 reach of None \<Rightarrow> 0 | Some m \<Rightarrow> m) =
     fold max (List.map_filter (\<lambda>(i, h, c). map_option (\<lambda>x. ts_generation (fst x)) c) reach) (case g0 of None \<Rightarrow> 0 | Some l \<Rightarrow> l)"
proof (induction reach arbitrary: g0)
  case (Cons e reach)
  obtain i h c where e: "e = (i, h, c)"
    by (cases e)
  show ?case
    by (cases c) (auto simp: e max_generation_Cons Cons.IH List.map_filter_def max.commute split: option.splits)
qed (simp add: max_generation_def List.map_filter_def)

text \<open>Writing stamps over what was read: every write wins, and nothing but the stamp changes.\<close>

lemma stamp_all_quiet:
  assumes "stamp_json_ok C" and "script w = []" and "fleet_wf (buckets w)"
    and "\<forall>(i, h, t)\<in>set es. next_version (buckets w (bh_bucket h)) < 2 ^ 64
       \<and> t = map_option snd (lookup_tagged (buckets w (bh_bucket h)) TOPOLOGY_STAMP_KEY)"
    and "distinct (map (\<lambda>(i, h, t). bh_bucket h) es)"
  shows "\<exists>w'. stamp_all sha C av names hs g es report w =
      (Inr (report\<lparr>stamped_indices := stamped_indices report @ map fst es\<rparr>), w') \<and> script w' = []
    \<and> (\<forall>(i, h, t)\<in>set es. stamp_at C (buckets w' (bh_bucket h)) = Some (Some \<lparr>ts_buckets = names, ts_hash = hs, ts_generation = g\<rparr>))
    \<and> (\<forall>b. b \<notin> (\<lambda>(i, h, t). bh_bucket h) ` set es \<longrightarrow> buckets w' b = buckets w b)
    \<and> (\<forall>b k. k \<noteq> TOPOLOGY_STAMP_KEY \<longrightarrow> object_at (buckets w' b) k = object_at (buckets w b) k)"
  using assms(2-5)
proof (induction es arbitrary: w report)
  case (Cons e es)
  obtain i h t where e: "e = (i, h, t)"
    by (cases e)
  let ?b = "bh_bucket h" and ?body = "encode_stamp C names hs g" and ?st = "\<lparr>ts_buckets = names, ts_hash = hs, ts_generation = g\<rparr>"
  let ?w = "w\<lparr>buckets := (buckets w)(?b := snd (store sha TOPOLOGY_STAMP_KEY ?body (buckets w ?b)))\<rparr>"
  have t: "t = map_option snd (lookup_tagged (buckets w ?b) TOPOLOGY_STAMP_KEY)" and v: "next_version (buckets w ?b) < 2 ^ 64"
    and wf: "store_wf (buckets w ?b)" and quiet: "script w = []"
    using Cons.prems by (auto simp: e fleet_wf_def)
  have "stamp_one sha C av names hs g i h t w = (Inr (if t = None then Stamped else Restamped), ?w)"
  proof (cases "lookup_tagged (buckets w ?b) TOPOLOGY_STAMP_KEY")
    case None
    then have "t = None" and "\<not> contains_key (buckets w ?b) TOPOLOGY_STAMP_KEY"
      using t by (simp_all add: lookup_tagged_None_iff)
    then show ?thesis
      using quiet by (simp add: stamp_one_def onResult_def put_if_none_match_quiet ret_def)
  next
    case (Some bt)
    then obtain v t0 where bt: "lookup_tagged (buckets w ?b) TOPOLOGY_STAMP_KEY = Some (v, t0)"
      by (cases bt) simp
    then show ?thesis
      using t quiet versioned_lookup [OF wf order_less_imp_le [OF v] bt] by (simp add: stamp_one_def onResult_def put_if_match_quiet ret_def)
  qed
  then have step: "stamp_all sha C av names hs g (e # es) report w =
      stamp_all sha C av names hs g es (report\<lparr>stamped_indices := stamped_indices report @ [i]\<rparr>) ?w"
    by (simp add: e andThen_def)
  have other: "?b \<noteq> bh_bucket h'" if "(i', h', t') \<in> set es" for i' h' t'
    using Cons.prems(4) that by (force simp: e)
  have wf': "fleet_wf (buckets ?w)"
    using Cons.prems(2) by (simp add: fleet_wf_def store_wf_store)
  have dist': "distinct (map (\<lambda>(i, h, t). bh_bucket h) es)"
    using Cons.prems(4) by (simp add: e)
  have es': "\<forall>(i, h, t)\<in>set es. next_version (buckets ?w (bh_bucket h)) < 2 ^ 64
       \<and> t = map_option snd (lookup_tagged (buckets ?w (bh_bucket h)) TOPOLOGY_STAMP_KEY)"
    using Cons.prems(3) other by fastforce
  obtain w' where w': "stamp_all sha C av names hs g es (report\<lparr>stamped_indices := stamped_indices report @ [i]\<rparr>) ?w =
      (Inr (report\<lparr>stamped_indices := stamped_indices report @ i # map fst es\<rparr>), w')" "script w' = []"
    and done': "\<forall>(i, h, t)\<in>set es. stamp_at C (buckets w' (bh_bucket h)) = Some (Some ?st)"
    and frame: "\<forall>b. b \<notin> (\<lambda>(i, h, t). bh_bucket h) ` set es \<longrightarrow> buckets w' b = buckets ?w b"
      "\<forall>b k. k \<noteq> TOPOLOGY_STAMP_KEY \<longrightarrow> object_at (buckets w' b) k = object_at (buckets ?w b) k"
    using Cons.IH [OF _ wf' es' dist', of "report\<lparr>stamped_indices := stamped_indices report @ [i]\<rparr>"] quiet by auto
  have mine: "buckets w' ?b = snd (store sha TOPOLOGY_STAMP_KEY ?body (buckets w ?b))"
  proof -
    have "?b \<notin> (\<lambda>(i, h, t). bh_bucket h) ` set es"
      using other by force
    then show ?thesis
      using frame(1) by simp
  qed
  then have "stamp_at C (buckets w' ?b) = Some (Some ?st)"
    using assms(1) by (simp add: stamp_at_store encode_stamp_def stamp_json_ok_def)
  then show ?case
    using w' done' frame unfolding step by (auto simp: e object_at_store)
qed (auto simp: ret_def)

lemma map_filter_mapped: "List.map_filter f (map g xs) = List.map_filter (f \<circ> g) xs"
  by (induction xs) (auto simp: List.map_filter_def)

lemma map_filter_agree: "(\<And>x. x \<in> set xs \<Longrightarrow> f x = g x) \<Longrightarrow> List.map_filter f xs = List.map_filter g xs"
  by (induction xs) (auto simp: List.map_filter_def)

lemma laggards_or_current:
  "(i, h, c) \<in> set reach \<Longrightarrow> (i, h, map_option snd c) \<in> set (laggards g reach) \<or> (\<exists>st t. c = Some (st, t) \<and> ts_generation st = g)"
  unfolding laggards_def by (cases c) force+

lemma check_current_refuses:
  "(i, bh, Some (st, t)) \<in> set reach \<Longrightarrow> ts_generation st = g \<Longrightarrow> st \<noteq> \<lparr>ts_buckets = names, ts_hash = h, ts_generation = g\<rparr> \<Longrightarrow>
    \<exists>e. check_current h names g reach = Inl e"
  using check_current_exact by (cases "check_current h names g reach") fast+

lemma check_current_accepts:
  "(\<And>i bh st t. (i, bh, Some (st, t)) \<in> set reach \<Longrightarrow> ts_generation st = g \<Longrightarrow>
      st = \<lparr>ts_buckets = names, ts_hash = h, ts_generation = g\<rparr>) \<Longrightarrow> \<exists>ixs. check_current h names g reach = Inr ixs"
proof (induction reach)
  case (Cons e rest)
  obtain i bh c where e: "e = (i, bh, c)"
    by (cases e)
  have "\<exists>ixs. check_current h names g rest = Inr ixs"
    by (rule Cons.IH) (use Cons.prems in auto)
  moreover have "check_stamp_identity st h names = Inr ()" if "c = Some (st, t)" "ts_generation st = g" for st t
    using Cons.prems [of i bh st t] that by (simp add: e check_stamp_identity_def)
  ultimately show ?case
    by (auto simp: e split: option.splits)
qed simp

section \<open>The guarantees\<close>

text \<open>
  C9: no stamp ever moves back. Whatever peers do that only raise stamps, whichever storage calls
  fail or lose their answer, and wherever the process halts, verification, the verification of one
  bucket and a migration leave every bucket with the stamp it had or one of a later generation. When
  verification or a migration succeeds, the set it returns has the generation it reports, at least
  (for a migration: above) the one verified before, and every configured bucket that is not
  reported unreachable carries exactly this list of buckets at that generation, or a later stamp; when the
  verification of one bucket succeeds the same holds of that bucket.
\<close>

theorem stamps_never_move_back:
  assumes "stamp_json_ok C" and "obeys (stamps_advance C) w"
  shows "(\<forall>r w'. verify_topology_with sha C av bs w = (r, w') \<longrightarrow> stamps_advance C (buckets w) (buckets w')
       \<and> (\<forall>report bs'. r = Inr (report, bs') \<longrightarrow> topology_post sha C bs (\<le>) report bs' (buckets w')))
    \<and> (\<forall>r w'. migrate_topology_with sha C av bs w = (r, w') \<longrightarrow> stamps_advance C (buckets w) (buckets w')
       \<and> (\<forall>report bs'. r = Inr (report, bs') \<longrightarrow> topology_post sha C bs (<) report bs' (buckets w')))
    \<and> (\<forall>i r w'. verify_topology_index_with sha C av bs i w = (r, w') \<longrightarrow> stamps_advance C (buckets w) (buckets w')
       \<and> (\<forall>out. r = Inr out \<and> out \<notin> {Dormant, Unreachable} \<longrightarrow>
            (\<exists>g. topology_generation bs = Some g \<and> settled C (target_stamp sha bs g) (buckets w' (bh_bucket (handles bs ! i))))))"
proof (intro conjI allI impI)
  fix r w'
  assume run: "verify_topology_with sha C av bs w = (r, w')"
  note post = tripleD [OF triple_verify_topology [OF assms(1)] assms(2) stamps_advance_refl run, THEN conjunct2]
  show "stamps_advance C (buckets w) (buckets w')"
    using post by (cases r) auto
  show "topology_post sha C bs (\<le>) report bs' (buckets w')" if "r = Inr (report, bs')" for report bs'
    using post that by simp
next
  fix r w'
  assume run: "migrate_topology_with sha C av bs w = (r, w')"
  note post = tripleD [OF triple_migrate_topology [OF assms(1)] assms(2) stamps_advance_refl run, THEN conjunct2]
  show "stamps_advance C (buckets w) (buckets w')"
    using post by (cases r) auto
  show "topology_post sha C bs (<) report bs' (buckets w')" if "r = Inr (report, bs')" for report bs'
    using post that by simp
next
  fix i r w'
  assume run: "verify_topology_index_with sha C av bs i w = (r, w')"
  note post = tripleD [OF triple_verify_topology_index [OF assms(1)] assms(2) stamps_advance_refl run, THEN conjunct2]
  show "stamps_advance C (buckets w) (buckets w')"
    using post by (cases r) auto
  show "\<exists>g. topology_generation bs = Some g \<and> settled C (target_stamp sha bs g) (buckets w' (bh_bucket (handles bs ! i)))"
    if "r = Inr out \<and> out \<notin> {Dormant, Unreachable}" for out
    using post that by auto
qed

text \<open>Stamps written in unary, and a rival node that stamps the second bucket for its own list.\<close>

definition unary_stamps :: stamp_codec where
  "unary_stamps =
     \<lparr>enc_stamp = (\<lambda>st. replicate (to_nat (ts_buckets st, ts_hash st, unat (ts_generation st))) CHR ''1''),
      dec_stamp = (\<lambda>bs. case from_nat (length bs) of (ns, h, g) \<Rightarrow> Some \<lparr>ts_buckets = ns, ts_hash = h, ts_generation = of_nat g\<rparr>)\<rparr>"

definition pair_set :: bucket_set where
  "pair_set = the (bucket_set_new [\<lparr>bh_bucket = 0, bh_name = ''east'', supports_leases = True\<rparr>,
     \<lparr>bh_bucket = 1, bh_name = ''west'', supports_leases = True\<rparr>])"

definition rival_stamp :: "fleet \<Rightarrow> fleet" where
  "rival_stamp fl = fl(1 := snd (try_create (\<lambda>bs. bs) TOPOLOGY_STAMP_KEY (encode_stamp unary_stamps [''north'', ''west''] [] 3) (fl 1)))"

lemma unary_stamps_ok: "stamp_json_ok unary_stamps"
  by (simp add: stamp_json_ok_def unary_stamps_def)

lemma pair_set_ok: "is_multi pair_set" "validate_topology_config pair_set = Inr ()" "distinct (map bh_bucket (handles pair_set))"
  by (simp_all add: pair_set_def bucket_set_new_def is_multi_def validate_topology_config_def bucket_tag_def
      is_continuation_def is_ascii_alphanumeric_def is_ascii_digit_def is_ascii_lowercase_def is_ascii_uppercase_def)

theorem pins_stay_consistent_witness:
  "pins_ok (the (switch 1 pair_set)) \<and> handles (the (switch 1 pair_set)) = handles pair_set"
proof -
  have "pin_step pair_set (the (switch 1 pair_set))"
    by (rule Switch [of 1]) (simp add: pair_set_def bucket_set_new_def switch_def bump_generation_def)
  moreover have "bucket_set_new (handles pair_set) = Some pair_set"
    by (simp add: pair_set_def bucket_set_new_def)
  ultimately show ?thesis
    using pins_stay_consistent r_into_rtranclp by blast
qed

lemma rival_stamp_obeys:
  assumes "fleet_wf fl"
  shows "fleet_wf (rival_stamp fl) \<and> fleet_evolves fl (rival_stamp fl) \<and> stamps_advance unary_stamps fl (rival_stamp fl)"
proof (cases "contains_key (fl 1) TOPOLOGY_STAMP_KEY")
  case True
  have "stamps_advance unary_stamps fl (fl(1 := create_lost (\<lambda>bs. bs) TOPOLOGY_STAMP_KEY (fl 1)))"
    by (rule same_stamp_keeps [OF stable_advance assms stamps_advance_refl])
  then show ?thesis
    using assms True by (simp add: rival_stamp_def try_create_cases fleet_wf_def fleet_evolves_def store_wf_create_lost evolves_same_objects)
next
  case False
  then have "stamp_at unary_stamps (fl 1) = None"
    by (simp add: stamp_at_def contains_key_def)
  then show ?thesis
    using assms False stamps_advance_refl [of unary_stamps fl]
    by (simp add: rival_stamp_def try_create_cases fleet_wf_def fleet_evolves_def store_wf_store store_evolves stamps_advance_def)
qed

theorem stamps_never_move_back_witness:
  "let w = (quiet (\<lambda>_. inner_default 0))\<lparr>script := [Answered id, Refused (HttpStatus 503) id, Unanswered Timeout rival_stamp, Halt]\<rparr>
   in stamps_advance unary_stamps (buckets w) (buckets (snd (verify_topology_with (\<lambda>bs. bs) unary_stamps (\<lambda>_ _. True) pair_set w)))
    \<and> stamps_advance unary_stamps (buckets w) (buckets (snd (migrate_topology_with (\<lambda>bs. bs) unary_stamps (\<lambda>_ _. True) pair_set w)))"
proof -
  let ?w = "(quiet (\<lambda>_. inner_default 0))\<lparr>script := [Answered id, Refused (HttpStatus 503) id, Unanswered Timeout rival_stamp, Halt]\<rparr>"
  have "obeys (stamps_advance unary_stamps) ?w"
    using rival_stamp_obeys stamps_advance_refl by (auto simp: obeys_def quiet_def fleet_wf_def store_wf_default fleet_evolves_def evolves_same_objects)
  then show ?thesis
    using stamps_never_move_back [OF unary_stamps_ok, of ?w "\<lambda>bs. bs" "\<lambda>_ _. True" pair_set]
    by (simp add: Let_def prod_eq_iff)
qed

text \<open>
  C10: undisturbed startup verification is exact. On a valid configuration whose stamps can all be
  read, let \<open>g\<close> be the highest generation among the stamps and what this process verified before. If a
  stamp of that generation names another list, verification fails and changes nothing at all;
  otherwise it succeeds, no bucket is unreachable, every configured bucket then carries exactly this
  list at \<open>g\<close>, and no other object of any bucket changed.
\<close>

theorem verify_topology_exact:
  assumes "stamp_json_ok C" and "script w = []" and "fleet_wf (buckets w)"
    and "\<forall>h\<in>set (handles bs). next_version (buckets w (bh_bucket h)) < 2 ^ 64 \<and> stamp_at C (buckets w (bh_bucket h)) \<noteq> Some None"
    and "distinct (map bh_bucket (handles bs))" and "is_multi bs" and "validate_topology_config bs = Inr ()"
  shows "let g = fleet_generation C bs (buckets w); st = target_stamp sha bs g
    in if \<exists>h\<in>set (handles bs). \<exists>st'. stamp_at C (buckets w (bh_bucket h)) = Some (Some st') \<and> ts_generation st' = g \<and> st' \<noteq> st
       then \<exists>e. verify_topology_with sha C av bs w = (Inl e, w)
       else \<exists>report w'. verify_topology_with sha C av bs w = (Inr (report, bs\<lparr>topology_generation := Some g\<rparr>), w')
         \<and> rp_generation report = Some g \<and> unreachable_indices report = []
         \<and> (\<forall>h\<in>set (handles bs). stamp_at C (buckets w' (bh_bucket h)) = Some (Some st))
         \<and> (\<forall>b k. b \<notin> bh_bucket ` set (handles bs) \<or> k \<noteq> TOPOLOGY_STAMP_KEY \<longrightarrow> object_at (buckets w' b) k = object_at (buckets w b) k)"
proof -
  let ?hs = "enumerate 0 (handles bs)" and ?names = "map bh_name (handles bs)"
  let ?h = "topology_hash sha ?names"
  define reach where "reach = map (\<lambda>(i, h). (i, h, cell C (buckets w) h)) ?hs"
  define g where "g = fleet_generation C bs (buckets w)"
  have member: "h \<in> set (handles bs)" if "(i, h) \<in> set ?hs" for i h
    using that by (force simp: in_set_enumerate_eq)
  have indexed: "\<exists>i. (i, h) \<in> set ?hs" if "h \<in> set (handles bs)" for h
    using that set_enumerate_handles by (metis in_set_conv_nth)
  have readable: "stamp_at C (buckets w (bh_bucket h)) \<noteq> Some None" if "h \<in> set (handles bs)" for h
    using assms(4) that by blast
  have cells: "stamp_at C (buckets w (bh_bucket h)) = map_option (\<lambda>c. Some (fst c)) (cell C (buckets w) h)"
      "map_option snd (cell C (buckets w) h) = map_option snd (lookup_tagged (buckets w (bh_bucket h)) TOPOLOGY_STAMP_KEY)"
    if "h \<in> set (handles bs)" for h
    using readable [OF that] by (rule cell_stamp)+
  have g: "(case max_generation (topology_generation bs) reach of None \<Rightarrow> 0 | Some m \<Rightarrow> m) = g"
  proof -
    have "List.map_filter (\<lambda>(i, h, c). map_option (\<lambda>x. ts_generation (fst x)) c) reach =
        List.map_filter (\<lambda>h. map_option (\<lambda>x. ts_generation (fst x)) (cell C (buckets w) h)) (map snd ?hs)"
      unfolding reach_def map_filter_mapped by (simp only: comp_def case_prod_beta fst_conv snd_conv)
    also have "\<dots> = List.map_filter (\<lambda>h. case stamp_at C (buckets w (bh_bucket h)) of Some (Some st) \<Rightarrow> Some (ts_generation st) | _ \<Rightarrow> None) (handles bs)"
      unfolding map_snd_enumerate
      by (rule map_filter_agree) (use cells(1) in \<open>force split: option.splits\<close>)
    finally show ?thesis
      unfolding g_def fleet_generation_def max_generation_fold by simp
  qed
  have run: "verify_topology_with sha C av bs w =
      andThen (lift_res (check_current ?h ?names g reach)) (\<lambda>verified.
      andThen (stamp_all sha C av ?names ?h g (laggards g reach)
           \<lparr>rp_generation = None, verified_indices = verified, stamped_indices = [], unreachable_indices = []\<rparr>)
         (\<lambda>report. ret (finish_report g report, bs\<lparr>topology_generation := Some g\<rparr>))) w"
  proof -
    have "read_stamps C av ?hs [] [] w = (Inr (reach, []), w)"
      using read_stamps_quiet [OF assms(2), of ?hs C av "[]" "[]"] member readable unfolding reach_def by auto
    moreover have "reach \<noteq> []"
      using assms(6) by (auto simp: reach_def is_multi_def enumerate_eq_zip)
    ultimately show ?thesis
      using assms(6,7) g by (simp add: verify_topology_with_def andThen_def lift_res_def ret_def topology_identity_def Let_def)
  qed
  have at: "h \<in> set (handles bs) \<and> stamp_at C (buckets w (bh_bucket h)) = Some (Some st)" if "(i, h, Some (st, t)) \<in> set reach" for i h st t
  proof -
    have "(i, h) \<in> set ?hs" and c: "cell C (buckets w) h = Some (st, t)"
      using that by (auto simp: reach_def)
    then have h: "h \<in> set (handles bs)"
      using member by blast
    then show ?thesis
      using cells(1) [OF h] c by simp
  qed
  have listed: "\<exists>i t. (i, h, Some (st, t)) \<in> set reach" if h: "h \<in> set (handles bs)" and at: "stamp_at C (buckets w (bh_bucket h)) = Some (Some st)" for h st
  proof -
    obtain i where "(i, h) \<in> set ?hs"
      using indexed [OF h] by blast
    then show ?thesis
      using at cells(1) [OF h] by (force simp: reach_def)
  qed
  have st: "target_stamp sha bs g = \<lparr>ts_buckets = ?names, ts_hash = ?h, ts_generation = g\<rparr>"
    by (simp add: target_stamp_def)
  show ?thesis
  proof (cases "\<exists>h\<in>set (handles bs). \<exists>st'. stamp_at C (buckets w (bh_bucket h)) = Some (Some st') \<and> ts_generation st' = g \<and> st' \<noteq> target_stamp sha bs g")
    case True
    then obtain i h st' t where "(i, h, Some (st', t)) \<in> set reach" "ts_generation st' = g" "st' \<noteq> target_stamp sha bs g"
      using listed by blast
    then obtain e where "check_current ?h ?names g reach = Inl e"
      using check_current_refuses unfolding st by blast
    then have "verify_topology_with sha C av bs w = (Inl e, w)"
      by (simp add: run andThen_def lift_res_def fail_def)
    then show ?thesis
      using True by (simp add: g_def Let_def)
  next
    case False
    then obtain ixs where ok: "check_current ?h ?names g reach = Inr ixs"
      using check_current_accepts [of reach g ?names ?h] at unfolding st by blast
    let ?es = "laggards g reach"
    let ?report = "\<lparr>rp_generation = None, verified_indices = ixs, stamped_indices = [], unreachable_indices = []\<rparr>"
    have behind: "\<forall>(i, h, t)\<in>set ?es. next_version (buckets w (bh_bucket h)) < 2 ^ 64
       \<and> t = map_option snd (lookup_tagged (buckets w (bh_bucket h)) TOPOLOGY_STAMP_KEY)"
      using assms(4) member cells(2) by (auto simp: laggards_def reach_def)
    have dist: "distinct (map (\<lambda>(i, h, t). bh_bucket h) ?es)"
    proof -
      have "distinct (map (bh_bucket \<circ> snd) ?hs)"
        using assms(5) map_snd_enumerate [of 0 "handles bs"] by (metis map_map)
      then show ?thesis
        by (simp add: laggards_def reach_def filter_map comp_def case_prod_beta distinct_map_filter)
    qed
    obtain w' where w': "stamp_all sha C av ?names ?h g ?es ?report w = (Inr (?report\<lparr>stamped_indices := map fst ?es\<rparr>), w')"
      and own: "\<forall>(i, h, t)\<in>set ?es. stamp_at C (buckets w' (bh_bucket h)) = Some (Some (target_stamp sha bs g))"
      and frame: "\<forall>b. b \<notin> (\<lambda>(i, h, t). bh_bucket h) ` set ?es \<longrightarrow> buckets w' b = buckets w b"
        "\<forall>b k. k \<noteq> TOPOLOGY_STAMP_KEY \<longrightarrow> object_at (buckets w' b) k = object_at (buckets w b) k"
      using stamp_all_quiet [OF assms(1-3) behind dist, of sha av ?names ?h g ?report] unfolding st by auto
    have es: "h \<in> set (handles bs)" if "(i, h, t) \<in> set ?es" for i h t
      using that member by (auto simp: laggards_def reach_def)
    have "stamp_at C (buckets w' (bh_bucket h)) = Some (Some (target_stamp sha bs g))" if h: "h \<in> set (handles bs)" for h
    proof (cases "bh_bucket h \<in> (\<lambda>(i, h, t). bh_bucket h) ` set ?es")
      case True
      then show ?thesis
        using own by auto
    next
      case out: False
      obtain i where i: "(i, h) \<in> set ?hs"
        using indexed [OF h] by blast
      then have "(i, h, cell C (buckets w) h) \<in> set reach"
        by (force simp: reach_def)
      moreover have "(i, h, map_option snd (cell C (buckets w) h)) \<notin> set ?es"
        using out by force
      ultimately obtain st' t where "cell C (buckets w) h = Some (st', t)" "ts_generation st' = g"
        using laggards_or_current [of i h "cell C (buckets w) h" reach g] by blast
      then have "stamp_at C (buckets w (bh_bucket h)) = Some (Some st')" "ts_generation st' = g"
        using cells(1) [OF h] by simp_all
      then show ?thesis
        using False h frame(1) [rule_format, OF out] by auto
    qed
    moreover have "object_at (buckets w' b) k = object_at (buckets w b) k" if "b \<notin> bh_bucket ` set (handles bs) \<or> k \<noteq> TOPOLOGY_STAMP_KEY" for b k
    proof (cases "k = TOPOLOGY_STAMP_KEY")
      case True
      then have "b \<notin> (\<lambda>(i, h, t). bh_bucket h) ` set ?es"
        using that es by auto
      then show ?thesis
        using frame(1) by simp
    qed (use frame(2) in blast)
    moreover have "verify_topology_with sha C av bs w =
        (Inr (finish_report g (?report\<lparr>stamped_indices := map fst ?es\<rparr>), bs\<lparr>topology_generation := Some g\<rparr>), w')"
      using w' by (simp add: run ok andThen_def lift_res_def ret_def)
    ultimately show ?thesis
      using False by (auto simp: g_def [symmetric] Let_def finish_report_def)
  qed
qed

theorem verify_topology_exact_witness:
  "\<exists>report w'. verify_topology_with (\<lambda>bs. bs) unary_stamps (\<lambda>_ _. False) pair_set (quiet (\<lambda>_. inner_default 0)) =
      (Inr (report, pair_set\<lparr>topology_generation := Some 0\<rparr>), w') \<and> rp_generation report = Some 0
    \<and> stamp_at unary_stamps (buckets w' 1) = Some (Some (target_stamp (\<lambda>bs. bs) pair_set 0))"
proof -
  let ?w = "quiet (\<lambda>_. inner_default 0)"
  have none: "stamp_at unary_stamps (buckets ?w b) = None" for b
    by (simp add: stamp_at_def quiet_def bt.get_empty inner_default_def)
  have "fleet_generation unary_stamps pair_set (buckets ?w) = 0"
    by (simp add: fleet_generation_def none List.map_filter_def pair_set_def bucket_set_new_def)
  moreover have "script ?w = []" "fleet_wf (buckets ?w)"
    by (simp_all add: quiet_def fleet_wf_def store_wf_default)
  moreover have "\<forall>h\<in>set (handles pair_set). next_version (buckets ?w (bh_bucket h)) < 2 ^ 64"
    by (simp add: quiet_def inner_default_def)
  moreover have "\<lparr>bh_bucket = 1, bh_name = ''west'', supports_leases = True\<rparr> \<in> set (handles pair_set)"
    by (simp add: pair_set_def bucket_set_new_def)
  ultimately show ?thesis
    using verify_topology_exact [OF unary_stamps_ok _ _ _ pair_set_ok(3,1,2), of ?w "\<lambda>bs. bs" "\<lambda>_ _. False"] none
    by (fastforce simp: Let_def)
qed

end
