(* ===== verification/Observed_Storage.thy ===== *)
theory Observed_Storage
  imports Bucket_Health
begin

text \<open>
  \<open>src/observed_storage.rs\<close>: the wrapper that reports every storage outcome to the health controller,
  and the reduction of an error to a health signal. An error that carries a typed cause (an
  \<open>object_store\<close>, HTTP or I/O error) is a \<open>StoreError\<close> of the signal the typed part of
  \<open>signal_for_error\<close> finds; every other error is known by the text of its innermost layer, which is
  scanned here as the code scans it.
\<close>

section \<open>Definitions\<close>

subsection \<open>Text\<close>

fun text_contains :: "string \<Rightarrow> string \<Rightarrow> bool" where
  "text_contains [] needle = (needle = [])"
| "text_contains (c # s) needle = (starts_with (c # s) needle \<or> text_contains s needle)"

definition contains_any :: "string \<Rightarrow> string list \<Rightarrow> bool" where
  "contains_any text needles = (\<exists>n\<in>set needles. text_contains text n)"

text \<open>\<open>text.split_once(marker)\<close>, the part after it.\<close>

fun after_text :: "string \<Rightarrow> string \<Rightarrow> string option" where
  "after_text [] needle = (if needle = [] then Some [] else None)"
| "after_text (c # s) needle = (case strip_prefix (c # s) needle of Some rest \<Rightarrow> Some rest | None \<Rightarrow> after_text s needle)"

definition semantic_alarm :: "string \<Rightarrow> bucket_signal option" where
  "semantic_alarm text =
     (if contains_any text [''aws kms'', ''kms.'', ''kms:'', ''kms key'', ''kms-key'', ''kms_key'', ''kmsinvalidstate'',
           ''key management service'', ''keymanagementservice'', ''invalid key id'', ''disabledexception''] then Some KmsError
      else if contains_any text [''quota'', ''throttl'', ''slowdown'', ''too many requests'', ''rate exceeded'', ''limit exceeded'',
           ''ratelimitexceeded'', ''serverbusy'', ''server is busy''] then Some QuotaError
      else if contains_any text [''incorrectly configured'', ''invalid endpoint'', ''invalid region'', ''unknown configuration'',
           ''configuration key''] then Some ConfigurationError
      else if contains_any text [''permission denied'', ''access denied'', ''unauthenticated''] then Some (HttpStatus 403)
      else if text_contains text ''precondition'' then Some (HttpStatus 412)
      else None)"

definition status_digits :: "string \<Rightarrow> string" where
  "status_digits rest = take 3 (takeWhile is_ascii_digit (dropWhile (\<lambda>c. \<not> is_ascii_digit c) rest))"

text \<open>The first marker that is followed by no digit at all ends the search (\<open>parse().ok()?\<close>).\<close>

fun status_after :: "string list \<Rightarrow> string \<Rightarrow> nat option" where
  "status_after [] text = None"
| "status_after (m # ms) text =
     (case after_text text m of
        None \<Rightarrow> status_after ms text
      | Some rest \<Rightarrow>
          (let ds = status_digits rest in
           if ds = [] then None
           else if 100 \<le> digits_val ds \<and> digits_val ds \<le> 599 then Some (digits_val ds)
           else status_after ms text))"

definition status_from_text :: "string \<Rightarrow> nat option" where
  "status_from_text text = status_after [''status code:'', ''http status:'', ''response status:''] text"

definition signal_for_status :: "nat \<Rightarrow> bucket_signal" where
  "signal_for_status status = (if status = 404 then Success else HttpStatus status)"

subsection \<open>Errors\<close>

definition text_signal :: "string \<Rightarrow> bucket_signal" where
  "text_signal text =
     (case semantic_alarm text of
        Some sg \<Rightarrow> sg
      | None \<Rightarrow> (case status_from_text text of Some n \<Rightarrow> signal_for_status n | None \<Rightarrow> OtherError))"

fun signal_for_error :: "err \<Rightarrow> bucket_signal" where
  "signal_for_error (NotFound _) = Success"
| "signal_for_error (StoreError sg) = sg"
| "signal_for_error (Bail text) = text_signal (to_ascii_lowercase text)"
| "signal_for_error (Contended text) = text_signal (to_ascii_lowercase text)"

definition record_result :: "nat \<Rightarrow> nat \<Rightarrow> 'a res \<Rightarrow> controller \<Rightarrow> controller" where
  "record_result now index r c =
     snd (observe_at index (case r of Inr _ \<Rightarrow> Success | Inl e \<Rightarrow> signal_for_error e) now c)"

definition message_is_missing_bucket :: "string \<Rightarrow> bool" where
  "message_is_missing_bucket message =
     contains_any (to_ascii_lowercase message)
       [''<code>nosuchbucket</code>'', [CHR 0x22] @ ''code'' @ [CHR 0x22] @ '':'' @ [CHR 0x22] @ ''nosuchbucket'' @ [CHR 0x22],
        ''<code>containernotfound</code>'', [CHR 0x22] @ ''code'' @ [CHR 0x22] @ '':'' @ [CHR 0x22] @ ''containernotfound'' @ [CHR 0x22]]"

section \<open>What the scan can conclude\<close>

lemma text_contains_iff: "text_contains s n \<longleftrightarrow> (\<exists>a b. s = a @ n @ b)"
proof (induction s)
  case (Cons c s)
  show ?case
  proof
    assume "text_contains (c # s) n"
    then consider b where "c # s = n @ b" | a b where "s = a @ n @ b"
      using Cons by (auto simp: starts_with_iff)
    then show "\<exists>a b. c # s = a @ n @ b"
      by cases (metis append_Nil, metis append_Cons)
  next
    assume "\<exists>a b. c # s = a @ n @ b"
    then show "text_contains (c # s) n"
      using Cons by (auto simp: starts_with_iff Cons_eq_append_conv)
  qed
qed simp

lemma status_after_range: "status_after ms text = Some n \<Longrightarrow> 100 \<le> n \<and> n \<le> 599"
  by (induction ms) (auto simp: Let_def split: option.splits if_splits)

lemma status_from_text_range: "status_from_text t = Some n \<Longrightarrow> 100 \<le> n \<and> n \<le> 599"
  unfolding status_from_text_def by (rule status_after_range)

lemma semantic_alarm_harmless: "semantic_alarm text = Some sg \<Longrightarrow> classify_signal sg = IgnoredSignal"
  by (auto simp: semantic_alarm_def split: if_splits)

lemma text_outage_spells_status:
  "classify_signal (text_signal t) = AvailabilityFailure \<longleftrightarrow>
     semantic_alarm t = None \<and> (\<exists>n. status_from_text t = Some n \<and> (n = 408 \<or> 500 \<le> n))"
  using semantic_alarm_harmless [of t] status_from_text_range [of t]
  by (auto simp: text_signal_def signal_for_status_def split: option.splits if_splits)

end
