(* ===== verification/Confinement.thy ===== *)
theory Confinement
  imports Executor
begin

text \<open>
  What replication may take down. \<open>spares K m\<close> says that the operation \<open>m\<close>, whatever interleaves and
  wherever it stops, removes no object whose key lies in \<open>K\<close>; every predicate that only needs such
  objects to stand survives it. The copy protocol spares everything outside \<open>packages/\<close>: notes, write
  markers, quarantined bodies, claims of topology and format.
\<close>

section \<open>Sparing a set of keys\<close>

definition survives :: "(bucket_id \<Rightarrow> string \<Rightarrow> bool) \<Rightarrow> (fleet \<Rightarrow> bool) \<Rightarrow> bool" where
  "survives K P = (\<forall>fl b s'. P fl \<longrightarrow> (\<forall>k. K b k \<longrightarrow> contains_key (fl b) k \<longrightarrow> contains_key s' k) \<longrightarrow> P (fl(b := s')))"

definition spares :: "(bucket_id \<Rightarrow> string \<Rightarrow> bool) \<Rightarrow> 'a act \<Rightarrow> bool" where
  "spares K m = (\<forall>G P. (\<forall>fl. G fl fl) \<longrightarrow> survives K P \<longrightarrow> stable G P \<longrightarrow> triple G P m (\<lambda>_. P))"

named_theorems spares_intros \<open>operations that remove nothing of the spared keys\<close>

lemma sparesD: "spares K m \<Longrightarrow> (\<And>fl. G fl fl) \<Longrightarrow> survives K P \<Longrightarrow> stable G P \<Longrightarrow> triple G P m (\<lambda>_. P)"
  by (simp add: spares_def)

lemma survives_True: "survives K (\<lambda>_. True)"
  by (simp add: survives_def)

lemma survives_contains: "K b k \<Longrightarrow> survives K (\<lambda>fl. contains_key (fl b) k)"
  by (auto simp: survives_def)

lemma survives_mono: "survives K P \<Longrightarrow> (\<And>b k. K b k \<Longrightarrow> K' b k) \<Longrightarrow> survives K' P"
  unfolding survives_def by meson

lemma spares_mono: "spares K' m \<Longrightarrow> (\<And>b k. K b k \<Longrightarrow> K' b k) \<Longrightarrow> spares K m"
  unfolding spares_def using survives_mono by metis

lemma spares_ret [spares_intros]: "spares K (ret v)"
  by (simp add: spares_def triple_ret)

lemma spares_fail [spares_intros]: "spares K (fail e)"
  by (simp add: spares_def triple_fail)

lemma spares_andThen [spares_intros]: "spares K m \<Longrightarrow> (\<And>v. spares K (f v)) \<Longrightarrow> spares K (andThen m f)"
  by (simp add: spares_def triple_andThen_same)

lemma spares_onResult [spares_intros]:
  "spares K m \<Longrightarrow> (\<And>e. spares K (h e)) \<Longrightarrow> (\<And>v. spares K (f v)) \<Longrightarrow> spares K (onResult m h f)"
  unfolding spares_def by (blast intro: triple_onResult)

lemma spares_if [spares_intros]: "(c \<Longrightarrow> spares K m) \<Longrightarrow> (\<not> c \<Longrightarrow> spares K m') \<Longrightarrow> spares K (if c then m else m')"
  by simp

lemma spares_case_option [spares_intros]: "spares K m \<Longrightarrow> (\<And>v. spares K (f v)) \<Longrightarrow> spares K (case v of None \<Rightarrow> m | Some y \<Rightarrow> f y)"
  by (cases v) simp_all

lemma spares_case_prod [spares_intros]: "(\<And>u v. spares K (f u v)) \<Longrightarrow> spares K (case p of (u, v) \<Rightarrow> f u v)"
  by (cases p) simp

lemma spares_lift_res [spares_intros]: "spares K (lift_res r)"
  by (cases r) (simp_all add: lift_res_def spares_ret spares_fail)

lemma spares_comp: "spares K (f (g v)) \<Longrightarrow> spares K ((f \<circ> g) v)"
  by simp

text \<open>An operation that looks at the state first.\<close>

lemma spares_of_state: "(\<And>w. spares K (f w)) \<Longrightarrow> spares K (\<lambda>w. f w w)"
  unfolding spares_def triple_def by metis

text \<open>An operation that leaves the buckets and the script alone.\<close>

lemma spares_pure: "(\<And>w. buckets (snd (m w)) = buckets w \<and> script (snd (m w)) = script w) \<Longrightarrow> spares K m"
  unfolding spares_def triple_def obeys_def by (metis snd_conv)

lemma spares_marker_nonce [spares_intros]: "spares K marker_nonce"
  by (rule spares_pure) (simp add: marker_nonce_def)

lemma spares_encode_claim [spares_intros]: "spares K (encode_claim J st)"
  by (rule spares_pure) (simp add: encode_claim_run)

lemma spares_require [spares_intros]: "spares K (require_replication_unfenced E)"
  by (rule spares_pure) (simp add: require_replication_unfenced_def)

subsection \<open>Storage calls\<close>

lemma spares_read: "(\<And>s. snd (f s) = s) \<Longrightarrow> spares K (call b f)"
  unfolding spares_def by (blast intro: triple_read_call)

lemma spares_reads [spares_intros]:
  "spares K (get_bytes b k)" "spares K (get_with_etag b k)" "spares K (head_exists b k)" "spares K (stored_size b k)"
  "spares K (list_dir_entries b d)" "spares K (list_page b d aft n)" "spares K (list_all_objects b d)"
  unfolding get_bytes_def get_with_etag_def head_exists_def stored_size_def list_dir_entries_def list_page_def list_all_objects_def
  by (intro spares_read; simp split: option.splits)+

lemma survives_store: "survives K P \<Longrightarrow> P fl \<Longrightarrow> P (fl(b := snd (store sha k bs (fl b))))"
  by (simp add: survives_def contains_key_store)

lemma survives_create_lost: "survives K P \<Longrightarrow> P fl \<Longrightarrow> P (fl(b := create_lost sha k (fl b)))"
  by (simp add: survives_def contains_key_def)

lemma survives_delete:
  "survives K P \<Longrightarrow> P fl \<Longrightarrow> \<forall>k\<in>set ks. \<not> K b k \<Longrightarrow> P (fl(b := fold (delete_key sha) ks (fl b)))"
  unfolding survives_def by (elim allE [where x = fl] allE [where x = b] allE [where x = "fold (delete_key sha) ks (fl b)"] impE)
    (auto simp: contains_key_delete_keys)

lemma spares_puts [spares_intros]:
  "spares K (put_bytes sha b k bs)" "spares K (put_if_absent sha b k bs)"
  "spares K (put_if_none_match sha b k bs)" "spares K (put_if_match sha b k tag bs)"
  unfolding spares_def
  by (auto intro!: triple_put_bytes triple_put_if_absent triple_put_if_none_match triple_put_if_match_same
      intro: survives_store survives_create_lost)

lemma spares_delete_keys: "\<forall>k\<in>set ks. \<not> K b k \<Longrightarrow> spares K (delete_keys sha b ks)"
  unfolding spares_def by (auto intro!: triple_delete_keys_same intro: survives_delete)

section \<open>The copy protocol\<close>

definition outside :: "bucket_id \<Rightarrow> string \<Rightarrow> bool" where
  "outside b k = (\<not> starts_with k PACKAGES_PREFIX)"

lemma inside_record_keys [simp]:
  "\<not> outside b (artifact_key pkg f)" "\<not> outside b (sidecar_key (artifact_key pkg f))" "\<not> outside b (metadata_key (artifact_key pkg f))"
  "\<not> outside b (provenance_key (artifact_key pkg f))" "\<not> outside b (mirror_quarantined_key (artifact_key pkg f))"
  "\<not> outside b (superseding_key (artifact_key pkg f))" "\<not> outside b (tombstone_key (artifact_key pkg f))" "\<not> outside b (frozen_key (artifact_key pkg f))"
  by (simp_all add: outside_def artifact_key_def key_defs PACKAGES_PREFIX_def)

lemma spares_markers [spares_intros]:
  "spares K (mark_intent sha b pkg)" "spares K (mark_commit sha b pkg n)" "spares K (mark_dirty sha b pkg)" "spares K (mark_dirty_if sha b pkg c)"
  unfolding mark_dirty_if_def mark_dirty_def mark_intent_def mark_intent_with_nonce_def mark_commit_def put_marker_def
  by (intro spares_intros)+

subsection \<open>Claims and status\<close>

lemma spares_read_origin_observation [spares_intros]: "spares K (read_origin_observation J b pkg)"
  unfolding read_origin_observation_def by (intro spares_intros)

lemma spares_read_pkg_origin [spares_intros]: "spares K (read_pkg_origin J b pkg)"
  unfolding read_pkg_origin_def by (intro spares_intros)

lemma spares_claim_loop [spares_intros]: "spares K (claim_loop sha J b pkg target n)"
  by (induction n) (simp_all, (intro spares_intros; assumption?)+)

lemma spares_claim_origin [spares_intros]: "spares K (claim_origin sha J b pkg o_str ob)"
  unfolding claim_origin_def by (intro spares_intros)

lemma spares_demote [spares_intros]: "spares K (demote_observed_mirror sha J b pkg ob)"
  unfolding demote_observed_mirror_def by (intro spares_intros)

lemma spares_case_origin_state [spares_intros]:
  "spares K m1 \<Longrightarrow> spares K m2 \<Longrightarrow> spares K m3 \<Longrightarrow> spares K (case st of Private \<Rightarrow> m1 | Mirror \<Rightarrow> m2 | Unclaimed \<Rightarrow> m3)"
  by (cases st) simp_all

lemma spares_ensure_private [spares_intros]: "spares K (ensure_private_origin sha J b pkg)"
proof -
  have "spares K (ensure_private_loop sha J b pkg n)" for n
    by (induction n) (simp_all, (intro spares_intros; assumption?)+)
  then show ?thesis
    by (simp add: ensure_private_origin_def)
qed

lemma spares_ensure_mirror [spares_intros]: "spares K (ensure_mirror_origin sha J b pkg)"
proof -
  have "spares K (ensure_mirror_loop sha J b pkg n)" for n
    by (induction n) (simp_all, (intro spares_intros spares_comp; assumption?)+)
  then show ?thesis
    by (simp add: ensure_mirror_origin_def)
qed

lemma spares_status [spares_intros]:
  "spares K (read_status_versioned C b pkg)" "spares K (put_status_if_version sha C b pkg et d ep og)"
  unfolding read_status_versioned_def put_status_if_version_def Let_def by (auto intro!: spares_intros split: option.splits prod.splits)

lemma spares_reconcile_status [spares_intros]: "spares K (reconcile_status_pair sha C a b pkg)"
proof -
  have "spares K (reconcile_loop sha C a b pkg n)" for n
    by (induction n) (auto intro!: spares_intros split: option.splits prod.splits merge_choice.splits)
  then show ?thesis
    by (simp add: reconcile_status_pair_def)
qed

lemma spares_normalize [spares_intros]: "spares K (normalize_mirror_status_under_private_claim sha J C b pkg)"
proof -
  have "spares K (normalize_status_loop sha C b pkg n)" for n
    by (induction n) (auto intro!: spares_intros split: option.splits)
  then show ?thesis
    unfolding normalize_mirror_status_under_private_claim_def by (auto intro!: spares_intros split: option.splits)
qed

lemma spares_reconcile_project_status [spares_intros]: "spares K (reconcile_project_status sha J C a b pkg)"
  unfolding reconcile_project_status_def by (auto intro!: spares_intros split: status_convergence.splits)

subsection \<open>Records, fences and bodies\<close>

lemma spares_case_size_check [spares_intros]:
  "spares K m1 \<Longrightarrow> (\<And>e. spares K (m2 e)) \<Longrightarrow> (\<And>e. spares K (m3 e)) \<Longrightarrow>
    spares K (case c of SizeOk \<Rightarrow> m1 | SizeWrong e \<Rightarrow> m2 e | SizeUnknown e \<Rightarrow> m3 e)"
  by (cases c) simp_all

lemma spares_store_checks [spares_intros]:
  "spares K (stream_sha256 sha b k)" "spares K (check_stored_size b k n)" "spares K (verify_stored_size b k n)"
  unfolding stream_sha256_def check_stored_size_def verify_stored_size_def by (intro spares_intros)+

lemma spares_put_or_verify [spares_intros]: "spares K (put_if_absent_or_verify sha b k bs)"
  unfolding put_if_absent_or_verify_def store_artifact_verified_def existing.case by (intro spares_intros)

lemma spares_create_artifact [spares_intros]: "spares K (create_artifact_verified sha b k bs n)"
  unfolding create_artifact_verified_def by (intro spares_intros)

lemma spares_copy_missing [spares_intros]: "spares K (copy_missing_companions sha src dst pkg f r1 r2)"
  unfolding copy_missing_companions_def copy_missing_object_def Let_def by (intro spares_intros)

lemma spares_repair_companions [spares_intros]: "spares K (repair_same_sha_companions sha a b pkg f ra rb)"
  unfolding repair_same_sha_companions_def Let_def
  by (auto intro!: spares_intros split: record_state.splits record_origin.splits)

lemma spares_adopt [spares_intros]: "spares K (adopt_sidecar_cas sha J S a b pkg f)"
proof -
  have "spares K (adopt_merge sha S a b k l r lc rc again)" if "spares K again" for k l r lc rc again
    unfolding adopt_merge_def
    by (auto intro!: spares_intros that split: option.splits prod.splits merge_choice.splits)
  then have "spares K (adopt_loop sha J S a b pkg f n)" for n
    by (induction n) (auto simp: Let_def intro!: spares_intros)
  then show ?thesis
    by (simp add: adopt_sidecar_cas_def)
qed

lemma spares_installs [spares_intros]:
  "spares K (install_or_verify_mirror_sidecar sha S dst k sc)" "spares K (install_or_verify_sidecar sha S dst k sc)"
proof -
  have "spares K (install_mirror_loop sha S dst k art sc n)" for art n
    by (induction n) (auto simp: Let_def intro!: spares_intros)
  then show "spares K (install_or_verify_mirror_sidecar sha S dst k sc)"
    unfolding install_or_verify_mirror_sidecar_def by (intro spares_intros)
  have "spares K (install_private_loop sha S dst k art sc n)" for art n
    by (induction n) (auto simp: Let_def intro!: spares_intros)
  then show "spares K (install_or_verify_sidecar sha S dst k sc)"
    unfolding install_or_verify_sidecar_def by (intro spares_intros)
qed

lemma spares_tombstone_write [spares_intros]: "spares K (tombstone_write sha enc b k f)"
  unfolding tombstone_write_def by (auto intro!: spares_intros)

lemma spares_resolved [spares_intros]: "spares K (demotion_resolved_by_private_truth S b pkg f)"
  unfolding demotion_resolved_by_private_truth_def Let_def by (auto intro!: spares_intros split: option.splits)

lemma spares_quarantine [spares_intros]: "spares K (quarantine_bytes sha b pkg f bs)" "spares K (quarantine sha b pkg f)"
  unfolding quarantine_def quarantine_bytes_def Let_def by (intro spares_intros)+

lemma spares_drop_record [spares_intros]: "spares outside (drop_record_objects sha b pkg f)"
  unfolding drop_record_objects_def Let_def
  by (intro spares_intros spares_delete_keys) (simp_all add: record_object_keys_def)

lemma spares_freeze_side [spares_intros]: "spares outside (freeze_side sha M b pkg f)"
  unfolding freeze_side_def write_frozen_marker_def Let_def by (intro spares_intros)

lemma spares_tombstone_side [spares_intros]: "spares outside (tombstone_side sha M b pkg f)"
  unfolding tombstone_side_def Let_def
  by (intro spares_intros spares_delete_keys) simp_all

lemma spares_freeze_copy_race [spares_intros]: "spares outside (freeze_copy_race sha M a b pkg f)"
  unfolding freeze_copy_race_def Let_def by (intro spares_intros)

lemma spares_clear_spent [spares_intros]: "spares outside (clear_spent_demotion_fence sha S b pkg f r)"
  unfolding clear_spent_demotion_fence_def Let_def
  by (intro spares_intros spares_delete_keys) simp_all

lemma spares_settle_mirror [spares_intros]: "spares outside (settle_mirror_quarantine sha J S M b pkg f)"
  unfolding settle_mirror_quarantine_def settle_drop_def write_mirror_quarantine_marker_def Let_def
  by (intro spares_intros spares_delete_keys) (simp_all add: record_object_keys_def)

lemma spares_quarantine_mirror [spares_intros]: "spares outside (quarantine_mirror_artifacts sha J S M b pkg)"
proof -
  have "spares outside (quarantine_mirror_loop sha J S M b pkg es n)" for es n
    by (induction es arbitrary: n) (auto intro!: spares_intros split: option.splits)
  then show ?thesis
    unfolding quarantine_mirror_artifacts_def by (intro spares_intros)
qed

subsection \<open>The executor\<close>

lemma spares_record_reads [spares_intros]: "spares K (record_from_names S b pkg f names og)" "spares K (read_record J S b pkg f)"
  unfolding record_from_names_def read_record_def read_sidecar_checked_def Let_def by (auto intro!: spares_intros split: option.splits)

lemma spares_case_source [spares_intros]:
  "spares K m1 \<Longrightarrow> (\<And>p. spares K (m2 p)) \<Longrightarrow> spares K (case s of Bucket \<Rightarrow> m1 | Spool p \<Rightarrow> m2 p)"
  by (cases s) simp_all

lemma spares_verify_source_artifact [spares_intros]: "spares outside (verify_source_artifact sha S src pkg f r source)"
  unfolding verify_source_artifact_def stage_def stage_from_bucket_def Let_def
  by (intro spares_intros spares_delete_keys) simp_all

lemma spares_read_source_companions [spares_intros]: "spares K (read_source_companions src k r)"
  unfolding read_source_companions_def read_listed_companion_def by (intro spares_intros)

lemma spares_verify_source_record [spares_intros]: "spares outside (verify_source_record sha S src pkg f r source)"
  unfolding verify_source_record_def by (intro spares_intros)

lemma spares_sidecar_checks [spares_intros]: "spares K (sidecar_still_names S b k h)" "spares K (sidecar_holds_private S b k)"
  unfolding sidecar_still_names_def sidecar_holds_private_def by (auto intro!: spares_intros split: option.splits)

lemma spares_case_leg [spares_intros]:
  "(\<And>c. spares K (m1 c)) \<Longrightarrow> spares K m2 \<Longrightarrow> spares K (case l of Landed c \<Rightarrow> m1 c | FrozenLeg \<Rightarrow> m2)"
  by (cases l) simp_all

lemma spares_artifact_leg [spares_intros]: "spares outside (artifact_leg sha S M src dst pkg f sc akey body pb)"
  unfolding artifact_leg_def repair_debris_def Let_def by (intro spares_intros)

lemma spares_put_companions [spares_intros]: "spares K (put_companions sha dst akey c ch)"
  unfolding put_companions_def by (auto intro!: spares_intros split: option.splits)

lemma spares_copy_truth [spares_intros]: "spares K (copy_truth sha S dst akey sc c ch mi n)"
  unfolding copy_truth_def by (auto intro!: spares_intros split: option.splits)

lemma spares_claim_destination [spares_intros]: "spares K (claim_destination sha J dst pkg mi)"
  unfolding claim_destination_def by (auto intro!: spares_intros)

text \<open>The provider's server-side copy writes its destination key and takes nothing down.\<close>

definition copies_only :: "exec_env \<Rightarrow> bool" where
  "copies_only E = (\<forall>src dst key n. spares outside (server_copy E src dst key n))"

lemma spares_copy_live [spares_intros]: "copies_only E \<Longrightarrow> spares outside (copy_live E sha J S M src dst pkg f r source)"
  unfolding copy_live_def copy_gated_def server_side_copy_artifact_def copies_only_def Let_def
  by (auto intro!: spares_intros split: option.splits copy_outcome.splits artifact_leg_result.splits)

lemma spares_replace_companion [spares_intros]: "spares outside (replace_companion sha b (metadata_key (artifact_key pkg f)) bs rep)"
  "spares outside (replace_companion sha b (provenance_key (artifact_key pkg f)) bs rep)"
proof -
  have "spares outside (replace_companion_loop sha b k bs n)" for k bs n
    by (induction n) (auto intro!: spares_intros split: option.splits)
  then show "spares outside (replace_companion sha b (metadata_key (artifact_key pkg f)) bs rep)"
    "spares outside (replace_companion sha b (provenance_key (artifact_key pkg f)) bs rep)"
    unfolding replace_companion_def by (auto intro!: spares_intros spares_delete_keys split: option.splits)
qed

lemma spares_supersede [spares_intros]: "spares outside (supersede_record E sha J S M src dst pkg f r source)"
  unfolding supersede_record_def supersede_publish_def supersede_body_def supersede_create_def supersede_replaces_companions_def
    yield_to_fence_def Let_def
  by (auto intro!: spares_intros spares_delete_keys split: option.splits)

lemma spares_apply_verdict [spares_intros]:
  "copies_only E \<Longrightarrow> spares outside (apply_verdict E sha J S M a b pkg f ra rb source v)"
  unfolding apply_verdict_def freeze_both_def
  by (cases v) (auto intro!: spares_intros split: side.splits)

lemma spares_execute [spares_intros]: "copies_only E \<Longrightarrow> spares outside (execute E sha J S M a b pkg f ra rb v source)"
  unfolding execute_def commit_quietly_def bracket_intent_def Let_def by (intro spares_intros)

lemma spares_split_origin [spares_intros]: "spares outside (reconcile_split_origin sha J S M a b pkg ao bo)"
  unfolding reconcile_split_origin_def raise_to_private_def Let_def by (auto intro!: spares_intros)

lemma spares_member_names [spares_intros]: "spares K (package_member_names b pkg)"
  unfolding package_member_names_def Let_def by (intro spares_intros)

lemma spares_converge_files [spares_intros]:
  "copies_only E \<Longrightarrow> spares outside (converge_files E sha J S M a b pkg ao bo an bn fs out)"
  by (induction fs arbitrary: out) (auto simp: settle_late_mirror_def Let_def intro!: spares_intros)

lemma spares_converge_package [spares_intros]: "copies_only E \<Longrightarrow> spares outside (converge_package E sha J S M C a b pkg)"
proof -
  assume E: "copies_only E"
  have "spares outside (converge_attempts E sha J S M a b pkg ao bo an bn n)" for ao bo an bn n
    by (induction n arbitrary: an bn) (auto intro!: spares_intros E split: file_pass.splits)
  then show ?thesis
    unfolding converge_package_def by (auto intro!: spares_intros)
qed

lemma spares_replicate_record [spares_intros]:
  "copies_only E \<Longrightarrow> spares outside (replicate_record E sha J S M C src dst pkg f source)"
  unfolding replicate_record_def by (auto intro!: spares_intros)

end
