(* ===== verification/Repl_Notes.thy ===== *)
theory Repl_Notes
  imports Convergence Confinement Topology Observed_Storage
begin

text \<open>
  The second tier of replication in \<open>src/replicate.rs\<close>: the copy of a committed record to every other
  bucket before the client is answered, the durable note \<open>_repl/<tag>/<pkg>/<file>!<nonce>\<close> for every
  bucket it did not reach, the sweep that delivers the notes, the questions other parts ask about
  them, and the sentinels that fence a freshly added bucket.

  \<open>app_state\<close> is the part of \<open>AppState\<close> replication uses. The health controller is read when the code
  asks it, in the world of that moment. Futures that run concurrently are taken one after another;
  what they do to each other is part of the interference every theorem allows. A copy raced in
  \<open>select!\<close> against the deadline or a lost bucket is cut off after some number of storage calls: the
  argument \<open>lim\<close> says which and when. The listing loops take fuel, one unit a page.
\<close>

section \<open>Definitions\<close>

subsection \<open>State\<close>

record app_state =
  st_exec :: exec_env
  st_sha :: "bytes \<Rightarrow> bytes"
  st_claims :: claim_codec
  st_sidecars :: sidecar_codec
  st_markers :: marker_codec
  st_status :: status_codec
  st_buckets :: bucket_set
  st_health :: "world \<Rightarrow> controller option"

definition st_handles :: "app_state \<Rightarrow> bucket_handle list" where
  "st_handles st = handles (st_buckets st)"

definition bucket_of :: "app_state \<Rightarrow> nat \<Rightarrow> bucket_id" where
  "bucket_of st i = bh_bucket (st_handles st ! i)"

definition replication_eligible :: "app_state \<Rightarrow> world \<Rightarrow> nat \<Rightarrow> bool" where
  "replication_eligible st w i =
     (case st_health st w of None \<Rightarrow> True | Some c \<Rightarrow> (case bucket_eligible c i of Inr ok \<Rightarrow> ok | Inl _ \<Rightarrow> False))"

abbreviation replicate_in :: "app_state \<Rightarrow> bucket_id \<Rightarrow> bucket_id \<Rightarrow> string \<Rightarrow> string \<Rightarrow> artifact_source \<Rightarrow> convergence act" where
  "replicate_in st \<equiv> replicate_record (st_exec st) (st_sha st) (st_claims st) (st_sidecars st) (st_markers st) (st_status st)"

text \<open>
  A future that \<open>select!\<close> drops: its first \<open>n\<close> storage calls run, the rest never happen, and its
  result is gone.
\<close>

definition cut_off :: "nat \<Rightarrow> 'a act \<Rightarrow> unit act" where
  "cut_off n m w =
     (let w' = snd (m (w\<lparr>script := take n (script w @ replicate n (Answered id)) @ [Halt]\<rparr>))
      in (Inr (), w'\<lparr>script := butlast (script w') @ drop n (script w)\<rparr>))"

subsection \<open>Notes\<close>

definition repl_key :: "string \<Rightarrow> string \<Rightarrow> string \<Rightarrow> string \<Rightarrow> string" where
  "repl_key dest_tag pkg filename nonce = REPL_PREFIX @ dest_tag @ ''/'' @ pkg @ ''/'' @ filename @ ''!'' @ nonce"

definition write_marker :: "(bytes \<Rightarrow> bytes) \<Rightarrow> bucket_id \<Rightarrow> string \<Rightarrow> string \<Rightarrow> string \<Rightarrow> string act" where
  "write_marker sha b dest_tag pkg filename =
     andThen marker_nonce (\<lambda>nonce.
       let key = repl_key dest_tag pkg filename nonce in
       andThen (put_bytes sha b key []) (\<lambda>_. ret key))"

record repl_marker =
  rm_dest :: string
  rm_pkg :: string
  rm_filename :: string
  rm_key :: string

definition parse_repl_marker :: "string \<Rightarrow> repl_marker option" where
  "parse_repl_marker key =
     Option.bind (strip_prefix key REPL_PREFIX) (\<lambda>rest.
     Option.bind (split_once rest (CHR ''/'')) (\<lambda>(dest_tag, rest).
     Option.bind (split_once rest (CHR ''/'')) (\<lambda>(pkg, file_nonce).
     Option.bind (rsplit_once file_nonce (CHR ''!'')) (\<lambda>(filename, _).
       Some \<lparr>rm_dest = dest_tag, rm_pkg = pkg, rm_filename = filename, rm_key = key\<rparr>))))"

fun tag_position :: "nat \<Rightarrow> bucket_handle list \<Rightarrow> string \<Rightarrow> nat option" where
  "tag_position i [] tag = None"
| "tag_position i (h # hs) tag = (if bucket_tag (bh_name h) = tag then Some i else tag_position (i + 1) hs tag)"

definition dest_index_for_tag :: "bucket_handle list \<Rightarrow> string \<Rightarrow> nat option" where
  "dest_index_for_tag hs tag = tag_position 0 hs tag"

subsection \<open>Synchronous fan-out\<close>

text \<open>One destination; \<open>True\<close> when it converged.\<close>

definition fanout_job :: "app_state \<Rightarrow> nat option \<Rightarrow> bucket_id \<Rightarrow> bucket_id \<Rightarrow> string \<Rightarrow> string \<Rightarrow> artifact_source \<Rightarrow> bool \<Rightarrow> bool act" where
  "fanout_job st lim src dst pkg filename source attempt =
     (if \<not> attempt then ret False
      else (case lim of
              Some n \<Rightarrow> andThen (cut_off n (replicate_in st src dst pkg filename source)) (\<lambda>_. ret False)
            | None \<Rightarrow> onResult (replicate_in st src dst pkg filename source) (\<lambda>_. ret False) (\<lambda>c. ret (c = Converged))))"

fun fanout_jobs ::
  "app_state \<Rightarrow> (nat \<Rightarrow> nat option) \<Rightarrow> bucket_id \<Rightarrow> string \<Rightarrow> string \<Rightarrow> artifact_source \<Rightarrow> (nat \<times> bool) list \<Rightarrow> (nat \<times> bool) list act" where
  "fanout_jobs st lim src pkg filename source [] = ret []"
| "fanout_jobs st lim src pkg filename source ((idx, attempt) # jobs) =
     andThen (fanout_job st (lim idx) src (bucket_of st idx) pkg filename source attempt) (\<lambda>ok.
     andThen (fanout_jobs st lim src pkg filename source jobs) (\<lambda>oks. ret ((idx, ok) # oks)))"

text \<open>The note for one gap, tried twice; \<open>True\<close> when it could not be written.\<close>

definition note_gap :: "app_state \<Rightarrow> bucket_id \<Rightarrow> string \<Rightarrow> string \<Rightarrow> nat \<Rightarrow> bool act" where
  "note_gap st src pkg filename idx =
     (let dest_tag = bucket_tag (bh_name (st_handles st ! idx)) in
      onResult (write_marker (st_sha st) src dest_tag pkg filename)
        (\<lambda>_. onResult (write_marker (st_sha st) src dest_tag pkg filename) (\<lambda>_. ret True) (\<lambda>_. ret False))
        (\<lambda>_. ret False))"

fun note_gaps :: "app_state \<Rightarrow> bucket_id \<Rightarrow> string \<Rightarrow> string \<Rightarrow> (nat \<times> bool) list \<Rightarrow> nat \<Rightarrow> nat act" where
  "note_gaps st src pkg filename [] unrecorded = ret unrecorded"
| "note_gaps st src pkg filename ((idx, converged) # outs) unrecorded =
     (if converged then note_gaps st src pkg filename outs unrecorded
      else andThen (note_gap st src pkg filename idx) (\<lambda>lost.
             note_gaps st src pkg filename outs (if lost then unrecorded + 1 else unrecorded)))"

text \<open>Which destinations a copy is tried on, settled before the first one starts.\<close>

definition fanout_plan :: "app_state \<Rightarrow> nat \<Rightarrow> world \<Rightarrow> (nat \<times> bool) list" where
  "fanout_plan st src_index w =
     (let can_copy = \<not> fenced (st_exec st) w \<and> replication_eligible st w src_index
      in map (\<lambda>idx. (idx, can_copy \<and> replication_eligible st w idx)) (filter (\<lambda>idx. idx \<noteq> src_index) [0..<length (st_handles st)]))"

definition fanout_sync ::
  "app_state \<Rightarrow> (nat \<Rightarrow> nat option) \<Rightarrow> nat \<Rightarrow> string \<Rightarrow> string \<Rightarrow> bytes option option \<Rightarrow> unit act" where
  "fanout_sync st lim src_index pkg filename spool w =
     (if \<not> is_multi (st_buckets st) then ret () w
      else
        (let src = bucket_of st src_index;
             source = (case spool of None \<Rightarrow> Bucket | Some s \<Rightarrow> Spool s) in
         andThen (fanout_jobs st lim src pkg filename source (fanout_plan st src_index w)) (\<lambda>outs.
         andThen (note_gaps st src pkg filename outs 0) (\<lambda>unrecorded.
           if unrecorded > 0 then fail (Bail ''replication gap could not be recorded'') else ret ())) w))"

fun note_peers :: "app_state \<Rightarrow> nat \<Rightarrow> string \<Rightarrow> string \<Rightarrow> nat list \<Rightarrow> nat list \<Rightarrow> nat list act" where
  "note_peers st src_index pkg filename [] failures = ret failures"
| "note_peers st src_index pkg filename (idx # ixs) failures =
     (if idx = src_index then note_peers st src_index pkg filename ixs failures
      else onResult (write_marker (st_sha st) (bucket_of st src_index) (bucket_tag (bh_name (st_handles st ! idx))) pkg filename)
             (\<lambda>_. note_peers st src_index pkg filename ixs (failures @ [idx]))
             (\<lambda>_. note_peers st src_index pkg filename ixs failures))"

definition note_proxy_fill :: "app_state \<Rightarrow> nat \<Rightarrow> string \<Rightarrow> string \<Rightarrow> unit act" where
  "note_proxy_fill st src_index pkg filename w =
     (if fenced (st_exec st) w \<or> \<not> replication_eligible st w src_index then ret () w
      else if src_index \<ge> length (st_handles st) then ret () w
      else andThen (note_peers st src_index pkg filename [0..<length (st_handles st)] []) (\<lambda>failures.
             if failures = [] then ret () else fail (Bail ''proxy-fill notes failed'')) w)"

definition spawn_proxy_fill_notes :: "app_state \<Rightarrow> nat \<Rightarrow> string \<Rightarrow> string \<Rightarrow> unit act" where
  "spawn_proxy_fill_notes st src_index pkg filename =
     (if \<not> is_multi (st_buckets st) then ret ()
      else onResult (note_proxy_fill st src_index pkg filename) (\<lambda>_. ret ()) (\<lambda>_. ret ()))"

subsection \<open>Delivering notes\<close>

datatype note_outcome = Consumed | Pending | Failing

record backlog =
  bl_pending :: u64
  bl_failing :: u64

definition classify_note_failure :: "err \<Rightarrow> note_outcome" where
  "classify_note_failure e =
     (case e of
        Contended _ \<Rightarrow> Pending
      | _ \<Rightarrow>
          (case signal_for_error e of
             Timeout \<Rightarrow> Pending | ConnectionFailure \<Rightarrow> Pending | QuotaError \<Rightarrow> Pending | Success \<Rightarrow> Pending
           | HttpStatus s \<Rightarrow> (if s = 408 \<or> s = 429 \<or> s \<ge> 500 then Pending else Failing)
           | _ \<Rightarrow> Failing))"

text \<open>One note: the copy, the rebuild signal at the destination, and only then the note's removal.\<close>

definition deliver_note :: "app_state \<Rightarrow> nat option \<Rightarrow> bucket_id \<Rightarrow> bucket_id \<Rightarrow> repl_marker \<Rightarrow> note_outcome act" where
  "deliver_note st lim src dst m =
     (let copy = replicate_in st src dst (rm_pkg m) (rm_filename m) Bucket;
          retain = (\<lambda>e. ret (classify_note_failure e)) in
      case lim of
        Some n \<Rightarrow> andThen (cut_off n copy) (\<lambda>_. ret Pending)
      | None \<Rightarrow>
          onResult copy retain (\<lambda>c. case c of
            Deferred \<Rightarrow> onResult (mark_dirty (st_sha st) dst (rm_pkg m)) retain (\<lambda>_. ret Pending)
          | Converged \<Rightarrow>
              onResult (mark_dirty (st_sha st) dst (rm_pkg m)) retain (\<lambda>_.
              onResult (delete_keys (st_sha st) src [rm_key m]) retain (\<lambda>_. ret Consumed))))"

fun deliver_notes :: "app_state \<Rightarrow> (string \<Rightarrow> nat option) \<Rightarrow> bucket_id \<Rightarrow> bucket_id \<Rightarrow> repl_marker list \<Rightarrow> note_outcome list act" where
  "deliver_notes st lim src dst [] = ret []"
| "deliver_notes st lim src dst (m # ms) =
     andThen (deliver_note st (lim (rm_key m)) src dst m) (\<lambda>out.
     andThen (deliver_notes st lim src dst ms) (\<lambda>outs. ret (out # outs)))"

definition backlog_of :: "note_outcome list \<Rightarrow> backlog" where
  "backlog_of outs =
     \<lparr>bl_pending = of_nat (length (filter (\<lambda>out. out \<noteq> Consumed) outs)), bl_failing = of_nat (length (filter (\<lambda>out. out = Failing) outs))\<rparr>"

definition drain_destination :: "app_state \<Rightarrow> (string \<Rightarrow> nat option) \<Rightarrow> bucket_id \<Rightarrow> nat \<Rightarrow> repl_marker list \<Rightarrow> backlog act" where
  "drain_destination st lim src dest ms w =
     (if \<not> replication_eligible st w dest then ret \<lparr>bl_pending = of_nat (length ms), bl_failing = 0\<rparr> w
      else andThen (deliver_notes st lim src (bucket_of st dest) ms) (\<lambda>outs. ret (backlog_of outs)) w)"

fun drain_destinations ::
  "app_state \<Rightarrow> (string \<Rightarrow> nat option) \<Rightarrow> bucket_id \<Rightarrow> (nat \<times> repl_marker list) list \<Rightarrow> (nat \<times> backlog) list act" where
  "drain_destinations st lim src [] = ret []"
| "drain_destinations st lim src ((dest, ms) # rest) =
     andThen (drain_destination st lim src dest ms) (\<lambda>b.
     andThen (drain_destinations st lim src rest) (\<lambda>bs. ret ((dest, b) # bs)))"

text \<open>Sorting one page: a note whose tag names no configured bucket is dropped, best effort.\<close>

fun sort_page :: "app_state \<Rightarrow> bucket_id \<Rightarrow> string list \<Rightarrow> (nat \<times> repl_marker) list \<Rightarrow> (nat \<times> repl_marker) list act" where
  "sort_page st src [] acc = ret acc"
| "sort_page st src (key # keys) acc =
     (case parse_repl_marker key of
        None \<Rightarrow> sort_page st src keys acc
      | Some m \<Rightarrow>
          (case dest_index_for_tag (st_handles st) (rm_dest m) of
             None \<Rightarrow> onResult (delete_keys (st_sha st) src [rm_key m]) (\<lambda>_. sort_page st src keys acc) (\<lambda>_. sort_page st src keys acc)
           | Some i \<Rightarrow> sort_page st src keys (acc @ [(i, m)])))"

definition by_destination :: "nat \<Rightarrow> (nat \<times> repl_marker) list \<Rightarrow> (nat \<times> repl_marker list) list" where
  "by_destination n ms =
     filter (\<lambda>e. snd e \<noteq> []) (map (\<lambda>i. (i, map snd (filter (\<lambda>e. fst e = i) ms))) [0..<n])"

definition add_backlog :: "nat \<times> backlog \<Rightarrow> (nat \<rightharpoonup> backlog) \<Rightarrow> nat \<rightharpoonup> backlog" where
  "add_backlog e acc =
     (let (dest, b) = e; t = (case acc dest of None \<Rightarrow> \<lparr>bl_pending = 0, bl_failing = 0\<rparr> | Some t \<Rightarrow> t)
      in acc(dest \<mapsto> \<lparr>bl_pending = bl_pending t + bl_pending b, bl_failing = bl_failing t + bl_failing b\<rparr>))"

definition REPL_SWEEP_PAGE :: nat where "REPL_SWEEP_PAGE = 1000"

text \<open>\<open>gone\<close> says that the source left the eligible set while a page was being listed.\<close>

fun sweep_loop ::
  "nat \<Rightarrow> app_state \<Rightarrow> (string \<Rightarrow> nat option) \<Rightarrow> (nat \<Rightarrow> bool) \<Rightarrow> bucket_id \<Rightarrow> string option \<Rightarrow> (nat \<rightharpoonup> backlog) \<Rightarrow> (nat \<rightharpoonup> backlog) act" where
  "sweep_loop 0 st lim gone src aft remaining = fail (Bail ''out of fuel'')"
| "sweep_loop (Suc fuel) st lim gone src aft remaining =
     (if gone fuel then fail (Bail ''source bucket became ineligible during marker listing'')
      else
        andThen (list_page src REPL_PREFIX aft REPL_SWEEP_PAGE) (\<lambda>page.
          if page = [] then ret remaining
          else
            andThen (sort_page st src (map om_key page) []) (\<lambda>ms.
            andThen (drain_destinations st lim src (by_destination (length (st_handles st)) ms)) (\<lambda>outs.
              let remaining' = fold add_backlog outs remaining in
              if length page < REPL_SWEEP_PAGE then ret remaining'
              else sweep_loop fuel st lim gone src (Some (om_key (last page))) remaining'))))"

definition sweep_bucket_markers ::
  "nat \<Rightarrow> app_state \<Rightarrow> (string \<Rightarrow> nat option) \<Rightarrow> (nat \<Rightarrow> bool) \<Rightarrow> nat \<Rightarrow> (nat \<rightharpoonup> backlog) act" where
  "sweep_bucket_markers fuel st lim gone src_index = sweep_loop fuel st lim gone (bucket_of st src_index) None Map.empty"

fun sweep_sources ::
  "nat \<Rightarrow> app_state \<Rightarrow> (string \<Rightarrow> nat option) \<Rightarrow> (nat \<Rightarrow> bool) \<Rightarrow> nat list \<Rightarrow> nat list \<Rightarrow> nat list act" where
  "sweep_sources fuel st lim gone [] failures = ret failures"
| "sweep_sources fuel st lim gone (i # ixs) failures =
     onResult (sweep_bucket_markers fuel st lim gone i)
       (\<lambda>_. sweep_sources fuel st lim gone ixs (failures @ [i]))
       (\<lambda>_. sweep_sources fuel st lim gone ixs failures)"

definition sweep_all_markers :: "nat \<Rightarrow> app_state \<Rightarrow> (string \<Rightarrow> nat option) \<Rightarrow> (nat \<Rightarrow> bool) \<Rightarrow> unit act" where
  "sweep_all_markers fuel st lim gone w =
     (if \<not> is_multi (st_buckets st) then ret () w
      else
        andThen (require_replication_unfenced (st_exec st)) (\<lambda>_.
        andThen (sweep_sources fuel st lim gone (filter (replication_eligible st w) [0..<length (st_handles st)]) []) (\<lambda>failures.
          if failures = [] then ret () else fail (Bail ''marker sweeps failed''))) w)"

subsection \<open>What others ask of the notes\<close>

fun first_note_loop :: "nat \<Rightarrow> bucket_id \<Rightarrow> string option \<Rightarrow> string option act" where
  "first_note_loop 0 b aft = fail (Bail ''out of fuel'')"
| "first_note_loop (Suc fuel) b aft =
     andThen (list_page b REPL_PREFIX aft REPL_SWEEP_PAGE) (\<lambda>page.
       case List.find (\<lambda>om. parse_repl_marker (om_key om) \<noteq> None) page of
         Some om \<Rightarrow> ret (Some (om_key om))
       | None \<Rightarrow>
           if length page < REPL_SWEEP_PAGE then ret None
           else first_note_loop fuel b (Some (om_key (last page))))"

definition first_undrained_repl_note :: "nat \<Rightarrow> bucket_id \<Rightarrow> string option act" where
  "first_undrained_repl_note fuel b = first_note_loop fuel b None"

definition bucket_is_corpus_empty :: "bucket_id \<Rightarrow> bool act" where
  "bucket_is_corpus_empty b = andThen (list_page b PACKAGES_PREFIX None 1) (\<lambda>page. ret (page = []))"

definition has_undrained_repl_notes_for :: "bucket_id \<Rightarrow> string \<Rightarrow> bool act" where
  "has_undrained_repl_notes_for b dest_tag =
     andThen (list_page b (REPL_PREFIX @ dest_tag @ ''/'') None 1) (\<lambda>page. ret (page \<noteq> []))"

fun peers_owe_none :: "string \<Rightarrow> bucket_handle list \<Rightarrow> bool act" where
  "peers_owe_none tag [] = ret True"
| "peers_owe_none tag (h # hs) =
     onResult (has_undrained_repl_notes_for (bh_bucket h) tag) (\<lambda>_. ret False)
       (\<lambda>owed. if owed then ret False else peers_owe_none tag hs)"

definition region_owed_no_notes :: "bucket_handle list \<Rightarrow> nat \<Rightarrow> bool act" where
  "region_owed_no_notes hs region =
     (if region \<ge> length hs then ret True
      else peers_owe_none (bucket_tag (bh_name (hs ! region))) (take region hs @ drop (region + 1) hs))"

subsection \<open>The backfill sentinel\<close>

definition BACKFILL_SENTINEL :: string where "BACKFILL_SENTINEL = ''_backfill!''"

definition backfill_sentinel_prefix :: "string \<Rightarrow> string" where
  "backfill_sentinel_prefix dest_tag = REPL_PREFIX @ dest_tag @ ''/'' @ BACKFILL_SENTINEL"

definition seed_backfill_sentinel :: "(bytes \<Rightarrow> bytes) \<Rightarrow> bucket_id \<Rightarrow> string \<Rightarrow> unit act" where
  "seed_backfill_sentinel sha b dest_tag =
     andThen marker_nonce (\<lambda>nonce. put_bytes sha b (backfill_sentinel_prefix dest_tag @ nonce) [])"

text \<open>Every (bucket, destination) pair in order; fenced names in order of first sight.\<close>

fun drain_pairs ::
  "(bytes \<Rightarrow> bytes) \<Rightarrow> bool \<Rightarrow> (bucket_handle \<times> bucket_handle) list \<Rightarrow> string list \<Rightarrow> bool \<Rightarrow> (string list \<times> bool) act" where
  "drain_pairs sha drain [] fenced_names failed = ret (fenced_names, failed)"
| "drain_pairs sha drain ((h, dest) # ps) fenced_names failed =
     onResult (list_page (bh_bucket h) (backfill_sentinel_prefix (bucket_tag (bh_name dest))) None REPL_SWEEP_PAGE)
       (\<lambda>_. drain_pairs sha drain ps fenced_names True)
       (\<lambda>page.
          if page = [] then drain_pairs sha drain ps fenced_names failed
          else
            (let names = (if bh_name dest \<in> set fenced_names then fenced_names else fenced_names @ [bh_name dest]) in
             if \<not> drain then drain_pairs sha drain ps names failed
             else onResult (delete_keys sha (bh_bucket h) (map om_key page))
                    (\<lambda>_. drain_pairs sha drain ps names True)
                    (\<lambda>_. drain_pairs sha drain ps names failed)))"

definition drain_backfill_sentinels :: "app_state \<Rightarrow> bool \<Rightarrow> string list act" where
  "drain_backfill_sentinels st drain =
     andThen (drain_pairs (st_sha st) drain (List.product (st_handles st) (st_handles st)) [] False) (\<lambda>(names, failed).
       if failed then fail (Bail ''backfill sentinel drain failed'') else ret names)"

section \<open>Keys\<close>

lemma repl_key_outside: "outside b (repl_key tag pkg f n)"
  by (simp add: outside_def repl_key_def REPL_PREFIX_def PACKAGES_PREFIX_def)

lemma bucket_tag_chars: "set (bucket_tag name) \<subseteq> {c. is_ascii_alphanumeric c \<or> c \<in> set ''._-''}"
  by (auto simp: bucket_tag_def Let_def is_ascii_alphanumeric_def is_ascii_digit_def is_ascii_lowercase_def is_ascii_uppercase_def)

lemma bucket_tag_no_slash: "CHR ''/'' \<notin> set (bucket_tag name)"
  using bucket_tag_chars [of name]
  by (auto simp: is_ascii_alphanumeric_def is_ascii_digit_def is_ascii_lowercase_def is_ascii_uppercase_def)

lemma parse_repl_key:
  assumes "CHR ''/'' \<notin> set tag" and "CHR ''/'' \<notin> set pkg" and "CHR ''!'' \<notin> set n"
  shows "parse_repl_marker (repl_key tag pkg f n) = Some \<lparr>rm_dest = tag, rm_pkg = pkg, rm_filename = f, rm_key = repl_key tag pkg f n\<rparr>"
proof -
  have "strip_prefix (repl_key tag pkg f n) REPL_PREFIX = Some (tag @ CHR ''/'' # pkg @ CHR ''/'' # f @ CHR ''!'' # n)"
    unfolding repl_key_def by (simp add: strip_prefix_append)
  then show ?thesis
    unfolding parse_repl_marker_def
    by (simp add: split_once_append [OF assms(1)] split_once_append [OF assms(2)] rsplit_once_append [OF assms(3)])
qed

lemma tag_position_distinct:
  "i < length hs \<Longrightarrow> distinct (map (\<lambda>h. bucket_tag (bh_name h)) hs) \<Longrightarrow> tag_position j hs (bucket_tag (bh_name (hs ! i))) = Some (j + i)"
proof (induction hs arbitrary: i j)
  case (Cons h hs)
  show ?case
  proof (cases i)
    case (Suc i')
    then have "bucket_tag (bh_name h) \<noteq> bucket_tag (bh_name (hs ! i'))"
      using Cons.prems by (metis (mono_tags, lifting) Suc_less_eq distinct.simps(2) image_eqI length_Cons list.set_map list.simps(9) nth_mem)
    then show ?thesis
      using Cons Suc by simp
  qed simp
qed simp

lemma check_tags_distinct: "check_tags tags ns = Inr () \<Longrightarrow> distinct (map bucket_tag ns) \<and> set (map bucket_tag ns) \<inter> set tags = {}"
proof (induction ns arbitrary: tags)
  case (Cons n ns)
  then show ?case
    using Cons.IH [of "bucket_tag n # tags"] by (auto split: if_splits)
qed simp

lemma valid_tags_distinct: "validate_topology_config bs = Inr () \<Longrightarrow> distinct (map (\<lambda>h. bucket_tag (bh_name h)) (handles bs))"
  using check_tags_distinct [of "[]" "map bh_name (handles bs)"]
  by (auto simp: validate_topology_config_def comp_def split: option.splits sum.splits)

section \<open>What the parts take down\<close>

lemma spares_write_marker [spares_intros]: "spares K (write_marker sha b tag pkg f)"
  unfolding write_marker_def Let_def by (intro spares_intros)

lemma triple_cut_off:
  assumes "triple G P n (\<lambda>_. P)" and "\<forall>fl. G fl fl"
  shows "triple G P (cut_off k n) (\<lambda>_. P)"
  unfolding triple_def
proof (intro allI impI)
  fix w r w'
  assume w: "obeys G w" "P (buckets w)" and run: "cut_off k n w = (r, w')"
  let ?u = "w\<lparr>script := take k (script w @ replicate k (Answered id)) @ [Halt]\<rparr>"
  obtain x u' where n: "n ?u = (x, u')"
    by fastforce
  have "obeys G ?u"
    using w(1) assms(2) by (auto simp: obeys_def dest!: in_set_takeD)
  then have u': "obeys G u'" "P (buckets u')"
    using tripleD [OF assms(1), of ?u x u'] w(2) n by simp_all
  have "w' = u'\<lparr>script := butlast (script u') @ drop k (script w)\<rparr>"
    using run n by (simp add: cut_off_def)
  then show "obeys G w' \<and> P (buckets w')"
    using u' w(1) by (auto simp: obeys_def dest!: in_set_butlastD in_set_dropD)
qed

lemma spares_cut_off [spares_intros]: "spares K n \<Longrightarrow> spares K (cut_off k n)"
  unfolding spares_def using triple_cut_off by blast

lemma spares_fanout_job [spares_intros]:
  "copies_only (st_exec st) \<Longrightarrow> spares outside (fanout_job st lim src dst pkg f source attempt)"
  unfolding fanout_job_def by (auto intro!: spares_intros split: option.splits)

lemma spares_fanout_jobs [spares_intros]:
  "copies_only (st_exec st) \<Longrightarrow> spares outside (fanout_jobs st lim src pkg f source jobs)"
  by (induction jobs) (auto intro!: spares_intros)

lemma spares_note_gap [spares_intros]: "spares K (note_gap st src pkg f idx)"
  unfolding note_gap_def Let_def by (intro spares_intros)

lemma spares_note_gaps [spares_intros]: "spares K (note_gaps st src pkg f outs u)"
  by (induction outs arbitrary: u) (auto intro!: spares_intros)

lemma spares_fanout_sync [spares_intros]:
  assumes "copies_only (st_exec st)"
  shows "spares outside (fanout_sync st lim i pkg f spool)"
proof -
  let ?copy = "\<lambda>w. if \<not> is_multi (st_buckets st) then ret ()
      else andThen (fanout_jobs st lim (bucket_of st i) pkg f (case spool of None \<Rightarrow> Bucket | Some s \<Rightarrow> Spool s) (fanout_plan st i w)) (\<lambda>outs.
        andThen (note_gaps st (bucket_of st i) pkg f outs 0) (\<lambda>unrecorded.
          if unrecorded > 0 then fail (Bail ''replication gap could not be recorded'') else ret ()))"
  have "fanout_sync st lim i pkg f spool = (\<lambda>w. ?copy w w)"
    by (auto simp: fun_eq_iff fanout_sync_def Let_def)
  moreover have "spares outside (\<lambda>w. ?copy w w)"
    by (rule spares_of_state [where f = ?copy]) (intro spares_intros assms)
  ultimately show ?thesis
    by simp
qed

section \<open>Every gap is written down\<close>

definition noted :: "bucket_id \<Rightarrow> string \<Rightarrow> string \<Rightarrow> string \<Rightarrow> fleet \<Rightarrow> bool" where
  "noted src tag pkg f fl = (\<exists>n. contains_key (fl src) (repl_key tag pkg f n))"

lemma survives_noted: "survives outside (noted src tag pkg f)"
  unfolding survives_def noted_def using repl_key_outside by fastforce

lemma survives_conj: "survives K P \<Longrightarrow> survives K Q \<Longrightarrow> survives K (\<lambda>fl. P fl \<and> Q fl)"
  unfolding survives_def by blast

lemma triple_marker_nonce: "triple G P marker_nonce (both P (\<lambda>_. P))"
  by (auto simp: triple_def marker_nonce_def obeys_def)

lemma triple_write_marker:
  assumes "stable G P" and "survives outside P"
  shows "triple G P (write_marker sha src tag pkg f) (both P (\<lambda>_ fl. P fl \<and> noted src tag pkg f fl))"
  unfolding write_marker_def Let_def
proof (rule triple_andThen [OF triple_marker_nonce], rule triple_andThen)
  fix n
  let ?k = "repl_key tag pkg f n"
  have "noted src tag pkg f (fl(src := snd (store sha ?k [] (fl src))))" for fl
    by (auto simp: noted_def contains_key_store)
  then show "triple G P (put_bytes sha src ?k []) (both P (\<lambda>_ fl. P fl \<and> noted src tag pkg f fl))"
    by (intro triple_put_bytes [OF assms(1)]) (auto intro: survives_store [OF assms(2)])
qed (auto intro: triple_ret)

text \<open>A note, once it stands, is kept by the rest of the call; each gap costs a note or is counted.\<close>

definition notes_stay :: "(fleet \<Rightarrow> fleet \<Rightarrow> bool) \<Rightarrow> bucket_id \<Rightarrow> string \<Rightarrow> string \<Rightarrow> bool" where
  "notes_stay G src pkg f = ((\<forall>fl. G fl fl) \<and> (\<forall>tag. stable G (noted src tag pkg f)))"

lemma triple_note_gap:
  assumes "stable G P" and "survives outside P"
  shows "triple G P (note_gap st src pkg f idx)
    (both P (\<lambda>lost fl. P fl \<and> (lost \<or> noted src (bucket_tag (bh_name (st_handles st ! idx))) pkg f fl)))"
  unfolding note_gap_def Let_def
  by (rule triple_onResult [OF triple_write_marker [OF assms]])
    (auto intro!: triple_ret triple_onResult [OF triple_pre [OF triple_write_marker [OF assms]]])

lemma triple_note_gaps:
  assumes "notes_stay G src pkg f" and "stable G P" and "survives outside P"
  shows "triple G P (note_gaps st src pkg f outs u)
    (both P (\<lambda>u' fl. P fl \<and> u \<le> u' \<and> (u' = u \<longrightarrow> (\<forall>(j, ok)\<in>set outs. ok \<or> noted src (bucket_tag (bh_name (st_handles st ! j))) pkg f fl))))"
  using assms(2,3)
proof (induction outs arbitrary: u P)
  case Nil
  then show ?case
    by (auto intro!: triple_ret)
next
  case (Cons e outs)
  obtain j ok where e: "e = (j, ok)"
    by (cases e)
  let ?N = "noted src (bucket_tag (bh_name (st_handles st ! j))) pkg f"
  show ?case
  proof (cases ok)
    case True
    then show ?thesis
      using Cons.IH [OF Cons.prems, of u] by (simp add: e)
  next
    case False
    have step: "triple G (\<lambda>fl. P fl \<and> (lost \<or> ?N fl)) (note_gaps st src pkg f outs (if lost then u + 1 else u))
        (both P (\<lambda>u' fl. P fl \<and> u \<le> u' \<and> (u' = u \<longrightarrow> (\<forall>(j, ok)\<in>set (e # outs). ok \<or> noted src (bucket_tag (bh_name (st_handles st ! j))) pkg f fl))))"
      for lost
    proof -
      have "stable G (\<lambda>fl. P fl \<and> (lost \<or> ?N fl))" "survives outside (\<lambda>fl. P fl \<and> (lost \<or> ?N fl))"
        using Cons.prems assms(1) survives_noted unfolding notes_stay_def stable_def survives_def by blast+
      from Cons.IH [OF this, of "if lost then u + 1 else u"] show ?thesis
        by (rule triple_conseq) (auto simp: both_def e False split: sum.splits if_splits)
    qed
    have "triple G P (andThen (note_gap st src pkg f j) (\<lambda>lost. note_gaps st src pkg f outs (if lost then u + 1 else u)))
        (both P (\<lambda>u' fl. P fl \<and> u \<le> u' \<and> (u' = u \<longrightarrow> (\<forall>(j, ok)\<in>set (e # outs). ok \<or> noted src (bucket_tag (bh_name (st_handles st ! j))) pkg f fl))))"
      by (rule triple_andThen [OF triple_note_gap [OF Cons.prems] step]) simp
    then show ?thesis
      using False by (simp add: e)
  qed
qed

lemma fanout_job_returns: "\<exists>ok w'. fanout_job st lim src dst pkg f source attempt w = (Inr ok, w')"
  by (auto simp: fanout_job_def ret_def andThen_def cut_off_def onResult_def Let_def split: option.splits prod.splits sum.splits)

lemma fanout_jobs_returns: "\<exists>outs w'. fanout_jobs st lim src pkg f source jobs w = (Inr outs, w') \<and> map fst outs = map fst jobs"
proof (induction jobs arbitrary: w)
  case (Cons e jobs)
  obtain j attempt where e: "e = (j, attempt)"
    by (cases e)
  obtain ok w1 where one: "fanout_job st (lim j) src (bucket_of st j) pkg f source attempt w = (Inr ok, w1)"
    using fanout_job_returns by blast
  obtain outs w' where rest: "fanout_jobs st lim src pkg f source jobs w1 = (Inr outs, w')" "map fst outs = map fst jobs"
    using Cons.IH by blast
  show ?case
    using one rest by (auto simp: e andThen_def ret_def)
qed (simp add: ret_def)

end
