(* ===== verification/Fanout.thy ===== *)
theory Fanout
  imports Repl_Notes
begin

text \<open>
  The fan-out on a healthy fleet: a committed private record reaches every other bucket before the
  client is answered, and no note is written.
\<close>

section \<open>One destination\<close>

lemma ensure_private_version:
  assumes "script w = []" and "store_wf (buckets w b)" and "next_version (buckets w b) \<le> 2 ^ 64" and "view J (buckets w) b pkg \<noteq> Corrupt"
    and "ensure_private_origin sha J b pkg w = (r, w')"
  shows "next_version (buckets w' b) \<le> next_version (buckets w b) + 1"
  using ensure_private_quiet [OF assms(1-4), of sha] assms(5) by (auto simp: claimed_private_def next_version_store split: if_splits)

lemma artifact_not_marker: "is_artifact f \<Longrightarrow> f \<noteq> ORIGIN_MARKER \<and> f \<noteq> PROJECT_STATUS_MARKER"
  by (auto simp: is_artifact_def ORIGIN_MARKER_def PROJECT_STATUS_MARKER_def)

text \<open>What the source and one destination must look like.\<close>

definition copy_source :: "app_state \<Rightarrow> world \<Rightarrow> bucket_id \<Rightarrow> string \<Rightarrow> string \<Rightarrow> sidecar \<Rightarrow> bytes \<Rightarrow> bool" where
  "copy_source st w src pkg f sc body =
     (store_wf (buckets w src) \<and> view (st_claims st) (buckets w) src pkg = Claimed Private
      \<and> holds_record (st_sha st) (st_sidecars st) (buckets w src) (artifact_key pkg f) sc body \<and> origin sc = Some PRIVATE
      \<and> unat (size sc) \<le> STAGE_TO_DISK_ABOVE \<and> length body \<le> STAGE_TO_DISK_ABOVE)"

definition copy_target :: "app_state \<Rightarrow> world \<Rightarrow> bucket_id \<Rightarrow> string \<Rightarrow> string \<Rightarrow> bool" where
  "copy_target st w dst pkg f =
     (store_wf (buckets w dst) \<and> next_version (buckets w dst) + 1 < 2 ^ 64
      \<and> view (st_claims st) (buckets w) dst pkg \<in> {Absent, Claimed Unclaimed, Claimed Private}
      \<and> no_record (buckets w dst) (artifact_key pkg f))"

definition copy_done :: "app_state \<Rightarrow> world \<Rightarrow> bucket_id \<Rightarrow> string \<Rightarrow> string \<Rightarrow> sidecar \<Rightarrow> bytes \<Rightarrow> bool" where
  "copy_done st w dst pkg f sc body =
     (view (st_claims st) (buckets w) dst pkg = Claimed Private
      \<and> holds_record (st_sha st) (st_sidecars st) (buckets w dst) (artifact_key pkg f) sc body)"

lemma replicate_record_copies:
  assumes ok: "json_ok (st_claims st)" "dec_sidecar (st_sidecars st) (enc_sidecar (st_sidecars st) sc) = Some sc"
    and quiet: "script w = []" and "src \<noteq> dst"
    and env: "\<not> copy_via (st_exec st) src dst" "\<forall>u. \<not> fenced (st_exec st) u"
    and f: "is_artifact f" "CHR ''/'' \<notin> set f"
    and holds: "copy_source st w src pkg f sc body" and target: "copy_target st w dst pkg f" and from_source: "source_ok source body"
  shows "\<exists>w'. replicate_in st src dst pkg f source w = (Inr Converged, w') \<and> script w' = []
    \<and> (\<forall>b. b \<noteq> dst \<longrightarrow> buckets w' b = buckets w b) \<and> copy_done st w' dst pkg f sc body"
proof -
  let ?J = "st_claims st" and ?S = "st_sidecars st" and ?sha = "st_sha st" and ?a = "artifact_key pkg f"
  have src: "store_wf (buckets w src)" "view ?J (buckets w) src pkg = Claimed Private" "holds_record ?sha ?S (buckets w src) ?a sc body"
      "origin sc = Some PRIVATE" "unat (size sc) \<le> STAGE_TO_DISK_ABOVE" "length body \<le> STAGE_TO_DISK_ABOVE"
    using holds by (simp_all add: copy_source_def)
  have dst: "store_wf (buckets w dst)" "next_version (buckets w dst) + 1 < 2 ^ 64" "view ?J (buckets w) dst pkg \<noteq> Corrupt"
      "view ?J (buckets w) dst pkg \<noteq> Claimed Mirror" "no_record (buckets w dst) ?a"
    using target by (auto simp: copy_target_def)
  let ?claim = "claim_of (view ?J (buckets w) dst pkg)"
  have claims: "read_pkg_origin ?J src pkg w = (Inr (Some PrivateO), w)" "read_pkg_origin ?J dst pkg w = (Inr ?claim, w)"
    using read_pkg_origin_quiet [OF quiet, of ?J src pkg] read_pkg_origin_quiet [OF quiet dst(3)] src(2) by (simp_all add: claim_of_def narrow_def)
  have not_mirror: "?claim \<noteq> Some MirrorO"
    using dst(3,4) by (auto simp: claim_of_def narrow_def split: claim_view.splits origin_state.splits)
  obtain w1 where ens: "ensure_private_origin ?sha ?J dst pkg w = (Inr (), w1)" "touches dst {origin_key pkg} w w1"
      "view ?J (buckets w1) dst pkg = Claimed Private"
    using ensure_private_touches [OF ok(1) quiet dst(1) _ dst(3)] dst(2) by fastforce
  define w2 where "w2 = (if ?claim = Some PrivateO then w else w1)"
  have raise: "raise_to_private ?sha ?J ?S (st_markers st) dst pkg ?claim w = (Inr False, w2)"
    using ens(1) not_mirror by (auto simp: raise_to_private_def w2_def andThen_def ret_def)
  have w2: "touches dst {origin_key pkg} w w2" "view ?J (buckets w2) dst pkg = Claimed Private" "next_version (buckets w2 dst) < 2 ^ 64"
  proof -
    show "touches dst {origin_key pkg} w w2"
      using ens(2) touches_refl [OF quiet dst(1)] by (simp add: w2_def)
    show "view ?J (buckets w2) dst pkg = Claimed Private"
      using ens(3) dst(3) by (auto simp: w2_def claim_of_def narrow_def split: claim_view.splits origin_state.splits)
    show "next_version (buckets w2 dst) < 2 ^ 64"
      using ensure_private_version [OF quiet dst(1) _ dst(3) ens(1)] dst(2) by (auto simp: w2_def)
  qed
  have join: "claim_join (Some PrivateO) ?claim = Some PrivateO"
    using not_mirror by (cases ?claim; cases "the ?claim") (auto simp: claim_join_def claim_rank_def)
  have split: "reconcile_split_origin ?sha ?J ?S (st_markers st) src dst pkg (Some PrivateO) ?claim w =
      (Inr \<lparr>so_a_origin = Some PrivateO, so_b_origin = Some PrivateO, scanned_a = False, scanned_b = False\<rparr>, w2)"
    using raise not_mirror join by (simp add: reconcile_split_origin_def andThen_def ret_def raise_to_private_def)
  have same: "buckets w2 src = buckets w src" "script w2 = []" "store_wf (buckets w2 dst)"
    using w2(1) assms(4) by (simp_all add: touches_def)
  have free: "no_record (buckets w2 dst) ?a"
    by (rule touches_no_record [OF w2(1) _ dst(5)]) (use origin_key_artifact [OF f] in \<open>metis singletonD\<close>)
  let ?rec = "\<lambda>i. record_of ?S (buckets w2 i) pkg f (claim_of (view ?J (buckets w2) i pkg))"
  have held: "holds_record ?sha ?S (buckets w2 src) ?a sc body" and v: "view ?J (buckets w2) src pkg = Claimed Private"
    using src(2,3) same(1) by (simp_all add: view_def)
  obtain u where live: "classify_record (?rec src) = Live (sha256 sc) PrivateO u"
    using holds_record_live(1) [OF held src(4)] by blast
  have reads: "read_record ?J ?S src pkg f w2 = (Inr (?rec src), w2)" "read_record ?J ?S dst pkg f w2 = (Inr (?rec dst), w2)"
    using read_record_quiet [OF same(2) _ f(2) _ holds_record_live(5) [OF held src(4)]] src(1) same(1) v
      read_record_quiet [OF same(2,3) f(2), of ?J pkg ?S] w2(2) no_record_at(2) [OF free] by (simp_all add: readable_sidecar_def)
  have absent: "\<not> is_late_mirror (?rec src) (Some PrivateO)" "\<not> is_late_mirror (?rec dst) (Some PrivateO)"
    using live no_record_at [OF free]
    by (simp_all add: is_late_mirror_def classify_record_def Let_def record_of_fields contains_key_def split: record_state.splits)
  obtain w' where w': "execute (st_exec st) ?sha ?J ?S (st_markers st) src dst pkg f (?rec src) (?rec dst) (CopyV SideA) source w2 = (Inr Converged, w')"
      "touches dst (copy_keys pkg ?a \<union> dirty_keys) w2 w'" "copied ?S (buckets w' dst) ?a sc body" "view ?J (buckets w') dst pkg = Claimed Private"
    using execute_copy_quiet [OF ok(1) same(2,3) w2(3) _ assms(4) env f held src(4-6) free from_source] w2(2) by fastforce
  have run: "replicate_in st src dst pkg f source w = (Inr Converged, w')"
    using claims split reads absent w'(1) env(2) artifact_not_marker [OF f(1)] absent_destination_copies [OF live free]
    by (simp add: replicate_record_def andThen_def require_replication_unfenced_def ret_def)
  have "sha256_hex ?sha body = sha256 sc"
    using held by (simp add: holds_record_def)
  then have "holds_record ?sha ?S (buckets w' dst) ?a sc body"
    using copied_holds [OF w'(3) ok(2)] by simp
  moreover have "buckets w' b = buckets w b" if "b \<noteq> dst" for b
    using w'(2) w2(1) that by (simp add: touches_def)
  ultimately show ?thesis
    using run w'(2,4) by (auto simp: touches_def copy_done_def)
qed

section \<open>Every destination\<close>

lemma bucket_of_inject:
  "distinct (map bh_bucket (st_handles st)) \<Longrightarrow> i < length (st_handles st) \<Longrightarrow> j < length (st_handles st) \<Longrightarrow>
    bucket_of st i = bucket_of st j \<longleftrightarrow> i = j"
  unfolding bucket_of_def using nth_eq_iff_index_eq [of "map bh_bucket (st_handles st)" i j] by simp

lemma note_gaps_converged: "\<forall>(j, ok)\<in>set outs. ok \<Longrightarrow> note_gaps st src pkg f outs u w = (Inr u, w)"
  by (induction outs) (auto simp: ret_def)

lemma fanout_jobs_copy:
  assumes ok: "json_ok (st_claims st)" "dec_sidecar (st_sidecars st) (enc_sidecar (st_sidecars st) sc) = Some sc"
    and env: "\<forall>b. \<not> copy_via (st_exec st) (bucket_of st i) b" "\<forall>u. \<not> fenced (st_exec st) u" "\<forall>j. lim j = None"
    and f: "is_artifact f" "CHR ''/'' \<notin> set f"
    and dist: "distinct (map bh_bucket (st_handles st))" and "i < length (st_handles st)"
    and "script w = []" and "copy_source st w (bucket_of st i) pkg f sc body"
    and "distinct js" and "\<forall>j\<in>set js. j < length (st_handles st) \<and> j \<noteq> i \<and> copy_target st w (bucket_of st j) pkg f"
    and from_source: "source_ok source body"
  shows "\<exists>w'. fanout_jobs st lim (bucket_of st i) pkg f source (map (\<lambda>j. (j, True)) js) w = (Inr (map (\<lambda>j. (j, True)) js), w')
    \<and> (\<forall>b. b \<notin> bucket_of st ` set js \<longrightarrow> buckets w' b = buckets w b)
    \<and> (\<forall>j\<in>set js. copy_done st w' (bucket_of st j) pkg f sc body)"
  using assms(10-13)
proof (induction js arbitrary: w)
  case (Cons j js)
  let ?src = "bucket_of st i" and ?dst = "bucket_of st j"
  have ne: "?src \<noteq> ?dst"
    using bucket_of_inject [OF dist assms(9)] Cons.prems(4) by auto
  have apart: "bucket_of st k \<noteq> ?dst" if "k \<in> set js" for k
    using bucket_of_inject [OF dist] Cons.prems(3,4) that by auto
  obtain w1 where 1: "replicate_in st ?src ?dst pkg f source w = (Inr Converged, w1)" "script w1 = []"
      "\<forall>b. b \<noteq> ?dst \<longrightarrow> buckets w1 b = buckets w b" "copy_done st w1 ?dst pkg f sc body"
    using replicate_record_copies [OF ok Cons.prems(1) ne _ env(2) f Cons.prems(2) _ from_source] env(1) Cons.prems(4) by auto
  have job: "fanout_job st (lim j) ?src ?dst pkg f source True w = (Inr True, w1)"
    using 1(1) env(3) by (simp add: fanout_job_def onResult_def ret_def)
  have src: "copy_source st w1 ?src pkg f sc body"
    using Cons.prems(2) 1(3) ne by (simp add: copy_source_def view_def)
  have rest: "\<forall>k\<in>set js. k < length (st_handles st) \<and> k \<noteq> i \<and> copy_target st w1 (bucket_of st k) pkg f"
    using Cons.prems(4) 1(3) apart by (simp add: copy_target_def view_def)
  obtain w' where w': "fanout_jobs st lim ?src pkg f source (map (\<lambda>j. (j, True)) js) w1 = (Inr (map (\<lambda>j. (j, True)) js), w')"
      "\<forall>b. b \<notin> bucket_of st ` set js \<longrightarrow> buckets w' b = buckets w1 b" "\<forall>j\<in>set js. copy_done st w' (bucket_of st j) pkg f sc body"
    using Cons.IH [OF 1(2) src _ rest] Cons.prems(3) by auto
  have "?dst \<notin> bucket_of st ` set js"
    using apart by force
  then have "copy_done st w' ?dst pkg f sc body"
    using 1(4) w'(2) by (simp add: copy_done_def view_def)
  then show ?case
    using job w' 1(3) by (auto simp: andThen_def ret_def)
qed (simp add: ret_def)

lemma fanout_sync_copies:
  assumes "json_ok (st_claims st)" and "dec_sidecar (st_sidecars st) (enc_sidecar (st_sidecars st) sc) = Some sc"
    and "\<forall>b. \<not> copy_via (st_exec st) (bucket_of st i) b" and "\<forall>u. \<not> fenced (st_exec st) u" and "\<forall>j. lim j = None"
    and "is_artifact f" and "CHR ''/'' \<notin> set f"
    and "distinct (map bh_bucket (st_handles st))" and "i < length (st_handles st)"
    and "script w = []" and "copy_source st w (bucket_of st i) pkg f sc body"
    and "\<forall>j<length (st_handles st). replication_eligible st w j \<and> (j \<noteq> i \<longrightarrow> copy_target st w (bucket_of st j) pkg f)"
    and "spool = None \<or> spool = Some (Some body)"
  shows "\<exists>w'. fanout_sync st lim i pkg f spool w = (Inr (), w') \<and> buckets w' (bucket_of st i) = buckets w (bucket_of st i)
    \<and> (\<forall>j<length (st_handles st). copy_done st w' (bucket_of st j) pkg f sc body)"
proof -
  let ?js = "filter (\<lambda>j. j \<noteq> i) [0..<length (st_handles st)]" and ?src = "bucket_of st i"
  let ?source = "case spool of None \<Rightarrow> Bucket | Some s \<Rightarrow> Spool s"
  have source: "source_ok ?source body"
    using assms(13) by auto
  have plan: "fanout_plan st i w = map (\<lambda>j. (j, True)) ?js"
    using assms(4,9,12) by (simp add: fanout_plan_def Let_def)
  have targets: "\<forall>j\<in>set ?js. j < length (st_handles st) \<and> j \<noteq> i \<and> copy_target st w (bucket_of st j) pkg f"
    using assms(12) by auto
  obtain w' where w': "fanout_jobs st lim ?src pkg f ?source (map (\<lambda>j. (j, True)) ?js) w = (Inr (map (\<lambda>j. (j, True)) ?js), w')"
      "\<forall>b. b \<notin> bucket_of st ` set ?js \<longrightarrow> buckets w' b = buckets w b" "\<forall>j\<in>set ?js. copy_done st w' (bucket_of st j) pkg f sc body"
    using fanout_jobs_copy [OF assms(1-11) _ targets source] by auto
  have "?src \<notin> bucket_of st ` set ?js"
    using bucket_of_inject [OF assms(8,9)] by auto
  then have src: "buckets w' ?src = buckets w ?src"
    using w'(2) by simp
  show ?thesis
  proof (cases "is_multi (st_buckets st)")
    case True
    have "fanout_sync st lim i pkg f spool w = (Inr (), w')"
      using True w'(1) plan by (simp add: fanout_sync_def andThen_def note_gaps_converged ret_def)
    moreover have "copy_done st w' ?src pkg f sc body"
      using assms(11) src by (simp add: copy_source_def copy_done_def view_def)
    moreover have "copy_done st w' (bucket_of st j) pkg f sc body" if "j < length (st_handles st)" "j \<noteq> i" for j
      using w'(3) that by simp
    ultimately show ?thesis
      using src by metis
  next
    case False
    then have "j = i" if "j < length (st_handles st)" for j
      using that assms(9) by (simp add: is_multi_def st_handles_def)
    then show ?thesis
      using assms(11) False by (auto simp: fanout_sync_def ret_def copy_source_def copy_done_def)
  qed
qed

text \<open>
  C7: on a healthy fleet an acknowledged record is everywhere. When nothing interferes, every
  configured bucket is eligible, the source claims the package private and holds the body its
  sidecar names, and no other bucket has a trace of the filename or a mirror claim, the fan-out
  succeeds; every configured bucket then claims the package private and holds the same bytes
  under the same sidecar, and the source bucket is unchanged: no note was written.
\<close>

theorem fanout_reaches_every_bucket:
  assumes "json_ok (st_claims st)" and "dec_sidecar (st_sidecars st) (enc_sidecar (st_sidecars st) sc) = Some sc"
    and "\<forall>b. \<not> copy_via (st_exec st) (bucket_of st i) b" and "\<forall>u. \<not> fenced (st_exec st) u" and "\<forall>j. lim j = None"
    and "is_artifact f" and "CHR ''/'' \<notin> set f"
    and "distinct (map bh_bucket (st_handles st))" and "i < length (st_handles st)"
    and "script w = []" and "copy_source st w (bucket_of st i) pkg f sc body"
    and "\<forall>j<length (st_handles st). replication_eligible st w j \<and> (j \<noteq> i \<longrightarrow> copy_target st w (bucket_of st j) pkg f)"
  shows "\<exists>w'. fanout_sync st lim i pkg f None w = (Inr (), w') \<and> buckets w' (bucket_of st i) = buckets w (bucket_of st i)
    \<and> (\<forall>j<length (st_handles st). copy_done st w' (bucket_of st j) pkg f sc body)"
  using fanout_sync_copies [OF assms, of None] by simp

lemma fanout_accounts:
  assumes "copies_only (st_exec st)" and "is_multi (st_buckets st)" and "notes_stay G (bucket_of st i) pkg f" and "obeys G w"
    and "fanout_sync st lim i pkg f spool w = (Inr (), w')"
  shows "obeys G w' \<and> (\<exists>outs w1. fanout_jobs st lim (bucket_of st i) pkg f (case spool of None \<Rightarrow> Bucket | Some s \<Rightarrow> Spool s) (fanout_plan st i w) w = (Inr outs, w1)
    \<and> map fst outs = filter (\<lambda>j. j \<noteq> i) [0..<length (st_handles st)]
    \<and> (\<forall>(j, converged)\<in>set outs. converged \<or> noted (bucket_of st i) (bucket_tag (bh_name (st_handles st ! j))) pkg f (buckets w')))"
proof -
  let ?src = "bucket_of st i" and ?source = "case spool of None \<Rightarrow> Bucket | Some s \<Rightarrow> Spool s"
  let ?plan = "fanout_plan st i w"
  obtain outs w1 where jobs: "fanout_jobs st lim ?src pkg f ?source ?plan w = (Inr outs, w1)" "map fst outs = map fst ?plan"
    using fanout_jobs_returns by blast
  have refl: "G fl fl" for fl
    using assms(3) by (simp add: notes_stay_def)
  have "obeys G w1"
    using tripleD [OF sparesD [OF spares_fanout_jobs [OF assms(1)] refl survives_True stable_const] assms(4) _ jobs(1)] by simp
  moreover obtain u2 w2 where gaps: "note_gaps st ?src pkg f outs 0 w1 = (u2, w2)"
    by fastforce
  ultimately have "obeys G w2 \<and> both (\<lambda>_. True) (\<lambda>u' fl. True \<and> 0 \<le> u' \<and> (u' = 0 \<longrightarrow> (\<forall>(j, ok)\<in>set outs. ok \<or> noted ?src (bucket_tag (bh_name (st_handles st ! j))) pkg f fl))) u2 (buckets w2)"
    using tripleD [OF triple_note_gaps [OF assms(3) stable_const survives_True]] by blast
  moreover have "u2 = Inr 0" "w' = w2"
    using assms(2,5) jobs(1) gaps
    by (auto simp: fanout_sync_def andThen_def ret_def fail_def Let_def split: sum.splits if_splits)
  ultimately show ?thesis
    using jobs by (auto simp: fanout_plan_def Let_def comp_def)
qed


text \<open>Two buckets, the first holding a published file.\<close>

definition publishing_node :: app_state where
  "publishing_node =
     \<lparr>st_exec = streaming, st_sha = (\<lambda>x. x), st_claims = plain_codec, st_sidecars = shipped_codec, st_markers = plain_markers,
      st_status = plain_status_codec, st_buckets = pair_set, st_health = (\<lambda>_. None)\<rparr>"

definition published_bucket :: inner where
  "published_bucket = snd (store (\<lambda>x. x) (origin_key ''six'') (to_json plain_codec (written_body Private 5)) shipping_bucket)"

lemma published_source: "copy_source publishing_node (quiet (\<lambda>i. if i = 0 then published_bucket else inner_default 0)) 0 ''six'' ''six-2.whl'' shipped ''body''"
proof -
  let ?a = "artifact_key ''six'' ''six-2.whl''"
  have art: "is_artifact ''six-2.whl''" "CHR ''/'' \<notin> set ''six-2.whl''"
    by code_simp+
  have other: "?a @ x \<noteq> origin_key ''six''" if "x \<in> set ([] # marker_suffixes)" for x
    using origin_key_artifact [OF art that, of "''six''"] by metis
  have "object_at shipping_bucket k = (if k = sidecar_key ?a then Some \<lparr>obj_bytes = ''sc'', obj_etag = version_etag 1, last_modified = 0\<rparr>
      else if k = ?a then Some \<lparr>obj_bytes = ''body'', obj_etag = version_etag 0, last_modified = 0\<rparr> else None)" for k
    by (simp add: shipping_bucket_def Let_def object_at_store next_version_store) (simp add: inner_default_def store_def Let_def bt.get_empty)
  then have "object_at published_bucket (?a @ x) = (if x = SIDECAR_SUFFIX then Some \<lparr>obj_bytes = ''sc'', obj_etag = version_etag 1, last_modified = 0\<rparr>
      else if x = [] then Some \<lparr>obj_bytes = ''body'', obj_etag = version_etag 0, last_modified = 0\<rparr> else None)" if "x \<in> set ([] # marker_suffixes)" for x
    using other [OF that] by (simp add: published_bucket_def object_at_store key_defs)
  from this [of "[]"] this [of SIDECAR_SUFFIX] this [of TOMBSTONE_SUFFIX] this [of FROZEN_SUFFIX] this [of MIRROR_QUARANTINED_SUFFIX]
  have "holds_record (\<lambda>x. x) shipped_codec published_bucket ?a shipped ''body''"
    by (simp add: holds_record_def contains_key_def shipped_codec_def key_defs marker_suffixes_def)
      (simp add: shipped_def Decide.sample_sidecar_def suffix_defs)
  moreover have "store_wf published_bucket"
    by (simp add: published_bucket_def shipping_bucket_def Let_def store_wf_store store_wf_default)
  moreover have "view plain_codec (\<lambda>i. if i = 0 then published_bucket else inner_default 0) 0 ''six'' = Claimed Private"
    using decode_written [OF plain_codec_ok, of Private 5] by (simp add: view_def published_bucket_def object_at_store)
  ultimately show ?thesis
    by (simp add: copy_source_def publishing_node_def quiet_def) (simp add: shipped_def Decide.sample_sidecar_def STAGE_TO_DISK_ABOVE_def)
qed

theorem fanout_reaches_every_bucket_witness:
  "\<exists>w'. fanout_sync publishing_node (\<lambda>_. None) 0 ''six'' ''six-2.whl'' None (quiet (\<lambda>i. if i = 0 then published_bucket else inner_default 0)) = (Inr (), w')
     \<and> copy_done publishing_node w' 1 ''six'' ''six-2.whl'' shipped ''body''"
proof -
  let ?w = "quiet (\<lambda>i. if i = 0 then published_bucket else inner_default 0)"
  have art: "is_artifact ''six-2.whl''" "CHR ''/'' \<notin> set ''six-2.whl''"
    by code_simp+
  have node: "st_handles publishing_node = [\<lparr>bh_bucket = 0, bh_name = ''east'', supports_leases = True\<rparr>, \<lparr>bh_bucket = 1, bh_name = ''west'', supports_leases = True\<rparr>]"
    by (simp add: st_handles_def publishing_node_def pair_set_def bucket_set_new_def)
  have two: "bucket_of publishing_node 0 = 0" "bucket_of publishing_node 1 = 1"
    by (simp_all add: bucket_of_def node)
  have target: "copy_target publishing_node ?w 1 ''six'' ''six-2.whl''"
    by (simp add: copy_target_def quiet_def store_wf_default view_def no_record_def publishing_node_def bt.get_empty)
  have elig: "replication_eligible publishing_node ?w j" for j
    by (simp add: replication_eligible_def publishing_node_def)
  have "\<exists>w'. fanout_sync publishing_node (\<lambda>_. None) 0 ''six'' ''six-2.whl'' None ?w = (Inr (), w')
      \<and> buckets w' (bucket_of publishing_node 0) = buckets ?w (bucket_of publishing_node 0)
      \<and> (\<forall>j<length (st_handles publishing_node). copy_done publishing_node w' (bucket_of publishing_node j) ''six'' ''six-2.whl'' shipped ''body'')"
  proof (rule fanout_reaches_every_bucket [OF _ _ _ _ _ art])
    show "dec_sidecar (st_sidecars publishing_node) (enc_sidecar (st_sidecars publishing_node) shipped) = Some shipped"
      by (simp add: publishing_node_def shipped_codec_def)
    show "copy_source publishing_node ?w (bucket_of publishing_node 0) ''six'' ''six-2.whl'' shipped ''body''"
      using published_source two by simp
    show "\<forall>j<length (st_handles publishing_node). replication_eligible publishing_node ?w j
        \<and> (j \<noteq> 0 \<longrightarrow> copy_target publishing_node ?w (bucket_of publishing_node j) ''six'' ''six-2.whl'')"
      using target two elig by (auto simp: node less_Suc_eq)
    show "distinct (map bh_bucket (st_handles publishing_node))" "0 < length (st_handles publishing_node)"
      by (simp_all add: node)
  qed (simp_all add: publishing_node_def plain_codec_ok streaming_def quiet_def)
  then show ?thesis
    using two by (auto simp: node)
qed


end
