(* ===== verification/Sweep.thy ===== *)
theory Sweep
  imports Fanout
begin

text \<open>
  Delivering notes. A sweep may fail anywhere, lose answers, be cut off or run beside other sweeps;
  what it must never do is take a note down before the copy it stands for converged and the
  destination's rebuild signal is durable.
\<close>

section \<open>Addresses\<close>

text \<open>
  C12: a note finds its bucket. In a valid configuration a note written for a bucket parses back to
  the package and filename it was written for, and its tag resolves to that bucket's position in the
  list, whatever the order of the list; a tag no configured bucket reduces to resolves to nothing. A
  backfill sentinel is never taken for a note.
\<close>

theorem note_finds_its_bucket:
  assumes "validate_topology_config bs = Inr ()" and "i < length (handles bs)"
    and "CHR ''/'' \<notin> set pkg" and "CHR ''!'' \<notin> set n" and "CHR ''/'' \<notin> set n"
  shows "parse_repl_marker (repl_key (bucket_tag (bh_name (handles bs ! i))) pkg f n) =
      Some \<lparr>rm_dest = bucket_tag (bh_name (handles bs ! i)), rm_pkg = pkg, rm_filename = f,
            rm_key = repl_key (bucket_tag (bh_name (handles bs ! i))) pkg f n\<rparr>
    \<and> dest_index_for_tag (handles bs) (bucket_tag (bh_name (handles bs ! i))) = Some i
    \<and> (\<forall>tag. dest_index_for_tag (handles bs) tag = None \<longleftrightarrow> tag \<notin> (\<lambda>h. bucket_tag (bh_name h)) ` set (handles bs))
    \<and> parse_repl_marker (backfill_sentinel_prefix (bucket_tag (bh_name (handles bs ! i))) @ n) = None"
proof (intro conjI allI)
  let ?tag = "bucket_tag (bh_name (handles bs ! i))"
  show "parse_repl_marker (repl_key ?tag pkg f n) = Some \<lparr>rm_dest = ?tag, rm_pkg = pkg, rm_filename = f, rm_key = repl_key ?tag pkg f n\<rparr>"
    by (rule parse_repl_key [OF bucket_tag_no_slash assms(3,4)])
  show "dest_index_for_tag (handles bs) ?tag = Some i"
    using tag_position_distinct [OF assms(2) valid_tags_distinct [OF assms(1)], of 0] by (simp add: dest_index_for_tag_def)
  have "tag_position j hs tag = None \<longleftrightarrow> tag \<notin> (\<lambda>h. bucket_tag (bh_name h)) ` set hs" for j hs tag
    by (induction hs arbitrary: j) auto
  then show "dest_index_for_tag (handles bs) tag = None \<longleftrightarrow> tag \<notin> (\<lambda>h. bucket_tag (bh_name h)) ` set (handles bs)" for tag
    by (simp add: dest_index_for_tag_def)
  have "strip_prefix (backfill_sentinel_prefix ?tag @ n) REPL_PREFIX = Some (?tag @ CHR ''/'' # BACKFILL_SENTINEL @ n)"
    unfolding backfill_sentinel_prefix_def by (simp add: strip_prefix_append)
  moreover have "split_once (BACKFILL_SENTINEL @ n) (CHR ''/'') = None"
    unfolding split_once_None_iff using assms(5) by (simp add: BACKFILL_SENTINEL_def)
  ultimately show "parse_repl_marker (backfill_sentinel_prefix ?tag @ n) = None"
    unfolding parse_repl_marker_def by (simp add: split_once_append [OF bucket_tag_no_slash])
qed

theorem note_finds_its_bucket_witness:
  "parse_repl_marker (repl_key (bucket_tag ''west'') ''six'' ''six-2.whl'' ''7'') =
     Some \<lparr>rm_dest = bucket_tag ''west'', rm_pkg = ''six'', rm_filename = ''six-2.whl'', rm_key = repl_key (bucket_tag ''west'') ''six'' ''six-2.whl'' ''7''\<rparr>
   \<and> dest_index_for_tag (handles pair_set) (bucket_tag ''west'') = Some 1"
proof -
  have "handles pair_set ! 1 = \<lparr>bh_bucket = 1, bh_name = ''west'', supports_leases = True\<rparr>" "1 < length (handles pair_set)"
    by (simp_all add: pair_set_def bucket_set_new_def)
  then show ?thesis
    using note_finds_its_bucket [OF pair_set_ok(2), of 1 "''six''" "''7''" "''six-2.whl''"] by simp
qed

section \<open>One note\<close>

definition unnoted :: "bucket_id \<Rightarrow> string \<Rightarrow> bool" where
  "unnoted b k = (outside b k \<and> \<not> starts_with k REPL_PREFIX)"

definition signalled :: "bucket_id \<Rightarrow> string \<Rightarrow> fleet \<Rightarrow> bool" where
  "signalled dst pkg fl = (\<exists>n. contains_key (fl dst) (marker_key pkg n COMMIT_SUFFIX))"

lemma marker_key_unnoted: "unnoted b (marker_key pkg n x)"
  by (simp add: unnoted_def outside_def marker_key_def DIRTY_PREFIX_def REPL_PREFIX_def PACKAGES_PREFIX_def)

lemma survives_signalled: "survives unnoted (signalled dst pkg)"
  unfolding survives_def signalled_def using marker_key_unnoted by fastforce

text \<open>Facts an operation keeps.\<close>

abbreviation holds_through :: "(fleet \<Rightarrow> fleet \<Rightarrow> bool) \<Rightarrow> 'a act \<Rightarrow> (fleet \<Rightarrow> bool) \<Rightarrow> bool" where
  "holds_through G n P \<equiv> triple G P n (\<lambda>_. P)"

lemma holds_conj: "holds_through G n P \<Longrightarrow> holds_through G n Q \<Longrightarrow> holds_through G n (\<lambda>fl. P fl \<and> Q fl)"
  unfolding triple_def by blast

lemma holds_disj: "holds_through G n P \<Longrightarrow> holds_through G n Q \<Longrightarrow> holds_through G n (\<lambda>fl. P fl \<or> Q fl)"
  unfolding triple_def by blast

text \<open>A fact about the packages alone: notes and markers may come and go.\<close>

definition about_packages :: "(fleet \<Rightarrow> bool) \<Rightarrow> bool" where
  "about_packages D = (\<forall>fl b s'. D fl \<longrightarrow> (\<forall>k. \<not> outside b k \<longrightarrow> object_at s' k = object_at (fl b) k) \<longrightarrow> D (fl(b := s')))"

lemma about_packages_delete: "about_packages D \<Longrightarrow> outside b k \<Longrightarrow> D fl \<Longrightarrow> D (fl(b := fold (delete_key sha) [k] (fl b)))"
  unfolding about_packages_def by (elim allE [where x = fl] allE [where x = b] allE [where x = "fold (delete_key sha) [k] (fl b)"] impE)
    (auto simp: object_at_delete_keys simp del: fold.simps)

lemma about_packages_store: "about_packages D \<Longrightarrow> outside b k \<Longrightarrow> D fl \<Longrightarrow> D (fl(b := snd (store sha k bs (fl b))))"
  unfolding about_packages_def using object_at_store [of sha k bs "fl b"] by metis

text \<open>
  What a sweep relies on for the note \<open>m\<close> on bucket \<open>b\<close>, addressed to bucket \<open>j\<close>: a converged copy
  establishes \<open>D\<close>, a fact about packages that other copies keep; and while nobody delivers the note
  elsewhere, peers leave it, the rebuild signal and \<open>D\<close> alone.
\<close>

definition delivery_ok :: "app_state \<Rightarrow> (fleet \<Rightarrow> fleet \<Rightarrow> bool) \<Rightarrow> bucket_id \<Rightarrow> nat \<Rightarrow> repl_marker \<Rightarrow> (fleet \<Rightarrow> bool) \<Rightarrow> bool" where
  "delivery_ok st G b j m D =
     (copies_only (st_exec st) \<and> (\<forall>fl. G fl fl)
      \<and> parse_repl_marker (rm_key m) = Some m \<and> dest_index_for_tag (st_handles st) (rm_dest m) = Some j
      \<and> stable G (\<lambda>fl. contains_key (fl b) (rm_key m)) \<and> stable G (signalled (bucket_of st j) (rm_pkg m))
      \<and> stable G D \<and> about_packages D \<and> (\<forall>src dst pkg f. holds_through G (replicate_in st src dst pkg f Bucket) D)
      \<and> triple G (\<lambda>_. True) (replicate_in st b (bucket_of st j) (rm_pkg m) (rm_filename m) Bucket)
          (both (\<lambda>_. True) (\<lambda>c fl. c = Converged \<longrightarrow> D fl)))"

text \<open>
  What then holds of the note throughout: it stands, or the copy it stands for did what a converged
  copy does and the destination was told to rebuild.
\<close>

definition due :: "app_state \<Rightarrow> bucket_id \<Rightarrow> nat \<Rightarrow> repl_marker \<Rightarrow> (fleet \<Rightarrow> bool) \<Rightarrow> fleet \<Rightarrow> bool" where
  "due st b j m D fl = (contains_key (fl b) (rm_key m) \<or> D fl \<and> signalled (bucket_of st j) (rm_pkg m) fl)"

lemma parsed_key:
  assumes "parse_repl_marker key = Some m"
  shows "rm_key m = key" "starts_with key REPL_PREFIX"
  using assms by (auto simp: parse_repl_marker_def strip_prefix_def Option.bind_eq_Some_conv split: if_splits)

lemma repl_outside: "starts_with key REPL_PREFIX \<Longrightarrow> outside b key"
  by (auto simp: outside_def starts_with_iff REPL_PREFIX_def PACKAGES_PREFIX_def)

lemma stable_due: "delivery_ok st G b j m D \<Longrightarrow> stable G (due st b j m D)"
  unfolding delivery_ok_def stable_def due_def by blast

lemma due_parts:
  assumes "holds_through G n (\<lambda>fl. contains_key (fl b) (rm_key m))" and "holds_through G n D"
    and "holds_through G n (signalled (bucket_of st j) (rm_pkg m))"
  shows "holds_through G n (due st b j m D)"
proof -
  have "due st b j m D = (\<lambda>fl. contains_key (fl b) (rm_key m) \<or> D fl \<and> signalled (bucket_of st j) (rm_pkg m) fl)"
    by (simp add: due_def fun_eq_iff)
  then show ?thesis
    using holds_disj [OF assms(1) holds_conj [OF assms(2,3)]] by simp
qed

lemma due_replicate:
  assumes "delivery_ok st G b j m D"
  shows "holds_through G (replicate_in st src dst pkg f Bucket) (due st b j m D)"
proof -
  have ok: "copies_only (st_exec st)" "\<And>fl. G fl fl" "outside b (rm_key m)" "stable G (\<lambda>fl. contains_key (fl b) (rm_key m))"
      "stable G (signalled (bucket_of st j) (rm_pkg m))" "holds_through G (replicate_in st src dst pkg f Bucket) D"
    using assms parsed_key(2) repl_outside by (auto simp: delivery_ok_def)
  have outer: "survives outside (signalled (bucket_of st j) (rm_pkg m))"
    using survives_signalled by (rule survives_mono) (simp add: unnoted_def)
  show ?thesis
    using sparesD [OF spares_replicate_record [OF ok(1)] ok(2) survives_contains [of outside, OF ok(3)] ok(4)] ok(6)
      sparesD [OF spares_replicate_record [OF ok(1)] ok(2) outer ok(5)]
    by (rule due_parts)
qed

lemma due_read:
  assumes "delivery_ok st G b j m D"
  shows "holds_through G (list_page src pre aft n) (due st b j m D)"
  by (rule triple_list_page [OF stable_due [OF assms]]) simp_all

lemma due_mark_dirty:
  assumes "delivery_ok st G b j m D"
  shows "holds_through G (mark_dirty sha dst pkg) (due st b j m D)"
proof -
  have D: "about_packages D"
    using assms by (simp add: delivery_ok_def)
  have "due st b j m D (fl(dst := snd (store sha (marker_key pkg n COMMIT_SUFFIX) [] (fl dst))))" if "due st b j m D fl" for fl n
    using that about_packages_store [OF D, of dst "marker_key pkg n COMMIT_SUFFIX"] marker_key_unnoted
    by (auto simp: due_def contains_key_store signalled_def unnoted_def)
  then show ?thesis
    unfolding mark_dirty_def mark_commit_def put_marker_def
    by (intro triple_andThen [OF triple_marker_nonce] triple_put_bytes [OF stable_due [OF assms]])
qed

lemma due_drop_other:
  assumes "delivery_ok st G b j m D" and "starts_with key REPL_PREFIX" and "src \<noteq> b \<or> key \<noteq> rm_key m"
  shows "holds_through G (delete_keys sha src [key]) (due st b j m D)"
proof (rule triple_delete_keys_same [OF stable_due [OF assms(1)]])
  fix fl
  assume fl: "due st b j m D fl"
  let ?fl = "fl(src := fold (delete_key sha) [key] (fl src))"
  have D: "about_packages D"
    using assms(1) by (simp add: delivery_ok_def)
  have "signalled (bucket_of st j) (rm_pkg m) ?fl" if "signalled (bucket_of st j) (rm_pkg m) fl"
  proof -
    have "\<forall>k\<in>set [key]. \<not> unnoted src k"
      using assms(2) by (simp add: unnoted_def)
    then show ?thesis
      by (rule survives_delete [OF survives_signalled that])
  qed
  moreover have "contains_key (?fl b) (rm_key m)" if "contains_key (fl b) (rm_key m)"
    using that assms(3) by (auto simp: contains_key_delete_keys simp del: fold.simps)
  ultimately show "due st b j m D ?fl"
    using fl about_packages_delete [OF D repl_outside [OF assms(2)]] unfolding due_def by blast
qed

lemma due_deliver_other:
  assumes "delivery_ok st G b j m D" and "starts_with (rm_key m') REPL_PREFIX" and "src \<noteq> b \<or> rm_key m' \<noteq> rm_key m"
  shows "holds_through G (deliver_note st lim src dst m') (due st b j m D)"
proof -
  have refl: "\<forall>fl. G fl fl"
    using assms(1) by (simp add: delivery_ok_def)
  note steps = due_replicate [OF assms(1)] due_mark_dirty [OF assms(1)] due_drop_other [OF assms] triple_cut_off [OF due_replicate [OF assms(1)] refl]
  show ?thesis
    unfolding deliver_note_def Let_def
    by (auto intro!: triple_onResult [where Q' = "\<lambda>_. due st b j m D"] triple_andThen_same triple_ret steps split: option.splits convergence.splits)
qed

lemma triple_mark_dirty:
  assumes "stable G D" and "about_packages D"
  shows "triple G D (mark_dirty sha dst pkg) (both D (\<lambda>_ fl. D fl \<and> signalled dst pkg fl))"
  unfolding mark_dirty_def mark_commit_def put_marker_def
proof (rule triple_andThen [OF triple_marker_nonce])
  fix n
  have "signalled dst pkg (fl(dst := snd (store sha (marker_key pkg n COMMIT_SUFFIX) [] (fl dst))))" for fl
    by (auto simp: signalled_def contains_key_store)
  then show "triple G D (put_bytes sha dst (marker_key pkg n COMMIT_SUFFIX) []) (both D (\<lambda>_ fl. D fl \<and> signalled dst pkg fl))"
    using about_packages_store [OF assms(2), of dst "marker_key pkg n COMMIT_SUFFIX"] marker_key_unnoted
    by (intro triple_put_bytes [OF assms(1)]) (auto simp: unnoted_def)
qed simp

lemma due_deliver_mine:
  assumes "delivery_ok st G b j m D"
  shows "holds_through G (deliver_note st lim b (bucket_of st j) m) (due st b j m D)"
proof -
  let ?due = "due st b j m D" and ?dst = "bucket_of st j"
  let ?copy = "replicate_in st b ?dst (rm_pkg m) (rm_filename m) Bucket"
  have ok: "starts_with (rm_key m) REPL_PREFIX" "stable G D" "about_packages D" "stable G (signalled ?dst (rm_pkg m))" "\<forall>fl. G fl fl"
    using assms parsed_key(2) [of "rm_key m" m] by (simp_all add: delivery_ok_def)
  have copy: "triple G ?due ?copy (both ?due (\<lambda>c fl. ?due fl \<and> (c = Converged \<longrightarrow> D fl)))"
    unfolding triple_def
  proof (intro allI impI)
    fix w r w'
    assume w: "obeys G w" "?due (buckets w)" "?copy w = (r, w')"
    have "obeys G w' \<and> ?due (buckets w')"
      using tripleD [OF due_replicate [OF assms] w] .
    moreover have "both (\<lambda>_. True) (\<lambda>c fl. c = Converged \<longrightarrow> D fl) r (buckets w')"
      using assms w(1,3) unfolding delivery_ok_def triple_def by blast
    ultimately show "obeys G w' \<and> both ?due (\<lambda>c fl. ?due fl \<and> (c = Converged \<longrightarrow> D fl)) r (buckets w')"
      by (cases r) auto
  qed
  have signal: "triple G (\<lambda>fl. ?due fl \<and> D fl) (mark_dirty (st_sha st) ?dst (rm_pkg m)) (both ?due (\<lambda>_ fl. D fl \<and> signalled ?dst (rm_pkg m) fl))"
    unfolding triple_def
  proof (intro allI impI)
    fix w r w'
    assume w: "obeys G w" "?due (buckets w) \<and> D (buckets w)" "mark_dirty (st_sha st) ?dst (rm_pkg m) w = (r, w')"
    then show "obeys G w' \<and> both ?due (\<lambda>_ fl. D fl \<and> signalled ?dst (rm_pkg m) fl) r (buckets w')"
      using tripleD [OF due_mark_dirty [OF assms] w(1) _ w(3)] tripleD [OF triple_mark_dirty [OF ok(2,3)] w(1) _ w(3)] by (cases r) auto
  qed
  have drop: "triple G (\<lambda>fl. D fl \<and> signalled ?dst (rm_pkg m) fl) (delete_keys (st_sha st) b [rm_key m]) (\<lambda>_. ?due)"
  proof (rule triple_delete_keys_same [OF stable_conj [OF ok(2,4)]])
    fix fl
    assume fl: "D fl \<and> signalled ?dst (rm_pkg m) fl"
    have "\<forall>k\<in>set [rm_key m]. \<not> unnoted b k"
      using ok(1) by (simp add: unnoted_def)
    then show "?due (fl(b := fold (delete_key (st_sha st)) [rm_key m] (fl b)))"
      unfolding due_def using fl survives_delete [OF survives_signalled, of ?dst "rm_pkg m" fl "[rm_key m]" b "st_sha st"]
        about_packages_delete [OF ok(3) repl_outside [OF ok(1)]] by blast
  qed (simp add: due_def)
  show ?thesis
  proof (cases lim)
    case (Some n)
    then show ?thesis
      unfolding deliver_note_def Let_def
      by (auto intro!: triple_andThen_same [OF triple_cut_off [OF due_replicate [OF assms] ok(5)]] triple_ret)
  next
    case None
    have conv: "triple G (\<lambda>fl. ?due fl \<and> D fl)
        (onResult (mark_dirty (st_sha st) ?dst (rm_pkg m)) (\<lambda>e. ret (classify_note_failure e)) (\<lambda>_.
         onResult (delete_keys (st_sha st) b [rm_key m]) (\<lambda>e. ret (classify_note_failure e)) (\<lambda>_. ret Consumed))) (\<lambda>_. ?due)"
      by (rule triple_onResult [OF signal]) (auto intro!: triple_ret triple_onResult [OF triple_pre [OF drop]])
    have deferred: "triple G ?due (onResult (mark_dirty (st_sha st) ?dst (rm_pkg m)) (\<lambda>e. ret (classify_note_failure e)) (\<lambda>_. ret Pending)) (\<lambda>_. ?due)"
      by (rule triple_onResult [OF due_mark_dirty [OF assms]]) (auto intro!: triple_ret)
    show ?thesis
      unfolding deliver_note_def Let_def None option.case
    proof (rule triple_onResult [OF copy])
      fix c
      show "triple G (both ?due (\<lambda>c fl. ?due fl \<and> (c = Converged \<longrightarrow> D fl)) (Inr c))
          (case c of Converged \<Rightarrow> onResult (mark_dirty (st_sha st) ?dst (rm_pkg m)) (\<lambda>e. ret (classify_note_failure e)) (\<lambda>_.
               onResult (delete_keys (st_sha st) b [rm_key m]) (\<lambda>e. ret (classify_note_failure e)) (\<lambda>_. ret Consumed))
           | Deferred \<Rightarrow> onResult (mark_dirty (st_sha st) ?dst (rm_pkg m)) (\<lambda>e. ret (classify_note_failure e)) (\<lambda>_. ret Pending)) (\<lambda>_. ?due)"
        by (cases c) (auto intro: triple_pre [OF conv] triple_pre [OF deferred])
    qed (auto intro: triple_ret)
  qed
qed

section \<open>A whole sweep\<close>

text \<open>Markers as a page yields them: each parsed from its key and filed under the bucket its tag names.\<close>

definition filed :: "app_state \<Rightarrow> nat \<Rightarrow> repl_marker \<Rightarrow> bool" where
  "filed st i m = (parse_repl_marker (rm_key m) = Some m \<and> dest_index_for_tag (st_handles st) (rm_dest m) = Some i)"

lemma triple_deliver_note:
  assumes "delivery_ok st G b j m D" and "filed st i m'"
  shows "triple G (due st b j m D) (deliver_note st lim src (bucket_of st i) m') (\<lambda>_. due st b j m D)"
proof (cases "src = b \<and> rm_key m' = rm_key m")
  case True
  then have "m' = m" "i = j"
    using assms by (auto simp: delivery_ok_def filed_def)
  then show ?thesis
    using due_deliver_mine [OF assms(1)] True by simp
next
  case False
  show ?thesis
    by (rule due_deliver_other [OF assms(1)]) (use assms(2) False parsed_key(2) in \<open>auto simp: filed_def\<close>)
qed

lemma triple_deliver_notes:
  assumes "delivery_ok st G b j m D" and "\<forall>m'\<in>set ms. filed st i m'"
  shows "triple G (due st b j m D) (deliver_notes st lim src (bucket_of st i) ms) (\<lambda>_. due st b j m D)"
  using assms(2)
proof (induction ms)
  case (Cons m' ms)
  then show ?case
    using triple_deliver_note [OF assms(1), of i m'] by (auto intro!: triple_andThen_same triple_ret)
qed (auto intro: triple_ret)

lemma triple_drain_destinations:
  assumes "delivery_ok st G b j m D" and "\<forall>(i, ms)\<in>set groups. \<forall>m'\<in>set ms. filed st i m'"
  shows "triple G (due st b j m D) (drain_destinations st lim src groups) (\<lambda>_. due st b j m D)"
  using assms(2)
proof (induction groups)
  case (Cons e groups)
  obtain i ms where e: "e = (i, ms)"
    by (cases e)
  have filed: "\<forall>m'\<in>set ms. filed st i m'"
    using Cons.prems by (simp add: e)
  have go: "triple G (due st b j m D) (andThen (deliver_notes st lim src (bucket_of st i) ms) (\<lambda>outs. ret (backlog_of outs))) (\<lambda>_. due st b j m D)"
    by (rule triple_andThen_same [OF triple_deliver_notes [OF assms(1) filed] triple_ret])
  have skip: "triple G (due st b j m D) (ret \<lparr>bl_pending = of_nat (length ms), bl_failing = 0\<rparr>) (\<lambda>_. due st b j m D)"
    by (rule triple_ret)
  have one: "triple G (due st b j m D) (drain_destination st lim src i ms) (\<lambda>_. due st b j m D)"
    unfolding triple_def
  proof (intro allI impI)
    fix w r w'
    assume w: "obeys G w" "due st b j m D (buckets w)" "drain_destination st lim src i ms w = (r, w')"
    show "obeys G w' \<and> due st b j m D (buckets w')"
      using tripleD [OF go w(1,2)] tripleD [OF skip w(1,2)] w(3) by (auto simp: drain_destination_def split: if_splits)
  qed
  show ?case
    unfolding e drain_destinations.simps
    by (rule triple_andThen_same [OF one triple_andThen_same]) (use Cons in \<open>auto intro: triple_ret simp: e\<close>)
qed (auto intro: triple_ret)

lemma triple_sort_page:
  assumes "delivery_ok st G b j m D" and "\<forall>(i, m')\<in>set acc. filed st i m'"
  shows "triple G (due st b j m D) (sort_page st src keys acc) (both (due st b j m D) (\<lambda>ms fl. due st b j m D fl \<and> (\<forall>(i, m')\<in>set ms. filed st i m')))"
  using assms(2)
proof (induction keys arbitrary: acc)
  case (Cons key keys)
  show ?case
  proof (cases "parse_repl_marker key")
    case (Some m')
    have key: "rm_key m' = key" "starts_with key REPL_PREFIX"
      using parsed_key [OF Some] by simp_all
    show ?thesis
    proof (cases "dest_index_for_tag (st_handles st) (rm_dest m')")
      case None
      have mine: "parse_repl_marker (rm_key m) = Some m" "dest_index_for_tag (st_handles st) (rm_dest m) = Some j"
        using assms(1) by (simp_all add: delivery_ok_def)
      have "rm_key m' \<noteq> rm_key m"
      proof
        assume "rm_key m' = rm_key m"
        then have "Some m' = Some m"
          using Some key(1) mine(1) by metis
        then show False
          using None mine(2) by simp
      qed
      then have drop: "triple G (due st b j m D) (delete_keys (st_sha st) src [rm_key m']) (\<lambda>_. due st b j m D)"
        using due_drop_other [OF assms(1)] key by simp
      show ?thesis
        unfolding sort_page.simps Some option.case None
        by (rule triple_onResult [OF drop]) (rule Cons.IH [OF Cons.prems])+
    next
      case (Some i)
      then have "filed st i m'"
        using \<open>parse_repl_marker key = Some m'\<close> key(1) by (simp add: filed_def)
      then show ?thesis
        using Cons.IH [of "acc @ [(i, m')]"] Cons.prems Some \<open>parse_repl_marker key = Some m'\<close> by auto
    qed
  qed (use Cons in auto)
qed (auto intro!: triple_ret)

lemma by_destination_filed: "\<forall>(i, m')\<in>set ms. filed st i m' \<Longrightarrow> \<forall>(i, ms')\<in>set (by_destination n ms). \<forall>m'\<in>set ms'. filed st i m'"
  unfolding by_destination_def by fastforce

lemma triple_sweep_loop:
  assumes "delivery_ok st G b j m D"
  shows "triple G (due st b j m D) (sweep_loop fuel st lim gone src aft remaining) (\<lambda>_. due st b j m D)"
proof (induction fuel arbitrary: aft remaining)
  case (Suc fuel)
  let ?due = "due st b j m D"
  have list: "triple G ?due (list_page src REPL_PREFIX aft REPL_SWEEP_PAGE) (\<lambda>_. ?due)"
    by (rule due_read [OF assms])
  have page: "triple G ?due (andThen (sort_page st src keys []) (\<lambda>ms.
      andThen (drain_destinations st lim src (by_destination (length (st_handles st)) ms)) k)) (\<lambda>_. ?due)"
    if "\<And>outs. triple G ?due (k outs) (\<lambda>_. ?due)" for keys and k :: "(nat \<times> backlog) list \<Rightarrow> (nat \<rightharpoonup> backlog) act"
  proof (rule triple_andThen [OF triple_sort_page [OF assms]])
    fix ms
    show "triple G (\<lambda>fl. ?due fl \<and> (\<forall>(i, m')\<in>set ms. filed st i m'))
        (andThen (drain_destinations st lim src (by_destination (length (st_handles st)) ms)) k) (\<lambda>_. ?due)"
    proof (cases "\<forall>(i, m')\<in>set ms. filed st i m'")
      case True
      show ?thesis
        by (rule triple_pre [OF triple_andThen_same [OF triple_drain_destinations [OF assms by_destination_filed [OF True]] that]]) simp
    next
      case False
      then show ?thesis
        unfolding triple_def by blast
    qed
  qed auto
  show ?case
    unfolding sweep_loop.simps
    by (intro triple_if triple_fail triple_andThen_same [OF list] triple_ret page) (auto simp: Let_def intro!: triple_if triple_ret Suc)
qed (auto intro: triple_fail)

lemma triple_sweep_sources:
  assumes "delivery_ok st G b j m D"
  shows "triple G (due st b j m D) (sweep_sources fuel st lim gone ixs failures) (\<lambda>_. due st b j m D)"
proof (induction ixs arbitrary: failures)
  case (Cons i ixs)
  have "triple G (due st b j m D) (sweep_bucket_markers fuel st lim gone i) (\<lambda>_. due st b j m D)"
    unfolding sweep_bucket_markers_def by (rule triple_sweep_loop [OF assms])
  then show ?case
    unfolding sweep_sources.simps by (rule triple_onResult) (auto intro: Cons)
qed (auto intro: triple_ret)


text \<open>A note for the second bucket, swept by a process that is halted in the middle.\<close>

definition owed :: repl_marker where
  "owed = \<lparr>rm_dest = ''west'', rm_pkg = ''six'', rm_filename = ''six-2.whl'', rm_key = repl_key ''west'' ''six'' ''six-2.whl'' ''7''\<rparr>"


text \<open>
  The text scan reads the package's name: the same unreadable sidecar makes a note \<open>Failing\<close> for one
  package and \<open>Pending\<close> for another whose name contains the word quota.
\<close>

lemma name_decides_note_class:
  "classify_note_failure (Bail (unexpected_origin ''six'' ''six-2.whl'' ''public'')) = Failing
   \<and> classify_note_failure (Bail (unexpected_origin ''quota-tool'' ''quota_tool-1.0.tar.gz'' ''public'')) = Pending"
  by code_simp

end
