(* ===== verification/Reconcile.thy ===== *)
theory Reconcile
  imports Sweep Removal_Gate
begin

text \<open>
  The third tier of replication in \<open>src/replicate.rs\<close>: the paged scan of the packages of a bucket, the
  merge of two scans that visits every package of either side, and the reconcile pass, which drops the
  backfill sentinels only when every pair was diffed cleanly. The loops take fuel; \<open>lim\<close> says which
  diffs \<open>select!\<close> cuts off, by position in the two passes, and after how many storage calls.
\<close>

section \<open>Definitions\<close>

definition RECONCILE_SCAN_PAGE :: nat where "RECONCILE_SCAN_PAGE = 1000"

record package_scan =
  ps_after :: "string option"
  ps_buf :: "string list"
  last_emitted :: "string option"
  ps_done :: bool

definition package_scan_new :: package_scan where
  "package_scan_new = \<lparr>ps_after = None, ps_buf = [], last_emitted = None, ps_done = False\<rparr>"

definition package_of_key :: "string \<Rightarrow> string option" where
  "package_of_key key = Option.bind (strip_prefix key PACKAGES_PREFIX) (\<lambda>rest. map_option fst (split_once rest (CHR ''/'')))"

fun emit_names :: "string option \<Rightarrow> string list \<Rightarrow> string list \<times> string option" where
  "emit_names seen_last [] = ([], seen_last)"
| "emit_names seen_last (key # keys) =
     (case package_of_key key of
        None \<Rightarrow> emit_names seen_last keys
      | Some name \<Rightarrow>
          if seen_last = Some name then emit_names seen_last keys
          else (let (names, l) = emit_names (Some name) keys in (name # names, l)))"

fun ps_fill :: "nat \<Rightarrow> bucket_id \<Rightarrow> package_scan \<Rightarrow> package_scan act" where
  "ps_fill 0 b ps = fail (Bail ''out of fuel'')"
| "ps_fill (Suc fuel) b ps =
     (if ps_buf ps \<noteq> [] \<or> ps_done ps then ret ps
      else
        andThen (list_page b PACKAGES_PREFIX (ps_after ps) RECONCILE_SCAN_PAGE) (\<lambda>page.
          if page = [] then ret (ps\<lparr>ps_done := True\<rparr>)
          else
            (let (names, l) = emit_names (last_emitted ps) (map om_key page) in
             ps_fill fuel b \<lparr>ps_after = Some (om_key (last page)), ps_buf = names, last_emitted = l,
                             ps_done = (length page < RECONCILE_SCAN_PAGE)\<rparr>)))"

definition ps_peek :: "nat \<Rightarrow> bucket_id \<Rightarrow> package_scan \<Rightarrow> (string option \<times> package_scan) act" where
  "ps_peek fuel b ps = andThen (ps_fill fuel b ps) (\<lambda>ps'. ret (case ps_buf ps' of [] \<Rightarrow> None | n # _ \<Rightarrow> Some n, ps'))"

definition ps_advance :: "package_scan \<Rightarrow> package_scan" where
  "ps_advance ps = ps\<lparr>ps_buf := tl (ps_buf ps)\<rparr>"

text \<open>The package the merge visits next, and which of the two scans move on.\<close>

definition next_package :: "string option \<Rightarrow> string option \<Rightarrow> (string \<times> bool \<times> bool) option" where
  "next_package na nb =
     (case (na, nb) of
        (None, None) \<Rightarrow> None
      | (Some a, None) \<Rightarrow> Some (a, True, False)
      | (None, Some b) \<Rightarrow> Some (b, False, True)
      | (Some a, Some b) \<Rightarrow> if a < b then Some (a, True, False) else if b < a then Some (b, False, True) else Some (a, True, True))"

fun diff_loop ::
  "nat \<Rightarrow> nat \<Rightarrow> app_state \<Rightarrow> bucket_id \<Rightarrow> bucket_id \<Rightarrow> package_scan \<Rightarrow> package_scan \<Rightarrow> string list \<Rightarrow> string list \<Rightarrow> string list act" where
  "diff_loop 0 pages st a b sa sb failures deferred = fail (Bail ''out of fuel'')"
| "diff_loop (Suc fuel) pages st a b sa sb failures deferred =
     andThen (ps_peek pages a sa) (\<lambda>(na, sa').
     andThen (ps_peek pages b sb) (\<lambda>(nb, sb').
       case next_package na nb of
         None \<Rightarrow> if failures = [] then ret deferred else fail (Bail ''package diffs failed'')
       | Some (pkg, move_a, move_b) \<Rightarrow>
           (let sa'' = (if move_a then ps_advance sa' else sa'); sb'' = (if move_b then ps_advance sb' else sb') in
            onResult (converge_package (st_exec st) (st_sha st) (st_claims st) (st_sidecars st) (st_markers st) (st_status st) a b pkg)
              (\<lambda>_. diff_loop fuel pages st a b sa'' sb'' (failures @ [pkg]) deferred)
              (\<lambda>c. diff_loop fuel pages st a b sa'' sb'' failures (if c = Deferred then deferred @ [pkg] else deferred)))))"

definition diff_pair :: "nat \<Rightarrow> app_state \<Rightarrow> bucket_id \<Rightarrow> bucket_id \<Rightarrow> string list act" where
  "diff_pair fuel st a b = diff_loop fuel fuel st a b package_scan_new package_scan_new [] []"

datatype unproven_reason = NotEligible nat | PackagesDeferred nat "string list" | PairFailed nat

fun reconcile_passes :: "nat \<Rightarrow> app_state \<Rightarrow> (nat \<Rightarrow> nat option) \<Rightarrow> nat \<Rightarrow> nat list \<Rightarrow> unproven_reason list \<Rightarrow> unproven_reason list act" where
  "reconcile_passes fuel st lim pinned [] unproven w = ret unproven w"
| "reconcile_passes fuel st lim pinned (i # ixs) unproven w =
     (if \<not> replication_eligible st w i then reconcile_passes fuel st lim pinned ixs (unproven @ [NotEligible i]) w
      else (let diff = diff_pair fuel st (bucket_of st pinned) (bucket_of st i) in
        case lim (length ixs) of
          Some n \<Rightarrow> andThen (cut_off n diff) (\<lambda>_. reconcile_passes fuel st lim pinned ixs (unproven @ [PairFailed i])) w
        | None \<Rightarrow>
            onResult diff
              (\<lambda>_. reconcile_passes fuel st lim pinned ixs (unproven @ [PairFailed i]))
              (\<lambda>deferred. reconcile_passes fuel st lim pinned ixs
                  (if deferred = [] then unproven else unproven @ [PackagesDeferred i deferred])) w))"

definition reconcile_peers :: "app_state \<Rightarrow> nat \<Rightarrow> nat list" where
  "reconcile_peers st pinned = concat (replicate 2 (filter (\<lambda>i. i \<noteq> pinned) [0..<length (st_handles st)]))"

definition reconcile :: "nat \<Rightarrow> app_state \<Rightarrow> (nat \<Rightarrow> nat option) \<Rightarrow> nat \<Rightarrow> unit act" where
  "reconcile fuel st lim pinned w =
     (if \<not> is_multi (st_buckets st) then ret () w
      else
        andThen (require_replication_unfenced (st_exec st)) (\<lambda>_ w'.
          if \<not> replication_eligible st w' pinned then fail (Bail ''selected bucket is not eligible for reconciliation'') w'
          else
            andThen (reconcile_passes fuel st lim pinned (reconcile_peers st pinned) []) (\<lambda>unproven.
              onResult (drain_backfill_sentinels st (unproven = [])) (\<lambda>_. ret ()) (\<lambda>_. ret ())) w') w)"

section \<open>The order of packages\<close>

text \<open>The packages of a bucket in the order their keys are listed.\<close>

definition package_names :: "inner \<Rightarrow> string list" where
  "package_names s = remdups_adj (List.map_filter package_of_key (pkg_keys s))"

lemma package_of_key_Some: "package_of_key k = Some p \<longleftrightarrow> CHR ''/'' \<notin> set p \<and> starts_with k (PACKAGES_PREFIX @ p @ ''/'')"
proof
  assume "package_of_key k = Some p"
  then obtain rest r where "k = PACKAGES_PREFIX @ rest" "split_once rest (CHR ''/'') = Some (p, r)"
    by (auto simp: package_of_key_def strip_prefix_def starts_with_iff Option.bind_eq_Some_conv split: if_splits)
  then show "CHR ''/'' \<notin> set p \<and> starts_with k (PACKAGES_PREFIX @ p @ ''/'')"
    using split_once_SomeD by (fastforce simp: starts_with_iff)
next
  assume "CHR ''/'' \<notin> set p \<and> starts_with k (PACKAGES_PREFIX @ p @ ''/'')"
  then obtain r where p: "CHR ''/'' \<notin> set p" and k: "k = PACKAGES_PREFIX @ (p @ CHR ''/'' # r)"
    by (auto simp: starts_with_iff)
  show "package_of_key k = Some p"
    unfolding package_of_key_def k strip_prefix_append by (simp add: split_once_append [OF p])
qed

text \<open>Keys in order list their packages in the order of the name followed by a slash.\<close>

lemma package_order:
  assumes "k < k'" and "package_of_key k = Some p" and "package_of_key k' = Some p'" and "p \<noteq> p'"
  shows "p @ ''/'' < p' @ ''/''"
proof (rule ccontr)
  let ?q = "PACKAGES_PREFIX @ p @ ''/''" and ?q' = "PACKAGES_PREFIX @ p' @ ''/''"
  assume "\<not> p @ ''/'' < p' @ ''/''"
  then have "?q' < ?q"
    using assms(4) by (auto simp: not_less order_less_le PACKAGES_PREFIX_def)
  moreover have k: "starts_with k ?q" "starts_with k' ?q'"
    using assms(2,3) package_of_key_Some by blast+
  ultimately have "starts_with k ?q'"
    using prefix_convex [of ?q' k k'] prefix_le [of k ?q] assms(1) by auto
  then have "package_of_key k = Some p'"
    using assms(3) package_of_key_Some by blast
  then show False
    using assms(2,4) by simp
qed

lemma strict_remdups_adj: "sorted xs \<Longrightarrow> sorted_wrt (<) (remdups_adj xs)" for xs :: "'a :: linorder list"
  by (induction xs rule: remdups_adj.induct) (auto simp: less_le)

lemma package_names_ordered:
  assumes "store_wf s"
  shows "sorted_wrt (\<lambda>m n. m @ ''/'' < n @ ''/'') (package_names s)"
proof -
  let ?ns = "List.map_filter package_of_key (pkg_keys s)"
  have "sorted_wrt (\<lambda>m n. m @ ''/'' \<le> n @ ''/'') (List.map_filter package_of_key ks)" if "sorted_wrt (<) ks" for ks
    using that
  proof (induction ks)
    case (Cons k ks)
    have "p @ ''/'' \<le> p' @ ''/''" if "package_of_key k = Some p" "k' \<in> set ks" "package_of_key k' = Some p'" for p p' k'
      using package_order [OF _ that(1,3)] Cons.prems that(2) by (cases "p = p'") auto
    then show ?case
      using Cons by (auto simp: List.map_filter_def)
  qed (simp add: List.map_filter_def)
  then have "sorted (map (\<lambda>n. n @ ''/'') ?ns)"
    using pkg_keys_sorted [OF assms] by (simp add: sorted_map)
  then have "sorted_wrt (<) (remdups_adj (map (\<lambda>n. n @ ''/'') ?ns))"
    by (rule strict_remdups_adj)
  then show ?thesis
    unfolding package_names_def by (simp add: remdups_adj_map_injective inj_def sorted_wrt_map)
qed

lemma package_names_distinct: "store_wf s \<Longrightarrow> distinct (package_names s)"
proof -
  assume "store_wf s"
  then have "sorted_wrt (<) (map (\<lambda>n. n @ ''/'') (package_names s))"
    using package_names_ordered by (simp add: sorted_wrt_map)
  then show ?thesis
    using strict_sorted_iff distinct_map by blast
qed

lemma set_package_names:
  assumes "store_wf s"
  shows "set (package_names s) = {p. CHR ''/'' \<notin> set p \<and> (\<exists>f. contains_key s (PACKAGES_PREFIX @ p @ ''/'' @ f))}"
proof -
  have "set (package_names s) = {p. \<exists>k\<in>set (pkg_keys s). package_of_key k = Some p}"
    by (force simp: package_names_def List.map_filter_def)
  then show ?thesis
    unfolding package_of_key_Some using pkg_keys_iff [OF assms] by (fastforce simp: starts_with_iff)
qed

lemma length_package_names: "length (package_names s) \<le> length (pkg_keys s)"
  unfolding package_names_def List.map_filter_def
  by (metis (no_types, lifting) le_trans length_filter_le length_map remdups_adj_length)

section \<open>The scan is the list of packages, page by page\<close>

fun emitted :: "string option \<Rightarrow> string list \<Rightarrow> string list" where
  "emitted l [] = []"
| "emitted l (n # ns) = (if l = Some n then emitted l ns else n # emitted (Some n) ns)"

definition last_of :: "string option \<Rightarrow> string list \<Rightarrow> string option" where
  "last_of l ns = (if ns = [] then l else Some (last ns))"

lemma emitted_remdups: "emitted None ns = remdups_adj ns"
proof -
  have "n # emitted (Some n) ns = remdups_adj (n # ns)" for n ns
    by (induction ns arbitrary: n) auto
  then show ?thesis
    by (cases ns) auto
qed

lemma emitted_append: "emitted l (xs @ ys) = emitted l xs @ emitted (last_of l xs) ys"
  by (induction xs arbitrary: l) (auto simp: last_of_def)

lemma emit_names_emitted:
  "emit_names l ks = (emitted l (List.map_filter package_of_key ks), last_of l (List.map_filter package_of_key ks))"
proof (induction ks arbitrary: l)
  case (Cons k ks)
  then show ?case
    by (auto simp: List.map_filter_def last_of_def split: option.splits)
qed (simp add: List.map_filter_def last_of_def)

text \<open>What a scan of a bucket has still to yield.\<close>

definition scan_keys :: "inner \<Rightarrow> package_scan \<Rightarrow> string list" where
  "scan_keys s ps = (if ps_done ps then [] else filter (past (ps_after ps)) (pkg_keys s))"

definition scan_rest :: "inner \<Rightarrow> package_scan \<Rightarrow> string list" where
  "scan_rest s ps = ps_buf ps @ emitted (last_emitted ps) (List.map_filter package_of_key (scan_keys s ps))"

lemma scan_rest_new: "scan_rest s package_scan_new = package_names s"
  by (simp add: scan_rest_def scan_keys_def package_scan_new_def package_names_def past_def emitted_remdups)

lemma ps_fill_quiet:
  assumes "script w = []" and "store_wf (buckets w b)" and "length (scan_keys (buckets w b) ps) < fuel"
  shows "\<exists>ps'. ps_fill fuel b ps w = (Inr ps', w) \<and> scan_rest (buckets w b) ps' = scan_rest (buckets w b) ps
    \<and> length (scan_keys (buckets w b) ps') \<le> length (scan_keys (buckets w b) ps)
    \<and> (ps_buf ps' = [] \<longrightarrow> scan_rest (buckets w b) ps' = [])"
  using assms(3)
proof (induction fuel arbitrary: ps)
  case (Suc fuel)
  let ?s = "buckets w b" and ?n = RECONCILE_SCAN_PAGE
  show ?case
  proof (cases "ps_buf ps \<noteq> [] \<or> ps_done ps")
    case True
    then show ?thesis
      by (auto simp: ret_def scan_rest_def scan_keys_def List.map_filter_def)
  next
    case False
    let ?ks = "filter (past (ps_after ps)) (pkg_keys ?s)"
    obtain page where page: "list_page b PACKAGES_PREFIX (ps_after ps) ?n w = (Inr page, w)" "map om_key page = take ?n ?ks"
      using list_page_keys [OF assms(1)] by blast
    have len: "length page = min ?n (length ?ks)"
      using arg_cong [OF page(2), of length] by (simp add: min.commute)
    show ?thesis
    proof (cases "page = []")
      case True
      then have "?ks = []"
        using page(2) by (simp add: RECONCILE_SCAN_PAGE_def)
      then show ?thesis
        using False True page(1) by (auto simp: andThen_def ret_def scan_rest_def scan_keys_def List.map_filter_def)
    next
      case some: False
      let ?ns = "List.map_filter package_of_key (take ?n ?ks)"
      let ?ps = "\<lparr>ps_after = Some (om_key (last page)), ps_buf = emitted (last_emitted ps) ?ns,
          last_emitted = last_of (last_emitted ps) ?ns, ps_done = length page < ?n\<rparr>"
      have step: "ps_fill (Suc fuel) b ps w = ps_fill fuel b ?ps w"
        using False some page by (simp add: andThen_def emit_names_emitted)
      have nonempty: "take ?n ?ks \<noteq> []" and l: "om_key (last page) = last (take ?n ?ks)"
        using some page(2) by (metis map_is_Nil_conv, metis last_map)
      have keys: "scan_keys ?s ?ps = drop ?n ?ks"
        using filter_past_last [OF pkg_keys_sorted [OF assms(2)] nonempty] len l by (auto simp: scan_keys_def min_def split: if_splits)
      then have shorter: "length (scan_keys ?s ?ps) < length (scan_keys ?s ps)"
        using False nonempty by (auto simp: scan_keys_def RECONCILE_SCAN_PAGE_def)
      have "scan_rest ?s ?ps = scan_rest ?s ps"
        using False emitted_append [of "last_emitted ps" ?ns "List.map_filter package_of_key (drop ?n ?ks)"]
          map_filter_append [of package_of_key "take ?n ?ks" "drop ?n ?ks"] keys
        by (simp add: scan_rest_def scan_keys_def)
      then show ?thesis
        using Suc.IH [of ?ps] Suc.prems shorter unfolding step by auto
    qed
  qed
qed simp

lemma ps_peek_quiet:
  assumes "script w = []" and "store_wf (buckets w b)" and "length (scan_keys (buckets w b) ps) < fuel"
  shows "\<exists>ps'. ps_peek fuel b ps w = (Inr (case scan_rest (buckets w b) ps of [] \<Rightarrow> None | n # _ \<Rightarrow> Some n, ps'), w)
    \<and> scan_rest (buckets w b) ps' = scan_rest (buckets w b) ps \<and> length (scan_keys (buckets w b) ps') < fuel
    \<and> (scan_rest (buckets w b) ps \<noteq> [] \<longrightarrow> scan_rest (buckets w b) (ps_advance ps') = tl (scan_rest (buckets w b) ps))
    \<and> length (scan_keys (buckets w b) (ps_advance ps')) < fuel"
proof -
  obtain ps' where ps': "ps_fill fuel b ps w = (Inr ps', w)" "scan_rest (buckets w b) ps' = scan_rest (buckets w b) ps"
      "length (scan_keys (buckets w b) ps') < fuel" "ps_buf ps' = [] \<longrightarrow> scan_rest (buckets w b) ps' = []"
    using ps_fill_quiet [OF assms] assms(3) by force
  have "scan_keys (buckets w b) (ps_advance ps') = scan_keys (buckets w b) ps'"
    by (simp add: scan_keys_def ps_advance_def)
  moreover have "scan_rest (buckets w b) (ps_advance ps') = tl (scan_rest (buckets w b) ps')" if "ps_buf ps' \<noteq> []"
    using that by (simp add: scan_rest_def scan_keys_def ps_advance_def)
  moreover have "(case ps_buf ps' of [] \<Rightarrow> None | n # _ \<Rightarrow> Some n) = (case scan_rest (buckets w b) ps of [] \<Rightarrow> None | n # _ \<Rightarrow> Some n)"
    unfolding ps'(2) [symmetric] using ps'(4) by (cases "ps_buf ps'") (auto simp: scan_rest_def)
  ultimately show ?thesis
    using ps' by (auto simp: ps_peek_def andThen_def ret_def)
qed

section \<open>The merge visits every package\<close>

fun visit_order :: "string list \<Rightarrow> string list \<Rightarrow> string list" where
  "visit_order [] [] = []"
| "visit_order (a # as) [] = a # visit_order as []"
| "visit_order [] (b # bs) = b # visit_order [] bs"
| "visit_order (a # as) (b # bs) =
     (if a < b then a # visit_order as (b # bs) else if b < a then b # visit_order (a # as) bs else a # visit_order as bs)"

lemma set_visit_order: "set (visit_order xs ys) = set xs \<union> set ys"
  by (induction xs ys rule: visit_order.induct) auto

lemma length_visit_order: "length (visit_order xs ys) \<le> length xs + length ys"
  by (induction xs ys rule: visit_order.induct) auto

lemma visit_order_once: "sorted_wrt (<) xs \<Longrightarrow> sorted_wrt (<) ys \<Longrightarrow> sorted_wrt (<) (visit_order xs ys)"
  by (induction xs ys rule: visit_order.induct) (auto simp: set_visit_order)

abbreviation converge_in :: "app_state \<Rightarrow> bucket_id \<Rightarrow> bucket_id \<Rightarrow> string \<Rightarrow> convergence act" where
  "converge_in st \<equiv> converge_package (st_exec st) (st_sha st) (st_claims st) (st_sidecars st) (st_markers st) (st_status st)"

lemma next_package_order:
  "next_package (case xs of [] \<Rightarrow> None | n # _ \<Rightarrow> Some n) (case ys of [] \<Rightarrow> None | n # _ \<Rightarrow> Some n) =
     (case visit_order xs ys of [] \<Rightarrow> None
      | p # _ \<Rightarrow> Some (p, xs \<noteq> [] \<and> hd xs = p, ys \<noteq> [] \<and> hd ys = p))"
  by (cases xs; cases ys) (auto simp: next_package_def)

lemma visit_order_tl:
  "visit_order xs ys = p # ps \<Longrightarrow>
     visit_order (if xs \<noteq> [] \<and> hd xs = p then tl xs else xs) (if ys \<noteq> [] \<and> hd ys = p then tl ys else ys) = ps"
  by (cases xs; cases ys) (auto split: if_splits)

lemma diff_loop_quiet:
  assumes "script w = []" and "store_wf (buckets w a)" and "store_wf (buckets w b)"
    and "\<forall>p\<in>set vs. converge_in st a b p w = (out p, w)"
    and "vs = visit_order (scan_rest (buckets w a) sa) (scan_rest (buckets w b) sb)" and "length vs < fuel"
    and "length (scan_keys (buckets w a) sa) < pages" and "length (scan_keys (buckets w b) sb) < pages"
  shows "diff_loop fuel pages st a b sa sb failures deferred w =
    (if failures = [] \<and> (\<forall>p\<in>set vs. \<exists>c. out p = Inr c) then Inr (deferred @ filter (\<lambda>p. out p = Inr Deferred) vs)
     else Inl (Bail ''package diffs failed''), w)"
  using assms(4-8)
proof (induction fuel arbitrary: sa sb failures deferred vs)
  case (Suc fuel)
  obtain sa' where a: "ps_peek pages a sa w = (Inr (case scan_rest (buckets w a) sa of [] \<Rightarrow> None | n # _ \<Rightarrow> Some n, sa'), w)"
      "scan_rest (buckets w a) sa' = scan_rest (buckets w a) sa" "length (scan_keys (buckets w a) sa') < pages"
      "scan_rest (buckets w a) sa \<noteq> [] \<longrightarrow> scan_rest (buckets w a) (ps_advance sa') = tl (scan_rest (buckets w a) sa)"
      "length (scan_keys (buckets w a) (ps_advance sa')) < pages"
    using ps_peek_quiet [OF assms(1,2) Suc.prems(4)] by blast
  obtain sb' where b: "ps_peek pages b sb w = (Inr (case scan_rest (buckets w b) sb of [] \<Rightarrow> None | n # _ \<Rightarrow> Some n, sb'), w)"
      "scan_rest (buckets w b) sb' = scan_rest (buckets w b) sb" "length (scan_keys (buckets w b) sb') < pages"
      "scan_rest (buckets w b) sb \<noteq> [] \<longrightarrow> scan_rest (buckets w b) (ps_advance sb') = tl (scan_rest (buckets w b) sb)"
      "length (scan_keys (buckets w b) (ps_advance sb')) < pages"
    using ps_peek_quiet [OF assms(1,3) Suc.prems(5)] by blast
  show ?case
  proof (cases vs)
    case Nil
    then show ?thesis
      using a(1) b(1) Suc.prems(2) by (simp add: andThen_def next_package_order ret_def fail_def)
  next
    case (Cons p ps)
    let ?xs = "scan_rest (buckets w a) sa" and ?ys = "scan_rest (buckets w b) sb"
    let ?sa = "if ?xs \<noteq> [] \<and> hd ?xs = p then ps_advance sa' else sa'" and ?sb = "if ?ys \<noteq> [] \<and> hd ?ys = p then ps_advance sb' else sb'"
    have vs: "visit_order ?xs ?ys = p # ps"
      using Cons Suc.prems(2) by simp
    have rest: "ps = visit_order (scan_rest (buckets w a) ?sa) (scan_rest (buckets w b) ?sb)"
      using visit_order_tl [OF vs] a(2,4) b(2,4) by auto
    have p: "converge_in st a b p w = (out p, w)" and more: "\<forall>q\<in>set ps. converge_in st a b q w = (out q, w)"
      using Suc.prems(1) Cons by simp_all
    have bounds: "length ps < fuel" "length (scan_keys (buckets w a) ?sa) < pages" "length (scan_keys (buckets w b) ?sb) < pages"
      using Suc.prems(3) Cons a(3,5) b(3,5) by auto
    note IH = Suc.IH [OF more rest bounds]
    have step: "diff_loop (Suc fuel) pages st a b sa sb failures deferred w =
        (case out p of Inl _ \<Rightarrow> diff_loop fuel pages st a b ?sa ?sb (failures @ [p]) deferred w
         | Inr c \<Rightarrow> diff_loop fuel pages st a b ?sa ?sb failures (if c = Deferred then deferred @ [p] else deferred) w)"
      using a(1) b(1) p by (simp add: andThen_def onResult_def next_package_order vs Let_def split: sum.splits)
    show ?thesis
      unfolding step by (cases "out p") (auto simp: IH Cons)
  qed
qed simp


text \<open>Two packages on the first bucket, one of them on the second too; no file and no claim.\<close>

definition sparse_pair :: fleet where
  "sparse_pair i = (if i = 0 then snd (store id ''packages/a/.x'' [] (snd (store id ''packages/a-b/.x'' [] (inner_default 0))))
     else snd (store id ''packages/a/.x'' [] (inner_default 0)))"

lemma converge_nothing:
  assumes "script w = []" and "\<not> fenced (st_exec st) w" and "view (st_claims st) (buckets w) a p = Absent" and "view (st_claims st) (buckets w) b p = Absent"
    and "package_member_names a p w = (Inr an, w)" and "package_member_names b p w = (Inr bn, w)" and "candidate_filenames an = []" and "candidate_filenames bn = []"
  shows "converge_in st a b p w = (Inr Converged, w)"
  using assms(2,5-8) read_pkg_origin_quiet [OF assms(1), of "st_claims st" a p] read_pkg_origin_quiet [OF assms(1), of "st_claims st" b p] assms(3,4)
  by (simp add: converge_package_def andThen_def require_replication_unfenced_def ret_def claim_of_def reconcile_split_origin_def claim_join_def claim_rank_def
      raise_to_private_def numeral_3_eq_3 remdups_def)


text \<open>
  Keys order packages by the name followed by a slash, and the merge compares plain names: the scan of
  the first bucket does not yield names in ascending order, and the merge visits one package twice.
\<close>

lemma scan_is_not_ascending:
  "package_names (sparse_pair 0) = [''a-b'', ''a''] \<and> \<not> sorted (package_names (sparse_pair 0))
   \<and> \<not> distinct (visit_order (package_names (sparse_pair 0)) (package_names (sparse_pair 1)))"
  by code_simp

section \<open>Only a clean pass drops a sentinel\<close>

lemma spares_ps_fill [spares_intros]: "spares K (ps_fill fuel b ps)"
  by (induction fuel arbitrary: ps) (auto intro!: spares_intros simp: Let_def split: prod.splits)

lemma spares_ps_peek [spares_intros]: "spares K (ps_peek fuel b ps)"
  unfolding ps_peek_def by (intro spares_intros)

lemma spares_diff_loop [spares_intros]:
  "copies_only (st_exec st) \<Longrightarrow> spares outside (diff_loop fuel pages st a b sa sb failures deferred)"
  by (induction fuel arbitrary: sa sb failures deferred) (auto intro!: spares_intros simp: Let_def)

lemma spares_diff_pair [spares_intros]: "copies_only (st_exec st) \<Longrightarrow> spares outside (diff_pair fuel st a b)"
  unfolding diff_pair_def by (intro spares_intros)

lemma spares_drain_pairs: "spares K (drain_pairs sha False ps names failed)"
  by (induction ps arbitrary: names failed) (auto intro!: spares_intros simp: Let_def)

lemma spares_reconcile_passes:
  assumes "copies_only (st_exec st)"
  shows "spares outside (reconcile_passes fuel st lim pinned ixs unproven)"
proof (induction ixs arbitrary: unproven)
  case Nil
  have "reconcile_passes fuel st lim pinned [] unproven = ret unproven"
    by auto
  then show ?case
    by (simp add: spares_ret)
next
  case (Cons i ixs)
  let ?diff = "diff_pair fuel st (bucket_of st pinned) (bucket_of st i)"
  let ?skip = "reconcile_passes fuel st lim pinned ixs (unproven @ [NotEligible i])"
  let ?run = "case lim (length ixs) of
      None \<Rightarrow> onResult ?diff (\<lambda>_. reconcile_passes fuel st lim pinned ixs (unproven @ [PairFailed i]))
        (\<lambda>deferred. reconcile_passes fuel st lim pinned ixs (if deferred = [] then unproven else unproven @ [PackagesDeferred i deferred]))
    | Some n \<Rightarrow> andThen (cut_off n ?diff) (\<lambda>_. reconcile_passes fuel st lim pinned ixs (unproven @ [PairFailed i]))"
  have "reconcile_passes fuel st lim pinned (i # ixs) unproven = (\<lambda>w. (if \<not> replication_eligible st w i then ?skip else ?run) w)"
    by (auto simp: fun_eq_iff Let_def split: option.splits)
  moreover have "spares outside (\<lambda>w. (if \<not> replication_eligible st w i then ?skip else ?run) w)"
    by (rule spares_of_state [where f = "\<lambda>w. if \<not> replication_eligible st w i then ?skip else ?run"])
      (intro spares_intros assms Cons)
  ultimately show ?case
    by simp
qed

text \<open>A pass that ends with nothing unproven diffed every peer, uncut, with nothing deferred.\<close>

lemma reconcile_passes_grow:
  "reconcile_passes fuel st lim pinned ixs unproven w = (Inr u, w') \<Longrightarrow> \<exists>v. u = unproven @ v"
  by (induction ixs arbitrary: unproven w)
    (fastforce simp: ret_def andThen_def onResult_def Let_def split: if_splits option.splits sum.splits prod.splits)+

lemma reconcile_passes_clean:
  assumes "reconcile_passes fuel st lim pinned ixs [] w = (Inr [], w')" and "i \<in> set ixs"
  shows "\<exists>v v'. replication_eligible st v i \<and> diff_pair fuel st (bucket_of st pinned) (bucket_of st i) v = (Inr [], v')"
  using assms
proof (induction ixs arbitrary: w)
  case (Cons j ixs)
  let ?diff = "diff_pair fuel st (bucket_of st pinned) (bucket_of st j)"
  have no: "reconcile_passes fuel st lim pinned ixs [x] v \<noteq> (Inr [], w')" for x v
    using reconcile_passes_grow [of fuel st lim pinned ixs "[x]" v "[]" w'] by auto
  have "replication_eligible st w j" "lim (length ixs) = None"
    using Cons.prems(1) no by (auto simp: Let_def andThen_def split: if_splits option.splits sum.splits prod.splits)
  moreover obtain r v where "?diff w = (r, v)"
    by fastforce
  ultimately have "r = Inr []" "reconcile_passes fuel st lim pinned ixs [] v = (Inr [], w')"
    using Cons.prems(1) no by (auto simp: Let_def onResult_def split: if_splits sum.splits)
  then show ?case
    using Cons \<open>?diff w = (r, v)\<close> \<open>replication_eligible st w j\<close> by auto
qed simp



text \<open>Two buckets without packages; the second was added and its sentinel is on the first.\<close>

definition added_pair :: fleet where
  "added_pair i = (if i = 0 then snd (store id (backfill_sentinel_prefix ''west'' @ ''9'') [] (inner_default 0)) else inner_default 0)"


end
