(* ===== verification/Upload_Form.thy ===== *)
theory Upload_Form
  imports Names Sidecar Auth Object_Store
begin

text \<open>
  The front half of an upload: \<open>legacy_upload\<close> of \<open>src/publish.rs\<close> from the credential check to the
  \<open>PublishRequest\<close> it hands to the storage protocol, with the metadata extraction of \<open>src/wheel.rs\<close>.
  The multipart parser (multer) is not modelled: a form is the sequence of parts it yields, each a list
  of chunks that may end in an error. The zip reader, the clock, PEP 440 and RFC 3339 parsing, SHA-256
  and MD5 are parameters. The spool is the concatenation of its chunks; failures of the local disk that
  holds it are left out.
\<close>

section \<open>Definitions\<close>

type_synonym refusal = "nat \<times> string"

definition PROVENANCE_MAX_FIELD_BYTES :: nat where "PROVENANCE_MAX_FIELD_BYTES = 4 * 1024 * 1024"
definition MAX_METADATA_FIELDS :: nat where "MAX_METADATA_FIELDS = 256"
definition MAX_METADATA_TOTAL_BYTES :: nat where "MAX_METADATA_TOTAL_BYTES = 32 * 1024 * 1024"
definition FORM_READ_PIECE :: nat where "FORM_READ_PIECE = 64 * 1024"
definition UPLOAD_BODY_LIMIT :: nat where "UPLOAD_BODY_LIMIT = 1024 * 1024 * 1024"
definition ADMIN_UPLOAD_BODY_LIMIT :: nat where "ADMIN_UPLOAD_BODY_LIMIT = 5 * 1024 * 1024 * 1024"
definition MAX_ARTIFACT_FILENAME_BYTES :: nat where "MAX_ARTIFACT_FILENAME_BYTES = 256"

record publish_request =
  rq_pkg :: string
  rq_filename :: string
  rq_body :: bytes
  rq_spooled :: bool
  rq_sha256 :: string
  rq_md5 :: string
  rq_size :: u64
  rq_version :: string
  rq_requires_python :: "string option"
  is_mirror :: bool
  rq_upload_time :: string
  rq_yanked :: yanked
  wheel_metadata :: "bytes option"
  is_wheel :: bool
  rq_provenance :: "string option"

subsection \<open>Filenames\<close>

text \<open>\<open>char::is_control\<close> on UTF-8: U+0000 to U+001F, U+007F, and U+0080 to U+009F, the bytes C2 80 to C2 9F.\<close>

fun has_control :: "string \<Rightarrow> bool" where
  "has_control [] = False"
| "has_control (c # cs) =
     ((of_char c :: nat) < 32 \<or> (of_char c :: nat) = 127
      \<or> ((of_char c :: nat) = 194 \<and> (case cs of [] \<Rightarrow> False | d # _ \<Rightarrow> 128 \<le> (of_char d :: nat) \<and> (of_char d :: nat) < 160))
      \<or> has_control cs)"

definition valid_artifact_filename :: "string \<Rightarrow> bool" where
  "valid_artifact_filename filename =
     (length filename \<le> MAX_ARTIFACT_FILENAME_BYTES \<and> CHR ''/'' \<notin> set filename \<and> CHR 0x5C \<notin> set filename
      \<and> \<not> has_control filename \<and> is_artifact filename)"

subsection \<open>Reading the body\<close>

function split_pieces :: "bytes \<Rightarrow> bytes list" where
  "split_pieces rest =
     (if length rest \<le> FORM_READ_PIECE then [rest] else take FORM_READ_PIECE rest # split_pieces (drop FORM_READ_PIECE rest))"
  by auto
termination by (relation "measure length") (auto simp: FORM_READ_PIECE_def)

declare split_pieces.simps [simp del]

text \<open>The pieces the parser sees, and whether the body ended without running past the limit.\<close>

fun bounded_form_reads :: "nat \<Rightarrow> nat \<Rightarrow> bytes list \<Rightarrow> bytes list \<times> bool" where
  "bounded_form_reads limit seen [] = ([], True)"
| "bounded_form_reads limit seen (chunk # chunks) =
     (let seen' = seen + length chunk in
      if seen' > limit then ([], False)
      else (let (pieces, ok) = bounded_form_reads limit seen' chunks in (split_pieces chunk @ pieces, ok)))"

record form_part =
  part_name :: string
  part_filename :: "string option"
  part_chunks :: "bytes list"
  part_broken :: bool

record form =
  fm_parts :: "form_part list"
  fm_broken :: bool

record form_state =
  fs_filename :: "string option"
  fs_spool :: "bytes option"
  fs_fields :: "(string, string) btree"
  fs_total :: nat

definition form_start :: form_state where
  "form_start = \<lparr>fs_filename = None, fs_spool = None, fs_fields = [], fs_total = 0\<rparr>"

text \<open>One metadata part, chunk by chunk; \<open>None\<close> when it grows past its cap.\<close>

fun read_field :: "nat \<Rightarrow> bytes \<Rightarrow> bytes list \<Rightarrow> bytes option" where
  "read_field cap buf [] = Some buf"
| "read_field cap buf (chunk # chunks) =
     (if length buf + length chunk > cap then None else read_field cap (buf @ chunk) chunks)"

definition field_cap :: "string \<Rightarrow> nat" where
  "field_cap name = (if name = ''provenance'' \<or> name = ''attestations'' then PROVENANCE_MAX_FIELD_BYTES else 64 * 1024)"

definition add_field :: "form_state \<Rightarrow> string \<Rightarrow> bytes \<Rightarrow> refusal + form_state" where
  "add_field fs name buf =
     (if \<not> utf8_valid buf \<or> buf = [] then Inr fs
      else
        (let sum = fs_total fs + length buf in
         if sum > MAX_METADATA_TOTAL_BYTES then Inl (400, ''Metadata fields too large'')
         else if bt_get (fs_fields fs) name = None \<and> length (fs_fields fs) \<ge> MAX_METADATA_FIELDS
         then Inl (400, ''Too many metadata fields'')
         else Inr (fs\<lparr>fs_fields := bt_insert name buf (fs_fields fs), fs_total := sum\<rparr>)))"

definition form_step :: "form_state \<Rightarrow> form_part \<Rightarrow> refusal + form_state" where
  "form_step fs p =
     (if part_name p = ''content'' \<or> part_name p = ''file'' then
        (if part_broken p then Inl (400, ''Could not read uploaded file'')
         else Inr (fs\<lparr>fs_spool := Some (concat (part_chunks p)),
                      fs_filename := (if fs_filename fs = None then part_filename p else fs_filename fs)\<rparr>))
      else
        (case read_field (field_cap (part_name p)) [] (part_chunks p) of
           None \<Rightarrow> Inl (400, ''Form field is too large'')
         | Some buf \<Rightarrow>
             if part_broken p then Inl (400, ''Invalid multipart form data'') else add_field fs (part_name p) buf))"

fun form_loop :: "form_state \<Rightarrow> form_part list \<Rightarrow> bool \<Rightarrow> refusal + form_state" where
  "form_loop fs [] broken = (if broken then Inl (400, ''Invalid multipart form data'') else Inr fs)"
| "form_loop fs (p # ps) broken = (case form_step fs p of Inl r \<Rightarrow> Inl r | Inr fs' \<Rightarrow> form_loop fs' ps broken)"

subsection \<open>Wheel metadata\<close>

datatype wheel_error = Invalid | TooLarge

record zip_reader =
  zip_names :: "bytes \<Rightarrow> string option list option"
  zip_by_name :: "bytes \<Rightarrow> string \<Rightarrow> (nat \<times> (nat \<Rightarrow> bytes option)) option"

definition MAX_METADATA_BYTES :: nat where "MAX_METADATA_BYTES = 16 * 1024 * 1024"
definition MAX_WHEEL_ENTRIES :: nat where "MAX_WHEEL_ENTRIES = 262144"

definition is_metadata_entry :: "string \<Rightarrow> bool" where
  "is_metadata_entry n = (ends_with n ''.dist-info/METADATA'' \<and> count_list n (CHR ''/'') = 1)"

fun find_metadata :: "string option list \<Rightarrow> wheel_error + string" where
  "find_metadata [] = Inl Invalid"
| "find_metadata (None # names) = Inl Invalid"
| "find_metadata (Some n # names) = (if is_metadata_entry n then Inr n else find_metadata names)"

definition extract_metadata_from_reader :: "zip_reader \<Rightarrow> bytes \<Rightarrow> wheel_error + bytes" where
  "extract_metadata_from_reader Z bs =
     (case zip_names Z bs of
        None \<Rightarrow> Inl Invalid
      | Some names \<Rightarrow>
          if length names > MAX_WHEEL_ENTRIES then Inl TooLarge
          else (case find_metadata names of
                  Inl e \<Rightarrow> Inl e
                | Inr name \<Rightarrow>
                    (case zip_by_name Z bs name of
                       None \<Rightarrow> Inl Invalid
                     | Some (sz, rd) \<Rightarrow>
                         if sz > MAX_METADATA_BYTES then Inl TooLarge
                         else (case rd (MAX_METADATA_BYTES + 1) of
                                 None \<Rightarrow> Inl Invalid
                               | Some out \<Rightarrow> if length out > MAX_METADATA_BYTES then Inl TooLarge else Inr out))))"

subsection \<open>From the form to the request\<close>

record upload_env =
  ue_auth :: auth_env
  ue_state :: auth_state
  ue_zip :: zip_reader
  ue_md5 :: "bytes \<Rightarrow> bytes"
  ue_version :: "string \<Rightarrow> unit option"
  ue_time_ok :: "string \<Rightarrow> bool"
  ue_now :: string
  allow_legacy_versions :: bool

definition quoted :: "string \<Rightarrow> string" where
  "quoted s = [CHR 0x27] @ s @ [CHR 0x27]"

definition field_is :: "form_state \<Rightarrow> string \<Rightarrow> string \<Rightarrow> bool" where
  "field_is fs name v = (bt_get (fs_fields fs) name = Some v)"

definition has_field :: "form_state \<Rightarrow> string \<Rightarrow> bool" where
  "has_field fs name = (bt_get (fs_fields fs) name \<noteq> None)"

text \<open>Who may send what: mirror and migration uploads are for the admin, and only they may backdate.\<close>

definition mode_refusal :: "upload_env \<Rightarrow> headers \<Rightarrow> form_state \<Rightarrow> refusal option" where
  "mode_refusal U hs fs =
     (let mirror = field_is fs ''mirror'' ''true''; migration = field_is fs ''migration'' ''true'' in
      if migration \<and> require_admin (ue_auth U) (ue_state U) hs \<noteq> Inr ()
      then Some (if require_admin (ue_auth U) (ue_state U) hs = Inl FORBIDDEN then 403 else 401, ''Unauthorized'')
      else if migration \<and> mirror then Some (400, ''migration and mirror are mutually exclusive'')
      else if mirror \<and> \<not> is_admin (ue_auth U) (ue_state U) hs
      then Some (if admin_credential (ue_state U) = None then (403, ''Mirror uploads are disabled (no admin credential configured)'')
                 else (401, ''Mirror uploads require the admin credential''))
      else if \<not> mirror \<and> ((\<not> migration \<and> has_field fs ''upload_time'') \<or> has_field fs ''yanked'' \<or> has_field fs ''yanked_reason'')
      then Some (400, ''upload_time requires mirror=true or migration=true (admin); yanked fields require mirror=true'')
      else if \<not> mirror \<and> has_field fs ''attestations''
      then Some (400, ''first-party attestations are not verified'')
      else None)"

definition form_yanked :: "form_state \<Rightarrow> yanked" where
  "form_yanked fs =
     (if \<not> field_is fs ''mirror'' ''true'' then Flag False
      else (case bt_get (fs_fields fs) ''yanked_reason'' of
              Some reason \<Rightarrow>
                if trim reason \<noteq> [] then Reason (trim reason)
                else (case bt_get (fs_fields fs) ''yanked'' of Some flag \<Rightarrow> Flag (flag = ''true'') | None \<Rightarrow> Flag False)
            | None \<Rightarrow> (case bt_get (fs_fields fs) ''yanked'' of Some flag \<Rightarrow> Flag (flag = ''true'') | None \<Rightarrow> Flag False)))"

definition form_package :: "upload_env \<Rightarrow> form_state \<Rightarrow> string \<Rightarrow> string" where
  "form_package U fs filename =
     (case bt_get (fs_fields fs) ''name'' of
        Some name \<Rightarrow> normalize_pkg_name name
      | None \<Rightarrow> infer_package_from_filename (ue_version U) filename)"

definition form_version :: "upload_env \<Rightarrow> form_state \<Rightarrow> string \<Rightarrow> string" where
  "form_version U fs filename =
     (case bt_get (fs_fields fs) ''version'' of
        Some v \<Rightarrow> v
      | None \<Rightarrow> (case infer_version_from_filename (ue_version U) filename of Some v \<Rightarrow> v | None \<Rightarrow> []))"

definition version_mismatch :: "upload_env \<Rightarrow> form_state \<Rightarrow> string \<Rightarrow> bool" where
  "version_mismatch U fs filename =
     (case (bt_get (fs_fields fs) ''version'', infer_version_from_filename (ue_version U) filename) of
        (Some claimed, Some from_name) \<Rightarrow> fold_version claimed \<noteq> fold_version from_name
      | _ \<Rightarrow> False)"

definition digest_mismatch :: "upload_env \<Rightarrow> form_state \<Rightarrow> bytes \<Rightarrow> bool" where
  "digest_mismatch U fs body =
     (case bt_get (fs_fields fs) ''sha256_digest'' of
        Some claimed \<Rightarrow> \<not> eq_ignore_ascii_case claimed (sha256_hex (digest (ue_auth U)) body)
      | None \<Rightarrow> False)"

definition name_refusal :: "upload_env \<Rightarrow> form_state \<Rightarrow> string \<Rightarrow> bytes \<Rightarrow> refusal option" where
  "name_refusal U fs filename body =
     (let pkg = form_package U fs filename in
      if \<not> valid_artifact_filename filename then Some (400, ''Invalid filename'')
      else if ends_with filename ''.whl'' \<and> \<not> field_is fs ''mirror'' ''true'' \<and> infer_package_from_filename (ue_version U) filename \<noteq> pkg
      then Some (400, ''wheel '' @ quoted filename @ '' does not belong to project '' @ quoted pkg)
      else if \<not> is_normalized pkg then Some (400, ''Invalid package name'')
      else if digest_mismatch U fs body then Some (400, ''sha256_digest mismatch'')
      else if version_mismatch U fs filename then Some (400, ''version does not match filename'')
      else None)"

definition upload_request :: "upload_env \<Rightarrow> headers \<Rightarrow> form_state \<Rightarrow> refusal + publish_request" where
  "upload_request U hs fs =
     (case (if fs_filename fs = None then bt_get (fs_fields fs) ''filename'' else fs_filename fs, fs_spool fs) of
        (None, _) \<Rightarrow> Inl (400, ''Missing filename'')
      | (Some _, None) \<Rightarrow> Inl (400, ''Missing file content'')
      | (Some filename, Some body) \<Rightarrow>
          (case name_refusal U fs filename body of
             Some r \<Rightarrow> Inl r
           | None \<Rightarrow>
          (case mode_refusal U hs fs of
             Some r \<Rightarrow> Inl r
           | None \<Rightarrow>
               (let mirror = field_is fs ''mirror'' ''true''; migration = field_is fs ''migration'' ''true'';
                    wheel = ends_with filename ''.whl'';
                    parse = (if wheel then Some (extract_metadata_from_reader (ue_zip U) body) else None) in
                if \<not> mirror \<and> \<not> allow_legacy_versions U \<and> ue_version U (form_version U fs filename) = None
                then Inl (400, ''not a valid PEP 440 version'')
                else if parse = Some (Inl Invalid) \<and> \<not> mirror \<and> \<not> migration
                then Inl (400, quoted filename @ '' is not a valid wheel'')
                else (case (case bt_get (fs_fields fs) ''upload_time'' of
                              Some ts \<Rightarrow> if ue_time_ok U ts then Some ts else None | None \<Rightarrow> Some (ue_now U)) of
                  None \<Rightarrow> Inl (400, ''upload_time is not RFC 3339'')
                | Some t \<Rightarrow> Inr
                  \<lparr>rq_pkg = form_package U fs filename, rq_filename = filename, rq_body = body, rq_spooled = True,
                   rq_sha256 = sha256_hex (digest (ue_auth U)) body, rq_md5 = hex (ue_md5 U body), rq_size = of_nat (length body),
                   rq_version = form_version U fs filename, rq_requires_python = bt_get (fs_fields fs) ''requires_python'',
                   is_mirror = mirror, rq_upload_time = t, rq_yanked = form_yanked fs,
                   wheel_metadata = (case parse of Some (Inr md) \<Rightarrow> Some md | _ \<Rightarrow> None), is_wheel = wheel,
                   rq_provenance = bt_get (fs_fields fs) ''provenance''\<rparr>)))))"


definition legacy_upload :: "upload_env \<Rightarrow> headers \<Rightarrow> nat option \<Rightarrow> form \<Rightarrow> refusal + publish_request" where
  "legacy_upload U hs declared fm =
     (let admin = is_admin (ue_auth U) (ue_state U) hs;
          limit = (if admin then ADMIN_UPLOAD_BODY_LIMIT else UPLOAD_BODY_LIMIT) in
      if \<not> admin \<and> \<not> is_uploader (ue_auth U) (ue_state U) hs
      then Inl (if uploads_disabled (ue_state U) then (403, ''Uploads are disabled (no upload credential configured)'')
                else (401, ''Unauthorized''))
      else if (case declared of None \<Rightarrow> False | Some len \<Rightarrow> len > limit) then Inl (413, ''Upload is larger than this server accepts'')
      else (case form_loop form_start (fm_parts fm) (fm_broken fm) of
              Inl r \<Rightarrow> Inl r
            | Inr fs \<Rightarrow> upload_request U hs fs))"

section \<open>The body is handed on in bounded pieces\<close>

lemma split_pieces_concat: "concat (split_pieces bs) = bs"
  by (induction bs rule: split_pieces.induct) (subst split_pieces.simps, simp)

lemma split_pieces_bounded: "p \<in> set (split_pieces bs) \<Longrightarrow> length p \<le> FORM_READ_PIECE"
proof (induction bs rule: split_pieces.induct)
  case (1 rest)
  then show ?case
    by (subst (asm) split_pieces.simps) (auto split: if_splits)
qed

lemma bounded_form_reads_exact:
  assumes "bounded_form_reads limit seen chunks = (pieces, ok)" and "seen \<le> limit"
  shows "(\<forall>p\<in>set pieces. length p \<le> FORM_READ_PIECE) \<and> seen + length (concat pieces) \<le> limit
    \<and> (ok \<longleftrightarrow> seen + length (concat chunks) \<le> limit) \<and> (ok \<longrightarrow> concat pieces = concat chunks)"
  using assms
proof (induction chunks arbitrary: seen pieces)
  case (Cons c cs)
  show ?case
  proof (cases "seen + length c > limit")
    case False
    obtain ps where ps: "bounded_form_reads limit (seen + length c) cs = (ps, ok)" "pieces = split_pieces c @ ps"
      using Cons.prems(1) False by (auto simp: Let_def split: prod.splits)
    show ?thesis
      using Cons.IH [OF ps(1)] False split_pieces_bounded ps(2) by (auto simp: split_pieces_concat)
  qed (use Cons.prems in auto)
qed simp

section \<open>What the form may keep in memory\<close>

lemma read_field_cap: "read_field cap buf chunks = Some out \<Longrightarrow> length buf \<le> cap \<Longrightarrow> length out \<le> cap"
  by (induction chunks arbitrary: buf) (auto split: if_splits)

definition kept_bytes :: "(string, string) btree \<Rightarrow> nat" where
  "kept_bytes m = sum_list (map (\<lambda>e. length (snd e)) m)"

lemma kept_bytes_filter: "kept_bytes (filter P m) \<le> kept_bytes m"
  by (induction m) (auto simp: kept_bytes_def)

lemma kept_bytes_insert: "kept_bytes (bt_insert k v m) \<le> kept_bytes m + length v"
proof -
  let ?r = "bt_remove k m"
  have "kept_bytes (takeWhile (\<lambda>e. fst e < k) ?r) + kept_bytes (dropWhile (\<lambda>e. fst e < k) ?r) = kept_bytes ?r"
    unfolding kept_bytes_def by (metis map_append sum_list_append takeWhile_dropWhile_id)
  moreover have "kept_bytes ?r \<le> kept_bytes m"
    unfolding bt_remove_def by (rule kept_bytes_filter)
  ultimately show ?thesis
    unfolding bt_insert_def Let_def by (simp add: kept_bytes_def)
qed

lemma length_insert: "length (bt_insert k v m) \<le> Suc (length m)"
  and length_insert_present: "bt_get m k \<noteq> None \<Longrightarrow> length (bt_insert k v m) \<le> length m"
proof -
  let ?r = "bt_remove k m"
  have "length (takeWhile (\<lambda>e. fst e < k) ?r) + length (dropWhile (\<lambda>e. fst e < k) ?r) = length ?r"
    by (metis length_append takeWhile_dropWhile_id)
  then have l: "length (bt_insert k v m) = Suc (length ?r)"
    by (simp add: bt_insert_def Let_def)
  then show "length (bt_insert k v m) \<le> Suc (length m)"
    by (simp add: bt_remove_def)
  assume "bt_get m k \<noteq> None"
  then obtain x where "(k, x) \<in> set m"
    using map_of_SomeD unfolding bt_get_def by fastforce
  then have "length ?r < length m"
    unfolding bt_remove_def by (intro length_filter_less [of "(k, x)"]) simp_all
  then show "length (bt_insert k v m) \<le> length m"
    using l by simp
qed

definition form_bounded :: "form_state \<Rightarrow> bool" where
  "form_bounded fs =
     (bt_ordered (fs_fields fs) \<and> length (fs_fields fs) \<le> MAX_METADATA_FIELDS \<and> kept_bytes (fs_fields fs) \<le> fs_total fs
      \<and> fs_total fs \<le> MAX_METADATA_TOTAL_BYTES
      \<and> (\<forall>n v. bt_get (fs_fields fs) n = Some v \<longrightarrow> v \<noteq> [] \<and> utf8_valid v \<and> length v \<le> field_cap n))"

lemma add_field_bounded:
  assumes "form_bounded fs" and "length buf \<le> field_cap name" and "add_field fs name buf = Inr fs'"
  shows "form_bounded fs'"
proof (cases "utf8_valid buf \<and> buf \<noteq> []")
  case True
  then have fs': "fs' = fs\<lparr>fs_fields := bt_insert name buf (fs_fields fs), fs_total := fs_total fs + length buf\<rparr>"
      and room: "fs_total fs + length buf \<le> MAX_METADATA_TOTAL_BYTES" "bt_get (fs_fields fs) name \<noteq> None \<or> length (fs_fields fs) < MAX_METADATA_FIELDS"
    using assms(3) by (auto simp: add_field_def Let_def split: if_splits)
  have "length (bt_insert name buf (fs_fields fs)) \<le> MAX_METADATA_FIELDS"
    using room(2) length_insert [of name buf "fs_fields fs"] length_insert_present [of "fs_fields fs" name buf] assms(1)
    by (auto simp: form_bounded_def)
  then show ?thesis
    using assms(1,2) True room(1) kept_bytes_insert [of name buf "fs_fields fs"] unfolding fs'
    by (auto simp: form_bounded_def bt_ordered_insert bt_get_insert)
qed (use assms in \<open>auto simp: add_field_def\<close>)

lemma form_step_bounded:
  assumes "form_bounded fs" and "form_step fs p = Inr fs'"
  shows "form_bounded fs'"
proof (cases "part_name p = ''content'' \<or> part_name p = ''file''")
  case True
  then have "fs_fields fs' = fs_fields fs" "fs_total fs' = fs_total fs"
    using assms(2) by (auto simp: form_step_def split: if_splits)
  then show ?thesis
    using assms(1) by (simp add: form_bounded_def)
next
  case False
  then obtain buf where "read_field (field_cap (part_name p)) [] (part_chunks p) = Some buf" "add_field fs (part_name p) buf = Inr fs'"
    using assms(2) by (auto simp: form_step_def split: option.splits if_splits)
  then show ?thesis
    using add_field_bounded [OF assms(1)] read_field_cap by fastforce
qed

lemma form_loop_bounded: "form_bounded fs \<Longrightarrow> form_loop fs ps broken = Inr fs' \<Longrightarrow> form_bounded fs'"
  by (induction ps arbitrary: fs) (auto split: if_splits sum.splits dest: form_step_bounded)

lemma form_start_bounded: "form_bounded form_start"
  by (simp add: form_bounded_def form_start_def kept_bytes_def bt_ordered_def bt_keys_def bt_get_def)

text \<open>
  C17: The form cannot exhaust memory. Whatever parts a client sends, in whatever chunks, what the
  handler holds of the non-file parts when it accepts them is at most 256 fields, each within its own
  cap and 32 MiB together, every value valid UTF-8; and the parser is handed the body in pieces of at
  most 64 KiB, at most the limit in all, unchanged when the body fits and cut off exactly when it does
  not.
\<close>

theorem upload_memory_bounded:
  assumes "form_loop form_start parts broken = Inr fs" and "bounded_form_reads limit 0 chunks = (pieces, ok)"
  shows "length (fs_fields fs) \<le> 256 \<and> kept_bytes (fs_fields fs) \<le> 32 * 1024 * 1024
    \<and> (\<forall>n v. bt_get (fs_fields fs) n = Some v \<longrightarrow> utf8_valid v \<and> length v \<le> field_cap n)
    \<and> (\<forall>p\<in>set pieces. length p \<le> 64 * 1024) \<and> length (concat pieces) \<le> limit
    \<and> (ok \<longleftrightarrow> length (concat chunks) \<le> limit) \<and> (ok \<longrightarrow> concat pieces = concat chunks)"
proof -
  have fs: "length (fs_fields fs) \<le> 256" "kept_bytes (fs_fields fs) \<le> fs_total fs" "fs_total fs \<le> 32 * 1024 * 1024"
      "\<forall>n v. bt_get (fs_fields fs) n = Some v \<longrightarrow> utf8_valid v \<and> length v \<le> field_cap n"
    using form_loop_bounded [OF form_start_bounded assms(1)]
    by (simp_all add: form_bounded_def MAX_METADATA_FIELDS_def MAX_METADATA_TOTAL_BYTES_def)
  have body: "\<forall>p\<in>set pieces. length p \<le> 64 * 1024" "length (concat pieces) \<le> limit"
      "ok \<longleftrightarrow> length (concat chunks) \<le> limit" "ok \<longrightarrow> concat pieces = concat chunks"
    using bounded_form_reads_exact [OF assms(2)] by (simp_all add: FORM_READ_PIECE_def)
  show ?thesis
    using fs(2,3) by (intro conjI fs(1,4) body) linarith
qed

theorem upload_memory_bounded_witness:
  "\<exists>fs. form_loop form_start [\<lparr>part_name = ''name'', part_filename = None, part_chunks = [''si'', ''x''], part_broken = False\<rparr>] False = Inr fs
     \<and> bt_get (fs_fields fs) ''name'' = Some ''six'' \<and> length (fs_fields fs) \<le> 256 \<and> bounded_form_reads 3 0 [''ab'', ''c''] = ([''ab'', ''c''], True)"
proof -
  let ?p = "\<lparr>part_name = ''name'', part_filename = None, part_chunks = [''si'', ''x''], part_broken = False\<rparr>"
  let ?fs = "\<lparr>fs_filename = None, fs_spool = None, fs_fields = [(''name'', ''six'')], fs_total = 3\<rparr>"
  have "utf8_valid ''six''"
    by code_simp
  then have fs: "form_loop form_start [?p] False = Inr ?fs"
    by (simp add: form_step_def add_field_def form_start_def Let_def field_cap_def MAX_METADATA_TOTAL_BYTES_def MAX_METADATA_FIELDS_def
        bt_get_def bt_insert_def bt_remove_def del: utf8_valid.simps)
  have "bt_get (fs_fields ?fs) ''name'' = Some ''six''"
    by (simp add: bt_get_def)
  moreover have "bounded_form_reads 3 0 [''ab'', ''c''] = ([''ab'', ''c''], True)"
    by (simp add: split_pieces.simps [of "''ab''"] split_pieces.simps [of "''c''"] FORM_READ_PIECE_def)
  ultimately show ?thesis
    using upload_memory_bounded [OF fs] fs by blast
qed

section \<open>An accepted upload is well formed\<close>

lemma metadata_entry_bounded: "extract_metadata_from_reader Z bs = Inr md \<Longrightarrow> length md \<le> MAX_METADATA_BYTES"
  by (auto simp: extract_metadata_from_reader_def split: option.splits if_splits sum.splits)

lemma name_refusal_None:
  assumes "name_refusal U fs filename body = None"
  shows "valid_artifact_filename filename" "is_normalized (form_package U fs filename)" "\<not> digest_mismatch U fs body" "\<not> version_mismatch U fs filename"
    "ends_with filename ''.whl'' \<Longrightarrow> \<not> field_is fs ''mirror'' ''true'' \<Longrightarrow> infer_package_from_filename (ue_version U) filename = form_package U fs filename"
  using assms by (auto simp: name_refusal_def Let_def split: if_splits)

lemma mode_refusal_None:
  assumes "mode_refusal U hs fs = None"
  shows "field_is fs ''mirror'' ''true'' \<Longrightarrow> is_admin (ue_auth U) (ue_state U) hs"
    "field_is fs ''migration'' ''true'' \<Longrightarrow> is_admin (ue_auth U) (ue_state U) hs"
    "\<not> field_is fs ''mirror'' ''true'' \<Longrightarrow> has_field fs ''upload_time'' \<Longrightarrow> field_is fs ''migration'' ''true''"
    "\<not> field_is fs ''mirror'' ''true'' \<Longrightarrow> \<not> has_field fs ''yanked'' \<and> \<not> has_field fs ''yanked_reason'' \<and> \<not> has_field fs ''attestations''"
  using assms by (auto simp: mode_refusal_def Let_def require_admin_def split: if_splits)

lemma upload_request_fields:
  assumes "upload_request U hs fs = Inr rq"
  obtains filename body where "fs_spool fs = Some body" "name_refusal U fs filename body = None" "mode_refusal U hs fs = None"
    "rq_filename rq = filename" "rq_body rq = body" "rq_pkg rq = form_package U fs filename" "rq_sha256 rq = sha256_hex (digest (ue_auth U)) body"
    "rq_size rq = of_nat (length body)" "is_mirror rq = field_is fs ''mirror'' ''true''" "rq_yanked rq = form_yanked fs" "is_wheel rq = ends_with filename ''.whl''"
    "rq_version rq = form_version U fs filename" "\<not> is_mirror rq \<longrightarrow> allow_legacy_versions U \<or> ue_version U (rq_version rq) \<noteq> None"
    "wheel_metadata rq \<noteq> None \<longrightarrow> extract_metadata_from_reader (ue_zip U) body = Inr (the (wheel_metadata rq))"
    "rq_upload_time rq = (case bt_get (fs_fields fs) ''upload_time'' of Some t \<Rightarrow> t | None \<Rightarrow> ue_now U)"
  using assms
  by (auto simp: upload_request_def Let_def split: option.splits prod.splits if_splits sum.splits)


text \<open>A source distribution sent with the uploader's credential.\<close>

definition form_node :: upload_env where
  "form_node =
     \<lparr>ue_auth = plain_env, ue_state = ci_node, ue_zip = \<lparr>zip_names = (\<lambda>_. None), zip_by_name = (\<lambda>_ _. None)\<rparr>, ue_md5 = (\<lambda>x. x),
      ue_version = (\<lambda>v. if v = ''1.0'' then Some () else None), ue_time_ok = (\<lambda>_. True), ue_now = ''2026-01-01T00:00:00Z'', allow_legacy_versions = False\<rparr>"

definition sdist_form :: form where
  "sdist_form = \<lparr>fm_parts = [\<lparr>part_name = ''content'', part_filename = Some ''six-1.0.tar.gz'', part_chunks = [''bo'', ''dy''], part_broken = False\<rparr>], fm_broken = False\<rparr>"


end
