(* ===== verification/Publish.thy ===== *)
theory Publish
  imports Fanout Upload_Form
begin

text \<open>
  The storage protocol of the write path, \<open>src/publish.rs\<close>: \<open>publish_record\<close>, the core of an upload, and
  \<open>edit_sidecar\<close>, the core of a yank and of a timestamp repair. A handler's refusal is an HTTP status and
  a message; the display of an inner error is left out of the message. Every exit that leaves an intent
  unpaired drops the guard \<open>markers::Intent\<close>, which writes its commit marker in the background: here that
  write comes last. The write budget delays an upload and changes nothing else.
\<close>

section \<open>Definitions\<close>

type_synonym 'a handler = "(refusal + 'a) act"

definition proceed :: "'a handler \<Rightarrow> ('a \<Rightarrow> 'b handler) \<Rightarrow> 'b handler" where
  "proceed m f = andThen m (\<lambda>r. case r of Inl no \<Rightarrow> ret (Inl no) | Inr v \<Rightarrow> f v)"

definition or_refuse :: "'a act \<Rightarrow> refusal \<Rightarrow> ('a \<Rightarrow> 'b handler) \<Rightarrow> 'b handler" where
  "or_refuse m no f = onResult m (\<lambda>_. ret (Inl no)) f"

definition quietly :: "'a act \<Rightarrow> unit act" where
  "quietly m = onResult m (\<lambda>_. ret ()) (\<lambda>_. ret ())"

datatype checksum_probe = Checksum "store_checksum option" | HomeWriteCorrupt

record publish_env =
  pe_private :: "private_pattern list"
  store_content_checksum :: "bucket_id \<Rightarrow> string \<Rightarrow> string \<Rightarrow> checksum_probe act"
  index_files :: "bytes \<Rightarrow> string list option"
  wait_on_upload :: bool
  wait_polls :: nat
  now_epoch_millis :: u64
  parse_rfc3339 :: "string \<Rightarrow> int option"

subsection \<open>Conflicts and the write budget\<close>

datatype upload_conflict_kind = Exists | Fenced

definition FILE_EXISTS :: string where "FILE_EXISTS = ''File already exists''"
definition FILENAME_FENCED :: string where "FILENAME_FENCED = ''frozen or deleted''"

definition upload_conflict :: "nat \<Rightarrow> string \<Rightarrow> upload_conflict_kind option" where
  "upload_conflict code msg =
     (if code \<noteq> 409 then None
      else if starts_with msg FILE_EXISTS then Some Exists
      else if text_contains msg FILENAME_FENCED then Some Fenced
      else None)"

definition MULTIPART_THRESHOLD :: nat where "MULTIPART_THRESHOLD = 64 * 1024 * 1024"
definition MULTIPART_FOOTPRINT :: nat where "MULTIPART_FOOTPRINT = 8 * 1024 * 1024 * (4 + 1) + 256 * 1024"

definition artifact_write_weight :: "u64 \<Rightarrow> nat" where
  "artifact_write_weight sz =
     (let held = (if unat sz \<le> MULTIPART_THRESHOLD then unat sz else MULTIPART_FOOTPRINT)
      in max ((held + (1024 * 1024 - 1)) div (1024 * 1024)) 1)"

subsection \<open>Publishing\<close>

definition desired_origin :: "publish_request \<Rightarrow> string" where
  "desired_origin rq = (if is_mirror rq then MIRROR else PRIVATE)"

definition owned_refusal :: "string \<Rightarrow> string \<Rightarrow> string \<Rightarrow> refusal" where
  "owned_refusal pkg holder desired = (403, ''Package '' @ quoted pkg @ '' is '' @ holder @ ''-owned; '' @ desired @ '' uploads are rejected'')"

definition first_claim :: "origin_observation option \<Rightarrow> bool" where
  "first_claim observed = (case observed of None \<Rightarrow> True | Some ob \<Rightarrow> ob_state ob = Unclaimed)"

definition origin_refusal :: "publish_env \<Rightarrow> publish_request \<Rightarrow> origin_observation option \<Rightarrow> refusal option" where
  "origin_refusal pe rq observed =
     (let pkg = rq_pkg rq; desired = desired_origin rq; reserved = private_names_matches (pe_private pe) pkg in
      if is_mirror rq \<and> reserved then Some (403, quoted pkg @ '' is a reserved private name; mirrors may not touch it'')
      else if (case observed of None \<Rightarrow> False | Some ob \<Rightarrow> ob_state ob \<in> {Mirror, Private} \<and> as_str (ob_state ob) \<noteq> desired)
      then Some (owned_refusal pkg (as_str (ob_state (the observed))) desired)
      else if first_claim observed \<and> \<not> is_mirror rq \<and> pe_private pe \<noteq> [] \<and> \<not> reserved
      then Some (403, ''Package '' @ quoted pkg @ '' is not a reserved private name'')
      else None)"

text \<open>The first write of a package claims it, and reserves the name on the other buckets.\<close>

definition claim_for_upload ::
  "app_state \<Rightarrow> (nat \<Rightarrow> nat option) \<Rightarrow> nat \<Rightarrow> publish_request \<Rightarrow> origin_observation option \<Rightarrow> origin_observation handler" where
  "claim_for_upload st lim i rq observed =
     (let b = bucket_of st i; pkg = rq_pkg rq; desired = desired_origin rq;
          hint = (case observed of None \<Rightarrow> None | Some ob \<Rightarrow> if ob_state ob = Unclaimed then Some ob else None);
          changed = (409, ''Package '' @ quoted pkg @ '' changed origin while claiming'') in
      or_refuse (claim_origin (st_sha st) (st_claims st) b pkg desired hint) (500, ''Failed to claim origin'') (\<lambda>c.
        if owner c \<noteq> desired then ret (Inl (owned_refusal pkg (owner c) desired))
        else
          andThen (if claim_etag c \<noteq> None \<and> is_multi (st_buckets st)
                   then quietly (fanout_sync st lim i pkg ORIGIN_MARKER None) else ret ()) (\<lambda>_.
            case claim_etag c of
              Some etag \<Rightarrow> ret (Inr \<lparr>ob_state = (if is_mirror rq then Mirror else Private), ob_etag = etag\<rparr>)
            | None \<Rightarrow>
                or_refuse (read_origin_observation (st_claims st) b pkg) (503, ''storage error re-reading origin claim'') (\<lambda>r.
                  case r of
                    Some ob \<Rightarrow> ret (if as_str (ob_state ob) = desired then Inr ob else Inl changed)
                  | None \<Rightarrow> ret (Inl changed)))))"

definition recheck_origin :: "app_state \<Rightarrow> bucket_id \<Rightarrow> string \<Rightarrow> origin_observation option \<Rightarrow> unit handler" where
  "recheck_origin st b pkg fence =
     (case fence of
        None \<Rightarrow> ret (Inr ())
      | Some expected \<Rightarrow>
          or_refuse (read_origin_observation (st_claims st) b pkg) (503, ''storage error re-checking origin claim'') (\<lambda>current.
            ret (if current = Some expected then Inr ()
                 else Inl (409, ''Package '' @ quoted pkg @ '' changed origin during upload''))))"

definition store_upload :: "app_state \<Rightarrow> bucket_id \<Rightarrow> publish_request \<Rightarrow> unit handler" where
  "store_upload st b rq =
     or_refuse (store_artifact_verified (st_sha st) b (artifact_key (rq_pkg rq) (rq_filename rq)) (rq_body rq) (unat (rq_size rq)) Reject)
       (503, ''Failed to store file'')
       (\<lambda>created. ret (if created then Inr () else Inl (409, FILE_EXISTS @ '': '' @ rq_filename rq)))"

definition upload_checksum :: "app_state \<Rightarrow> publish_env \<Rightarrow> bucket_id \<Rightarrow> publish_request \<Rightarrow> store_checksum option handler" where
  "upload_checksum st pe b rq =
     (let key = artifact_key (rq_pkg rq) (rq_filename rq) in
      if \<not> is_multi (st_buckets st) then ret (Inr None)
      else onResult (store_content_checksum pe b key (rq_md5 rq)) (\<lambda>_. ret (Inr None)) (\<lambda>p.
             case p of
               Checksum c \<Rightarrow> ret (Inr c)
             | HomeWriteCorrupt \<Rightarrow>
                 andThen (quietly (delete_keys (st_sha st) b [key])) (\<lambda>_.
                   ret (Inl (503, ''Stored artifact failed content verification: '' @ rq_filename rq)))))"

definition upload_sidecar :: "publish_env \<Rightarrow> publish_request \<Rightarrow> store_checksum option \<Rightarrow> sidecar" where
  "upload_sidecar pe rq c =
     \<lparr>sha256 = rq_sha256 rq, size = rq_size rq, version = rq_version rq, upload_time = rq_upload_time rq,
      upload_epoch_ms = (if is_mirror rq then None else Some (now_epoch_millis pe)),
      requires_python = rq_requires_python rq, yanked = rq_yanked rq, origin = Some (desired_origin rq),
      yank_epoch = 0, upload_time_revision = 0, snapshot = is_mirror rq, store_checksum = c\<rparr>"

definition post_publish_mirror_claim_is_current :: "app_state \<Rightarrow> bucket_id \<Rightarrow> string \<Rightarrow> origin_observation \<Rightarrow> bool act" where
  "post_publish_mirror_claim_is_current st b pkg expected =
     (if \<not> is_multi (st_buckets st) then ret True
      else andThen (read_origin_observation (st_claims st) b pkg) (\<lambda>r. ret (r = Some expected)))"

definition type_mirror_upload :: "app_state \<Rightarrow> bucket_id \<Rightarrow> publish_request \<Rightarrow> sidecar \<Rightarrow> origin_observation option \<Rightarrow> unit handler" where
  "type_mirror_upload st b rq sc fence =
     (let sc_key = sidecar_key (artifact_key (rq_pkg rq) (rq_filename rq)) in
      or_refuse (put_if_absent (st_sha st) b sc_key (enc_sidecar (st_sidecars st) sc)) (503, ''Failed to store mirror sidecar'') (\<lambda>created.
      or_refuse (if created then ret True else install_or_verify_mirror_sidecar (st_sha st) (st_sidecars st) b sc_key sc)
        (503, ''Failed to converge mirror sidecar'') (\<lambda>_.
        case fence of
          None \<Rightarrow> ret (Inl (500, ''mirror upload lost its origin fence''))
        | Some expected \<Rightarrow>
            or_refuse (post_publish_mirror_claim_is_current st b (rq_pkg rq) expected)
              (503, ''storage error re-checking mirror claim after publish'') (\<lambda>current.
              ret (if current then Inr ()
                   else Inl (409, ''Package '' @ quoted (rq_pkg rq) @ '' changed origin during mirror upload''))))))"

definition filename_gate :: "app_state \<Rightarrow> bucket_id \<Rightarrow> publish_request \<Rightarrow> unit handler" where
  "filename_gate st b rq =
     (let key = artifact_key (rq_pkg rq) (rq_filename rq) in
      or_refuse (andThen (head_exists b (tombstone_key key)) (\<lambda>t. andThen (head_exists b (frozen_key key)) (\<lambda>f. ret (fenced_by_markers t f))))
        (503, ''storage error checking filename fence'') (\<lambda>barred.
        if \<not> barred then ret (Inr ())
        else
          andThen (if is_multi (st_buckets st) then ret () else quietly (delete_keys (st_sha st) b [key])) (\<lambda>_.
            ret (Inl (409, ''File '' @ quoted (rq_filename rq) @ '' is '' @ FILENAME_FENCED @ '' and cannot be reused'')))))"

definition store_companions :: "app_state \<Rightarrow> bucket_id \<Rightarrow> publish_request \<Rightarrow> unit act" where
  "store_companions st b rq =
     (let key = artifact_key (rq_pkg rq) (rq_filename rq) in
      andThen (case (if is_wheel rq then wheel_metadata rq else None) of
                 None \<Rightarrow> ret ()
               | Some md \<Rightarrow>
                   if is_mirror rq then quietly (put_if_absent (st_sha st) b (metadata_key key) md)
                   else quietly (put_bytes (st_sha st) b (metadata_key key) md)) (\<lambda>_.
        case (if is_mirror rq then rq_provenance rq else None) of
          None \<Rightarrow> ret ()
        | Some prov \<Rightarrow> quietly (put_if_absent (st_sha st) b (provenance_key key) prov)))"

text \<open>From the claim to the sidecar, all under one intent.\<close>

definition publish_under_intent ::
  "app_state \<Rightarrow> publish_env \<Rightarrow> (nat \<Rightarrow> nat option) \<Rightarrow> nat \<Rightarrow> publish_request \<Rightarrow> origin_observation option \<Rightarrow> unit handler" where
  "publish_under_intent st pe lim i rq observed =
     (let b = bucket_of st i; key = artifact_key (rq_pkg rq) (rq_filename rq) in
      proceed (if first_claim observed then proceed (claim_for_upload st lim i rq observed) (\<lambda>ob. ret (Inr (Some ob))) else ret (Inr observed)) (\<lambda>fence.
      proceed (recheck_origin st b (rq_pkg rq) fence) (\<lambda>_.
      proceed (store_upload st b rq) (\<lambda>_.
      proceed (upload_checksum st pe b rq) (\<lambda>c.
      let sc = upload_sidecar pe rq c in
      proceed (if is_mirror rq then type_mirror_upload st b rq sc fence else ret (Inr ())) (\<lambda>_.
      proceed (filename_gate st b rq) (\<lambda>_.
      andThen (store_companions st b rq) (\<lambda>_.
        if is_mirror rq then ret (Inr ())
        else or_refuse (put_bytes (st_sha st) b (sidecar_key key) (enc_sidecar (st_sidecars st) sc)) (500, ''Failed to store sidecar'')
               (\<lambda>_. ret (Inr ()))))))))))"

fun wait_for_index_visibility :: "publish_env \<Rightarrow> nat \<Rightarrow> bucket_id \<Rightarrow> string \<Rightarrow> string \<Rightarrow> unit act" where
  "wait_for_index_visibility pe 0 b pkg filename = ret ()"
| "wait_for_index_visibility pe (Suc polls) b pkg filename =
     onResult (get_bytes b (''simple/'' @ pkg @ ''/index.json''))
       (\<lambda>_. wait_for_index_visibility pe polls b pkg filename)
       (\<lambda>bs. case index_files pe bs of
          None \<Rightarrow> wait_for_index_visibility pe polls b pkg filename
        | Some files \<Rightarrow> if filename \<in> set files then ret () else wait_for_index_visibility pe polls b pkg filename)"

text \<open>The record is committed: reach the other buckets, then answer.\<close>

definition acknowledge :: "app_state \<Rightarrow> publish_env \<Rightarrow> (nat \<Rightarrow> nat option) \<Rightarrow> nat \<Rightarrow> publish_request \<Rightarrow> (nat \<times> string) handler" where
  "acknowledge st pe lim i rq =
     or_refuse (fanout_sync st lim i (rq_pkg rq) (rq_filename rq) (if rq_spooled rq then Some (Some (rq_body rq)) else None))
       (503, ''The upload is durable on this bucket, but the fleet could not record that the other buckets still owe it'') (\<lambda>_.
     andThen (if wait_on_upload pe then wait_for_index_visibility pe (wait_polls pe) (bucket_of st i) (rq_pkg rq) (rq_filename rq) else ret ()) (\<lambda>_.
       ret (Inr (200, ''OK''))))"

definition publish_record ::
  "app_state \<Rightarrow> publish_env \<Rightarrow> (nat \<Rightarrow> nat option) \<Rightarrow> (nat \<Rightarrow> nat option) \<Rightarrow> nat \<Rightarrow> publish_request \<Rightarrow> (nat \<times> string) handler" where
  "publish_record st pe lim lim' i rq =
     (let b = bucket_of st i; pkg = rq_pkg rq in
      or_refuse (read_origin_observation (st_claims st) b pkg) (503, ''storage error reading origin'') (\<lambda>observed.
        case origin_refusal pe rq observed of
          Some no \<Rightarrow> ret (Inl no)
        | None \<Rightarrow>
            or_refuse (mark_intent (st_sha st) b pkg) (503, ''failed to reserve package write'') (\<lambda>nonce.
            andThen (publish_under_intent st pe lim i rq observed) (\<lambda>r.
            andThen (quietly (mark_commit (st_sha st) b pkg nonce)) (\<lambda>_.
              case r of Inl no \<Rightarrow> ret (Inl no) | Inr _ \<Rightarrow> acknowledge st pe lim' i rq)))))"

subsection \<open>Editing a sidecar\<close>

datatype sidecar_edit = Yank yanked | UploadTime string string

definition PROBED :: "string list" where
  "PROBED = [[], TOMBSTONE_SUFFIX, FROZEN_SUFFIX, MIRROR_QUARANTINED_SUFFIX, SUPERSEDING_SUFFIX]"

definition edit_refusal :: "file_record \<Rightarrow> record_origin option \<Rightarrow> sidecar_edit \<Rightarrow> refusal option" where
  "edit_refusal r claim edit =
     (if \<not> listed r claim then
        Some (case classify_record r of
                AbsentRecord _ \<Rightarrow> (404, ''No such file'') | Bare \<Rightarrow> (404, ''No such file'')
              | _ \<Rightarrow> (409, ''file is deleted, frozen or quarantined''))
      else if (case classify_record r of Live _ _ u \<Rightarrow> u | _ \<Rightarrow> False)
      then Some (409, ''a replication repair is rewriting this file'' @ [CHR 0x27] @ ''s metadata; retry'')
      else if (case edit of UploadTime _ _ \<Rightarrow> True | Yank _ \<Rightarrow> False)
              \<and> (claim \<noteq> Some PrivateO \<or> \<not> (case classify_record r of Live _ p _ \<Rightarrow> p = PrivateO | _ \<Rightarrow> False))
      then Some (409, ''timestamp repair requires a private artifact'')
      else None)"

fun probe_all :: "bucket_id \<Rightarrow> string list \<Rightarrow> bool list act" where
  "probe_all b [] = ret []"
| "probe_all b (k # ks) = andThen (head_exists b k) (\<lambda>p. andThen (probe_all b ks) (\<lambda>ps. ret (p # ps)))"

definition check_editable ::
  "app_state \<Rightarrow> bucket_id \<Rightarrow> string \<Rightarrow> string \<Rightarrow> sidecar \<Rightarrow> sidecar_edit \<Rightarrow> refusal option act" where
  "check_editable st b pkg key sc edit =
     onResult (andThen (probe_all b (map (\<lambda>x. key @ x) PROBED)) (\<lambda>present.
               andThen (read_origin_claim (st_claims st) b pkg) (\<lambda>c. ret (present, c))))
       (\<lambda>_. ret (Some (503, ''record read failed'')))
       (\<lambda>(present, c).
          let claim = Option.bind c narrow;
              has = (\<lambda>suffix. list_ex (\<lambda>(p, hit). hit \<and> p = suffix) (zip PROBED present)) in
          ret (edit_refusal (from_listing has (Some sc) claim) claim edit))"

text \<open>The edited document, and whether it differs from the one read.\<close>

definition apply_edit :: "publish_env \<Rightarrow> sidecar_edit \<Rightarrow> sidecar \<Rightarrow> refusal + (bool \<times> sidecar)" where
  "apply_edit pe edit sc =
     (case edit of
        Yank desired \<Rightarrow> Inr (yanked_normalized (yanked sc) \<noteq> desired, sc\<lparr>yanked := desired\<rparr>)
      | UploadTime h t \<Rightarrow>
          if \<not> eq_ignore_ascii_case (sha256 sc) h then Inl (409, ''SHA-256 mismatch; refusing timestamp repair'')
          else Inr (parse_rfc3339 pe (upload_time sc) \<noteq> parse_rfc3339 pe t, sc\<lparr>upload_time := t\<rparr>))"

definition bump_revision :: "sidecar_edit \<Rightarrow> sidecar \<Rightarrow> sidecar option" where
  "bump_revision edit sc =
     (case edit of
        Yank _ \<Rightarrow> if yank_epoch sc = - 1 then None else Some (sc\<lparr>yank_epoch := yank_epoch sc + 1\<rparr>)
      | UploadTime _ _ \<Rightarrow> if upload_time_revision sc = - 1 then None else Some (sc\<lparr>upload_time_revision := upload_time_revision sc + 1\<rparr>))"

text \<open>An intent: not yet opened, opened best effort without a marker, or opened with its nonce.\<close>

datatype edit_intent = Unopened | Unmarked | Marked string

definition open_best_effort :: "app_state \<Rightarrow> bucket_id \<Rightarrow> string \<Rightarrow> edit_intent act" where
  "open_best_effort st b pkg = onResult (mark_intent (st_sha st) b pkg) (\<lambda>_. ret Unmarked) (\<lambda>n. ret (Marked n))"

definition close_intent :: "app_state \<Rightarrow> bucket_id \<Rightarrow> string \<Rightarrow> edit_intent \<Rightarrow> unit act" where
  "close_intent st b pkg it =
     (case it of Marked n \<Rightarrow> mark_commit (st_sha st) b pkg n | _ \<Rightarrow> mark_dirty (st_sha st) b pkg)"

fun edit_loop ::
  "app_state \<Rightarrow> publish_env \<Rightarrow> bucket_id \<Rightarrow> string \<Rightarrow> string \<Rightarrow> sidecar_edit \<Rightarrow> edit_intent \<Rightarrow> nat
    \<Rightarrow> (edit_intent \<times> (refusal + (bool \<times> string option))) act" where
  "edit_loop st pe b pkg key edit it 0 = ret (it, Inl (409, ''sidecar changed repeatedly; retry the metadata update''))"
| "edit_loop st pe b pkg key edit it (Suc n) =
     onResult (get_with_etag b (sidecar_key key)) (\<lambda>_. ret (it, Inl (503, ''sidecar read failed''))) (\<lambda>found.
       case found of
         None \<Rightarrow> ret (it, Inl (404, ''No such file''))
       | Some (bs, etag) \<Rightarrow>
           (case dec_sidecar (st_sidecars st) bs of
              None \<Rightarrow> ret (it, Inl (500, ''bad sidecar''))
            | Some sc \<Rightarrow>
                andThen (check_editable st b pkg key sc edit) (\<lambda>no.
                  case no of
                    Some r \<Rightarrow> ret (it, Inl r)
                  | None \<Rightarrow>
                      (case apply_edit pe edit sc of
                         Inl r \<Rightarrow> ret (it, Inl r)
                       | Inr (changed, sc') \<Rightarrow>
                           if \<not> changed then
                             ret (it, Inr (if (case edit of Yank _ \<Rightarrow> True | _ \<Rightarrow> False) \<and> \<not> is_multi (st_buckets st) then (False, None) else (True, origin sc')))
                           else
                             (case bump_revision edit sc' of
                                None \<Rightarrow> ret (it, Inl (409, ''sidecar revision exhausted''))
                              | Some sc'' \<Rightarrow>
                                  andThen (if it = Unopened then open_best_effort st b pkg else ret it) (\<lambda>it'.
                                  onResult (put_if_match (st_sha st) b (sidecar_key key) etag (enc_sidecar (st_sidecars st) sc''))
                                    (\<lambda>_. ret (it', Inl (500, ''write''))) (\<lambda>won.
                                    case won of
                                      None \<Rightarrow> edit_loop st pe b pkg key edit it' n
                                    | Some _ \<Rightarrow>
                                        andThen (check_editable st b pkg key sc'' edit) (\<lambda>no'.
                                          ret (it', case no' of
                                             None \<Rightarrow> Inr (True, origin sc'')
                                           | Some (code, m) \<Rightarrow> if code = 503 then Inr (True, origin sc'') else Inl (code, m))))))))))"

definition edit_sidecar ::
  "app_state \<Rightarrow> publish_env \<Rightarrow> (nat \<Rightarrow> nat option) \<Rightarrow> nat \<Rightarrow> string \<Rightarrow> string \<Rightarrow> sidecar_edit \<Rightarrow> nat handler" where
  "edit_sidecar st pe lim i pkg filename edit =
     (let b = bucket_of st i; key = artifact_key pkg filename; multi = is_multi (st_buckets st) in
      or_refuse (if multi then andThen (mark_intent (st_sha st) b pkg) (\<lambda>n. ret (Marked n)) else ret Unopened) (503, ''failed to reserve the edit'') (\<lambda>it0.
      andThen (edit_loop st pe b pkg key edit it0 8) (\<lambda>(it, edited).
        case edited of
          Inl no \<Rightarrow> andThen (if it = Unopened then ret () else quietly (close_intent st b pkg it)) (\<lambda>_. ret (Inl no))
        | Inr (False, _) \<Rightarrow> andThen (if it = Unopened then ret () else quietly (close_intent st b pkg it)) (\<lambda>_. ret (Inr 200))
        | Inr (True, rec_origin) \<Rightarrow>
            andThen (quietly (close_intent st b pkg it)) (\<lambda>_.
            or_refuse (if \<not> multi then ret False
                       else if rec_origin = Some PRIVATE \<or> rec_origin = Some MIRROR then ret True
                       else andThen (read_origin (st_claims st) b pkg) (\<lambda>c. ret (c = Some PRIVATE \<or> c = Some MIRROR)))
              (503, ''storage error reading origin for replication'') (\<lambda>carry.
            or_refuse (if carry then fanout_sync st lim i pkg filename None else ret ())
              (503, ''The edit is durable on this bucket, but the fleet could not record that the other buckets still owe it'') (\<lambda>_.
              ret (Inr 200)))))))"

definition set_yank ::
  "app_state \<Rightarrow> publish_env \<Rightarrow> (nat \<Rightarrow> nat option) \<Rightarrow> nat \<Rightarrow> string \<Rightarrow> string \<Rightarrow> yanked \<Rightarrow> nat handler" where
  "set_yank st pe lim i pkg filename y = edit_sidecar st pe lim i pkg filename (Yank (yanked_normalized y))"

end
