(* ===== verification/Frames.thy ===== *)
theory Frames
  imports Convergence
begin

text \<open>
  A frame calculus over the interference logic: \<open>writes_only b X m\<close> says that the operation \<open>m\<close> writes
  bucket \<open>b\<close> only at the keys \<open>X\<close>, so every stable assertion that does not look at those keys
  survives it, whatever interleaves, fails or halts. One rule per storage call and per combinator.
\<close>

section \<open>Operations that write one bucket at known keys\<close>

definition frames :: "bucket_id \<Rightarrow> string set \<Rightarrow> (fleet \<Rightarrow> bool) \<Rightarrow> bool" where
  "frames b X P = (\<forall>fl s'. P fl \<longrightarrow> evolves (fl b) s' \<longrightarrow> (\<forall>k. k \<notin> X \<longrightarrow> object_at s' k = object_at (fl b) k) \<longrightarrow> P (fl(b := s')))"

definition writes_only :: "bucket_id \<Rightarrow> string set \<Rightarrow> 'a act \<Rightarrow> bool" where
  "writes_only b X m = (\<forall>G P. frames b X P \<longrightarrow> stable G P \<longrightarrow> triple G P m (\<lambda>_. P))"

named_theorems writes_intros \<open>operations that write one bucket at known keys\<close>

lemma writes_onlyD: "writes_only b X m \<Longrightarrow> frames b X P \<Longrightarrow> stable G P \<Longrightarrow> triple G P m (\<lambda>_. P)"
  by (simp add: writes_only_def)

lemma framesD: "frames b X P \<Longrightarrow> P fl \<Longrightarrow> evolves (fl b) s' \<Longrightarrow> (\<And>k. k \<notin> X \<Longrightarrow> object_at s' k = object_at (fl b) k) \<Longrightarrow> P (fl(b := s'))"
  by (simp add: frames_def)

lemma frames_mono: "frames b Y P \<Longrightarrow> X \<subseteq> Y \<Longrightarrow> frames b X P"
  unfolding frames_def by (meson subsetD)

lemma writes_mono: "writes_only b X m \<Longrightarrow> X \<subseteq> Y \<Longrightarrow> writes_only b Y m"
  unfolding writes_only_def using frames_mono by blast

text \<open>Tag evidence is framed everywhere, the value of a key away from it.\<close>

lemma frames_proves: "frames b X (\<lambda>fl. sim.proves (fl b) key tag P)"
  by (simp add: frames_def sim.proves_stable)

lemma frames_conj: "frames b X P \<Longrightarrow> frames b X Q \<Longrightarrow> frames b X (\<lambda>fl. P fl \<and> Q fl)"
  unfolding frames_def by blast

lemma frames_const: "frames b X (\<lambda>_. c)"
  by (simp add: frames_def)

lemma writes_basic [writes_intros]: "writes_only b X (ret v)" "writes_only b X (fail e)"
  by (simp_all add: writes_only_def triple_ret triple_fail)

lemma writes_andThen [writes_intros]: "writes_only b X m \<Longrightarrow> (\<And>v. writes_only b X (f v)) \<Longrightarrow> writes_only b X (andThen m f)"
  by (simp add: writes_only_def triple_andThen_same)

lemma writes_onResult [writes_intros]:
  "writes_only b X m \<Longrightarrow> (\<And>e. writes_only b X (h e)) \<Longrightarrow> (\<And>v. writes_only b X (f v)) \<Longrightarrow> writes_only b X (onResult m h f)"
  unfolding writes_only_def by (blast intro: triple_onResult)

lemma writes_if [writes_intros]: "(c \<Longrightarrow> writes_only b X m) \<Longrightarrow> (\<not> c \<Longrightarrow> writes_only b X m') \<Longrightarrow> writes_only b X (if c then m else m')"
  by simp

lemma writes_case_option [writes_intros]:
  "writes_only b X m \<Longrightarrow> (\<And>v. writes_only b X (f v)) \<Longrightarrow> writes_only b X (case v of None \<Rightarrow> m | Some y \<Rightarrow> f y)"
  by (cases v) simp_all

lemma writes_case_prod [writes_intros]: "(\<And>u v. writes_only b X (f u v)) \<Longrightarrow> writes_only b X (case p of (u, v) \<Rightarrow> f u v)"
  by (cases p) simp

lemma writes_lift_res [writes_intros]: "writes_only b X (lift_res r)"
  by (cases r) (simp_all add: lift_res_def writes_basic)

lemma writes_pure: "(\<And>w. buckets (snd (m w)) = buckets w \<and> script (snd (m w)) = script w) \<Longrightarrow> writes_only b X m"
  unfolding writes_only_def triple_def obeys_def by (metis snd_conv)

lemma writes_nonces [writes_intros]: "writes_only b X marker_nonce" "writes_only b X (encode_claim J c)"
  by (rule writes_pure; simp add: marker_nonce_def encode_claim_run)+

lemma writes_read: "(\<And>s. snd (f s) = s) \<Longrightarrow> writes_only b X (call b' f)"
  unfolding writes_only_def by (blast intro: triple_read_call)

lemma writes_reads [writes_intros]:
  "writes_only b X (get_bytes b' k)" "writes_only b X (get_with_etag b' k)" "writes_only b X (head_exists b' k)" "writes_only b X (stored_size b' k)"
  unfolding get_bytes_def get_with_etag_def head_exists_def stored_size_def
  by (intro writes_read; simp split: option.splits)+

lemma frames_store: "frames b X P \<Longrightarrow> k \<in> X \<Longrightarrow> P fl \<Longrightarrow> P (fl(b := snd (store sha k bs (fl b))))"
  by (rule framesD) (auto simp: object_at_store store_evolves)

lemma frames_create_lost: "frames b X P \<Longrightarrow> P fl \<Longrightarrow> P (fl(b := create_lost sha k (fl b)))"
  by (rule framesD) (simp_all add: evolves_same_objects)

lemma frames_delete: "frames b X P \<Longrightarrow> set ks \<subseteq> X \<Longrightarrow> P fl \<Longrightarrow> P (fl(b := fold (delete_key sha) ks (fl b)))"
  by (rule framesD) (auto simp: object_at_delete_keys delete_keys_evolves)

lemma writes_puts:
  assumes "k \<in> X"
  shows "writes_only b X (put_bytes sha b k bs)" "writes_only b X (put_if_absent sha b k bs)"
    "writes_only b X (put_if_none_match sha b k bs)" "writes_only b X (put_if_match sha b k tag bs)"
  unfolding writes_only_def
  by (auto intro!: triple_put_bytes triple_put_if_absent triple_put_if_none_match triple_put_if_match_same
      intro: frames_store [OF _ assms] frames_create_lost)

lemma writes_delete_keys: "set ks \<subseteq> X \<Longrightarrow> writes_only b X (delete_keys sha b ks)"
  unfolding writes_only_def by (auto intro!: triple_delete_keys_same intro: frames_delete)

lemma writes_marks [writes_intros]:
  "writes_only b dirty_keys (mark_intent sha b pkg)" "writes_only b dirty_keys (mark_commit sha b pkg n)"
  unfolding mark_intent_def mark_intent_with_nonce_def mark_commit_def put_marker_def by (intro writes_intros writes_puts marker_key_dirty)+

lemma writes_read_origin [writes_intros]: "writes_only b X (read_origin_observation J b' pkg)"
  unfolding read_origin_observation_def by (intro writes_intros)

lemma triple_trivial: "writes_only b X m \<Longrightarrow> triple G (\<lambda>_. True) m (\<lambda>_ _. True)"
  by (drule writes_onlyD [where P = "\<lambda>_. True" and G = G]) (simp_all add: frames_def stable_def)

text \<open>A step that keeps an assertion, then the rest.\<close>

lemma triple_keeps: "writes_only b X m \<Longrightarrow> frames b X P \<Longrightarrow> stable G P \<Longrightarrow> triple G P m (both P (\<lambda>_. P))"
  by (rule triple_conseq [OF writes_onlyD]) (simp_all add: both_def split: sum.splits)

lemma triple_frame_andThen:
  "writes_only b X m \<Longrightarrow> frames b X P \<Longrightarrow> stable G P \<Longrightarrow> (\<And>x. triple G P (f x) Q) \<Longrightarrow> (\<And>e fl. P fl \<Longrightarrow> Q (Inl e) fl)
    \<Longrightarrow> triple G P (andThen m f) Q"
  by (rule triple_andThen [OF triple_keeps])

end
