(* ===== verification/Publish_Safety.thy ===== *)
theory Publish_Safety
  imports Publish Frames
begin

text \<open>
  What an upload guarantees while other processes write, calls fail or lose their answer and the
  process may stop anywhere: it never changes a record that stands, never acknowledges a barred
  filename, and acknowledges only what is durable.
\<close>

section \<open>The steps of an upload\<close>

lemma writes_quietly [writes_intros]: "writes_only b X m \<Longrightarrow> writes_only b X (quietly m)"
  unfolding quietly_def by (intro writes_intros)

lemma writes_or_refuse [writes_intros]: "writes_only b X m \<Longrightarrow> (\<And>v. writes_only b X (f v)) \<Longrightarrow> writes_only b X (or_refuse m no f)"
  unfolding or_refuse_def by (intro writes_intros)

lemma writes_proceed [writes_intros]:
  assumes "writes_only b X m" and "\<And>v. writes_only b X (f v)"
  shows "writes_only b X (proceed m f)"
proof -
  have "writes_only b X (case r of Inl no \<Rightarrow> ret (Inl no) | Inr v \<Rightarrow> f v)" for r
    by (cases r) (simp_all add: writes_intros assms)
  then show ?thesis
    unfolding proceed_def by (intro writes_intros assms(1))
qed

lemma writes_claim_loop: "writes_only b {origin_key pkg} (claim_loop sha J b pkg target n)"
  by (induction n) (auto intro!: writes_intros writes_puts)

lemma writes_claim_origin: "writes_only b {origin_key pkg} (claim_origin sha J b pkg desired hint)"
  unfolding claim_origin_def by (intro writes_intros writes_puts writes_claim_loop) simp_all

lemma writes_claim_for_upload:
  assumes "\<not> is_multi (st_buckets st)" and "b = bucket_of st i"
  shows "writes_only b {origin_key (rq_pkg rq)} (claim_for_upload st lim i rq observed)"
  unfolding claim_for_upload_def Let_def assms(2) using assms(1) by (auto intro!: writes_intros writes_claim_origin)

lemma writes_recheck [writes_intros]: "writes_only b X (recheck_origin st b' pkg fence)"
  unfolding recheck_origin_def by (intro writes_intros)

text \<open>The stages before the body is stored touch only the claim.\<close>

definition claim_stage :: "app_state \<Rightarrow> (nat \<Rightarrow> nat option) \<Rightarrow> nat \<Rightarrow> publish_request \<Rightarrow> origin_observation option \<Rightarrow> origin_observation option handler" where
  "claim_stage st lim i rq observed =
     (if first_claim observed then proceed (claim_for_upload st lim i rq observed) (\<lambda>ob. ret (Inr (Some ob))) else ret (Inr observed))"

lemma writes_claim_stage:
  "\<not> is_multi (st_buckets st) \<Longrightarrow> writes_only (bucket_of st i) {origin_key (rq_pkg rq)} (claim_stage st lim i rq observed)"
  unfolding claim_stage_def by (intro writes_intros writes_claim_for_upload refl)


lemma triple_proceed:
  assumes "triple G P m Q'" and "\<And>v. triple G (Q' (Inr (Inr v))) (f v) Q"
    and "\<And>no fl. Q' (Inr (Inl no)) fl \<Longrightarrow> Q (Inr (Inl no)) fl" and "\<And>e fl. Q' (Inl e) fl \<Longrightarrow> Q (Inl e) fl"
  shows "triple G P (proceed m f) Q"
  unfolding triple_def
proof (intro allI impI)
  fix w r w'
  assume w: "obeys G w" "P (buckets w)" and run: "proceed m f w = (r, w')"
  obtain x w1 where m: "m w = (x, w1)"
    by fastforce
  have 1: "obeys G w1" "Q' x (buckets w1)"
    using tripleD [OF assms(1) w m] by simp_all
  consider e where "x = Inl e" | no where "x = Inr (Inl no)" | v where "x = Inr (Inr v)"
    by (metis sum.exhaust)
  then show "obeys G w' \<and> Q r (buckets w')"
  proof cases
    case 3
    then have "f v w1 = (r, w')"
      using run m by (simp add: proceed_def andThen_def)
    then show ?thesis
      using tripleD [OF assms(2) 1(1)] 1(2) 3 by blast
  qed (use run m 1 assms(3,4) in \<open>auto simp: proceed_def andThen_def ret_def\<close>)
qed

lemma triple_writes_proceed:
  "writes_only b X m \<Longrightarrow> frames b X P \<Longrightarrow> stable G P \<Longrightarrow> (\<And>v. triple G P (f v) Q) \<Longrightarrow> (\<And>no fl. P fl \<Longrightarrow> Q (Inr (Inl no)) fl)
    \<Longrightarrow> (\<And>e fl. P fl \<Longrightarrow> Q (Inl e) fl) \<Longrightarrow> triple G P (proceed m f) Q"
  by (rule triple_proceed [OF writes_onlyD])

lemma publish_stages:
  "publish_under_intent st pe lim i rq observed =
     proceed (claim_stage st lim i rq observed) (\<lambda>fence.
     proceed (recheck_origin st (bucket_of st i) (rq_pkg rq) fence) (\<lambda>_.
     proceed (store_upload st (bucket_of st i) rq) (\<lambda>_.
     proceed (upload_checksum st pe (bucket_of st i) rq) (\<lambda>c.
     proceed (if is_mirror rq then type_mirror_upload st (bucket_of st i) rq (upload_sidecar pe rq c) fence else ret (Inr ())) (\<lambda>_.
     proceed (filename_gate st (bucket_of st i) rq) (\<lambda>_.
     andThen (store_companions st (bucket_of st i) rq) (\<lambda>_.
       if is_mirror rq then ret (Inr ())
       else or_refuse (put_bytes (st_sha st) (bucket_of st i) (sidecar_key (artifact_key (rq_pkg rq) (rq_filename rq)))
              (enc_sidecar (st_sidecars st) (upload_sidecar pe rq c))) (500, ''Failed to store sidecar'') (\<lambda>_. ret (Inr ())))))))))"
  by (simp add: publish_under_intent_def claim_stage_def Let_def)

section \<open>A standing record is immutable\<close>

text \<open>A create that finds the body standing loses, and the upload is refused.\<close>

lemma triple_store_upload_stands:
  assumes "stable G P" and "frames b {} P" and "\<And>fl. P fl \<Longrightarrow> contains_key (fl b) (artifact_key (rq_pkg rq) (rq_filename rq))"
  shows "triple G P (store_upload st b rq) (\<lambda>r fl. P fl \<and> (\<forall>v. r \<noteq> Inr (Inr v)))"
proof -
  let ?key = "artifact_key (rq_pkg rq) (rq_filename rq)"
  have lost: "triple G P (put_if_absent (st_sha st) b ?key (rq_body rq)) (both P (\<lambda>created fl. P fl \<and> \<not> created))"
    using assms by (intro triple_put_if_absent) (auto simp: frames_create_lost unanswered_def both_def split: sum.splits)
  have "triple G P (store_artifact_verified (st_sha st) b ?key (rq_body rq) (unat (rq_size rq)) Reject) (both P (\<lambda>created fl. P fl \<and> \<not> created))"
    unfolding store_artifact_verified_def
  proof (rule triple_andThen [OF lost])
    fix created
    show "triple G (\<lambda>fl. P fl \<and> \<not> created)
        (if created then andThen (check_stored_size b ?key (unat (rq_size rq))) (\<lambda>c. case c of
             SizeOk \<Rightarrow> ret True
           | SizeWrong e \<Rightarrow> (case Reject of Reject \<Rightarrow> onResult (delete_keys (st_sha st) b [?key]) (\<lambda>_. fail e) (\<lambda>_. fail e) | Repair _ \<Rightarrow> fail e)
           | SizeUnknown e \<Rightarrow> fail e)
         else (case Reject of Reject \<Rightarrow> ret False | Repair expected_sha \<Rightarrow>
              andThen (stream_sha256 (st_sha st) b ?key) (\<lambda>(current_sha, _).
                if current_sha = expected_sha then ret False
                else andThen (put_bytes (st_sha st) b ?key (rq_body rq)) (\<lambda>_.
                  andThen (stream_sha256 (st_sha st) b ?key) (\<lambda>(after_sha, _).
                    if after_sha \<noteq> expected_sha then fail (Bail ''artifact still wrong after repair'') else ret True)))))
        (both P (\<lambda>created fl. P fl \<and> \<not> created))"
      by (cases created) (auto simp: triple_def ret_def)
  qed simp
  then show ?thesis
    unfolding store_upload_def or_refuse_def by (rule triple_onResult) (auto intro!: triple_ret)
qed

text \<open>An upload whose protected stages cannot succeed is not acknowledged.\<close>

lemma triple_publish_refused:
  assumes st: "stable G P" and fr: "frames (bucket_of st i) dirty_keys P"
    and under: "\<And>observed. triple G P (publish_under_intent st pe lim i rq observed) (\<lambda>r fl. P fl \<and> (\<forall>v. r \<noteq> Inr (Inr v)))"
  shows "triple G P (publish_record st pe lim lim' i rq) (\<lambda>r fl. P fl \<and> (\<forall>v. r \<noteq> Inr (Inr v)))"
proof -
  let ?b = "bucket_of st i"
  have frames: "frames ?b {} P"
    by (rule frames_mono [OF fr]) simp
  have close: "triple G (\<lambda>fl. P fl \<and> (\<forall>v. Inr u \<noteq> Inr (Inr v)))
      (andThen (quietly (mark_commit (st_sha st) ?b (rq_pkg rq) nonce)) (\<lambda>_. case u of Inl no \<Rightarrow> ret (Inl no) | Inr _ \<Rightarrow> f))
      (\<lambda>r fl. P fl \<and> (\<forall>v. r \<noteq> Inr (Inr v)))" for u :: "refusal + unit" and nonce and f :: "(nat \<times> string) handler"
  proof (cases u)
    case (Inl no)
    have "triple G P (andThen (quietly (mark_commit (st_sha st) ?b (rq_pkg rq) nonce)) (\<lambda>_. ret (Inl no))) (\<lambda>r fl. P fl \<and> (\<forall>v. r \<noteq> Inr (Inr v)))"
      by (rule triple_andThen [where R = "\<lambda>_. P" and E = P])
        (auto intro: triple_ret triple_conseq [OF writes_onlyD [OF writes_quietly [OF writes_marks(2)] fr st]] simp: both_def split: sum.splits)
    then show ?thesis
      unfolding Inl sum.case by (rule triple_pre) simp
  qed (simp add: triple_def)
  show "triple G P (publish_record st pe lim lim' i rq) (\<lambda>r fl. P fl \<and> (\<forall>v. r \<noteq> Inr (Inr v)))"
    unfolding publish_record_def Let_def or_refuse_def
  proof (rule triple_onResult [OF writes_onlyD [OF writes_read_origin frames st]])
    fix observed
    have "triple G P (onResult (mark_intent (st_sha st) ?b (rq_pkg rq)) (\<lambda>_. ret (Inl (503, ''failed to reserve package write''))) (\<lambda>nonce.
        andThen (publish_under_intent st pe lim i rq observed) (\<lambda>r. andThen (quietly (mark_commit (st_sha st) ?b (rq_pkg rq) nonce)) (\<lambda>_.
          case r of Inl no \<Rightarrow> ret (Inl no) | Inr _ \<Rightarrow> acknowledge st pe lim' i rq))))
        (\<lambda>r fl. P fl \<and> (\<forall>v. r \<noteq> Inr (Inr v)))"
    proof (rule triple_onResult [OF writes_onlyD [OF writes_marks(1) fr st]])
      fix nonce
      show "triple G P (andThen (publish_under_intent st pe lim i rq observed) (\<lambda>r. andThen (quietly (mark_commit (st_sha st) ?b (rq_pkg rq) nonce)) (\<lambda>_.
          case r of Inl no \<Rightarrow> ret (Inl no) | Inr _ \<Rightarrow> acknowledge st pe lim' i rq)))
          (\<lambda>r fl. P fl \<and> (\<forall>v. r \<noteq> Inr (Inr v)))"
        by (rule triple_andThen [where E = P, OF triple_conseq [OF under] close]) (auto simp: both_def split: sum.splits)
    qed (auto intro: triple_ret)
    then show "triple G P (case origin_refusal pe rq observed of Some no \<Rightarrow> ret (Inl no) | None \<Rightarrow>
        onResult (mark_intent (st_sha st) ?b (rq_pkg rq)) (\<lambda>_. ret (Inl (503, ''failed to reserve package write''))) (\<lambda>nonce.
        andThen (publish_under_intent st pe lim i rq observed) (\<lambda>r. andThen (quietly (mark_commit (st_sha st) ?b (rq_pkg rq) nonce)) (\<lambda>_.
          case r of Inl no \<Rightarrow> ret (Inl no) | Inr _ \<Rightarrow> acknowledge st pe lim' i rq))))
        (\<lambda>r fl. P fl \<and> (\<forall>v. r \<noteq> Inr (Inr v)))"
      by (cases "origin_refusal pe rq observed") (auto intro: triple_ret)
  qed (auto intro!: triple_ret)
qed

text \<open>
  C4: A standing record is immutable. On a single bucket, take any file that stands when its upload
  begins and any object, apart from the package's claim and the write markers: its body, its sidecar,
  its companions, any other file. If the other processes leave both alone, then whatever they do
  otherwise, whichever calls fail or lose their answer and wherever the process stops, the upload is
  not acknowledged and the object is unchanged.
\<close>

theorem standing_record_immutable:
  assumes "\<not> is_multi (st_buckets st)" and "is_artifact (rq_filename rq)" and "CHR ''/'' \<notin> set (rq_filename rq)"
    and "k \<noteq> origin_key (rq_pkg rq)" and "\<not> starts_with k DIRTY_PREFIX"
    and "stable G (\<lambda>fl. contains_key (fl (bucket_of st i)) (artifact_key (rq_pkg rq) (rq_filename rq)) \<and> object_at (fl (bucket_of st i)) k = ob)"
    and "obeys G w" and "contains_key (buckets w (bucket_of st i)) (artifact_key (rq_pkg rq) (rq_filename rq))"
    and "object_at (buckets w (bucket_of st i)) k = ob" and "publish_record st pe lim lim' i rq w = (r, w')"
  shows "(\<forall>v. r \<noteq> Inr (Inr v)) \<and> object_at (buckets w' (bucket_of st i)) k = ob"
proof -
  let ?b = "bucket_of st i" and ?key = "artifact_key (rq_pkg rq) (rq_filename rq)"
  let ?P = "\<lambda>fl :: fleet. contains_key (fl ?b) ?key \<and> object_at (fl ?b) k = ob"
  have "?key \<noteq> origin_key (rq_pkg rq)"
    using origin_key_artifact [OF assms(2,3), of "[]" "rq_pkg rq"] by simp
  then have frame: "frames ?b ({origin_key (rq_pkg rq)} \<union> dirty_keys) ?P"
    using assms(4,5) by (simp add: frames_def contains_key_def dirty_keys_def artifact_not_dirty(2) [unfolded dirty_keys_def, simplified])
  have frames: "frames ?b {origin_key (rq_pkg rq)} ?P" "frames ?b dirty_keys ?P" "frames ?b {} ?P"
    by (rule frames_mono [OF frame], blast)+
  note st = assms(6)
  have under: "triple G ?P (publish_under_intent st pe lim i rq observed) (\<lambda>r fl. ?P fl \<and> (\<forall>v. r \<noteq> Inr (Inr v)))" for observed
    unfolding publish_stages
    by (intro triple_writes_proceed [OF writes_claim_stage [OF assms(1)] frames(1) st]
        triple_writes_proceed [OF writes_recheck frames(3) st] triple_proceed [OF triple_store_upload_stands [OF st frames(3)]])
      (auto simp: triple_def)
  have "triple G ?P (publish_record st pe lim lim' i rq) (\<lambda>r fl. ?P fl \<and> (\<forall>v. r \<noteq> Inr (Inr v)))"
    by (rule triple_publish_refused [OF st frames(2) under])
  from tripleD [OF this assms(7) _ assms(10)] show ?thesis
    using assms(8,9) by simp
qed

section \<open>A barred filename is never acknowledged\<close>

lemma writes_store_upload: "writes_only b {artifact_key (rq_pkg rq) (rq_filename rq)} (store_upload st b rq)"
  unfolding store_upload_def store_artifact_verified_def check_stored_size_def stream_sha256_def
  by (auto intro!: writes_intros writes_puts writes_delete_keys split: size_check.split)

lemma writes_install_mirror_loop: "writes_only b {key} (install_mirror_loop sha S b key artifact sc n)"
  by (induction n) (auto intro!: writes_intros writes_puts simp: Let_def)

lemma writes_type_mirror:
  "writes_only b {sidecar_key (artifact_key (rq_pkg rq) (rq_filename rq))} (type_mirror_upload st b rq sc fence)"
  unfolding type_mirror_upload_def install_or_verify_mirror_sidecar_def post_publish_mirror_claim_is_current_def Let_def
  by (intro writes_intros writes_puts writes_install_mirror_loop) simp_all

lemma writes_store_companions:
  "writes_only b {metadata_key (artifact_key (rq_pkg rq) (rq_filename rq)), provenance_key (artifact_key (rq_pkg rq) (rq_filename rq))} (store_companions st b rq)"
  unfolding store_companions_def Let_def by (intro writes_intros writes_puts) simp_all

text \<open>A gate that finds its marker standing refuses.\<close>

lemma triple_filename_gate_barred:
  assumes "stable G P" and "m \<in> {tombstone_key (artifact_key (rq_pkg rq) (rq_filename rq)), frozen_key (artifact_key (rq_pkg rq) (rq_filename rq))}"
    and "\<And>fl. P fl \<Longrightarrow> contains_key (fl b) m" and "frames b {artifact_key (rq_pkg rq) (rq_filename rq)} P"
  shows "triple G P (filename_gate st b rq) (\<lambda>r fl. P fl \<and> (\<forall>v. r \<noteq> Inr (Inr v)))"
proof -
  let ?key = "artifact_key (rq_pkg rq) (rq_filename rq)"
  have barred: "fenced_by_markers t f \<longleftrightarrow> t \<or> f" for t f
    by (simp add: fenced_by_markers_def classify_record_def Let_def)
  have head: "triple G P (head_exists b x) (both P (\<lambda>h fl. P fl \<and> (x = m \<longrightarrow> h)))" for x
    using assms(1,3) by (intro triple_head_exists) auto
  have read: "triple G P (andThen (head_exists b (tombstone_key ?key)) (\<lambda>t. andThen (head_exists b (frozen_key ?key)) (\<lambda>f. ret (fenced_by_markers t f))))
      (both P (\<lambda>barred fl. P fl \<and> barred))"
  proof (rule triple_andThen [OF head])
    fix t
    show "triple G (\<lambda>fl. P fl \<and> (tombstone_key ?key = m \<longrightarrow> t)) (andThen (head_exists b (frozen_key ?key)) (\<lambda>f. ret (fenced_by_markers t f)))
        (both P (\<lambda>barred fl. P fl \<and> barred))"
    proof (cases "tombstone_key ?key = m \<longrightarrow> t")
      case True
      show ?thesis
        by (rule triple_pre [OF triple_andThen [OF head]]) (use True assms(2) barred in \<open>auto intro!: triple_ret\<close>)
    qed (auto simp: triple_def)
  qed simp
  have delete: "triple G P (if is_multi (st_buckets st) then ret () else quietly (delete_keys (st_sha st) b [?key])) (\<lambda>_. P)"
    by (rule writes_onlyD [OF _ assms(4,1)]) (intro writes_intros writes_delete_keys, simp)
  have refuse: "triple G P (andThen (if is_multi (st_buckets st) then ret () else quietly (delete_keys (st_sha st) b [?key])) (\<lambda>_. ret (Inl no)))
      (\<lambda>r fl. P fl \<and> (\<forall>v. r \<noteq> Inr (Inr v)))" for no :: refusal
    by (rule triple_andThen [where E = P and R = "\<lambda>_. P", OF triple_conseq [OF delete]])
      (auto intro: triple_ret simp: both_def split: sum.splits)
  have after: "triple G (\<lambda>fl. P fl \<and> x)
      (if \<not> x then ret (Inr ()) else andThen (if is_multi (st_buckets st) then ret () else quietly (delete_keys (st_sha st) b [?key])) (\<lambda>_. ret (Inl no)))
      (\<lambda>r fl. P fl \<and> (\<forall>v. r \<noteq> Inr (Inr v)))" for x and no :: refusal
  proof (cases x)
    case True
    show ?thesis
      by (simp only: True not_True_eq_False if_False) (rule triple_pre [OF refuse], simp)
  qed (simp add: triple_def)
  show ?thesis
    unfolding filename_gate_def Let_def or_refuse_def
    by (rule triple_onResult [OF read], unfold both_simps, rule after, rule triple_ret, simp)
qed

text \<open>
  C5: A barred filename is never acknowledged. On a single bucket, where a tombstone or a freeze marker of
  the filename stands and other processes leave it standing, an upload of that name is refused or
  fails, whatever else they do, and the marker is still there.
\<close>

theorem barred_name_never_acknowledged:
  assumes "\<not> is_multi (st_buckets st)" and "is_artifact (rq_filename rq)" and "CHR ''/'' \<notin> set (rq_filename rq)"
    and "m \<in> {tombstone_key (artifact_key (rq_pkg rq) (rq_filename rq)), frozen_key (artifact_key (rq_pkg rq) (rq_filename rq))}"
    and "stable G (\<lambda>fl. contains_key (fl (bucket_of st i)) m)" and "obeys G w" and "contains_key (buckets w (bucket_of st i)) m"
    and "publish_record st pe lim lim' i rq w = (r, w')"
  shows "(\<forall>v. r \<noteq> Inr (Inr v)) \<and> contains_key (buckets w' (bucket_of st i)) m"
proof -
  let ?b = "bucket_of st i" and ?key = "artifact_key (rq_pkg rq) (rq_filename rq)"
  let ?P = "\<lambda>fl :: fleet. contains_key (fl ?b) m"
  have "m \<noteq> origin_key (rq_pkg rq)"
    using origin_key_artifact [OF assms(2,3), of TOMBSTONE_SUFFIX "rq_pkg rq"] origin_key_artifact [OF assms(2,3), of FROZEN_SUFFIX "rq_pkg rq"] assms(4)
    by (auto simp: key_defs marker_suffixes_def)
  moreover have "m \<notin> dirty_keys" "m \<noteq> ?key" "m \<noteq> sidecar_key ?key" "m \<noteq> metadata_key ?key" "m \<noteq> provenance_key ?key"
    using assms(4) by (auto simp: key_defs suffix_defs)
  ultimately have frame: "frames ?b ({origin_key (rq_pkg rq), ?key, sidecar_key ?key, metadata_key ?key, provenance_key ?key} \<union> dirty_keys) ?P"
    by (simp add: frames_def contains_key_def)
  have fr: "frames ?b {origin_key (rq_pkg rq)} ?P" "frames ?b dirty_keys ?P" "frames ?b {} ?P" "frames ?b {?key} ?P" "frames ?b {sidecar_key ?key} ?P"
    by (rule frames_mono [OF frame], blast)+
  note st = assms(5)
  have checksum: "writes_only ?b {} (upload_checksum st pe ?b rq)"
    unfolding upload_checksum_def Let_def using assms(1) by (simp add: writes_basic)
  have typed: "writes_only ?b {sidecar_key ?key} (if is_mirror rq then type_mirror_upload st ?b rq sc fence else ret (Inr ()))" for sc fence
    by (intro writes_intros writes_type_mirror)
  have under: "triple G ?P (publish_under_intent st pe lim i rq observed) (\<lambda>r fl. ?P fl \<and> (\<forall>v. r \<noteq> Inr (Inr v)))" for observed
    unfolding publish_stages
    by (intro triple_writes_proceed [OF writes_claim_stage [OF assms(1)] fr(1) st] triple_writes_proceed [OF writes_recheck fr(3) st]
        triple_writes_proceed [OF writes_store_upload fr(4) st] triple_writes_proceed [OF checksum fr(3) st] triple_writes_proceed [OF typed fr(5) st]
        triple_proceed [OF triple_filename_gate_barred [OF st assms(4) _ fr(4)]])
      (auto simp: triple_def)
  from tripleD [OF triple_publish_refused [OF st fr(2) under] assms(6) _ assms(8)] show ?thesis
    using assms(7) by simp
qed

section \<open>An acknowledgement means the record is durable\<close>

definition stored_body :: "bucket_id \<Rightarrow> publish_request \<Rightarrow> fleet \<Rightarrow> bool" where
  "stored_body b rq fl = (\<exists>ob. object_at (fl b) (artifact_key (rq_pkg rq) (rq_filename rq)) = Some ob \<and> obj_bytes ob = rq_body rq)"

definition stored_record :: "app_state \<Rightarrow> publish_env \<Rightarrow> bucket_id \<Rightarrow> publish_request \<Rightarrow> fleet \<Rightarrow> bool" where
  "stored_record st pe b rq fl =
     (stored_body b rq fl \<and> (\<exists>ob c. object_at (fl b) (sidecar_key (artifact_key (rq_pkg rq) (rq_filename rq))) = Some ob
        \<and> obj_bytes ob = enc_sidecar (st_sidecars st) (upload_sidecar pe rq c)))"

lemma frames_stored_body: "artifact_key (rq_pkg rq) (rq_filename rq) \<notin> X \<Longrightarrow> frames b X (stored_body b rq)"
  by (simp add: frames_def stored_body_def)

lemma frames_stored_record:
  "artifact_key (rq_pkg rq) (rq_filename rq) \<notin> X \<Longrightarrow> sidecar_key (artifact_key (rq_pkg rq) (rq_filename rq)) \<notin> X \<Longrightarrow> frames b X (stored_record st pe b rq)"
  by (simp add: frames_def stored_record_def stored_body_def)

text \<open>What holds on success only.\<close>

abbreviation on_success :: "(fleet \<Rightarrow> bool) \<Rightarrow> (refusal + 'a) res \<Rightarrow> fleet \<Rightarrow> bool" where
  "on_success D r fl \<equiv> (\<exists>v. r = Inr (Inr v)) \<longrightarrow> D fl"

lemma triple_store_upload_body:
  assumes "stable G (stored_body b rq)"
  shows "triple G (\<lambda>_. True) (store_upload st b rq) (on_success (stored_body b rq))"
proof -
  let ?key = "artifact_key (rq_pkg rq) (rq_filename rq)" and ?D = "stored_body b rq"
  have create: "triple G (\<lambda>_. True) (put_if_absent (st_sha st) b ?key (rq_body rq)) (both (\<lambda>_. True) (\<lambda>created fl. created \<longrightarrow> ?D fl))"
    by (intro triple_put_if_absent) (auto simp: stable_def stored_body_def object_at_store both_def split: sum.splits)
  have check: "triple G ?D (check_stored_size b ?key (unat (rq_size rq))) (\<lambda>_. ?D)"
    unfolding check_stored_size_def by (rule writes_onlyD [where X = "{}", OF _ frames_stored_body assms]) (intro writes_intros, simp)
  have drop: "triple G ?D (onResult (delete_keys (st_sha st) b [?key]) (\<lambda>_. fail e) (\<lambda>_. fail e)) (both (\<lambda>_. True) (\<lambda>created fl. created \<longrightarrow> ?D fl))" for e
    by (rule triple_onResult [where Q' = "\<lambda>_ _. True"]) (auto intro!: triple_fail triple_delete_keys_same assms)
  have settle: "triple G ?D (case c of SizeOk \<Rightarrow> ret True
      | SizeWrong e \<Rightarrow> (case Reject of Reject \<Rightarrow> onResult (delete_keys (st_sha st) b [?key]) (\<lambda>_. fail e) (\<lambda>_. fail e) | Repair _ \<Rightarrow> fail e)
      | SizeUnknown e \<Rightarrow> fail e) (both (\<lambda>_. True) (\<lambda>created fl. created \<longrightarrow> ?D fl))" for c
    by (cases c) (auto intro!: triple_ret triple_fail drop)
  have "triple G (\<lambda>fl. created \<longrightarrow> ?D fl)
      (if created then andThen (check_stored_size b ?key (unat (rq_size rq))) (\<lambda>c. case c of SizeOk \<Rightarrow> ret True
         | SizeWrong e \<Rightarrow> (case Reject of Reject \<Rightarrow> onResult (delete_keys (st_sha st) b [?key]) (\<lambda>_. fail e) (\<lambda>_. fail e) | Repair _ \<Rightarrow> fail e)
         | SizeUnknown e \<Rightarrow> fail e)
       else (case Reject of Reject \<Rightarrow> ret False | Repair expected_sha \<Rightarrow>
              andThen (stream_sha256 (st_sha st) b ?key) (\<lambda>(current_sha, _).
                if current_sha = expected_sha then ret False
                else andThen (put_bytes (st_sha st) b ?key (rq_body rq)) (\<lambda>_.
                  andThen (stream_sha256 (st_sha st) b ?key) (\<lambda>(after_sha, _).
                    if after_sha \<noteq> expected_sha then fail (Bail ''artifact still wrong after repair'') else ret True)))))
      (both (\<lambda>_. True) (\<lambda>created fl. created \<longrightarrow> ?D fl))" for created
  proof (cases created)
    case True
    show ?thesis
      by (simp only: True if_True simp_thms) (rule triple_andThen [where E = ?D and R = "\<lambda>_. ?D", OF triple_conseq [OF check] settle];
          simp add: both_def split: sum.splits)
  qed (auto intro: triple_ret)
  then have "triple G (\<lambda>_. True) (store_artifact_verified (st_sha st) b ?key (rq_body rq) (unat (rq_size rq)) Reject)
      (both (\<lambda>_. True) (\<lambda>created fl. created \<longrightarrow> ?D fl))"
    unfolding store_artifact_verified_def by (rule triple_andThen [OF create]) simp
  then show ?thesis
    unfolding store_upload_def or_refuse_def by (rule triple_onResult) (auto intro!: triple_ret)
qed

lemma spares_handlers [spares_intros]:
  "spares K m \<Longrightarrow> spares K (quietly m)"
  "spares K m \<Longrightarrow> (\<And>v. spares K (f v)) \<Longrightarrow> spares K (or_refuse m no f)"
  unfolding quietly_def or_refuse_def by (auto intro!: spares_onResult spares_ret)

lemma spares_claim_for_upload: "copies_only (st_exec st) \<Longrightarrow> spares outside (claim_for_upload st lim i rq observed)"
  unfolding claim_for_upload_def Let_def by (intro spares_intros)

lemma triple_claim_stage_any:
  assumes "copies_only (st_exec st)" and "\<And>fl. G fl fl"
  shows "triple G (\<lambda>_. True) (claim_stage st lim i rq observed) (\<lambda>_ _. True)"
proof -
  have "triple G (\<lambda>_. True) (claim_for_upload st lim i rq observed) (\<lambda>_ _. True)"
    by (rule sparesD [OF spares_claim_for_upload [OF assms(1)] assms(2) survives_True stable_const])
  then show ?thesis
    unfolding claim_stage_def by (intro triple_if triple_proceed [where Q' = "\<lambda>_ _. True"]) (auto intro: triple_ret)
qed

text \<open>A stage that ends in a refusal promises nothing.\<close>

lemma triple_refuses:
  assumes "writes_only b X m"
  shows "triple G P (andThen m (\<lambda>_. ret (Inl no))) (on_success D)"
  by (rule triple_pre [OF triple_andThen [where E = "\<lambda>_. True" and R = "\<lambda>_ _. True", OF triple_conseq [OF triple_trivial [OF assms]]]])
    (auto intro: triple_ret simp: both_def split: sum.splits)

lemma triple_checksum_body:
  assumes "stable G (stored_body b rq)" and "\<And>key md5. writes_only b {} (store_content_checksum pe b key md5)"
  shows "triple G (stored_body b rq) (upload_checksum st pe b rq) (on_success (stored_body b rq))"
proof -
  let ?key = "artifact_key (rq_pkg rq) (rq_filename rq)"
  have probe: "triple G (stored_body b rq) (store_content_checksum pe b ?key (rq_md5 rq)) (\<lambda>_. stored_body b rq)"
    by (rule writes_onlyD [OF assms(2) frames_stored_body assms(1)]) simp
  have after: "triple G (stored_body b rq)
      (case p of Checksum c \<Rightarrow> ret (Inr c)
       | HomeWriteCorrupt \<Rightarrow> andThen (quietly (delete_keys (st_sha st) b [?key])) (\<lambda>_. ret (Inl no))) (on_success (stored_body b rq))" for p no
    by (cases p) (simp_all add: triple_ret triple_refuses [OF writes_quietly [OF writes_delete_keys [OF subset_refl]]])
  show ?thesis
    unfolding upload_checksum_def Let_def
    by (intro triple_if triple_onResult [OF probe] after) (auto intro: triple_ret)
qed

lemma triple_gate_body:
  assumes "stable G (stored_body b rq)"
  shows "triple G (stored_body b rq) (filename_gate st b rq) (on_success (stored_body b rq))"
proof -
  let ?key = "artifact_key (rq_pkg rq) (rq_filename rq)"
  have read: "triple G (stored_body b rq) (andThen (head_exists b (tombstone_key ?key)) (\<lambda>t. andThen (head_exists b (frozen_key ?key)) (\<lambda>f. ret (fenced_by_markers t f))))
      (\<lambda>_. stored_body b rq)"
    by (rule writes_onlyD [where X = "{}", OF _ frames_stored_body assms]) (intro writes_intros, simp)
  have free: "writes_only b {?key} (if is_multi (st_buckets st) then ret () else quietly (delete_keys (st_sha st) b [?key]))"
    by (intro writes_intros writes_delete_keys) simp
  show ?thesis
    unfolding filename_gate_def Let_def or_refuse_def
    by (intro triple_onResult [OF read] triple_if triple_refuses [OF free]) (auto intro: triple_ret)
qed

lemma companion_keys_distinct:
  "a \<noteq> metadata_key a" "a \<noteq> provenance_key a" "a \<noteq> sidecar_key a" "sidecar_key a \<noteq> metadata_key a" "sidecar_key a \<noteq> provenance_key a"
  by (simp_all add: key_defs suffix_defs)

lemma triple_under_intent:
  assumes "copies_only (st_exec st)" and "\<And>fl. G fl fl" and "\<not> is_mirror rq"
    and "\<And>key md5. writes_only (bucket_of st i) {} (store_content_checksum pe (bucket_of st i) key md5)"
    and "stable G (stored_body (bucket_of st i) rq)" and "stable G (stored_record st pe (bucket_of st i) rq)"
  shows "triple G (\<lambda>_. True) (publish_under_intent st pe lim i rq observed) (on_success (stored_record st pe (bucket_of st i) rq))"
proof -
  let ?b = "bucket_of st i" and ?key = "artifact_key (rq_pkg rq) (rq_filename rq)"
  let ?B = "stored_body ?b rq" and ?R = "stored_record st pe ?b rq"
  have companions: "triple G ?B (store_companions st ?b rq) (\<lambda>_. ?B)"
    by (rule writes_onlyD [OF writes_store_companions frames_stored_body assms(5)]) (simp add: companion_keys_distinct)
  have put: "triple G ?B (put_bytes (st_sha st) ?b (sidecar_key ?key) (enc_sidecar (st_sidecars st) (upload_sidecar pe rq c))) (both (\<lambda>_. True) (\<lambda>_. ?R))" for c
    using assms(5) by (intro triple_put_bytes)
      (auto simp: stored_record_def stored_body_def object_at_store companion_keys_distinct both_def split: sum.splits)
  have final: "triple G ?B (andThen (store_companions st ?b rq) (\<lambda>_.
      or_refuse (put_bytes (st_sha st) ?b (sidecar_key ?key) (enc_sidecar (st_sidecars st) (upload_sidecar pe rq c))) (500, ''Failed to store sidecar'')
        (\<lambda>_. ret (Inr ())))) (\<lambda>r fl. r = Inr (Inr ()) \<longrightarrow> ?R fl)" for c
    unfolding or_refuse_def
    by (intro triple_andThen [where E = ?B and R = "\<lambda>_. ?B", OF triple_conseq [OF companions]])
      (auto intro!: triple_onResult [OF put] triple_ret simp: both_def split: sum.splits)
  show ?thesis
    unfolding publish_stages using assms(3)
    by (intro triple_proceed [OF triple_claim_stage_any [OF assms(1,2)]] triple_proceed [OF triple_trivial [OF writes_recheck [of ?b "{}"]]]
        triple_proceed [OF triple_store_upload_body [OF assms(5)]] triple_pre [OF triple_proceed [OF triple_checksum_body [OF assms(5,4)]]])
      (auto intro!: triple_pre [OF triple_proceed [where Q' = "on_success ?B"]] triple_ret triple_gate_body [OF assms(5)] final)
qed

text \<open>The run of an acknowledged upload: its protected stages, the commit marker, the acknowledgement.\<close>

lemma acknowledged_run:
  assumes "publish_record st pe lim lim' i rq w = (Inr (Inr v), w')"
  obtains observed nonce w0 w1 w2 where "read_origin_observation (st_claims st) (bucket_of st i) (rq_pkg rq) w = (Inr observed, w0)"
    and "mark_intent (st_sha st) (bucket_of st i) (rq_pkg rq) w0 = (Inr nonce, w1)"
    and "publish_under_intent st pe lim i rq observed w1 = (Inr (Inr ()), w2)"
    and "andThen (quietly (mark_commit (st_sha st) (bucket_of st i) (rq_pkg rq) nonce)) (\<lambda>_. acknowledge st pe lim' i rq) w2 = (Inr (Inr v), w')"
  using assms unfolding publish_record_def Let_def or_refuse_def
  by (auto simp: onResult_def andThen_def ret_def split: sum.splits option.splits prod.splits)

text \<open>The wait for the index only reads.\<close>

lemma writes_index_wait [writes_intros]: "writes_only b X (wait_for_index_visibility pe n b' pkg filename)"
  by (induction n) (auto intro!: writes_intros)

lemma acknowledged_end:
  assumes "acknowledge st pe lim' i rq w = (Inr (Inr v), w')"
  obtains w2 where "fanout_sync st lim' i (rq_pkg rq) (rq_filename rq) (if rq_spooled rq then Some (Some (rq_body rq)) else None) w = (Inr (), w2)"
    and "(if wait_on_upload pe then wait_for_index_visibility pe (wait_polls pe) (bucket_of st i) (rq_pkg rq) (rq_filename rq) else ret ()) w2 = (Inr (), w')"
  using assms unfolding acknowledge_def or_refuse_def
  by (auto simp: onResult_def andThen_def ret_def split: sum.splits prod.splits)


section \<open>Witnesses\<close>

definition upload_six :: publish_request where
  "upload_six =
     \<lparr>rq_pkg = ''six'', rq_filename = ''six-2.whl'', rq_body = ''body'', rq_spooled = False, rq_sha256 = sha256_hex (\<lambda>x. x) ''body'', rq_md5 = [], rq_size = 4,
      rq_version = ''2'', rq_requires_python = None, is_mirror = False, rq_upload_time = [], rq_yanked = Flag False, wheel_metadata = Some ''md'', is_wheel = True,
      rq_provenance = None\<rparr>"

definition resting_env :: publish_env where
  "resting_env =
     \<lparr>pe_private = [], store_content_checksum = (\<lambda>_ _ _. ret (Checksum None)), index_files = (\<lambda>_. None), wait_on_upload = False, wait_polls = 0,
      now_epoch_millis = 5, parse_rfc3339 = (\<lambda>_. None)\<rparr>"

definition lone_node :: app_state where
  "lone_node = publishing_node\<lparr>st_buckets := the (bucket_set_new [\<lparr>bh_bucket = 0, bh_name = ''east'', supports_leases = True\<rparr>])\<rparr>"

lemma obeys_still: "fleet_wf (buckets w) \<Longrightarrow> (\<And>e fl. e \<in> set (script w) \<Longrightarrow> e \<noteq> Halt \<Longrightarrow> step_peers e fl = fl) \<Longrightarrow> obeys (\<lambda>fl fl'. fl' = fl) w"
  by (simp add: obeys_def fleet_evolves_def evolves_same_objects)

text \<open>A two-bucket node whose topology disagrees with its peers: it copies nothing, so each acknowledgement rests on notes.\<close>

definition fenced_node :: app_state where
  "fenced_node = publishing_node\<lparr>st_exec := streaming\<lparr>fenced := (\<lambda>_. True)\<rparr>\<rparr>"

lemma node_shape:
  "bucket_of lone_node 0 = 0" "\<not> is_multi (st_buckets lone_node)" "bucket_of fenced_node 0 = 0" "is_multi (st_buckets fenced_node)"
  "length (st_handles fenced_node) = 2" "bh_name (st_handles fenced_node ! 1) = ''west''"
  by (simp_all add: lone_node_def fenced_node_def publishing_node_def bucket_of_def st_handles_def pair_set_def bucket_set_new_def is_multi_def)

lemma upload_six_fields: "rq_pkg upload_six = ''six''" "rq_filename upload_six = ''six-2.whl''" "\<not> is_mirror upload_six" "\<not> rq_spooled upload_six"
  "is_artifact ''six-2.whl''"
  by (simp_all add: upload_six_def) code_simp

theorem standing_record_immutable_witness:
  "let w = (quiet (\<lambda>_. published_bucket))\<lparr>script := [Answered id, Refused (HttpStatus 503) id, Unanswered Timeout id, Halt]\<rparr>;
       (r, w') = publish_record lone_node resting_env (\<lambda>_. None) (\<lambda>_. None) 0 upload_six w;
       k = sidecar_key (artifact_key ''six'' ''six-2.whl'')
   in (\<forall>v. r \<noteq> Inr (Inr v)) \<and> object_at (buckets w' 0) k = object_at published_bucket k"
proof -
  let ?w = "(quiet (\<lambda>_. published_bucket))\<lparr>script := [Answered id, Refused (HttpStatus 503) id, Unanswered Timeout id, Halt]\<rparr>"
  let ?a = "artifact_key ''six'' ''six-2.whl''"
  have held: "store_wf published_bucket" "contains_key published_bucket ?a"
    using published_source by (auto simp: copy_source_def quiet_def holds_record_def contains_key_def publishing_node_def)
  have "obeys (\<lambda>fl fl'. fl' = fl) ?w"
    using held(1) by (intro obeys_still) (auto simp: quiet_def fleet_wf_def)
  moreover have "sidecar_key ?a \<noteq> origin_key ''six''" "\<not> starts_with (sidecar_key ?a) DIRTY_PREFIX"
    by code_simp+
  moreover obtain r w' where run: "publish_record lone_node resting_env (\<lambda>_. None) (\<lambda>_. None) 0 upload_six ?w = (r, w')"
    by fastforce
  ultimately show ?thesis
    using standing_record_immutable [of lone_node upload_six "sidecar_key ?a" "\<lambda>fl fl'. fl' = fl" 0 "object_at published_bucket (sidecar_key ?a)" ?w resting_env
        "\<lambda>_. None" "\<lambda>_. None" r w'] held(2)
    unfolding run Let_def prod.case by (simp add: node_shape upload_six_fields stable_def) (simp add: quiet_def)
qed

definition deleted_bucket :: inner where
  "deleted_bucket = snd (store (\<lambda>x. x) (tombstone_key (artifact_key ''six'' ''six-2.whl'')) ''gone'' (inner_default 0))"

theorem barred_name_never_acknowledged_witness:
  "let w = (quiet (\<lambda>_. deleted_bucket))\<lparr>script := [Answered id, Unanswered Timeout id]\<rparr>;
       (r, w') = publish_record lone_node resting_env (\<lambda>_. None) (\<lambda>_. None) 0 upload_six w
   in (\<forall>v. r \<noteq> Inr (Inr v)) \<and> contains_key (buckets w' 0) (tombstone_key (artifact_key ''six'' ''six-2.whl''))"
proof -
  let ?w = "(quiet (\<lambda>_. deleted_bucket))\<lparr>script := [Answered id, Unanswered Timeout id]\<rparr>"
  let ?m = "tombstone_key (artifact_key ''six'' ''six-2.whl'')"
  have held: "store_wf deleted_bucket" "contains_key deleted_bucket ?m"
    by (simp_all add: deleted_bucket_def store_wf_store store_wf_default contains_key_def object_at_store)
  have "obeys (\<lambda>fl fl'. fl' = fl) ?w"
    using held(1) by (intro obeys_still) (auto simp: quiet_def fleet_wf_def)
  moreover obtain r w' where run: "publish_record lone_node resting_env (\<lambda>_. None) (\<lambda>_. None) 0 upload_six ?w = (r, w')"
    by fastforce
  ultimately show ?thesis
    using barred_name_never_acknowledged [of lone_node upload_six ?m "\<lambda>fl fl'. fl' = fl" 0 ?w resting_env "\<lambda>_. None" "\<lambda>_. None" r w'] held(2)
    unfolding run Let_def prod.case by (simp add: node_shape upload_six_fields stable_def) (simp add: quiet_def)
qed

lemma upload_six_acknowledged:
  "fst (publish_record fenced_node resting_env (\<lambda>_. None) (\<lambda>_. None) 0 upload_six (quiet (\<lambda>_. inner_default 0))) = Inr (Inr (200, ''OK''))"
  by code_simp


end
