(* ===== verification/Render.thy ===== *)
theory Render
  imports Decide Names
begin

text \<open>
  The Simple API renderers, \<open>src/render.rs\<close>: an index entry from a sidecar, the PEP 503 pages and the
  PEP 691 documents. The escapers of the \<open>html_escape\<close> crate and the serializer of \<open>serde_json\<close> are
  parameters; what the pages rely on is that escaped text holds no \<open><\<close> and an escaped attribute value
  holds no double quote.
\<close>

section \<open>Definitions\<close>

record render_env =
  encode_text :: "string \<Rightarrow> string"
  encode_double_quoted_attribute :: "string \<Rightarrow> string"
  json_string :: "string \<Rightarrow> string option"

definition API_VERSION :: string where "API_VERSION = ''1.4''"
definition RENDER_VERSION :: nat where "RENDER_VERSION = 3"

record file_metadata =
  fm_filename :: string
  fm_sha256 :: string
  fm_size :: u64
  fm_upload_time :: "string option"
  fm_version :: "string option"
  fm_yanked :: yanked
  fm_requires_python :: "string option"
  core_metadata :: bool
  core_metadata_sha256 :: "string option"
  fm_provenance :: bool

definition from_sidecar :: "string \<Rightarrow> sidecar \<Rightarrow> string option \<Rightarrow> bool \<Rightarrow> file_metadata" where
  "from_sidecar filename sc metadata_sha prov =
     \<lparr>fm_filename = filename, fm_sha256 = sha256 sc, fm_size = size sc,
      fm_upload_time = (if trim (upload_time sc) = [] then None else Some (upload_time sc)),
      fm_version = (if version sc = [] then None else Some (version sc)),
      fm_yanked = yanked sc, fm_requires_python = requires_python sc,
      core_metadata = (metadata_sha \<noteq> None), core_metadata_sha256 = metadata_sha, fm_provenance = prov\<rparr>"

subsection \<open>PEP 503 pages\<close>

definition status_str :: "project_status \<Rightarrow> string" where
  "status_str st = (case st of Active \<Rightarrow> ''active'' | Archived \<Rightarrow> ''archived'' | Quarantined \<Rightarrow> ''quarantined'' | Deprecated \<Rightarrow> ''deprecated'')"

definition is_active :: "project_status \<Rightarrow> bool" where
  "is_active st = (st = Active)"

definition html_head_open :: string where
  "html_head_open = ''<html><head><meta name=\"pypi:repository-version\" content=\"'' @ API_VERSION @ ''\">''"

definition status_meta :: "render_env \<Rightarrow> project_status_doc \<Rightarrow> string" where
  "status_meta E doc =
     (if is_active (status doc) then []
      else ''<meta name=\"pypi:project-status\" content=\"'' @ status_str (status doc) @ ''\">'' @
           (case reason doc of
              None \<Rightarrow> []
            | Some why \<Rightarrow> ''<meta name=\"pypi:project-status-reason\" content=\"'' @ encode_double_quoted_attribute E why @ ''\">''))"

definition link_attrs :: "render_env \<Rightarrow> string \<Rightarrow> file_metadata \<Rightarrow> string" where
  "link_attrs E pkg_attr f =
     (let fname_attr = encode_double_quoted_attribute E (fm_filename f) in
      (case fm_requires_python f of
         None \<Rightarrow> []
       | Some rp \<Rightarrow> '' data-requires-python=\"'' @ encode_double_quoted_attribute E rp @ ''\"'') @
      (if core_metadata f then
         (let val = (case core_metadata_sha256 f of
                         Some h \<Rightarrow> encode_double_quoted_attribute E (''sha256='' @ h) | None \<Rightarrow> ''true'')
          in '' data-core-metadata=\"'' @ val @ ''\" data-dist-info-metadata=\"'' @ val @ ''\"'')
       else []) @
      (if fm_provenance f then '' data-provenance=\"/files/'' @ pkg_attr @ ''/'' @ fname_attr @ ''.provenance\"'' else []) @
      (case fm_yanked f of
         Flag False \<Rightarrow> []
       | Flag True \<Rightarrow> '' data-yanked=\"\"''
       | Reason why \<Rightarrow> '' data-yanked=\"'' @ encode_double_quoted_attribute E why @ ''\"''))"

definition file_link :: "render_env \<Rightarrow> string \<Rightarrow> file_metadata \<Rightarrow> string" where
  "file_link E pkg_attr f =
     ''<a href=\"/files/'' @ pkg_attr @ ''/'' @ encode_double_quoted_attribute E (fm_filename f) @ ''#sha256='' @
     encode_double_quoted_attribute E (fm_sha256 f) @ ''\"'' @ link_attrs E pkg_attr f @ ''>'' @ encode_text E (fm_filename f) @ ''</a><br/>''"

definition pep503_project_html :: "render_env \<Rightarrow> string \<Rightarrow> file_metadata list \<Rightarrow> project_status_doc \<Rightarrow> string" where
  "pep503_project_html E package files doc =
     html_head_open @ status_meta E doc @ ''<title>Links for '' @ encode_text E package @ ''</title></head><body>'' @
     concat (map (file_link E (encode_double_quoted_attribute E package)) files) @ ''</body></html>''"

definition global_link :: "render_env \<Rightarrow> string \<Rightarrow> string" where
  "global_link E p = ''<a href=\"/simple/'' @ encode_double_quoted_attribute E p @ ''/\">'' @ encode_text E p @ ''</a><br/>''"

definition pep503_global_html :: "render_env \<Rightarrow> string list \<Rightarrow> string" where
  "pep503_global_html E packages =
     html_head_open @ ''<title>Simple index</title></head><body>'' @ concat (map (global_link E) packages) @ ''</body></html>''"

subsection \<open>PEP 691 documents\<close>

definition pep691_meta_only :: string where
  "pep691_meta_only = ''{\"meta\":{\"api-version\":\"'' @ API_VERSION @ ''\"}}''"

fun global_items :: "render_env \<Rightarrow> bool \<Rightarrow> string list \<Rightarrow> string option" where
  "global_items E first [] = Some []"
| "global_items E first (p # ps) =
     (case json_string E p of
        None \<Rightarrow> None
      | Some q \<Rightarrow>
          (case global_items E False ps of
             None \<Rightarrow> None
           | Some rest \<Rightarrow>
               Some ((if first then [] else '','') @ ''{\"name\":'' @ q @ '',\"url\":\"/simple/'' @ butlast (tl q) @ ''/\"}'' @ rest)))"

definition pep691_global_json :: "render_env \<Rightarrow> string list \<Rightarrow> string" where
  "pep691_global_json E packages =
     (case global_items E True packages of
        None \<Rightarrow> pep691_meta_only
      | Some items \<Rightarrow> ''{\"meta\":{\"api-version\":\"'' @ API_VERSION @ ''\"},\"projects\":['' @ items @ '']}'')"

datatype core_metadata_json = Sha256Of string | JsonTrue

record pep691_file =
  pf_filename :: string
  pf_url :: string
  pf_hashes :: "(string \<times> string) list"
  pf_size :: u64
  pf_upload_time :: "string option"
  pf_yanked :: yanked
  pf_requires_python :: "string option"
  pf_core_metadata :: "core_metadata_json option"
  pf_provenance :: "string option"

record pep691_pkg_index =
  pi_api_version :: string
  pi_name :: string
  pi_project_status :: "project_status_doc option"
  pi_versions :: "string list"
  pi_files :: "pep691_file list"

definition file_version :: "(string \<Rightarrow> 'v option) \<Rightarrow> file_metadata \<Rightarrow> string option" where
  "file_version parse_version f = (case fm_version f of Some v \<Rightarrow> Some v | None \<Rightarrow> infer_version_from_filename parse_version (fm_filename f))"

definition pep691_file_of :: "string \<Rightarrow> file_metadata \<Rightarrow> pep691_file" where
  "pep691_file_of package f =
     \<lparr>pf_filename = fm_filename f, pf_url = ''/files/'' @ package @ ''/'' @ fm_filename f, pf_hashes = [(''sha256'', fm_sha256 f)],
      pf_size = fm_size f, pf_upload_time = fm_upload_time f, pf_yanked = fm_yanked f, pf_requires_python = fm_requires_python f,
      pf_core_metadata = (if core_metadata f then Some (case core_metadata_sha256 f of Some h \<Rightarrow> Sha256Of h | None \<Rightarrow> JsonTrue) else None),
      pf_provenance = (if fm_provenance f then Some (''/files/'' @ package @ ''/'' @ fm_filename f @ ''.provenance'') else None)\<rparr>"

definition pep691_project_doc :: "(string \<Rightarrow> 'v option) \<Rightarrow> string \<Rightarrow> file_metadata list \<Rightarrow> project_status_doc \<Rightarrow> pep691_pkg_index" where
  "pep691_project_doc parse_version package files doc =
     \<lparr>pi_api_version = API_VERSION, pi_name = package, pi_project_status = (if is_active (status doc) then None else Some doc),
      pi_versions = sorted_list_of_set (set (List.map_filter (file_version parse_version) files)), pi_files = map (pep691_file_of package) files\<rparr>"

definition pep691_project_json :: "(string \<Rightarrow> 'v option) \<Rightarrow> (pep691_pkg_index \<Rightarrow> string option) \<Rightarrow> string \<Rightarrow> file_metadata list \<Rightarrow> project_status_doc \<Rightarrow> string" where
  "pep691_project_json parse_version to_string package files doc =
     (case to_string (pep691_project_doc parse_version package files doc) of Some s \<Rightarrow> s | None \<Rightarrow> pep691_meta_only)"

section \<open>The markup of a page is fixed by its shape\<close>

text \<open>
  A reader of HTML is outside every tag, inside one, or inside a quoted attribute value. The markup of
  a page is what remains without its text and its attribute values.
\<close>

datatype scan_mode = Text_Mode | Tag_Mode | Value_Mode

fun scan :: "scan_mode \<Rightarrow> string \<Rightarrow> scan_mode \<times> string" where
  "scan m [] = (m, [])"
| "scan Text_Mode (c # s) = (if c = CHR ''<'' then (let (m, out) = scan Tag_Mode s in (m, c # out)) else scan Text_Mode s)"
| "scan Tag_Mode (c # s) =
     (let (m, out) = scan (if c = CHR ''>'' then Text_Mode else if c = CHR 0x22 then Value_Mode else Tag_Mode) s in (m, c # out))"
| "scan Value_Mode (c # s) = (if c = CHR 0x22 then (let (m, out) = scan Tag_Mode s in (m, c # out)) else scan Value_Mode s)"

definition page_markup :: "string \<Rightarrow> string" where
  "page_markup s = snd (scan Text_Mode s)"

lemma scan_append: "scan m (xs @ ys) = (let (m', out) = scan m xs; (m'', out') = scan m' ys in (m'', out @ out'))"
  by (induction m xs rule: scan.induct) (auto simp: Let_def split: prod.splits)

definition escapes :: "render_env \<Rightarrow> bool" where
  "escapes E = ((\<forall>s. CHR ''<'' \<notin> set (encode_text E s)) \<and> (\<forall>s. CHR 0x22 \<notin> set (encode_double_quoted_attribute E s)))"

lemma scan_text: "CHR ''<'' \<notin> set s \<Longrightarrow> scan Text_Mode s = (Text_Mode, [])"
  by (induction s) auto

lemma scan_value: "CHR 0x22 \<notin> set s \<Longrightarrow> scan Value_Mode s = (Value_Mode, [])"
  by (induction s) auto

definition link_markup :: "file_metadata \<Rightarrow> string" where
  "link_markup f =
     ''<a href=\"\"'' @ (if fm_requires_python f = None then [] else '' data-requires-python=\"\"'') @
     (if core_metadata f then '' data-core-metadata=\"\" data-dist-info-metadata=\"\"'' else []) @
     (if fm_provenance f then '' data-provenance=\"\"'' else []) @
     (if fm_yanked f = Flag False then [] else '' data-yanked=\"\"'') @ ''></a><br/>''"

definition status_markup :: "project_status_doc \<Rightarrow> string" where
  "status_markup doc =
     (if status doc = Active then []
      else ''<meta name=\"\" content=\"\">'' @ (if reason doc = None then [] else ''<meta name=\"\" content=\"\">''))"

lemma scan_escaped:
  assumes "escapes E"
  shows "scan Text_Mode (encode_text E s) = (Text_Mode, [])" "scan Value_Mode (encode_double_quoted_attribute E s) = (Value_Mode, [])"
  using assms by (simp_all add: escapes_def scan_text scan_value)

lemma scan_status: "escapes E \<Longrightarrow> scan Text_Mode (status_meta E doc) = (Text_Mode, status_markup doc)"
  by (cases "status doc"; cases "reason doc")
    (simp_all add: status_meta_def status_markup_def status_str_def is_active_def scan_append scan_escaped)

lemma scan_link_attrs:
  assumes "escapes E"
  shows "scan Tag_Mode (link_attrs E (encode_double_quoted_attribute E p) f) = (Tag_Mode,
     (if fm_requires_python f = None then [] else '' data-requires-python=\"\"'') @
     (if core_metadata f then '' data-core-metadata=\"\" data-dist-info-metadata=\"\"'' else []) @
     (if fm_provenance f then '' data-provenance=\"\"'' else []) @
     (if fm_yanked f = Flag False then [] else '' data-yanked=\"\"''))"
proof -
  have yank: "scan Tag_Mode (case fm_yanked f of Flag False \<Rightarrow> [] | Flag True \<Rightarrow> '' data-yanked=\"\"''
       | Reason why \<Rightarrow> '' data-yanked=\"'' @ encode_double_quoted_attribute E why @ ''\"'') = (Tag_Mode, if fm_yanked f = Flag False then [] else '' data-yanked=\"\"'')"
    by (cases "fm_yanked f") (auto simp: scan_append scan_escaped [OF assms] split: bool.splits)
  show ?thesis
    unfolding link_attrs_def Let_def
    by (simp add: scan_append yank scan_escaped [OF assms] split: option.splits)
qed

lemma scan_file_link: "escapes E \<Longrightarrow> scan Text_Mode (file_link E (encode_double_quoted_attribute E p) f) = (Text_Mode, link_markup f)"
  by (simp add: file_link_def link_markup_def scan_append scan_link_attrs scan_escaped)

lemma scan_concat:
  "(\<And>x. x \<in> set xs \<Longrightarrow> scan m (f x) = (m, g x)) \<Longrightarrow> scan m (concat (map f xs)) = (m, concat (map g xs))"
  by (induction xs) (simp_all add: scan_append)

text \<open>
  C27: No name, filename, digest, version, status reason or yank reason can add, close or alter a tag or an
  attribute of a page. Given escapers that remove the opening bracket from text and the double quote
  from attribute values, the markup of a project page and of the global page is a fixed template,
  repeated once for each file or name; it depends on the files only through which attributes they carry.
\<close>

theorem page_markup_fixed:
  assumes "escapes E"
  shows "page_markup (pep503_project_html E pkg files doc) =
      ''<html><head><meta name=\"\" content=\"\">'' @ status_markup doc @ ''<title></title></head><body>'' @ concat (map link_markup files) @ ''</body></html>''
    \<and> page_markup (pep503_global_html E packages) =
      ''<html><head><meta name=\"\" content=\"\"><title></title></head><body>'' @ concat (map (\<lambda>_. ''<a href=\"\"></a><br/>'') packages) @ ''</body></html>''"
proof -
  have head: "scan Text_Mode html_head_open = (Text_Mode, ''<html><head><meta name=\"\" content=\"\">'')"
    by (simp add: html_head_open_def API_VERSION_def)
  have links: "scan Text_Mode (concat (map (file_link E (encode_double_quoted_attribute E pkg)) files)) = (Text_Mode, concat (map link_markup files))"
    by (rule scan_concat) (rule scan_file_link [OF assms])
  have "scan Text_Mode (global_link E p) = (Text_Mode, ''<a href=\"\"></a><br/>'')" for p
    by (simp add: global_link_def scan_append scan_escaped [OF assms])
  then have names: "scan Text_Mode (concat (map (global_link E) packages)) = (Text_Mode, concat (map (\<lambda>_. ''<a href=\"\"></a><br/>'') packages))"
    by (rule scan_concat)
  show ?thesis
    unfolding page_markup_def pep503_project_html_def pep503_global_html_def
    by (simp add: scan_append head links names scan_status [OF assms] scan_escaped [OF assms])
qed

definition escape_char :: "char \<Rightarrow> string" where
  "escape_char c = (if c = CHR ''&'' then ''&amp;'' else if c = CHR ''<'' then ''&lt;'' else if c = CHR ''>'' then ''&gt;'' else if c = CHR 0x22 then ''&quot;'' else [c])"

definition html_escapes :: render_env where
  "html_escapes = \<lparr>encode_text = (\<lambda>s. concat (map escape_char s)), encode_double_quoted_attribute = (\<lambda>s. concat (map escape_char s)),
     json_string = (\<lambda>s. Some (CHR 0x22 # s @ [CHR 0x22]))\<rparr>"

definition hostile_file :: file_metadata where
  "hostile_file = \<lparr>fm_filename = ''a\" onclick=\"x\"><script>.whl'', fm_sha256 = ''ab'', fm_size = 1, fm_upload_time = None, fm_version = None, fm_yanked = Reason ''\"<b>'',
     fm_requires_python = None, core_metadata = False, core_metadata_sha256 = None, fm_provenance = False\<rparr>"

theorem page_markup_fixed_witness:
  "page_markup (pep503_project_html html_escapes ''six'' [hostile_file] default_status_doc) =
     ''<html><head><meta name=\"\" content=\"\"><title></title></head><body><a href=\"\" data-yanked=\"\"></a><br/></body></html>''"
proof -
  have "escapes html_escapes"
    by (auto simp: escapes_def html_escapes_def escape_char_def)
  then show ?thesis
    using page_markup_fixed [of html_escapes "''six''" "[hostile_file]" default_status_doc]
    by (simp add: hostile_file_def link_markup_def status_markup_def default_status_doc_def)
qed

end
