(* ===== verification/Global_Index.thy ===== *)
theory Global_Index
  imports Frames Render Excludes
begin

text \<open>
  The global index of a bucket (\<open>src/worker.rs\<close>): the canonical list of package names
  \<open>simple/index.json\<close>, its HTML view, the stamp that proves the view current, and the two writers: the
  selected bucket's, over a cached name set, and a destination bucket's, over a fresh load. An ordered
  set of names is a set, its iteration the sorted list. JSON of the two documents is a parameter; the
  served-page caches that a write drops and the conflict counter are left out.
\<close>

section \<open>Definitions\<close>

record index_env =
  ie_sha :: "bytes \<Rightarrow> bytes"
  ie_render :: render_env
  parse_global :: "bytes \<Rightarrow> string list option"
  enc_html_stamp :: "string \<Rightarrow> string \<Rightarrow> bytes"
  dec_html_stamp :: "bytes \<Rightarrow> (string \<times> string) option"
  ie_leases :: "bucket_id \<Rightarrow> bool"

record global_names =
  gn_etag :: "string option"
  gn_names :: "string set"
  gn_html_etag :: "string option"
  html_current :: bool
  stranded :: bool

definition global_json_key :: string where "global_json_key = SIMPLE_PREFIX @ ''index.json''"
definition global_html_key :: string where "global_html_key = SIMPLE_PREFIX @ ''index.html''"
definition global_html_stamp_key :: string where "global_html_stamp_key = STATE_PREFIX @ ''global-html.json''"

definition SHARD_CHARS :: string where "SHARD_CHARS = ''0123456789abcdefghijklmnopqrstuvwxyz''"

subsection \<open>Fingerprints of a package\<close>

definition le_bytes :: "nat \<Rightarrow> nat \<Rightarrow> bytes" where
  "le_bytes n x = map (\<lambda>i. char_of (x div 256 ^ i mod 256)) [0..<n]"

definition fingerprint :: "(bytes \<Rightarrow> bytes) \<Rightarrow> object_meta list \<Rightarrow> object_meta list \<Rightarrow> string" where
  "fingerprint sha truth views =
     sha256_hex sha (le_bytes 4 RENDER_VERSION @
       concat (map (\<lambda>ob. om_key ob @ le_bytes 8 (om_size ob) @ om_etag ob @ [CHR 0x00]) (truth @ views)))"

definition package_fingerprint :: "(bytes \<Rightarrow> bytes) \<Rightarrow> bucket_id \<Rightarrow> string \<Rightarrow> string act" where
  "package_fingerprint sha b pkg =
     andThen (list_all_objects b (PACKAGES_PREFIX @ pkg @ ''/'')) (\<lambda>truth.
     andThen (list_all_objects b (SIMPLE_PREFIX @ pkg @ ''/'')) (\<lambda>views.
       ret (fingerprint sha truth views)))"

definition key_package :: "string \<Rightarrow> string \<Rightarrow> string option" where
  "key_package key prefix =
     (case strip_prefix key prefix of None \<Rightarrow> None | Some rest \<Rightarrow> map_option fst (split_once rest (CHR ''/'')))"

subsection \<open>The stamp\<close>

fun join_lines :: "string list \<Rightarrow> bytes" where
  "join_lines [] = []"
| "join_lines [p] = p"
| "join_lines (p # q # ps) = p @ [CHR 0x0A] @ join_lines (q # ps)"

definition global_names_digest :: "(bytes \<Rightarrow> bytes) \<Rightarrow> string list \<Rightarrow> string" where
  "global_names_digest sha packages = sha256_hex sha (join_lines packages)"

definition read_global_html_stamp :: "index_env \<Rightarrow> bucket_id \<Rightarrow> (string \<times> string) option act" where
  "read_global_html_stamp E b =
     onResult (get_bytes b global_html_stamp_key) (\<lambda>_. ret None) (\<lambda>bs. ret (dec_html_stamp E bs))"

definition write_global_html_stamp :: "index_env \<Rightarrow> bucket_id \<Rightarrow> string option \<Rightarrow> string list \<Rightarrow> unit act" where
  "write_global_html_stamp E b html_etag packages =
     (case html_etag of
        None \<Rightarrow> ret ()
      | Some t \<Rightarrow> put_bytes (ie_sha E) b global_html_stamp_key (enc_html_stamp E t (global_names_digest (ie_sha E) packages)))"

definition global_html_proved_current :: "index_env \<Rightarrow> bucket_id \<Rightarrow> string option \<Rightarrow> string list \<Rightarrow> bool act" where
  "global_html_proved_current E b html_etag packages =
     (case html_etag of
        None \<Rightarrow> ret False
      | Some t \<Rightarrow>
          andThen (read_global_html_stamp E b) (\<lambda>stamp.
            ret (stamp = Some (t, global_names_digest (ie_sha E) packages))))"

subsection \<open>Loading the name set\<close>

definition global_index_etags :: "bucket_id \<Rightarrow> (string option \<times> string option) act" where
  "global_index_etags b = andThen (head_etag b global_json_key) (\<lambda>j. andThen (head_etag b global_html_key) (\<lambda>h. ret (j, h)))"

definition current_global_html_etag :: "index_env \<Rightarrow> bucket_id \<Rightarrow> string option act" where
  "current_global_html_etag E b = (if ie_leases E b then head_etag b global_html_key else ret None)"

definition shard_names :: "object_meta list \<Rightarrow> string set" where
  "shard_names obs =
     set (List.map_filter (\<lambda>ob. if ends_with (om_key ob) ''/index.json'' then key_package (om_key ob) SIMPLE_PREFIX else None) obs)"

fun derive_loop :: "bucket_id \<Rightarrow> string \<Rightarrow> string set act" where
  "derive_loop b [] = ret {}"
| "derive_loop b (c # cs) =
     andThen (list_all_objects b (SIMPLE_PREFIX @ [c])) (\<lambda>obs.
     andThen (derive_loop b cs) (\<lambda>names. ret (shard_names obs \<union> names)))"

definition derive_global_names :: "bucket_id \<Rightarrow> string set act" where
  "derive_global_names b = derive_loop b SHARD_CHARS"

definition load_global_names :: "index_env \<Rightarrow> bucket_id \<Rightarrow> global_names act" where
  "load_global_names E b =
     andThen (if ie_leases E b
              then andThen (get_with_etag b global_json_key) (\<lambda>r.
                     ret (case r of Some (bs, t) \<Rightarrow> (Some bs, Some t) | None \<Rightarrow> (None, None)))
              else onResult (get_bytes b global_json_key)
                     (\<lambda>e. if is_not_found e then ret (None, None) else fail e) (\<lambda>bs. ret (Some bs, None))) (\<lambda>(body, tag).
     andThen (current_global_html_etag E b) (\<lambda>html_tag.
       case body of
         None \<Rightarrow>
           andThen (head_exists b global_html_key) (\<lambda>torn.
           andThen (if torn then derive_global_names b else ret {}) (\<lambda>names.
             ret \<lparr>gn_etag = tag, gn_names = names, gn_html_etag = html_tag, html_current = False, stranded = torn\<rparr>))
       | Some bs \<Rightarrow>
           (case parse_global E bs of
              Some names \<Rightarrow> ret \<lparr>gn_etag = tag, gn_names = set names, gn_html_etag = html_tag, html_current = False, stranded = False\<rparr>
            | None \<Rightarrow>
                andThen (derive_global_names b) (\<lambda>names.
                  ret \<lparr>gn_etag = tag, gn_names = names, gn_html_etag = html_tag, html_current = False, stranded = True\<rparr>))))"

subsection \<open>Publishing the pair\<close>

datatype html_write = WroteHtml "string option" | LostHtml
datatype html_reconcile = CurrentHtml | RewroteHtml "string option" | LostReconcile
datatype cas_outcome = WonCas "string option" "string option" | LostCas

definition conditional_put :: "index_env \<Rightarrow> bucket_id \<Rightarrow> string \<Rightarrow> string option \<Rightarrow> bytes \<Rightarrow> string option act" where
  "conditional_put E b key expected bs =
     (case expected of Some t \<Rightarrow> put_if_match (ie_sha E) b key t bs | None \<Rightarrow> put_if_none_match (ie_sha E) b key bs)"

definition write_global_html_cas :: "index_env \<Rightarrow> bucket_id \<Rightarrow> string list \<Rightarrow> string option \<Rightarrow> html_write act" where
  "write_global_html_cas E b packages expected =
     (let bs = pep503_global_html (ie_render E) packages in
      if \<not> ie_leases E b then andThen (put_bytes (ie_sha E) b global_html_key bs) (\<lambda>_. ret (WroteHtml None))
      else andThen (conditional_put E b global_html_key expected bs) (\<lambda>r.
             ret (case r of Some t \<Rightarrow> WroteHtml (Some t) | None \<Rightarrow> LostHtml)))"

definition write_global_indexes :: "index_env \<Rightarrow> bucket_id \<Rightarrow> string list \<Rightarrow> unit act" where
  "write_global_indexes E b packages =
     andThen (put_if_changed (ie_sha E) b global_html_key (pep503_global_html (ie_render E) packages)) (\<lambda>_.
       put_if_changed (ie_sha E) b global_json_key (pep691_global_json (ie_render E) packages))"

definition write_global_indexes_cas :: "index_env \<Rightarrow> bucket_id \<Rightarrow> string list \<Rightarrow> string option \<Rightarrow> string option \<Rightarrow> cas_outcome act" where
  "write_global_indexes_cas E b packages expected expected_html =
     (if ie_leases E b then
        andThen (write_global_html_cas E b packages expected_html) (\<lambda>h.
          case h of
            LostHtml \<Rightarrow> ret LostCas
          | WroteHtml html_etag \<Rightarrow>
              andThen (conditional_put E b global_json_key expected (pep691_global_json (ie_render E) packages)) (\<lambda>r.
                case r of
                  None \<Rightarrow> ret LostCas
                | Some t \<Rightarrow> andThen (write_global_html_stamp E b html_etag packages) (\<lambda>_. ret (WonCas (Some t) html_etag))))
      else andThen (write_global_indexes E b packages) (\<lambda>_. ret (WonCas None None)))"

definition reconcile_global_html :: "index_env \<Rightarrow> bucket_id \<Rightarrow> string list \<Rightarrow> string option \<Rightarrow> html_reconcile act" where
  "reconcile_global_html E b packages expected =
     (let rewritten = (\<lambda>r. ret (case r of WroteHtml t \<Rightarrow> RewroteHtml t | LostHtml \<Rightarrow> LostReconcile)) in
      onResult (get_bytes b global_html_key)
        (\<lambda>e. if is_not_found e \<and> packages = [] then ret CurrentHtml
             else if is_not_found e then andThen (write_global_html_cas E b packages None) rewritten
             else fail e)
        (\<lambda>current. if current = pep503_global_html (ie_render E) packages then ret CurrentHtml
                   else andThen (write_global_html_cas E b packages expected) rewritten))"

subsection \<open>Applying a delta\<close>

definition insert_name :: "string \<Rightarrow> string set \<times> bool \<Rightarrow> string set \<times> bool" where
  "insert_name p = (\<lambda>(names, changed). (insert p names, changed \<or> p \<notin> names))"

definition remove_name :: "string \<Rightarrow> string set \<times> bool \<Rightarrow> string set \<times> bool" where
  "remove_name p = (\<lambda>(names, changed). (names - {p}, changed \<or> p \<in> names))"

definition apply_delta :: "string list \<Rightarrow> string list \<Rightarrow> string set \<Rightarrow> string set \<times> bool" where
  "apply_delta adds removes names = fold remove_name removes (fold insert_name adds (names, False))"

text \<open>A destination bucket: every attempt loads afresh.\<close>

fun uncached_loop :: "index_env \<Rightarrow> bucket_id \<Rightarrow> string list \<Rightarrow> string list \<Rightarrow> nat \<Rightarrow> unit act" where
  "uncached_loop E b adds removes 0 = fail (Bail ''destination global index CAS retries exhausted'')"
| "uncached_loop E b adds removes (Suc n) =
     andThen (load_global_names E b) (\<lambda>g.
       let (names, changed) = apply_delta adds removes (gn_names g); packages = sorted_list_of_set names in
       if \<not> changed \<and> \<not> stranded g then
         andThen (global_html_proved_current E b (gn_html_etag g) packages) (\<lambda>proved.
           if proved then ret ()
           else andThen (reconcile_global_html E b packages (gn_html_etag g)) (\<lambda>r.
                  case r of
                    CurrentHtml \<Rightarrow> ret ()
                  | RewroteHtml t \<Rightarrow> write_global_html_stamp E b t packages
                  | LostReconcile \<Rightarrow> uncached_loop E b adds removes n))
       else
         andThen (write_global_indexes_cas E b packages (gn_etag g) (gn_html_etag g)) (\<lambda>r.
           case r of WonCas _ _ \<Rightarrow> ret () | LostCas \<Rightarrow> uncached_loop E b adds removes n))"

definition update_global_index_uncached :: "index_env \<Rightarrow> bucket_id \<Rightarrow> string list \<Rightarrow> string list \<Rightarrow> unit act" where
  "update_global_index_uncached E b adds removes =
     (if adds = [] \<and> removes = [] then ret () else uncached_loop E b adds removes 4)"

text \<open>The selected bucket: the cached name set absorbs the delta, and dead observations are proved again.\<close>

fun confirm_dead :: "index_env \<Rightarrow> bucket_id \<Rightarrow> (string \<times> string) list \<Rightarrow> string set \<Rightarrow> (string list \<times> string set) act" where
  "confirm_dead E b [] disproved = ret ([], disproved)"
| "confirm_dead E b ((pkg, observed) # dead) disproved =
     (if pkg \<in> disproved then confirm_dead E b dead disproved
      else andThen (package_fingerprint (ie_sha E) b pkg) (\<lambda>fp.
             if fp = observed then andThen (confirm_dead E b dead disproved) (\<lambda>(confirmed, bad). ret (pkg # confirmed, bad))
             else andThen (mark_dirty (ie_sha E) b pkg) (\<lambda>_. confirm_dead E b dead (insert pkg disproved))))"

text \<open>The no-op gate: the cache as the stored pair lets it stand, or nothing when it must be reloaded.\<close>

definition check_cached :: "index_env \<Rightarrow> bucket_id \<Rightarrow> global_names \<Rightarrow> global_names option act" where
  "check_cached E b g =
     (if \<not> ie_leases E b then ret (Some g)
      else andThen (global_index_etags b) (\<lambda>(j, h).
             ret (if j \<noteq> gn_etag g \<or> (j = None \<and> h \<noteq> None) then None
                  else Some (if h \<noteq> gn_html_etag g then g\<lparr>gn_html_etag := h, html_current := False\<rparr> else g))))"

definition prove_html :: "index_env \<Rightarrow> bucket_id \<Rightarrow> global_names \<Rightarrow> global_names option act" where
  "prove_html E b g =
     (if html_current g then ret (Some g)
      else
        (let packages = sorted_list_of_set (gn_names g) in
         andThen (global_html_proved_current E b (gn_html_etag g) packages) (\<lambda>proved.
           if proved then ret (Some (g\<lparr>html_current := True\<rparr>))
           else andThen (reconcile_global_html E b packages (gn_html_etag g)) (\<lambda>r.
                  case r of
                    CurrentHtml \<Rightarrow> ret (Some (g\<lparr>html_current := True\<rparr>))
                  | RewroteHtml t \<Rightarrow>
                      andThen (write_global_html_stamp E b t packages) (\<lambda>_. ret (Some (g\<lparr>gn_html_etag := t, html_current := True\<rparr>)))
                  | LostReconcile \<Rightarrow> ret None))))"

fun locked_loop ::
  "index_env \<Rightarrow> bucket_id \<Rightarrow> string list \<Rightarrow> string list \<Rightarrow> (string \<times> string) list \<Rightarrow> string set \<Rightarrow> global_names option \<Rightarrow> nat \<Rightarrow> global_names act" where
  "locked_loop E b adds removes dead disproved guard 0 = fail (Bail ''global index CAS retries exhausted'')"
| "locked_loop E b adds removes dead disproved guard (Suc n) =
     andThen (case guard of Some g \<Rightarrow> ret g | None \<Rightarrow> load_global_names E b) (\<lambda>g0.
     andThen (confirm_dead E b dead disproved) (\<lambda>(confirmed, disproved').
       let (names, changed) = apply_delta adds (removes @ confirmed) (gn_names g0); g = g0\<lparr>gn_names := names\<rparr> in
       if \<not> changed \<and> \<not> stranded g then
         andThen (check_cached E b g) (\<lambda>c.
           case c of
             None \<Rightarrow> locked_loop E b adds removes dead disproved' None n
           | Some g1 \<Rightarrow>
               andThen (prove_html E b g1) (\<lambda>r.
                 case r of None \<Rightarrow> locked_loop E b adds removes dead disproved' None n | Some g2 \<Rightarrow> ret g2))
       else
         andThen (write_global_indexes_cas E b (sorted_list_of_set names) (gn_etag g) (gn_html_etag g)) (\<lambda>r.
           case r of
             WonCas j h \<Rightarrow> ret (g\<lparr>gn_etag := j, gn_html_etag := h, html_current := True, stranded := False\<rparr>)
           | LostCas \<Rightarrow> locked_loop E b adds removes dead disproved' None n)))"

text \<open>Any error drops the cache.\<close>

definition update_global_index_inner ::
  "index_env \<Rightarrow> bucket_id \<Rightarrow> string list \<Rightarrow> string list \<Rightarrow> (string \<times> string) list \<Rightarrow> global_names option \<Rightarrow> (global_names option \<times> unit res) act" where
  "update_global_index_inner E b adds removes dead guard =
     onResult (locked_loop E b adds removes dead {} guard 4) (\<lambda>e. ret (None, Inl e)) (\<lambda>g. ret (Some g, Inr ()))"

definition update_global_index :: "index_env \<Rightarrow> bucket_id \<Rightarrow> string list \<Rightarrow> string list \<Rightarrow> global_names option \<Rightarrow> (global_names option \<times> unit res) act" where
  "update_global_index E b adds removes guard = update_global_index_inner E b adds removes [] guard"

definition update_global_index_verified ::
  "index_env \<Rightarrow> bucket_id \<Rightarrow> string list \<Rightarrow> (string \<times> string) list \<Rightarrow> global_names option \<Rightarrow> (global_names option \<times> unit res) act" where
  "update_global_index_verified E b adds dead guard = update_global_index_inner E b adds [] dead guard"

definition global_package_names :: "index_env \<Rightarrow> bucket_id \<Rightarrow> global_names option \<Rightarrow> (global_names \<times> string list) act" where
  "global_package_names E b guard =
     andThen (case guard of Some g \<Rightarrow> ret g | None \<Rightarrow> load_global_names E b) (\<lambda>g. ret (g, sorted_list_of_set (gn_names g)))"

section \<open>Deltas\<close>

definition delta :: "string list \<Rightarrow> string list \<Rightarrow> string set \<Rightarrow> string set" where
  "delta adds removes names = (names \<union> set adds) - set removes"

lemma fold_insert_name: "fold insert_name adds (names, changed) = (names \<union> set adds, changed \<or> \<not> set adds \<subseteq> names)"
  by (induction adds arbitrary: names changed) (auto simp: insert_name_def)

lemma fold_remove_name: "fold remove_name removes (names, changed) = (names - set removes, changed \<or> set removes \<inter> names \<noteq> {})"
  by (induction removes arbitrary: names changed) (auto simp: remove_name_def)

lemma apply_delta_eq:
  "apply_delta adds removes names = (delta adds removes names, \<not> set adds \<subseteq> names \<or> set removes \<inter> (names \<union> set adds) \<noteq> {})"
  by (simp add: apply_delta_def fold_insert_name fold_remove_name delta_def)

lemma apply_delta_unchanged: "apply_delta adds removes names = (names', False) \<Longrightarrow> names' = names"
  by (auto simp: apply_delta_eq delta_def)

lemma delta_finite [simp]: "finite names \<Longrightarrow> finite (delta adds removes names)"
  by (simp add: delta_def)

section \<open>What the other processes may see\<close>

text \<open>The state of the canonical list: absent, unreadable, or a set of names.\<close>

definition json_state :: "index_env \<Rightarrow> bucket_id \<Rightarrow> fleet \<Rightarrow> string set option option" where
  "json_state E b fl = map_option (\<lambda>ob. map_option set (parse_global E (obj_bytes ob))) (object_at (fl b) global_json_key)"

definition json_roundtrip :: "index_env \<Rightarrow> bool" where
  "json_roundtrip E = (\<forall>ps. parse_global E (pep691_global_json (ie_render E) ps) = Some ps)"

definition shows_names :: "index_env \<Rightarrow> string set option \<Rightarrow> bytes \<Rightarrow> bool" where
  "shows_names E names bs = (map_option set (parse_global E bs) = names)"

text \<open>What a cached name set says of the stored list while its tag stands.\<close>

definition cache_ok :: "index_env \<Rightarrow> bucket_id \<Rightarrow> global_names \<Rightarrow> fleet \<Rightarrow> bool" where
  "cache_ok E b g fl =
     (finite (gn_names g) \<and>
      (case gn_etag g of
         None \<Rightarrow> stranded g \<or> gn_names g = {}
       | Some t \<Rightarrow> sim.proves (fl b) global_json_key t (shows_names E (if stranded g then None else Some (gn_names g)))))"

lemma frames_json_state: "global_json_key \<notin> X \<Longrightarrow> frames b X (\<lambda>fl. Z (json_state E b fl))"
  by (simp add: frames_def json_state_def)

lemma frames_cache_ok: "frames b X (cache_ok E b g)"
  by (cases "gn_etag g") (auto simp: frames_def cache_ok_def sim.proves_stable)

lemma stable_cache_ok: "stable G (cache_ok E b g)"
  using sim.proves_stable by (cases "gn_etag g") (auto simp: stable_def cache_ok_def fleet_evolves_def)

lemma cache_ok_html [simp]: "cache_ok E b (g\<lparr>gn_html_etag := h\<rparr>) = cache_ok E b g" "cache_ok E b (g\<lparr>html_current := c\<rparr>) = cache_ok E b g"
  by (cases "gn_etag g"; simp add: cache_ok_def fun_eq_iff)+

lemma global_keys_distinct [simp]:
  "global_json_key \<noteq> global_html_key" "global_json_key \<noteq> global_html_stamp_key" "global_json_key \<notin> dirty_keys"
  by (simp_all add: global_json_key_def global_html_key_def global_html_stamp_key_def SIMPLE_PREFIX_def STATE_PREFIX_def dirty_keys_def DIRTY_PREFIX_def)

section \<open>What each step writes\<close>

lemma writes_listing [writes_intros]: "writes_only b X (list_all_objects b' pre)" "writes_only b X (list_dir_entries b' pre)" "writes_only b X (head_etag b' k)"
  unfolding list_all_objects_def list_dir_entries_def head_etag_def by (intro writes_read; simp)+

lemma writes_derive [writes_intros]: "writes_only b X (derive_loop b' cs)"
  by (induction cs) (auto intro!: writes_intros)

lemma writes_proved [writes_intros]: "writes_only b X (global_html_proved_current E b' t ps)"
  unfolding global_html_proved_current_def read_global_html_stamp_def by (intro writes_intros)

lemma writes_stamp: "writes_only b {global_html_stamp_key} (write_global_html_stamp E b t ps)"
  unfolding write_global_html_stamp_def by (intro writes_intros writes_puts) simp

lemma writes_html_cas: "writes_only b {global_html_key} (write_global_html_cas E b ps t)"
  unfolding write_global_html_cas_def conditional_put_def Let_def by (intro writes_intros writes_puts) simp_all

lemma writes_reconcile_html: "writes_only b {global_html_key} (reconcile_global_html E b ps t)"
  unfolding reconcile_global_html_def Let_def by (intro writes_intros writes_html_cas)

lemma writes_mark_dirty [writes_intros]: "writes_only b dirty_keys (mark_dirty sha b pkg)"
  unfolding mark_dirty_def by (intro writes_intros)

lemma writes_confirm_dead: "writes_only b dirty_keys (confirm_dead E b dead disproved)"
proof (induction dead arbitrary: disproved)
  case (Cons d dead)
  then show ?case
    by (cases d) (auto intro!: writes_intros simp: package_fingerprint_def)
qed (simp add: writes_basic)

lemma writes_html_proof: "writes_only b {global_html_key, global_html_stamp_key} (prove_html E b g)"
  unfolding prove_html_def Let_def
  by (intro writes_intros writes_mono [OF writes_reconcile_html] writes_mono [OF writes_stamp])
    (auto intro!: writes_intros writes_mono [OF writes_stamp] split: html_reconcile.splits)

section \<open>Names are never lost to a race\<close>

text \<open>
  An observer: what it asks of the list before (\<open>Z\<close>) survives every step of the update, and what it asks
  after a success (\<open>W\<close>) holds of the list the update publishes or finds.
\<close>

definition observes ::
  "(fleet \<Rightarrow> fleet \<Rightarrow> bool) \<Rightarrow> index_env \<Rightarrow> bucket_id \<Rightarrow> string list \<Rightarrow> string list \<Rightarrow> string set
    \<Rightarrow> (string set option option \<Rightarrow> bool) \<Rightarrow> (string set option option \<Rightarrow> bool) \<Rightarrow> bool" where
  "observes G E b adds removes deads Z W =
     (stable G (\<lambda>fl. Z (json_state E b fl)) \<and> stable G (\<lambda>fl. W (json_state E b fl))
      \<and> (\<forall>N c. set c \<subseteq> deads \<longrightarrow> Z (Some (Some N)) \<longrightarrow> Z (Some (Some (delta adds (removes @ c) N))))
      \<and> (\<forall>j N. Z j \<longrightarrow> j = None \<or> j = Some None \<longrightarrow> Z (Some (Some N)))
      \<and> (\<forall>N c. set c \<subseteq> deads \<longrightarrow> W (Some (Some (delta adds (removes @ c) N))))
      \<and> (\<forall>c. set c \<subseteq> deads \<longrightarrow> delta adds (removes @ c) {} = {} \<longrightarrow> W None))"

lemma observesD:
  assumes "observes G E b adds removes deads Z W"
  shows "stable G (\<lambda>fl. Z (json_state E b fl))" "stable G (\<lambda>fl. W (json_state E b fl))"
    "set c \<subseteq> deads \<Longrightarrow> Z (Some (Some N)) \<Longrightarrow> Z (Some (Some (delta adds (removes @ c) N)))"
    "Z j \<Longrightarrow> j = None \<or> j = Some None \<Longrightarrow> Z (Some (Some N))"
    "set c \<subseteq> deads \<Longrightarrow> W (Some (Some (delta adds (removes @ c) N)))"
    "set c \<subseteq> deads \<Longrightarrow> delta adds (removes @ c) {} = {} \<Longrightarrow> W None"
  using assms unfolding observes_def by blast+

lemma triple_derive:
  assumes "stable G K" and "frames b {} K"
  shows "triple G K (derive_loop b cs) (both K (\<lambda>N fl. K fl \<and> finite N))"
proof (induction cs)
  case (Cons c cs)
  have rest: "triple G K (andThen (derive_loop b cs) (\<lambda>names. ret (shard_names obs \<union> names))) (both K (\<lambda>N fl. K fl \<and> finite N))" for obs
    by (rule triple_andThen [OF Cons.IH]) (auto intro: triple_ret simp: shard_names_def)
  show ?case
    by (simp only: derive_loop.simps) (rule triple_frame_andThen [OF _ assms(2,1) rest]; simp add: writes_listing)
qed (simp add: triple_ret)

lemma triple_load:
  assumes "stable G K" and "frames b {} K" and "ie_leases E b" and "stable G (\<lambda>fl. W (json_state E b fl))"
  shows "triple G K (load_global_names E b) (both K (\<lambda>g fl. K fl \<and> cache_ok E b g fl
    \<and> (\<not> stranded g \<longrightarrow> W (if gn_etag g = None then None else Some (Some (gn_names g))) \<longrightarrow> W (json_state E b fl))))"
proof -
  let ?shown = "\<lambda>(body, tag) fl. (case body of None \<Rightarrow> tag = None | Some bs \<Rightarrow> \<exists>t. tag = Some t \<and> sim.proves (fl b) global_json_key t (\<lambda>v. v = bs))
    \<and> (W (map_option (\<lambda>bs. map_option set (parse_global E bs)) body) \<longrightarrow> W (json_state E b fl))"
  have shown: "stable G (?shown x)" "frames b {} (?shown x)" for x :: "bytes option \<times> string option"
    using assms(4) by (cases x; cases "fst x"; auto simp: stable_def fleet_evolves_def frames_def json_state_def intro: sim.proves_stable)+
  have read: "triple G K (andThen (get_with_etag b global_json_key) (\<lambda>r. ret (case r of Some (bs, t) \<Rightarrow> (Some bs, Some t) | None \<Rightarrow> (None, None))))
      (both K (\<lambda>x fl. K fl \<and> ?shown x fl))"
  proof (rule triple_andThen)
    show "triple G K (get_with_etag b global_json_key) (both K (\<lambda>r fl. K fl \<and> (\<forall>bs t. r = Some (bs, t) \<longrightarrow> sim.proves (fl b) global_json_key t (\<lambda>v. v = bs))
        \<and> (W (map_option (\<lambda>(bs, _). map_option set (parse_global E bs)) r) \<longrightarrow> W (json_state E b fl))))"
      by (rule triple_get_with_etag [OF assms(1)])
        (auto simp: fleet_wf_def lookup_tagged_def json_state_def option.map_comp comp_def split: prod.splits intro!: sim.provesI)
    show "triple G (\<lambda>fl. K fl \<and> (\<forall>bs t. r = Some (bs, t) \<longrightarrow> sim.proves (fl b) global_json_key t (\<lambda>v. v = bs))
        \<and> (W (map_option (\<lambda>(bs, _). map_option set (parse_global E bs)) r) \<longrightarrow> W (json_state E b fl)))
        (ret (case r of Some (bs, t) \<Rightarrow> (Some bs, Some t) | None \<Rightarrow> (None, None))) (both K (\<lambda>x fl. K fl \<and> ?shown x fl))" for r
      by (rule triple_ret) (auto split: option.splits)
  qed simp
  have body: "triple G (\<lambda>fl. K fl \<and> ?shown (body, tag) fl)
     (andThen (current_global_html_etag E b) (\<lambda>html_tag. case body of
         None \<Rightarrow> andThen (head_exists b global_html_key) (\<lambda>torn. andThen (if torn then derive_global_names b else ret {}) (\<lambda>names.
             ret \<lparr>gn_etag = tag, gn_names = names, gn_html_etag = html_tag, html_current = False, stranded = torn\<rparr>))
       | Some bs \<Rightarrow> (case parse_global E bs of
              Some names \<Rightarrow> ret \<lparr>gn_etag = tag, gn_names = set names, gn_html_etag = html_tag, html_current = False, stranded = False\<rparr>
            | None \<Rightarrow> andThen (derive_global_names b) (\<lambda>names.
                  ret \<lparr>gn_etag = tag, gn_names = names, gn_html_etag = html_tag, html_current = False, stranded = True\<rparr>))))
     (both K (\<lambda>g fl. K fl \<and> cache_ok E b g fl
       \<and> (\<not> stranded g \<longrightarrow> W (if gn_etag g = None then None else Some (Some (gn_names g))) \<longrightarrow> W (json_state E b fl))))" (is "triple G ?P _ ?Q") for body tag
  proof -
    have P: "stable G ?P" "frames b {} ?P"
      by (rule stable_conj [OF assms(1) shown(1)], rule frames_conj [OF assms(2) shown(2)])
    have html: "writes_only b {} (current_global_html_etag E b)"
      unfolding current_global_html_etag_def by (intro writes_intros)
    have derive: "triple G ?P (derive_global_names b) (both ?P (\<lambda>N fl. ?P fl \<and> finite N))"
      unfolding derive_global_names_def by (rule triple_derive [OF P])
    have maybe: "triple G ?P (if torn then derive_global_names b else ret {}) (both ?P (\<lambda>N fl. ?P fl \<and> finite N \<and> (torn \<or> N = {})))" for torn
      by (cases torn) (auto intro: triple_ret triple_conseq [OF derive] simp: both_def split: sum.splits)
    show ?thesis
    proof (rule triple_frame_andThen [OF html P(2,1)])
      fix html_tag
      show "triple G ?P (case body of
         None \<Rightarrow> andThen (head_exists b global_html_key) (\<lambda>torn. andThen (if torn then derive_global_names b else ret {}) (\<lambda>names.
             ret \<lparr>gn_etag = tag, gn_names = names, gn_html_etag = html_tag, html_current = False, stranded = torn\<rparr>))
       | Some bs \<Rightarrow> (case parse_global E bs of
              Some names \<Rightarrow> ret \<lparr>gn_etag = tag, gn_names = set names, gn_html_etag = html_tag, html_current = False, stranded = False\<rparr>
            | None \<Rightarrow> andThen (derive_global_names b) (\<lambda>names.
                  ret \<lparr>gn_etag = tag, gn_names = names, gn_html_etag = html_tag, html_current = False, stranded = True\<rparr>))) ?Q"
      proof (cases body)
        case None
        have "triple G ?P (andThen (head_exists b global_html_key) (\<lambda>torn. andThen (if torn then derive_global_names b else ret {}) (\<lambda>names.
             ret \<lparr>gn_etag = tag, gn_names = names, gn_html_etag = html_tag, html_current = False, stranded = torn\<rparr>))) ?Q"
          by (intro triple_frame_andThen [OF writes_reads(3) P(2,1)] triple_andThen [OF maybe]; auto intro!: triple_ret simp: cache_ok_def None)
        then show ?thesis
          by (simp only: None option.case)
      next
        case (Some bs)
        have proof_of: "sim.proves s global_json_key t (\<lambda>v. v = bs) \<Longrightarrow> Q bs \<Longrightarrow> sim.proves s global_json_key t Q" for s t and Q :: "bytes \<Rightarrow> bool"
          unfolding sim.proves_def by blast
        show ?thesis
        proof (cases "parse_global E bs")
          case None
          have "triple G ?P (andThen (derive_global_names b) (\<lambda>names.
              ret \<lparr>gn_etag = tag, gn_names = names, gn_html_etag = html_tag, html_current = False, stranded = True\<rparr>)) ?Q"
          proof (rule triple_andThen [OF derive])
            fix names :: "string set"
            show "triple G (\<lambda>fl. ?P fl \<and> finite names) (ret \<lparr>gn_etag = tag, gn_names = names, gn_html_etag = html_tag, html_current = False, stranded = True\<rparr>) ?Q"
              by (rule triple_ret) (use Some None proof_of [where Q = "shows_names E None"] in \<open>auto simp: cache_ok_def shows_names_def\<close>)
          qed auto
          then show ?thesis
            by (simp only: Some None option.case)
        next
          case (Some names)
          then show ?thesis
            using \<open>body = Some bs\<close> proof_of [where Q = "shows_names E (Some (set names))"]
            by (auto intro!: triple_ret simp: cache_ok_def shows_names_def)
        qed
      qed
    qed auto
  qed
  show ?thesis
    unfolding load_global_names_def using assms(3)
    by (simp only: if_True) (rule triple_andThen [OF read]; simp only: case_prod_conv split_paired_all body [unfolded case_prod_conv] both_simps)
qed

text \<open>The conditional write of the canonical list.\<close>

lemma json_state_store:
  "json_roundtrip E \<Longrightarrow> finite names \<Longrightarrow>
    json_state E b (fl(b := snd (store sha global_json_key (pep691_global_json (ie_render E) (sorted_list_of_set names)) (fl b)))) = Some (Some names)"
  by (simp add: json_state_def object_at_store json_roundtrip_def)

lemma json_proved_store:
  assumes "json_roundtrip E" and "finite names" and "fleet_wf fl"
  shows "sim.proves (snd (store sha global_json_key (pep691_global_json (ie_render E) (sorted_list_of_set names)) (fl b))) global_json_key
    (version_etag (next_version (fl b))) (shows_names E (Some names))"
  using assms by (intro sim.provesI [where v = "pep691_global_json (ie_render E) (sorted_list_of_set names)"])
    (simp_all add: fleet_wf_def store_wf_store lookup_tagged_def object_at_store json_roundtrip_def shows_names_def)

lemma json_state_create_lost [simp]: "json_state E b (fl(b := create_lost sha k (fl b))) = json_state E b fl"
  by (simp add: json_state_def)

lemma cache_ok_state:
  assumes "cache_ok E b g fl" and "gn_etag g = Some t" and "lookup_tagged (fl b) global_json_key = Some (v, t)"
  shows "json_state E b fl = Some (if stranded g then None else Some (gn_names g))"
proof -
  have "shows_names E (if stranded g then None else Some (gn_names g)) v"
    using assms(1,2) sim.proves_current [OF _ assms(3)] by (auto simp: cache_ok_def)
  then show ?thesis
    using assms(3) by (auto simp: json_state_def lookup_tagged_def shows_names_def)
qed

lemma triple_put_json:
  fixes g :: global_names
  assumes obs: "observes G E b adds removes deads Z W" and rt: "json_roundtrip E" and c: "set c \<subseteq> deads"
  defines "names \<equiv> delta adds (removes @ c) (gn_names g)"
  shows "triple G (\<lambda>fl. Z (json_state E b fl) \<and> cache_ok E b g fl)
    (conditional_put E b global_json_key (gn_etag g) (pep691_global_json (ie_render E) (sorted_list_of_set names)))
    (both (\<lambda>fl. Z (json_state E b fl)) (\<lambda>r fl. Z (json_state E b fl) \<and> (\<forall>t. r = Some t \<longrightarrow> W (json_state E b fl)
       \<and> sim.proves (fl b) global_json_key t (shows_names E (Some names)))))"
    (is "triple G ?P _ ?Q")
proof -
  note D = observesD [OF obs]
  have P: "stable G ?P"
    by (rule stable_conj [OF D(1) stable_cache_ok])
  have W: "W (Some (Some names))"
    unfolding names_def by (rule D(5) [OF c])
  show ?thesis
  proof (cases "gn_etag g")
    case None
    have won: "Z (Some (Some names)) \<and> finite names" if "?P fl" "\<not> contains_key (fl b) global_json_key" for fl
      using D(4) [OF conjunct1 [OF that(1)], of names] that by (simp add: json_state_def contains_key_def names_def cache_ok_def)
    show ?thesis
      unfolding conditional_put_def None option.case
      using P by (rule triple_put_if_none_match) (use won in \<open>auto simp: json_state_store [OF rt] json_proved_store [OF rt] W\<close>)
  next
    case (Some t)
    have won: "Z (Some (Some names)) \<and> finite names" if "?P fl" "lookup_tagged (fl b) global_json_key = Some (v, t)" for fl v
      using cache_ok_state [OF conjunct2 [OF that(1)] Some that(2)] D(3) [OF c, of "gn_names g"] D(4) [of "Some None" names] that(1)
      by (auto simp: names_def cache_ok_def split: if_splits)
    show ?thesis
      unfolding conditional_put_def Some option.case
      using P by (rule triple_put_if_match) (use won in \<open>auto simp: json_state_store [OF rt] json_proved_store [OF rt] W\<close>)
  qed
qed

text \<open>Publishing the pair.\<close>

lemma triple_write_cas:
  fixes g :: global_names
  assumes obs: "observes G E b adds removes deads Z W" and rt: "json_roundtrip E" and c: "set c \<subseteq> deads" and leases: "ie_leases E b"
  defines "names \<equiv> delta adds (removes @ c) (gn_names g)"
  shows "triple G (\<lambda>fl. Z (json_state E b fl) \<and> cache_ok E b g fl)
    (write_global_indexes_cas E b (sorted_list_of_set names) (gn_etag g) (gn_html_etag g))
    (both (\<lambda>fl. Z (json_state E b fl)) (\<lambda>r fl. Z (json_state E b fl) \<and> (\<forall>j h. r = WonCas j h \<longrightarrow> W (json_state E b fl)
       \<and> cache_ok E b (g\<lparr>gn_names := names, gn_etag := j, gn_html_etag := h, html_current := True, stranded := False\<rparr>) fl)))"
    (is "triple G ?P _ ?Q")
proof -
  note D = observesD [OF obs]
  have fin: "finite names" if "cache_ok E b g fl" for fl
    using that by (simp add: names_def cache_ok_def)
  let ?put = "conditional_put E b global_json_key (gn_etag g) (pep691_global_json (ie_render E) (sorted_list_of_set names))"
  let ?Zs = "\<lambda>fl. Z (json_state E b fl)" and ?Ws = "\<lambda>fl. W (json_state E b fl)"
  let ?R = "\<lambda>t fl. ?Zs fl \<and> ?Ws fl \<and> sim.proves (fl b) global_json_key t (shows_names E (Some names)) \<and> finite names"
  have R_stable: "stable G (?R t)" for t
    by (intro stable_conj D(1,2) stable_proves stable_const)
  have R_frames: "frames b {global_html_stamp_key} (?R t)" for t
    by (intro frames_conj frames_json_state frames_proves frames_const) simp_all
  have put: "triple G (\<lambda>fl. ?P fl \<and> finite names) ?put (both ?Zs (\<lambda>r fl. ?Zs fl \<and> (\<forall>t. r = Some t \<longrightarrow> ?R t fl)))"
    by (cases "finite names") (auto simp: triple_def names_def dest: tripleD [OF triple_put_json [OF obs rt c]] intro!: exI simp: both_def split: sum.splits)
  have stamp: "triple G (\<lambda>fl. ?Zs fl \<and> (\<forall>t. r = Some t \<longrightarrow> ?R t fl))
      (case r of None \<Rightarrow> ret LostCas | Some t \<Rightarrow> andThen (write_global_html_stamp E b html_etag (sorted_list_of_set names)) (\<lambda>_. ret (WonCas (Some t) html_etag))) ?Q" for r html_etag
  proof (cases r)
    case (Some t)
    have "triple G (?R t) (andThen (write_global_html_stamp E b html_etag (sorted_list_of_set names)) (\<lambda>_. ret (WonCas (Some t) html_etag))) ?Q"
      by (rule triple_frame_andThen [OF writes_stamp R_frames R_stable]) (auto intro!: triple_ret simp: cache_ok_def)
    then show ?thesis
      using Some by (auto elim: triple_pre)
  qed (auto intro: triple_ret)
  have P_stable: "stable G ?P"
    by (intro stable_conj D(1) stable_cache_ok)
  have P_frames: "frames b {global_html_key} ?P"
    by (intro frames_conj frames_json_state frames_cache_ok) simp
  have json: "triple G ?P (andThen ?put (\<lambda>r. case r of None \<Rightarrow> ret LostCas
      | Some t \<Rightarrow> andThen (write_global_html_stamp E b html_etag (sorted_list_of_set names)) (\<lambda>_. ret (WonCas (Some t) html_etag)))) ?Q" for html_etag
    by (rule triple_pre [OF triple_andThen [OF put stamp]]) (use fin in auto)
  show ?thesis
    unfolding write_global_indexes_cas_def using leases
    by (simp only: if_True) (rule triple_frame_andThen [OF writes_html_cas P_frames P_stable]; auto intro!: triple_ret json split: html_write.splits)
qed

text \<open>A destination bucket.\<close>

lemma triple_uncached:
  assumes obs: "observes G E b adds removes {} Z W" and rt: "json_roundtrip E" and leases: "ie_leases E b"
  shows "triple G (\<lambda>fl. Z (json_state E b fl)) (uncached_loop E b adds removes n)
    (both (\<lambda>fl. Z (json_state E b fl)) (\<lambda>_ fl. Z (json_state E b fl) \<and> W (json_state E b fl)))" (is "triple G ?Zs _ ?Q")
proof (induction n)
  case (Suc n)
  note D = observesD [OF obs]
  let ?Ws = "\<lambda>fl. W (json_state E b fl)"
  have load: "triple G ?Zs (load_global_names E b) (both ?Zs (\<lambda>g fl. ?Zs fl \<and> cache_ok E b g fl
    \<and> (\<not> stranded g \<longrightarrow> W (if gn_etag g = None then None else Some (Some (gn_names g))) \<longrightarrow> ?Ws fl)))"
    by (rule triple_load [OF D(1) frames_json_state leases D(2)]) simp
  have ZW: "stable G (\<lambda>fl. ?Zs fl \<and> ?Ws fl)"
    by (intro stable_conj D(1,2))
  have fr: "frames b X (\<lambda>fl. ?Zs fl \<and> ?Ws fl)" if "global_json_key \<notin> X" for X
    using that by (intro frames_conj frames_json_state)
  have noop: "triple G (\<lambda>fl. ?Zs fl \<and> ?Ws fl) (andThen (global_html_proved_current E b t ps) (\<lambda>proved.
           if proved then ret ()
           else andThen (reconcile_global_html E b ps t) (\<lambda>r. case r of
                    CurrentHtml \<Rightarrow> ret () | RewroteHtml t \<Rightarrow> write_global_html_stamp E b t ps
                  | LostReconcile \<Rightarrow> uncached_loop E b adds removes n))) ?Q" for t ps
  proof (rule triple_frame_andThen [OF writes_proved fr [of "{}"] ZW])
    fix proved
    have "triple G (\<lambda>fl. ?Zs fl \<and> ?Ws fl) (case r of CurrentHtml \<Rightarrow> ret () | RewroteHtml t \<Rightarrow> write_global_html_stamp E b t ps
                  | LostReconcile \<Rightarrow> uncached_loop E b adds removes n) ?Q" for r
      by (cases r) (auto intro: triple_ret triple_pre [OF Suc.IH] triple_conseq [OF writes_onlyD [OF writes_stamp fr ZW]] simp: both_def split: sum.splits)
    then show "triple G (\<lambda>fl. ?Zs fl \<and> ?Ws fl) (if proved then ret () else andThen (reconcile_global_html E b ps t) (\<lambda>r. case r of
                    CurrentHtml \<Rightarrow> ret () | RewroteHtml t \<Rightarrow> write_global_html_stamp E b t ps
                  | LostReconcile \<Rightarrow> uncached_loop E b adds removes n)) ?Q"
      by (intro triple_if triple_frame_andThen [OF writes_reconcile_html fr ZW]) (auto intro: triple_ret)
  qed auto
  have publish: "triple G (\<lambda>fl. ?Zs fl \<and> cache_ok E b g fl) (andThen (write_global_indexes_cas E b (sorted_list_of_set (delta adds removes (gn_names g))) (gn_etag g) (gn_html_etag g)) (\<lambda>r.
           case r of WonCas _ _ \<Rightarrow> ret () | LostCas \<Rightarrow> uncached_loop E b adds removes n)) ?Q" for g
    by (rule triple_andThen [OF triple_write_cas [where c = "[]", OF obs rt _ leases, simplified]])
      (auto intro: triple_ret triple_pre [OF Suc.IH] split: cas_outcome.splits)
  show ?case
    unfolding uncached_loop.simps
  proof (rule triple_andThen [OF load])
    fix g
    let ?P = "\<lambda>fl. ?Zs fl \<and> cache_ok E b g fl \<and> (\<not> stranded g \<longrightarrow> W (if gn_etag g = None then None else Some (Some (gn_names g))) \<longrightarrow> ?Ws fl)"
    obtain changed where ch: "apply_delta adds removes (gn_names g) = (delta adds removes (gn_names g), changed)"
      by (simp add: apply_delta_eq)
    have same: "?Zs fl \<and> ?Ws fl" if "?P fl" "\<not> changed" "\<not> stranded g" for fl
    proof -
      have "delta adds removes (gn_names g) = gn_names g"
        using apply_delta_unchanged [of adds removes "gn_names g"] ch that(2) by simp
      then have "W (if gn_etag g = None then None else Some (Some (gn_names g)))"
        using that(1,3) D(5) [of "[]" "gn_names g"] D(6) [of "[]"] by (auto simp: cache_ok_def)
      then show ?thesis
        using that by blast
    qed
    show "triple G ?P (let (names, changed) = apply_delta adds removes (gn_names g); packages = sorted_list_of_set names in
       if \<not> changed \<and> \<not> stranded g then
         andThen (global_html_proved_current E b (gn_html_etag g) packages) (\<lambda>proved.
           if proved then ret ()
           else andThen (reconcile_global_html E b packages (gn_html_etag g)) (\<lambda>r.
                  case r of CurrentHtml \<Rightarrow> ret () | RewroteHtml t \<Rightarrow> write_global_html_stamp E b t packages
                  | LostReconcile \<Rightarrow> uncached_loop E b adds removes n))
       else
         andThen (write_global_indexes_cas E b packages (gn_etag g) (gn_html_etag g)) (\<lambda>r.
           case r of WonCas _ _ \<Rightarrow> ret () | LostCas \<Rightarrow> uncached_loop E b adds removes n)) ?Q"
      unfolding ch Let_def case_prod_conv
      by (intro triple_if triple_pre [OF noop] triple_pre [OF publish]) (use same in auto)
  qed simp
qed (simp add: triple_fail)

text \<open>The selected bucket.\<close>

lemma triple_confirm_dead:
  assumes "stable G K" and "frames b dirty_keys K"
  shows "triple G K (confirm_dead E b dead disproved) (both K (\<lambda>(confirmed, _) fl. K fl \<and> set confirmed \<subseteq> fst ` set dead))"
proof (induction dead arbitrary: disproved)
  case (Cons d dead)
  obtain pkg observed where d: "d = (pkg, observed)"
    by fastforce
  have weaken: "triple G K (confirm_dead E b dead bad) (both K (\<lambda>(confirmed, _) fl. K fl \<and> set confirmed \<subseteq> fst ` set (d # dead)))" for bad
    by (rule triple_conseq [OF Cons.IH]) (auto simp: both_def split: sum.splits)
  have dirty: "writes_only b dirty_keys (package_fingerprint (ie_sha E) b pkg)"
    unfolding package_fingerprint_def by (intro writes_intros)
  have keep: "triple G K (andThen (confirm_dead E b dead disproved) (\<lambda>(confirmed, bad). ret (pkg # confirmed, bad)))
      (both K (\<lambda>(confirmed, _) fl. K fl \<and> set confirmed \<subseteq> fst ` set (d # dead)))"
    by (rule triple_andThen [OF Cons.IH]) (auto intro!: triple_ret simp: d)
  show ?case
    unfolding d confirm_dead.simps
    by (intro triple_if triple_frame_andThen [OF dirty assms(2,1)] triple_frame_andThen [OF writes_mark_dirty assms(2,1)])
      (use weaken keep in \<open>simp_all add: d\<close>)
qed (simp add: triple_ret)

lemma triple_head_etag:
  "stable G P \<Longrightarrow> (\<And>fl. fleet_wf fl \<Longrightarrow> P fl \<Longrightarrow> Q (Inr (map_option snd (lookup_tagged (fl b) key))) fl)
    \<Longrightarrow> (\<And>fl sg. fleet_wf fl \<Longrightarrow> P fl \<Longrightarrow> Q (Inl (StoreError sg)) fl) \<Longrightarrow> triple G P (head_etag b key) Q"
  unfolding head_etag_def by (rule triple_read_call) (simp_all add: lookup_tagged_def option.map_comp comp_def)

lemma triple_check_cached:
  assumes obs: "observes G E b adds removes deads Z W" and c: "set c \<subseteq> deads" and leases: "ie_leases E b"
    and same: "delta adds (removes @ c) (gn_names g) = gn_names g" "\<not> stranded g"
  shows "triple G (\<lambda>fl. Z (json_state E b fl) \<and> cache_ok E b g fl) (check_cached E b g)
    (both (\<lambda>fl. Z (json_state E b fl)) (\<lambda>r fl. Z (json_state E b fl) \<and> (\<forall>g1. r = Some g1 \<longrightarrow> W (json_state E b fl) \<and> cache_ok E b g1 fl)))"
    (is "triple G ?P _ ?Q")
proof -
  note D = observesD [OF obs]
  let ?R = "\<lambda>j fl. ?P fl \<and> (j = gn_etag g \<longrightarrow> W (json_state E b fl))"
  have P: "stable G ?P"
    by (intro stable_conj D(1) stable_cache_ok)
  have found: "W (json_state E b fl)" if pre: "?P fl" and tag: "map_option snd (lookup_tagged (fl b) global_json_key) = gn_etag g" for fl
  proof (cases "gn_etag g")
    case None
    then have "json_state E b fl = None" "gn_names g = {}"
      using pre tag same(2) by (auto simp: json_state_def lookup_tagged_def cache_ok_def)
    then show ?thesis
      using D(6) [OF c] same(1) by simp
  next
    case (Some t)
    then obtain v where "lookup_tagged (fl b) global_json_key = Some (v, t)"
      using tag by auto
    then have "json_state E b fl = Some (Some (gn_names g))"
      using cache_ok_state [OF _ Some] pre same(2) by fastforce
    then show ?thesis
      using D(5) [OF c, of "gn_names g"] same(1) by simp
  qed
  have json: "triple G ?P (head_etag b global_json_key) (both ?P ?R)"
    using P by (rule triple_head_etag) (use found in auto)
  have R: "stable G (?R j)" for j
    using P D(2) unfolding stable_def by blast
  have html: "triple G (?R j) (andThen (head_etag b global_html_key) (\<lambda>h. ret (j, h))) (both ?P (\<lambda>(j, _). ?R j))" for j
    by (rule triple_andThen [where E = ?P and R = "\<lambda>_. ?R j", OF triple_head_etag [OF R]]) (auto intro!: triple_ret)
  have decide_cached: "triple G (?R j) (ret (if j \<noteq> gn_etag g \<or> (j = None \<and> h \<noteq> None) then None
      else Some (if h \<noteq> gn_html_etag g then g\<lparr>gn_html_etag := h, html_current := False\<rparr> else g))) ?Q" for j h
    by (rule triple_ret) (auto split: if_splits)
  show ?thesis
    unfolding check_cached_def global_index_etags_def using leases
    by (simp only: not_True_eq_False if_False)
      (rule triple_andThen [OF triple_andThen [OF json html]]; (simp only: split_paired_all case_prod_conv decide_cached)?; simp)
qed

lemma prove_html_cached: "prove_html E b g w = (Inr (Some g'), w') \<Longrightarrow> \<exists>h c. g' = g\<lparr>gn_html_etag := h, html_current := c\<rparr>"
  by (auto simp: prove_html_def ret_def andThen_def Let_def split: if_splits prod.splits sum.splits html_reconcile.splits)
    (metis global_names.surjective global_names.update_convs(3,4))+

lemma triple_locked:
  assumes obs: "observes G E b adds removes (fst ` set dead) Z W" and rt: "json_roundtrip E" and leases: "ie_leases E b"
  shows "triple G (\<lambda>fl. Z (json_state E b fl) \<and> (\<forall>g. guard = Some g \<longrightarrow> cache_ok E b g fl)) (locked_loop E b adds removes dead disproved guard n)
    (both (\<lambda>fl. Z (json_state E b fl)) (\<lambda>g fl. Z (json_state E b fl) \<and> W (json_state E b fl) \<and> cache_ok E b g fl))" (is "triple G (?I guard) _ ?Q")
proof (induction n arbitrary: guard disproved)
  case (Suc n)
  note D = observesD [OF obs]
  let ?Zs = "\<lambda>fl. Z (json_state E b fl)" and ?Ws = "\<lambda>fl. W (json_state E b fl)"
  let ?P = "\<lambda>g fl. ?Zs fl \<and> cache_ok E b g fl"
  have again: "triple G ?Zs (locked_loop E b adds removes dead bad None n) ?Q" for bad
    by (rule triple_pre [OF Suc.IH]) simp
  have load: "triple G (?I guard) (case guard of Some g \<Rightarrow> ret g | None \<Rightarrow> load_global_names E b) (both ?Zs ?P)"
  proof (cases guard)
    case None
    have "triple G ?Zs (load_global_names E b) (both ?Zs (\<lambda>g fl. ?Zs fl \<and> cache_ok E b g fl
      \<and> (\<not> stranded g \<longrightarrow> W (if gn_etag g = None then None else Some (Some (gn_names g))) \<longrightarrow> ?Ws fl)))"
      by (rule triple_load [OF D(1) frames_json_state leases D(2)]) simp
    then show ?thesis
      using None by (auto elim!: triple_conseq simp: both_def split: sum.splits)
  qed (auto intro!: triple_ret)
  have P: "stable G (?P g)" for g
    by (intro stable_conj D(1) stable_cache_ok)
  have frames: "frames b X (?P g)" if "global_json_key \<notin> X" for g X
    using that by (intro frames_conj frames_json_state frames_cache_ok)
  have publish: "triple G (?P g0) (andThen (write_global_indexes_cas E b (sorted_list_of_set (delta adds (removes @ c) (gn_names g0))) (gn_etag g0) (gn_html_etag g0)) (\<lambda>r.
      case r of WonCas j h \<Rightarrow> ret (g0\<lparr>gn_names := delta adds (removes @ c) (gn_names g0), gn_etag := j, gn_html_etag := h, html_current := True, stranded := False\<rparr>)
      | LostCas \<Rightarrow> locked_loop E b adds removes dead bad None n)) ?Q" if "set c \<subseteq> fst ` set dead" for g0 c bad
    by (rule triple_andThen [OF triple_write_cas [OF obs rt that leases]]) (auto intro: triple_ret triple_pre [OF again] split: cas_outcome.splits)
  have proved: "triple G (\<lambda>fl. ?P g1 fl \<and> ?Ws fl) (andThen (prove_html E b g1) (\<lambda>r. case r of
      None \<Rightarrow> locked_loop E b adds removes dead bad None n | Some g2 \<Rightarrow> ret g2)) ?Q" for g1 bad
  proof -
    let ?K = "\<lambda>fl. ?P g1 fl \<and> ?Ws fl"
    have keep: "triple G ?K (prove_html E b g1) (\<lambda>_. ?K)"
      by (rule writes_onlyD [OF writes_html_proof]) (intro frames_conj frames_json_state frames_cache_ok stable_conj D(1,2) stable_cache_ok; simp)+
    have "triple G ?K (prove_html E b g1) (both ?Zs (\<lambda>r fl. ?K fl \<and> (\<forall>g2. r = Some g2 \<longrightarrow> (\<exists>h c. g2 = g1\<lparr>gn_html_etag := h, html_current := c\<rparr>))))"
      unfolding triple_def
    proof (intro allI impI)
      fix w r w'
      assume w: "obeys G w" "?K (buckets w)" and run: "prove_html E b g1 w = (r, w')"
      show "obeys G w' \<and> both ?Zs (\<lambda>r fl. ?K fl \<and> (\<forall>g2. r = Some g2 \<longrightarrow> (\<exists>h c. g2 = g1\<lparr>gn_html_etag := h, html_current := c\<rparr>))) r (buckets w')"
        using tripleD [OF keep w run] prove_html_cached [of E b g1 w _ w'] run by (cases r) auto
    qed
    then show ?thesis
      by (rule triple_andThen) (auto intro!: triple_ret triple_pre [OF again] split: option.splits)
  qed
  have noop: "triple G (?P g) (andThen (check_cached E b g) (\<lambda>r. case r of
        None \<Rightarrow> locked_loop E b adds removes dead bad None n
      | Some g1 \<Rightarrow> andThen (prove_html E b g1) (\<lambda>r. case r of None \<Rightarrow> locked_loop E b adds removes dead bad None n | Some g2 \<Rightarrow> ret g2))) ?Q"
    if "set c \<subseteq> fst ` set dead" "delta adds (removes @ c) (gn_names g) = gn_names g" "\<not> stranded g" for g c bad
    by (rule triple_andThen [OF triple_check_cached [OF obs that(1) leases that(2,3)]])
      (auto intro: triple_pre [OF again] triple_pre [OF proved] split: option.splits)
  show ?case
    unfolding locked_loop.simps
  proof (rule triple_andThen [OF load])
    fix g0
    show "triple G (?P g0) (andThen (confirm_dead E b dead disproved) (\<lambda>(confirmed, disproved').
       let (names, changed) = apply_delta adds (removes @ confirmed) (gn_names g0); g = g0\<lparr>gn_names := names\<rparr> in
       if \<not> changed \<and> \<not> stranded g then
         andThen (check_cached E b g) (\<lambda>c. case c of
             None \<Rightarrow> locked_loop E b adds removes dead disproved' None n
           | Some g1 \<Rightarrow> andThen (prove_html E b g1) (\<lambda>r. case r of None \<Rightarrow> locked_loop E b adds removes dead disproved' None n | Some g2 \<Rightarrow> ret g2))
       else andThen (write_global_indexes_cas E b (sorted_list_of_set names) (gn_etag g) (gn_html_etag g)) (\<lambda>r. case r of
             WonCas j h \<Rightarrow> ret (g\<lparr>gn_etag := j, gn_html_etag := h, html_current := True, stranded := False\<rparr>)
           | LostCas \<Rightarrow> locked_loop E b adds removes dead disproved' None n))) ?Q"
    proof (rule triple_andThen [OF triple_confirm_dead [OF P frames]], simp, clarify)
      fix c bad
      obtain changed where ch: "apply_delta adds (removes @ c) (gn_names g0) = (delta adds (removes @ c) (gn_names g0), changed)"
        by (simp add: apply_delta_eq)
      have same: "g0\<lparr>gn_names := delta adds (removes @ c) (gn_names g0)\<rparr> = g0 \<and> delta adds (removes @ c) (gn_names g0) = gn_names g0" if "\<not> changed"
        using apply_delta_unchanged [of adds "removes @ c" "gn_names g0"] ch that by simp
      show "triple G (\<lambda>fl. ?P g0 fl \<and> set c \<subseteq> fst ` set dead)
        (let (names, changed) = apply_delta adds (removes @ c) (gn_names g0); g = g0\<lparr>gn_names := names\<rparr> in
         if \<not> changed \<and> \<not> stranded g then
           andThen (check_cached E b g) (\<lambda>c. case c of
               None \<Rightarrow> locked_loop E b adds removes dead bad None n
             | Some g1 \<Rightarrow> andThen (prove_html E b g1) (\<lambda>r. case r of None \<Rightarrow> locked_loop E b adds removes dead bad None n | Some g2 \<Rightarrow> ret g2))
         else andThen (write_global_indexes_cas E b (sorted_list_of_set names) (gn_etag g) (gn_html_etag g)) (\<lambda>r. case r of
               WonCas j h \<Rightarrow> ret (g\<lparr>gn_etag := j, gn_html_etag := h, html_current := True, stranded := False\<rparr>)
             | LostCas \<Rightarrow> locked_loop E b adds removes dead bad None n)) ?Q"
      proof (cases "set c \<subseteq> fst ` set dead")
        case True
        show ?thesis
        proof (cases "\<not> changed \<and> \<not> stranded g0")
          case quiet: True
          then show ?thesis
            using same by (simp add: ch Let_def) (rule triple_pre [OF noop [OF True]]; simp)
        next
          case False
          then consider "changed" | "stranded g0"
            by blast
          then show ?thesis
            by cases (simp add: ch Let_def, rule triple_pre [OF publish [OF True]], simp)+
        qed
      qed (simp add: triple_def)
    qed simp
  qed simp
qed (auto intro: triple_fail)

section \<open>The theorems\<close>

fun lists_name :: "string \<Rightarrow> string set option option \<Rightarrow> bool" where
  "lists_name q (Some (Some names)) = (q \<in> names)"
| "lists_name q _ = False"

abbreviation json_lists :: "index_env \<Rightarrow> bucket_id \<Rightarrow> string \<Rightarrow> fleet \<Rightarrow> bool" where
  "json_lists E b q fl \<equiv> lists_name q (json_state E b fl)"

lemma observes_keep:
  "stable G (json_lists E b q) \<Longrightarrow> q \<notin> set removes \<Longrightarrow> q \<notin> deads \<Longrightarrow> observes G E b adds removes deads (lists_name q) (\<lambda>_. True)"
  unfolding observes_def by (auto simp: delta_def stable_const)

lemma observes_add:
  "stable G (json_lists E b q) \<Longrightarrow> q \<in> set adds \<Longrightarrow> q \<notin> set removes \<Longrightarrow> q \<notin> deads \<Longrightarrow> observes G E b adds removes deads (\<lambda>_. True) (lists_name q)"
  unfolding observes_def by (auto simp: delta_def stable_const)

lemma observes_remove:
  "stable G (\<lambda>fl. \<not> json_lists E b q fl) \<Longrightarrow> q \<in> set removes \<Longrightarrow> observes G E b adds removes deads (\<lambda>_. True) (\<lambda>j. \<not> lists_name q j)"
  unfolding observes_def by (simp add: delta_def stable_const)

lemma locked_run:
  assumes "update_global_index_inner E b adds removes dead guard w = (r, w')"
  obtains g where "locked_loop E b adds removes dead {} guard 4 w = (Inr g, w')" "r = Inr (Some g, Inr ())"
  | e where "locked_loop E b adds removes dead {} guard 4 w = (Inl e, w')" "r = Inr (None, Inl e)"
  using assms by (auto simp: update_global_index_inner_def onResult_def ret_def split: prod.splits sum.splits)

text \<open>
  C18: Two nodes that change the global index at the same time never lose a name to each other. Take a
  bucket with conditional writes and a name \<open>q\<close> that the update does not remove. Whatever other processes
  do that leaves a listed \<open>q\<close> listed, whichever calls fail or lose their answer, a name that was listed is
  still listed after the update, success or not; a name the update adds is listed when it succeeds. If
  the update removes \<open>q\<close> and the others do not list it again, it is not listed when the update succeeds.
  The cached name set the update leaves behind is again true of the stored list.
\<close>

theorem global_index_loses_no_name:
  assumes "json_roundtrip E" and "ie_leases E b" and "obeys G w" and "\<forall>g. guard = Some g \<longrightarrow> cache_ok E b g (buckets w)"
    and "update_global_index_inner E b adds removes dead guard w = (Inr (guard', r), w')"
  shows "(\<forall>g. guard' = Some g \<longrightarrow> cache_ok E b g (buckets w'))
    \<and> (stable G (json_lists E b q) \<longrightarrow> q \<notin> set removes \<longrightarrow> q \<notin> fst ` set dead \<longrightarrow>
         json_lists E b q (buckets w) \<or> (q \<in> set adds \<and> r = Inr ()) \<longrightarrow> json_lists E b q (buckets w'))
    \<and> (stable G (\<lambda>fl. \<not> json_lists E b q fl) \<longrightarrow> q \<in> set removes \<longrightarrow> r = Inr () \<longrightarrow> \<not> json_lists E b q (buckets w'))"
proof -
  have step: "(r = Inr () \<longrightarrow> (\<exists>g. guard' = Some g) \<and> W (json_state E b (buckets w'))) \<and> Z (json_state E b (buckets w'))
      \<and> (\<forall>g. guard' = Some g \<longrightarrow> cache_ok E b g (buckets w'))"
    if "observes G E b adds removes (fst ` set dead) Z W" "Z (json_state E b (buckets w))" for Z W
    using assms(5)
  proof (cases rule: locked_run)
    case (1 g)
    then show ?thesis
      using tripleD [OF triple_locked [OF that(1) assms(1,2)] assms(3) _ 1(1)] that(2) assms(4) by auto
  next
    case (2 e)
    then show ?thesis
      using tripleD [OF triple_locked [OF that(1) assms(1,2)] assms(3) _ 2(1)] that(2) assms(4) by auto
  qed
  have any: "observes G E b adds removes (fst ` set dead) (\<lambda>_. True) (\<lambda>_. True)"
    by (simp add: observes_def stable_const)
  have kept: "json_lists E b q (buckets w')" if "stable G (json_lists E b q)" "q \<notin> set removes" "q \<notin> fst ` set dead"
      "json_lists E b q (buckets w) \<or> (q \<in> set adds \<and> r = Inr ())"
    using that(4)
  proof
    assume "json_lists E b q (buckets w)"
    then show ?thesis
      using step [OF observes_keep [OF that(1-3)]] by simp
  next
    assume "q \<in> set adds \<and> r = Inr ()"
    then show ?thesis
      using step [OF observes_add [OF that(1) _ that(2,3)]] by simp
  qed
  moreover have "\<not> json_lists E b q (buckets w')" if "stable G (\<lambda>fl. \<not> json_lists E b q fl)" "q \<in> set removes" "r = Inr ()"
    using step [OF observes_remove [OF that(1,2)]] that(3) by simp
  ultimately show ?thesis
    using step [OF any] by simp
qed

section \<open>An undisturbed update heals the pair\<close>

lemma head_etag_quiet [quiet_simps]: "script w = [] \<Longrightarrow> head_etag b k w = (Inr (map_option snd (lookup_tagged (buckets w b) k)), w)"
  unfolding head_etag_def by (subst read_call_quiet) (simp_all add: lookup_tagged_def option.map_comp comp_def)

lemma list_all_quiet [quiet_simps]: "script w = [] \<Longrightarrow> list_all_objects b pre w = (Inr (map meta_of (prefix_range (buckets w b) pre)), w)"
  unfolding list_all_objects_def by (subst read_call_quiet) simp_all

text \<open>The names the package views of a bucket stand for, and the names its global index stands for.\<close>

definition view_names :: "inner \<Rightarrow> string set" where
  "view_names s = (\<Union>c\<in>set SHARD_CHARS. shard_names (map meta_of (prefix_range s (SIMPLE_PREFIX @ [c]))))"

definition names_now :: "index_env \<Rightarrow> inner \<Rightarrow> string set" where
  "names_now E s =
     (case object_at s global_json_key of
        Some ob \<Rightarrow> (case parse_global E (obj_bytes ob) of Some names \<Rightarrow> set names | None \<Rightarrow> view_names s)
      | None \<Rightarrow> if contains_key s global_html_key then view_names s else {})"

text \<open>The list and its HTML view agree on a set of names; an empty set needs neither.\<close>

definition pair_agrees :: "index_env \<Rightarrow> bucket_id \<Rightarrow> string set \<Rightarrow> fleet \<Rightarrow> bool" where
  "pair_agrees E b names fl =
     ((json_state E b fl = Some (Some names) \<or> names = {} \<and> json_state E b fl = None)
      \<and> (case object_at (fl b) global_html_key of
           Some ob \<Rightarrow> obj_bytes ob = pep503_global_html (ie_render E) (sorted_list_of_set names) | None \<Rightarrow> names = {}))"

text \<open>A stamp that names the standing HTML object tells the truth about it. The digest joins names by newlines, so it tells lists of plain names apart.\<close>

definition plain_names :: "string set \<Rightarrow> bool" where
  "plain_names names = (\<forall>p\<in>names. p \<noteq> [] \<and> CHR 0x0A \<notin> set p)"

definition stamp_honest :: "index_env \<Rightarrow> inner \<Rightarrow> bool" where
  "stamp_honest E s =
     (\<forall>st t packages v. plain_names (set packages) \<longrightarrow> object_at s global_html_stamp_key = Some st \<longrightarrow> dec_html_stamp E (obj_bytes st) = Some (t, global_names_digest (ie_sha E) packages)
        \<longrightarrow> lookup_tagged s global_html_key = Some (v, t) \<longrightarrow> v = pep503_global_html (ie_render E) packages)"

lemma derive_quiet: "script w = [] \<Longrightarrow> derive_global_names b w = (Inr (view_names (buckets w b)), w)"
proof -
  assume "script w = []"
  then have "derive_loop b cs w = (Inr (\<Union>c\<in>set cs. shard_names (map meta_of (prefix_range (buckets w b) (SIMPLE_PREFIX @ [c])))), w)" for cs
    by (induction cs) (simp_all add: ret_def andThen_def list_all_quiet)
  then show ?thesis
    by (simp add: derive_global_names_def view_names_def)
qed

lemma load_quiet:
  assumes "script w = []" and "ie_leases E b"
  shows "load_global_names E b w =
    (Inr \<lparr>gn_etag = map_option snd (lookup_tagged (buckets w b) global_json_key), gn_names = names_now E (buckets w b),
          gn_html_etag = map_option snd (lookup_tagged (buckets w b) global_html_key), html_current = False,
          stranded = (case json_state E b (buckets w) of None \<Rightarrow> contains_key (buckets w b) global_html_key | Some x \<Rightarrow> x = None)\<rparr>, w)"
  using assms
  by (cases "object_at (buckets w b) global_json_key")
    (auto simp: load_global_names_def andThen_def ret_def quiet_simps current_global_html_etag_def derive_quiet names_now_def json_state_def lookup_tagged_def
      split: option.splits)

lemma conditional_put_quiet:
  assumes "script w = []" and "expected = map_option snd (lookup_tagged (buckets w b) key)" and "\<And>t. expected = Some t \<Longrightarrow> versioned t"
  shows "conditional_put E b key expected bs w =
    (Inr (Some (version_etag (next_version (buckets w b)))), w\<lparr>buckets := (buckets w)(b := snd (store (ie_sha E) key bs (buckets w b)))\<rparr>)"
  using assms lookup_tagged_None_iff [of "buckets w b" key]
  by (cases expected) (auto simp: conditional_put_def quiet_simps)

lemma html_cas_quiet:
  assumes "script w = []" and "ie_leases E b" and "expected = map_option snd (lookup_tagged (buckets w b) global_html_key)"
    and "\<And>t. expected = Some t \<Longrightarrow> versioned t"
  shows "write_global_html_cas E b ps expected w = (Inr (WroteHtml (Some (version_etag (next_version (buckets w b))))),
    w\<lparr>buckets := (buckets w)(b := snd (store (ie_sha E) global_html_key (pep503_global_html (ie_render E) ps) (buckets w b)))\<rparr>)"
  using assms(2) by (simp add: write_global_html_cas_def andThen_def ret_def conditional_put_quiet [OF assms(1,3,4)] Let_def)

lemma proved_quiet:
  assumes "script w = []"
  shows "global_html_proved_current E b t ps w = (Inr (\<exists>tag st. t = Some tag \<and> object_at (buckets w b) global_html_stamp_key = Some st
     \<and> dec_html_stamp E (obj_bytes st) = Some (tag, global_names_digest (ie_sha E) ps)), w)"
  using assms
  by (cases t; cases "object_at (buckets w b) global_html_stamp_key")
    (auto simp: global_html_proved_current_def read_global_html_stamp_def andThen_def onResult_def ret_def quiet_simps)

definition stamp_laws :: "index_env \<Rightarrow> bool" where
  "stamp_laws E = ((\<forall>t d. dec_html_stamp E (enc_html_stamp E t d) = Some (t, d))
     \<and> (\<forall>ps ps'. plain_names (set ps) \<longrightarrow> plain_names (set ps') \<longrightarrow> global_names_digest (ie_sha E) ps = global_names_digest (ie_sha E) ps' \<longrightarrow> ps = ps'))"

text \<open>An HTML object and its stamp, written one after the other.\<close>

lemma stamped_honest:
  assumes "stamp_laws E" and "plain_names (set ps)" and "lookup_tagged s global_html_key = Some (pep503_global_html (ie_render E) ps, t)"
  shows "stamp_honest E (snd (store (ie_sha E) global_html_stamp_key (enc_html_stamp E t (global_names_digest (ie_sha E) ps)) s))"
  using assms by (auto simp: stamp_honest_def stamp_laws_def object_at_store lookup_tagged_def)
    (auto simp: global_html_key_def global_html_stamp_key_def SIMPLE_PREFIX_def STATE_PREFIX_def)

lemma names_now_finite [simp]: "finite (names_now E s)"
  by (auto simp: names_now_def view_names_def shard_names_def split: option.splits)

lemma global_keys_apart [simp]: "global_html_key \<noteq> global_json_key" "global_html_stamp_key \<noteq> global_json_key" "global_html_stamp_key \<noteq> global_html_key" "global_html_key \<noteq> global_html_stamp_key"
  by (simp_all add: global_json_key_def global_html_key_def global_html_stamp_key_def SIMPLE_PREFIX_def STATE_PREFIX_def)

lemma write_cas_quiet:
  assumes "script w = []" and "ie_leases E b" and "store_wf (buckets w b)" and "next_version (buckets w b) \<le> 2 ^ 64"
    and "json_roundtrip E" and "stamp_laws E" and "finite names" and "plain_names names"
  shows "\<exists>w' j h. write_global_indexes_cas E b (sorted_list_of_set names) (map_option snd (lookup_tagged (buckets w b) global_json_key))
        (map_option snd (lookup_tagged (buckets w b) global_html_key)) w = (Inr (WonCas j h), w')
     \<and> pair_agrees E b names (buckets w') \<and> stamp_honest E (buckets w' b)"
proof -
  let ?ps = "sorted_list_of_set names" and ?s = "buckets w b"
  let ?tag = "version_etag (next_version ?s)"
  define w1 where "w1 = w\<lparr>buckets := (buckets w)(b := snd (store (ie_sha E) global_html_key (pep503_global_html (ie_render E) ?ps) ?s))\<rparr>"
  define w2 where "w2 = w1\<lparr>buckets := (buckets w1)(b := snd (store (ie_sha E) global_json_key (pep691_global_json (ie_render E) ?ps) (buckets w1 b)))\<rparr>"
  define w3 where "w3 = w2\<lparr>buckets := (buckets w2)(b := snd (store (ie_sha E) global_html_stamp_key (enc_html_stamp E ?tag (global_names_digest (ie_sha E) ?ps)) (buckets w2 b)))\<rparr>"
  have ver: "versioned t" if "map_option snd (lookup_tagged ?s k) = Some t" for k t
    using versioned_lookup [OF assms(3,4)] that by auto
  have html: "write_global_html_cas E b ?ps (map_option snd (lookup_tagged ?s global_html_key)) w = (Inr (WroteHtml (Some ?tag)), w1)"
    unfolding w1_def by (rule html_cas_quiet [OF assms(1,2) refl ver])
  have "lookup_tagged (buckets w1 b) global_json_key = lookup_tagged ?s global_json_key" "script w1 = []"
    using assms(1) by (simp_all add: w1_def lookup_tagged_def object_at_store)
  then have json: "conditional_put E b global_json_key (map_option snd (lookup_tagged ?s global_json_key)) (pep691_global_json (ie_render E) ?ps) w1
      = (Inr (Some (version_etag (next_version (buckets w1 b)))), w2)"
    unfolding w2_def by (intro conditional_put_quiet) (use ver in simp_all)
  have stamp: "write_global_html_stamp E b (Some ?tag) ?ps w2 = (Inr (), w3)"
    using assms(1) by (simp add: write_global_html_stamp_def put_bytes_quiet w1_def w2_def w3_def)
  have "write_global_indexes_cas E b ?ps (map_option snd (lookup_tagged ?s global_json_key)) (map_option snd (lookup_tagged ?s global_html_key)) w
      = (Inr (WonCas (Some (version_etag (next_version (buckets w1 b)))) (Some ?tag)), w3)"
    using assms(2) by (simp add: write_global_indexes_cas_def andThen_def html json stamp ret_def)
  moreover have "pair_agrees E b names (buckets w3)"
    using assms(5,7) by (simp add: w1_def w2_def w3_def pair_agrees_def json_state_def object_at_store json_roundtrip_def)
  moreover have "stamp_honest E (buckets w3 b)"
    using stamped_honest [OF assms(6), of ?ps "buckets w2 b" ?tag] assms(7,8) by (simp add: w1_def w2_def w3_def lookup_tagged_def object_at_store)
  ultimately show ?thesis
    by blast
qed

lemma reconcile_quiet:
  assumes "script w = []" and "ie_leases E b" and "store_wf (buckets w b)" and "next_version (buckets w b) \<le> 2 ^ 64" and "stamp_laws E" and "finite names"
  shows "\<exists>r w'. reconcile_global_html E b (sorted_list_of_set names) (map_option snd (lookup_tagged (buckets w b) global_html_key)) w = (Inr r, w')
     \<and> script w' = [] \<and> json_state E b (buckets w') = json_state E b (buckets w)
     \<and> (case object_at (buckets w' b) global_html_key of
          Some ob \<Rightarrow> obj_bytes ob = pep503_global_html (ie_render E) (sorted_list_of_set names) | None \<Rightarrow> names = {})
     \<and> (r = CurrentHtml \<and> w' = w \<or> (\<exists>t. r = RewroteHtml (Some t) \<and> lookup_tagged (buckets w' b) global_html_key = Some (pep503_global_html (ie_render E) (sorted_list_of_set names), t)))"
proof -
  let ?ps = "sorted_list_of_set names" and ?s = "buckets w b" and ?tag = "version_etag (next_version (buckets w b))"
  let ?bs = "pep503_global_html (ie_render E) ?ps"
  define w1 where "w1 = w\<lparr>buckets := (buckets w)(b := snd (store (ie_sha E) global_html_key ?bs ?s))\<rparr>"
  have ver: "versioned t" if "map_option snd (lookup_tagged ?s k) = Some t" for k t
    using versioned_lookup [OF assms(3,4)] that by auto
  have html: "write_global_html_cas E b ?ps (map_option snd (lookup_tagged ?s global_html_key)) w = (Inr (WroteHtml (Some ?tag)), w1)"
    unfolding w1_def by (rule html_cas_quiet [OF assms(1,2) refl ver])
  have w1: "script w1 = []" "json_state E b (buckets w1) = json_state E b (buckets w)" "lookup_tagged (buckets w1 b) global_html_key = Some (?bs, ?tag)"
      "\<exists>ob. object_at (buckets w1 b) global_html_key = Some ob \<and> obj_bytes ob = ?bs"
    using assms(1) by (simp_all add: w1_def json_state_def lookup_tagged_def object_at_store)
  show ?thesis
  proof (cases "object_at ?s global_html_key")
    case None
    then have none: "map_option snd (lookup_tagged ?s global_html_key) = None"
      by (simp add: lookup_tagged_def)
    show ?thesis
    proof (cases "names = {}")
      case True
      then show ?thesis
        using None assms(1) by (simp add: reconcile_global_html_def onResult_def get_bytes_quiet ret_def Let_def)
    next
      case False
      then have "?ps \<noteq> []"
        using assms(6) by simp
      then have "reconcile_global_html E b ?ps (map_option snd (lookup_tagged ?s global_html_key)) w = (Inr (RewroteHtml (Some ?tag)), w1)"
        using None assms(1) html none by (simp add: reconcile_global_html_def onResult_def get_bytes_quiet ret_def Let_def andThen_def)
      then show ?thesis
        using w1 by fastforce
    qed
  next
    case (Some ob)
    show ?thesis
    proof (cases "obj_bytes ob = ?bs")
      case True
      then show ?thesis
        using Some assms(1) by (simp add: reconcile_global_html_def onResult_def get_bytes_quiet ret_def Let_def)
    next
      case False
      then have "reconcile_global_html E b ?ps (map_option snd (lookup_tagged ?s global_html_key)) w = (Inr (RewroteHtml (Some ?tag)), w1)"
        using Some assms(1) html by (simp add: reconcile_global_html_def onResult_def get_bytes_quiet ret_def Let_def andThen_def)
      then show ?thesis
        using w1 by fastforce
    qed
  qed
qed

text \<open>
  C19: An undisturbed update heals the pair. From whatever a crash, a lost race or a stray write left behind
  (a missing or unreadable list, an HTML page that is missing, ahead or behind, a stale stamp), one
  update with a delta succeeds on its first attempt; the list and the HTML page then both show the names the list
  showed before, or the package views where it was lost, plus the added and minus the removed names.
  A stamp that told the truth still does.
\<close>

theorem global_index_heals:
  assumes "json_roundtrip E" and "stamp_laws E" and "ie_leases E b" and "script w = []" and "store_wf (buckets w b)"
    and "next_version (buckets w b) \<le> 2 ^ 64" and "stamp_honest E (buckets w b)" and "adds \<noteq> [] \<or> removes \<noteq> []"
    and "plain_names (delta adds removes (names_now E (buckets w b)))"
  shows "\<exists>w'. update_global_index_uncached E b adds removes w = (Inr (), w')
    \<and> pair_agrees E b (delta adds removes (names_now E (buckets w b))) (buckets w') \<and> stamp_honest E (buckets w' b)"
proof -
  let ?s = "buckets w b"
  let ?N = "delta adds removes (names_now E ?s)"
  let ?ps = "sorted_list_of_set ?N"
  define torn where "torn = (case json_state E b (buckets w) of None \<Rightarrow> contains_key ?s global_html_key | Some x \<Rightarrow> x = None)"
  let ?j = "map_option snd (lookup_tagged ?s global_json_key)" and ?h = "map_option snd (lookup_tagged ?s global_html_key)"
  obtain changed where ch: "apply_delta adds removes (names_now E ?s) = (?N, changed)"
    by (simp add: apply_delta_eq)
  note load = load_quiet [OF assms(4,3), folded torn_def]
  have four: "update_global_index_uncached E b adds removes = uncached_loop E b adds removes (Suc 3)"
    using assms(8) by (auto simp: update_global_index_uncached_def numeral_eq_Suc)
  show ?thesis
  proof (cases "\<not> changed \<and> \<not> torn")
    case False
    obtain w' j h where w': "write_global_indexes_cas E b ?ps ?j ?h w = (Inr (WonCas j h), w')" "pair_agrees E b ?N (buckets w')" "stamp_honest E (buckets w' b)"
      using write_cas_quiet [OF assms(4,3,5,6,1,2), of ?N] assms(9) by auto
    have "update_global_index_uncached E b adds removes w = (Inr (), w')"
      unfolding four uncached_loop.simps andThen_def load using False w'(1) ch by (auto simp: ret_def Let_def)
    then show ?thesis
      using w'(2,3) by blast
  next
    case True
    then have N: "?N = names_now E ?s"
      using apply_delta_unchanged [of adds removes "names_now E ?s"] ch by simp
    have json: "json_state E b (buckets w) = Some (Some ?N) \<or> ?N = {} \<and> json_state E b (buckets w) = None"
      using True unfolding N by (auto simp: torn_def names_now_def json_state_def split: option.splits)
    define proved where "proved = (\<exists>tag st. ?h = Some tag \<and> object_at ?s global_html_stamp_key = Some st
       \<and> dec_html_stamp E (obj_bytes st) = Some (tag, global_names_digest (ie_sha E) ?ps))"
    have check: "global_html_proved_current E b ?h ?ps w = (Inr proved, w)"
      unfolding proved_def by (rule proved_quiet [OF assms(4)])
    show ?thesis
    proof (cases proved)
      case proven: True
      have "update_global_index_uncached E b adds removes w = (Inr (), w)"
        unfolding four uncached_loop.simps andThen_def load using True ch check proven by (simp add: ret_def Let_def)
      moreover obtain v tag where "lookup_tagged ?s global_html_key = Some (v, tag)" "v = pep503_global_html (ie_render E) ?ps"
        using proven assms(7,9) unfolding proved_def stamp_honest_def by (fastforce simp: N)
      ultimately show ?thesis
        using json assms(7) by (auto simp: pair_agrees_def lookup_tagged_def)
    next
      case False
      obtain r w1 where w1: "reconcile_global_html E b ?ps ?h w = (Inr r, w1)" "script w1 = []" "json_state E b (buckets w1) = json_state E b (buckets w)"
          "case object_at (buckets w1 b) global_html_key of Some ob \<Rightarrow> obj_bytes ob = pep503_global_html (ie_render E) ?ps | None \<Rightarrow> ?N = {}"
        and r: "r = CurrentHtml \<and> w1 = w \<or> (\<exists>t. r = RewroteHtml (Some t) \<and> lookup_tagged (buckets w1 b) global_html_key = Some (pep503_global_html (ie_render E) ?ps, t))"
        using reconcile_quiet [OF assms(4,3,5,6,2), of ?N] by (auto simp: N)
      have agrees: "pair_agrees E b ?N (buckets w1)"
        using json w1(3,4) by (auto simp: pair_agrees_def)
      from r show ?thesis
      proof
        assume r: "r = CurrentHtml \<and> w1 = w"
        then have "update_global_index_uncached E b adds removes w = (Inr (), w1)"
          unfolding four uncached_loop.simps andThen_def load using True ch check False w1(1) by (simp add: ret_def Let_def)
        then show ?thesis
          using agrees r assms(7) by blast
      next
        assume "\<exists>t. r = RewroteHtml (Some t) \<and> lookup_tagged (buckets w1 b) global_html_key = Some (pep503_global_html (ie_render E) ?ps, t)"
        then obtain t where t: "r = RewroteHtml (Some t)" "lookup_tagged (buckets w1 b) global_html_key = Some (pep503_global_html (ie_render E) ?ps, t)"
          by blast
        define w2 where "w2 = w1\<lparr>buckets := (buckets w1)(b := snd (store (ie_sha E) global_html_stamp_key (enc_html_stamp E t (global_names_digest (ie_sha E) ?ps)) (buckets w1 b)))\<rparr>"
        have "write_global_html_stamp E b (Some t) ?ps w1 = (Inr (), w2)"
          using w1(2) by (simp add: write_global_html_stamp_def put_bytes_quiet w2_def)
        then have "update_global_index_uncached E b adds removes w = (Inr (), w2)"
          unfolding four uncached_loop.simps andThen_def load using True ch check False w1(1) t(1) by (simp add: ret_def Let_def)
        moreover have "pair_agrees E b ?N (buckets w2)"
          using agrees by (simp add: w2_def pair_agrees_def json_state_def object_at_store)
        moreover have "stamp_honest E (buckets w2 b)"
          using stamped_honest [OF assms(2) _ t(2)] assms(9) by (simp add: w2_def)
        ultimately show ?thesis
          by blast
      qed
    qed
  qed
qed

section \<open>Witnesses\<close>

text \<open>Names written in unary between their quotes, read back by counting.\<close>

definition unary_name :: "string \<Rightarrow> string" where
  "unary_name p = CHR 0x22 # replicate (to_nat p) (CHR ''1'') @ [CHR 0x22]"

definition read_unary :: "string \<Rightarrow> string" where
  "read_unary piece = from_nat (length (takeWhile (\<lambda>c. c = CHR ''1'') (drop 8 piece)))"

definition unary_env :: index_env where
  "unary_env =
     \<lparr>ie_sha = (\<lambda>bs. bs), ie_render = html_escapes\<lparr>json_string := (\<lambda>p. Some (unary_name p))\<rparr>,
      parse_global = (\<lambda>bs. Some (map read_unary (drop 3 (split_on (CHR 0x7B) bs)))),
      enc_html_stamp = (\<lambda>t d. replicate (to_nat (t, d)) (CHR ''1'')), dec_html_stamp = (\<lambda>bs. Some (from_nat (length bs))), ie_leases = (\<lambda>_. True)\<rparr>"

lemma split_on_cons: "d \<notin> set a \<Longrightarrow> split_on d (a @ d # b) = a # split_on d b"
  by (induction a) auto

lemma unary_items:
  assumes "global_items (ie_render unary_env) first ps = Some items" and "CHR 0x7B \<notin> set pre" and "CHR 0x7B \<notin> set post"
  shows "\<exists>x xs. split_on (CHR 0x7B) (pre @ items @ post) = (pre @ x) # xs \<and> map read_unary xs = ps"
  using assms
proof (induction ps arbitrary: first items pre)
  case Nil
  then show ?case
    by (auto simp: split_on_no_sep)
next
  case (Cons p ps)
  let ?one = "''\"name\":'' @ unary_name p @ '',\"url\":\"/simple/'' @ butlast (tl (unary_name p)) @ ''/\"}''"
  obtain rest where rest: "global_items (ie_render unary_env) False ps = Some rest"
    and items: "items = (if first then [] else '','') @ CHR 0x7B # ?one @ rest"
    using Cons.prems(1) by (auto simp: unary_env_def split: option.splits)
  have "CHR 0x7B \<notin> set ?one"
    by (auto simp: unary_name_def butlast_append dest: in_set_butlastD)
  then obtain x xs where xs: "split_on (CHR 0x7B) (?one @ rest @ post) = (?one @ x) # xs" "map read_unary xs = ps"
    using Cons.IH [OF rest _ Cons.prems(3)] by blast
  have "split_on (CHR 0x7B) (pre @ items @ post) = (pre @ (if first then [] else '','')) # split_on (CHR 0x7B) (?one @ rest @ post)"
    using split_on_cons [of "CHR 0x7B" "pre @ (if first then [] else '','')" "?one @ rest @ post"] Cons.prems(2) by (auto simp: items)
  moreover have "takeWhile (\<lambda>c. c = CHR ''1'') (replicate n (CHR ''1'') @ CHR 0x22 # y) = replicate n (CHR ''1'')" for n y
    by (induction n) simp_all
  then have "read_unary (?one @ x) = p"
    by (simp add: read_unary_def unary_name_def)
  ultimately show ?case
    using xs by auto
qed

lemma unary_roundtrip: "json_roundtrip unary_env"
  unfolding json_roundtrip_def
proof
  fix ps
  have "\<exists>items. global_items (ie_render unary_env) first ps = Some items" for first
    by (induction ps arbitrary: first) (auto simp: unary_env_def split: option.splits)
  then obtain items where items: "global_items (ie_render unary_env) True ps = Some items"
    by blast
  let ?pre = "''\"api-version\":\"1.4\"},\"projects\":[''"
  obtain x xs where xs: "split_on (CHR 0x7B) (?pre @ items @ '']}'') = (?pre @ x) # xs" "map read_unary xs = ps"
    using unary_items [OF items, of ?pre "'']}''"] by auto
  have "pep691_global_json (ie_render unary_env) ps = CHR 0x7B # ''\"meta\":'' @ CHR 0x7B # ?pre @ items @ '']}''"
    by (simp add: pep691_global_json_def items API_VERSION_def)
  then have "split_on (CHR 0x7B) (pep691_global_json (ie_render unary_env) ps) = [] # ''\"meta\":'' # (?pre @ x) # xs"
    using split_on_cons [of "CHR 0x7B" "[]"] split_on_cons [of "CHR 0x7B" "''\"meta\":''" "?pre @ items @ '']}''"] xs(1) by simp
  then show "parse_global unary_env (pep691_global_json (ie_render unary_env) ps) = Some ps"
    using xs(2) by (simp add: unary_env_def)
qed

lemma join_lines_cons: "ps \<noteq> [] \<Longrightarrow> join_lines (p # ps) = p @ CHR 0x0A # join_lines ps"
  by (cases ps) simp_all

lemma join_lines_inject:
  assumes "plain_names (set ps)" and "plain_names (set qs)" and "join_lines ps = join_lines qs"
  shows "ps = qs"
  using assms
proof (induction ps arbitrary: qs)
  case Nil
  then show ?case
    by (cases qs rule: join_lines.cases) (auto simp: plain_names_def)
next
  case (Cons p ps)
  have p: "p \<noteq> []" "CHR 0x0A \<notin> set p" "plain_names (set ps)"
    using Cons.prems(1) by (simp_all add: plain_names_def)
  obtain q qs' where qs: "qs = q # qs'"
    using Cons.prems(3) p(1) by (cases qs; cases ps) auto
  have q: "CHR 0x0A \<notin> set q" "plain_names (set qs')"
    using Cons.prems(2) by (simp_all add: qs plain_names_def)
  have split: "split_once (join_lines (r # rs)) (CHR 0x0A) = (if rs = [] then None else Some (r, join_lines rs))" if "CHR 0x0A \<notin> set r" for r rs
    using that split_once_append [of "CHR 0x0A" r "join_lines rs"] by (cases "rs = []") (simp_all add: split_once_None_iff join_lines_cons)
  have "(if ps = [] then None else Some (p, join_lines ps)) = (if qs' = [] then None else Some (q, join_lines qs'))"
    using Cons.prems(3) split [OF p(2), of ps] split [OF q(1), of qs'] by (simp add: qs)
  then show ?case
    using Cons.IH [OF p(3) q(2)] Cons.prems(3) by (auto simp: qs split: if_splits)
qed

lemma unary_stamp_laws: "stamp_laws unary_env"
  unfolding stamp_laws_def using join_lines_inject by (auto simp: unary_env_def global_names_digest_def sha256_hex_def hex_inject)

text \<open>A peer that adds a name to the list while the update runs.\<close>

definition rival_add :: "fleet \<Rightarrow> fleet" where
  "rival_add fl = fl(0 := snd (store (\<lambda>bs. bs) global_json_key
     (pep691_global_json (ie_render unary_env) (sorted_list_of_set (insert ''six'' (names_now unary_env (fl 0))))) (fl 0)))"

definition listed_world :: world where
  "listed_world = quiet (rival_add (\<lambda>_. inner_default 0))"

lemma rival_add_lists: "json_state unary_env 0 (rival_add fl) = Some (Some (insert ''six'' (names_now unary_env (fl 0))))"
  unfolding rival_add_def using json_state_store [OF unary_roundtrip, of "insert ''six'' (names_now unary_env (fl 0))" 0 fl "\<lambda>bs. bs"] by simp

theorem global_index_loses_no_name_witness:
  "let w = listed_world\<lparr>script := [Answered rival_add, Unanswered Timeout rival_add, Refused (HttpStatus 503) rival_add, Halt]\<rparr>;
       (r, w') = update_global_index_inner unary_env 0 [''flask''] [''gone''] [] None w
   in json_lists unary_env 0 ''six'' (buckets w) \<and> json_lists unary_env 0 ''six'' (buckets w')"
proof -
  let ?w = "listed_world\<lparr>script := [Answered rival_add, Unanswered Timeout rival_add, Refused (HttpStatus 503) rival_add, Halt]\<rparr>"
  let ?G = "\<lambda>fl fl'. json_lists unary_env 0 ''six'' fl \<longrightarrow> json_lists unary_env 0 ''six'' fl'"
  have wf: "fleet_wf (rival_add fl)" "fleet_evolves fl (rival_add fl)" if "fleet_wf fl" for fl
    using that by (auto simp: rival_add_def fleet_wf_def fleet_evolves_def store_wf_store store_evolves)
  have "fleet_wf (\<lambda>_. inner_default 0)"
    by (simp add: fleet_wf_def store_wf_default)
  then have obeys: "obeys ?G ?w"
    using wf by (auto simp: obeys_def listed_world_def quiet_def rival_add_lists)
  have start: "json_lists unary_env 0 ''six'' (buckets ?w)"
    by (simp add: listed_world_def quiet_def rival_add_lists)
  obtain g r w' where run: "update_global_index_inner unary_env 0 [''flask''] [''gone''] [] None ?w = (Inr (g, r), w')"
    using locked_run by (metis surj_pair)
  have "ie_leases unary_env 0" "stable ?G (json_lists unary_env 0 ''six'')"
    by (simp_all add: unary_env_def stable_def)
  then have "json_lists unary_env 0 ''six'' (buckets w')"
    using global_index_loses_no_name [OF unary_roundtrip _ obeys _ run, of "''six''"] start by simp
  then show ?thesis
    using start run by simp
qed

text \<open>A crash left the HTML page without its list: the update derives the names from the package views.\<close>

definition torn_bucket :: inner where
  "torn_bucket = snd (store (\<lambda>bs. bs) global_html_key ''stale'' (snd (store (\<lambda>bs. bs) ''simple/six/index.json'' ''x'' (inner_default 0))))"

theorem global_index_heals_witness:
  "\<exists>w'. update_global_index_uncached unary_env 0 [''flask''] [] (quiet (\<lambda>_. torn_bucket)) = (Inr (), w')
     \<and> pair_agrees unary_env 0 {''flask'', ''six''} (buckets w')"
proof -
  have at: "object_at torn_bucket k = (if k = global_html_key then Some \<lparr>obj_bytes = ''stale'', obj_etag = version_etag 1, last_modified = 0\<rparr>
      else if k = ''simple/six/index.json'' then Some \<lparr>obj_bytes = ''x'', obj_etag = version_etag 0, last_modified = 0\<rparr> else None)" for k
    by (simp add: torn_bucket_def object_at_store next_version_store) (simp add: inner_default_def store_def Let_def bt.get_empty)
  have "view_names torn_bucket = {''six''}"
    by code_simp
  then have names: "names_now unary_env torn_bucket = {''six''}"
    using at by (simp add: names_now_def contains_key_def) (simp add: global_json_key_def SIMPLE_PREFIX_def)
  have "stamp_honest unary_env torn_bucket"
    using at by (simp add: stamp_honest_def) (simp add: global_html_stamp_key_def STATE_PREFIX_def)
  moreover have "store_wf torn_bucket"
    by (simp add: torn_bucket_def store_wf_store store_wf_default)
  moreover have "next_version torn_bucket \<le> 2 ^ 64"
    by (simp add: torn_bucket_def next_version_store inner_default_def)
  moreover have "delta [''flask''] [] {''six''} = {''flask'', ''six''}"
    by (auto simp: delta_def)
  ultimately show ?thesis
    using global_index_heals [OF unary_roundtrip unary_stamp_laws, of 0 "quiet (\<lambda>_. torn_bucket)" "[''flask'']" "[]"] names
    by (auto simp: quiet_def unary_env_def plain_names_def)
qed

end
