(* ===== verification/Sidecar_Cache.thy ===== *)
theory Sidecar_Cache
  imports Sidecar "HOL-Library.AList"
begin

text \<open>
  The memo of parsed sidecars that a rebuild reuses (\<open>src/sidecar_cache.rs\<close>). A \<open>HashMap\<close> is an
  association list, of which only the lookup and the number of keys are observed; the address of a
  storage handle is the number of its bucket.
\<close>

section \<open>Definitions\<close>

record package_sidecars =
  ps_sidecars :: "(string \<times> string \<times> sidecar) list"
  ps_metadata :: "(string \<times> string \<times> string) list"

definition no_sidecars :: package_sidecars where
  "no_sidecars = \<lparr>ps_sidecars = [], ps_metadata = []\<rparr>"

definition memo_len :: "package_sidecars \<Rightarrow> nat" where
  "memo_len m = length (ps_sidecars m) + length (ps_metadata m)"

definition memo_is_empty :: "package_sidecars \<Rightarrow> bool" where
  "memo_is_empty m = (memo_len m = 0)"

definition MAX_FILES :: nat where "MAX_FILES = 100000"

record sidecar_cache =
  sc_packages :: "((nat \<times> string) \<times> package_sidecars) list"
  sc_files :: nat

definition empty_cache :: sidecar_cache where
  "empty_cache = \<lparr>sc_packages = [], sc_files = 0\<rparr>"

definition take_memo :: "nat \<Rightarrow> string \<Rightarrow> sidecar_cache \<Rightarrow> package_sidecars \<times> sidecar_cache" where
  "take_memo b pkg c =
     (case map_of (sc_packages c) (b, pkg) of
        Some m \<Rightarrow> (m, c\<lparr>sc_packages := AList.delete (b, pkg) (sc_packages c), sc_files := sc_files c - memo_len m\<rparr>)
      | None \<Rightarrow> (no_sidecars, c))"

definition put_memo :: "nat \<Rightarrow> string \<Rightarrow> package_sidecars \<Rightarrow> sidecar_cache \<Rightarrow> sidecar_cache" where
  "put_memo b pkg m c =
     (if memo_is_empty m \<or> memo_len m > MAX_FILES then c
      else
        (let c1 = (case map_of (sc_packages c) (b, pkg) of
                     Some old \<Rightarrow> c\<lparr>sc_packages := AList.delete (b, pkg) (sc_packages c), sc_files := sc_files c - memo_len old\<rparr>
                   | None \<Rightarrow> c);
             c2 = (if sc_files c1 + memo_len m > MAX_FILES then empty_cache else c1)
         in c2\<lparr>sc_files := sc_files c2 + memo_len m, sc_packages := AList.update (b, pkg) m (sc_packages c2)\<rparr>))"

text \<open>The budget is compared as an integer when the operation is evaluated.\<close>

lemma put_memo_code [code]:
  "put_memo b pkg m c =
     (if memo_is_empty m \<or> int (memo_len m) > 100000 then c
      else
        (let c1 = (case map_of (sc_packages c) (b, pkg) of
                     Some old \<Rightarrow> c\<lparr>sc_packages := AList.delete (b, pkg) (sc_packages c), sc_files := sc_files c - memo_len old\<rparr>
                   | None \<Rightarrow> c);
             c2 = (if int (sc_files c1 + memo_len m) > 100000 then empty_cache else c1)
         in c2\<lparr>sc_files := sc_files c2 + memo_len m, sc_packages := AList.update (b, pkg) m (sc_packages c2)\<rparr>))"
  by (simp add: put_memo_def MAX_FILES_def Let_def)

text \<open>The two inserts a rebuild makes into the memo it is filling.\<close>

definition remember_sidecar :: "string \<Rightarrow> string \<Rightarrow> sidecar \<Rightarrow> package_sidecars \<Rightarrow> package_sidecars" where
  "remember_sidecar filename etag sc m = m\<lparr>ps_sidecars := AList.update filename (etag, sc) (ps_sidecars m)\<rparr>"

definition remember_metadata :: "string \<Rightarrow> string \<Rightarrow> string \<Rightarrow> package_sidecars \<Rightarrow> package_sidecars" where
  "remember_metadata filename etag h m = m\<lparr>ps_metadata := AList.update filename (etag, h) (ps_metadata m)\<rparr>"

section \<open>The bound on the memo\<close>

abbreviation lens :: "((nat \<times> string) \<times> package_sidecars) list \<Rightarrow> nat" where
  "lens ps \<equiv> sum_list (map (memo_len \<circ> snd) ps)"

text \<open>The counter is the number of memoized files, so the subtractions of the code never go below zero.\<close>

definition cache_wf :: "sidecar_cache \<Rightarrow> bool" where
  "cache_wf c = (distinct (map fst (sc_packages c)) \<and> sc_files c = lens (sc_packages c) \<and> sc_files c \<le> MAX_FILES)"

lemma delete_missing: "k \<notin> fst ` set ps \<Longrightarrow> AList.delete k ps = ps"
  by (force simp: AList.delete_eq filter_id_conv)

lemma lens_delete: "distinct (map fst ps) \<Longrightarrow> map_of ps k = Some m \<Longrightarrow> lens ps = memo_len m + lens (AList.delete k ps)"
  by (induction ps) (auto simp: delete_missing split: if_splits)

lemma lens_update: "map_of ps k = None \<Longrightarrow> lens (AList.update k m ps) = lens ps + memo_len m"
  by (induction ps) (auto split: if_splits)

lemma map_of_deleted: "map_of (AList.delete k ps) k = None"
  by (simp add: delete_conv')

lemma take_memo_wf:
  assumes "cache_wf c" and "take_memo b pkg c = (m, c')"
  shows "cache_wf c' \<and> map_of (sc_packages c') (b, pkg) = None \<and> memo_len m + sc_files c' = sc_files c"
  using assms lens_delete [of "sc_packages c" "(b, pkg)"] map_of_deleted [of "(b, pkg)" "sc_packages c"]
  by (auto simp: take_memo_def cache_wf_def no_sidecars_def memo_len_def distinct_delete split: option.splits)

lemma put_memo_wf:
  assumes "cache_wf c"
  shows "cache_wf (put_memo b pkg m c)"
proof -
  define c1 where "c1 = (case map_of (sc_packages c) (b, pkg) of
      Some old \<Rightarrow> c\<lparr>sc_packages := AList.delete (b, pkg) (sc_packages c), sc_files := sc_files c - memo_len old\<rparr> | None \<Rightarrow> c)"
  define c2 where "c2 = (if sc_files c1 + memo_len m > MAX_FILES then empty_cache else c1)"
  have "cache_wf c1 \<and> map_of (sc_packages c1) (b, pkg) = None"
    using assms lens_delete [of "sc_packages c" "(b, pkg)"] map_of_deleted [of "(b, pkg)" "sc_packages c"]
    by (auto simp: c1_def cache_wf_def distinct_delete split: option.splits)
  then have c2: "cache_wf c2" "map_of (sc_packages c2) (b, pkg) = None" "memo_len m \<le> MAX_FILES \<Longrightarrow> sc_files c2 + memo_len m \<le> MAX_FILES"
    by (auto simp: c2_def cache_wf_def empty_cache_def)
  have "put_memo b pkg m c = (if memo_is_empty m \<or> memo_len m > MAX_FILES then c
      else c2\<lparr>sc_files := sc_files c2 + memo_len m, sc_packages := AList.update (b, pkg) m (sc_packages c2)\<rparr>)"
    by (simp add: put_memo_def c2_def c1_def Let_def)
  then show ?thesis
    using assms c2 lens_update [OF c2(2)] by (auto simp: cache_wf_def distinct_update)
qed

text \<open>What a lookup finds after each operation.\<close>

lemma take_memo_packages:
  "take_memo b pkg c = (m, c') \<Longrightarrow> map_of (sc_packages c') k = (if k = (b, pkg) then None else map_of (sc_packages c) k)"
  by (auto simp: take_memo_def delete_conv' split: option.splits)

lemma put_memo_packages:
  "map_of (sc_packages (put_memo b pkg m c)) k = Some m' \<Longrightarrow> (k = (b, pkg) \<and> m' = m) \<or> map_of (sc_packages c) k = Some m'"
  by (auto simp: put_memo_def Let_def update_conv' delete_conv' empty_cache_def split: option.splits if_splits)

lemma empty_cache_wf: "cache_wf empty_cache"
  by (simp add: cache_wf_def empty_cache_def)

end
