(* ===== verification/Rebuild.thy ===== *)
theory Rebuild
  imports Global_Index Sidecar_Cache
begin

text \<open>
  The index rebuild of the worker (\<open>src/worker.rs\<close>): which dirty markers may be consumed, the listing of
  a package with its sidecars (memoized, backfilled where missing), the pages of the package, the rebuild
  under its maintenance intent, the node's inventory, and the drain of a destination bucket.
  The listing reads a chunk of files at once; here they are read one after the other, all of a chunk
  before its first error counts. Which advisories block a version, the JSON of a project document and
  the time stamp of a listing are parameters; served-page caches, the used-by views and metrics are left
  out, and so is the guard that pairs the maintenance intent when the task is cancelled.
\<close>

section \<open>Definitions\<close>

record ('v, 's) rebuild_env =
  rb_index :: index_env
  rb_claims :: claim_codec
  rb_sidecars :: sidecar_codec
  rb_statuses :: status_codec
  rb_pep440 :: "('v, 's) pep440"
  rb_denylist :: "'s denylist option"
  rb_malicious :: "(string \<Rightarrow> string option \<Rightarrow> bool) option"
  rb_doc :: "pep691_pkg_index \<Rightarrow> string option"
  rb_listed_time :: "nat \<Rightarrow> string"
  rb_multi :: bool
  rb_now :: int
  rb_grace :: int

abbreviation rb_sha :: "('v, 's) rebuild_env \<Rightarrow> bytes \<Rightarrow> bytes" where
  "rb_sha E \<equiv> ie_sha (rb_index E)"

abbreviation rb_version :: "('v, 's) rebuild_env \<Rightarrow> string \<Rightarrow> string option" where
  "rb_version E \<equiv> infer_version_from_filename (version_from_str (rb_pep440 E))"

subsection \<open>Consumable markers\<close>

record dirty_work =
  dw_package :: string
  dw_keys :: "string list"
  stale_intents :: nat

fun intent_scan :: "string set \<Rightarrow> int \<Rightarrow> int \<Rightarrow> marker list \<Rightarrow> nat \<Rightarrow> nat option" where
  "intent_scan commit_nonces now_s grace [] stale = Some stale"
| "intent_scan commit_nonces now_s grace (m # ms) stale =
     (if is_commit m then intent_scan commit_nonces now_s grace ms stale
      else if (case mk_nonce m of Some nonce \<Rightarrow> nonce \<in> commit_nonces | None \<Rightarrow> False) then intent_scan commit_nonces now_s grace ms stale
      else if (case written_at m of Some written \<Rightarrow> now_s - int written \<ge> grace | None \<Rightarrow> False)
      then intent_scan commit_nonces now_s grace ms (stale + 1)
      else None)"

definition package_work :: "int \<Rightarrow> int \<Rightarrow> (string \<times> marker) list \<Rightarrow> string \<Rightarrow> dirty_work option" where
  "package_work now_s grace parsed pkg =
     (let markers = map snd (filter (\<lambda>(p, _). p = pkg) parsed);
          commit_nonces = set (List.map_filter mk_nonce (filter is_commit markers))
      in map_option (\<lambda>stale. \<lparr>dw_package = pkg, dw_keys = map mk_key markers, stale_intents = stale\<rparr>)
           (intent_scan commit_nonces now_s grace markers 0))"

definition consumable_dirty_work :: "file_entry list \<Rightarrow> int \<Rightarrow> int \<Rightarrow> dirty_work list" where
  "consumable_dirty_work entries now_s grace =
     (let parsed = List.map_filter parse_marker entries
      in List.map_filter (package_work now_s grace parsed) (sort (remdups (map fst parsed))))"

subsection \<open>One artifact\<close>

definition read_listed_sidecar :: "sidecar_codec \<Rightarrow> bucket_id \<Rightarrow> string \<Rightarrow> sidecar option act" where
  "read_listed_sidecar S b akey =
     onResult (get_bytes b (sidecar_key akey))
       (\<lambda>e. if is_not_found e then ret None else fail e)
       (\<lambda>bs. ret (dec_sidecar S bs))"

definition read_metadata_sha256 :: "(bytes \<Rightarrow> bytes) \<Rightarrow> bucket_id \<Rightarrow> string \<Rightarrow> string option act" where
  "read_metadata_sha256 sha b akey =
     onResult (get_bytes b (metadata_key akey))
       (\<lambda>e. if is_not_found e then ret None else fail e)
       (\<lambda>bs. ret (Some (sha256_hex sha bs)))"

definition fabricated_sidecar :: "('v, 's) rebuild_env \<Rightarrow> file_entry \<Rightarrow> string \<Rightarrow> string option \<Rightarrow> string \<Rightarrow> sidecar" where
  "fabricated_sidecar E entry filename pkg_org h =
     \<lparr>sha256 = h, size = of_nat (fe_size entry), version = or_default (rb_version E filename),
      upload_time = or_default (map_option (rb_listed_time E) (fe_last_modified entry)), upload_epoch_ms = None,
      requires_python = None, yanked = Flag False, origin = pkg_org, yank_epoch = 0, upload_time_revision = 0,
      snapshot = False, store_checksum = None\<rparr>"

definition backfill_sidecar :: "('v, 's) rebuild_env \<Rightarrow> bucket_id \<Rightarrow> file_entry \<Rightarrow> string \<Rightarrow> string option \<Rightarrow> sidecar option act" where
  "backfill_sidecar E b entry filename pkg_org =
     (let key = fe_key entry in
      onResult (stream_sha256 (rb_sha E) b key)
        (\<lambda>e. if is_not_found e then ret None else fail e)
        (\<lambda>(h, read).
          if read \<noteq> fe_size entry then fail (Bail ''read bytes but the listing said otherwise; retrying the rebuild'')
          else
            (let sc = fabricated_sidecar E entry filename pkg_org h; fabricated = enc_sidecar (rb_sidecars E) sc in
             andThen (put_if_absent (rb_sha E) b (sidecar_key key) fabricated) (\<lambda>created.
               if \<not> created then read_listed_sidecar (rb_sidecars E) b key
               else
                 andThen (onResult (stream_sha256 (rb_sha E) b key)
                            (\<lambda>e. if is_not_found e then ret False else fail e) (\<lambda>(later, _). ret (later = sha256 sc))) (\<lambda>confirmed.
                   if confirmed then ret (Some sc)
                   else
                     andThen (onResult (get_bytes b (sidecar_key key))
                                (\<lambda>e. if is_not_found e then ret False else fail e) (\<lambda>current. ret (current = fabricated))) (\<lambda>retract.
                     andThen (if retract then delete_keys (rb_sha E) b [sidecar_key key] else ret ()) (\<lambda>_. ret None)))))))"

text \<open>What a chunk of the listing shares: the names of the directory, the claim, the memo, the detectors.\<close>

record listing_ctx =
  lc_names :: "string set"
  lc_claim :: "record_origin option"
  lc_backfill :: bool
  lc_memo :: package_sidecars
  lc_sidecar_etags :: "string \<Rightarrow> string option"
  lc_metadata_etags :: "string \<Rightarrow> string option"

definition known_under :: "string option \<Rightarrow> (string \<times> string \<times> 'a) list \<Rightarrow> string \<Rightarrow> 'a option" where
  "known_under etag memo filename =
     (case (etag, map_of memo filename) of
        (Some t, Some (seen_tag, x)) \<Rightarrow> (if seen_tag = t then Some x else None)
      | _ \<Rightarrow> None)"

definition record_in :: "listing_ctx \<Rightarrow> string \<Rightarrow> sidecar option \<Rightarrow> file_record" where
  "record_in L filename sc = from_listing (\<lambda>suffix. filename @ suffix \<in> lc_names L) sc (lc_claim L)"

text \<open>The record as the listing and its sidecar show it; nothing when the sidecar is gone or unreadable.\<close>

definition listed_record ::
  "('v, 's) rebuild_env \<Rightarrow> bucket_id \<Rightarrow> listing_ctx \<Rightarrow> file_entry \<Rightarrow> string \<Rightarrow> package_sidecars \<Rightarrow> (file_record option \<times> package_sidecars) act" where
  "listed_record E b L entry filename fresh =
     (let rec0 = record_in L filename None; etag = lc_sidecar_etags L filename in
      if filename @ SIDECAR_SUFFIX \<in> lc_names L \<and> \<not> fenced_by_markers (tombstoned rec0) (frozen rec0) then
        andThen (case known_under etag (ps_sidecars (lc_memo L)) filename of
                   Some sc \<Rightarrow> ret (Some sc)
                 | None \<Rightarrow> read_listed_sidecar (rb_sidecars E) b (fe_key entry)) (\<lambda>r.
          case r of
            None \<Rightarrow> ret (None, fresh)
          | Some sc \<Rightarrow>
              ret (Some (record_in L filename (Some sc)), case etag of Some t \<Rightarrow> remember_sidecar filename t sc fresh | None \<Rightarrow> fresh))
      else ret (Some rec0, fresh))"

definition typed_record ::
  "('v, 's) rebuild_env \<Rightarrow> bucket_id \<Rightarrow> listing_ctx \<Rightarrow> file_entry \<Rightarrow> string \<Rightarrow> file_record \<Rightarrow> file_record option act" where
  "typed_record E b L entry filename r =
     (if lc_backfill L \<and> classify_record r = Bare then
        andThen (backfill_sidecar E b entry filename (map_option origin_as_str (lc_claim L))) (\<lambda>sc.
          ret (map_option (\<lambda>x. record_in L filename (Some x)) sc))
      else ret (Some r))"

definition rendered_record ::
  "('v, 's) rebuild_env \<Rightarrow> bucket_id \<Rightarrow> listing_ctx \<Rightarrow> file_entry \<Rightarrow> string \<Rightarrow> file_record \<Rightarrow> package_sidecars
    \<Rightarrow> (file_metadata option \<times> package_sidecars) act" where
  "rendered_record E b L entry filename r fresh =
     (if \<not> listed r (lc_claim L) then ret (None, fresh)
      else
        (case rc_sidecar r of
           None \<Rightarrow> ret (None, fresh)
         | Some sc \<Rightarrow>
             andThen (if filename @ METADATA_SUFFIX \<in> lc_names L
                      then (case known_under (lc_metadata_etags L filename) (ps_metadata (lc_memo L)) filename of
                              Some h \<Rightarrow> ret (Some h)
                            | None \<Rightarrow> read_metadata_sha256 (rb_sha E) b (fe_key entry))
                      else ret None) (\<lambda>h.
               ret (Some (from_sidecar filename sc h (filename @ PROVENANCE_SUFFIX \<in> lc_names L)),
                    case (lc_metadata_etags L filename, h) of (Some t, Some x) \<Rightarrow> remember_metadata filename t x fresh | _ \<Rightarrow> fresh))))"

definition load_file_metadata ::
  "('v, 's) rebuild_env \<Rightarrow> bucket_id \<Rightarrow> listing_ctx \<Rightarrow> file_entry \<times> string \<Rightarrow> package_sidecars \<Rightarrow> (file_metadata option \<times> package_sidecars) act" where
  "load_file_metadata E b L file fresh =
     (let (entry, filename) = file in
      andThen (listed_record E b L entry filename fresh) (\<lambda>(r1, fresh1).
        case r1 of
          None \<Rightarrow> ret (None, fresh1)
        | Some rec1 \<Rightarrow>
            andThen (typed_record E b L entry filename rec1) (\<lambda>r2.
              case r2 of
                None \<Rightarrow> ret (None, fresh1)
              | Some rec2 \<Rightarrow> rendered_record E b L entry filename rec2 fresh1)))"

subsection \<open>The listing of a package\<close>

definition SIDECAR_READ_CONCURRENCY :: nat where "SIDECAR_READ_CONCURRENCY = 64"

fun load_chunk ::
  "('v, 's) rebuild_env \<Rightarrow> bucket_id \<Rightarrow> listing_ctx \<Rightarrow> (file_entry \<times> string) list \<Rightarrow> package_sidecars \<Rightarrow> (file_metadata list res \<times> package_sidecars) act" where
  "load_chunk E b L [] fresh = ret (Inr [], fresh)"
| "load_chunk E b L (file # files) fresh =
     onResult (load_file_metadata E b L file fresh)
       (\<lambda>e. andThen (load_chunk E b L files fresh) (\<lambda>(_, fresh'). ret (Inl e, fresh')))
       (\<lambda>(loaded, fresh1). andThen (load_chunk E b L files fresh1) (\<lambda>(r, fresh').
          ret (case r of Inl e \<Rightarrow> Inl e | Inr ms \<Rightarrow> Inr ((case loaded of None \<Rightarrow> [] | Some m \<Rightarrow> [m]) @ ms), fresh')))"

function load_chunks ::
  "('v, 's) rebuild_env \<Rightarrow> bucket_id \<Rightarrow> listing_ctx \<Rightarrow> (file_entry \<times> string) list \<Rightarrow> package_sidecars \<Rightarrow> (file_metadata list \<times> package_sidecars) act" where
  "load_chunks E b L files fresh =
     (if files = [] then ret ([], fresh)
      else andThen (load_chunk E b L (take SIDECAR_READ_CONCURRENCY files) fresh) (\<lambda>(r, fresh1).
           andThen (lift_res r) (\<lambda>ms.
           andThen (load_chunks E b L (drop SIDECAR_READ_CONCURRENCY files) fresh1) (\<lambda>(rest, fresh2). ret (ms @ rest, fresh2)))))"
  by auto
termination
  by (relation "measure (\<lambda>(E, b, L, files, fresh). length files)") (auto simp: SIDECAR_READ_CONCURRENCY_def)

declare load_chunks.simps [simp del]

text \<open>The claim and the directory, after finishing what an interrupted supersede left; writes only when authoring.\<close>

definition list_package ::
  "('v, 's) rebuild_env \<Rightarrow> bucket_id \<Rightarrow> string \<Rightarrow> int option \<Rightarrow> (record_origin option \<times> file_entry list) act" where
  "list_package E b pkg authoring =
     (let prefix = PACKAGES_PREFIX @ pkg @ ''/'' in
      andThen (read_origin_claim (rb_claims E) b pkg) (\<lambda>claim.
      andThen (list_dir_entries b prefix) (\<lambda>entries.
      andThen
        (case authoring of
           None \<Rightarrow> ret entries
         | Some grace \<Rightarrow>
             (let marked = filter (\<lambda>entry. case Option.bind (strip_prefix (fe_key entry) prefix) (\<lambda>name. strip_suffix name SUPERSEDING_SUFFIX) of
                                             None \<Rightarrow> False | Some name \<Rightarrow> is_artifact name) entries
              in if marked = [] then ret entries
                 else andThen (finish_interrupted_supersedes (rb_sha E) (rb_sidecars E) (rb_now E) grace b pkg marked) (\<lambda>_.
                        list_dir_entries b prefix))) (\<lambda>entries'.
        ret (Option.bind claim narrow, entries')))))"

definition artifacts_of :: "string \<Rightarrow> file_entry list \<Rightarrow> (file_entry \<times> string) list" where
  "artifacts_of prefix entries =
     List.map_filter (\<lambda>entry. case strip_prefix (fe_key entry) prefix of
         None \<Rightarrow> None | Some filename \<Rightarrow> (if is_artifact filename then Some (entry, filename) else None)) entries"

definition etags_of :: "string \<Rightarrow> string \<Rightarrow> file_entry list \<Rightarrow> string \<Rightarrow> string option" where
  "etags_of prefix suffix entries =
     map_of (rev (List.map_filter (\<lambda>entry. case Option.bind (strip_prefix (fe_key entry) prefix) (\<lambda>name. strip_suffix name suffix) of
         None \<Rightarrow> None | Some filename \<Rightarrow> map_option (Pair filename) (fe_etag entry)) entries))"

definition listing_of :: "string \<Rightarrow> record_origin option \<Rightarrow> file_entry list \<Rightarrow> bool \<Rightarrow> package_sidecars \<Rightarrow> listing_ctx" where
  "listing_of prefix claim entries backfill memo =
     \<lparr>lc_names = set (List.map_filter (\<lambda>entry. strip_prefix (fe_key entry) prefix) entries), lc_claim = claim, lc_backfill = backfill,
      lc_memo = memo, lc_sidecar_etags = etags_of prefix SIDECAR_SUFFIX entries, lc_metadata_etags = etags_of prefix METADATA_SUFFIX entries\<rparr>"

definition list_artifacts_for_claim ::
  "('v, 's) rebuild_env \<Rightarrow> bucket_id \<Rightarrow> string \<Rightarrow> int option \<Rightarrow> sidecar_cache
    \<Rightarrow> (sidecar_cache \<times> (file_metadata list \<times> (string \<times> nat) list) res) act" where
  "list_artifacts_for_claim E b pkg authoring cache =
     onResult (list_package E b pkg authoring)
       (\<lambda>e. ret (cache, Inl e))
       (\<lambda>(claim, entries).
          let prefix = PACKAGES_PREFIX @ pkg @ ''/''; artifacts = artifacts_of prefix entries;
              raw = map (\<lambda>(entry, filename). (filename, fe_size entry)) artifacts;
              (memo, cache1) = take_memo b pkg cache
          in onResult (load_chunks E b (listing_of prefix claim entries (authoring \<noteq> None) memo) artifacts no_sidecars)
               (\<lambda>e. ret (cache1, Inl e))
               (\<lambda>(metadata, fresh). ret (put_memo b pkg fresh cache1, Inr (metadata, raw))))"

definition list_artifacts where
  "list_artifacts E b pkg grace cache = list_artifacts_for_claim E b pkg (Some grace) cache"

definition list_artifacts_readonly where
  "list_artifacts_readonly E b pkg cache = list_artifacts_for_claim E b pkg None cache"

subsection \<open>The pages of a package\<close>

definition is_blocked :: "('v, 's) rebuild_env \<Rightarrow> (string \<Rightarrow> string option \<Rightarrow> bool) \<Rightarrow> string \<Rightarrow> file_metadata \<Rightarrow> bool" where
  "is_blocked E bad pkg f = bad pkg (rb_version E (fm_filename f))"

definition malware_scrubbed_files :: "('v, 's) rebuild_env \<Rightarrow> bucket_id \<Rightarrow> string \<Rightarrow> file_metadata list \<Rightarrow> file_metadata list option act" where
  "malware_scrubbed_files E b pkg files =
     (case rb_malicious E of
        None \<Rightarrow> ret None
      | Some bad \<Rightarrow>
          if \<not> list_ex (is_blocked E bad pkg) files then ret None
          else onResult (read_origin_claim (rb_claims E) b pkg) (\<lambda>_. ret None)
                 (\<lambda>claim. ret (if claim = Some Mirror then Some (filter (\<lambda>f. \<not> is_blocked E bad pkg f) files) else None)))"

definition page_keys :: "string \<Rightarrow> string list" where
  "page_keys pkg = [SIMPLE_PREFIX @ pkg @ ''/index.html'', SIMPLE_PREFIX @ pkg @ ''/index.json'']"

definition render_views :: "('v, 's) rebuild_env \<Rightarrow> string \<Rightarrow> file_metadata list \<Rightarrow> project_status_doc \<Rightarrow> (string \<times> bytes) list" where
  "render_views E pkg files doc =
     (let render_files = (if blocks_downloads (status doc) then [] else files)
      in zip (page_keys pkg)
           [pep503_project_html (ie_render (rb_index E)) pkg render_files doc,
            pep691_project_json (version_from_str (rb_pep440 E)) (rb_doc E) pkg render_files doc])"

fun put_views :: "(bytes \<Rightarrow> bytes) \<Rightarrow> bucket_id \<Rightarrow> (string \<times> bytes) list \<Rightarrow> unit act" where
  "put_views sha b [] = ret ()"
| "put_views sha b ((key, bs) # views) = andThen (put_if_changed sha b key bs) (\<lambda>_. put_views sha b views)"

definition write_pkg_indexes :: "('v, 's) rebuild_env \<Rightarrow> bucket_id \<Rightarrow> string \<Rightarrow> file_metadata list \<Rightarrow> ((string \<times> bytes) list \<times> bool) act" where
  "write_pkg_indexes E b pkg files =
     andThen (read_status (rb_statuses E) b pkg) (\<lambda>doc.
     andThen (malware_scrubbed_files E b pkg files) (\<lambda>scrubbed.
       let views = render_views E pkg (case scrubbed of Some fs \<Rightarrow> fs | None \<Rightarrow> files) doc
       in andThen (put_views (rb_sha E) b views) (\<lambda>_. ret (views, blocks_downloads (status doc)))))"

subsection \<open>The rebuild\<close>

datatype on_failure = MarkersHeld | Rearm

record rebuilt_package =
  still_live :: bool
  raw_artifacts :: "(string \<times> nat) list"
  file_shas :: "(string, string) btree"
  rp_views :: "(string \<times> bytes) list"
  rp_quarantined :: "bool option"

definition renderable :: "('v, 's) rebuild_env \<Rightarrow> string \<Rightarrow> string option \<Rightarrow> file_metadata \<Rightarrow> bool" where
  "renderable E pkg omit f =
     (Some (fm_filename f) \<noteq> omit
      \<and> (case rb_denylist E of None \<Rightarrow> True | Some deny \<Rightarrow> \<not> file_denied (rb_pep440 E) deny pkg (fm_filename f)))"

definition rebuild_package_indexes_inner ::
  "('v, 's) rebuild_env \<Rightarrow> bucket_id \<Rightarrow> string \<Rightarrow> string option \<Rightarrow> sidecar_cache \<Rightarrow> (sidecar_cache \<times> rebuilt_package res) act" where
  "rebuild_package_indexes_inner E b pkg omit cache =
     andThen (list_artifacts_for_claim E b pkg (Some (rb_grace E)) cache) (\<lambda>(cache', listing).
       case listing of
         Inl e \<Rightarrow> ret (cache', Inl e)
       | Inr (all_files, all_raw) \<Rightarrow>
           (let files = filter (renderable E pkg omit) all_files;
                raw = filter (\<lambda>(filename, _). Some filename \<noteq> omit) all_raw;
                live = (files \<noteq> []);
                rebuilt = (\<lambda>views quarantined.
                  \<lparr>still_live = live, raw_artifacts = raw, file_shas = fold (\<lambda>f. bt_insert (fm_filename f) (fm_sha256 f)) files [],
                   rp_views = views, rp_quarantined = quarantined\<rparr>)
            in onResult
                 (if live then andThen (write_pkg_indexes E b pkg files) (\<lambda>(views, blocked). ret (rebuilt views (Some blocked)))
                  else andThen (delete_keys (rb_sha E) b (page_keys pkg)) (\<lambda>_. ret (rebuilt [] None)))
                 (\<lambda>e. ret (cache', Inl e)) (\<lambda>v. ret (cache', Inr v))))"

definition rebuild_package_indexes ::
  "('v, 's) rebuild_env \<Rightarrow> bucket_id \<Rightarrow> string \<Rightarrow> string option \<Rightarrow> on_failure \<Rightarrow> sidecar_cache \<Rightarrow> (sidecar_cache \<times> rebuilt_package res) act" where
  "rebuild_package_indexes E b pkg omit failure cache =
     (if \<not> rb_multi E then rebuild_package_indexes_inner E b pkg omit cache
      else
        onResult (mark_intent (rb_sha E) b pkg) (\<lambda>e. ret (cache, Inl e)) (\<lambda>nonce.
          andThen (rebuild_package_indexes_inner E b pkg omit cache) (\<lambda>(cache', result).
            case result of
              Inr v \<Rightarrow> onResult (clear_intent (rb_sha E) b pkg nonce) (\<lambda>e. ret (cache', Inl e)) (\<lambda>_. ret (cache', Inr v))
            | Inl e \<Rightarrow>
                onResult (case failure of MarkersHeld \<Rightarrow> clear_intent (rb_sha E) b pkg nonce | Rearm \<Rightarrow> mark_commit (rb_sha E) b pkg nonce)
                  (\<lambda>_. ret (cache', Inl e)) (\<lambda>_. ret (cache', Inl e)))))"

subsection \<open>Draining a destination bucket\<close>

text \<open>What a pass over the work has gathered: names to add, names to remove, markers to consume.\<close>

record drained =
  dr_adds :: "string list"
  dr_removes :: "string list"
  dr_consumed :: "string list"

definition account :: "dirty_work \<Rightarrow> bool \<Rightarrow> drained \<Rightarrow> drained" where
  "account wk live d =
     (if live then d\<lparr>dr_adds := dr_adds d @ [dw_package wk], dr_consumed := dr_consumed d @ dw_keys wk\<rparr>
      else d\<lparr>dr_removes := dr_removes d @ [dw_package wk], dr_consumed := dr_consumed d @ dw_keys wk\<rparr>)"

fun drain_work ::
  "('v, 's) rebuild_env \<Rightarrow> bucket_id \<Rightarrow> dirty_work list \<Rightarrow> sidecar_cache \<Rightarrow> drained \<Rightarrow> (sidecar_cache \<times> drained) act" where
  "drain_work E b [] cache d = ret (cache, d)"
| "drain_work E b (wk # work) cache d =
     andThen (rebuild_package_indexes E b (dw_package wk) None MarkersHeld cache) (\<lambda>(cache', r).
       case r of
         Inl _ \<Rightarrow> drain_work E b work cache' d
       | Inr rebuilt \<Rightarrow>
           if stale_intents wk > 0 then
             onResult (mark_dirty (rb_sha E) b (dw_package wk))
               (\<lambda>_. drain_work E b work cache' d)
               (\<lambda>_. drain_work E b work cache' (account wk (still_live rebuilt) d))
           else drain_work E b work cache' (account wk (still_live rebuilt) d))"

definition drain_dirty_uncached :: "('v, 's) rebuild_env \<Rightarrow> bucket_id \<Rightarrow> sidecar_cache \<Rightarrow> (sidecar_cache \<times> unit res) act" where
  "drain_dirty_uncached E b cache =
     onResult (list_dir_entries b DIRTY_PREFIX) (\<lambda>e. ret (cache, Inl e)) (\<lambda>entries.
       if entries = [] then ret (cache, Inr ())
       else
         andThen (drain_work E b (consumable_dirty_work entries (rb_now E) (rb_grace E)) cache \<lparr>dr_adds = [], dr_removes = [], dr_consumed = []\<rparr>)
           (\<lambda>(cache', d).
              onResult (update_global_index_uncached (rb_index E) b (dr_adds d) (dr_removes d))
                (\<lambda>e. ret (cache', Inl e))
                (\<lambda>_. onResult (delete_keys (rb_sha E) b (dr_consumed d)) (\<lambda>_. ret (cache', Inr ())) (\<lambda>_. ret (cache', Inr ())))))"

subsection \<open>The inventory of the selected bucket\<close>

record pkg_stat =
  stat_files :: "32 word"
  stat_releases :: "32 word"
  stat_bytes :: u64

definition from_raw :: "('v, 's) rebuild_env \<Rightarrow> (string \<times> nat) list \<Rightarrow> pkg_stat" where
  "from_raw E artifacts =
     \<lparr>stat_files = of_nat (length artifacts),
      stat_releases = of_nat (length (remdups (List.map_filter (rb_version E \<circ> fst) artifacts))),
      stat_bytes = sum_list (map (of_nat \<circ> snd) artifacts)\<rparr>"

record inventory_map =
  inv_pkgs :: "(string \<times> pkg_stat) list"
  inv_ready :: bool
  inv_dirty :: bool

definition inv_upsert :: "string \<Rightarrow> pkg_stat \<Rightarrow> inventory_map \<Rightarrow> inventory_map" where
  "inv_upsert pkg stat iv =
     (let old = map_of (inv_pkgs iv) pkg;
          changed = (if stat_files stat = 0 then old \<noteq> None else old \<noteq> Some stat)
      in iv\<lparr>inv_pkgs := (if stat_files stat = 0 then AList.delete pkg (inv_pkgs iv) else AList.update pkg stat (inv_pkgs iv)),
             inv_dirty := inv_dirty iv \<or> changed\<rparr>)"

record inventory =
  iv_projects :: u64
  iv_releases :: u64
  iv_files :: u64
  iv_bytes :: u64

definition inv_totals :: "inventory_map \<Rightarrow> inventory" where
  "inv_totals iv =
     \<lparr>iv_projects = of_nat (length (inv_pkgs iv)), iv_releases = sum_list (map (ucast \<circ> stat_releases \<circ> snd) (inv_pkgs iv)),
      iv_files = sum_list (map (ucast \<circ> stat_files \<circ> snd) (inv_pkgs iv)), iv_bytes = sum_list (map (stat_bytes \<circ> snd) (inv_pkgs iv))\<rparr>"

definition rebuild_selected_package ::
  "('v, 's) rebuild_env \<Rightarrow> bucket_id \<Rightarrow> string \<Rightarrow> string option \<Rightarrow> on_failure \<Rightarrow> sidecar_cache \<times> inventory_map
    \<Rightarrow> ((sidecar_cache \<times> inventory_map) \<times> rebuilt_package res) act" where
  "rebuild_selected_package E b pkg omit failure node =
     andThen (rebuild_package_indexes E b pkg omit failure (fst node)) (\<lambda>(cache, r).
       ret ((cache, case r of Inl _ \<Rightarrow> snd node | Inr v \<Rightarrow> inv_upsert pkg (from_raw E (raw_artifacts v)) (snd node)), r))"

definition rebuild_package_excluding ::
  "('v, 's) rebuild_env \<Rightarrow> bucket_id \<Rightarrow> string \<Rightarrow> string option \<Rightarrow> sidecar_cache \<times> inventory_map
    \<Rightarrow> ((sidecar_cache \<times> inventory_map) \<times> (bool \<times> (string, string) btree) res) act" where
  "rebuild_package_excluding E b pkg omit node =
     andThen (rebuild_selected_package E b pkg omit Rearm node) (\<lambda>(node', r).
       ret (node', case r of Inl e \<Rightarrow> Inl e | Inr v \<Rightarrow> Inr (still_live v, file_shas v)))"

definition rebuild_package ::
  "('v, 's) rebuild_env \<Rightarrow> bucket_id \<Rightarrow> string \<Rightarrow> sidecar_cache \<times> inventory_map \<Rightarrow> ((sidecar_cache \<times> inventory_map) \<times> bool res) act" where
  "rebuild_package E b pkg node =
     andThen (rebuild_package_excluding E b pkg None node) (\<lambda>(node', r). ret (node', case r of Inl e \<Rightarrow> Inl e | Inr (live, _) \<Rightarrow> Inr live))"

end
