(* ===== verification/Rebuild_Memo.thy ===== *)
theory Rebuild_Memo
  imports Rebuild
begin

text \<open>
  Which dirty markers a pass may consume, where each step of a rebuild writes, and that the memo of
  parsed sidecars stays exact and bounded whatever other processes write.
\<close>

section \<open>Consumable markers\<close>

text \<open>The rule as a specification: a package is ready when each of its intents is paired or old enough.\<close>

definition markers_of :: "file_entry list \<Rightarrow> string \<Rightarrow> marker list" where
  "markers_of entries pkg = map snd (filter (\<lambda>(p, _). p = pkg) (List.map_filter parse_marker entries))"

definition paired :: "marker list \<Rightarrow> marker \<Rightarrow> bool" where
  "paired ms m = (mk_nonce m \<noteq> None \<and> (\<exists>c\<in>set ms. is_commit c \<and> mk_nonce c = mk_nonce m))"

definition old_enough :: "int \<Rightarrow> int \<Rightarrow> marker \<Rightarrow> bool" where
  "old_enough now_s grace m = (\<exists>t. written_at m = Some t \<and> now_s - int t \<ge> grace)"

definition ready :: "int \<Rightarrow> int \<Rightarrow> marker list \<Rightarrow> bool" where
  "ready now_s grace ms = (\<forall>m\<in>set ms. is_commit m \<or> paired ms m \<or> old_enough now_s grace m)"

definition orphans :: "marker list \<Rightarrow> nat" where
  "orphans ms = length (filter (\<lambda>m. \<not> is_commit m \<and> \<not> paired ms m) ms)"

lemma intent_scan_exact:
  assumes "\<And>m. m \<in> set ms \<Longrightarrow> (case mk_nonce m of Some nonce \<Rightarrow> nonce \<in> N | None \<Rightarrow> False) = p m"
  shows "intent_scan N now_s grace ms n =
    (if \<forall>m\<in>set ms. is_commit m \<or> p m \<or> old_enough now_s grace m then Some (n + length (filter (\<lambda>m. \<not> is_commit m \<and> \<not> p m) ms)) else None)"
  using assms
proof (induction ms arbitrary: n)
  case (Cons m ms)
  have "(case written_at m of Some written \<Rightarrow> now_s - int written \<ge> grace | None \<Rightarrow> False) = old_enough now_s grace m"
    by (auto simp: old_enough_def split: option.splits)
  then show ?case
    using Cons.IH [of n] Cons.IH [of "n + 1"] Cons.prems by (auto simp del: split_paired_All)
qed simp

lemma paired_nonces:
  "(case mk_nonce m of Some nonce \<Rightarrow> nonce \<in> set (List.map_filter mk_nonce (filter is_commit ms)) | None \<Rightarrow> False) = paired ms m"
  by (auto simp: paired_def set_map_filter split: option.splits)

lemma package_work_exact:
  "package_work now_s grace (List.map_filter parse_marker entries) pkg =
     (let ms = markers_of entries pkg
      in if ready now_s grace ms then Some \<lparr>dw_package = pkg, dw_keys = map mk_key ms, stale_intents = orphans ms\<rparr> else None)"
proof -
  let ?ms = "markers_of entries pkg"
  have "intent_scan (set (List.map_filter mk_nonce (filter is_commit ?ms))) now_s grace ?ms 0 =
      (if ready now_s grace ?ms then Some (orphans ?ms) else None)"
    using intent_scan_exact [where ms = ?ms and p = "paired ?ms" and n = 0, OF paired_nonces] by (simp add: ready_def orphans_def)
  then show ?thesis
    by (simp add: package_work_def markers_of_def Let_def)
qed

lemma map_filter_if: "List.map_filter (\<lambda>x. if c x then Some (f x) else None) xs = map f (filter c xs)"
  by (induction xs) (simp_all add: List.map_filter_simps)

lemma consumable_work_eq:
  "consumable_dirty_work entries now_s grace =
     map (\<lambda>pkg. \<lparr>dw_package = pkg, dw_keys = map mk_key (markers_of entries pkg), stale_intents = orphans (markers_of entries pkg)\<rparr>)
       (filter (\<lambda>pkg. ready now_s grace (markers_of entries pkg)) (sorted_list_of_set (fst ` set (List.map_filter parse_marker entries))))"
proof -
  have work: "package_work now_s grace (List.map_filter parse_marker entries) =
      (\<lambda>pkg. if ready now_s grace (markers_of entries pkg)
        then Some \<lparr>dw_package = pkg, dw_keys = map mk_key (markers_of entries pkg), stale_intents = orphans (markers_of entries pkg)\<rparr> else None)"
    by (rule ext) (simp add: package_work_exact Let_def)
  have "sort (remdups (map fst (List.map_filter parse_marker entries))) = sorted_list_of_set (fst ` set (List.map_filter parse_marker entries))"
    by (metis list.set_map sorted_list_of_set_sort_remdups)
  then show ?thesis
    by (simp add: consumable_dirty_work_def Let_def work map_filter_if)
qed

section \<open>The memo is exact\<close>

text \<open>
  \<open>detects s k t Q\<close>: the detector \<open>t\<close> has been issued, and if \<open>k\<close> is still listed under it then its bytes
  satisfy \<open>Q\<close>. The memo pairs the detector of a listing with bytes read later, which may be newer; since a
  detector is never issued again, a later listing under it shows that they were not.
\<close>

definition tag_issued :: "inner \<Rightarrow> string \<Rightarrow> bool" where
  "tag_issued s t = (\<exists>n<next_version s. t = ''etag:'' @ version_etag n)"

definition detects :: "inner \<Rightarrow> string \<Rightarrow> string \<Rightarrow> (bytes \<Rightarrow> bool) \<Rightarrow> bool" where
  "detects s k t Q = (tag_issued s t \<and> (\<forall>ob. object_at s k = Some ob \<longrightarrow> listed_etag ob = t \<longrightarrow> Q (obj_bytes ob)))"

definition memo_exact :: "('v, 's) rebuild_env \<Rightarrow> string \<Rightarrow> package_sidecars \<Rightarrow> inner \<Rightarrow> bool" where
  "memo_exact E pkg m s =
     ((\<forall>f t sc. map_of (ps_sidecars m) f = Some (t, sc)
         \<longrightarrow> detects s (sidecar_key (artifact_key pkg f)) t (\<lambda>bs. dec_sidecar (rb_sidecars E) bs = Some sc))
      \<and> (\<forall>f t h. map_of (ps_metadata m) f = Some (t, h)
         \<longrightarrow> detects s (metadata_key (artifact_key pkg f)) t (\<lambda>bs. sha256_hex (rb_sha E) bs = h)))"

definition cache_exact :: "('v, 's) rebuild_env \<Rightarrow> sidecar_cache \<Rightarrow> fleet \<Rightarrow> bool" where
  "cache_exact E c fl = (\<forall>b pkg m. map_of (sc_packages c) (b, pkg) = Some m \<longrightarrow> memo_exact E pkg m (fl b))"

lemma tag_issued_evolves: "tag_issued s t \<Longrightarrow> evolves s s' \<Longrightarrow> tag_issued s' t"
  unfolding tag_issued_def evolves_def using order_less_le_trans by blast

lemma detects_evolves: "detects s k t Q \<Longrightarrow> evolves s s' \<Longrightarrow> detects s' k t Q"
proof -
  assume d: "detects s k t Q" and ev: "evolves s s'"
  then obtain n where n: "n < next_version s" "t = ''etag:'' @ version_etag n"
    by (auto simp: detects_def tag_issued_def)
  have "object_at s k = Some ob" if "object_at s' k = Some ob" "listed_etag ob = t" for ob
    using ev that n by (simp add: evolves_def listed_etag_def)
  then show ?thesis
    using d tag_issued_evolves [OF _ ev] by (auto simp: detects_def)
qed

lemma memo_exact_evolves: "memo_exact E pkg m s \<Longrightarrow> evolves s s' \<Longrightarrow> memo_exact E pkg m s'"
  unfolding memo_exact_def using detects_evolves by blast

lemma memo_exact_empty: "memo_exact E pkg no_sidecars s"
  by (simp add: memo_exact_def no_sidecars_def)

text \<open>An assertion about issued tags survives every step of every process.\<close>

definition lasting :: "(fleet \<Rightarrow> bool) \<Rightarrow> bool" where
  "lasting P = (\<forall>fl fl'. fleet_evolves fl fl' \<longrightarrow> P fl \<longrightarrow> P fl')"

lemma lasting_stable: "lasting P \<Longrightarrow> stable G P"
  by (simp add: lasting_def stable_def)

lemma lasting_frames: "lasting P \<Longrightarrow> frames b X P"
  unfolding lasting_def frames_def fleet_evolves_def
proof (intro allI impI)
  fix fl s'
  assume last: "\<forall>fl fl'. (\<forall>b. evolves (fl b) (fl' b)) \<longrightarrow> P fl \<longrightarrow> P fl'" and "P fl" "evolves (fl b) s'"
  moreover from this have "\<forall>c. evolves (fl c) ((fl(b := s')) c)"
    by simp
  ultimately show "P (fl(b := s'))"
    by blast
qed

lemma lasting_conj: "lasting P \<Longrightarrow> lasting Q \<Longrightarrow> lasting (\<lambda>fl. P fl \<and> Q fl)"
  unfolding lasting_def by blast

lemma lasting_memo: "lasting (\<lambda>fl. memo_exact E pkg m (fl b))"
  unfolding lasting_def fleet_evolves_def using memo_exact_evolves by blast

lemma lasting_cache: "lasting (cache_exact E c)"
  unfolding lasting_def cache_exact_def fleet_evolves_def using memo_exact_evolves by blast

lemma lasting_tag: "lasting (\<lambda>fl. tag_issued (fl b) t)"
  unfolding lasting_def fleet_evolves_def using tag_issued_evolves by blast

lemma lasting_detects: "lasting (\<lambda>fl. detects (fl b) k t Q)"
  unfolding lasting_def fleet_evolves_def using detects_evolves by blast

lemma lasting_const: "lasting (\<lambda>_. c)"
  by (simp add: lasting_def)

lemma lasting_all: "(\<And>x. lasting (P x)) \<Longrightarrow> lasting (\<lambda>fl. \<forall>x. P x fl)"
  unfolding lasting_def by blast

lemma lasting_imp: "lasting P \<Longrightarrow> lasting (\<lambda>fl. c \<longrightarrow> P fl)"
  unfolding lasting_def by blast

lemmas lasting_intros = lasting_conj lasting_memo lasting_cache lasting_tag lasting_detects lasting_const lasting_all lasting_imp

section \<open>What each step writes\<close>

definition package_dir :: "string \<Rightarrow> string set" where
  "package_dir pkg = {k. starts_with k (PACKAGES_PREFIX @ pkg @ ''/'')}"

lemma in_package_dir [simp]: "(PACKAGES_PREFIX @ pkg @ ''/'') @ n \<in> package_dir pkg" "artifact_key pkg f \<in> package_dir pkg"
  "artifact_key pkg f @ x \<in> package_dir pkg"
  by (simp_all add: package_dir_def artifact_key_def starts_with_iff)

lemma companions_in_dir [simp]: "sidecar_key (artifact_key pkg f) \<in> package_dir pkg" "metadata_key (artifact_key pkg f) \<in> package_dir pkg"
  by (simp_all add: key_defs)

text \<open>A later step may depend on what an earlier one can return.\<close>

lemma writes_andThen_dep:
  assumes "writes_only b X m" and "\<And>v w w'. m w = (Inr v, w') \<Longrightarrow> writes_only b X (f v)"
  shows "writes_only b X (andThen m f)"
  unfolding writes_only_def
proof (intro allI impI)
  fix G P
  assume fr: "frames b X P" and st: "stable G P"
  have keep: "triple G P m (\<lambda>_. P)"
    by (rule writes_onlyD [OF assms(1) fr st])
  show "triple G P (andThen m f) (\<lambda>_. P)"
    unfolding triple_def
  proof (intro allI impI)
    fix w r w'
    assume w: "obeys G w" "P (buckets w)" and run: "andThen m f w = (r, w')"
    obtain x w1 where m: "m w = (x, w1)"
      by fastforce
    note mid = tripleD [OF keep w m]
    show "obeys G w' \<and> P (buckets w')"
    proof (cases x)
      case (Inr v)
      then have "triple G P (f v) (\<lambda>_. P)"
        using writes_onlyD [OF assms(2) fr st] m by blast
      moreover have "f v w1 = (r, w')"
        using m run Inr by (simp add: andThen_def)
      ultimately show ?thesis
        using tripleD mid by blast
    qed (use mid m run in \<open>auto simp: andThen_def\<close>)
  qed
qed

lemma writes_stream [writes_intros]: "writes_only b X (stream_sha256 sha b' k)"
  unfolding stream_sha256_def by (intro writes_intros)

lemma writes_read_claim [writes_intros]: "writes_only b X (read_origin_claim J b' pkg)"
  unfolding read_origin_claim_def by (intro writes_intros)

lemma writes_read_listed [writes_intros]: "writes_only b X (read_listed_sidecar S b' k)" "writes_only b X (read_metadata_sha256 sha b' k)"
  unfolding read_listed_sidecar_def read_metadata_sha256_def by (intro writes_intros)+

lemma writes_read_status [writes_intros]: "writes_only b X (read_status C b' pkg)"
  unfolding read_status_def by (intro writes_intros)

lemma writes_backfill: "writes_only b {sidecar_key (fe_key entry)} (backfill_sidecar E b entry filename org)"
  unfolding backfill_sidecar_def Let_def by (intro writes_intros writes_puts writes_delete_keys) simp_all

lemma writes_install: "writes_only b {k} (install_private_loop sha S b k art sc n)"
  by (induction n) (auto simp: Let_def intro!: writes_intros writes_puts split: prod.splits)

lemma writes_finish_one:
  assumes "fe_key entry = akey @ SUPERSEDING_SUFFIX"
  shows "writes_only b {sidecar_key akey} (finish_one sha S now_s grace b entry)"
  using assms unfolding finish_one_def install_or_verify_sidecar_def Let_def
  by (auto simp: strip_suffix_Some_iff [THEN iffD2] intro!: writes_intros writes_install split: option.splits)

text \<open>What an operation can return, whatever happens around it.\<close>

definition yields :: "'a act \<Rightarrow> ('a \<Rightarrow> bool) \<Rightarrow> bool" where
  "yields m Q = (\<forall>w v w'. m w = (Inr v, w') \<longrightarrow> Q v)"

lemma yields_mono: "yields m Q \<Longrightarrow> (\<And>v. Q v \<Longrightarrow> Q' v) \<Longrightarrow> yields m Q'"
  unfolding yields_def by blast

lemma yields_ret: "Q v \<Longrightarrow> yields (ret v) Q"
  by (simp add: yields_def ret_def)

lemma yields_fail: "yields (fail e) Q"
  by (simp add: yields_def fail_def)

lemma yields_andThen: "yields m Q' \<Longrightarrow> (\<And>v. Q' v \<Longrightarrow> yields (f v) Q) \<Longrightarrow> yields (andThen m f) Q"
  unfolding yields_def andThen_def by (fastforce split: prod.splits sum.splits)

lemma yields_onResult: "(\<And>e. yields (h e) Q) \<Longrightarrow> (\<And>v. yields (f v) Q) \<Longrightarrow> yields (onResult m h f) Q"
  unfolding yields_def onResult_def by (fastforce split: prod.splits sum.splits)

lemma yields_any: "yields m (\<lambda>_. True)"
  by (simp add: yields_def)

lemma yields_if: "(c \<Longrightarrow> yields m Q) \<Longrightarrow> (\<not> c \<Longrightarrow> yields m' Q) \<Longrightarrow> yields (if c then m else m') Q"
  by simp

lemma yields_option: "(v = None \<Longrightarrow> yields m Q) \<Longrightarrow> (\<And>x. v = Some x \<Longrightarrow> yields (f x) Q) \<Longrightarrow> yields (case v of None \<Rightarrow> m | Some x \<Rightarrow> f x) Q"
  by (cases v) simp_all

lemma yields_finish_one: "yields (finish_one sha S now_s grace b entry) (\<lambda>(_, r). \<forall>v. r = Some v \<longrightarrow> fst v = fe_key entry)"
  unfolding finish_one_def Let_def
  by (rule yields_option, rule yields_ret, simp, rule yields_onResult)
    (auto intro!: yields_if yields_option yields_ret yields_fail yields_andThen [OF yields_any] split: if_splits)

lemma yields_finish_loop:
  "yields (finish_loop sha S now_s grace b es n answered) (\<lambda>(_, ans). \<forall>v\<in>set ans. v \<in> set answered \<or> fst v \<in> fe_key ` set es)"
proof (induction es arbitrary: n answered)
  case (Cons entry es)
  show ?case
    unfolding finish_loop.simps
  proof (rule yields_andThen [OF yields_finish_one], clarify)
    fix published :: bool and retire :: "(string \<times> string \<times> nat option) option"
    assume "\<forall>v. retire = Some v \<longrightarrow> fst v = fe_key entry"
    then show "yields (finish_loop sha S now_s grace b es (if published then n + 1 else n) (case retire of None \<Rightarrow> answered | Some v \<Rightarrow> answered @ [v]))
        (\<lambda>(_, ans). \<forall>v\<in>set ans. v \<in> set answered \<or> fst v \<in> fe_key ` set (entry # es))"
      by (cases retire) (auto intro!: yields_mono [OF Cons.IH])
  qed
qed (simp add: yields_ret)

definition superseding_in :: "string \<Rightarrow> file_entry \<Rightarrow> bool" where
  "superseding_in pkg entry = (\<exists>f. fe_key entry = artifact_key pkg f @ SUPERSEDING_SUFFIX)"

text \<open>Finishing supersedes writes sidecars and retires markers, nothing else of the directory.\<close>

definition marked_keys :: "string \<Rightarrow> string set" where
  "marked_keys pkg = {k. \<exists>f. k = sidecar_key (artifact_key pkg f) \<or> k = superseding_key (artifact_key pkg f)}"

lemma marked_keys_dir: "marked_keys pkg \<subseteq> package_dir pkg"
  by (auto simp: marked_keys_def key_defs)

lemma writes_finish_loop:
  "\<forall>e\<in>set es. superseding_in pkg e \<Longrightarrow> writes_only b (marked_keys pkg) (finish_loop sha S now_s grace b es n answered)"
proof (induction es arbitrary: n answered)
  case (Cons entry es)
  then obtain f where "fe_key entry = artifact_key pkg f @ SUPERSEDING_SUFFIX"
    by (auto simp: superseding_in_def)
  then have "writes_only b (marked_keys pkg) (finish_one sha S now_s grace b entry)"
    by (rule writes_mono [OF writes_finish_one]) (auto simp: marked_keys_def)
  then show ?case
    using Cons by (auto intro!: writes_intros)
qed (simp add: writes_basic)

lemma writes_finish:
  assumes "\<forall>e\<in>set markers. superseding_in pkg e"
  shows "writes_only b (marked_keys pkg) (finish_interrupted_supersedes sha S now_s grace b pkg markers)"
  unfolding finish_interrupted_supersedes_def
proof (rule writes_andThen_dep [OF writes_finish_loop [OF assms]])
  fix v and w w' :: world
  assume run: "finish_loop sha S now_s grace b markers 0 [] w = (Inr v, w')"
  obtain finished answered where v: "v = (finished, answered)"
    by fastforce
  have "fst ` set answered \<subseteq> fe_key ` set markers"
    using yields_finish_loop [of sha S now_s grace b markers 0 "[]", unfolded yields_def, rule_format, OF run] by (auto simp: v)
  moreover have "fe_key ` set markers \<subseteq> marked_keys pkg"
    using assms by (auto simp: superseding_in_def marked_keys_def superseding_key_def companion_key_def)
  ultimately have "fst ` set answered \<subseteq> marked_keys pkg"
    by blast
  then have sub: "set (map fst (filter p answered)) \<subseteq> marked_keys pkg" for p
    by auto
  show "writes_only b (marked_keys pkg) (case v of (finished, answered) \<Rightarrow>
      if answered = [] then ret finished
      else andThen (list_dir_entries b (PACKAGES_PREFIX @ pkg @ ''/'')) (\<lambda>relisted.
           let current = map_of (List.map_filter (\<lambda>e. map_option (\<lambda>etag. (fe_key e, (etag, fe_last_modified e))) (fe_etag e)) relisted);
               unchanged = map fst (filter (\<lambda>(marker, version). current marker = Some version) answered)
           in andThen (if unchanged \<noteq> [] then delete_keys sha b unchanged else ret ()) (\<lambda>_. ret finished)))"
    unfolding v Let_def prod.case by (intro writes_if writes_basic writes_andThen writes_listing writes_delete_keys sub)
qed

lemma writes_list_package: "writes_only b (package_dir pkg) (list_package E b pkg authoring)"
  unfolding list_package_def Let_def
  by (intro writes_intros writes_mono [OF writes_finish marked_keys_dir]) (auto simp: superseding_in_def artifact_key_def bind_eq_Some_conv strip_prefix_Some_iff strip_suffix_Some_iff split: option.splits)

section \<open>The memo under interference\<close>

definition entries_at :: "inner \<Rightarrow> string \<Rightarrow> file_entry list" where
  "entries_at s dir =
     map (\<lambda>(k, ob). \<lparr>fe_key = k, fe_size = length (obj_bytes ob), fe_last_modified = Some (last_modified ob), fe_etag = Some (listed_etag ob)\<rparr>)
       (filter (\<lambda>e. CHR ''/'' \<notin> set (drop (length dir) (fst e))) (prefix_range s dir))"

lemma triple_entries: "stable G P \<Longrightarrow> triple G P (list_dir_entries b dir) (both P (\<lambda>es fl. P fl \<and> fleet_wf fl \<and> es = entries_at (fl b) dir))"
  unfolding list_dir_entries_def by (rule triple_read_call) (simp_all add: entries_at_def)

lemma entries_at_iff:
  assumes "store_wf s"
  shows "e \<in> set (entries_at s dir) \<longleftrightarrow>
    (\<exists>n ob. object_at s (dir @ n) = Some ob \<and> CHR ''/'' \<notin> set n
      \<and> e = \<lparr>fe_key = dir @ n, fe_size = length (obj_bytes ob), fe_last_modified = Some (last_modified ob), fe_etag = Some (listed_etag ob)\<rparr>)"
  using prefix_range_set [OF assms] by (fastforce simp: entries_at_def image_iff starts_with_iff)

definition issued_in :: "listing_ctx \<Rightarrow> inner \<Rightarrow> bool" where
  "issued_in L s = (\<forall>f t. lc_sidecar_etags L f = Some t \<or> lc_metadata_etags L f = Some t \<longrightarrow> tag_issued s t)"

lemma lasting_issued: "lasting (\<lambda>fl. issued_in L (fl b))"
  unfolding issued_in_def by (intro lasting_intros)

lemma remember_exact:
  "memo_exact E pkg m s \<Longrightarrow> detects s (sidecar_key (artifact_key pkg f)) t (\<lambda>bs. dec_sidecar (rb_sidecars E) bs = Some sc)
    \<Longrightarrow> memo_exact E pkg (remember_sidecar f t sc m) s"
  "memo_exact E pkg m s \<Longrightarrow> detects s (metadata_key (artifact_key pkg f)) t (\<lambda>bs. sha256_hex (rb_sha E) bs = h)
    \<Longrightarrow> memo_exact E pkg (remember_metadata f t h m) s"
  by (auto simp: memo_exact_def remember_sidecar_def remember_metadata_def update_conv' split: if_splits)

lemma known_exact:
  "memo_exact E pkg m s \<Longrightarrow> known_under (Some t) (ps_sidecars m) f = Some sc
    \<Longrightarrow> detects s (sidecar_key (artifact_key pkg f)) t (\<lambda>bs. dec_sidecar (rb_sidecars E) bs = Some sc)"
  "memo_exact E pkg m s \<Longrightarrow> known_under (Some t) (ps_metadata m) f = Some h
    \<Longrightarrow> detects s (metadata_key (artifact_key pkg f)) t (\<lambda>bs. sha256_hex (rb_sha E) bs = h)"
  by (auto simp: memo_exact_def known_under_def split: option.splits if_splits)

lemma known_under_None [simp]: "known_under None m f = None"
  by (simp add: known_under_def)

text \<open>Bytes read now are what a standing detector stands for.\<close>

lemma triple_reads:
  assumes "stable G P"
  shows "triple G P (read_listed_sidecar S b akey)
      (both P (\<lambda>r fl. P fl \<and> (\<forall>sc. r = Some sc \<longrightarrow> (\<forall>ob. object_at (fl b) (sidecar_key akey) = Some ob \<longrightarrow> dec_sidecar S (obj_bytes ob) = Some sc))))"
    and "triple G P (read_metadata_sha256 sha b akey)
      (both P (\<lambda>r fl. P fl \<and> (\<forall>h. r = Some h \<longrightarrow> (\<forall>ob. object_at (fl b) (metadata_key akey) = Some ob \<longrightarrow> sha256_hex sha (obj_bytes ob) = h))))"
proof -
  have read: "triple G P (get_bytes b k) (\<lambda>r fl. P fl \<and> (\<forall>bs. r = Inr bs \<longrightarrow> (\<forall>ob. object_at (fl b) k = Some ob \<longrightarrow> obj_bytes ob = bs)))" for k
    by (rule triple_get_bytes [OF assms]) auto
  show "triple G P (read_listed_sidecar S b akey)
      (both P (\<lambda>r fl. P fl \<and> (\<forall>sc. r = Some sc \<longrightarrow> (\<forall>ob. object_at (fl b) (sidecar_key akey) = Some ob \<longrightarrow> dec_sidecar S (obj_bytes ob) = Some sc))))"
    unfolding read_listed_sidecar_def by (rule triple_onResult [OF read]) (auto intro!: triple_ret triple_fail)
  show "triple G P (read_metadata_sha256 sha b akey)
      (both P (\<lambda>r fl. P fl \<and> (\<forall>h. r = Some h \<longrightarrow> (\<forall>ob. object_at (fl b) (metadata_key akey) = Some ob \<longrightarrow> sha256_hex sha (obj_bytes ob) = h))))"
    unfolding read_metadata_sha256_def by (rule triple_onResult [OF read]) (auto intro!: triple_ret triple_fail)
qed

text \<open>The invariant of a run over a listing: the old memo, the detectors of the listing, the memo being filled.\<close>

definition filling :: "('v, 's) rebuild_env \<Rightarrow> bucket_id \<Rightarrow> string \<Rightarrow> listing_ctx \<Rightarrow> package_sidecars \<Rightarrow> fleet \<Rightarrow> bool" where
  "filling E b pkg L fresh fl = (memo_exact E pkg (lc_memo L) (fl b) \<and> issued_in L (fl b) \<and> memo_exact E pkg fresh (fl b))"

lemma lasting_filling: "lasting (filling E b pkg L fresh)"
  unfolding filling_def by (intro lasting_intros lasting_issued)

abbreviation filled :: "('v, 's) rebuild_env \<Rightarrow> bucket_id \<Rightarrow> string \<Rightarrow> listing_ctx \<Rightarrow> ('a \<times> package_sidecars) res \<Rightarrow> fleet \<Rightarrow> bool" where
  "filled E b pkg L \<equiv> both (filling E b pkg L no_sidecars) (\<lambda>(_, fresh). filling E b pkg L fresh)"

lemma filling_weaken: "filling E b pkg L fresh fl \<Longrightarrow> filling E b pkg L no_sidecars fl"
  by (simp add: filling_def memo_exact_empty)

lemma filling_remember:
  "filling E b pkg L fresh fl \<Longrightarrow> detects (fl b) (sidecar_key (artifact_key pkg f)) t (\<lambda>bs. dec_sidecar (rb_sidecars E) bs = Some sc)
    \<Longrightarrow> filling E b pkg L (remember_sidecar f t sc fresh) fl"
  "filling E b pkg L fresh fl \<Longrightarrow> detects (fl b) (metadata_key (artifact_key pkg f)) t (\<lambda>bs. sha256_hex (rb_sha E) bs = h)
    \<Longrightarrow> filling E b pkg L (remember_metadata f t h fresh) fl"
  by (simp_all add: filling_def remember_exact)

lemma filling_known:
  "filling E b pkg L fresh fl \<Longrightarrow> known_under (Some t) (ps_sidecars (lc_memo L)) f = Some sc
    \<Longrightarrow> detects (fl b) (sidecar_key (artifact_key pkg f)) t (\<lambda>bs. dec_sidecar (rb_sidecars E) bs = Some sc)"
  "filling E b pkg L fresh fl \<Longrightarrow> known_under (Some t) (ps_metadata (lc_memo L)) f = Some h
    \<Longrightarrow> detects (fl b) (metadata_key (artifact_key pkg f)) t (\<lambda>bs. sha256_hex (rb_sha E) bs = h)"
  unfolding filling_def by (blast intro: known_exact)+

lemma filling_read:
  "filling E b pkg L fresh fl \<Longrightarrow> lc_sidecar_etags L f = Some t \<or> lc_metadata_etags L f = Some t
    \<Longrightarrow> (\<forall>ob. object_at (fl b) k = Some ob \<longrightarrow> Q (obj_bytes ob)) \<Longrightarrow> detects (fl b) k t Q"
  by (auto simp: filling_def issued_in_def detects_def)

lemma memo_listed_record:
  assumes "fe_key entry = artifact_key pkg f"
  shows "triple G (filling E b pkg L fresh) (listed_record E b L entry f fresh) (filled E b pkg L)"
proof -
  let ?P = "filling E b pkg L fresh" and ?akey = "artifact_key pkg f"
  let ?sc = "\<lambda>r fl. ?P fl \<and> (\<forall>sc. r = Some sc \<longrightarrow> (\<forall>t. lc_sidecar_etags L f = Some t
    \<longrightarrow> detects (fl b) (sidecar_key ?akey) t (\<lambda>bs. dec_sidecar (rb_sidecars E) bs = Some sc)))"
  have read: "triple G ?P (read_listed_sidecar (rb_sidecars E) b ?akey) (both ?P ?sc)"
    by (rule triple_conseq [OF triple_reads(1) [OF lasting_stable [OF lasting_filling]]])
      (auto simp: both_def intro: filling_read split: sum.splits)
  have "triple G ?P (case known_under (lc_sidecar_etags L f) (ps_sidecars (lc_memo L)) f of
      Some sc \<Rightarrow> ret (Some sc) | None \<Rightarrow> read_listed_sidecar (rb_sidecars E) b ?akey) (both ?P ?sc)"
    by (cases "known_under (lc_sidecar_etags L f) (ps_sidecars (lc_memo L)) f") (auto intro!: triple_ret read filling_known(1))
  then show ?thesis
    unfolding listed_record_def Let_def assms
    by (intro triple_if triple_andThen [where E = ?P and R = ?sc] triple_ret)
      (auto intro!: triple_ret filling_remember split: option.splits intro: filling_weaken)
qed

lemma memo_rendered_record:
  assumes "fe_key entry = artifact_key pkg f"
  shows "triple G (filling E b pkg L fresh) (rendered_record E b L entry f r fresh) (filled E b pkg L)"
proof -
  let ?P = "filling E b pkg L fresh" and ?akey = "artifact_key pkg f"
  let ?md = "\<lambda>r fl. ?P fl \<and> (\<forall>h. r = Some h \<longrightarrow> (\<forall>t. lc_metadata_etags L f = Some t
    \<longrightarrow> detects (fl b) (metadata_key ?akey) t (\<lambda>bs. sha256_hex (rb_sha E) bs = h)))"
  have read: "triple G ?P (read_metadata_sha256 (rb_sha E) b ?akey) (both ?P ?md)"
    by (rule triple_conseq [OF triple_reads(2) [OF lasting_stable [OF lasting_filling]]])
      (auto simp: both_def intro: filling_read split: sum.splits)
  have "triple G ?P (if f @ METADATA_SUFFIX \<in> lc_names L
      then (case known_under (lc_metadata_etags L f) (ps_metadata (lc_memo L)) f of Some h \<Rightarrow> ret (Some h) | None \<Rightarrow> read_metadata_sha256 (rb_sha E) b ?akey)
      else ret None) (both ?P ?md)"
    by (cases "known_under (lc_metadata_etags L f) (ps_metadata (lc_memo L)) f") (auto intro!: triple_ret read filling_known(2))
  then have "triple G ?P (andThen (if f @ METADATA_SUFFIX \<in> lc_names L
      then (case known_under (lc_metadata_etags L f) (ps_metadata (lc_memo L)) f of Some h \<Rightarrow> ret (Some h) | None \<Rightarrow> read_metadata_sha256 (rb_sha E) b ?akey)
      else ret None) (\<lambda>h. ret (g h, case (lc_metadata_etags L f, h) of (Some t, Some x) \<Rightarrow> remember_metadata f t x fresh | _ \<Rightarrow> fresh))) (filled E b pkg L)"
    for g :: "string option \<Rightarrow> file_metadata option"
    by (rule triple_andThen) (auto intro!: triple_ret filling_remember split: option.splits intro: filling_weaken)
  then show ?thesis
    unfolding rendered_record_def assms by (auto intro!: triple_ret split: option.splits)
qed

lemma memo_load:
  assumes "fe_key entry = artifact_key pkg f"
  shows "triple G (filling E b pkg L fresh) (load_file_metadata E b L (entry, f) fresh) (filled E b pkg L)"
proof -
  have typed: "triple G (filling E b pkg L fr) (typed_record E b L entry f r) (both (filling E b pkg L fr) (\<lambda>_. filling E b pkg L fr))" for fr r
    unfolding typed_record_def
    by (intro triple_keeps [where b = b and X = "{sidecar_key (fe_key entry)}"] writes_intros writes_backfill lasting_frames lasting_stable lasting_filling)
  have rest: "triple G (filling E b pkg L fr) (andThen (typed_record E b L entry f rec1) (\<lambda>r2. case r2 of None \<Rightarrow> ret (None, fr)
      | Some rec2 \<Rightarrow> rendered_record E b L entry f rec2 fr)) (filled E b pkg L)" for fr rec1
    by (rule triple_andThen [OF typed]) (auto intro!: triple_ret memo_rendered_record [OF assms] split: option.splits intro: filling_weaken)
  show ?thesis
    unfolding load_file_metadata_def Let_def prod.case
    by (rule triple_andThen [OF memo_listed_record [OF assms]]) (auto intro!: triple_ret rest split: option.splits)
qed

definition files_in :: "string \<Rightarrow> (file_entry \<times> string) list \<Rightarrow> bool" where
  "files_in pkg files = (\<forall>(entry, f)\<in>set files. fe_key entry = artifact_key pkg f)"

lemma files_in_simps [simp]:
  "files_in pkg []" "files_in pkg ((entry, f) # files) \<longleftrightarrow> fe_key entry = artifact_key pkg f \<and> files_in pkg files"
  "files_in pkg files \<Longrightarrow> files_in pkg (take n files)" "files_in pkg files \<Longrightarrow> files_in pkg (drop n files)"
  by (auto simp: files_in_def dest: in_set_takeD in_set_dropD)

lemma writes_load:
  assumes "fe_key entry = artifact_key pkg f"
  shows "writes_only b (package_dir pkg) (load_file_metadata E b L (entry, f) fresh)"
proof -
  have "writes_only b (package_dir pkg) (backfill_sidecar E b entry f org)" for org
    using assms by (intro writes_mono [OF writes_backfill]) simp
  then show ?thesis
    unfolding load_file_metadata_def listed_record_def typed_record_def rendered_record_def Let_def prod.case by (intro writes_intros)
qed

lemma writes_load_chunk: "files_in pkg files \<Longrightarrow> writes_only b (package_dir pkg) (load_chunk E b L files fresh)"
proof (induction files arbitrary: fresh)
  case (Cons fl1 files)
  then show ?case
    by (cases fl1) (auto intro!: writes_intros writes_load)
qed (simp add: writes_basic)

lemma writes_load_chunks: "files_in pkg files \<Longrightarrow> writes_only b (package_dir pkg) (load_chunks E b L files fresh)"
proof (induction E b L files fresh rule: load_chunks.induct)
  case (1 E b L files fresh)
  show ?case
    by (subst load_chunks.simps) (use 1 in \<open>auto intro!: writes_intros writes_load_chunk\<close>)
qed

lemma memo_load_chunk: "files_in pkg files \<Longrightarrow> triple G (filling E b pkg L fresh) (load_chunk E b L files fresh) (filled E b pkg L)"
proof (induction files arbitrary: fresh)
  case (Cons fl1 files)
  obtain entry f where fl1: "fl1 = (entry, f)"
    by fastforce
  let ?m = "load_file_metadata E b L (entry, f) fresh"
  have "triple G (filling E b pkg L fresh) ?m (\<lambda>_. filling E b pkg L fresh)"
    using Cons.prems by (intro writes_onlyD [OF writes_load] lasting_frames lasting_stable lasting_filling) (auto simp: fl1)
  then have one: "triple G (filling E b pkg L fresh) ?m (\<lambda>r fl. filled E b pkg L r fl \<and> filling E b pkg L fresh fl)"
    using triple_conj [OF memo_load] Cons.prems by (fastforce simp: fl1)
  have rest: "triple G (filling E b pkg L fr) (andThen (load_chunk E b L files fr) (\<lambda>(r, fr'). ret (g r, fr'))) (filled E b pkg L)"
    for fr and g :: "file_metadata list res \<Rightarrow> file_metadata list res"
    by (rule triple_andThen [OF Cons.IH]) (use Cons.prems in \<open>auto simp: fl1 intro!: triple_ret\<close>)
  show ?case
    unfolding load_chunk.simps fl1
    by (rule triple_onResult [OF one]) (auto intro!: triple_pre [OF rest])
qed (simp add: triple_ret)

lemma memo_load_chunks: "files_in pkg files \<Longrightarrow> triple G (filling E b pkg L fresh) (load_chunks E b L files fresh) (filled E b pkg L)"
proof (induction E b L files fresh rule: load_chunks.induct)
  case (1 E b L files fresh)
  show ?case
  proof (cases "files = []")
    case False
    let ?more = "drop SIDECAR_READ_CONCURRENCY files"
    have more: "triple G (filling E b pkg L fr) (load_chunks E b L ?more fr) (filled E b pkg L)" for fr
      using 1 False by simp
    have after: "triple G (filling E b pkg L fr) (andThen (load_chunks E b L ?more fr) (\<lambda>(rest, fr2). ret (ms @ rest, fr2))) (filled E b pkg L)" for fr ms
      by (rule triple_andThen [OF more]) (auto intro!: triple_ret)
    have step: "triple G (filling E b pkg L fr) (andThen (lift_res r) (\<lambda>ms. andThen (load_chunks E b L ?more fr) (\<lambda>(rest, fr2). ret (ms @ rest, fr2))))
        (filled E b pkg L)" for r fr
      by (rule triple_andThen [OF triple_keeps [OF writes_lift_res [where b = b] lasting_frames [OF lasting_filling] lasting_stable [OF lasting_filling]] after])
        (auto intro: filling_weaken)
    show ?thesis
      using False "1.prems" by (subst load_chunks.simps) (auto intro!: triple_andThen [OF memo_load_chunk] step)
  qed (subst load_chunks.simps, simp add: triple_ret)
qed

text \<open>What a listing shows, and the memo it starts from.\<close>

lemma artifacts_of_iff:
  "(entry, f) \<in> set (artifacts_of prefix entries) \<longleftrightarrow> entry \<in> set entries \<and> fe_key entry = prefix @ f \<and> is_artifact f"
  by (auto simp: artifacts_of_def set_map_filter strip_prefix_Some_iff split: option.splits if_splits)

lemma etags_of_Some: "etags_of prefix suffix entries f = Some t \<Longrightarrow> \<exists>entry\<in>set entries. fe_key entry = prefix @ f @ suffix \<and> fe_etag entry = Some t"
  by (drule map_of_SomeD [OF etags_of_def [THEN fun_cong, THEN sym, THEN trans]])
    (auto simp: set_map_filter bind_eq_Some_conv strip_prefix_Some_iff strip_suffix_Some_iff split: option.splits)

lemma files_in_artifacts: "files_in pkg (artifacts_of (PACKAGES_PREFIX @ pkg @ ''/'') entries)"
  by (auto simp: files_in_def artifacts_of_iff artifact_key_def)

lemma lc_memo_listing [simp]: "lc_memo (listing_of prefix claim entries bf memo) = memo"
  by (simp add: listing_of_def)

lemma issued_listing:
  assumes "\<forall>entry\<in>set entries. \<forall>t. fe_etag entry = Some t \<longrightarrow> tag_issued s t"
  shows "issued_in (listing_of prefix claim entries bf memo) s"
  using assms etags_of_Some unfolding issued_in_def listing_of_def by fastforce

lemma entries_issued: "store_wf s \<Longrightarrow> entry \<in> set (entries_at s dir) \<Longrightarrow> fe_etag entry = Some t \<Longrightarrow> tag_issued s t"
  by (auto simp: entries_at_iff store_wf_def tag_issued_def listed_etag_def)

lemma triple_list_package:
  assumes "lasting K"
  shows "triple G K (list_package E b pkg authoring)
    (both K (\<lambda>(_, entries) fl. K fl \<and> (\<forall>entry\<in>set entries. \<forall>t. fe_etag entry = Some t \<longrightarrow> tag_issued (fl b) t)))"
proof -
  let ?dir = "PACKAGES_PREFIX @ pkg @ ''/''"
  let ?ok = "\<lambda>entries fl. \<forall>entry\<in>set entries. \<forall>t. fe_etag entry = Some t \<longrightarrow> tag_issued (fl b) t"
  let ?R = "\<lambda>entries fl. K fl \<and> ?ok entries fl"
  have st: "stable G K" "frames b X K" for X
    using assms by (auto intro: lasting_stable lasting_frames)
  have listing: "triple G K (list_dir_entries b ?dir) (both K ?R)"
    by (rule triple_conseq [OF triple_entries [OF st(1)]]) (auto simp: both_def fleet_wf_def intro: entries_issued split: sum.splits)
  have finish: "triple G K (andThen (finish_interrupted_supersedes (rb_sha E) (rb_sidecars E) (rb_now E) grace b pkg marked) (\<lambda>_. list_dir_entries b ?dir)) (both K ?R)"
    if "\<forall>e\<in>set marked. superseding_in pkg e" for grace marked
    by (rule triple_frame_andThen [OF writes_finish [OF that] st(2,1) listing]) simp
  show ?thesis
    unfolding list_package_def Let_def
  proof (rule triple_frame_andThen [OF writes_read_claim st(2,1) triple_andThen [OF listing]])
    fix claim and entries :: "file_entry list"
    let ?marked = "filter (\<lambda>entry. case Option.bind (strip_prefix (fe_key entry) ?dir) (\<lambda>name. strip_suffix name SUPERSEDING_SUFFIX) of
                      None \<Rightarrow> False | Some name \<Rightarrow> is_artifact name) entries"
    have "\<forall>e\<in>set ?marked. superseding_in pkg e"
      by (auto simp: superseding_in_def artifact_key_def bind_eq_Some_conv strip_prefix_Some_iff strip_suffix_Some_iff split: option.splits)
    note fin = finish [OF this]
    have "triple G (?R entries) (case authoring of None \<Rightarrow> ret entries | Some grace \<Rightarrow>
        if ?marked = [] then ret entries
        else andThen (finish_interrupted_supersedes (rb_sha E) (rb_sidecars E) (rb_now E) grace b pkg ?marked) (\<lambda>_. list_dir_entries b ?dir)) (both K ?R)"
      by (cases authoring) (auto intro!: triple_ret triple_pre [OF fin])
    then show "triple G (?R entries) (andThen (case authoring of None \<Rightarrow> ret entries | Some grace \<Rightarrow>
        if ?marked = [] then ret entries
        else andThen (finish_interrupted_supersedes (rb_sha E) (rb_sidecars E) (rb_now E) grace b pkg ?marked) (\<lambda>_. list_dir_entries b ?dir))
        (\<lambda>entries'. ret (Option.bind claim narrow, entries')))
      (both K (\<lambda>(_, entries) fl. ?R entries fl))"
      by (rule triple_andThen) (auto intro!: triple_ret)
  qed simp_all
qed

lemma cache_exact_take:
  "cache_exact E c fl \<Longrightarrow> take_memo b pkg c = (m, c') \<Longrightarrow> memo_exact E pkg m (fl b) \<and> cache_exact E c' fl"
  by (auto simp: cache_exact_def take_memo_def memo_exact_empty delete_conv' split: option.splits if_splits)

lemma cache_exact_put: "cache_exact E c fl \<Longrightarrow> memo_exact E pkg m (fl b) \<Longrightarrow> cache_exact E (put_memo b pkg m c) fl"
  unfolding cache_exact_def using put_memo_packages by fastforce

text \<open>The state of the cache around a listing: bounded and exact.\<close>

definition cache_sound :: "('v, 's) rebuild_env \<Rightarrow> sidecar_cache \<Rightarrow> fleet \<Rightarrow> bool" where
  "cache_sound E c fl = (cache_wf c \<and> cache_exact E c fl)"

lemma cache_exact_empty: "cache_exact E empty_cache fl"
  by (simp add: cache_exact_def empty_cache_def)

lemma lasting_sound: "lasting (cache_sound E c)"
  unfolding cache_sound_def by (intro lasting_intros)

lemma memo_list_artifacts:
  "triple G (cache_sound E c) (list_artifacts_for_claim E b pkg authoring c) (both (cache_sound E c) (\<lambda>(c', _). cache_sound E c'))"
proof -
  let ?dir = "PACKAGES_PREFIX @ pkg @ ''/''"
  obtain memo c1 where took: "take_memo b pkg c = (memo, c1)"
    by fastforce
  have wf: "cache_wf c1" if "cache_wf c"
    using take_memo_wf [OF that took] by simp
  have load: "triple G (\<lambda>fl. cache_sound E c fl \<and> (\<forall>entry\<in>set entries. \<forall>t. fe_etag entry = Some t \<longrightarrow> tag_issued (fl b) t))
      (onResult (load_chunks E b (listing_of ?dir claim entries bf memo) (artifacts_of ?dir entries) no_sidecars)
        (\<lambda>e. ret (c1, Inl e)) (\<lambda>(metadata, fresh). ret (put_memo b pkg fresh c1, Inr (metadata, raw))))
      (both (cache_sound E c) (\<lambda>(c', _). cache_sound E c'))" for claim entries bf and raw :: "(string \<times> nat) list"
  proof (rule triple_onResult)
    let ?L = "listing_of ?dir claim entries bf memo"
    have "triple G (filling E b pkg ?L no_sidecars) (load_chunks E b ?L (artifacts_of ?dir entries) no_sidecars) (filled E b pkg ?L)"
      by (rule memo_load_chunks [OF files_in_artifacts])
    moreover have "triple G (cache_sound E c1) (load_chunks E b ?L (artifacts_of ?dir entries) no_sidecars) (\<lambda>_. cache_sound E c1)"
      by (intro writes_onlyD [OF writes_load_chunks [OF files_in_artifacts]] lasting_frames lasting_stable lasting_sound)
    ultimately have "triple G (\<lambda>fl. filling E b pkg ?L no_sidecars fl \<and> cache_sound E c1 fl) (load_chunks E b ?L (artifacts_of ?dir entries) no_sidecars)
        (\<lambda>r fl. filled E b pkg ?L r fl \<and> cache_sound E c1 fl)"
      by (rule triple_conj)
    then show "triple G (\<lambda>fl. cache_sound E c fl \<and> (\<forall>entry\<in>set entries. \<forall>t. fe_etag entry = Some t \<longrightarrow> tag_issued (fl b) t))
        (load_chunks E b ?L (artifacts_of ?dir entries) no_sidecars) (\<lambda>r fl. filled E b pkg ?L r fl \<and> cache_sound E c1 fl)"
      by (rule triple_pre) (use cache_exact_take [OF _ took] wf in
        \<open>auto simp: filling_def cache_sound_def memo_exact_empty issued_listing\<close>)
  qed (auto intro!: triple_ret cache_exact_put put_memo_wf simp: cache_sound_def filling_def)
  show ?thesis
    unfolding list_artifacts_for_claim_def Let_def took prod.case
    by (rule triple_onResult [OF triple_list_package [OF lasting_sound]]) (auto intro!: triple_ret triple_pre [OF load] split: prod.splits)
qed

section \<open>Properties\<close>

text \<open>
  C23: the work of a pass over the markers is exactly this, in the order of the package names: each package
  with a marker all of whose intents are paired or older than the grace period, with all its markers in
  the order of the listing and the number of its unpaired intents. One fresh unpaired intent withholds
  the package.
\<close>

theorem consumable_work_exact:
  "consumable_dirty_work entries now_s grace =
     map (\<lambda>pkg. \<lparr>dw_package = pkg, dw_keys = map mk_key (markers_of entries pkg), stale_intents = orphans (markers_of entries pkg)\<rparr>)
       (filter (\<lambda>pkg. ready now_s grace (markers_of entries pkg)) (sorted_list_of_set (fst ` set (List.map_filter parse_marker entries))))"
  by (rule consumable_work_eq)

text \<open>
  C22: the memo of parsed sidecars stays exact and within its budget across every listing of a package,
  whatever other processes write between the listing and the reads, whichever calls fail or crash: an
  object that a later listing shows under the change detector of an entry has the bytes the entry was
  parsed from.
\<close>

theorem sidecar_memo_stays_exact:
  assumes "obeys G w" and "cache_wf c" and "cache_exact E c (buckets w)"
    and "list_artifacts_for_claim E b pkg authoring c w = (Inr (c', r), w')"
  shows "cache_wf c' \<and> cache_exact E c' (buckets w')"
  using tripleD [OF memo_list_artifacts assms(1) _ assms(4)] assms(2,3) by (simp add: cache_sound_def)

section \<open>Witnesses\<close>

text \<open>A codec for sidecars: each field after its length in unary.\<close>

definition put_fields :: "string list \<Rightarrow> bytes" where
  "put_fields fs = concat (map (\<lambda>f. replicate (length f) (CHR ''1'') @ ''0'' @ f) fs)"

fun get_fields :: "nat \<Rightarrow> bytes \<Rightarrow> string list" where
  "get_fields 0 bs = []"
| "get_fields (Suc n) bs =
     (let k = length (takeWhile (\<lambda>c. c = CHR ''1'') bs); rest = drop (k + 1) bs in take k rest # get_fields n (drop k rest))"

lemma get_put_fields: "get_fields (length fs) (put_fields fs @ x) = fs"
proof (induction fs)
  case (Cons f fs)
  have "takeWhile (\<lambda>c. c = CHR ''1'') (replicate n (CHR ''1'') @ CHR ''0'' # y) = replicate n (CHR ''1'')" for n y
    by (induction n) simp_all
  then show ?case
    using Cons by (simp add: put_fields_def Let_def)
qed (simp add: put_fields_def)

definition put_opt :: "string option \<Rightarrow> string" where
  "put_opt x = (case x of None \<Rightarrow> [] | Some s \<Rightarrow> CHR ''s'' # s)"

definition get_opt :: "string \<Rightarrow> string option" where
  "get_opt s = (case s of [] \<Rightarrow> None | _ # t \<Rightarrow> Some t)"

definition put_num :: "u64 \<Rightarrow> string" where
  "put_num n = replicate (unat n) (CHR ''1'')"

definition get_num :: "string \<Rightarrow> u64" where
  "get_num s = of_nat (length s)"

definition put_yanked :: "yanked \<Rightarrow> string" where
  "put_yanked y = (case y of Flag c \<Rightarrow> if c then ''t'' else ''f'' | Reason r \<Rightarrow> CHR ''r'' # r)"

definition get_yanked :: "string \<Rightarrow> yanked" where
  "get_yanked s = (if s = ''t'' then Flag True else if s = ''f'' then Flag False else Reason (tl s))"

definition get_checksum :: "string \<Rightarrow> store_checksum" where
  "get_checksum s = \<lparr>algo = get_fields 2 s ! 0, checksum_value = get_fields 2 s ! 1\<rparr>"

lemma field_codecs [simp]:
  "get_opt (put_opt x) = x" "get_num (put_num n) = n" "get_yanked (put_yanked y) = y"
  "get_checksum (put_fields [algo c, checksum_value c]) = c"
  using get_put_fields [of "[algo c, checksum_value c]" "[]"]
  by (simp_all add: get_opt_def put_opt_def get_num_def put_num_def get_yanked_def put_yanked_def get_checksum_def numeral_2_eq_2
      split: option.splits list.splits yanked.splits)

definition field_enc :: "sidecar \<Rightarrow> bytes" where
  "field_enc sc =
     put_fields [sha256 sc, put_num (size sc), version sc, upload_time sc, put_opt (map_option put_num (upload_epoch_ms sc)),
       put_opt (requires_python sc), put_yanked (yanked sc), put_opt (origin sc), put_num (yank_epoch sc), put_num (upload_time_revision sc),
       if snapshot sc then ''t'' else [], put_opt (map_option (\<lambda>c. put_fields [algo c, checksum_value c]) (store_checksum sc))]"

fun field_dec :: "bytes \<Rightarrow> sidecar option" where
  "field_dec [] = None"
| "field_dec (x # bs) =
     (case get_fields 12 (x # bs) of
        [a, b, c, d, e, f, g, h, i, j, k, l] \<Rightarrow>
          Some \<lparr>sha256 = a, size = get_num b, version = c, upload_time = d, upload_epoch_ms = map_option get_num (get_opt e),
            requires_python = get_opt f, yanked = get_yanked g, origin = get_opt h, yank_epoch = get_num i, upload_time_revision = get_num j,
            snapshot = (k = ''t''), store_checksum = map_option get_checksum (get_opt l)\<rparr>
      | _ \<Rightarrow> None)"

definition field_codec :: sidecar_codec where
  "field_codec = \<lparr>enc_sidecar = field_enc, dec_sidecar = field_dec\<rparr>"

lemma field_codec_roundtrip: "dec_sidecar field_codec (enc_sidecar field_codec sc) = Some sc"
proof -
  have "get_fields 12 (put_fields [a, b, c, d, e, f, g, h, i, j, k, l]) = [a, b, c, d, e, f, g, h, i, j, k, l]" for a b c d e f g h i j k l
    using get_put_fields [of "[a, b, c, d, e, f, g, h, i, j, k, l]" "[]"] by (simp add: numeral_eq_Suc del: get_fields.simps)
  moreover have "put_fields (f # fs) \<noteq> []" for f fs
    by (simp add: put_fields_def)
  then have "field_enc sc \<noteq> []"
    unfolding field_enc_def by blast
  then have "field_dec (field_enc sc) = (case get_fields 12 (field_enc sc) of
        [a, b, c, d, e, f, g, h, i, j, k, l] \<Rightarrow>
          Some \<lparr>sha256 = a, size = get_num b, version = c, upload_time = d, upload_epoch_ms = map_option get_num (get_opt e),
            requires_python = get_opt f, yanked = get_yanked g, origin = get_opt h, yank_epoch = get_num i, upload_time_revision = get_num j,
            snapshot = (k = ''t''), store_checksum = map_option get_checksum (get_opt l)\<rparr>
      | _ \<Rightarrow> None)"
    by (cases "field_enc sc") (simp_all only: field_dec.simps)
  ultimately show ?thesis
    by (simp add: field_codec_def field_enc_def option.map_comp comp_def option.map_ident)
qed

definition quiet_env :: "(string, string) rebuild_env" where
  "quiet_env =
     \<lparr>rb_index = unary_env, rb_claims = plain_codec, rb_sidecars = field_codec, rb_statuses = plain_status_codec, rb_pep440 = pin_api,
      rb_denylist = None, rb_malicious = None, rb_doc = (\<lambda>_. Some ''doc''), rb_listed_time = (\<lambda>_. []), rb_multi = True, rb_now = 0, rb_grace = 60\<rparr>"

text \<open>A bucket with one file and its sidecar, which a peer rewrites between the listing and the read.\<close>

definition listed_sidecar :: "string \<Rightarrow> bytes" where
  "listed_sidecar h = field_enc \<lparr>sha256 = h, size = 4, version = ''1'', upload_time = [], upload_epoch_ms = None, requires_python = None,
     yanked = Flag False, origin = Some ''private'', yank_epoch = 0, upload_time_revision = 0, snapshot = False, store_checksum = None\<rparr>"

definition put_sidecar :: "string \<Rightarrow> inner \<Rightarrow> inner" where
  "put_sidecar h s = snd (store (\<lambda>bs. bs) ''packages/six/six-1.whl.meta.json'' (listed_sidecar h) s)"

definition held_bucket :: inner where
  "held_bucket = put_sidecar ''aa'' (snd (store (\<lambda>bs. bs) ''packages/six/six-1.whl'' ''body'' (inner_default 0)))"

definition rewriting :: world where
  "rewriting = (quiet (\<lambda>_. held_bucket))\<lparr>script := [Answered id, Answered id, Answered (\<lambda>fl. fl(0 := put_sidecar ''bb'' (fl 0)))]\<rparr>"

lemma rewriting_listed:
  "case fst (list_artifacts_readonly quiet_env 0 ''six'' empty_cache rewriting) of
     Inr (c', Inr ([f], _)) \<Rightarrow> fm_sha256 f = ''bb'' \<and> sc_packages c' \<noteq> [] | _ \<Rightarrow> False"
  by code_simp

theorem sidecar_memo_stays_exact_witness:
  "\<exists>c' r w'. list_artifacts_readonly quiet_env 0 ''six'' empty_cache rewriting = (Inr (c', Inr r), w')
     \<and> sc_packages c' \<noteq> [] \<and> cache_wf c' \<and> cache_exact quiet_env c' (buckets w')"
proof -
  obtain x w' where run: "list_artifacts_readonly quiet_env 0 ''six'' empty_cache rewriting = (x, w')"
    by fastforce
  then obtain c' r where x: "x = Inr (c', Inr r)" "sc_packages c' \<noteq> []"
    using rewriting_listed by (cases x) (auto split: sum.splits list.splits)
  have "store_wf held_bucket"
    by (simp add: held_bucket_def put_sidecar_def store_wf_store store_wf_default)
  then have "obeys (\<lambda>_ _. True) rewriting"
    by (auto simp: obeys_def rewriting_def quiet_def put_sidecar_def fleet_wf_def fleet_evolves_def store_wf_store store_evolves evolves_same_objects)
  then show ?thesis
    using sidecar_memo_stays_exact [of _ rewriting empty_cache quiet_env 0 "''six''" None c' "Inr r" w'] run x
      empty_cache_wf by (auto simp: list_artifacts_readonly_def cache_exact_empty)
qed

section \<open>A race the retraction leaves open\<close>

text \<open>
  The body is replaced while its sidecar is being backfilled, so the fabricated sidecar is retracted; the
  publisher of the new body stores its own sidecar after the comparison and before the delete, and the
  delete removes it.
\<close>

definition raced :: world where
  "raced = (quiet (\<lambda>_. snd (store (\<lambda>bs. bs) ''packages/six/six-1.whl'' ''body'' (inner_default 0))))\<lparr>script :=
     [Answered id, Answered id, Answered (\<lambda>fl. fl(0 := snd (store (\<lambda>bs. bs) ''packages/six/six-1.whl'' ''real'' (fl 0)))), Answered id,
      Answered (\<lambda>fl. fl(0 := put_sidecar ''bb'' (fl 0)))]\<rparr>"

lemma retraction_race:
  "let (r, w') = backfill_sidecar quiet_env 0 \<lparr>fe_key = ''packages/six/six-1.whl'', fe_size = 4, fe_last_modified = None, fe_etag = None\<rparr> ''six-1.whl'' None raced
   in r = Inr None \<and> contains_key (buckets w' 0) ''packages/six/six-1.whl'' \<and> \<not> contains_key (buckets w' 0) ''packages/six/six-1.whl.meta.json''"
  by code_simp

end
