(* ===== verification/Rebuild_Safety.thy ===== *)
theory Rebuild_Safety
  imports Rebuild_Memo
begin

text \<open>
  What the index rebuild guarantees: a rebuild that succeeds leaves pages that show what is stored, and a
  drain consumes an event only when that is so and the global index agrees.
\<close>

section \<open>What a package should show\<close>

text \<open>
  The reference: the objects of a package's directory, as a map, decide what its pages show. A file is
  shown when its record is listed and its sidecar can be read.
\<close>

type_synonym objs = "string \<Rightarrow> obj option"

definition truth_of :: "string \<Rightarrow> inner \<Rightarrow> objs" where
  "truth_of pkg s = (\<lambda>k. if k \<in> package_dir pkg then object_at s k else None)"

definition origin_in :: "('v, 's) rebuild_env \<Rightarrow> string \<Rightarrow> objs \<Rightarrow> origin_state option" where
  "origin_in E pkg T =
     Option.bind (T (origin_key pkg)) (\<lambda>ob. case decode_claim (rb_claims E) (obj_bytes ob) of Inl _ \<Rightarrow> None | Inr st \<Rightarrow> Some st)"

definition claim_in :: "('v, 's) rebuild_env \<Rightarrow> string \<Rightarrow> objs \<Rightarrow> record_origin option" where
  "claim_in E pkg T = Option.bind (origin_in E pkg T) narrow"

definition status_in :: "('v, 's) rebuild_env \<Rightarrow> string \<Rightarrow> objs \<Rightarrow> project_status_doc option" where
  "status_in E pkg T =
     (case T (status_key pkg) of
        None \<Rightarrow> Some default_status_doc
      | Some ob \<Rightarrow> map_option st_doc (dec_status (rb_statuses E) (obj_bytes ob)))"

definition record_of_truth :: "('v, 's) rebuild_env \<Rightarrow> string \<Rightarrow> objs \<Rightarrow> string \<Rightarrow> file_record" where
  "record_of_truth E pkg T f =
     (let akey = artifact_key pkg f
      in from_listing (\<lambda>suffix. T (akey @ suffix) \<noteq> None)
           (Option.bind (T (sidecar_key akey)) (\<lambda>ob. dec_sidecar (rb_sidecars E) (obj_bytes ob))) (claim_in E pkg T))"

definition file_view :: "('v, 's) rebuild_env \<Rightarrow> string \<Rightarrow> objs \<Rightarrow> string \<Rightarrow> file_metadata option" where
  "file_view E pkg T f =
     (let akey = artifact_key pkg f; r = record_of_truth E pkg T f
      in if listed r (claim_in E pkg T)
         then map_option (\<lambda>sc. from_sidecar f sc (map_option (\<lambda>ob. sha256_hex (rb_sha E) (obj_bytes ob)) (T (metadata_key akey)))
                (T (provenance_key akey) \<noteq> None)) (rc_sidecar r)
         else None)"

definition stored_files :: "string \<Rightarrow> objs \<Rightarrow> string list" where
  "stored_files pkg T = sorted_list_of_set {f. is_artifact f \<and> CHR ''/'' \<notin> set f \<and> T (artifact_key pkg f) \<noteq> None}"

definition shown_files :: "('v, 's) rebuild_env \<Rightarrow> string \<Rightarrow> string option \<Rightarrow> objs \<Rightarrow> file_metadata list" where
  "shown_files E pkg omit T = filter (renderable E pkg omit) (List.map_filter (file_view E pkg T) (stored_files pkg T))"

text \<open>A malware scrub may apply to a mirror package; when its claim cannot be read the scrub is skipped.\<close>

definition scrubs :: "('v, 's) rebuild_env \<Rightarrow> string \<Rightarrow> objs \<Rightarrow> file_metadata list \<Rightarrow> file_metadata list set" where
  "scrubs E pkg T files =
     insert files (if origin_in E pkg T = Some Mirror
       then {filter (\<lambda>f. \<not> is_blocked E bad pkg f) files |bad. rb_malicious E = Some bad} else {})"

definition pages_show :: "('v, 's) rebuild_env \<Rightarrow> string \<Rightarrow> string option \<Rightarrow> inner \<Rightarrow> bool" where
  "pages_show E pkg omit s =
     (let T = truth_of pkg s; files = shown_files E pkg omit T in
      if files = [] then \<forall>k\<in>set (page_keys pkg). object_at s k = None
      else \<exists>doc fs. status_in E pkg T = Some doc \<and> fs \<in> scrubs E pkg T files
             \<and> (\<forall>(k, bs)\<in>set (render_views E pkg fs doc). map_option obj_bytes (object_at s k) = Some bs))"

lemma in_dir_keys [simp]:
  "artifact_key pkg f \<in> package_dir pkg" "provenance_key (artifact_key pkg f) \<in> package_dir pkg"
  "origin_key pkg \<in> package_dir pkg" "status_key pkg \<in> package_dir pkg"
  by (simp_all add: key_defs package_dir_def artifact_key_def origin_key_def status_key_def starts_with_iff)

text \<open>The keys of one file and of another never meet: a companion names its artifact.\<close>

lemma artifact_no_suffix:
  assumes "is_artifact f"
  shows "f \<noteq> g @ SIDECAR_SUFFIX" "f \<noteq> g @ METADATA_SUFFIX" "f \<noteq> g @ PROVENANCE_SUFFIX"
  using assms by (auto simp: is_artifact_def ends_with_iff)

lemma suffixes_differ:
  "g @ SIDECAR_SUFFIX \<noteq> f @ METADATA_SUFFIX" "g @ SIDECAR_SUFFIX \<noteq> f @ PROVENANCE_SUFFIX" "g @ SIDECAR_SUFFIX \<noteq> f @ TOMBSTONE_SUFFIX"
  "g @ SIDECAR_SUFFIX \<noteq> f @ FROZEN_SUFFIX" "g @ SIDECAR_SUFFIX \<noteq> f @ MIRROR_QUARANTINED_SUFFIX" "g @ SIDECAR_SUFFIX \<noteq> f @ SUPERSEDING_SUFFIX"
  by (auto dest!: arg_cong [where f = rev] simp: suffix_defs)

lemma sidecar_key_apart:
  assumes "is_artifact f"
  shows "sidecar_key (artifact_key pkg g) \<noteq> artifact_key pkg f"
    "suffix \<in> {METADATA_SUFFIX, PROVENANCE_SUFFIX, TOMBSTONE_SUFFIX, FROZEN_SUFFIX, MIRROR_QUARANTINED_SUFFIX, SUPERSEDING_SUFFIX}
      \<Longrightarrow> sidecar_key (artifact_key pkg g) \<noteq> artifact_key pkg f @ suffix"
    "sidecar_key (artifact_key pkg g) = sidecar_key (artifact_key pkg f) \<longleftrightarrow> g = f"
    "sidecar_key (artifact_key pkg g) \<noteq> origin_key pkg" "sidecar_key (artifact_key pkg g) \<noteq> status_key pkg"
  using artifact_no_suffix [OF assms, of g] suffixes_differ [of g f]
  by (auto simp: key_defs artifact_key_def origin_key_def status_key_def) (auto simp: SIDECAR_SUFFIX_def dest!: arg_cong [where f = rev])

text \<open>A write of other files' sidecars does not change what a file shows.\<close>

definition extends :: "string \<Rightarrow> string set \<Rightarrow> objs \<Rightarrow> objs \<Rightarrow> bool" where
  "extends pkg fs T T' = (\<forall>k. k \<notin> (\<lambda>f. sidecar_key (artifact_key pkg f)) ` fs \<longrightarrow> T' k = T k)"

lemma extends_refl [simp]: "extends pkg fs T T"
  by (simp add: extends_def)

lemma extends_trans: "extends pkg fs T T' \<Longrightarrow> extends pkg gs T' T'' \<Longrightarrow> extends pkg (fs \<union> gs) T T''"
  by (simp add: extends_def image_Un)

lemma extends_upd: "f \<in> fs \<Longrightarrow> extends pkg fs T (T(sidecar_key (artifact_key pkg f) := x))"
  by (auto simp: extends_def)

lemma extends_keys:
  assumes "extends pkg fs T T'"
  shows "T' (origin_key pkg) = T (origin_key pkg)" "T' (status_key pkg) = T (status_key pkg)"
    "is_artifact f \<Longrightarrow> T' (artifact_key pkg f) = T (artifact_key pkg f)"
    "is_artifact f \<Longrightarrow> suffix \<in> {METADATA_SUFFIX, PROVENANCE_SUFFIX, TOMBSTONE_SUFFIX, FROZEN_SUFFIX, MIRROR_QUARANTINED_SUFFIX, SUPERSEDING_SUFFIX}
      \<Longrightarrow> T' (artifact_key pkg f @ suffix) = T (artifact_key pkg f @ suffix)"
    "is_artifact f \<Longrightarrow> f \<notin> fs \<Longrightarrow> T' (artifact_key pkg f @ SIDECAR_SUFFIX) = T (artifact_key pkg f @ SIDECAR_SUFFIX)"
proof -
  have off: "T' k = T k" if "\<And>g. sidecar_key (artifact_key pkg g) = k \<Longrightarrow> g \<notin> fs" for k
  proof -
    have "k \<notin> (\<lambda>f. sidecar_key (artifact_key pkg f)) ` fs"
      using that by auto
    then show ?thesis
      using assms by (simp add: extends_def)
  qed
  have a: "is_artifact ''a''"
    by (simp add: is_artifact_def suffix_defs ends_with_def)
  show "T' (origin_key pkg) = T (origin_key pkg)" "T' (status_key pkg) = T (status_key pkg)"
    using sidecar_key_apart(4,5) [OF a] by (blast intro: off)+
  show "T' (artifact_key pkg f) = T (artifact_key pkg f)" if "is_artifact f"
    using sidecar_key_apart(1) [OF that] by (blast intro: off)
  show "T' (artifact_key pkg f @ suffix) = T (artifact_key pkg f @ suffix)" if "is_artifact f"
    "suffix \<in> {METADATA_SUFFIX, PROVENANCE_SUFFIX, TOMBSTONE_SUFFIX, FROZEN_SUFFIX, MIRROR_QUARANTINED_SUFFIX, SUPERSEDING_SUFFIX}"
    using sidecar_key_apart(2) [OF that] by (blast intro: off)
  show "T' (artifact_key pkg f @ SIDECAR_SUFFIX) = T (artifact_key pkg f @ SIDECAR_SUFFIX)" if "is_artifact f" "f \<notin> fs"
    using sidecar_key_apart(3) [OF that(1)] that(2) by (intro off) (auto simp: key_defs)
qed

lemma extends_claim: "extends pkg fs T T' \<Longrightarrow> claim_in E pkg T' = claim_in E pkg T"
  by (simp add: claim_in_def origin_in_def extends_keys(1))

lemma extends_stored: "extends pkg fs T T' \<Longrightarrow> stored_files pkg T' = stored_files pkg T"
  unfolding stored_files_def by (rule arg_cong [where f = sorted_list_of_set]) (auto simp: extends_keys(3))

lemma extends_view:
  assumes "extends pkg fs T T'" and "is_artifact f" and "f \<notin> fs"
  shows "file_view E pkg T' f = file_view E pkg T f"
  using extends_keys [OF assms(1)] assms(2,3)
  by (simp add: file_view_def record_of_truth_def from_listing_def Let_def extends_claim [OF assms(1)] key_defs)

section \<open>Reading a package that nobody else writes\<close>

definition spares_package :: "bucket_id \<Rightarrow> string \<Rightarrow> (fleet \<Rightarrow> fleet \<Rightarrow> bool) \<Rightarrow> bool" where
  "spares_package b pkg G = (\<forall>fl fl'. G fl fl' \<longrightarrow> (\<forall>k\<in>package_dir pkg \<union> set (page_keys pkg). object_at (fl' b) k = object_at (fl b) k))"

lemma spares_truth: "spares_package b pkg G \<Longrightarrow> G fl fl' \<Longrightarrow> truth_of pkg (fl' b) = truth_of pkg (fl b)"
  by (auto simp: spares_package_def truth_of_def)

lemma truth_at: "k \<in> package_dir pkg \<Longrightarrow> truth_of pkg s k = object_at s k"
  by (simp add: truth_of_def)

text \<open>The assertion of a run: the directory is \<open>T\<close>, and the memo in use is exact.\<close>

definition holds_truth :: "('v, 's) rebuild_env \<Rightarrow> bucket_id \<Rightarrow> string \<Rightarrow> package_sidecars \<Rightarrow> objs \<Rightarrow> fleet \<Rightarrow> bool" where
  "holds_truth E b pkg m T fl = (truth_of pkg (fl b) = T \<and> memo_exact E pkg m (fl b))"

lemma stable_truth: "spares_package b pkg G \<Longrightarrow> stable G (holds_truth E b pkg m T)"
  using spares_truth memo_exact_evolves by (fastforce simp: stable_def holds_truth_def fleet_evolves_def)

lemma triple_get_truth:
  assumes "spares_package b pkg G" and "k \<in> package_dir pkg"
  shows "triple G (holds_truth E b pkg m T) (get_bytes b k)
    (\<lambda>r fl. holds_truth E b pkg m T fl \<and> (case r of Inl e \<Rightarrow> is_not_found e \<longrightarrow> T k = None | Inr bs \<Rightarrow> \<exists>ob. T k = Some ob \<and> bs = obj_bytes ob))"
  by (rule triple_get_bytes [OF stable_truth [OF assms(1)]])
    (use truth_at [OF assms(2)] in \<open>auto simp: holds_truth_def is_not_found_def contains_key_def\<close>)

lemma triple_stream_truth:
  assumes "spares_package b pkg G" and "k \<in> package_dir pkg"
  shows "triple G (holds_truth E b pkg m T) (stream_sha256 sha b k)
    (\<lambda>r fl. holds_truth E b pkg m T fl \<and> (case r of Inl e \<Rightarrow> is_not_found e \<longrightarrow> T k = None
       | Inr (h, n) \<Rightarrow> \<exists>ob. T k = Some ob \<and> h = sha256_hex sha (obj_bytes ob) \<and> n = length (obj_bytes ob)))"
proof -
  have "triple G (holds_truth E b pkg m T) (onResult (get_bytes b k) (\<lambda>e. fail e) (\<lambda>bs. ret (sha256_hex sha bs, length bs)))
    (\<lambda>r fl. holds_truth E b pkg m T fl \<and> (case r of Inl e \<Rightarrow> is_not_found e \<longrightarrow> T k = None
       | Inr (h, n) \<Rightarrow> \<exists>ob. T k = Some ob \<and> h = sha256_hex sha (obj_bytes ob) \<and> n = length (obj_bytes ob)))"
    by (rule triple_onResult [OF triple_get_truth [OF assms]]) (auto intro!: triple_ret triple_fail)
  moreover have "onResult (get_bytes b k) (\<lambda>e. fail e) (\<lambda>bs. ret (sha256_hex sha bs, length bs)) = stream_sha256 sha b k"
    by (rule ext) (simp add: stream_sha256_def onResult_def andThen_def fail_def split: prod.splits sum.splits)
  ultimately show ?thesis
    by simp
qed

text \<open>A listing fits what is stored for one of its files.\<close>

definition record_suffixes :: "string set" where
  "record_suffixes = {METADATA_SUFFIX, PROVENANCE_SUFFIX, TOMBSTONE_SUFFIX, FROZEN_SUFFIX, MIRROR_QUARANTINED_SUFFIX, SUPERSEDING_SUFFIX}"

definition fits :: "('v, 's) rebuild_env \<Rightarrow> string \<Rightarrow> listing_ctx \<Rightarrow> objs \<Rightarrow> file_entry \<Rightarrow> string \<Rightarrow> bool" where
  "fits E pkg L T entry f =
     (is_artifact f \<and> fe_key entry = artifact_key pkg f \<and> lc_claim L = claim_in E pkg T \<and> lc_backfill L
      \<and> (\<exists>ob. T (artifact_key pkg f) = Some ob \<and> fe_size entry = length (obj_bytes ob)) \<and> f \<in> lc_names L
      \<and> (\<forall>suffix\<in>insert SIDECAR_SUFFIX record_suffixes. f @ suffix \<in> lc_names L \<longleftrightarrow> T (artifact_key pkg f @ suffix) \<noteq> None)
      \<and> (\<forall>t. lc_sidecar_etags L f = Some t \<longrightarrow> (\<exists>ob. T (sidecar_key (artifact_key pkg f)) = Some ob \<and> listed_etag ob = t))
      \<and> (\<forall>t. lc_metadata_etags L f = Some t \<longrightarrow> (\<exists>ob. T (metadata_key (artifact_key pkg f)) = Some ob \<and> listed_etag ob = t)))"

lemma extends_fits:
  assumes "extends pkg fs T T'" and "f \<notin> fs" and "fits E pkg L T entry f"
  shows "fits E pkg L T' entry f"
proof -
  have "is_artifact f"
    using assms(3) by (simp add: fits_def)
  then show ?thesis
    using assms(2,3) extends_keys [OF assms(1)] by (simp add: fits_def record_suffixes_def extends_claim [OF assms(1)] key_defs)
qed

abbreviation sidecar_in :: "('v, 's) rebuild_env \<Rightarrow> string \<Rightarrow> objs \<Rightarrow> string \<Rightarrow> sidecar option" where
  "sidecar_in E pkg T f \<equiv> Option.bind (T (sidecar_key (artifact_key pkg f))) (\<lambda>ob. dec_sidecar (rb_sidecars E) (obj_bytes ob))"

lemma fits_record:
  assumes "fits E pkg L T entry f" and "extends pkg {f} T T'"
  shows "record_in L f (sidecar_in E pkg T' f) = record_of_truth E pkg T' f"
proof -
  have "is_artifact f"
    using assms(1) by (simp add: fits_def)
  then have "T' (artifact_key pkg f) = T (artifact_key pkg f)"
    "\<And>suffix. suffix \<in> record_suffixes \<Longrightarrow> T' (artifact_key pkg f @ suffix) = T (artifact_key pkg f @ suffix)"
    using extends_keys(3,4) [OF assms(2)] by (simp_all add: record_suffixes_def)
  moreover obtain ob where "T (artifact_key pkg f) = Some ob"
    using assms(1) by (auto simp: fits_def)
  ultimately show ?thesis
    using assms(1) unfolding record_in_def record_of_truth_def from_listing_def Let_def extends_claim [OF assms(2)]
    by (simp add: fits_def record_suffixes_def)
qed

lemma rc_sidecar_record [simp]: "rc_sidecar (record_in L f sc) = sc" "rc_sidecar (record_of_truth E pkg T f) = sidecar_in E pkg T f"
  by (simp_all add: record_in_def record_of_truth_def from_listing_def Let_def)

text \<open>A record with neither a readable sidecar nor a fence is not shown.\<close>

lemma bare_not_listed: "rc_sidecar r = None \<Longrightarrow> \<not> listed r claim"
  by (auto simp: listed_def classify_record_def Let_def split: option.splits)

lemma fenced_not_listed: "fenced_by_markers (tombstoned r) (frozen r) \<Longrightarrow> \<not> listed r claim"
  by (auto simp: listed_def classify_record_def fenced_by_markers_def Let_def)

lemma backfill_shows:
  assumes "spares_package b pkg G" and "fits E pkg L T entry f" and "T (sidecar_key (artifact_key pkg f)) = None"
    and "\<And>sc. dec_sidecar (rb_sidecars E) (enc_sidecar (rb_sidecars E) sc) = Some sc"
  shows "triple G (holds_truth E b pkg m T) (backfill_sidecar E b entry f org)
    (both (\<lambda>_. True) (\<lambda>r fl. \<exists>ob. holds_truth E b pkg m (T(sidecar_key (artifact_key pkg f) := Some ob)) fl
       \<and> r \<noteq> None \<and> dec_sidecar (rb_sidecars E) (obj_bytes ob) = r))"
proof -
  let ?akey = "artifact_key pkg f" and ?sk = "sidecar_key (artifact_key pkg f)"
  obtain body where body: "T ?akey = Some body" "fe_size entry = length (obj_bytes body)" and key: "fe_key entry = ?akey" and art: "is_artifact f"
    using assms(2) by (auto simp: fits_def)
  let ?sc = "fabricated_sidecar E entry f org (sha256_hex (rb_sha E) (obj_bytes body))"
  let ?bs = "enc_sidecar (rb_sidecars E) ?sc"
  let ?new = "\<lambda>fl. \<exists>ob. holds_truth E b pkg m (T(?sk := Some ob)) fl \<and> obj_bytes ob = ?bs"
  have new_stable: "stable G ?new"
    using stable_truth [OF assms(1)] unfolding stable_def by blast
  have created: "triple G (holds_truth E b pkg m T) (put_if_absent (rb_sha E) b ?sk ?bs) (both (\<lambda>_. True) (\<lambda>created fl. created \<and> ?new fl))"
  proof (rule triple_put_if_absent [OF stable_truth [OF assms(1)]])
    fix fl and r :: "bool res"
    assume fl: "holds_truth E b pkg m T fl" and r: "r = Inr True \<or> unanswered r"
    let ?s = "snd (store (rb_sha E) ?sk ?bs (fl b))"
    obtain ob where ob: "object_at ?s ?sk = Some ob" "obj_bytes ob = ?bs"
      by (simp add: object_at_store)
    have "truth_of pkg ?s = T(?sk := Some ob)"
    proof -
      have T: "T = truth_of pkg (fl b)"
        using fl by (simp add: holds_truth_def)
      show ?thesis
        using ob(1) unfolding T by (intro ext) (simp add: truth_of_def object_at_store)
    qed
    moreover have "memo_exact E pkg m ?s"
      using fl by (auto simp: holds_truth_def intro: memo_exact_evolves [OF _ store_evolves])
    ultimately have "?new (fl(b := ?s))"
      using ob by (auto simp: holds_truth_def)
    then show "both (\<lambda>_. True) (\<lambda>created fl. created \<and> ?new fl) r (fl(b := ?s))"
      using r by (cases r) auto
  next
    fix fl and r :: "bool res"
    assume "holds_truth E b pkg m T fl" "contains_key (fl b) ?sk"
    then show "both (\<lambda>_. True) (\<lambda>created fl. created \<and> ?new fl) r (fl(b := create_lost (rb_sha E) ?sk (fl b)))"
      using assms(3) truth_at [of ?sk pkg "fl b"] by (auto simp: holds_truth_def contains_key_def)
  qed simp
  have again: "triple G ?new (stream_sha256 (rb_sha E) b ?akey) (\<lambda>r fl. ?new fl \<and> (case r of Inl e \<Rightarrow> \<not> is_not_found e
      | Inr (h, _) \<Rightarrow> h = sha256_hex (rb_sha E) (obj_bytes body)))"
  proof (rule triple_ex)
    fix ob
    have "(T(?sk := Some ob)) ?akey = Some body"
      using body sidecar_key_apart(1) [OF art, of pkg f] by auto
    then have "triple G (holds_truth E b pkg m (T(?sk := Some ob))) (stream_sha256 (rb_sha E) b ?akey)
        (\<lambda>r fl. holds_truth E b pkg m (T(?sk := Some ob)) fl \<and> (case r of Inl e \<Rightarrow> \<not> is_not_found e | Inr (h, _) \<Rightarrow> h = sha256_hex (rb_sha E) (obj_bytes body)))"
      by (intro triple_conseq [OF triple_stream_truth [OF assms(1), where k = ?akey]]) (auto split: sum.splits)
    then show "triple G (\<lambda>fl. holds_truth E b pkg m (T(?sk := Some ob)) fl \<and> obj_bytes ob = ?bs) (stream_sha256 (rb_sha E) b ?akey)
      (\<lambda>r fl. ?new fl \<and> (case r of Inl e \<Rightarrow> \<not> is_not_found e | Inr (h, _) \<Rightarrow> h = sha256_hex (rb_sha E) (obj_bytes body)))"
      unfolding triple_def by blast
  qed
  have confirm: "triple G ?new (onResult (stream_sha256 (rb_sha E) b ?akey) (\<lambda>e. if is_not_found e then ret False else fail e)
      (\<lambda>(later, _). ret (later = sha256 ?sc))) (both (\<lambda>_. True) (\<lambda>confirmed fl. confirmed \<and> ?new fl))"
    by (rule triple_onResult [OF again]) (auto intro!: triple_ret triple_fail simp: fabricated_sidecar_def)
  have recovered: "\<exists>ob. holds_truth E b pkg m (T(?sk := Some ob)) fl \<and> dec_sidecar (rb_sidecars E) (obj_bytes ob) = Some ?sc" if "?new fl" for fl
    using that assms(4) by metis
  have rest: "triple G (\<lambda>fl. confirmed \<and> ?new fl) (if confirmed then ret (Some ?sc) else m') (both (\<lambda>_. True)
      (\<lambda>r fl. \<exists>ob. holds_truth E b pkg m (T(?sk := Some ob)) fl \<and> r \<noteq> None \<and> dec_sidecar (rb_sidecars E) (obj_bytes ob) = r))" for confirmed m'
    by (cases confirmed) (auto intro!: triple_ret recovered simp: triple_false)
  have made: "triple G (\<lambda>fl. created \<and> ?new fl) (if \<not> created then m1 else andThen (onResult (stream_sha256 (rb_sha E) b ?akey)
      (\<lambda>e. if is_not_found e then ret False else fail e) (\<lambda>(later, _). ret (later = sha256 ?sc))) (\<lambda>confirmed. if confirmed then ret (Some ?sc) else m2))
      (both (\<lambda>_. True) (\<lambda>r fl. \<exists>ob. holds_truth E b pkg m (T(?sk := Some ob)) fl \<and> r \<noteq> None \<and> dec_sidecar (rb_sidecars E) (obj_bytes ob) = r))"
    for created m1 m2
  proof (cases created)
    case True
    show ?thesis
      by (simp only: True simp_thms if_True if_False not_True_eq_False) (rule triple_andThen [OF confirm rest], simp)
  qed (simp add: triple_false)
  have first: "triple G (holds_truth E b pkg m T) (stream_sha256 (rb_sha E) b ?akey) (\<lambda>r fl. holds_truth E b pkg m T fl
      \<and> (case r of Inl e \<Rightarrow> \<not> is_not_found e | Inr x \<Rightarrow> x = (sha256_hex (rb_sha E) (obj_bytes body), fe_size entry)))"
    by (rule triple_conseq [OF triple_stream_truth [OF assms(1), where k = ?akey]]) (auto simp: body split: sum.splits)
  show ?thesis
    unfolding backfill_sidecar_def Let_def key
  proof (rule triple_onResult [OF first], goal_cases)
    case (1 x)
    show ?case
    proof (cases "x = (sha256_hex (rb_sha E) (obj_bytes body), fe_size entry)")
      case True
      show ?thesis
        unfolding True sum.case prod.case
        by (simp only: simp_thms not_True_eq_False if_False) (rule triple_andThen [OF created], rule made, simp)
    qed (simp add: triple_false)
  next
    case (2 e)
    then show ?case
      by (cases "is_not_found e") (auto intro!: triple_fail simp: triple_false)
  qed
qed

lemma markers_record: "tombstoned (record_in L f sc) = tombstoned (record_in L f None)" "frozen (record_in L f sc) = frozen (record_in L f None)"
  by (simp_all add: record_in_def from_listing_def Let_def)

text \<open>What the first two stages of a file settle: the record is that of the stored objects, or it is not shown.\<close>

definition settles :: "('v, 's) rebuild_env \<Rightarrow> string \<Rightarrow> listing_ctx \<Rightarrow> objs \<Rightarrow> string \<Rightarrow> sidecar option \<Rightarrow> bool" where
  "settles E pkg L T f sc = (sc = sidecar_in E pkg T f \<or> sc = None \<and> file_view E pkg T f = None)"

lemma no_view:
  assumes "fits E pkg L T entry f"
  shows "sidecar_in E pkg T f = None \<Longrightarrow> file_view E pkg T f = None"
    "fenced_by_markers (tombstoned (record_in L f None)) (frozen (record_in L f None)) \<Longrightarrow> file_view E pkg T f = None"
  using bare_not_listed [of "record_of_truth E pkg T f"] fenced_not_listed [of "record_of_truth E pkg T f"]
    fits_record [OF assms extends_refl] markers_record [of L f "sidecar_in E pkg T f"] by (simp_all add: file_view_def Let_def)

lemma known_in_truth:
  assumes "holds_truth E b pkg (lc_memo L) T fl" and "fits E pkg L T entry f"
  shows "known_under (lc_sidecar_etags L f) (ps_sidecars (lc_memo L)) f = Some sc \<Longrightarrow> sidecar_in E pkg T f = Some sc"
    "known_under (lc_metadata_etags L f) (ps_metadata (lc_memo L)) f = Some h
      \<Longrightarrow> map_option (\<lambda>ob. sha256_hex (rb_sha E) (obj_bytes ob)) (T (metadata_key (artifact_key pkg f))) = Some h"
proof -
  have T: "T k = object_at (fl b) k" if "k \<in> package_dir pkg" for k
    using assms(1) truth_at [OF that, of "fl b"] by (simp add: holds_truth_def)
  have m: "memo_exact E pkg (lc_memo L) (fl b)"
    using assms(1) by (simp add: holds_truth_def)
  show "sidecar_in E pkg T f = Some sc" if known: "known_under (lc_sidecar_etags L f) (ps_sidecars (lc_memo L)) f = Some sc"
  proof -
    obtain t where t: "lc_sidecar_etags L f = Some t"
      using known by (cases "lc_sidecar_etags L f") simp_all
    then obtain ob where "T (sidecar_key (artifact_key pkg f)) = Some ob" "listed_etag ob = t"
      using assms(2) by (auto simp: fits_def)
    then show ?thesis
      using known_exact(1) [OF m, of t f sc] known t T by (simp add: detects_def)
  qed
  show "map_option (\<lambda>ob. sha256_hex (rb_sha E) (obj_bytes ob)) (T (metadata_key (artifact_key pkg f))) = Some h"
    if known: "known_under (lc_metadata_etags L f) (ps_metadata (lc_memo L)) f = Some h"
  proof -
    obtain t where t: "lc_metadata_etags L f = Some t"
      using known by (cases "lc_metadata_etags L f") simp_all
    then obtain ob where "T (metadata_key (artifact_key pkg f)) = Some ob" "listed_etag ob = t"
      using assms(2) by (auto simp: fits_def)
    then show ?thesis
      using known_exact(2) [OF m, of t f h] known t T by (simp add: detects_def)
  qed
qed

lemma listed_record_truth:
  assumes "spares_package b pkg G" and fits: "fits E pkg L T entry f"
  shows "triple G (holds_truth E b pkg (lc_memo L) T) (listed_record E b L entry f fresh) (both (\<lambda>_. True) (\<lambda>(r, _) fl.
    holds_truth E b pkg (lc_memo L) T fl \<and> (case r of None \<Rightarrow> file_view E pkg T f = None
      | Some rec \<Rightarrow> \<exists>sc. rec = record_in L f sc \<and> settles E pkg L T f sc \<and> (classify_record rec = Bare \<longrightarrow> T (sidecar_key (artifact_key pkg f)) = None))))"
proof -
  let ?P = "holds_truth E b pkg (lc_memo L) T" and ?akey = "artifact_key pkg f"
  have key: "fe_key entry = ?akey"
    using fits by (simp add: fits_def)
  have named: "f @ SIDECAR_SUFFIX \<in> lc_names L \<longleftrightarrow> T (sidecar_key ?akey) \<noteq> None"
    using fits by (simp add: fits_def key_defs)
  have read: "triple G ?P (read_listed_sidecar (rb_sidecars E) b ?akey) (both (\<lambda>_. True) (\<lambda>r fl. ?P fl \<and> sidecar_in E pkg T f = r))"
    unfolding read_listed_sidecar_def
    by (rule triple_onResult [OF triple_get_truth [OF assms(1)]]) (auto intro!: triple_ret triple_fail)
  have known: "triple G ?P (case known_under (lc_sidecar_etags L f) (ps_sidecars (lc_memo L)) f of Some sc \<Rightarrow> ret (Some sc)
      | None \<Rightarrow> read_listed_sidecar (rb_sidecars E) b ?akey) (both (\<lambda>_. True) (\<lambda>r fl. ?P fl \<and> sidecar_in E pkg T f = r))"
    by (cases "known_under (lc_sidecar_etags L f) (ps_sidecars (lc_memo L)) f") (auto intro!: triple_ret read simp: known_in_truth(1) [OF _ fits])
  have bare: "classify_record (record_in L f (Some sc)) \<noteq> Bare" for sc
    by (auto simp: classify_record_def Let_def split: option.splits)
  have fenced: "classify_record rec0 \<noteq> Bare" if "fenced_by_markers (tombstoned rec0) (frozen rec0)" for rec0
    using that by (auto simp: classify_record_def fenced_by_markers_def Let_def)
  show ?thesis
    unfolding listed_record_def Let_def key
    by (intro triple_if triple_andThen [OF known] triple_ret)
      (use named no_view [OF fits] bare fenced in \<open>auto intro!: triple_ret intro: exI [of _ "Some _"] exI [of _ None] simp: settles_def split: option.splits\<close>)
qed

lemma typed_record_truth:
  assumes "spares_package b pkg G" and fits: "fits E pkg L T entry f" and "settles E pkg L T f sc"
    and bare: "classify_record (record_in L f sc) = Bare \<longrightarrow> T (sidecar_key (artifact_key pkg f)) = None"
    and codec: "\<And>sc. dec_sidecar (rb_sidecars E) (enc_sidecar (rb_sidecars E) sc) = Some sc"
  shows "triple G (holds_truth E b pkg (lc_memo L) T) (typed_record E b L entry f (record_in L f sc)) (both (\<lambda>_. True) (\<lambda>r fl.
    \<exists>x sc'. holds_truth E b pkg (lc_memo L) (T(sidecar_key (artifact_key pkg f) := x)) fl \<and> r = Some (record_in L f sc')
      \<and> settles E pkg L (T(sidecar_key (artifact_key pkg f) := x)) f sc'))"
proof (cases "classify_record (record_in L f sc) = Bare")
  case True
  have backfills: "lc_backfill L"
    using fits by (simp add: fits_def)
  show ?thesis
    unfolding typed_record_def
    by (simp only: True backfills simp_thms if_True)
      (rule triple_andThen [OF backfill_shows [OF assms(1) fits bare [rule_format, OF True] codec]],
        auto intro!: triple_ret simp: settles_def, force)
next
  case False
  then show ?thesis
    unfolding typed_record_def using assms(3)
    by (simp only: False simp_thms if_False) (intro triple_ret, auto intro!: exI [of _ "T (sidecar_key (artifact_key pkg f))"])
qed

lemma rendered_record_truth:
  assumes "spares_package b pkg G" and fits: "fits E pkg L T entry f" and ext: "extends pkg {f} T T'" and "settles E pkg L T' f sc"
  shows "triple G (holds_truth E b pkg (lc_memo L) T') (rendered_record E b L entry f (record_in L f sc) fresh) (both (\<lambda>_. True)
    (\<lambda>(r, _) fl. holds_truth E b pkg (lc_memo L) T' fl \<and> r = file_view E pkg T' f))"
proof (cases sc)
  case None
  then have "file_view E pkg T' f = None"
    using assms(4) bare_not_listed [of "record_of_truth E pkg T' f" "claim_in E pkg T'"] by (auto simp: settles_def file_view_def Let_def)
  then show ?thesis
    using None by (auto simp: rendered_record_def intro!: triple_ret)
next
  case (Some x)
  let ?P = "holds_truth E b pkg (lc_memo L) T'" and ?akey = "artifact_key pkg f"
  let ?h = "map_option (\<lambda>ob. sha256_hex (rb_sha E) (obj_bytes ob)) (T' (metadata_key ?akey))"
  have art: "is_artifact f" and key: "fe_key entry = ?akey" and claim: "lc_claim L = claim_in E pkg T'"
    using fits extends_claim [OF ext, of E] by (auto simp: fits_def)
  have same: "T' (metadata_key ?akey) = T (metadata_key ?akey)" "T' (provenance_key ?akey) = T (provenance_key ?akey)"
    using extends_keys(4) [OF ext art] by (simp_all add: key_defs)
  have names: "f @ METADATA_SUFFIX \<in> lc_names L \<longleftrightarrow> T' (metadata_key ?akey) \<noteq> None" "f @ PROVENANCE_SUFFIX \<in> lc_names L \<longleftrightarrow> T' (provenance_key ?akey) \<noteq> None"
    using fits unfolding same by (simp_all add: fits_def key_defs record_suffixes_def)
  have sc: "sc = sidecar_in E pkg T' f"
    using assms(4) Some by (simp add: settles_def)
  then have rec: "record_in L f sc = record_of_truth E pkg T' f"
    using fits_record [OF fits ext] by simp
  have read: "triple G ?P (read_metadata_sha256 (rb_sha E) b ?akey) (both (\<lambda>_. True) (\<lambda>r fl. ?P fl \<and> r = ?h))"
    unfolding read_metadata_sha256_def
    by (rule triple_onResult [OF triple_get_truth [OF assms(1)]]) (auto intro!: triple_ret triple_fail)
  have known: "?h = Some h" if memo: "known_under (lc_metadata_etags L f) (ps_metadata (lc_memo L)) f = Some h" and P: "?P fl" for h fl
  proof -
    obtain t where t: "lc_metadata_etags L f = Some t"
      using memo by (cases "lc_metadata_etags L f") simp_all
    then obtain ob where "T' (metadata_key ?akey) = Some ob" "listed_etag ob = t"
      using fits same by (auto simp: fits_def)
    moreover have "T' (metadata_key ?akey) = object_at (fl b) (metadata_key ?akey)" "memo_exact E pkg (lc_memo L) (fl b)"
      using P truth_at [of "metadata_key ?akey" pkg "fl b"] by (simp_all add: holds_truth_def)
    ultimately show ?thesis
      using known_exact(2) [of E pkg "lc_memo L" "fl b" t f h] memo t by (simp add: detects_def)
  qed
  let ?md = "if f @ METADATA_SUFFIX \<in> lc_names L
      then (case known_under (lc_metadata_etags L f) (ps_metadata (lc_memo L)) f of Some h \<Rightarrow> ret (Some h) | None \<Rightarrow> read_metadata_sha256 (rb_sha E) b ?akey)
      else ret None"
  let ?view = "\<lambda>h. from_sidecar f x h (f @ PROVENANCE_SUFFIX \<in> lc_names L)"
  have md: "triple G ?P ?md (both (\<lambda>_. True) (\<lambda>r fl. ?P fl \<and> r = ?h))"
    by (cases "known_under (lc_metadata_etags L f) (ps_metadata (lc_memo L)) f") (use names known in \<open>auto intro!: triple_ret read\<close>)
  have view: "file_view E pkg T' f = (if listed (record_in L f sc) (lc_claim L) then Some (?view ?h) else None)"
    using sc [symmetric] unfolding Some by (simp add: file_view_def rec [unfolded Some] claim names Let_def)
  have shown: "triple G ?P (andThen ?md (\<lambda>h. ret (Some (?view h), g h))) (both (\<lambda>_. True) (\<lambda>(r, _) fl. ?P fl \<and> r = Some (?view ?h)))"
    for g :: "string option \<Rightarrow> package_sidecars"
    by (rule triple_andThen [OF md]) (auto intro!: triple_ret)
  show ?thesis
  proof (cases "listed (record_in L f sc) (lc_claim L)")
    case True
    show ?thesis
      unfolding view rendered_record_def key rc_sidecar_record
      by (simp only: True [unfolded Some] Some if_True simp_thms not_True_eq_False if_False option.case) (rule shown)
  next
    case False
    then show ?thesis
      by (auto simp: view rendered_record_def intro!: triple_ret)
  qed
qed

lemma load_truth:
  assumes "spares_package b pkg G" and fits: "fits E pkg L T entry f"
    and codec: "\<And>sc. dec_sidecar (rb_sidecars E) (enc_sidecar (rb_sidecars E) sc) = Some sc"
  shows "triple G (holds_truth E b pkg (lc_memo L) T) (load_file_metadata E b L (entry, f) fresh) (both (\<lambda>_. True)
    (\<lambda>(r, _) fl. \<exists>T'. extends pkg {f} T T' \<and> holds_truth E b pkg (lc_memo L) T' fl \<and> r = file_view E pkg T' f))"
    (is "triple G ?P _ ?Q")
proof -
  let ?sk = "sidecar_key (artifact_key pkg f)"
  have ext: "extends pkg {f} T (T(?sk := x))" for x
    by (rule extends_upd) simp
  have render: "triple G (\<lambda>fl. \<exists>x sc. holds_truth E b pkg (lc_memo L) (T(?sk := x)) fl \<and> r2 = Some (record_in L f sc) \<and> settles E pkg L (T(?sk := x)) f sc)
      (case r2 of None \<Rightarrow> ret (None, fresh1) | Some rec2 \<Rightarrow> rendered_record E b L entry f rec2 fresh1) ?Q" for r2 fresh1
  proof (intro triple_ex)
    fix x sc
    show "triple G (\<lambda>fl. holds_truth E b pkg (lc_memo L) (T(?sk := x)) fl \<and> r2 = Some (record_in L f sc) \<and> settles E pkg L (T(?sk := x)) f sc)
      (case r2 of None \<Rightarrow> ret (None, fresh1) | Some rec2 \<Rightarrow> rendered_record E b L entry f rec2 fresh1) ?Q"
    proof (cases "r2 = Some (record_in L f sc) \<and> settles E pkg L (T(?sk := x)) f sc")
      case True
      then show ?thesis
        using ext by (auto intro!: triple_conseq [OF rendered_record_truth [OF assms(1) fits ext]] exI [of _ "T(?sk := x)"] simp: both_def split: sum.splits)
    qed (auto simp: triple_false)
  qed
  have typed: "triple G (\<lambda>fl. ?P fl \<and> (\<exists>sc. rec1 = record_in L f sc \<and> settles E pkg L T f sc
        \<and> (classify_record rec1 = Bare \<longrightarrow> T ?sk = None)))
      (andThen (typed_record E b L entry f rec1) (\<lambda>r2. case r2 of None \<Rightarrow> ret (None, fresh1) | Some rec2 \<Rightarrow> rendered_record E b L entry f rec2 fresh1)) ?Q"
    for rec1 fresh1
  proof (cases "\<exists>sc. rec1 = record_in L f sc \<and> settles E pkg L T f sc \<and> (classify_record rec1 = Bare \<longrightarrow> T ?sk = None)")
    case True
    then obtain sc where sc: "rec1 = record_in L f sc" "settles E pkg L T f sc" "classify_record (record_in L f sc) = Bare \<longrightarrow> T ?sk = None"
      by blast
    show ?thesis
      unfolding sc(1)
      by (rule triple_pre [OF triple_andThen [OF typed_record_truth [OF assms(1) fits sc(2,3) codec] render]]) simp_all
  next
    case False
    show ?thesis
      by (rule triple_pre [OF triple_false]) (use False in blast)
  qed
  show ?thesis
    unfolding load_file_metadata_def Let_def prod.case
    by (rule triple_andThen [OF listed_record_truth [OF assms(1) fits]])
      (auto intro!: triple_ret exI [of _ T] triple_pre [OF typed] split: option.splits)
qed

text \<open>A run over files: each is shown as the objects at the end of the run say.\<close>

definition fit_all :: "('v, 's) rebuild_env \<Rightarrow> string \<Rightarrow> listing_ctx \<Rightarrow> objs \<Rightarrow> (file_entry \<times> string) list \<Rightarrow> bool" where
  "fit_all E pkg L T files = (distinct (map snd files) \<and> (\<forall>(entry, f)\<in>set files. fits E pkg L T entry f))"

definition run_shows ::
  "('v, 's) rebuild_env \<Rightarrow> bucket_id \<Rightarrow> string \<Rightarrow> listing_ctx \<Rightarrow> objs \<Rightarrow> (file_entry \<times> string) list \<Rightarrow> file_metadata list \<Rightarrow> fleet \<Rightarrow> bool" where
  "run_shows E b pkg L T files ms fl = (\<exists>T'. extends pkg (snd ` set files) T T' \<and> holds_truth E b pkg (lc_memo L) T' fl
     \<and> ms = List.map_filter (file_view E pkg T') (map snd files))"

lemma fit_all_files: "fit_all E pkg L T files \<Longrightarrow> files_in pkg files"
  by (auto simp: fit_all_def files_in_def fits_def)

lemma fit_all_extends:
  assumes "fit_all E pkg L T files" and "extends pkg fs T T'" and "fs \<inter> snd ` set files = {}"
  shows "fit_all E pkg L T' files"
  using assms extends_fits [OF assms(2)] by (fastforce simp: fit_all_def)

lemma map_filter_cong: "(\<And>x. x \<in> set xs \<Longrightarrow> f x = g x) \<Longrightarrow> List.map_filter f xs = List.map_filter g xs"
  by (induction xs) (auto simp: List.map_filter_simps split: option.splits)

lemma extends_views:
  assumes "extends pkg fs T T'" and "fit_all E pkg L T0 files" and "fs \<inter> snd ` set files = {}"
  shows "List.map_filter (file_view E pkg T') (map snd files) = List.map_filter (file_view E pkg T) (map snd files)"
proof (rule map_filter_cong)
  fix f
  assume f: "f \<in> set (map snd files)"
  then obtain entry where "(entry, f) \<in> set files"
    by auto
  then have "is_artifact f"
    using assms(2) by (auto simp: fit_all_def fits_def)
  moreover have "f \<notin> fs"
    using f assms(3) by auto
  ultimately show "file_view E pkg T' f = file_view E pkg T f"
    by (rule extends_view [OF assms(1)])
qed

lemma chunk_truth:
  assumes "spares_package b pkg G" and codec: "\<And>sc. dec_sidecar (rb_sidecars E) (enc_sidecar (rb_sidecars E) sc) = Some sc"
  shows "fit_all E pkg L T files \<Longrightarrow> triple G (holds_truth E b pkg (lc_memo L) T) (load_chunk E b L files fresh)
    (both (\<lambda>_. True) (\<lambda>(r, _) fl. \<forall>ms. r = Inr ms \<longrightarrow> run_shows E b pkg L T files ms fl))"
proof (induction files arbitrary: T fresh)
  case Nil
  then show ?case
    by (auto intro!: triple_ret exI [of _ T] simp: run_shows_def List.map_filter_simps)
next
  case (Cons x files)
  obtain entry f where x: "x = (entry, f)"
    by fastforce
  have fits: "fits E pkg L T entry f" and all: "fit_all E pkg L T files" and new: "f \<notin> snd ` set files"
    using Cons.prems by (auto simp: x fit_all_def)
  let ?Q = "both (\<lambda>_. True) (\<lambda>(r, _ :: package_sidecars) fl. \<forall>ms. r = Inr ms \<longrightarrow> run_shows E b pkg L T (x # files) ms fl)"
  have err: "triple G (\<lambda>_. True) (andThen (load_chunk E b L files fresh) (\<lambda>(_, fresh'). ret (Inl e, fresh'))) ?Q" for e
    by (rule triple_andThen [OF triple_conseq [OF triple_trivial [OF writes_load_chunk [OF fit_all_files [OF all]]]]])
      (auto intro!: triple_ret simp: both_def split: sum.splits)
  have ok: "triple G (\<lambda>fl. \<exists>T1. extends pkg {f} T T1 \<and> holds_truth E b pkg (lc_memo L) T1 fl \<and> loaded = file_view E pkg T1 f)
      (andThen (load_chunk E b L files fresh1) (\<lambda>(r, fresh'). ret (case r of Inl e \<Rightarrow> Inl e
         | Inr ms \<Rightarrow> Inr ((case loaded of None \<Rightarrow> [] | Some m \<Rightarrow> [m]) @ ms), fresh'))) ?Q" for loaded fresh1
  proof (rule triple_ex)
    fix T1
    show "triple G (\<lambda>fl. extends pkg {f} T T1 \<and> holds_truth E b pkg (lc_memo L) T1 fl \<and> loaded = file_view E pkg T1 f)
      (andThen (load_chunk E b L files fresh1) (\<lambda>(r, fresh'). ret (case r of Inl e \<Rightarrow> Inl e
         | Inr ms \<Rightarrow> Inr ((case loaded of None \<Rightarrow> [] | Some m \<Rightarrow> [m]) @ ms), fresh'))) ?Q"
    proof (cases "extends pkg {f} T T1 \<and> loaded = file_view E pkg T1 f")
      case True
      have joined: "run_shows E b pkg L T (x # files) ((case loaded of None \<Rightarrow> [] | Some m \<Rightarrow> [m]) @ ms) fl"
        if run: "run_shows E b pkg L T1 files ms fl" for ms fl
      proof -
        obtain T' where T': "extends pkg (snd ` set files) T1 T'" "holds_truth E b pkg (lc_memo L) T' fl"
          "ms = List.map_filter (file_view E pkg T') (map snd files)"
          using run by (auto simp: run_shows_def)
        have "file_view E pkg T' f = loaded"
          using extends_view [OF T'(1) _ new, of E] fits True by (simp add: fits_def)
        moreover have "extends pkg (snd ` set (x # files)) T T'"
          using extends_trans [of pkg "{f}" T T1 "snd ` set files" T'] True T'(1) by (simp add: x)
        ultimately show ?thesis
          using T'(2,3) by (auto simp: run_shows_def x List.map_filter_simps split: option.splits)
      qed
      have rest: "triple G (holds_truth E b pkg (lc_memo L) T1) (load_chunk E b L files fresh1)
          (both (\<lambda>_. True) (\<lambda>(r, _) fl. \<forall>ms. r = Inr ms \<longrightarrow> run_shows E b pkg L T1 files ms fl))"
        using True new by (intro Cons.IH fit_all_extends [OF all]) auto
      show ?thesis
        by (rule triple_pre [OF triple_andThen [OF rest]]) (auto intro!: triple_ret joined split: sum.splits)
    qed (auto simp: triple_false)
  qed
  show ?case
    unfolding load_chunk.simps x
    by (rule triple_onResult [OF load_truth [OF assms(1) fits codec]]) (auto intro!: triple_pre [OF ok [unfolded x]] triple_pre [OF err [unfolded x]])
qed

lemma chunks_truth:
  assumes "spares_package b pkg G" and codec: "\<And>sc. dec_sidecar (rb_sidecars E) (enc_sidecar (rb_sidecars E) sc) = Some sc"
  shows "fit_all E pkg L T files \<Longrightarrow> triple G (holds_truth E b pkg (lc_memo L) T) (load_chunks E b L files fresh)
    (both (\<lambda>_. True) (\<lambda>(ms, _) fl. run_shows E b pkg L T files ms fl))"
  using assms
proof (induction E b L files fresh arbitrary: T rule: load_chunks.induct)
  case (1 E b L files fresh)
  show ?case
  proof (cases "files = []")
    case True
    then show ?thesis
      by (subst load_chunks.simps) (auto intro!: triple_ret exI [of _ T] simp: run_shows_def List.map_filter_simps)
  next
    case False
    define hd_files tl_files where parts: "hd_files = take SIDECAR_READ_CONCURRENCY files" "tl_files = drop SIDECAR_READ_CONCURRENCY files"
    have files: "files = hd_files @ tl_files"
      by (simp add: parts)
    have fit: "fit_all E pkg L T hd_files" "fit_all E pkg L T tl_files" and apart: "snd ` set hd_files \<inter> snd ` set tl_files = {}"
      using "1.prems"(1) by (auto simp: files fit_all_def)
    let ?Q = "both (\<lambda>_. True) (\<lambda>(ms, _ :: package_sidecars) fl. run_shows E b pkg L T files ms fl)"
    have rest: "triple G (run_shows E b pkg L T hd_files ms) (andThen (load_chunks E b L tl_files fr) (\<lambda>(ms', fr2). ret (ms @ ms', fr2))) ?Q" for ms fr
      unfolding run_shows_def [of E b pkg L T hd_files]
    proof (rule triple_ex)
      fix T1
      show "triple G (\<lambda>fl. extends pkg (snd ` set hd_files) T T1 \<and> holds_truth E b pkg (lc_memo L) T1 fl
          \<and> ms = List.map_filter (file_view E pkg T1) (map snd hd_files))
        (andThen (load_chunks E b L tl_files fr) (\<lambda>(ms', fr2). ret (ms @ ms', fr2))) ?Q"
      proof (cases "extends pkg (snd ` set hd_files) T T1 \<and> ms = List.map_filter (file_view E pkg T1) (map snd hd_files)")
        case True
        have joined: "run_shows E b pkg L T files (ms @ ms') fl" if run: "run_shows E b pkg L T1 tl_files ms' fl" for ms' fl
        proof -
          obtain T' where T': "extends pkg (snd ` set tl_files) T1 T'" "holds_truth E b pkg (lc_memo L) T' fl"
            "ms' = List.map_filter (file_view E pkg T') (map snd tl_files)"
            using run by (auto simp: run_shows_def)
          have "List.map_filter (file_view E pkg T') (map snd hd_files) = ms"
            using extends_views [OF T'(1) fit(1)] apart True by (simp add: Int_commute)
          moreover have "extends pkg (snd ` set files) T T'"
            using extends_trans [OF conjunct1 [OF True] T'(1)] by (simp add: files image_Un)
          ultimately show ?thesis
            using T'(2,3) unfolding run_shows_def files by (auto simp: map_filter_append)
        qed
        have "fit_all E pkg L T1 tl_files"
          using fit_all_extends [OF fit(2)] True apart by blast
        then have later: "triple G (holds_truth E b pkg (lc_memo L) T1) (load_chunks E b L tl_files fr)
            (both (\<lambda>_. True) (\<lambda>(ms', _) fl. run_shows E b pkg L T1 tl_files ms' fl))"
          using "1.IH" [OF False] "1.prems"(2,3) by (simp add: parts)
        show ?thesis
          by (rule triple_pre [OF triple_andThen [OF later]]) (auto intro!: triple_ret joined)
      qed (auto simp: triple_false)
    qed
    have step: "triple G (\<lambda>fl. \<forall>ms. r = Inr ms \<longrightarrow> run_shows E b pkg L T hd_files ms fl)
        (andThen (lift_res r) (\<lambda>ms. andThen (load_chunks E b L tl_files fr) (\<lambda>(ms', fr2). ret (ms @ ms', fr2)))) ?Q" for r fr
    proof (cases r)
      case (Inl e)
      have "andThen (lift_res r) k = fail e" for k :: "file_metadata list \<Rightarrow> (file_metadata list \<times> package_sidecars) act"
        by (rule ext) (simp add: Inl lift_res_def andThen_def fail_def)
      then show ?thesis
        by (auto intro: triple_fail)
    next
      case (Inr ms)
      have "andThen (lift_res r) k = k ms" for k :: "file_metadata list \<Rightarrow> (file_metadata list \<times> package_sidecars) act"
        by (rule ext) (simp add: Inr lift_res_def andThen_def ret_def)
      then show ?thesis
        using rest Inr by simp
    qed
    show ?thesis
      using False by (subst load_chunks.simps) (auto simp flip: parts intro!: triple_andThen [OF chunk_truth [OF "1.prems"(2,3) fit(1)]] step)
  qed
qed

section \<open>The listing\<close>

lemma append_less: "(p @ x < p @ y) = (x < (y :: string))"
  by (induction p) simp_all

lemma artifacts_of_Cons:
  "artifacts_of dir (e # es) = (case strip_prefix (fe_key e) dir of Some f \<Rightarrow> if is_artifact f then (e, f) # artifacts_of dir es else artifacts_of dir es
     | None \<Rightarrow> artifacts_of dir es)"
  by (simp add: artifacts_of_def List.map_filter_simps split: option.splits)

lemma artifacts_sorted: "sorted_wrt (<) (map fe_key es) \<Longrightarrow> sorted_wrt (<) (map snd (artifacts_of dir es))"
proof (induction es)
  case (Cons e es)
  have "f < g" if "fe_key e = dir @ f" "(e', g) \<in> set (artifacts_of dir es)" for f g e'
  proof -
    have "e' \<in> set es" "fe_key e' = dir @ g"
      using that(2) by (auto simp: artifacts_of_iff)
    then have "dir @ f < dir @ g"
      using Cons.prems that(1) by (metis image_eqI list.set_map list.simps(9) sorted_wrt.simps(2))
    then show ?thesis
      by (simp add: append_less)
  qed
  then show ?case
    using Cons by (auto simp: artifacts_of_Cons strip_prefix_Some_iff split: option.splits)
qed (simp add: artifacts_of_def List.map_filter_simps)

lemma entries_sorted: "store_wf s \<Longrightarrow> sorted_wrt (<) (map fe_key (entries_at s dir))"
  using prefix_range_sorted [of s dir] by (simp add: entries_at_def sorted_wrt_map sorted_wrt_filter case_prod_beta)

lemma entries_stored:
  fixes pkg :: string
  assumes "store_wf s"
  defines "files \<equiv> artifacts_of (PACKAGES_PREFIX @ pkg @ ''/'') (entries_at s (PACKAGES_PREFIX @ pkg @ ''/''))"
  shows "map snd files = stored_files pkg (truth_of pkg s)"
proof -
  let ?A = "{f. is_artifact f \<and> CHR ''/'' \<notin> set f \<and> truth_of pkg s (artifact_key pkg f) \<noteq> None}"
  have "sorted_wrt (<) (map snd files)"
    unfolding files_def by (rule artifacts_sorted [OF entries_sorted [OF assms(1)]])
  then have "sorted (map snd files)" "distinct (map snd files)"
    by (simp_all add: strict_sorted_iff)
  moreover have "set (map snd files) = ?A"
  proof (intro equalityI subsetI)
    fix f
    assume "f \<in> set (map snd files)"
    then show "f \<in> ?A"
      using assms(1) by (auto simp: files_def artifacts_of_iff entries_at_iff truth_of_def artifact_key_def package_dir_def starts_with_iff)
  next
    fix f
    assume f: "f \<in> ?A"
    then obtain ob where ob: "object_at s (artifact_key pkg f) = Some ob"
      by (auto simp: truth_of_def split: if_splits)
    let ?e = "\<lparr>fe_key = artifact_key pkg f, fe_size = length (obj_bytes ob), fe_last_modified = Some (last_modified ob), fe_etag = Some (listed_etag ob)\<rparr>"
    have "(?e, f) \<in> set files"
      using f ob assms(1) by (auto simp: files_def artifacts_of_iff entries_at_iff artifact_key_def)
    then show "f \<in> set (map snd files)"
      by force
  qed
  ultimately show ?thesis
    unfolding stored_files_def by (metis sorted_list_of_set.idem_if_sorted_distinct)
qed

lemma entries_have_key:
  "store_wf s \<Longrightarrow> CHR ''/'' \<notin> set n \<Longrightarrow> (\<exists>e\<in>set (entries_at s dir). fe_key e = dir @ n) \<longleftrightarrow> object_at s (dir @ n) \<noteq> None"
  unfolding Bex_def by (simp add: entries_at_iff) (metis (no_types, lifting) file_entry.select_convs(1) same_append_eq)

lemma names_listed:
  assumes "store_wf s" and "CHR ''/'' \<notin> set n"
  shows "n \<in> lc_names (listing_of (PACKAGES_PREFIX @ pkg @ ''/'') claim (entries_at s (PACKAGES_PREFIX @ pkg @ ''/'')) bf memo)
    \<longleftrightarrow> object_at s (artifact_key pkg n) \<noteq> None"
  using entries_have_key [OF assms, of "PACKAGES_PREFIX @ pkg @ ''/''"]
  by (simp add: listing_of_def set_map_filter strip_prefix_Some_iff artifact_key_def)

lemma entries_fit:
  fixes pkg :: string
  assumes wf: "store_wf s"
  defines "es \<equiv> entries_at s (PACKAGES_PREFIX @ pkg @ ''/'')"
  shows "fit_all E pkg (listing_of (PACKAGES_PREFIX @ pkg @ ''/'') (claim_in E pkg (truth_of pkg s)) es True memo) (truth_of pkg s)
    (artifacts_of (PACKAGES_PREFIX @ pkg @ ''/'') es)"
proof -
  let ?dir = "PACKAGES_PREFIX @ pkg @ ''/''" and ?T = "truth_of pkg s"
  let ?L = "listing_of ?dir (claim_in E pkg ?T) es True memo"
  have etag: "\<exists>ob. ?T (artifact_key pkg f @ suffix) = Some ob \<and> listed_etag ob = t" if t: "etags_of ?dir suffix es f = Some t" for f suffix t
  proof -
    obtain e where e: "e \<in> set es" "fe_key e = ?dir @ f @ suffix" "fe_etag e = Some t"
      using etags_of_Some [OF t] by blast
    then obtain n ob where "object_at s (?dir @ n) = Some ob" "fe_key e = ?dir @ n" "t = listed_etag ob"
      using wf by (auto simp: es_def entries_at_iff)
    then have "object_at s (artifact_key pkg f @ suffix) = Some ob" "t = listed_etag ob"
      using e(2) by (simp_all add: artifact_key_def)
    then show ?thesis
      using truth_at [OF in_package_dir(3)] by simp
  qed
  have "fits E pkg ?L ?T e f" if e: "(e, f) \<in> set (artifacts_of ?dir es)" for e f
  proof -
    obtain ob where e': "object_at s (artifact_key pkg f) = Some ob" "CHR ''/'' \<notin> set f" "is_artifact f" "fe_key e = artifact_key pkg f" "fe_size e = length (obj_bytes ob)"
      using e wf by (auto simp: es_def artifacts_of_iff entries_at_iff artifact_key_def)
    have plain: "CHR ''/'' \<notin> set suffix" if "suffix \<in> insert SIDECAR_SUFFIX record_suffixes" for suffix
      using that by (auto simp: record_suffixes_def suffix_defs)
    have "f @ suffix \<in> lc_names ?L \<longleftrightarrow> ?T (artifact_key pkg f @ suffix) \<noteq> None" if "suffix \<in> insert SIDECAR_SUFFIX record_suffixes" for suffix
    proof -
      have "artifact_key pkg (f @ suffix) = artifact_key pkg f @ suffix"
        by (simp add: artifact_key_def)
      then show ?thesis
        using names_listed [OF wf, of "f @ suffix" pkg] e'(2) plain [OF that] truth_at [OF in_package_dir(3)] by (simp add: es_def)
    qed
    moreover have "f \<in> lc_names ?L" "?T (artifact_key pkg f) = Some ob"
      using names_listed [OF wf e'(2), of pkg] e'(1) truth_at [of "artifact_key pkg f" pkg s] by (simp_all add: es_def)
    moreover have "lc_claim ?L = claim_in E pkg ?T" "lc_backfill ?L" "lc_sidecar_etags ?L = etags_of ?dir SIDECAR_SUFFIX es"
      "lc_metadata_etags ?L = etags_of ?dir METADATA_SUFFIX es"
      by (simp_all add: listing_of_def)
    ultimately show ?thesis
      using e' etag unfolding fits_def by (simp add: sidecar_key_def metadata_key_def companion_key_def)
  qed
  moreover have "distinct (map snd (artifacts_of ?dir es))"
    using artifacts_sorted [OF entries_sorted [OF wf], of ?dir ?dir] by (simp add: es_def strict_sorted_iff)
  ultimately show ?thesis
    by (auto simp: fit_all_def)
qed

definition origin_read :: "('v, 's) rebuild_env \<Rightarrow> bucket_id \<Rightarrow> string \<Rightarrow> origin_state option \<Rightarrow> fleet \<Rightarrow> bool" where
  "origin_read E b pkg c fl = (c = origin_in E pkg (truth_of pkg (fl b)))"

definition listing_read :: "bucket_id \<Rightarrow> string \<Rightarrow> file_entry list \<Rightarrow> fleet \<Rightarrow> bool" where
  "listing_read b pkg es fl = (\<exists>s. store_wf s \<and> truth_of pkg s = truth_of pkg (fl b) \<and> es = entries_at s (PACKAGES_PREFIX @ pkg @ ''/''))"

lemma stable_read:
  assumes "spares_package b pkg G"
  shows "stable G (origin_read E b pkg c)" "stable G (listing_read b pkg es)"
  using spares_truth [OF assms] by (auto simp: stable_def origin_read_def listing_read_def)

lemma origin_read_iff: "origin_read E b pkg c fl \<longleftrightarrow>
    c = Option.bind (object_at (fl b) (origin_key pkg)) (\<lambda>ob. case decode_claim (rb_claims E) (obj_bytes ob) of Inl _ \<Rightarrow> None | Inr st \<Rightarrow> Some st)"
  using truth_at [of "origin_key pkg" pkg "fl b"] by (simp add: origin_read_def origin_in_def)

lemma frames_origin_read: "frames b (marked_keys pkg) (origin_read E b pkg c)"
proof -
  have "origin_key pkg \<notin> marked_keys pkg"
    by (auto simp: marked_keys_def key_defs origin_key_def artifact_key_def suffix_defs dest!: arg_cong [where f = rev])
  then show ?thesis
    by (simp add: frames_def origin_read_iff)
qed

lemma triple_read_claim:
  assumes "stable G K"
  shows "triple G K (read_origin_claim (rb_claims E) b pkg) (both K (\<lambda>c fl. K fl \<and> origin_read E b pkg c fl))"
proof -
  have read: "triple G K (get_bytes b (origin_key pkg)) (\<lambda>r fl. K fl \<and> (case r of Inl e \<Rightarrow> is_not_found e \<longrightarrow> object_at (fl b) (origin_key pkg) = None
      | Inr bs \<Rightarrow> \<exists>ob. object_at (fl b) (origin_key pkg) = Some ob \<and> bs = obj_bytes ob))"
    by (rule triple_get_bytes [OF assms]) (auto simp: is_not_found_def contains_key_def)
  have absent: "origin_read E b pkg None fl" if "object_at (fl b) (origin_key pkg) = None" for fl
    using that by (simp add: origin_read_iff)
  have decode: "triple G (\<lambda>fl. K fl \<and> (\<exists>ob. object_at (fl b) (origin_key pkg) = Some ob \<and> bs = obj_bytes ob))
      (andThen (lift_res (decode_claim (rb_claims E) bs)) (\<lambda>st. ret (Some st))) (both K (\<lambda>c fl. K fl \<and> origin_read E b pkg c fl))" for bs
  proof (cases "decode_claim (rb_claims E) bs")
    case (Inl e)
    have "andThen (lift_res (decode_claim (rb_claims E) bs)) (\<lambda>st. ret (Some st)) = fail e"
      by (rule ext) (simp add: Inl lift_res_def andThen_def fail_def)
    then show ?thesis
      by (auto intro: triple_fail)
  next
    case (Inr st)
    have "andThen (lift_res (decode_claim (rb_claims E) bs)) (\<lambda>st. ret (Some st)) = ret (Some st)"
      by (rule ext) (simp add: Inr lift_res_def andThen_def ret_def)
    then show ?thesis
      using Inr by (auto intro!: triple_ret simp: origin_read_iff)
  qed
  show ?thesis
    unfolding read_origin_claim_def
    by (rule triple_onResult [OF read]) (auto intro!: triple_ret triple_fail decode absent)
qed

lemma triple_read_listing:
  assumes "stable G K"
  shows "triple G K (list_dir_entries b (PACKAGES_PREFIX @ pkg @ ''/'')) (both K (\<lambda>es fl. K fl \<and> listing_read b pkg es fl))"
  by (rule triple_conseq [OF triple_entries [OF assms]]) (auto simp: both_def listing_read_def fleet_wf_def split: sum.splits)

lemma list_package_truth:
  assumes "spares_package b pkg G" and K: "lasting K"
  shows "triple G K (list_package E b pkg authoring) (both (\<lambda>_. True) (\<lambda>(claim, es) fl. K fl
    \<and> claim = claim_in E pkg (truth_of pkg (fl b)) \<and> listing_read b pkg es fl))"
proof -
  let ?dir = "PACKAGES_PREFIX @ pkg @ ''/''"
  let ?P = "\<lambda>c fl. K fl \<and> origin_read E b pkg c fl" and ?L = "\<lambda>c es fl. (K fl \<and> origin_read E b pkg c fl) \<and> listing_read b pkg es fl"
  have P: "stable G (?P c)" for c
    by (intro stable_conj lasting_stable [OF K] stable_read [OF assms(1)])
  have fP: "frames b (marked_keys pkg) (?P c)" for c
    by (intro frames_conj lasting_frames [OF K] frames_origin_read)
  have listing: "triple G (?P c) (list_dir_entries b ?dir) (both (\<lambda>_. True) (?L c))" for c
    by (rule triple_conseq [OF triple_read_listing [OF P]]) (auto simp: both_def split: sum.splits)
  have finish: "triple G (?P c) (andThen (finish_interrupted_supersedes (rb_sha E) (rb_sidecars E) (rb_now E) grace b pkg marked)
      (\<lambda>_. list_dir_entries b ?dir)) (both (\<lambda>_. True) (?L c))" if "\<forall>e\<in>set marked. superseding_in pkg e" for c grace marked
    by (rule triple_frame_andThen [OF writes_finish [OF that] fP P listing]) simp
  have rest: "triple G (?L c entries) (andThen
        (case authoring of None \<Rightarrow> ret entries | Some grace \<Rightarrow>
             (let marked = filter (\<lambda>entry. case Option.bind (strip_prefix (fe_key entry) ?dir) (\<lambda>name. strip_suffix name SUPERSEDING_SUFFIX) of
                                             None \<Rightarrow> False | Some name \<Rightarrow> is_artifact name) entries
              in if marked = [] then ret entries
                 else andThen (finish_interrupted_supersedes (rb_sha E) (rb_sidecars E) (rb_now E) grace b pkg marked) (\<lambda>_. list_dir_entries b ?dir)))
        (\<lambda>entries'. ret (Option.bind c narrow, entries')))
      (both (\<lambda>_. True) (\<lambda>(claim, es) fl. K fl \<and> claim = claim_in E pkg (truth_of pkg (fl b)) \<and> listing_read b pkg es fl))" for c and entries :: "file_entry list"
  proof (rule triple_andThen)
    let ?marked = "filter (\<lambda>entry. case Option.bind (strip_prefix (fe_key entry) ?dir) (\<lambda>name. strip_suffix name SUPERSEDING_SUFFIX) of
                      None \<Rightarrow> False | Some name \<Rightarrow> is_artifact name) entries"
    have "\<forall>e\<in>set ?marked. superseding_in pkg e"
      by (auto simp: superseding_in_def artifact_key_def bind_eq_Some_conv strip_prefix_Some_iff strip_suffix_Some_iff split: option.splits)
    note fin = finish [OF this]
    show "triple G (?L c entries) (case authoring of None \<Rightarrow> ret entries | Some grace \<Rightarrow>
             (let marked = ?marked
              in if marked = [] then ret entries
                 else andThen (finish_interrupted_supersedes (rb_sha E) (rb_sidecars E) (rb_now E) grace b pkg marked) (\<lambda>_. list_dir_entries b ?dir)))
        (both (\<lambda>_. True) (?L c))"
    proof (cases authoring)
      case (Some grace)
      show ?thesis
        unfolding Let_def Some option.case by (rule triple_if) (rule triple_ret, simp, rule triple_pre [OF fin], blast)
    qed (auto intro!: triple_ret)
  qed (auto intro!: triple_ret simp: claim_in_def origin_read_def)
  show ?thesis
    unfolding list_package_def Let_def [of ?dir]
    by (rule triple_andThen [OF triple_read_claim [OF lasting_stable [OF K]] triple_andThen [OF listing rest]]) simp_all
qed

definition lists_truth :: "('v, 's) rebuild_env \<Rightarrow> bucket_id \<Rightarrow> string \<Rightarrow> (file_metadata list \<times> (string \<times> nat) list) res \<Rightarrow> fleet \<Rightarrow> bool" where
  "lists_truth E b pkg r fl = (\<forall>files raw. r = Inr (files, raw)
     \<longrightarrow> files = List.map_filter (file_view E pkg (truth_of pkg (fl b))) (stored_files pkg (truth_of pkg (fl b))))"

lemma list_artifacts_truth:
  assumes "spares_package b pkg G" and codec: "\<And>sc. dec_sidecar (rb_sidecars E) (enc_sidecar (rb_sidecars E) sc) = Some sc"
  shows "triple G (cache_exact E c) (list_artifacts_for_claim E b pkg (Some grace) c) (both (\<lambda>_. True) (\<lambda>(_, r). lists_truth E b pkg r))"
    (is "triple G _ _ ?Q")
proof -
  let ?dir = "PACKAGES_PREFIX @ pkg @ ''/''"
  obtain memo c1 where took: "take_memo b pkg c = (memo, c1)"
    by fastforce
  have load: "triple G (\<lambda>fl. cache_exact E c fl \<and> claim = claim_in E pkg (truth_of pkg (fl b)) \<and> listing_read b pkg es fl)
      (onResult (load_chunks E b (listing_of ?dir claim es True memo) (artifacts_of ?dir es) no_sidecars)
        (\<lambda>e. ret (c1, Inl e)) (\<lambda>(metadata, fresh). ret (put_memo b pkg fresh c1, Inr (metadata, raw)))) ?Q" for claim es and raw :: "(string \<times> nat) list"
    unfolding listing_read_def
  proof (rule triple_pre [OF triple_ex])
    fix s
    let ?T = "truth_of pkg s" and ?L = "listing_of ?dir claim es True memo" and ?files = "artifacts_of ?dir es"
    show "triple G (\<lambda>fl. holds_truth E b pkg memo ?T fl \<and> store_wf s \<and> claim = claim_in E pkg ?T \<and> es = entries_at s ?dir)
      (onResult (load_chunks E b ?L ?files no_sidecars) (\<lambda>e. ret (c1, Inl e)) (\<lambda>(metadata, fresh). ret (put_memo b pkg fresh c1, Inr (metadata, raw)))) ?Q"
    proof (cases "store_wf s \<and> claim = claim_in E pkg ?T \<and> es = entries_at s ?dir")
      case True
      then have fit: "fit_all E pkg ?L ?T ?files" and stored: "map snd ?files = stored_files pkg ?T"
        using entries_fit [of s E pkg memo] entries_stored [of s pkg] by simp_all
      have run: "triple G (holds_truth E b pkg memo ?T) (load_chunks E b ?L ?files no_sidecars) (both (\<lambda>_. True) (\<lambda>(ms, _) fl. run_shows E b pkg ?L ?T ?files ms fl))"
        using chunks_truth [OF assms(1) codec fit] by simp
      have "ms = List.map_filter (file_view E pkg (truth_of pkg (fl b))) (stored_files pkg (truth_of pkg (fl b)))"
        if "run_shows E b pkg ?L ?T ?files ms fl" for ms fl
        using that extends_stored unfolding run_shows_def holds_truth_def stored by fastforce
      then show ?thesis
        by (intro triple_pre [OF triple_onResult [OF run]]) (auto intro!: triple_ret simp: lists_truth_def split: prod.splits)
    qed (auto simp: triple_false)
  next
    fix fl
    assume fl: "cache_exact E c fl \<and> claim = claim_in E pkg (truth_of pkg (fl b)) \<and>
        (\<exists>s. store_wf s \<and> truth_of pkg s = truth_of pkg (fl b) \<and> es = entries_at s ?dir)"
    then obtain s where "store_wf s" "truth_of pkg s = truth_of pkg (fl b)" "es = entries_at s ?dir"
      by blast
    moreover have "memo_exact E pkg memo (fl b)"
      using cache_exact_take [OF _ took, of E fl] fl by simp
    ultimately show "\<exists>s. holds_truth E b pkg memo (truth_of pkg s) fl \<and> store_wf s \<and> claim = claim_in E pkg (truth_of pkg s) \<and> es = entries_at s ?dir"
      using fl by (intro exI [of _ s]) (simp add: holds_truth_def)
  qed
  have pre: "triple G (cache_exact E c) (list_package E b pkg (Some grace)) (both (\<lambda>_. True) (\<lambda>(claim, es) fl. cache_exact E c fl
      \<and> claim = claim_in E pkg (truth_of pkg (fl b)) \<and> listing_read b pkg es fl))"
    by (rule list_package_truth [OF assms(1) lasting_cache])
  show ?thesis
    unfolding list_artifacts_for_claim_def Let_def took prod.case
    by (rule triple_onResult [OF pre]) (auto intro!: triple_ret triple_pre [OF load] simp: lists_truth_def [of E b pkg "Inl _"] split: prod.splits)
qed

section \<open>The pages\<close>

lemma page_keys_apart [simp]: "k \<in> set (page_keys pkg) \<Longrightarrow> k \<notin> package_dir pkg'" "k \<in> set (page_keys pkg) \<Longrightarrow> k \<notin> dirty_keys"
  by (auto simp: page_keys_def package_dir_def dirty_keys_def starts_with_iff SIMPLE_PREFIX_def PACKAGES_PREFIX_def DIRTY_PREFIX_def)

definition page_holds :: "bucket_id \<Rightarrow> string \<Rightarrow> bytes \<Rightarrow> fleet \<Rightarrow> bool" where
  "page_holds b k bs fl = (map_option obj_bytes (object_at (fl b) k) = Some bs)"

definition truth_is :: "bucket_id \<Rightarrow> string \<Rightarrow> objs \<Rightarrow> fleet \<Rightarrow> bool" where
  "truth_is b pkg T fl = (truth_of pkg (fl b) = T)"

lemma stable_pages:
  assumes "spares_package b pkg G"
  shows "stable G (truth_is b pkg T)" "k \<in> set (page_keys pkg) \<Longrightarrow> stable G (page_holds b k bs)"
  using spares_truth [OF assms] assms by (auto simp: stable_def truth_is_def page_holds_def spares_package_def)

lemma frames_pages: "X \<inter> package_dir pkg = {} \<Longrightarrow> frames b X (truth_is b pkg T)" "k \<notin> X \<Longrightarrow> frames b X (page_holds b k bs)"
  by (auto simp: frames_def truth_is_def page_holds_def truth_of_def fun_eq_iff)

lemma put_page:
  assumes "stable G P" and "frames b {k} P"
  shows "triple G P (put_if_changed sha b k bs) (both (\<lambda>_. True) (\<lambda>_ fl. P fl \<and> page_holds b k bs fl))"
proof -
  have read: "triple G P (get_bytes b k) (\<lambda>r fl. P fl \<and> (\<forall>cur. r = Inr cur \<longrightarrow> page_holds b k cur fl))"
    by (rule triple_get_bytes [OF assms(1)]) (auto simp: page_holds_def)
  have wrt: "triple G P (put_bytes sha b k bs) (both (\<lambda>_. True) (\<lambda>_ fl. P fl \<and> page_holds b k bs fl))"
    by (rule triple_put_bytes [OF assms(1)])
      (auto simp: both_def page_holds_def object_at_store split: sum.splits intro: frames_store [OF assms(2)])
  show ?thesis
    unfolding put_if_changed_def
    by (rule triple_onResult [OF read]) (auto intro!: triple_ret triple_pre [OF wrt])
qed

lemma put_pages:
  assumes "spares_package b pkg G"
  shows "triple G (truth_is b pkg T) (put_views sha b (zip (page_keys pkg) [html, json]))
    (both (\<lambda>_. True) (\<lambda>_ fl. truth_is b pkg T fl \<and> (\<forall>(k, bs)\<in>set (zip (page_keys pkg) [html, json]). page_holds b k bs fl)))"
proof -
  obtain k1 k2 where keys: "page_keys pkg = [k1, k2]" "k1 \<noteq> k2"
    by (simp add: page_keys_def)
  let ?R = "\<lambda>fl. truth_is b pkg T fl \<and> page_holds b k1 html fl"
  have out: "k1 \<notin> package_dir pkg" "k2 \<notin> package_dir pkg"
    using page_keys_apart(1) [of _ pkg pkg] keys by simp_all
  have first: "triple G (truth_is b pkg T) (put_if_changed sha b k1 html) (both (\<lambda>_. True) (\<lambda>_. ?R))"
    by (rule put_page) (use out in \<open>auto intro!: stable_pages [OF assms] frames_pages\<close>)
  have sR: "stable G ?R"
    using keys by (intro stable_conj stable_pages [OF assms]) simp
  have fR: "frames b {k2} ?R"
    using out keys by (intro frames_conj frames_pages) auto
  have second: "triple G ?R (put_if_changed sha b k2 json) (both (\<lambda>_. True) (\<lambda>_ fl. ?R fl \<and> page_holds b k2 json fl))"
    by (rule put_page [OF sR fR])
  show ?thesis
    unfolding keys zip.simps put_views.simps list.case
    by (rule triple_andThen [OF first], rule triple_andThen [OF second]) (auto simp: keys intro!: triple_ret)
qed

lemma read_status_truth:
  assumes "spares_package b pkg G"
  shows "triple G (truth_is b pkg T) (read_status (rb_statuses E) b pkg) (both (\<lambda>_. True) (\<lambda>doc fl. truth_is b pkg T fl \<and> status_in E pkg T = Some doc))"
proof -
  have read: "triple G (truth_is b pkg T) (get_bytes b (status_key pkg)) (\<lambda>r fl. truth_is b pkg T fl \<and> (case r of
      Inl e \<Rightarrow> is_not_found e \<longrightarrow> T (status_key pkg) = None | Inr bs \<Rightarrow> \<exists>ob. T (status_key pkg) = Some ob \<and> bs = obj_bytes ob))"
    by (rule triple_get_bytes [OF stable_pages(1) [OF assms]])
      (use truth_at [of "status_key pkg" pkg] in \<open>auto simp: truth_is_def is_not_found_def contains_key_def\<close>)
  show ?thesis
    unfolding read_status_def
    by (rule triple_onResult [OF read]) (auto intro!: triple_ret triple_fail simp: status_in_def split: option.splits)
qed

lemma scrub_truth:
  assumes "spares_package b pkg G"
  shows "triple G (truth_is b pkg T) (malware_scrubbed_files E b pkg files) (both (\<lambda>_. True)
    (\<lambda>r fl. truth_is b pkg T fl \<and> (case r of Some fs \<Rightarrow> fs | None \<Rightarrow> files) \<in> scrubs E pkg T files))"
proof -
  have read: "triple G (truth_is b pkg T) (read_origin_claim (rb_claims E) b pkg) (both (truth_is b pkg T) (\<lambda>c fl. truth_is b pkg T fl \<and> c = origin_in E pkg T))"
    by (rule triple_conseq [OF triple_read_claim [OF stable_pages(1) [OF assms]]]) (auto simp: both_def origin_read_def truth_is_def split: sum.splits)
  have "triple G (truth_is b pkg T) (onResult (read_origin_claim (rb_claims E) b pkg) (\<lambda>_. ret None)
      (\<lambda>claim. ret (if claim = Some Mirror then Some (filter (\<lambda>f. \<not> is_blocked E bad pkg f) files) else None)))
      (both (\<lambda>_. True) (\<lambda>r fl. truth_is b pkg T fl \<and> (case r of Some fs \<Rightarrow> fs | None \<Rightarrow> files) \<in> scrubs E pkg T files))"
    if "rb_malicious E = Some bad" for bad
    by (rule triple_onResult [OF read]) (use that in \<open>auto intro!: triple_ret simp: scrubs_def\<close>)
  then show ?thesis
    unfolding malware_scrubbed_files_def by (auto intro!: triple_ret simp: scrubs_def split: option.splits)
qed

lemma pages_showI:
  assumes "truth_is b pkg T fl" and "shown_files E pkg omit T = files"
  shows "files = [] \<Longrightarrow> \<forall>k\<in>set (page_keys pkg). object_at (fl b) k = None \<Longrightarrow> pages_show E pkg omit (fl b)"
    "files \<noteq> [] \<Longrightarrow> status_in E pkg T = Some doc \<Longrightarrow> fs \<in> scrubs E pkg T files \<Longrightarrow> \<forall>(k, bs)\<in>set (render_views E pkg fs doc). page_holds b k bs fl
      \<Longrightarrow> pages_show E pkg omit (fl b)"
  using assms by (auto simp: pages_show_def truth_is_def page_holds_def Let_def)

lemma write_pages_truth:
  assumes "spares_package b pkg G" and files: "shown_files E pkg omit T = files" "files \<noteq> []"
  shows "triple G (truth_is b pkg T) (write_pkg_indexes E b pkg files) (both (\<lambda>_. True) (\<lambda>_ fl. truth_is b pkg T fl \<and> pages_show E pkg omit (fl b)))"
proof -
  have views: "render_views E pkg fs doc = zip (page_keys pkg) [pep503_project_html (ie_render (rb_index E)) pkg (if blocks_downloads (status doc) then [] else fs) doc,
      pep691_project_json (version_from_str (rb_pep440 E)) (rb_doc E) pkg (if blocks_downloads (status doc) then [] else fs) doc]" for fs doc
    by (simp add: render_views_def Let_def)
  have put: "triple G (truth_is b pkg T) (andThen (put_views (rb_sha E) b (render_views E pkg fs doc)) (\<lambda>_. ret v))
      (both (\<lambda>_. True) (\<lambda>_ fl. truth_is b pkg T fl \<and> pages_show E pkg omit (fl b)))"
    if ok: "fs \<in> scrubs E pkg T files" "status_in E pkg T = Some doc" for fs doc and v :: "(string \<times> bytes) list \<times> bool"
  proof -
    have "triple G (truth_is b pkg T) (put_views (rb_sha E) b (render_views E pkg fs doc))
        (both (\<lambda>_. True) (\<lambda>_ fl. truth_is b pkg T fl \<and> (\<forall>(k, bs)\<in>set (render_views E pkg fs doc). page_holds b k bs fl)))"
      unfolding views by (rule put_pages [OF assms(1)])
    then show ?thesis
      by (rule triple_andThen) (rule triple_ret, use pages_showI(2) [OF _ files ok(2,1)] in \<open>simp only: both_simps\<close>, blast, simp)
  qed
  show ?thesis
    unfolding write_pkg_indexes_def Let_def
  proof (rule triple_andThen [OF read_status_truth [OF assms(1)]], rule triple_andThen)
    fix doc
    show "triple G (\<lambda>fl. truth_is b pkg T fl \<and> status_in E pkg T = Some doc) (malware_scrubbed_files E b pkg files)
        (both (\<lambda>_. True) (\<lambda>r fl. status_in E pkg T = Some doc \<and> truth_is b pkg T fl \<and> (case r of Some fs \<Rightarrow> fs | None \<Rightarrow> files) \<in> scrubs E pkg T files))"
      using scrub_truth [OF assms(1), of T E files] by (cases "status_in E pkg T = Some doc") (simp_all add: triple_false)
  next
    fix doc scrubbed
    show "triple G (\<lambda>fl. status_in E pkg T = Some doc \<and> truth_is b pkg T fl \<and> (case scrubbed of Some fs \<Rightarrow> fs | None \<Rightarrow> files) \<in> scrubs E pkg T files)
        (andThen (put_views (rb_sha E) b (render_views E pkg (case scrubbed of Some fs \<Rightarrow> fs | None \<Rightarrow> files) doc))
          (\<lambda>_. ret (render_views E pkg (case scrubbed of Some fs \<Rightarrow> fs | None \<Rightarrow> files) doc, blocks_downloads (status doc))))
        (both (\<lambda>_. True) (\<lambda>_ fl. truth_is b pkg T fl \<and> pages_show E pkg omit (fl b)))"
      using put [of "case scrubbed of Some fs \<Rightarrow> fs | None \<Rightarrow> files" doc]
      by (cases "status_in E pkg T = Some doc \<and> (case scrubbed of Some fs \<Rightarrow> fs | None \<Rightarrow> files) \<in> scrubs E pkg T files") (auto simp: triple_false)
  qed simp_all
qed

section \<open>The rebuild\<close>

definition rebuilt_truth :: "('v, 's) rebuild_env \<Rightarrow> bucket_id \<Rightarrow> string \<Rightarrow> string option \<Rightarrow> rebuilt_package res \<Rightarrow> fleet \<Rightarrow> bool" where
  "rebuilt_truth E b pkg omit r fl = (\<forall>v. r = Inr v \<longrightarrow> pages_show E pkg omit (fl b)
     \<and> (still_live v \<longleftrightarrow> shown_files E pkg omit (truth_of pkg (fl b)) \<noteq> []))"

lemma rebuilt_truth_Inl [simp]: "rebuilt_truth E b pkg omit (Inl e) fl"
  by (simp add: rebuilt_truth_def)

lemma pages_show_cong:
  assumes "\<And>k. k \<in> package_dir pkg \<union> set (page_keys pkg) \<Longrightarrow> object_at s' k = object_at s k"
  shows "pages_show E pkg omit s' = pages_show E pkg omit s" "truth_of pkg s' = truth_of pkg s"
proof -
  show same: "truth_of pkg s' = truth_of pkg s"
    using assms by (auto simp: truth_of_def)
  have "fst x \<in> set (page_keys pkg)" if "x \<in> set (render_views E pkg fs doc)" for x fs doc
    using that by (auto simp: render_views_def Let_def set_zip)
  then have "(\<forall>(k, bs)\<in>set (render_views E pkg fs doc). map_option obj_bytes (object_at s' k) = Some bs)
      = (\<forall>(k, bs)\<in>set (render_views E pkg fs doc). map_option obj_bytes (object_at s k) = Some bs)" for fs doc
    using assms by (intro ball_cong refl) (auto simp: case_prod_beta)
  then show "pages_show E pkg omit s' = pages_show E pkg omit s"
    using assms by (simp add: pages_show_def same Let_def)
qed

lemma stable_rebuilt: "spares_package b pkg G \<Longrightarrow> stable G (rebuilt_truth E b pkg omit r)"
  unfolding stable_def rebuilt_truth_def spares_package_def using pages_show_cong by metis

lemma frames_rebuilt:
  assumes "X \<inter> (package_dir pkg \<union> set (page_keys pkg)) = {}"
  shows "frames b X (rebuilt_truth E b pkg omit r)"
  unfolding frames_def
proof (intro allI impI)
  fix fl :: fleet and s'
  assume r: "rebuilt_truth E b pkg omit r fl" and off: "\<forall>k. k \<notin> X \<longrightarrow> object_at s' k = object_at (fl b) k"
  have "object_at s' k = object_at (fl b) k" if "k \<in> package_dir pkg \<union> set (page_keys pkg)" for k
    using off assms that by blast
  from pages_show_cong(1) [OF this, where E = E and omit = omit] pages_show_cong(2) [OF this] show "rebuilt_truth E b pkg omit r (fl(b := s'))"
    using r by (simp add: rebuilt_truth_def)
qed

lemma delete_pages:
  assumes "spares_package b pkg G" and "shown_files E pkg omit T = []"
  shows "triple G (truth_is b pkg T) (delete_keys sha b (page_keys pkg)) (both (\<lambda>_. True) (\<lambda>_ fl. truth_is b pkg T fl \<and> pages_show E pkg omit (fl b)))"
proof (rule triple_delete_keys [OF stable_pages(1) [OF assms(1)]])
  fix fl and r :: "unit res"
  assume fl: "truth_is b pkg T fl"
  let ?fl = "fl(b := fold (delete_key sha) (page_keys pkg) (fl b))"
  have "frames b (set (page_keys pkg)) (truth_is b pkg T)"
    using page_keys_apart(1) by (intro frames_pages) blast
  then have "truth_is b pkg T ?fl"
    using frames_delete fl by blast
  moreover from this have "pages_show E pkg omit (?fl b)"
    by (rule pages_showI(1) [OF _ assms(2) refl]) (simp add: object_at_delete_keys)
  ultimately show "both (\<lambda>_. True) (\<lambda>_ fl. truth_is b pkg T fl \<and> pages_show E pkg omit (fl b)) r ?fl"
    by (cases r) auto
qed simp

lemma rebuild_inner_truth:
  assumes "spares_package b pkg G" and "\<And>sc. dec_sidecar (rb_sidecars E) (enc_sidecar (rb_sidecars E) sc) = Some sc"
  shows "triple G (cache_exact E c) (rebuild_package_indexes_inner E b pkg omit c) (both (\<lambda>_. True) (\<lambda>(_, r). rebuilt_truth E b pkg omit r))"
    (is "triple G _ _ ?Q")
proof -
  have rest: "triple G (lists_truth E b pkg (Inr (all_files, all_raw)))
      (let files = filter (renderable E pkg omit) all_files; raw = filter (\<lambda>(filename, _). Some filename \<noteq> omit) all_raw; live = (files \<noteq> []);
           rebuilt = (\<lambda>views quarantined. \<lparr>still_live = live, raw_artifacts = raw, file_shas = fold (\<lambda>f. bt_insert (fm_filename f) (fm_sha256 f)) files [],
                   rp_views = views, rp_quarantined = quarantined\<rparr>)
       in onResult (if live then andThen (write_pkg_indexes E b pkg files) (\<lambda>(views, blocked). ret (rebuilt views (Some blocked)))
                    else andThen (delete_keys (rb_sha E) b (page_keys pkg)) (\<lambda>_. ret (rebuilt [] None)))
            (\<lambda>e. ret (cache', Inl e)) (\<lambda>v. ret (cache', Inr v))) ?Q" for all_files all_raw cache'
  proof (rule triple_pre [OF triple_ex])
    fix T
    let ?files = "filter (renderable E pkg omit) all_files"
    show "triple G (\<lambda>fl. truth_is b pkg T fl \<and> shown_files E pkg omit T = ?files)
      (let files = ?files; raw = filter (\<lambda>(filename, _). Some filename \<noteq> omit) all_raw; live = (files \<noteq> []);
           rebuilt = (\<lambda>views quarantined. \<lparr>still_live = live, raw_artifacts = raw, file_shas = fold (\<lambda>f. bt_insert (fm_filename f) (fm_sha256 f)) files [],
                   rp_views = views, rp_quarantined = quarantined\<rparr>)
       in onResult (if live then andThen (write_pkg_indexes E b pkg files) (\<lambda>(views, blocked). ret (rebuilt views (Some blocked)))
                    else andThen (delete_keys (rb_sha E) b (page_keys pkg)) (\<lambda>_. ret (rebuilt [] None)))
            (\<lambda>e. ret (cache', Inl e)) (\<lambda>v. ret (cache', Inr v))) ?Q"
    proof (cases "shown_files E pkg omit T = ?files")
      case shown: True
      have finish: "triple G (truth_is b pkg T) (onResult m (\<lambda>e. ret (cache', Inl e)) (\<lambda>v. ret (cache', Inr v))) ?Q"
        if "triple G (truth_is b pkg T) m (both (\<lambda>_. True) (\<lambda>v fl. truth_is b pkg T fl \<and> pages_show E pkg omit (fl b) \<and> (still_live v \<longleftrightarrow> ?files \<noteq> [])))" for m
        by (rule triple_onResult [OF that]) (auto intro!: triple_ret simp: rebuilt_truth_def truth_is_def shown)
      show ?thesis
      proof (cases "?files = []")
        case False
        have wrote: "triple G (truth_is b pkg T) (andThen (write_pkg_indexes E b pkg ?files) (\<lambda>(views, blocked). ret (g views blocked)))
            (both (\<lambda>_. True) (\<lambda>v fl. truth_is b pkg T fl \<and> pages_show E pkg omit (fl b) \<and> (still_live v \<longleftrightarrow> ?files \<noteq> [])))"
          if "\<And>x y. still_live (g x y)" for g :: "(string \<times> bytes) list \<Rightarrow> bool \<Rightarrow> rebuilt_package"
          by (rule triple_andThen [OF write_pages_truth [OF assms(1) shown False]]) (use that False in \<open>auto intro!: triple_ret\<close>)
        show ?thesis
          unfolding Let_def by (rule triple_pre [OF finish]) (subst if_P [OF False], rule wrote, simp_all add: False)
      next
        case True
        have removed: "triple G (truth_is b pkg T) (andThen (delete_keys (rb_sha E) b (page_keys pkg)) (\<lambda>_. ret v))
            (both (\<lambda>_. True) (\<lambda>v fl. truth_is b pkg T fl \<and> pages_show E pkg omit (fl b) \<and> (still_live v \<longleftrightarrow> ?files \<noteq> [])))"
          if "\<not> still_live v" for v
          by (rule triple_andThen [OF delete_pages [OF assms(1)]]) (use that True shown in \<open>auto intro!: triple_ret\<close>)
        show ?thesis
          unfolding Let_def by (rule triple_pre [OF finish]) (subst if_not_P, simp only: True simp_thms, rule removed, simp_all add: True)
      qed
    qed (simp add: triple_false)
  next
    fix fl
    assume "lists_truth E b pkg (Inr (all_files, all_raw)) fl"
    then show "\<exists>T. truth_is b pkg T fl \<and> shown_files E pkg omit T = filter (renderable E pkg omit) all_files"
      by (simp add: lists_truth_def truth_is_def shown_files_def)
  qed
  show ?thesis
    unfolding rebuild_package_indexes_inner_def
  proof (rule triple_andThen [OF list_artifacts_truth [OF assms]], goal_cases)
    case (1 x)
    obtain cache' r where x: "x = (cache', r)"
      by fastforce
    show ?case
    proof (cases r)
      case (Inl e)
      then show ?thesis
        by (auto simp: x intro!: triple_ret)
    next
      case (Inr y)
      obtain all_files all_raw where y: "y = (all_files, all_raw)"
        by fastforce
      show ?thesis
        unfolding x Inr y prod.case sum.case by (rule rest)
    qed
  qed simp
qed

lemma writes_pages: "writes_only b (set (page_keys pkg)) (write_pkg_indexes E b pkg files)"
proof -
  have put: "set (map fst views) \<subseteq> set (page_keys pkg) \<Longrightarrow> writes_only b (set (page_keys pkg)) (put_views (rb_sha E) b views)" for views
    by (induction views) (auto intro!: writes_intros writes_puts simp: put_if_changed_def)
  have keys: "set (map fst (render_views E pkg fs doc)) \<subseteq> set (page_keys pkg)" for fs doc
    by (auto simp: render_views_def Let_def set_zip)
  show ?thesis
    unfolding write_pkg_indexes_def malware_scrubbed_files_def Let_def by (intro writes_intros put keys)
qed

lemma memo_rebuild_inner:
  "triple G (cache_sound E c) (rebuild_package_indexes_inner E b pkg omit c) (both (\<lambda>_. True) (\<lambda>(c', _). cache_sound E c'))"
proof -
  have keep: "triple G (cache_sound E c') m (both (cache_sound E c') (\<lambda>_. cache_sound E c'))" if "writes_only b (set (page_keys pkg)) m"
    for c' and m :: "rebuilt_package act"
    by (rule triple_keeps [OF that lasting_frames [OF lasting_sound] lasting_stable [OF lasting_sound]])
  show ?thesis
    unfolding rebuild_package_indexes_inner_def
  proof (rule triple_andThen [OF memo_list_artifacts], goal_cases)
    case (1 x)
    obtain c' r where x: "x = (c', r)"
      by fastforce
    show ?case
    proof (cases r)
      case (Inl e)
      then show ?thesis
        by (auto simp: x intro!: triple_ret)
    next
      case (Inr y)
      show ?thesis
        unfolding x Inr prod.case sum.case Let_def
        by (cases y, simp only: prod.case, rule triple_onResult [OF keep], intro writes_intros writes_pages writes_delete_keys)
          (auto intro!: triple_ret)
    qed
  qed simp
qed

lemma rebuild_truth:
  assumes "spares_package b pkg G" and "\<And>sc. dec_sidecar (rb_sidecars E) (enc_sidecar (rb_sidecars E) sc) = Some sc"
  shows "triple G (cache_sound E c) (rebuild_package_indexes E b pkg omit failure c)
    (both (\<lambda>_. True) (\<lambda>(c', r) fl. cache_sound E c' fl \<and> rebuilt_truth E b pkg omit r fl))" (is "triple G _ _ ?Q")
proof -
  have inner: "triple G (cache_sound E c) (rebuild_package_indexes_inner E b pkg omit c) ?Q"
    by (rule triple_conseq [OF triple_conj [OF memo_rebuild_inner rebuild_inner_truth [OF assms]]])
      (auto simp: both_def cache_sound_def split: sum.splits)
  have dirty: "dirty_keys \<inter> (package_dir pkg \<union> set (page_keys pkg)) = {}"
    using page_keys_apart(2) by (auto simp: dirty_keys_def package_dir_def starts_with_iff DIRTY_PREFIX_def PACKAGES_PREFIX_def)
  have keep: "triple G (\<lambda>fl. cache_sound E c' fl \<and> rebuilt_truth E b pkg omit r fl) m (\<lambda>_ fl. cache_sound E c' fl \<and> rebuilt_truth E b pkg omit r fl)"
    if "writes_only b dirty_keys m" for c' r and m :: "unit act"
    by (intro writes_onlyD [OF that] frames_conj stable_conj lasting_frames lasting_stable lasting_sound stable_rebuilt [OF assms(1)] frames_rebuilt [OF dirty])
  have keep_sound: "triple G (cache_sound E c') m (\<lambda>_. cache_sound E c')" if "writes_only b dirty_keys m" for c' and m :: "unit act"
    by (intro writes_onlyD [OF that] lasting_frames lasting_stable lasting_sound)
  have clear: "writes_only b dirty_keys (clear_intent (rb_sha E) b pkg nonce)" for nonce
    unfolding clear_intent_def by (rule writes_delete_keys) simp
  have after: "triple G (\<lambda>fl. cache_sound E c' fl \<and> rebuilt_truth E b pkg omit r fl)
      (case r of Inr v \<Rightarrow> onResult (clear_intent (rb_sha E) b pkg nonce) (\<lambda>e. ret (c', Inl e)) (\<lambda>_. ret (c', Inr v))
       | Inl e \<Rightarrow> onResult (case failure of MarkersHeld \<Rightarrow> clear_intent (rb_sha E) b pkg nonce | Rearm \<Rightarrow> mark_commit (rb_sha E) b pkg nonce)
           (\<lambda>_. ret (c', Inl e)) (\<lambda>_. ret (c', Inl e))) ?Q" for c' r nonce
    by (cases r; cases failure) (auto intro!: triple_onResult [OF keep] triple_onResult [OF keep_sound] triple_ret clear writes_marks)
  have mark: "triple G (cache_sound E c) (mark_intent (rb_sha E) b pkg) (\<lambda>_. cache_sound E c)"
    by (intro writes_onlyD [OF writes_marks(1)] lasting_frames lasting_stable lasting_sound)
  show ?thesis
    unfolding rebuild_package_indexes_def
    by (intro triple_if inner triple_onResult [OF mark] triple_andThen [OF inner])
      (auto intro!: triple_ret after split: prod.splits)
qed

section \<open>Properties\<close>

text \<open>
  C21: after a rebuild that reports success, with other packages changing around it and any call failed or
  unanswered along the way, the pages of the package show exactly the files that are stored for it and
  not fenced, omitted or denied (less the blocked ones of a mirror package), each as its sidecar
  describes it, backfilled sidecars included; a package with nothing to show has no pages, and the
  rebuild reports it so. The memo it leaves is exact.
\<close>

theorem rebuild_shows_truth:
  assumes "spares_package b pkg G" and "\<And>sc. dec_sidecar (rb_sidecars E) (enc_sidecar (rb_sidecars E) sc) = Some sc"
    and "obeys G w" and "cache_wf c" and "cache_exact E c (buckets w)"
    and "rebuild_package_indexes E b pkg omit failure c w = (Inr (c', Inr v), w')"
  shows "pages_show E pkg omit (buckets w' b) \<and> (still_live v \<longleftrightarrow> shown_files E pkg omit (truth_of pkg (buckets w' b)) \<noteq> [])
    \<and> cache_wf c' \<and> cache_exact E c' (buckets w')"
  using tripleD [OF rebuild_truth [OF assms(1,2)] assms(3) _ assms(6)] assms(4,5) by (simp add: cache_sound_def rebuilt_truth_def)

section \<open>Witnesses\<close>

text \<open>A file without a sidecar; a peer publishes another package while the rebuild backfills it.\<close>

definition bare_bucket :: inner where
  "bare_bucket = snd (store (\<lambda>bs. bs) ''packages/six/six-1.whl'' ''body'' (inner_default 0))"

definition publish_other :: "fleet \<Rightarrow> fleet" where
  "publish_other fl = fl(0 := snd (store (\<lambda>bs. bs) ''packages/flask/flask-1.whl'' ''other'' (fl 0)))"

definition busy :: world where
  "busy = (quiet (\<lambda>_. bare_bucket))\<lparr>script := [Answered publish_other, Answered publish_other, Answered id, Answered publish_other]\<rparr>"

lemma busy_rebuilt:
  "case fst (rebuild_package_indexes quiet_env 0 ''six'' None MarkersHeld empty_cache busy) of Inr (_, Inr v) \<Rightarrow> still_live v | _ \<Rightarrow> False"
  by code_simp

lemma publish_other_spares: "spares_package 0 ''six'' (\<lambda>fl fl'. fl' = fl \<or> fl' = publish_other fl)"
  by (auto simp: spares_package_def publish_other_def object_at_store package_dir_def page_keys_def PACKAGES_PREFIX_def SIMPLE_PREFIX_def starts_with_iff)

lemma busy_obeys: "obeys (\<lambda>fl fl'. fl' = fl \<or> fl' = publish_other fl) busy"
proof -
  have "store_wf bare_bucket"
    by (simp add: bare_bucket_def store_wf_store store_wf_default)
  then show ?thesis
    by (auto simp: obeys_def busy_def quiet_def publish_other_def fleet_wf_def fleet_evolves_def store_wf_store store_evolves evolves_same_objects)
qed

theorem rebuild_shows_truth_witness:
  "\<exists>c' v w'. rebuild_package_indexes quiet_env 0 ''six'' None MarkersHeld empty_cache busy = (Inr (c', Inr v), w')
     \<and> pages_show quiet_env ''six'' None (buckets w' 0) \<and> shown_files quiet_env ''six'' None (truth_of ''six'' (buckets w' 0)) \<noteq> []"
proof -
  obtain x w' where run: "rebuild_package_indexes quiet_env 0 ''six'' None MarkersHeld empty_cache busy = (x, w')"
    by fastforce
  then obtain c' v where x: "x = Inr (c', Inr v)" "still_live v"
    using busy_rebuilt by (cases x) (auto split: sum.splits)
  have codec: "dec_sidecar (rb_sidecars quiet_env) (enc_sidecar (rb_sidecars quiet_env) sc) = Some sc" for sc
    by (simp add: quiet_env_def field_codec_roundtrip)
  show ?thesis
    using rebuild_shows_truth [OF publish_other_spares codec busy_obeys empty_cache_wf cache_exact_empty run [unfolded x(1)]] run x by blast
qed

end
