(* ===== verification/Drain_Safety.thy ===== *)
theory Drain_Safety
  imports Rebuild_Safety
begin

text \<open>
  The drain of a destination bucket consumes a dirty marker only once the package it names is settled:
  its pages show what is stored and the global index lists it exactly if there is something to show.
\<close>

section \<open>Where a rebuild and an index update write\<close>

definition intent_keys :: "string set" where
  "intent_keys = {k. \<exists>pkg n. k = marker_key pkg n INTENT_SUFFIX}"

definition own_keys :: "string \<Rightarrow> string set" where
  "own_keys pkg = package_dir pkg \<union> set (page_keys pkg) \<union> intent_keys"

definition global_keys :: "string set" where
  "global_keys = {global_json_key, global_html_key, global_html_stamp_key}"

lemma in_global_keys [simp]: "global_json_key \<in> global_keys" "global_html_key \<in> global_keys" "global_html_stamp_key \<in> global_keys"
  by (simp_all add: global_keys_def)

lemma writes_case_sum [writes_intros]:
  "(\<And>e. writes_only b X (f e)) \<Longrightarrow> (\<And>v. writes_only b X (g v)) \<Longrightarrow> writes_only b X (case r of Inl e \<Rightarrow> f e | Inr v \<Rightarrow> g v)"
  by (cases r) simp_all

lemma writes_list_artifacts: "writes_only b (package_dir pkg) (list_artifacts_for_claim E b pkg authoring c)"
  unfolding list_artifacts_for_claim_def Let_def by (intro writes_intros writes_list_package writes_load_chunks files_in_artifacts)

lemma writes_rebuild_inner: "writes_only b (package_dir pkg \<union> set (page_keys pkg)) (rebuild_package_indexes_inner E b pkg omit c)"
  unfolding rebuild_package_indexes_inner_def Let_def
  by (intro writes_intros writes_mono [OF writes_list_artifacts] writes_mono [OF writes_pages] writes_delete_keys) simp_all

lemma writes_intent:
  "writes_only b (own_keys pkg) (mark_intent sha b p)" "writes_only b (own_keys pkg) (clear_intent sha b p n)"
  unfolding mark_intent_def mark_intent_with_nonce_def put_marker_def clear_intent_def
  by (intro writes_intros writes_puts writes_delete_keys; auto simp: own_keys_def intent_keys_def)+

lemma writes_rebuild: "writes_only b (own_keys pkg) (rebuild_package_indexes E b pkg omit MarkersHeld c)"
proof -
  have "writes_only b (own_keys pkg) (rebuild_package_indexes_inner E b pkg omit c)"
    by (rule writes_mono [OF writes_rebuild_inner]) (simp add: own_keys_def)
  then show ?thesis
    unfolding rebuild_package_indexes_def on_failure.case by (intro writes_intros writes_intent)
qed

lemma writes_uncached: "writes_only b global_keys (update_global_index_uncached E b adds removes)"
proof -
  have html: "writes_only b global_keys (write_global_html_stamp E b t ps)" "writes_only b global_keys (write_global_html_cas E b ps t)"
      "writes_only b global_keys (reconcile_global_html E b ps t)" for ps t
    by (rule writes_mono [OF writes_stamp] writes_mono [OF writes_html_cas] writes_mono [OF writes_reconcile_html], simp)+
  have cas: "writes_only b global_keys (write_global_indexes_cas E b ps j h)" for ps j h
    unfolding write_global_indexes_cas_def conditional_put_def Let_def
    by (auto intro!: writes_intros html writes_puts simp: write_global_indexes_def put_if_changed_def split: html_write.splits)
  have load: "writes_only b global_keys (load_global_names E b)"
    unfolding load_global_names_def current_global_html_etag_def derive_global_names_def Let_def by (intro writes_intros)
  have "writes_only b global_keys (uncached_loop E b adds removes n)" for n
    by (induction n) (auto intro!: writes_intros html cas load simp: Let_def split: html_reconcile.splits cas_outcome.splits prod.splits)
  then show ?thesis
    unfolding update_global_index_uncached_def by (intro writes_intros)
qed

lemma memo_rebuild:
  "triple G (cache_sound E c) (rebuild_package_indexes E b pkg omit failure c) (both (\<lambda>_. True) (\<lambda>(c', _). cache_sound E c'))" (is "triple G _ _ ?Q")
proof -
  have keep: "triple G (cache_sound E c') m (\<lambda>_. cache_sound E c')" if "writes_only b dirty_keys m" for c' and m :: "'x act"
    by (intro writes_onlyD [OF that] lasting_frames lasting_stable lasting_sound)
  have clear: "writes_only b dirty_keys (clear_intent (rb_sha E) b pkg nonce)" for nonce
    unfolding clear_intent_def by (rule writes_delete_keys) simp
  have after: "triple G (cache_sound E c')
      (case r of Inr v \<Rightarrow> onResult (clear_intent (rb_sha E) b pkg nonce) (\<lambda>e. ret (c', Inl e)) (\<lambda>_. ret (c', Inr v))
       | Inl e \<Rightarrow> onResult (case failure of MarkersHeld \<Rightarrow> clear_intent (rb_sha E) b pkg nonce | Rearm \<Rightarrow> mark_commit (rb_sha E) b pkg nonce)
           (\<lambda>_. ret (c', Inl e)) (\<lambda>_. ret (c', Inl e))) ?Q" for c' r nonce
    by (cases r; cases failure) (auto intro!: triple_onResult [OF keep] triple_ret clear writes_marks)
  show ?thesis
    unfolding rebuild_package_indexes_def
    by (intro triple_if memo_rebuild_inner triple_onResult [OF keep [OF writes_marks(1)]] triple_andThen [OF memo_rebuild_inner])
      (auto intro!: triple_ret after split: prod.splits)
qed

section \<open>A settled package stays settled\<close>

definition settled :: "('v, 's) rebuild_env \<Rightarrow> bucket_id \<Rightarrow> string \<Rightarrow> bool \<Rightarrow> fleet \<Rightarrow> bool" where
  "settled E b pkg live fl = (pages_show E pkg None (fl b) \<and> (live \<longleftrightarrow> shown_files E pkg None (truth_of pkg (fl b)) \<noteq> []))"

lemma settled_iff: "rebuilt_truth E b pkg None (Inr v) = settled E b pkg (still_live v)"
  by (simp add: fun_eq_iff rebuilt_truth_def settled_def)

lemma settled_eq: "settled E b pkg live = rebuilt_truth E b pkg None
    (Inr \<lparr>still_live = live, raw_artifacts = [], file_shas = [], rp_views = [], rp_quarantined = None\<rparr>)"
  by (simp add: settled_iff)

lemma stable_drain_settled: "spares_package b pkg G \<Longrightarrow> stable G (settled E b pkg live)"
  unfolding settled_eq by (rule stable_rebuilt)

lemma frames_settled: "X \<inter> (package_dir pkg \<union> set (page_keys pkg)) = {} \<Longrightarrow> frames b X (settled E b pkg live)"
  unfolding settled_eq by (rule frames_rebuilt)

lemma dirty_apart: "dirty_keys \<inter> (package_dir pkg \<union> set (page_keys pkg)) = {}"
  using page_keys_apart(2) by (auto simp: dirty_keys_def package_dir_def starts_with_iff DIRTY_PREFIX_def PACKAGES_PREFIX_def)

lemma intent_dirty: "intent_keys \<subseteq> dirty_keys"
  by (auto simp: intent_keys_def)

lemma package_dirs_apart:
  assumes "CHR ''/'' \<notin> set p" and "CHR ''/'' \<notin> set q" and "p \<noteq> q"
  shows "package_dir p \<inter> package_dir q = {}"
proof -
  have "p = q" if "p @ CHR ''/'' # x = q @ CHR ''/'' # y" for x y
    using that assms(1,2) by (metis append_Cons append_Nil split_once_append option.inject prod.inject)
  then show ?thesis
    using assms(3) by (auto simp: package_dir_def starts_with_iff)
qed

lemma pages_apart: "p \<noteq> q \<Longrightarrow> set (page_keys p) \<inter> set (page_keys q) = {}"
  by (auto simp: page_keys_def dest!: arg_cong [where f = rev])

lemma own_keys_apart:
  assumes "CHR ''/'' \<notin> set p" and "CHR ''/'' \<notin> set q" and "p \<noteq> q"
  shows "own_keys p \<inter> (package_dir q \<union> set (page_keys q)) = {}"
  using package_dirs_apart [OF assms] pages_apart [OF assms(3)] dirty_apart [of q] intent_dirty page_keys_apart(1)
  by (fastforce simp: own_keys_def)

lemma global_apart: "global_keys \<inter> (package_dir q \<union> set (page_keys q)) = {}" "global_keys \<inter> dirty_keys = {}"
  by (auto simp: global_keys_def global_json_key_def global_html_key_def global_html_stamp_key_def package_dir_def page_keys_def dirty_keys_def
      starts_with_iff PACKAGES_PREFIX_def SIMPLE_PREFIX_def STATE_PREFIX_def DIRTY_PREFIX_def Cons_eq_append_conv)

section \<open>The work of a pass\<close>

lemma parse_marker_parts:
  "parse_marker e = Some (p, mk) \<Longrightarrow> mk_key mk = fe_key e \<and> (\<exists>x. fe_key e = DIRTY_PREFIX @ p @ x)"
  by (fastforce simp: parse_marker_def strip_prefix_Some_iff Let_def dest: split_once_SomeD split: option.splits prod.splits)

lemma commit_names_package:
  "parse_marker e = Some (p, mk) \<Longrightarrow> mk_key mk = marker_key pkg n COMMIT_SUFFIX \<Longrightarrow> CHR ''!'' \<notin> set pkg \<Longrightarrow> p = pkg"
  using parse_marker_parts [of e p mk] by (cases e) (simp add: parse_marker_key(1))

lemma work_facts:
  assumes "store_wf s" and "es = entries_at s DIRTY_PREFIX" and "wk \<in> set (consumable_dirty_work es now_s grace)"
  shows "CHR ''/'' \<notin> set (dw_package wk)" and "set (dw_keys wk) \<subseteq> dirty_keys"
    and "marker_key pkg n COMMIT_SUFFIX \<in> set (dw_keys wk) \<Longrightarrow> CHR ''!'' \<notin> set pkg \<Longrightarrow> dw_package wk = pkg"
proof -
  let ?ms = "List.map_filter parse_marker es"
  have wk: "dw_package wk \<in> fst ` set ?ms" "dw_keys wk = map mk_key (markers_of es (dw_package wk))"
    using assms(3) by (force simp: consumable_work_eq)+
  then have ex: "\<exists>e mk. e \<in> set es \<and> parse_marker e = Some (dw_package wk, mk)"
    by (auto simp: set_map_filter)
  have keys: "set (dw_keys wk) = {mk_key mk |e mk. e \<in> set es \<and> parse_marker e = Some (dw_package wk, mk)}"
    unfolding wk(2) markers_of_def by (fastforce simp: set_map_filter image_iff)
  obtain e mk where e: "e \<in> set es" "parse_marker e = Some (dw_package wk, mk)"
    using ex by blast
  show "CHR ''/'' \<notin> set (dw_package wk)"
    using e(1) parse_marker_parts [OF e(2)] assms(1) by (auto simp: assms(2) entries_at_iff)
  show "set (dw_keys wk) \<subseteq> dirty_keys"
    using parse_marker_parts unfolding keys dirty_keys_def by (fastforce simp: starts_with_iff)
  show "dw_package wk = pkg" if mem: "marker_key pkg n COMMIT_SUFFIX \<in> set (dw_keys wk)" and plain: "CHR ''!'' \<notin> set pkg"
  proof -
    obtain e mk where "parse_marker e = Some (dw_package wk, mk)" "mk_key mk = marker_key pkg n COMMIT_SUFFIX"
      using mem unfolding keys by auto
    then show ?thesis
      using commit_names_package plain by blast
  qed
qed

lemma work_distinct: "distinct (map dw_package (consumable_dirty_work es now_s grace))"
  by (simp add: consumable_work_eq comp_def)

section \<open>What the pass owes\<close>

definition gathered :: "string \<Rightarrow> bool \<Rightarrow> drained \<Rightarrow> bool" where
  "gathered pkg live d = (if live then pkg \<in> set (dr_adds d) \<and> pkg \<notin> set (dr_removes d) else pkg \<in> set (dr_removes d))"

text \<open>A marker the pass is going to consume is of a package that is settled and whose membership is in the delta.\<close>

definition due :: "('v, 's) rebuild_env \<Rightarrow> bucket_id \<Rightarrow> string \<Rightarrow> string \<Rightarrow> drained \<Rightarrow> fleet \<Rightarrow> bool" where
  "due E b pkg m d fl = (m \<in> set (dr_consumed d) \<longrightarrow> (\<exists>live. settled E b pkg live fl \<and> gathered pkg live d))"

abbreviation stands :: "bucket_id \<Rightarrow> string \<Rightarrow> fleet \<Rightarrow> bool" where
  "stands b m fl \<equiv> contains_key (fl b) m"

lemma stable_drain_due: "spares_package b pkg G \<Longrightarrow> stable G (due E b pkg m d)"
  using stable_drain_settled unfolding stable_def due_def by blast

lemma frames_due: "X \<inter> (package_dir pkg \<union> set (page_keys pkg)) = {} \<Longrightarrow> frames b X (due E b pkg m d)"
  using frames_settled unfolding frames_def due_def by blast

lemma frames_stands: "m \<notin> X \<Longrightarrow> frames b X (stands b m)"
  by (simp add: frames_def contains_key_def)

lemma account_sets:
  "set (dr_consumed (account wk live d)) = set (dr_consumed d) \<union> set (dw_keys wk)"
  "set (dr_adds (account wk live d)) = set (dr_adds d) \<union> (if live then {dw_package wk} else {})"
  "set (dr_removes (account wk live d)) = set (dr_removes d) \<union> (if live then {} else {dw_package wk})"
  by (simp_all add: account_def)

text \<open>The static side: markers name their package, and a package that is still to come has not been accounted for.\<close>

definition pending :: "string \<Rightarrow> string \<Rightarrow> dirty_work list \<Rightarrow> drained \<Rightarrow> bool" where
  "pending pkg m work d =
     (distinct (map dw_package work)
      \<and> (\<forall>wk\<in>set work. CHR ''/'' \<notin> set (dw_package wk) \<and> set (dw_keys wk) \<subseteq> dirty_keys \<and> (m \<in> set (dw_keys wk) \<longrightarrow> dw_package wk = pkg))
      \<and> set (dr_consumed d) \<subseteq> dirty_keys
      \<and> (pkg \<in> dw_package ` set work \<longrightarrow> pkg \<notin> set (dr_adds d) \<union> set (dr_removes d) \<and> m \<notin> set (dr_consumed d)))"

lemma pending_skip: "pending pkg m (wk # work) d \<Longrightarrow> pending pkg m work d"
  by (auto simp: pending_def)

lemma pending_account: "pending pkg m (wk # work) d \<Longrightarrow> pending pkg m work (account wk live d)"
proof -
  assume pd: "pending pkg m (wk # work) d"
  then have "dw_package wk \<notin> dw_package ` set work" "m \<in> set (dw_keys wk) \<longrightarrow> dw_package wk = pkg"
    by (simp_all add: pending_def)
  then have apart: "dw_package wk \<noteq> pkg \<and> m \<notin> set (dw_keys wk)" if "pkg \<in> dw_package ` set work"
    using that by blast
  show ?thesis
  proof (cases "pkg \<in> dw_package ` set work")
    case True
    then show ?thesis
      using pd apart [OF True] unfolding pending_def account_sets by simp blast
  qed (use pd in \<open>simp add: pending_def account_sets\<close>)
qed

lemma due_account:
  assumes "pending pkg m (wk # work) d" and "due E b pkg m d fl" and "dw_package wk = pkg \<Longrightarrow> settled E b pkg live fl"
  shows "due E b pkg m (account wk live d) fl"
proof (cases "dw_package wk = pkg")
  case True
  then have "gathered pkg live (account wk live d)"
    using assms(1) by (auto simp: pending_def gathered_def account_sets)
  then show ?thesis
    using assms(3) [OF True] by (auto simp: due_def)
next
  case False
  then have "m \<in> set (dr_consumed (account wk live d)) \<longleftrightarrow> m \<in> set (dr_consumed d)" "gathered pkg l (account wk live d) = gathered pkg l d" for l
    using assms(1) by (auto simp: pending_def gathered_def account_sets)
  then show ?thesis
    using assms(2) by (simp add: due_def)
qed

section \<open>The pass\<close>

lemma triple_mark_drained:
  assumes "stable G K" and "frames b dirty_keys K" and "stable G (stands b m)"
  shows "triple G (\<lambda>fl. K fl \<and> stands b m fl) (mark_dirty sha b p) (\<lambda>_ fl. K fl \<and> stands b m fl)"
proof -
  have "stable G (\<lambda>fl. K fl \<and> stands b m fl)"
    by (intro stable_conj assms)
  then have "triple G (\<lambda>fl. K fl \<and> stands b m fl) (mark_commit sha b p n) (\<lambda>_ fl. K fl \<and> stands b m fl)" for n
    unfolding mark_commit_def put_marker_def
    by (rule triple_put_bytes) (auto simp: contains_key_def object_at_store intro: frames_store [OF assms(2)])
  then show ?thesis
    unfolding mark_dirty_def using \<open>stable G (\<lambda>fl. K fl \<and> stands b m fl)\<close>
    by (intro triple_andThen_same writes_onlyD [OF writes_nonces(1) [where X = "{}"]]) (auto simp: frames_def contains_key_def framesD [OF assms(2)])
qed

lemma rebuild_step:
  assumes sp: "spares_package b pkg G" and codec: "\<And>sc. dec_sidecar (rb_sidecars E) (enc_sidecar (rb_sidecars E) sc) = Some sc"
    and st: "stable G (stands b m)" and m: "m \<in> dirty_keys" "m \<notin> intent_keys" and slash: "CHR ''/'' \<notin> set pkg" and pd: "pending pkg m (wk # work) d"
  shows "triple G (\<lambda>fl. cache_sound E c fl \<and> due E b pkg m d fl \<and> stands b m fl) (rebuild_package_indexes E b (dw_package wk) None MarkersHeld c)
    (both (stands b m) (\<lambda>(c', r) fl. cache_sound E c' fl \<and> due E b pkg m d fl \<and> stands b m fl
      \<and> (\<forall>v. r = Inr v \<longrightarrow> due E b pkg m (account wk (still_live v) d) fl)))"
proof -
  let ?p = "dw_package wk" and ?m = "rebuild_package_indexes E b (dw_package wk) None MarkersHeld c"
  have "m \<notin> own_keys ?p"
    using m dirty_apart [of ?p] by (auto simp: own_keys_def)
  then have keep: "triple G (stands b m) ?m (\<lambda>_. stands b m)"
    by (intro writes_onlyD [OF writes_rebuild] frames_stands st)
  show ?thesis
  proof (cases "?p = pkg")
    case True
    then have none: "due E b pkg m d fl" for fl
      using pd by (auto simp: due_def pending_def)
    have "triple G (cache_sound E c) ?m (both (\<lambda>_. True) (\<lambda>(c', r) fl. cache_sound E c' fl \<and> rebuilt_truth E b pkg None r fl))"
      unfolding True by (rule rebuild_truth [OF sp codec])
    from triple_conj [OF this keep] show ?thesis
      by (rule triple_conseq) (auto simp: both_def none settled_iff intro!: due_account [OF pd] split: sum.splits)
  next
    case False
    have "CHR ''/'' \<notin> set ?p"
      using pd by (simp add: pending_def)
    then have "own_keys ?p \<inter> (package_dir pkg \<union> set (page_keys pkg)) = {}"
      using own_keys_apart slash False by blast
    then have "triple G (due E b pkg m d) ?m (\<lambda>_. due E b pkg m d)"
      by (intro writes_onlyD [OF writes_rebuild] frames_due stable_drain_due sp)
    from triple_conj [OF triple_conj [OF memo_rebuild this] keep] show ?thesis
      by (rule triple_conseq) (use False in \<open>auto simp: both_def intro!: due_account [OF pd] split: sum.splits\<close>)
  qed
qed

lemma drain_work_owes:
  assumes sp: "spares_package b pkg G" and codec: "\<And>sc. dec_sidecar (rb_sidecars E) (enc_sidecar (rb_sidecars E) sc) = Some sc"
    and st: "stable G (stands b m)" and m: "m \<in> dirty_keys" "m \<notin> intent_keys" and slash: "CHR ''/'' \<notin> set pkg" and pd: "pending pkg m work d"
  shows "triple G (\<lambda>fl. cache_sound E c fl \<and> due E b pkg m d fl \<and> stands b m fl) (drain_work E b work c d)
    (both (stands b m) (\<lambda>(_, d') fl. due E b pkg m d' fl \<and> stands b m fl \<and> set (dr_consumed d') \<subseteq> dirty_keys))"
  using pd
proof (induction work arbitrary: c d)
  case Nil
  then show ?case
    by (auto intro!: triple_ret simp: pending_def)
next
  case (Cons wk work)
  let ?Q = "both (stands b m) (\<lambda>(_, d') fl. due E b pkg m d' fl \<and> stands b m fl \<and> set (dr_consumed d') \<subseteq> dirty_keys)"
  note skip = Cons.IH [OF pending_skip [OF Cons.prems]] and go = Cons.IH [OF pending_account [OF Cons.prems]]
  have mark: "triple G (\<lambda>fl. (cache_sound E c' fl \<and> due E b pkg m d fl \<and> due E b pkg m d1 fl) \<and> stands b m fl) (mark_dirty (rb_sha E) b p)
      (\<lambda>_ fl. (cache_sound E c' fl \<and> due E b pkg m d fl \<and> due E b pkg m d1 fl) \<and> stands b m fl)" for c' d1 p
    by (intro triple_mark_drained st stable_conj frames_conj lasting_stable lasting_frames lasting_sound stable_drain_due sp frames_due dirty_apart)
  have next1: "triple G (\<lambda>fl. cache_sound E c' fl \<and> due E b pkg m d fl \<and> stands b m fl \<and> due E b pkg m (account wk live d) fl)
      (if stale_intents wk > 0 then onResult (mark_dirty (rb_sha E) b (dw_package wk)) (\<lambda>_. drain_work E b work c' d)
         (\<lambda>_. drain_work E b work c' (account wk live d))
       else drain_work E b work c' (account wk live d)) ?Q" for c' live
    by (intro triple_if triple_pre [OF triple_onResult [OF mark]]) (blast intro: triple_pre [OF skip] triple_pre [OF go])+
  show ?case
    unfolding drain_work.simps
  proof (rule triple_andThen [OF rebuild_step [OF sp codec st m slash Cons.prems]], goal_cases)
    case (1 x)
    obtain c' r where x: "x = (c', r)"
      by fastforce
    show ?case
    proof (cases r)
      case (Inl e)
      then show ?thesis
        by (auto simp: x intro!: triple_pre [OF skip])
    next
      case (Inr v)
      show ?thesis
        unfolding x Inr prod.case sum.case by (rule triple_pre [OF next1]) simp
    qed
  qed simp
qed

text \<open>The marker stands, or the package it names is settled and listed as it should be.\<close>

definition consumed_when_settled :: "('v, 's) rebuild_env \<Rightarrow> bucket_id \<Rightarrow> string \<Rightarrow> string \<Rightarrow> fleet \<Rightarrow> bool" where
  "consumed_when_settled E b pkg m fl =
     (stands b m fl \<or> (\<exists>live. settled E b pkg live fl \<and> (json_lists (rb_index E) b pkg fl \<longleftrightarrow> live)))"

lemma update_lists:
  assumes "json_roundtrip IE" and "ie_leases IE b" and "stable G (json_lists IE b pkg)" and "stable G (\<lambda>fl. \<not> json_lists IE b pkg fl)"
    and "gathered pkg live d"
  shows "triple G (\<lambda>_. True) (update_global_index_uncached IE b (dr_adds d) (dr_removes d))
    (both (\<lambda>_. True) (\<lambda>_ fl. json_lists IE b pkg fl \<longleftrightarrow> live))"
proof -
  have loop: "update_global_index_uncached IE b (dr_adds d) (dr_removes d) = uncached_loop IE b (dr_adds d) (dr_removes d) 4"
    using assms(5) by (auto simp: update_global_index_uncached_def gathered_def split: if_splits)
  show ?thesis
  proof (cases live)
    case True
    then have "observes G IE b (dr_adds d) (dr_removes d) {} (\<lambda>_. True) (lists_name pkg)"
      using assms(5) by (intro observes_add assms(3)) (simp_all add: gathered_def)
    from triple_uncached [OF this assms(1,2), of 4] show ?thesis
      unfolding loop by (rule triple_conseq) (auto simp: both_def True split: sum.splits)
  next
    case False
    then have "observes G IE b (dr_adds d) (dr_removes d) {} (\<lambda>_. True) (\<lambda>j. \<not> lists_name pkg j)"
      using assms(5) by (intro observes_remove assms(4)) (simp_all add: gathered_def)
    from triple_uncached [OF this assms(1,2), of 4] show ?thesis
      unfolding loop by (rule triple_conseq) (auto simp: both_def False split: sum.splits)
  qed
qed

lemma finish_drain:
  assumes sp: "spares_package b pkg G" and st: "stable G (stands b m)" and m: "m \<in> dirty_keys" and cs: "set (dr_consumed d) \<subseteq> dirty_keys"
    and index: "json_roundtrip (rb_index E)" "ie_leases (rb_index E) b"
      "stable G (json_lists (rb_index E) b pkg)" "stable G (\<lambda>fl. \<not> json_lists (rb_index E) b pkg fl)"
  shows "triple G (\<lambda>fl. due E b pkg m d fl \<and> stands b m fl)
    (onResult (update_global_index_uncached (rb_index E) b (dr_adds d) (dr_removes d)) (\<lambda>e. ret (c', Inl e))
      (\<lambda>_. onResult (delete_keys (rb_sha E) b (dr_consumed d)) (\<lambda>_. ret (c', Inr ())) (\<lambda>_. ret (c', Inr ()))))
    (\<lambda>_. consumed_when_settled E b pkg m)" (is "triple G _ (onResult ?upd _ (\<lambda>_. ?del)) ?Q")
proof -
  have keep: "triple G (stands b m) ?upd (\<lambda>_. stands b m)"
    using m global_apart(2) by (intro writes_onlyD [OF writes_uncached] frames_stands st) blast
  show ?thesis
  proof (cases "m \<in> set (dr_consumed d)")
    case False
    then have "triple G (stands b m) ?del (\<lambda>_. stands b m)"
      by (intro writes_onlyD [OF writes_onResult [OF writes_delete_keys [OF subset_refl]]] frames_stands st writes_basic)
    then have "triple G (stands b m) ?del ?Q"
      by (rule triple_conseq) (simp_all add: consumed_when_settled_def)
    then have "triple G (stands b m) (onResult ?upd (\<lambda>e. ret (c', Inl e)) (\<lambda>_. ?del)) ?Q"
      by (intro triple_onResult [OF keep] triple_ret) (simp_all add: consumed_when_settled_def)
    then show ?thesis
      by (rule triple_pre) simp
  next
    case True
    have "triple G (\<lambda>fl. settled E b pkg live fl \<and> stands b m fl) (onResult ?upd (\<lambda>e. ret (c', Inl e)) (\<lambda>_. ?del)) ?Q" if ga: "gathered pkg live d" for live
    proof -
      let ?J = "\<lambda>fl. json_lists (rb_index E) b pkg fl \<longleftrightarrow> live" and ?S = "settled E b pkg live"
      have S: "stable G ?S" "frames b dirty_keys ?S" "frames b global_keys ?S"
        by (intro stable_drain_settled sp frames_settled dirty_apart global_apart)+
      have "global_json_key \<notin> dirty_keys"
        using global_apart(2) in_global_keys(1) by blast
      then have J: "frames b dirty_keys ?J" "stable G ?J"
        using frames_json_state [where Z = "\<lambda>j. lists_name pkg j \<longleftrightarrow> live"] index(3,4) by (blast, auto simp: stable_def)
      have "triple G ?S ?upd (\<lambda>_. ?S)"
        by (intro writes_onlyD [OF writes_uncached] S)
      from triple_conj [OF triple_conj [OF this keep] update_lists [OF index ga]]
      have upd: "triple G (\<lambda>fl. ?S fl \<and> stands b m fl) ?upd (both (stands b m) (\<lambda>_ fl. ?S fl \<and> ?J fl))"
        by (rule triple_conseq) (auto simp: both_def split: sum.splits)
      have "writes_only b dirty_keys ?del"
        by (intro writes_onResult writes_delete_keys cs writes_basic)
      then have "triple G (\<lambda>fl. ?S fl \<and> ?J fl) ?del (\<lambda>_ fl. ?S fl \<and> ?J fl)"
        by (rule writes_onlyD) (intro frames_conj stable_conj S J)+
      then have del: "triple G (\<lambda>fl. ?S fl \<and> ?J fl) ?del ?Q"
        by (rule triple_conseq) (auto simp: consumed_when_settled_def)
      show ?thesis
        by (rule triple_onResult [OF upd]) (rule triple_pre [OF del], simp, rule triple_ret, simp add: consumed_when_settled_def)
    qed
    then have "triple G (\<lambda>fl. \<exists>live. settled E b pkg live fl \<and> gathered pkg live d \<and> stands b m fl) (onResult ?upd (\<lambda>e. ret (c', Inl e)) (\<lambda>_. ?del)) ?Q"
      by (intro triple_ex) (unfold triple_def, blast)
    then show ?thesis
      by (rule triple_pre) (use True in \<open>auto simp: due_def\<close>)
  qed
qed

lemma drain_owes:
  assumes sp: "spares_package b pkg G" and codec: "\<And>sc. dec_sidecar (rb_sidecars E) (enc_sidecar (rb_sidecars E) sc) = Some sc"
    and st: "stable G (stands b m)" and m: "m = marker_key pkg nonce COMMIT_SUFFIX" and plain: "CHR ''/'' \<notin> set pkg" "CHR ''!'' \<notin> set pkg"
    and index: "json_roundtrip (rb_index E)" "ie_leases (rb_index E) b"
      "stable G (json_lists (rb_index E) b pkg)" "stable G (\<lambda>fl. \<not> json_lists (rb_index E) b pkg fl)"
  shows "triple G (\<lambda>fl. cache_sound E c fl \<and> stands b m fl) (drain_dirty_uncached E b c) (\<lambda>_. consumed_when_settled E b pkg m)" (is "triple G ?P _ ?Q")
proof -
  let ?d0 = "\<lparr>dr_adds = [], dr_removes = [], dr_consumed = []\<rparr>"
  have dirty: "m \<in> dirty_keys"
    by (simp add: m)
  have commit: "m \<notin> intent_keys"
    using suffixes_distinct(2) unfolding m intent_keys_def marker_key_def by (auto simp: ends_with_iff) (metis append_assoc append_Cons)
  have P: "stable G ?P"
    by (intro stable_conj lasting_stable lasting_sound st)
  have done1: "?Q r fl" if "stands b m fl" for r :: "(sidecar_cache \<times> unit res) res" and fl
    using that by (simp add: consumed_when_settled_def)
  have pass: "triple G ?P (andThen (drain_work E b (consumable_dirty_work es (rb_now E) (rb_grace E)) c ?d0) (\<lambda>(c', d).
        onResult (update_global_index_uncached (rb_index E) b (dr_adds d) (dr_removes d)) (\<lambda>e. ret (c', Inl e))
          (\<lambda>_. onResult (delete_keys (rb_sha E) b (dr_consumed d)) (\<lambda>_. ret (c', Inr ())) (\<lambda>_. ret (c', Inr ()))))) ?Q"
    if es: "store_wf s" "es = entries_at s DIRTY_PREFIX" for es s
  proof -
    have "pending pkg m (consumable_dirty_work es (rb_now E) (rb_grace E)) ?d0"
      using work_facts [OF es] plain(2) by (auto simp: pending_def work_distinct m)
    note work = drain_work_owes [OF sp codec st dirty commit plain(1) this]
    have finish: "triple G (\<lambda>fl. due E b pkg m d fl \<and> stands b m fl \<and> set (dr_consumed d) \<subseteq> dirty_keys)
        (onResult (update_global_index_uncached (rb_index E) b (dr_adds d) (dr_removes d)) (\<lambda>e. ret (c', Inl e))
          (\<lambda>_. onResult (delete_keys (rb_sha E) b (dr_consumed d)) (\<lambda>_. ret (c', Inr ())) (\<lambda>_. ret (c', Inr ())))) ?Q" for c' d
      using finish_drain [OF sp st dirty _ index] by (cases "set (dr_consumed d) \<subseteq> dirty_keys") (simp_all add: triple_false)
    have "triple G (\<lambda>fl. cache_sound E c fl \<and> due E b pkg m ?d0 fl \<and> stands b m fl)
        (andThen (drain_work E b (consumable_dirty_work es (rb_now E) (rb_grace E)) c ?d0) (\<lambda>(c', d).
        onResult (update_global_index_uncached (rb_index E) b (dr_adds d) (dr_removes d)) (\<lambda>e. ret (c', Inl e))
          (\<lambda>_. onResult (delete_keys (rb_sha E) b (dr_consumed d)) (\<lambda>_. ret (c', Inr ())) (\<lambda>_. ret (c', Inr ()))))) ?Q"
      by (rule triple_andThen [OF work]) (auto intro: finish done1 split: prod.splits)
    then show ?thesis
      by (rule triple_pre) (simp add: due_def)
  qed
  show ?thesis
    unfolding drain_dirty_uncached_def
  proof (rule triple_onResult [OF triple_entries [OF P]], goal_cases)
    case (1 es)
    show ?case
    proof (rule triple_pre [OF triple_ex [where P = "\<lambda>s fl. ?P fl \<and> store_wf s \<and> es = entries_at s DIRTY_PREFIX"]], goal_cases)
      case (1 s)
      show ?case
        using pass [of s es] by (cases "store_wf s \<and> es = entries_at s DIRTY_PREFIX") (auto intro!: triple_if triple_ret done1 simp: triple_false)
    qed (auto simp: fleet_wf_def)
  qed (auto intro!: triple_ret done1)
qed

section \<open>Properties\<close>

text \<open>
  C20: the drain of a destination bucket forgets no event. Take a commit marker of a package that stands
  when the drain starts, other processes that leave this package, this marker and the membership of the
  package in the global index alone, and any failed call, lost answer or crash. When the drain ends,
  with whatever result, the marker still stands, or the pages of the package show what is stored and the
  stored global index lists the package exactly if it has something to show.
\<close>

theorem drain_consumes_only_settled_events:
  assumes "spares_package b pkg G" and "\<And>sc. dec_sidecar (rb_sidecars E) (enc_sidecar (rb_sidecars E) sc) = Some sc"
    and "json_roundtrip (rb_index E)" and "ie_leases (rb_index E) b"
    and "stable G (json_lists (rb_index E) b pkg)" and "stable G (\<lambda>fl. \<not> json_lists (rb_index E) b pkg fl)"
    and "m = marker_key pkg nonce COMMIT_SUFFIX" and "CHR ''/'' \<notin> set pkg" and "CHR ''!'' \<notin> set pkg"
    and "stable G (\<lambda>fl. contains_key (fl b) m)" and "obeys G w" and "cache_wf c" and "cache_exact E c (buckets w)" and "contains_key (buckets w b) m"
    and "drain_dirty_uncached E b c w = (r, w')"
  shows "contains_key (buckets w' b) m
    \<or> (pages_show E pkg None (buckets w' b)
       \<and> (json_lists (rb_index E) b pkg (buckets w') \<longleftrightarrow> shown_files E pkg None (truth_of pkg (buckets w' b)) \<noteq> []))"
proof -
  have "consumed_when_settled E b pkg m (buckets w')"
    using tripleD [OF drain_owes [OF assms(1,2,10,7,8,9,3,4,5,6)] assms(11) _ assms(15)] assms(12,13,14) by (simp add: cache_sound_def)
  then show ?thesis
    by (auto simp: consumed_when_settled_def settled_def)
qed

section \<open>Witnesses\<close>

text \<open>A bucket with a file and the commit marker of its upload; a peer publishes another package, one call is refused, one loses its answer.\<close>

definition marked_bucket :: inner where
  "marked_bucket = snd (store (\<lambda>bs. bs) ''_dirty/six!07.commit'' [] bare_bucket)"

definition draining :: world where
  "draining = (quiet (\<lambda>_. marked_bucket))\<lparr>script := [Answered publish_other, Answered id, Refused (HttpStatus 503) publish_other, Unanswered Timeout id]\<rparr>"

theorem drain_consumes_only_settled_events_witness:
  "let w' = snd (drain_dirty_uncached quiet_env 0 empty_cache draining)
   in contains_key (buckets draining 0) ''_dirty/six!07.commit''
     \<and> (contains_key (buckets w' 0) ''_dirty/six!07.commit''
        \<or> (pages_show quiet_env ''six'' None (buckets w' 0)
           \<and> (json_lists unary_env 0 ''six'' (buckets w') \<longleftrightarrow> shown_files quiet_env ''six'' None (truth_of ''six'' (buckets w' 0)) \<noteq> [])))"
proof -
  let ?G = "\<lambda>fl fl'. fl' = fl \<or> fl' = publish_other fl" and ?m = "''_dirty/six!07.commit''"
  obtain r w' where run: "drain_dirty_uncached quiet_env 0 empty_cache draining = (r, w')"
    by fastforce
  have "store_wf marked_bucket"
    by (simp add: marked_bucket_def bare_bucket_def store_wf_store store_wf_default)
  then have obeys: "obeys ?G draining"
    by (auto simp: obeys_def draining_def quiet_def publish_other_def fleet_wf_def fleet_evolves_def store_wf_store store_evolves evolves_same_objects)
  have codec: "dec_sidecar (rb_sidecars quiet_env) (enc_sidecar (rb_sidecars quiet_env) sc) = Some sc" for sc
    by (simp add: quiet_env_def field_codec_roundtrip)
  have env: "rb_index quiet_env = unary_env"
    by (simp add: quiet_env_def)
  have other: "json_state unary_env 0 (publish_other fl) = json_state unary_env 0 fl" for fl
    by (simp add: json_state_def publish_other_def object_at_store global_json_key_def SIMPLE_PREFIX_def)
  have index: "json_roundtrip (rb_index quiet_env)" "ie_leases (rb_index quiet_env) 0" "stable ?G (json_lists (rb_index quiet_env) 0 ''six'')"
      "stable ?G (\<lambda>fl. \<not> json_lists (rb_index quiet_env) 0 ''six'' fl)"
    using unary_roundtrip other by (auto simp: env stable_def) (simp add: unary_env_def)
  have key: "?m = marker_key ''six'' ''07'' COMMIT_SUFFIX"
    by (simp add: marker_key_def DIRTY_PREFIX_def COMMIT_SUFFIX_def)
  have stays: "stable ?G (\<lambda>fl. contains_key (fl 0) ?m)" and start: "contains_key (buckets draining 0) ?m"
    by (auto simp: stable_def publish_other_def contains_key_def object_at_store draining_def quiet_def marked_bucket_def)
  from drain_consumes_only_settled_events [OF publish_other_spares codec index key _ _ stays obeys empty_cache_wf cache_exact_empty start run] show ?thesis
    using start env by (simp add: run)
qed

end
