(* ===== verification/Transparency.thy ===== *)
theory Transparency
  imports Repl_Notes Frames
begin

text \<open>
  The transparency chain (\<open>src/transparency.rs\<close>, and the append of \<open>src/worker.rs\<close>): hash-chained
  checkpoints of the digests of every file, kept on every bucket, the reconciliation of the fleet before
  an append, the append itself, and the replay that finds rewritten artifacts.
  A bucket's name is only printed, so a replica is its bucket. Serialization of a link and the time stamp
  are parameters, and so is the generation of the write pin, which another task of the process may change.
  Two reads of a \<open>try_join\<close>, and the probes of a chunk, run one after the other. What the verification prints is its result here.
\<close>

section \<open>Definitions\<close>

definition SEQ_WIDTH :: nat where "SEQ_WIDTH = 16"

type_synonym file_shas = "(string, string) btree"
type_synonym delta = "(string, file_shas) btree"

definition chain_key :: "u64 \<Rightarrow> string" where
  "chain_key seq =
     (let digits = show_nat (unat seq)
      in CHAIN_PREFIX @ replicate (SEQ_WIDTH - length digits) (CHR ''0'') @ digits @ ''.json'')"

definition seq_from_key :: "string \<Rightarrow> u64 option" where
  "seq_from_key key =
     Option.bind (strip_prefix key CHAIN_PREFIX) (\<lambda>rest. Option.bind (strip_suffix rest ''.json'') parse_u64)"

record chain_link =
  ln_seq :: u64
  prev_sha256 :: string
  created :: string
  ln_packages :: delta

record chain_env =
  ch_sha :: "bytes \<Rightarrow> bytes"
  link_bytes :: "chain_link \<Rightarrow> bytes option"
  parse_link :: "bytes \<Rightarrow> chain_link option"
  ch_sidecars :: sidecar_codec
  sidecar_fault :: "bytes \<Rightarrow> string"
  now_rfc3339 :: "string option"
  pin_generation_now :: "world \<Rightarrow> u64"

subsection \<open>Reading a chain\<close>

definition seqs_of :: "object_meta list \<Rightarrow> u64 list" where
  "seqs_of entries = List.map_filter (\<lambda>ob. seq_from_key (om_key ob)) entries"

definition read_head :: "bucket_id \<Rightarrow> (u64 \<times> bytes) option act" where
  "read_head b =
     andThen (list_all_objects b CHAIN_PREFIX) (\<lambda>entries.
       case seqs_of entries of
         [] \<Rightarrow> ret None
       | s # ss \<Rightarrow> (let top_seq = fold max ss s in andThen (get_bytes b (chain_key top_seq)) (\<lambda>bs. ret (Some (top_seq, bs)))))"

definition chain_seqs :: "bucket_id \<Rightarrow> u64 set act" where
  "chain_seqs b = andThen (list_all_objects b CHAIN_PREFIX) (\<lambda>entries. ret (set (seqs_of entries)))"

subsection \<open>Reconciling the fleet\<close>

datatype copied = LandedLink | DivergedLink

datatype catch_up = Synced | Forked

definition copy_link :: "chain_env \<Rightarrow> bucket_id \<Rightarrow> u64 \<Rightarrow> bytes \<Rightarrow> copied act" where
  "copy_link E dst seq bs =
     andThen (put_if_none_match (ch_sha E) dst (chain_key seq) bs) (\<lambda>r.
       if r = None then andThen (get_bytes dst (chain_key seq)) (\<lambda>held. ret (if held \<noteq> bs then DivergedLink else LandedLink))
       else ret LandedLink)"

fun probe_links :: "bucket_id \<Rightarrow> bucket_id \<Rightarrow> u64 list \<Rightarrow> u64 option act" where
  "probe_links pinned peer [] = ret None"
| "probe_links pinned peer (seq # seqs) =
     andThen (get_bytes pinned (chain_key seq)) (\<lambda>mine.
     andThen (get_bytes peer (chain_key seq)) (\<lambda>theirs.
       if mine \<noteq> theirs then ret (Some seq) else probe_links pinned peer seqs))"

definition first_contradiction :: "bucket_id \<Rightarrow> bucket_id \<Rightarrow> u64 set \<Rightarrow> u64 set \<Rightarrow> u64 option act" where
  "first_contradiction pinned peer ours theirs =
     (let shared = sorted_list_of_set (ours \<inter> theirs)
      in probe_links pinned peer (if shared = [] then [] else sorted_list_of_set {hd shared, last shared}))"

text \<open>The set of seqs grows with every link that arrives, also when a later one fails.\<close>

fun pull_links :: "chain_env \<Rightarrow> bucket_id \<Rightarrow> bucket_id \<Rightarrow> u64 list \<Rightarrow> u64 set \<Rightarrow> (u64 set \<times> unit res) act" where
  "pull_links E pinned peer [] ours = ret (ours, Inr ())"
| "pull_links E pinned peer (seq # seqs) ours =
     onResult (get_bytes peer (chain_key seq)) (\<lambda>e. ret (ours, Inl e)) (\<lambda>bs.
     onResult (copy_link E pinned seq bs) (\<lambda>e. ret (ours, Inl e)) (\<lambda>r.
       if r = DivergedLink then ret (ours, Inl (Bail ''chain link contradicts the link already held at that seq''))
       else pull_links E pinned peer seqs (insert seq ours)))"

fun push_links :: "chain_env \<Rightarrow> bucket_id \<Rightarrow> bucket_id \<Rightarrow> u64 list \<Rightarrow> catch_up act" where
  "push_links E pinned peer [] = ret Synced"
| "push_links E pinned peer (seq # seqs) =
     onResult (get_bytes pinned (chain_key seq)) (\<lambda>_. ret Synced) (\<lambda>bs.
     onResult (copy_link E peer seq bs) (\<lambda>_. ret Synced) (\<lambda>r.
       if r = DivergedLink then ret Forked else push_links E pinned peer seqs))"

definition catch_up_replica :: "chain_env \<Rightarrow> bucket_id \<Rightarrow> bucket_id \<Rightarrow> u64 set \<Rightarrow> u64 set \<Rightarrow> (u64 set \<times> catch_up res) act" where
  "catch_up_replica E pinned peer ours theirs =
     onResult (first_contradiction pinned peer ours theirs) (\<lambda>e. ret (ours, Inl e)) (\<lambda>r.
       if r \<noteq> None then ret (ours, Inr Forked)
       else
         (let pull = sorted_list_of_set (theirs - ours); push = sorted_list_of_set (ours - theirs)
          in andThen (pull_links E pinned peer pull ours) (\<lambda>(ours', pulled).
               case pulled of
                 Inl e \<Rightarrow> ret (ours', Inl e)
               | Inr _ \<Rightarrow> andThen (push_links E pinned peer push) (\<lambda>c. ret (ours', Inr c)))))"

fun catch_up_peers :: "chain_env \<Rightarrow> bucket_id \<Rightarrow> nat \<Rightarrow> (nat \<times> bucket_id) list \<Rightarrow> u64 set \<Rightarrow> nat list \<Rightarrow> bool \<Rightarrow> (nat list \<times> bool) act" where
  "catch_up_peers E pinned primary [] ours in_sync deferring = ret (in_sync, deferring)"
| "catch_up_peers E pinned primary ((pos, peer) # peers) ours in_sync deferring =
     (if pos = primary then catch_up_peers E pinned primary peers ours in_sync deferring
      else
        onResult (chain_seqs peer) (\<lambda>_. catch_up_peers E pinned primary peers ours in_sync True) (\<lambda>theirs.
        andThen (catch_up_replica E pinned peer ours theirs) (\<lambda>(ours', r).
          case r of
            Inr Synced \<Rightarrow> catch_up_peers E pinned primary peers ours' (in_sync @ [pos]) deferring
          | Inr Forked \<Rightarrow> catch_up_peers E pinned primary peers ours' in_sync deferring
          | Inl _ \<Rightarrow> catch_up_peers E pinned primary peers ours' in_sync True)))"

text \<open>The positions of the buckets a link may be created on; none when the head cannot be vouched for.\<close>

definition catch_up_fleet :: "chain_env \<Rightarrow> bucket_id list \<Rightarrow> nat \<Rightarrow> nat list act" where
  "catch_up_fleet E fleet primary =
     (if primary \<ge> length fleet then ret []
      else
        onResult (chain_seqs (fleet ! primary)) (\<lambda>_. ret []) (\<lambda>ours.
        andThen (catch_up_peers E (fleet ! primary) primary (zip [0..<length fleet] fleet) ours [primary] False) (\<lambda>(in_sync, deferring).
          ret (if deferring then [] else sort in_sync))))"

subsection \<open>Appending a checkpoint\<close>

fun mirror_link :: "chain_env \<Rightarrow> bucket_id list \<Rightarrow> nat \<Rightarrow> u64 \<Rightarrow> bytes \<Rightarrow> nat list \<Rightarrow> unit act" where
  "mirror_link E fleet decider seq bs [] = ret ()"
| "mirror_link E fleet decider seq bs (pos # poss) =
     (if pos = decider \<or> pos \<ge> length fleet then mirror_link E fleet decider seq bs poss
      else onResult (copy_link E (fleet ! pos) seq bs)
             (\<lambda>_. mirror_link E fleet decider seq bs poss) (\<lambda>_. mirror_link E fleet decider seq bs poss))"

definition require_generation :: "app_state \<Rightarrow> chain_env \<Rightarrow> u64 \<Rightarrow> unit act" where
  "require_generation st E expected w =
     (if fenced (st_exec st) w then (Inl (Bail ''bucket topology mismatch; audit mutations are fenced''), w)
      else if pin_generation_now E w \<noteq> expected then (Inl (Bail ''bucket selection generation changed''), w)
      else (Inr (), w))"

definition chains_on :: "chain_env \<Rightarrow> (u64 \<times> bytes) option \<Rightarrow> u64 \<Rightarrow> string \<Rightarrow> bool" where
  "chains_on E arbiter_head seq prev =
     (case arbiter_head of
        None \<Rightarrow> True
      | Some (head_seq, bs) \<Rightarrow> head_seq < seq \<and> (head_seq + 1 \<noteq> seq \<or> sha256_hex (ch_sha E) bs = prev))"

text \<open>The create that decides the seq, and the copies to the other consistent buckets.\<close>

definition write_link :: "chain_env \<Rightarrow> bucket_id list \<Rightarrow> nat \<Rightarrow> nat list \<Rightarrow> u64 \<Rightarrow> string \<Rightarrow> delta \<Rightarrow> bool act" where
  "write_link E fleet decider in_sync seq prev dl =
     (case Option.bind (now_rfc3339 E) (\<lambda>t. link_bytes E \<lparr>ln_seq = seq, prev_sha256 = prev, created = t, ln_packages = dl\<rparr>) of
        None \<Rightarrow> ret False
      | Some bs \<Rightarrow>
          onResult (put_if_none_match (ch_sha E) (fleet ! decider) (chain_key seq) bs) (\<lambda>_. ret False) (\<lambda>r.
            if r \<noteq> None then andThen (mirror_link E fleet decider seq bs in_sync) (\<lambda>_. ret True) else ret False))"

text \<open>The next seq, and the arbiter's own head when the decider is not the pin.\<close>

definition decide_link :: "chain_env \<Rightarrow> bucket_id list \<Rightarrow> nat \<Rightarrow> nat \<Rightarrow> nat list \<Rightarrow> (u64 \<times> string) option \<Rightarrow> delta \<Rightarrow> bool act" where
  "decide_link E fleet primary decider in_sync head dl =
     (let (seq, prev) = (case head of Some (s, h) \<Rightarrow> (s + 1, h) | None \<Rightarrow> (0, []))
      in if decider = primary then write_link E fleet decider in_sync seq prev dl
         else onResult (read_head (fleet ! decider)) (\<lambda>_. ret False) (\<lambda>arbiter_head.
                if chains_on E arbiter_head seq prev then write_link E fleet decider in_sync seq prev dl else ret False))"

definition append_chain_link ::
  "app_state \<Rightarrow> chain_env \<Rightarrow> bucket_id list \<Rightarrow> nat \<Rightarrow> nat list \<Rightarrow> u64 \<Rightarrow> (u64 \<times> string) option \<Rightarrow> delta \<Rightarrow> bool act" where
  "append_chain_link st E fleet primary in_sync gen walk_head dl =
     (case in_sync of
        [] \<Rightarrow> ret False
      | decider # _ \<Rightarrow>
          if primary \<ge> length fleet \<or> decider \<ge> length fleet then ret False
          else
            onResult (require_generation st E gen) (\<lambda>_. ret False) (\<lambda>_.
            onResult (read_head (fleet ! primary)) (\<lambda>_. ret False) (\<lambda>head_now.
              let head = map_option (\<lambda>(s, bs). (s, sha256_hex (ch_sha E) bs)) head_now in
              if head \<noteq> walk_head then ret False
              else decide_link E fleet primary decider in_sync head dl)))"

definition singleton_replicas :: "app_state \<Rightarrow> nat \<Rightarrow> world \<Rightarrow> nat list" where
  "singleton_replicas st primary w =
     (if \<not> is_multi (st_buckets st) \<or> fenced (st_exec st) w then []
      else filter (\<lambda>i. i \<noteq> primary \<and> replication_eligible st w i) [0..<length (st_handles st)])"

text \<open>The pinned bucket and its eligible peers in configuration order; a peer is found by its name.\<close>

definition chain_bucket :: "app_state \<Rightarrow> nat \<Rightarrow> nat list \<Rightarrow> nat \<Rightarrow> bucket_id option" where
  "chain_bucket st pinned peers i =
     (if i = pinned then Some (bucket_of st pinned)
      else map_option (bucket_of st) (List.find (\<lambda>j. bh_name (st_handles st ! j) = bh_name (st_handles st ! i)) peers))"

definition write_chain_link :: "app_state \<Rightarrow> chain_env \<Rightarrow> nat \<Rightarrow> u64 \<Rightarrow> (u64 \<times> string) option \<Rightarrow> delta \<Rightarrow> bool act" where
  "write_chain_link st E pinned gen walk_head dl w =
     (if pinned \<ge> length (st_handles st) then ret False
      else
        (let peers = singleton_replicas st pinned w;
             fleet = List.map_filter (chain_bucket st pinned peers) [0..<length (st_handles st)];
             primary = length (List.map_filter (chain_bucket st pinned peers) [0..<pinned])
         in andThen (catch_up_fleet E fleet primary) (\<lambda>in_sync.
              if dl = [] then ret True
              else if in_sync = [] then ret False
              else append_chain_link st E fleet primary in_sync gen walk_head dl))) w"

subsection \<open>Verifying chains\<close>

text \<open>An empty map removes the package.\<close>

definition apply_link :: "chain_link \<Rightarrow> delta \<Rightarrow> delta" where
  "apply_link link state = fold (\<lambda>(pkg, files) s. if files = [] then bt_remove pkg s else bt_insert pkg files s) (ln_packages link) state"

definition replay :: "chain_link list \<Rightarrow> delta" where
  "replay links = fold apply_link links []"

record violation =
  vi_kind :: string
  vi_package :: string
  vi_detail :: string

type_synonym stored_link = "u64 \<times> bytes \<times> chain_link"

abbreviation show_u64 :: "u64 \<Rightarrow> string" where
  "show_u64 n \<equiv> show_nat (unat n)"

definition chain_fault :: "string \<Rightarrow> string \<Rightarrow> violation" where
  "chain_fault kind detail = \<lparr>vi_kind = kind, vi_package = [], vi_detail = detail\<rparr>"

definition check_link :: "(bytes \<Rightarrow> bytes) \<Rightarrow> stored_link option \<Rightarrow> stored_link \<Rightarrow> violation list" where
  "check_link sha prev l =
     (let (seq, _, link) = l in
      (if ln_seq link \<noteq> seq then [chain_fault ''seq-mismatch'' (''link file seq '' @ show_u64 seq @ '' but its body says '' @ show_u64 (ln_seq link))] else [])
      @ (case prev of
           None \<Rightarrow>
             (if prev_sha256 link \<noteq> [] then [chain_fault ''bad-genesis'' (''lowest link seq '' @ show_u64 seq @ '' must have an empty prev-sha256'')] else [])
             @ (if seq \<noteq> 0
                then [chain_fault ''bad-genesis'' (''chain starts at seq '' @ show_u64 seq @ '', not 0: links 0..'' @ show_u64 (seq - 1)
                        @ '' are missing and the chain cannot be replayed from its genesis'')] else [])
         | Some (prev_seq, prev_bytes, _) \<Rightarrow>
             (if seq \<noteq> prev_seq + 1 then [chain_fault ''gap'' (''seq jumps from '' @ show_u64 prev_seq @ '' to '' @ show_u64 seq)] else [])
             @ (if prev_sha256 link \<noteq> sha256_hex sha prev_bytes
                then [chain_fault ''broken-link'' (''seq '' @ show_u64 seq @ '' prev-sha256 does not match seq '' @ show_u64 prev_seq @ [CHR 0x27] @ ''s bytes'')] else [])))"

fun check_from :: "(bytes \<Rightarrow> bytes) \<Rightarrow> stored_link option \<Rightarrow> stored_link list \<Rightarrow> violation list" where
  "check_from sha prev [] = []"
| "check_from sha prev (l # links) = check_link sha prev l @ check_from sha (Some l) links"

definition check_integrity :: "(bytes \<Rightarrow> bytes) \<Rightarrow> stored_link list \<Rightarrow> violation list" where
  "check_integrity sha links = check_from sha None links"

fun load_links :: "chain_env \<Rightarrow> bucket_id \<Rightarrow> (u64 \<times> string) list \<Rightarrow> stored_link list act" where
  "load_links E b [] = ret []"
| "load_links E b ((seq, key) # entries) =
     andThen (get_bytes b key) (\<lambda>bs.
       case parse_link E bs of
         None \<Rightarrow> fail (Bail ''parsing chain link'')
       | Some link \<Rightarrow> andThen (load_links E b entries) (\<lambda>links. ret ((seq, bs, link) # links)))"

definition load_chain :: "chain_env \<Rightarrow> bucket_id \<Rightarrow> stored_link list act" where
  "load_chain E b =
     andThen (list_all_objects b CHAIN_PREFIX) (\<lambda>entries.
       load_links E b (sort_key fst (List.map_filter (\<lambda>ob. map_option (\<lambda>seq. (seq, om_key ob)) (seq_from_key (om_key ob))) entries)))"

definition chain_head :: "stored_link list \<Rightarrow> u64 option" where
  "chain_head links = (if links = [] then None else Some (fst (last links)))"

record fingerprint_change =
  fc_package :: string
  fc_filename :: string
  old_sha :: string
  new_sha :: string
  from_seq :: u64
  to_seq :: u64

text \<open>One committed file: compared with the last commitment of the same name, and remembered for good.\<close>

definition commit_file ::
  "u64 \<Rightarrow> string \<Rightarrow> string \<times> string \<Rightarrow> (string \<times> string \<Rightarrow> (string \<times> u64) option) \<times> fingerprint_change list
    \<Rightarrow> (string \<times> string \<Rightarrow> (string \<times> u64) option) \<times> fingerprint_change list" where
  "commit_file seq pkg f acc =
     (let (filename, sha) = f; (history, changes) = acc
      in (history((pkg, filename) \<mapsto> (sha, seq)),
          case history (pkg, filename) of
            Some (old, from) \<Rightarrow>
              if old \<noteq> sha
              then changes @ [\<lparr>fc_package = pkg, fc_filename = filename, old_sha = old, new_sha = sha, from_seq = from, to_seq = seq\<rparr>]
              else changes
          | None \<Rightarrow> changes))"

definition in_chain_sha_changes :: "stored_link list \<Rightarrow> fingerprint_change list" where
  "in_chain_sha_changes links =
     snd (fold (\<lambda>(seq, _, link). fold (\<lambda>(pkg, files). fold (commit_file seq pkg) files) (ln_packages link)) links (\<lambda>_. None, []))"

datatype presence = MatchingSha | WrongSha string | CorruptSidecar string | Covered | AbsentFile

definition absence :: "bucket_id \<Rightarrow> string \<Rightarrow> presence act" where
  "absence b base =
     andThen (head_exists b (base @ TOMBSTONE_SUFFIX)) (\<lambda>tombstoned.
     andThen (head_exists b (base @ MIRROR_QUARANTINED_SUFFIX)) (\<lambda>demoted.
       ret (if tombstoned \<or> demoted then Covered else AbsentFile)))"

definition probe_presence :: "chain_env \<Rightarrow> bucket_id \<Rightarrow> string \<Rightarrow> string \<Rightarrow> string \<Rightarrow> presence act" where
  "probe_presence E b pkg filename expected =
     (let base = PACKAGES_PREFIX @ pkg @ ''/'' @ filename in
      onResult (get_bytes b (base @ SIDECAR_SUFFIX))
        (\<lambda>e. if is_not_found e then absence b base else fail e)
        (\<lambda>bs. case dec_sidecar (ch_sidecars E) bs of
                Some sc \<Rightarrow>
                  if sha256 sc = expected then andThen (head_exists b base) (\<lambda>there. if there then ret MatchingSha else absence b base)
                  else ret (WrongSha (sha256 sc))
              | None \<Rightarrow> ret (CorruptSidecar (sidecar_fault E bs))))"

definition or_default_seq :: "u64 option \<Rightarrow> u64" where
  "or_default_seq s = (case s of Some n \<Rightarrow> n | None \<Rightarrow> 0)"

fun join_names :: "string list \<Rightarrow> string" where
  "join_names [] = []"
| "join_names [n] = n"
| "join_names (n # ns) = n @ '','' @ join_names ns"

record chain_report =
  vr_violations :: "(string \<times> violation) list"
  vr_lagging :: "(string \<times> u64 option) list"
  vr_changes :: "fingerprint_change list"
  vr_ok :: bool

fun load_chains :: "chain_env \<Rightarrow> (string \<times> bucket_id) list \<Rightarrow> (string \<times> bucket_id \<times> stored_link list) list act" where
  "load_chains E [] = ret []"
| "load_chains E ((name, b) # bs) =
     andThen (load_chain E b) (\<lambda>links. andThen (load_chains E bs) (\<lambda>rest. ret ((name, b, links) # rest)))"

text \<open>\<open>max_by_key\<close> on the head: of several longest chains, the last.\<close>

definition reference_chain :: "(bytes \<Rightarrow> bytes) \<Rightarrow> (string \<times> bucket_id \<times> stored_link list) list \<Rightarrow> nat option" where
  "reference_chain sha loaded =
     (let head = (\<lambda>i. or_default_seq (chain_head (snd (snd (loaded ! i)))));
          usable = filter (\<lambda>i. check_integrity sha (snd (snd (loaded ! i))) = [] \<and> snd (snd (loaded ! i)) \<noteq> []) [0..<length loaded]
      in fold (\<lambda>i best. case best of None \<Rightarrow> Some i | Some j \<Rightarrow> if head j \<le> head i then Some i else Some j) usable None)"

definition diverged_at :: "(bytes \<Rightarrow> bytes) \<Rightarrow> stored_link list \<Rightarrow> stored_link list \<Rightarrow> u64 option" where
  "diverged_at sha ref_links links =
     (let ref_shas = map_of (rev (map (\<lambda>(s, bs, _). (s, sha256_hex sha bs)) ref_links))
      in map_option fst (List.find (\<lambda>(s, bs, _). ref_shas s \<noteq> Some (sha256_hex sha bs)) links))"

text \<open>The dash of the message, in UTF-8.\<close>

definition em_dash :: string where "em_dash = [CHR 0xE2, CHR 0x80, CHR 0x94]"

definition integrity_rows :: "(bytes \<Rightarrow> bytes) \<Rightarrow> (string \<times> bucket_id \<times> stored_link list) list \<Rightarrow> (string \<times> violation) list" where
  "integrity_rows sha loaded = concat (map (\<lambda>(name, _, links). map (Pair name) (check_integrity sha links)) loaded)"

definition other_chains :: "(bytes \<Rightarrow> bytes) \<Rightarrow> (string \<times> bucket_id \<times> stored_link list) list \<Rightarrow> nat \<Rightarrow> (string \<times> bucket_id \<times> stored_link list) list" where
  "other_chains sha loaded ref_idx = map ((!) loaded) (filter (\<lambda>i. i \<noteq> ref_idx \<and> check_integrity sha (snd (snd (loaded ! i))) = []) [0..<length loaded])"

definition divergence_rows ::
  "(bytes \<Rightarrow> bytes) \<Rightarrow> string \<Rightarrow> stored_link list \<Rightarrow> (string \<times> bucket_id \<times> stored_link list) list \<Rightarrow> (string \<times> violation) list" where
  "divergence_rows sha ref_name ref_links others =
     List.map_filter (\<lambda>(name, _, links). map_option (\<lambda>s. (name, chain_fault ''chain-diverged''
         (''histories part at link seq '' @ show_u64 s @ '': bucket '' @ name @ '' holds one branch (head seq '' @ show_u64 (or_default_seq (chain_head links))
           @ ''), bucket '' @ ref_name @ '' another (head seq '' @ show_u64 (or_default_seq (chain_head ref_links))
           @ ''). No file is implicated. Decide out of band which branch is your history '' @ em_dash @ '' nothing merges them automatically'')))
       (diverged_at sha ref_links links)) others"

definition lagging_rows :: "(bytes \<Rightarrow> bytes) \<Rightarrow> stored_link list \<Rightarrow> (string \<times> bucket_id \<times> stored_link list) list \<Rightarrow> (string \<times> u64 option) list" where
  "lagging_rows sha ref_links others =
     List.map_filter (\<lambda>(name, _, links). if diverged_at sha ref_links links = None \<and> chain_head links \<noteq> Some (or_default_seq (chain_head ref_links))
       then Some (name, chain_head links) else None) others"

definition committed_files :: "delta \<Rightarrow> (string \<times> string \<times> string) list" where
  "committed_files expected = concat (map (\<lambda>(pkg, files). map (\<lambda>(f, sha). (pkg, f, sha)) files) expected)"

fun probe_files :: "chain_env \<Rightarrow> bucket_id \<Rightarrow> (string \<times> string \<times> string) list \<Rightarrow> presence list act" where
  "probe_files E b [] = ret []"
| "probe_files E b ((pkg, f, sha) # checks) =
     andThen (probe_presence E b pkg f sha) (\<lambda>p. andThen (probe_files E b checks) (\<lambda>ps. ret (p # ps)))"

fun probe_buckets :: "chain_env \<Rightarrow> (string \<times> bucket_id \<times> stored_link list) list \<Rightarrow> (string \<times> string \<times> string) list \<Rightarrow> (string \<times> presence list) list act" where
  "probe_buckets E [] checks = ret []"
| "probe_buckets E ((name, b, _) # loaded) checks =
     andThen (probe_files E b checks) (\<lambda>ps. andThen (probe_buckets E loaded checks) (\<lambda>rest. ret ((name, ps) # rest)))"

definition presence_row :: "string \<Rightarrow> (string \<times> string \<times> string) \<times> presence \<Rightarrow> (string \<times> violation) option" where
  "presence_row name cp =
     (let ((pkg, f, expected), p) = cp in
      case p of
        CorruptSidecar e \<Rightarrow> Some (name, \<lparr>vi_kind = ''corrupt-sidecar'', vi_package = pkg, vi_detail = f @ '': '' @ e\<rparr>)
      | WrongSha actual \<Rightarrow> Some (name, \<lparr>vi_kind = ''hash-changed'', vi_package = pkg,
          vi_detail = f @ '': committed '' @ expected @ '' but the sidecar now holds '' @ actual\<rparr>)
      | _ \<Rightarrow> None)"

definition accounts_for :: "presence \<Rightarrow> bool" where
  "accounts_for p = (case p of MatchingSha \<Rightarrow> True | Covered \<Rightarrow> True | CorruptSidecar _ \<Rightarrow> True | _ \<Rightarrow> False)"

definition vanished_row :: "(string \<times> presence list) list \<Rightarrow> nat \<times> (string \<times> string \<times> string) \<Rightarrow> (string \<times> violation) option" where
  "vanished_row probed fc =
     (let (fi, (pkg, f, _)) = fc; absent_in = map fst (filter (\<lambda>(_, ps). ps ! fi = AbsentFile) probed) in
      if list_ex (\<lambda>(_, ps). accounts_for (ps ! fi)) probed \<or> absent_in = [] then None
      else Some (join_names absent_in, \<lparr>vi_kind = ''vanished'', vi_package = pkg, vi_detail = f @ '': committed file is gone with no tombstone''\<rparr>))"

text \<open>The run over the loaded chains; printing aside, its exit status is \<open>vr_ok\<close>.\<close>

definition verify_chains :: "chain_env \<Rightarrow> bool \<Rightarrow> (string \<times> bucket_id \<times> stored_link list) list \<Rightarrow> chain_report act" where
  "verify_chains E strict loaded =
     (let sha = ch_sha E; broken = integrity_rows sha loaded in
      case reference_chain sha loaded of
        None \<Rightarrow> ret \<lparr>vr_violations = broken, vr_lagging = [], vr_changes = [], vr_ok = (broken = [])\<rparr>
      | Some ref_idx \<Rightarrow>
          (let (ref_name, _, ref_links) = loaded ! ref_idx; others = other_chains sha loaded ref_idx;
               changes = in_chain_sha_changes ref_links; checks = committed_files (replay (map (snd \<circ> snd) ref_links))
           in andThen (probe_buckets E loaded checks) (\<lambda>probed.
                let violations = broken @ divergence_rows sha ref_name ref_links others
                      @ concat (map (\<lambda>(name, ps). List.map_filter (presence_row name) (zip checks ps)) probed)
                      @ List.map_filter (vanished_row probed) (zip [0..<length checks] checks)
                in ret \<lparr>vr_violations = violations, vr_lagging = lagging_rows sha ref_links others, vr_changes = changes,
                         vr_ok = (violations = [] \<and> \<not> (strict \<and> changes \<noteq> []))\<rparr>)))"

definition run_verify_chain :: "chain_env \<Rightarrow> bool \<Rightarrow> (string \<times> bucket_id) list \<Rightarrow> chain_report act" where
  "run_verify_chain E strict named = andThen (load_chains E named) (verify_chains E strict)"

end
