(* ===== verification/Transparency_Safety.thy ===== *)
theory Transparency_Safety
  imports Transparency Publish_Safety
begin

text \<open>
  What the transparency chain guarantees: its head fixes the whole history, its links are never changed,
  and an append never spends a seq that a consistent bucket of the fleet already used.
\<close>

section \<open>Keys and seqs\<close>

lemma digits_val_zeroes: "digits_val (replicate n (CHR ''0'') @ s) = digits_val s"
  by (induction n) (simp_all add: digits_val_def digit_val_def)

lemma seq_of_chain_key [simp]: "seq_from_key (chain_key s) = Some s"
proof -
  let ?d = "replicate (SEQ_WIDTH - length (show_nat (unat s))) (CHR ''0'') @ show_nat (unat s)"
  have digits: "list_all is_ascii_digit ?d" "?d \<noteq> []"
    using show_nat_digits by (auto simp: list_all_iff is_ascii_digit_def)
  then have "strip_prefix ?d ''+'' = None"
    by (cases ?d) (auto simp: strip_prefix_def is_ascii_digit_def)
  moreover have "unat s < 2 ^ 64"
    by (rule order_less_le_trans [OF unsigned_less]) simp
  ultimately have "parse_u64 ?d = Some s"
    using digits by (simp add: parse_u64_def digits_val_zeroes digits_val_show_nat)
  then show ?thesis
    by (simp add: seq_from_key_def chain_key_def Let_def strip_prefix_Some_iff [THEN iffD2] strip_suffix_Some_iff [THEN iffD2])
qed

lemma chain_key_inject [simp]: "chain_key s = chain_key t \<longleftrightarrow> s = t"
  by (metis option.inject seq_of_chain_key)

lemma chain_key_prefix [simp]: "starts_with (chain_key s) CHAIN_PREFIX"
  by (simp add: chain_key_def Let_def)

section \<open>The head fixes the history\<close>

abbreviation integral :: "(bytes \<Rightarrow> bytes) \<Rightarrow> stored_link list \<Rightarrow> bool" where
  "integral sha links \<equiv> check_integrity sha links = []"

lemma check_from_append: "check_from sha prev (xs @ ys) = check_from sha prev xs @ check_from sha (if xs = [] then prev else Some (last xs)) ys"
  by (induction xs arbitrary: prev) simp_all

lemma integral_snoc: "integral sha (links @ [l]) \<longleftrightarrow> integral sha links \<and> check_link sha (if links = [] then None else Some (last links)) l = []"
  by (simp add: check_integrity_def check_from_append)

lemma check_link_first: "check_link sha None (s, bs, l) = [] \<longleftrightarrow> ln_seq l = s \<and> s = 0 \<and> prev_sha256 l = []"
  by (auto simp: check_link_def)

lemma check_link_next: "check_link sha (Some (s0, bs0, l0)) (s, bs, l) = [] \<longleftrightarrow> ln_seq l = s \<and> s = s0 + 1 \<and> prev_sha256 l = sha256_hex sha bs0"
  by (auto simp: check_link_def)

lemma integral_seqs: "integral sha links \<Longrightarrow> map fst links = map of_nat [0..<length links]"
proof (induction links rule: rev_induct)
  case (snoc l links)
  obtain s bs k where l: "l = (s, bs, k)"
    by (cases l)
  show ?case
  proof (cases "links = []")
    case True
    then show ?thesis
      using snoc.prems by (simp add: check_integrity_def l check_link_first)
  next
    case False
    obtain s0 bs0 k0 where last: "last links = (s0, bs0, k0)"
      by (cases "last links")
    have "map fst links ! (length links - 1) = of_nat (length links - 1)"
      using snoc False by (simp add: integral_snoc)
    then have "s0 = of_nat (length links - 1)"
      using False last by (simp add: last_conv_nth)
    then have "s = of_nat (length links)"
      using snoc.prems False by (simp add: integral_snoc last l check_link_next of_nat_diff Suc_leI)
    then show ?thesis
      using snoc by (simp add: integral_snoc l)
  qed
qed simp

lemma history_step:
  assumes "integral sha (A @ [x])" and "integral sha (B @ [x])" and "length A < 2 ^ 64" and "length B < 2 ^ 64"
  shows "length A = length B" and "A \<noteq> [] \<Longrightarrow> sha256_hex sha (fst (snd (last A))) = sha256_hex sha (fst (snd (last B)))"
proof -
  have "fst x = of_nat (length A)" "fst x = of_nat (length B)"
    using integral_seqs [OF assms(1)] integral_seqs [OF assms(2)] by simp_all
  then have "unat (of_nat (length A) :: u64) = unat (of_nat (length B) :: u64)"
    by simp
  then show same: "length A = length B"
    using assms(3,4) by (simp add: unat_of_nat)
  assume "A \<noteq> []"
  then have "B \<noteq> []"
    using same by auto
  then show "sha256_hex sha (fst (snd (last A))) = sha256_hex sha (fst (snd (last B)))"
    using assms(1,2) \<open>A \<noteq> []\<close> by (cases x; cases "last A"; cases "last B") (simp add: integral_snoc check_link_next)
qed

lemma same_history:
  assumes "integral sha (A @ [x])" and "integral sha (B @ [x])" and "length A < 2 ^ 64" and "length B < 2 ^ 64"
    and "\<forall>l\<in>set A \<union> set B. parse (fst (snd l)) = Some (snd (snd l))" and "inj_on (sha256_hex sha) ((fst \<circ> snd) ` (set A \<union> set B))"
  shows "A = B"
  using assms
proof (induction A arbitrary: B x rule: rev_induct)
  case Nil
  then show ?case
    using history_step(1) [of sha "[]" x B] by simp
next
  case (snoc a A)
  have "B \<noteq> []"
    using history_step(1) [OF snoc.prems(1-4)] by auto
  then obtain B' y where B: "B = B' @ [y]"
    by (metis append_butlast_last_id)
  have sha: "sha256_hex sha (fst (snd a)) = sha256_hex sha (fst (snd y))"
    using history_step(2) [OF snoc.prems(1-4)] by (simp add: B)
  then have bytes: "fst (snd a) = fst (snd y)"
    by (rule inj_onD [OF snoc.prems(6)]) (auto simp: B)
  have len: "length A = length B'"
    using history_step(1) [OF snoc.prems(1-4)] by (simp add: B)
  have shorter: "integral sha (A @ [a])" "integral sha (B' @ [y])"
    using snoc.prems(1,2) by (simp_all only: integral_snoc [of sha "_ @ [_]"] B)
  have "fst a = fst y"
    using integral_seqs [OF shorter(1)] integral_seqs [OF shorter(2)] len by simp
  moreover have "snd (snd a) = snd (snd y)"
    using snoc.prems(5) bytes by (auto simp: B)
  ultimately have ay: "a = y"
    using bytes by (simp add: prod_eq_iff)
  have "A = B'"
    using snoc.prems shorter ay by (intro snoc.IH [of a B']) (auto simp: B intro: inj_on_subset)
  then show ?case
    by (simp add: B ay)
qed

lemma load_links_parsed: "load_links E b es w = (Inr links, w') \<Longrightarrow> \<forall>l\<in>set links. parse_link E (fst (snd l)) = Some (snd (snd l))"
proof (induction es arbitrary: w links w')
  case Nil
  then show ?case
    by (simp add: ret_apply)
next
  case (Cons e es)
  obtain seq key where e: "e = (seq, key)"
    by (cases e)
  from Cons.prems [unfolded e load_links.simps] obtain bs w1
    where "(case parse_link E bs of None \<Rightarrow> fail (Bail ''parsing chain link'') | Some link \<Rightarrow> andThen (load_links E b es) (\<lambda>links. ret ((seq, bs, link) # links))) w1 = (Inr links, w')"
    by (rule andThen_InrE)
  then obtain link rest w2 where "parse_link E bs = Some link" "load_links E b es w1 = (Inr rest, w2)" "links = (seq, bs, link) # rest"
    by (auto simp: fail_apply ret_apply split: option.splits elim!: andThen_InrE)
  then show ?case
    using Cons.IH by fastforce
qed

lemma load_chain_parsed: "load_chain E b w = (Inr links, w') \<Longrightarrow> \<forall>l\<in>set links. parse_link E (fst (snd l)) = Some (snd (snd l))"
  unfolding load_chain_def by (erule andThen_InrE) (rule load_links_parsed)

lemma integral_last_seq: "integral sha (links @ [l]) \<Longrightarrow> ln_seq (snd (snd l)) = fst l"
  by (cases l; cases "last links") (auto simp: integral_snoc check_link_first check_link_next split: if_splits)

section \<open>Operations that only add links\<close>

definition adds_links :: "inner \<Rightarrow> inner \<Rightarrow> bool" where
  "adds_links s s' = (evolves s s' \<and> (\<forall>k ob. object_at s k = Some ob \<longrightarrow> object_at s' k = Some ob)
     \<and> (\<forall>k. k \<notin> range chain_key \<longrightarrow> object_at s' k = object_at s k))"

definition survives_links :: "(fleet \<Rightarrow> bool) \<Rightarrow> bool" where
  "survives_links P = (\<forall>fl b s'. P fl \<longrightarrow> adds_links (fl b) s' \<longrightarrow> P (fl(b := s')))"

definition only_adds_links :: "'a act \<Rightarrow> bool" where
  "only_adds_links m = (\<forall>G P. survives_links P \<longrightarrow> stable G P \<longrightarrow> triple G P m (\<lambda>_. P))"

named_theorems link_intros \<open>operations that only add links\<close>

lemma only_adds_linksD: "only_adds_links m \<Longrightarrow> survives_links P \<Longrightarrow> stable G P \<Longrightarrow> triple G P m (\<lambda>_. P)"
  by (simp add: only_adds_links_def)

lemma links_basic [link_intros]: "only_adds_links (ret v)" "only_adds_links (fail e)"
  by (simp_all add: only_adds_links_def triple_ret triple_fail)

lemma links_andThen [link_intros]: "only_adds_links m \<Longrightarrow> (\<And>v. only_adds_links (f v)) \<Longrightarrow> only_adds_links (andThen m f)"
  by (simp add: only_adds_links_def triple_andThen_same)

lemma links_onResult [link_intros]:
  "only_adds_links m \<Longrightarrow> (\<And>e. only_adds_links (h e)) \<Longrightarrow> (\<And>v. only_adds_links (f v)) \<Longrightarrow> only_adds_links (onResult m h f)"
  unfolding only_adds_links_def by (blast intro: triple_onResult)

lemma links_cases [link_intros]:
  "(c \<Longrightarrow> only_adds_links m) \<Longrightarrow> (\<not> c \<Longrightarrow> only_adds_links m') \<Longrightarrow> only_adds_links (if c then m else m')"
  "only_adds_links m \<Longrightarrow> (\<And>v. only_adds_links (f v)) \<Longrightarrow> only_adds_links (case x of None \<Rightarrow> m | Some y \<Rightarrow> f y)"
  "(\<And>u v. only_adds_links (g u v)) \<Longrightarrow> only_adds_links (case p of (u, v) \<Rightarrow> g u v)"
  "(\<And>e. only_adds_links (j e)) \<Longrightarrow> (\<And>v. only_adds_links (k v)) \<Longrightarrow> only_adds_links (case r of Inl e \<Rightarrow> j e | Inr v \<Rightarrow> k v)"
  "only_adds_links m \<Longrightarrow> (\<And>y ys. only_adds_links (l y ys)) \<Longrightarrow> only_adds_links (case zs of [] \<Rightarrow> m | y # ys \<Rightarrow> l y ys)"
  by (auto split: option.split prod.split sum.split list.split)

lemma links_reads [link_intros]: "only_adds_links (get_bytes b k)" "only_adds_links (list_all_objects b pre)" "only_adds_links (head_exists b k)"
  unfolding only_adds_links_def get_bytes_def list_all_objects_def head_exists_def
  by (intro allI impI triple_read_call; simp split: option.splits)+

lemma adds_links_store: "\<not> contains_key s (chain_key n) \<Longrightarrow> adds_links s (snd (store sha (chain_key n) bs s))"
  by (auto simp: adds_links_def store_evolves object_at_store contains_key_def)

lemma adds_links_lost: "adds_links s (create_lost sha k s)"
  by (simp add: adds_links_def evolves_same_objects)

lemma links_create [link_intros]: "only_adds_links (put_if_none_match sha b (chain_key n) bs)"
  unfolding only_adds_links_def
proof (intro allI impI)
  fix G :: "fleet \<Rightarrow> fleet \<Rightarrow> bool" and P
  assume P: "survives_links P" "stable G P"
  show "triple G P (put_if_none_match sha b (chain_key n) bs) (\<lambda>_. P)"
    by (rule triple_put_if_none_match [OF P(2)]) (use P(1) adds_links_store adds_links_lost in \<open>auto simp: survives_links_def\<close>)
qed

lemma links_copy [link_intros]: "only_adds_links (copy_link E b seq bs)"
  unfolding copy_link_def by (intro link_intros)

lemma links_probe [link_intros]: "only_adds_links (first_contradiction p q ours theirs)"
proof -
  have "only_adds_links (probe_links p q seqs)" for seqs
    by (induction seqs) (auto intro!: link_intros)
  then show ?thesis
    unfolding first_contradiction_def Let_def by simp
qed

lemma links_loops [link_intros]:
  "only_adds_links (pull_links E p q seqs ours)" "only_adds_links (push_links E p q seqs)" "only_adds_links (mirror_link E fleet d seq bs poss)"
  by (induction seqs arbitrary: ours; auto intro!: link_intros) (induction seqs, auto intro!: link_intros, induction poss, auto intro!: link_intros)

lemma links_chain [link_intros]: "only_adds_links (chain_seqs b)" "only_adds_links (read_head b)" "only_adds_links (catch_up_replica E p q ours theirs)"
  unfolding chain_seqs_def read_head_def catch_up_replica_def Let_def by (intro link_intros)+

lemma links_peers [link_intros]: "only_adds_links (catch_up_peers E p primary peers ours in_sync deferring)"
proof (induction peers arbitrary: ours in_sync deferring)
  case (Cons x peers)
  show ?case
    by (cases x) (auto intro!: link_intros Cons.IH split: catch_up.split)
qed (simp add: link_intros)

lemma links_catch_up [link_intros]: "only_adds_links (catch_up_fleet E fleet primary)"
  unfolding catch_up_fleet_def by (intro link_intros)

lemma links_generation [link_intros]: "only_adds_links (require_generation st E gen)"
  unfolding only_adds_links_def triple_def require_generation_def by (auto split: if_splits)

lemma links_write [link_intros]: "only_adds_links (write_link E fleet d in_sync seq prev dl)"
  unfolding write_link_def by (intro link_intros)

lemma links_append [link_intros]: "only_adds_links (append_chain_link st E fleet primary in_sync gen walk_head dl)"
  unfolding append_chain_link_def decide_link_def Let_def by (intro link_intros)

lemma links_of_state: "(\<And>w. only_adds_links (f w)) \<Longrightarrow> only_adds_links (\<lambda>w. f w w)"
  unfolding only_adds_links_def triple_def by metis

lemma links_write_chain: "only_adds_links (write_chain_link st E pinned gen walk_head dl)"
proof -
  let ?f = "\<lambda>w. if pinned \<ge> length (st_handles st) then ret False
      else
        (let peers = singleton_replicas st pinned w;
             fleet = List.map_filter (chain_bucket st pinned peers) [0..<length (st_handles st)];
             primary = length (List.map_filter (chain_bucket st pinned peers) [0..<pinned])
         in andThen (catch_up_fleet E fleet primary) (\<lambda>in_sync.
              if dl = [] then ret True
              else if in_sync = [] then ret False
              else append_chain_link st E fleet primary in_sync gen walk_head dl))"
  have "only_adds_links (?f w)" for w
    unfolding Let_def by (intro link_intros)
  from links_of_state [of ?f, OF this] show ?thesis
    unfolding write_chain_link_def [abs_def] .
qed

section \<open>A checkpoint spends a fresh seq\<close>

text \<open>Only links live under the prefix of the chain, each under its canonical name.\<close>

definition tidy :: "inner \<Rightarrow> bool" where
  "tidy s = (\<forall>k n. contains_key s k \<longrightarrow> seq_from_key k = Some n \<longrightarrow> k = chain_key n)"

text \<open>Everybody adds links and nobody changes one.\<close>

definition links_stay :: "(fleet \<Rightarrow> fleet \<Rightarrow> bool) \<Rightarrow> bool" where
  "links_stay G = (\<forall>fl fl'. G fl fl' \<longrightarrow>
     (\<forall>b. (\<forall>n ob. object_at (fl b) (chain_key n) = Some ob \<longrightarrow> object_at (fl' b) (chain_key n) = Some ob) \<and> (tidy (fl b) \<longrightarrow> tidy (fl' b))))"

definition holds_link :: "bucket_id \<Rightarrow> u64 \<Rightarrow> bytes \<Rightarrow> fleet \<Rightarrow> bool" where
  "holds_link b n bs fl = (map_option obj_bytes (object_at (fl b) (chain_key n)) = Some bs)"

abbreviation held :: "bucket_id \<Rightarrow> u64 \<Rightarrow> fleet \<Rightarrow> bool" where
  "held b n fl \<equiv> contains_key (fl b) (chain_key n)"

definition contradicted :: "bucket_id \<Rightarrow> bucket_id \<Rightarrow> fleet \<Rightarrow> bool" where
  "contradicted p q fl = (\<exists>n bs bs'. holds_link p n bs fl \<and> holds_link q n bs' fl \<and> bs \<noteq> bs')"

lemma contradictedI: "holds_link p n bs fl \<Longrightarrow> holds_link q n bs' fl \<Longrightarrow> bs \<noteq> bs' \<Longrightarrow> contradicted p q fl"
  unfolding contradicted_def by blast

text \<open>Assertions about links that stand last for good.\<close>

definition lasts :: "(fleet \<Rightarrow> fleet \<Rightarrow> bool) \<Rightarrow> (fleet \<Rightarrow> bool) \<Rightarrow> bool" where
  "lasts G P = (stable G P \<and> survives_links P)"

lemma lasts_links:
  assumes "links_stay G"
  shows "lasts G (\<lambda>fl. tidy (fl b))" "lasts G (holds_link b n bs)" "lasts G (held b n)" "lasts G (contradicted p q)"
proof -
  have tidy: "tidy (s')" if "tidy s" "adds_links s s'" for s s'
    unfolding tidy_def
  proof (intro allI impI)
    fix k n
    assume k: "contains_key s' k" "seq_from_key k = Some n"
    show "k = chain_key n"
    proof (cases "k \<in> range chain_key")
      case True
      then show ?thesis
        using k(2) by auto
    next
      case False
      then have "contains_key s k"
        using that(2) k(1) by (simp add: adds_links_def contains_key_def)
      then show ?thesis
        using that(1) k(2) by (simp add: tidy_def)
    qed
  qed
  then show "lasts G (\<lambda>fl. tidy (fl b))"
    using assms by (auto simp: lasts_def stable_def survives_links_def links_stay_def)
  have keep: "stable G (holds_link b n bs)" "survives_links (holds_link b n bs)" for b n bs
    using assms by (fastforce simp: stable_def survives_links_def links_stay_def holds_link_def adds_links_def)+
  then show "lasts G (holds_link b n bs)"
    by (simp add: lasts_def)
  have held_iff: "held b n fl \<longleftrightarrow> (\<exists>bs. holds_link b n bs fl)" for fl
    by (auto simp: contains_key_def holds_link_def)
  show "lasts G (held b n)"
    using keep unfolding lasts_def stable_def survives_links_def held_iff by blast
  show "lasts G (contradicted p q)"
    using keep unfolding lasts_def stable_def survives_links_def contradicted_def by blast
qed

lemma lasts_conj: "lasts G P \<Longrightarrow> lasts G Q \<Longrightarrow> lasts G (\<lambda>fl. P fl \<and> Q fl)"
  unfolding lasts_def stable_def survives_links_def by blast

lemma lasts_disj: "lasts G P \<Longrightarrow> lasts G Q \<Longrightarrow> lasts G (\<lambda>fl. P fl \<or> Q fl)"
  unfolding lasts_def stable_def survives_links_def by blast

lemma lasts_imp: "lasts G P \<Longrightarrow> lasts G (\<lambda>fl. c \<longrightarrow> P fl)"
  unfolding lasts_def stable_def survives_links_def by blast

lemma lasts_all: "(\<And>x. lasts G (P x)) \<Longrightarrow> lasts G (\<lambda>fl. \<forall>x. P x fl)"
  unfolding lasts_def stable_def survives_links_def by blast

lemma lasts_ball: "(\<And>x. lasts G (P x)) \<Longrightarrow> lasts G (\<lambda>fl. \<forall>x\<in>A. P x fl)"
  unfolding lasts_def stable_def survives_links_def by blast

lemma lasts_const: "lasts G (\<lambda>_. c)"
  by (simp add: lasts_def stable_def survives_links_def)

lemmas lasts_intros = lasts_conj lasts_disj lasts_imp lasts_all lasts_ball lasts_const

lemma lastsD: "lasts G P \<Longrightarrow> stable G P" "lasts G P \<Longrightarrow> survives_links P"
  by (simp_all add: lasts_def)

lemma lasts_keep: "lasts G P \<Longrightarrow> only_adds_links m \<Longrightarrow> triple G P m (\<lambda>_. P)"
  by (simp add: lasts_def only_adds_linksD)

text \<open>What the calls say about the links.\<close>

lemma triple_read_link:
  assumes "lasts G P"
  shows "triple G P (get_bytes b (chain_key n)) (both P (\<lambda>bs fl. P fl \<and> holds_link b n bs fl))"
  by (rule triple_get_bytes [OF lastsD(1) [OF assms]]) (auto simp: holds_link_def contains_key_def)

lemma triple_create_link:
  assumes P: "lasts G P"
  shows "triple G P (put_if_none_match sha b (chain_key n) bs) (both P (\<lambda>r fl. P fl \<and> (r \<noteq> None \<longrightarrow> holds_link b n bs fl)))"
  by (rule triple_put_if_none_match [OF lastsD(1) [OF P]])
    (use lastsD(2) [OF P] adds_links_store adds_links_lost in \<open>auto simp: survives_links_def holds_link_def object_at_store both_def unanswered_def split: sum.splits\<close>)

lemma triple_copy_link:
  assumes G: "links_stay G" and P: "lasts G P"
  shows "triple G P (copy_link E b n bs) (both P (\<lambda>r fl. P fl \<and> (r = LandedLink \<longrightarrow> holds_link b n bs fl)
    \<and> (r = DivergedLink \<longrightarrow> (\<exists>bs'. holds_link b n bs' fl \<and> bs' \<noteq> bs))))"
  unfolding copy_link_def
  by (rule triple_andThen [OF triple_create_link [OF P]]) (auto intro!: triple_ret triple_andThen [OF triple_read_link] intro: P)

lemma fold_max_above: "s \<le> fold max ss (s :: u64)"
proof (induction ss arbitrary: s)
  case (Cons t ss)
  have "s \<le> max t s"
    by simp
  also have "\<dots> \<le> fold max ss (max t s)"
    by (rule Cons.IH)
  finally show ?case
    by simp
qed simp

lemma fold_max_ge: "x \<in> set (s # ss) \<Longrightarrow> x \<le> fold max ss (s :: u64)"
proof (induction ss arbitrary: s)
  case (Cons t ss)
  show ?case
  proof (cases "x \<in> set ss")
    case True
    then show ?thesis
      using Cons.IH [of "max t s"] by simp
  next
    case False
    then have "x \<le> max t s"
      using Cons.prems by auto
    also have "\<dots> \<le> fold max ss (max t s)"
      by (rule fold_max_above)
    finally show ?thesis
      by simp
  qed
qed simp

lemma seqs_of_iff: "store_wf s \<Longrightarrow> n \<in> set (seqs_of (map meta_of (prefix_range s CHAIN_PREFIX))) \<longleftrightarrow> (\<exists>k. contains_key s k \<and> seq_from_key k = Some n)"
proof -
  assume wf: "store_wf s"
  have under: "starts_with k CHAIN_PREFIX" if "seq_from_key k = Some n" for k
    using that by (auto simp: seq_from_key_def bind_eq_Some_conv strip_prefix_Some_iff)
  have key: "om_key (meta_of e) = fst e" for e
    by (cases e) (simp add: meta_of_def)
  have "n \<in> set (seqs_of (map meta_of (prefix_range s CHAIN_PREFIX))) \<longleftrightarrow> (\<exists>e\<in>set (prefix_range s CHAIN_PREFIX). seq_from_key (fst e) = Some n)"
    using key by (simp add: seqs_of_def set_map_filter image_iff Bex_def del: split_paired_Ex split_paired_All) metis
  also have "\<dots> \<longleftrightarrow> (\<exists>k ob. (k, ob) \<in> set (prefix_range s CHAIN_PREFIX) \<and> seq_from_key k = Some n)"
    by force
  also have "\<dots> \<longleftrightarrow> (\<exists>k ob. object_at s k = Some ob \<and> seq_from_key k = Some n)"
    using under unfolding prefix_range_set [OF wf] by blast
  also have "\<dots> \<longleftrightarrow> (\<exists>k. contains_key s k \<and> seq_from_key k = Some n)"
    by (auto simp: contains_key_def)
  finally show ?thesis .
qed

lemma seqs_of_held: "store_wf (fl b) \<Longrightarrow> tidy (fl b) \<Longrightarrow> n \<in> set (seqs_of (map meta_of (prefix_range (fl b) CHAIN_PREFIX))) \<longleftrightarrow> held b n fl"
proof -
  assume wf: "store_wf (fl b)" and t: "tidy (fl b)"
  have "(\<exists>k. contains_key (fl b) k \<and> seq_from_key k = Some n) \<longleftrightarrow> held b n fl"
    using t seq_of_chain_key unfolding tidy_def by metis
  then show ?thesis
    using seqs_of_iff [OF wf] by blast
qed

lemma triple_list_chain:
  assumes "lasts G P"
  shows "triple G P (list_all_objects b CHAIN_PREFIX) (both P (\<lambda>es fl. P fl \<and> fleet_wf fl \<and> es = map meta_of (prefix_range (fl b) CHAIN_PREFIX)))"
  unfolding list_all_objects_def by (rule triple_read_call [OF lastsD(1) [OF assms]]) simp_all

lemma triple_chain_seqs:
  assumes "lasts G P" and "\<And>fl. P fl \<Longrightarrow> tidy (fl b)"
  shows "triple G P (chain_seqs b) (both P (\<lambda>S fl. P fl \<and> S = {n. held b n fl}))"
  unfolding chain_seqs_def
  by (rule triple_andThen [OF triple_list_chain [OF assms(1)]]) (auto intro!: triple_ret simp: fleet_wf_def seqs_of_held assms(2))

lemma triple_read_head:
  assumes G: "links_stay G" and P: "lasts G P" and tidy: "\<And>fl. P fl \<Longrightarrow> tidy (fl b)" and top_held: "\<And>fl. P fl \<Longrightarrow> held b n fl"
  shows "triple G P (read_head b) (both P (\<lambda>r fl. P fl \<and> (\<exists>h bs. r = Some (h, bs) \<and> n \<le> h \<and> holds_link b h bs fl)))"
  unfolding read_head_def
proof (rule triple_andThen [OF triple_list_chain [OF P]], goal_cases)
  case (1 es)
  let ?Q = "both P (\<lambda>r fl. P fl \<and> (\<exists>h bs. r = Some (h, bs) \<and> n \<le> h \<and> holds_link b h bs fl))"
  show ?case
  proof (cases "n \<in> set (seqs_of es)")
    case True
    then obtain m ms where ms: "seqs_of es = m # ms"
      by (cases "seqs_of es") auto
    have "n \<le> fold max ms m"
      using True fold_max_ge [of n m ms] by (simp add: ms)
    then have "triple G P (let top_seq = fold max ms m in andThen (get_bytes b (chain_key top_seq)) (\<lambda>bs. ret (Some (top_seq, bs)))) ?Q"
      unfolding Let_def by (intro triple_andThen [OF triple_read_link [OF P]]) (auto intro!: triple_ret)
    then show ?thesis
      unfolding ms list.case by (rule triple_pre) simp
  next
    case False
    then have no: "\<not> (P fl \<and> fleet_wf fl \<and> es = map meta_of (prefix_range (fl b) CHAIN_PREFIX))" for fl
      using seqs_of_held [of fl b n] tidy top_held by (auto simp: fleet_wf_def)
    show ?thesis
      by (rule triple_pre [OF triple_false]) (use no in simp)
  qed
qed simp

section \<open>Catching up\<close>

definition fork_found :: "bucket_id \<Rightarrow> bucket_id \<Rightarrow> u64 option \<Rightarrow> fleet \<Rightarrow> bool" where
  "fork_found p q r fl = (r \<noteq> None \<longrightarrow> contradicted p q fl)"

lemma probe_contradicts:
  assumes G: "links_stay G" and P: "lasts G P"
  shows "triple G P (first_contradiction p q ours theirs) (both P (\<lambda>r fl. P fl \<and> fork_found p q r fl))"
proof -
  have "triple G P (probe_links p q seqs) (both P (\<lambda>r fl. P fl \<and> fork_found p q r fl))" for seqs
  proof (induction seqs)
    case (Cons n seqs)
    have both_read: "triple G (\<lambda>fl. P fl \<and> holds_link p n mine fl) (get_bytes q (chain_key n))
        (both P (\<lambda>theirs fl. P fl \<and> holds_link p n mine fl \<and> holds_link q n theirs fl))" for mine
      by (rule triple_conseq [OF triple_read_link [OF lasts_conj [OF P lasts_links(2) [OF G]]]]) (auto simp: both_def split: sum.splits)
    have compared: "triple G (\<lambda>fl. P fl \<and> holds_link p n mine fl \<and> holds_link q n peers fl)
        (if mine \<noteq> peers then ret (Some n) else probe_links p q seqs) (both P (\<lambda>r fl. P fl \<and> fork_found p q r fl))" for mine peers
    proof (cases "mine = peers")
      case True
      have "triple G (\<lambda>fl. P fl \<and> holds_link p n mine fl \<and> holds_link q n peers fl) (probe_links p q seqs) (both P (\<lambda>r fl. P fl \<and> fork_found p q r fl))"
        by (rule triple_pre [OF Cons.IH]) simp
      then show ?thesis
        using True by simp
    next
      case False
      then show ?thesis
        by (auto intro!: triple_ret simp: fork_found_def intro: contradictedI)
    qed
    show ?case
      unfolding probe_links.simps
      by (rule triple_andThen [OF triple_read_link [OF P] triple_andThen [OF both_read compared]]) simp_all
  qed (simp add: triple_ret fork_found_def)
  then show ?thesis
    unfolding first_contradiction_def Let_def by simp
qed

definition all_held :: "bucket_id \<Rightarrow> u64 set \<Rightarrow> fleet \<Rightarrow> bool" where
  "all_held b S fl = (\<forall>n\<in>S. held b n fl)"

lemma lasts_all_held: "links_stay G \<Longrightarrow> lasts G (all_held b S)"
  unfolding all_held_def by (intro lasts_intros lasts_links)

lemma all_held_insert: "all_held b (insert n S) fl \<longleftrightarrow> held b n fl \<and> all_held b S fl"
  by (simp add: all_held_def)

lemma holds_held: "holds_link b n bs fl \<Longrightarrow> held b n fl"
  by (auto simp: holds_link_def contains_key_def)

definition pulled :: "bucket_id \<Rightarrow> u64 set \<Rightarrow> u64 set \<times> unit res \<Rightarrow> fleet \<Rightarrow> bool" where
  "pulled p S r fl = (all_held p (fst r) fl \<and> (isl (snd r) \<or> S \<subseteq> fst r))"

lemma pull_holds:
  assumes G: "links_stay G" and P: "lasts G P"
  shows "triple G (\<lambda>fl. P fl \<and> all_held p ours fl) (pull_links E p q seqs ours)
    (both (\<lambda>_. True) (\<lambda>r fl. P fl \<and> pulled p (set seqs \<union> ours) r fl))"
proof (induction seqs arbitrary: ours)
  case (Cons n seqs)
  let ?P = "\<lambda>fl. P fl \<and> all_held p ours fl"
  let ?Q = "both (\<lambda>_. True) (\<lambda>r fl. P fl \<and> pulled p (set (n # seqs) \<union> ours) r fl)"
  have last: "lasts G ?P"
    by (intro lasts_conj P lasts_all_held G)
  have rest: "triple G (\<lambda>fl. P fl \<and> all_held p (insert n ours) fl) (pull_links E p q seqs (insert n ours)) ?Q"
    using Cons.IH [of "insert n ours"] by simp
  have failed: "triple G ?P (ret (ours, Inl e)) ?Q" for e
    by (rule triple_ret) (simp add: pulled_def)
  have arrived: "triple G (\<lambda>fl. ?P fl \<and> (r = LandedLink \<longrightarrow> holds_link p n bs fl) \<and> (r = DivergedLink \<longrightarrow> (\<exists>bs'. holds_link p n bs' fl \<and> bs' \<noteq> bs)))
      (if r = DivergedLink then ret (ours, Inl e) else pull_links E p q seqs (insert n ours)) ?Q" for r bs e
  proof (cases r)
    case LandedLink
    have "triple G (\<lambda>fl. ?P fl \<and> (r = LandedLink \<longrightarrow> holds_link p n bs fl) \<and> (r = DivergedLink \<longrightarrow> (\<exists>bs'. holds_link p n bs' fl \<and> bs' \<noteq> bs)))
        (pull_links E p q seqs (insert n ours)) ?Q"
      by (rule triple_pre [OF rest]) (auto simp: LandedLink all_held_insert intro: holds_held)
    then show ?thesis
      by (simp only: LandedLink copied.distinct if_False)
  next
    case DivergedLink
    then show ?thesis
      by (auto intro!: triple_ret simp: pulled_def)
  qed
  have copied: "triple G (\<lambda>fl. ?P fl \<and> holds_link q n bs fl) (copy_link E p n bs) (both ?P (\<lambda>r fl. ?P fl \<and> (r = LandedLink \<longrightarrow> holds_link p n bs fl)
      \<and> (r = DivergedLink \<longrightarrow> (\<exists>bs'. holds_link p n bs' fl \<and> bs' \<noteq> bs))))" for bs
    by (rule triple_pre [OF triple_copy_link [OF G last]]) simp
  show ?case
    unfolding pull_links.simps
    by (rule triple_onResult [OF triple_read_link [OF last]], unfold both_simps, rule triple_onResult [OF copied], unfold both_simps)
      (rule arrived failed)+
qed (auto intro!: triple_ret simp: pulled_def)

text \<open>What catching up with one peer leaves: the links of the pin, the peer's too when it is consistent.\<close>

definition caught_up :: "bucket_id \<Rightarrow> bucket_id \<Rightarrow> u64 set \<Rightarrow> u64 set \<times> catch_up res \<Rightarrow> fleet \<Rightarrow> bool" where
  "caught_up p q theirs r fl = (all_held p (fst r) fl \<and> (isl (snd r) \<or> theirs \<subseteq> fst r \<or> snd r = Inr Forked \<and> contradicted p q fl))"

lemma finite_u64 [simp]: "finite (S :: u64 set)"
  by (rule finite_subset [OF subset_UNIV]) simp

lemma replica_caught_up:
  assumes G: "links_stay G" and P: "lasts G P"
  shows "triple G (\<lambda>fl. P fl \<and> all_held p ours fl) (catch_up_replica E p q ours theirs)
    (both (\<lambda>_. True) (\<lambda>r fl. P fl \<and> caught_up p q theirs r fl))"
proof -
  let ?P = "\<lambda>fl. P fl \<and> all_held p ours fl"
  let ?Q = "both (\<lambda>_. True) (\<lambda>r fl. P fl \<and> caught_up p q theirs r fl)"
  let ?pull = "sorted_list_of_set (theirs - ours)" and ?push = "sorted_list_of_set (ours - theirs)"
  have last: "lasts G ?P"
    by (intro lasts_conj P lasts_all_held G)
  have sent: "triple G (\<lambda>fl. P fl \<and> pulled p (set ?pull \<union> ours) (ours', Inr ()) fl) (andThen (push_links E p q ?push) (\<lambda>c. ret (ours', Inr c))) ?Q" for ours'
  proof (rule triple_andThen)
    let ?R = "\<lambda>fl. P fl \<and> all_held p ours' fl \<and> theirs \<subseteq> ours'"
    have "lasts G ?R"
      by (intro lasts_intros P lasts_all_held G)
    then have "triple G ?R (push_links E p q ?push) (\<lambda>_. ?R)"
      by (rule lasts_keep) (rule link_intros)
    then show "triple G (\<lambda>fl. P fl \<and> pulled p (set ?pull \<union> ours) (ours', Inr ()) fl) (push_links E p q ?push) (both (\<lambda>_. True) (\<lambda>_. ?R))"
      by (rule triple_conseq) (auto simp: pulled_def both_def split: sum.splits)
  qed (auto intro!: triple_ret simp: caught_up_def)
  let ?k = "\<lambda>(ours', r). (case r of Inl e \<Rightarrow> ret (ours', Inl e) | Inr _ \<Rightarrow> andThen (push_links E p q ?push) (\<lambda>c. ret (ours', Inr c)))"
  have rest: "triple G (\<lambda>fl. P fl \<and> pulled p (set ?pull \<union> ours) x fl) (?k x) ?Q" for x
  proof (cases x)
    case (Pair ours' r)
    show ?thesis
    proof (cases r)
      case (Inl e)
      show ?thesis
        unfolding Pair Inl prod.case sum.case by (rule triple_ret) (simp add: caught_up_def pulled_def)
    next
      case (Inr u)
      show ?thesis
        unfolding Pair Inr prod.case sum.case using sent [of ours'] by (cases u) simp
    qed
  qed
  have probed: "triple G (\<lambda>fl. ?P fl \<and> fork_found p q r fl) (if r \<noteq> None then ret (ours, Inr Forked) else andThen (pull_links E p q ?pull ours) ?k) ?Q" for r
  proof (cases r)
    case None
    have "triple G ?P (andThen (pull_links E p q ?pull ours) ?k) ?Q"
      by (rule triple_andThen [OF pull_holds [OF G P] rest]) simp
    then have "triple G (\<lambda>fl. ?P fl \<and> fork_found p q r fl) (andThen (pull_links E p q ?pull ours) ?k) ?Q"
      by (rule triple_pre) simp
    then show ?thesis
      by (simp only: None simp_thms if_False)
  next
    case (Some n)
    then show ?thesis
      by (auto intro!: triple_ret simp: fork_found_def caught_up_def)
  qed
  have failed: "triple G ?P (ret (ours, Inl e)) ?Q" for e
    by (rule triple_ret) (simp add: caught_up_def)
  show ?thesis
    unfolding catch_up_replica_def Let_def
    by (rule triple_onResult [OF probe_contradicts [OF G last]]) (unfold both_simps, rule probed, rule failed)
qed

text \<open>After the fleet has caught up, a link of any bucket is on the pin, unless the two contradict each other.\<close>

definition vouched :: "bucket_id \<Rightarrow> bucket_id \<Rightarrow> u64 \<Rightarrow> fleet \<Rightarrow> bool" where
  "vouched p b n fl = (held p n fl \<or> contradicted p b fl)"

lemma lasts_vouched: "links_stay G \<Longrightarrow> lasts G (vouched p b n)"
  unfolding vouched_def by (intro lasts_intros lasts_links)

abbreviation among :: "bucket_id \<Rightarrow> nat \<Rightarrow> (nat \<times> bucket_id) list \<Rightarrow> bool" where
  "among b primary peers \<equiv> \<exists>pos. pos \<noteq> primary \<and> (pos, b) \<in> set peers"

definition agreed :: "bucket_id \<Rightarrow> bucket_id \<Rightarrow> u64 \<Rightarrow> bool \<Rightarrow> bool \<Rightarrow> nat list \<times> bool \<Rightarrow> fleet \<Rightarrow> bool" where
  "agreed p b n deferring c r fl = (snd r \<or> \<not> deferring \<and> (c \<longrightarrow> vouched p b n fl))"

lemma peers_agree:
  assumes G: "links_stay G" and P: "lasts G P" and tidy: "\<And>fl q. P fl \<Longrightarrow> tidy (fl q)" and held: "\<And>fl. P fl \<Longrightarrow> held b n fl"
  shows "triple G (\<lambda>fl. P fl \<and> all_held p ours fl) (catch_up_peers E p primary peers ours in_sync deferring)
    (both (\<lambda>_. True) (\<lambda>r fl. P fl \<and> agreed p b n deferring (among b primary peers) r fl))"
proof (induction peers arbitrary: ours in_sync deferring)
  case Nil
  show ?case
    by (auto intro!: triple_ret simp: agreed_def)
next
  case (Cons x peers)
  obtain pos q where x: "x = (pos, q)"
    by (cases x)
  let ?Q = "both (\<lambda>_. True) (\<lambda>r fl. P fl \<and> agreed p b n deferring (among b primary (x # peers)) r fl)"
  have put_off: "triple G (\<lambda>fl. P fl \<and> all_held p ours' fl) (catch_up_peers E p primary peers ours' in_sync' True) ?Q" for ours' in_sync'
    by (rule triple_conseq [OF Cons.IH]) (auto simp: both_def agreed_def split: sum.splits)
  have next_peer: "triple G (\<lambda>fl. (P fl \<and> all_held p ours' fl) \<and> (q = b \<longrightarrow> vouched p b n fl)) (catch_up_peers E p primary peers ours' in_sync' deferring) ?Q" for ours' in_sync'
    by (rule triple_conseq [OF triple_conj [OF Cons.IH lasts_keep [OF lasts_imp [OF lasts_vouched [OF G]] links_peers]]])
      (auto simp: both_def agreed_def x split: sum.splits)
  let ?P = "\<lambda>theirs fl. P fl \<and> (q = b \<longrightarrow> n \<in> theirs)"
  let ?k = "\<lambda>(ours', r). (case r of
            Inr Synced \<Rightarrow> catch_up_peers E p primary peers ours' (in_sync @ [pos]) deferring
          | Inr Forked \<Rightarrow> catch_up_peers E p primary peers ours' in_sync deferring
          | Inl _ \<Rightarrow> catch_up_peers E p primary peers ours' in_sync True)"
  have after: "triple G (\<lambda>fl. ?P theirs fl \<and> caught_up p q theirs r fl) (?k r) ?Q" for theirs r
  proof -
    obtain ours' c where r: "r = (ours', c)"
      by (cases r)
    consider (broke) e where "c = Inl e" | (synced) "c = Inr Synced" | (forked) "c = Inr Forked"
      by (cases c; cases "projr c") auto
    then show ?thesis
    proof cases
      case broke
      show ?thesis
        unfolding r broke prod.case sum.case by (rule triple_pre [OF put_off]) (auto simp: caught_up_def)
    next
      case synced
      show ?thesis
        unfolding r synced prod.case sum.case catch_up.case
        by (rule triple_pre [OF next_peer]) (auto simp: caught_up_def vouched_def all_held_def)
    next
      case forked
      show ?thesis
        unfolding r forked prod.case sum.case catch_up.case
        by (rule triple_pre [OF next_peer]) (auto simp: caught_up_def vouched_def all_held_def)
    qed
  qed
  have last: "lasts G (\<lambda>fl. P fl \<and> all_held p ours fl)" "lasts G (?P theirs)" for theirs
    by (intro lasts_intros P lasts_all_held G)+
  have caught: "triple G (\<lambda>fl. (P fl \<and> all_held p ours fl) \<and> theirs = {m. held q m fl}) (catch_up_replica E p q ours theirs)
      (both (\<lambda>_. True) (\<lambda>r fl. ?P theirs fl \<and> caught_up p q theirs r fl))" for theirs
    by (rule triple_pre [OF replica_caught_up [OF G last(2)]]) (auto dest: held)
  have listed: "triple G (\<lambda>fl. P fl \<and> all_held p ours fl) (chain_seqs q)
      (both (\<lambda>fl. P fl \<and> all_held p ours fl) (\<lambda>S fl. (P fl \<and> all_held p ours fl) \<and> S = {m. held q m fl}))"
    by (rule triple_chain_seqs [OF last(1)]) (simp add: tidy)
  show ?case
  proof (cases "pos = primary")
    case True
    then have "among b primary (x # peers) \<longleftrightarrow> among b primary peers"
      by (auto simp: x)
    then show ?thesis
      using Cons.IH [of ours in_sync deferring] by (simp only: x True catch_up_peers.simps if_True simp_thms)
  next
    case False
    show ?thesis
      unfolding x catch_up_peers.simps if_not_P [OF False]
      by (rule triple_onResult [OF listed], unfold both_simps) (rule triple_andThen [OF caught after [unfolded x]], simp, rule put_off [unfolded x])
  qed
qed

lemma fleet_agrees:
  assumes G: "links_stay G" and P: "lasts G P" and tidy: "\<And>fl q. P fl \<Longrightarrow> tidy (fl q)" and held: "\<And>fl. P fl \<Longrightarrow> held b n fl"
  shows "triple G P (catch_up_fleet E fleet primary)
    (both (\<lambda>_. True) (\<lambda>in_sync fl. P fl \<and> (in_sync \<noteq> [] \<longrightarrow> b \<in> set fleet \<longrightarrow> vouched (fleet ! primary) b n fl)))"
    (is "triple G P _ ?Q")
proof (cases "primary < length fleet")
  case False
  then show ?thesis
    unfolding catch_up_fleet_def by (auto intro!: triple_ret)
next
  case True
  let ?p = "fleet ! primary" and ?peers = "zip [0..<length fleet] fleet"
  have listed: "triple G P (chain_seqs ?p) (both P (\<lambda>S fl. P fl \<and> S = {m. held ?p m fl}))"
    by (rule triple_chain_seqs [OF P]) (rule tidy)
  have covers: "vouched ?p b n fl" if hyps: "P fl" "agreed ?p b n False (among b primary ?peers) (is', False) fl" "b \<in> set fleet" for fl is'
  proof -
    obtain pos where pos: "pos < length fleet" "fleet ! pos = b"
      using hyps(3) by (auto simp: in_set_conv_nth)
    show ?thesis
    proof (cases "pos = primary")
      case True
      then show ?thesis
        using pos held [OF hyps(1)] by (simp add: vouched_def)
    next
      case False
      have "(pos, b) \<in> set ?peers"
        using pos by (auto simp: set_zip intro!: exI [of _ pos])
      then show ?thesis
        using hyps(2) False by (auto simp: agreed_def)
    qed
  qed
  have finish: "triple G (\<lambda>fl. P fl \<and> agreed ?p b n False (among b primary ?peers) r fl) (case r of (in_sync, deferring) \<Rightarrow> ret (if deferring then [] else sort in_sync)) ?Q" for r
    by (cases r) (auto intro!: triple_ret covers)
  have agrees: "triple G (\<lambda>fl. P fl \<and> all_held ?p S fl) (catch_up_peers E ?p primary ?peers S [primary] False)
      (both (\<lambda>_. True) (\<lambda>r fl. P fl \<and> agreed ?p b n False (among b primary ?peers) r fl))" for S
    by (rule peers_agree [OF G P]) (rule tidy held, assumption)+
  have "triple G (\<lambda>fl. P fl \<and> S = {m. held ?p m fl})
      (andThen (catch_up_peers E ?p primary ?peers S [primary] False) (\<lambda>(in_sync, deferring). ret (if deferring then [] else sort in_sync))) ?Q" for S
    by (rule triple_andThen [OF triple_pre [OF agrees] finish]) (auto simp: all_held_def)
  note rest = this
  have no: "\<not> primary \<ge> length fleet"
    using True by simp
  show ?thesis
    unfolding catch_up_fleet_def if_not_P [OF no]
    by (rule triple_onResult [OF listed], unfold both_simps, rule rest) (rule triple_ret, simp)
qed

section \<open>Appending\<close>

text \<open>A checkpoint stands on a bucket of the fleet, and its link carries the digest of the pin's head.\<close>

definition link_stands :: "chain_env \<Rightarrow> bucket_id \<Rightarrow> u64 \<Rightarrow> string \<Rightarrow> delta \<Rightarrow> fleet \<Rightarrow> bool" where
  "link_stands E d seq prev dl fl =
     (\<exists>t bs. link_bytes E \<lparr>ln_seq = seq, prev_sha256 = prev, created = t, ln_packages = dl\<rparr> = Some bs \<and> holds_link d seq bs fl)"

lemma triple_write_link:
  assumes G: "links_stay G" and P: "lasts G P"
  shows "triple G P (write_link E fleet d in_sync seq prev dl) (both (\<lambda>_. True) (\<lambda>r fl. r \<longrightarrow> P fl \<and> link_stands E (fleet ! d) seq prev dl fl))"
    (is "triple G P _ ?Q")
proof (cases "Option.bind (now_rfc3339 E) (\<lambda>t. link_bytes E \<lparr>ln_seq = seq, prev_sha256 = prev, created = t, ln_packages = dl\<rparr>)")
  case None
  show ?thesis
    unfolding write_link_def None option.case by (rule triple_ret) simp
next
  case (Some bs)
  let ?R = "\<lambda>fl. P fl \<and> holds_link (fleet ! d) seq bs fl"
  have last: "lasts G ?R"
    by (intro lasts_intros P lasts_links G)
  have put: "triple G P (put_if_none_match (ch_sha E) (fleet ! d) (chain_key seq) bs) (both P (\<lambda>r fl. P fl \<and> (r \<noteq> None \<longrightarrow> holds_link (fleet ! d) seq bs fl)))"
    by (rule triple_create_link [OF P])
  have sent: "triple G ?R (mirror_link E fleet d seq bs in_sync) (both (\<lambda>_. True) (\<lambda>_. ?R))"
    by (rule triple_conseq [OF lasts_keep [OF last links_loops(3)]]) (auto simp: both_def split: sum.splits)
  have stands: "link_stands E (fleet ! d) seq prev dl fl" if "holds_link (fleet ! d) seq bs fl" for fl
    using Some that by (auto simp: link_stands_def bind_eq_Some_conv)
  have created: "triple G (\<lambda>fl. P fl \<and> (r \<noteq> None \<longrightarrow> holds_link (fleet ! d) seq bs fl))
      (if r \<noteq> None then andThen (mirror_link E fleet d seq bs in_sync) (\<lambda>_. ret True) else ret False) ?Q" for r
  proof (cases "r = None")
    case False
    have "triple G ?R (andThen (mirror_link E fleet d seq bs in_sync) (\<lambda>_. ret True)) ?Q"
      by (rule triple_andThen [OF sent]) (auto intro!: triple_ret stands)
    then show ?thesis
      using False by simp
  qed (simp add: triple_ret)
  show ?thesis
    unfolding write_link_def Some option.case
    by (rule triple_onResult [OF put], unfold both_simps, rule created) (rule triple_ret, simp)
qed

definition checkpointed :: "chain_env \<Rightarrow> bucket_id list \<Rightarrow> bucket_id \<Rightarrow> u64 \<Rightarrow> (u64 \<times> string) option \<Rightarrow> delta \<Rightarrow> fleet \<Rightarrow> bool" where
  "checkpointed E fleet p n walk_head dl fl =
     (\<exists>h bs. walk_head = Some (h, sha256_hex (ch_sha E) bs) \<and> n \<le> h \<and> holds_link p h bs fl
        \<and> (\<exists>d\<in>set fleet. link_stands E d (h + 1) (sha256_hex (ch_sha E) bs) dl fl))"

lemma checkpointedI:
  "holds_link p h bs fl \<Longrightarrow> n \<le> h \<Longrightarrow> d \<in> set fleet \<Longrightarrow> link_stands E d (h + 1) (sha256_hex (ch_sha E) bs) dl fl
    \<Longrightarrow> checkpointed E fleet p n (Some (h, sha256_hex (ch_sha E) bs)) dl fl"
  unfolding checkpointed_def by blast

abbreviation checkpoint_post :: "chain_env \<Rightarrow> bucket_id list \<Rightarrow> bucket_id \<Rightarrow> u64 \<Rightarrow> (u64 \<times> string) option \<Rightarrow> delta \<Rightarrow> bool res \<Rightarrow> fleet \<Rightarrow> bool" where
  "checkpoint_post E fleet p n walk_head dl \<equiv> both (\<lambda>_. True) (\<lambda>r fl. r \<longrightarrow> checkpointed E fleet p n walk_head dl fl)"

lemma decide_checkpoints:
  assumes G: "links_stay G" and P: "lasts G P" and d: "d < length fleet" and n: "n \<le> h" and head: "\<And>fl. P fl \<Longrightarrow> holds_link p h bs fl"
    and x: "x = sha256_hex (ch_sha E) bs"
  shows "triple G P (decide_link E fleet primary d in_sync (Some (h, x)) dl) (checkpoint_post E fleet p n (Some (h, x)) dl)"
proof -
  have wrote: "triple G P (write_link E fleet d in_sync (h + 1) x dl) (checkpoint_post E fleet p n (Some (h, x)) dl)"
    unfolding x
    by (rule triple_conseq [OF triple_write_link [OF G P]])
      (use d n in \<open>auto simp: both_def split: sum.splits intro!: checkpointedI [where d = "fleet ! d"] head\<close>)
  have arbiter: "triple G P (read_head (fleet ! d)) (\<lambda>_. P)"
    by (rule lasts_keep [OF P links_chain(2)])
  show ?thesis
    unfolding decide_link_def option.case prod.case Let_def
    by (intro triple_if triple_onResult [OF arbiter] wrote triple_ret) simp_all
qed

lemma append_checkpoints:
  assumes G: "links_stay G" and P: "lasts G P" and tidy: "\<And>fl q. P fl \<Longrightarrow> tidy (fl q)" and held: "\<And>fl. P fl \<Longrightarrow> held (fleet ! primary) n fl"
  shows "triple G P (append_chain_link st E fleet primary in_sync gen walk_head dl) (checkpoint_post E fleet (fleet ! primary) n walk_head dl)"
    (is "triple G P _ ?Q")
proof (cases "in_sync = [] \<or> primary \<ge> length fleet \<or> hd in_sync \<ge> length fleet")
  case True
  then show ?thesis
    unfolding append_chain_link_def by (cases in_sync) (auto intro!: triple_ret)
next
  case False
  then obtain d ds where in_sync: "in_sync = d # ds" and bounds: "primary < length fleet" "d < length fleet"
    by (cases in_sync) auto
  let ?p = "fleet ! primary"
  have no: "triple G R (ret False) ?Q" for R
    by (rule triple_ret) simp
  let ?k = "\<lambda>r. let head = map_option (\<lambda>(s, bs). (s, sha256_hex (ch_sha E) bs)) r in if head \<noteq> walk_head then ret False else decide_link E fleet primary d in_sync head dl"
  have read: "triple G (\<lambda>fl. P fl \<and> (\<exists>h bs. r = Some (h, bs) \<and> n \<le> h \<and> holds_link ?p h bs fl)) (?k r) ?Q" for r
  proof (cases "\<exists>h bs. r = Some (h, bs) \<and> n \<le> h \<and> walk_head = Some (h, sha256_hex (ch_sha E) bs)")
    case True
    then obtain h bs where r: "r = Some (h, bs)" "n \<le> h" and walk: "walk_head = Some (h, sha256_hex (ch_sha E) bs)"
      by blast
    have "triple G (\<lambda>fl. P fl \<and> holds_link ?p h bs fl) (decide_link E fleet primary d in_sync walk_head dl) ?Q"
      unfolding walk by (rule decide_checkpoints [OF G lasts_conj [OF P lasts_links(2) [OF G]] bounds(2) r(2)]) simp_all
    then have "triple G (\<lambda>fl. P fl \<and> (\<exists>h bs. r = Some (h, bs) \<and> n \<le> h \<and> holds_link ?p h bs fl)) (decide_link E fleet primary d in_sync walk_head dl) ?Q"
      by (rule triple_pre) (auto simp: r)
    then show ?thesis
      by (simp only: r walk Let_def option.simps prod.case if_False simp_thms)
  next
    case False
    show ?thesis
    proof (cases "map_option (\<lambda>(s, bs). (s, sha256_hex (ch_sha E) bs)) r = walk_head")
      case True
      show ?thesis
        by (rule triple_pre [OF triple_false]) (use True False in auto)
    qed (simp add: no)
  qed
  have head: "triple G P (read_head ?p) (both P (\<lambda>r fl. P fl \<and> (\<exists>h bs. r = Some (h, bs) \<and> n \<le> h \<and> holds_link ?p h bs fl)))"
    by (rule triple_read_head [OF G P]) (rule tidy held, assumption)+
  have "triple G P (onResult (read_head ?p) (\<lambda>_. ret False) ?k) ?Q"
    by (rule triple_onResult [OF head], unfold both_simps) (rule read, rule no)
  then show ?thesis
    unfolding append_chain_link_def in_sync list.case using bounds
    by (simp only: not_le [symmetric] if_False simp_thms) (rule triple_onResult [OF lasts_keep [OF P links_generation] _ no])
qed

text \<open>The whole round: catch up, then append.\<close>

lemma triple_cases: "triple G (\<lambda>fl. P fl \<and> A fl) m Q \<Longrightarrow> triple G (\<lambda>fl. P fl \<and> B fl) m Q \<Longrightarrow> triple G (\<lambda>fl. P fl \<and> (A fl \<or> B fl)) m Q"
  unfolding triple_def by blast

lemma round_checkpoints:
  assumes G: "links_stay G" and b: "b \<in> set fleet" and dl: "dl \<noteq> []"
    and P_def: "P = (\<lambda>fl. (\<forall>q. tidy (fl q)) \<and> held b n fl)"
  shows "triple G P (andThen (catch_up_fleet E fleet primary) (\<lambda>in_sync. if dl = [] then ret True else if in_sync = [] then ret False
      else append_chain_link st E fleet primary in_sync gen walk_head dl))
    (both (\<lambda>_. True) (\<lambda>r fl. r \<longrightarrow> contradicted (fleet ! primary) b fl \<or> checkpointed E fleet (fleet ! primary) n walk_head dl fl))" (is "triple G P _ ?Q")
proof -
  let ?p = "fleet ! primary"
  have P: "lasts G P"
    unfolding P_def by (intro lasts_intros lasts_links G)
  have up: "triple G P (catch_up_fleet E fleet primary) (both (\<lambda>_. True) (\<lambda>in_sync fl. P fl \<and> (in_sync \<noteq> [] \<longrightarrow> b \<in> set fleet \<longrightarrow> vouched ?p b n fl)))"
    by (rule fleet_agrees [OF G P]) (simp_all add: P_def)
  have held: "triple G (\<lambda>fl. P fl \<and> held ?p n fl) (append_chain_link st E fleet primary in_sync gen walk_head dl) ?Q" for in_sync
    by (rule triple_conseq [OF append_checkpoints [OF G lasts_conj [OF P lasts_links(3) [OF G]], where n = n]])
      (auto simp: P_def both_def split: sum.splits)
  have forked: "triple G (\<lambda>fl. P fl \<and> contradicted ?p b fl) (append_chain_link st E fleet primary in_sync gen walk_head dl) ?Q" for in_sync
    by (rule triple_conseq [OF lasts_keep [OF lasts_conj [OF P lasts_links(4) [OF G]] links_append]]) (auto simp: both_def split: sum.splits)
  have append: "triple G (\<lambda>fl. P fl \<and> vouched ?p b n fl) (append_chain_link st E fleet primary in_sync gen walk_head dl) ?Q" for in_sync
    unfolding vouched_def by (rule triple_cases [OF held forked])
  have rest: "triple G (\<lambda>fl. P fl \<and> (in_sync \<noteq> [] \<longrightarrow> b \<in> set fleet \<longrightarrow> vouched ?p b n fl))
      (if dl = [] then ret True else if in_sync = [] then ret False else append_chain_link st E fleet primary in_sync gen walk_head dl) ?Q" for in_sync
  proof (cases "in_sync = []")
    case True
    then show ?thesis
      by (simp only: dl if_False if_True simp_thms) (rule triple_ret, simp)
  next
    case False
    then show ?thesis
      using append b by (simp only: dl if_False simp_thms)
  qed
  show ?thesis
    by (rule triple_andThen [OF up rest]) simp
qed

lemma map_filter_split: "List.map_filter f (xs @ x # ys) ! length (List.map_filter f xs) = y" if "f x = Some y"
  using that by (simp add: List.map_filter_def nth_append)

lemma find_SomeD: "List.find P xs = Some x \<Longrightarrow> x \<in> set xs \<and> P x"
  by (auto simp: find_Some_iff)

text \<open>The pin sits at its position, and with distinct names every peer is in the fleet.\<close>

lemma chain_fleet:
  assumes "pinned < length (st_handles st)"
    and fleet_def: "fleet = List.map_filter (chain_bucket st pinned (singleton_replicas st pinned w)) [0..<length (st_handles st)]"
  shows "fleet ! length (List.map_filter (chain_bucket st pinned (singleton_replicas st pinned w)) [0..<pinned]) = bucket_of st pinned"
    and "distinct (map bh_name (st_handles st)) \<Longrightarrow> i = pinned \<or> i \<in> set (singleton_replicas st pinned w) \<Longrightarrow> bucket_of st i \<in> set fleet"
    and "d \<in> set fleet \<Longrightarrow> \<exists>j<length (st_handles st). d = bucket_of st j"
proof -
  let ?peers = "singleton_replicas st pinned w"
  let ?f = "chain_bucket st pinned ?peers"
  have "[0..<length (st_handles st)] = [0..<pinned] @ pinned # [Suc pinned..<length (st_handles st)]"
    using assms(1) by (metis le_add_same_cancel1 less_imp_add_positive upt_add_eq_append upt_conv_Cons zero_le)
  then show "fleet ! length (List.map_filter ?f [0..<pinned]) = bucket_of st pinned"
    unfolding fleet_def by (simp add: map_filter_split chain_bucket_def)
  have range: "j < length (st_handles st)" if "j \<in> set ?peers" for j
    using that by (auto simp: singleton_replicas_def split: if_splits)
  {
    assume names: "distinct (map bh_name (st_handles st))" and i: "i = pinned \<or> i \<in> set ?peers"
    have "?f i = Some (bucket_of st i)"
    proof (cases "i = pinned")
      case False
      then have "i \<in> set ?peers"
        using i by simp
      then obtain j where j: "List.find (\<lambda>j. bh_name (st_handles st ! j) = bh_name (st_handles st ! i)) ?peers = Some j"
        by (metis (mono_tags, lifting) find_None_iff option.exhaust)
      then have "j \<in> set ?peers" "bh_name (st_handles st ! j) = bh_name (st_handles st ! i)"
        by (auto dest: find_SomeD)
      then have "j = i"
        using names range \<open>i \<in> set ?peers\<close> by (metis length_map nth_eq_iff_index_eq nth_map)
      then show ?thesis
        using False j by (simp add: chain_bucket_def)
    qed (simp add: chain_bucket_def)
    moreover have "i < length (st_handles st)"
      using i range assms(1) by auto
    ultimately show "bucket_of st i \<in> set fleet"
      unfolding fleet_def set_map_filter by force
  }
  assume "d \<in> set fleet"
  then show "\<exists>j<length (st_handles st). d = bucket_of st j"
    unfolding fleet_def set_map_filter chain_bucket_def using assms(1) range
    by (auto split: if_splits dest!: find_SomeD)
qed

section \<open>Properties\<close>

text \<open>
  C25: the digest of the head fixes the whole history. Two chains, loaded from any two buckets at any two
  times, that pass the integrity check and end in links with the same digest are the same chain, link for
  link, as long as the digest does not collide on the bytes they hold.
\<close>

theorem head_fixes_history:
  assumes "load_chain E b w = (Inr (A @ [x]), w1)" and "load_chain E b' w' = (Inr (B @ [y]), w2)"
    and "check_integrity (ch_sha E) (A @ [x]) = []" and "check_integrity (ch_sha E) (B @ [y]) = []"
    and "sha256_hex (ch_sha E) (fst (snd x)) = sha256_hex (ch_sha E) (fst (snd y))"
    and "length A < 2 ^ 64" and "length B < 2 ^ 64" and "inj_on (sha256_hex (ch_sha E)) ((fst \<circ> snd) ` set (A @ [x] @ B @ [y]))"
  shows "A @ [x] = B @ [y]"
proof -
  have bytes: "fst (snd x) = fst (snd y)"
    by (rule inj_onD [OF assms(8) assms(5)]) auto
  then have "snd (snd x) = snd (snd y)"
    using load_chain_parsed [OF assms(1)] load_chain_parsed [OF assms(2)] by auto
  then have xy: "x = y"
    using integral_last_seq [OF assms(3)] integral_last_seq [OF assms(4)] bytes by (simp add: prod_eq_iff)
  have "A = B"
  proof (rule same_history [where parse = "parse_link E" and sha = "ch_sha E" and x = x])
    show "inj_on (sha256_hex (ch_sha E)) ((fst \<circ> snd) ` (set A \<union> set B))"
      by (rule inj_on_subset [OF assms(8)]) auto
    show "\<forall>l\<in>set A \<union> set B. parse_link E (fst (snd l)) = Some (snd (snd l))"
      using load_chain_parsed [OF assms(1)] load_chain_parsed [OF assms(2)] by auto
  qed (use assms xy in simp_all)
  then show ?thesis
    by (simp add: xy)
qed


text \<open>
  an append only adds links. An object of any bucket that nobody else touches is as it was after the
  catch-up and the append, whatever fails on the way; and no object appears that is not a link.
\<close>

theorem append_only_adds_links:
  assumes "ob \<noteq> None \<or> seq_from_key k = None" and "stable G (\<lambda>fl. object_at (fl b) k = ob)" and "obeys G w"
    and "object_at (buckets w b) k = ob" and "write_chain_link st E pinned gen walk_head dl w = (r, w')"
  shows "object_at (buckets w' b) k = ob"
proof -
  have "k \<notin> range chain_key" if "ob = None"
    using assms(1) that by auto
  then have "survives_links (\<lambda>fl. object_at (fl b) k = ob)"
    unfolding survives_links_def adds_links_def by (cases ob) auto
  from tripleD [OF only_adds_linksD [OF links_write_chain this assms(2)] assms(3-5)] show ?thesis
    by simp
qed

text \<open>Of two chains of the same length, the later bucket in configuration order is the reference.\<close>

lemma reference_tie_takes_last:
  assumes "check_integrity sha links = []" and "links \<noteq> []"
  shows "reference_chain sha [(a, p, links), (b, q, links)] = Some 1"
  using assms by (simp add: reference_chain_def upt_rec)

section \<open>Witnesses\<close>

lemma parse_u64_code [code]:
  "parse_u64 s =
     (let t = (case strip_prefix s ''+'' of Some r \<Rightarrow> r | None \<Rightarrow> s)
      in if t \<noteq> [] \<and> list_all is_ascii_digit t \<and> int (digits_val t) < 18446744073709551616 then Some (of_nat (digits_val t)) else None)"
proof -
  have "int (digits_val t) < 18446744073709551616 \<longleftrightarrow> digits_val t < 2 ^ 64" for t
    using of_nat_less_iff [of "digits_val t" "2 ^ 64", where 'a = int] by simp
  then show ?thesis
    by (simp add: parse_u64_def)
qed

text \<open>A chain of two links, written as one letter each.\<close>

definition genesis :: chain_link where
  "genesis = \<lparr>ln_seq = 0, prev_sha256 = [], created = ''t0'', ln_packages = [(''six'', [(''six-1.whl'', ''aa'')])]\<rparr>"

definition second :: chain_link where
  "second = \<lparr>ln_seq = 1, prev_sha256 = sha256_hex (\<lambda>x. x) ''g'', created = ''t1'', ln_packages = [(''six'', [(''six-2.whl'', sha256_hex (\<lambda>x. x) ''body'')])]\<rparr>"

fun letter_link :: "bytes \<Rightarrow> chain_link option" where
  "letter_link [] = None"
| "letter_link (c # cs) = (if c = CHR ''g'' then Some genesis else if c = CHR ''s'' then Some second else None)"

definition letter_chain :: chain_env where
  "letter_chain = \<lparr>ch_sha = (\<lambda>x. x), link_bytes = (\<lambda>l. Some (show_u64 (ln_seq l) @ prev_sha256 l)), parse_link = letter_link, ch_sidecars = shipped_codec, sidecar_fault = (\<lambda>_. []),
     now_rfc3339 = Some ''t2'', pin_generation_now = (\<lambda>_. 7)\<rparr>"

definition short_chain :: inner where
  "short_chain = snd (store (\<lambda>x. x) (chain_key 0) ''g'' (inner_default 0))"

definition long_chain :: inner where
  "long_chain = snd (store (\<lambda>x. x) (chain_key 1) ''s'' short_chain)"

text \<open>The pin lags behind its peer.\<close>

definition lagging_fleet :: fleet where
  "lagging_fleet = (\<lambda>b. if b = 0 then short_chain else long_chain)"

lemma long_chain_loads:
  "fst (load_chain letter_chain 1 (quiet lagging_fleet)) = Inr [(0, ''g'', genesis), (1, ''s'', second)]"
  "fst (load_chain letter_chain 2 (quiet lagging_fleet)) = Inr [(0, ''g'', genesis), (1, ''s'', second)]"
  by code_simp+

lemma long_chain_integral: "check_integrity (\<lambda>x. x) [(0, ''g'', genesis), (1, ''s'', second)] = []"
  by code_simp

text \<open>The digests of the two letters differ.\<close>

lemma letters_apart: "sha256_hex (\<lambda>x. x) ''s'' \<noteq> sha256_hex (\<lambda>x. x) ''g''"
  by code_simp

theorem head_fixes_history_witness:
  "\<exists>A x B y. fst (load_chain letter_chain 1 (quiet lagging_fleet)) = Inr (A @ [x]) \<and> fst (load_chain letter_chain 2 (quiet lagging_fleet)) = Inr (B @ [y])
     \<and> x = (1, ''s'', second) \<and> A @ [x] = B @ [y]"
proof -
  let ?A = "[(0 :: u64, ''g'', genesis)]" and ?x = "(1 :: u64, ''s'', second)"
  obtain w1 where one: "load_chain letter_chain 1 (quiet lagging_fleet) = (Inr (?A @ [?x]), w1)"
    using long_chain_loads(1) by (metis append_Cons append_Nil prod.collapse)
  obtain w2 where two: "load_chain letter_chain 2 (quiet lagging_fleet) = (Inr (?A @ [?x]), w2)"
    using long_chain_loads(2) by (metis append_Cons append_Nil prod.collapse)
  have "ch_sha letter_chain = (\<lambda>x. x)"
    by (simp add: letter_chain_def)
  then have same: "?A @ [?x] = ?A @ [?x]"
    by - (rule head_fixes_history [OF one two], auto simp: long_chain_integral letters_apart letters_apart [symmetric])
  show ?thesis
    by (intro exI conjI) (rule one [THEN arg_cong [where f = fst], unfolded fst_conv], rule two [THEN arg_cong [where f = fst], unfolded fst_conv], rule refl, rule same)
qed

lemma publishing_shape: "bucket_of publishing_node 0 = 0" "bucket_of publishing_node 1 = 1" "bucket_of publishing_node (Suc 0) = 1" "length (st_handles publishing_node) = 2"
  by (simp_all add: publishing_node_def bucket_of_def st_handles_def pair_set_def bucket_set_new_def)

lemma lagging_facts: "fleet_wf lagging_fleet" "tidy (lagging_fleet b)"
proof -
  have "store_wf short_chain" "store_wf long_chain"
    by (simp_all add: short_chain_def long_chain_def store_wf_store store_wf_default)
  then show "fleet_wf lagging_fleet"
    by (simp add: fleet_wf_def lagging_fleet_def)
  have "tidy short_chain" "tidy long_chain"
    by (auto simp: tidy_def short_chain_def long_chain_def contains_key_def object_at_store bt.get_empty split: if_splits)
  then show "tidy (lagging_fleet b)"
    by (simp add: lagging_fleet_def)
qed

abbreviation one_file :: delta where
  "one_file \<equiv> [(''six'', [(''six-2.whl'', ''bb'')])]"

lemma lagging_append:
  "fst (write_chain_link publishing_node letter_chain 0 7 (Some (1, sha256_hex (\<lambda>x. x) ''s'')) one_file (quiet lagging_fleet)) = Inr True"
  by code_simp


theorem append_only_adds_links_witness:
  "let w = (quiet lagging_fleet)\<lparr>script := [Answered id, Refused (HttpStatus 503) id, Unanswered Timeout id, Answered id, Halt]\<rparr>;
       (r, w') = write_chain_link publishing_node letter_chain 0 7 (Some (1, sha256_hex (\<lambda>x. x) ''s'')) one_file w
   in object_at (buckets w' 1) (chain_key 1) = object_at long_chain (chain_key 1) \<and> object_at (buckets w' 0) ''origin/six'' = None"
proof -
  let ?w = "(quiet lagging_fleet)\<lparr>script := [Answered id, Refused (HttpStatus 503) id, Unanswered Timeout id, Answered id, Halt]\<rparr>"
  let ?G = "\<lambda>fl fl' :: fleet. fl' = fl"
  obtain r w' where run: "write_chain_link publishing_node letter_chain 0 7 (Some (1, sha256_hex (\<lambda>x. x) ''s'')) one_file ?w = (r, w')"
    by fastforce
  have obeys: "obeys ?G ?w"
    by (intro obeys_still) (auto simp: quiet_def lagging_facts)
  have still: "stable ?G P" for P
    by (simp add: stable_def)
  have "object_at (buckets w' 1) (chain_key 1) = object_at long_chain (chain_key 1)"
    by (rule append_only_adds_links [OF _ still obeys _ run]) (simp_all add: quiet_def lagging_fleet_def long_chain_def object_at_store)
  moreover have "object_at (buckets w' 0) ''origin/six'' = None"
  proof (rule append_only_adds_links [OF _ still obeys _ run])
    show "None \<noteq> None \<or> seq_from_key ''origin/six'' = None"
      by code_simp
    show "object_at (buckets ?w 0) ''origin/six'' = None"
      by code_simp
  qed
  ultimately show ?thesis
    by (simp only: Let_def run prod.case)
qed

end
