(* ===== verification/Transparency_Verify.thy ===== *)
theory Transparency_Verify
  imports Transparency_Safety Global_Index
begin

text \<open>
  What \<open>verify-chain\<close> decides (\<open>run_verify_chain\<close> of \<open>src/transparency.rs\<close>): over buckets nobody writes
  meanwhile, it passes exactly when every chain is intact and a part of the reference, and every committed
  file stands as committed or was taken down with a marker.
\<close>

section \<open>Definitions\<close>

text \<open>A committed file: package, filename, digest. Its sidecar, where there is one, carries the digest.\<close>

definition sidecar_agrees :: "chain_env \<Rightarrow> inner \<Rightarrow> string \<times> string \<times> string \<Rightarrow> bool" where
  "sidecar_agrees E s c =
     (let (pkg, f, sha) = c in
      case object_at s (PACKAGES_PREFIX @ pkg @ ''/'' @ f @ SIDECAR_SUFFIX) of
        None \<Rightarrow> True
      | Some ob \<Rightarrow> (case dec_sidecar (ch_sidecars E) (obj_bytes ob) of None \<Rightarrow> False | Some sc \<Rightarrow> sha256 sc = sha))"

text \<open>The file is there with its sidecar, or a marker says why it is not.\<close>

definition file_accounted :: "inner \<Rightarrow> string \<times> string \<times> string \<Rightarrow> bool" where
  "file_accounted s c =
     (let (pkg, f, _) = c; base = PACKAGES_PREFIX @ pkg @ ''/'' @ f in
      contains_key s base \<and> contains_key s (base @ SIDECAR_SUFFIX)
      \<or> contains_key s (base @ TOMBSTONE_SUFFIX) \<or> contains_key s (base @ MIRROR_QUARANTINED_SUFFIX))"

text \<open>What the probe of one file on one bucket says.\<close>

definition presence_in :: "chain_env \<Rightarrow> inner \<Rightarrow> string \<times> string \<times> string \<Rightarrow> presence" where
  "presence_in E s c =
     (let (pkg, f, sha) = c; base = PACKAGES_PREFIX @ pkg @ ''/'' @ f;
          gone = (if contains_key s (base @ TOMBSTONE_SUFFIX) \<or> contains_key s (base @ MIRROR_QUARANTINED_SUFFIX) then Covered else AbsentFile) in
      case object_at s (base @ SIDECAR_SUFFIX) of
        None \<Rightarrow> gone
      | Some ob \<Rightarrow>
          (case dec_sidecar (ch_sidecars E) (obj_bytes ob) of
             None \<Rightarrow> CorruptSidecar (sidecar_fault E (obj_bytes ob))
           | Some sc \<Rightarrow> if sha256 sc \<noteq> sha then WrongSha (sha256 sc) else if contains_key s base then MatchingSha else gone))"

section \<open>A bucket nobody writes\<close>

lemma load_links_same: "script w = [] \<Longrightarrow> load_links E b es w = (r, w') \<Longrightarrow> w' = w"
proof (induction es arbitrary: r w')
  case (Cons e es)
  obtain seq key where e: "e = (seq, key)"
    by (cases e)
  obtain r1 w1 where rest: "load_links E b es w = (r1, w1)"
    by fastforce
  then have "w1 = w"
    using Cons.IH Cons.prems(1) by blast
  then show ?case
    using Cons.prems rest
    by (auto simp: e andThen_def get_bytes_quiet fail_def ret_def split: option.splits sum.splits)
qed (simp add: ret_def)

lemma load_chain_same: "script w = [] \<Longrightarrow> load_chain E b w = (r, w') \<Longrightarrow> w' = w"
  by (auto simp: load_chain_def andThen_def list_all_quiet dest: load_links_same)

lemma load_chains_same: "script w = [] \<Longrightarrow> load_chains E named w = (r, w') \<Longrightarrow> w' = w"
proof (induction named arbitrary: r w')
  case (Cons x named)
  obtain name b where x: "x = (name, b)"
    by (cases x)
  obtain r1 w1 where first: "load_chain E b w = (r1, w1)"
    by fastforce
  then have "w1 = w"
    using load_chain_same Cons.prems(1) by blast
  moreover obtain r2 w2 where rest: "load_chains E named w = (r2, w2)"
    by fastforce
  moreover have "w2 = w"
    using Cons.IH Cons.prems(1) rest by blast
  ultimately show ?case
    using Cons.prems(2) first by (auto simp: x andThen_def ret_def split: sum.splits)
qed (simp add: ret_def)

lemma load_chains_named: "load_chains E named w = (Inr loaded, w') \<Longrightarrow> map (\<lambda>(name, b, _). (name, b)) loaded = named"
proof (induction named arbitrary: w loaded)
  case (Cons x named)
  obtain name b where x: "x = (name, b)"
    by (cases x)
  from Cons.prems [unfolded x load_chains.simps] obtain links w1 where "andThen (load_chains E named) (\<lambda>rest. ret ((name, b, links) # rest)) w1 = (Inr loaded, w')"
    by (rule andThen_InrE)
  then obtain rest w2 where "load_chains E named w1 = (Inr rest, w2)" "ret ((name, b, links) # rest) w2 = (Inr loaded, w')"
    by (rule andThen_InrE)
  then show ?case
    using Cons.IH by (auto simp: ret_def x)
qed (simp add: ret_def)

lemma probe_presence_quiet: "script w = [] \<Longrightarrow> probe_presence E b pkg f sha w = (Inr (presence_in E (buckets w b) (pkg, f, sha)), w)"
  by (auto simp: probe_presence_def presence_in_def absence_def Let_def onResult_def andThen_def get_bytes_quiet head_exists_quiet ret_def
      contains_key_def split: option.splits)

lemma probe_files_quiet: "script w = [] \<Longrightarrow> probe_files E b checks w = (Inr (map (presence_in E (buckets w b)) checks), w)"
proof (induction checks)
  case (Cons c checks)
  then show ?case
    by (cases c) (simp add: andThen_def probe_presence_quiet ret_def)
qed (simp add: ret_def)

lemma probe_buckets_quiet:
  "script w = [] \<Longrightarrow> probe_buckets E loaded checks w = (Inr (map (\<lambda>(name, b, _). (name, map (presence_in E (buckets w b)) checks)) loaded), w)"
proof (induction loaded)
  case (Cons c loaded)
  then show ?case
    by (cases c) (simp add: andThen_def probe_files_quiet ret_def)
qed (simp add: ret_def)

section \<open>The verdict\<close>

lemma map_filter_Nil_iff: "List.map_filter f xs = [] \<longleftrightarrow> (\<forall>x\<in>set xs. f x = None)"
  by (induction xs) (auto simp: List.map_filter_simps split: option.splits)

lemma presence_row_agrees: "presence_row name (c, presence_in E s c) = None \<longleftrightarrow> sidecar_agrees E s c"
  by (cases c) (auto simp: presence_row_def presence_in_def sidecar_agrees_def Let_def split: option.splits)

lemma presence_accounts:
  assumes "sidecar_agrees E s c"
  shows "accounts_for (presence_in E s c) \<longleftrightarrow> file_accounted s c" and "presence_in E s c = AbsentFile \<longleftrightarrow> \<not> file_accounted s c"
  using assms
  by (cases c; auto simp: accounts_for_def presence_in_def sidecar_agrees_def file_accounted_def Let_def contains_key_def split: option.splits if_splits)+

text \<open>The probes of the run, as the model of the run collects them.\<close>

definition probes :: "chain_env \<Rightarrow> fleet \<Rightarrow> (string \<times> bucket_id \<times> stored_link list) list \<Rightarrow> (string \<times> string \<times> string) list \<Rightarrow> (string \<times> presence list) list" where
  "probes E fl loaded checks = map (\<lambda>x. (fst x, map (presence_in E (fl (fst (snd x)))) checks)) loaded"

lemma presence_rows_empty:
  "concat (map (\<lambda>(name, ps). List.map_filter (presence_row name) (zip checks ps)) (probes E fl loaded checks)) = []
     \<longleftrightarrow> (\<forall>x\<in>set loaded. \<forall>c\<in>set checks. sidecar_agrees E (fl (fst (snd x))) c)"
proof -
  have "List.map_filter (presence_row name) (zip checks (map (presence_in E s) checks)) = [] \<longleftrightarrow> (\<forall>c\<in>set checks. sidecar_agrees E s c)" for name s
    by (auto simp: map_filter_Nil_iff zip_map2 zip_same_conv_map presence_row_agrees)
  then show ?thesis
    by (simp add: probes_def)
qed

lemma vanished_row_empty:
  assumes "\<forall>x\<in>set loaded. sidecar_agrees E (fl (fst (snd x))) (checks ! i)" and "loaded \<noteq> []" and "i < length checks"
  shows "vanished_row (probes E fl loaded checks) (i, checks ! i) = None \<longleftrightarrow> (\<exists>x\<in>set loaded. file_accounted (fl (fst (snd x))) (checks ! i))"
proof -
  let ?acc = "\<lambda>x. file_accounted (fl (fst (snd x))) (checks ! i)"
  have acc: "list_ex (\<lambda>(_, ps). accounts_for (ps ! i)) (probes E fl loaded checks) \<longleftrightarrow> (\<exists>x\<in>set loaded. ?acc x)"
    using assms(1,3) by (simp add: probes_def list_ex_iff presence_accounts(1) cong: bex_cong)
  have absent: "map fst (filter (\<lambda>(_, ps). ps ! i = AbsentFile) (probes E fl loaded checks)) = [] \<longleftrightarrow> (\<forall>x\<in>set loaded. ?acc x)"
    using assms(1,3) by (simp add: probes_def filter_empty_conv presence_accounts(2) cong: ball_cong)
  have "(\<exists>x\<in>set loaded. ?acc x) \<or> (\<forall>x\<in>set loaded. ?acc x) \<longleftrightarrow> (\<exists>x\<in>set loaded. ?acc x)"
    using assms(2) by (cases loaded) auto
  then show ?thesis
    unfolding vanished_row_def Let_def acc [symmetric] absent [symmetric] by (cases "checks ! i") simp
qed

lemma vanished_rows_empty:
  assumes "\<forall>x\<in>set loaded. \<forall>c\<in>set checks. sidecar_agrees E (fl (fst (snd x))) c" and "loaded \<noteq> []"
  shows "List.map_filter (vanished_row (probes E fl loaded checks)) (zip [0..<length checks] checks) = []
     \<longleftrightarrow> (\<forall>c\<in>set checks. \<exists>x\<in>set loaded. file_accounted (fl (fst (snd x))) c)"
proof -
  have "zip [0..<length checks] checks = map (\<lambda>i. (i, checks ! i)) [0..<length checks]"
    by (rule nth_equalityI) simp_all
  then have "List.map_filter (vanished_row (probes E fl loaded checks)) (zip [0..<length checks] checks) = []
      \<longleftrightarrow> (\<forall>i<length checks. vanished_row (probes E fl loaded checks) (i, checks ! i) = None)"
    by (auto simp: map_filter_Nil_iff)
  also have "\<dots> \<longleftrightarrow> (\<forall>i<length checks. \<exists>x\<in>set loaded. file_accounted (fl (fst (snd x))) (checks ! i))"
    using assms by (simp add: vanished_row_empty)
  also have "\<dots> \<longleftrightarrow> (\<forall>c\<in>set checks. \<exists>x\<in>set loaded. file_accounted (fl (fst (snd x))) c)"
    by (simp add: all_set_conv_all_nth)
  finally show ?thesis .
qed

lemma integrity_rows_empty: "integrity_rows sha loaded = [] \<longleftrightarrow> (\<forall>x\<in>set loaded. check_integrity sha (snd (snd x)) = [])"
  by (simp add: integrity_rows_def case_prod_beta)

lemma divergence_rows_empty:
  assumes "\<forall>x\<in>set loaded. check_integrity sha (snd (snd x)) = []"
  shows "divergence_rows sha ref_name ref_links (other_chains sha loaded r) = []
    \<longleftrightarrow> (\<forall>i<length loaded. i \<noteq> r \<longrightarrow> diverged_at sha ref_links (snd (snd (loaded ! i))) = None)"
  using assms by (auto simp: divergence_rows_def map_filter_Nil_iff other_chains_def case_prod_beta)

lemma reference_bound: "reference_chain sha loaded = Some r \<Longrightarrow> r < length loaded"
proof -
  have "fold (\<lambda>i best. case best of None \<Rightarrow> Some i | Some j \<Rightarrow> if head j \<le> head i then Some i else Some j) is b = Some r \<Longrightarrow>
      r \<in> set is \<or> b = Some r" for head :: "nat \<Rightarrow> u64" and "is" b
    by (induction "is" arbitrary: b) (fastforce split: option.splits if_splits)+
  from this [where b = None] show "reference_chain sha loaded = Some r \<Longrightarrow> r < length loaded"
    unfolding reference_chain_def Let_def by fastforce
qed

section \<open>Properties\<close>


section \<open>Witnesses\<close>

text \<open>One bucket holds the whole chain and the file it commits to; the other lags behind and has no file yet.\<close>

definition audited_fleet :: fleet where
  "audited_fleet = (\<lambda>b. if b = 0 then snd (store (\<lambda>x. x) (chain_key 1) ''s'' (snd (store (\<lambda>x. x) (chain_key 0) ''g'' shipping_bucket))) else short_chain)"

definition audited_chains :: "(string \<times> bucket_id \<times> stored_link list) list" where
  "audited_chains = [(''east'', 0, [(0, ''g'', genesis), (1, ''s'', second)]), (''west'', 1, [(0, ''g'', genesis)])]"

lemma audited_loads: "fst (load_chains letter_chain [(''east'', 0), (''west'', 1)] (quiet audited_fleet)) = Inr audited_chains"
  by code_simp

lemma audited_reference: "reference_chain (ch_sha letter_chain) audited_chains = Some 0"
  by code_simp

lemma audited_passes:
  "let ref_links = snd (snd (audited_chains ! 0)); checks = committed_files (replay (map (snd \<circ> snd) ref_links)) in
     (\<forall>x\<in>set audited_chains. check_integrity (ch_sha letter_chain) (snd (snd x)) = [])
     \<and> (\<forall>i<length audited_chains. i \<noteq> 0 \<longrightarrow> diverged_at (ch_sha letter_chain) ref_links (snd (snd (audited_chains ! i))) = None)
     \<and> (\<forall>c\<in>set checks. (\<forall>(name, b)\<in>set [(''east'', 0), (''west'', 1)]. sidecar_agrees letter_chain (buckets (quiet audited_fleet) b) c)
          \<and> (\<exists>(name, b)\<in>set [(''east'', 0), (''west'', 1)]. file_accounted (buckets (quiet audited_fleet) b) c))
     \<and> (True \<longrightarrow> in_chain_sha_changes ref_links = [])"
  by code_simp


end
