(* ===== verification/Spec2Isabelle.thy ===== *)
theory Spec2Isabelle
  imports Prelude Names Hash Layout Sidecar Ordered_Map Object_Store Interleaving Origin Decide
    Project_Status Http_Range Install_Token Markers Lease Removal Tombstone Fences Fence_Safety Demotion Executor Body_Safety Convergence
    Removal_Gate Ip_Addr Ssrf_Guard Denylist Excludes Bucket_Health Auth Login_Throttle
    Topology Observed_Storage Confinement Repl_Notes Fanout Sweep Reconcile
    Upload_Form Publish Frames Publish_Safety Render Global_Index
    Sidecar_Cache Rebuild Rebuild_Memo Rebuild_Safety Drain_Safety Transparency Transparency_Safety Transparency_Verify
begin

text \<open>
  \<^bold>\<open>Verification of pypiron\<close>

  pypiron is a Python package index kept in one or more object-store buckets. Every server process
  may write every bucket; the buckets are made to agree by a symmetric merge, and every irreversible
  step (a delete, a byte conflict, a mirror package turned private) leaves a durable marker, a fence.
  What is stored under \<open>packages/\<close> is the truth; the pages under \<open>simple/\<close> are derived from it by a
  worker that is driven by dirty markers. This development models the code that decides and performs
  those steps, the documents and keys they work on, and the parsers and checks whose errors would be
  security errors.

  \<^bold>\<open>Parts and theories\<close> (source files under \<open>src/src/\<close>)

  \<^item> Foundations. \<open>Prelude\<close>: Rust strings, \<open>u64\<close> and \<open>i64\<close> arithmetic, the result monad. \<open>Ordered_Map\<close>: the
    \<open>BTreeMap\<close> interface as a locale and its implementation. \<open>Names\<close> (\<open>names.rs\<close>): PEP 503 normalization,
    the name gate, the filename grammar, version order, reserved-name patterns. \<open>Hash\<close> (\<open>hash.rs\<close>): hex,
    content digest, HMAC. \<open>Layout\<close> (\<open>layout.rs\<close>): the key-prefix registry. \<open>Sidecar\<close> (\<open>sidecar.rs\<close>): the
    metadata document and the companion keys. \<open>Ip_Addr\<close>: what the sources use of \<open>std::net\<close>.
  \<^item> The store. \<open>Object_Store\<close> (\<open>sim.rs\<close>, the fates of a call in \<open>examples/vopr.rs\<close>): the store, with the
    locale \<open>cas_store\<close> for what its clients rely on. A \<open>world\<close> holds the buckets and a script; each
    storage call takes the next step of the script. A step rewrites the buckets, which stands for the
    other writers at an \<open>await\<close> point, and gives the fate of the call: \<open>Answered\<close>, \<open>Refused\<close> with an
    error and no effect, \<open>Unanswered\<close> (the effect happened and the answer is lost), or \<open>Halt\<close>, after which
    the process does nothing more. \<open>Interleaving\<close>: a rely logic over such operations. \<open>Frames\<close>: which
    keys an operation writes. \<open>Confinement\<close>: what an operation may take down.
  \<^item> Records. \<open>Origin\<close> (\<open>origin.rs\<close>): the package claim. \<open>Project_Status\<close> (\<open>status.rs\<close>): the PEP 792
    marker. \<open>Tombstone\<close> (\<open>tombstone.rs\<close>): crash recovery of deletes. \<open>Markers\<close> (\<open>markers.rs\<close>, the marker
    scans of \<open>worker.rs\<close>): write intents and commits. \<open>Lease\<close> (\<open>lease.rs\<close>): the leader lease.
  \<^item> Replication. \<open>Decide\<close> (\<open>replicate/decide.rs\<close>): the merge algebra, pure. \<open>Fences\<close> (\<open>replicate.rs\<close>, the
    verified write of \<open>storage.rs\<close>): the executor's primitives. \<open>Executor\<close> (\<open>replicate.rs\<close>): copying and
    superseding a live record, every verdict and the bracket of re-reads around it, the convergence of
    one record and of one package. \<open>Removal\<close>, \<open>Fence_Safety\<close>, \<open>Demotion\<close>, \<open>Body_Safety\<close> and
    \<open>Convergence\<close>: what they guarantee. \<open>Repl_Notes\<close>, \<open>Fanout\<close>, \<open>Sweep\<close> and \<open>Reconcile\<close> (\<open>replicate.rs\<close>):
    the copy before the acknowledgement, the durable notes of what is owed, their delivery, and the
    paged diff of two buckets. \<open>Removal_Gate\<close> (\<open>replicate.rs\<close>): the paged merge that decides whether a
    bucket may be dropped.
  \<^item> Buckets. \<open>Topology\<close> (\<open>buckets.rs\<close>): pins, configuration checks and the topology stamp.
    \<open>Bucket_Health\<close> (\<open>bucket_health.rs\<close>): health, write selection, read pin. \<open>Observed_Storage\<close>
    (\<open>observed_storage.rs\<close>): how an error becomes a health signal.
  \<^item> Publishing. \<open>Upload_Form\<close> (\<open>publish.rs\<close>, \<open>wheel.rs\<close>): the multipart form and its checks. \<open>Publish\<close>
    (\<open>publish.rs\<close>): the storage protocol of an upload, a yank and a timestamp repair. \<open>Publish_Safety\<close>: what
    they guarantee.
  \<^item> The index. \<open>Render\<close> (\<open>render.rs\<close>): the PEP 503 and PEP 691 documents. \<open>Global_Index\<close> (\<open>worker.rs\<close>): the
    list of all packages. \<open>Sidecar_Cache\<close> (\<open>sidecar_cache.rs\<close>): the memo of parsed sidecars. \<open>Rebuild\<close>
    (\<open>worker.rs\<close>): consumable markers, the listing of a package, its pages, the rebuild and the drain of a
    bucket. \<open>Rebuild_Memo\<close>, \<open>Rebuild_Safety\<close>, \<open>Drain_Safety\<close>: what they guarantee. \<open>Denylist\<close> (\<open>denylist.rs\<close>)
    and \<open>Excludes\<close> (\<open>worker.rs\<close>): excluded packages and their enforcement.
  \<^item> The transparency chain. \<open>Transparency\<close> (\<open>transparency.rs\<close>, the append of \<open>worker.rs\<close>): hash-chained
    checkpoints of every digest, their reconciliation across the buckets, the append and the
    verification of the stored files. \<open>Transparency_Safety\<close>, \<open>Transparency_Verify\<close>: what they guarantee.
  \<^item> The edge. \<open>Auth\<close> and \<open>Login_Throttle\<close> (\<open>auth.rs\<close>, the role checks of \<open>app.rs\<close>), \<open>Install_Token\<close>
    (\<open>token.rs\<close>): signed tokens, \<open>Ssrf_Guard\<close> (\<open>ssrf.rs\<close>): outbound requests, \<open>Http_Range\<close> (\<open>range.rs\<close>).

  \<^bold>\<open>What is shown\<close>

  \<^item> The merge is symmetric, respects the precedence of fences and of private over mirror, and makes any
    number of buckets converge in any order.
  \<^item> No interleaving with peers that keep fences standing, no failed or unanswered call and no crash makes
    a freeze, a delete, the recovery of a delete or any verdict lose a body unaccounted for.
  \<^item> An upload is acknowledged only when it is durable: the home bucket held it and every other bucket
    holds it or is owed a standing note. A note leaves only after the copy it stands for; a sentinel only
    after a clean pass. A record that stands is never changed by an upload, a barred name never taken.
  \<^item> A dirty marker is consumed only once the pages of its package show what is stored and the global
    index lists it; two nodes never lose a name to each other; the memo of sidecars is exact.
  \<^item> The digest of the chain's head fixes its whole history; links are only ever added; a checkpoint spends
    a seq no consistent bucket of the fleet used before; the verification passes exactly when the stored
    files are the committed ones.
  \<^item> Claims follow their lattice, leases have one holder per term, stamps and sidecars never regress,
    under interference by peers that keep to the same order.
  \<^item> Parsers, checks and codecs: normal forms, round trips, bounds on memory and on failed logins, the
    markup of a page is independent of its data, and verification fails closed.

  \<^bold>\<open>Parameters, bounds and fuel\<close>

  \<open>serde_json\<close>, \<open>pep440_rs\<close>, \<open>base64\<close>, \<open>url\<close>, \<open>html_escape\<close>, the zip reader and SHA-256 are parameters; where a
  theorem needs a law of theirs (decoding what was encoded, no digest collision among the documents
  present) it is a hypothesis, and the witness beside the theorem instantiates the parameter. Retry
  loops carry the attempt bound the code has. The paging loops take fuel; the theorems that use them
  show that fuel above the number of objects in the bucket is enough. Etag versions are \<open>u64\<close>, so
  theorems about a write assume that the version counter has not run out. Clock readings are
  arguments. The text of an error message is abbreviated unless the code reads it back.
  Concurrent reads of one \<open>join_all\<close> run one after the other; a future that \<open>select!\<close> drops is cut off after
  an arbitrary number of calls.

  \<^bold>\<open>Not modelled\<close>

  The network backends of \<open>storage.rs\<close>, the HTTP server and the handlers that only translate, the browsing
  site and its page caches, the command line and configuration: I/O and glue over third-party code.
  The upstream proxy and sync streams, the disk spool of an upload, archives and attestation
  verification: I/O and cryptography. Usage counters, metrics and logs: nothing that is stored for a
  package depends on them. Of \<open>worker.rs\<close>, the scheduling of ticks, the drift audit and the reports.
\<close>

end
